(* ===== verification/Prelude.thy ===== *)
theory Prelude
  imports Main "HOL-Library.Word"
begin

text \<open>
  Shared vocabulary of the development.  Rust's machine integers are words of
  \<^verbatim>\<open>HOL-Library.Word\<close>; the kernel is built with the release profile
  (\<^verbatim>\<open>src/rust/Cargo.toml\<close>, no overflow checks), so plain \<open>+\<close>, \<open>-\<close> and \<open>*\<close> wrap around,
  exactly as they do on words.  The theory holds Rust's saturating and checked
  arithmetic, the early-return search loops (\<^verbatim>\<open>for .. if .. return Some(i)\<close>) as
  \<open>find_idx\<close>, and the interface of fixed-size slot tables, which the file-lock
  tables and the IPC tables provide.
\<close>

unbundle bit_operations_syntax

section \<open>Machine integers\<close>

type_synonym u8 = "8 word"
type_synonym u16 = "16 word"
type_synonym u32 = "32 word"
type_synonym u64 = "64 word"
type_synonym i16 = "16 word"
type_synonym i32 = "32 word"
type_synonym i64 = "64 word"

named_theorems machine_arith "unfolding rules for Rust's integer arithmetic"

definition saturating_add :: "'a::len word \<Rightarrow> 'a word \<Rightarrow> 'a word" where
  "saturating_add a b = (if unat a + unat b < 2 ^ LENGTH('a) then a + b else - 1)"

definition saturating_sub :: "'a::len word \<Rightarrow> 'a word \<Rightarrow> 'a word" where
  "saturating_sub a b = (if a < b then 0 else a - b)"

text \<open>\<^verbatim>\<open>div_ceil\<close> of unsigned integers.\<close>

definition div_ceil :: "'a::len word \<Rightarrow> 'a word \<Rightarrow> 'a word" where
  "div_ceil a b = (if a mod b = 0 then a div b else a div b + 1)"

definition saturating_mul :: "'a::len word \<Rightarrow> 'a word \<Rightarrow> 'a word" where
  "saturating_mul a b = (if unat a * unat b < 2 ^ LENGTH('a) then a * b else - 1)"

definition checked_add :: "'a::len word \<Rightarrow> 'a word \<Rightarrow> 'a word option" where
  "checked_add a b = (if unat a + unat b < 2 ^ LENGTH('a) then Some (a + b) else None)"

definition checked_sub :: "'a::len word \<Rightarrow> 'a word \<Rightarrow> 'a word option" where
  "checked_sub a b = (if b \<le> a then Some (a - b) else None)"

definition checked_mul :: "'a::len word \<Rightarrow> 'a word \<Rightarrow> 'a word option" where
  "checked_mul a b = (if unat a * unat b < 2 ^ LENGTH('a) then Some (a * b) else None)"

lemma unat_bound: "unat (a :: 'a::len word) < 2 ^ LENGTH('a)"
  by (rule unsigned_less)

lemma unat_max_word: "unat (- 1 :: 'a::len word) = 2 ^ LENGTH('a) - 1"
proof -
  have "uint (- 1 :: 'a word) = 2 ^ LENGTH('a) - 1"
    by (simp add: unsigned_minus_1_eq_mask mask_eq_exp_minus_1)
  then show ?thesis
    by (simp add: unat_eq_nat_uint nat_diff_distrib nat_power_eq)
qed

lemma unat_saturating_add [machine_arith]:
  "unat (saturating_add a b) = min (unat a + unat b) (2 ^ LENGTH('a) - 1)"
  for a b :: "'a::len word"
  by (auto simp: saturating_add_def unat_max_word unat_word_ariths)

lemma unat_saturating_sub [machine_arith]:
  "unat (saturating_sub a b) = unat a - unat b"
  for a b :: "'a::len word"
  by (auto simp: saturating_sub_def word_less_nat_alt unat_sub_if')

lemma checked_add_SomeD:
  "checked_add a b = Some c \<Longrightarrow> unat c = unat a + unat b"
  by (auto simp: checked_add_def unat_word_ariths split: if_splits)

lemma checked_sub_SomeD:
  "checked_sub a b = Some c \<Longrightarrow> unat c = unat a - unat b \<and> unat b \<le> unat a"
  by (auto simp: checked_sub_def word_le_nat_alt unat_sub_if' split: if_splits)

lemma checked_mul_SomeD:
  "checked_mul a b = Some c \<Longrightarrow> unat c = unat a * unat b"
  by (auto simp: checked_mul_def unat_word_ariths split: if_splits)

lemma unat_add_1_bounded:
  "unat a < n \<Longrightarrow> n < 2 ^ LENGTH('a) \<Longrightarrow> unat (a + 1) = Suc (unat a)"
  for a :: "'a::len word"
  by (simp add: unat_word_ariths)

lemma unat_word_of_nat_small: "n < 2 ^ LENGTH('a) \<Longrightarrow> unat (word_of_nat n :: 'a::len word) = n"
  by (simp add: unat_of_nat)

lemma unat_ucast_up:
  fixes w :: "'a::len word"
  assumes "LENGTH('a) \<le> LENGTH('b::len)"
  shows "unat (ucast w :: 'b word) = unat w"
proof -
  have "unat w < 2 ^ LENGTH('b)"
    using unat_bound [of w] assms by (meson less_le_trans one_le_numeral power_increasing)
  then show ?thesis by (simp add: unsigned_ucast_eq take_bit_nat_eq_self)
qed

lemma unat_div_ceil_general:
  fixes a b :: "'a::len word"
  assumes "0 < b" "unat a + unat b < 2 ^ LENGTH('a)"
  shows "unat (div_ceil a b) = (unat a + (unat b - 1)) div unat b"
proof -
  have b: "0 < unat b" using assms(1) by (simp add: word_less_nat_alt)
  have q: "unat a div unat b \<le> unat a" by (rule div_le_dividend)
  have s: "unat (a div b + 1) = unat a div unat b + 1"
  proof -
    have "unat a div unat b < 2 ^ LENGTH('a)" "Suc (unat a div unat b) < 2 ^ LENGTH('a)"
      using q assms(2) b by linarith+
    then show ?thesis by (simp add: unat_word_ariths unat_div)
  qed
  have m: "a mod b = 0 \<longleftrightarrow> unat a mod unat b = 0" by (simp add: unat_mod flip: unat_eq_zero)
  have "(x + (y - 1)) div y = (if x mod y = 0 then x div y else x div y + 1)" if "0 < y" for x y :: nat
  proof -
    have r: "x mod y < y" using that by simp
    have "(x + (y - 1)) div y = (x div y * y + (x mod y + (y - 1))) div y"
      by (simp flip: add.assoc)
    also have "\<dots> = x div y + (x mod y + (y - 1)) div y"
      using that by (subst div_mult_self3) simp_all
    also have "(x mod y + (y - 1)) div y = (if x mod y = 0 then 0 else 1)"
      using that r by (intro div_nat_eqI) auto
    finally show ?thesis by simp
  qed
  then show ?thesis using b s m by (simp add: div_ceil_def unat_div)
qed

lemma word_add_overflow_iff: "a + b < a \<longleftrightarrow> 2 ^ LENGTH('a) \<le> unat a + unat b"
  for a b :: "'a::len word"
proof (cases "unat a + unat b < 2 ^ LENGTH('a)")
  case True
  then show ?thesis by (simp add: word_less_nat_alt unat_word_ariths)
next
  case False
  have "unat a + unat b - 2 ^ LENGTH('a) < unat a" "unat a + unat b - 2 ^ LENGTH('a) < 2 ^ LENGTH('a)"
    using False unat_bound [of a] unat_bound [of b] by linarith+
  with False show ?thesis
    by (simp add: word_less_nat_alt unat_word_ariths le_mod_geq)
qed

lemma saturating_add_code [code]:
  "saturating_add a b = (if a + b < a then - 1 else a + b)"
  by (auto simp: saturating_add_def word_add_overflow_iff)

lemma checked_add_code [code]:
  "checked_add a b = (if a + b < a then None else Some (a + b))"
  by (auto simp: checked_add_def word_add_overflow_iff)

lemma word_less_add_1: "n \<noteq> - 1 \<Longrightarrow> n < n + 1" for n :: "'a::len word"
proof -
  assume "n \<noteq> - 1"
  then have "unat n \<noteq> 2 ^ LENGTH('a) - 1" by (metis unat_max_word word_unat_eq_iff)
  then have "unat n + 1 < 2 ^ LENGTH('a)" using unat_bound [of n] by linarith
  then show "n < n + 1" by (simp add: word_less_nat_alt unat_word_ariths)
qed

section \<open>Panics and bytes\<close>

text \<open>A Rust function that may panic (an index out of bounds) returns \<open>Panic\<close> or \<open>Ret\<close> its value.\<close>

datatype 'a panics = Panic | Ret 'a

primrec panic_bind :: "'a panics \<Rightarrow> ('a \<Rightarrow> 'b panics) \<Rightarrow> 'b panics" where
  "panic_bind Panic f = Panic"
| "panic_bind (Ret a) f = f a"

lemma panic_bind_RetE: "panic_bind m f = Ret b \<Longrightarrow> (\<And>a. m = Ret a \<Longrightarrow> f a = Ret b \<Longrightarrow> thesis) \<Longrightarrow> thesis"
  by (cases m) auto

text \<open>\<^verbatim>\<open>from_ne_bytes\<close> and \<^verbatim>\<open>to_ne_bytes\<close> on the little-endian targets of the kernel.\<close>

fun of_le_bytes :: "u8 list \<Rightarrow> 'a::len word" where
  "of_le_bytes [] = 0"
| "of_le_bytes (b # bs) = ucast b OR push_bit 8 (of_le_bytes bs)"

definition to_le_bytes :: "nat \<Rightarrow> 'a::len word \<Rightarrow> u8 list" where
  "to_le_bytes n w = map (\<lambda>i. ucast (drop_bit (8 * i) w)) [0 ..< n]"

lemma length_to_le_bytes [simp]: "length (to_le_bytes n w) = n"
  by (simp add: to_le_bytes_def)

lemma bit_of_le_bytes:
  "bit (of_le_bytes bs :: 'a::len word) i \<longleftrightarrow>
     i < LENGTH('a) \<and> i div 8 < length bs \<and> bit (bs ! (i div 8)) (i mod 8)"
proof (induction bs arbitrary: i)
  case Nil
  then show ?case by simp
next
  case (Cons b bs)
  show ?case
  proof (cases "i < 8")
    case True
    then show ?thesis by (auto simp: bit_or_iff bit_ucast_iff bit_push_bit_iff)
  next
    case False
    then have "i div 8 = Suc ((i - 8) div 8)" "(i - 8) mod 8 = i mod 8"
      by (simp_all add: le_div_geq le_mod_geq)
    moreover have "\<not> bit b i" using False by (auto dest: bit_imp_le_length)
    ultimately show ?thesis
      using False by (auto simp: bit_or_iff bit_ucast_iff bit_push_bit_iff Cons.IH)
  qed
qed

lemma of_le_bytes_inject:
  assumes len: "length xs = length ys" "8 * length xs \<le> LENGTH('a)"
    and eq: "(of_le_bytes xs :: 'a::len word) = of_le_bytes ys"
  shows "xs = ys"
proof (rule nth_equalityI)
  show "length xs = length ys" by (rule len(1))
  fix i assume i: "i < length xs"
  show "xs ! i = ys ! i"
  proof (rule bit_word_eqI)
    fix n assume n: "n < LENGTH(8)"
    let ?j = "8 * i + n"
    have j: "?j div 8 = i" "?j mod 8 = n" "?j < LENGTH('a)"
      using n i len(2) by simp_all
    have "bit (of_le_bytes xs :: 'a word) ?j = bit (of_le_bytes ys :: 'a word) ?j"
      by (simp only: eq)
    with j i len(1) show "bit (xs ! i) n = bit (ys ! i) n"
      by (simp only: bit_of_le_bytes) simp
  qed
qed

lemma of_to_le_bytes:
  fixes w :: "'a::len word"
  assumes "LENGTH('a) \<le> 8 * n"
  shows "of_le_bytes (to_le_bytes n w) = w"
proof (rule bit_word_eqI)
  fix i assume i: "i < LENGTH('a)"
  then have "i div 8 < n" using assms by (simp add: less_mult_imp_div_less mult.commute)
  moreover have "8 * (i div 8) + i mod 8 = i" by simp
  moreover have "i mod 8 < LENGTH(8)" by simp
  ultimately show "bit (of_le_bytes (to_le_bytes n w) :: 'a word) i = bit w i"
    using i by (simp add: bit_of_le_bytes to_le_bytes_def bit_ucast_iff bit_drop_bit_eq add.commute
        del: len_num0 len_num1 len_bit0)
qed

section \<open>Search loops with an early return\<close>

text \<open>
  \<^verbatim>\<open>for (i, e) in table.iter().enumerate() { if P(e) { return Some(i) } } None\<close>
  is \<open>find_idx P table\<close>; the loops that return the entry are \<open>List.find\<close>.
\<close>

primrec find_idx :: "('a \<Rightarrow> bool) \<Rightarrow> 'a list \<Rightarrow> nat option" where
  "find_idx P [] = None"
| "find_idx P (x # xs) = (if P x then Some 0 else map_option Suc (find_idx P xs))"

lemma find_idx_None_iff: "find_idx P xs = None \<longleftrightarrow> (\<forall>x \<in> set xs. \<not> P x)"
  by (induction xs) auto

lemma find_idx_Some_iff:
  "find_idx P xs = Some i \<longleftrightarrow> i < length xs \<and> P (xs ! i) \<and> (\<forall>j < i. \<not> P (xs ! j))"
proof (induction xs arbitrary: i)
  case Nil
  then show ?case by simp
next
  case (Cons x xs)
  show ?case
    by (cases i) (auto simp: Cons.IH less_Suc_eq_0_disj)
qed

lemma find_idx_SomeD:
  assumes "find_idx P xs = Some i"
  shows "i < length xs" and "P (xs ! i)" and "\<And>j. j < i \<Longrightarrow> \<not> P (xs ! j)"
  using assms by (simp_all add: find_idx_Some_iff)

lemma find_idx_unique:
  assumes "i < length xs" "P (xs ! i)"
    and "\<And>j. j < length xs \<Longrightarrow> P (xs ! j) \<Longrightarrow> j = i"
  shows "find_idx P xs = Some i"
proof -
  have "\<not> P (xs ! j)" if "j < i" for j
    using assms(1) assms(3) [of j] that by linarith
  with assms(1,2) show ?thesis by (simp add: find_idx_Some_iff)
qed

lemma find_eq_None_iff: "List.find P xs = None \<longleftrightarrow> (\<forall>x \<in> set xs. \<not> P x)"
  by (auto simp: find_None_iff)

lemma nth_list_update_if:
  "xs[i := x] ! j = (if i = j \<and> j < length xs then x else xs ! j)"
  by (cases "i = j"; cases "j < length xs") (auto simp: list_update_beyond)

lemma in_set_list_update_iff:
  assumes "i < length xs"
  shows "x \<in> set (xs[i := e]) \<longleftrightarrow> x = e \<or> (\<exists>j < length xs. j \<noteq> i \<and> xs ! j = x)"
proof
  assume "x \<in> set (xs[i := e])"
  then obtain j where "j < length xs" "xs[i := e] ! j = x"
    by (auto simp: in_set_conv_nth)
  then show "x = e \<or> (\<exists>j < length xs. j \<noteq> i \<and> xs ! j = x)"
    by (cases "j = i") auto
next
  assume "x = e \<or> (\<exists>j < length xs. j \<noteq> i \<and> xs ! j = x)"
  then show "x \<in> set (xs[i := e])"
    using set_update_memI [OF assms] by (metis length_list_update nth_list_update_neq nth_mem)
qed

lemma option_eqI: "(\<And>x. a = Some x \<longleftrightarrow> b = Some x) \<Longrightarrow> a = b"
  by (cases a; cases b) auto

text \<open>Rust's \<^verbatim>\<open>Vec::swap_remove\<close>: the last element takes the place of the removed one.\<close>

definition swap_remove :: "'a list \<Rightarrow> nat \<Rightarrow> 'a list" where
  "swap_remove xs i = butlast (xs[i := last xs])"

lemma length_swap_remove [simp]: "length (swap_remove xs i) = length xs - 1"
  by (simp add: swap_remove_def)

lemma swap_remove_distinct:
  assumes "distinct xs" "i < length xs"
  shows "set (swap_remove xs i) = set xs - {xs ! i}" "distinct (swap_remove xs i)"
proof -
  obtain ys l where xs: "xs = ys @ [l]"
    using assms(2) by (metis append_butlast_last_id length_greater_0_conv less_zeroE list.size(3))
  have "set (swap_remove xs i) = set xs - {xs ! i} \<and> distinct (swap_remove xs i)"
  proof (cases "i < length ys")
    case True
    then have "swap_remove xs i = ys[i := l]"
      by (simp add: swap_remove_def xs list_update_append)
    moreover have "set (ys[i := l]) = insert l (set ys - {ys ! i})"
      using assms(1) xs True by (simp add: set_update_distinct)
    moreover have "distinct (ys[i := l])"
      using assms(1) xs True by (intro distinct_list_update) auto
    ultimately show ?thesis using assms(1) xs True by (auto simp: nth_append)
  next
    case False
    with assms(2) xs have "i = length ys" by simp
    then have "swap_remove xs i = ys" by (simp add: swap_remove_def xs)
    with assms(1) xs \<open>i = length ys\<close> show ?thesis by auto
  qed
  then show "set (swap_remove xs i) = set xs - {xs ! i}" "distinct (swap_remove xs i)" by auto
qed

text \<open>\<^verbatim>\<open>copy_from_slice\<close> into a part of a buffer.\<close>

definition put_slice :: "'a list \<Rightarrow> nat \<Rightarrow> 'a list \<Rightarrow> 'a list" where
  "put_slice d addr bs = take addr d @ bs @ drop (addr + length bs) d"

lemma length_put_slice: "addr + length bs \<le> length d \<Longrightarrow> length (put_slice d addr bs) = length d"
  by (simp add: put_slice_def)

lemma nth_put_slice:
  "addr + length bs \<le> length d \<Longrightarrow> i < length d \<Longrightarrow>
   put_slice d addr bs ! i = (if addr \<le> i \<and> i < addr + length bs then bs ! (i - addr) else d ! i)"
  by (auto simp: put_slice_def nth_append min_def)

section \<open>Slot tables\<close>

text \<open>
  Several kernel tables are arrays of a fixed size whose entries carry their own
  \<open>valid\<close> mark (a flag, or a non-zero id).  A slot is filled in place and cleared
  in place.  \<open>used_slots\<close> is the number of occupied slots, which the code tracks
  in a separate counter.
\<close>

definition used_slots :: "('e \<Rightarrow> bool) \<Rightarrow> 'e list \<Rightarrow> nat" where
  "used_slots v xs = length (filter v xs)"

definition clear_slots :: "('e \<Rightarrow> bool) \<Rightarrow> ('e \<Rightarrow> 'e) \<Rightarrow> 'e list \<Rightarrow> 'e list" where
  "clear_slots P c xs = map (\<lambda>e. if P e then c e else e) xs"

lemma length_clear_slots [simp]: "length (clear_slots P c xs) = length xs"
  by (simp add: clear_slots_def)

lemma nth_clear_slots [simp]:
  "i < length xs \<Longrightarrow> clear_slots P c xs ! i = (if P (xs ! i) then c (xs ! i) else xs ! i)"
  by (simp add: clear_slots_def)

lemma used_slots_le [simp]: "used_slots v xs \<le> length xs"
  by (simp add: used_slots_def)

lemma used_slots_replicate [simp]: "\<not> v e \<Longrightarrow> used_slots v (replicate n e) = 0"
  by (simp add: used_slots_def)

lemma used_slots_split:
  assumes "i < length xs"
  shows "used_slots v xs =
    used_slots v (take i xs) + (if v (xs ! i) then 1 else 0) + used_slots v (drop (Suc i) xs)"
  by (subst id_take_nth_drop [OF assms]) (simp add: used_slots_def)

lemma used_slots_update:
  assumes "i < length xs"
  shows "used_slots v (xs[i := e]) + (if v (xs ! i) then 1 else 0)
    = used_slots v xs + (if v e then 1 else 0)"
  using assms used_slots_split [OF assms, of v]
  by (simp add: upd_conv_take_nth_drop used_slots_def)

lemma used_slots_less:
  assumes "i < length xs" "\<not> v (xs ! i)"
  shows "used_slots v xs < length xs"
proof -
  have "used_slots v (take i xs) \<le> i" "used_slots v (drop (Suc i) xs) \<le> length xs - Suc i"
    using assms(1) used_slots_le [of v "take i xs"] used_slots_le [of v "drop (Suc i) xs"]
    by simp_all
  then show ?thesis
    using used_slots_split [OF assms(1), of v] assms by simp
qed

lemma used_slots_eq_length:
  "used_slots v xs = length xs \<longleftrightarrow> (\<forall>x \<in> set xs. v x)"
proof (induction xs)
  case (Cons x xs)
  have "used_slots v xs \<noteq> Suc (length xs)"
    using used_slots_le [of v xs] by linarith
  with Cons show ?case by (auto simp: used_slots_def)
qed (simp add: used_slots_def)

locale slot_table =
  fixes valid :: "'e \<Rightarrow> bool"
    and clear :: "'e \<Rightarrow> 'e"
  assumes clear_invalid: "\<not> valid (clear e)"
begin

lemma used_fill:
  "i < length xs \<Longrightarrow> \<not> valid (xs ! i) \<Longrightarrow> valid e \<Longrightarrow>
   used_slots valid (xs[i := e]) = Suc (used_slots valid xs)"
  using used_slots_update [of i xs valid e] by simp

lemma used_keep:
  "i < length xs \<Longrightarrow> valid (xs ! i) \<Longrightarrow> valid e \<Longrightarrow>
   used_slots valid (xs[i := e]) = used_slots valid xs"
  using used_slots_update [of i xs valid e] by simp

lemma used_release:
  "i < length xs \<Longrightarrow> valid (xs ! i) \<Longrightarrow>
   used_slots valid xs = Suc (used_slots valid (xs[i := clear d]))"
  using used_slots_update [of i xs valid "clear d"] clear_invalid [of d] by simp

lemma used_clear:
  assumes "\<And>e. P e \<Longrightarrow> valid e"
  shows "used_slots valid (clear_slots P clear xs) + length (filter P xs) = used_slots valid xs"
  using assms clear_invalid
  by (induction xs) (auto simp: used_slots_def clear_slots_def)

lemma valid_after_clear:
  "i < length xs \<Longrightarrow> valid (clear_slots P clear xs ! i) \<longleftrightarrow> valid (xs ! i) \<and> \<not> P (xs ! i)"
  by (simp add: clear_invalid)

lemma free_slot_exists:
  "used_slots valid xs < length xs \<longleftrightarrow> find_idx (\<lambda>e. \<not> valid e) xs \<noteq> None"
proof -
  have "used_slots valid xs < length xs \<longleftrightarrow> used_slots valid xs \<noteq> length xs"
    using used_slots_le [of valid xs] by linarith
  then show ?thesis by (auto simp: used_slots_eq_length find_idx_None_iff)
qed

end

end
