(* ===== verification/Lock_Table.thy ===== *)
theory Lock_Table
  imports Prelude
begin

text \<open>
  The contract shared by the two advisory lock tables of
  \<^verbatim>\<open>src/src/kernel/services/fs/flock.rs\<close>: a slot table whose entries have an owner and a
  symmetric conflict relation.  A table is \<open>conflict_free\<close> when no two valid entries of
  different owners conflict; the locale shows which slot updates keep that.
\<close>

definition conflict_free ::
    "('e \<Rightarrow> bool) \<Rightarrow> ('e \<Rightarrow> 'p) \<Rightarrow> ('e \<Rightarrow> 'e \<Rightarrow> bool) \<Rightarrow> 'e list \<Rightarrow> bool" where
  "conflict_free v own cf xs \<longleftrightarrow>
     (\<forall>a \<in> set xs. \<forall>b \<in> set xs. v a \<and> v b \<and> own a \<noteq> own b \<longrightarrow> \<not> cf a b)"

definition unique_keys :: "('e \<Rightarrow> bool) \<Rightarrow> ('e \<Rightarrow> 'k) \<Rightarrow> 'e list \<Rightarrow> bool" where
  "unique_keys v key xs \<longleftrightarrow>
     (\<forall>i < length xs. \<forall>j < length xs. v (xs ! i) \<and> v (xs ! j) \<and> key (xs ! i) = key (xs ! j)
        \<longrightarrow> i = j)"

lemma conflict_freeD:
  "conflict_free v own cf xs \<Longrightarrow> a \<in> set xs \<Longrightarrow> b \<in> set xs \<Longrightarrow> v a \<Longrightarrow> v b \<Longrightarrow>
   own a \<noteq> own b \<Longrightarrow> \<not> cf a b"
  by (auto simp: conflict_free_def)

lemma unique_keysD:
  "unique_keys v key xs \<Longrightarrow> i < length xs \<Longrightarrow> j < length xs \<Longrightarrow> v (xs ! i) \<Longrightarrow> v (xs ! j) \<Longrightarrow>
   key (xs ! i) = key (xs ! j) \<Longrightarrow> i = j"
  by (auto simp: unique_keys_def)

lemma unique_keys_update:
  assumes uniq: "unique_keys v key xs"
    and other: "\<And>j. j < length xs \<Longrightarrow> j \<noteq> i \<Longrightarrow> v (xs ! j) \<Longrightarrow> v e \<Longrightarrow> key (xs ! j) \<noteq> key e"
  shows "unique_keys v key (xs[i := e])"
  unfolding unique_keys_def
proof (intro allI impI)
  fix a b
  assume ab: "a < length (xs[i := e])" "b < length (xs[i := e])"
    and eq: "v (xs[i := e] ! a) \<and> v (xs[i := e] ! b) \<and> key (xs[i := e] ! a) = key (xs[i := e] ! b)"
  consider "a = i" "b = i" | "a = i" "b \<noteq> i" | "a \<noteq> i" "b = i" | "a \<noteq> i" "b \<noteq> i"
    by blast
  then show "a = b"
  proof cases
    case 1
    then show ?thesis by simp
  next
    case 2
    with ab eq other [of b] show ?thesis by simp
  next
    case 3
    with ab eq other [of a] show ?thesis by simp
  next
    case 4
    with ab eq unique_keysD [OF uniq, of a b] show ?thesis by simp
  qed
qed

lemma unique_keys_update_fresh:
  assumes "unique_keys v key xs" "\<And>x. x \<in> set xs \<Longrightarrow> v x \<Longrightarrow> key x \<noteq> key e"
  shows "unique_keys v key (xs[i := e])"
  by (rule unique_keys_update [OF assms(1)]) (use assms(2) in simp)

lemma unique_keys_update_same:
  assumes "unique_keys v key xs" "i < length xs" "v (xs ! i)" "key e = key (xs ! i)"
  shows "unique_keys v key (xs[i := e])"
  by (rule unique_keys_update [OF assms(1)]) (use assms unique_keysD in metis)

lemma unique_keys_replicate [simp]: "\<not> v e \<Longrightarrow> unique_keys v key (replicate n e)"
  by (simp add: unique_keys_def)

section \<open>The map a slot table stands for\<close>

definition slot_map :: "('e \<Rightarrow> bool) \<Rightarrow> ('e \<Rightarrow> 'k) \<Rightarrow> 'e list \<Rightarrow> 'k \<rightharpoonup> 'e" where
  "slot_map v key xs k = List.find (\<lambda>e. v e \<and> key e = k) xs"

lemma slot_map_None_iff: "slot_map v key xs k = None \<longleftrightarrow> (\<forall>e \<in> set xs. v e \<longrightarrow> key e \<noteq> k)"
  by (auto simp: slot_map_def find_None_iff)

lemma slot_map_SomeD: "slot_map v key xs k = Some e \<Longrightarrow> e \<in> set xs \<and> v e \<and> key e = k"
  by (auto simp: slot_map_def find_Some_iff)

lemma slot_map_nth:
  assumes "unique_keys v key xs" "i < length xs" "v (xs ! i)"
  shows "slot_map v key xs (key (xs ! i)) = Some (xs ! i)"
  unfolding slot_map_def find_Some_iff
proof (intro exI conjI allI impI)
  fix j assume "j < i"
  then show "\<not> (v (xs ! j) \<and> key (xs ! j) = key (xs ! i))"
    using unique_keysD [OF assms(1), of j i] assms(2,3) by auto
qed (use assms in auto)

lemma slot_map_eqI:
  assumes "unique_keys v key xs" "e \<in> set xs" "v e"
  shows "slot_map v key xs (key e) = Some e"
  using assms slot_map_nth [OF assms(1)] by (auto simp: in_set_conv_nth)

lemma slot_map_Some_iff:
  assumes "unique_keys v key xs"
  shows "slot_map v key xs k = Some e \<longleftrightarrow> e \<in> set xs \<and> v e \<and> key e = k"
  using slot_map_eqI [OF assms] slot_map_SomeD by metis

lemma slot_map_update:
  assumes uniq: "unique_keys v key xs" and i: "i < length xs" and e: "v e"
    and other: "\<And>j. j < length xs \<Longrightarrow> j \<noteq> i \<Longrightarrow> v (xs ! j) \<Longrightarrow> key (xs ! j) \<noteq> key e"
    and same: "v (xs ! i) \<Longrightarrow> key (xs ! i) = key e"
  shows "slot_map v key (xs[i := e]) = (slot_map v key xs)(key e \<mapsto> e)"
proof
  fix k
  have uniq': "unique_keys v key (xs[i := e])"
    using unique_keys_update [OF uniq] other by metis
  show "slot_map v key (xs[i := e]) k = ((slot_map v key xs)(key e \<mapsto> e)) k"
  proof (cases "k = key e")
    case True
    then show ?thesis
      using slot_map_eqI [OF uniq' set_update_memI [OF i] e] by simp
  next
    case False
    have "x \<in> set (xs[i := e]) \<and> v x \<and> key x = k \<longleftrightarrow> x \<in> set xs \<and> v x \<and> key x = k" for x
      using False same i e by (metis in_set_list_update_iff [OF i] in_set_conv_nth)
    then have "slot_map v key (xs[i := e]) k = Some x \<longleftrightarrow> slot_map v key xs k = Some x" for x
      by (simp add: slot_map_Some_iff [OF uniq] slot_map_Some_iff [OF uniq'])
    then have "slot_map v key (xs[i := e]) k = slot_map v key xs k"
      by (rule option_eqI)
    with False show ?thesis by simp
  qed
qed

lemma card_dom_slot_map:
  assumes "unique_keys v key xs"
  shows "card (dom (slot_map v key xs)) = used_slots v xs"
proof -
  let ?I = "{i. i < length xs \<and> v (xs ! i)}"
  have "dom (slot_map v key xs) = (\<lambda>i. key (xs ! i)) ` ?I"
  proof (rule set_eqI)
    fix k
    have "k \<in> dom (slot_map v key xs) \<longleftrightarrow> slot_map v key xs k \<noteq> None" by auto
    also have "\<dots> \<longleftrightarrow> (\<exists>i < length xs. v (xs ! i) \<and> key (xs ! i) = k)"
      by (simp add: slot_map_None_iff all_set_conv_all_nth)
    finally show "k \<in> dom (slot_map v key xs) \<longleftrightarrow> k \<in> (\<lambda>i. key (xs ! i)) ` ?I" by auto
  qed
  moreover have "inj_on (\<lambda>i. key (xs ! i)) ?I"
    using unique_keysD [OF assms] by (auto simp: inj_on_def)
  ultimately have "card (dom (slot_map v key xs)) = card ?I"
    by (simp add: card_image)
  then show ?thesis
    by (simp add: used_slots_def length_filter_conv_card)
qed

locale lock_table = slot_table valid clear
  for valid :: "'e \<Rightarrow> bool" and clear :: "'e \<Rightarrow> 'e" +
  fixes owner :: "'e \<Rightarrow> 'p"
    and conflict :: "'e \<Rightarrow> 'e \<Rightarrow> bool"
  assumes conflict_sym: "conflict a b \<Longrightarrow> conflict b a"
begin

lemma conflict_free_empty:
  "\<not> valid e \<Longrightarrow> conflict_free valid owner conflict (replicate n e)"
  by (simp add: conflict_free_def)

lemma conflict_free_grant:
  assumes "conflict_free valid owner conflict xs"
    and "\<And>b. b \<in> set xs \<Longrightarrow> valid b \<Longrightarrow> owner b \<noteq> owner e \<Longrightarrow> \<not> conflict e b"
  shows "conflict_free valid owner conflict (xs[i := e])"
  unfolding conflict_free_def
proof (intro ballI impI)
  fix a b
  assume ab: "a \<in> set (xs[i := e])" "b \<in> set (xs[i := e])"
    "valid a \<and> valid b \<and> owner a \<noteq> owner b"
  then have "a = e \<or> a \<in> set xs" "b = e \<or> b \<in> set xs"
    using set_update_subset_insert [of xs i e] by auto
  then show "\<not> conflict a b"
    using ab assms conflict_freeD [OF assms(1)] conflict_sym by metis
qed

lemma conflict_free_clear:
  assumes "conflict_free valid owner conflict xs"
  shows "conflict_free valid owner conflict (clear_slots P clear xs)"
  using assms clear_invalid by (auto simp: conflict_free_def clear_slots_def)

lemma conflict_free_release:
  assumes "conflict_free valid owner conflict xs"
  shows "conflict_free valid owner conflict (xs[i := clear d])"
  unfolding conflict_free_def
proof (intro ballI impI)
  fix a b
  assume ab: "a \<in> set (xs[i := clear d])" "b \<in> set (xs[i := clear d])"
    "valid a \<and> valid b \<and> owner a \<noteq> owner b"
  then have "a \<in> set xs" "b \<in> set xs"
    using set_update_subset_insert [of xs i "clear d"] clear_invalid [of d] by auto
  with ab show "\<not> conflict a b"
    using conflict_freeD [OF assms] by blast
qed

lemma unique_keys_release:
  assumes "unique_keys valid key xs"
  shows "unique_keys valid key (xs[i := clear d])"
  by (rule unique_keys_update [OF assms]) (simp add: clear_invalid)

lemma unique_keys_clear:
  assumes "unique_keys valid key xs"
  shows "unique_keys valid key (clear_slots P clear xs)"
  using assms clear_invalid by (auto simp: unique_keys_def)

lemma slot_map_release:
  assumes uniq: "unique_keys valid key xs" and i: "i < length xs" and v: "valid (xs ! i)"
  shows "slot_map valid key (xs[i := clear d]) = (slot_map valid key xs)(key (xs ! i) := None)"
proof
  fix k
  have uniq': "unique_keys valid key (xs[i := clear d])"
    by (rule unique_keys_release [OF uniq])
  have "x \<in> set (xs[i := clear d]) \<and> valid x \<and> key x = k
      \<longleftrightarrow> x \<in> set xs \<and> valid x \<and> key x = k \<and> k \<noteq> key (xs ! i)" for x
    using i v clear_invalid [of d] unique_keysD [OF uniq, of _ i]
    by (metis in_set_list_update_iff [OF i] in_set_conv_nth)
  then have "slot_map valid key (xs[i := clear d]) k = Some x
      \<longleftrightarrow> ((slot_map valid key xs)(key (xs ! i) := None)) k = Some x" for x
    by (auto simp: slot_map_Some_iff [OF uniq] slot_map_Some_iff [OF uniq'])
  then show "slot_map valid key (xs[i := clear d]) k
      = ((slot_map valid key xs)(key (xs ! i) := None)) k"
    by (rule option_eqI)
qed

lemma slot_map_clear:
  assumes uniq: "unique_keys valid key xs"
  shows "slot_map valid key (clear_slots P clear xs) k
    = (case slot_map valid key xs k of None \<Rightarrow> None | Some e \<Rightarrow> if P e then None else Some e)"
proof -
  have uniq': "unique_keys valid key (clear_slots P clear xs)"
    by (rule unique_keys_clear [OF uniq])
  have "x \<in> set (clear_slots P clear xs) \<and> valid x \<longleftrightarrow> x \<in> set xs \<and> valid x \<and> \<not> P x" for x
    unfolding clear_slots_def using clear_invalid by (auto simp: image_iff)
  then have "slot_map valid key (clear_slots P clear xs) k = Some x
      \<longleftrightarrow> slot_map valid key xs k = Some x \<and> \<not> P x" for x
    by (auto simp: slot_map_Some_iff [OF uniq] slot_map_Some_iff [OF uniq'])
  then show ?thesis
    by (intro option_eqI) (auto split: option.split)
qed

end

end
