(* ===== verification/Flock.thy ===== *)
theory Flock
  imports Lock_Table
begin

text \<open>
  The \<^verbatim>\<open>flock(2)\<close> table of \<^verbatim>\<open>src/src/kernel/services/fs/flock.rs\<close>: \<open>flock_entry\<close> and
  \<open>flock_table\<close> are the structs \<^verbatim>\<open>FlockEntry\<close> and \<^verbatim>\<open>FlockTable\<close>; every operation takes the
  table (the value guarded by \<^verbatim>\<open>FLOCK_TABLE\<close>) and returns the result with the new table.
  The invariant \<open>flock_inv\<close> says that the counter equals the number of valid slots, that a
  (inode, pid, fd) key occurs once, and that locks of different processes on an inode are
  all shared.  \<open>flock_abs\<close> abstracts a table to the map from keys to (type, nesting) and
  the operations refine their specifications on that map.
\<close>

section \<open>Data\<close>

abbreviation (input) LOCK_SH :: i32 where "LOCK_SH \<equiv> 1"
abbreviation (input) LOCK_EX :: i32 where "LOCK_EX \<equiv> 2"
abbreviation (input) LOCK_NB :: i32 where "LOCK_NB \<equiv> 4"
abbreviation (input) LOCK_UN :: i32 where "LOCK_UN \<equiv> 8"

definition FLOCK_TABLE_SIZE :: nat where
  "FLOCK_TABLE_SIZE = 64"

record flock_entry =
  fe_ino :: u32
  fe_owner_pid :: u32
  fe_owner_fd :: i32
  fe_lock_type :: i32
  fe_count :: u32
  fe_valid :: bool

definition flock_entry_default :: flock_entry where
  "flock_entry_default =
     \<lparr>fe_ino = 0, fe_owner_pid = 0, fe_owner_fd = - 1, fe_lock_type = 0, fe_count = 0,
      fe_valid = False\<rparr>"

record flock_table =
  ft_entries :: "flock_entry list"
  ft_count :: u64

definition flock_table_new :: flock_table where
  "flock_table_new =
     \<lparr>ft_entries = replicate FLOCK_TABLE_SIZE flock_entry_default, ft_count = 0\<rparr>"

datatype flock_result = FlockOk | FlockWouldBlock | FlockInvalid | FlockNoSpace | FlockNotHeld

section \<open>Operations\<close>

definition find_conflict_shared :: "flock_table \<Rightarrow> u32 \<Rightarrow> u32 \<Rightarrow> u32 option" where
  "find_conflict_shared t ino exclude_pid =
     map_option fe_owner_pid
       (List.find (\<lambda>e. fe_valid e \<and> fe_ino e = ino \<and> fe_owner_pid e \<noteq> exclude_pid
                     \<and> fe_lock_type e = LOCK_EX) (ft_entries t))"

definition find_conflict_exclusive :: "flock_table \<Rightarrow> u32 \<Rightarrow> u32 \<Rightarrow> u32 option" where
  "find_conflict_exclusive t ino exclude_pid =
     map_option fe_owner_pid
       (List.find (\<lambda>e. fe_valid e \<and> fe_ino e = ino \<and> fe_owner_pid e \<noteq> exclude_pid) (ft_entries t))"

definition find_entry :: "flock_table \<Rightarrow> u32 \<Rightarrow> u32 \<Rightarrow> i32 \<Rightarrow> nat option" where
  "find_entry t ino pid fd =
     find_idx (\<lambda>e. fe_valid e \<and> fe_ino e = ino \<and> fe_owner_pid e = pid \<and> fe_owner_fd e = fd)
       (ft_entries t)"

definition flock_find_free :: "flock_table \<Rightarrow> nat option" where
  "flock_find_free t = find_idx (\<lambda>e. \<not> fe_valid e) (ft_entries t)"

definition shared_count :: "flock_table \<Rightarrow> u32 \<Rightarrow> u32 \<Rightarrow> nat" where
  "shared_count t ino exclude_pid =
     length (filter (\<lambda>e. fe_valid e \<and> fe_ino e = ino \<and> fe_owner_pid e \<noteq> exclude_pid
                       \<and> fe_lock_type e = LOCK_SH) (ft_entries t))"

definition flock_lock ::
    "i32 \<Rightarrow> u32 \<Rightarrow> u32 \<Rightarrow> i32 \<Rightarrow> bool \<Rightarrow> flock_table \<Rightarrow> flock_result \<times> flock_table" where
  "flock_lock fd pid ino lock_type nonblock t =
     (case find_entry t ino pid fd of
        Some idx \<Rightarrow>
          (let e = ft_entries t ! idx; existing_type = fe_lock_type e in
           if existing_type = lock_type then
             (FlockOk, t\<lparr>ft_entries := (ft_entries t)[idx := e\<lparr>fe_count := saturating_add (fe_count e) 1\<rparr>]\<rparr>)
           else if existing_type = LOCK_SH \<and> lock_type = LOCK_EX then
             (if shared_count t ino pid > 0
              then (if nonblock then (FlockWouldBlock, t) else (FlockWouldBlock, t))
              else (FlockOk, t\<lparr>ft_entries := (ft_entries t)[idx := e\<lparr>fe_lock_type := LOCK_EX\<rparr>]\<rparr>))
           else if existing_type = LOCK_EX \<and> lock_type = LOCK_SH then
             (FlockOk, t\<lparr>ft_entries := (ft_entries t)[idx := e\<lparr>fe_lock_type := LOCK_SH\<rparr>]\<rparr>)
           else (FlockOk, t))
      | None \<Rightarrow>
          (if lock_type \<noteq> LOCK_SH \<and> lock_type \<noteq> LOCK_EX then (FlockInvalid, t)
           else
             (case (if lock_type = LOCK_SH then find_conflict_shared t ino pid
                    else find_conflict_exclusive t ino pid) of
                Some _ \<Rightarrow> (if nonblock then (FlockWouldBlock, t) else (FlockWouldBlock, t))
              | None \<Rightarrow>
                  (case flock_find_free t of
                     None \<Rightarrow> (FlockNoSpace, t)
                   | Some idx \<Rightarrow>
                       (FlockOk,
                        t\<lparr>ft_entries := (ft_entries t)[idx :=
                            \<lparr>fe_ino = ino, fe_owner_pid = pid, fe_owner_fd = fd,
                             fe_lock_type = lock_type, fe_count = 1, fe_valid = True\<rparr>],
                          ft_count := ft_count t + 1\<rparr>)))))"

definition flock_unlock :: "i32 \<Rightarrow> u32 \<Rightarrow> u32 \<Rightarrow> flock_table \<Rightarrow> flock_result \<times> flock_table" where
  "flock_unlock fd pid ino t =
     (case find_entry t ino pid fd of
        None \<Rightarrow> (FlockNotHeld, t)
      | Some idx \<Rightarrow>
          (let e = ft_entries t ! idx in
           if fe_count e > 1 then
             (FlockOk, t\<lparr>ft_entries := (ft_entries t)[idx := e\<lparr>fe_count := fe_count e - 1\<rparr>]\<rparr>)
           else
             (FlockOk, t\<lparr>ft_entries := (ft_entries t)[idx := flock_entry_default],
                         ft_count := ft_count t - 1\<rparr>)))"

definition flock_release_fd :: "u32 \<Rightarrow> i32 \<Rightarrow> flock_table \<Rightarrow> flock_table" where
  "flock_release_fd pid fd t =
     (let P = (\<lambda>e. fe_valid e \<and> fe_owner_pid e = pid \<and> fe_owner_fd e = fd);
          released = length (filter P (ft_entries t)) in
      t\<lparr>ft_entries := clear_slots P (\<lambda>_. flock_entry_default) (ft_entries t),
        ft_count := ft_count t - of_nat released\<rparr>)"

definition flock_release_pid :: "u32 \<Rightarrow> flock_table \<Rightarrow> flock_table" where
  "flock_release_pid pid t =
     (let P = (\<lambda>e. fe_valid e \<and> fe_owner_pid e = pid);
          released = length (filter P (ft_entries t)) in
      t\<lparr>ft_entries := clear_slots P (\<lambda>_. flock_entry_default) (ft_entries t),
        ft_count := ft_count t - of_nat released\<rparr>)"

definition flock_count :: "flock_table \<Rightarrow> u64" where
  "flock_count t = ft_count t"

section \<open>Invariant\<close>

definition flock_conflict :: "flock_entry \<Rightarrow> flock_entry \<Rightarrow> bool" where
  "flock_conflict a b \<longleftrightarrow>
     fe_ino a = fe_ino b \<and> (fe_lock_type a = LOCK_EX \<or> fe_lock_type b = LOCK_EX)"

definition flock_key :: "flock_entry \<Rightarrow> u32 \<times> u32 \<times> i32" where
  "flock_key e = (fe_ino e, fe_owner_pid e, fe_owner_fd e)"

definition flock_entry_ok :: "flock_entry \<Rightarrow> bool" where
  "flock_entry_ok e \<longleftrightarrow>
     fe_valid e \<longrightarrow>
       fe_ino e \<noteq> 0 \<and> (fe_lock_type e = LOCK_SH \<or> fe_lock_type e = LOCK_EX) \<and> fe_count e \<noteq> 0"

definition flock_inv :: "flock_table \<Rightarrow> bool" where
  "flock_inv t \<longleftrightarrow>
     length (ft_entries t) = FLOCK_TABLE_SIZE
     \<and> unat (ft_count t) = used_slots fe_valid (ft_entries t)
     \<and> (\<forall>e \<in> set (ft_entries t). flock_entry_ok e)
     \<and> unique_keys fe_valid flock_key (ft_entries t)
     \<and> conflict_free fe_valid fe_owner_pid flock_conflict (ft_entries t)"

lemma flock_entry_default_simps [simp]:
  "fe_valid flock_entry_default = False" "flock_entry_ok flock_entry_default"
  by (simp_all add: flock_entry_default_def flock_entry_ok_def)

interpretation flt: lock_table fe_valid "\<lambda>_. flock_entry_default" fe_owner_pid flock_conflict
  by unfold_locales (auto simp: flock_conflict_def)

lemma flock_inv_parts:
  assumes "flock_inv t"
  shows "length (ft_entries t) = FLOCK_TABLE_SIZE"
    and "unat (ft_count t) = used_slots fe_valid (ft_entries t)"
    and "\<And>e. e \<in> set (ft_entries t) \<Longrightarrow> flock_entry_ok e"
    and "unique_keys fe_valid flock_key (ft_entries t)"
    and "conflict_free fe_valid fe_owner_pid flock_conflict (ft_entries t)"
  using assms by (simp_all add: flock_inv_def)

lemma flock_inv_new: "flock_inv flock_table_new"
  by (simp add: flock_inv_def flock_table_new_def flt.conflict_free_empty)

lemma find_entry_SomeD:
  assumes "find_entry t ino pid fd = Some idx"
  shows "idx < length (ft_entries t)" "fe_valid (ft_entries t ! idx)"
    "flock_key (ft_entries t ! idx) = (ino, pid, fd)"
  using assms by (auto simp: find_entry_def flock_key_def dest: find_idx_SomeD)

lemma find_entry_None_iff:
  "find_entry t ino pid fd = None \<longleftrightarrow>
     (\<forall>e \<in> set (ft_entries t). fe_valid e \<longrightarrow> flock_key e \<noteq> (ino, pid, fd))"
  by (auto simp: find_entry_def find_idx_None_iff flock_key_def)

section \<open>Preservation of the invariant\<close>

lemma flock_inv_replace:
  assumes inv: "flock_inv t" and idx: "idx < length (ft_entries t)"
    and v: "fe_valid (ft_entries t ! idx)" "fe_valid e" "flock_key e = flock_key (ft_entries t ! idx)"
    and ok: "flock_entry_ok e"
    and cf: "\<And>b. b \<in> set (ft_entries t) \<Longrightarrow> fe_valid b \<Longrightarrow> fe_owner_pid b \<noteq> fe_owner_pid e \<Longrightarrow>
               \<not> flock_conflict e b"
  shows "flock_inv (t\<lparr>ft_entries := (ft_entries t)[idx := e]\<rparr>)"
proof -
  note p = flock_inv_parts [OF inv]
  have "\<forall>x \<in> set ((ft_entries t)[idx := e]). flock_entry_ok x"
    using p(3) ok set_update_subset_insert [of "ft_entries t" idx e] by auto
  moreover have "unique_keys fe_valid flock_key ((ft_entries t)[idx := e])"
    by (rule unique_keys_update_same [OF p(4) idx v(1) v(3)])
  moreover have "conflict_free fe_valid fe_owner_pid flock_conflict ((ft_entries t)[idx := e])"
    by (rule flt.conflict_free_grant [OF p(5) cf])
  ultimately show ?thesis
    using p(1,2) flt.used_keep [OF idx v(1,2)] by (simp add: flock_inv_def)
qed

lemma flock_inv_fill:
  assumes inv: "flock_inv t" and idx: "idx < length (ft_entries t)"
    and free: "\<not> fe_valid (ft_entries t ! idx)" and v: "fe_valid e" and ok: "flock_entry_ok e"
    and fresh: "\<And>b. b \<in> set (ft_entries t) \<Longrightarrow> fe_valid b \<Longrightarrow> flock_key b \<noteq> flock_key e"
    and cf: "\<And>b. b \<in> set (ft_entries t) \<Longrightarrow> fe_valid b \<Longrightarrow> fe_owner_pid b \<noteq> fe_owner_pid e \<Longrightarrow>
               \<not> flock_conflict e b"
  shows "flock_inv (t\<lparr>ft_entries := (ft_entries t)[idx := e], ft_count := ft_count t + 1\<rparr>)"
proof -
  note p = flock_inv_parts [OF inv]
  have "unat (ft_count t) < 64"
    using used_slots_less [of idx "ft_entries t" fe_valid] idx free p(1,2)
    by (simp add: FLOCK_TABLE_SIZE_def)
  then have "unat (ft_count t + 1) = Suc (unat (ft_count t))"
    by (rule unat_add_1_bounded) simp
  moreover have "\<forall>x \<in> set ((ft_entries t)[idx := e]). flock_entry_ok x"
    using p(3) ok set_update_subset_insert [of "ft_entries t" idx e] by auto
  moreover have "unique_keys fe_valid flock_key ((ft_entries t)[idx := e])"
    by (rule unique_keys_update_fresh [OF p(4) fresh])
  moreover have "conflict_free fe_valid fe_owner_pid flock_conflict ((ft_entries t)[idx := e])"
    by (rule flt.conflict_free_grant [OF p(5) cf])
  ultimately show ?thesis
    using p(1,2) flt.used_fill [OF idx free v] by (simp add: flock_inv_def)
qed

lemma flock_inv_drop:
  assumes inv: "flock_inv t" and idx: "idx < length (ft_entries t)"
    and v: "fe_valid (ft_entries t ! idx)"
  shows "flock_inv (t\<lparr>ft_entries := (ft_entries t)[idx := flock_entry_default],
                      ft_count := ft_count t - 1\<rparr>)"
proof -
  note p = flock_inv_parts [OF inv]
  have used: "used_slots fe_valid (ft_entries t)
      = Suc (used_slots fe_valid ((ft_entries t)[idx := flock_entry_default]))"
    by (rule flt.used_release [OF idx v])
  then have "unat (ft_count t - 1) = used_slots fe_valid ((ft_entries t)[idx := flock_entry_default])"
    using p(2) by (simp add: unat_sub word_le_nat_alt)
  moreover have "\<forall>x \<in> set ((ft_entries t)[idx := flock_entry_default]). flock_entry_ok x"
    using p(3) set_update_subset_insert [of "ft_entries t" idx flock_entry_default] by auto
  moreover have "unique_keys fe_valid flock_key ((ft_entries t)[idx := flock_entry_default])"
    by (rule flt.unique_keys_release [OF p(4)])
  moreover have "conflict_free fe_valid fe_owner_pid flock_conflict
      ((ft_entries t)[idx := flock_entry_default])"
    by (rule flt.conflict_free_release [OF p(5)])
  ultimately show ?thesis
    using p(1) by (simp add: flock_inv_def)
qed

lemma flock_inv_clear:
  assumes inv: "flock_inv t" and P: "\<And>e. P e \<Longrightarrow> fe_valid e"
  shows "flock_inv (t\<lparr>ft_entries := clear_slots P (\<lambda>_. flock_entry_default) (ft_entries t),
      ft_count := ft_count t - of_nat (length (filter P (ft_entries t)))\<rparr>)"
proof -
  note p = flock_inv_parts [OF inv]
  let ?xs = "clear_slots P (\<lambda>_. flock_entry_default) (ft_entries t)"
  let ?n = "length (filter P (ft_entries t))"
  have used: "used_slots fe_valid ?xs + ?n = used_slots fe_valid (ft_entries t)"
    by (rule flt.used_clear) (rule P)
  have n: "unat (of_nat ?n :: u64) = ?n"
    using length_filter_le [of P "ft_entries t"] p(1)
    by (simp add: unat_of_nat FLOCK_TABLE_SIZE_def)
  have "unat (ft_count t - of_nat ?n) = used_slots fe_valid ?xs"
    using used p(2) n by (simp add: unat_sub word_le_nat_alt)
  moreover have "\<forall>x \<in> set ?xs. flock_entry_ok x"
    using p(3) by (auto simp: clear_slots_def)
  ultimately show ?thesis
    using p(1) flt.unique_keys_clear [OF p(4)] flt.conflict_free_clear [OF p(5)]
    by (simp add: flock_inv_def)
qed

lemma no_conflict_of_shared_count:
  assumes inv: "flock_inv t" and e: "e \<in> set (ft_entries t)" "fe_valid e"
    and none: "shared_count t (fe_ino e) (fe_owner_pid e) = 0"
    and b: "b \<in> set (ft_entries t)" "fe_valid b" "fe_owner_pid b \<noteq> fe_owner_pid e"
  shows "fe_ino b \<noteq> fe_ino e"
proof
  assume ino: "fe_ino b = fe_ino e"
  from none b ino have "fe_lock_type b \<noteq> LOCK_SH"
    by (auto simp: shared_count_def filter_empty_conv)
  with flock_inv_parts(3) [OF inv b(1)] b(2) have "fe_lock_type b = LOCK_EX"
    by (simp add: flock_entry_ok_def)
  then have "flock_conflict e b"
    using ino by (simp add: flock_conflict_def)
  with conflict_freeD [OF flock_inv_parts(5) [OF inv] e(1) b(1) e(2) b(2)] b(3)
  show False by simp
qed

lemma find_conflict_NoneD:
  assumes "(if ty = LOCK_SH then find_conflict_shared t ino pid
            else find_conflict_exclusive t ino pid) = None"
    and "ty = LOCK_SH \<or> ty = LOCK_EX"
    and "b \<in> set (ft_entries t)" "fe_valid b" "fe_owner_pid b \<noteq> pid" "fe_ino b = ino"
  shows "ty = LOCK_SH" "fe_lock_type b \<noteq> LOCK_EX"
  using assms
  by (auto simp: find_conflict_shared_def find_conflict_exclusive_def find_None_iff split: if_splits)

lemma flock_lock_inv:
  assumes inv: "flock_inv t" and ino: "ino \<noteq> 0"
    and ty: "ty = LOCK_SH \<or> ty = LOCK_EX"
  shows "flock_inv (snd (flock_lock fd pid ino ty nb t))"
proof (cases "find_entry t ino pid fd")
  case (Some idx)
  note f = find_entry_SomeD [OF Some]
  let ?e = "ft_entries t ! idx"
  have mem: "?e \<in> set (ft_entries t)" using f(1) by simp
  have ok: "flock_entry_ok ?e" by (rule flock_inv_parts(3) [OF inv mem])
  have key: "fe_ino ?e = ino" "fe_owner_pid ?e = pid"
    using f(3) by (simp_all add: flock_key_def)
  have cf: "\<not> flock_conflict ?e b"
    if "b \<in> set (ft_entries t)" "fe_valid b" "fe_owner_pid b \<noteq> fe_owner_pid ?e" for b
    using conflict_freeD [OF flock_inv_parts(5) [OF inv] mem that(1) f(2) that(2)] that(3) by simp
  have count: "saturating_add (fe_count ?e) 1 \<noteq> 0"
  proof -
    have "unat (saturating_add (fe_count ?e) 1) \<noteq> 0"
      by (simp add: unat_saturating_add)
    then show ?thesis by auto
  qed
  have same: "flock_inv (t\<lparr>ft_entries := (ft_entries t)[idx := ?e\<lparr>fe_count := saturating_add (fe_count ?e) 1\<rparr>]\<rparr>)"
    by (rule flock_inv_replace [OF inv f(1,2)])
       (use f ok count cf in \<open>auto simp: flock_key_def flock_entry_ok_def flock_conflict_def\<close>)
  have up: "flock_inv (t\<lparr>ft_entries := (ft_entries t)[idx := ?e\<lparr>fe_lock_type := LOCK_EX\<rparr>]\<rparr>)"
    if "shared_count t ino pid = 0"
  proof (rule flock_inv_replace [OF inv f(1,2)])
    fix b
    assume "b \<in> set (ft_entries t)" "fe_valid b"
      and "fe_owner_pid b \<noteq> fe_owner_pid (?e\<lparr>fe_lock_type := LOCK_EX\<rparr>)"
    then have "fe_ino b \<noteq> fe_ino ?e"
      using no_conflict_of_shared_count [OF inv mem f(2)] that key by simp
    then show "\<not> flock_conflict (?e\<lparr>fe_lock_type := LOCK_EX\<rparr>) b"
      by (simp add: flock_conflict_def)
  qed (use f ok in \<open>auto simp: flock_key_def flock_entry_ok_def\<close>)
  have down: "flock_inv (t\<lparr>ft_entries := (ft_entries t)[idx := ?e\<lparr>fe_lock_type := LOCK_SH\<rparr>]\<rparr>)"
    by (rule flock_inv_replace [OF inv f(1,2)])
       (use f ok cf in \<open>auto simp: flock_key_def flock_entry_ok_def flock_conflict_def\<close>)
  show ?thesis
    using inv same up down by (simp add: flock_lock_def Some Let_def)
next
  case None
  show ?thesis
  proof (cases "if ty = LOCK_SH then find_conflict_shared t ino pid
                else find_conflict_exclusive t ino pid")
    case (Some p)
    with inv None ty show ?thesis by (simp add: flock_lock_def)
  next
    case noconf: None
    show ?thesis
    proof (cases "flock_find_free t")
      case None': None
      with inv None noconf ty show ?thesis by (simp add: flock_lock_def)
    next
      case (Some idx)
      then have idx: "idx < length (ft_entries t)" "\<not> fe_valid (ft_entries t ! idx)"
        by (auto simp: flock_find_free_def dest: find_idx_SomeD)
      let ?e = "\<lparr>fe_ino = ino, fe_owner_pid = pid, fe_owner_fd = fd, fe_lock_type = ty,
                 fe_count = 1, fe_valid = True\<rparr>"
      have "flock_inv (t\<lparr>ft_entries := (ft_entries t)[idx := ?e], ft_count := ft_count t + 1\<rparr>)"
        by (rule flock_inv_fill [OF inv idx])
           (use None ino ty find_conflict_NoneD [OF noconf ty]
            in \<open>auto simp: find_entry_None_iff flock_key_def flock_entry_ok_def flock_conflict_def\<close>)
      with None noconf Some ty show ?thesis by (auto simp: flock_lock_def)
    qed
  qed
qed

lemma flock_unlock_inv:
  assumes inv: "flock_inv t"
  shows "flock_inv (snd (flock_unlock fd pid ino t))"
proof (cases "find_entry t ino pid fd")
  case None
  with inv show ?thesis by (simp add: flock_unlock_def)
next
  case (Some idx)
  note f = find_entry_SomeD [OF Some]
  let ?e = "ft_entries t ! idx"
  have mem: "?e \<in> set (ft_entries t)" using f(1) by simp
  have ok: "flock_entry_ok ?e" by (rule flock_inv_parts(3) [OF inv mem])
  have cf: "\<not> flock_conflict ?e b"
    if "b \<in> set (ft_entries t)" "fe_valid b" "fe_owner_pid b \<noteq> fe_owner_pid ?e" for b
    using conflict_freeD [OF flock_inv_parts(5) [OF inv] mem that(1) f(2) that(2)] that(3) by simp
  have "flock_inv (t\<lparr>ft_entries := (ft_entries t)[idx := ?e\<lparr>fe_count := fe_count ?e - 1\<rparr>]\<rparr>)"
    if "fe_count ?e > 1"
    by (rule flock_inv_replace [OF inv f(1,2)])
       (use that f ok cf in \<open>auto simp: flock_key_def flock_entry_ok_def flock_conflict_def\<close>)
  then show ?thesis
    using flock_inv_drop [OF inv f(1,2)] Some by (simp add: flock_unlock_def Let_def)
qed

lemma flock_release_fd_inv: "flock_inv t \<Longrightarrow> flock_inv (flock_release_fd pid fd t)"
  using flock_inv_clear [of t "\<lambda>e. fe_valid e \<and> fe_owner_pid e = pid \<and> fe_owner_fd e = fd"]
  by (simp add: flock_release_fd_def Let_def)

lemma flock_release_pid_inv: "flock_inv t \<Longrightarrow> flock_inv (flock_release_pid pid t)"
  using flock_inv_clear [of t "\<lambda>e. fe_valid e \<and> fe_owner_pid e = pid"]
  by (simp add: flock_release_pid_def Let_def)

section \<open>Refinement to the map of held locks\<close>

text \<open>
  The abstract table maps (inode, pid, fd) to the lock type and the nesting depth.
  \<open>flock_blocked\<close> is the rule of \<^verbatim>\<open>flock(2)\<close>: a request is blocked by a lock of another
  process on the inode when one of the two is exclusive.
\<close>

type_synonym flock_map = "u32 \<times> u32 \<times> i32 \<Rightarrow> (i32 \<times> u32) option"

definition flock_abs :: "flock_table \<Rightarrow> flock_map" where
  "flock_abs t k =
     map_option (\<lambda>e. (fe_lock_type e, fe_count e)) (slot_map fe_valid flock_key (ft_entries t) k)"

definition flock_blocked :: "flock_map \<Rightarrow> u32 \<Rightarrow> u32 \<Rightarrow> i32 \<Rightarrow> bool" where
  "flock_blocked m ino pid ty \<longleftrightarrow>
     (\<exists>p f ty' n. p \<noteq> pid \<and> m (ino, p, f) = Some (ty', n) \<and> (ty = LOCK_EX \<or> ty' = LOCK_EX))"

definition spec_flock_lock ::
    "i32 \<Rightarrow> u32 \<Rightarrow> u32 \<Rightarrow> i32 \<Rightarrow> flock_map \<Rightarrow> flock_result \<times> flock_map" where
  "spec_flock_lock fd pid ino ty m =
     (case m (ino, pid, fd) of
        Some (ty', n) \<Rightarrow>
          if ty' = ty then (FlockOk, m((ino, pid, fd) \<mapsto> (ty, saturating_add n 1)))
          else if flock_blocked m ino pid ty then (FlockWouldBlock, m)
          else (FlockOk, m((ino, pid, fd) \<mapsto> (ty, n)))
      | None \<Rightarrow>
          if flock_blocked m ino pid ty then (FlockWouldBlock, m)
          else if card (dom m) = FLOCK_TABLE_SIZE then (FlockNoSpace, m)
          else (FlockOk, m((ino, pid, fd) \<mapsto> (ty, 1))))"

definition spec_flock_unlock ::
    "i32 \<Rightarrow> u32 \<Rightarrow> u32 \<Rightarrow> flock_map \<Rightarrow> flock_result \<times> flock_map" where
  "spec_flock_unlock fd pid ino m =
     (case m (ino, pid, fd) of
        None \<Rightarrow> (FlockNotHeld, m)
      | Some (ty, n) \<Rightarrow>
          (FlockOk, m((ino, pid, fd) := (if n > 1 then Some (ty, n - 1) else None))))"

lemma dom_flock_abs: "dom (flock_abs t) = dom (slot_map fe_valid flock_key (ft_entries t))"
  by (auto simp: flock_abs_def)

lemma flock_count_abs:
  "flock_inv t \<Longrightarrow> card (dom (flock_abs t)) = unat (ft_count t)"
  by (simp add: dom_flock_abs card_dom_slot_map flock_inv_parts)

lemma flock_abs_None_iff:
  "flock_abs t (ino, pid, fd) = None \<longleftrightarrow> find_entry t ino pid fd = None"
  by (simp add: flock_abs_def slot_map_None_iff find_entry_None_iff)

lemma flock_abs_Some_iff:
  assumes "flock_inv t"
  shows "flock_abs t k = Some (ty, n) \<longleftrightarrow>
    (\<exists>e \<in> set (ft_entries t). fe_valid e \<and> flock_key e = k \<and> fe_lock_type e = ty \<and> fe_count e = n)"
  using slot_map_Some_iff [OF flock_inv_parts(4) [OF assms], of k] by (auto simp: flock_abs_def)

lemma flock_abs_found:
  assumes "flock_inv t" "find_entry t ino pid fd = Some idx"
  shows "flock_abs t (ino, pid, fd)
    = Some (fe_lock_type (ft_entries t ! idx), fe_count (ft_entries t ! idx))"
  using find_entry_SomeD [OF assms(2)] by (subst flock_abs_Some_iff [OF assms(1)]) auto

lemma flock_abs_count [simp]: "flock_abs (t\<lparr>ft_count := c\<rparr>) = flock_abs t"
  by (auto simp: flock_abs_def)

lemma flock_abs_update:
  assumes inv: "flock_inv t" and i: "i < length (ft_entries t)" and v: "fe_valid e"
    and other: "\<And>j. j < length (ft_entries t) \<Longrightarrow> j \<noteq> i \<Longrightarrow> fe_valid (ft_entries t ! j) \<Longrightarrow>
                  flock_key (ft_entries t ! j) \<noteq> flock_key e"
    and same: "fe_valid (ft_entries t ! i) \<Longrightarrow> flock_key (ft_entries t ! i) = flock_key e"
  shows "flock_abs (t\<lparr>ft_entries := (ft_entries t)[i := e]\<rparr>) = (flock_abs t)(flock_key e \<mapsto> (fe_lock_type e, fe_count e))"
  using slot_map_update [OF flock_inv_parts(4) [OF inv] i v other same]
  by (auto simp: flock_abs_def)

lemma flock_abs_replace:
  assumes inv: "flock_inv t" and found: "find_entry t ino pid fd = Some idx"
    and e: "fe_valid e" "flock_key e = (ino, pid, fd)"
  shows "flock_abs (t\<lparr>ft_entries := (ft_entries t)[idx := e]\<rparr>) = (flock_abs t)((ino, pid, fd) \<mapsto> (fe_lock_type e, fe_count e))"
proof -
  note f = find_entry_SomeD [OF found]
  have "flock_key (ft_entries t ! j) \<noteq> flock_key e"
    if "j < length (ft_entries t)" "j \<noteq> idx" "fe_valid (ft_entries t ! j)" for j
    using unique_keysD [OF flock_inv_parts(4) [OF inv] that(1) f(1) that(3) f(2)] that(2) f(3) e(2)
    by auto
  from flock_abs_update [OF inv f(1) e(1) this] f(3) e(2) show ?thesis by simp
qed

lemma flock_blocked_abs:
  assumes inv: "flock_inv t" and ty: "ty = LOCK_SH \<or> ty = LOCK_EX"
  shows "flock_blocked (flock_abs t) ino pid ty \<longleftrightarrow>
    (if ty = LOCK_SH then find_conflict_shared t ino pid else find_conflict_exclusive t ino pid) \<noteq> None"
proof -
  have "flock_blocked (flock_abs t) ino pid ty \<longleftrightarrow>
      (\<exists>e \<in> set (ft_entries t). fe_valid e \<and> fe_ino e = ino \<and> fe_owner_pid e \<noteq> pid
         \<and> (ty = LOCK_EX \<or> fe_lock_type e = LOCK_EX))"
    unfolding flock_blocked_def flock_abs_Some_iff [OF inv] flock_key_def by (simp, metis)
  with ty show ?thesis
    by (auto simp: find_conflict_shared_def find_conflict_exclusive_def find_eq_None_iff
        simp del: not_None_eq)
qed

lemma shared_count_blocked:
  assumes inv: "flock_inv t" and found: "find_entry t ino pid fd = Some idx"
    and sh: "fe_lock_type (ft_entries t ! idx) = LOCK_SH"
  shows "shared_count t ino pid > 0 \<longleftrightarrow> flock_blocked (flock_abs t) ino pid LOCK_EX"
proof -
  note f = find_entry_SomeD [OF found]
  have mem: "ft_entries t ! idx \<in> set (ft_entries t)" using f(1) by simp
  have key: "fe_ino (ft_entries t ! idx) = ino" "fe_owner_pid (ft_entries t ! idx) = pid"
    using f(3) by (simp_all add: flock_key_def)
  have "shared_count t ino pid = 0 \<Longrightarrow> \<not> flock_blocked (flock_abs t) ino pid LOCK_EX"
    using no_conflict_of_shared_count [OF inv mem f(2)] key
    by (auto simp: flock_blocked_abs [OF inv] find_conflict_exclusive_def find_eq_None_iff)
  moreover have "shared_count t ino pid > 0 \<Longrightarrow> flock_blocked (flock_abs t) ino pid LOCK_EX"
    by (auto simp: flock_blocked_abs [OF inv] find_conflict_exclusive_def find_eq_None_iff
        shared_count_def filter_empty_conv)
  ultimately show ?thesis by blast
qed

lemma flock_downgrade_unblocked:
  assumes inv: "flock_inv t" and found: "find_entry t ino pid fd = Some idx"
    and ex: "fe_lock_type (ft_entries t ! idx) = LOCK_EX"
  shows "\<not> flock_blocked (flock_abs t) ino pid ty"
proof
  note f = find_entry_SomeD [OF found]
  have mem: "ft_entries t ! idx \<in> set (ft_entries t)" using f(1) by simp
  assume "flock_blocked (flock_abs t) ino pid ty"
  then obtain b where b: "b \<in> set (ft_entries t)" "fe_valid b" "fe_ino b = ino" "fe_owner_pid b \<noteq> pid"
    by (auto simp: flock_blocked_def flock_abs_Some_iff [OF inv] flock_key_def)
  then have "\<not> flock_conflict (ft_entries t ! idx) b"
    using conflict_freeD [OF flock_inv_parts(5) [OF inv] mem b(1) f(2) b(2)] f(3)
    by (auto simp: flock_key_def)
  with ex b f(3) show False by (auto simp: flock_conflict_def flock_key_def)
qed

lemma flock_find_free_abs:
  assumes "flock_inv t"
  shows "flock_find_free t = None \<longleftrightarrow> card (dom (flock_abs t)) = FLOCK_TABLE_SIZE"
  using flt.free_slot_exists [of "ft_entries t"] used_slots_le [of fe_valid "ft_entries t"]
    flock_inv_parts [OF assms]
  by (auto simp: flock_find_free_def flock_count_abs [OF assms])

lemma flock_lock_refines:
  assumes inv: "flock_inv t" and ty: "ty = LOCK_SH \<or> ty = LOCK_EX"
  shows "(let (r, t') = flock_lock fd pid ino ty nb t in (r, flock_abs t'))
    = spec_flock_lock fd pid ino ty (flock_abs t)"
proof (cases "find_entry t ino pid fd")
  case (Some idx)
  note f = find_entry_SomeD [OF Some]
  let ?e = "ft_entries t ! idx"
  have ok: "fe_lock_type ?e = LOCK_SH \<or> fe_lock_type ?e = LOCK_EX"
    using flock_inv_parts(3) [OF inv, of ?e] f(1,2) by (simp add: flock_entry_ok_def)
  note rep = flock_abs_replace [OF inv Some]
  show ?thesis
    using ok ty f(2,3) shared_count_blocked [OF inv Some] flock_downgrade_unblocked [OF inv Some]
    by (auto simp: flock_lock_def Some Let_def spec_flock_lock_def flock_abs_found [OF inv Some]
        flock_key_def rep)
next
  case None
  let ?c = "if ty = LOCK_SH then find_conflict_shared t ino pid else find_conflict_exclusive t ino pid"
  have abs: "flock_abs t (ino, pid, fd) = None"
    using None by (simp add: flock_abs_None_iff)
  show ?thesis
  proof (cases "flock_find_free t")
    case none: None
    then show ?thesis
      using None abs ty flock_blocked_abs [OF inv ty, of ino pid] flock_find_free_abs [OF inv]
      by (cases ?c) (auto simp: flock_lock_def spec_flock_lock_def)
  next
    case (Some idx)
    then have idx: "idx < length (ft_entries t)" "\<not> fe_valid (ft_entries t ! idx)"
      by (auto simp: flock_find_free_def dest: find_idx_SomeD)
    let ?e = "\<lparr>fe_ino = ino, fe_owner_pid = pid, fe_owner_fd = fd, fe_lock_type = ty,
               fe_count = 1, fe_valid = True\<rparr>"
    have "flock_abs (t\<lparr>ft_entries := (ft_entries t)[idx := ?e]\<rparr>)
        = (flock_abs t)((ino, pid, fd) \<mapsto> (ty, 1))"
      using flock_abs_update [OF inv idx(1), of ?e] None idx(2)
      by (simp add: find_entry_None_iff flock_key_def)
    then show ?thesis
      using None Some abs ty flock_blocked_abs [OF inv ty, of ino pid] flock_find_free_abs [OF inv]
      by (cases ?c) (auto simp: flock_lock_def spec_flock_lock_def)
  qed
qed

lemma flock_unlock_refines:
  assumes inv: "flock_inv t"
  shows "(let (r, t') = flock_unlock fd pid ino t in (r, flock_abs t'))
    = spec_flock_unlock fd pid ino (flock_abs t)"
proof (cases "find_entry t ino pid fd")
  case None
  then show ?thesis
    using flock_abs_None_iff [of t ino pid fd] by (simp add: flock_unlock_def spec_flock_unlock_def)
next
  case (Some idx)
  note f = find_entry_SomeD [OF Some]
  note rep = flock_abs_replace [OF inv Some]
  have "flock_abs (t\<lparr>ft_entries := (ft_entries t)[idx := flock_entry_default]\<rparr>)
      = (flock_abs t)((ino, pid, fd) := None)"
    using flt.slot_map_release [OF flock_inv_parts(4) [OF inv] f(1,2)] f(3)
    by (auto simp: flock_abs_def)
  then show ?thesis
    using f(2,3)
    by (auto simp: flock_unlock_def Some Let_def spec_flock_unlock_def flock_abs_found [OF inv Some]
        flock_key_def rep)
qed

lemma flock_release_pid_abs:
  assumes "flock_inv t"
  shows "flock_abs (flock_release_pid pid t) (ino, p, f)
    = (if p = pid then None else flock_abs t (ino, p, f))"
  using flt.slot_map_clear [OF flock_inv_parts(4) [OF assms]]
  by (auto simp: flock_abs_def flock_release_pid_def Let_def flock_key_def
      dest!: slot_map_SomeD split: option.split)

lemma flock_release_fd_abs:
  assumes "flock_inv t"
  shows "flock_abs (flock_release_fd pid fd t) (ino, p, f)
    = (if p = pid \<and> f = fd then None else flock_abs t (ino, p, f))"
  using flt.slot_map_clear [OF flock_inv_parts(4) [OF assms]]
  by (auto simp: flock_abs_def flock_release_fd_def Let_def flock_key_def
      dest!: slot_map_SomeD split: option.split)

end
