(* ===== verification/Posix_Lock.thy ===== *)
theory Posix_Lock
  imports Lock_Table
begin

text \<open>
  The POSIX record-lock table of \<^verbatim>\<open>src/src/kernel/services/fs/flock.rs\<close>: \<open>posix_lock_entry\<close> and
  \<open>posix_lock_table\<close> are \<^verbatim>\<open>PosixLockEntry\<close> and \<^verbatim>\<open>PosixLockTable\<close>.  Lengths and offsets are
  64-bit words; the end of a range saturates at \<^verbatim>\<open>u64::MAX\<close> as in the source.
  \<open>range_bytes\<close> is the set of bytes a range denotes; the overlap test decides
  whether two such sets meet, and \<open>posix_inv\<close> is the table invariant, which contains the
  exclusion of conflicting locks of different processes.
\<close>

section \<open>Data\<close>

abbreviation (input) F_RDLCK :: i32 where "F_RDLCK \<equiv> 0"
abbreviation (input) F_WRLCK :: i32 where "F_WRLCK \<equiv> 1"
abbreviation (input) F_UNLCK :: i32 where "F_UNLCK \<equiv> 2"
abbreviation (input) F_GETLK :: i32 where "F_GETLK \<equiv> 5"
abbreviation (input) F_SETLK :: i32 where "F_SETLK \<equiv> 6"
abbreviation (input) F_SETLKW :: i32 where "F_SETLKW \<equiv> 7"

definition POSIX_LOCK_TABLE_SIZE :: nat where
  "POSIX_LOCK_TABLE_SIZE = 64"

record posix_lock_entry =
  pl_ino :: u32
  pl_owner_pid :: u32
  pl_start :: u64
  pl_len :: u64
  pl_lock_type :: i32
  pl_valid :: bool

definition posix_lock_entry_default :: posix_lock_entry where
  "posix_lock_entry_default =
     \<lparr>pl_ino = 0, pl_owner_pid = 0, pl_start = 0, pl_len = 0, pl_lock_type = 0, pl_valid = False\<rparr>"

record posix_lock_table =
  pt_entries :: "posix_lock_entry list"
  pt_count :: u64

definition posix_lock_table_new :: posix_lock_table where
  "posix_lock_table_new =
     \<lparr>pt_entries = replicate POSIX_LOCK_TABLE_SIZE posix_lock_entry_default, pt_count = 0\<rparr>"

datatype posix_lock_result = PosixWouldBlock | PosixInvalid | PosixNoSpace

record posix_lock_conflict =
  plc_pid :: u32
  plc_lock_type :: i32
  plc_start :: u64
  plc_len :: u64

type_synonym posix_answer = "posix_lock_result + posix_lock_conflict option"

section \<open>Operations\<close>

definition range_end :: "u64 \<Rightarrow> u64 \<Rightarrow> u64" where
  "range_end start len = (if len = 0 then - 1 else saturating_add start len)"

definition ranges_overlap :: "u64 \<Rightarrow> u64 \<Rightarrow> u64 \<Rightarrow> u64 \<Rightarrow> bool" where
  "ranges_overlap a_start a_len b_start b_len \<longleftrightarrow>
     (let a_end = range_end a_start a_len; b_end = range_end b_start b_len in
      a_start < b_end \<and> b_start < a_end)"

definition posix_find_conflict ::
    "posix_lock_table \<Rightarrow> u32 \<Rightarrow> u32 \<Rightarrow> u64 \<Rightarrow> u64 \<Rightarrow> i32 \<Rightarrow> (u32 \<times> i32) option" where
  "posix_find_conflict t ino pid start len lock_type =
     map_option (\<lambda>e. (pl_owner_pid e, pl_lock_type e))
       (List.find (\<lambda>e. \<not> (\<not> pl_valid e \<or> pl_ino e \<noteq> ino \<or> pl_owner_pid e = pid)
                     \<and> ranges_overlap start len (pl_start e) (pl_len e)
                     \<and> \<not> (lock_type = F_RDLCK \<and> pl_lock_type e = F_RDLCK)) (pt_entries t))"

definition find_overlapping ::
    "posix_lock_table \<Rightarrow> u32 \<Rightarrow> u32 \<Rightarrow> u64 \<Rightarrow> u64 \<Rightarrow> nat option" where
  "find_overlapping t ino pid start len =
     find_idx (\<lambda>e. pl_valid e \<and> pl_ino e = ino \<and> pl_owner_pid e = pid
                 \<and> ranges_overlap start len (pl_start e) (pl_len e)) (pt_entries t)"

definition posix_find_free :: "posix_lock_table \<Rightarrow> nat option" where
  "posix_find_free t = find_idx (\<lambda>e. \<not> pl_valid e) (pt_entries t)"

definition posix_getlk ::
    "u32 \<Rightarrow> u32 \<Rightarrow> i32 \<Rightarrow> u64 \<Rightarrow> u64 \<Rightarrow> posix_lock_table \<Rightarrow> posix_answer" where
  "posix_getlk pid ino lock_type start len t =
     (if lock_type = F_UNLCK then Inr None
      else case posix_find_conflict t ino pid start len lock_type of
        None \<Rightarrow> Inr None
      | Some (conflict_pid, conflict_type) \<Rightarrow>
          (case List.find (\<lambda>e. pl_valid e \<and> pl_owner_pid e = conflict_pid
                             \<and> ranges_overlap start len (pl_start e) (pl_len e)) (pt_entries t) of
             Some e \<Rightarrow> Inr (Some \<lparr>plc_pid = conflict_pid, plc_lock_type = conflict_type,
                                  plc_start = pl_start e, plc_len = pl_len e\<rparr>)
           | None \<Rightarrow> Inr (Some \<lparr>plc_pid = conflict_pid, plc_lock_type = conflict_type,
                                plc_start = 0, plc_len = 0\<rparr>)))"

definition posix_drop :: "(posix_lock_entry \<Rightarrow> bool) \<Rightarrow> posix_lock_table \<Rightarrow> posix_lock_table" where
  "posix_drop P t =
     t\<lparr>pt_entries := clear_slots P (\<lambda>_. posix_lock_entry_default) (pt_entries t),
       pt_count := pt_count t - of_nat (length (filter P (pt_entries t)))\<rparr>"

definition posix_setlk ::
    "u32 \<Rightarrow> u32 \<Rightarrow> i32 \<Rightarrow> u64 \<Rightarrow> u64 \<Rightarrow> bool \<Rightarrow> posix_lock_table \<Rightarrow> posix_answer \<times> posix_lock_table" where
  "posix_setlk pid ino lock_type start len wait t =
     (if lock_type = F_UNLCK then
        (Inr None,
         posix_drop (\<lambda>e. pl_valid e \<and> pl_ino e = ino \<and> pl_owner_pid e = pid
                       \<and> ranges_overlap start len (pl_start e) (pl_len e)) t)
      else if lock_type = F_RDLCK \<or> lock_type = F_WRLCK then
        (case posix_find_conflict t ino pid start len lock_type of
           Some (conflict_pid, conflict_type) \<Rightarrow>
             (Inr (Some \<lparr>plc_pid = conflict_pid, plc_lock_type = conflict_type,
                         plc_start = 0, plc_len = 0\<rparr>), t)
         | None \<Rightarrow>
             (case find_overlapping t ino pid start len of
                Some idx \<Rightarrow>
                  (Inr None,
                   t\<lparr>pt_entries := (pt_entries t)[idx :=
                       (pt_entries t ! idx)\<lparr>pl_lock_type := lock_type, pl_start := start,
                                           pl_len := len\<rparr>]\<rparr>)
              | None \<Rightarrow>
                  (case posix_find_free t of
                     None \<Rightarrow> (Inl PosixNoSpace, t)
                   | Some idx \<Rightarrow>
                       (Inr None,
                        t\<lparr>pt_entries := (pt_entries t)[idx :=
                            \<lparr>pl_ino = ino, pl_owner_pid = pid, pl_start = start, pl_len = len,
                             pl_lock_type = lock_type, pl_valid = True\<rparr>],
                          pt_count := pt_count t + 1\<rparr>))))
      else (Inl PosixInvalid, t))"

definition posix_lock_release_pid :: "u32 \<Rightarrow> posix_lock_table \<Rightarrow> posix_lock_table" where
  "posix_lock_release_pid pid = posix_drop (\<lambda>e. pl_valid e \<and> pl_owner_pid e = pid)"

definition posix_lock_release_inode :: "u32 \<Rightarrow> posix_lock_table \<Rightarrow> posix_lock_table" where
  "posix_lock_release_inode ino = posix_drop (\<lambda>e. pl_valid e \<and> pl_ino e = ino)"

definition posix_lock_count :: "posix_lock_table \<Rightarrow> u64" where
  "posix_lock_count t = pt_count t"

section \<open>Specification: the bytes a lock covers\<close>

definition range_bytes :: "u64 \<Rightarrow> u64 \<Rightarrow> nat set" where
  "range_bytes start len =
     {x. unat start \<le> x \<and> x < (if len = 0 then 2 ^ 64 - 1 else min (unat start + unat len) (2 ^ 64 - 1))}"

definition posix_holds :: "posix_lock_table \<Rightarrow> u32 \<Rightarrow> u32 \<Rightarrow> i32 \<Rightarrow> nat \<Rightarrow> bool" where
  "posix_holds t ino pid ty x \<longleftrightarrow>
     (\<exists>e \<in> set (pt_entries t). pl_valid e \<and> pl_ino e = ino \<and> pl_owner_pid e = pid
        \<and> pl_lock_type e = ty \<and> x \<in> range_bytes (pl_start e) (pl_len e))"

definition posix_conflict :: "posix_lock_entry \<Rightarrow> posix_lock_entry \<Rightarrow> bool" where
  "posix_conflict a b \<longleftrightarrow>
     pl_ino a = pl_ino b \<and> ranges_overlap (pl_start a) (pl_len a) (pl_start b) (pl_len b)
     \<and> \<not> (pl_lock_type a = F_RDLCK \<and> pl_lock_type b = F_RDLCK)"

definition posix_entry_ok :: "posix_lock_entry \<Rightarrow> bool" where
  "posix_entry_ok e \<longleftrightarrow>
     pl_valid e \<longrightarrow> pl_ino e \<noteq> 0 \<and> (pl_lock_type e = F_RDLCK \<or> pl_lock_type e = F_WRLCK)"

definition posix_inv :: "posix_lock_table \<Rightarrow> bool" where
  "posix_inv t \<longleftrightarrow>
     length (pt_entries t) = POSIX_LOCK_TABLE_SIZE
     \<and> unat (pt_count t) = used_slots pl_valid (pt_entries t)
     \<and> (\<forall>e \<in> set (pt_entries t). posix_entry_ok e)
     \<and> conflict_free pl_valid pl_owner_pid posix_conflict (pt_entries t)"

lemma range_end_unat:
  "unat (range_end s l) = (if l = 0 then 2 ^ 64 - 1 else min (unat s + unat l) (2 ^ 64 - 1))"
  by (simp add: range_end_def unat_max_word unat_saturating_add)

lemma range_bytes_range_end: "range_bytes s l = {unat s ..< unat (range_end s l)}"
  by (auto simp: range_bytes_def range_end_unat)

lemma range_nonempty:
  assumes "unat s < unat (range_end s' l')"
  shows "unat s < unat (range_end s l)"
proof -
  have s: "unat s < 2 ^ 64 - 1"
    using assms by (simp add: range_end_unat split: if_splits)
  have "unat l = 0 \<longleftrightarrow> l = 0" by (simp add: unat_eq_zero)
  with s show ?thesis by (auto simp: range_end_unat)
qed

lemma ranges_overlap_sym: "ranges_overlap a b c d = ranges_overlap c d a b"
  by (auto simp: ranges_overlap_def Let_def)

lemma ranges_overlap_bytes:
  "ranges_overlap a al b bl \<longleftrightarrow> range_bytes a al \<inter> range_bytes b bl \<noteq> {}"
proof
  assume o: "ranges_overlap a al b bl"
  then have "unat a < unat (range_end b bl)" "unat b < unat (range_end a al)"
    by (simp_all add: ranges_overlap_def Let_def word_less_nat_alt)
  with range_nonempty have "max (unat a) (unat b) \<in> range_bytes a al \<inter> range_bytes b bl"
    by (simp add: range_bytes_range_end max_def)
  then show "range_bytes a al \<inter> range_bytes b bl \<noteq> {}" by blast
next
  assume "range_bytes a al \<inter> range_bytes b bl \<noteq> {}"
  then obtain x where "x \<in> range_bytes a al" "x \<in> range_bytes b bl" by blast
  then show "ranges_overlap a al b bl"
    by (auto simp: ranges_overlap_def Let_def word_less_nat_alt range_bytes_range_end)
qed

lemma posix_lock_entry_default_simps [simp]:
  "pl_valid posix_lock_entry_default = False" "posix_entry_ok posix_lock_entry_default"
  by (simp_all add: posix_lock_entry_default_def posix_entry_ok_def)

interpretation plt: lock_table pl_valid "\<lambda>_. posix_lock_entry_default" pl_owner_pid posix_conflict
  by unfold_locales (auto simp: posix_conflict_def ranges_overlap_sym)

section \<open>Preservation of the invariant\<close>

lemma posix_inv_parts:
  assumes "posix_inv t"
  shows "length (pt_entries t) = POSIX_LOCK_TABLE_SIZE"
    and "unat (pt_count t) = used_slots pl_valid (pt_entries t)"
    and "\<And>e. e \<in> set (pt_entries t) \<Longrightarrow> posix_entry_ok e"
    and "conflict_free pl_valid pl_owner_pid posix_conflict (pt_entries t)"
  using assms by (simp_all add: posix_inv_def)

lemma posix_inv_new: "posix_inv posix_lock_table_new"
  by (simp add: posix_inv_def posix_lock_table_new_def plt.conflict_free_empty)

lemma posix_find_conflict_None_iff:
  "posix_find_conflict t ino pid start len ty = None \<longleftrightarrow>
     (\<forall>b \<in> set (pt_entries t). pl_valid b \<and> pl_ino b = ino \<and> pl_owner_pid b \<noteq> pid
        \<and> ranges_overlap start len (pl_start b) (pl_len b)
        \<longrightarrow> ty = F_RDLCK \<and> pl_lock_type b = F_RDLCK)"
  by (auto simp: posix_find_conflict_def find_eq_None_iff)

lemma posix_grant_no_conflict:
  assumes "posix_find_conflict t ino pid start len ty = None"
    and "pl_ino e = ino" "pl_start e = start" "pl_len e = len" "pl_lock_type e = ty"
    and "pl_owner_pid e = pid"
    and "b \<in> set (pt_entries t)" "pl_valid b" "pl_owner_pid b \<noteq> pl_owner_pid e"
  shows "\<not> posix_conflict e b"
  using assms by (auto simp: posix_find_conflict_None_iff posix_conflict_def)

lemma posix_inv_drop:
  assumes inv: "posix_inv t" and P: "\<And>e. P e \<Longrightarrow> pl_valid e"
  shows "posix_inv (posix_drop P t)"
proof -
  note p = posix_inv_parts [OF inv]
  let ?xs = "clear_slots P (\<lambda>_. posix_lock_entry_default) (pt_entries t)"
  let ?n = "length (filter P (pt_entries t))"
  have used: "used_slots pl_valid ?xs + ?n = used_slots pl_valid (pt_entries t)"
    by (rule plt.used_clear) (rule P)
  have n: "unat (of_nat ?n :: u64) = ?n"
    using length_filter_le [of P "pt_entries t"] p(1)
    by (simp add: unat_of_nat POSIX_LOCK_TABLE_SIZE_def)
  have "unat (pt_count t - of_nat ?n) = used_slots pl_valid ?xs"
    using used p(2) n by (simp add: unat_sub word_le_nat_alt)
  moreover have "\<forall>x \<in> set ?xs. posix_entry_ok x"
    using p(3) by (auto simp: clear_slots_def)
  ultimately show ?thesis
    using p(1) plt.conflict_free_clear [OF p(4)] by (simp add: posix_inv_def posix_drop_def)
qed

lemma posix_inv_grant:
  assumes inv: "posix_inv t" and idx: "idx < length (pt_entries t)" and e: "pl_valid e" "posix_entry_ok e"
    and cf: "\<And>b. b \<in> set (pt_entries t) \<Longrightarrow> pl_valid b \<Longrightarrow> pl_owner_pid b \<noteq> pl_owner_pid e \<Longrightarrow>
               \<not> posix_conflict e b"
    and c: "c = (if pl_valid (pt_entries t ! idx) then pt_count t else pt_count t + 1)"
  shows "posix_inv (t\<lparr>pt_entries := (pt_entries t)[idx := e], pt_count := c\<rparr>)"
proof -
  note p = posix_inv_parts [OF inv]
  have "unat c = used_slots pl_valid ((pt_entries t)[idx := e])"
  proof (cases "pl_valid (pt_entries t ! idx)")
    case True
    then show ?thesis using c p(2) plt.used_keep [OF idx True e(1)] by simp
  next
    case False
    then have "unat (pt_count t) < 64"
      using used_slots_less [of idx "pt_entries t" pl_valid] idx p(1,2)
      by (simp add: POSIX_LOCK_TABLE_SIZE_def)
    then have "unat (pt_count t + 1) = Suc (unat (pt_count t))"
      by (rule unat_add_1_bounded) simp
    then show ?thesis using False c p(2) plt.used_fill [OF idx False e(1)] by simp
  qed
  moreover have "\<forall>x \<in> set ((pt_entries t)[idx := e]). posix_entry_ok x"
    using p(3) e(2) set_update_subset_insert [of "pt_entries t" idx e] by auto
  ultimately show ?thesis
    using p(1) plt.conflict_free_grant [OF p(4) cf] by (simp add: posix_inv_def)
qed

lemma find_overlapping_SomeD:
  assumes "find_overlapping t ino pid start len = Some idx"
  shows "idx < length (pt_entries t)" "pl_valid (pt_entries t ! idx)"
    "pl_ino (pt_entries t ! idx) = ino" "pl_owner_pid (pt_entries t ! idx) = pid"
    "ranges_overlap start len (pl_start (pt_entries t ! idx)) (pl_len (pt_entries t ! idx))"
  using find_idx_SomeD(1,2) [OF assms [unfolded find_overlapping_def]] by simp_all

lemma posix_find_free_SomeD:
  assumes "posix_find_free t = Some idx"
  shows "idx < length (pt_entries t)" "\<not> pl_valid (pt_entries t ! idx)"
  using find_idx_SomeD(1,2) [OF assms [unfolded posix_find_free_def]] by simp_all

text \<open>The three ways \<open>posix_setlk\<close> ends: the table unchanged, entries dropped, one slot written.\<close>

lemma posix_setlk_cases:
  obtains (same) "snd (posix_setlk pid ino ty start len w t) = t"
      "ty \<noteq> F_UNLCK" "fst (posix_setlk pid ino ty start len w t) \<noteq> Inr None"
  | (drop) "ty = F_UNLCK" "fst (posix_setlk pid ino ty start len w t) = Inr None"
      "snd (posix_setlk pid ino ty start len w t) =
         posix_drop (\<lambda>e. pl_valid e \<and> pl_ino e = ino \<and> pl_owner_pid e = pid
                       \<and> ranges_overlap start len (pl_start e) (pl_len e)) t"
  | (grant) idx e where "fst (posix_setlk pid ino ty start len w t) = Inr None"
      "snd (posix_setlk pid ino ty start len w t) =
         t\<lparr>pt_entries := (pt_entries t)[idx := e],
           pt_count := (if pl_valid (pt_entries t ! idx) then pt_count t else pt_count t + 1)\<rparr>"
      "idx < length (pt_entries t)" "ty = F_RDLCK \<or> ty = F_WRLCK"
      "e = \<lparr>pl_ino = ino, pl_owner_pid = pid, pl_start = start, pl_len = len,
            pl_lock_type = ty, pl_valid = True\<rparr>"
      "pl_valid (pt_entries t ! idx) \<Longrightarrow>
         pl_ino (pt_entries t ! idx) = ino \<and> pl_owner_pid (pt_entries t ! idx) = pid"
      "posix_find_conflict t ino pid start len ty = None"
proof (cases "(ty = F_RDLCK \<or> ty = F_WRLCK) \<and> posix_find_conflict t ino pid start len ty = None")
  case False
  show ?thesis
  proof (cases "ty = F_UNLCK")
    case True
    then show ?thesis by (intro drop) (simp_all add: posix_setlk_def)
  next
    case ne: False
    with False show ?thesis
      by (intro same) (auto simp: posix_setlk_def split: option.split)
  qed
next
  case True
  then have ty: "ty \<noteq> F_UNLCK" "ty = F_RDLCK \<or> ty = F_WRLCK"
    and none: "posix_find_conflict t ino pid start len ty = None" by auto
  show ?thesis
  proof (cases "find_overlapping t ino pid start len")
    case (Some idx)
    note f = find_overlapping_SomeD [OF Some]
    have upd: "(pt_entries t ! idx)\<lparr>pl_lock_type := ty, pl_start := start, pl_len := len\<rparr>
        = \<lparr>pl_ino = ino, pl_owner_pid = pid, pl_start = start, pl_len = len,
           pl_lock_type = ty, pl_valid = True\<rparr>"
      using f(2,3,4) by (cases "pt_entries t ! idx") simp
    show ?thesis
      by (rule grant [of idx, OF _ _ f(1) ty(2) refl _ none])
         (use Some none ty f(2,3,4) in \<open>simp_all add: posix_setlk_def upd\<close>)
  next
    case None
    show ?thesis
    proof (cases "posix_find_free t")
      case None': None
      with None none ty show ?thesis by (intro same) (simp_all add: posix_setlk_def)
    next
      case (Some idx)
      note f = posix_find_free_SomeD [OF Some]
      show ?thesis
        by (rule grant [of idx]) (use Some None none ty f in \<open>simp_all add: posix_setlk_def\<close>)
    qed
  qed
qed

lemma posix_setlk_inv:
  assumes inv: "posix_inv t" and ino: "ino \<noteq> 0"
  shows "posix_inv (snd (posix_setlk pid ino ty start len w t))"
proof (cases rule: posix_setlk_cases [of pid ino ty start len w t])
  case same
  with inv show ?thesis by simp
next
  case drop
  show ?thesis unfolding drop(3) by (rule posix_inv_drop [OF inv]) simp
next
  case (grant idx e)
  have "posix_entry_ok e" using grant(4,5) ino by (auto simp: posix_entry_ok_def)
  moreover have "\<not> posix_conflict e b"
    if "b \<in> set (pt_entries t)" "pl_valid b" "pl_owner_pid b \<noteq> pl_owner_pid e" for b
    by (rule posix_grant_no_conflict [OF grant(7) _ _ _ _ _ that]) (simp_all add: grant(5))
  ultimately show ?thesis
    unfolding grant(2) using grant(5) by (intro posix_inv_grant [OF inv grant(3)]) simp_all
qed

lemma posix_lock_release_pid_inv: "posix_inv t \<Longrightarrow> posix_inv (posix_lock_release_pid pid t)"
  unfolding posix_lock_release_pid_def by (rule posix_inv_drop) simp_all

lemma posix_lock_release_inode_inv: "posix_inv t \<Longrightarrow> posix_inv (posix_lock_release_inode ino t)"
  unfolding posix_lock_release_inode_def by (rule posix_inv_drop) simp_all

section \<open>What the operations do to the bytes held\<close>

lemma posix_exclusion:
  assumes inv: "posix_inv t" and a: "posix_holds t ino p F_WRLCK x" and b: "posix_holds t ino q ty x"
  shows "p = q"
proof (rule ccontr)
  assume "p \<noteq> q"
  from a b obtain e f where e: "e \<in> set (pt_entries t)" "pl_valid e" "pl_ino e = ino" "pl_owner_pid e = p"
      "pl_lock_type e = F_WRLCK" "x \<in> range_bytes (pl_start e) (pl_len e)"
    and f: "f \<in> set (pt_entries t)" "pl_valid f" "pl_ino f = ino" "pl_owner_pid f = q"
      "x \<in> range_bytes (pl_start f) (pl_len f)"
    unfolding posix_holds_def by blast
  have "ranges_overlap (pl_start e) (pl_len e) (pl_start f) (pl_len f)"
    using e f by (auto simp: ranges_overlap_bytes)
  then have "posix_conflict e f" using e f by (simp add: posix_conflict_def)
  with conflict_freeD [OF posix_inv_parts(4) [OF inv] e(1) f(1) e(2) f(2)] e f \<open>p \<noteq> q\<close>
  show False by simp
qed

lemma posix_holds_drop:
  "posix_holds (posix_drop P t) ino pid ty x \<longleftrightarrow>
    (\<exists>e \<in> set (pt_entries t). pl_valid e \<and> \<not> P e \<and> pl_ino e = ino \<and> pl_owner_pid e = pid
       \<and> pl_lock_type e = ty \<and> x \<in> range_bytes (pl_start e) (pl_len e))"
  unfolding posix_holds_def posix_drop_def clear_slots_def by fastforce

lemma posix_setlk_granted_holds:
  assumes r: "fst (posix_setlk pid ino ty start len w t) = Inr None" and ty: "ty \<noteq> F_UNLCK"
    and x: "x \<in> range_bytes start len"
  shows "posix_holds (snd (posix_setlk pid ino ty start len w t)) ino pid ty x"
proof (cases rule: posix_setlk_cases [of pid ino ty start len w t])
  case same
  with r show ?thesis by simp
next
  case drop
  with ty show ?thesis by simp
next
  case (grant idx e)
  then have "e \<in> set ((pt_entries t)[idx := e])" by (simp add: set_update_memI)
  with x show ?thesis
    unfolding grant(2) posix_holds_def by (intro bexI [of _ e]) (simp_all add: grant(5))
qed

lemma posix_setlk_unlock_holds:
  "posix_holds (snd (posix_setlk pid ino F_UNLCK start len w t)) i p ty x \<Longrightarrow>
   posix_holds t i p ty x \<and> \<not> (i = ino \<and> p = pid \<and> x \<in> range_bytes start len)"
  by (auto simp: posix_setlk_def posix_holds_drop ranges_overlap_bytes posix_holds_def [of t])

lemma posix_setlk_other_pids:
  assumes "p \<noteq> pid"
  shows "posix_holds (snd (posix_setlk pid ino lt start len w t)) i p ty x \<longleftrightarrow> posix_holds t i p ty x"
proof (cases rule: posix_setlk_cases [of pid ino lt start len w t])
  case same
  then show ?thesis by simp
next
  case drop
  with assms show ?thesis unfolding drop(3) posix_holds_drop by (auto simp: posix_holds_def)
next
  case (grant idx e)
  have "b \<in> set ((pt_entries t)[idx := e]) \<and> pl_valid b \<and> pl_owner_pid b = p
      \<longleftrightarrow> b \<in> set (pt_entries t) \<and> pl_valid b \<and> pl_owner_pid b = p" for b
    using assms grant(5,6)
    by (metis in_set_list_update_iff [OF grant(3)] in_set_conv_nth posix_lock_entry.select_convs(2))
  then show ?thesis unfolding grant(2) posix_holds_def by auto
qed

lemma posix_getlk_None_iff:
  assumes "ty = F_RDLCK \<or> ty = F_WRLCK" and inv: "posix_inv t"
  shows "posix_getlk pid ino ty start len t = Inr None \<longleftrightarrow>
    (\<forall>p x ty'. p \<noteq> pid \<and> x \<in> range_bytes start len \<and> posix_holds t ino p ty' x
       \<longrightarrow> ty = F_RDLCK \<and> ty' = F_RDLCK)"
proof -
  have "posix_getlk pid ino ty start len t = Inr None \<longleftrightarrow>
      posix_find_conflict t ino pid start len ty = None"
    using assms(1) by (auto simp: posix_getlk_def split: option.split)
  then show ?thesis
    unfolding posix_find_conflict_None_iff posix_holds_def ranges_overlap_bytes
    by (simp, blast)
qed

lemma posix_getlk_SomeD:
  assumes "posix_getlk pid ino ty start len t = Inr (Some c)"
  shows "plc_pid c \<noteq> pid \<and>
    (\<exists>x \<in> range_bytes start len. posix_holds t ino (plc_pid c) (plc_lock_type c) x)"
proof -
  from assms obtain p q where c: "posix_find_conflict t ino pid start len ty = Some (p, q)"
    "plc_pid c = p" "plc_lock_type c = q"
    by (auto simp: posix_getlk_def split: if_splits option.splits)
  then obtain e where "List.find (\<lambda>e. \<not> (\<not> pl_valid e \<or> pl_ino e \<noteq> ino \<or> pl_owner_pid e = pid)
       \<and> ranges_overlap start len (pl_start e) (pl_len e)
       \<and> \<not> (ty = F_RDLCK \<and> pl_lock_type e = F_RDLCK)) (pt_entries t) = Some e"
    "pl_owner_pid e = p" "pl_lock_type e = q"
    by (auto simp: posix_find_conflict_def)
  with c show ?thesis
    unfolding find_Some_iff posix_holds_def ranges_overlap_bytes by (auto simp: set_conv_nth)
qed

end
