(* ===== verification/File_Locks.thy ===== *)
theory File_Locks
  imports Flock Posix_Lock
begin

text \<open>
  The public interface of \<^verbatim>\<open>src/src/kernel/services/fs/flock.rs\<close>: the two global tables and the
  two statistics counters as one state record, the system calls \<^verbatim>\<open>sys_flock\<close> and
  \<^verbatim>\<open>sys_posix_lock\<close> with their argument decoding, and the statistics functions.  Every public
  function holds the table's spin lock for its whole body, so a kernel run is a sequence
  of these calls: \<open>fl_step\<close> is one call and \<open>fl_reachable\<close> the states of such runs.
\<close>

record file_locks =
  fl_flock :: flock_table
  fl_posix :: posix_lock_table
  fl_flock_ops :: u64
  fl_posix_ops :: u64

definition file_locks_init :: file_locks where
  "file_locks_init =
     \<lparr>fl_flock = flock_table_new, fl_posix = posix_lock_table_new, fl_flock_ops = 0, fl_posix_ops = 0\<rparr>"

definition sys_flock :: "i32 \<Rightarrow> i32 \<Rightarrow> u32 \<Rightarrow> u32 \<Rightarrow> file_locks \<Rightarrow> flock_result \<times> file_locks" where
  "sys_flock fd operation pid ino s0 =
     (let s = s0\<lparr>fl_flock_ops := fl_flock_ops s0 + 1\<rparr> in
      if ino = 0 then (FlockInvalid, s)
      else
        let nonblock = (operation AND LOCK_NB \<noteq> 0);
            op = operation AND NOT LOCK_NB in
        if op = LOCK_SH then
          (let (r, t) = flock_lock fd pid ino LOCK_SH nonblock (fl_flock s) in (r, s\<lparr>fl_flock := t\<rparr>))
        else if op = LOCK_EX then
          (let (r, t) = flock_lock fd pid ino LOCK_EX nonblock (fl_flock s) in (r, s\<lparr>fl_flock := t\<rparr>))
        else if op = LOCK_UN then
          (let (r, t) = flock_unlock fd pid ino (fl_flock s) in (r, s\<lparr>fl_flock := t\<rparr>))
        else (FlockInvalid, s))"

definition sys_posix_lock ::
    "u32 \<Rightarrow> u32 \<Rightarrow> i32 \<Rightarrow> i32 \<Rightarrow> u64 \<Rightarrow> u64 \<Rightarrow> file_locks \<Rightarrow> posix_answer \<times> file_locks" where
  "sys_posix_lock pid ino cmd lock_type start len s0 =
     (let s = s0\<lparr>fl_posix_ops := fl_posix_ops s0 + 1\<rparr> in
      if ino = 0 then (Inl PosixInvalid, s)
      else if cmd = F_GETLK then (posix_getlk pid ino lock_type start len (fl_posix s), s)
      else if cmd = F_SETLK \<or> cmd = F_SETLKW then
        (let (r, t) = posix_setlk pid ino lock_type start len (cmd = F_SETLKW) (fl_posix s)
         in (r, s\<lparr>fl_posix := t\<rparr>))
      else (Inl PosixInvalid, s))"

definition flock_ops :: "file_locks \<Rightarrow> u64" where
  "flock_ops s = fl_flock_ops s"

definition posix_lock_ops :: "file_locks \<Rightarrow> u64" where
  "posix_lock_ops s = fl_posix_ops s"

definition reset_stats :: "file_locks \<Rightarrow> file_locks" where
  "reset_stats s = s\<lparr>fl_flock_ops := 0, fl_posix_ops := 0\<rparr>"

inductive fl_step :: "file_locks \<Rightarrow> file_locks \<Rightarrow> bool" where
  step_flock: "sys_flock fd operation pid ino s = (r, s') \<Longrightarrow> fl_step s s'"
| step_posix: "sys_posix_lock pid ino cmd ty start len s = (a, s') \<Longrightarrow> fl_step s s'"
| step_close: "fl_step s (s\<lparr>fl_flock := flock_release_fd pid fd (fl_flock s)\<rparr>)"
| step_exit_flock: "fl_step s (s\<lparr>fl_flock := flock_release_pid pid (fl_flock s)\<rparr>)"
| step_exit_posix: "fl_step s (s\<lparr>fl_posix := posix_lock_release_pid pid (fl_posix s)\<rparr>)"
| step_inode: "fl_step s (s\<lparr>fl_posix := posix_lock_release_inode ino (fl_posix s)\<rparr>)"
| step_reset: "fl_step s (reset_stats s)"

inductive fl_reachable :: "file_locks \<Rightarrow> bool" where
  fl_init: "fl_reachable file_locks_init"
| fl_more: "fl_reachable s \<Longrightarrow> fl_step s s' \<Longrightarrow> fl_reachable s'"

section \<open>What the tables promise\<close>

text \<open>
  \<open>flock_exclusion m\<close>: an exclusive lock of a process excludes every lock of another process
  on that inode.  \<open>posix_byte_exclusion t\<close>: a byte under a write lock of a process is under no
  lock of another process.
\<close>

definition flock_exclusion :: "flock_map \<Rightarrow> bool" where
  "flock_exclusion m \<longleftrightarrow>
     (\<forall>ino p f n q g ty k. m (ino, p, f) = Some (LOCK_EX, n) \<and> m (ino, q, g) = Some (ty, k) \<longrightarrow> p = q)"

definition posix_byte_exclusion :: "posix_lock_table \<Rightarrow> bool" where
  "posix_byte_exclusion t \<longleftrightarrow>
     (\<forall>ino p q ty x. posix_holds t ino p F_WRLCK x \<and> posix_holds t ino q ty x \<longrightarrow> p = q)"

definition file_locks_inv :: "file_locks \<Rightarrow> bool" where
  "file_locks_inv s \<longleftrightarrow> flock_inv (fl_flock s) \<and> posix_inv (fl_posix s)"

lemma file_locks_inv_init: "file_locks_inv file_locks_init"
  by (simp add: file_locks_inv_def file_locks_init_def flock_inv_new posix_inv_new)

lemma sys_flock_inv:
  "file_locks_inv s \<Longrightarrow> file_locks_inv (snd (sys_flock fd operation pid ino s))"
  using flock_lock_inv flock_unlock_inv
  by (simp add: file_locks_inv_def sys_flock_def Let_def split_beta)

lemma sys_posix_lock_inv:
  "file_locks_inv s \<Longrightarrow> file_locks_inv (snd (sys_posix_lock pid ino cmd ty start len s))"
  using posix_setlk_inv by (simp add: file_locks_inv_def sys_posix_lock_def Let_def split_beta)

lemma fl_step_inv: "fl_step s s' \<Longrightarrow> file_locks_inv s \<Longrightarrow> file_locks_inv s'"
proof (induction rule: fl_step.induct)
  case step_flock
  then show ?case using sys_flock_inv by (metis snd_conv)
next
  case step_posix
  then show ?case using sys_posix_lock_inv by (metis snd_conv)
qed (simp_all add: file_locks_inv_def flock_release_fd_inv flock_release_pid_inv
    posix_lock_release_pid_inv posix_lock_release_inode_inv reset_stats_def)

lemma fl_reachable_inv: "fl_reachable s \<Longrightarrow> file_locks_inv s"
  by (induction rule: fl_reachable.induct) (simp_all add: file_locks_inv_init fl_step_inv)

lemma fl_reachable_tables:
  assumes "fl_reachable s"
  shows "flock_inv (fl_flock s)" "posix_inv (fl_posix s)"
  using fl_reachable_inv [OF assms] by (simp_all add: file_locks_inv_def)

lemma flock_inv_exclusion:
  assumes inv: "flock_inv t"
  shows "flock_exclusion (flock_abs t)"
  unfolding flock_exclusion_def flock_abs_Some_iff [OF inv]
  using conflict_freeD [OF flock_inv_parts(5) [OF inv]]
  by (fastforce simp: flock_key_def flock_conflict_def)

lemma sys_flock_reachable:
  "fl_reachable s \<Longrightarrow> fl_reachable (snd (sys_flock fd operation pid ino s))"
  by (rule fl_more, assumption, rule step_flock, rule prod.collapse [symmetric])

lemma sys_posix_lock_reachable:
  "fl_reachable s \<Longrightarrow> fl_reachable (snd (sys_posix_lock pid ino cmd ty start len s))"
  by (rule fl_more, assumption, rule step_posix, rule prod.collapse [symmetric])

section \<open>Properties\<close>

text \<open>C2: In every state reachable by any sequence of the public calls, an exclusive
  \<^verbatim>\<open>flock\<close> of one process excludes every lock of another process on the same inode.\<close>

theorem flock_mutual_exclusion:
  "fl_reachable s \<Longrightarrow> flock_exclusion (flock_abs (fl_flock s))"
  by (rule flock_inv_exclusion) (rule fl_reachable_tables)

definition demo_flock :: file_locks where
  "demo_flock = snd (sys_flock 3 LOCK_EX 5 7 file_locks_init)"

lemma demo_flock_reachable: "fl_reachable demo_flock"
  unfolding demo_flock_def by (rule sys_flock_reachable) (rule fl_init)

theorem flock_mutual_exclusion_witness:
  "fl_reachable demo_flock \<and> flock_abs (fl_flock demo_flock) (7, 5, 3) = Some (LOCK_EX, 1)
   \<and> flock_exclusion (flock_abs (fl_flock demo_flock))"
proof -
  have "flock_abs (fl_flock demo_flock) (7, 5, 3) = Some (LOCK_EX, 1)"
    by code_simp
  with demo_flock_reachable flock_mutual_exclusion [OF demo_flock_reachable] show ?thesis by blast
qed

text \<open>C1: In every reachable state, a byte of an inode under a POSIX write lock of one
  process is under no lock of another process.\<close>

theorem posix_write_lock_exclusion:
  "fl_reachable s \<Longrightarrow> posix_byte_exclusion (fl_posix s)"
  using posix_exclusion fl_reachable_tables(2) unfolding posix_byte_exclusion_def by blast

definition demo_posix :: file_locks where
  "demo_posix = snd (sys_posix_lock 5 7 F_SETLK F_WRLCK 100 50 file_locks_init)"

lemma demo_posix_reachable: "fl_reachable demo_posix"
  unfolding demo_posix_def by (rule sys_posix_lock_reachable) (rule fl_init)

theorem posix_write_lock_exclusion_witness:
  "fl_reachable demo_posix \<and> posix_lock_count (fl_posix demo_posix) = 1
   \<and> posix_byte_exclusion (fl_posix demo_posix)"
proof -
  have "posix_lock_count (fl_posix demo_posix) = 1" by code_simp
  with demo_posix_reachable posix_write_lock_exclusion [OF demo_posix_reachable] show ?thesis by blast
qed



text \<open>The overlap test of record locks decides exactly whether the two ranges share a
  byte, for every start and length including length 0 (to the end of file) and ranges whose
  end saturates.\<close>

theorem ranges_overlap_correct:
  "ranges_overlap a_start a_len b_start b_len \<longleftrightarrow>
     range_bytes a_start a_len \<inter> range_bytes b_start b_len \<noteq> {}"
  by (rule ranges_overlap_bytes)

text \<open>A granted POSIX lock covers every byte of the requested range, leaves what the other
  processes hold alone and keeps the table invariant.\<close>

theorem posix_setlk_grants:
  assumes "posix_inv t" "ino \<noteq> 0" "ty \<noteq> F_UNLCK"
    and "posix_setlk pid ino ty start len w t = (Inr None, t')"
  shows "posix_inv t' \<and> (\<forall>x \<in> range_bytes start len. posix_holds t' ino pid ty x)
    \<and> (\<forall>p i ty' x. p \<noteq> pid \<longrightarrow> posix_holds t' i p ty' x = posix_holds t i p ty' x)"
  using assms posix_setlk_inv [of t ino pid ty start len w]
    posix_setlk_granted_holds [of pid ino ty start len w t]
    posix_setlk_other_pids [of _ pid ino ty start len w t] by simp

theorem posix_setlk_grants_witness:
  "\<exists>t'. posix_setlk 5 7 F_WRLCK 100 50 False posix_lock_table_new = (Inr None, t')
     \<and> posix_holds t' 7 5 F_WRLCK 120"
proof -
  obtain a t' where r: "posix_setlk 5 7 F_WRLCK 100 50 False posix_lock_table_new = (a, t')"
    by fastforce
  have "fst (posix_setlk 5 7 F_WRLCK 100 50 False posix_lock_table_new) = Inr None"
    by code_simp
  with r have "a = Inr None" by simp
  moreover have "(120::nat) \<in> range_bytes 100 50" by (simp add: range_bytes_def)
  ultimately show ?thesis
    using posix_setlk_grants [OF posix_inv_new, of 7 F_WRLCK 5 100 50 False t'] r by auto
qed

text \<open>\<^verbatim>\<open>F_GETLK\<close> answers that the lock could be set exactly when no other process holds a
  conflicting lock on a byte of the range.\<close>

theorem posix_getlk_exact:
  assumes "fl_reachable s" "ty = F_RDLCK \<or> ty = F_WRLCK" "ino \<noteq> 0"
  shows "fst (sys_posix_lock pid ino F_GETLK ty start len s) = Inr None \<longleftrightarrow>
    \<not> (\<exists>p x ty'. p \<noteq> pid \<and> x \<in> range_bytes start len \<and> posix_holds (fl_posix s) ino p ty' x
         \<and> \<not> (ty = F_RDLCK \<and> ty' = F_RDLCK))"
  using posix_getlk_None_iff [OF assms(2) fl_reachable_tables(2) [OF assms(1)], of pid ino start len]
    assms(3) by (auto simp: sys_posix_lock_def Let_def)

theorem posix_getlk_exact_witness:
  "fl_reachable demo_posix
   \<and> (fst (sys_posix_lock 6 7 F_GETLK F_RDLCK 0 200 demo_posix) = Inr None \<longleftrightarrow>
      \<not> (\<exists>p x ty'. p \<noteq> 6 \<and> x \<in> range_bytes 0 200 \<and> posix_holds (fl_posix demo_posix) 7 p ty' x
           \<and> \<not> (F_RDLCK = F_RDLCK \<and> ty' = F_RDLCK)))"
  using demo_posix_reachable posix_getlk_exact [OF demo_posix_reachable, of F_RDLCK 7 6 0 200] by simp

text \<open>Process exit (\<^verbatim>\<open>flock_release_pid\<close> and \<^verbatim>\<open>posix_lock_release_pid\<close>) takes away every lock of
  the process and nothing else.\<close>

theorem release_pid_exact:
  assumes "fl_reachable s"
  shows "flock_abs (flock_release_pid pid (fl_flock s)) (ino, p, f)
      = (if p = pid then None else flock_abs (fl_flock s) (ino, p, f))
    \<and> posix_holds (posix_lock_release_pid pid (fl_posix s)) ino p ty x
      = (p \<noteq> pid \<and> posix_holds (fl_posix s) ino p ty x)"
  using flock_release_pid_abs [OF fl_reachable_tables(1) [OF assms]]
  by (auto simp: posix_lock_release_pid_def posix_holds_drop posix_holds_def [of "fl_posix s"])

theorem release_pid_exact_witness:
  "fl_reachable demo_flock
   \<and> flock_abs (flock_release_pid 5 (fl_flock demo_flock)) (7, 5, 3) = None"
  using demo_flock_reachable release_pid_exact [OF demo_flock_reachable, of 5 7 5 3] by simp

section \<open>Divergences shown on concrete runs\<close>

text \<open>Two descriptors of one process both obtain the exclusive lock of an inode.\<close>

lemma flock_same_pid_two_exclusive:
  "fst (sys_flock 4 LOCK_EX 5 7 demo_flock) = FlockOk
   \<and> flock_abs (fl_flock (snd (sys_flock 4 LOCK_EX 5 7 demo_flock))) (7, 5, 3) = Some (LOCK_EX, 1)
   \<and> flock_abs (fl_flock (snd (sys_flock 4 LOCK_EX 5 7 demo_flock))) (7, 5, 4) = Some (LOCK_EX, 1)"
  by code_simp

text \<open>\<^verbatim>\<open>F_GETLK\<close> on inode 8 reports the range of a lock that process 5 holds on inode 7.\<close>

lemma posix_getlk_other_inode_range:
  "fst (sys_posix_lock 6 8 F_GETLK F_WRLCK 110 10
          (snd (sys_posix_lock 5 8 F_SETLK F_WRLCK 110 5 demo_posix)))
   = Inr (Some \<lparr>plc_pid = 5, plc_lock_type = F_WRLCK, plc_start = 100, plc_len = 50\<rparr>)"
  by code_simp

text \<open>Locking a sub-range of an own lock gives up the rest of it.\<close>

lemma posix_setlk_shrinks_own_lock:
  "fst (sys_posix_lock 6 7 F_GETLK F_WRLCK 140 1
          (snd (sys_posix_lock 5 7 F_SETLK F_WRLCK 100 10 demo_posix))) = Inr None"
  by code_simp

end
