(* ===== verification/Fd_Alloc.thy ===== *)
theory Fd_Alloc
  imports Prelude
begin

text \<open>
  The global descriptor allocator of \<^verbatim>\<open>src/src/kernel/services/proc/fd_alloc.rs\<close>: the range plan
  (\<^verbatim>\<open>FdRange\<close>, \<^verbatim>\<open>FdPlan\<close>), the lookups \<^verbatim>\<open>subsystem_of\<close>, \<^verbatim>\<open>idx_of\<close>, \<^verbatim>\<open>fd_at\<close>, and the bitmap
  allocator.  The bitmap \<^verbatim>\<open>FD_BITMAPS\<close> is a list of bytes; \<open>fd_used\<close> reads one slot of it.
  The allocator loads a byte and stores it back in two separate atomic accesses:
  \<open>alloc_step\<close> performs one access, so that several callers can be interleaved.
\<close>

section \<open>Subsystems and the range plan\<close>

datatype fd_subsystem = Smoltcp | Uds | EventFd | SignalFd | Inotify | TimerFd | PidFd

definition FD_SUBSYSTEM_COUNT :: nat where
  "FD_SUBSYSTEM_COUNT = 7"

fun subsystem_index :: "fd_subsystem \<Rightarrow> nat" where
  "subsystem_index Smoltcp = 0"
| "subsystem_index Uds = 1"
| "subsystem_index EventFd = 2"
| "subsystem_index SignalFd = 3"
| "subsystem_index Inotify = 4"
| "subsystem_index TimerFd = 5"
| "subsystem_index PidFd = 6"

definition subsystem_from_index :: "nat \<Rightarrow> fd_subsystem option" where
  "subsystem_from_index i =
     (if i = 0 then Some Smoltcp else if i = 1 then Some Uds else if i = 2 then Some EventFd
      else if i = 3 then Some SignalFd else if i = 4 then Some Inotify
      else if i = 5 then Some TimerFd else if i = 6 then Some PidFd else None)"

record fd_range =
  fr_base :: i32
  fr_capacity :: u16

definition fd_range_new :: "i32 \<Rightarrow> u16 \<Rightarrow> fd_range" where
  "fd_range_new base capacity = \<lparr>fr_base = base, fr_capacity = capacity\<rparr>"

definition end_exclusive :: "fd_range \<Rightarrow> i32" where
  "end_exclusive r = fr_base r + ucast (fr_capacity r)"

definition fd_contains :: "fd_range \<Rightarrow> i32 \<Rightarrow> bool" where
  "fd_contains r fd \<longleftrightarrow> sint (fr_base r) \<le> sint fd \<and> sint fd < sint (end_exclusive r)"

definition fd_overlaps :: "fd_range \<Rightarrow> fd_range \<Rightarrow> bool" where
  "fd_overlaps r other \<longleftrightarrow>
     sint (fr_base r) < sint (end_exclusive other) \<and> sint (fr_base other) < sint (end_exclusive r)"

fun range_for :: "fd_subsystem \<Rightarrow> fd_range" where
  "range_for Smoltcp = fd_range_new 0 256"
| "range_for Uds = fd_range_new 1000 16"
| "range_for EventFd = fd_range_new 1100 16"
| "range_for SignalFd = fd_range_new 1120 16"
| "range_for Inotify = fd_range_new 1140 16"
| "range_for TimerFd = fd_range_new 1160 16"
| "range_for PidFd = fd_range_new 1180 16"

definition fd_plan_all :: "fd_range list" where
  "fd_plan_all =
     [range_for Smoltcp, range_for Uds, range_for EventFd, range_for SignalFd, range_for Inotify,
      range_for TimerFd, range_for PidFd]"

fun non_overlapping :: "fd_range list \<Rightarrow> bool" where
  "non_overlapping [] = True"
| "non_overlapping (r # rs) = ((\<forall>q \<in> set rs. \<not> fd_overlaps r q) \<and> non_overlapping rs)"

definition ranges_non_overlapping :: bool where
  "ranges_non_overlapping = non_overlapping fd_plan_all"

definition verify_plan :: "unit option" where
  "verify_plan = (if ranges_non_overlapping then Some () else None)"

definition fd_at :: "fd_subsystem \<Rightarrow> nat \<Rightarrow> i32" where
  "fd_at sub slot = fr_base (range_for sub) + of_nat slot"

definition max_slots :: "fd_subsystem \<Rightarrow> nat" where
  "max_slots sub = unat (fr_capacity (range_for sub))"

text \<open>The \<^verbatim>\<open>while i < COUNT\<close> loops of \<^verbatim>\<open>subsystem_of\<close> and \<^verbatim>\<open>idx_of\<close>; the \<^verbatim>\<open>?\<close> after
  \<^verbatim>\<open>from_index(i)\<close> returns \<^verbatim>\<open>None\<close> from the function.\<close>

function subsystem_scan :: "i32 \<Rightarrow> nat \<Rightarrow> fd_subsystem option" where
  "subsystem_scan fd i =
     (if i < FD_SUBSYSTEM_COUNT then
        (case subsystem_from_index i of
           None \<Rightarrow> None
         | Some sub \<Rightarrow> if fd_contains (range_for sub) fd then Some sub else subsystem_scan fd (i + 1))
      else None)"
  by pat_completeness auto
termination
  by (relation "measure (\<lambda>(fd, i). FD_SUBSYSTEM_COUNT - i)") auto

definition subsystem_of :: "i32 \<Rightarrow> fd_subsystem option" where
  "subsystem_of fd = subsystem_scan fd 0"

function idx_scan :: "i32 \<Rightarrow> nat \<Rightarrow> (fd_subsystem \<times> nat) option" where
  "idx_scan fd i =
     (if i < FD_SUBSYSTEM_COUNT then
        (case subsystem_from_index i of
           None \<Rightarrow> None
         | Some sub \<Rightarrow>
             (let range = range_for sub in
              if fd_contains range fd then Some (sub, unat (scast (fd - fr_base range) :: u64))
              else idx_scan fd (i + 1)))
      else None)"
  by pat_completeness auto
termination
  by (relation "measure (\<lambda>(fd, i). FD_SUBSYSTEM_COUNT - i)") auto

definition idx_of :: "i32 \<Rightarrow> (fd_subsystem \<times> nat) option" where
  "idx_of fd = idx_scan fd 0"

declare subsystem_scan.simps [simp del] idx_scan.simps [simp del]

section \<open>The bitmap allocator\<close>

definition BITMAP_SIZE :: nat where
  "BITMAP_SIZE = 32"

type_synonym fd_bitmaps = "u8 list"

definition fd_bitmaps_init :: fd_bitmaps where
  "fd_bitmaps_init = replicate (FD_SUBSYSTEM_COUNT * BITMAP_SIZE) 0"

definition bitmap_offset :: "fd_subsystem \<Rightarrow> nat" where
  "bitmap_offset sub = subsystem_index sub * BITMAP_SIZE"

function alloc_scan :: "fd_subsystem \<Rightarrow> nat \<Rightarrow> fd_bitmaps \<Rightarrow> i32 option \<times> fd_bitmaps" where
  "alloc_scan sub i bm =
     (if i < max_slots sub then
        (let byte_idx = bitmap_offset sub + i div 8;
             bit_idx = i mod 8;
             byte = bm ! byte_idx in
         if byte AND push_bit bit_idx 1 = 0 then
           (Some (ucast ((scast (fr_base (range_for sub)) :: u64) + of_nat i)),
            bm[byte_idx := byte OR push_bit bit_idx 1])
         else alloc_scan sub (i + 1) bm)
      else (None, bm))"
  by pat_completeness auto
termination
  by (relation "measure (\<lambda>(sub, i, bm). max_slots sub - i)") auto

declare alloc_scan.simps [simp del]

definition alloc_fd :: "fd_subsystem \<Rightarrow> fd_bitmaps \<Rightarrow> i32 option \<times> fd_bitmaps" where
  "alloc_fd sub bm = alloc_scan sub 0 bm"

definition free_fd :: "fd_subsystem \<Rightarrow> i32 \<Rightarrow> fd_bitmaps \<Rightarrow> bool \<times> fd_bitmaps" where
  "free_fd sub fd bm =
     (let range = range_for sub in
      if \<not> fd_contains range fd then (False, bm)
      else
        let slot = unat (scast (fd - fr_base range) :: u64);
            byte_idx = bitmap_offset sub + slot div 8;
            bit_idx = slot mod 8;
            byte = bm ! byte_idx in
        (True, bm[byte_idx := byte AND NOT (push_bit bit_idx 1)]))"

section \<open>One memory access at a time\<close>

text \<open>
  A caller of \<^verbatim>\<open>alloc_fd\<close> between two accesses to the shared bitmap: about to load the byte of
  slot \<open>i\<close>, about to store \<open>byte\<close> with the bit of slot \<open>i\<close> set, or returned.
\<close>

datatype alloc_pc = Load nat | Store nat u8 | Return "i32 option"

fun alloc_step :: "fd_subsystem \<Rightarrow> alloc_pc \<times> fd_bitmaps \<Rightarrow> alloc_pc \<times> fd_bitmaps" where
  "alloc_step sub (Load i, bm) =
     (if i < max_slots sub then
        (let byte = bm ! (bitmap_offset sub + i div 8) in
         if byte AND push_bit (i mod 8) 1 = 0 then (Store i byte, bm) else (Load (i + 1), bm))
      else (Return None, bm))"
| "alloc_step sub (Store i byte, bm) =
     (Return (Some (ucast ((scast (fr_base (range_for sub)) :: u64) + of_nat i))),
      bm[bitmap_offset sub + i div 8 := byte OR push_bit (i mod 8) 1])"
| "alloc_step sub (Return r, bm) = (Return r, bm)"

text \<open>A schedule is a list of caller numbers; each entry lets that caller do one access.\<close>

fun alloc_run ::
    "fd_subsystem \<Rightarrow> nat list \<Rightarrow> alloc_pc list \<times> fd_bitmaps \<Rightarrow> alloc_pc list \<times> fd_bitmaps" where
  "alloc_run sub [] s = s"
| "alloc_run sub (t # ts) (pcs, bm) =
     (let (pc, bm') = alloc_step sub (pcs ! t, bm) in alloc_run sub ts (pcs[t := pc], bm'))"

section \<open>Specification: the set of used slots\<close>

definition fd_used :: "fd_bitmaps \<Rightarrow> fd_subsystem \<Rightarrow> nat set" where
  "fd_used bm sub =
     {slot. slot < max_slots sub \<and> bit (bm ! (bitmap_offset sub + slot div 8)) (slot mod 8)}"

definition free_slots :: "(fd_subsystem \<Rightarrow> nat set) \<Rightarrow> fd_subsystem \<Rightarrow> nat set" where
  "free_slots S sub = {..< max_slots sub} - S sub"

definition spec_alloc ::
    "fd_subsystem \<Rightarrow> (fd_subsystem \<Rightarrow> nat set) \<Rightarrow> i32 option \<times> (fd_subsystem \<Rightarrow> nat set)" where
  "spec_alloc sub S =
     (if free_slots S sub = {} then (None, S)
      else let slot = Min (free_slots S sub) in (Some (fd_at sub slot), S(sub := insert slot (S sub))))"

definition spec_free ::
    "fd_subsystem \<Rightarrow> i32 \<Rightarrow> (fd_subsystem \<Rightarrow> nat set) \<Rightarrow> bool \<times> (fd_subsystem \<Rightarrow> nat set)" where
  "spec_free sub fd S =
     (case idx_of fd of
        Some (sub', slot) \<Rightarrow> if sub' = sub then (True, S(sub := S sub - {slot})) else (False, S)
      | None \<Rightarrow> (False, S))"

section \<open>The plan\<close>

lemma subsystem_index_less: "subsystem_index sub < FD_SUBSYSTEM_COUNT"
  by (cases sub) (simp_all add: FD_SUBSYSTEM_COUNT_def)

lemma from_index_subsystem_index: "subsystem_from_index (subsystem_index sub) = Some sub"
  by (cases sub) (simp_all add: subsystem_from_index_def)

lemma subsystem_index_inject: "subsystem_index a = subsystem_index b \<longleftrightarrow> a = b"
  using from_index_subsystem_index by (metis option.inject)

lemma max_slots_le: "max_slots sub \<le> 256"
  by (cases sub) (simp_all add: max_slots_def fd_range_new_def)

lemma sint_range_for:
  "0 \<le> sint (fr_base (range_for sub))" "sint (fr_base (range_for sub)) \<le> 1180"
  "sint (end_exclusive (range_for sub)) = sint (fr_base (range_for sub)) + int (max_slots sub)"
  by (cases sub; simp add: end_exclusive_def max_slots_def fd_range_new_def)+

lemma sint_fd_at:
  assumes "slot < max_slots sub"
  shows "sint (fd_at sub slot) = sint (fr_base (range_for sub)) + int slot"
proof -
  have slot: "slot < 256" using assms max_slots_le [of sub] by linarith
  then have "sint (of_nat slot :: i32) = int slot"
    by (simp add: signed_of_nat signed_take_bit_int_eq_self)
  then show ?thesis
    using sint_range_for [of sub] slot
    by (simp add: fd_at_def sint_word_ariths signed_take_bit_int_eq_self)
qed

lemma fd_contains_iff:
  "fd_contains (range_for sub) fd \<longleftrightarrow> (\<exists>slot < max_slots sub. fd = fd_at sub slot)"
proof
  assume "fd_contains (range_for sub) fd"
  then have c: "sint (fr_base (range_for sub)) \<le> sint fd"
    "sint fd < sint (fr_base (range_for sub)) + int (max_slots sub)"
    by (simp_all add: fd_contains_def sint_range_for)
  define slot where "slot = nat (sint fd - sint (fr_base (range_for sub)))"
  from c have s: "slot < max_slots sub" "int slot = sint fd - sint (fr_base (range_for sub))"
    by (simp_all add: slot_def)
  then have "sint (fd_at sub slot) = sint fd" by (simp add: sint_fd_at)
  then have "fd = fd_at sub slot" by (metis signed_word_eqI)
  with s(1) show "\<exists>slot < max_slots sub. fd = fd_at sub slot" by blast
next
  assume "\<exists>slot < max_slots sub. fd = fd_at sub slot"
  then show "fd_contains (range_for sub) fd"
    by (auto simp: fd_contains_def sint_fd_at sint_range_for)
qed

lemma slot_of_fd_at:
  assumes "slot < max_slots sub"
  shows "unat (scast (fd_at sub slot - fr_base (range_for sub)) :: u64) = slot"
proof -
  have slot: "slot < 256" using assms max_slots_le [of sub] by linarith
  then have "scast (of_nat slot :: i32) = (of_nat slot :: u64)"
    by (simp add: signed_of_nat signed_take_bit_int_eq_self)
  with slot show ?thesis by (simp add: fd_at_def unat_of_nat)
qed

lemma range_base_bounds:
  "\<lbrakk>slot < max_slots sub; slot' < max_slots sub'; fd_at sub slot = fd_at sub' slot'\<rbrakk> \<Longrightarrow> sub = sub'"
  using sint_fd_at [of slot sub] sint_fd_at [of slot' sub']
  by (cases sub; cases sub') (simp_all add: max_slots_def fd_range_new_def)

lemma fd_at_inject:
  assumes "slot < max_slots sub" "slot' < max_slots sub'"
  shows "fd_at sub slot = fd_at sub' slot' \<longleftrightarrow> sub = sub' \<and> slot = slot'"
  using range_base_bounds [OF assms] slot_of_fd_at [OF assms(1)] slot_of_fd_at [OF assms(2)] by metis

lemma contains_fd_at:
  "slot < max_slots sub \<Longrightarrow> fd_contains (range_for sub') (fd_at sub slot) \<longleftrightarrow> sub' = sub"
  by (auto simp: fd_contains_iff fd_at_inject)

lemma index_cases:
  assumes "i < FD_SUBSYSTEM_COUNT"
  obtains sub where "subsystem_from_index i = Some sub" "subsystem_index sub = i"
proof -
  have "i \<in> {0, 1, 2, 3, 4, 5, 6}" using assms by (auto simp: FD_SUBSYSTEM_COUNT_def)
  then have "\<exists>sub. subsystem_from_index i = Some sub \<and> subsystem_index sub = i"
    by (auto simp: subsystem_from_index_def)
  with that show ?thesis by blast
qed

lemma idx_scan_eq:
  assumes "i \<le> subsystem_index sub" "slot < max_slots sub"
  shows "idx_scan (fd_at sub slot) i = Some (sub, slot)"
  using assms(1)
proof (induction "FD_SUBSYSTEM_COUNT - i" arbitrary: i)
  case 0
  then show ?case using subsystem_index_less [of sub] by simp
next
  case (Suc n)
  then have i: "i < FD_SUBSYSTEM_COUNT" by simp
  then obtain s where s: "subsystem_from_index i = Some s" "subsystem_index s = i"
    by (rule index_cases)
  show ?case
  proof (cases "s = sub")
    case True
    with i s assms(2) show ?thesis
      by (subst idx_scan.simps) (simp add: contains_fd_at slot_of_fd_at Let_def)
  next
    case False
    with s Suc.prems have "i + 1 \<le> subsystem_index sub"
      using subsystem_index_inject [of s sub] by simp
    with False i s assms(2) Suc show ?thesis
      by (subst idx_scan.simps) (simp add: contains_fd_at)
  qed
qed

lemma idx_scan_SomeD:
  "idx_scan fd i = Some (sub, slot) \<Longrightarrow> slot < max_slots sub \<and> fd = fd_at sub slot"
proof (induction fd i rule: idx_scan.induct)
  case (1 fd i)
  from "1.prems" have i: "i < FD_SUBSYSTEM_COUNT"
    by (subst (asm) idx_scan.simps) (simp split: if_splits)
  then obtain s where s: "subsystem_from_index i = Some s" by (rule index_cases)
  show ?case
  proof (cases "fd_contains (range_for s) fd")
    case True
    with "1.prems" i s show ?thesis
      by (subst (asm) idx_scan.simps) (auto simp: Let_def fd_contains_iff slot_of_fd_at)
  next
    case False
    with "1.prems" i s have "idx_scan fd (i + 1) = Some (sub, slot)"
      by (subst (asm) idx_scan.simps) (simp add: Let_def)
    with "1.IH" [OF i s refl False] show ?thesis by simp
  qed
qed

lemma idx_of_Some_iff: "idx_of fd = Some (sub, slot) \<longleftrightarrow> slot < max_slots sub \<and> fd = fd_at sub slot"
  using idx_scan_SomeD [of fd 0] idx_scan_eq [of 0 sub slot] by (auto simp: idx_of_def)

lemma subsystem_scan_idx_scan: "subsystem_scan fd i = map_option fst (idx_scan fd i)"
proof (induction fd i rule: subsystem_scan.induct)
  case (1 fd i)
  then show ?case
    by (subst subsystem_scan.simps, subst idx_scan.simps) (auto simp: Let_def split: option.split)
qed

lemma subsystem_of_Some_iff: "subsystem_of fd = Some sub \<longleftrightarrow> fd_contains (range_for sub) fd"
  by (auto simp: subsystem_of_def subsystem_scan_idx_scan idx_of_def [symmetric] idx_of_Some_iff
      fd_contains_iff)

section \<open>The bitmap\<close>

definition bitmaps_ok :: "fd_bitmaps \<Rightarrow> bool" where
  "bitmaps_ok bm \<longleftrightarrow> length bm = FD_SUBSYSTEM_COUNT * BITMAP_SIZE"

lemma bitmaps_ok_init: "bitmaps_ok fd_bitmaps_init"
  by (simp add: bitmaps_ok_def fd_bitmaps_init_def)

lemma slot_byte_less: "slot < max_slots sub \<Longrightarrow> slot div 8 < BITMAP_SIZE"
  using max_slots_le [of sub] by (simp add: BITMAP_SIZE_def)

lemma byte_index_less:
  assumes "bitmaps_ok bm" "slot < max_slots sub"
  shows "bitmap_offset sub + slot div 8 < length bm"
  using assms subsystem_index_less [of sub] slot_byte_less [OF assms(2)]
  by (simp add: bitmaps_ok_def bitmap_offset_def BITMAP_SIZE_def FD_SUBSYSTEM_COUNT_def)

lemma byte_index_inject:
  assumes "a < max_slots sub" "b < max_slots sub'"
  shows "bitmap_offset sub + a div 8 = bitmap_offset sub' + b div 8
    \<longleftrightarrow> sub = sub' \<and> a div 8 = b div 8"
proof -
  have lt: "a div 8 < 32" "b div 8 < 32"
    using slot_byte_less assms unfolding BITMAP_SIZE_def by blast+
  have "subsystem_index sub = subsystem_index sub'"
    if eq: "subsystem_index sub * 32 + a div 8 = subsystem_index sub' * 32 + b div 8"
  proof -
    have "subsystem_index sub = (subsystem_index sub * 32 + a div 8) div 32"
      using lt(1) by simp
    also have "\<dots> = subsystem_index sub'" unfolding eq using lt(2) by simp
    finally show ?thesis .
  qed
  then show ?thesis
    by (auto simp: bitmap_offset_def BITMAP_SIZE_def subsystem_index_inject)
qed

lemma slot_eq_iff: "(a::nat) = b \<longleftrightarrow> a div 8 = b div 8 \<and> a mod 8 = b mod 8"
  by (metis div_mult_mod_eq)

lemma slot_bit_less: "(slot::nat) mod 8 < 8"
  by simp

lemma bit_mask_test: "x AND 2 ^ k = 0 \<longleftrightarrow> \<not> bit x k" for x :: u8
  by (rule and_exp_eq_0_iff_not_bit)

lemma bit_set_mask: "k < 8 \<Longrightarrow> bit (x OR 2 ^ k) j \<longleftrightarrow> bit x j \<or> j = k" for x :: u8
  by (auto simp: bit_or_iff bit_exp_iff)

lemma bit_clear_mask: "bit (x AND NOT (2 ^ k)) j \<longleftrightarrow> bit x j \<and> j \<noteq> k" for x :: u8
  by (auto simp: bit_and_iff bit_not_iff bit_exp_iff dest: bit_imp_le_length)

lemma fd_used_update:
  assumes ok: "bitmaps_ok bm" and slot: "slot < max_slots sub"
  shows "fd_used (bm[bitmap_offset sub + slot div 8 := byte]) =
    (fd_used bm)(sub := {j. j < max_slots sub \<and>
       (if j div 8 = slot div 8 then bit byte (j mod 8) else j \<in> fd_used bm sub)})"
proof (rule ext, rule set_eqI)
  fix sub' j
  show "j \<in> fd_used (bm[bitmap_offset sub + slot div 8 := byte]) sub' \<longleftrightarrow>
    j \<in> ((fd_used bm)(sub := {j. j < max_slots sub \<and>
       (if j div 8 = slot div 8 then bit byte (j mod 8) else j \<in> fd_used bm sub)})) sub'"
  proof (cases "j < max_slots sub'")
    case True
    then show ?thesis
      using byte_index_inject [OF slot True] byte_index_less [OF ok slot]
      by (auto simp: fd_used_def nth_list_update)
  next
    case False
    then show ?thesis by (auto simp: fd_used_def)
  qed
qed

lemma fd_used_iff:
  "slot < max_slots sub \<Longrightarrow>
   bit (bm ! (bitmap_offset sub + slot div 8)) (slot mod 8) \<longleftrightarrow> slot \<in> fd_used bm sub"
  by (simp add: fd_used_def)

lemma fd_used_bit_set:
  assumes "bitmaps_ok bm" "slot < max_slots sub"
  shows "fd_used (bm[bitmap_offset sub + slot div 8 :=
           bm ! (bitmap_offset sub + slot div 8) OR push_bit (slot mod 8) 1])
    = (fd_used bm)(sub := insert slot (fd_used bm sub))"
proof -
  have "{j. j < max_slots sub \<and>
       (if j div 8 = slot div 8 then bit (bm ! (bitmap_offset sub + slot div 8)) (j mod 8) \<or> j mod 8 = slot mod 8
        else j \<in> fd_used bm sub)} = insert slot (fd_used bm sub)"
    using assms(2) by (auto simp: fd_used_def slot_eq_iff [of _ slot] split: if_splits)
  then show ?thesis
    unfolding fd_used_update [OF assms] push_bit_of_1 bit_set_mask [OF slot_bit_less] by simp
qed

lemma fd_used_bit_clear:
  assumes "bitmaps_ok bm" "slot < max_slots sub"
  shows "fd_used (bm[bitmap_offset sub + slot div 8 :=
           bm ! (bitmap_offset sub + slot div 8) AND NOT (push_bit (slot mod 8) 1)])
    = (fd_used bm)(sub := fd_used bm sub - {slot})"
proof -
  have "{j. j < max_slots sub \<and>
       (if j div 8 = slot div 8 then bit (bm ! (bitmap_offset sub + slot div 8)) (j mod 8) \<and> j mod 8 \<noteq> slot mod 8
        else j \<in> fd_used bm sub)} = fd_used bm sub - {slot}"
    using assms(2) by (auto simp: fd_used_def slot_eq_iff [of _ slot] split: if_splits)
  then show ?thesis
    unfolding fd_used_update [OF assms] push_bit_of_1 bit_clear_mask by simp
qed

section \<open>Allocation\<close>

lemma base_plus_slot:
  assumes "slot < max_slots sub"
  shows "ucast ((scast (fr_base (range_for sub)) :: u64) + of_nat slot) = fd_at sub slot"
proof -
  have slot: "slot < 256" using assms max_slots_le [of sub] by linarith
  have b: "(scast (fr_base (range_for sub)) :: u64) = of_nat (unat (fr_base (range_for sub)))"
    "unat (fr_base (range_for sub)) \<le> 1180"
    by (cases sub; simp add: fd_range_new_def)+
  have "ucast (of_nat (unat (fr_base (range_for sub)) + slot) :: u64)
      = (of_nat (unat (fr_base (range_for sub)) + slot) :: i32)"
    using b(2) slot by (simp only: unsigned_of_nat) (simp add: take_bit_nat_eq_self)
  then show ?thesis by (simp add: b(1) fd_at_def)
qed

lemma alloc_scan_eq:
  assumes "bitmaps_ok bm"
  shows "alloc_scan sub i bm =
    (let F = {i ..< max_slots sub} - fd_used bm sub in
     if F = {} then (None, bm)
     else (Some (fd_at sub (Min F)),
           bm[bitmap_offset sub + Min F div 8 :=
              bm ! (bitmap_offset sub + Min F div 8) OR push_bit (Min F mod 8) 1]))"
proof (induction "max_slots sub - i" arbitrary: i)
  case 0
  then show ?case by (subst alloc_scan.simps) simp
next
  case (Suc n)
  then have i: "i < max_slots sub" by simp
  let ?F = "\<lambda>i. {i ..< max_slots sub} - fd_used bm sub"
  show ?case
  proof (cases "i \<in> fd_used bm sub")
    case True
    with i have "?F i = ?F (Suc i)" by (auto simp: Suc_le_eq nat_less_le)
    with True i Suc show ?thesis
      by (subst alloc_scan.simps) (simp add: Let_def bit_mask_test fd_used_iff)
  next
    case False
    with i have "i \<in> ?F i" by simp
    moreover from this have "Min (?F i) = i" by (intro Min_eqI) auto
    ultimately show ?thesis
      using False i
      by (subst alloc_scan.simps) (auto simp: Let_def bit_mask_test fd_used_iff base_plus_slot)
  qed
qed

lemma alloc_fd_ok: "bitmaps_ok bm \<Longrightarrow> bitmaps_ok (snd (alloc_fd sub bm))"
  by (simp add: alloc_fd_def alloc_scan_eq Let_def) (simp add: bitmaps_ok_def)

lemma free_fd_ok: "bitmaps_ok bm \<Longrightarrow> bitmaps_ok (snd (free_fd sub fd bm))"
  by (simp add: free_fd_def Let_def bitmaps_ok_def)

lemma Min_free_slots:
  "free_slots (fd_used bm) sub \<noteq> {} \<Longrightarrow> Min (free_slots (fd_used bm) sub) < max_slots sub
     \<and> Min (free_slots (fd_used bm) sub) \<notin> fd_used bm sub"
  using Min_in [of "free_slots (fd_used bm) sub"] by (auto simp: free_slots_def)

lemma alloc_fd_eq:
  assumes "bitmaps_ok bm"
  shows "alloc_fd sub bm =
    (let F = free_slots (fd_used bm) sub in
     if F = {} then (None, bm)
     else (Some (fd_at sub (Min F)),
           bm[bitmap_offset sub + Min F div 8 :=
              bm ! (bitmap_offset sub + Min F div 8) OR push_bit (Min F mod 8) 1]))"
  by (simp add: alloc_fd_def alloc_scan_eq [OF assms] free_slots_def lessThan_atLeast0 Let_def)

lemma alloc_fd_spec:
  assumes "bitmaps_ok bm"
  shows "(let (r, bm') = alloc_fd sub bm in (r, fd_used bm')) = spec_alloc sub (fd_used bm)"
  using Min_free_slots [of bm sub] fd_used_bit_set [OF assms]
  by (simp add: alloc_fd_eq [OF assms] spec_alloc_def Let_def)

lemma free_fd_eq:
  assumes "slot < max_slots sub"
  shows "free_fd sub (fd_at sub slot) bm =
    (True, bm[bitmap_offset sub + slot div 8 :=
       bm ! (bitmap_offset sub + slot div 8) AND NOT (push_bit (slot mod 8) 1)])"
  using assms by (simp add: free_fd_def Let_def contains_fd_at slot_of_fd_at)

lemma free_fd_spec:
  assumes "bitmaps_ok bm"
  shows "(let (r, bm') = free_fd sub fd bm in (r, fd_used bm')) = spec_free sub fd (fd_used bm)"
proof (cases "fd_contains (range_for sub) fd")
  case True
  then obtain slot where slot: "slot < max_slots sub" "fd = fd_at sub slot"
    by (auto simp: fd_contains_iff)
  then have "idx_of fd = Some (sub, slot)" by (simp add: idx_of_Some_iff)
  with slot fd_used_bit_clear [OF assms slot(1)] show ?thesis
    by (simp add: free_fd_eq spec_free_def)
next
  case False
  then have "idx_of fd \<noteq> Some (sub, slot)" for slot
    by (auto simp: idx_of_Some_iff fd_contains_iff)
  with False show ?thesis
    by (auto simp: free_fd_def spec_free_def split: option.split)
qed

lemma clear_set_mask: "\<not> bit x k \<Longrightarrow> k < 8 \<Longrightarrow> (x OR 2 ^ k) AND NOT (2 ^ k) = x" for x :: u8
  by (rule bit_eqI) (auto simp: bit_clear_mask bit_set_mask)

lemma free_alloc:
  assumes ok: "bitmaps_ok bm" and r: "alloc_fd sub bm = (Some fd, bm')"
  shows "free_fd sub fd bm' = (True, bm)"
proof -
  define F where "F = free_slots (fd_used bm) sub"
  define slot where "slot = Min F"
  have F: "F \<noteq> {}" "fd = fd_at sub slot" "bm' = bm[bitmap_offset sub + slot div 8 :=
      bm ! (bitmap_offset sub + slot div 8) OR push_bit (slot mod 8) 1]"
    using r unfolding alloc_fd_eq [OF ok] F_def slot_def by (auto simp: Let_def split: if_splits)
  have slot: "slot < max_slots sub" "slot \<notin> fd_used bm sub"
    using Min_free_slots [of bm sub] F(1) by (simp_all add: F_def slot_def)
  then have nb: "\<not> bit (bm ! (bitmap_offset sub + slot div 8)) (slot mod 8)"
    by (simp add: fd_used_iff)
  show ?thesis
    unfolding F(2) free_fd_eq [OF slot(1)] F(3)
    using byte_index_less [OF ok slot(1)] clear_set_mask [OF nb] by simp
qed

lemma alloc_steps_scan:
  "\<exists>n. (alloc_step sub ^^ n) (Load i, bm) = (Return (fst (alloc_scan sub i bm)), snd (alloc_scan sub i bm))"
proof (induction sub i bm rule: alloc_scan.induct)
  case (1 sub i bm)
  let ?byte = "bm ! (bitmap_offset sub + i div 8)"
  consider "\<not> i < max_slots sub" | "i < max_slots sub" "?byte AND push_bit (i mod 8) 1 = 0"
    | "i < max_slots sub" "?byte AND push_bit (i mod 8) 1 \<noteq> 0" by blast
  then show ?case
  proof cases
    case 1
    then show ?thesis
      by (intro exI [of _ 1], subst (1 2) alloc_scan.simps) simp
  next
    case 2
    then show ?thesis
      by (intro exI [of _ 2], subst (1 2) alloc_scan.simps) (simp add: Let_def numeral_2_eq_2)
  next
    case 3
    then obtain n where "(alloc_step sub ^^ n) (Load (i + 1), bm)
        = (Return (fst (alloc_scan sub (i + 1) bm)), snd (alloc_scan sub (i + 1) bm))"
      using "1.IH" by blast
    moreover have "alloc_step sub (Load i, bm) = (Load (i + 1), bm)"
      using 3 by (simp add: Let_def)
    moreover have "alloc_scan sub i bm = alloc_scan sub (i + 1) bm"
      using 3 by (subst alloc_scan.simps) (simp add: Let_def)
    ultimately have "(alloc_step sub ^^ Suc n) (Load i, bm)
        = (Return (fst (alloc_scan sub i bm)), snd (alloc_scan sub i bm))"
      by (simp add: funpow_swap1)
    then show ?thesis by blast
  qed
qed

section \<open>Properties\<close>

text \<open>The descriptor plan is a bijection: \<^verbatim>\<open>idx_of\<close> finds a subsystem and a slot for a
  descriptor exactly when \<^verbatim>\<open>fd_at\<close> maps that slot of that subsystem to the descriptor;
  \<^verbatim>\<open>subsystem_of\<close> agrees with it and the start-up check of the plan passes.\<close>

theorem fd_plan_bijection:
  "(idx_of fd = Some (sub, slot) \<longleftrightarrow> slot < max_slots sub \<and> fd_at sub slot = fd)
   \<and> subsystem_of fd = map_option fst (idx_of fd) \<and> verify_plan = Some ()"
proof -
  have "ranges_non_overlapping" by code_simp
  then show ?thesis
    by (auto simp: idx_of_Some_iff verify_plan_def subsystem_of_def subsystem_scan_idx_scan
        idx_of_def [symmetric])
qed

text \<open>On a well-formed bitmap \<^verbatim>\<open>alloc_fd\<close> takes the lowest free slot of the subsystem, or
  refuses when all are used; \<^verbatim>\<open>free_fd\<close> frees the slot of a descriptor of the subsystem, or
  refuses; neither touches another subsystem, and the bitmap stays well formed.\<close>

theorem fd_alloc_refines:
  assumes "bitmaps_ok bm"
  shows "(let (r, bm') = alloc_fd sub bm in (r, fd_used bm')) = spec_alloc sub (fd_used bm)
    \<and> (let (r, bm') = free_fd sub fd bm in (r, fd_used bm')) = spec_free sub fd (fd_used bm)
    \<and> bitmaps_ok (snd (alloc_fd sub bm)) \<and> bitmaps_ok (snd (free_fd sub fd bm))"
  using alloc_fd_spec [OF assms] free_fd_spec [OF assms] alloc_fd_ok [OF assms] free_fd_ok [OF assms]
  by blast

theorem fd_alloc_refines_witness:
  "bitmaps_ok fd_bitmaps_init
   \<and> (let (r, bm') = alloc_fd Uds fd_bitmaps_init in (r, fd_used bm')) = spec_alloc Uds (fd_used fd_bitmaps_init)"
  using bitmaps_ok_init fd_alloc_refines [OF bitmaps_ok_init, of Uds] by blast

text \<open>Freeing a freshly allocated descriptor restores the bitmap byte for byte.\<close>

theorem free_fd_alloc_fd:
  assumes "bitmaps_ok bm" "alloc_fd sub bm = (Some fd, bm')"
  shows "free_fd sub fd bm' = (True, bm)"
  by (rule free_alloc [OF assms])

theorem free_fd_alloc_fd_witness:
  "\<exists>bm'. alloc_fd Uds fd_bitmaps_init = (Some 1000, bm') \<and> free_fd Uds 1000 bm' = (True, fd_bitmaps_init)"
proof -
  have "fst (alloc_fd Uds fd_bitmaps_init) = Some 1000" by code_simp
  then have "alloc_fd Uds fd_bitmaps_init = (Some 1000, snd (alloc_fd Uds fd_bitmaps_init))"
    by (metis prod.collapse)
  with free_fd_alloc_fd [OF bitmaps_ok_init this] show ?thesis by blast
qed

text \<open>Run alone, the sequence of single bitmap accesses of \<^verbatim>\<open>alloc_fd\<close> ends, with the result
  and the bitmap of the whole function.\<close>

theorem alloc_fd_alone:
  "\<exists>n. (alloc_step sub ^^ n) (Load 0, bm) = (Return (fst (alloc_fd sub bm)), snd (alloc_fd sub bm))"
  unfolding alloc_fd_def by (rule alloc_steps_scan)

text \<open>Interleaved, two callers can both load the byte before either stores it: both get the
  same descriptor.\<close>

lemma alloc_fd_race:
  "fst (alloc_run Uds [0, 1, 0, 1] ([Load 0, Load 0], fd_bitmaps_init))
   = [Return (Some 1000), Return (Some 1000)]"
  by code_simp

end
