(* ===== verification/Cgroup_Ctrl.thy ===== *)
theory Cgroup_Ctrl
  imports Prelude
begin

text \<open>
  The resource controllers of \<^verbatim>\<open>src/src/kernel/services/proc/cgroup.rs\<close>: CPU bandwidth, memory, pids
  and IO.  Every field is an atomic; the functions below are the calls as they run without
  interference.  The compare-exchange loop of \<^verbatim>\<open>MemoryController::try_charge\<close> is also given access
  by access (\<open>charge_step\<close>), so that any number of callers can be interleaved.
\<close>

section \<open>CPU controller\<close>

definition CPU_CFS_PERIOD_DEFAULT_US :: u64 where "CPU_CFS_PERIOD_DEFAULT_US = 1000000"
definition CPU_CFS_QUOTA_MAX :: u64 where "CPU_CFS_QUOTA_MAX = - 1"
definition MEMORY_LIMIT_MAX :: u64 where "MEMORY_LIMIT_MAX = - 1"
definition PIDS_MAX_DEFAULT :: u64 where "PIDS_MAX_DEFAULT = - 1"

record cpu_controller =
  cfs_quota_us :: u64
  cfs_period_us :: u64
  runtime_used :: u64
  nr_throttled :: u64
  throttled_time :: u64

definition cpu_controller_new :: cpu_controller where
  "cpu_controller_new =
     \<lparr>cfs_quota_us = CPU_CFS_QUOTA_MAX, cfs_period_us = CPU_CFS_PERIOD_DEFAULT_US, runtime_used = 0,
      nr_throttled = 0, throttled_time = 0\<rparr>"

definition check_budget :: "u64 \<Rightarrow> cpu_controller \<Rightarrow> bool \<times> cpu_controller" where
  "check_budget delta_us c =
     (let quota = cfs_quota_us c in
      if quota = CPU_CFS_QUOTA_MAX then (True, c)
      else let used = runtime_used c in
        (used + delta_us \<le> quota, c\<lparr>runtime_used := used + delta_us\<rparr>))"

definition period_reset :: "cpu_controller \<Rightarrow> cpu_controller" where
  "period_reset c =
     (let quota = cfs_quota_us c in
      if quota \<noteq> CPU_CFS_QUOTA_MAX then
        (let prev = runtime_used c; c1 = c\<lparr>runtime_used := 0\<rparr> in
         if prev > quota then
           c1\<lparr>nr_throttled := nr_throttled c1 + 1, throttled_time := throttled_time c1 + (prev - quota)\<rparr>
         else c1)
      else c)"

definition set_quota :: "u64 \<Rightarrow> cpu_controller \<Rightarrow> cpu_controller" where
  "set_quota quota_us c = c\<lparr>cfs_quota_us := quota_us\<rparr>"

definition set_period :: "u64 \<Rightarrow> cpu_controller \<Rightarrow> cpu_controller" where
  "set_period period_us c = (if period_us > 0 then c\<lparr>cfs_period_us := period_us\<rparr> else c)"

section \<open>Memory controller\<close>

record memory_controller =
  limit_in_bytes :: u64
  usage_in_bytes :: u64
  max_usage_in_bytes :: u64
  oom_kill_count :: u64
  oom_kill_disable :: u32

definition memory_controller_new :: memory_controller where
  "memory_controller_new =
     \<lparr>limit_in_bytes = MEMORY_LIMIT_MAX, usage_in_bytes = 0, max_usage_in_bytes = 0,
      oom_kill_count = 0, oom_kill_disable = 0\<rparr>"

definition update_max :: "u64 \<Rightarrow> memory_controller \<Rightarrow> memory_controller" where
  "update_max current c =
     (if current \<le> max_usage_in_bytes c then c else c\<lparr>max_usage_in_bytes := current\<rparr>)"

definition try_charge :: "u64 \<Rightarrow> memory_controller \<Rightarrow> bool \<times> memory_controller" where
  "try_charge bytes c =
     (let limit = limit_in_bytes c; current = usage_in_bytes c in
      if limit = MEMORY_LIMIT_MAX then
        (True, update_max (current + bytes) (c\<lparr>usage_in_bytes := current + bytes\<rparr>))
      else if current + bytes > limit then (False, c)
      else (True, update_max (current + bytes) (c\<lparr>usage_in_bytes := current + bytes\<rparr>)))"

definition uncharge :: "u64 \<Rightarrow> memory_controller \<Rightarrow> memory_controller" where
  "uncharge bytes c =
     (let prev = usage_in_bytes c; c1 = c\<lparr>usage_in_bytes := prev - bytes\<rparr> in
      if prev < bytes then c1\<lparr>usage_in_bytes := 0\<rparr> else c1)"

definition set_limit :: "u64 \<Rightarrow> memory_controller \<Rightarrow> memory_controller" where
  "set_limit limit_bytes c = c\<lparr>limit_in_bytes := limit_bytes\<rparr>"

definition is_over_limit :: "memory_controller \<Rightarrow> bool" where
  "is_over_limit c \<longleftrightarrow>
     (let limit = limit_in_bytes c in
      if limit = MEMORY_LIMIT_MAX then False else usage_in_bytes c > limit)"

section \<open>Pids and IO controllers\<close>

record pids_controller =
  pids_max :: u64
  pids_current :: u64
  events_fork_fail :: u64

definition pids_controller_new :: pids_controller where
  "pids_controller_new = \<lparr>pids_max = PIDS_MAX_DEFAULT, pids_current = 0, events_fork_fail = 0\<rparr>"

definition try_fork :: "pids_controller \<Rightarrow> bool \<times> pids_controller" where
  "try_fork c =
     (let mx = pids_max c; cur = pids_current c in
      if mx = PIDS_MAX_DEFAULT then (True, c\<lparr>pids_current := cur + 1\<rparr>)
      else if cur \<ge> mx then (False, c\<lparr>events_fork_fail := events_fork_fail c + 1\<rparr>)
      else (True, c\<lparr>pids_current := cur + 1\<rparr>))"

definition pids_exit :: "pids_controller \<Rightarrow> pids_controller" where
  "pids_exit c =
     (let prev = pids_current c; c1 = c\<lparr>pids_current := prev - 1\<rparr> in
      if prev = 0 then c1\<lparr>pids_current := 0\<rparr> else c1)"

definition set_max :: "u64 \<Rightarrow> pids_controller \<Rightarrow> pids_controller" where
  "set_max mx c = c\<lparr>pids_max := mx\<rparr>"

record io_controller =
  read_bps_max :: u64
  write_bps_max :: u64
  read_iops_max :: u64
  write_iops_max :: u64
  stat_read_bytes :: u64
  stat_write_bytes :: u64
  stat_read_ios :: u64
  stat_write_ios :: u64

definition io_controller_new :: io_controller where
  "io_controller_new =
     \<lparr>read_bps_max = - 1, write_bps_max = - 1, read_iops_max = - 1, write_iops_max = - 1,
      stat_read_bytes = 0, stat_write_bytes = 0, stat_read_ios = 0, stat_write_ios = 0\<rparr>"

definition account_read :: "u64 \<Rightarrow> io_controller \<Rightarrow> io_controller" where
  "account_read bytes c =
     c\<lparr>stat_read_bytes := stat_read_bytes c + bytes, stat_read_ios := stat_read_ios c + 1\<rparr>"

definition account_write :: "u64 \<Rightarrow> io_controller \<Rightarrow> io_controller" where
  "account_write bytes c =
     c\<lparr>stat_write_bytes := stat_write_bytes c + bytes, stat_write_ios := stat_write_ios c + 1\<rparr>"

section \<open>Interleaved charges\<close>

text \<open>
  One caller of \<^verbatim>\<open>try_charge\<close> with a limit: about to load the usage, about to do the
  compare-exchange with the loaded value, or returned.  The weak compare-exchange may fail
  even when the value matches.
\<close>

datatype charge_pc = ChLoad | ChCas u64 | ChDone bool

inductive charge_step ::
    "u64 \<Rightarrow> u64 \<times> (u64 \<times> charge_pc) list \<Rightarrow> u64 \<times> (u64 \<times> charge_pc) list \<Rightarrow> bool"
  for limit :: u64 where
  charge_load: "i < length ts \<Longrightarrow> ts ! i = (b, ChLoad) \<Longrightarrow>
    charge_step limit (usage, ts)
      (usage, ts[i := (b, if usage + b > limit then ChDone False else ChCas usage)])"
| charge_cas: "i < length ts \<Longrightarrow> ts ! i = (b, ChCas cur) \<Longrightarrow> usage = cur \<Longrightarrow>
    charge_step limit (usage, ts) (cur + b, ts[i := (b, ChDone True)])"
| charge_retry: "i < length ts \<Longrightarrow> ts ! i = (b, ChCas cur) \<Longrightarrow>
    charge_step limit (usage, ts) (usage, ts[i := (b, ChLoad)])"

definition granted :: "(u64 \<times> charge_pc) list \<Rightarrow> nat" where
  "granted ts = sum_list (map (\<lambda>(b, pc). if pc = ChDone True then unat b else 0) ts)"

definition charge_inv :: "u64 \<Rightarrow> u64 \<Rightarrow> u64 \<times> (u64 \<times> charge_pc) list \<Rightarrow> bool" where
  "charge_inv limit u0 s \<longleftrightarrow>
     (let (usage, ts) = s in
      usage \<le> limit \<and> unat usage = unat u0 + granted ts
      \<and> (\<forall>(b, pc) \<in> set ts. unat limit + unat b < 2 ^ 64 \<and> (\<forall>cur. pc = ChCas cur \<longrightarrow> cur + b \<le> limit)))"

section \<open>Sequential facts\<close>

lemma uncharge_usage: "usage_in_bytes (uncharge bytes c) = saturating_sub (usage_in_bytes c) bytes"
  by (simp add: uncharge_def saturating_sub_def Let_def)

lemma pids_exit_current: "pids_current (pids_exit c) = saturating_sub (pids_current c) 1"
  by (auto simp: pids_exit_def saturating_sub_def Let_def word_less_1)

lemma update_max_usage [simp]:
  "usage_in_bytes (update_max x c) = usage_in_bytes c"
  "limit_in_bytes (update_max x c) = limit_in_bytes c"
  "max_usage_in_bytes (update_max x c) = max x (max_usage_in_bytes c)"
  by (auto simp: update_max_def max_def)

lemma try_charge_max:
  assumes "usage_in_bytes c \<le> max_usage_in_bytes c"
  shows "usage_in_bytes (snd (try_charge b c)) \<le> max_usage_in_bytes (snd (try_charge b c))"
  using assms by (auto simp: try_charge_def Let_def)

lemma uncharge_max:
  assumes "usage_in_bytes c \<le> max_usage_in_bytes c"
  shows "usage_in_bytes (uncharge b c) \<le> max_usage_in_bytes (uncharge b c)"
proof -
  have "max_usage_in_bytes (uncharge b c) = max_usage_in_bytes c" by (simp add: uncharge_def Let_def)
  then show ?thesis
    using assms by (simp add: uncharge_usage word_le_nat_alt unat_saturating_sub)
qed

lemma try_charge_bounded:
  assumes "limit_in_bytes c \<noteq> MEMORY_LIMIT_MAX" "usage_in_bytes c \<le> limit_in_bytes c"
    and "unat (limit_in_bytes c) + unat b < 2 ^ 64"
  shows "try_charge b c =
    (if unat (usage_in_bytes c) + unat b \<le> unat (limit_in_bytes c)
     then (True, update_max (usage_in_bytes c + b) (c\<lparr>usage_in_bytes := usage_in_bytes c + b\<rparr>))
     else (False, c))"
proof -
  have "unat (usage_in_bytes c + b) = unat (usage_in_bytes c) + unat b"
    using assms(2,3) by (simp add: unat_word_ariths word_le_nat_alt)
  then show ?thesis using assms(1) by (simp add: try_charge_def Let_def word_less_nat_alt)
qed

section \<open>Any interleaving\<close>

lemma granted_update:
  assumes "i < length ts"
  shows "granted (ts[i := e]) + (case ts ! i of (b, pc) \<Rightarrow> if pc = ChDone True then unat b else 0)
    = granted ts + (case e of (b, pc) \<Rightarrow> if pc = ChDone True then unat b else 0)"
  using assms sum_list_update [of i "map (\<lambda>(b, pc). if pc = ChDone True then unat b else 0) ts"
      "case e of (b, pc) \<Rightarrow> if pc = ChDone True then unat b else 0"]
    member_le_sum_list [of "map (\<lambda>(b, pc). if pc = ChDone True then unat b else 0) ts ! i"
      "map (\<lambda>(b, pc). if pc = ChDone True then unat b else 0) ts"]
  by (simp add: granted_def map_update)

lemma charge_inv_step:
  "charge_step limit s s' \<Longrightarrow> charge_inv limit u0 s \<Longrightarrow> charge_inv limit u0 s'"
proof (induction rule: charge_step.induct)
  case (charge_load i ts b usage)
  then have m: "(b, ChLoad) \<in> set ts" by (metis nth_mem)
  have "granted (ts[i := (b, if usage + b > limit then ChDone False else ChCas usage)]) = granted ts"
    using granted_update [OF charge_load(1)] charge_load(2) by simp
  with charge_load m set_update_subset_insert [of ts i] show ?case
    by (fastforce simp: charge_inv_def not_less split: if_splits)
next
  case (charge_cas i ts b cur usage)
  then have m: "(b, ChCas cur) \<in> set ts" by (metis nth_mem)
  have inv: "usage \<le> limit" "unat limit + unat b < 2 ^ 64" "cur + b \<le> limit"
    using charge_cas m by (auto simp: charge_inv_def)
  have "unat (cur + b) = unat cur + unat b"
    using inv charge_cas(3) by (simp add: unat_word_ariths word_le_nat_alt)
  moreover have "granted (ts[i := (b, ChDone True)]) = granted ts + unat b"
    using granted_update [OF charge_cas(1)] charge_cas(2) by simp
  ultimately show ?case
    using charge_cas inv set_update_subset_insert [of ts i "(b, ChDone True)"]
    by (fastforce simp: charge_inv_def)
next
  case (charge_retry i ts b cur usage)
  then have m: "(b, ChCas cur) \<in> set ts" by (metis nth_mem)
  have "granted (ts[i := (b, ChLoad)]) = granted ts"
    using granted_update [OF charge_retry(1)] charge_retry(2) by simp
  with charge_retry m set_update_subset_insert [of ts i "(b, ChLoad)"] show ?case
    by (fastforce simp: charge_inv_def)
qed

lemma charge_inv_steps:
  "(charge_step limit)\<^sup>*\<^sup>* s s' \<Longrightarrow> charge_inv limit u0 s \<Longrightarrow> charge_inv limit u0 s'"
  by (induction rule: rtranclp_induct) (blast intro: charge_inv_step)+

lemma charge_inv_start:
  assumes "u0 \<le> limit" "\<forall>b \<in> set bs. unat limit + unat b < 2 ^ 64"
  shows "charge_inv limit u0 (u0, map (\<lambda>b. (b, ChLoad)) bs)"
proof -
  have "granted (map (\<lambda>b. (b, ChLoad)) bs) = 0" by (induction bs) (simp_all add: granted_def)
  with assms show ?thesis by (auto simp: charge_inv_def)
qed

lemma charge_alone:
  "(charge_step limit)\<^sup>*\<^sup>* (u, [(b, ChLoad)])
     (if u + b > limit then (u, [(b, ChDone False)]) else (u + b, [(b, ChDone True)]))"
proof (cases "u + b > limit")
  case True
  then show ?thesis
    using charge_load [of 0 "[(b, ChLoad)]" b limit u] by (simp add: r_into_rtranclp)
next
  case False
  then have "charge_step limit (u, [(b, ChLoad)]) (u, [(b, ChCas u)])"
    using charge_load [of 0 "[(b, ChLoad)]" b limit u] by simp
  moreover have "charge_step limit (u, [(b, ChCas u)]) (u + b, [(b, ChDone True)])"
    using charge_cas [of 0 "[(b, ChCas u)]" b u u limit] by simp
  ultimately show ?thesis using False by (simp add: converse_rtranclp_into_rtranclp r_into_rtranclp)
qed

end
