(* ===== verification/BTree.thy ===== *)
theory BTree
  imports Prelude "HOL-Library.List_Lexorder"
begin

text \<open>
  Rust's \<^verbatim>\<open>alloc::collections::BTreeMap\<close> as the kernel uses it: a finite map with its entries in
  key order.  The model is the list of entries with strictly increasing keys; the order
  matters to the run queues (\<^verbatim>\<open>first_key_value\<close>, iteration), the finite-map laws to every
  client.  \<open>finite_map\<close> is the interface the clients rely on.
\<close>

section \<open>The interface\<close>

locale finite_map =
  fixes wf :: "'m \<Rightarrow> bool"
    and empty :: 'm
    and lookup :: "'m \<Rightarrow> 'k \<Rightarrow> 'v option"
    and insert :: "'k \<Rightarrow> 'v \<Rightarrow> 'm \<Rightarrow> 'm"
    and remove :: "'k \<Rightarrow> 'm \<Rightarrow> 'm"
    and size_of :: "'m \<Rightarrow> nat"
  assumes wf_empty: "wf empty"
    and wf_insert: "wf m \<Longrightarrow> wf (insert k v m)"
    and wf_remove: "wf m \<Longrightarrow> wf (remove k m)"
    and lookup_empty: "lookup empty k = None"
    and lookup_insert: "wf m \<Longrightarrow> lookup (insert k v m) j = (if j = k then Some v else lookup m j)"
    and lookup_remove: "wf m \<Longrightarrow> lookup (remove k m) j = (if j = k then None else lookup m j)"
    and size_dom: "wf m \<Longrightarrow> size_of m = card (dom (lookup m))"
    and finite_dom: "wf m \<Longrightarrow> finite (dom (lookup m))"
begin

lemma dom_insert: "wf m \<Longrightarrow> dom (lookup (insert k v m)) = Set.insert k (dom (lookup m))"
  by (auto simp: lookup_insert dom_def)

lemma dom_remove: "wf m \<Longrightarrow> dom (lookup (remove k m)) = dom (lookup m) - {k}"
  by (auto simp: lookup_remove dom_def)

lemma size_empty: "size_of empty = 0"
  using size_dom [OF wf_empty] by (simp add: dom_def lookup_empty)

lemma size_insert:
  "wf m \<Longrightarrow> size_of (insert k v m) = (if lookup m k = None then Suc (size_of m) else size_of m)"
  by (auto simp: size_dom wf_insert dom_insert finite_dom card_insert_if domIff)

lemma size_remove:
  "wf m \<Longrightarrow> size_of (remove k m) = (if lookup m k = None then size_of m else size_of m - 1)"
  by (auto simp: size_dom wf_remove dom_remove finite_dom domIff card_Diff_singleton_if)

lemma size_pos: "wf m \<Longrightarrow> lookup m k \<noteq> None \<Longrightarrow> 0 < size_of m"
  using finite_dom by (auto simp: size_dom card_gt_0_iff)

lemma insert_insert_lookup:
  "wf m \<Longrightarrow> lookup (insert k v (insert k u m)) = lookup (insert k v m)"
  by (auto simp: lookup_insert wf_insert)

end

section \<open>Sorted association lists\<close>

type_synonym ('k, 'v) btree = "('k \<times> 'v) list"

abbreviation bt_empty :: "('k, 'v) btree" where
  "bt_empty \<equiv> []"

definition bt_wf :: "('k::linorder, 'v) btree \<Rightarrow> bool" where
  "bt_wf t \<longleftrightarrow> sorted_wrt (<) (map fst t)"

fun bt_get :: "('k, 'v) btree \<Rightarrow> 'k \<Rightarrow> 'v option" where
  "bt_get [] k = None"
| "bt_get ((a, b) # t) k = (if a = k then Some b else bt_get t k)"

fun bt_insert :: "'k::linorder \<Rightarrow> 'v \<Rightarrow> ('k, 'v) btree \<Rightarrow> ('k, 'v) btree" where
  "bt_insert k v [] = [(k, v)]"
| "bt_insert k v ((a, b) # t) =
     (if k < a then (k, v) # (a, b) # t
      else if k = a then (k, v) # t
      else (a, b) # bt_insert k v t)"

fun bt_remove :: "'k \<Rightarrow> ('k, 'v) btree \<Rightarrow> ('k, 'v) btree" where
  "bt_remove k [] = []"
| "bt_remove k ((a, b) # t) = (if a = k then t else (a, b) # bt_remove k t)"

definition bt_contains :: "('k, 'v) btree \<Rightarrow> 'k \<Rightarrow> bool" where
  "bt_contains t k \<longleftrightarrow> bt_get t k \<noteq> None"

fun bt_first :: "('k, 'v) btree \<Rightarrow> ('k \<times> 'v) option" where
  "bt_first [] = None"
| "bt_first (e # t) = Some e"

lemma bt_get_map_of: "bt_get t = map_of t"
proof
  fix k
  show "bt_get t k = map_of t k" by (induction t k rule: bt_get.induct) auto
qed

lemma bt_wf_simps [simp]:
  "bt_wf []"
  "bt_wf (e # t) \<longleftrightarrow> (\<forall>x \<in> set t. fst e < fst x) \<and> bt_wf t"
  by (auto simp: bt_wf_def)

lemma set_bt_insert:
  "bt_wf t \<Longrightarrow> set (bt_insert k v t) = Set.insert (k, v) {e \<in> set t. fst e \<noteq> k}"
  by (induction k v t rule: bt_insert.induct) (auto dest: less_imp_neq less_trans)

lemma bt_wf_insert: "bt_wf t \<Longrightarrow> bt_wf (bt_insert k v t)"
  by (induction k v t rule: bt_insert.induct) (auto simp: set_bt_insert)

lemma set_bt_remove: "bt_wf t \<Longrightarrow> set (bt_remove k t) = {e \<in> set t. fst e \<noteq> k}"
  by (induction k t rule: bt_remove.induct) auto

lemma bt_wf_remove: "bt_wf t \<Longrightarrow> bt_wf (bt_remove k t)"
  by (induction k t rule: bt_remove.induct) (auto simp: set_bt_remove)

lemma bt_get_None_iff: "bt_get t k = None \<longleftrightarrow> k \<notin> fst ` set t"
  by (simp add: bt_get_map_of map_of_eq_None_iff)

lemma bt_get_Some_iff: "bt_wf t \<Longrightarrow> bt_get t k = Some v \<longleftrightarrow> (k, v) \<in> set t"
  unfolding bt_get_map_of by (simp add: bt_wf_def strict_sorted_iff)

lemma bt_get_insert: "bt_wf t \<Longrightarrow> bt_get (bt_insert k v t) j = (if j = k then Some v else bt_get t j)"
  by (induction k v t rule: bt_insert.induct) auto

lemma bt_get_remove:
  assumes "bt_wf t"
  shows "bt_get (bt_remove k t) j = (if j = k then None else bt_get t j)"
  by (rule option_eqI)
     (use assms in \<open>auto simp: bt_get_Some_iff bt_wf_remove set_bt_remove\<close>)

lemma bt_size_dom: "bt_wf t \<Longrightarrow> length t = card (dom (bt_get t))"
  using distinct_card [of "map fst t"]
  by (simp add: bt_get_map_of dom_map_of_conv_image_fst bt_wf_def strict_sorted_iff)

interpretation bt: finite_map bt_wf bt_empty bt_get bt_insert bt_remove length
  by unfold_locales
     (simp_all add: bt_wf_insert bt_wf_remove bt_get_insert bt_get_remove bt_size_dom,
      simp add: bt_get_map_of finite_dom_map_of)

lemma bt_get_insert_fun: "bt_wf t \<Longrightarrow> bt_get (bt_insert k v t) = (bt_get t)(k \<mapsto> v)"
  by (auto simp: bt_get_insert)

lemma bt_get_remove_fun: "bt_wf t \<Longrightarrow> bt_get (bt_remove k t) = (bt_get t)(k := None)"
  by (auto simp: bt_get_remove)

lemma bt_insert_nonempty [simp]: "bt_insert k v t \<noteq> []"
  by (induction k v t rule: bt_insert.induct) auto

lemma bt_find_SomeD:
  assumes "bt_wf t" "List.find P t = Some (k, v)"
  shows "bt_get t k = Some v \<and> P (k, v)"
  using assms by (auto simp: find_Some_iff bt_get_Some_iff dest: nth_mem)

lemma bt_find_None_iff: "bt_wf t \<Longrightarrow> List.find P t = None \<longleftrightarrow> (\<forall>k v. bt_get t k = Some v \<longrightarrow> \<not> P (k, v))"
  by (auto simp: find_None_iff bt_get_Some_iff)

lemma bt_first_None_iff: "bt_first t = None \<longleftrightarrow> t = []"
  by (cases t) auto

lemma bt_first_least:
  "bt_wf t \<Longrightarrow> bt_first t = Some (k, v) \<Longrightarrow> bt_get t k = Some v \<and> (\<forall>j. bt_get t j \<noteq> None \<longrightarrow> k \<le> j)"
  by (cases t) (auto simp: bt_get_map_of less_imp_le dest!: map_of_SomeD split: if_splits)

end
