(* ===== verification/Cgroup.thy ===== *)
theory Cgroup
  imports Cgroup_Ctrl BTree
begin

text \<open>
  Control groups of \<^verbatim>\<open>src/src/kernel/services/proc/cgroup.rs\<close>: \<open>cgroup_rq\<close> is \<^verbatim>\<open>CgroupRq\<close>, the
  groups are a \<^verbatim>\<open>BTreeMap\<close> from ids (group 0 is the root), \<open>cs_next_id\<close> is the global counter
  \<^verbatim>\<open>NEXT_CGROUP_ID\<close>.  The system calls are modelled whole.  \<open>tree_ok\<close> says that parent and child
  links agree and that the tree has at most two levels below the root; \<open>members_ok\<close> that a
  process is a member of one group only.
\<close>

section \<open>Data\<close>

definition CGROUP_MAX_PROCS :: nat where "CGROUP_MAX_PROCS = 4096"

type_synonym pid = u32

record cgroup_rq =
  cg_id :: u64
  cg_name :: string
  cg_parent_id :: u64
  cg_children :: "u64 list"
  cg_procs :: "pid list"
  cg_cpu :: cpu_controller
  cg_memory :: memory_controller
  cg_pids :: pids_controller
  cg_io :: io_controller

definition cgroup_new_root :: cgroup_rq where
  "cgroup_new_root =
     \<lparr>cg_id = 0, cg_name = ''/'', cg_parent_id = 0, cg_children = [], cg_procs = [],
      cg_cpu = cpu_controller_new, cg_memory = memory_controller_new,
      cg_pids = pids_controller_new, cg_io = io_controller_new\<rparr>"

definition cgroup_new_child :: "string \<Rightarrow> u64 \<Rightarrow> u64 \<Rightarrow> cgroup_rq" where
  "cgroup_new_child name parent_id new_id =
     \<lparr>cg_id = new_id, cg_name = name, cg_parent_id = parent_id, cg_children = [], cg_procs = [],
      cg_cpu = cpu_controller_new, cg_memory = memory_controller_new,
      cg_pids = pids_controller_new, cg_io = io_controller_new\<rparr>"

datatype cg_errno = EPERM | ENOENT | EAGAIN | ENOMEM | EBUSY | EINVAL

fun cg_errno_code :: "cg_errno \<Rightarrow> i64" where
  "cg_errno_code EPERM = 1"
| "cg_errno_code ENOENT = 2"
| "cg_errno_code EAGAIN = 11"
| "cg_errno_code ENOMEM = 12"
| "cg_errno_code EBUSY = 16"
| "cg_errno_code EINVAL = 22"

record cgroup_state =
  cs_groups :: "(u64, cgroup_rq) btree"
  cs_next_id :: u64
  cs_initialized :: bool

definition cgroup_state_boot :: cgroup_state where
  "cgroup_state_boot = \<lparr>cs_groups = bt_empty, cs_next_id = 1, cs_initialized = False\<rparr>"

section \<open>Operations\<close>

definition attach_proc :: "pid \<Rightarrow> cgroup_rq \<Rightarrow> bool \<times> cgroup_rq" where
  "attach_proc p g =
     (if CGROUP_MAX_PROCS \<le> length (cg_procs g) then (False, g)
      else if p \<in> set (cg_procs g) then (True, g)
      else let (ok, c) = try_fork (cg_pids g) in (ok, g\<lparr>cg_procs := cg_procs g @ [p], cg_pids := c\<rparr>))"

definition detach_proc :: "pid \<Rightarrow> cgroup_rq \<Rightarrow> cgroup_rq" where
  "detach_proc p g =
     (case find_idx (\<lambda>q. q = p) (cg_procs g) of
        Some pos \<Rightarrow> g\<lparr>cg_procs := swap_remove (cg_procs g) pos, cg_pids := pids_exit (cg_pids g)\<rparr>
      | None \<Rightarrow> g)"

definition alloc_cgroup_id :: "cgroup_state \<Rightarrow> u64 \<times> cgroup_state" where
  "alloc_cgroup_id s = (cs_next_id s, s\<lparr>cs_next_id := cs_next_id s + 1\<rparr>)"

definition create_cgroup :: "u64 \<Rightarrow> string \<Rightarrow> cgroup_state \<Rightarrow> u64 \<times> cgroup_state" where
  "create_cgroup parent_id name s =
     (case bt_get (cs_groups s) parent_id of
        None \<Rightarrow> (0, s)
      | Some parent \<Rightarrow>
          if parent_id \<noteq> 0 \<and> cg_parent_id parent \<noteq> 0 then (0, s)
          else
            let (nid, s1) = alloc_cgroup_id s;
                cg = cgroup_new_child name parent_id nid;
                groups = bt_insert parent_id (parent\<lparr>cg_children := cg_children parent @ [nid]\<rparr>) (cs_groups s1) in
            (nid, s1\<lparr>cs_groups := bt_insert nid cg groups\<rparr>))"

definition remove_cgroup :: "u64 \<Rightarrow> cgroup_state \<Rightarrow> (cg_errno + unit) \<times> cgroup_state" where
  "remove_cgroup gid s =
     (if gid = 0 then (Inl EBUSY, s)
      else
        (case bt_get (cs_groups s) gid of
           None \<Rightarrow> (Inl ENOENT, s)
         | Some cg \<Rightarrow>
             if cg_procs cg \<noteq> [] then (Inl EBUSY, s)
             else if cg_children cg \<noteq> [] then (Inl EBUSY, s)
             else
               let groups =
                 (case bt_get (cs_groups s) (cg_parent_id cg) of
                    Some parent \<Rightarrow>
                      (case find_idx (\<lambda>c. c = gid) (cg_children parent) of
                         Some pos \<Rightarrow>
                           bt_insert (cg_parent_id cg)
                             (parent\<lparr>cg_children := swap_remove (cg_children parent) pos\<rparr>) (cs_groups s)
                       | None \<Rightarrow> cs_groups s)
                  | None \<Rightarrow> cs_groups s) in
               (Inr (), s\<lparr>cs_groups := bt_remove gid groups\<rparr>)))"

definition cgroup_find :: "u64 \<Rightarrow> cgroup_state \<Rightarrow> cgroup_rq option" where
  "cgroup_find gid s = bt_get (cs_groups s) gid"

text \<open>The loop over \<^verbatim>\<open>groups.values()\<close>: the first group, in id order, that holds the process.\<close>

definition holder :: "pid \<Rightarrow> cgroup_state \<Rightarrow> (u64 \<times> cgroup_rq) option" where
  "holder p s = List.find (\<lambda>(gid, g). p \<in> set (cg_procs g)) (cs_groups s)"

definition detach_from_holder :: "pid \<Rightarrow> cgroup_state \<Rightarrow> cgroup_state" where
  "detach_from_holder p s =
     (case holder p s of
        Some (gid, g) \<Rightarrow> s\<lparr>cs_groups := bt_insert gid (detach_proc p g) (cs_groups s)\<rparr>
      | None \<Rightarrow> s)"

definition migrate :: "pid \<Rightarrow> u64 \<Rightarrow> cgroup_state \<Rightarrow> (cg_errno + unit) \<times> cgroup_state" where
  "migrate p target_id s =
     (case cgroup_find target_id s of
        None \<Rightarrow> (Inl ENOENT, s)
      | Some _ \<Rightarrow>
          (let s1 = detach_from_holder p s in
           case bt_get (cs_groups s1) target_id of
             None \<Rightarrow> (Inl ENOENT, s1)
           | Some target \<Rightarrow>
               (let (ok, target') = attach_proc p target;
                    s2 = s1\<lparr>cs_groups := bt_insert target_id target' (cs_groups s1)\<rparr> in
                (if ok then Inr () else Inl EAGAIN, s2))))"

definition cgroup_of :: "pid \<Rightarrow> cgroup_state \<Rightarrow> cgroup_rq option" where
  "cgroup_of p s = map_option snd (holder p s)"

definition cgroup_subsystem_new :: "(u64, cgroup_rq) btree" where
  "cgroup_subsystem_new = bt_insert 0 cgroup_new_root bt_empty"

definition cgroup_init :: "cgroup_state \<Rightarrow> cgroup_state" where
  "cgroup_init s =
     (let s1 = (if cs_groups s = bt_empty then s\<lparr>cs_groups := cgroup_subsystem_new\<rparr> else s) in
      s1\<lparr>cs_initialized := True\<rparr>)"

section \<open>System calls\<close>

fun dec_string :: "nat \<Rightarrow> string" where
  "dec_string n =
     (if n < 10 then [char_of (48 + n)] else dec_string (n div 10) @ [char_of (48 + n mod 10)])"

declare dec_string.simps [simp del]

definition sys_cgroup_create :: "u64 \<Rightarrow> cgroup_state \<Rightarrow> i64 \<times> cgroup_state" where
  "sys_cgroup_create parent_id s =
     (if \<not> cs_initialized s then (- cg_errno_code EINVAL, s)
      else
        let name = ''cg_'' @ dec_string (unat parent_id);
            (nid, s1) = create_cgroup parent_id name s in
        if nid = 0 then (- cg_errno_code EINVAL, s1) else (nid, s1))"

definition sys_cgroup_destroy :: "u64 \<Rightarrow> cgroup_state \<Rightarrow> i64 \<times> cgroup_state" where
  "sys_cgroup_destroy gid s =
     (if \<not> cs_initialized s then (- cg_errno_code EINVAL, s)
      else
        (case remove_cgroup gid s of
           (Inr _, s1) \<Rightarrow> (0, s1)
         | (Inl e, s1) \<Rightarrow> (- cg_errno_code e, s1)))"

definition sys_cgroup_attach :: "u64 \<Rightarrow> u64 \<Rightarrow> cgroup_state \<Rightarrow> i64 \<times> cgroup_state" where
  "sys_cgroup_attach gid p s =
     (if \<not> cs_initialized s then (- cg_errno_code EINVAL, s)
      else
        (case migrate (ucast p) gid s of
           (Inr _, s1) \<Rightarrow> (0, s1)
         | (Inl e, s1) \<Rightarrow> (- cg_errno_code e, s1)))"

definition set_group :: "u64 \<Rightarrow> cgroup_rq \<Rightarrow> cgroup_state \<Rightarrow> cgroup_state" where
  "set_group gid g s = s\<lparr>cs_groups := bt_insert gid g (cs_groups s)\<rparr>"

definition sys_cgroup_set_limit :: "u64 \<Rightarrow> u64 \<Rightarrow> u64 \<Rightarrow> cgroup_state \<Rightarrow> i64 \<times> cgroup_state" where
  "sys_cgroup_set_limit gid controller val s =
     (if \<not> cs_initialized s then (- cg_errno_code EINVAL, s)
      else
        (case cgroup_find gid s of
           None \<Rightarrow> (- cg_errno_code ENOENT, s)
         | Some cg \<Rightarrow>
             if controller = 0 then (0, set_group gid (cg\<lparr>cg_cpu := set_quota val (cg_cpu cg)\<rparr>) s)
             else if controller = 1 then (0, set_group gid (cg\<lparr>cg_cpu := set_period val (cg_cpu cg)\<rparr>) s)
             else if controller = 2 then (0, set_group gid (cg\<lparr>cg_memory := set_limit val (cg_memory cg)\<rparr>) s)
             else if controller = 3 then (0, set_group gid (cg\<lparr>cg_pids := set_max val (cg_pids cg)\<rparr>) s)
             else (- cg_errno_code EINVAL, s)))"

definition sys_cgroup_get_stat :: "u64 \<Rightarrow> u64 \<Rightarrow> cgroup_state \<Rightarrow> i64" where
  "sys_cgroup_get_stat gid stat_type s =
     (if \<not> cs_initialized s then - cg_errno_code EINVAL
      else
        (case cgroup_find gid s of
           None \<Rightarrow> - cg_errno_code ENOENT
         | Some cg \<Rightarrow>
             if stat_type = 0 then runtime_used (cg_cpu cg)
             else if stat_type = 1 then usage_in_bytes (cg_memory cg)
             else if stat_type = 2 then pids_current (cg_pids cg)
             else if stat_type = 3 then stat_read_bytes (cg_io cg)
             else if stat_type = 4 then stat_write_bytes (cg_io cg)
             else if stat_type = 5 then nr_throttled (cg_cpu cg)
             else if stat_type = 6 then max_usage_in_bytes (cg_memory cg)
             else if stat_type = 7 then events_fork_fail (cg_pids cg)
             else - cg_errno_code EINVAL))"

text \<open>Process exit in \<^verbatim>\<open>framework/proc/scheduler.rs\<close>: the process leaves the group it records.\<close>

definition cgroup_exit :: "u64 \<Rightarrow> pid \<Rightarrow> cgroup_state \<Rightarrow> cgroup_state" where
  "cgroup_exit gid p s =
     (if \<not> cs_initialized s then s
      else case cgroup_find gid s of None \<Rightarrow> s | Some cg \<Rightarrow> set_group gid (detach_proc p cg) s)"

section \<open>Runs\<close>

text \<open>The id counter is 64 bits wide; the runs considered create fewer than \<open>2 ^ 64 - 1\<close> groups.\<close>

inductive cgroup_step :: "cgroup_state \<Rightarrow> cgroup_state \<Rightarrow> bool" where
  cstep_init: "cgroup_step s (cgroup_init s)"
| cstep_create: "cs_next_id s \<noteq> - 1 \<Longrightarrow> cgroup_step s (snd (sys_cgroup_create parent s))"
| cstep_destroy: "cgroup_step s (snd (sys_cgroup_destroy gid s))"
| cstep_attach: "cgroup_step s (snd (sys_cgroup_attach gid p s))"
| cstep_limit: "cgroup_step s (snd (sys_cgroup_set_limit gid ctl val s))"
| cstep_exit: "cgroup_step s (cgroup_exit gid p s)"

inductive cgroup_reachable :: "cgroup_state \<Rightarrow> bool" where
  creach_boot: "cgroup_reachable cgroup_state_boot"
| creach_step: "cgroup_reachable s \<Longrightarrow> cgroup_step s s' \<Longrightarrow> cgroup_reachable s'"

section \<open>Invariants\<close>

type_synonym group_map = "u64 \<Rightarrow> cgroup_rq option"

definition tree_ok :: "group_map \<Rightarrow> bool" where
  "tree_ok G \<longleftrightarrow>
     (\<exists>r. G 0 = Some r \<and> cg_parent_id r = 0)
     \<and> (\<forall>gid g. G gid = Some g \<longrightarrow>
          cg_id g = gid \<and> distinct (cg_children g)
          \<and> (gid \<noteq> 0 \<longrightarrow> (\<exists>p. G (cg_parent_id g) = Some p \<and> gid \<in> set (cg_children p)
                              \<and> (cg_parent_id g \<noteq> 0 \<longrightarrow> cg_parent_id p = 0)))
          \<and> (\<forall>c \<in> set (cg_children g). c \<noteq> 0 \<and> (\<exists>h. G c = Some h \<and> cg_parent_id h = gid)))"

definition members_ok :: "group_map \<Rightarrow> bool" where
  "members_ok G \<longleftrightarrow>
     (\<forall>gid g. G gid = Some g \<longrightarrow>
        distinct (cg_procs g) \<and> length (cg_procs g) \<le> CGROUP_MAX_PROCS
        \<and> unat (pids_current (cg_pids g)) \<le> length (cg_procs g))
     \<and> (\<forall>a b g h p. G a = Some g \<and> G b = Some h \<and> p \<in> set (cg_procs g) \<and> p \<in> set (cg_procs h) \<longrightarrow> a = b)"

definition cgroup_inv :: "cgroup_state \<Rightarrow> bool" where
  "cgroup_inv s \<longleftrightarrow>
     bt_wf (cs_groups s) \<and> 0 < cs_next_id s
     \<and> (\<forall>gid g. bt_get (cs_groups s) gid = Some g \<longrightarrow> gid < cs_next_id s)
     \<and> (cs_groups s \<noteq> bt_empty \<longrightarrow> tree_ok (bt_get (cs_groups s)))
     \<and> members_ok (bt_get (cs_groups s))"

lemma cgroup_inv_boot: "cgroup_inv cgroup_state_boot"
  by (simp add: cgroup_inv_def cgroup_state_boot_def members_ok_def)

section \<open>The tree\<close>

lemma tree_ok_root:
  "tree_ok [0 \<mapsto> cgroup_new_root]" "members_ok [0 \<mapsto> cgroup_new_root]"
  by (simp_all add: tree_ok_def members_ok_def cgroup_new_root_def pids_controller_new_def)

lemma tree_okD:
  assumes "tree_ok G" "G gid = Some g"
  shows "cg_id g = gid" "distinct (cg_children g)"
    "gid \<noteq> 0 \<Longrightarrow> \<exists>q. G (cg_parent_id g) = Some q \<and> gid \<in> set (cg_children q)
        \<and> (cg_parent_id g \<noteq> 0 \<longrightarrow> cg_parent_id q = 0)"
    "\<And>c. c \<in> set (cg_children g) \<Longrightarrow> c \<noteq> 0 \<and> (\<exists>h. G c = Some h \<and> cg_parent_id h = gid)"
  using assms unfolding tree_ok_def by blast+

lemma tree_okI:
  assumes "\<exists>r. G 0 = Some r \<and> cg_parent_id r = 0"
    and "\<And>gid g. G gid = Some g \<Longrightarrow> cg_id g = gid \<and> distinct (cg_children g)"
    and "\<And>gid g. G gid = Some g \<Longrightarrow> gid \<noteq> 0 \<Longrightarrow> \<exists>q. G (cg_parent_id g) = Some q
           \<and> gid \<in> set (cg_children q) \<and> (cg_parent_id g \<noteq> 0 \<longrightarrow> cg_parent_id q = 0)"
    and "\<And>gid g c. G gid = Some g \<Longrightarrow> c \<in> set (cg_children g) \<Longrightarrow>
           c \<noteq> 0 \<and> (\<exists>h. G c = Some h \<and> cg_parent_id h = gid)"
  shows "tree_ok G"
  using assms unfolding tree_ok_def by blast

lemma tree_ok_keep:
  assumes ok: "tree_ok G" and g: "G gid = Some g"
    and same: "cg_id g' = cg_id g" "cg_parent_id g' = cg_parent_id g" "cg_children g' = cg_children g"
  shows "tree_ok (G(gid \<mapsto> g'))" (is "tree_ok ?G")
proof -
  have fwd: "\<exists>h'. ?G i = Some h' \<and> cg_parent_id h' = cg_parent_id h \<and> cg_children h' = cg_children h"
    if "G i = Some h" for i h
    using that g same by (cases "i = gid") auto
  have bwd: "\<exists>h0. G i = Some h0 \<and> cg_id h0 = cg_id h \<and> cg_parent_id h0 = cg_parent_id h
      \<and> cg_children h0 = cg_children h" if "?G i = Some h" for i h
    using that g same by (cases "i = gid") auto
  show ?thesis
  proof (rule tree_okI)
    show "\<exists>r. ?G 0 = Some r \<and> cg_parent_id r = 0"
      using ok fwd [of 0] unfolding tree_ok_def by fastforce
  next
    fix i h assume "?G i = Some h"
    from bwd [OF this] show "cg_id h = i \<and> distinct (cg_children h)"
      using tree_okD(1,2) [OF ok] by metis
  next
    fix i h assume h: "?G i = Some h" "i \<noteq> 0"
    obtain h0 where h0: "G i = Some h0" "cg_parent_id h0 = cg_parent_id h" using bwd [OF h(1)] by blast
    obtain q where "G (cg_parent_id h) = Some q" "i \<in> set (cg_children q)"
      "cg_parent_id h \<noteq> 0 \<longrightarrow> cg_parent_id q = 0"
      using tree_okD(3) [OF ok h0(1) h(2)] h0(2) by auto
    with fwd [OF this(1)] show "\<exists>q. ?G (cg_parent_id h) = Some q \<and> i \<in> set (cg_children q)
        \<and> (cg_parent_id h \<noteq> 0 \<longrightarrow> cg_parent_id q = 0)" by metis
  next
    fix i h c assume h: "?G i = Some h" "c \<in> set (cg_children h)"
    obtain h0 where h0: "G i = Some h0" "cg_children h0 = cg_children h" using bwd [OF h(1)] by blast
    with h(2) tree_okD(4) [OF ok h0(1), of c] obtain k where "c \<noteq> 0" "G c = Some k" "cg_parent_id k = i"
      by auto
    with fwd [of c k] show "c \<noteq> 0 \<and> (\<exists>h. ?G c = Some h \<and> cg_parent_id h = i)" by metis
  qed
qed

lemma tree_ok_create:
  assumes ok: "tree_ok G" and p: "G parent = Some p" and d: "parent \<noteq> 0 \<Longrightarrow> cg_parent_id p = 0"
    and n: "G n = None" "n \<noteq> 0"
  shows "tree_ok (G(parent \<mapsto> p\<lparr>cg_children := cg_children p @ [n]\<rparr>, n \<mapsto> cgroup_new_child name parent n))"
    (is "tree_ok ?G")
proof -
  have pn: "parent \<noteq> n" using p n by auto
  have old: "cg_id g = gid" "distinct (cg_children g)"
    "gid \<noteq> 0 \<Longrightarrow> \<exists>q. G (cg_parent_id g) = Some q \<and> gid \<in> set (cg_children q) \<and> (cg_parent_id g \<noteq> 0 \<longrightarrow> cg_parent_id q = 0)"
    "\<And>c. c \<in> set (cg_children g) \<Longrightarrow> c \<noteq> 0 \<and> (\<exists>h. G c = Some h \<and> cg_parent_id h = gid)"
    if "G gid = Some g" for gid g
    using tree_okD [OF ok that] by blast+
  have fresh: "n \<notin> set (cg_children p)" using old(4) [OF p] n(1) by fastforce
  have root: "\<exists>r. ?G 0 = Some r \<and> cg_parent_id r = 0"
    using ok p n(2) unfolding tree_ok_def by (cases "parent = 0") auto
  have "cg_id g = gid \<and> distinct (cg_children g)
      \<and> (gid \<noteq> 0 \<longrightarrow> (\<exists>q. ?G (cg_parent_id g) = Some q \<and> gid \<in> set (cg_children q)
           \<and> (cg_parent_id g \<noteq> 0 \<longrightarrow> cg_parent_id q = 0)))
      \<and> (\<forall>c \<in> set (cg_children g). c \<noteq> 0 \<and> (\<exists>h. ?G c = Some h \<and> cg_parent_id h = gid))"
    if g: "?G gid = Some g" for gid g
  proof (cases "gid = n")
    case True
    with g d pn show ?thesis by (auto simp: cgroup_new_child_def)
  next
    case False
    define g0 where "g0 = (if gid = parent then p else g)"
    have g0: "G gid = Some g0" using g False p by (auto simp: g0_def split: if_splits)
    have same: "cg_id g = cg_id g0" "cg_parent_id g = cg_parent_id g0"
      "cg_children g = (if gid = parent then cg_children p @ [n] else cg_children g0)"
      using g False by (auto simp: g0_def split: if_splits)
    have up: "\<exists>q. ?G (cg_parent_id g) = Some q \<and> gid \<in> set (cg_children q)
        \<and> (cg_parent_id g \<noteq> 0 \<longrightarrow> cg_parent_id q = 0)" if gid: "gid \<noteq> 0"
    proof -
      obtain q where q: "G (cg_parent_id g0) = Some q" "gid \<in> set (cg_children q)"
        "cg_parent_id g0 \<noteq> 0 \<longrightarrow> cg_parent_id q = 0"
        using old(3) [OF g0 gid] by blast
      then have "cg_parent_id g0 \<noteq> n" using n(1) by auto
      with q p same show ?thesis by (cases "cg_parent_id g0 = parent") auto
    qed
    have down: "c \<noteq> 0 \<and> (\<exists>h. ?G c = Some h \<and> cg_parent_id h = gid)" if c: "c \<in> set (cg_children g)" for c
    proof (cases "c = n")
      case True
      with c same(3) old(4) [OF g0, of n] n(1) have "gid = parent" by (auto split: if_splits)
      with True n(2) show ?thesis by (simp add: cgroup_new_child_def)
    next
      case c_old: False
      with c same(3) g0 p have "c \<in> set (cg_children g0)" by (auto split: if_splits)
      with old(4) [OF g0] obtain h where "c \<noteq> 0" "G c = Some h" "cg_parent_id h = gid" by blast
      with c_old p show ?thesis by auto
    qed
    show ?thesis using old(1,2) [OF g0] same fresh up down g0 p by auto
  qed
  with root show ?thesis unfolding tree_ok_def by blast
qed

lemma tree_ok_remove:
  assumes ok: "tree_ok G" and g: "G gid = Some g" "cg_children g = []" "gid \<noteq> 0"
    and p: "G (cg_parent_id g) = Some p"
    and ch: "set ch = set (cg_children p) - {gid}" "distinct ch"
  shows "tree_ok ((G(cg_parent_id g \<mapsto> p\<lparr>cg_children := ch\<rparr>))(gid := None))" (is "tree_ok ?G")
proof -
  have old: "cg_id h = i" "distinct (cg_children h)"
    "i \<noteq> 0 \<Longrightarrow> \<exists>q. G (cg_parent_id h) = Some q \<and> i \<in> set (cg_children q) \<and> (cg_parent_id h \<noteq> 0 \<longrightarrow> cg_parent_id q = 0)"
    "\<And>c. c \<in> set (cg_children h) \<Longrightarrow> c \<noteq> 0 \<and> (\<exists>k. G c = Some k \<and> cg_parent_id k = i)"
    if "G i = Some h" for i h
    using tree_okD [OF ok that] by blast+
  have pg: "cg_parent_id g \<noteq> gid"
  proof
    assume "cg_parent_id g = gid"
    with old(3) [OF g(1) g(3)] g show False by auto
  qed
  have root: "\<exists>r. ?G 0 = Some r \<and> cg_parent_id r = 0"
    using ok p g(3) unfolding tree_ok_def by (cases "cg_parent_id g = 0") auto
  have "cg_id h = i \<and> distinct (cg_children h)
      \<and> (i \<noteq> 0 \<longrightarrow> (\<exists>q. ?G (cg_parent_id h) = Some q \<and> i \<in> set (cg_children q)
           \<and> (cg_parent_id h \<noteq> 0 \<longrightarrow> cg_parent_id q = 0)))
      \<and> (\<forall>c \<in> set (cg_children h). c \<noteq> 0 \<and> (\<exists>k. ?G c = Some k \<and> cg_parent_id k = i))"
    if h: "?G i = Some h" for i h
  proof -
    define h0 where "h0 = (if i = cg_parent_id g then p else h)"
    have i: "i \<noteq> gid" and h0: "G i = Some h0" using h p by (auto simp: h0_def split: if_splits)
    have same: "cg_id h = cg_id h0" "cg_parent_id h = cg_parent_id h0"
      "cg_children h = (if i = cg_parent_id g then ch else cg_children h0)"
      using h by (auto simp: h0_def split: if_splits)
    have up: "\<exists>q. ?G (cg_parent_id h) = Some q \<and> i \<in> set (cg_children q)
        \<and> (cg_parent_id h \<noteq> 0 \<longrightarrow> cg_parent_id q = 0)" if i0: "i \<noteq> 0"
    proof -
      obtain q where q: "G (cg_parent_id h0) = Some q" "i \<in> set (cg_children q)"
        "cg_parent_id h0 \<noteq> 0 \<longrightarrow> cg_parent_id q = 0"
        using old(3) [OF h0 i0] by blast
      then have "cg_parent_id h0 \<noteq> gid" using g(1,2) by auto
      with q p same i ch show ?thesis by (cases "cg_parent_id h0 = cg_parent_id g") auto
    qed
    have down: "c \<noteq> 0 \<and> (\<exists>k. ?G c = Some k \<and> cg_parent_id k = i)" if c: "c \<in> set (cg_children h)" for c
    proof -
      have c0: "c \<in> set (cg_children h0)" using c same(3) ch(1) h0 p by (auto split: if_splits)
      obtain k where k: "c \<noteq> 0" "G c = Some k" "cg_parent_id k = i" using old(4) [OF h0 c0] by blast
      have "c \<noteq> gid"
      proof
        assume "c = gid"
        with k g have "i = cg_parent_id g" by simp
        with c same(3) ch(1) \<open>c = gid\<close> show False by simp
      qed
      with k p show ?thesis by auto
    qed
    show ?thesis using old(1,2) [OF h0] same ch(2) up down by simp
  qed
  with root show ?thesis unfolding tree_ok_def by blast
qed

section \<open>Membership\<close>

definition local_ok :: "cgroup_rq \<Rightarrow> bool" where
  "local_ok g \<longleftrightarrow>
     distinct (cg_procs g) \<and> length (cg_procs g) \<le> CGROUP_MAX_PROCS
     \<and> unat (pids_current (cg_pids g)) \<le> length (cg_procs g)"

lemma members_ok_alt:
  "members_ok G \<longleftrightarrow> (\<forall>gid g. G gid = Some g \<longrightarrow> local_ok g)
     \<and> (\<forall>a b g h p. G a = Some g \<and> G b = Some h \<and> p \<in> set (cg_procs g) \<and> p \<in> set (cg_procs h) \<longrightarrow> a = b)"
  by (simp add: members_ok_def local_ok_def)

lemma members_ok_update:
  assumes "members_ok G" "local_ok g'"
    and "\<And>p b h. p \<in> set (cg_procs g') \<Longrightarrow> G b = Some h \<Longrightarrow> p \<in> set (cg_procs h) \<Longrightarrow> b = gid"
  shows "members_ok (G(gid \<mapsto> g'))"
proof -
  have "a = b" if "(G(gid \<mapsto> g')) a = Some g" "(G(gid \<mapsto> g')) b = Some h"
      "p \<in> set (cg_procs g)" "p \<in> set (cg_procs h)" for a b g h p
    using that assms(1,3) unfolding members_ok_alt
    by (cases "a = gid"; cases "b = gid") (simp_all, blast+)
  moreover have "local_ok g" if "(G(gid \<mapsto> g')) a = Some g" for a g
    using that assms(1,2) unfolding members_ok_alt by (cases "a = gid") auto
  ultimately show ?thesis unfolding members_ok_alt by blast
qed

lemma members_ok_remove: "members_ok G \<Longrightarrow> members_ok (G(gid := None))"
  unfolding members_ok_alt by (auto split: if_splits)

lemma members_ok_subset:
  assumes "members_ok G" "G gid = Some g" "local_ok g'" "set (cg_procs g') \<subseteq> set (cg_procs g)"
  shows "members_ok (G(gid \<mapsto> g'))"
  by (rule members_ok_update [OF assms(1,3)]) (use assms in \<open>unfold members_ok_alt, blast\<close>)

lemma detach_proc_spec:
  assumes "local_ok g"
  shows "local_ok (detach_proc p g)" "set (cg_procs (detach_proc p g)) = set (cg_procs g) - {p}"
    "cg_id (detach_proc p g) = cg_id g" "cg_parent_id (detach_proc p g) = cg_parent_id g"
    "cg_children (detach_proc p g) = cg_children g"
proof -
  have "local_ok (detach_proc p g) \<and> set (cg_procs (detach_proc p g)) = set (cg_procs g) - {p}
      \<and> cg_id (detach_proc p g) = cg_id g \<and> cg_parent_id (detach_proc p g) = cg_parent_id g
      \<and> cg_children (detach_proc p g) = cg_children g"
  proof (cases "find_idx (\<lambda>q. q = p) (cg_procs g)")
    case None
    then have "p \<notin> set (cg_procs g)" by (auto simp: find_idx_None_iff)
    with None assms show ?thesis by (simp add: detach_proc_def)
  next
    case (Some i)
    then have i: "i < length (cg_procs g)" "cg_procs g ! i = p" by (auto dest: find_idx_SomeD)
    have d: "distinct (cg_procs g)" using assms by (simp add: local_ok_def)
    have "unat (pids_current (pids_exit (cg_pids g))) \<le> length (cg_procs g) - 1"
      using assms by (simp add: local_ok_def pids_exit_current unat_saturating_sub diff_le_mono)
    moreover have "length (cg_procs g) - 1 \<le> CGROUP_MAX_PROCS"
      using assms unfolding local_ok_def by linarith
    moreover have "detach_proc p g
        = g\<lparr>cg_procs := swap_remove (cg_procs g) i, cg_pids := pids_exit (cg_pids g)\<rparr>"
      using Some by (simp add: detach_proc_def)
    ultimately show ?thesis
      using swap_remove_distinct [OF d i(1)] i(2) by (simp add: local_ok_def)
  qed
  then show "local_ok (detach_proc p g)" "set (cg_procs (detach_proc p g)) = set (cg_procs g) - {p}"
    "cg_id (detach_proc p g) = cg_id g" "cg_parent_id (detach_proc p g) = cg_parent_id g"
    "cg_children (detach_proc p g) = cg_children g" by auto
qed

lemma attach_proc_spec:
  assumes ok: "local_ok g" and r: "attach_proc p g = (b, g')"
  shows "local_ok g'" "set (cg_procs g') \<subseteq> insert p (set (cg_procs g))"
    "set (cg_procs g) \<subseteq> set (cg_procs g')" "b \<Longrightarrow> p \<in> set (cg_procs g')"
    "cg_id g' = cg_id g" "cg_parent_id g' = cg_parent_id g" "cg_children g' = cg_children g"
proof -
  have cur: "unat (pids_current (snd (try_fork (cg_pids g)))) \<le> Suc (unat (pids_current (cg_pids g)))"
    by (auto simp: try_fork_def Let_def unat_word_ariths)
  have "local_ok g' \<and> set (cg_procs g') \<subseteq> insert p (set (cg_procs g)) \<and> set (cg_procs g) \<subseteq> set (cg_procs g')
      \<and> (b \<longrightarrow> p \<in> set (cg_procs g')) \<and> cg_id g' = cg_id g \<and> cg_parent_id g' = cg_parent_id g
      \<and> cg_children g' = cg_children g"
    using r ok cur by (auto simp: attach_proc_def local_ok_def split_beta split: if_splits)
  then show "local_ok g'" "set (cg_procs g') \<subseteq> insert p (set (cg_procs g))"
    "set (cg_procs g) \<subseteq> set (cg_procs g')" "b \<Longrightarrow> p \<in> set (cg_procs g')"
    "cg_id g' = cg_id g" "cg_parent_id g' = cg_parent_id g" "cg_children g' = cg_children g" by auto
qed

section \<open>Preservation\<close>

lemma cgroup_inv_parts:
  assumes "cgroup_inv s"
  shows "bt_wf (cs_groups s)" "0 < cs_next_id s"
    "\<And>gid g. bt_get (cs_groups s) gid = Some g \<Longrightarrow> gid < cs_next_id s"
    "\<And>gid g. bt_get (cs_groups s) gid = Some g \<Longrightarrow> tree_ok (bt_get (cs_groups s))"
    "members_ok (bt_get (cs_groups s))"
    "\<And>gid g. bt_get (cs_groups s) gid = Some g \<Longrightarrow> local_ok g"
  using assms by (auto simp: cgroup_inv_def members_ok_alt)

lemma cgroup_inv_set_group:
  assumes inv: "cgroup_inv s" and g: "bt_get (cs_groups s) gid = Some g"
    and same: "cg_id g' = cg_id g" "cg_parent_id g' = cg_parent_id g" "cg_children g' = cg_children g"
    and mem: "members_ok ((bt_get (cs_groups s))(gid \<mapsto> g'))"
  shows "cgroup_inv (set_group gid g' s)"
  using cgroup_inv_parts [OF inv] g mem tree_ok_keep [OF cgroup_inv_parts(4) [OF inv g] g same]
  by (auto simp: cgroup_inv_def set_group_def bt_wf_insert bt_get_insert_fun split: if_splits)

lemma cgroup_inv_set_local:
  assumes "cgroup_inv s" "bt_get (cs_groups s) gid = Some g" "local_ok g'"
    "set (cg_procs g') \<subseteq> set (cg_procs g)"
    "cg_id g' = cg_id g" "cg_parent_id g' = cg_parent_id g" "cg_children g' = cg_children g"
  shows "cgroup_inv (set_group gid g' s)"
  by (rule cgroup_inv_set_group [OF assms(1,2,5,6,7)])
     (rule members_ok_subset [OF cgroup_inv_parts(5) [OF assms(1)] assms(2,3,4)])

lemma create_cgroup_inv:
  assumes inv: "cgroup_inv s" and n: "cs_next_id s \<noteq> - 1"
  shows "cgroup_inv (snd (create_cgroup parent name s))"
proof (cases "\<exists>p. bt_get (cs_groups s) parent = Some p \<and> \<not> (parent \<noteq> 0 \<and> cg_parent_id p \<noteq> 0)")
  case False
  then have "snd (create_cgroup parent name s) = s"
    by (auto simp: create_cgroup_def split: option.split)
  with inv show ?thesis by simp
next
  case True
  then obtain p where p: "bt_get (cs_groups s) parent = Some p" "parent \<noteq> 0 \<Longrightarrow> cg_parent_id p = 0" by blast
  let ?n = "cs_next_id s" and ?p = "p\<lparr>cg_children := cg_children p @ [cs_next_id s]\<rparr>"
  note i = cgroup_inv_parts [OF inv]
  have next': "?n < ?n + 1" using n by (rule word_less_add_1)
  have fresh: "bt_get (cs_groups s) ?n = None" "?n \<noteq> 0"
    using i(3) [of ?n] i(2) by (cases "bt_get (cs_groups s) ?n"; simp add: word_gt_0)+
  have t: "tree_ok ((bt_get (cs_groups s))(parent \<mapsto> ?p, ?n \<mapsto> cgroup_new_child name parent ?n))"
    by (rule tree_ok_create [OF i(4) [OF p(1)] p fresh])
  have "members_ok ((bt_get (cs_groups s))(parent \<mapsto> ?p))"
    using i(6) [OF p(1)] by (intro members_ok_subset [OF i(5) p(1)]) (simp_all add: local_ok_def)
  then have m: "members_ok ((bt_get (cs_groups s))(parent \<mapsto> ?p, ?n \<mapsto> cgroup_new_child name parent ?n))"
    by (rule members_ok_update)
       (simp_all add: cgroup_new_child_def local_ok_def pids_controller_new_def)
  have "snd (create_cgroup parent name s) = s\<lparr>cs_next_id := ?n + 1,
      cs_groups := bt_insert ?n (cgroup_new_child name parent ?n) (bt_insert parent ?p (cs_groups s))\<rparr>"
    using p by (auto simp: create_cgroup_def alloc_cgroup_id_def)
  moreover have "0 < ?n + 1" using next' i(2) by (rule less_trans [rotated])
  moreover have "gid < ?n + 1" if "((bt_get (cs_groups s))(parent \<mapsto> ?p, ?n \<mapsto> cgroup_new_child name parent ?n)) gid = Some g"
    for gid g
    using that i(3) [of gid] i(3) [OF p(1)] next' by (auto split: if_splits intro: less_trans)
  ultimately show ?thesis
    using t m i(1) by (auto simp: cgroup_inv_def bt_wf_insert bt_get_insert_fun)
qed

lemma remove_cgroup_inv:
  assumes inv: "cgroup_inv s"
  shows "cgroup_inv (snd (remove_cgroup gid s))"
proof (cases "gid \<noteq> 0 \<and> (\<exists>g. bt_get (cs_groups s) gid = Some g \<and> cg_procs g = [] \<and> cg_children g = [])")
  case False
  then have "snd (remove_cgroup gid s) = s"
    by (auto simp: remove_cgroup_def split: option.split)
  with inv show ?thesis by simp
next
  case True
  then obtain g where g: "gid \<noteq> 0" "bt_get (cs_groups s) gid = Some g" "cg_procs g = []" "cg_children g = []"
    by blast
  note i = cgroup_inv_parts [OF inv]
  note t = i(4) [OF g(2)]
  obtain p where p: "bt_get (cs_groups s) (cg_parent_id g) = Some p" "gid \<in> set (cg_children p)"
    using tree_okD(3) [OF t g(2,1)] by blast
  obtain pos where pos: "find_idx (\<lambda>c. c = gid) (cg_children p) = Some pos"
    using p(2) by (cases "find_idx (\<lambda>c. c = gid) (cg_children p)") (auto simp: find_idx_None_iff)
  let ?ch = "swap_remove (cg_children p) pos"
  have ch: "set ?ch = set (cg_children p) - {gid}" "distinct ?ch"
    using swap_remove_distinct [OF tree_okD(2) [OF t p(1)]] find_idx_SomeD [OF pos] by auto
  have "tree_ok ((bt_get (cs_groups s))(cg_parent_id g \<mapsto> p\<lparr>cg_children := ?ch\<rparr>, gid := None))"
    by (rule tree_ok_remove [OF t g(2,4,1) p(1) ch])
  moreover have "members_ok ((bt_get (cs_groups s))(cg_parent_id g \<mapsto> p\<lparr>cg_children := ?ch\<rparr>, gid := None))"
    using i(6) [OF p(1)]
    by (intro members_ok_remove members_ok_subset [OF i(5) p(1)]) (simp_all add: local_ok_def)
  moreover have "snd (remove_cgroup gid s) = s\<lparr>cs_groups :=
      bt_remove gid (bt_insert (cg_parent_id g) (p\<lparr>cg_children := ?ch\<rparr>) (cs_groups s))\<rparr>"
    using g p pos by (simp add: remove_cgroup_def)
  ultimately show ?thesis
    using i(1,2,3) p(1) unfolding cgroup_inv_def
    by (auto simp: bt_wf_insert bt_wf_remove bt_get_insert_fun bt_get_remove_fun split: if_splits)
qed

lemma detach_from_holder_spec:
  assumes inv: "cgroup_inv s"
  shows "cgroup_inv (detach_from_holder p s)"
    and "bt_get (cs_groups (detach_from_holder p s)) gid = Some g \<Longrightarrow> p \<notin> set (cg_procs g)"
    and "bt_get (cs_groups (detach_from_holder p s)) gid = None \<longleftrightarrow> bt_get (cs_groups s) gid = None"
proof -
  note i = cgroup_inv_parts [OF inv]
  have "cgroup_inv (detach_from_holder p s)
    \<and> (bt_get (cs_groups (detach_from_holder p s)) gid = Some g \<longrightarrow> p \<notin> set (cg_procs g))
    \<and> (bt_get (cs_groups (detach_from_holder p s)) gid = None \<longleftrightarrow> bt_get (cs_groups s) gid = None)"
  proof (cases "holder p s")
    case None
    then have "p \<notin> set (cg_procs g)" if "bt_get (cs_groups s) gid = Some g"
      using that bt_find_None_iff [OF i(1), of "\<lambda>(gid, g). p \<in> set (cg_procs g)"]
      by (auto simp: holder_def)
    with None inv show ?thesis by (simp add: detach_from_holder_def)
  next
    case (Some kh)
    obtain k h where kh: "kh = (k, h)" by (cases kh)
    with Some have h: "bt_get (cs_groups s) k = Some h" "p \<in> set (cg_procs h)"
      using bt_find_SomeD [OF i(1), of _ k h] by (auto simp: holder_def)
    note d = detach_proc_spec [OF i(6) [OF h(1)], of p]
    have "cgroup_inv (set_group k (detach_proc p h) s)"
      by (rule cgroup_inv_set_local [OF inv h(1) d(1) _ d(3,4,5)]) (simp add: d(2))
    moreover have "detach_from_holder p s = set_group k (detach_proc p h) s"
      using Some kh by (simp add: detach_from_holder_def set_group_def)
    moreover have "k = gid" if "bt_get (cs_groups s) gid = Some g" "p \<in> set (cg_procs g)"
      using i(5) h that unfolding members_ok_alt by blast
    ultimately show ?thesis
      using i(1) h d(2) by (auto simp: set_group_def bt_get_insert_fun)
  qed
  then show "cgroup_inv (detach_from_holder p s)"
    "bt_get (cs_groups (detach_from_holder p s)) gid = Some g \<Longrightarrow> p \<notin> set (cg_procs g)"
    "bt_get (cs_groups (detach_from_holder p s)) gid = None \<longleftrightarrow> bt_get (cs_groups s) gid = None" by auto
qed

lemma migrate_inv:
  assumes inv: "cgroup_inv s"
  shows "cgroup_inv (snd (migrate p target s))"
    and "fst (migrate p target s) = Inr () \<Longrightarrow>
      (\<exists>g. cgroup_of p (snd (migrate p target s)) = Some g \<and> cg_id g = target)"
proof -
  let ?s = "detach_from_holder p s"
  have "cgroup_inv (snd (migrate p target s)) \<and> (fst (migrate p target s) = Inr () \<longrightarrow>
      (\<exists>g. cgroup_of p (snd (migrate p target s)) = Some g \<and> cg_id g = target))"
  proof (cases "bt_get (cs_groups s) target")
    case None
    with inv show ?thesis by (simp add: migrate_def cgroup_find_def)
  next
    case (Some t0)
    note d = detach_from_holder_spec [OF inv, of p]
    obtain t where t: "bt_get (cs_groups ?s) target = Some t" using Some d(3) [of target] by fastforce
    obtain b t' where a: "attach_proc p t = (b, t')" by fastforce
    note i = cgroup_inv_parts [OF d(1)]
    note sp = attach_proc_spec [OF i(6) [OF t] a]
    let ?s2 = "set_group target t' ?s"
    have m: "migrate p target s = (if b then Inr () else Inl EAGAIN, ?s2)"
      using Some t a by (simp add: migrate_def cgroup_find_def set_group_def Let_def)
    have "members_ok ((bt_get (cs_groups ?s))(target \<mapsto> t'))"
    proof (rule members_ok_update [OF i(5) sp(1)])
      fix q c h assume q: "q \<in> set (cg_procs t')" "bt_get (cs_groups ?s) c = Some h" "q \<in> set (cg_procs h)"
      with sp(2) d(2) have "q \<in> set (cg_procs t)" by auto
      with q t i(5) show "c = target" unfolding members_ok_alt by blast
    qed
    then have inv2: "cgroup_inv ?s2" by (rule cgroup_inv_set_group [OF d(1) t sp(5,6,7)])
    have "\<exists>g. cgroup_of p ?s2 = Some g \<and> cg_id g = target" if b
    proof -
      note i2 = cgroup_inv_parts [OF inv2]
      have g2: "bt_get (cs_groups ?s2) target = Some t'" "p \<in> set (cg_procs t')"
        using i(1) sp(4) that by (simp_all add: set_group_def bt_get_insert)
      then obtain k h where kh: "holder p ?s2 = Some (k, h)"
        using bt_find_None_iff [OF i2(1), of "\<lambda>(gid, g). p \<in> set (cg_procs g)"]
        by (cases "holder p ?s2") (auto simp: holder_def)
      then have "bt_get (cs_groups ?s2) k = Some h" "p \<in> set (cg_procs h)"
        using bt_find_SomeD [OF i2(1)] by (auto simp: holder_def)
      with g2 i2(5) have "k = target" "h = t'" unfolding members_ok_alt by (blast, metis option.inject)
      with kh tree_okD(1) [OF i2(4) g2(1)] g2(1) show ?thesis by (auto simp: cgroup_of_def)
    qed
    with inv2 m show ?thesis by simp
  qed
  then show "cgroup_inv (snd (migrate p target s))"
    "fst (migrate p target s) = Inr () \<Longrightarrow> (\<exists>g. cgroup_of p (snd (migrate p target s)) = Some g \<and> cg_id g = target)"
    by auto
qed

lemma cgroup_init_inv: "cgroup_inv s \<Longrightarrow> cgroup_inv (cgroup_init s)"
proof -
  have root: "bt_get cgroup_subsystem_new = [0 \<mapsto> cgroup_new_root]" "bt_wf cgroup_subsystem_new"
    by (auto simp: cgroup_subsystem_new_def)
  assume "cgroup_inv s"
  then show ?thesis
    using tree_ok_root root
    by (auto simp: cgroup_inv_def cgroup_init_def Let_def split: if_splits)
qed

lemma cgroup_step_inv: "cgroup_step s s' \<Longrightarrow> cgroup_inv s \<Longrightarrow> cgroup_inv s'"
proof (induction rule: cgroup_step.induct)
  case (cstep_init s)
  then show ?case by (rule cgroup_init_inv)
next
  case (cstep_create s parent)
  then show ?case
    using create_cgroup_inv by (simp add: sys_cgroup_create_def Let_def split_beta)
next
  case (cstep_destroy s gid)
  then show ?case
    using remove_cgroup_inv [of s gid]
    by (cases "remove_cgroup gid s") (auto simp: sys_cgroup_destroy_def split: sum.split)
next
  case (cstep_attach s gid p)
  then show ?case
    using migrate_inv(1) [of s "ucast p" gid]
    by (cases "migrate (ucast p) gid s") (auto simp: sys_cgroup_attach_def split: sum.split)
next
  case (cstep_limit s gid ctl val)
  show ?case
  proof (cases "bt_get (cs_groups s) gid")
    case None
    with cstep_limit show ?thesis by (simp add: sys_cgroup_set_limit_def cgroup_find_def)
  next
    case (Some g)
    have "cgroup_inv (set_group gid g' s)"
      if "cg_procs g' = cg_procs g" "pids_current (cg_pids g') = pids_current (cg_pids g)"
        "cg_id g' = cg_id g" "cg_parent_id g' = cg_parent_id g" "cg_children g' = cg_children g" for g'
      using cgroup_inv_parts(6) [OF cstep_limit Some] that
      by (intro cgroup_inv_set_local [OF cstep_limit Some]) (simp_all add: local_ok_def)
    with Some cstep_limit show ?thesis
      by (simp add: sys_cgroup_set_limit_def cgroup_find_def set_max_def)
  qed
next
  case (cstep_exit s gid p)
  show ?case
  proof (cases "bt_get (cs_groups s) gid")
    case (Some g)
    note d = detach_proc_spec [OF cgroup_inv_parts(6) [OF cstep_exit Some], of p]
    have "cgroup_inv (set_group gid (detach_proc p g) s)"
      by (rule cgroup_inv_set_local [OF cstep_exit Some d(1) _ d(3,4,5)]) (simp add: d(2))
    with Some cstep_exit show ?thesis by (simp add: cgroup_exit_def cgroup_find_def)
  qed (use cstep_exit in \<open>simp add: cgroup_exit_def cgroup_find_def\<close>)
qed

lemma cgroup_reachable_inv: "cgroup_reachable s \<Longrightarrow> cgroup_inv s"
  by (induction rule: cgroup_reachable.induct) (auto intro: cgroup_inv_boot cgroup_step_inv)

section \<open>Properties\<close>

definition demo_cgroups :: cgroup_state where
  "demo_cgroups =
     snd (sys_cgroup_attach 1 42 (snd (sys_cgroup_create 1 (snd (sys_cgroup_create 0
       (cgroup_init cgroup_state_boot))))))"

lemma demo_cgroups_reachable: "cgroup_reachable demo_cgroups"
proof -
  let ?s1 = "cgroup_init cgroup_state_boot"
  let ?s2 = "snd (sys_cgroup_create 0 ?s1)"
  have "cs_next_id ?s1 \<noteq> - 1" "cs_next_id ?s2 \<noteq> - 1" by code_simp+
  then show ?thesis unfolding demo_cgroups_def
    by (intro creach_step [OF _ cstep_attach] creach_step [OF _ cstep_create]
        creach_step [OF creach_boot cstep_init])
qed

lemma demo_cgroups_groups: "map fst (cs_groups demo_cgroups) = [0, 1, 2]"
  by code_simp

text \<open>C21: In every reachable state the groups form a tree under group 0: ids are the keys, the
  children of a group are exactly the groups that name it as parent, and no group is more than
  two levels below the root.\<close>

theorem cgroup_tree:
  assumes "cgroup_reachable s" "cs_groups s \<noteq> []"
  shows "tree_ok (bt_get (cs_groups s))"
  using cgroup_reachable_inv [OF assms(1)] assms(2) by (simp add: cgroup_inv_def)

theorem cgroup_tree_witness:
  "cgroup_reachable demo_cgroups \<and> map fst (cs_groups demo_cgroups) = [0, 1, 2]
   \<and> tree_ok (bt_get (cs_groups demo_cgroups))"
proof -
  have "cs_groups demo_cgroups \<noteq> []" using demo_cgroups_groups by auto
  with demo_cgroups_reachable demo_cgroups_groups cgroup_tree show ?thesis by blast
qed

text \<open>In every reachable state a process is a member of at most one group, at most once, a
  group has at most 4096 members, and the pids counter of a group never exceeds its members.\<close>

theorem cgroup_membership:
  "cgroup_reachable s \<Longrightarrow> members_ok (bt_get (cs_groups s))"
  using cgroup_reachable_inv by (simp add: cgroup_inv_def)

theorem cgroup_membership_witness:
  "cgroup_reachable demo_cgroups \<and> members_ok (bt_get (cs_groups demo_cgroups))"
  using demo_cgroups_reachable cgroup_membership [OF demo_cgroups_reachable] by blast

text \<open>A successful attach makes the process a member of the target group and of no other:
  \<^verbatim>\<open>cgroup_of\<close> then finds the target.\<close>

theorem cgroup_attach_moves:
  assumes "cgroup_reachable s" "cs_initialized s" "sys_cgroup_attach gid p s = (0, s')"
  shows "\<exists>g. cgroup_of (ucast p) s' = Some g \<and> cg_id g = gid"
proof -
  obtain r s1 where m: "migrate (ucast p) gid s = (r, s1)" by fastforce
  have "cg_errno_code e \<noteq> 0" for e by (cases e) simp_all
  with assms(2,3) m have "r = Inr () \<and> s1 = s'"
    by (cases r) (auto simp: sys_cgroup_attach_def)
  with migrate_inv(2) [OF cgroup_reachable_inv [OF assms(1)], of "ucast p" gid] m show ?thesis by simp
qed

theorem cgroup_attach_moves_witness:
  "\<exists>g. cgroup_of 42 (snd (sys_cgroup_attach 2 42 demo_cgroups)) = Some g \<and> cg_id g = 2"
proof -
  have "cs_initialized demo_cgroups" "fst (sys_cgroup_attach 2 42 demo_cgroups) = 0" by code_simp+
  then have "sys_cgroup_attach 2 42 demo_cgroups = (0, snd (sys_cgroup_attach 2 42 demo_cgroups))"
    by (metis prod.collapse)
  with cgroup_attach_moves [OF demo_cgroups_reachable \<open>cs_initialized demo_cgroups\<close> this] show ?thesis
    by simp
qed



text \<open>Uncharging what was charged restores the usage, uncharging more stops at zero, and the
  recorded maximum is never below the usage.\<close>

theorem charge_uncharge:
  assumes "usage_in_bytes c \<le> max_usage_in_bytes c" "try_charge b c = (True, c')"
    and "unat (usage_in_bytes c) + unat b < 2 ^ 64"
  shows "usage_in_bytes (uncharge b c') = usage_in_bytes c
    \<and> usage_in_bytes c' \<le> max_usage_in_bytes c'
    \<and> unat (usage_in_bytes (uncharge x c')) = unat (usage_in_bytes c') - unat x"
proof -
  have c': "usage_in_bytes c' = usage_in_bytes c + b"
    using assms(2) by (auto simp: try_charge_def Let_def split: if_splits)
  have "unat (usage_in_bytes c + b) = unat (usage_in_bytes c) + unat b"
    using assms(3) by (simp add: unat_word_ariths)
  then have "usage_in_bytes (uncharge b c') = usage_in_bytes c"
    by (simp add: uncharge_usage c' word_unat_eq_iff unat_saturating_sub)
  moreover have "usage_in_bytes c' \<le> max_usage_in_bytes c'"
    using try_charge_max [OF assms(1), of b] assms(2) by simp
  ultimately show ?thesis by (simp add: uncharge_usage unat_saturating_sub)
qed

theorem charge_uncharge_witness:
  "\<exists>c'. try_charge 4096 memory_controller_new = (True, c')
     \<and> usage_in_bytes (uncharge 4096 c') = usage_in_bytes memory_controller_new"
proof -
  obtain c' where "try_charge 4096 memory_controller_new = (True, c')"
    by (simp add: try_charge_def Let_def memory_controller_new_def)
  with charge_uncharge [of memory_controller_new 4096 c'] show ?thesis
    by (auto simp: memory_controller_new_def)
qed

section \<open>Divergences shown on concrete runs\<close>

text \<open>With a pids limit of 0 the attach fails, and the process is a member nevertheless.\<close>

lemma failed_attach_keeps_member:
  "let s = snd (sys_cgroup_set_limit 2 3 0 demo_cgroups) in
   fst (sys_cgroup_attach 2 7 s) = - 11
   \<and> map_option cg_id (cgroup_of 7 (snd (sys_cgroup_attach 2 7 s))) = Some 2"
  by code_simp

text \<open>A charge that overflows 64 bits passes the limit check.\<close>

lemma charge_overflow_granted:
  "fst (try_charge (- 1) (set_limit 4096 (snd (try_charge 100 memory_controller_new))))"
  by code_simp

end
