(* ===== verification/Ebpf_Map.thy ===== *)
theory Ebpf_Map
  imports BTree
begin

text \<open>
  The eBPF maps of \<^verbatim>\<open>src/src/kernel/framework/debug/ebpf.rs\<close>: \<^verbatim>\<open>BpfMapType\<close>, \<^verbatim>\<open>BpfMapDef\<close>, \<^verbatim>\<open>BpfMap\<close>
  with \<^verbatim>\<open>create\<close>, \<^verbatim>\<open>lookup\<close>, \<^verbatim>\<open>update\<close>, \<^verbatim>\<open>delete\<close> and \<^verbatim>\<open>key_to_index\<close>.  A hash map holds a
  \<^verbatim>\<open>BTreeMap\<close> from keys to values, an array a vector of optional values indexed by the key
  read as a little-endian number.  \<open>map_view\<close> is the partial function a map stands for.
\<close>

section \<open>Data\<close>

datatype bpf_map_type = MtHash | MtArray | MtPerCpuHash | MtPerCpuArray

definition bpf_map_type_from_u32 :: "u32 \<Rightarrow> bpf_map_type option" where
  "bpf_map_type_from_u32 v =
     (if v = 1 then Some MtHash else if v = 2 then Some MtArray
      else if v = 3 then Some MtPerCpuHash else if v = 4 then Some MtPerCpuArray else None)"

record bpf_map_def =
  md_map_type :: bpf_map_type
  md_key_size :: u32
  md_value_size :: u32
  md_max_entries :: u32

datatype bpf_map =
    HashMap bpf_map_def "(u8 list, u8 list) btree"
  | ArrayMap bpf_map_def "u8 list option list"

section \<open>Operations\<close>

definition bpf_map_create :: "bpf_map_type \<Rightarrow> u32 \<Rightarrow> u32 \<Rightarrow> u32 \<Rightarrow> bpf_map option" where
  "bpf_map_create map_type key_size value_size max_entries =
     (if key_size = 0 \<or> value_size = 0 \<or> max_entries = 0 then None
      else
        let def = \<lparr>md_map_type = map_type, md_key_size = key_size, md_value_size = value_size,
                   md_max_entries = max_entries\<rparr> in
        (case map_type of
           MtHash \<Rightarrow> Some (HashMap def bt_empty)
         | MtPerCpuHash \<Rightarrow> Some (HashMap def bt_empty)
         | MtArray \<Rightarrow> Some (ArrayMap def (replicate (unat max_entries) None))
         | MtPerCpuArray \<Rightarrow> Some (ArrayMap def (replicate (unat max_entries) None))))"

fun bpf_map_def_of :: "bpf_map \<Rightarrow> bpf_map_def" where
  "bpf_map_def_of (HashMap def data) = def"
| "bpf_map_def_of (ArrayMap def data) = def"

text \<open>\<^verbatim>\<open>key[0] ..\<close> panics when the key is shorter than the bytes read.\<close>

definition key_to_index :: "u8 list \<Rightarrow> u32 \<Rightarrow> nat option panics" where
  "key_to_index key key_size =
     (if key_size = 1 then
        (if length key < 1 then Panic else Ret (Some (unat (key ! 0))))
      else if key_size = 2 then
        (if length key < 2 then Panic else Ret (Some (unat (of_le_bytes (take 2 key) :: u16))))
      else if key_size = 4 then
        (if length key < 4 then Panic else Ret (Some (unat (of_le_bytes (take 4 key) :: u32))))
      else if key_size = 8 then
        (if length key < 8 then Panic else Ret (Some (unat (of_le_bytes (take 8 key) :: u64))))
      else Ret None)"

definition copy_value :: "u8 list \<Rightarrow> u8 list \<Rightarrow> u8 list" where
  "copy_value v value_out =
     (let copy_len = min (length v) (length value_out) in take copy_len v @ drop copy_len value_out)"

fun bpf_map_lookup :: "bpf_map \<Rightarrow> u8 list \<Rightarrow> u8 list \<Rightarrow> (bool \<times> u8 list) panics" where
  "bpf_map_lookup (HashMap def data) key value_out =
     (if length key \<noteq> unat (md_key_size def) then Ret (False, value_out)
      else case bt_get data key of
        Some v \<Rightarrow> Ret (True, copy_value v value_out)
      | None \<Rightarrow> Ret (False, value_out))"
| "bpf_map_lookup (ArrayMap def data) key value_out =
     (if length key \<noteq> unat (md_key_size def) then Ret (False, value_out)
      else panic_bind (key_to_index key (md_key_size def)) (\<lambda>i.
        case i of
          None \<Rightarrow> Ret (False, value_out)
        | Some idx \<Rightarrow>
            if idx < length data then
              (case data ! idx of
                 Some v \<Rightarrow> Ret (True, copy_value v value_out)
               | None \<Rightarrow> Ret (False, value_out))
            else Ret (False, value_out)))"

fun bpf_map_update :: "bpf_map \<Rightarrow> u8 list \<Rightarrow> u8 list \<Rightarrow> (bool \<times> bpf_map) panics" where
  "bpf_map_update (HashMap def data) key value =
     (if length key \<noteq> unat (md_key_size def) \<or> length value \<noteq> unat (md_value_size def)
      then Ret (False, HashMap def data)
      else if unat (md_max_entries def) \<le> length data \<and> \<not> bt_contains data key
      then Ret (False, HashMap def data)
      else Ret (True, HashMap def (bt_insert key value data)))"
| "bpf_map_update (ArrayMap def data) key value =
     (if length key \<noteq> unat (md_key_size def) \<or> length value \<noteq> unat (md_value_size def)
      then Ret (False, ArrayMap def data)
      else panic_bind (key_to_index key (md_key_size def)) (\<lambda>i.
        case i of
          None \<Rightarrow> Ret (False, ArrayMap def data)
        | Some idx \<Rightarrow>
            if idx < length data then Ret (True, ArrayMap def (data[idx := Some value]))
            else Ret (False, ArrayMap def data)))"

fun bpf_map_delete :: "bpf_map \<Rightarrow> u8 list \<Rightarrow> (bool \<times> bpf_map) panics" where
  "bpf_map_delete (HashMap def data) key =
     (if length key \<noteq> unat (md_key_size def) then Ret (False, HashMap def data)
      else Ret (bt_contains data key, HashMap def (bt_remove key data)))"
| "bpf_map_delete (ArrayMap def data) key =
     panic_bind (key_to_index key (md_key_size def)) (\<lambda>i.
       case i of
         None \<Rightarrow> Ret (False, ArrayMap def data)
       | Some idx \<Rightarrow>
           if idx < length data then Ret (True, ArrayMap def (data[idx := None]))
           else Ret (False, ArrayMap def data))"

section \<open>Invariant and abstract view\<close>

fun bpf_map_wf :: "bpf_map \<Rightarrow> bool" where
  "bpf_map_wf (HashMap def data) \<longleftrightarrow>
     bt_wf data \<and> length data \<le> unat (md_max_entries def)
     \<and> (\<forall>(k, v) \<in> set data. length k = unat (md_key_size def) \<and> length v = unat (md_value_size def))"
| "bpf_map_wf (ArrayMap def data) \<longleftrightarrow>
     length data = unat (md_max_entries def)
     \<and> (\<forall>v. Some v \<in> set data \<longrightarrow> length v = unat (md_value_size def))"

definition array_index :: "bpf_map_def \<Rightarrow> u8 list option list \<Rightarrow> u8 list \<Rightarrow> nat option" where
  "array_index def data key =
     (if length key \<noteq> unat (md_key_size def) then None
      else case key_to_index key (md_key_size def) of
        Ret (Some i) \<Rightarrow> if i < length data then Some i else None
      | _ \<Rightarrow> None)"

fun map_view :: "bpf_map \<Rightarrow> u8 list \<Rightarrow> u8 list option" where
  "map_view (HashMap def data) key = bt_get data key"
| "map_view (ArrayMap def data) key =
     (case array_index def data key of None \<Rightarrow> None | Some i \<Rightarrow> data ! i)"

text \<open>Whether a key of the right length can be stored: room in a hash map, an index in range.\<close>

fun map_admits :: "bpf_map \<Rightarrow> u8 list \<Rightarrow> bool" where
  "map_admits (HashMap def data) key \<longleftrightarrow>
     length key = unat (md_key_size def) \<and> (length data < unat (md_max_entries def) \<or> bt_contains data key)"
| "map_admits (ArrayMap def data) key \<longleftrightarrow> array_index def data key \<noteq> None"

definition key_size_of :: "bpf_map \<Rightarrow> nat" where
  "key_size_of m = unat (md_key_size (bpf_map_def_of m))"

definition value_size_of :: "bpf_map \<Rightarrow> nat" where
  "value_size_of m = unat (md_value_size (bpf_map_def_of m))"

lemma key_to_index_total:
  "length key = unat key_size \<Longrightarrow> key_to_index key key_size \<noteq> Panic"
  by (auto simp: key_to_index_def)

lemma array_index_SomeD: "array_index def data key = Some i \<Longrightarrow> i < length data"
  by (auto simp: array_index_def split: if_splits panics.splits option.splits)

lemma key_to_index_inject:
  assumes "length k = unat ks" "length j = unat ks"
    and "key_to_index k ks = Ret (Some i)" "key_to_index j ks = Ret (Some i)"
  shows "k = j"
proof -
  consider "ks = 1" | "ks = 2" | "ks = 4" | "ks = 8"
    using assms(3) by (auto simp: key_to_index_def split: if_splits)
  then show ?thesis
  proof cases
    case 1
    then have "unat (k ! 0) = unat (j ! 0)" "length k = 1" "length j = 1"
      using assms by (auto simp: key_to_index_def split: if_splits)
    then show ?thesis by (auto simp: length_Suc_conv word_unat_eq_iff)
  next
    case 2
    then have "(of_le_bytes k :: u16) = of_le_bytes j"
      using assms by (auto simp: key_to_index_def word_unat_eq_iff)
    with 2 assms(1,2) show ?thesis by (intro of_le_bytes_inject [where 'a = 16]) simp_all
  next
    case 3
    then have "(of_le_bytes k :: u32) = of_le_bytes j"
      using assms by (auto simp: key_to_index_def word_unat_eq_iff)
    with 3 assms(1,2) show ?thesis by (intro of_le_bytes_inject [where 'a = 32]) simp_all
  next
    case 4
    then have "(of_le_bytes k :: u64) = of_le_bytes j"
      using assms by (auto simp: key_to_index_def word_unat_eq_iff)
    with 4 assms(1,2) show ?thesis by (intro of_le_bytes_inject [where 'a = 64]) simp_all
  qed
qed

lemma array_index_inject:
  "array_index def data k = Some i \<Longrightarrow> array_index def data j = Some i \<Longrightarrow> k = j"
  by (auto simp: array_index_def split: if_splits panics.splits option.splits
      intro: key_to_index_inject)

lemma array_index_update [simp]: "array_index def (data[i := x]) = array_index def data"
  by (rule ext) (auto simp: array_index_def split: panics.split option.split)

lemma map_view_array_update:
  assumes "array_index def data key = Some i"
  shows "map_view (ArrayMap def (data[i := x])) = (map_view (ArrayMap def data))(key := x)"
proof
  fix j
  show "map_view (ArrayMap def (data[i := x])) j = ((map_view (ArrayMap def data))(key := x)) j"
  proof (cases "array_index def data j")
    case None
    with assms show ?thesis by auto
  next
    case (Some i')
    then show ?thesis
      using assms array_index_inject [OF assms, of j] array_index_SomeD [OF assms]
      by (cases "i' = i") auto
  qed
qed

lemma bpf_map_create_ok:
  assumes "bpf_map_create ty ks vs n = Some m"
  shows "bpf_map_wf m" "map_view m = (\<lambda>_. None)" "key_size_of m = unat ks" "value_size_of m = unat vs"
  using assms
  by (auto simp: bpf_map_create_def Let_def key_size_of_def value_size_of_def fun_eq_iff
      split: if_splits bpf_map_type.splits option.splits dest!: array_index_SomeD)

lemma map_view_length:
  "bpf_map_wf m \<Longrightarrow> map_view m key = Some v \<Longrightarrow> length key = key_size_of m \<and> length v = value_size_of m"
proof (cases m)
  case (HashMap def data)
  assume "bpf_map_wf m" "map_view m key = Some v"
  with HashMap show ?thesis
    by (auto simp: bt_get_map_of key_size_of_def value_size_of_def dest!: map_of_SomeD)
next
  case (ArrayMap def data)
  assume a: "bpf_map_wf m" "map_view m key = Some v"
  with ArrayMap obtain i where i: "array_index def data key = Some i" "data ! i = Some v"
    by (auto split: option.splits)
  with array_index_SomeD [OF i(1)] have "Some v \<in> set data" by (metis nth_mem)
  with a i ArrayMap show ?thesis
    by (auto simp: key_size_of_def value_size_of_def array_index_def split: if_splits)
qed

lemma bpf_map_lookup_view:
  assumes "bpf_map_wf m"
  shows "bpf_map_lookup m key out =
    (case map_view m key of Some v \<Rightarrow> Ret (True, copy_value v out) | None \<Rightarrow> Ret (False, out))"
proof (cases m)
  case (HashMap def data)
  with assms map_view_length [OF assms, of key] show ?thesis
    by (auto simp: key_size_of_def split: option.split)
next
  case (ArrayMap def data)
  then show ?thesis
    using key_to_index_total [of key "md_key_size def"]
    by (cases "key_to_index key (md_key_size def)")
       (auto simp: array_index_def split: option.split)
qed

lemma bpf_map_update_view:
  assumes wf: "bpf_map_wf m"
  shows "\<exists>m'. bpf_map_update m key value =
      Ret (map_admits m key \<and> length value = value_size_of m, m')
    \<and> bpf_map_wf m' \<and> bpf_map_def_of m' = bpf_map_def_of m
    \<and> map_view m' = (if map_admits m key \<and> length value = value_size_of m
                      then (map_view m)(key \<mapsto> value) else map_view m)"
proof (cases m)
  case (HashMap def data)
  then have bt: "bt_wf data" using wf by simp
  have len: "length (bt_insert key value data) \<le> unat (md_max_entries def)"
    if "map_admits m key"
    using that wf HashMap bt.size_insert [OF bt, of key "value"] by (auto simp: bt_contains_def)
  have view: "bt_get (bt_insert key value data) = (bt_get data)(key \<mapsto> value)"
    by (auto simp: bt.lookup_insert [OF bt])
  show ?thesis
    using wf HashMap len view bt.wf_insert [OF bt]
    by (auto simp: value_size_of_def set_bt_insert)
next
  case (ArrayMap def data)
  show ?thesis
  proof (cases "array_index def data key")
    case None
    then show ?thesis
      using wf ArrayMap key_to_index_total [of key "md_key_size def"]
      by (cases "key_to_index key (md_key_size def)")
         (auto simp: array_index_def split: option.splits if_splits)
  next
    case (Some i)
    then have k: "length key = unat (md_key_size def)"
      "key_to_index key (md_key_size def) = Ret (Some i)" "i < length data"
      by (auto simp: array_index_def split: if_splits panics.splits option.splits)
    moreover have "Some v \<in> set (data[i := Some value]) \<Longrightarrow> length v = unat (md_value_size def)"
      if "length value = unat (md_value_size def)" for v
      using that wf ArrayMap set_update_subset_insert [of data i "Some value"] by auto
    ultimately show ?thesis
      using wf ArrayMap Some map_view_array_update [OF Some, of "Some value"]
      by (auto simp: value_size_of_def)
  qed
qed

lemma bpf_map_delete_view:
  assumes wf: "bpf_map_wf m" and len: "length key = key_size_of m"
  shows "\<exists>r m'. bpf_map_delete m key = Ret (r, m') \<and> bpf_map_wf m' \<and> bpf_map_def_of m' = bpf_map_def_of m
    \<and> map_view m' = (map_view m)(key := None) \<and> (map_view m key \<noteq> None \<longrightarrow> r)"
proof (cases m)
  case (HashMap def data)
  then have bt: "bt_wf data" using wf by simp
  have "length (bt_remove key data) \<le> length data"
    using bt.size_remove [OF bt, of key] by simp
  moreover have "bt_get (bt_remove key data) = (bt_get data)(key := None)"
    by (auto simp: bt.lookup_remove [OF bt])
  ultimately show ?thesis
    using wf len HashMap bt.wf_remove [OF bt]
    by (auto simp: key_size_of_def bt_contains_def set_bt_remove)
next
  case (ArrayMap def data)
  then have klen: "length key = unat (md_key_size def)" using len by (simp add: key_size_of_def)
  show ?thesis
  proof (cases "array_index def data key")
    case None
    then show ?thesis
      using wf ArrayMap klen key_to_index_total [OF klen]
      by (cases "key_to_index key (md_key_size def)")
         (auto simp: array_index_def fun_upd_idem_iff split: option.splits if_splits)
  next
    case (Some i)
    then have k: "key_to_index key (md_key_size def) = Ret (Some i)" "i < length data"
      by (auto simp: array_index_def split: if_splits panics.splits option.splits)
    moreover have "Some v \<in> set (data[i := None]) \<Longrightarrow> length v = unat (md_value_size def)" for v
      using wf ArrayMap set_update_subset_insert [of data i "None"] by auto
    ultimately show ?thesis
      using wf ArrayMap Some map_view_array_update [OF Some, of None] by auto
  qed
qed

end
