(* ===== verification/Ebpf.thy ===== *)
theory Ebpf
  imports Ebpf_Map
begin

text \<open>
  The eBPF instruction set and interpreter of \<^verbatim>\<open>src/src/kernel/framework/debug/ebpf.rs\<close>
  (\<^verbatim>\<open>BpfInsn\<close>, \<^verbatim>\<open>BpfProg\<close>, \<^verbatim>\<open>BpfHelper\<close>, \<^verbatim>\<open>BpfInterpreter\<close>).  Registers are a list of 64-bit words;
  an index outside it is a panic.  Raw pointers address a byte memory \<open>u64 \<Rightarrow> u8\<close>, as
  the interpreter dereferences any non-null address.  The time-stamp counter and the cpu
  number are hardware: the record \<open>bpf_env\<close> gives the values they return; the calls to
  the tracer are collected in \<open>vm_trace\<close>.  The loop of \<^verbatim>\<open>run\<close> takes fuel: \<open>None\<close> is out of fuel.
\<close>

section \<open>Constants\<close>

definition BPF_MAX_INSNS :: u32 where "BPF_MAX_INSNS = 4096"
definition BPF_STACK_SIZE :: nat where "BPF_STACK_SIZE = 512"
definition BPF_REG_NUM :: nat where "BPF_REG_NUM = 11"

abbreviation (input) OP_LD :: u8 where "OP_LD \<equiv> 0"
abbreviation (input) OP_LDX :: u8 where "OP_LDX \<equiv> 1"
abbreviation (input) OP_ST :: u8 where "OP_ST \<equiv> 2"
abbreviation (input) OP_STX :: u8 where "OP_STX \<equiv> 3"
abbreviation (input) OP_ALU :: u8 where "OP_ALU \<equiv> 4"
abbreviation (input) OP_JMP :: u8 where "OP_JMP \<equiv> 5"
abbreviation (input) OP_JMP32 :: u8 where "OP_JMP32 \<equiv> 6"
abbreviation (input) OP_ALU64 :: u8 where "OP_ALU64 \<equiv> 7"

abbreviation (input) SZ_W :: u8 where "SZ_W \<equiv> 0x00"
abbreviation (input) SZ_H :: u8 where "SZ_H \<equiv> 0x08"
abbreviation (input) SZ_B :: u8 where "SZ_B \<equiv> 0x10"
abbreviation (input) SZ_DW :: u8 where "SZ_DW \<equiv> 0x18"

abbreviation (input) MODE_IMM :: u8 where "MODE_IMM \<equiv> 0x00"
abbreviation (input) MODE_ABS :: u8 where "MODE_ABS \<equiv> 0x20"
abbreviation (input) MODE_IND :: u8 where "MODE_IND \<equiv> 0x40"
abbreviation (input) MODE_MEM :: u8 where "MODE_MEM \<equiv> 0x60"

abbreviation (input) ALU_ADD :: u8 where "ALU_ADD \<equiv> 0x00"
abbreviation (input) ALU_SUB :: u8 where "ALU_SUB \<equiv> 0x10"
abbreviation (input) ALU_MUL :: u8 where "ALU_MUL \<equiv> 0x20"
abbreviation (input) ALU_DIV :: u8 where "ALU_DIV \<equiv> 0x30"
abbreviation (input) ALU_OR :: u8 where "ALU_OR \<equiv> 0x40"
abbreviation (input) ALU_AND :: u8 where "ALU_AND \<equiv> 0x50"
abbreviation (input) ALU_LSH :: u8 where "ALU_LSH \<equiv> 0x60"
abbreviation (input) ALU_RSH :: u8 where "ALU_RSH \<equiv> 0x70"
abbreviation (input) ALU_NEG :: u8 where "ALU_NEG \<equiv> 0x80"
abbreviation (input) ALU_MOD :: u8 where "ALU_MOD \<equiv> 0x90"
abbreviation (input) ALU_XOR :: u8 where "ALU_XOR \<equiv> 0xa0"
abbreviation (input) ALU_MOV :: u8 where "ALU_MOV \<equiv> 0xb0"
abbreviation (input) ALU_ARSH :: u8 where "ALU_ARSH \<equiv> 0xc0"
abbreviation (input) ALU_END :: u8 where "ALU_END \<equiv> 0xd0"

abbreviation (input) JMP_JA :: u8 where "JMP_JA \<equiv> 0x00"
abbreviation (input) JMP_JEQ :: u8 where "JMP_JEQ \<equiv> 0x10"
abbreviation (input) JMP_JGT :: u8 where "JMP_JGT \<equiv> 0x20"
abbreviation (input) JMP_JGE :: u8 where "JMP_JGE \<equiv> 0x30"
abbreviation (input) JMP_JSET :: u8 where "JMP_JSET \<equiv> 0x40"
abbreviation (input) JMP_JNE :: u8 where "JMP_JNE \<equiv> 0x50"
abbreviation (input) JMP_JSGT :: u8 where "JMP_JSGT \<equiv> 0x60"
abbreviation (input) JMP_JSGE :: u8 where "JMP_JSGE \<equiv> 0x70"
abbreviation (input) JMP_CALL :: u8 where "JMP_CALL \<equiv> 0x80"
abbreviation (input) JMP_EXIT :: u8 where "JMP_EXIT \<equiv> 0x90"
abbreviation (input) JMP_JLT :: u8 where "JMP_JLT \<equiv> 0xa0"
abbreviation (input) JMP_JLE :: u8 where "JMP_JLE \<equiv> 0xb0"
abbreviation (input) JMP_JSLT :: u8 where "JMP_JSLT \<equiv> 0xc0"
abbreviation (input) JMP_JSLE :: u8 where "JMP_JSLE \<equiv> 0xd0"

abbreviation (input) SRC_X :: u8 where "SRC_X \<equiv> 0x08"

section \<open>Instructions and programs\<close>

record bpf_insn =
  in_op :: u8
  in_dst_reg :: u8
  in_off :: i16
  in_imm :: i32

definition bpf_insn_new :: "u8 \<Rightarrow> u8 \<Rightarrow> u8 \<Rightarrow> i16 \<Rightarrow> i32 \<Rightarrow> bpf_insn" where
  "bpf_insn_new op dst src off imm =
     \<lparr>in_op = op, in_dst_reg = (dst AND 0xf) OR push_bit 4 (src AND 0xf), in_off = off, in_imm = imm\<rparr>"

definition insn_dst :: "bpf_insn \<Rightarrow> u8" where
  "insn_dst i = in_dst_reg i AND 0xf"

definition insn_src :: "bpf_insn \<Rightarrow> u8" where
  "insn_src i = drop_bit 4 (in_dst_reg i) AND 0xf"

definition insn_class :: "bpf_insn \<Rightarrow> u8" where
  "insn_class i = in_op i AND 0x07"

datatype bpf_prog_type = SocketFilter | Kprobe | Tracepoint

definition bpf_prog_type_from_u32 :: "u32 \<Rightarrow> bpf_prog_type option" where
  "bpf_prog_type_from_u32 v =
     (if v = 1 then Some SocketFilter else if v = 2 then Some Kprobe
      else if v = 3 then Some Tracepoint else None)"

record bpf_prog =
  bp_prog_type :: bpf_prog_type
  bp_insns :: "bpf_insn list"
  bp_insn_cnt :: u32
  bp_name :: "u8 list"
  bp_verified :: bool
  bp_refcnt :: u32

definition bpf_prog_new :: "bpf_prog_type \<Rightarrow> bpf_insn list \<Rightarrow> bpf_prog" where
  "bpf_prog_new prog_type insns =
     \<lparr>bp_prog_type = prog_type, bp_insns = insns, bp_insn_cnt = of_nat (length insns),
      bp_name = replicate 16 0, bp_verified = False, bp_refcnt = 1\<rparr>"

section \<open>Machine state\<close>

type_synonym memory = "u64 \<Rightarrow> u8"

definition read_mem :: "memory \<Rightarrow> u64 \<Rightarrow> nat \<Rightarrow> u8 list" where
  "read_mem mem addr n = map (\<lambda>i. mem (addr + of_nat i)) [0 ..< n]"

definition write_mem :: "memory \<Rightarrow> u64 \<Rightarrow> u8 list \<Rightarrow> memory" where
  "write_mem mem addr bs a =
     (let i = a - addr in if i < of_nat (length bs) then bs ! unat i else mem a)"

record bpf_env =
  env_tsc :: "nat \<Rightarrow> u64"
  env_cpu_id :: u32

record bpf_vm =
  vm_regs :: "u64 list"
  vm_mem :: memory
  vm_maps :: "(u32, bpf_map) btree"
  vm_trace :: "u64 list"
  vm_ticks :: nat

section \<open>Helpers\<close>

definition helper_is_valid :: "u32 \<Rightarrow> bool" where
  "helper_is_valid hid \<longleftrightarrow> hid = 6 \<or> hid = 5 \<or> hid = 8 \<or> hid = 1 \<or> hid = 2 \<or> hid = 3"

definition helper_map_lookup :: "u64 \<Rightarrow> u64 \<Rightarrow> bpf_vm \<Rightarrow> (u64 \<times> bpf_vm) panics" where
  "helper_map_lookup r1 r2 vm =
     (case bt_get (vm_maps vm) (ucast r1) of
        None \<Rightarrow> Ret (0, vm)
      | Some mp \<Rightarrow>
          (let key = read_mem (vm_mem vm) r2 (unat (md_key_size (bpf_map_def_of mp)));
               val = replicate (unat (md_value_size (bpf_map_def_of mp))) 0 in
           panic_bind (bpf_map_lookup mp key val) (\<lambda>(found, _).
             Ret (if found then 1 else 0, vm))))"

definition helper_map_update :: "u64 \<Rightarrow> u64 \<Rightarrow> u64 \<Rightarrow> bpf_vm \<Rightarrow> (u64 \<times> bpf_vm) panics" where
  "helper_map_update r1 r2 r3 vm =
     (case bt_get (vm_maps vm) (ucast r1) of
        None \<Rightarrow> Ret (- 1, vm)
      | Some mp \<Rightarrow>
          (let key = read_mem (vm_mem vm) r2 (unat (md_key_size (bpf_map_def_of mp)));
               val = read_mem (vm_mem vm) r3 (unat (md_value_size (bpf_map_def_of mp))) in
           panic_bind (bpf_map_update mp key val) (\<lambda>(done, mp').
             Ret (if done then 0 else - 1, vm\<lparr>vm_maps := bt_insert (ucast r1) mp' (vm_maps vm)\<rparr>))))"

definition helper_map_delete :: "u64 \<Rightarrow> u64 \<Rightarrow> bpf_vm \<Rightarrow> (u64 \<times> bpf_vm) panics" where
  "helper_map_delete r1 r2 vm =
     (case bt_get (vm_maps vm) (ucast r1) of
        None \<Rightarrow> Ret (- 1, vm)
      | Some mp \<Rightarrow>
          (let key = read_mem (vm_mem vm) r2 (unat (md_key_size (bpf_map_def_of mp))) in
           panic_bind (bpf_map_delete mp key) (\<lambda>(done, mp').
             Ret (if done then 0 else - 1, vm\<lparr>vm_maps := bt_insert (ucast r1) mp' (vm_maps vm)\<rparr>))))"

definition helper_execute ::
    "bpf_env \<Rightarrow> u32 \<Rightarrow> u64 \<Rightarrow> u64 \<Rightarrow> u64 \<Rightarrow> bpf_vm \<Rightarrow> (u64 \<times> bpf_vm) panics" where
  "helper_execute env hid r1 r2 r3 vm =
     (if hid = 5 then Ret (env_tsc env (vm_ticks vm), vm\<lparr>vm_ticks := vm_ticks vm + 1\<rparr>)
      else if hid = 8 then Ret (ucast (env_cpu_id env), vm)
      else if hid = 6 then Ret (r2, vm\<lparr>vm_trace := vm_trace vm @ [r3]\<rparr>)
      else if hid = 1 then helper_map_lookup r1 r2 vm
      else if hid = 2 then helper_map_update r1 r2 r3 vm
      else if hid = 3 then helper_map_delete r1 r2 vm
      else Ret (0, vm))"

section \<open>Interpreter\<close>

definition shift_amount :: "nat \<Rightarrow> u64 \<Rightarrow> nat" where
  "shift_amount width v = unat (ucast v :: u32) mod width"

definition alu_result :: "bpf_insn \<Rightarrow> u64 \<Rightarrow> u64 \<Rightarrow> u64" where
  "alu_result insn d s =
     (let op_low = in_op insn AND 0xf0; is_64 = (insn_class insn = OP_ALU64) in
      if op_low = ALU_ADD then d + s
      else if op_low = ALU_SUB then d - s
      else if op_low = ALU_MUL then d * s
      else if op_low = ALU_DIV then (if s = 0 then 0 else d div s)
      else if op_low = ALU_OR then d OR s
      else if op_low = ALU_AND then d AND s
      else if op_low = ALU_LSH then push_bit (shift_amount 64 s) d
      else if op_low = ALU_RSH then drop_bit (shift_amount 64 s) d
      else if op_low = ALU_NEG then NOT d + 1
      else if op_low = ALU_MOD then (if s = 0 then 0 else d mod s)
      else if op_low = ALU_XOR then d XOR s
      else if op_low = ALU_MOV then s
      else if op_low = ALU_ARSH then
        (if is_64 then signed_drop_bit (shift_amount 64 s) d
         else scast (signed_drop_bit (shift_amount 32 s) (ucast d :: i32)))
      else if op_low = ALU_END then
        (if in_imm insn = 16 then ucast (ucast d :: u16)
         else if in_imm insn = 32 then ucast (ucast d :: u32)
         else if in_imm insn = 64 then d
         else d)
      else d)"

definition exec_alu :: "bpf_insn \<Rightarrow> u64 list \<Rightarrow> u64 list panics" where
  "exec_alu insn regs =
     (let dst = unat (insn_dst insn);
          src = unat (insn_src insn);
          is_64 = (insn_class insn = OP_ALU64);
          use_src = (in_op insn AND SRC_X \<noteq> 0) in
      if length regs \<le> dst \<or> use_src \<and> length regs \<le> src then Panic
      else
        let src_val = (if use_src then regs ! src else scast (in_imm insn));
            result = alu_result insn (regs ! dst) src_val in
        Ret (regs[dst := (if is_64 then result else ucast (ucast result :: u32))]))"

definition ldx_load :: "nat \<Rightarrow> bpf_insn \<Rightarrow> memory \<Rightarrow> u64 list \<Rightarrow> u64 list panics" where
  "ldx_load n insn mem regs =
     (let dst = unat (insn_dst insn); src = unat (insn_src insn) in
      if length regs \<le> src then Panic
      else
        let addr = regs ! src + scast (in_off insn) in
        if addr = 0 then Ret regs
        else if length regs \<le> dst then Panic
        else Ret (regs[dst := of_le_bytes (read_mem mem addr n)]))"

definition exec_ld :: "bpf_insn \<Rightarrow> memory \<Rightarrow> u64 list \<Rightarrow> u64 list panics" where
  "exec_ld insn mem regs =
     (let dst = unat (insn_dst insn); op = in_op insn in
      if op = (OP_LD OR MODE_IMM OR SZ_DW) then
        (if length regs \<le> dst then Panic
         else Ret (regs[dst := ucast (in_imm insn) OR push_bit 32 (ucast (scast (in_off insn) :: u32))]))
      else if op = (OP_LD OR MODE_ABS OR SZ_W) then
        (if length regs \<le> dst then Panic else Ret (regs[dst := 0]))
      else if op = (OP_LD OR MODE_IND OR SZ_W) then
        (if length regs \<le> dst then Panic else Ret (regs[dst := 0]))
      else if op = (OP_LDX OR MODE_MEM OR SZ_W) then ldx_load 4 insn mem regs
      else if op = (OP_LDX OR MODE_MEM OR SZ_H) then ldx_load 2 insn mem regs
      else if op = (OP_LDX OR MODE_MEM OR SZ_B) then ldx_load 1 insn mem regs
      else if op = (OP_LDX OR MODE_MEM OR SZ_DW) then ldx_load 8 insn mem regs
      else Ret regs)"

definition store_size :: "bpf_insn \<Rightarrow> nat" where
  "store_size insn =
     (let sz = in_op insn AND 0x18 in
      if sz = SZ_W then 4 else if sz = SZ_H then 2 else if sz = SZ_B then 1
      else if sz = SZ_DW then 8 else 0)"

definition exec_st :: "bpf_insn \<Rightarrow> u64 list \<Rightarrow> memory \<Rightarrow> memory panics" where
  "exec_st insn regs mem =
     (let dst = unat (insn_dst insn) in
      if length regs \<le> dst then Panic
      else
        let addr = regs ! dst + scast (in_off insn) in
        if insn_class insn = OP_ST then
          (if addr = 0 then Ret mem
           else Ret (write_mem mem addr (to_le_bytes (store_size insn) (scast (in_imm insn) :: u64))))
        else
          (if addr = 0 then Ret mem
           else let src = unat (insn_src insn) in
             if length regs \<le> src then Panic
             else Ret (write_mem mem addr (to_le_bytes (store_size insn) (regs ! src)))))"

definition eval_cond64 :: "u8 \<Rightarrow> u64 \<Rightarrow> u64 \<Rightarrow> bool" where
  "eval_cond64 op dst src \<longleftrightarrow>
     (if op = JMP_JEQ then dst = src
      else if op = JMP_JGT then dst > src
      else if op = JMP_JGE then dst \<ge> src
      else if op = JMP_JSET then dst AND src \<noteq> 0
      else if op = JMP_JNE then dst \<noteq> src
      else if op = JMP_JSGT then sint dst > sint src
      else if op = JMP_JSGE then sint dst \<ge> sint src
      else if op = JMP_JLT then dst < src
      else if op = JMP_JLE then dst \<le> src
      else if op = JMP_JSLT then sint dst < sint src
      else if op = JMP_JSLE then sint dst \<le> sint src
      else False)"

definition eval_cond32 :: "u8 \<Rightarrow> u32 \<Rightarrow> u32 \<Rightarrow> bool" where
  "eval_cond32 op dst src \<longleftrightarrow>
     (if op = JMP_JEQ then dst = src
      else if op = JMP_JGT then dst > src
      else if op = JMP_JGE then dst \<ge> src
      else if op = JMP_JSET then dst AND src \<noteq> 0
      else if op = JMP_JNE then dst \<noteq> src
      else if op = JMP_JSGT then sint dst > sint src
      else if op = JMP_JSGE then sint dst \<ge> sint src
      else if op = JMP_JLT then dst < src
      else if op = JMP_JLE then dst \<le> src
      else if op = JMP_JSLT then sint dst < sint src
      else if op = JMP_JSLE then sint dst \<le> sint src
      else False)"

definition jump_target :: "u64 \<Rightarrow> bpf_insn \<Rightarrow> u64" where
  "jump_target pc insn = pc + 1 + scast (in_off insn)"

definition exec_jmp ::
    "bpf_env \<Rightarrow> bpf_insn \<Rightarrow> u64 \<Rightarrow> bpf_vm \<Rightarrow> (u64 option \<times> bpf_vm) panics" where
  "exec_jmp env insn pc vm =
     (let dst = unat (insn_dst insn);
          src = unat (insn_src insn);
          op_low = in_op insn AND 0xf0;
          is_32 = (insn_class insn = OP_JMP32);
          regs = vm_regs vm in
      if op_low = JMP_JA then Ret (Some (jump_target pc insn), vm)
      else if op_low = JMP_EXIT then Ret (None, vm)
      else if op_low = JMP_CALL then
        panic_bind (helper_execute env (in_imm insn) (regs ! 1) (regs ! 2) (regs ! 3) vm) (\<lambda>(r0, vm').
          Ret (Some (pc + 1), vm'\<lparr>vm_regs := (vm_regs vm')[0 := r0]\<rparr>))
      else if length regs \<le> dst \<or> in_op insn AND SRC_X \<noteq> 0 \<and> length regs \<le> src then Panic
      else
        let dst_val = regs ! dst;
            src_val = (if in_op insn AND SRC_X \<noteq> 0 then regs ! src else scast (in_imm insn));
            taken = (if is_32 then eval_cond32 op_low (ucast dst_val) (ucast src_val)
                     else eval_cond64 op_low dst_val src_val) in
        Ret (Some (if taken then jump_target pc insn else pc + 1), vm))"

text \<open>One iteration of the loop of \<^verbatim>\<open>run\<close>: the next pc, or \<open>None\<close> when the loop is left.\<close>

definition bpf_step ::
    "bpf_env \<Rightarrow> bpf_prog \<Rightarrow> u64 \<Rightarrow> bpf_vm \<Rightarrow> (u64 option \<times> bpf_vm) panics" where
  "bpf_step env prog pc vm =
     (if length (bp_insns prog) \<le> unat pc then Panic
      else
        let insn = bp_insns prog ! unat pc; class = insn_class insn in
        if class = OP_ALU \<or> class = OP_ALU64 then
          panic_bind (exec_alu insn (vm_regs vm)) (\<lambda>regs. Ret (Some (pc + 1), vm\<lparr>vm_regs := regs\<rparr>))
        else if class = OP_LD \<or> class = OP_LDX then
          panic_bind (exec_ld insn (vm_mem vm) (vm_regs vm)) (\<lambda>regs.
            Ret (Some (pc + 1), vm\<lparr>vm_regs := regs\<rparr>))
        else if class = OP_ST \<or> class = OP_STX then
          panic_bind (exec_st insn (vm_regs vm) (vm_mem vm)) (\<lambda>mem.
            Ret (Some (pc + 1), vm\<lparr>vm_mem := mem\<rparr>))
        else if class = OP_JMP \<or> class = OP_JMP32 then exec_jmp env insn pc vm
        else Ret (None, vm))"

primrec bpf_loop ::
    "nat \<Rightarrow> bpf_env \<Rightarrow> bpf_prog \<Rightarrow> u64 \<Rightarrow> bpf_vm \<Rightarrow> (u64 \<times> bpf_vm) panics option" where
  "bpf_loop 0 env prog pc vm =
     (if pc < ucast (bp_insn_cnt prog) then None else Some (Ret (vm_regs vm ! 0, vm)))"
| "bpf_loop (Suc fuel) env prog pc vm =
     (if pc < ucast (bp_insn_cnt prog) then
        (case bpf_step env prog pc vm of
           Panic \<Rightarrow> Some Panic
         | Ret (Some pc', vm') \<Rightarrow> bpf_loop fuel env prog pc' vm'
         | Ret (None, vm') \<Rightarrow> Some (Ret (vm_regs vm' ! 0, vm')))
      else Some (Ret (vm_regs vm ! 0, vm)))"

definition bpf_vm_start :: "u64 \<Rightarrow> u64 \<Rightarrow> bpf_vm \<Rightarrow> bpf_vm" where
  "bpf_vm_start ctx_ptr stack_ptr vm =
     vm\<lparr>vm_regs := (replicate BPF_REG_NUM 0)[1 := ctx_ptr, 10 := stack_ptr + of_nat BPF_STACK_SIZE],
        vm_mem := write_mem (vm_mem vm) stack_ptr (replicate BPF_STACK_SIZE 0)\<rparr>"

definition bpf_run ::
    "nat \<Rightarrow> bpf_env \<Rightarrow> bpf_prog \<Rightarrow> u64 \<Rightarrow> u64 \<Rightarrow> bpf_vm \<Rightarrow> (u64 \<times> bpf_vm) panics option" where
  "bpf_run fuel env prog ctx_ptr stack_ptr vm =
     bpf_loop fuel env prog 0 (bpf_vm_start ctx_ptr stack_ptr vm)"

end
