(* ===== verification/Ebpf_Verifier.thy ===== *)
theory Ebpf_Verifier
  imports Ebpf
begin

text \<open>
  The standard eBPF verifier of \<^verbatim>\<open>src/src/kernel/services/debug/ebpf_verifier.rs\<close>.  \<open>verify\<close> is
  \<^verbatim>\<open>StandardBpfVerifier::verify\<close>, one definition per stage of its loop body in the order of
  the source; an error message is a constructor of \<open>verify_error\<close> carrying the numbers the
  message prints.  The write-only array \<^verbatim>\<open>visited\<close> has no effect and is left out.  The lemmas
  show what an accepted program cannot do in the interpreter of the theory \<^verbatim>\<open>Ebpf\<close>.
\<close>

section \<open>Register states\<close>

datatype reg_type = NotInit | Scalar | StackPtr | CtxPtr

record reg_state =
  rs_type :: reg_type
  rs_range :: "(u64 \<times> u64) option"

definition reg_new :: reg_state where
  "reg_new = \<lparr>rs_type = NotInit, rs_range = None\<rparr>"

definition reg_scalar :: reg_state where
  "reg_scalar = \<lparr>rs_type = Scalar, rs_range = None\<rparr>"

definition reg_const_value :: "u64 \<Rightarrow> reg_state" where
  "reg_const_value v = \<lparr>rs_type = Scalar, rs_range = Some (v, v)\<rparr>"

definition reg_with_range :: "(u64 \<times> u64) option \<Rightarrow> reg_state" where
  "reg_with_range rng = \<lparr>rs_type = Scalar, rs_range = rng\<rparr>"

datatype verify_error =
    EmptyProgram | ProgramTooLarge | MustEndWithExit
  | InvalidRegister nat nat nat | WriteToR10 nat
  | JumpOutOfBounds nat int | TooManyBackwardJumps nat
  | UnknownHelper u32 nat | HelperUninitR1 nat | HelperRequires u32 nat nat
  | UseOfUninit nat nat | AluOverflow nat | LdOffset nat i16 | StackLoadOffset nat i16
  | LdxNonPointer nat nat reg_type | StoreToUninit nat nat | StoreToInvalid reg_type nat

definition helper_min_args :: "u32 \<Rightarrow> nat" where
  "helper_min_args hid =
     (if hid = 2 then 3 else if hid = 1 \<or> hid = 3 then 2 else if hid = 6 then 1 else 0)"

definition is_valid_helper :: "u32 \<Rightarrow> bool" where
  "is_valid_helper hid \<longleftrightarrow> hid = 6 \<or> hid = 5 \<or> hid = 8 \<or> hid = 1 \<or> hid = 2 \<or> hid = 3"

text \<open>\<^verbatim>\<open>Err(())\<close> is \<open>None\<close>.\<close>

definition alu_checked_range ::
    "u8 \<Rightarrow> (u64 \<times> u64) option \<Rightarrow> (u64 \<times> u64) option \<Rightarrow> bool \<Rightarrow> i32 \<Rightarrow> (u64 \<times> u64) option option" where
  "alu_checked_range op_low dst_range src_range src_is_reg imm =
     (case dst_range of
        None \<Rightarrow> Some None
      | Some (a0, a1) \<Rightarrow>
          if a0 \<noteq> a1 then Some None
          else
            (case (if src_is_reg then
                     (case src_range of
                        None \<Rightarrow> None
                      | Some (b0, b1) \<Rightarrow> if b0 \<noteq> b1 then None else Some b0)
                   else Some (scast imm)) of
               None \<Rightarrow> Some None
             | Some b \<Rightarrow>
                 if op_low = ALU_ADD then map_option (\<lambda>v. Some (v, v)) (checked_add a0 b)
                 else if op_low = ALU_SUB then map_option (\<lambda>v. Some (v, v)) (checked_sub a0 b)
                 else if op_low = ALU_MUL then map_option (\<lambda>v. Some (v, v)) (checked_mul a0 b)
                 else Some None))"

definition VERIFIER_MAX_PATH_DEPTH :: u32 where
  "VERIFIER_MAX_PATH_DEPTH = 8"

section \<open>The loop body\<close>

record verifier_state =
  vs_regs :: "reg_state list"
  vs_path_depth :: u32

definition reg_type_of :: "verifier_state \<Rightarrow> nat \<Rightarrow> reg_type" where
  "reg_type_of vs r = rs_type (vs_regs vs ! r)"

definition set_reg :: "nat \<Rightarrow> reg_state \<Rightarrow> verifier_state \<Rightarrow> verifier_state" where
  "set_reg r st vs = vs\<lparr>vs_regs := (vs_regs vs)[r := st]\<rparr>"

definition check_registers :: "nat \<Rightarrow> bpf_insn \<Rightarrow> verifier_state \<Rightarrow> verify_error + verifier_state" where
  "check_registers pc insn vs =
     (let dst = unat (insn_dst insn); src = unat (insn_src insn) in
      if BPF_REG_NUM \<le> dst \<or> BPF_REG_NUM \<le> src then Inl (InvalidRegister pc dst src)
      else if dst = 10 \<and> (insn_class insn = OP_ST \<or> insn_class insn = OP_STX) then Inl (WriteToR10 pc)
      else Inr vs)"

definition check_target ::
    "nat \<Rightarrow> u32 \<Rightarrow> bpf_insn \<Rightarrow> verifier_state \<Rightarrow> verify_error + verifier_state" where
  "check_target pc insn_cnt insn vs =
     (let target = int pc + 1 + sint (in_off insn) in
      if target < 0 \<or> int (unat insn_cnt) \<le> target then Inl (JumpOutOfBounds pc target)
      else if target < int pc then
        (let depth = vs_path_depth vs + 1 in
         if depth > VERIFIER_MAX_PATH_DEPTH then Inl (TooManyBackwardJumps pc)
         else Inr (vs\<lparr>vs_path_depth := depth\<rparr>))
      else Inr vs)"

definition check_call :: "nat \<Rightarrow> bpf_insn \<Rightarrow> verifier_state \<Rightarrow> verify_error + verifier_state" where
  "check_call pc insn vs =
     (let hid = in_imm insn in
      if \<not> is_valid_helper hid then Inl (UnknownHelper hid pc)
      else if reg_type_of vs 1 = NotInit then Inl (HelperUninitR1 pc)
      else
        (case List.find (\<lambda>r. reg_type_of vs r = NotInit) [1 ..< helper_min_args hid + 1] of
           Some r \<Rightarrow> Inl (HelperRequires hid pc r)
         | None \<Rightarrow> Inr (set_reg 1 reg_scalar vs)))"

definition check_cond_operands ::
    "nat \<Rightarrow> bpf_insn \<Rightarrow> verifier_state \<Rightarrow> verify_error + verifier_state" where
  "check_cond_operands pc insn vs =
     (let dst = unat (insn_dst insn); src = unat (insn_src insn) in
      if in_op insn AND SRC_X \<noteq> 0 \<and> reg_type_of vs src = NotInit then Inl (UseOfUninit src pc)
      else if reg_type_of vs dst = NotInit then Inl (UseOfUninit dst pc)
      else Inr vs)"

definition check_jmp ::
    "nat \<Rightarrow> u32 \<Rightarrow> bpf_insn \<Rightarrow> verifier_state \<Rightarrow> verify_error + verifier_state" where
  "check_jmp pc insn_cnt insn vs =
     (let op_low = in_op insn AND 0xf0 in
      if op_low = JMP_JA then check_target pc insn_cnt insn vs
      else if op_low = JMP_CALL then check_call pc insn vs
      else if op_low = JMP_EXIT then Inr vs
      else
        (case check_target pc insn_cnt insn vs of
           Inl e \<Rightarrow> Inl e
         | Inr vs' \<Rightarrow> check_cond_operands pc insn vs'))"

definition check_alu :: "nat \<Rightarrow> bpf_insn \<Rightarrow> verifier_state \<Rightarrow> verify_error + verifier_state" where
  "check_alu pc insn vs =
     (let dst = unat (insn_dst insn); src = unat (insn_src insn);
          op_low = in_op insn AND 0xf0; src_is_reg = (in_op insn AND SRC_X \<noteq> 0) in
      if reg_type_of vs dst = NotInit then Inl (UseOfUninit dst pc)
      else if op_low = ALU_MOV then
        (if src_is_reg then
           (if reg_type_of vs src = NotInit then Inl (UseOfUninit src pc)
            else Inr (set_reg dst (vs_regs vs ! src) vs))
         else Inr (set_reg dst (reg_const_value (scast (in_imm insn))) vs))
      else if insn_class insn = OP_ALU64 then
        (if src_is_reg \<and> reg_type_of vs src = NotInit then Inl (UseOfUninit src pc)
         else
           (case alu_checked_range op_low (rs_range (vs_regs vs ! dst)) (rs_range (vs_regs vs ! src))
                   src_is_reg (in_imm insn) of
              Some rng \<Rightarrow> Inr (set_reg dst (reg_with_range rng) vs)
            | None \<Rightarrow> Inl (AluOverflow pc)))
      else Inr (set_reg dst reg_scalar vs))"

definition check_ld :: "nat \<Rightarrow> bpf_insn \<Rightarrow> verifier_state \<Rightarrow> verify_error + verifier_state" where
  "check_ld pc insn vs =
     (if sint (in_off insn) < - 4096 \<or> 4096 < sint (in_off insn) then Inl (LdOffset pc (in_off insn))
      else Inr (set_reg (unat (insn_dst insn)) reg_scalar vs))"

definition check_ldx :: "nat \<Rightarrow> bpf_insn \<Rightarrow> verifier_state \<Rightarrow> verify_error + verifier_state" where
  "check_ldx pc insn vs =
     (let dst = unat (insn_dst insn); src = unat (insn_src insn) in
      case reg_type_of vs src of
        NotInit \<Rightarrow> Inl (UseOfUninit src pc)
      | StackPtr \<Rightarrow>
          if sint (in_off insn) < - int BPF_STACK_SIZE \<or> 0 < sint (in_off insn)
          then Inl (StackLoadOffset pc (in_off insn))
          else Inr (set_reg dst reg_scalar vs)
      | CtxPtr \<Rightarrow> Inr (set_reg dst reg_scalar vs)
      | Scalar \<Rightarrow> Inl (LdxNonPointer src pc Scalar))"

definition check_st :: "nat \<Rightarrow> bpf_insn \<Rightarrow> verifier_state \<Rightarrow> verify_error + verifier_state" where
  "check_st pc insn vs =
     (let dst = unat (insn_dst insn); src = unat (insn_src insn) in
      if reg_type_of vs dst = NotInit then Inl (StoreToUninit dst pc)
      else if reg_type_of vs dst = Scalar then Inl (StoreToInvalid Scalar pc)
      else if insn_class insn = OP_STX \<and> reg_type_of vs src = NotInit then Inl (UseOfUninit src pc)
      else Inr vs)"

definition check_insn ::
    "nat \<Rightarrow> u32 \<Rightarrow> bpf_insn \<Rightarrow> verifier_state \<Rightarrow> verify_error + verifier_state" where
  "check_insn pc insn_cnt insn vs =
     (case check_registers pc insn vs of
        Inl e \<Rightarrow> Inl e
      | Inr vs \<Rightarrow>
          (let class = insn_class insn in
           if class = OP_JMP \<or> class = OP_JMP32 then check_jmp pc insn_cnt insn vs
           else if class = OP_ALU \<or> class = OP_ALU64 then check_alu pc insn vs
           else if class = OP_LD then check_ld pc insn vs
           else if class = OP_LDX then check_ldx pc insn vs
           else if class = OP_ST \<or> class = OP_STX then check_st pc insn vs
           else Inr vs))"

fun verify_loop ::
    "nat \<Rightarrow> u32 \<Rightarrow> bpf_insn list \<Rightarrow> verifier_state \<Rightarrow> verify_error + verifier_state" where
  "verify_loop pc insn_cnt [] vs = Inr vs"
| "verify_loop pc insn_cnt (insn # insns) vs =
     (if unat BPF_MAX_INSNS \<le> pc then Inr vs
      else
        (case check_insn pc insn_cnt insn vs of
           Inl e \<Rightarrow> Inl e
         | Inr vs' \<Rightarrow> verify_loop (pc + 1) insn_cnt insns vs'))"

definition verifier_start :: verifier_state where
  "verifier_start =
     \<lparr>vs_regs = (replicate BPF_REG_NUM reg_new)[1 := \<lparr>rs_type = CtxPtr, rs_range = None\<rparr>,
                                               10 := \<lparr>rs_type = StackPtr, rs_range = None\<rparr>],
      vs_path_depth = 0\<rparr>"

definition verify :: "bpf_prog \<Rightarrow> verify_error + unit" where
  "verify prog =
     (if bp_insn_cnt prog = 0 then Inl EmptyProgram
      else if bp_insn_cnt prog > BPF_MAX_INSNS then Inl ProgramTooLarge
      else if bp_insns prog \<noteq> [] \<and> in_op (last (bp_insns prog)) \<noteq> (OP_JMP OR JMP_EXIT)
      then Inl MustEndWithExit
      else
        (case verify_loop 0 (bp_insn_cnt prog) (bp_insns prog) verifier_start of
           Inl e \<Rightarrow> Inl e
         | Inr _ \<Rightarrow> Inr ()))"

section \<open>What acceptance means for each instruction\<close>

definition is_branch :: "bpf_insn \<Rightarrow> bool" where
  "is_branch insn \<longleftrightarrow>
     (insn_class insn = OP_JMP \<or> insn_class insn = OP_JMP32)
     \<and> in_op insn AND 0xf0 \<noteq> JMP_CALL \<and> in_op insn AND 0xf0 \<noteq> JMP_EXIT"

definition insn_static_ok :: "nat \<Rightarrow> nat \<Rightarrow> bpf_insn \<Rightarrow> bool" where
  "insn_static_ok cnt pc insn \<longleftrightarrow>
     unat (insn_dst insn) < BPF_REG_NUM \<and> unat (insn_src insn) < BPF_REG_NUM
     \<and> (is_branch insn \<longrightarrow> 0 \<le> int pc + 1 + sint (in_off insn) \<and> int pc + 1 + sint (in_off insn) < int cnt)"

lemma check_target_ok:
  "check_target pc cnt insn vs = Inr vs' \<Longrightarrow>
   0 \<le> int pc + 1 + sint (in_off insn) \<and> int pc + 1 + sint (in_off insn) < int (unat cnt)"
  by (auto simp: check_target_def Let_def split: if_splits)

lemma check_insn_ok:
  "check_insn pc cnt insn vs = Inr vs' \<Longrightarrow> insn_static_ok (unat cnt) pc insn"
  by (auto simp: check_insn_def check_registers_def check_jmp_def Let_def insn_static_ok_def is_branch_def
      split: if_splits sum.splits dest!: check_target_ok)

lemma verify_loop_ok:
  "verify_loop pc cnt insns vs = Inr vs' \<Longrightarrow> pc + length insns \<le> unat BPF_MAX_INSNS \<Longrightarrow>
   i < length insns \<Longrightarrow> insn_static_ok (unat cnt) (pc + i) (insns ! i)"
proof (induction pc cnt insns vs arbitrary: i rule: verify_loop.induct)
  case (2 pc cnt insn insns vs)
  then obtain vs1 where vs1: "check_insn pc cnt insn vs = Inr vs1"
    "verify_loop (pc + 1) cnt insns vs1 = Inr vs'"
    by (auto split: sum.splits if_splits)
  show ?case
  proof (cases i)
    case 0
    with check_insn_ok [OF vs1(1)] show ?thesis by simp
  next
    case (Suc j)
    with 2 vs1 show ?thesis by simp
  qed
qed simp

definition prog_wf :: "bpf_prog \<Rightarrow> bool" where
  "prog_wf prog \<longleftrightarrow> unat (bp_insn_cnt prog) = length (bp_insns prog)"

lemma prog_wf_new: "length insns < 2 ^ 32 \<Longrightarrow> prog_wf (bpf_prog_new ty insns)"
  by (simp add: prog_wf_def bpf_prog_new_def unat_of_nat)

lemma verify_insns_ok:
  assumes v: "verify prog = Inr ()" and wf: "prog_wf prog" and i: "i < length (bp_insns prog)"
  shows "insn_static_ok (length (bp_insns prog)) i (bp_insns prog ! i)"
proof -
  from v obtain vs' where l: "verify_loop 0 (bp_insn_cnt prog) (bp_insns prog) verifier_start = Inr vs'"
    by (auto simp: verify_def split: if_splits sum.splits)
  have "bp_insn_cnt prog \<le> BPF_MAX_INSNS"
    using v by (auto simp: verify_def split: if_splits)
  then have "length (bp_insns prog) \<le> unat BPF_MAX_INSNS"
    using wf by (simp add: prog_wf_def word_le_nat_alt)
  then show ?thesis
    using verify_loop_ok [OF l, of i] i wf by (simp add: prog_wf_def)
qed

section \<open>Accepted programs do not panic\<close>

lemma length_read_mem [simp]: "length (read_mem mem a n) = n"
  by (simp add: read_mem_def)

lemma bpf_map_ops_no_panic:
  assumes "length key = unat (md_key_size (bpf_map_def_of m))"
  shows "\<exists>r v. bpf_map_lookup m key out = Ret (r, v)" "\<exists>r m'. bpf_map_update m key val = Ret (r, m')"
    "\<exists>r m'. bpf_map_delete m key = Ret (r, m')"
  using assms key_to_index_total [of key "md_key_size (bpf_map_def_of m)"]
  by (cases m; cases "key_to_index key (md_key_size (bpf_map_def_of m))";
      auto split: option.split)+

lemma helper_execute_ok:
  "\<exists>r0 vm'. helper_execute env hid r1 r2 r3 vm = Ret (r0, vm') \<and> vm_regs vm' = vm_regs vm"
proof -
  have "\<exists>r0 vm'. helper_map_lookup r1 r2 vm = Ret (r0, vm') \<and> vm_regs vm' = vm_regs vm"
  proof (cases "bt_get (vm_maps vm) (ucast r1)")
    case (Some m)
    obtain r m' where "bpf_map_lookup m (read_mem (vm_mem vm) r2 (unat (md_key_size (bpf_map_def_of m))))
        (replicate (unat (md_value_size (bpf_map_def_of m))) 0) = Ret (r, m')"
      using bpf_map_ops_no_panic(1) [OF length_read_mem] by blast
    with Some show ?thesis by (simp add: helper_map_lookup_def Let_def)
  qed (simp add: helper_map_lookup_def)
  moreover have "\<exists>r0 vm'. helper_map_update r1 r2 r3 vm = Ret (r0, vm') \<and> vm_regs vm' = vm_regs vm"
  proof (cases "bt_get (vm_maps vm) (ucast r1)")
    case (Some m)
    obtain r m' where "bpf_map_update m (read_mem (vm_mem vm) r2 (unat (md_key_size (bpf_map_def_of m))))
        (read_mem (vm_mem vm) r3 (unat (md_value_size (bpf_map_def_of m)))) = Ret (r, m')"
      using bpf_map_ops_no_panic(2) [OF length_read_mem] by blast
    with Some show ?thesis by (simp add: helper_map_update_def Let_def)
  qed (simp add: helper_map_update_def)
  moreover have "\<exists>r0 vm'. helper_map_delete r1 r2 vm = Ret (r0, vm') \<and> vm_regs vm' = vm_regs vm"
  proof (cases "bt_get (vm_maps vm) (ucast r1)")
    case (Some m)
    obtain r m' where "bpf_map_delete m (read_mem (vm_mem vm) r2 (unat (md_key_size (bpf_map_def_of m)))) = Ret (r, m')"
      using bpf_map_ops_no_panic(3) [OF length_read_mem] by blast
    with Some show ?thesis by (simp add: helper_map_delete_def Let_def)
  qed (simp add: helper_map_delete_def)
  ultimately show ?thesis by (simp add: helper_execute_def)
qed

definition vm_ok :: "bpf_vm \<Rightarrow> bool" where
  "vm_ok vm \<longleftrightarrow> length (vm_regs vm) = BPF_REG_NUM"

lemma vm_ok_start: "vm_ok (bpf_vm_start ctx stk vm)"
  by (simp add: vm_ok_def bpf_vm_start_def)

lemma exec_alu_ok:
  assumes "unat (insn_dst insn) < length regs" "unat (insn_src insn) < length regs"
  shows "\<exists>regs'. exec_alu insn regs = Ret regs' \<and> length regs' = length regs"
  using assms by (simp add: exec_alu_def Let_def)

lemma exec_ld_ok:
  assumes "unat (insn_dst insn) < length regs" "unat (insn_src insn) < length regs"
  shows "\<exists>regs'. exec_ld insn mem regs = Ret regs' \<and> length regs' = length regs"
proof -
  have "\<exists>regs'. ldx_load n insn mem regs = Ret regs' \<and> length regs' = length regs" for n
    using assms by (simp add: ldx_load_def Let_def)
  then show ?thesis using assms by (simp add: exec_ld_def Let_def)
qed

lemma exec_st_ok:
  assumes "unat (insn_dst insn) < length regs" "unat (insn_src insn) < length regs"
  shows "\<exists>mem'. exec_st insn regs mem = Ret mem'"
  using assms by (simp add: exec_st_def Let_def)

lemma exec_jmp_ok:
  assumes "unat (insn_dst insn) < length (vm_regs vm)" "unat (insn_src insn) < length (vm_regs vm)"
  shows "\<exists>npc vm'. exec_jmp env insn pc vm = Ret (npc, vm') \<and> length (vm_regs vm') = length (vm_regs vm)
    \<and> (npc = None \<or> npc = Some (pc + 1)
       \<or> npc = Some (jump_target pc insn) \<and> in_op insn AND 0xf0 \<noteq> JMP_CALL \<and> in_op insn AND 0xf0 \<noteq> JMP_EXIT)"
  using assms helper_execute_ok [of env "in_imm insn" "vm_regs vm ! 1" "vm_regs vm ! 2" "vm_regs vm ! 3" vm]
  by (auto simp: exec_jmp_def Let_def)

lemma bpf_step_ok:
  assumes "insn_static_ok (length (bp_insns prog)) (unat pc) (bp_insns prog ! unat pc)"
    and "unat pc < length (bp_insns prog)" and "vm_ok vm"
  shows "\<exists>npc vm'. bpf_step env prog pc vm = Ret (npc, vm') \<and> vm_ok vm'
    \<and> (npc = None \<or> npc = Some (pc + 1)
       \<or> npc = Some (jump_target pc (bp_insns prog ! unat pc)) \<and> is_branch (bp_insns prog ! unat pc))"
proof -
  let ?i = "bp_insns prog ! unat pc"
  have r: "unat (insn_dst ?i) < length (vm_regs vm)" "unat (insn_src ?i) < length (vm_regs vm)"
    using assms(1,3) by (simp_all add: insn_static_ok_def vm_ok_def)
  show ?thesis
    using exec_alu_ok [OF r] exec_ld_ok [OF r, of "vm_mem vm"] exec_st_ok [OF r, of "vm_mem vm"]
      exec_jmp_ok [OF r, of env pc] assms(2,3)
    by (fastforce simp: bpf_step_def Let_def vm_ok_def is_branch_def)
qed

lemma loop_bound:
  fixes pc :: u64
  assumes "prog_wf prog"
  shows "pc < ucast (bp_insn_cnt prog) \<longleftrightarrow> unat pc < length (bp_insns prog)"
proof -
  have "unat (ucast (bp_insn_cnt prog) :: u64) = unat (bp_insn_cnt prog)"
    using unat_bound [of "bp_insn_cnt prog"] by (simp add: unsigned_ucast_eq take_bit_nat_eq_self)
  with assms show ?thesis by (simp add: prog_wf_def word_less_nat_alt)
qed

lemma bpf_loop_no_panic:
  assumes v: "verify prog = Inr ()" and wf: "prog_wf prog"
  shows "vm_ok vm \<Longrightarrow> bpf_loop fuel env prog pc vm \<noteq> Some Panic"
proof (induction fuel arbitrary: pc vm)
  case 0
  then show ?case by simp
next
  case (Suc fuel)
  show ?case
  proof (cases "unat pc < length (bp_insns prog)")
    case True
    obtain npc vm' where "bpf_step env prog pc vm = Ret (npc, vm')" "vm_ok vm'"
      using bpf_step_ok [OF verify_insns_ok [OF v wf True] True Suc.prems] by blast
    with Suc.IH [of vm'] show ?thesis by (auto split: option.split)
  next
    case False
    with wf show ?thesis by (simp add: loop_bound)
  qed
qed

section \<open>Forward-only programs end\<close>

definition forward_only :: "bpf_prog \<Rightarrow> bool" where
  "forward_only prog \<longleftrightarrow> (\<forall>insn \<in> set (bp_insns prog). is_branch insn \<longrightarrow> 0 \<le> sint (in_off insn))"

lemma unat_jump_target:
  assumes "0 \<le> int (unat pc) + 1 + sint (in_off insn)" "int (unat pc) + 1 + sint (in_off insn) < 2 ^ 64"
  shows "int (unat (jump_target pc insn)) = int (unat pc) + 1 + sint (in_off insn)"
proof -
  define x where "x = int (unat pc) + 1 + sint (in_off insn)"
  have "jump_target pc insn = word_of_int x"
    by (simp add: jump_target_def x_def)
  moreover have "uint (word_of_int x :: u64) = x"
    using assms unfolding x_def [symmetric] by (simp add: unsigned_of_int take_bit_int_eq_self)
  ultimately show ?thesis by (simp add: x_def)
qed

lemma bpf_loop_forward:
  assumes v: "verify prog = Inr ()" and wf: "prog_wf prog" and fwd: "forward_only prog"
  shows "vm_ok vm \<Longrightarrow> length (bp_insns prog) \<le> unat pc + fuel \<Longrightarrow>
    \<exists>r vm'. bpf_loop fuel env prog pc vm = Some (Ret (r, vm'))"
proof (induction fuel arbitrary: pc vm)
  case 0
  then show ?case using wf by (simp add: loop_bound)
next
  case (Suc fuel)
  show ?case
  proof (cases "unat pc < length (bp_insns prog)")
    case False
    with wf show ?thesis by (simp add: loop_bound)
  next
    case True
    let ?i = "bp_insns prog ! unat pc"
    have ok: "insn_static_ok (length (bp_insns prog)) (unat pc) ?i"
      by (rule verify_insns_ok [OF v wf True])
    have len: "length (bp_insns prog) < 2 ^ 32"
      using wf unat_bound [of "bp_insn_cnt prog"] by (simp add: prog_wf_def)
    obtain npc vm' where s: "bpf_step env prog pc vm = Ret (npc, vm')" "vm_ok vm'"
      and n: "npc = None \<or> npc = Some (pc + 1) \<or> npc = Some (jump_target pc ?i) \<and> is_branch ?i"
      using bpf_step_ok [OF ok True Suc.prems(1)] by blast
    have "unat pc < unat pc'" if "npc = Some pc'" for pc'
    proof -
      have "unat (pc + 1) = Suc (unat pc)"
        using True len by (intro unat_add_1_bounded [of _ "2 ^ 32"]) simp_all
      moreover have "unat pc < unat (jump_target pc ?i)" if "is_branch ?i"
      proof -
        have big: "int (length (bp_insns prog)) < 2 ^ 64" using len by simp
        have "0 \<le> sint (in_off ?i)" using that True fwd by (simp add: forward_only_def)
        moreover have "int (unat pc) + 1 + sint (in_off ?i) < int (length (bp_insns prog))"
          using that ok by (simp add: insn_static_ok_def)
        ultimately have "int (unat pc) < int (unat (jump_target pc ?i))"
          using unat_jump_target [of pc ?i] big by linarith
        then show ?thesis by (simp only: of_nat_less_iff)
      qed
      ultimately show ?thesis using n that by auto
    qed
    with Suc.IH [OF s(2)] Suc.prems(2) s(1) True wf show ?thesis
      by (cases npc) (fastforce simp: loop_bound)+
  qed
qed

end
