(* ===== verification/Ebpf_Range.thy ===== *)
theory Ebpf_Range
  imports Ebpf_Verifier
begin

text \<open>
  Soundness of the constant ranges the eBPF verifier tracks (\<^verbatim>\<open>RegState::range\<close>,
  \<^verbatim>\<open>alu_checked_range\<close> in \<^verbatim>\<open>src/src/kernel/services/debug/ebpf_verifier.rs\<close>) with respect to the
  interpreter: the relation \<open>regs_ok\<close> between the verifier's registers and the machine's is kept
  by every instruction except 32-bit ALU moves and helper calls, where the tracked value
  differs from the machine's.
\<close>

definition range_ok :: "reg_state \<Rightarrow> u64 \<Rightarrow> bool" where
  "range_ok st v \<longleftrightarrow> (case rs_range st of None \<Rightarrow> True | Some (lo, hi) \<Rightarrow> lo \<le> v \<and> v \<le> hi)"

definition regs_ok :: "verifier_state \<Rightarrow> u64 list \<Rightarrow> bool" where
  "regs_ok vs regs \<longleftrightarrow>
     length (vs_regs vs) = BPF_REG_NUM \<and> length regs = BPF_REG_NUM
     \<and> (\<forall>i < BPF_REG_NUM. range_ok (vs_regs vs ! i) (regs ! i))"

lemma range_ok_simps [simp]:
  "range_ok reg_scalar v" "range_ok reg_new v" "range_ok (reg_with_range None) v"
  "range_ok (reg_const_value c) v \<longleftrightarrow> v = c" "range_ok (reg_with_range (Some (c, c))) v \<longleftrightarrow> v = c"
  by (auto simp: range_ok_def reg_scalar_def reg_new_def reg_with_range_def reg_const_value_def)

lemma regs_ok_update:
  "regs_ok vs regs \<Longrightarrow> range_ok st v \<Longrightarrow> regs_ok (set_reg r st vs) (regs[r := v])"
  by (auto simp: regs_ok_def set_reg_def nth_list_update_if)

lemma regs_ok_forget:
  "regs_ok vs regs \<Longrightarrow> regs_ok (set_reg r reg_scalar vs) regs"
  by (auto simp: regs_ok_def set_reg_def nth_list_update_if)

lemma regs_ok_path_depth [simp]: "regs_ok (vs\<lparr>vs_path_depth := d\<rparr>) regs \<longleftrightarrow> regs_ok vs regs"
  by (simp add: regs_ok_def)

lemma regs_ok_start: "regs_ok verifier_start (vm_regs (bpf_vm_start ctx stk vm))"
proof -
  have "rs_range (vs_regs verifier_start ! i) = None" if "i < BPF_REG_NUM" for i
    using that by (simp add: verifier_start_def nth_list_update BPF_REG_NUM_def reg_new_def)
  then show ?thesis
    by (simp add: regs_ok_def range_ok_def) (simp add: verifier_start_def bpf_vm_start_def)
qed

text \<open>The checked constant folding is exact: no overflow, and the value the ALU computes.\<close>

lemma alu_checked_range_exact:
  assumes r: "alu_checked_range op dr sr isreg imm = Some (Some (lo, hi))"
    and d: "range_ok \<lparr>rs_type = ty, rs_range = dr\<rparr> d"
    and s: "isreg \<Longrightarrow> range_ok \<lparr>rs_type = ty', rs_range = sr\<rparr> s" "\<not> isreg \<Longrightarrow> s = scast imm"
  shows "lo = hi \<and> (op = ALU_ADD \<and> lo = d + s \<and> unat lo = unat d + unat s
    \<or> op = ALU_SUB \<and> lo = d - s \<and> unat s \<le> unat d
    \<or> op = ALU_MUL \<and> lo = d * s \<and> unat lo = unat d * unat s)"
proof -
  from r obtain a b where dr: "dr = Some (a, a)"
    and b: "isreg \<Longrightarrow> sr = Some (b, b)" "\<not> isreg \<Longrightarrow> b = scast imm"
    and v: "op = ALU_ADD \<and> checked_add a b = Some lo \<or> op = ALU_SUB \<and> checked_sub a b = Some lo
      \<or> op = ALU_MUL \<and> checked_mul a b = Some lo" and lh: "lo = hi"
    by (auto simp: alu_checked_range_def split: option.splits if_splits)
  have "d = a" using d dr by (auto simp: range_ok_def)
  moreover have "s = b" using s b by (cases isreg) (auto simp: range_ok_def)
  ultimately show ?thesis
    using v lh checked_add_SomeD [of a b lo] checked_sub_SomeD [of a b lo] checked_mul_SomeD [of a b lo]
    by (auto simp: checked_add_def checked_sub_def checked_mul_def split: if_splits)
qed

lemma regs_okD: "regs_ok vs regs \<Longrightarrow> i < BPF_REG_NUM \<Longrightarrow> range_ok (vs_regs vs ! i) (regs ! i)"
  by (simp add: regs_ok_def)

lemma range_ok_range: "range_ok \<lparr>rs_type = ty, rs_range = rs_range st\<rparr> v = range_ok st v"
  by (simp add: range_ok_def)

lemma check_alu_sound:
  assumes c: "check_alu pc insn vs = Inr vs'" and e: "exec_alu insn regs = Ret regs'"
    and ok: "regs_ok vs regs" and cls: "insn_class insn = OP_ALU64"
    and r: "unat (insn_dst insn) < BPF_REG_NUM" "unat (insn_src insn) < BPF_REG_NUM"
  shows "regs_ok vs' regs'"
proof -
  let ?d = "unat (insn_dst insn)" and ?s = "unat (insn_src insn)"
  let ?isreg = "in_op insn AND SRC_X \<noteq> 0"
  define sv where "sv = (if ?isreg then regs ! ?s else scast (in_imm insn))"
  have regs': "regs' = regs[?d := alu_result insn (regs ! ?d) sv]"
    using e cls unfolding exec_alu_def Let_def sv_def by (auto split: if_splits)
  show ?thesis
  proof (cases "in_op insn AND 0xf0 = ALU_MOV")
    case True
    then have "alu_result insn (regs ! ?d) sv = sv" by (simp add: alu_result_def Let_def)
    with True c regs' ok regs_okD [OF ok r(2)] show ?thesis
      by (auto simp: check_alu_def Let_def sv_def intro!: regs_ok_update split: if_splits)
  next
    case False
    with c cls obtain rng where rng: "alu_checked_range (in_op insn AND 0xf0) (rs_range (vs_regs vs ! ?d))
        (rs_range (vs_regs vs ! ?s)) ?isreg (in_imm insn) = Some rng"
      "vs' = set_reg ?d (reg_with_range rng) vs"
      by (auto simp: check_alu_def Let_def split: if_splits option.splits)
    show ?thesis
    proof (cases rng)
      case None
      with rng regs' ok show ?thesis by (simp add: regs_ok_update)
    next
      case (Some lh)
      obtain lo hi where lh: "lh = (lo, hi)" by (cases lh)
      have eq: "lo = hi \<and> lo = alu_result insn (regs ! ?d) sv"
        using alu_checked_range_exact [OF rng(1) [unfolded Some lh],
            where d = "regs ! ?d" and s = sv] regs_okD [OF ok r(1)] regs_okD [OF ok r(2)]
        by (auto simp: range_ok_range sv_def alu_result_def)
      then have "range_ok (reg_with_range rng) (alu_result insn (regs ! ?d) sv)"
        by (auto simp: Some lh)
      then show ?thesis unfolding rng(2) regs' by (rule regs_ok_update [OF ok])
    qed
  qed
qed

lemma exec_ld_other_regs:
  assumes "exec_ld insn mem regs = Ret regs'"
  shows "\<exists>v. regs' = regs[unat (insn_dst insn) := v]"
proof -
  have same: "\<exists>v. regs = regs[unat (insn_dst insn) := v]"
    by (rule exI [of _ "regs ! unat (insn_dst insn)"]) simp
  have "\<exists>v. regs' = regs[unat (insn_dst insn) := v]" if "ldx_load n insn mem regs = Ret regs'" for n
    using that same by (auto simp: ldx_load_def Let_def split: if_splits)
  with assms same show ?thesis by (auto simp: exec_ld_def Let_def split: if_splits)
qed

definition tracked_insn :: "bpf_insn \<Rightarrow> bool" where
  "tracked_insn insn \<longleftrightarrow>
     insn_class insn \<noteq> OP_ALU
     \<and> \<not> ((insn_class insn = OP_JMP \<or> insn_class insn = OP_JMP32) \<and> in_op insn AND 0xf0 = JMP_CALL)"

lemma check_jmp_sound:
  assumes "check_jmp pc cnt insn vs = Inr vs'" "in_op insn AND 0xf0 \<noteq> JMP_CALL" "regs_ok vs regs"
  shows "regs_ok vs' regs"
  using assms
  by (auto simp: check_jmp_def check_target_def check_cond_operands_def Let_def
      split: if_splits sum.splits)

lemma exec_jmp_regs:
  "exec_jmp env insn pc vm = Ret (npc, vm') \<Longrightarrow> in_op insn AND 0xf0 \<noteq> JMP_CALL \<Longrightarrow> vm' = vm"
  by (auto simp: exec_jmp_def Let_def split: if_splits)

lemma check_insn_step_sound:
  assumes c: "check_insn ipc cnt insn vs = Inr vs'" and t: "tracked_insn insn"
    and i: "bp_insns prog ! unat pc = insn"
    and s: "bpf_step env prog pc vm = Ret (npc, vm')" and ok: "regs_ok vs (vm_regs vm)"
  shows "regs_ok vs' (vm_regs vm')"
proof -
  have r: "unat (insn_dst insn) < BPF_REG_NUM" "unat (insn_src insn) < BPF_REG_NUM"
    using check_insn_ok [OF c] by (simp_all add: insn_static_ok_def)
  have reg: "check_registers ipc insn vs = Inr vs"
    using c by (auto simp: check_insn_def check_registers_def Let_def split: if_splits sum.splits)
  consider (alu) "insn_class insn = OP_ALU64" | (ld) "insn_class insn = OP_LD \<or> insn_class insn = OP_LDX"
    | (st) "insn_class insn = OP_ST \<or> insn_class insn = OP_STX"
    | (jmp) "insn_class insn = OP_JMP \<or> insn_class insn = OP_JMP32"
    | (other) "insn_class insn \<notin> {OP_LD, OP_LDX, OP_ST, OP_STX, OP_ALU, OP_JMP, OP_JMP32, OP_ALU64}"
    using t by (auto simp: tracked_insn_def)
  then show ?thesis
  proof cases
    case alu
    with c reg have "check_alu ipc insn vs = Inr vs'" by (simp add: check_insn_def)
    moreover from s alu i obtain regs' where "exec_alu insn (vm_regs vm) = Ret regs'" "vm_regs vm' = regs'"
      by (cases "exec_alu insn (vm_regs vm)") (auto simp: bpf_step_def Let_def split: if_splits)
    ultimately show ?thesis using check_alu_sound ok alu r by blast
  next
    case ld
    with c reg have "vs' = set_reg (unat (insn_dst insn)) reg_scalar vs"
      by (auto simp: check_insn_def check_ld_def check_ldx_def Let_def split: if_splits reg_type.splits)
    moreover from s ld i obtain v where "vm_regs vm' = (vm_regs vm)[unat (insn_dst insn) := v]"
      by (cases "exec_ld insn (vm_mem vm) (vm_regs vm)")
         (auto simp: bpf_step_def Let_def split: if_splits dest: exec_ld_other_regs)
    ultimately show ?thesis using ok by (simp add: regs_ok_update)
  next
    case st
    with c reg have "vs' = vs"
      by (auto simp: check_insn_def check_st_def Let_def split: if_splits)
    moreover from s st i have "vm_regs vm' = vm_regs vm"
      by (cases "exec_st insn (vm_regs vm) (vm_mem vm)") (auto simp: bpf_step_def Let_def split: if_splits)
    ultimately show ?thesis using ok by simp
  next
    case jmp
    with t have nc: "in_op insn AND 0xf0 \<noteq> JMP_CALL" by (simp add: tracked_insn_def)
    from jmp c reg have "check_jmp ipc cnt insn vs = Inr vs'" by (auto simp: check_insn_def)
    moreover from s jmp i have "exec_jmp env insn pc vm = Ret (npc, vm')"
      by (auto simp: bpf_step_def Let_def split: if_splits)
    ultimately show ?thesis using check_jmp_sound nc ok exec_jmp_regs by metis
  next
    case other
    with c reg s i ok show ?thesis by (auto simp: check_insn_def bpf_step_def Let_def split: if_splits)
  qed
qed

end
