(* ===== verification/Ebpf_Sys.thy ===== *)
theory Ebpf_Sys
  imports Ebpf_Range
begin

text \<open>
  The eBPF subsystem of \<^verbatim>\<open>src/src/kernel/framework/debug/ebpf.rs\<close> (\<^verbatim>\<open>BpfSubsystem\<close> and \<^verbatim>\<open>sys_bpf\<close>).
  The registered verifier is a function value, as the source holds a trait object.  The
  world \<open>bpf_world\<close> adds the byte memory that \<^verbatim>\<open>sys_bpf\<close> reads its attributes from.
  \<open>bpf_reachable\<close> are the worlds reached by initialisation, registration of the standard
  verifier, system calls and program runs; in them every loaded program was accepted, so that
  running it cannot panic.
\<close>

section \<open>State\<close>

definition BPF_MAX_MAPS :: u32 where "BPF_MAX_MAPS = 1024"
definition BPF_MAX_PROGS :: u32 where "BPF_MAX_PROGS = 1024"

record bpf_subsystem =
  bs_maps :: "(u32, bpf_map) btree"
  bs_progs :: "(u32, bpf_prog) btree"
  bs_next_map_fd :: u32
  bs_next_prog_fd :: u32
  bs_initialized :: bool
  bs_verifier :: "(bpf_prog \<Rightarrow> verify_error + unit) option"

definition bpf_subsystem_new :: bpf_subsystem where
  "bpf_subsystem_new =
     \<lparr>bs_maps = bt_empty, bs_progs = bt_empty, bs_next_map_fd = 1, bs_next_prog_fd = 1,
      bs_initialized = False, bs_verifier = None\<rparr>"

record bpf_world =
  bw_sub :: bpf_subsystem
  bw_mem :: memory
  bw_trace :: "u64 list"
  bw_ticks :: nat

section \<open>Operations of the subsystem\<close>

definition set_verifier :: "(bpf_prog \<Rightarrow> verify_error + unit) \<Rightarrow> bpf_subsystem \<Rightarrow> bpf_subsystem" where
  "set_verifier v s = s\<lparr>bs_verifier := Some v\<rparr>"

definition bpf_init :: "bpf_subsystem \<Rightarrow> bpf_subsystem" where
  "bpf_init s = (if bs_initialized s then s else s\<lparr>bs_initialized := True\<rparr>)"

definition bpf_is_initialized :: "bpf_subsystem \<Rightarrow> bool" where
  "bpf_is_initialized s = bs_initialized s"

definition map_create ::
    "bpf_map_type \<Rightarrow> u32 \<Rightarrow> u32 \<Rightarrow> u32 \<Rightarrow> bpf_subsystem \<Rightarrow> i64 \<times> bpf_subsystem" where
  "map_create map_type key_size value_size max_entries s =
     (case bpf_map_create map_type key_size value_size max_entries of
        Some m \<Rightarrow>
          (let fd = bs_next_map_fd s; s1 = s\<lparr>bs_next_map_fd := fd + 1\<rparr> in
           if unat BPF_MAX_MAPS \<le> length (bs_maps s1) then (- 22, s1)
           else (ucast fd, s1\<lparr>bs_maps := bt_insert fd m (bs_maps s1)\<rparr>))
      | None \<Rightarrow> (- 22, s))"

definition prog_load :: "bpf_prog_type \<Rightarrow> bpf_insn list \<Rightarrow> bpf_subsystem \<Rightarrow> i64 \<times> bpf_subsystem" where
  "prog_load prog_type insns s =
     (let prog = bpf_prog_new prog_type insns in
      case bs_verifier s of
        None \<Rightarrow> (- 1, s)
      | Some v \<Rightarrow>
          (case v prog of
             Inl msg \<Rightarrow> (- 22, s)
           | Inr _ \<Rightarrow>
               (let prog = prog\<lparr>bp_verified := True\<rparr>;
                    fd = bs_next_prog_fd s; s1 = s\<lparr>bs_next_prog_fd := fd + 1\<rparr> in
                if unat BPF_MAX_PROGS \<le> length (bs_progs s1) then (- 22, s1)
                else (ucast fd, s1\<lparr>bs_progs := bt_insert fd prog (bs_progs s1)\<rparr>))))"

definition map_lookup_elem :: "u32 \<Rightarrow> u8 list \<Rightarrow> u8 list \<Rightarrow> bpf_subsystem \<Rightarrow> (i64 \<times> u8 list) panics" where
  "map_lookup_elem map_fd key value_out s =
     (case bt_get (bs_maps s) map_fd of
        None \<Rightarrow> Ret (- 9, value_out)
      | Some m \<Rightarrow>
          panic_bind (bpf_map_lookup m key value_out) (\<lambda>(found, out).
            Ret (if found then 0 else - 2, out)))"

definition map_update_elem ::
    "u32 \<Rightarrow> u8 list \<Rightarrow> u8 list \<Rightarrow> bpf_subsystem \<Rightarrow> (i64 \<times> bpf_subsystem) panics" where
  "map_update_elem map_fd key val s =
     (case bt_get (bs_maps s) map_fd of
        None \<Rightarrow> Ret (- 9, s)
      | Some m \<Rightarrow>
          panic_bind (bpf_map_update m key val) (\<lambda>(ok, m').
            Ret (if ok then 0 else - 22, s\<lparr>bs_maps := bt_insert map_fd m' (bs_maps s)\<rparr>)))"

definition map_delete_elem :: "u32 \<Rightarrow> u8 list \<Rightarrow> bpf_subsystem \<Rightarrow> (i64 \<times> bpf_subsystem) panics" where
  "map_delete_elem map_fd key s =
     (case bt_get (bs_maps s) map_fd of
        None \<Rightarrow> Ret (- 9, s)
      | Some m \<Rightarrow>
          panic_bind (bpf_map_delete m key) (\<lambda>(ok, m').
            Ret (if ok then 0 else - 2, s\<lparr>bs_maps := bt_insert map_fd m' (bs_maps s)\<rparr>)))"

definition get_map :: "u32 \<Rightarrow> bpf_subsystem \<Rightarrow> bpf_map option" where
  "get_map fd s = bt_get (bs_maps s) fd"

definition get_prog :: "u32 \<Rightarrow> bpf_subsystem \<Rightarrow> bpf_prog option" where
  "get_prog fd s = bt_get (bs_progs s) fd"

definition bw_vm :: "bpf_world \<Rightarrow> bpf_vm" where
  "bw_vm w =
     \<lparr>vm_regs = [], vm_mem = bw_mem w, vm_maps = bs_maps (bw_sub w), vm_trace = bw_trace w,
      vm_ticks = bw_ticks w\<rparr>"

text \<open>The maps of a run are shared with the subsystem (\<^verbatim>\<open>Arc\<close>), so its map updates stay.\<close>

definition prog_run ::
    "nat \<Rightarrow> bpf_env \<Rightarrow> u32 \<Rightarrow> u64 \<Rightarrow> u64 \<Rightarrow> bpf_world \<Rightarrow> (i64 \<times> bpf_world) panics option" where
  "prog_run fuel env prog_fd ctx_ptr stack_ptr w =
     (let s = bw_sub w in
      case bt_get (bs_progs s) prog_fd of
        None \<Rightarrow> Some (Ret (- 9, w))
      | Some p \<Rightarrow>
          if \<not> bp_verified p then Some (Ret (- 22, w))
          else
            (case bpf_run fuel env p ctx_ptr stack_ptr (bw_vm w) of
               None \<Rightarrow> None
             | Some Panic \<Rightarrow> Some Panic
             | Some (Ret (r0, vm')) \<Rightarrow>
                 Some (Ret (r0, w\<lparr>bw_sub := s\<lparr>bs_maps := vm_maps vm'\<rparr>, bw_mem := vm_mem vm',
                                bw_trace := vm_trace vm', bw_ticks := vm_ticks vm'\<rparr>))))"

section \<open>The system call\<close>

definition read_u32 :: "memory \<Rightarrow> u64 \<Rightarrow> u32" where
  "read_u32 mem a = of_le_bytes (read_mem mem a 4)"

definition read_u64 :: "memory \<Rightarrow> u64 \<Rightarrow> u64" where
  "read_u64 mem a = of_le_bytes (read_mem mem a 8)"

definition read_insn :: "memory \<Rightarrow> u64 \<Rightarrow> bpf_insn" where
  "read_insn mem a =
     \<lparr>in_op = mem a, in_dst_reg = mem (a + 1), in_off = of_le_bytes (read_mem mem (a + 2) 2),
      in_imm = of_le_bytes (read_mem mem (a + 4) 4)\<rparr>"

definition read_insns :: "memory \<Rightarrow> u64 \<Rightarrow> nat \<Rightarrow> bpf_insn list" where
  "read_insns mem a n = map (\<lambda>i. read_insn mem (a + 8 * of_nat i)) [0 ..< n]"

definition sys_map_create :: "u64 \<Rightarrow> u64 \<Rightarrow> bpf_world \<Rightarrow> (i64 \<times> bpf_world) panics" where
  "sys_map_create attr sz w =
     (if sz < 16 \<or> attr = 0 then Ret (- 22, w)
      else
        let mem = bw_mem w in
        (case bpf_map_type_from_u32 (read_u32 mem attr) of
           None \<Rightarrow> Ret (- 22, w)
         | Some mt \<Rightarrow>
             (let (r, s) = map_create mt (read_u32 mem (attr + 4)) (read_u32 mem (attr + 8))
                             (read_u32 mem (attr + 12)) (bw_sub w)
              in Ret (r, w\<lparr>bw_sub := s\<rparr>))))"

definition sys_map_lookup :: "u64 \<Rightarrow> u64 \<Rightarrow> bpf_world \<Rightarrow> (i64 \<times> bpf_world) panics" where
  "sys_map_lookup attr sz w =
     (if sz < 20 \<or> attr = 0 then Ret (- 22, w)
      else
        let mem = bw_mem w;
            map_fd = ucast (read_u64 mem attr);
            key_ptr = read_u64 mem (attr + 8);
            val_ptr = read_u64 mem (attr + 16) in
        (case bt_get (bs_maps (bw_sub w)) map_fd of
           None \<Rightarrow> Ret (- 9, w)
         | Some m \<Rightarrow>
             (let key = read_mem mem key_ptr (unat (md_key_size (bpf_map_def_of m)));
                  val = replicate (unat (md_value_size (bpf_map_def_of m))) 0 in
              panic_bind (map_lookup_elem map_fd key val (bw_sub w)) (\<lambda>(result, val').
                Ret (result, if result = 0 then w\<lparr>bw_mem := write_mem mem val_ptr val'\<rparr> else w)))))"

definition sys_map_update :: "u64 \<Rightarrow> u64 \<Rightarrow> bpf_world \<Rightarrow> (i64 \<times> bpf_world) panics" where
  "sys_map_update attr sz w =
     (if sz < 28 \<or> attr = 0 then Ret (- 22, w)
      else
        let mem = bw_mem w;
            map_fd = ucast (read_u64 mem attr);
            key_ptr = read_u64 mem (attr + 8);
            val_ptr = read_u64 mem (attr + 16) in
        (case bt_get (bs_maps (bw_sub w)) map_fd of
           None \<Rightarrow> Ret (- 9, w)
         | Some m \<Rightarrow>
             (let key = read_mem mem key_ptr (unat (md_key_size (bpf_map_def_of m)));
                  val = read_mem mem val_ptr (unat (md_value_size (bpf_map_def_of m))) in
              panic_bind (map_update_elem map_fd key val (bw_sub w)) (\<lambda>(result, s).
                Ret (result, w\<lparr>bw_sub := s\<rparr>)))))"

definition sys_map_delete :: "u64 \<Rightarrow> u64 \<Rightarrow> bpf_world \<Rightarrow> (i64 \<times> bpf_world) panics" where
  "sys_map_delete attr sz w =
     (if sz < 12 \<or> attr = 0 then Ret (- 22, w)
      else
        let mem = bw_mem w;
            map_fd = ucast (read_u64 mem attr);
            key_ptr = read_u64 mem (attr + 8) in
        (case bt_get (bs_maps (bw_sub w)) map_fd of
           None \<Rightarrow> Ret (- 9, w)
         | Some m \<Rightarrow>
             (let key = read_mem mem key_ptr (unat (md_key_size (bpf_map_def_of m))) in
              panic_bind (map_delete_elem map_fd key (bw_sub w)) (\<lambda>(result, s).
                Ret (result, w\<lparr>bw_sub := s\<rparr>)))))"

definition sys_prog_load :: "u64 \<Rightarrow> u64 \<Rightarrow> bpf_world \<Rightarrow> (i64 \<times> bpf_world) panics" where
  "sys_prog_load attr sz w =
     (if sz < 24 \<or> attr = 0 then Ret (- 22, w)
      else
        let mem = bw_mem w;
            prog_type = ucast (read_u64 mem attr);
            insn_cnt = ucast (drop_bit 32 (read_u64 mem attr)) :: u32;
            insns_ptr = read_u64 mem (attr + 8) in
        (case bpf_prog_type_from_u32 prog_type of
           None \<Rightarrow> Ret (- 22, w)
         | Some pt \<Rightarrow>
             if insn_cnt = 0 \<or> insn_cnt > BPF_MAX_INSNS then Ret (- 22, w)
             else
               let (r, s) = prog_load pt (read_insns mem insns_ptr (unat insn_cnt)) (bw_sub w)
               in Ret (r, w\<lparr>bw_sub := s\<rparr>)))"

definition sys_bpf :: "u64 \<Rightarrow> u64 \<Rightarrow> u64 \<Rightarrow> bpf_world \<Rightarrow> (i64 \<times> bpf_world) panics" where
  "sys_bpf cmd attr sz w =
     (if \<not> bpf_is_initialized (bw_sub w) then Ret (- 11, w)
      else if cmd = 0 then sys_map_create attr sz w
      else if cmd = 1 then sys_map_lookup attr sz w
      else if cmd = 2 then sys_map_update attr sz w
      else if cmd = 3 then sys_map_delete attr sz w
      else if cmd = 5 then sys_prog_load attr sz w
      else Ret (- 38, w))"

section \<open>Runs\<close>

definition bpf_world_init :: "memory \<Rightarrow> bpf_world" where
  "bpf_world_init mem = \<lparr>bw_sub = bpf_subsystem_new, bw_mem = mem, bw_trace = [], bw_ticks = 0\<rparr>"

inductive bpf_sys_step :: "bpf_world \<Rightarrow> bpf_world \<Rightarrow> bool" where
  step_init: "bpf_sys_step w (w\<lparr>bw_sub := bpf_init (bw_sub w)\<rparr>)"
| step_verifier: "bpf_sys_step w (w\<lparr>bw_sub := set_verifier verify (bw_sub w)\<rparr>)"
| step_user_memory: "bpf_sys_step w (w\<lparr>bw_mem := mem\<rparr>)"
| step_sys: "sys_bpf cmd attr sz w = Ret (r, w') \<Longrightarrow> bpf_sys_step w w'"
| step_run: "prog_run fuel env fd ctx stk w = Some (Ret (r, w')) \<Longrightarrow> bpf_sys_step w w'"

inductive bpf_reachable :: "bpf_world \<Rightarrow> bool" where
  reach_init: "bpf_reachable (bpf_world_init mem)"
| reach_step: "bpf_reachable w \<Longrightarrow> bpf_sys_step w w' \<Longrightarrow> bpf_reachable w'"

section \<open>Invariant\<close>

definition prog_ok :: "bpf_prog \<Rightarrow> bool" where
  "prog_ok p \<longleftrightarrow> bp_verified p \<and> prog_wf p \<and> verify p = Inr ()"

definition maps_ok :: "(u32, bpf_map) btree \<Rightarrow> bool" where
  "maps_ok ms \<longleftrightarrow> bt_wf ms \<and> (\<forall>fd m. bt_get ms fd = Some m \<longrightarrow> bpf_map_wf m)"

definition sub_inv :: "bpf_subsystem \<Rightarrow> bool" where
  "sub_inv s \<longleftrightarrow>
     maps_ok (bs_maps s) \<and> bt_wf (bs_progs s)
     \<and> length (bs_maps s) \<le> unat BPF_MAX_MAPS \<and> length (bs_progs s) \<le> unat BPF_MAX_PROGS
     \<and> (\<forall>fd p. bt_get (bs_progs s) fd = Some p \<longrightarrow> prog_ok p)
     \<and> (bs_verifier s = None \<or> bs_verifier s = Some verify)"

lemma sub_inv_new: "sub_inv bpf_subsystem_new"
  by (simp add: sub_inv_def bpf_subsystem_new_def maps_ok_def)

lemma verify_verified [simp]: "verify (p\<lparr>bp_verified := b\<rparr>) = verify p"
  by (simp add: verify_def)

lemma map_update_keeps_wf:
  "bpf_map_wf m \<Longrightarrow> bpf_map_update m key val = Ret (ok, m') \<Longrightarrow> bpf_map_wf m'"
  using bpf_map_update_view [of m key val] by auto

lemma map_delete_keeps_wf:
  "bpf_map_wf m \<Longrightarrow> length key = unat (md_key_size (bpf_map_def_of m)) \<Longrightarrow>
   bpf_map_delete m key = Ret (ok, m') \<Longrightarrow> bpf_map_wf m'"
  using bpf_map_delete_view [of m key] by (auto simp: key_size_of_def)

lemma maps_ok_replace:
  assumes "maps_ok ms" "bt_get ms fd = Some m" "bpf_map_wf m'"
  shows "maps_ok (bt_insert fd m' ms)" "length (bt_insert fd m' ms) = length ms"
  using assms by (auto simp: maps_ok_def bt.wf_insert bt.lookup_insert bt.size_insert)

lemma helper_maps_ok:
  assumes "helper_execute env hid r1 r2 r3 vm = Ret (r0, vm')" "maps_ok (vm_maps vm)"
  shows "maps_ok (vm_maps vm') \<and> length (vm_maps vm') = length (vm_maps vm)"
proof -
  have wf: "bpf_map_wf m" if "bt_get (vm_maps vm) fd = Some m" for fd m
    using assms(2) that by (simp add: maps_ok_def)
  have "maps_ok (vm_maps v) \<and> length (vm_maps v) = length (vm_maps vm)"
    if "helper_map_lookup r1 r2 vm = Ret (a, v)" for a v
  proof (cases "bt_get (vm_maps vm) (ucast r1)")
    case (Some m)
    obtain f out where "bpf_map_lookup m (read_mem (vm_mem vm) r2 (unat (md_key_size (bpf_map_def_of m))))
        (replicate (unat (md_value_size (bpf_map_def_of m))) 0) = Ret (f, out)"
      using bpf_map_ops_no_panic(1) [OF length_read_mem] by blast
    with that Some assms(2) show ?thesis by (simp add: helper_map_lookup_def Let_def)
  qed (use that assms(2) in \<open>simp add: helper_map_lookup_def\<close>)
  moreover have "maps_ok (vm_maps v) \<and> length (vm_maps v) = length (vm_maps vm)"
    if "helper_map_update r1 r2 r3 vm = Ret (a, v)" for a v
  proof (cases "bt_get (vm_maps vm) (ucast r1)")
    case (Some m)
    obtain f m' where u: "bpf_map_update m (read_mem (vm_mem vm) r2 (unat (md_key_size (bpf_map_def_of m))))
        (read_mem (vm_mem vm) r3 (unat (md_value_size (bpf_map_def_of m)))) = Ret (f, m')"
      using bpf_map_ops_no_panic(2) [OF length_read_mem] by blast
    note maps_ok_replace [OF assms(2) Some map_update_keeps_wf [OF wf [OF Some] u]]
    with that Some u show ?thesis by (auto simp: helper_map_update_def Let_def)
  qed (use that assms(2) in \<open>simp add: helper_map_update_def\<close>)
  moreover have "maps_ok (vm_maps v) \<and> length (vm_maps v) = length (vm_maps vm)"
    if "helper_map_delete r1 r2 vm = Ret (a, v)" for a v
  proof (cases "bt_get (vm_maps vm) (ucast r1)")
    case (Some m)
    obtain f m' where u: "bpf_map_delete m (read_mem (vm_mem vm) r2 (unat (md_key_size (bpf_map_def_of m))))
        = Ret (f, m')"
      using bpf_map_ops_no_panic(3) [OF length_read_mem] by blast
    note maps_ok_replace [OF assms(2) Some map_delete_keeps_wf [OF wf [OF Some] length_read_mem u]]
    with that Some u show ?thesis by (auto simp: helper_map_delete_def Let_def)
  qed (use that assms(2) in \<open>simp add: helper_map_delete_def\<close>)
  ultimately show ?thesis
    using assms by (auto simp: helper_execute_def split: if_splits)
qed

lemma exec_jmp_maps_ok:
  assumes "exec_jmp env insn pc vm = Ret (npc, vm')" "maps_ok (vm_maps vm)"
  shows "maps_ok (vm_maps vm') \<and> length (vm_maps vm') = length (vm_maps vm)"
proof (cases "in_op insn AND 0xf0 = JMP_CALL")
  case False
  then show ?thesis using exec_jmp_regs [OF assms(1) False] assms(2) by simp
next
  case True
  obtain r0 v where h: "helper_execute env (in_imm insn) (vm_regs vm ! 1) (vm_regs vm ! 2) (vm_regs vm ! 3) vm
      = Ret (r0, v)"
    using helper_execute_ok by blast
  with True assms(1) have "vm' = v\<lparr>vm_regs := (vm_regs v)[0 := r0]\<rparr>"
    by (simp add: exec_jmp_def Let_def)
  with helper_maps_ok [OF h assms(2)] show ?thesis by simp
qed

lemma bpf_step_maps_ok:
  assumes "bpf_step env prog pc vm = Ret (npc, vm')" "maps_ok (vm_maps vm)"
  shows "maps_ok (vm_maps vm') \<and> length (vm_maps vm') = length (vm_maps vm)"
proof -
  let ?i = "bp_insns prog ! unat pc"
  show ?thesis
    using assms exec_jmp_maps_ok [of env ?i pc vm npc vm']
    by (cases "exec_alu ?i (vm_regs vm)"; cases "exec_ld ?i (vm_mem vm) (vm_regs vm)";
        cases "exec_st ?i (vm_regs vm) (vm_mem vm)")
       (auto simp: bpf_step_def Let_def split: if_splits)
qed

lemma bpf_loop_maps_ok:
  "bpf_loop fuel env prog pc vm = Some (Ret (r, vm')) \<Longrightarrow> maps_ok (vm_maps vm) \<Longrightarrow>
   maps_ok (vm_maps vm') \<and> length (vm_maps vm') = length (vm_maps vm)"
proof (induction fuel arbitrary: pc vm)
  case 0
  then show ?case by (auto split: if_splits)
next
  case (Suc fuel)
  show ?case
  proof (cases "pc < ucast (bp_insn_cnt prog)")
    case False
    with Suc.prems show ?thesis by simp
  next
    case True
    with Suc.prems obtain npc v where s: "bpf_step env prog pc vm = Ret (npc, v)"
      by (cases "bpf_step env prog pc vm") auto
    note m = bpf_step_maps_ok [OF s Suc.prems(2)]
    show ?thesis
    proof (cases npc)
      case None
      with s m True Suc.prems show ?thesis by simp
    next
      case (Some pc')
      with s True Suc.prems(1) have "bpf_loop fuel env prog pc' v = Some (Ret (r, vm'))" by simp
      from Suc.IH [OF this] m show ?thesis by simp
    qed
  qed
qed

lemma map_create_inv:
  assumes "sub_inv s" shows "sub_inv (snd (map_create ty ks vs n s))"
proof (cases "bpf_map_create ty ks vs n")
  case (Some m)
  with assms bpf_map_create_ok(1) [OF Some] show ?thesis
    by (auto simp: map_create_def Let_def sub_inv_def maps_ok_def bt.wf_insert bt.lookup_insert bt.size_insert)
qed (use assms in \<open>simp add: map_create_def\<close>)

lemma prog_load_inv:
  assumes "sub_inv s" "length insns < 2 ^ 32"
  shows "sub_inv (snd (prog_load ty insns s))"
proof (cases "bs_verifier s = Some verify \<and> verify (bpf_prog_new ty insns) = Inr ()")
  case True
  then have "prog_ok ((bpf_prog_new ty insns)\<lparr>bp_verified := True\<rparr>)"
    using prog_wf_new [OF assms(2), of ty] by (simp add: prog_ok_def prog_wf_def)
  with True assms(1) show ?thesis
    by (simp add: prog_load_def Let_def sub_inv_def bt.wf_insert bt.lookup_insert bt.size_insert)
next
  case False
  then have "snd (prog_load ty insns s) = s"
    using assms(1) by (auto simp: prog_load_def Let_def sub_inv_def split: sum.split)
  with assms(1) show ?thesis by simp
qed

lemma map_update_elem_inv:
  assumes "sub_inv s" "map_update_elem fd key val s = Ret (r, s')" shows "sub_inv s'"
proof (cases "bt_get (bs_maps s) fd")
  case None
  with assms show ?thesis by (simp add: map_update_elem_def)
next
  case (Some m)
  with assms(2) obtain ok m' where u: "bpf_map_update m key val = Ret (ok, m')"
    "s' = s\<lparr>bs_maps := bt_insert fd m' (bs_maps s)\<rparr>"
    by (cases "bpf_map_update m key val") (auto simp: map_update_elem_def)
  have "maps_ok (bs_maps s)" "bpf_map_wf m" using assms(1) Some by (auto simp: sub_inv_def maps_ok_def)
  from maps_ok_replace [OF this(1) Some map_update_keeps_wf [OF this(2) u(1)]] assms(1)
  show ?thesis by (simp add: u(2) sub_inv_def)
qed

lemma map_delete_elem_inv:
  assumes "sub_inv s" "map_delete_elem fd key s = Ret (r, s')"
    and "\<And>m. bt_get (bs_maps s) fd = Some m \<Longrightarrow> length key = unat (md_key_size (bpf_map_def_of m))"
  shows "sub_inv s'"
proof (cases "bt_get (bs_maps s) fd")
  case None
  with assms show ?thesis by (simp add: map_delete_elem_def)
next
  case (Some m)
  with assms(2) obtain ok m' where u: "bpf_map_delete m key = Ret (ok, m')"
    "s' = s\<lparr>bs_maps := bt_insert fd m' (bs_maps s)\<rparr>"
    by (cases "bpf_map_delete m key") (auto simp: map_delete_elem_def)
  have "maps_ok (bs_maps s)" "bpf_map_wf m" using assms(1) Some by (auto simp: sub_inv_def maps_ok_def)
  from maps_ok_replace [OF this(1) Some map_delete_keeps_wf [OF this(2) assms(3) [OF Some] u(1)]] assms(1)
  show ?thesis by (simp add: u(2) sub_inv_def)
qed

lemma sys_map_lookup_inv:
  assumes "sys_map_lookup attr sz w = Ret (r, w')" shows "bw_sub w' = bw_sub w"
proof -
  have "bw_sub w' = bw_sub w"
    if "panic_bind x (\<lambda>(a, b). Ret (a, if a = 0 then w\<lparr>bw_mem := f b\<rparr> else w)) = Ret (r, w')"
    for x :: "(i64 \<times> u8 list) panics" and f
    using that by (cases x) (auto split: if_splits)
  with assms show ?thesis
    by (auto simp: sys_map_lookup_def Let_def split: if_splits option.splits)
qed

lemma panic_bind_RetD: "panic_bind x f = Ret y \<Longrightarrow> \<exists>a. x = Ret a \<and> f a = Ret y"
  by (cases x) auto

lemma sys_bpf_inv:
  assumes inv: "sub_inv (bw_sub w)" and s: "sys_bpf cmd attr sz w = Ret (r, w')"
  shows "sub_inv (bw_sub w')"
proof -
  consider (none) "w' = w" | (create) "sys_map_create attr sz w = Ret (r, w')"
    | (lookup) "sys_map_lookup attr sz w = Ret (r, w')" | (update) "sys_map_update attr sz w = Ret (r, w')"
    | (delete) "sys_map_delete attr sz w = Ret (r, w')" | (load) "sys_prog_load attr sz w = Ret (r, w')"
    using s by (auto simp: sys_bpf_def split: if_splits)
  then show ?thesis
  proof cases
    case none
    with inv show ?thesis by simp
  next
    case create
    with inv map_create_inv [OF inv] show ?thesis
      by (auto simp: sys_map_create_def Let_def split_beta split: if_splits option.splits)
  next
    case lookup
    with inv sys_map_lookup_inv show ?thesis by simp
  next
    case update
    with inv map_update_elem_inv [OF inv] show ?thesis
      by (auto simp: sys_map_update_def Let_def split: if_splits option.splits dest!: panic_bind_RetD)
  next
    case delete
    with inv show ?thesis
      by (auto simp: sys_map_delete_def Let_def split: if_splits option.splits dest!: panic_bind_RetD)
         (erule map_delete_elem_inv [OF inv], simp)
  next
    case load
    have "length (read_insns mem a (unat n)) < 2 ^ 32" for mem a and n :: u32
      using unat_bound [of n] by (simp add: read_insns_def)
    with load inv prog_load_inv [OF inv] show ?thesis
      by (auto simp: sys_prog_load_def Let_def split_beta split: if_splits option.splits)
  qed
qed

lemma prog_run_inv:
  assumes inv: "sub_inv (bw_sub w)" and r: "prog_run fuel env fd ctx stk w = Some (Ret (r, w'))"
  shows "sub_inv (bw_sub w')"
proof (cases "\<exists>p. bt_get (bs_progs (bw_sub w)) fd = Some p \<and> bp_verified p")
  case False
  with r have "w' = w" by (auto simp: prog_run_def Let_def split: option.splits if_splits)
  with inv show ?thesis by simp
next
  case True
  then obtain p where p: "bt_get (bs_progs (bw_sub w)) fd = Some p" "bp_verified p" by blast
  with r obtain vm' where vm: "bpf_run fuel env p ctx stk (bw_vm w) = Some (Ret (r, vm'))"
    "bw_sub w' = (bw_sub w)\<lparr>bs_maps := vm_maps vm'\<rparr>"
    by (auto simp: prog_run_def Let_def split: option.splits panics.splits)
  have "vm_maps (bpf_vm_start ctx stk (bw_vm w)) = bs_maps (bw_sub w)"
    by (simp add: bpf_vm_start_def bw_vm_def)
  with bpf_loop_maps_ok [OF vm(1) [unfolded bpf_run_def]] inv show ?thesis
    by (simp add: vm(2) sub_inv_def)
qed

lemma bpf_step_inv: "bpf_sys_step w w' \<Longrightarrow> sub_inv (bw_sub w) \<Longrightarrow> sub_inv (bw_sub w')"
proof (induction rule: bpf_sys_step.induct)
  case (step_sys cmd attr sz w r w')
  then show ?case by (rule sys_bpf_inv [rotated])
next
  case (step_run fuel env fd ctx stk w r w')
  then show ?case by (rule prog_run_inv [rotated])
qed (simp_all add: bpf_init_def set_verifier_def sub_inv_def)

lemma bpf_reachable_inv: "bpf_reachable w \<Longrightarrow> sub_inv (bw_sub w)"
  by (induction rule: bpf_reachable.induct)
     (simp add: bpf_world_init_def sub_inv_new, blast intro: bpf_step_inv)

end
