(* ===== verification/Ebpf_Props.thy ===== *)
theory Ebpf_Props
  imports Ebpf_Sys
begin

text \<open>
  The properties of the eBPF components: what the standard verifier guarantees about the
  programs the subsystem runs, the maps as finite maps, the ALU.  The last section evaluates
  the verifier and the interpreter on small programs where the rules stated in the source's
  comments and its behaviour differ.
\<close>

section \<open>A loaded program\<close>

definition demo_insns :: "bpf_insn list" where
  "demo_insns = [bpf_insn_new 0x18 0 0 0 7, bpf_insn_new 0x95 0 0 0 0]"

definition demo_mem :: memory where
  "demo_mem =
     write_mem (write_mem (\<lambda>_. 0) 0x1000 (to_le_bytes 8 (0x200000001 :: u64) @ to_le_bytes 8 (0x2000 :: u64)))
       0x2000 [0x18, 0, 0, 0, 7, 0, 0, 0, 0x95, 0, 0, 0, 0, 0, 0, 0]"

definition demo_start :: bpf_world where
  "demo_start =
     (bpf_world_init demo_mem)\<lparr>bw_sub := set_verifier verify (bpf_init bpf_subsystem_new)\<rparr>"

definition demo_world :: bpf_world where
  "demo_world = (case sys_bpf 5 0x1000 24 demo_start of Ret (r, w) \<Rightarrow> w | Panic \<Rightarrow> demo_start)"

definition demo_env :: bpf_env where
  "demo_env = \<lparr>env_tsc = (\<lambda>_. 0), env_cpu_id = 0\<rparr>"

lemma demo_start_reachable: "bpf_reachable demo_start"
proof -
  let ?w0 = "bpf_world_init demo_mem"
  let ?w1 = "?w0\<lparr>bw_sub := bpf_init (bw_sub ?w0)\<rparr>"
  have "bpf_reachable ?w1" by (rule reach_step [OF reach_init step_init])
  then have "bpf_reachable (?w1\<lparr>bw_sub := set_verifier verify (bw_sub ?w1)\<rparr>)"
    by (rule reach_step [OF _ step_verifier])
  then show ?thesis by (simp add: demo_start_def bpf_world_init_def)
qed

lemma demo_world_reachable: "bpf_reachable demo_world"
proof (cases "sys_bpf 5 0x1000 24 demo_start")
  case Panic
  with demo_start_reachable show ?thesis by (simp add: demo_world_def)
next
  case (Ret rw)
  then obtain r w where "sys_bpf 5 0x1000 24 demo_start = Ret (r, w)" by (cases rw) simp
  with reach_step [OF demo_start_reachable step_sys [OF this]] show ?thesis
    by (simp add: demo_world_def)
qed

lemma demo_world_prog:
  "map_option bp_insns (get_prog 1 (bw_sub demo_world)) = Some demo_insns"
  by code_simp

section \<open>Properties\<close>



text \<open>C36: A loaded program without backward jumps returns: as many loop iterations as it has
  instructions are enough.\<close>

theorem forward_run_returns:
  assumes "bpf_reachable w" "get_prog fd (bw_sub w) = Some p" "forward_only p"
  shows "\<exists>r w'. prog_run (length (bp_insns p)) env fd ctx stk w = Some (Ret (r, w'))"
proof -
  have p: "prog_ok p" using bpf_reachable_inv [OF assms(1)] assms(2) by (simp add: sub_inv_def get_prog_def)
  then obtain r vm' where "bpf_run (length (bp_insns p)) env p ctx stk (bw_vm w) = Some (Ret (r, vm'))"
    using bpf_loop_forward [OF _ _ assms(3) vm_ok_start, of 0 "length (bp_insns p)"]
    unfolding prog_ok_def bpf_run_def by fastforce
  with p assms(2) show ?thesis by (simp add: prog_run_def get_prog_def prog_ok_def)
qed

theorem forward_run_returns_witness:
  "\<exists>p r w'. get_prog 1 (bw_sub demo_world) = Some p
     \<and> prog_run (length (bp_insns p)) demo_env 1 0 0x8000 demo_world = Some (Ret (r, w'))"
proof -
  obtain p where p: "get_prog 1 (bw_sub demo_world) = Some p" "bp_insns p = demo_insns"
    using demo_world_prog by auto
  have "\<forall>i \<in> set demo_insns. \<not> is_branch i" by code_simp
  with p have "forward_only p" by (simp add: forward_only_def)
  with forward_run_returns [OF demo_world_reachable p(1)] p(1) show ?thesis by blast
qed

text \<open>Every program the subsystem holds was accepted by the verifier: its registers and its
  jump targets are in range, and at most 1024 programs and 1024 maps are held.\<close>

theorem loaded_programs_checked:
  assumes "bpf_reachable w" "get_prog fd (bw_sub w) = Some p" "i < length (bp_insns p)"
  shows "bp_verified p \<and> verify p = Inr () \<and> insn_static_ok (length (bp_insns p)) i (bp_insns p ! i)
    \<and> length (bs_progs (bw_sub w)) \<le> 1024 \<and> length (bs_maps (bw_sub w)) \<le> 1024"
  using bpf_reachable_inv [OF assms(1)] assms(2,3) verify_insns_ok [of p i]
  by (auto simp: sub_inv_def get_prog_def prog_ok_def BPF_MAX_PROGS_def BPF_MAX_MAPS_def)

theorem loaded_programs_checked_witness:
  "\<exists>p. get_prog 1 (bw_sub demo_world) = Some p \<and> bp_insns p = demo_insns
     \<and> insn_static_ok (length (bp_insns p)) 0 (bp_insns p ! 0)"
proof -
  obtain p where p: "get_prog 1 (bw_sub demo_world) = Some p" "bp_insns p = demo_insns"
    using demo_world_prog by auto
  then have "0 < length (bp_insns p)" by (simp add: demo_insns_def)
  with loaded_programs_checked [OF demo_world_reachable p(1), of 0] p show ?thesis by blast
qed

text \<open>C35: A map is a finite map from keys to values: a lookup copies the stored value, an update
  stores it exactly when key and value have the declared sizes and there is room, a delete
  removes it, and all keep the map well formed.  None of them panics.\<close>

theorem bpf_map_refines:
  assumes "bpf_map_wf m" "length key = key_size_of m"
  shows "bpf_map_lookup m key out =
      (case map_view m key of Some v \<Rightarrow> Ret (True, copy_value v out) | None \<Rightarrow> Ret (False, out))
    \<and> (\<exists>m'. bpf_map_update m key val = Ret (map_admits m key \<and> length val = value_size_of m, m')
         \<and> bpf_map_wf m' \<and> map_view m' = (if map_admits m key \<and> length val = value_size_of m
             then (map_view m)(key \<mapsto> val) else map_view m))
    \<and> (\<exists>r m'. bpf_map_delete m key = Ret (r, m') \<and> bpf_map_wf m' \<and> map_view m' = (map_view m)(key := None))"
  using bpf_map_lookup_view [OF assms(1)] bpf_map_update_view [OF assms(1), of key val]
    bpf_map_delete_view [OF assms] by blast

definition demo_map :: bpf_map where
  "demo_map = ArrayMap \<lparr>md_map_type = MtArray, md_key_size = 2, md_value_size = 1, md_max_entries = 3\<rparr>
     [None, Some [9], None]"

theorem bpf_map_refines_witness:
  "bpf_map_lookup demo_map [1, 0] [0] = Ret (True, [9])"
proof -
  have "bpf_map_wf demo_map \<and> length [1, 0 :: u8] = key_size_of demo_map"
    "map_view demo_map [1, 0] = Some [9]" "copy_value [9] [0] = [9 :: u8]"
    by (auto simp: demo_map_def key_size_of_def array_index_def key_to_index_def copy_value_def)
  then show ?thesis using bpf_map_refines [of demo_map "[1, 0]" "[0]"] by simp
qed

text \<open>The constants the verifier tracks are the machine's values: when an instruction other
  than a 32-bit ALU operation or a helper call is accepted and executed, every tracked register
  still holds a value in its range.\<close>

theorem range_tracking_sound:
  assumes "check_insn ipc cnt insn vs = Inr vs'" "tracked_insn insn"
    "bp_insns prog ! unat pc = insn" "bpf_step env prog pc vm = Ret (npc, vm')"
    "regs_ok vs (vm_regs vm)"
  shows "regs_ok vs' (vm_regs vm')"
  by (rule check_insn_step_sound [OF assms])

theorem range_tracking_sound_witness:
  "\<exists>vs' npc vm'. check_insn 0 2 (bpf_insn_new 0x18 0 0 0 7) verifier_start = Inr vs'
     \<and> bpf_step demo_env (bpf_prog_new SocketFilter demo_insns) 0 (bpf_vm_start 0 0x8000 (bw_vm demo_start))
       = Ret (npc, vm') \<and> regs_ok vs' (vm_regs vm')"
proof -
  let ?i = "bpf_insn_new 0x18 0 0 0 7" and ?p = "bpf_prog_new SocketFilter demo_insns"
  let ?vm = "bpf_vm_start 0 0x8000 (bw_vm demo_start)"
  have c: "case check_insn 0 2 ?i verifier_start of Inr _ \<Rightarrow> True | Inl _ \<Rightarrow> False" "tracked_insn ?i"
    by code_simp+
  then obtain vs' where vs: "check_insn 0 2 ?i verifier_start = Inr vs'"
    by (cases "check_insn 0 2 ?i verifier_start") auto
  have len: "length (bp_insns ?p) = unat (2 :: u32)" by (simp add: bpf_prog_new_def demo_insns_def)
  have i: "bp_insns ?p ! unat (0 :: u64) = ?i" by (simp add: bpf_prog_new_def demo_insns_def)
  have "insn_static_ok (length (bp_insns ?p)) (unat (0 :: u64)) (bp_insns ?p ! unat (0 :: u64))"
    using check_insn_ok [OF vs] unfolding i len by simp
  then obtain npc vm' where s: "bpf_step demo_env ?p 0 ?vm = Ret (npc, vm')"
    using bpf_step_ok [of ?p 0 ?vm demo_env] vm_ok_start by (auto simp: bpf_prog_new_def demo_insns_def)
  from range_tracking_sound [OF vs c(2) i s regs_ok_start] vs s show ?thesis by blast
qed

lemma unat_ucast_u32: "unat (ucast (x :: u32) :: u64) < 2 ^ 32"
  using unat_bound [of x] by (simp add: unsigned_ucast_eq take_bit_nat_eq_self)

lemma alu_result_div_zero:
  "in_op insn AND 0xf0 = ALU_DIV \<or> in_op insn AND 0xf0 = ALU_MOD \<Longrightarrow> alu_result insn d 0 = 0"
  by (auto simp: alu_result_def Let_def)

lemma exec_alu_result:
  assumes "exec_alu insn regs = Ret regs'"
  shows "\<exists>r. regs' = regs[unat (insn_dst insn) := if insn_class insn = OP_ALU64 then r else ucast (ucast r :: u32)]
    \<and> unat (insn_dst insn) < length regs
    \<and> (in_op insn AND SRC_X \<noteq> 0 \<longrightarrow> r = alu_result insn (regs ! unat (insn_dst insn)) (regs ! unat (insn_src insn)))"
  using assms unfolding exec_alu_def Let_def by (auto split: if_splits)

text \<open>An ALU instruction changes the destination register only; a 32-bit one leaves a value
  below \<open>2 ^ 32\<close> there, and division or remainder by a zero register gives zero.\<close>

theorem exec_alu_semantics:
  assumes "exec_alu insn regs = Ret regs'"
  shows "(\<forall>i. i \<noteq> unat (insn_dst insn) \<longrightarrow> regs' ! i = regs ! i)
    \<and> (insn_class insn = OP_ALU \<longrightarrow> unat (regs' ! unat (insn_dst insn)) < 2 ^ 32)
    \<and> ((in_op insn AND 0xf0 = ALU_DIV \<or> in_op insn AND 0xf0 = ALU_MOD) \<and> in_op insn AND SRC_X \<noteq> 0
        \<and> regs ! unat (insn_src insn) = 0 \<longrightarrow> regs' ! unat (insn_dst insn) = 0)"
proof -
  obtain r where r: "regs' = regs[unat (insn_dst insn) := if insn_class insn = OP_ALU64 then r else ucast (ucast r :: u32)]"
    "unat (insn_dst insn) < length regs"
    "in_op insn AND SRC_X \<noteq> 0 \<longrightarrow> r = alu_result insn (regs ! unat (insn_dst insn)) (regs ! unat (insn_src insn))"
    using exec_alu_result [OF assms] by blast
  have "insn_class insn = OP_ALU \<Longrightarrow> unat (regs' ! unat (insn_dst insn)) < 2 ^ 32"
    using r(1,2) unat_ucast_u32 [of "ucast r"] by simp
  moreover have "regs' ! unat (insn_dst insn) = 0"
    if "in_op insn AND 0xf0 = ALU_DIV \<or> in_op insn AND 0xf0 = ALU_MOD" "in_op insn AND SRC_X \<noteq> 0"
      "regs ! unat (insn_src insn) = 0"
    using r that alu_result_div_zero [OF that(1)] by simp
  ultimately show ?thesis using r(1) by simp
qed

theorem exec_alu_semantics_witness:
  "\<exists>regs'. exec_alu (bpf_insn_new 0x3c 2 3 0 0) (replicate 11 (2 ^ 40)) = Ret regs'
     \<and> unat (regs' ! 2) < 2 ^ 32"
proof -
  have "exec_alu (bpf_insn_new 0x3c 2 3 0 0) (replicate 11 (2 ^ 40)) = Ret ((replicate 11 (2 ^ 40))[2 := 1])"
    "insn_class (bpf_insn_new 0x3c 2 3 0 0) = OP_ALU" "unat (insn_dst (bpf_insn_new 0x3c 2 3 0 0)) = 2"
    by code_simp+
  with exec_alu_semantics [OF this(1)] show ?thesis by simp
qed

section \<open>Divergences shown on concrete programs\<close>

text \<open>The smallest program of the verifier's own test, \<^verbatim>\<open>MOV R0, 1; EXIT\<close>, is rejected: the
  destination of a move must already be initialised.\<close>

lemma minimal_program_rejected:
  "verify (bpf_prog_new SocketFilter [bpf_insn_new 0xb7 0 0 0 1, bpf_insn_new 0x95 0 0 0 0])
   = Inl (UseOfUninit 0 0)"
  by code_simp

text \<open>A jump to itself is no backward jump for the verifier (\<^verbatim>\<open>target < pc\<close>); the program is
  accepted and never ends.\<close>

definition self_loop :: bpf_prog where
  "self_loop = bpf_prog_new SocketFilter [bpf_insn_new 0x05 0 0 (- 1) 0, bpf_insn_new 0x95 0 0 0 0]"

lemma self_loop_never_ends:
  "verify self_loop = Inr () \<and> bpf_run fuel env self_loop ctx stk vm = None"
proof -
  have v: "verify self_loop = Inr ()" by code_simp
  have i: "bp_insns self_loop ! 0 = bpf_insn_new 0x05 0 0 (- 1) 0" "length (bp_insns self_loop) = 2"
    "bp_insn_cnt self_loop = 2"
    by (simp_all add: self_loop_def bpf_prog_new_def)
  have c: "insn_class (bpf_insn_new 0x05 0 0 (- 1) 0) = OP_JMP"
    "in_op (bpf_insn_new 0x05 0 0 (- 1) 0) AND 0xf0 = JMP_JA"
    "jump_target 0 (bpf_insn_new 0x05 0 0 (- 1) 0) = 0"
    by code_simp+
  have s: "bpf_step env self_loop 0 vm = Ret (Some 0, vm)" for vm
    using c by (simp add: bpf_step_def i exec_jmp_def)
  have "bpf_loop fuel env self_loop 0 vm = None" for vm
    by (induction fuel) (simp_all add: i s)
  with v show ?thesis by (simp add: bpf_run_def)
qed

text \<open>The frame pointer R10 may be changed by an ALU instruction, and a store through a copy of it
  is accepted at any offset.\<close>

lemma frame_pointer_writable:
  "verify (bpf_prog_new SocketFilter [bpf_insn_new 0x07 10 0 0 8, bpf_insn_new 0x95 0 0 0 0]) = Inr ()"
  by code_simp

lemma stack_store_unchecked:
  "verify (bpf_prog_new SocketFilter
     [bpf_insn_new 0x18 2 0 0 0, bpf_insn_new 0xbf 2 10 0 0, bpf_insn_new 0x7b 2 1 0x7000 0,
      bpf_insn_new 0x95 0 0 0 0]) = Inr ()"
  by code_simp

text \<open>A 32-bit move of a negative constant: the verifier tracks the sign-extended value, the
  machine holds the zero-extended one.\<close>

lemma alu32_move_untracked:
  "(case check_alu 0 (bpf_insn_new 0xb4 1 0 0 (- 1)) verifier_start of
      Inr vs \<Rightarrow> rs_range (vs_regs vs ! 1) = Some (- 1, - 1) | Inl _ \<Rightarrow> False)
   \<and> exec_alu (bpf_insn_new 0xb4 1 0 0 (- 1)) (replicate 11 0) = Ret ((replicate 11 0)[1 := 0xffffffff])"
  by code_simp

end
