(* ===== verification/Leb128.thy ===== *)
theory Leb128
  imports Prelude
begin

text \<open>
  The LEB128 readers of \<^verbatim>\<open>src/src/kernel/services/wasm/leb128.rs\<close>.  The position is the
  \<^verbatim>\<open>&mut usize\<close> argument: a reader returns its result together with the new position.  The
  two signed readers are the same text at 32 and at 64 bits; they share the polymorphic loop
  \<open>leb_signed_loop\<close>.  \<open>uleb\<close> and \<open>sleb\<close> are the encodings of the LEB128 format, on unbounded
  integers.
\<close>

datatype wasm_error =
    InvalidMagic | InvalidVersion | Truncated | Leb128Overflow
  | UnknownSection u8 | UnknownOpcode u8
  | TypeMismatch | StackUnderflow | StackOverflow | DivisionByZero | IntegerOverflow
  | MemoryOutOfBounds | MemoryGrowFailed | CallDepthExceeded | GasExhausted | Unreachable
  | BadExport | BadImport | FunctionNotFound | BadTypeIndex nat | BadFuncIndex nat
  | InternalError | Terminated

section \<open>Readers\<close>

function leb_u32_loop :: "u8 list \<Rightarrow> nat \<Rightarrow> u32 \<Rightarrow> nat \<Rightarrow> (wasm_error + u32) \<times> nat" where
  "leb_u32_loop bytes pos result shift =
     (if length bytes \<le> pos then (Inl Truncated, pos)
      else
        let byte = bytes ! pos;
            result' = result OR push_bit shift (ucast (byte AND 0x7F)) in
        if byte AND 0x80 = 0 then (Inr result', pos + 1)
        else if 32 \<le> shift + 7 then (Inl Leb128Overflow, pos + 1)
        else leb_u32_loop bytes (pos + 1) result' (shift + 7))"
  by pat_completeness auto
termination
  by (relation "measure (\<lambda>(bytes, pos, result, shift). length bytes - pos)") auto

definition read_leb128_u32 :: "u8 list \<Rightarrow> nat \<Rightarrow> (wasm_error + u32) \<times> nat" where
  "read_leb128_u32 bytes pos = leb_u32_loop bytes pos 0 0"

function leb_signed_loop :: "u8 list \<Rightarrow> nat \<Rightarrow> 'a::len word \<Rightarrow> nat \<Rightarrow> (wasm_error + 'a word) \<times> nat" where
  "leb_signed_loop bytes pos result shift =
     (if length bytes \<le> pos then (Inl Truncated, pos)
      else
        let byte = bytes ! pos;
            result' = result OR push_bit shift (ucast (byte AND 0x7F));
            shift' = shift + 7 in
        if byte AND 0x80 = 0 then
          (Inr (if shift' < LENGTH('a) \<and> byte AND 0x40 \<noteq> 0
                then result' OR push_bit shift' (NOT 0) else result'), pos + 1)
        else if LENGTH('a) \<le> shift' then (Inl Leb128Overflow, pos + 1)
        else leb_signed_loop bytes (pos + 1) result' shift')"
  by pat_completeness auto
termination
  by (relation "measure (\<lambda>(bytes, pos, result, shift). length bytes - pos)") auto

definition read_leb128_i32 :: "u8 list \<Rightarrow> nat \<Rightarrow> (wasm_error + i32) \<times> nat" where
  "read_leb128_i32 bytes pos = leb_signed_loop bytes pos 0 0"

definition read_leb128_i64 :: "u8 list \<Rightarrow> nat \<Rightarrow> (wasm_error + i64) \<times> nat" where
  "read_leb128_i64 bytes pos = leb_signed_loop bytes pos 0 0"

definition read_name :: "u8 list \<Rightarrow> nat \<Rightarrow> (wasm_error + u8 list) \<times> nat" where
  "read_name bytes pos =
     (case read_leb128_u32 bytes pos of
        (Inl e, pos') \<Rightarrow> (Inl e, pos')
      | (Inr len, pos') \<Rightarrow>
          if length bytes < pos' + unat len then (Inl Truncated, pos')
          else (Inr (take (unat len) (drop pos' bytes)), pos' + unat len))"

declare leb_u32_loop.simps [simp del] leb_signed_loop.simps [simp del]

section \<open>The format\<close>

definition low7 :: "int \<Rightarrow> u8" where
  "low7 x = word_of_int (take_bit 7 x)"

function uleb :: "int \<Rightarrow> u8 list" where
  "uleb x = (if x < 128 then [low7 x] else (low7 x OR 0x80) # uleb (drop_bit 7 x))"
  by pat_completeness auto
termination
  by (relation "measure nat") (auto simp: drop_bit_eq_div)

function sleb :: "int \<Rightarrow> u8 list" where
  "sleb x = (if - 64 \<le> x \<and> x < 64 then [low7 x] else (low7 x OR 0x80) # sleb (drop_bit 7 x))"
  by pat_completeness auto
termination
  by (relation "measure (\<lambda>x. nat \<bar>x\<bar>)") (auto simp: drop_bit_eq_div abs_if)

declare uleb.simps [simp del] sleb.simps [simp del]

section \<open>Bits\<close>

lemma bit_low7: "bit (low7 x) i \<longleftrightarrow> i < 7 \<and> bit x i"
  by (auto simp: low7_def bit_word_of_int_iff bit_take_bit_iff)

lemma bit_and_0x7F: "bit (b AND 0x7F :: u8) i \<longleftrightarrow> i < 7 \<and> bit b i"
proof -
  have e: "(0x7F :: u8) = mask 7" by (simp add: mask_eq_exp_minus_1)
  show ?thesis
    unfolding e bit_and_iff bit_mask_iff by (auto dest: bit_imp_le_length)
qed

lemma bit_or_0x80: "bit (b OR 0x80 :: u8) i \<longleftrightarrow> i = 7 \<or> bit b i"
proof -
  have e: "(0x80 :: u8) = 2 ^ 7" by simp
  show ?thesis
    unfolding e bit_or_iff bit_exp_iff by auto
qed

lemma low7_flags:
  "low7 x AND 0x80 = 0" "(low7 x OR 0x80) AND 0x80 \<noteq> 0" "low7 x AND 0x40 \<noteq> 0 \<longleftrightarrow> bit x 6"
proof -
  have e: "(0x80 :: u8) = 2 ^ 7" "(0x40 :: u8) = 2 ^ 6" by simp_all
  show "low7 x AND 0x80 = 0" "low7 x AND 0x40 \<noteq> 0 \<longleftrightarrow> bit x 6"
    unfolding e and_exp_eq_0_iff_not_bit by (simp_all add: bit_low7)
  have "bit (low7 x OR 2 ^ 7) 7" by (simp only: bit_or_iff bit_exp_iff) simp
  then show "(low7 x OR 0x80) AND 0x80 \<noteq> 0"
    unfolding e and_exp_eq_0_iff_not_bit by simp
qed

lemma bit_payload:
  assumes "b = low7 x \<or> b = low7 x OR 0x80"
  shows "bit (b AND 0x7F) i \<longleftrightarrow> i < 7 \<and> bit x i"
  using assms unfolding bit_and_0x7F by (auto simp only: bit_or_0x80 bit_low7)

lemma bit_chunk:
  assumes "b = low7 x \<or> b = low7 x OR 0x80"
  shows "bit (push_bit shift (ucast (b AND 0x7F)) :: 'a::len word) i \<longleftrightarrow>
    i < LENGTH('a) \<and> shift \<le> i \<and> i < shift + 7 \<and> bit x (i - shift)"
proof -
  have "i - shift < 7 \<longleftrightarrow> i < shift + 7" if "shift \<le> i" using that by linarith
  then show ?thesis
    unfolding bit_push_bit_iff bit_unsigned_iff bit_payload [OF assms] by auto
qed

text \<open>The bits read so far: the low \<open>shift\<close> bits of the number.\<close>

definition bits_read :: "int \<Rightarrow> nat \<Rightarrow> 'a::len word \<Rightarrow> bool" where
  "bits_read x shift result \<longleftrightarrow> (\<forall>i. bit result i \<longleftrightarrow> i < LENGTH('a) \<and> i < shift \<and> bit x i)"

lemma bits_read_0: "bits_read x 0 0"
  by (simp add: bits_read_def)

lemma bits_read_step:
  assumes "bits_read x shift result" "b = low7 (drop_bit shift x) \<or> b = low7 (drop_bit shift x) OR 0x80"
  shows "bits_read x (shift + 7) (result OR push_bit shift (ucast (b AND 0x7F)))"
  unfolding bits_read_def
proof (rule allI)
  fix i
  show "bit (result OR push_bit shift (ucast (b AND 0x7F)) :: 'a word) i \<longleftrightarrow>
      i < LENGTH('a) \<and> i < shift + 7 \<and> bit x i"
    using assms(1) unfolding bits_read_def bit_or_iff bit_chunk [OF assms(2)] bit_drop_bit_eq
    by (cases "i < shift") simp_all
qed

lemma bits_read_complete:
  fixes result :: "'a::len word"
  assumes "bits_read x shift result" "\<And>i. shift \<le> i \<Longrightarrow> i < LENGTH('a) \<Longrightarrow> \<not> bit x i"
  shows "result = word_of_int x"
proof (rule bit_word_eqI)
  fix i assume i: "i < LENGTH('a)"
  with assms(2) [of i] have "i < shift" if "bit x i" using that by (cases "i < shift") auto
  with assms(1) i show "bit result i = bit (word_of_int x :: 'a word) i"
    by (auto simp: bits_read_def bit_word_of_int_iff)
qed

lemma bits_read_sign_extended:
  fixes result :: "'a::len word"
  assumes "bits_read x shift result" "\<And>i. shift \<le> i \<Longrightarrow> bit x i"
  shows "result OR push_bit shift (NOT 0) = word_of_int x"
proof (rule bit_word_eqI)
  fix i assume i: "i < LENGTH('a)"
  have "bit result i \<longleftrightarrow> i < LENGTH('a) \<and> i < shift \<and> bit x i"
    using assms(1) by (simp add: bits_read_def)
  moreover have "bit (NOT 0 :: 'a word) (i - shift)" using i by (simp add: bit_not_iff)
  ultimately show "bit (result OR push_bit shift (NOT 0)) i = bit (word_of_int x :: 'a word) i"
    unfolding bit_or_iff bit_push_bit_iff bit_word_of_int_iff
    using i assms(2) [of i] by (cases "i < shift") simp_all
qed

lemma high_bits_unsigned:
  assumes "0 \<le> drop_bit shift x" "drop_bit shift x < 128" "shift + 7 \<le> i"
  shows "\<not> bit (x :: int) i"
proof -
  have "take_bit 7 (drop_bit shift x) = drop_bit shift x"
    using assms(1,2) by (simp add: take_bit_int_eq_self)
  then have "bit (drop_bit shift x) (i - shift) = bit (take_bit 7 (drop_bit shift x)) (i - shift)" by simp
  moreover have "\<not> i - shift < 7" using assms(3) by linarith
  ultimately show ?thesis using assms(3) by (simp add: bit_drop_bit_eq bit_take_bit_iff)
qed

lemma high_bits_signed:
  assumes "- 64 \<le> drop_bit shift x" "drop_bit shift x < 64" "shift + 6 \<le> i"
  shows "bit (x :: int) i = bit (drop_bit shift x) 6"
proof -
  have "signed_take_bit 6 (drop_bit shift x) = drop_bit shift x"
    using assms(1,2) by (simp add: signed_take_bit_int_eq_self)
  then have "bit (drop_bit shift x) (i - shift) = bit (signed_take_bit 6 (drop_bit shift x)) (i - shift)"
    by simp
  moreover have "min 6 (i - shift) = 6" using assms(3) by simp
  ultimately show ?thesis using assms(3) by (simp add: bit_drop_bit_eq bit_signed_take_bit_iff)
qed

lemma shift_bound:
  assumes "c * 2 ^ s \<le> (x :: int)" "x < c * 2 ^ n" "0 < c"
  shows "s < n"
proof (rule ccontr)
  assume "\<not> s < n"
  then have "(2 :: int) ^ n \<le> 2 ^ s" by (simp add: power_increasing)
  with assms(3) have "c * 2 ^ n \<le> c * 2 ^ s" by simp
  with assms show False by linarith
qed

lemma drop_bit_ge: "c \<le> drop_bit s (x :: int) \<longleftrightarrow> c * 2 ^ s \<le> x"
proof
  have split: "x div 2 ^ s * 2 ^ s + x mod 2 ^ s = x" "0 \<le> x mod 2 ^ s"
    by (simp_all only: div_mult_mod_eq) simp
  assume "c \<le> drop_bit s x"
  then have "c * 2 ^ s \<le> x div 2 ^ s * 2 ^ s" by (simp add: drop_bit_eq_div)
  with split show "c * 2 ^ s \<le> x" by linarith
next
  assume "c * 2 ^ s \<le> x"
  then have "(c * 2 ^ s) div 2 ^ s \<le> x div 2 ^ s" by (rule zdiv_mono1) simp
  then show "c \<le> drop_bit s x" by (simp add: drop_bit_eq_div)
qed

section \<open>Round trips\<close>

lemma leb_u32_loop_uleb:
  assumes "0 \<le> x" "x < 2 ^ 32" "bits_read x shift result" "y = drop_bit shift x"
  shows "leb_u32_loop (pre @ uleb y @ suf) (length pre) result shift
    = (Inr (word_of_int x), length pre + length (uleb y))"
  using assms(3,4)
proof (induction y arbitrary: pre shift result rule: uleb.induct)
  case (1 y)
  have y0: "0 \<le> y" using 1(3) assms(1) by simp
  show ?case
  proof (cases "y < 128")
    case True
    have "bits_read x (shift + 7) (result OR push_bit shift (ucast (low7 y AND 0x7F)))"
      by (rule bits_read_step [OF 1(2)]) (simp add: 1(3))
    then have "result OR push_bit shift (ucast (low7 y AND 0x7F)) = word_of_int x"
      by (rule bits_read_complete) (use high_bits_unsigned [of shift x] y0 True 1(3) in auto)
    then show ?thesis
      using True by (simp add: leb_u32_loop.simps [of "pre @ _"] uleb.simps [of y] nth_append low7_flags
          del: word_ao_dist)
  next
    case False
    let ?b = "low7 y OR 0x80"
    have step: "bits_read x (shift + 7) (result OR push_bit shift (ucast (?b AND 0x7F)))"
      by (rule bits_read_step [OF 1(2)]) (simp add: 1(3))
    have "128 \<le> drop_bit shift x" using False 1(3) by simp
    then have "128 * 2 ^ shift \<le> x" unfolding drop_bit_ge .
    with assms(2) have bound: "shift < 25" using shift_bound [of 128 shift x 25] by simp
    have "drop_bit 7 y = drop_bit (shift + 7) x" using 1(3) by (simp add: add.commute)
    note IH = 1(1) [OF False step this, of "pre @ [?b]"]
    have "leb_u32_loop (pre @ uleb y @ suf) (length pre) result shift =
        leb_u32_loop (pre @ uleb y @ suf) (length pre + 1)
          (result OR push_bit shift (ucast (?b AND 0x7F))) (shift + 7)"
      using False bound low7_flags(2) [of y]
      by (subst leb_u32_loop.simps) (simp add: uleb.simps [of y] nth_append Let_def del: word_ao_dist)
    then show ?thesis using IH False by (simp add: uleb.simps [of y])
  qed
qed

lemma sleb_continues:
  fixes x :: int
  assumes "\<not> (- 64 \<le> drop_bit shift x \<and> drop_bit shift x < 64)"
    and "- (2 ^ (n - 1)) \<le> x" "x < 2 ^ (n - 1)"
  shows "shift + 7 < n"
proof -
  have "shift < n - 7" if "64 * 2 ^ shift \<le> x \<or> x < - (64 * 2 ^ shift)"
  proof -
    have "(64 :: int) * 2 ^ shift < 2 ^ (n - 1)"
      using that assms(2,3) by linarith
    then have "(2 :: int) ^ (shift + 6) < 2 ^ (n - 1)" by (simp add: power_add mult.commute)
    then have "shift + 6 < n - 1" by (rule power_less_imp_less_exp [rotated]) simp
    then show ?thesis by linarith
  qed
  moreover have "64 * 2 ^ shift \<le> x \<or> x < - (64 * 2 ^ shift)"
    using assms(1) drop_bit_ge [of "- 64" shift x] drop_bit_ge [of 64 shift x] by linarith
  ultimately show ?thesis by linarith
qed

lemma leb_signed_loop_sleb:
  fixes result :: "'a::len word"
  assumes "- (2 ^ (LENGTH('a) - 1)) \<le> x" "x < 2 ^ (LENGTH('a) - 1)" "bits_read x shift result"
    "y = drop_bit shift x"
  shows "leb_signed_loop (pre @ sleb y @ suf) (length pre) result shift
    = (Inr (word_of_int x), length pre + length (sleb y))"
  using assms(3,4)
proof (induction y arbitrary: pre shift result rule: sleb.induct)
  case (1 y)
  show ?case
  proof (cases "- 64 \<le> y \<and> y < 64")
    case True
    let ?r = "result OR push_bit shift (ucast (low7 y AND 0x7F))"
    have read: "bits_read x (shift + 7) ?r"
      by (rule bits_read_step [OF 1(2)]) (simp add: 1(3))
    have high: "bit x i = bit y 6" if "shift + 7 \<le> i" for i
      using high_bits_signed [of shift x i] True 1(3) that by simp
    have "(if shift + 7 < LENGTH('a) \<and> bit y 6 then ?r OR push_bit (shift + 7) (NOT 0) else ?r)
        = word_of_int x"
    proof (cases "bit y 6")
      case neg: True
      show ?thesis
      proof (cases "shift + 7 < LENGTH('a)")
        case True
        with neg show ?thesis using bits_read_sign_extended [OF read] high by simp
      next
        case False
        then show ?thesis using bits_read_complete [OF read] by simp
      qed
    next
      case False
      then show ?thesis using bits_read_complete [OF read] high by simp
    qed
    then show ?thesis
      using True unfolding low7_flags(3) [symmetric]
      by (simp add: leb_signed_loop.simps [of "pre @ _"] sleb.simps [of y] nth_append low7_flags(1)
          Let_def del: word_ao_dist)
  next
    case False
    let ?b = "low7 y OR 0x80"
    have step: "bits_read x (shift + 7) (result OR push_bit shift (ucast (?b AND 0x7F)))"
      by (rule bits_read_step [OF 1(2)]) (simp add: 1(3))
    have e: "sleb y = ?b # sleb (drop_bit 7 y)" using False by (subst sleb.simps) auto
    have bound: "shift + 7 < LENGTH('a)"
      by (rule sleb_continues [of shift x]) (use False 1(3) assms(1,2) in auto)
    have "drop_bit 7 y = drop_bit (shift + 7) x" using 1(3) by (simp add: add.commute)
    note IH = 1(1) [OF False step this, of "pre @ [?b]"]
    have "leb_signed_loop (pre @ sleb y @ suf) (length pre) result shift =
        leb_signed_loop (pre @ sleb y @ suf) (length pre + 1)
          (result OR push_bit shift (ucast (?b AND 0x7F))) (shift + 7)"
      using bound low7_flags(2) [of y] unfolding e
      by (subst leb_signed_loop.simps) (simp add: nth_append Let_def del: word_ao_dist)
    then show ?thesis using IH unfolding e by simp
  qed
qed

lemma leb_signed_loop_sint:
  "leb_signed_loop (pre @ sleb (sint w) @ suf) (length pre) 0 0 = (Inr w, length pre + length (sleb (sint w)))"
  for w :: "'a::len word"
proof -
  have "- (2 ^ (LENGTH('a) - 1)) \<le> sint w" "sint w < 2 ^ (LENGTH('a) - 1)"
    by (rule sint_ge, rule sint_lt)
  then show ?thesis
    by (subst leb_signed_loop_sleb [where x = "sint w"]) (simp_all only: bits_read_0 drop_bit_0 id_apply of_int_sint scast_id)
qed

section \<open>Positions\<close>

text \<open>
  Every reader, on any input: it never moves back, never past the end of the input, and reads
  at most as many bytes as fit its width.  A value means that at least one byte was read.
\<close>

lemma leb_u32_loop_pos:
  assumes "leb_u32_loop bytes pos result shift = (r, pos')" "pos \<le> length bytes"
  shows "pos \<le> pos' \<and> pos' \<le> length bytes \<and> (isl r \<or> pos < pos') \<and>
    (shift < 32 \<longrightarrow> 7 * (pos' - pos) < 39 - shift)"
  using assms
proof (induction bytes pos result shift rule: leb_u32_loop.induct)
  case (1 bytes pos result shift)
  let ?result' = "result OR push_bit shift (ucast (bytes ! pos AND 0x7F))"
  show ?case
  proof (cases "length bytes \<le> pos \<or> bytes ! pos AND 0x80 = 0 \<or> 32 \<le> shift + 7")
    case True
    then show ?thesis
      using 1(2,3) by (subst (asm) (1) leb_u32_loop.simps) (auto simp: Let_def split: if_splits)
  next
    case False
    with 1(2) have "leb_u32_loop bytes (pos + 1) ?result' (shift + 7) = (r, pos')"
      by (subst (asm) (1) leb_u32_loop.simps) (simp add: Let_def)
    then have "pos + 1 \<le> pos' \<and> pos' \<le> length bytes \<and> (isl r \<or> pos + 1 < pos') \<and>
        (shift + 7 < 32 \<longrightarrow> 7 * (pos' - (pos + 1)) < 39 - (shift + 7))"
      using False by (intro 1(1)) (auto simp: Let_def)
    then show ?thesis using False by auto
  qed
qed

lemma leb_signed_loop_pos:
  fixes result :: "'a::len word"
  assumes "leb_signed_loop bytes pos result shift = (r, pos')" "pos \<le> length bytes"
  shows "pos \<le> pos' \<and> pos' \<le> length bytes \<and> (isl r \<or> pos < pos') \<and>
    (shift < LENGTH('a) \<longrightarrow> 7 * (pos' - pos) < LENGTH('a) + 7 - shift)"
  using assms
proof (induction bytes pos result shift rule: leb_signed_loop.induct)
  case (1 bytes pos result shift)
  let ?result' = "result OR push_bit shift (ucast (bytes ! pos AND 0x7F))"
  show ?case
  proof (cases "length bytes \<le> pos \<or> bytes ! pos AND 0x80 = 0 \<or> LENGTH('a) \<le> shift + 7")
    case True
    then show ?thesis
      using 1(2,3) by (subst (asm) (1) leb_signed_loop.simps) (auto simp: Let_def split: if_splits)
  next
    case False
    with 1(2) have "leb_signed_loop bytes (pos + 1) ?result' (shift + 7) = (r, pos')"
      by (subst (asm) (1) leb_signed_loop.simps) (simp add: Let_def)
    then have "pos + 1 \<le> pos' \<and> pos' \<le> length bytes \<and> (isl r \<or> pos + 1 < pos') \<and>
        (shift + 7 < LENGTH('a) \<longrightarrow> 7 * (pos' - (pos + 1)) < LENGTH('a) + 7 - (shift + 7))"
      using False by (intro 1(1)) (auto simp: Let_def)
    then show ?thesis using False by auto
  qed
qed

section \<open>Properties\<close>

text \<open>Round trip.  Each LEB128 reader, started on the encoding of a value in the middle of
  any input, returns that value and moves the position just behind the encoding.\<close>

theorem leb128_roundtrip:
  "read_leb128_u32 (pre @ uleb (uint u) @ suf) (length pre) = (Inr u, length pre + length (uleb (uint u)))
   \<and> read_leb128_i32 (pre @ sleb (sint i) @ suf) (length pre) = (Inr i, length pre + length (sleb (sint i)))
   \<and> read_leb128_i64 (pre @ sleb (sint l) @ suf) (length pre) = (Inr l, length pre + length (sleb (sint l)))"
proof (intro conjI)
  have "0 \<le> uint u" "uint u < 2 ^ 32"
    using unsigned_less [of u] by simp_all
  then show "read_leb128_u32 (pre @ uleb (uint u) @ suf) (length pre) = (Inr u, length pre + length (uleb (uint u)))"
    unfolding read_leb128_u32_def
    by (subst leb_u32_loop_uleb [where x = "uint u"]) (simp_all add: bits_read_0)
  show "read_leb128_i32 (pre @ sleb (sint i) @ suf) (length pre) = (Inr i, length pre + length (sleb (sint i)))"
    unfolding read_leb128_i32_def by (rule leb_signed_loop_sint)
  show "read_leb128_i64 (pre @ sleb (sint l) @ suf) (length pre) = (Inr l, length pre + length (sleb (sint l)))"
    unfolding read_leb128_i64_def by (rule leb_signed_loop_sint)
qed

text \<open>A length-prefixed name that is shorter than \<open>2 ^ 32\<close> bytes is read back whatever follows it,
  and the position ends behind its last byte.\<close>

theorem read_name_roundtrip:
  assumes "length name < 2 ^ 32"
  shows "read_name (pre @ uleb (int (length name)) @ name @ suf) (length pre) =
    (Inr name, length pre + length (uleb (int (length name))) + length name)"
proof -
  have "leb_u32_loop (pre @ uleb (int (length name)) @ name @ suf) (length pre) 0 0
      = (Inr (word_of_int (int (length name))), length pre + length (uleb (int (length name))))"
    using assms by (intro leb_u32_loop_uleb) (simp_all add: bits_read_0)
  moreover have "unat (word_of_int (int (length name)) :: u32) = length name"
    by (rule of_nat_inverse) (use assms in simp_all)
  ultimately show ?thesis
    by (simp add: read_name_def read_leb128_u32_def)
qed

theorem read_name_roundtrip_witness:
  "read_name ([0xFF] @ uleb (int (length [0x61, 0x62 :: u8])) @ [0x61, 0x62] @ [0x00]) (length [0xFF :: u8]) =
    (Inr [0x61, 0x62], length [0xFF :: u8] + length (uleb (int (length [0x61, 0x62 :: u8])))
      + length [0x61, 0x62 :: u8])"
  by (rule read_name_roundtrip) simp

text \<open>On every input the readers keep the position inside the input and never move it back; a
  32-bit reader consumes at most five bytes and the 64-bit reader at most ten.\<close>

theorem leb128_positions:
  assumes "pos \<le> length bytes"
  shows "snd (read_leb128_u32 bytes pos) \<in> {pos .. min (length bytes) (pos + 5)}
    \<and> snd (read_leb128_i32 bytes pos) \<in> {pos .. min (length bytes) (pos + 5)}
    \<and> snd (read_leb128_i64 bytes pos) \<in> {pos .. min (length bytes) (pos + 10)}
    \<and> snd (read_name bytes pos) \<in> {pos .. length bytes}"
proof (intro conjI)
  have u: "pos \<le> p \<and> p \<le> length bytes \<and> p \<le> pos + 5" if "read_leb128_u32 bytes pos = (r, p)" for r p
    using leb_u32_loop_pos [of bytes pos 0 0 r p] that assms by (auto simp: read_leb128_u32_def)
  show "snd (read_leb128_u32 bytes pos) \<in> {pos .. min (length bytes) (pos + 5)}"
    using u [of "fst (read_leb128_u32 bytes pos)" "snd (read_leb128_u32 bytes pos)"] by simp
  show "snd (read_leb128_i32 bytes pos) \<in> {pos .. min (length bytes) (pos + 5)}"
    using leb_signed_loop_pos [OF surjective_pairing assms, of "0 :: i32" 0]
    by (auto simp: read_leb128_i32_def)
  show "snd (read_leb128_i64 bytes pos) \<in> {pos .. min (length bytes) (pos + 10)}"
    using leb_signed_loop_pos [OF surjective_pairing assms, of "0 :: i64" 0]
    by (auto simp: read_leb128_i64_def)
  show "snd (read_name bytes pos) \<in> {pos .. length bytes}"
    using u by (auto simp: read_name_def split: prod.splits sum.splits) 
qed

theorem leb128_positions_witness:
  "(1 :: nat) \<le> length [0x80, 0x80 :: u8] \<and> snd (read_leb128_u32 [0x80, 0x80] 1) \<in> {1 .. 2}"
  using leb128_positions [of 1 "[0x80, 0x80]"] by simp

text \<open>The documented overflow error is not raised for the surplus bits of the last byte.\<close>

lemma leb128_u32_drops_bits: "read_leb128_u32 [0x80, 0x80, 0x80, 0x80, 0x10] 0 = (Inr 0, 5)"
  by (simp add: read_leb128_u32_def leb_u32_loop.simps)

end
