(* ===== verification/Errno.thy ===== *)
theory Errno
  imports Prelude
begin

text \<open>
  The error numbers of \<^verbatim>\<open>src/src/kernel/framework/errno.rs\<close>: the enum, its two encodings and the
  three decoders.  A system call returns \<open>as_ret e\<close>, the negated number; callers recover the
  error with \<open>from_ret\<close> (unknown numbers become \<open>EINVAL\<close>) or with \<open>errno_from_i64\<close>.
\<close>

datatype (plugins only: code size) errno =
    EPERM | ENOENT | ESRCH | EINTR | EIO | ENXIO | E2BIG | ENOEXEC | EBADF | ECHILD | EAGAIN
    | ENOMEM | EACCES | EFAULT | ENOTBLK | EBUSY | EEXIST | EXDEV | ENODEV | ENOTDIR
    | EISDIR | EINVAL | ENFILE | EMFILE | ENOTTY | ETXTBSY | EFBIG | ENOSPC | ESPIPE | EROFS
    | EMLINK | EPIPE | EDOM | ERANGE | EDEADLK | ENAMETOOLONG | ENOLCK | ENOSYS | ENOTEMPTY
    | ELOOP | EWOULDBLOCK | ENOMSG | EIDRM | ENOSTR | ENODATA | ETIME | ENOSR | ENONET
    | EPROTO | EBADMSG | EOVERFLOW | ENOTSOCK | EDESTADDRREQ | EMSGSIZE | EPROTOTYPE
    | ENOPROTOOPT | EPROTONOSUPPORT | ESOCKTNOSUPPORT | ENOTSUP | EPFNOSUPPORT
    | EAFNOSUPPORT | EADDRINUSE | EADDRNOTAVAIL | ENETDOWN | ENETUNREACH | ENETRESET
    | ECONNABORTED | ECONNRESET | ENOBUFS | EISCONN | ENOTCONN | ESHUTDOWN | ETIMEDOUT
    | ECONNREFUSED | EHOSTDOWN | EHOSTUNREACH | EALREADY | EINPROGRESS

primrec as_i32 :: "errno \<Rightarrow> i32" where
  "as_i32 EPERM = 1"
| "as_i32 ENOENT = 2"
| "as_i32 ESRCH = 3"
| "as_i32 EINTR = 4"
| "as_i32 EIO = 5"
| "as_i32 ENXIO = 6"
| "as_i32 E2BIG = 7"
| "as_i32 ENOEXEC = 8"
| "as_i32 EBADF = 9"
| "as_i32 ECHILD = 10"
| "as_i32 EAGAIN = 11"
| "as_i32 ENOMEM = 12"
| "as_i32 EACCES = 13"
| "as_i32 EFAULT = 14"
| "as_i32 ENOTBLK = 15"
| "as_i32 EBUSY = 16"
| "as_i32 EEXIST = 17"
| "as_i32 EXDEV = 18"
| "as_i32 ENODEV = 19"
| "as_i32 ENOTDIR = 20"
| "as_i32 EISDIR = 21"
| "as_i32 EINVAL = 22"
| "as_i32 ENFILE = 23"
| "as_i32 EMFILE = 24"
| "as_i32 ENOTTY = 25"
| "as_i32 ETXTBSY = 26"
| "as_i32 EFBIG = 27"
| "as_i32 ENOSPC = 28"
| "as_i32 ESPIPE = 29"
| "as_i32 EROFS = 30"
| "as_i32 EMLINK = 31"
| "as_i32 EPIPE = 32"
| "as_i32 EDOM = 33"
| "as_i32 ERANGE = 34"
| "as_i32 EDEADLK = 35"
| "as_i32 ENAMETOOLONG = 36"
| "as_i32 ENOLCK = 37"
| "as_i32 ENOSYS = 38"
| "as_i32 ENOTEMPTY = 39"
| "as_i32 ELOOP = 40"
| "as_i32 EWOULDBLOCK = 41"
| "as_i32 ENOMSG = 42"
| "as_i32 EIDRM = 43"
| "as_i32 ENOSTR = 60"
| "as_i32 ENODATA = 61"
| "as_i32 ETIME = 62"
| "as_i32 ENOSR = 63"
| "as_i32 ENONET = 64"
| "as_i32 EPROTO = 71"
| "as_i32 EBADMSG = 74"
| "as_i32 EOVERFLOW = 75"
| "as_i32 ENOTSOCK = 88"
| "as_i32 EDESTADDRREQ = 89"
| "as_i32 EMSGSIZE = 90"
| "as_i32 EPROTOTYPE = 91"
| "as_i32 ENOPROTOOPT = 92"
| "as_i32 EPROTONOSUPPORT = 93"
| "as_i32 ESOCKTNOSUPPORT = 94"
| "as_i32 ENOTSUP = 95"
| "as_i32 EPFNOSUPPORT = 96"
| "as_i32 EAFNOSUPPORT = 97"
| "as_i32 EADDRINUSE = 98"
| "as_i32 EADDRNOTAVAIL = 99"
| "as_i32 ENETDOWN = 100"
| "as_i32 ENETUNREACH = 101"
| "as_i32 ENETRESET = 102"
| "as_i32 ECONNABORTED = 103"
| "as_i32 ECONNRESET = 104"
| "as_i32 ENOBUFS = 105"
| "as_i32 EISCONN = 106"
| "as_i32 ENOTCONN = 107"
| "as_i32 ESHUTDOWN = 108"
| "as_i32 ETIMEDOUT = 110"
| "as_i32 ECONNREFUSED = 111"
| "as_i32 EHOSTDOWN = 112"
| "as_i32 EHOSTUNREACH = 113"
| "as_i32 EALREADY = 114"
| "as_i32 EINPROGRESS = 115"

definition as_ret :: "errno \<Rightarrow> i64" where
  "as_ret e = - scast (as_i32 e)"

definition from_ret :: "i64 \<Rightarrow> errno" where
  "from_ret ret = (let errno = - ret in
     if errno = 1 then EPERM
     else if errno = 2 then ENOENT
     else if errno = 3 then ESRCH
     else if errno = 4 then EINTR
     else if errno = 5 then EIO
     else if errno = 6 then ENXIO
     else if errno = 7 then E2BIG
     else if errno = 8 then ENOEXEC
     else if errno = 9 then EBADF
     else if errno = 10 then ECHILD
     else if errno = 11 then EAGAIN
     else if errno = 12 then ENOMEM
     else if errno = 13 then EACCES
     else if errno = 14 then EFAULT
     else if errno = 15 then ENOTBLK
     else if errno = 16 then EBUSY
     else if errno = 17 then EEXIST
     else if errno = 18 then EXDEV
     else if errno = 19 then ENODEV
     else if errno = 20 then ENOTDIR
     else if errno = 21 then EISDIR
     else if errno = 22 then EINVAL
     else if errno = 23 then ENFILE
     else if errno = 24 then EMFILE
     else if errno = 25 then ENOTTY
     else if errno = 26 then ETXTBSY
     else if errno = 27 then EFBIG
     else if errno = 28 then ENOSPC
     else if errno = 29 then ESPIPE
     else if errno = 30 then EROFS
     else if errno = 31 then EMLINK
     else if errno = 32 then EPIPE
     else if errno = 33 then EDOM
     else if errno = 34 then ERANGE
     else if errno = 35 then EDEADLK
     else if errno = 36 then ENAMETOOLONG
     else if errno = 37 then ENOLCK
     else if errno = 38 then ENOSYS
     else if errno = 39 then ENOTEMPTY
     else if errno = 40 then ELOOP
     else if errno = 41 then EWOULDBLOCK
     else if errno = 42 then ENOMSG
     else if errno = 43 then EIDRM
     else if errno = 60 then ENOSTR
     else if errno = 61 then ENODATA
     else if errno = 62 then ETIME
     else if errno = 63 then ENOSR
     else if errno = 64 then ENONET
     else if errno = 71 then EPROTO
     else if errno = 74 then EBADMSG
     else if errno = 75 then EOVERFLOW
     else if errno = 88 then ENOTSOCK
     else if errno = 89 then EDESTADDRREQ
     else if errno = 90 then EMSGSIZE
     else if errno = 91 then EPROTOTYPE
     else if errno = 92 then ENOPROTOOPT
     else if errno = 93 then EPROTONOSUPPORT
     else if errno = 94 then ESOCKTNOSUPPORT
     else if errno = 95 then ENOTSUP
     else if errno = 96 then EPFNOSUPPORT
     else if errno = 97 then EAFNOSUPPORT
     else if errno = 98 then EADDRINUSE
     else if errno = 99 then EADDRNOTAVAIL
     else if errno = 100 then ENETDOWN
     else if errno = 101 then ENETUNREACH
     else if errno = 102 then ENETRESET
     else if errno = 103 then ECONNABORTED
     else if errno = 104 then ECONNRESET
     else if errno = 105 then ENOBUFS
     else if errno = 106 then EISCONN
     else if errno = 107 then ENOTCONN
     else if errno = 108 then ESHUTDOWN
     else if errno = 110 then ETIMEDOUT
     else if errno = 111 then ECONNREFUSED
     else if errno = 112 then EHOSTDOWN
     else if errno = 113 then EHOSTUNREACH
     else if errno = 114 then EALREADY
     else if errno = 115 then EINPROGRESS
     else EINVAL)"

definition try_from_i32 :: "i32 \<Rightarrow> errno option" where
  "try_from_i32 code =
     (if code = 1 then Some EPERM
     else if code = 2 then Some ENOENT
     else if code = 3 then Some ESRCH
     else if code = 4 then Some EINTR
     else if code = 5 then Some EIO
     else if code = 6 then Some ENXIO
     else if code = 7 then Some E2BIG
     else if code = 8 then Some ENOEXEC
     else if code = 9 then Some EBADF
     else if code = 10 then Some ECHILD
     else if code = 11 then Some EAGAIN
     else if code = 12 then Some ENOMEM
     else if code = 13 then Some EACCES
     else if code = 14 then Some EFAULT
     else if code = 15 then Some ENOTBLK
     else if code = 16 then Some EBUSY
     else if code = 17 then Some EEXIST
     else if code = 18 then Some EXDEV
     else if code = 19 then Some ENODEV
     else if code = 20 then Some ENOTDIR
     else if code = 21 then Some EISDIR
     else if code = 22 then Some EINVAL
     else if code = 23 then Some ENFILE
     else None)"

definition errno_from_i64 :: "i64 \<Rightarrow> errno option" where
  "errno_from_i64 rc = (if rc <s 0 then try_from_i32 (ucast (- rc)) else None)"

lemma as_ret_negative: "as_ret e <s 0"
  by (cases e) (simp_all add: as_ret_def word_sless_alt)

lemma errno_from_as_ret: "errno_from_i64 (as_ret e) = (if as_i32 e \<le> 23 then Some e else None)"
proof -
  have "try_from_i32 (as_i32 e) = (if as_i32 e \<le> 23 then Some e else None)"
    by (cases e) (simp_all add: try_from_i32_def)
  moreover have "ucast (- as_ret e) = as_i32 e"
    by (cases e) (simp_all add: as_ret_def)
  ultimately show ?thesis by (simp add: errno_from_i64_def as_ret_negative)
qed

text \<open>Round trip.  The return value of a system call that fails with \<open>e\<close> is negative and
  \<open>from_ret\<close> recovers \<open>e\<close> from it; the second decoder \<open>errno_from_i64\<close> recovers exactly the errors
  numbered up to 23 and gives nothing for the others.\<close>

theorem errno_roundtrip:
  "as_ret e <s 0 \<and> from_ret (as_ret e) = e
   \<and> errno_from_i64 (as_ret e) = (if as_i32 e \<le> 23 then Some e else None)"
proof -
  have "from_ret (as_ret e) = e" by (cases e) (simp_all add: as_ret_def from_ret_def)
  then show ?thesis by (simp add: as_ret_negative errno_from_as_ret)
qed

end
