(* ===== verification/Seccomp.thy ===== *)
theory Seccomp
  imports Errno
begin

text \<open>
  System call filtering: \<^verbatim>\<open>src/src/kernel/services/proc/seccomp.rs\<close>, and the inheritance of the filter
  state by \<^verbatim>\<open>sys_fork\<close> (\<^verbatim>\<open>src/src/kernel/framework/proc/proc_ops.rs\<close>).  The process table is a
  map from process ids to the seccomp state of the process; \<open>with_process\<close> is the bounds check of
  \<^verbatim>\<open>ProcessTable::with_process\<close>.  The signals a check sends are returned as a list of pairs of
  process id and signal number.  \<open>sec_step\<close> is the relation of everything that changes the
  filter state of some process.
\<close>

section \<open>Data\<close>

definition MAX_FILTERS :: nat where "MAX_FILTERS = 4"

definition MAX_PROCESSES :: nat where "MAX_PROCESSES = 256"

definition STRICT_ALLOWED :: "u64 list" where
  "STRICT_ALLOWED = [502, 503, 501, 525, 542]"

datatype seccomp_mode = Disabled | Strict | Filter

primrec seccomp_mode_code :: "seccomp_mode \<Rightarrow> u8" where
  "seccomp_mode_code Disabled = 0"
| "seccomp_mode_code Strict = 1"
| "seccomp_mode_code Filter = 2"

datatype seccomp_action = Allow | KillThread | KillProcess | Trap | SErrno u32 | Log

definition from_linux :: "u32 \<Rightarrow> seccomp_action" where
  "from_linux ret = (let c = ret AND 0xFFFF0000 in
     if c = 0x7FFF0000 then Allow
     else if c = 0x00000000 then KillThread
     else if c = 0x80000000 then KillProcess
     else if c = 0x00030000 then Trap
     else if c = 0x00050000 then SErrno (ret AND 0xFFFF)
     else if c = 0x7FFC0000 then Log
     else Allow)"

primrec to_linux :: "seccomp_action \<Rightarrow> u32" where
  "to_linux Allow = 0x7FFF0000"
| "to_linux KillThread = 0x00000000"
| "to_linux KillProcess = 0x80000000"
| "to_linux Trap = 0x00030000"
| "to_linux (SErrno e) = 0x00050000 OR (e AND 0xFFFF)"
| "to_linux Log = 0x7FFC0000"

definition DEFAULT_ACTION :: seccomp_action where "DEFAULT_ACTION = Allow"

datatype cmp_op = Equal | NotEqual | GreaterThan | GreaterEqual | LessThan | LessEqual | MaskedEqual

record arg_comparator =
  ac_index :: u8
  ac_op :: cmp_op
  ac_value :: u64
  ac_mask :: u64

definition ac_evaluate :: "arg_comparator \<Rightarrow> u64 \<Rightarrow> bool" where
  "ac_evaluate c arg =
     (case ac_op c of
        Equal \<Rightarrow> arg = ac_value c
      | NotEqual \<Rightarrow> arg \<noteq> ac_value c
      | GreaterThan \<Rightarrow> arg > ac_value c
      | GreaterEqual \<Rightarrow> arg \<ge> ac_value c
      | LessThan \<Rightarrow> arg < ac_value c
      | LessEqual \<Rightarrow> arg \<le> ac_value c
      | MaskedEqual \<Rightarrow> arg AND ac_mask c = ac_value c)"

record seccomp_rule =
  sr_syscall_nr :: u64
  sr_arg_comparators :: "arg_comparator list"
  sr_action :: seccomp_action

text \<open>The six arguments of a call are a list of length six.\<close>

definition rule_matches :: "seccomp_rule \<Rightarrow> u64 \<Rightarrow> u64 list \<Rightarrow> bool" where
  "rule_matches r syscall_nr args =
     (if sr_syscall_nr r \<noteq> syscall_nr then False
      else list_all (\<lambda>cmp. let idx = unat (ac_index cmp) in
             if 6 \<le> idx then False else ac_evaluate cmp (args ! idx)) (sr_arg_comparators r))"

record seccomp_filter =
  sf_rules :: "seccomp_rule list"
  sf_default_action :: seccomp_action

definition seccomp_filter_new :: "seccomp_rule list \<Rightarrow> seccomp_action \<Rightarrow> seccomp_filter" where
  "seccomp_filter_new rules default_action = \<lparr>sf_rules = rules, sf_default_action = default_action\<rparr>"

definition filter_check :: "seccomp_filter \<Rightarrow> u64 \<Rightarrow> u64 list \<Rightarrow> seccomp_action" where
  "filter_check f syscall_nr args =
     (case List.find (\<lambda>r. rule_matches r syscall_nr args) (sf_rules f) of
        Some r \<Rightarrow> sr_action r
      | None \<Rightarrow> sf_default_action f)"

record seccomp_state =
  ss_mode :: u8
  ss_filters :: "seccomp_filter list"
  ss_no_new_privs :: u8

definition seccomp_state_new :: seccomp_state where
  "seccomp_state_new = \<lparr>ss_mode = seccomp_mode_code Disabled, ss_filters = [], ss_no_new_privs = 0\<rparr>"

definition get_mode :: "seccomp_state \<Rightarrow> seccomp_mode" where
  "get_mode s = (if ss_mode s = 1 then Strict else if ss_mode s = 2 then Filter else Disabled)"

definition set_no_new_privs :: "seccomp_state \<Rightarrow> seccomp_state" where
  "set_no_new_privs s = s\<lparr>ss_no_new_privs := 1\<rparr>"

definition is_no_new_privs :: "seccomp_state \<Rightarrow> bool" where
  "is_no_new_privs s \<longleftrightarrow> ss_no_new_privs s \<noteq> 0"

section \<open>Checking a call\<close>

type_synonym proc_table = "u32 \<Rightarrow> seccomp_state option"

definition with_process :: "proc_table \<Rightarrow> u32 \<Rightarrow> seccomp_state option" where
  "with_process t pid = (if MAX_PROCESSES \<le> unat pid then None else t pid)"

text \<open>The loop over the installed filters: it stops at the first verdict that is not \<open>Allow\<close>.\<close>

primrec run_filters :: "seccomp_filter list \<Rightarrow> u64 \<Rightarrow> u64 list \<Rightarrow> seccomp_action \<Rightarrow> seccomp_action" where
  "run_filters [] syscall_nr args result = result"
| "run_filters (f # fs) syscall_nr args result =
     (let result' = filter_check f syscall_nr args in
      if result' \<noteq> Allow then result' else run_filters fs syscall_nr args result')"

definition seccomp_check ::
  "proc_table \<Rightarrow> u32 \<Rightarrow> u64 \<Rightarrow> u64 list \<Rightarrow> i64 option \<times> (u32 \<times> u32) list" where
  "seccomp_check t pid syscall_nr args =
     (let mode = (case with_process t pid of Some s \<Rightarrow> get_mode s | None \<Rightarrow> Disabled) in
      case mode of
        Disabled \<Rightarrow> (None, [])
      | Strict \<Rightarrow>
          if syscall_nr \<in> set STRICT_ALLOWED then (None, []) else (Some (as_ret EPERM), [(pid, 9)])
      | Filter \<Rightarrow>
          let action = (case with_process t pid of
                          Some s \<Rightarrow> run_filters (ss_filters s) syscall_nr args DEFAULT_ACTION
                        | None \<Rightarrow> Allow) in
          (case action of
             Allow \<Rightarrow> (None, [])
           | Log \<Rightarrow> (None, [])
           | KillThread \<Rightarrow> (Some (as_ret EPERM), [(pid, 31)])
           | KillProcess \<Rightarrow> (Some (as_ret EPERM), [(pid, 31)])
           | Trap \<Rightarrow> (Some (as_ret EPERM), [(pid, 31)])
           | SErrno e \<Rightarrow> (Some (- ucast e), [])))"

section \<open>System calls\<close>

definition sys_seccomp :: "u32 \<Rightarrow> u32 \<Rightarrow> proc_table \<Rightarrow> i64 \<times> proc_table" where
  "sys_seccomp operation pid t =
     (if operation = 0 then
        (case with_process t pid of
           None \<Rightarrow> (as_ret ESRCH, t)
         | Some s \<Rightarrow>
             if get_mode s \<noteq> Disabled then (as_ret EINVAL, t)
             else (0, t(pid \<mapsto> s\<lparr>ss_mode := seccomp_mode_code Strict\<rparr>)))
      else if operation = 1 then
        (let has_priv = (case with_process t pid of Some s \<Rightarrow> is_no_new_privs s | None \<Rightarrow> False) in
         if \<not> has_priv \<and> pid \<noteq> 1 then (as_ret EACCES, t)
         else
           (case with_process t pid of
              None \<Rightarrow> (as_ret ESRCH, t)
            | Some s \<Rightarrow>
                if get_mode s = Strict then (as_ret EINVAL, t)
                else if MAX_FILTERS \<le> length (ss_filters s) then (as_ret ENOMEM, t)
                else (0, t(pid \<mapsto> s\<lparr>ss_filters := ss_filters s @ [seccomp_filter_new [] DEFAULT_ACTION],
                                      ss_mode := seccomp_mode_code Filter\<rparr>))))
      else (as_ret EINVAL, t))"

definition sys_prctl_prctl :: "i64 \<Rightarrow> u64 \<Rightarrow> u32 \<Rightarrow> proc_table \<Rightarrow> i64 \<times> proc_table" where
  "sys_prctl_prctl option arg2 pid t =
     (if option = 22 then
        (if arg2 = 1 then sys_seccomp 0 pid t
         else if arg2 = 2 then sys_seccomp 1 pid t
         else (as_ret EINVAL, t))
      else if option = 21 then
        (ucast (seccomp_mode_code (case with_process t pid of Some s \<Rightarrow> get_mode s | None \<Rightarrow> Disabled)), t)
      else if option = 38 then
        (if arg2 \<noteq> 1 then (as_ret EINVAL, t)
         else (0, case with_process t pid of Some s \<Rightarrow> t(pid \<mapsto> set_no_new_privs s) | None \<Rightarrow> t))
      else if option = 39 then
        (case with_process t pid of Some s \<Rightarrow> (if is_no_new_privs s then 1 else 0) | None \<Rightarrow> 0, t)
      else (as_ret ENOSYS, t))"

definition add_rule :: "u64 \<Rightarrow> seccomp_rule \<Rightarrow> proc_table \<Rightarrow> (errno + unit) \<times> proc_table" where
  "add_rule pid rule t =
     (case with_process t (ucast pid) of
        None \<Rightarrow> (Inl ESRCH, t)
      | Some s \<Rightarrow>
          let mode' = (if get_mode s = Disabled then seccomp_mode_code Filter else ss_mode s);
              filters' = (case ss_filters s of
                            [] \<Rightarrow> [seccomp_filter_new [rule] DEFAULT_ACTION]
                          | f # fs \<Rightarrow> f\<lparr>sf_rules := sf_rules f @ [rule]\<rparr> # fs) in
          (Inr (), t(ucast pid \<mapsto> s\<lparr>ss_mode := mode', ss_filters := filters'\<rparr>)))"

text \<open>The seccomp part of \<^verbatim>\<open>sys_fork\<close>: the child starts with a new state and takes over the parent's.\<close>

definition fork_seccomp :: "proc_table \<Rightarrow> u32 \<Rightarrow> seccomp_state" where
  "fork_seccomp t parent =
     (case with_process t parent of
        Some s \<Rightarrow> \<lparr>ss_mode = seccomp_mode_code (get_mode s), ss_filters = ss_filters s,
                   ss_no_new_privs = (if is_no_new_privs s then 1 else 0)\<rparr>
      | None \<Rightarrow> seccomp_state_new)"

section \<open>Runs\<close>

text \<open>
  Everything that changes the seccomp state of a process: its own calls, rules added by the
  kernel, a fork or the creation of a process (the process id is free and within the table), and
  its removal.
\<close>

inductive sec_step :: "proc_table \<Rightarrow> proc_table \<Rightarrow> bool" where
  step_seccomp: "sec_step t (snd (sys_seccomp operation pid t))"
| step_prctl: "sec_step t (snd (sys_prctl_prctl option arg2 pid t))"
| step_rule: "sec_step t (snd (add_rule pid64 rule t))"
| step_fork: "t child = None \<Longrightarrow> unat child < MAX_PROCESSES \<Longrightarrow>
    sec_step t (t(child \<mapsto> fork_seccomp t parent))"
| step_spawn: "t child = None \<Longrightarrow> unat child < MAX_PROCESSES \<Longrightarrow>
    sec_step t (t(child \<mapsto> seccomp_state_new))"
| step_remove: "sec_step t (t(pid := None))"

inductive sec_reachable :: "proc_table \<Rightarrow> bool" where
  boot: "sec_reachable (\<lambda>_. None)"
| step: "sec_reachable t \<Longrightarrow> sec_step t t' \<Longrightarrow> sec_reachable t'"

text \<open>
  \<open>lineage p t q t'\<close>: in a run from \<open>t\<close> to \<open>t'\<close>, \<open>q\<close> is \<open>p\<close> itself, never removed in between, or a
  descendant of it by forks.
\<close>

inductive lineage :: "u32 \<Rightarrow> proc_table \<Rightarrow> u32 \<Rightarrow> proc_table \<Rightarrow> bool" where
  lineage_self: "t p \<noteq> None \<Longrightarrow> lineage p t p t"
| lineage_step: "lineage p t q t' \<Longrightarrow> sec_step t' t'' \<Longrightarrow> t'' q \<noteq> None \<Longrightarrow> lineage p t q t''"
| lineage_fork: "lineage p t q t' \<Longrightarrow> t' child = None \<Longrightarrow> unat child < MAX_PROCESSES \<Longrightarrow>
    lineage p t child (t'(child \<mapsto> fork_seccomp t' q))"

section \<open>Invariant and order\<close>

text \<open>Only the first filter has rules; every default is \<open>Allow\<close>.\<close>

definition sec_ok :: "seccomp_state \<Rightarrow> bool" where
  "sec_ok s \<longleftrightarrow> ss_mode s \<in> {0, 1, 2} \<and> length (ss_filters s) \<le> MAX_FILTERS
     \<and> (\<forall>f \<in> set (ss_filters s). sf_default_action f = Allow)
     \<and> (\<forall>f \<in> set (tl (ss_filters s)). sf_rules f = [])
     \<and> (get_mode s = Disabled \<longrightarrow> ss_filters s = [])"

definition all_ok :: "proc_table \<Rightarrow> bool" where
  "all_ok t \<longleftrightarrow> (\<forall>p s. t p = Some s \<longrightarrow> sec_ok s \<and> unat p < MAX_PROCESSES)"

primrec head_rules :: "seccomp_filter list \<Rightarrow> seccomp_rule list" where
  "head_rules [] = []"
| "head_rules (f # fs) = sf_rules f"

definition sec_le :: "seccomp_state \<Rightarrow> seccomp_state \<Rightarrow> bool" where
  "sec_le s s' \<longleftrightarrow> (get_mode s \<noteq> Disabled \<longrightarrow> get_mode s' = get_mode s)
     \<and> (\<exists>rs. head_rules (ss_filters s') = head_rules (ss_filters s) @ rs)
     \<and> (is_no_new_privs s \<longrightarrow> is_no_new_privs s')
     \<and> length (ss_filters s) \<le> length (ss_filters s')"

lemmas sec_defs = get_mode_def seccomp_filter_new_def DEFAULT_ACTION_def MAX_FILTERS_def
  set_no_new_privs_def is_no_new_privs_def seccomp_state_new_def

lemma sec_le_refl: "sec_le s s"
  by (simp add: sec_le_def)

lemma sec_le_trans: "sec_le a b \<Longrightarrow> sec_le b c \<Longrightarrow> sec_le a c"
  unfolding sec_le_def by (metis append.assoc le_trans)

lemma sec_le_SomeD: "t p = Some s \<Longrightarrow> t p = Some s' \<Longrightarrow> sec_le s s'"
  by (simp add: sec_le_refl)

lemma with_process_Some: "with_process t p = Some s \<longleftrightarrow> t p = Some s \<and> unat p < MAX_PROCESSES"
  by (auto simp: with_process_def)

text \<open>One process changes, to a good state above the old one.\<close>

definition sec_update :: "proc_table \<Rightarrow> proc_table \<Rightarrow> bool" where
  "sec_update t t' \<longleftrightarrow> t' = t \<or>
     (\<exists>p s s'. with_process t p = Some s \<and> t' = t(p \<mapsto> s') \<and> (sec_ok s \<longrightarrow> sec_ok s' \<and> sec_le s s'))"

lemma sec_update_same: "sec_update t t"
  by (simp add: sec_update_def)

lemma sec_updateI:
  "with_process t p = Some s \<Longrightarrow> (sec_ok s \<Longrightarrow> sec_ok s' \<and> sec_le s s') \<Longrightarrow> sec_update t (t(p \<mapsto> s'))"
  by (auto simp: sec_update_def)

lemma sys_seccomp_update: "sec_update t (snd (sys_seccomp operation pid t))"
proof (cases "with_process t pid")
  case None
  then show ?thesis by (auto simp: sys_seccomp_def sec_update_same)
next
  case (Some s)
  have "sec_update t (t(pid \<mapsto> s\<lparr>ss_mode := 1\<rparr>))" if "get_mode s = Disabled"
    using that by (intro sec_updateI [OF Some]) (auto simp: sec_ok_def sec_le_def sec_defs)
  moreover have "sec_update t (t(pid \<mapsto> s\<lparr>ss_filters := ss_filters s @ [seccomp_filter_new [] Allow], ss_mode := 2\<rparr>))"
    if "get_mode s \<noteq> Strict" "\<not> MAX_FILTERS \<le> length (ss_filters s)"
    using that
    by (intro sec_updateI [OF Some]; cases "ss_filters s")
       (auto simp: sec_ok_def sec_le_def sec_defs split: if_splits)
  ultimately show ?thesis
    using Some by (auto simp: sys_seccomp_def sec_update_same Let_def DEFAULT_ACTION_def)
qed

lemma add_rule_update: "sec_update t (snd (add_rule pid64 rule t))"
proof (cases "with_process t (ucast pid64)")
  case None
  then show ?thesis by (simp add: add_rule_def sec_update_same)
next
  case (Some s)
  show ?thesis
    unfolding add_rule_def Some option.case Let_def snd_conv
    by (rule sec_updateI [OF Some], cases "ss_filters s")
       (auto simp: sec_ok_def sec_le_def sec_defs split: if_splits)
qed

lemma sys_prctl_update: "sec_update t (snd (sys_prctl_prctl option arg2 pid t))"
proof -
  have "sec_update t (t(pid \<mapsto> set_no_new_privs s))" if "with_process t pid = Some s" for s
    by (rule sec_updateI [OF that]) (auto simp: sec_ok_def sec_le_def sec_defs)
  then show ?thesis
    by (auto simp: sys_prctl_prctl_def sec_update_same sys_seccomp_update split: option.splits)
qed

lemma fork_seccomp_ok:
  assumes "with_process t parent = Some s" "sec_ok s"
  shows "sec_ok (fork_seccomp t parent)" "sec_le s (fork_seccomp t parent)"
  using assms by (auto simp: fork_seccomp_def sec_ok_def sec_le_def sec_defs)

lemma seccomp_state_new_ok: "sec_ok seccomp_state_new"
  by (simp add: sec_ok_def sec_defs)

lemma all_ok_update: "sec_update t t' \<Longrightarrow> all_ok t \<Longrightarrow> all_ok t'"
  by (auto simp: sec_update_def all_ok_def with_process_Some split: if_splits)

lemma le_update:
  "sec_update t t' \<Longrightarrow> all_ok t \<Longrightarrow> t p = Some s \<Longrightarrow> t' p = Some s' \<Longrightarrow> sec_le s s'"
  by (auto simp: sec_update_def all_ok_def with_process_Some sec_le_refl split: if_splits)

lemmas sec_updates = sys_seccomp_update sys_prctl_update add_rule_update

lemma sec_step_cases_update:
  assumes "sec_step t t'"
  obtains "sec_update t t'"
  | child s where "t child = None" "unat child < MAX_PROCESSES" "t' = t(child \<mapsto> s)" "all_ok t \<Longrightarrow> sec_ok s"
  | pid where "t' = t(pid := None)"
  using assms
proof cases
  case (step_fork child parent)
  have "sec_ok (fork_seccomp t parent)" if "all_ok t"
  proof (cases "with_process t parent")
    case None
    then show ?thesis by (simp add: fork_seccomp_def seccomp_state_new_ok)
  next
    case (Some s)
    with \<open>all_ok t\<close> show ?thesis
      by (auto intro: fork_seccomp_ok simp: all_ok_def with_process_Some)
  qed
  with step_fork show thesis using that(2) by blast
qed (use that sec_updates seccomp_state_new_ok in blast)+

lemma sec_step_ok: "sec_step t t' \<Longrightarrow> all_ok t \<Longrightarrow> all_ok t'"
  by (erule sec_step_cases_update)
     (auto simp: all_ok_def dest: all_ok_update split: if_splits)

lemma sec_step_le:
  assumes "sec_step t t'" "all_ok t" "t p = Some s" "t' p = Some s'"
  shows "sec_le s s'"
  using assms(1)
proof (rule sec_step_cases_update)
  assume "sec_update t t'"
  then show ?thesis using assms by (blast intro: le_update)
qed (use assms in \<open>auto simp: sec_le_refl split: if_splits\<close>)

lemma reachable_all_ok: "sec_reachable t \<Longrightarrow> all_ok t"
proof (induction rule: sec_reachable.induct)
  case boot
  show ?case by (simp add: all_ok_def)
qed (rule sec_step_ok)

lemma lineage_le:
  "lineage p t q t' \<Longrightarrow> all_ok t \<Longrightarrow> t p = Some s \<Longrightarrow>
    all_ok t' \<and> (\<exists>s'. t' q = Some s' \<and> sec_le s s')"
proof (induction rule: lineage.induct)
  case (lineage_self t p)
  then show ?case by (auto intro: sec_le_refl)
next
  case (lineage_step p t q t' t'')
  then obtain s' s'' where "all_ok t'" "t' q = Some s'" "sec_le s s'" "t'' q = Some s''" by blast
  with lineage_step.hyps(2) show ?case by (meson sec_step_ok sec_step_le sec_le_trans)
next
  case (lineage_fork p t q t' child)
  then obtain s' where s': "all_ok t'" "t' q = Some s'" "sec_le s s'" by blast
  then have "with_process t' q = Some s'" "sec_ok s'" by (auto simp: all_ok_def with_process_Some)
  note f = fork_seccomp_ok [OF this]
  have "sec_step t' (t'(child \<mapsto> fork_seccomp t' q))"
    using lineage_fork.hyps by (intro sec_step.step_fork)
  with s'(1) have "all_ok (t'(child \<mapsto> fork_seccomp t' q))" by (rule sec_step_ok [rotated])
  moreover have "sec_le s (fork_seccomp t' q)" using s'(3) f(2) by (rule sec_le_trans)
  ultimately show ?case by (metis fun_upd_same)
qed

section \<open>Decisions\<close>

lemma run_filters_Allow:
  "\<forall>f \<in> set fs. filter_check f nr args = Allow \<Longrightarrow> run_filters fs nr args Allow = Allow"
  by (induction fs) simp_all

lemma run_filters_ok:
  assumes "sec_ok s"
  shows "run_filters (ss_filters s) nr args DEFAULT_ACTION =
    (case List.find (\<lambda>r. rule_matches r nr args) (head_rules (ss_filters s)) of
       Some r \<Rightarrow> sr_action r | None \<Rightarrow> Allow)"
proof (cases "ss_filters s")
  case Nil
  then show ?thesis by (simp add: DEFAULT_ACTION_def)
next
  case (Cons f fs)
  with assms have "run_filters fs nr args Allow = Allow"
    by (intro run_filters_Allow) (auto simp: sec_ok_def filter_check_def)
  with assms Cons show ?thesis
    by (auto simp: sec_ok_def filter_check_def Let_def split: option.splits)
qed

lemma find_append: "List.find P (xs @ ys) = (case List.find P xs of Some x \<Rightarrow> Some x | None \<Rightarrow> List.find P ys)"
  by (induction xs) auto

lemma check_above:
  assumes "t p = Some s" "unat p < MAX_PROCESSES" "t' q = Some s'" "unat q < MAX_PROCESSES"
    and "sec_ok s" "sec_ok s'" "sec_le s s'" "fst (seccomp_check t p nr args) = Some r"
  shows "seccomp_check t' q nr args = (Some r, map (\<lambda>(_, sig). (q, sig)) (snd (seccomp_check t p nr args)))"
proof -
  have wp: "with_process t p = Some s" "with_process t' q = Some s'"
    using assms by (simp_all add: with_process_Some)
  have mode: "get_mode s \<noteq> Disabled" "get_mode s' = get_mode s"
    using assms(7,8) wp by (auto simp: sec_le_def seccomp_check_def)
  show ?thesis
  proof (cases "get_mode s")
    case Strict
    then show ?thesis using assms(8) wp mode by (simp add: seccomp_check_def split: if_splits)
  next
    case Filter
    obtain rs where rs: "head_rules (ss_filters s') = head_rules (ss_filters s) @ rs"
      using assms(7) by (auto simp: sec_le_def)
    obtain x where x: "List.find (\<lambda>r. rule_matches r nr args) (head_rules (ss_filters s)) = Some x"
      using assms(8) wp Filter by (auto simp: seccomp_check_def run_filters_ok [OF assms(5)] split: option.splits)
    show ?thesis
      using assms(8) wp mode Filter
      by (simp add: seccomp_check_def run_filters_ok assms(5,6) rs find_append x split: seccomp_action.splits)
  qed (use mode in simp)
qed

section \<open>Properties\<close>


text \<open>A process that enters strict mode and forks.\<close>

definition demo_table :: proc_table where
  "demo_table = snd (sys_seccomp 0 5 ((\<lambda>_. None)(5 \<mapsto> seccomp_state_new)))"

lemma demo_table_eq: "demo_table = (\<lambda>_. None)(5 \<mapsto> seccomp_state_new\<lparr>ss_mode := 1\<rparr>)"
  by (auto simp: demo_table_def sys_seccomp_def with_process_def MAX_PROCESSES_def get_mode_def seccomp_state_new_def)

lemma demo_reachable: "sec_reachable demo_table"
proof -
  have "sec_step (\<lambda>_. None) ((\<lambda>_. None)(5 \<mapsto> seccomp_state_new))"
    by (intro sec_step.step_spawn) (simp_all add: MAX_PROCESSES_def)
  then show ?thesis
    unfolding demo_table_def using sec_reachable.intros sec_step.step_seccomp by blast
qed


text \<open>The decision on a call, in every reachable state: unfiltered processes may make every call,
  strict ones only the calls of the list, and filtered ones the calls whose first matching rule
  allows or logs them, or that match no rule.  A refused call returns an error, and signal 9
  (strict mode) or 31 (kill and trap actions) is sent to the caller.\<close>

theorem seccomp_decision:
  assumes "sec_reachable t" "t p = Some s"
  shows "seccomp_check t p nr args =
    (case get_mode s of
       Disabled \<Rightarrow> (None, [])
     | Strict \<Rightarrow> if nr \<in> {501, 502, 503, 525, 542} then (None, []) else (Some (as_ret EPERM), [(p, 9)])
     | Filter \<Rightarrow>
         (case List.find (\<lambda>r. rule_matches r nr args) (concat (map sf_rules (ss_filters s))) of
            None \<Rightarrow> (None, [])
          | Some r \<Rightarrow>
              (case sr_action r of
                 Allow \<Rightarrow> (None, [])
               | Log \<Rightarrow> (None, [])
               | SErrno e \<Rightarrow> (Some (- ucast e), [])
               | _ \<Rightarrow> (Some (as_ret EPERM), [(p, 31)]))))"
proof -
  have ok: "sec_ok s" "unat p < MAX_PROCESSES"
    using reachable_all_ok [OF assms(1)] assms(2) by (auto simp: all_ok_def)
  then have rules: "concat (map sf_rules (ss_filters s)) = head_rules (ss_filters s)"
    by (cases "ss_filters s") (auto simp: sec_ok_def)
  have w: "with_process t p = Some s" using assms(2) ok by (simp add: with_process_Some)
  show ?thesis
  proof (cases "get_mode s")
    case Filter
    then show ?thesis
      unfolding rules seccomp_check_def w
      by (cases "List.find (\<lambda>r. rule_matches r nr args) (head_rules (ss_filters s))")
         (simp_all add: run_filters_ok [OF ok(1)] split: seccomp_action.split)
  qed (simp_all add: seccomp_check_def w STRICT_ALLOWED_def)
qed

theorem seccomp_decision_witness:
  "seccomp_check demo_table 5 1 [0, 0, 0, 0, 0, 0] = (Some (as_ret EPERM), [(5, 9)])"
  using seccomp_decision [OF demo_reachable, of 5 "seccomp_state_new\<lparr>ss_mode := 1\<rparr>" 1 "[0, 0, 0, 0, 0, 0]"]
  by (simp add: demo_table_eq get_mode_def)

text \<open>Encoding an action in the Linux return format and decoding it gives the action back; of an
  error number the low 16 bits survive.\<close>

theorem seccomp_action_roundtrip:
  "from_linux (to_linux a) = (case a of SErrno e \<Rightarrow> SErrno (e AND 0xFFFF) | _ \<Rightarrow> a)"
proof (cases a)
  case (SErrno e)
  have "(0x00050000 OR (e AND 0xFFFF)) AND 0xFFFF0000 = (0x00050000 :: u32)"
    "(0x00050000 OR (e AND 0xFFFF)) AND 0xFFFF = e AND 0xFFFF"
    by (simp_all add: bit.conj_disj_distrib2 and.assoc)
  with SErrno show ?thesis by (simp add: from_linux_def)
qed (simp_all add: from_linux_def)

text \<open>
  The loop stops at a \<open>Log\<close> verdict as well, so a filter that logs a call hides a later filter
  that kills it.
\<close>

lemma log_hides_kill:
  "run_filters [seccomp_filter_new [] Log, seccomp_filter_new [] KillProcess] nr args DEFAULT_ACTION = Log"
  by (simp add: filter_check_def seccomp_filter_new_def)

text \<open>
  A process in strict mode is killed by \<^verbatim>\<open>read\<close>, \<^verbatim>\<open>write\<close> and \<^verbatim>\<open>exit\<close>: the dispatcher numbers them 0, 1
  and 60 (the Linux numbers), the list has 501 to 503.
\<close>

lemma strict_refuses_linux_numbers:
  assumes "nr \<in> {0, 1, 60}"
  shows "seccomp_check demo_table 5 nr args = (Some (as_ret EPERM), [(5, 9)])"
  using assms
  by (auto simp: demo_table_eq seccomp_check_def with_process_def MAX_PROCESSES_def get_mode_def STRICT_ALLOWED_def)

end
