(* ===== verification/Wait_Queue.thy ===== *)
theory Wait_Queue
  imports Prelude "HOL-Library.Multiset"
begin

text \<open>
  The wait queues of the IPC objects (\<^verbatim>\<open>WaitQueue\<close> in \<^verbatim>\<open>src/src/kernel/services/ipc/types.rs\<close>) and the
  functions that block and wake processes (\<^verbatim>\<open>src/src/kernel/services/ipc/scheduler_integration.rs\<close>).
  A waiter is the process id of its \<^verbatim>\<open>WaitQueueItem\<close>.  \<open>irq\<close> says whether the caller runs in interrupt
  context; the processes handed to \<^verbatim>\<open>scheduler_unblock\<close> are returned as a list.
\<close>

section \<open>The queue\<close>

record wait_queue =
  wq_items :: "u32 option list"
  wq_count :: u32
  wq_wake_pending :: bool

definition wait_queue_new :: wait_queue where
  "wait_queue_new = \<lparr>wq_items = replicate 4 None, wq_count = 0, wq_wake_pending = False\<rparr>"

definition wq_init :: "wait_queue \<Rightarrow> wait_queue" where
  "wq_init q = q\<lparr>wq_items := replicate 4 None, wq_count := 0, wq_wake_pending := False\<rparr>"

definition wq_add :: "wait_queue \<Rightarrow> u32 \<Rightarrow> bool \<times> wait_queue" where
  "wq_add q pid =
     (if 4 \<le> wq_count q then (False, q)
      else
        case find_idx (\<lambda>e. e = None) (wq_items q) of
          Some i \<Rightarrow> (True, q\<lparr>wq_items := (wq_items q)[i := Some pid], wq_count := wq_count q + 1\<rparr>)
        | None \<Rightarrow> (False, q))"

definition request_wake :: "wait_queue \<Rightarrow> wait_queue" where
  "request_wake q = q\<lparr>wq_wake_pending := True\<rparr>"

primrec drain_slots :: "u32 option list \<Rightarrow> u32 \<Rightarrow> u32 option list \<times> u32 \<times> u32 list" where
  "drain_slots [] cnt = ([], cnt, [])"
| "drain_slots (slot # slots) cnt =
     (case slot of
        Some pid \<Rightarrow>
          (let (slots', cnt', out) = drain_slots slots (cnt - 1) in (None # slots', cnt', pid # out))
      | None \<Rightarrow>
          (let (slots', cnt', out) = drain_slots slots cnt in (None # slots', cnt', out)))"

definition drain_pending :: "wait_queue \<Rightarrow> u32 list \<times> wait_queue" where
  "drain_pending q =
     (if \<not> wq_wake_pending q then ([], q)
      else
        let (items, count, out) = drain_slots (wq_items q) (wq_count q) in
        (out, q\<lparr>wq_items := items, wq_count := count, wq_wake_pending := False\<rparr>))"

definition wake_one :: "wait_queue \<Rightarrow> u32 option \<times> wait_queue" where
  "wake_one q =
     (case find_idx (\<lambda>e. e \<noteq> None) (wq_items q) of
        Some i \<Rightarrow> (wq_items q ! i, q\<lparr>wq_items := (wq_items q)[i := None], wq_count := wq_count q - 1\<rparr>)
      | None \<Rightarrow> (None, q))"

text \<open>The processes in the slots, in the order of the slots.\<close>

primrec slot_pids :: "u32 option list \<Rightarrow> u32 list" where
  "slot_pids [] = []"
| "slot_pids (slot # slots) = (case slot of Some pid \<Rightarrow> pid # slot_pids slots | None \<Rightarrow> slot_pids slots)"

lemma slot_pids_wake:
  "find_idx (\<lambda>e. e \<noteq> None) xs = Some i \<Longrightarrow>
   \<exists>pid. xs ! i = Some pid \<and> slot_pids xs = pid # slot_pids (xs[i := None])"
  by (induction xs arbitrary: i) (auto split: option.splits if_splits)

lemma slot_pids_empty: "find_idx (\<lambda>e. e \<noteq> None) xs = None \<longleftrightarrow> slot_pids xs = []"
  by (induction xs) (auto split: option.splits)

lemma slot_pids_add:
  "find_idx (\<lambda>e. e = None) xs = Some i \<Longrightarrow>
   mset (slot_pids (xs[i := Some pid])) = add_mset pid (mset (slot_pids xs))"
  by (induction xs arbitrary: i) (auto split: option.splits if_splits)

lemma slot_pids_full: "find_idx (\<lambda>e. e = None) xs = None \<longleftrightarrow> length (slot_pids xs) = length xs"
proof (induction xs)
  case (Cons x xs)
  have "length (slot_pids xs) \<le> length xs" by (induction xs) (auto split: option.splits)
  with Cons show ?case by (auto split: option.splits)
qed simp

lemma slot_pids_none [simp]: "slot_pids (replicate n None) = []"
  by (induction n) simp_all

lemma wake_one_pids:
  assumes "wake_one q = (Some pid, q')"
  shows "slot_pids (wq_items q) = pid # slot_pids (wq_items q')" "wq_count q' = wq_count q - 1"
    "length (wq_items q') = length (wq_items q)" "wq_wake_pending q' = wq_wake_pending q"
  using assms by (auto simp: wake_one_def simp del: not_None_eq dest!: slot_pids_wake split: option.splits)

lemma wake_one_none:
  "wake_one q = (None, q') \<Longrightarrow> q' = q \<and> slot_pids (wq_items q) = []"
  by (auto simp: wake_one_def slot_pids_empty [symmetric] simp del: not_None_eq dest!: slot_pids_wake
      split: option.splits)

section \<open>Blocking and waking\<close>

text \<open>
  \<^verbatim>\<open>block_current_thread\<close>: on success the caller is in the queue and goes to sleep until it is woken.
\<close>

definition block_current_thread :: "bool \<Rightarrow> u32 \<Rightarrow> wait_queue \<Rightarrow> (i32 + unit) \<times> wait_queue" where
  "block_current_thread irq pid q =
     (if irq then (Inl (- 2), q)
      else if pid = 0 then (Inl (- 2), q)
      else
        let (added, q') = wq_add q pid in
        if \<not> added then (Inl (- 1), q') else (Inr (), q'))"

definition wake_one_thread :: "bool \<Rightarrow> wait_queue \<Rightarrow> bool \<times> wait_queue \<times> u32 list" where
  "wake_one_thread irq q =
     (if irq then (True, request_wake q, [])
      else
        let (drained, q1) = drain_pending q in
        case wake_one q1 of
          (Some pid, q2) \<Rightarrow> (True, q2, drained @ [pid])
        | (None, q2) \<Rightarrow> (False, q2, drained))"

function wake_all_loop :: "wait_queue \<Rightarrow> wait_queue \<times> u32 list" where
  "wake_all_loop q =
     (case wake_one q of
        (Some pid, q') \<Rightarrow> (let (q'', pids) = wake_all_loop q' in (q'', pid # pids))
      | (None, q') \<Rightarrow> (q', []))"
  by pat_completeness auto
termination
  by (relation "measure (\<lambda>q. length (slot_pids (wq_items q)))") (auto dest: wake_one_pids [OF sym])

declare wake_all_loop.simps [simp del]

definition wake_all_threads :: "bool \<Rightarrow> wait_queue \<Rightarrow> wait_queue \<times> u32 list" where
  "wake_all_threads irq q =
     (if irq then (request_wake q, [])
      else
        let (drained, q1) = drain_pending q;
            (q2, woken) = wake_all_loop q1 in
        (q2, drained @ woken))"

section \<open>Waiters\<close>

definition waiters :: "wait_queue \<Rightarrow> u32 list" where
  "waiters q = slot_pids (wq_items q)"

definition wq_ok :: "wait_queue \<Rightarrow> bool" where
  "wq_ok q \<longleftrightarrow> length (wq_items q) = 4 \<and> wq_count q = of_nat (length (waiters q))"

lemma slot_pids_le: "length (slot_pids xs) \<le> length xs"
  by (induction xs) (auto split: option.splits)

lemma wq_ok_bound: "wq_ok q \<Longrightarrow> length (waiters q) \<le> 4"
  using slot_pids_le [of "wq_items q"] by (simp add: wq_ok_def waiters_def)

lemma wq_ok_count: "wq_ok q \<Longrightarrow> unat (wq_count q) = length (waiters q)"
  using wq_ok_bound [of q] by (auto simp: wq_ok_def intro!: of_nat_inverse)

lemma wq_ok_new: "wq_ok wait_queue_new" "waiters wait_queue_new = []"
  by (simp_all add: wq_ok_def wait_queue_new_def waiters_def)

lemma wq_ok_init: "wq_ok (wq_init q)" "waiters (wq_init q) = []"
  by (simp_all add: wq_ok_def wq_init_def waiters_def)

lemma wake_one_waiters:
  assumes "wq_ok q" "wake_one q = (Some pid, q')"
  shows "wq_ok q'" "waiters q = pid # waiters q'"
  using assms(1) wake_one_pids [OF assms(2)] by (simp_all add: wq_ok_def waiters_def)

lemma drain_slots_eq:
  "drain_slots slots cnt =
    (replicate (length slots) None, cnt - of_nat (length (slot_pids slots)), slot_pids slots)"
  by (induction slots arbitrary: cnt) (auto simp: algebra_simps split: option.splits)

lemma drain_pending_waiters:
  assumes "wq_ok q" "drain_pending q = (out, q')"
  shows "wq_ok q'" "waiters q = out @ waiters q'" "wq_wake_pending q \<Longrightarrow> waiters q' = []"
    "\<not> wq_wake_pending q'"
  using assms
  by (auto simp: drain_pending_def drain_slots_eq wq_ok_def waiters_def split: if_splits)

lemma wq_add_waiters:
  assumes "wq_ok q" "wq_add q pid = (added, q')"
  shows "wq_ok q'" "mset (waiters q') = (if added then {#pid#} else {#}) + mset (waiters q)"
    "added \<longleftrightarrow> length (waiters q) < 4"
proof -
  have "wq_ok q' \<and> mset (waiters q') = (if added then {#pid#} else {#}) + mset (waiters q) \<and>
    (added \<longleftrightarrow> length (waiters q) < 4)"
  proof (cases "4 \<le> wq_count q")
    case True
    then have "4 \<le> length (waiters q)" using wq_ok_count [OF assms(1)] by (simp add: word_le_nat_alt)
    with True assms show ?thesis by (simp add: wq_add_def)
  next
    case False
    then have less: "length (waiters q) < 4" using wq_ok_count [OF assms(1)] by (simp add: word_le_nat_alt)
    then obtain i where i: "find_idx (\<lambda>e. e = None) (wq_items q) = Some i"
      using assms(1) slot_pids_full [of "wq_items q"] by (auto simp: wq_ok_def waiters_def)
    note add = slot_pids_add [OF this, of pid]
    from arg_cong [OF this, of size] have "length (slot_pids ((wq_items q)[i := Some pid])) = Suc (length (slot_pids (wq_items q)))"
      by simp
    with add False i assms less show ?thesis
      by (auto simp: wq_add_def wq_ok_def waiters_def)
  qed
  then show "wq_ok q'" "mset (waiters q') = (if added then {#pid#} else {#}) + mset (waiters q)"
    "added \<longleftrightarrow> length (waiters q) < 4" by auto
qed

lemma wake_one_thread_waiters:
  assumes "wq_ok q" "wake_one_thread irq q = (r, q', woken)"
  shows "wq_ok q'" "waiters q = woken @ waiters q'" "\<not> irq \<Longrightarrow> waiters q \<noteq> [] \<Longrightarrow> woken \<noteq> []"
proof -
  have "wq_ok q' \<and> waiters q = woken @ waiters q' \<and> (\<not> irq \<longrightarrow> waiters q \<noteq> [] \<longrightarrow> woken \<noteq> [])"
  proof (cases irq)
    case True
    with assms show ?thesis by (auto simp: wake_one_thread_def request_wake_def wq_ok_def waiters_def)
  next
    case False
    obtain drained q1 where d: "drain_pending q = (drained, q1)" by (cases "drain_pending q")
    note d' = drain_pending_waiters [OF assms(1) d]
    obtain next_pid q2 where o: "wake_one q1 = (next_pid, q2)" by (cases "wake_one q1")
    show ?thesis
    proof (cases next_pid)
      case None
      with wake_one_none [of q1 q2] o have "q2 = q1" "waiters q1 = []" by (auto simp: waiters_def)
      with None False assms(2) d d' o show ?thesis by (auto simp: wake_one_thread_def)
    next
      case (Some pid)
      with wake_one_waiters [OF d'(1)] o have "wq_ok q2" "waiters q1 = pid # waiters q2" by auto
      with Some False assms(2) d d' o show ?thesis by (auto simp: wake_one_thread_def)
    qed
  qed
  then show "wq_ok q'" "waiters q = woken @ waiters q'" "\<not> irq \<Longrightarrow> waiters q \<noteq> [] \<Longrightarrow> woken \<noteq> []"
    by blast+
qed

lemma wake_all_loop_waiters:
  "wq_ok q \<Longrightarrow> wake_all_loop q = (q', woken) \<Longrightarrow> wq_ok q' \<and> waiters q = woken \<and> waiters q' = []"
proof (induction q arbitrary: q' woken rule: wake_all_loop.induct)
  case (1 q)
  obtain r q1 where o: "wake_one q = (r, q1)" by (cases "wake_one q")
  show ?case
  proof (cases r)
    case None
    with wake_one_none [of q q1] o 1(2,3) show ?thesis
      by (auto simp: waiters_def wake_all_loop.simps [of q])
  next
    case (Some pid)
    obtain q2 pids where l: "wake_all_loop q1 = (q2, pids)" by (cases "wake_all_loop q1")
    note w = wake_one_waiters [OF 1(2), of pid q1]
    from 1(1) [OF o [symmetric] Some _ l] w o Some
    have "wq_ok q2 \<and> waiters q1 = pids \<and> waiters q2 = []" by simp
    with w o Some l 1(3) show ?thesis by (simp add: wake_all_loop.simps [of q])
  qed
qed

lemma wake_all_threads_waiters:
  assumes "wq_ok q" "wake_all_threads irq q = (q', woken)"
  shows "wq_ok q'" "waiters q = woken @ waiters q'" "\<not> irq \<Longrightarrow> waiters q' = []"
proof -
  obtain drained q1 where d: "drain_pending q = (drained, q1)" by (cases "drain_pending q")
  note d' = drain_pending_waiters [OF assms(1) d]
  obtain q2 pids where l: "wake_all_loop q1 = (q2, pids)" by (cases "wake_all_loop q1")
  note wake_all_loop_waiters [OF d'(1) l]
  with assms d d' l show "wq_ok q'" "waiters q = woken @ waiters q'" "\<not> irq \<Longrightarrow> waiters q' = []"
    by (cases irq; auto simp: wake_all_threads_def request_wake_def wq_ok_def waiters_def)+
qed

lemma block_waiters:
  assumes "wq_ok q" "block_current_thread irq pid q = (r, q')"
  shows "wq_ok q'" "mset (waiters q') = (if isl r then {#} else {#pid#}) + mset (waiters q)"
    "isl r \<longleftrightarrow> irq \<or> pid = 0 \<or> length (waiters q) = 4"
proof -
  obtain added q1 where a: "wq_add q pid = (added, q1)" by (cases "wq_add q pid")
  note wq_add_waiters [OF assms(1) a]
  moreover have "length (waiters q) \<le> 4" by (rule wq_ok_bound [OF assms(1)])
  ultimately show "wq_ok q'" "mset (waiters q') = (if isl r then {#} else {#pid#}) + mset (waiters q)"
    "isl r \<longleftrightarrow> irq \<or> pid = 0 \<or> length (waiters q) = 4"
    using assms a by (auto simp: block_current_thread_def split: if_splits)
qed

section \<open>Runs\<close>

text \<open>
  A queue in use, with the processes put to sleep and the processes woken so far, in order.
\<close>

inductive wq_run :: "wait_queue \<Rightarrow> u32 list \<Rightarrow> u32 list \<Rightarrow> bool" where
  start: "wq_run wait_queue_new [] []"
| block: "wq_run q slept woken \<Longrightarrow> block_current_thread irq pid q = (r, q') \<Longrightarrow>
    wq_run q' (if isl r then slept else pid # slept) woken"
| wake: "wq_run q slept woken \<Longrightarrow> wake_one_thread irq q = (r, q', pids) \<Longrightarrow>
    wq_run q' slept (woken @ pids)"
| wake_all: "wq_run q slept woken \<Longrightarrow> wake_all_threads irq q = (q', pids) \<Longrightarrow>
    wq_run q' slept (woken @ pids)"

lemma wq_run_inv: "wq_run q slept woken \<Longrightarrow> wq_ok q \<and> mset slept = mset (waiters q) + mset woken"
proof (induction rule: wq_run.induct)
  case start
  show ?case by (simp add: wq_ok_new)
next
  case (block q slept woken irq pid r q')
  then show ?case using block_waiters [OF _ block.hyps(2)] by auto
next
  case (wake q slept woken irq r q' pids)
  then show ?case using wake_one_thread_waiters [OF _ wake.hyps(2)] by auto
next
  case (wake_all q slept woken irq q' pids)
  then show ?case using wake_all_threads_waiters [OF _ wake_all.hyps(2)] by auto
qed

section \<open>Properties\<close>

text \<open>C24: No waiter is lost or woken twice.  In every run of a wait queue, from process and interrupt
  context, the processes that went to sleep are exactly those woken so far and those still in
  the queue; the counter is the number of waiters and never exceeds four; a process is refused
  exactly when the queue is full (or it cannot block); a wake-up from process context wakes
  someone if anyone waits, waking all leaves nobody behind.\<close>

theorem no_lost_waiter:
  assumes "wq_run q slept woken"
  shows "mset slept = mset (waiters q) + mset woken
    \<and> unat (wq_count q) = length (waiters q) \<and> wq_count q \<le> 4
    \<and> (isl (fst (block_current_thread irq pid q)) \<longleftrightarrow> irq \<or> pid = 0 \<or> wq_count q = 4)
    \<and> (waiters q \<noteq> [] \<longrightarrow> snd (snd (wake_one_thread False q)) \<noteq> [])
    \<and> waiters (fst (wake_all_threads False q)) = []"
proof (intro conjI)
  from wq_run_inv [OF assms] have ok: "wq_ok q" and eq: "mset slept = mset (waiters q) + mset woken" by auto
  note count = wq_ok_count [OF ok] and bound = wq_ok_bound [OF ok]
  show "mset slept = mset (waiters q) + mset woken" by (rule eq)
  show "unat (wq_count q) = length (waiters q)" by (rule count)
  show "wq_count q \<le> 4" using count bound by (simp add: word_le_nat_alt)
  show "isl (fst (block_current_thread irq pid q)) \<longleftrightarrow> irq \<or> pid = 0 \<or> wq_count q = 4"
    using block_waiters(3) [OF ok surjective_pairing] count by (auto simp: word_unat_eq_iff)
  show "waiters q \<noteq> [] \<longrightarrow> snd (snd (wake_one_thread False q)) \<noteq> []"
    using wake_one_thread_waiters(3) [OF ok, of False] by (metis prod.collapse)
  show "waiters (fst (wake_all_threads False q)) = []"
    using wake_all_threads_waiters(3) [OF ok surjective_pairing] by blast
qed

theorem no_lost_waiter_witness:
  "mset [7] = mset (waiters (snd (block_current_thread False 7 wait_queue_new))) + mset []"
proof -
  have "wq_run (snd (block_current_thread False 7 wait_queue_new)) [7] []"
    using wq_run.block [OF wq_run.start surjective_pairing, of False 7]
      block_waiters(3) [OF wq_ok_new(1) surjective_pairing, of False 7] by (simp add: wq_ok_new)
  then show ?thesis using no_lost_waiter by blast
qed

end
