(* ===== verification/Channel.thy ===== *)
theory Channel
  imports Prelude
begin

text \<open>
  The contract of a first-in first-out channel, which pipes (bytes) and message queues (messages)
  provide.  A step of a channel accepts some items and delivers some; \<open>chan_run\<close> is a sequence of
  steps with everything accepted and delivered on the way.
\<close>

inductive chan_run :: "('s \<Rightarrow> 'a list \<Rightarrow> 'a list \<Rightarrow> 's \<Rightarrow> bool) \<Rightarrow> 's \<Rightarrow> 'a list \<Rightarrow> 'a list \<Rightarrow> 's \<Rightarrow> bool"
  for step :: "'s \<Rightarrow> 'a list \<Rightarrow> 'a list \<Rightarrow> 's \<Rightarrow> bool"
  where
    chan_start: "chan_run step s [] [] s"
  | chan_step: "chan_run step s accepted delivered s' \<Longrightarrow> step s' new out s'' \<Longrightarrow>
      chan_run step s (accepted @ new) (delivered @ out) s''"

locale channel =
  fixes ok :: "'s \<Rightarrow> bool"
    and contents :: "'s \<Rightarrow> 'a list"
    and capacity :: nat
    and step :: "'s \<Rightarrow> 'a list \<Rightarrow> 'a list \<Rightarrow> 's \<Rightarrow> bool"
  assumes step_ok: "ok s \<Longrightarrow> step s new out s' \<Longrightarrow> ok s'"
    and step_fifo: "ok s \<Longrightarrow> step s new out s' \<Longrightarrow> contents s @ new = out @ contents s'"
    and ok_capacity: "ok s \<Longrightarrow> length (contents s) \<le> capacity"
begin

lemma run_fifo:
  assumes "chan_run step s accepted delivered s'" "ok s"
  shows "ok s' \<and> contents s @ accepted = delivered @ contents s'"
  using assms
proof (induction rule: chan_run.induct)
  case (chan_step s accepted delivered s' new out s'')
  then have "ok s'" and eq: "contents s @ accepted = delivered @ contents s'" by auto
  then have "ok s''" "contents s' @ new = out @ contents s''"
    using step_ok step_fifo chan_step.hyps(2) by blast+
  moreover have "contents s @ accepted @ new = delivered @ contents s' @ new"
    using eq by (metis append.assoc)
  ultimately show ?case by simp
qed simp

text \<open>What comes out is a prefix of what went in, at most \<open>capacity\<close> items behind.\<close>

lemma run_in_order:
  assumes "chan_run step s accepted delivered s'" "ok s" "contents s = []"
  shows "take (length delivered) accepted = delivered \<and> length accepted \<le> length delivered + capacity"
proof -
  from run_fifo [OF assms(1,2)] assms(3) have "ok s'" "accepted = delivered @ contents s'" by auto
  with ok_capacity [of s'] show ?thesis by simp
qed

end

end
