(* ===== verification/Pipe.thy ===== *)
theory Pipe
  imports Wait_Queue Channel
begin

text \<open>
  Pipes: \<^verbatim>\<open>src/src/kernel/services/ipc/pipe.rs\<close> and the record \<^verbatim>\<open>Pipe\<close> of
  \<^verbatim>\<open>src/src/kernel/services/ipc/types.rs\<close>.  The table \<^verbatim>\<open>namespace.pipes\<close> is the list \<open>ps\<close>; each function
  runs under the global pipe lock.  Indexing beyond the caller's buffer or the ring buffer panics,
  so reading and writing return \<open>Panic\<close> or \<open>Ret\<close>; they also return the processes they woke.
\<close>

section \<open>Data\<close>

definition IPC_MAX_PIPES :: nat where "IPC_MAX_PIPES = 64"

definition PIPE_BUFFER_SIZE :: nat where "PIPE_BUFFER_SIZE = 4096"

record pipe =
  p_id :: u32
  p_buffer :: "u8 list"
  p_read_pos :: u32
  p_write_pos :: u32
  p_count :: u32
  p_read_pid :: u32
  p_write_pid :: u32
  p_read_fd :: i32
  p_write_fd :: i32
  p_readers :: i32
  p_writers :: i32
  p_read_wait :: wait_queue
  p_write_wait :: wait_queue
  p_flags :: i32

definition pipe_new :: pipe where
  "pipe_new =
     \<lparr>p_id = 0, p_buffer = replicate PIPE_BUFFER_SIZE 0, p_read_pos = 0, p_write_pos = 0, p_count = 0,
      p_read_pid = 0, p_write_pid = 0, p_read_fd = 0, p_write_fd = 0, p_readers = 0, p_writers = 0,
      p_read_wait = wait_queue_new, p_write_wait = wait_queue_new, p_flags = 0\<rparr>"

section \<open>Operations\<close>

definition pipe_find_free_index :: "pipe list \<Rightarrow> nat option" where
  "pipe_find_free_index ps = find_idx (\<lambda>p. p_id p = 0) ps"

definition pipe_find_by_fd_index :: "pipe list \<Rightarrow> i32 \<Rightarrow> nat option" where
  "pipe_find_by_fd_index ps fd =
     find_idx (\<lambda>p. p_id p \<noteq> 0 \<and> (p_read_fd p = fd \<or> p_write_fd p = fd)) ps"

definition is_pipe_fd :: "pipe list \<Rightarrow> i32 \<Rightarrow> bool" where
  "is_pipe_fd ps fd \<longleftrightarrow> pipe_find_by_fd_index ps fd \<noteq> None"

definition pipe_create_safe ::
  "pipe list \<Rightarrow> u32 \<Rightarrow> u32 \<Rightarrow> (i32 + i32 \<times> i32) \<times> pipe list \<times> u32" where
  "pipe_create_safe ps next_id current_pid =
     (case pipe_find_free_index ps of
        None \<Rightarrow> (Inl (- 1), ps, next_id)
      | Some idx \<Rightarrow>
          let p = ps ! idx;
              p' = p\<lparr>p_id := next_id,
                     p_buffer := replicate PIPE_BUFFER_SIZE 0, p_read_pos := 0, p_write_pos := 0, p_count := 0,
                     p_read_pid := current_pid, p_write_pid := current_pid,
                     p_read_fd := next_id * 2, p_write_fd := next_id * 2 + 1,
                     p_readers := 1, p_writers := 1, p_flags := 0,
                     p_read_wait := wq_init (p_read_wait p), p_write_wait := wq_init (p_write_wait p)\<rparr> in
          (Inr (p_read_fd p', p_write_fd p'), ps[idx := p'], next_id + 1))"

text \<open>One byte out of the ring, and the wake-up of a writer.\<close>

definition ring_get :: "pipe \<Rightarrow> pipe" where
  "ring_get p = p\<lparr>p_read_pos := (p_read_pos p + 1) mod of_nat PIPE_BUFFER_SIZE, p_count := p_count p - 1\<rparr>"

definition wake_writer :: "bool \<Rightarrow> pipe \<Rightarrow> pipe \<times> u32 list" where
  "wake_writer irq p =
     (if 0 < wq_count (p_write_wait p) then
        let (_, q, w) = wake_one_thread irq (p_write_wait p) in (p\<lparr>p_write_wait := q\<rparr>, w)
      else (p, []))"

function pipe_read_loop ::
  "bool \<Rightarrow> u32 \<Rightarrow> pipe \<Rightarrow> u8 list \<Rightarrow> u32 \<Rightarrow> u32 list \<Rightarrow> ((i32 + u32) \<times> pipe \<times> u8 list \<times> u32 list) panics" where
  "pipe_read_loop irq cnt p buf read_count woken =
     (if read_count < cnt then
        if p_count p = 0 then
          if p_writers p = 0 then Ret (Inr read_count, p, buf, woken)
          else if 0 < read_count then Ret (Inr read_count, p, buf, woken)
          else Ret (Inl (- 4), p, buf, woken)
        else if length buf \<le> unat read_count \<or> length (p_buffer p) \<le> unat (p_read_pos p) then Panic
        else
          let buf' = buf[unat read_count := p_buffer p ! unat (p_read_pos p)];
              (p', w) = wake_writer irq (ring_get p) in
          pipe_read_loop irq cnt p' buf' (read_count + 1) (woken @ w)
      else Ret (Inr read_count, p, buf, woken))"
  by pat_completeness auto
termination
proof (relation "measure (\<lambda>(irq, cnt, p, buf, read_count, woken). unat cnt - unat read_count)", goal_cases)
  case (2 irq cnt p buf read_count woken buf' x p' w)
  then have "unat (read_count + 1) = Suc (unat read_count)" "unat read_count < unat cnt"
    using unat_add_1_bounded [of read_count "unat cnt"] unat_bound [of cnt] by (simp_all add: word_less_nat_alt)
  then show ?case by simp
qed simp

definition pipe_read_safe ::
  "bool \<Rightarrow> pipe list \<Rightarrow> i32 \<Rightarrow> u8 list \<Rightarrow> u32 \<Rightarrow> ((i32 + u32) \<times> pipe list \<times> u8 list \<times> u32 list) panics" where
  "pipe_read_safe irq ps fd buf cnt =
     (if cnt = 0 then Ret (Inr 0, ps, buf, [])
      else
        case pipe_find_by_fd_index ps fd of
          None \<Rightarrow> Ret (Inl (- 1), ps, buf, [])
        | Some idx \<Rightarrow>
            if fd \<noteq> p_read_fd (ps ! idx) then Ret (Inl (- 2), ps, buf, [])
            else
              panic_bind (pipe_read_loop irq cnt (ps ! idx) buf 0 [])
                (\<lambda>(r, p', buf', w). Ret (r, ps[idx := p'], buf', w)))"

definition ring_put :: "u8 \<Rightarrow> pipe \<Rightarrow> pipe" where
  "ring_put b p =
     p\<lparr>p_buffer := (p_buffer p)[unat (p_write_pos p) := b],
       p_write_pos := (p_write_pos p + 1) mod of_nat PIPE_BUFFER_SIZE, p_count := p_count p + 1\<rparr>"

definition wake_reader :: "bool \<Rightarrow> pipe \<Rightarrow> pipe \<times> u32 list" where
  "wake_reader irq p =
     (if 0 < wq_count (p_read_wait p) then
        let (_, q, w) = wake_one_thread irq (p_read_wait p) in (p\<lparr>p_read_wait := q\<rparr>, w)
      else (p, []))"

function pipe_write_loop ::
  "bool \<Rightarrow> u32 \<Rightarrow> u8 list \<Rightarrow> pipe \<Rightarrow> u32 \<Rightarrow> u32 list \<Rightarrow> ((i32 + u32) \<times> pipe \<times> u32 list) panics" where
  "pipe_write_loop irq cnt buf p written woken =
     (if written < cnt then
        if of_nat PIPE_BUFFER_SIZE \<le> p_count p then Ret (Inl (- 4), p, woken)
        else if length buf \<le> unat written \<or> length (p_buffer p) \<le> unat (p_write_pos p) then Panic
        else
          let (p', w) = wake_reader irq (ring_put (buf ! unat written) p) in
          pipe_write_loop irq cnt buf p' (written + 1) (woken @ w)
      else Ret (Inr written, p, woken))"
  by pat_completeness auto
termination
proof (relation "measure (\<lambda>(irq, cnt, buf, p, written, woken). unat cnt - unat written)", goal_cases)
  case (2 irq cnt buf p written woken x p' w)
  then have "unat (written + 1) = Suc (unat written)" "unat written < unat cnt"
    using unat_add_1_bounded [of written "unat cnt"] unat_bound [of cnt] by (simp_all add: word_less_nat_alt)
  then show ?case by simp
qed simp

declare pipe_read_loop.simps [simp del] pipe_write_loop.simps [simp del]

definition pipe_write_safe ::
  "bool \<Rightarrow> pipe list \<Rightarrow> i32 \<Rightarrow> u8 list \<Rightarrow> u32 \<Rightarrow> ((i32 + u32) \<times> pipe list \<times> u32 list) panics" where
  "pipe_write_safe irq ps fd buf cnt =
     (if cnt = 0 then Ret (Inr 0, ps, [])
      else
        case pipe_find_by_fd_index ps fd of
          None \<Rightarrow> Ret (Inl (- 1), ps, [])
        | Some idx \<Rightarrow>
            if fd \<noteq> p_write_fd (ps ! idx) then Ret (Inl (- 2), ps, [])
            else if p_readers (ps ! idx) = 0 then Ret (Inl (- 3), ps, [])
            else
              panic_bind (pipe_write_loop irq cnt buf (ps ! idx) 0 [])
                (\<lambda>(r, p', w). Ret (r, ps[idx := p'], w)))"

definition pipe_close_end :: "bool \<Rightarrow> i32 \<Rightarrow> pipe \<Rightarrow> pipe \<times> u32 list" where
  "pipe_close_end irq fd p =
     (if fd = p_read_fd p then
        let p1 = p\<lparr>p_readers := p_readers p - 1, p_read_fd := 0\<rparr> in
        if p_readers p1 = 0 then
          let (q, w) = wake_all_threads irq (p_write_wait p1) in (p1\<lparr>p_write_wait := q\<rparr>, w)
        else (p1, [])
      else if fd = p_write_fd p then
        let p1 = p\<lparr>p_writers := p_writers p - 1, p_write_fd := 0\<rparr> in
        if p_writers p1 = 0 then
          let (q, w) = wake_all_threads irq (p_read_wait p1) in (p1\<lparr>p_read_wait := q\<rparr>, w)
        else (p1, [])
      else (p, []))"

definition pipe_close_safe :: "bool \<Rightarrow> pipe list \<Rightarrow> i32 \<Rightarrow> (i32 + unit) \<times> pipe list \<times> u32 list" where
  "pipe_close_safe irq ps fd =
     (case pipe_find_by_fd_index ps fd of
        None \<Rightarrow> (Inl (- 1), ps, [])
      | Some idx \<Rightarrow>
          let (p1, w) = pipe_close_end irq fd (ps ! idx);
              p2 = (if p_readers p1 = 0 \<and> p_writers p1 = 0
                    then p1\<lparr>p_id := 0, p_read_fd := 0, p_write_fd := 0\<rparr> else p1) in
          (Inr (), ps[idx := p2], w))"

section \<open>The ring as a queue\<close>

definition ring_bytes :: "'a list \<Rightarrow> nat \<Rightarrow> nat \<Rightarrow> 'a list" where
  "ring_bytes buf r n = map (\<lambda>i. buf ! ((r + i) mod length buf)) [0 ..< n]"

lemma length_ring_bytes [simp]: "length (ring_bytes buf r n) = n"
  by (simp add: ring_bytes_def)

lemma ring_bytes_get:
  assumes "0 < n" "r < length buf"
  shows "ring_bytes buf r n = buf ! r # ring_bytes buf ((r + 1) mod length buf) (n - 1)"
proof (rule nth_equalityI)
  fix i assume "i < length (ring_bytes buf r n)"
  then show "ring_bytes buf r n ! i = (buf ! r # ring_bytes buf ((r + 1) mod length buf) (n - 1)) ! i"
    using assms by (cases i) (simp_all add: ring_bytes_def mod_add_left_eq)
qed (use assms in simp)

lemma ring_slot_distinct:
  assumes "i < n" "n < N"
  shows "(r + i) mod N \<noteq> (r + n) mod (N :: nat)"
proof
  assume "(r + i) mod N = (r + n) mod N"
  then have "N dvd n - i" using assms mod_eq_dvd_iff_nat [of "r + i" "r + n" N] by simp
  with assms show False using dvd_imp_le [of N "n - i"] by linarith
qed

lemma ring_bytes_put:
  assumes "n < length buf"
  shows "ring_bytes (buf[(r + n) mod length buf := b]) r (n + 1) = ring_bytes buf r n @ [b]"
proof (rule nth_equalityI)
  fix i assume i: "i < length (ring_bytes (buf[(r + n) mod length buf := b]) r (n + 1))"
  have "(r + n) mod length buf < length buf" using assms by (intro mod_less_divisor) linarith
  then show "ring_bytes (buf[(r + n) mod length buf := b]) r (n + 1) ! i = (ring_bytes buf r n @ [b]) ! i"
    using i assms ring_slot_distinct [of i n "length buf" r]
    by (cases "i = n") (auto simp: ring_bytes_def nth_append nth_list_update_if simp del: upt_Suc)
qed simp

definition pipe_bytes :: "pipe \<Rightarrow> u8 list" where
  "pipe_bytes p = ring_bytes (p_buffer p) (unat (p_read_pos p)) (unat (p_count p))"

definition pipe_ok :: "pipe \<Rightarrow> bool" where
  "pipe_ok p \<longleftrightarrow> length (p_buffer p) = 4096 \<and> unat (p_read_pos p) < 4096 \<and> unat (p_count p) \<le> 4096
     \<and> unat (p_write_pos p) = (unat (p_read_pos p) + unat (p_count p)) mod 4096
     \<and> wq_ok (p_read_wait p) \<and> wq_ok (p_write_wait p)"

lemma mod_shift_one: "0 < c \<Longrightarrow> ((r + 1) mod N + (c - 1)) mod N = (r + c) mod (N :: nat)"
proof -
  assume "0 < c"
  then have "r + 1 + (c - 1) = r + c" by simp
  then show ?thesis by (metis mod_add_left_eq)
qed

lemma unat_inc_mod: "unat (w :: u32) < 4096 \<Longrightarrow> unat ((w + 1) mod 4096) = (unat w + 1) mod 4096"
  by (simp add: unat_mod_distrib unat_word_ariths)

lemma ring_get_bytes:
  assumes "pipe_ok p" "p_count p \<noteq> 0"
  shows "pipe_ok (ring_get p)" "pipe_bytes p = p_buffer p ! unat (p_read_pos p) # pipe_bytes (ring_get p)"
proof -
  have c: "unat (p_count p - 1) = unat (p_count p) - 1" "0 < unat (p_count p)"
    using assms(2) by (simp_all add: unat_minus_one unat_gt_0)
  have r: "unat ((p_read_pos p + 1) mod 4096) = (unat (p_read_pos p) + 1) mod 4096"
    using assms(1) by (intro unat_inc_mod) (simp add: pipe_ok_def)
  have "((unat (p_read_pos p) + 1) mod 4096 + (unat (p_count p) - 1)) mod 4096
      = (unat (p_read_pos p) + unat (p_count p)) mod 4096"
    by (rule mod_shift_one [OF c(2)])
  moreover have "unat (p_count p) - 1 \<le> 4096" using assms(1) by (auto simp: pipe_ok_def)
  ultimately show "pipe_ok (ring_get p)"
    using assms(1) c r by (simp add: pipe_ok_def ring_get_def PIPE_BUFFER_SIZE_def)
  show "pipe_bytes p = p_buffer p ! unat (p_read_pos p) # pipe_bytes (ring_get p)"
    using ring_bytes_get [OF c(2), of "unat (p_read_pos p)" "p_buffer p"] assms(1) c r
    by (simp add: pipe_bytes_def pipe_ok_def ring_get_def PIPE_BUFFER_SIZE_def)
qed

lemma ring_put_bytes:
  assumes "pipe_ok p" "p_count p < 4096"
  shows "pipe_ok (ring_put b p)" "pipe_bytes (ring_put b p) = pipe_bytes p @ [b]"
proof -
  have less: "unat (p_count p) < 4096" using assms(2) by (simp add: word_less_nat_alt)
  have c: "unat (p_count p + 1) = unat (p_count p) + 1"
    using less by (simp add: unat_word_ariths)
  have "unat (p_write_pos p) < 4096" using assms(1) by (simp add: pipe_ok_def)
  then have w: "unat ((p_write_pos p + 1) mod 4096) = (unat (p_write_pos p) + 1) mod 4096"
    by (rule unat_inc_mod)
  show "pipe_ok (ring_put b p)"
    using assms(1) less c w
    by (simp add: pipe_ok_def ring_put_def PIPE_BUFFER_SIZE_def mod_Suc_eq)
  show "pipe_bytes (ring_put b p) = pipe_bytes p @ [b]"
    using ring_bytes_put [of "unat (p_count p)" "p_buffer p" "unat (p_read_pos p)" b] assms(1) less c
    by (simp add: pipe_bytes_def pipe_ok_def ring_put_def)
qed

text \<open>The fields a transfer keeps.\<close>

definition same_ends :: "pipe \<Rightarrow> pipe \<Rightarrow> bool" where
  "same_ends p p' \<longleftrightarrow> p_id p' = p_id p \<and> p_read_fd p' = p_read_fd p \<and> p_write_fd p' = p_write_fd p
     \<and> p_readers p' = p_readers p \<and> p_writers p' = p_writers p"

lemma wake_writer_same:
  assumes "pipe_ok p" "wake_writer irq p = (p', w)"
  shows "pipe_ok p'" "pipe_bytes p' = pipe_bytes p" "same_ends p p'" "p_count p' = p_count p"
proof -
  obtain r q w' where q: "wake_one_thread irq (p_write_wait p) = (r, q, w')" by (metis prod_cases3)
  then have "wq_ok q" using wake_one_thread_waiters(1) assms(1) by (auto simp: pipe_ok_def)
  with assms q show "pipe_ok p'" "pipe_bytes p' = pipe_bytes p" "same_ends p p'" "p_count p' = p_count p"
    by (auto simp: wake_writer_def pipe_ok_def pipe_bytes_def same_ends_def split: if_splits)
qed

lemma wake_reader_same:
  assumes "pipe_ok p" "wake_reader irq p = (p', w)"
  shows "pipe_ok p'" "pipe_bytes p' = pipe_bytes p" "same_ends p p'" "p_count p' = p_count p"
proof -
  obtain r q w' where q: "wake_one_thread irq (p_read_wait p) = (r, q, w')" by (metis prod_cases3)
  then have "wq_ok q" using wake_one_thread_waiters(1) assms(1) by (auto simp: pipe_ok_def)
  with assms q show "pipe_ok p'" "pipe_bytes p' = pipe_bytes p" "same_ends p p'" "p_count p' = p_count p"
    by (auto simp: wake_reader_def pipe_ok_def pipe_bytes_def same_ends_def split: if_splits)
qed

lemma same_ends_trans: "same_ends a b \<Longrightarrow> same_ends b c \<Longrightarrow> same_ends a c"
  by (simp add: same_ends_def)

lemma same_ends_ring: "same_ends p (ring_get p)" "same_ends p (ring_put b p)"
  by (simp_all add: same_ends_def ring_get_def ring_put_def)

lemma length_pipe_bytes [simp]: "length (pipe_bytes p) = unat (p_count p)"
  by (simp add: pipe_bytes_def)

section \<open>Transfers\<close>

text \<open>Bytes \<open>k\<close> to \<open>k + length xs\<close> of a buffer overwritten by \<open>xs\<close>.\<close>

definition splice :: "'a list \<Rightarrow> nat \<Rightarrow> 'a list \<Rightarrow> 'a list" where
  "splice buf k xs = take k buf @ xs @ drop (k + length xs) buf"

lemma splice_nil [simp]: "splice buf k [] = buf"
  by (simp add: splice_def)

lemma splice_cons:
  "k < length buf \<Longrightarrow> splice (buf[k := x]) (Suc k) xs = splice buf k (x # xs)"
  by (simp add: splice_def take_Suc_conv_app_nth)

lemma splice_0: "splice buf 0 xs = xs @ drop (length xs) buf"
  by (simp add: splice_def)

lemma pipe_read_loop_spec:
  assumes "pipe_ok p" "read_count \<le> cnt" "unat cnt \<le> length buf"
  shows "\<exists>p' w. pipe_read_loop irq cnt p buf read_count woken =
      Ret (if read_count < cnt \<and> pipe_bytes p = [] \<and> p_writers p \<noteq> 0 \<and> read_count = 0 then Inl (- 4)
           else Inr (read_count + of_nat (min (unat cnt - unat read_count) (length (pipe_bytes p)))),
         p', splice buf (unat read_count) (take (unat cnt - unat read_count) (pipe_bytes p)), w)
    \<and> pipe_ok p' \<and> pipe_bytes p' = drop (unat cnt - unat read_count) (pipe_bytes p) \<and> same_ends p p'"
  using assms
proof (induction irq cnt p buf read_count woken rule: pipe_read_loop.induct)
  case (1 irq cnt p buf read_count woken)
  have empty: "pipe_bytes p = [] \<longleftrightarrow> p_count p = 0"
    using length_pipe_bytes [of p] by (metis length_0_conv unat_eq_zero)
  have same: "same_ends p p" by (simp add: same_ends_def)
  show ?case
  proof (cases "read_count < cnt \<and> p_count p \<noteq> 0")
    case False
    then show ?thesis
      using 1(2,3) empty same
      by (subst pipe_read_loop.simps) (auto simp: word_less_nat_alt word_le_nat_alt word_gt_0 unat_eq_zero)
  next
    case True
    obtain p' w where w: "wake_writer irq (ring_get p) = (p', w)" by (cases "wake_writer irq (ring_get p)")
    note g = ring_get_bytes [OF 1(2) conjunct2 [OF True]]
    note s = wake_writer_same [OF g(1) w]
    have lt: "unat read_count < unat cnt" using True by (simp add: word_less_nat_alt)
    have rc: "unat (read_count + 1) = Suc (unat read_count)"
      using unat_add_1_bounded [OF lt] unat_bound [of cnt] by simp
    obtain b where b: "pipe_bytes p = b # pipe_bytes p'" "b = p_buffer p ! unat (p_read_pos p)"
      using g True s(2) by simp
    obtain d where d: "unat cnt - unat read_count = Suc d" "unat cnt - Suc (unat read_count) = d"
      using lt by (metis Suc_diff_Suc)
    have guard: "\<not> (length buf \<le> unat read_count \<or> length (p_buffer p) \<le> unat (p_read_pos p))"
      using 1(2,4) lt by (auto simp: pipe_ok_def)
    have unfold: "pipe_read_loop irq cnt p buf read_count woken
        = pipe_read_loop irq cnt p' (buf[unat read_count := b]) (read_count + 1) (woken @ w)"
      using True guard w b(2) by (subst pipe_read_loop.simps) simp
    have le: "read_count + 1 \<le> cnt" using lt rc by (simp add: word_le_nat_alt)
    have nz: "read_count + 1 \<noteq> 0" using rc by auto
    from 1(1) [OF _ _ guard refl w [symmetric] refl s(1) le] True 1(4) nz
    obtain p'' w' where IH: "pipe_read_loop irq cnt p' (buf[unat read_count := b]) (read_count + 1) (woken @ w) =
        Ret (Inr (read_count + 1 + of_nat (min d (length (pipe_bytes p')))), p'',
          splice (buf[unat read_count := b]) (Suc (unat read_count)) (take d (pipe_bytes p')), w')"
      "pipe_ok p''" "pipe_bytes p'' = drop d (pipe_bytes p')" "same_ends p' p''"
      unfolding rc b(2) [symmetric] by (auto simp: d)
    have v: "read_count + of_nat (min (Suc d) (length (pipe_bytes p)))
        = read_count + 1 + of_nat (min d (length (pipe_bytes p')))"
      using b(1) by (simp only: list.size min_Suc_Suc of_nat_Suc add_Suc_right add_0_right add.assoc)
    have "same_ends p p''"
      by (rule same_ends_trans [OF same_ends_ring(1) same_ends_trans [OF s(3) IH(4)]])
    moreover have "splice (buf[unat read_count := b]) (Suc (unat read_count)) (take d (pipe_bytes p'))
        = splice buf (unat read_count) (take (Suc d) (pipe_bytes p))"
      using guard b(1) by (simp add: splice_cons)
    moreover have "pipe_bytes p'' = drop (Suc d) (pipe_bytes p)" using b(1) IH(3) by simp
    moreover have "pipe_bytes p \<noteq> []" using b(1) by simp
    ultimately show ?thesis
      unfolding unfold IH(1) d v using IH(2)
      by (intro exI [of _ p''] exI [of _ w'] conjI) (simp_all only: simp_thms if_False)
  qed
qed

lemma pipe_write_loop_spec:
  assumes "pipe_ok p" "written \<le> cnt" "unat cnt \<le> length buf"
  shows "\<exists>p' w. pipe_write_loop irq cnt buf p written woken =
      Ret (if length (pipe_bytes p) + (unat cnt - unat written) \<le> 4096 then Inr cnt else Inl (- 4), p', w)
    \<and> pipe_ok p' \<and> same_ends p p' \<and>
    pipe_bytes p' = pipe_bytes p @
      take (min (unat cnt - unat written) (4096 - length (pipe_bytes p))) (drop (unat written) buf)"
  using assms
proof (induction irq cnt buf p written woken rule: pipe_write_loop.induct)
  case (1 irq cnt buf p written woken)
  have same: "same_ends p p" by (simp add: same_ends_def)
  have le: "unat (p_count p) \<le> 4096" using 1(2) by (simp add: pipe_ok_def)
  show ?case
  proof (cases "written < cnt \<and> p_count p < 4096")
    case False
    then show ?thesis
      using 1(2,3) same le
      by (subst pipe_write_loop.simps) (auto simp: word_less_nat_alt word_le_nat_alt PIPE_BUFFER_SIZE_def word_unat_eq_iff)
  next
    case True
    let ?b = "buf ! unat written"
    obtain p' w where w: "wake_reader irq (ring_put ?b p) = (p', w)" by (cases "wake_reader irq (ring_put ?b p)")
    note g = ring_put_bytes [OF 1(2) conjunct2 [OF True], of ?b]
    note s = wake_reader_same [OF g(1) w]
    have lt: "unat written < unat cnt" and room: "unat (p_count p) < 4096"
      using True by (simp_all add: word_less_nat_alt)
    have wr: "unat (written + 1) = Suc (unat written)"
      using unat_add_1_bounded [OF lt] unat_bound [of cnt] by simp
    have b: "pipe_bytes p' = pipe_bytes p @ [?b]" using g True s(2) by simp
    obtain d where d: "unat cnt - unat written = Suc d" "unat cnt - Suc (unat written) = d"
      using lt by (metis Suc_diff_Suc)
    have guard: "\<not> of_nat PIPE_BUFFER_SIZE \<le> p_count p"
      "\<not> (length buf \<le> unat written \<or> length (p_buffer p) \<le> unat (p_write_pos p))"
      using 1(2,4) lt True by (auto simp: pipe_ok_def PIPE_BUFFER_SIZE_def)
    have unfold: "pipe_write_loop irq cnt buf p written woken = pipe_write_loop irq cnt buf p' (written + 1) (woken @ w)"
      using True guard w by (subst pipe_write_loop.simps) simp
    have next_le: "written + 1 \<le> cnt" using lt wr by (simp add: word_le_nat_alt)
    have count: "unat (p_count p') = Suc (unat (p_count p))"
      using arg_cong [OF b, of length] by simp
    have dr: "drop (unat written) buf = ?b # drop (Suc (unat written)) buf"
      using guard(2) by (simp add: Cons_nth_drop_Suc)
    have m: "min (Suc d) (4096 - unat (p_count p)) = Suc (min d (4096 - unat (p_count p')))"
      using room count by linarith
    from 1(1) [OF _ guard w [symmetric] refl s(1) next_le 1(4)] True
    obtain p'' w' where IH: "pipe_write_loop irq cnt buf p' (written + 1) (woken @ w) =
        Ret (if length (pipe_bytes p') + d \<le> 4096 then Inr cnt else Inl (- 4), p'', w')"
      "pipe_ok p''" "same_ends p' p''"
      "pipe_bytes p'' = pipe_bytes p' @ take (min d (4096 - length (pipe_bytes p'))) (drop (Suc (unat written)) buf)"
      unfolding wr by (auto simp: d)
    have "same_ends p p''"
      by (rule same_ends_trans [OF same_ends_ring(2) same_ends_trans [OF s(3) IH(3)]])
    moreover have "pipe_bytes p'' = pipe_bytes p @ take (min (Suc d) (4096 - unat (p_count p))) (drop (unat written) buf)"
      unfolding IH(4) b dr m using count by simp
    ultimately show ?thesis
      unfolding unfold IH(1) d using IH(2) count
      by (intro exI [of _ p''] exI [of _ w'] conjI) simp_all
  qed
qed

section \<open>The table\<close>

definition pipes_ok :: "pipe list \<Rightarrow> bool" where
  "pipes_ok ps \<longleftrightarrow> (\<forall>p \<in> set ps. pipe_ok p)"

lemma pipes_ok_update: "pipes_ok ps \<Longrightarrow> pipe_ok p \<Longrightarrow> pipes_ok (ps[i := p])"
  by (auto simp: pipes_ok_def dest: set_update_subset_insert [THEN subsetD])

lemma find_by_fdD:
  assumes "pipe_find_by_fd_index ps fd = Some i" "pipes_ok ps"
  shows "i < length ps" "pipe_ok (ps ! i)" "p_id (ps ! i) \<noteq> 0"
  using find_idx_SomeD [OF assms(1) [unfolded pipe_find_by_fd_index_def]] assms(2)
  by (auto simp: pipes_ok_def)

lemma pipe_read_safe_spec:
  assumes "pipes_ok ps" "pipe_find_by_fd_index ps fd = Some i" "fd = p_read_fd (ps ! i)"
    "cnt \<noteq> 0" "unat cnt \<le> length buf"
  shows "\<exists>p' w. pipe_read_safe irq ps fd buf cnt =
      Ret (if pipe_bytes (ps ! i) = [] \<and> p_writers (ps ! i) \<noteq> 0 then Inl (- 4)
           else Inr (of_nat (min (unat cnt) (length (pipe_bytes (ps ! i))))),
         ps[i := p'], splice buf 0 (take (unat cnt) (pipe_bytes (ps ! i))), w)
    \<and> pipe_ok p' \<and> pipe_bytes p' = drop (unat cnt) (pipe_bytes (ps ! i)) \<and> same_ends (ps ! i) p'"
proof -
  note f = find_by_fdD [OF assms(2,1)]
  have "0 < cnt" using assms(4) by (simp add: word_gt_0)
  with pipe_read_loop_spec [OF f(2) _ assms(5), of 0 irq "[]"]
  obtain p' w where "pipe_read_loop irq cnt (ps ! i) buf 0 [] =
      Ret (if pipe_bytes (ps ! i) = [] \<and> p_writers (ps ! i) \<noteq> 0 then Inl (- 4)
           else Inr (of_nat (min (unat cnt) (length (pipe_bytes (ps ! i))))),
         p', splice buf 0 (take (unat cnt) (pipe_bytes (ps ! i))), w)"
    "pipe_ok p'" "pipe_bytes p' = drop (unat cnt) (pipe_bytes (ps ! i))" "same_ends (ps ! i) p'"
    by auto
  then show ?thesis using assms(2-4) by (auto simp: pipe_read_safe_def)
qed

lemma pipe_write_safe_spec:
  assumes "pipes_ok ps" "pipe_find_by_fd_index ps fd = Some i" "fd = p_write_fd (ps ! i)"
    "p_readers (ps ! i) \<noteq> 0" "cnt \<noteq> 0" "unat cnt \<le> length buf"
  shows "\<exists>p' w. pipe_write_safe irq ps fd buf cnt =
      Ret (if length (pipe_bytes (ps ! i)) + unat cnt \<le> 4096 then Inr cnt else Inl (- 4), ps[i := p'], w)
    \<and> pipe_ok p' \<and> same_ends (ps ! i) p' \<and>
    pipe_bytes p' = pipe_bytes (ps ! i) @ take (min (unat cnt) (4096 - length (pipe_bytes (ps ! i)))) buf"
proof -
  note f = find_by_fdD [OF assms(2,1)]
  from pipe_write_loop_spec [OF f(2) _ assms(6), of 0 irq "[]"]
  obtain p' w where "pipe_write_loop irq cnt buf (ps ! i) 0 [] =
      Ret (if length (pipe_bytes (ps ! i)) + unat cnt \<le> 4096 then Inr cnt else Inl (- 4), p', w)"
    "pipe_ok p'" "same_ends (ps ! i) p'"
    "pipe_bytes p' = pipe_bytes (ps ! i) @ take (min (unat cnt) (4096 - length (pipe_bytes (ps ! i)))) buf"
    by auto
  then show ?thesis using assms(2-5) by (auto simp: pipe_write_safe_def)
qed

lemma pipe_close_end_ok:
  assumes "pipe_ok p" "pipe_close_end irq fd p = (p', w)"
  shows "pipe_ok p' \<and> pipe_bytes p' = pipe_bytes p"
proof -
  obtain qr wr qw ww where q: "wake_all_threads irq (p_read_wait p) = (qr, wr)"
    "wake_all_threads irq (p_write_wait p) = (qw, ww)" by (metis surj_pair)
  have "wq_ok qr" "wq_ok qw"
    using wake_all_threads_waiters(1) [OF _ q(1)] wake_all_threads_waiters(1) [OF _ q(2)] assms(1)
    by (simp_all add: pipe_ok_def)
  with assms q show ?thesis
    by (auto simp: pipe_close_end_def pipe_ok_def pipe_bytes_def Let_def split: if_splits)
qed

lemma pipe_close_safe_ok:
  assumes "pipes_ok ps" "pipe_close_safe irq ps fd = (r, ps', w)"
  shows "pipes_ok ps' \<and> length ps' = length ps \<and> (\<forall>i < length ps. pipe_bytes (ps' ! i) = pipe_bytes (ps ! i))"
proof (cases "pipe_find_by_fd_index ps fd")
  case None
  with assms show ?thesis by (simp add: pipe_close_safe_def)
next
  case (Some i)
  note f = find_by_fdD [OF Some assms(1)]
  obtain p1 w1 where p1: "pipe_close_end irq fd (ps ! i) = (p1, w1)" by (cases "pipe_close_end irq fd (ps ! i)")
  define p2 where "p2 = (if p_readers p1 = 0 \<and> p_writers p1 = 0
    then p1\<lparr>p_id := 0, p_read_fd := 0, p_write_fd := 0\<rparr> else p1)"
  have "pipe_ok p2 \<and> pipe_bytes p2 = pipe_bytes (ps ! i)"
    using pipe_close_end_ok [OF f(2) p1] by (simp add: p2_def pipe_ok_def pipe_bytes_def)
  moreover have "ps' = ps[i := p2]" using assms(2) Some p1 by (simp add: pipe_close_safe_def p2_def Let_def)
  ultimately show ?thesis using assms(1) by (auto simp: pipes_ok_update nth_list_update_if)
qed

lemma pipe_create_safe_ok:
  assumes "pipes_ok ps" "pipe_create_safe ps next_id pid = (r, ps', next_id')"
  shows "pipes_ok ps' \<and> length ps' = length ps \<and>
    (\<forall>i < length ps. p_id (ps ! i) \<noteq> 0 \<longrightarrow> ps' ! i = ps ! i) \<and>
    (\<forall>rfd wfd. r = Inr (rfd, wfd) \<longrightarrow>
      (\<exists>i < length ps. p_id (ps ! i) = 0 \<and> p_id (ps' ! i) = next_id \<and> pipe_bytes (ps' ! i) = []
        \<and> p_read_fd (ps' ! i) = rfd \<and> p_write_fd (ps' ! i) = wfd))"
proof (cases "find_idx (\<lambda>p. p_id p = 0) ps")
  case None
  with assms show ?thesis by (auto simp: pipe_create_safe_def pipe_find_free_index_def)
next
  case (Some i)
  note i = find_idx_SomeD [OF Some]
  show ?thesis
    using assms Some i
    by (auto simp: pipe_create_safe_def pipe_find_free_index_def Let_def nth_list_update_if pipe_bytes_def
        ring_bytes_def pipe_ok_def PIPE_BUFFER_SIZE_def wq_ok_init intro!: pipes_ok_update)
qed

section \<open>A pipe as a channel\<close>

text \<open>
  What happens to the pipe of slot \<open>i\<close> while it exists: every call on the table is a step, also those on
  other pipes.  A write hands over the bytes that fit; a read delivers the bytes the caller
  finds in its buffer.
\<close>

definition written_to :: "nat \<Rightarrow> pipe list \<Rightarrow> i32 \<Rightarrow> u8 list \<Rightarrow> u32 \<Rightarrow> u8 list" where
  "written_to i ps fd buf cnt =
     (if pipe_find_by_fd_index ps fd = Some i \<and> fd = p_write_fd (ps ! i) \<and> p_readers (ps ! i) \<noteq> 0
      then take (min (unat cnt) (4096 - length (pipe_bytes (ps ! i)))) buf else [])"

definition read_from :: "nat \<Rightarrow> pipe list \<Rightarrow> i32 \<Rightarrow> i32 + u32 \<Rightarrow> u8 list \<Rightarrow> u8 list" where
  "read_from i ps fd r buf =
     (if pipe_find_by_fd_index ps fd = Some i then (case r of Inl _ \<Rightarrow> [] | Inr n \<Rightarrow> take (unat n) buf) else [])"

inductive pipe_step :: "nat \<Rightarrow> pipe list \<Rightarrow> u8 list \<Rightarrow> u8 list \<Rightarrow> pipe list \<Rightarrow> bool" for i :: nat where
  p_write: "unat cnt \<le> length buf \<Longrightarrow> pipe_write_safe irq ps fd buf cnt = Ret (r, ps', w) \<Longrightarrow>
    pipe_step i ps (written_to i ps fd buf cnt) [] ps'"
| p_read: "unat cnt \<le> length buf \<Longrightarrow> pipe_read_safe irq ps fd buf cnt = Ret (r, ps', buf', w) \<Longrightarrow>
    pipe_step i ps [] (read_from i ps fd r buf') ps'"
| p_close: "pipe_close_safe irq ps fd = (r, ps', w) \<Longrightarrow> pipe_step i ps [] [] ps'"
| p_create: "p_id (ps ! i) \<noteq> 0 \<Longrightarrow> pipe_create_safe ps next_id pid = (r, ps', next_id') \<Longrightarrow>
    pipe_step i ps [] [] ps'"

definition slot_ok :: "nat \<Rightarrow> pipe list \<Rightarrow> bool" where
  "slot_ok i ps \<longleftrightarrow> pipes_ok ps \<and> i < length ps"

lemma step_write:
  assumes "slot_ok i ps" "unat cnt \<le> length buf" "pipe_write_safe irq ps fd buf cnt = Ret (r, ps', w)"
  shows "slot_ok i ps' \<and> pipe_bytes (ps' ! i) = pipe_bytes (ps ! i) @ written_to i ps fd buf cnt"
proof (cases "cnt \<noteq> 0 \<and> (\<exists>j. pipe_find_by_fd_index ps fd = Some j \<and> fd = p_write_fd (ps ! j) \<and> p_readers (ps ! j) \<noteq> 0)")
  case True
  then obtain j where j: "pipe_find_by_fd_index ps fd = Some j" "fd = p_write_fd (ps ! j)"
    "p_readers (ps ! j) \<noteq> 0" "cnt \<noteq> 0" by blast
  from assms(1) have ok: "pipes_ok ps" "i < length ps" by (auto simp: slot_ok_def)
  from pipe_write_safe_spec [OF ok(1) j(1-4) assms(2), of irq] assms(3)
  obtain p' where "ps' = ps[j := p']" "pipe_ok p'"
    "pipe_bytes p' = pipe_bytes (ps ! j) @ take (min (unat cnt) (4096 - length (pipe_bytes (ps ! j)))) buf"
    by auto
  then show ?thesis using ok j
    by (auto simp: slot_ok_def written_to_def nth_list_update_if intro: pipes_ok_update)
next
  case False
  then have "ps' = ps" "written_to i ps fd buf cnt = []"
    using assms(3) by (auto simp: pipe_write_safe_def written_to_def split: if_splits option.splits)
  with assms(1) show ?thesis by simp
qed

lemma step_read:
  assumes "slot_ok i ps" "unat cnt \<le> length buf" "pipe_read_safe irq ps fd buf cnt = Ret (r, ps', buf', w)"
  shows "slot_ok i ps' \<and> pipe_bytes (ps ! i) = read_from i ps fd r buf' @ pipe_bytes (ps' ! i)"
proof (cases "cnt \<noteq> 0 \<and> (\<exists>j. pipe_find_by_fd_index ps fd = Some j \<and> fd = p_read_fd (ps ! j))")
  case True
  then obtain j where j: "pipe_find_by_fd_index ps fd = Some j" "fd = p_read_fd (ps ! j)" "cnt \<noteq> 0" by blast
  from assms(1) have ok: "pipes_ok ps" "i < length ps" by (auto simp: slot_ok_def)
  let ?bs = "pipe_bytes (ps ! j)"
  from pipe_read_safe_spec [OF ok(1) j assms(2), of irq] assms(3)
  obtain p' where p': "ps' = ps[j := p']" "pipe_ok p'" "pipe_bytes p' = drop (unat cnt) ?bs"
    and r: "r = (if ?bs = [] \<and> p_writers (ps ! j) \<noteq> 0 then Inl (- 4) else Inr (of_nat (min (unat cnt) (length ?bs))))"
    and b: "buf' = splice buf 0 (take (unat cnt) ?bs)"
    by auto
  have "unat (of_nat (min (unat cnt) (length ?bs)) :: u32) = min (unat cnt) (length ?bs)"
    by (rule of_nat_inverse [OF refl]) (use unat_bound [of cnt] in linarith)
  then have "(case r of Inl _ \<Rightarrow> [] | Inr n \<Rightarrow> take (unat n) buf') = take (unat cnt) ?bs"
    unfolding r b splice_0 by (auto simp: min_def)
  then show ?thesis using ok j p'
    by (auto simp: slot_ok_def read_from_def nth_list_update_if intro: pipes_ok_update)
next
  case False
  then have "ps' = ps" "r = Inr 0 \<or> isl r \<or> pipe_find_by_fd_index ps fd = None"
    using assms(3) by (auto simp: pipe_read_safe_def split: if_splits option.splits)
  with assms(1) show ?thesis by (auto simp: read_from_def split: sum.splits)
qed

interpretation pipe_chan: channel "slot_ok i" "\<lambda>ps. pipe_bytes (ps ! i)" 4096 "pipe_step i" for i :: nat
proof
  fix ps new out ps'
  assume ok: "slot_ok i ps" and step: "pipe_step i ps new out ps'"
  from step have "slot_ok i ps' \<and> pipe_bytes (ps ! i) @ new = out @ pipe_bytes (ps' ! i)"
  proof cases
    case (p_write cnt buf irq fd r w)
    then show ?thesis using step_write [OF ok] by simp
  next
    case (p_read cnt buf irq fd r buf' w)
    then show ?thesis using step_read [OF ok] by simp
  next
    case (p_close irq fd r w)
    then show ?thesis using pipe_close_safe_ok ok by (auto simp: slot_ok_def)
  next
    case (p_create next_id pid r next_id')
    then show ?thesis using pipe_create_safe_ok [OF _ p_create(4)] ok by (auto simp: slot_ok_def)
  qed
  then show "slot_ok i ps'" "pipe_bytes (ps ! i) @ new = out @ pipe_bytes (ps' ! i)" by auto
next
  fix ps assume "slot_ok i ps"
  then show "length (pipe_bytes (ps ! i)) \<le> 4096" by (auto simp: slot_ok_def pipes_ok_def pipe_ok_def)
qed

inductive pipe_reach :: "pipe list \<Rightarrow> bool" where
  reach_boot: "pipe_reach (replicate IPC_MAX_PIPES pipe_new)"
| reach_step: "pipe_reach ps \<Longrightarrow> pipe_step i ps new out ps' \<Longrightarrow> pipe_reach ps'"
| reach_create: "pipe_reach ps \<Longrightarrow> pipe_create_safe ps next_id pid = (r, ps', next_id') \<Longrightarrow> pipe_reach ps'"

lemma pipe_new_ok: "pipe_ok pipe_new"
  by (simp add: pipe_ok_def pipe_new_def PIPE_BUFFER_SIZE_def wq_ok_new)

lemma step_pipes_ok: "pipe_step i ps new out ps' \<Longrightarrow> pipes_ok ps \<Longrightarrow> length ps = 64 \<Longrightarrow> pipes_ok ps' \<and> length ps' = 64"
proof (induction rule: pipe_step.induct)
  case (p_write cnt buf irq ps fd r ps' w)
  then have "slot_ok 0 ps" by (simp add: slot_ok_def)
  from step_write [OF this p_write.hyps] p_write show ?case
    by (auto simp: slot_ok_def pipe_write_safe_def split: if_splits option.splits elim!: panic_bind_RetE)
next
  case (p_read cnt buf irq ps fd r ps' buf' w)
  then have "slot_ok 0 ps" by (simp add: slot_ok_def)
  from step_read [OF this p_read.hyps] p_read show ?case
    by (auto simp: slot_ok_def pipe_read_safe_def split: if_splits option.splits elim!: panic_bind_RetE)
qed (auto dest: pipe_close_safe_ok pipe_create_safe_ok)

lemma pipe_reach_ok: "pipe_reach ps \<Longrightarrow> pipes_ok ps \<and> length ps = 64"
proof (induction rule: pipe_reach.induct)
  case reach_boot
  show ?case by (simp add: pipes_ok_def pipe_new_ok IPC_MAX_PIPES_def)
qed (auto dest: step_pipes_ok pipe_create_safe_ok)

section \<open>Properties\<close>


definition demo_pipes :: "pipe list" where
  "demo_pipes = fst (snd (pipe_create_safe (replicate IPC_MAX_PIPES pipe_new) 1 5))"

lemma boot_split: "replicate IPC_MAX_PIPES pipe_new = pipe_new # replicate 63 pipe_new"
proof -
  have e: "IPC_MAX_PIPES = Suc 63" by (simp add: IPC_MAX_PIPES_def)
  show ?thesis unfolding e by (rule replicate_Suc)
qed

lemma demo_free: "pipe_find_free_index (replicate IPC_MAX_PIPES pipe_new) = Some 0"
  unfolding boot_split by (simp add: pipe_find_free_index_def pipe_new_def)

lemma demo_create:
  "pipe_create_safe (replicate IPC_MAX_PIPES pipe_new) 1 5 = (Inr (2, 3), demo_pipes, 2)"
  by (simp add: demo_pipes_def pipe_create_safe_def demo_free Let_def)

lemma demo_reach: "pipe_reach demo_pipes"
  by (rule reach_create [OF reach_boot demo_create])

lemma demo_pipes_eq:
  "demo_pipes = pipe_new\<lparr>p_id := 1, p_read_pid := 5, p_write_pid := 5, p_read_fd := 2, p_write_fd := 3,
     p_readers := 1, p_writers := 1\<rparr> # replicate 63 pipe_new"
  unfolding demo_pipes_def pipe_create_safe_def demo_free unfolding boot_split
  by (simp add: pipe_new_def wq_init_def wait_queue_new_def)

lemma demo_write_end:
  "pipe_find_by_fd_index demo_pipes 3 = Some 0" "p_write_fd (demo_pipes ! 0) = 3" "p_readers (demo_pipes ! 0) = 1"
  "pipe_bytes (demo_pipes ! 0) = []"
  unfolding demo_pipes_eq
  by (simp_all add: pipe_find_by_fd_index_def pipe_bytes_def ring_bytes_def pipe_new_def)


text \<open>Results of reads and writes, on every branch.  In every reachable state a read or write whose
  count fits the caller's buffer never panics.  A read returns an error when the descriptor is no
  pipe, is not the read end, or when the pipe is empty while there are writers; otherwise the number
  of bytes read, 0 at the end of the stream.  A write fails without effect when the descriptor is no
  pipe, is not the write end, or there are no readers; it returns the count when everything
  fits and otherwise an error, after it has filled the pipe.\<close>

theorem pipe_results:
  assumes "pipe_reach ps" "cnt \<noteq> 0" "unat cnt \<le> length buf"
  shows "(\<exists>ps' buf' w. pipe_read_safe irq ps fd buf cnt = Ret
        (case pipe_find_by_fd_index ps fd of
           None \<Rightarrow> Inl (- 1)
         | Some i \<Rightarrow>
             if fd \<noteq> p_read_fd (ps ! i) then Inl (- 2)
             else if pipe_bytes (ps ! i) = [] \<and> p_writers (ps ! i) \<noteq> 0 then Inl (- 4)
             else Inr (of_nat (min (unat cnt) (length (pipe_bytes (ps ! i))))), ps', buf', w))
    \<and> (\<exists>ps' w. pipe_write_safe irq ps fd buf cnt = Ret
        (case pipe_find_by_fd_index ps fd of
           None \<Rightarrow> Inl (- 1)
         | Some i \<Rightarrow>
             if fd \<noteq> p_write_fd (ps ! i) then Inl (- 2)
             else if p_readers (ps ! i) = 0 then Inl (- 3)
             else if length (pipe_bytes (ps ! i)) + unat cnt \<le> 4096 then Inr cnt
             else Inl (- 4), ps', w)
        \<and> (\<forall>i. pipe_find_by_fd_index ps fd = Some i \<longrightarrow>
             pipe_bytes (ps' ! i) = pipe_bytes (ps ! i) @ written_to i ps fd buf cnt))"
proof (cases "pipe_find_by_fd_index ps fd")
  case None
  with assms(2) show ?thesis by (auto simp: pipe_read_safe_def pipe_write_safe_def)
next
  case (Some i)
  have ok: "pipes_ok ps" using pipe_reach_ok [OF assms(1)] by simp
  have slot: "slot_ok i ps" using find_by_fdD [OF Some ok] ok by (simp add: slot_ok_def)
  have "\<exists>r ps' w. pipe_write_safe irq ps fd buf cnt = Ret (r, ps', w)"
    using pipe_write_safe_spec [OF ok Some _ _ assms(2,3), of irq] Some
    by (cases "fd = p_write_fd (ps ! i) \<and> p_readers (ps ! i) \<noteq> 0") (auto simp: pipe_write_safe_def)
  then obtain r ps' w where w: "pipe_write_safe irq ps fd buf cnt = Ret (r, ps', w)" by blast
  have "r = (if fd \<noteq> p_write_fd (ps ! i) then Inl (- 2) else if p_readers (ps ! i) = 0 then Inl (- 3)
      else if length (pipe_bytes (ps ! i)) + unat cnt \<le> 4096 then Inr cnt else Inl (- 4))"
    using pipe_write_safe_spec [OF ok Some _ _ assms(2,3), of irq] Some assms(2) w
    by (cases "fd = p_write_fd (ps ! i) \<and> p_readers (ps ! i) \<noteq> 0") (auto simp: pipe_write_safe_def)
  moreover have "pipe_bytes (ps' ! i) = pipe_bytes (ps ! i) @ written_to i ps fd buf cnt"
    using step_write [OF slot assms(3) w] by simp
  moreover have "\<exists>ps' buf' w. pipe_read_safe irq ps fd buf cnt = Ret
      (if fd \<noteq> p_read_fd (ps ! i) then Inl (- 2)
       else if pipe_bytes (ps ! i) = [] \<and> p_writers (ps ! i) \<noteq> 0 then Inl (- 4)
       else Inr (of_nat (min (unat cnt) (length (pipe_bytes (ps ! i))))), ps', buf', w)"
    using pipe_read_safe_spec [OF ok Some _ assms(2,3), of irq] Some assms(2)
    by (cases "fd = p_read_fd (ps ! i)") (auto simp: pipe_read_safe_def)
  ultimately show ?thesis using w Some by simp
qed

theorem pipe_results_witness:
  "\<exists>ps' w. pipe_write_safe False demo_pipes 3 [0x41] 1 = Ret (Inr 1, ps', w)"
  using pipe_results [OF demo_reach, of 1 "[0x41]" False 3] demo_write_end by auto

text \<open>
  A half-closed pipe answers to descriptor 0: closing one end stores 0 in its field, and the search
  by descriptor accepts it.
\<close>

lemma half_closed_matches_fd_0:
  "pipe_find_by_fd_index (fst (snd (pipe_close_safe False demo_pipes 3))) 0 = Some 0"
proof -
  have "wake_all_threads False wait_queue_new = (wait_queue_new, [])"
    by (simp add: wake_all_threads_def drain_pending_def wait_queue_new_def wake_all_loop.simps wake_one_def
        find_idx_None_iff [THEN iffD2])
  then show ?thesis
    unfolding pipe_close_safe_def demo_write_end option.case
    by (simp add: demo_pipes_eq pipe_close_end_def pipe_new_def pipe_find_by_fd_index_def Let_def)
qed

end
