(* ===== verification/Msgq.thy ===== *)
theory Msgq
  imports Wait_Queue Channel
begin

text \<open>
  Message queues: \<^verbatim>\<open>src/src/kernel/services/ipc/msgq.rs\<close>, with \<^verbatim>\<open>Message\<close> and \<^verbatim>\<open>MsgQueue\<close> of
  \<^verbatim>\<open>src/src/kernel/services/ipc/types.rs\<close> and the pointer operations of \<^verbatim>\<open>raw::MessageRef\<close>
  (\<^verbatim>\<open>src/src/kernel/framework/ipc/msgq.rs\<close>).  A queue is an intrusive singly linked list in a heap: a map
  from addresses to the allocated messages, with 0 the null pointer.  The allocator is the
  parameter \<open>alloc\<close> (\<open>None\<close> when it fails); \<open>alloc_fresh\<close> is what is relied on.  A panic, and the
  use of a pointer to a message that is not allocated, is \<open>Panic\<close>.
\<close>

section \<open>Data\<close>

definition IPC_MAX_MSG_QUEUES :: nat where "IPC_MAX_MSG_QUEUES = 32"

definition MSG_MAX_SIZE :: nat where "MSG_MAX_SIZE = 4096"

definition MSG_QUEUE_MAX_MSGS :: u32 where "MSG_QUEUE_MAX_MSGS = 64"

record message =
  m_type :: u64
  m_sender :: u64
  m_size :: u64
  m_data :: "u8 list"
  m_next :: u64

definition message_new :: message where
  "message_new = \<lparr>m_type = 0, m_sender = 0, m_size = 0, m_data = replicate MSG_MAX_SIZE 0, m_next = 0\<rparr>"

record msg_queue =
  mq_id :: u32
  mq_owner :: u32
  mq_head :: u64
  mq_tail :: u64
  mq_count :: u32
  mq_max_msgs :: u32
  mq_max_size :: u32
  mq_send_wait :: wait_queue
  mq_recv_wait :: wait_queue
  mq_flags :: i32
  mq_perm :: i32

definition msg_queue_new :: msg_queue where
  "msg_queue_new =
     \<lparr>mq_id = 0, mq_owner = 0, mq_head = 0, mq_tail = 0, mq_count = 0,
      mq_max_msgs = MSG_QUEUE_MAX_MSGS, mq_max_size = of_nat MSG_MAX_SIZE,
      mq_send_wait = wait_queue_new, mq_recv_wait = wait_queue_new, mq_flags = 0, mq_perm = 0\<rparr>"

type_synonym msg_heap = "u64 \<Rightarrow> message option"

definition alloc_fresh :: "(msg_heap \<Rightarrow> u64 option) \<Rightarrow> bool" where
  "alloc_fresh alloc \<longleftrightarrow> (\<forall>h a. alloc h = Some a \<longrightarrow> a \<noteq> 0 \<and> h a = None)"

section \<open>Operations\<close>

definition msgq_find_free :: "msg_queue list \<Rightarrow> nat option" where
  "msgq_find_free qs = find_idx (\<lambda>q. mq_id q = 0) qs"

definition msgq_find_by_id :: "msg_queue list \<Rightarrow> u32 \<Rightarrow> nat option" where
  "msgq_find_by_id qs qid = find_idx (\<lambda>q. mq_id q = qid) qs"

definition msgq_create_safe ::
  "msg_queue list \<Rightarrow> u32 \<Rightarrow> i32 \<Rightarrow> u32 \<Rightarrow> (i32 + u32) \<times> msg_queue list \<times> u32" where
  "msgq_create_safe qs next_id perm current_pid =
     (case msgq_find_free qs of
        None \<Rightarrow> (Inl (- 1), qs, next_id)
      | Some i \<Rightarrow>
          let mq = qs ! i;
              mq' = mq\<lparr>mq_id := next_id, mq_owner := current_pid, mq_head := 0, mq_tail := 0, mq_count := 0,
                       mq_max_msgs := MSG_QUEUE_MAX_MSGS, mq_max_size := of_nat MSG_MAX_SIZE,
                       mq_flags := 0, mq_perm := perm,
                       mq_send_wait := wq_init (mq_send_wait mq), mq_recv_wait := wq_init (mq_recv_wait mq)\<rparr> in
          (Inr next_id, qs[i := mq'], next_id + 1))"

text \<open>The copy of the caller's data into a new message.\<close>

definition msg_fill :: "u8 list option \<Rightarrow> nat \<Rightarrow> u8 list \<Rightarrow> u8 list panics" where
  "msg_fill data sz msg_data =
     (case data of
        Some src \<Rightarrow>
          if 0 < sz \<and> src \<noteq> [] then
            if length src < sz \<or> length msg_data < sz then Panic
            else Ret (take sz src @ drop sz msg_data)
          else Ret msg_data
      | None \<Rightarrow> Ret msg_data)"

text \<open>The insertion at the tail.\<close>

definition msg_enqueue :: "msg_heap \<Rightarrow> msg_queue \<Rightarrow> u64 \<Rightarrow> (msg_heap \<times> msg_queue) panics" where
  "msg_enqueue h mq a =
     (if mq_tail mq = 0 then Ret (h, mq\<lparr>mq_head := a, mq_tail := a\<rparr>)
      else
        case h (mq_tail mq) of
          None \<Rightarrow> Panic
        | Some t \<Rightarrow> Ret (h(mq_tail mq \<mapsto> t\<lparr>m_next := a\<rparr>), mq\<lparr>mq_tail := a\<rparr>))"

definition wake_receiver :: "bool \<Rightarrow> msg_queue \<Rightarrow> msg_queue \<times> u32 list" where
  "wake_receiver irq mq =
     (if 0 < wq_count (mq_recv_wait mq) then
        let (_, q, w) = wake_one_thread irq (mq_recv_wait mq) in (mq\<lparr>mq_recv_wait := q\<rparr>, w)
      else (mq, []))"

definition msgq_send_safe ::
  "(msg_heap \<Rightarrow> u64 option) \<Rightarrow> bool \<Rightarrow> msg_heap \<Rightarrow> msg_queue list \<Rightarrow> u32 \<Rightarrow> u64 \<Rightarrow> u8 list option \<Rightarrow> nat \<Rightarrow> u32 \<Rightarrow>
   ((i32 + unit) \<times> msg_heap \<times> msg_queue list \<times> u32 list) panics" where
  "msgq_send_safe alloc irq h qs qid type data sz current_pid =
     (if MSG_MAX_SIZE < sz then Ret (Inl (- 2), h, qs, [])
      else
        case msgq_find_by_id qs qid of
          None \<Rightarrow> Ret (Inl (- 1), h, qs, [])
        | Some i \<Rightarrow>
            let mq = qs ! i in
            if mq_max_msgs mq \<le> mq_count mq then Ret (Inl (- 3), h, qs, [])
            else
              case alloc h of
                None \<Rightarrow> Ret (Inl (- 4), h, qs, [])
              | Some a \<Rightarrow>
                  panic_bind (msg_fill data sz (m_data message_new)) (\<lambda>bytes.
                  let msg = message_new\<lparr>m_type := type, m_sender := ucast current_pid, m_size := of_nat sz,
                                        m_next := 0, m_data := bytes\<rparr> in
                  panic_bind (msg_enqueue (h(a \<mapsto> msg)) mq a) (\<lambda>(h', mq1).
                  let (mq2, w) = wake_receiver irq (mq1\<lparr>mq_count := mq_count mq1 + 1\<rparr>) in
                  Ret (Inr (), h', qs[i := mq2], w))))"

definition wake_sender :: "bool \<Rightarrow> msg_queue \<Rightarrow> msg_queue \<times> u32 list" where
  "wake_sender irq mq =
     (if 0 < wq_count (mq_send_wait mq) then
        let (_, q, w) = wake_one_thread irq (mq_send_wait mq) in (mq\<lparr>mq_send_wait := q\<rparr>, w)
      else (mq, []))"

text \<open>
  The outputs of a receive are the caller's variables for type, data and size, where given.
\<close>

definition copy_out :: "message \<Rightarrow> u8 list \<Rightarrow> u8 list panics" where
  "copy_out msg buf =
     (let read_size = unat (m_size msg);
          copy_len = min read_size (length buf) in
      if 0 < read_size then
        if length (m_data msg) < copy_len then Panic else Ret (take copy_len (m_data msg) @ drop copy_len buf)
      else Ret buf)"

definition msgq_recv_safe ::
  "bool \<Rightarrow> msg_heap \<Rightarrow> msg_queue list \<Rightarrow> u32 \<Rightarrow> u64 option \<Rightarrow> u8 list option \<Rightarrow> u64 option \<Rightarrow>
   ((i32 + nat) \<times> msg_heap \<times> msg_queue list \<times> (u64 option \<times> u8 list option \<times> u64 option) \<times> u32 list) panics" where
  "msgq_recv_safe irq h qs qid type_out data_out size_out =
     (case msgq_find_by_id qs qid of
        None \<Rightarrow> Ret (Inl (- 1), h, qs, (type_out, data_out, size_out), [])
      | Some i \<Rightarrow>
          let mq = qs ! i in
          if mq_head mq = 0 then Ret (Inl (- 2), h, qs, (type_out, data_out, size_out), [])
          else
            case h (mq_head mq) of
              None \<Rightarrow> Panic
            | Some msg \<Rightarrow>
                let mq1 = mq\<lparr>mq_head := m_next msg\<rparr>;
                    mq2 = (if mq_head mq1 = 0 then mq1\<lparr>mq_tail := 0\<rparr> else mq1);
                    mq3 = mq2\<lparr>mq_count := mq_count mq2 - 1\<rparr> in
                panic_bind
                  (case data_out of None \<Rightarrow> Ret None
                   | Some buf \<Rightarrow> panic_bind (copy_out msg buf) (\<lambda>b. Ret (Some b))) (\<lambda>data_out'.
                let (mq4, w) = wake_sender irq mq3 in
                Ret (Inr (unat (m_size msg)), h(mq_head mq := None), qs[i := mq4],
                     (map_option (\<lambda>_. m_type msg) type_out, data_out', map_option (\<lambda>_. m_size msg) size_out), w)))"

text \<open>The loop that frees the messages of a queue; it follows the links of messages it has read before.\<close>

function free_chain :: "msg_heap \<Rightarrow> u64 \<Rightarrow> msg_heap panics" where
  "free_chain h a =
     (if a = 0 then Ret h
      else
        case h a of
          None \<Rightarrow> Panic
        | Some m \<Rightarrow> free_chain (h(a := None)) (m_next m))"
  by pat_completeness auto
termination
proof (relation "measure (\<lambda>(h, a). card (dom h))", goal_cases)
  case (2 h a m)
  then have "dom (h(a := None)) \<subset> dom h" by auto
  then show ?case by (simp add: psubset_card_mono)
qed simp

declare free_chain.simps [simp del]

definition msgq_destroy_safe ::
  "msg_heap \<Rightarrow> msg_queue list \<Rightarrow> u32 \<Rightarrow> ((i32 + unit) \<times> msg_heap \<times> msg_queue list) panics" where
  "msgq_destroy_safe h qs qid =
     (case msgq_find_by_id qs qid of
        None \<Rightarrow> Ret (Inl (- 1), h, qs)
      | Some i \<Rightarrow>
          panic_bind (free_chain h (mq_head (qs ! i))) (\<lambda>h'.
          Ret (Inr (), h', qs[i := (qs ! i)\<lparr>mq_head := 0, mq_id := 0\<rparr>])))"

section \<open>Chains\<close>

text \<open>\<open>chain h p as\<close>: following the links from \<open>p\<close> visits the allocated messages at \<open>as\<close> and ends.\<close>

primrec chain :: "msg_heap \<Rightarrow> u64 \<Rightarrow> u64 list \<Rightarrow> bool" where
  "chain h p [] \<longleftrightarrow> p = 0"
| "chain h p (a # as) \<longleftrightarrow> p = a \<and> a \<noteq> 0 \<and> (\<exists>m. h a = Some m \<and> chain h (m_next m) as)"

lemma chain_cong: "(\<And>a. a \<in> set as \<Longrightarrow> h' a = h a) \<Longrightarrow> chain h' p as = chain h p as"
  by (induction as arbitrary: p) auto

lemma chain_allocated: "chain h p as \<Longrightarrow> a \<in> set as \<Longrightarrow> a \<noteq> 0 \<and> h a \<noteq> None"
  by (induction as arbitrary: p) auto

lemma chain_null: "chain h p as \<Longrightarrow> p = 0 \<longleftrightarrow> as = []"
  by (cases as) auto

lemma chain_snoc:
  assumes "chain h p as" "as \<noteq> []" "distinct as" "a \<notin> set as" "a \<noteq> 0" "h (last as) = Some t" "m_next m = 0"
  shows "chain (h(a \<mapsto> m, last as \<mapsto> t\<lparr>m_next := a\<rparr>)) p (as @ [a])"
  using assms
proof (induction as arbitrary: p)
  case (Cons b as)
  show ?case
  proof (cases "as = []")
    case True
    with Cons.prems show ?thesis by auto
  next
    case False
    then have "last as \<in> set as" "b \<noteq> last as" "a \<noteq> last as" using Cons.prems by auto
    with False Cons show ?thesis by auto
  qed
qed simp

lemma free_chain_spec:
  "chain h p as \<Longrightarrow> distinct as \<Longrightarrow> free_chain h p = Ret (\<lambda>a. if a \<in> set as then None else h a)"
proof (induction as arbitrary: h p)
  case Nil
  then show ?case by (simp add: free_chain.simps)
next
  case (Cons a as)
  then obtain m where m: "p = a" "a \<noteq> 0" "h a = Some m" "chain h (m_next m) as" by auto
  with Cons.prems(2) have "chain (h(a := None)) (m_next m) as" by (subst chain_cong [of as _ h]) auto
  then have "free_chain (h(a := None)) (m_next m) = Ret (\<lambda>x. if x \<in> set as then None else (h(a := None)) x)"
    by (rule Cons.IH) (use Cons.prems(2) in simp)
  moreover have "(\<lambda>x. if x \<in> set as then None else (h(a := None)) x) = (\<lambda>x. if x \<in> set (a # as) then None else h x)"
    by auto
  ultimately show ?case using m by (simp add: free_chain.simps [of h])
qed

section \<open>Invariant\<close>

definition msg_ok :: "message \<Rightarrow> bool" where
  "msg_ok m \<longleftrightarrow> unat (m_size m) \<le> 4096 \<and> length (m_data m) = 4096"

definition queue_wf :: "msg_heap \<Rightarrow> msg_queue \<Rightarrow> u64 list \<Rightarrow> bool" where
  "queue_wf h q as \<longleftrightarrow> chain h (mq_head q) as \<and> distinct as \<and> mq_tail q = (if as = [] then 0 else last as)
     \<and> unat (mq_count q) = length as \<and> length as \<le> 64 \<and> mq_max_msgs q = 64
     \<and> (\<forall>a \<in> set as. \<forall>m. h a = Some m \<longrightarrow> msg_ok m)"

definition waits_ok :: "msg_queue \<Rightarrow> bool" where
  "waits_ok q \<longleftrightarrow> wq_ok (mq_send_wait q) \<and> wq_ok (mq_recv_wait q)"

text \<open>\<open>c i\<close> are the addresses of the messages of queue \<open>i\<close>; every allocated message is in one queue.\<close>

definition msgq_inv :: "msg_heap \<Rightarrow> msg_queue list \<Rightarrow> (nat \<Rightarrow> u64 list) \<Rightarrow> bool" where
  "msgq_inv h qs c \<longleftrightarrow>
     (\<forall>i < length qs. waits_ok (qs ! i) \<and> (if mq_id (qs ! i) = 0 then c i = [] else queue_wf h (qs ! i) (c i)))
     \<and> (\<forall>i j. i \<noteq> j \<longrightarrow> set (c i) \<inter> set (c j) = {})
     \<and> (\<forall>i \<ge> length qs. c i = [])
     \<and> dom h = (\<Union>i. set (c i))"

lemma queue_wf_cong:
  assumes "\<And>a. a \<in> set as \<Longrightarrow> h' a = h a"
  shows "queue_wf h' q as = queue_wf h q as"
  using chain_cong [of as h' h "mq_head q"] assms by (auto simp: queue_wf_def)

text \<open>One queue changes, and the heap only at its messages.\<close>

lemma msgq_inv_update:
  assumes inv: "msgq_inv h qs c" and i: "i < length qs" and w: "waits_ok q"
    and q: "if mq_id q = 0 then as = [] else queue_wf h' q as"
    and frame: "\<And>j a. j \<noteq> i \<Longrightarrow> a \<in> set (c j) \<Longrightarrow> h' a = h a \<and> a \<notin> set as"
    and dom: "dom h' = dom h - set (c i) \<union> set as"
  shows "msgq_inv h' (qs[i := q]) (c(i := as))"
  unfolding msgq_inv_def
proof (intro conjI allI impI)
  fix j assume "j < length (qs[i := q])"
  then have j: "j < length qs" by simp
  show "waits_ok (qs[i := q] ! j)" using inv w j by (auto simp: msgq_inv_def nth_list_update_if)
  show "if mq_id (qs[i := q] ! j) = 0 then (c(i := as)) j = [] else queue_wf h' (qs[i := q] ! j) ((c(i := as)) j)"
  proof (cases "j = i")
    case True
    with q i show ?thesis by simp
  next
    case False
    with inv j have "if mq_id (qs ! j) = 0 then c j = [] else queue_wf h (qs ! j) (c j)"
      by (simp add: msgq_inv_def)
    with False frame [OF False] show ?thesis by (auto simp: queue_wf_cong [of "c j" h' h] split: if_splits)
  qed
next
  fix j k :: nat assume "j \<noteq> k"
  moreover have "set (c l) \<inter> set as = {}" if "l \<noteq> i" for l using frame [OF that] by blast
  ultimately show "set ((c(i := as)) j) \<inter> set ((c(i := as)) k) = {}"
    using inv by (cases "j = i"; cases "k = i") (simp_all add: msgq_inv_def Int_commute)
next
  fix j assume "length (qs[i := q]) \<le> j"
  then show "(c(i := as)) j = []" using inv i by (auto simp: msgq_inv_def)
next
  have "dom h = (\<Union>j. set (c j))" "\<And>j. j \<noteq> i \<Longrightarrow> set (c j) \<inter> set (c i) = {}"
    using inv by (auto simp: msgq_inv_def)
  then show "dom h' = (\<Union>j. set ((c(i := as)) j))"
    unfolding dom by (auto split: if_splits) blast
qed

lemma inv_queue:
  assumes "msgq_inv h qs c" "msgq_find_by_id qs qid = Some i" "qid \<noteq> 0"
  shows "i < length qs" "mq_id (qs ! i) = qid" "waits_ok (qs ! i)" "queue_wf h (qs ! i) (c i)"
  using find_idx_SomeD [OF assms(2) [unfolded msgq_find_by_id_def]] assms
  by (auto simp: msgq_inv_def)

lemma wake_receiver_same:
  assumes "waits_ok q" "wake_receiver irq q = (q', w)"
  shows "waits_ok q'" "queue_wf h q' as = queue_wf h q as" "mq_id q' = mq_id q"
    "mq_head q' = mq_head q" "mq_count q' = mq_count q"
proof -
  obtain r wq w' where wq: "wake_one_thread irq (mq_recv_wait q) = (r, wq, w')" by (metis prod_cases3)
  then have "wq_ok wq" using wake_one_thread_waiters(1) assms(1) by (auto simp: waits_ok_def)
  with assms wq show "waits_ok q'" "queue_wf h q' as = queue_wf h q as" "mq_id q' = mq_id q"
    "mq_head q' = mq_head q" "mq_count q' = mq_count q"
    by (auto simp: wake_receiver_def waits_ok_def queue_wf_def split: if_splits)
qed

lemma wake_sender_same:
  assumes "waits_ok q" "wake_sender irq q = (q', w)"
  shows "waits_ok q'" "queue_wf h q' as = queue_wf h q as" "mq_id q' = mq_id q"
    "mq_head q' = mq_head q" "mq_count q' = mq_count q"
proof -
  obtain r wq w' where wq: "wake_one_thread irq (mq_send_wait q) = (r, wq, w')" by (metis prod_cases3)
  then have "wq_ok wq" using wake_one_thread_waiters(1) assms(1) by (auto simp: waits_ok_def)
  with assms wq show "waits_ok q'" "queue_wf h q' as = queue_wf h q as" "mq_id q' = mq_id q"
    "mq_head q' = mq_head q" "mq_count q' = mq_count q"
    by (auto simp: wake_sender_def waits_ok_def queue_wf_def split: if_splits)
qed

section \<open>Contents\<close>

primrec msgs_from :: "msg_heap \<Rightarrow> u64 \<Rightarrow> nat \<Rightarrow> message list" where
  "msgs_from h p 0 = []"
| "msgs_from h p (Suc n) = (case h p of None \<Rightarrow> [] | Some m \<Rightarrow> m # msgs_from h (m_next m) n)"

text \<open>What a receiver sees of a message: its type and its bytes.\<close>

definition msg_view :: "message \<Rightarrow> u64 \<times> u8 list" where
  "msg_view m = (m_type m, take (unat (m_size m)) (m_data m))"

definition contents :: "msg_heap \<Rightarrow> msg_queue \<Rightarrow> (u64 \<times> u8 list) list" where
  "contents h q = map msg_view (msgs_from h (mq_head q) (unat (mq_count q)))"

lemma msgs_from_chain: "chain h p as \<Longrightarrow> msgs_from h p (length as) = map (\<lambda>a. the (h a)) as"
  by (induction as arbitrary: p) auto

lemma contents_wf: "queue_wf h q as \<Longrightarrow> contents h q = map (\<lambda>a. msg_view (the (h a))) as"
  by (simp add: contents_def queue_wf_def msgs_from_chain)

section \<open>Sending\<close>

definition sent_view :: "u64 \<Rightarrow> u8 list option \<Rightarrow> nat \<Rightarrow> u64 \<times> u8 list" where
  "sent_view type data sz =
     (type, case data of Some src \<Rightarrow> if src = [] then replicate sz 0 else take sz src | None \<Rightarrow> replicate sz 0)"

text \<open>The data argument holds as many bytes as announced.\<close>

definition data_fits :: "u8 list option \<Rightarrow> nat \<Rightarrow> bool" where
  "data_fits data sz \<longleftrightarrow> (\<forall>src. data = Some src \<longrightarrow> src = [] \<or> sz \<le> length src)"

lemma msg_fill_spec:
  assumes "sz \<le> 4096" "data_fits data sz"
  shows "\<exists>bytes. msg_fill data sz (m_data message_new) = Ret bytes \<and> length bytes = 4096
    \<and> (type, take sz bytes) = sent_view type data sz"
  using assms
  by (auto simp: msg_fill_def data_fits_def sent_view_def message_new_def MSG_MAX_SIZE_def min_def
      split: option.splits)

lemma enqueue_spec:
  assumes wf: "queue_wf h q as" and less: "length as < 64" and a: "a \<noteq> 0" "h a = None"
    and m: "msg_ok m" "m_next m = 0"
  obtains h' q' where "msg_enqueue (h(a \<mapsto> m)) q a = Ret (h', q')"
    "queue_wf h' (q'\<lparr>mq_count := mq_count q' + 1\<rparr>) (as @ [a])"
    "\<forall>x. x \<notin> set as \<longrightarrow> x \<noteq> a \<longrightarrow> h' x = h x" "dom h' = insert a (dom h)"
    "\<forall>x \<in> set as. msg_view (the (h' x)) = msg_view (the (h x))" "msg_view (the (h' a)) = msg_view m"
    "mq_id q' = mq_id q" "waits_ok q' = waits_ok q"
proof -
  have c: "chain h (mq_head q) as" "distinct as" "unat (mq_count q) = length as" "mq_max_msgs q = 64"
    using wf by (auto simp: queue_wf_def)
  have cnt: "unat (mq_count q + 1) = Suc (length as)"
    using less c(3) by (simp add: unat_word_ariths)
  have fresh: "a \<notin> set as" using chain_allocated [OF c(1), of a] a(2) by auto
  show thesis
  proof (cases "as = []")
    case True
    then have "mq_tail q = 0" using wf by (simp add: queue_wf_def)
    with True show thesis
      using that [of "h(a \<mapsto> m)" "q\<lparr>mq_head := a, mq_tail := a\<rparr>"] a m cnt c
      by (auto simp: msg_enqueue_def queue_wf_def waits_ok_def)
  next
    case False
    then have tail: "mq_tail q = last as" "last as \<in> set as" using wf by (simp_all add: queue_wf_def)
    obtain t where t: "last as \<noteq> 0" "h (last as) = Some t" using chain_allocated [OF c(1) tail(2)] by auto
    have ne: "last as \<noteq> a" using fresh tail(2) by auto
    let ?h = "h(a \<mapsto> m, last as \<mapsto> t\<lparr>m_next := a\<rparr>)"
    have ok: "msg_ok (t\<lparr>m_next := a\<rparr>)"
      using wf tail(2) t by (auto simp: queue_wf_def msg_ok_def)
    have "chain ?h (mq_head q) (as @ [a])"
      using chain_snoc [OF c(1) False c(2) fresh a(1) t(2) m(2)] .
    then have "queue_wf ?h (q\<lparr>mq_tail := a, mq_count := mq_count q + 1\<rparr>) (as @ [a])"
      using wf cnt less fresh m(1) ok c(2) by (auto simp: queue_wf_def split: if_splits)
    then have wf': "queue_wf ?h (q\<lparr>mq_tail := a\<rparr>\<lparr>mq_count := mq_count (q\<lparr>mq_tail := a\<rparr>) + 1\<rparr>) (as @ [a])"
      by simp
    have run: "msg_enqueue (h(a \<mapsto> m)) q a = Ret (?h, q\<lparr>mq_tail := a\<rparr>)"
      using tail t ne by (simp add: msg_enqueue_def)
    note run wf'
    moreover have "\<forall>x. x \<notin> set as \<longrightarrow> x \<noteq> a \<longrightarrow> ?h x = h x" using tail(2) by auto
    moreover have "dom ?h = insert a (dom h)" using t(2) by auto
    moreover have "\<forall>x \<in> set as. msg_view (the (?h x)) = msg_view (the (h x))"
      using fresh t(2) by (auto simp: msg_view_def)
    moreover have "msg_view (the (?h a)) = msg_view m" using ne by simp
    ultimately show thesis by (rule that) (simp_all add: waits_ok_def)
  qed
qed

text \<open>Contents of the other queues do not depend on the messages of one queue.\<close>

lemma contents_frame:
  assumes "msgq_inv h qs c" "j < length qs" "mq_id (qs ! j) \<noteq> 0" "\<And>x. x \<in> set (c j) \<Longrightarrow> h' x = h x"
  shows "contents h' (qs ! j) = contents h (qs ! j)"
proof -
  have "queue_wf h (qs ! j) (c j)" using assms(1-3) by (simp add: msgq_inv_def)
  moreover from this have "queue_wf h' (qs ! j) (c j)" using queue_wf_cong [of "c j" h' h] assms(4) by simp
  ultimately show ?thesis using assms(4) by (simp add: contents_wf)
qed

lemma inv_other:
  "msgq_inv h qs c \<Longrightarrow> j \<noteq> i \<Longrightarrow> x \<in> set (c j) \<Longrightarrow> x \<notin> set (c i) \<and> h x \<noteq> None"
  by (auto simp: msgq_inv_def)

lemma send_enqueue:
  assumes inv: "msgq_inv h qs c" and i: "i < length qs" "mq_id (qs ! i) \<noteq> 0" "queue_wf h (qs ! i) (c i)"
    and a: "h a = None" and w: "waits_ok q'" "mq_id q' = mq_id (qs ! i)"
    and wf: "queue_wf h' q' (c i @ [a])"
    and frame: "\<forall>x. x \<notin> set (c i) \<longrightarrow> x \<noteq> a \<longrightarrow> h' x = h x" and dom: "dom h' = insert a (dom h)"
    and view: "\<forall>x \<in> set (c i). msg_view (the (h' x)) = msg_view (the (h x))"
  shows "msgq_inv h' (qs[i := q']) (c(i := c i @ [a]))"
    and "j < length qs \<Longrightarrow> mq_id (qs ! j) \<noteq> 0 \<Longrightarrow> contents h' (qs[i := q'] ! j) =
       contents h (qs ! j) @ (if j = i then [msg_view (the (h' a))] else [])"
proof -
  have other: "h' x = h x \<and> x \<notin> set (c i @ [a])" if "j \<noteq> i" "x \<in> set (c j)" for j x
  proof -
    have "x \<notin> set (c i)" "x \<noteq> a" using inv_other [OF inv that] a by auto
    then show ?thesis using frame by simp
  qed
  have "set (c i) \<subseteq> dom h" using inv by (auto simp: msgq_inv_def)
  with dom have "dom h' = dom h - set (c i) \<union> set (c i @ [a])" by auto
  with other show "msgq_inv h' (qs[i := q']) (c(i := c i @ [a]))"
    using wf w i by (intro msgq_inv_update [OF inv i(1)]) auto
  assume j: "j < length qs" "mq_id (qs ! j) \<noteq> 0"
  show "contents h' (qs[i := q'] ! j) = contents h (qs ! j) @ (if j = i then [msg_view (the (h' a))] else [])"
  proof (cases "j = i")
    case True
    have "map (\<lambda>x. msg_view (the (h' x))) (c i) = map (\<lambda>x. msg_view (the (h x))) (c i)"
      using view by simp
    with True j contents_wf [OF wf] contents_wf [OF i(3)] show ?thesis by simp
  next
    case False
    then show ?thesis using contents_frame [OF inv j, of h'] other [OF False] by simp
  qed
qed

lemma send_spec:
  assumes inv: "msgq_inv h qs c" and fresh: "alloc_fresh alloc" and qid: "qid \<noteq> 0" and data: "data_fits data sz"
  obtains r h' qs' w c' where "msgq_send_safe alloc irq h qs qid type data sz pid = Ret (r, h', qs', w)"
    "msgq_inv h' qs' c'" "length qs' = length qs" "\<And>i. i < length qs \<Longrightarrow> mq_id (qs' ! i) = mq_id (qs ! i)"
    "\<And>i. i < length qs \<Longrightarrow> mq_id (qs ! i) \<noteq> 0 \<Longrightarrow> contents h' (qs' ! i) =
       contents h (qs ! i) @ (if r = Inr () \<and> msgq_find_by_id qs qid = Some i then [sent_view type data sz] else [])"
    "r = (if 4096 < sz then Inl (- 2) else case msgq_find_by_id qs qid of None \<Rightarrow> Inl (- 1)
       | Some i \<Rightarrow> if length (contents h (qs ! i)) = 64 then Inl (- 3) else if alloc h = None then Inl (- 4) else Inr ())"
proof (cases "4096 < sz \<or> msgq_find_by_id qs qid = None")
  case True
  then show thesis
    using that [of _ h qs "[]" c] inv by (auto simp: msgq_send_safe_def MSG_MAX_SIZE_def)
next
  case False
  then obtain i where i: "msgq_find_by_id qs qid = Some i" "sz \<le> 4096" by auto
  note q = inv_queue [OF inv i(1) qid]
  have len: "length (contents h (qs ! i)) = length (c i)" "unat (mq_count (qs ! i)) = length (c i)"
    "length (c i) \<le> 64" "mq_max_msgs (qs ! i) = 64"
    using q(4) by (auto simp: contents_wf queue_wf_def)
  then have full: "mq_max_msgs (qs ! i) \<le> mq_count (qs ! i) \<longleftrightarrow> length (contents h (qs ! i)) = 64"
    by (simp add: word_le_nat_alt)
  show thesis
  proof (cases "length (contents h (qs ! i)) = 64 \<or> alloc h = None")
    case True
    with i full show thesis
      using that [of _ h qs "[]" c] inv by (auto simp: msgq_send_safe_def MSG_MAX_SIZE_def)
  next
    case False
    then obtain a where a: "alloc h = Some a" "a \<noteq> 0" "h a = None"
      using fresh by (auto simp: alloc_fresh_def)
    obtain bytes where bytes: "msg_fill data sz (m_data message_new) = Ret bytes" "length bytes = 4096"
      "(type, take sz bytes) = sent_view type data sz" using msg_fill_spec [OF i(2) data] by blast
    let ?m = "message_new\<lparr>m_type := type, m_sender := ucast pid, m_size := of_nat sz, m_next := 0, m_data := bytes\<rparr>"
    have sz: "unat (of_nat sz :: u64) = sz" by (rule of_nat_inverse [OF refl]) (use i(2) in simp)
    have ok: "msg_ok ?m" "m_next ?m = 0" "msg_view ?m = sent_view type data sz"
      using bytes i(2) sz by (simp_all add: msg_ok_def msg_view_def)
    have less: "length (c i) < 64" using len False by auto
    obtain h' q' where e: "msg_enqueue (h(a \<mapsto> ?m)) (qs ! i) a = Ret (h', q')"
      "queue_wf h' (q'\<lparr>mq_count := mq_count q' + 1\<rparr>) (c i @ [a])"
      "\<forall>x. x \<notin> set (c i) \<longrightarrow> x \<noteq> a \<longrightarrow> h' x = h x" "dom h' = insert a (dom h)"
      "\<forall>x \<in> set (c i). msg_view (the (h' x)) = msg_view (the (h x))" "msg_view (the (h' a)) = msg_view ?m"
      "mq_id q' = mq_id (qs ! i)" "waits_ok q' = waits_ok (qs ! i)"
      using enqueue_spec [OF q(4) less a(2,3) ok(1,2)] by metis
    let ?q = "q'\<lparr>mq_count := mq_count q' + 1\<rparr>"
    obtain q'' w where w: "wake_receiver irq ?q = (q'', w)" by (cases "wake_receiver irq ?q")
    have "waits_ok ?q" using q(3) e(8) by (simp add: waits_ok_def)
    note r = wake_receiver_same [OF this w]
    have wf: "queue_wf h' q'' (c i @ [a])" using r(2) e(2) by simp
    have id: "mq_id q'' = mq_id (qs ! i)" using r(3) e(7) by simp
    have nz: "mq_id (qs ! i) \<noteq> 0" using q(2) qid by simp
    note s = send_enqueue [OF inv q(1) nz q(4) a(3) r(1) id wf e(3,4,5)]
    have run: "msgq_send_safe alloc irq h qs qid type data sz pid = Ret (Inr (), h', qs[i := q''], w)"
      using i False full a(1) bytes(1) e(1) w by (simp add: msgq_send_safe_def MSG_MAX_SIZE_def Let_def)
    show thesis
    proof (rule that [OF run s(1)])
      show "contents h' (qs[i := q''] ! j) = contents h (qs ! j) @
          (if Inr () = (Inr () :: i32 + unit) \<and> msgq_find_by_id qs qid = Some j then [sent_view type data sz] else [])"
        if "j < length qs" "mq_id (qs ! j) \<noteq> 0" for j
        using s(2) [OF that] e(6) ok(3) i(1) by simp
    qed (use id i False in \<open>auto simp: nth_list_update_if\<close>)
  qed
qed

section \<open>Receiving\<close>

lemma copy_out_spec:
  assumes "msg_ok m"
  obtains b where "copy_out m buf = Ret b" "4096 \<le> length buf \<Longrightarrow> take (unat (m_size m)) b = take (unat (m_size m)) (m_data m)"
proof -
  let ?n = "unat (m_size m)"
  let ?k = "min ?n (length buf)"
  let ?b = "if 0 < ?n then take ?k (m_data m) @ drop ?k buf else buf"
  have ok: "?n \<le> 4096" "length (m_data m) = 4096" using assms by (auto simp: msg_ok_def)
  have run: "copy_out m buf = Ret ?b" using ok by (simp add: copy_out_def Let_def)
  show thesis
  proof (rule that [OF run])
    assume "4096 \<le> length buf"
    then have "?k = ?n" using ok(1) by simp
    then show "take ?n ?b = take ?n (m_data m)" using ok by simp
  qed
qed

text \<open>The queue without its first message.\<close>

definition dequeued :: "msg_queue \<Rightarrow> message \<Rightarrow> msg_queue" where
  "dequeued q m =
     (let q1 = q\<lparr>mq_head := m_next m\<rparr>;
          q2 = (if mq_head q1 = 0 then q1\<lparr>mq_tail := 0\<rparr> else q1) in
      q2\<lparr>mq_count := mq_count q2 - 1\<rparr>)"

lemma dequeued_wf:
  assumes "queue_wf h q (a # as)" "h a = Some m"
  shows "queue_wf (h(a := None)) (dequeued q m) as" "waits_ok (dequeued q m) = waits_ok q" "mq_id (dequeued q m) = mq_id q"
proof -
  have c: "chain h (m_next m) as" "distinct (a # as)" "unat (mq_count q) = Suc (length as)"
    using assms by (auto simp: queue_wf_def)
  have n: "m_next m = 0 \<longleftrightarrow> as = []" by (rule chain_null [OF c(1)])
  have "mq_count q \<noteq> 0" using c(3) by auto
  then have cnt: "unat (mq_count q - 1) = length as" using c(3) by (simp add: unat_minus_one)
  have ch: "chain (h(a := None)) (m_next m) as" using c by (subst chain_cong [of as _ h]) auto
  show "queue_wf (h(a := None)) (dequeued q m) as"
    using assms(1) c(2) n cnt ch by (auto simp: queue_wf_def dequeued_def Let_def)
  show "waits_ok (dequeued q m) = waits_ok q" "mq_id (dequeued q m) = mq_id q"
    by (simp_all add: dequeued_def waits_ok_def Let_def)
qed

definition received :: "i32 + nat \<Rightarrow> u64 option \<Rightarrow> u8 list option \<Rightarrow> (u64 \<times> u8 list) list" where
  "received r type_out data_out = (case r of Inl _ \<Rightarrow> [] | Inr n \<Rightarrow> [(the type_out, take n (the data_out))])"

lemma recv_dequeue:
  assumes inv: "msgq_inv h qs c" and i: "i < length qs" "mq_id (qs ! i) \<noteq> 0" "queue_wf h (qs ! i) (a # as)"
    and c: "c i = a # as" and w: "waits_ok q'" "mq_id q' = mq_id (qs ! i)" and wf: "queue_wf (h(a := None)) q' as"
  shows "msgq_inv (h(a := None)) (qs[i := q']) (c(i := as))"
    and "j < length qs \<Longrightarrow> mq_id (qs ! j) \<noteq> 0 \<Longrightarrow>
       contents h (qs ! j) = (if j = i then [msg_view (the (h a))] else []) @ contents (h(a := None)) (qs[i := q'] ! j)"
proof -
  have other: "(h(a := None)) x = h x \<and> x \<notin> set as" if "j \<noteq> i" "x \<in> set (c j)" for j x
    using inv_other [OF inv that] c by auto
  have d: "a \<notin> set as" using i(3) by (simp add: queue_wf_def)
  have "set (c i) \<subseteq> dom h" using inv by (auto simp: msgq_inv_def)
  with c d have "dom (h(a := None)) = dom h - set (c i) \<union> set as" by auto
  with other show "msgq_inv (h(a := None)) (qs[i := q']) (c(i := as))"
    using wf w i by (intro msgq_inv_update [OF inv i(1)]) auto
  assume j: "j < length qs" "mq_id (qs ! j) \<noteq> 0"
  show "contents h (qs ! j) = (if j = i then [msg_view (the (h a))] else []) @ contents (h(a := None)) (qs[i := q'] ! j)"
  proof (cases "j = i")
    case True
    have "map (\<lambda>x. msg_view (the ((h(a := None)) x))) as = map (\<lambda>x. msg_view (the (h x))) as"
      using d by auto
    with True j contents_wf [OF wf] contents_wf [OF i(3)] show ?thesis by simp
  next
    case False
    then show ?thesis using contents_frame [OF inv j, of "h(a := None)"] other [OF False] by simp
  qed
qed

text \<open>The caller gave a variable for the type and a buffer for the largest message.\<close>

definition full_outputs :: "u64 option \<Rightarrow> u8 list option \<Rightarrow> bool" where
  "full_outputs type_out data_out \<longleftrightarrow> type_out \<noteq> None \<and> (\<exists>buf. data_out = Some buf \<and> 4096 \<le> length buf)"

lemma recv_spec:
  assumes inv: "msgq_inv h qs c" and qid: "qid \<noteq> 0"
  obtains r h' qs' t' d' s' w c' vs where
    "msgq_recv_safe irq h qs qid type_out data_out size_out = Ret (r, h', qs', (t', d', s'), w)"
    "msgq_inv h' qs' c'" "length qs' = length qs" "\<And>i. i < length qs \<Longrightarrow> mq_id (qs' ! i) = mq_id (qs ! i)"
    "\<And>i. i < length qs \<Longrightarrow> mq_id (qs ! i) \<noteq> 0 \<Longrightarrow> contents h (qs ! i) =
       (if msgq_find_by_id qs qid = Some i then vs else []) @ contents h' (qs' ! i)"
    "full_outputs type_out data_out \<Longrightarrow> received r t' d' = vs"
    "isl r \<longleftrightarrow> msgq_find_by_id qs qid = None \<or> contents h (qs ! the (msgq_find_by_id qs qid)) = []"
proof (cases "msgq_find_by_id qs qid")
  case None
  then show thesis
    using that [of "Inl (- 1)" h qs type_out data_out size_out "[]" c "[]"] inv
    by (auto simp: msgq_recv_safe_def received_def)
next
  case (Some i)
  note q = inv_queue [OF inv Some qid]
  have ch: "chain h (mq_head (qs ! i)) (c i)" using q(4) by (simp add: queue_wf_def)
  show thesis
  proof (cases "c i")
    case Nil
    then have "mq_head (qs ! i) = 0" "contents h (qs ! i) = []" using ch contents_wf [OF q(4)] by auto
    with Some show thesis
      using that [of "Inl (- 2)" h qs type_out data_out size_out "[]" c "[]"] inv
      by (auto simp: msgq_recv_safe_def received_def)
  next
    case (Cons a as)
    then obtain m where m: "mq_head (qs ! i) = a" "a \<noteq> 0" "h a = Some m" using ch by auto
    have wf: "queue_wf h (qs ! i) (a # as)" using q(4) Cons by simp
    then have "msg_ok m" using m(3) by (auto simp: queue_wf_def)
    note copy = copy_out_spec [OF this]
    obtain d' where d': "(case data_out of None \<Rightarrow> Ret None | Some buf \<Rightarrow> panic_bind (copy_out m buf) (\<lambda>b. Ret (Some b))) = Ret d'"
      "full_outputs type_out data_out \<Longrightarrow> take (unat (m_size m)) (the d') = take (unat (m_size m)) (m_data m)"
    proof (cases data_out)
      case None
      then show thesis using that [of None] by (simp add: full_outputs_def)
    next
      case (Some buf)
      obtain b where "copy_out m buf = Ret b"
        "4096 \<le> length buf \<Longrightarrow> take (unat (m_size m)) b = take (unat (m_size m)) (m_data m)"
        using copy [of buf] by metis
      then show thesis using that [of "Some b"] Some by (auto simp: full_outputs_def)
    qed
    note d = dequeued_wf [OF wf m(3)]
    obtain q' w where w: "wake_sender irq (dequeued (qs ! i) m) = (q', w)"
      by (cases "wake_sender irq (dequeued (qs ! i) m)")
    note r = wake_sender_same [OF _ w]
    have q': "waits_ok q'" "mq_id q' = mq_id (qs ! i)" "queue_wf (h(a := None)) q' as"
      using r d q(3) by simp_all
    have nz: "mq_id (qs ! i) \<noteq> 0" using q(2) qid by simp
    note s = recv_dequeue [OF inv q(1) nz wf Cons q']
    have run: "msgq_recv_safe irq h qs qid type_out data_out size_out =
        Ret (Inr (unat (m_size m)), h(a := None), qs[i := q'],
          (map_option (\<lambda>_. m_type m) type_out, d', map_option (\<lambda>_. m_size m) size_out), w)"
      using Some m d'(1) w by (simp add: msgq_recv_safe_def dequeued_def Let_def)
    have view: "received (Inr (unat (m_size m))) (map_option (\<lambda>_. m_type m) type_out) d' = [msg_view (the (h a))]"
      if "full_outputs type_out data_out"
      using d'(2) [OF that] that m(3) by (auto simp: received_def msg_view_def full_outputs_def)
    show thesis
    proof (rule that [OF run s(1)])
      show "contents h (qs ! j) = (if msgq_find_by_id qs qid = Some j then [msg_view (the (h a))] else [])
          @ contents (h(a := None)) (qs[i := q'] ! j)"
        if "j < length qs" "mq_id (qs ! j) \<noteq> 0" for j
        using s(2) [OF that] Some by (auto split: if_splits)
      show "isl (Inr (unat (m_size m)) :: i32 + nat) \<longleftrightarrow>
          msgq_find_by_id qs qid = None \<or> contents h (qs ! the (msgq_find_by_id qs qid)) = []"
        using Some contents_wf [OF wf] by simp
    qed (use q'(2) view in \<open>auto simp: nth_list_update_if\<close>)
  qed
qed

section \<open>Creating and destroying\<close>

lemma destroy_spec:
  assumes inv: "msgq_inv h qs c" and qid: "qid \<noteq> 0"
  obtains r h' qs' c' where "msgq_destroy_safe h qs qid = Ret (r, h', qs')" "msgq_inv h' qs' c'" "length qs' = length qs"
    "\<And>j. j < length qs \<Longrightarrow> mq_id (qs ! j) \<noteq> 0 \<Longrightarrow> msgq_find_by_id qs qid \<noteq> Some j \<Longrightarrow>
       qs' ! j = qs ! j \<and> contents h' (qs ! j) = contents h (qs ! j)"
    "isl r \<longleftrightarrow> msgq_find_by_id qs qid = None"
proof (cases "msgq_find_by_id qs qid")
  case None
  then show thesis using that [of _ h qs c] inv by (auto simp: msgq_destroy_safe_def)
next
  case (Some i)
  note q = inv_queue [OF inv Some qid]
  let ?h = "\<lambda>a. if a \<in> set (c i) then None else h a"
  let ?q = "(qs ! i)\<lparr>mq_head := 0, mq_id := 0\<rparr>"
  have "free_chain h (mq_head (qs ! i)) = Ret ?h"
    using q(4) by (intro free_chain_spec) (auto simp: queue_wf_def)
  then have run: "msgq_destroy_safe h qs qid = Ret (Inr (), ?h, qs[i := ?q])"
    using Some by (simp add: msgq_destroy_safe_def)
  have other: "?h x = h x" if "j \<noteq> i" "x \<in> set (c j)" for j x
    using inv_other [OF inv that] by auto
  have "dom ?h = dom h - set (c i) \<union> set []" by (auto simp: dom_def)
  then have inv': "msgq_inv ?h (qs[i := ?q]) (c(i := []))"
    using q(3) other by (intro msgq_inv_update [OF inv q(1)]) (simp_all add: waits_ok_def)
  show thesis
  proof (rule that [OF run inv'])
    fix j assume j: "j < length qs" "mq_id (qs ! j) \<noteq> 0" "msgq_find_by_id qs qid \<noteq> Some j"
    then have "j \<noteq> i" using Some by auto
    with contents_frame [OF inv j(1,2), of ?h] other
    show "qs[i := ?q] ! j = qs ! j \<and> contents ?h (qs ! j) = contents h (qs ! j)" by simp
  qed (use Some in simp_all)
qed

lemma create_spec:
  assumes inv: "msgq_inv h qs c" and run: "msgq_create_safe qs next_id perm pid = (r, qs', next_id')"
  shows "msgq_inv h qs' c" "length qs' = length qs"
    "j < length qs \<Longrightarrow> mq_id (qs ! j) \<noteq> 0 \<Longrightarrow> qs' ! j = qs ! j"
    "msgq_find_free qs = Some i \<Longrightarrow> next_id \<noteq> 0 \<Longrightarrow> i < length qs \<and> mq_id (qs' ! i) = next_id \<and> contents h (qs' ! i) = []"
proof -
  have "msgq_inv h qs' c \<and> length qs' = length qs \<and> (\<forall>j < length qs. mq_id (qs ! j) \<noteq> 0 \<longrightarrow> qs' ! j = qs ! j) \<and>
    (\<forall>i. msgq_find_free qs = Some i \<longrightarrow> next_id \<noteq> 0 \<longrightarrow>
      i < length qs \<and> mq_id (qs' ! i) = next_id \<and> contents h (qs' ! i) = [])"
  proof (cases "find_idx (\<lambda>q. mq_id q = 0) qs")
    case None
    with inv run show ?thesis by (auto simp: msgq_create_safe_def msgq_find_free_def)
  next
    case (Some i)
    note i = find_idx_SomeD [OF Some]
    define q where "q = (qs ! i)\<lparr>mq_id := next_id, mq_owner := pid, mq_head := 0, mq_tail := 0, mq_count := 0,
      mq_max_msgs := MSG_QUEUE_MAX_MSGS, mq_max_size := of_nat MSG_MAX_SIZE, mq_flags := 0, mq_perm := perm,
      mq_send_wait := wq_init (mq_send_wait (qs ! i)), mq_recv_wait := wq_init (mq_recv_wait (qs ! i))\<rparr>"
    have qs': "qs' = qs[i := q]"
      using run Some by (simp add: msgq_create_safe_def msgq_find_free_def Let_def q_def)
    have empty: "c i = []" using inv i by (simp add: msgq_inv_def)
    have "msgq_inv h (qs[i := q]) (c(i := []))"
      using empty by (intro msgq_inv_update [OF inv i(1)])
        (auto simp: q_def waits_ok_def wq_ok_init queue_wf_def MSG_QUEUE_MAX_MSGS_def)
    moreover have "c(i := []) = c" using empty by auto
    ultimately show ?thesis
      using i Some by (auto simp: qs' nth_list_update_if msgq_find_free_def q_def contents_def)
  qed
  then show "msgq_inv h qs' c" "length qs' = length qs"
    "j < length qs \<Longrightarrow> mq_id (qs ! j) \<noteq> 0 \<Longrightarrow> qs' ! j = qs ! j"
    "msgq_find_free qs = Some i \<Longrightarrow> next_id \<noteq> 0 \<Longrightarrow> i < length qs \<and> mq_id (qs' ! i) = next_id \<and> contents h (qs' ! i) = []"
    by blast+
qed

section \<open>A queue as a channel\<close>

text \<open>
  What happens to queue \<open>i\<close> while it exists: the calls on all queues, with identifiers other than 0, as
  handed out by the create function.  Its receivers pass full outputs.
\<close>

inductive msgq_step :: "(msg_heap \<Rightarrow> u64 option) \<Rightarrow> nat \<Rightarrow> msg_heap \<times> msg_queue list \<Rightarrow>
    (u64 \<times> u8 list) list \<Rightarrow> (u64 \<times> u8 list) list \<Rightarrow> msg_heap \<times> msg_queue list \<Rightarrow> bool"
  for alloc :: "msg_heap \<Rightarrow> u64 option" and i :: nat
  where
    q_send: "qid \<noteq> 0 \<Longrightarrow> data_fits data sz \<Longrightarrow>
      msgq_send_safe alloc irq h qs qid type data sz pid = Ret (r, h', qs', w) \<Longrightarrow>
      msgq_step alloc i (h, qs)
        (if r = Inr () \<and> msgq_find_by_id qs qid = Some i then [sent_view type data sz] else []) [] (h', qs')"
  | q_recv: "qid \<noteq> 0 \<Longrightarrow> msgq_find_by_id qs qid = Some i \<longrightarrow> full_outputs type_out data_out \<Longrightarrow>
      msgq_recv_safe irq h qs qid type_out data_out size_out = Ret (r, h', qs', (t', d', s'), w) \<Longrightarrow>
      msgq_step alloc i (h, qs) [] (if msgq_find_by_id qs qid = Some i then received r t' d' else []) (h', qs')"
  | q_destroy: "qid \<noteq> 0 \<Longrightarrow> msgq_find_by_id qs qid \<noteq> Some i \<Longrightarrow>
      msgq_destroy_safe h qs qid = Ret (r, h', qs') \<Longrightarrow> msgq_step alloc i (h, qs) [] [] (h', qs')"
  | q_create: "msgq_create_safe qs next_id perm pid = (r, qs', next_id') \<Longrightarrow> msgq_step alloc i (h, qs) [] [] (h, qs')"

fun queue_live :: "nat \<Rightarrow> msg_heap \<times> msg_queue list \<Rightarrow> bool" where
  "queue_live i (h, qs) \<longleftrightarrow> (\<exists>c. msgq_inv h qs c) \<and> i < length qs \<and> mq_id (qs ! i) \<noteq> 0"

fun slot_contents :: "nat \<Rightarrow> msg_heap \<times> msg_queue list \<Rightarrow> (u64 \<times> u8 list) list" where
  "slot_contents i (h, qs) = contents h (qs ! i)"

text \<open>The same facts about the state a call returned.\<close>

lemma send_result:
  assumes inv: "msgq_inv h qs c" and fresh: "alloc_fresh alloc" and qid: "qid \<noteq> 0" and data: "data_fits data sz"
    and run: "msgq_send_safe alloc irq h qs qid type data sz pid = Ret (r, h', qs', w)"
  shows "(\<exists>c'. msgq_inv h' qs' c') \<and> length qs' = length qs \<and> (\<forall>i < length qs. mq_id (qs' ! i) = mq_id (qs ! i))
    \<and> (\<forall>i < length qs. mq_id (qs ! i) \<noteq> 0 \<longrightarrow> contents h' (qs' ! i) =
       contents h (qs ! i) @ (if r = Inr () \<and> msgq_find_by_id qs qid = Some i then [sent_view type data sz] else []))"
  by (rule send_spec [OF inv fresh qid data, of irq type pid]) (use run in auto)

lemma recv_result:
  assumes inv: "msgq_inv h qs c" and qid: "qid \<noteq> 0"
    and run: "msgq_recv_safe irq h qs qid type_out data_out size_out = Ret (r, h', qs', (t', d', s'), w)"
  shows "(\<exists>c'. msgq_inv h' qs' c') \<and> length qs' = length qs \<and> (\<forall>i < length qs. mq_id (qs' ! i) = mq_id (qs ! i))
    \<and> (\<exists>vs. (\<forall>i < length qs. mq_id (qs ! i) \<noteq> 0 \<longrightarrow> contents h (qs ! i) =
       (if msgq_find_by_id qs qid = Some i then vs else []) @ contents h' (qs' ! i))
       \<and> (full_outputs type_out data_out \<longrightarrow> received r t' d' = vs))"
  by (rule recv_spec [OF inv qid, of irq type_out data_out size_out]) (use run in auto)

lemma destroy_result:
  assumes inv: "msgq_inv h qs c" and qid: "qid \<noteq> 0" and run: "msgq_destroy_safe h qs qid = Ret (r, h', qs')"
  shows "(\<exists>c'. msgq_inv h' qs' c') \<and> length qs' = length qs \<and>
    (\<forall>j < length qs. mq_id (qs ! j) \<noteq> 0 \<longrightarrow> msgq_find_by_id qs qid \<noteq> Some j \<longrightarrow>
       qs' ! j = qs ! j \<and> contents h' (qs ! j) = contents h (qs ! j))"
  by (rule destroy_spec [OF inv qid]) (use run in auto)

lemma msgq_step_fifo:
  assumes "msgq_step alloc i s new out s'" "alloc_fresh alloc" "queue_live i s"
  shows "queue_live i s' \<and> slot_contents i s @ new = out @ slot_contents i s'"
  using assms
proof (induction rule: msgq_step.induct)
  case (q_send qid data sz irq h qs type pid r h' qs' w)
  then obtain c where c: "msgq_inv h qs c" "i < length qs" "mq_id (qs ! i) \<noteq> 0" by auto
  from send_result [OF c(1) q_send.prems(1) q_send.hyps] c(2,3) show ?case by auto
next
  case (q_recv qid qs type_out data_out irq h size_out r h' qs' t' d' s' w)
  then obtain c where c: "msgq_inv h qs c" "i < length qs" "mq_id (qs ! i) \<noteq> 0" by auto
  from recv_result [OF c(1) q_recv.hyps(1,3)] q_recv.hyps(2) c(2,3) show ?case by auto
next
  case (q_destroy qid qs h r h' qs')
  then obtain c where c: "msgq_inv h qs c" "i < length qs" "mq_id (qs ! i) \<noteq> 0" by auto
  from destroy_result [OF c(1) q_destroy.hyps(1,3)] q_destroy.hyps(2) c(2,3) show ?case by auto
next
  case (q_create qs next_id perm pid r qs' next_id' h)
  then obtain c where c: "msgq_inv h qs c" "i < length qs" "mq_id (qs ! i) \<noteq> 0" by auto
  from create_spec [OF c(1) q_create.hyps] c show ?case by auto
qed

text \<open>The channel of queue \<open>i\<close>; the allocator is one that returns fresh addresses, or none at all.\<close>

interpretation msgq_chan: channel "queue_live i" "slot_contents i" 64
    "\<lambda>s new out s'. alloc_fresh alloc \<and> msgq_step alloc i s new out s'" for i alloc
proof
  fix s new out s'
  assume "queue_live i s" "alloc_fresh alloc \<and> msgq_step alloc i s new out s'"
  then show "queue_live i s'" "slot_contents i s @ new = out @ slot_contents i s'"
    using msgq_step_fifo by blast+
next
  fix s assume "queue_live i s"
  then obtain h qs c where "s = (h, qs)" "msgq_inv h qs c" "i < length qs" "mq_id (qs ! i) \<noteq> 0"
    by (cases s) auto
  then have s: "s = (h, qs)" and wf: "queue_wf h (qs ! i) (c i)" by (simp_all add: msgq_inv_def)
  from wf have "length (c i) \<le> 64" by (simp add: queue_wf_def)
  with s show "length (slot_contents i s) \<le> 64" by (simp add: contents_wf [OF wf])
qed

inductive msgq_reach :: "(msg_heap \<Rightarrow> u64 option) \<Rightarrow> msg_heap \<Rightarrow> msg_queue list \<Rightarrow> bool"
  for alloc :: "msg_heap \<Rightarrow> u64 option"
  where
    r_boot: "msgq_reach alloc (\<lambda>_. None) (replicate IPC_MAX_MSG_QUEUES msg_queue_new)"
  | r_create: "msgq_reach alloc h qs \<Longrightarrow> msgq_create_safe qs next_id perm pid = (r, qs', next_id') \<Longrightarrow>
      msgq_reach alloc h qs'"
  | r_send: "msgq_reach alloc h qs \<Longrightarrow> qid \<noteq> 0 \<Longrightarrow> data_fits data sz \<Longrightarrow>
      msgq_send_safe alloc irq h qs qid type data sz pid = Ret (r, h', qs', w) \<Longrightarrow> msgq_reach alloc h' qs'"
  | r_recv: "msgq_reach alloc h qs \<Longrightarrow> qid \<noteq> 0 \<Longrightarrow>
      msgq_recv_safe irq h qs qid type_out data_out size_out = Ret (r, h', qs', outs, w) \<Longrightarrow> msgq_reach alloc h' qs'"
  | r_destroy: "msgq_reach alloc h qs \<Longrightarrow> qid \<noteq> 0 \<Longrightarrow> msgq_destroy_safe h qs qid = Ret (r, h', qs') \<Longrightarrow>
      msgq_reach alloc h' qs'"

lemma boot_inv: "msgq_inv (\<lambda>_. None) (replicate IPC_MAX_MSG_QUEUES msg_queue_new) (\<lambda>_. [])"
  by (simp add: msgq_inv_def msg_queue_new_def waits_ok_def wq_ok_new)

lemma reach_inv: "msgq_reach alloc h qs \<Longrightarrow> alloc_fresh alloc \<Longrightarrow> \<exists>c. msgq_inv h qs c"
proof (induction rule: msgq_reach.induct)
  case r_boot
  show ?case using boot_inv by blast
next
  case (r_create h qs next_id perm pid r qs' next_id')
  then show ?case using create_spec(1) by blast
next
  case (r_send h qs qid data sz irq type pid r h' qs' w)
  then show ?case using send_result by blast
next
  case (r_recv h qs qid irq type_out data_out size_out r h' qs' outs w)
  then show ?case using recv_result by (metis surj_pair)
next
  case (r_destroy h qs qid r h' qs')
  then show ?case using destroy_result by blast
qed

section \<open>Properties\<close>

text \<open>C7: Message order.  From the creation of a message queue on, through any sequence of calls on
  all queues, its receivers get exactly the messages that were sent to it, type and bytes, in the
  order of sending; at most 64 messages wait.\<close>

theorem msgq_fifo:
  assumes "alloc_fresh alloc" "msgq_reach alloc h qs" "msgq_find_free qs = Some i" "next_id \<noteq> 0"
    "msgq_create_safe qs next_id perm pid = (Inr qid, qs0, next_id')"
    "chan_run (msgq_step alloc i) (h, qs0) sent got s"
  shows "take (length got) sent = got \<and> length sent \<le> length got + 64"
proof -
  obtain c where c: "msgq_inv h qs c" using reach_inv assms(1,2) by blast
  note create = create_spec [OF c assms(5)]
  have "queue_live i (h, qs0)" "slot_contents i (h, qs0) = []"
    using create(1,2) create(4) [OF assms(3,4)] assms(4) by auto
  moreover have "chan_run (\<lambda>s new out s'. alloc_fresh alloc \<and> msgq_step alloc i s new out s') (h, qs0) sent got s"
    using assms(6) by (induction rule: chan_run.induct) (auto intro: chan_run.intros assms(1))
  ultimately show ?thesis using msgq_chan.run_in_order by blast
qed

text \<open>An allocator with room for one message.\<close>

definition demo_alloc :: "msg_heap \<Rightarrow> u64 option" where
  "demo_alloc h = (if h 8 = None then Some 8 else None)"

lemma demo_alloc_fresh: "alloc_fresh demo_alloc"
  by (simp add: alloc_fresh_def demo_alloc_def)

definition demo_queues :: "msg_queue list" where
  "demo_queues = fst (snd (msgq_create_safe (replicate IPC_MAX_MSG_QUEUES msg_queue_new) 1 0 5))"

lemma demo_find: "msgq_find_free (replicate IPC_MAX_MSG_QUEUES msg_queue_new) = Some 0"
  by (simp add: msgq_find_free_def find_idx_Some_iff IPC_MAX_MSG_QUEUES_def msg_queue_new_def)

lemma demo_created:
  "msgq_create_safe (replicate IPC_MAX_MSG_QUEUES msg_queue_new) 1 0 5 = (Inr 1, demo_queues, 2)"
  by (simp add: demo_queues_def msgq_create_safe_def demo_find Let_def)

lemma demo_queues_reachable: "msgq_reach demo_alloc (\<lambda>_. None) demo_queues"
  by (rule r_create [OF r_boot demo_created])

lemma demo_by_id: "msgq_find_by_id demo_queues 1 = Some 0" "mq_count (demo_queues ! 0) = 0"
  unfolding demo_queues_def msgq_create_safe_def demo_find
  by (simp_all add: msgq_find_by_id_def find_idx_Some_iff IPC_MAX_MSG_QUEUES_def Let_def)

theorem msgq_fifo_witness:
  "\<exists>s. chan_run (msgq_step demo_alloc 0) ((\<lambda>_. None), demo_queues) [(7, [0x41])] [] s \<and>
    take (length ([] :: (u64 \<times> u8 list) list)) [(7 :: u64, [0x41 :: u8])] = []"
proof -
  have fits: "data_fits (Some [0x41]) 1" by (simp add: data_fits_def)
  obtain c where c: "msgq_inv (\<lambda>_. None) demo_queues c" using reach_inv demo_queues_reachable demo_alloc_fresh by blast
  have empty: "contents (\<lambda>_. None) (demo_queues ! 0) = []" using demo_by_id by (simp add: contents_def)
  obtain h' qs' w where run:
    "msgq_send_safe demo_alloc False (\<lambda>_. None) demo_queues 1 7 (Some [0x41]) 1 5 = Ret (Inr (), h', qs', w)"
    by (rule send_spec [OF c demo_alloc_fresh _ fits, of 1 False 7 5])
       (use demo_by_id empty in \<open>auto simp: demo_alloc_def\<close>)
  have "msgq_step demo_alloc 0 ((\<lambda>_. None), demo_queues) [(7, [0x41])] [] (h', qs')"
    using q_send [OF _ fits run, of 0] demo_by_id by (simp add: sent_view_def)
  then have chan: "chan_run (msgq_step demo_alloc 0) ((\<lambda>_. None), demo_queues) [(7, [0x41])] [] (h', qs')"
    using chan_step [OF chan_start] by force
  from msgq_fifo [OF demo_alloc_fresh r_boot demo_find _ demo_created chan] chan show ?thesis by auto
qed

lemma inv_accounts:
  assumes "msgq_inv h qs c"
  shows "card (dom h) = (\<Sum>i < length qs. if mq_id (qs ! i) = 0 then 0 else unat (mq_count (qs ! i)))"
proof -
  have slot: "length (c i) = (if mq_id (qs ! i) = 0 then 0 else unat (mq_count (qs ! i)))" "distinct (c i)"
    if "i < length qs" for i
    using assms that by (auto simp: msgq_inv_def queue_wf_def split: if_splits)
  have "dom h = (\<Union>i < length qs. set (c i))"
    using assms by (auto simp: msgq_inv_def) (metis empty_iff empty_set leI lessThan_iff)
  also have "card \<dots> = (\<Sum>i < length qs. card (set (c i)))"
    using assms by (intro card_UN_disjoint) (auto simp: msgq_inv_def)
  also have "\<dots> = (\<Sum>i < length qs. if mq_id (qs ! i) = 0 then 0 else unat (mq_count (qs ! i)))"
    using slot by (intro sum.cong) (simp_all add: distinct_card)
  finally show ?thesis .
qed



text \<open>
  Identifier 0 names free slots.  Destroying a queue that still holds messages leaves its tail pointer,
  and a send to identifier 0 then writes through it.
\<close>

lemma destroyed_tail_dangles:
  assumes "msgq_inv h qs c" "msgq_find_by_id qs qid = Some i" "qid \<noteq> 0" "contents h (qs ! i) \<noteq> []"
  shows "\<exists>h' qs'. msgq_destroy_safe h qs qid = Ret (Inr (), h', qs') \<and> mq_id (qs' ! i) = 0
    \<and> mq_tail (qs' ! i) \<noteq> 0 \<and> h' (mq_tail (qs' ! i)) = None"
proof -
  note q = inv_queue [OF assms(1-3)]
  have ne: "c i \<noteq> []" using assms(4) contents_wf [OF q(4)] by auto
  have wf: "chain h (mq_head (qs ! i)) (c i)" "distinct (c i)" "mq_tail (qs ! i) = last (c i)"
    using q(4) ne by (simp_all add: queue_wf_def)
  have "last (c i) \<noteq> 0" using chain_allocated [OF wf(1)] ne by simp
  then show ?thesis
    using free_chain_spec [OF wf(1,2)] assms(2) q(1) wf(3) ne by (simp add: msgq_destroy_safe_def)
qed

lemma send_to_id_0_panics:
  assumes "msgq_find_by_id qs 0 = Some i" "mq_tail (qs ! i) \<noteq> 0" "h (mq_tail (qs ! i)) = None"
    "mq_count (qs ! i) < mq_max_msgs (qs ! i)" "alloc h = Some a" "a \<noteq> mq_tail (qs ! i)"
  shows "msgq_send_safe alloc irq h qs 0 type None 0 pid = Panic"
  using assms by (simp add: msgq_send_safe_def msg_fill_def msg_enqueue_def Let_def)

end
