(* ===== verification/Hv_Bp.thy ===== *)
theory Hv_Bp
  imports Prelude
begin

text \<open>
  Block pointers of HVFS (\<^verbatim>\<open>src/src/kernel/services/fs/hvfs/bp.rs\<close>): data virtual addresses,
  block properties and the block pointer itself, with their on-disk form.  \<^verbatim>\<open>as_bytes\<close> is the
  memory of a \<^verbatim>\<open>repr(C)\<close> struct without padding on a little-endian machine, i.e. the
  concatenation of the little-endian bytes of the fields in declaration order; \<^verbatim>\<open>from_bytes\<close>
  reads the fields back.  The lemmas show the two agree, field by field, up to the reserved
  words that \<^verbatim>\<open>from_bytes\<close> does not read.
\<close>

section \<open>Data\<close>

record hv_dva =
  dva_offset :: u64
  dva_asize :: u32
  dva_vdev_id :: u16
  dva_gang :: u8
  dva_pad :: u8

datatype hv_comp_type = CompOff | LZ4 | ZSTD | Gzip1 | Gzip9 | ZLE

datatype hv_cksum_type = CksumOff | Fletcher2 | Fletcher4 | SHA256 | EdonR

record hv_bp_prop =
  prop_logical_size :: u32
  prop_physical_size :: u32
  prop_level :: u8
  prop_comp_type :: u8
  prop_cksum_type :: u8
  prop_encrypted :: u8
  prop_byteorder :: u8
  prop_pad :: "u8 list"

record hv_block_pointer =
  bp_dva :: "hv_dva list"
  bp_prop :: hv_bp_prop
  bp_checksum :: "u64 list"
  bp_birth_txg :: u64
  bp_fill :: u64
  bp_pad :: "u64 list"

definition HV_DVA_MAX :: nat where
  "HV_DVA_MAX = 2"

section \<open>Data virtual addresses\<close>

definition dva_null :: hv_dva where
  "dva_null = \<lparr>dva_offset = 0, dva_asize = 0, dva_vdev_id = 0, dva_gang = 0, dva_pad = 0\<rparr>"

definition dva_is_null :: "hv_dva \<Rightarrow> bool" where
  "dva_is_null d \<longleftrightarrow> dva_vdev_id d = 0 \<and> dva_offset d = 0 \<and> dva_asize d = 0"

definition dva_new :: "u16 \<Rightarrow> u64 \<Rightarrow> u32 \<Rightarrow> hv_dva" where
  "dva_new vdev_id offset asize =
     \<lparr>dva_offset = offset, dva_asize = asize, dva_vdev_id = vdev_id, dva_gang = 0, dva_pad = 0\<rparr>"

definition dva_with_gang :: "hv_dva \<Rightarrow> hv_dva" where
  "dva_with_gang d = d\<lparr>dva_gang := 1\<rparr>"

definition dva_is_gang :: "hv_dva \<Rightarrow> bool" where
  "dva_is_gang d \<longleftrightarrow> dva_gang d \<noteq> 0"

definition dva_BYTES :: nat where
  "dva_BYTES = 16"

definition dva_as_bytes :: "hv_dva \<Rightarrow> u8 list" where
  "dva_as_bytes d = to_le_bytes 8 (dva_offset d) @ to_le_bytes 4 (dva_asize d)
     @ to_le_bytes 2 (dva_vdev_id d) @ [dva_gang d, dva_pad d]"

text \<open>\<open>slice bs a b\<close> is \<^verbatim>\<open>&bs[a..b]\<close>; every use below is guarded by the length check.\<close>

definition slice :: "'a list \<Rightarrow> nat \<Rightarrow> nat \<Rightarrow> 'a list" where
  "slice bs a b = take (b - a) (drop a bs)"

definition dva_from_bytes :: "u8 list \<Rightarrow> hv_dva option" where
  "dva_from_bytes bytes =
     (if length bytes < dva_BYTES then None
      else Some \<lparr>dva_offset = of_le_bytes (slice bytes 0 8),
                 dva_asize = of_le_bytes (slice bytes 8 12),
                 dva_vdev_id = of_le_bytes (slice bytes 12 14),
                 dva_gang = bytes ! 14,
                 dva_pad = bytes ! 15\<rparr>)"

section \<open>Compression and checksum types\<close>

primrec comp_as_u8 :: "hv_comp_type \<Rightarrow> u8" where
  "comp_as_u8 CompOff = 0"
| "comp_as_u8 LZ4 = 1"
| "comp_as_u8 ZSTD = 2"
| "comp_as_u8 Gzip1 = 3"
| "comp_as_u8 Gzip9 = 4"
| "comp_as_u8 ZLE = 5"

definition comp_from_u8 :: "u8 \<Rightarrow> hv_comp_type" where
  "comp_from_u8 v =
     (if v = 1 then LZ4 else if v = 2 then ZSTD else if v = 3 then Gzip1
      else if v = 4 then Gzip9 else if v = 5 then ZLE else CompOff)"

primrec cksum_as_u8 :: "hv_cksum_type \<Rightarrow> u8" where
  "cksum_as_u8 CksumOff = 0"
| "cksum_as_u8 Fletcher2 = 1"
| "cksum_as_u8 Fletcher4 = 2"
| "cksum_as_u8 SHA256 = 3"
| "cksum_as_u8 EdonR = 4"

definition cksum_from_u8 :: "u8 \<Rightarrow> hv_cksum_type" where
  "cksum_from_u8 v =
     (if v = 1 then Fletcher2 else if v = 2 then Fletcher4 else if v = 3 then SHA256
      else if v = 4 then EdonR else CksumOff)"

section \<open>Block properties\<close>

definition prop_default :: hv_bp_prop where
  "prop_default =
     \<lparr>prop_logical_size = 0, prop_physical_size = 0, prop_level = 0,
      prop_comp_type = comp_as_u8 CompOff, prop_cksum_type = cksum_as_u8 Fletcher4,
      prop_encrypted = 0, prop_byteorder = 0, prop_pad = [0, 0, 0]\<rparr>"

definition comp_type :: "hv_bp_prop \<Rightarrow> hv_comp_type" where
  "comp_type p = comp_from_u8 (prop_comp_type p)"

definition cksum_type :: "hv_bp_prop \<Rightarrow> hv_cksum_type" where
  "cksum_type p = cksum_from_u8 (prop_cksum_type p)"

definition set_comp_type :: "hv_comp_type \<Rightarrow> hv_bp_prop \<Rightarrow> hv_bp_prop" where
  "set_comp_type v p = p\<lparr>prop_comp_type := comp_as_u8 v\<rparr>"

definition set_cksum_type :: "hv_cksum_type \<Rightarrow> hv_bp_prop \<Rightarrow> hv_bp_prop" where
  "set_cksum_type v p = p\<lparr>prop_cksum_type := cksum_as_u8 v\<rparr>"

definition is_encrypted :: "hv_bp_prop \<Rightarrow> bool" where
  "is_encrypted p \<longleftrightarrow> prop_encrypted p \<noteq> 0"

definition set_encrypted :: "bool \<Rightarrow> hv_bp_prop \<Rightarrow> hv_bp_prop" where
  "set_encrypted v p = p\<lparr>prop_encrypted := (if v then 1 else 0)\<rparr>"

definition prop_BYTES :: nat where
  "prop_BYTES = 16"

definition prop_as_bytes :: "hv_bp_prop \<Rightarrow> u8 list" where
  "prop_as_bytes p = to_le_bytes 4 (prop_logical_size p) @ to_le_bytes 4 (prop_physical_size p)
     @ [prop_level p, prop_comp_type p, prop_cksum_type p, prop_encrypted p, prop_byteorder p]
     @ prop_pad p"

definition prop_from_bytes :: "u8 list \<Rightarrow> hv_bp_prop option" where
  "prop_from_bytes bytes =
     (if length bytes < prop_BYTES then None
      else Some \<lparr>prop_logical_size = of_le_bytes (slice bytes 0 4),
                 prop_physical_size = of_le_bytes (slice bytes 4 8),
                 prop_level = bytes ! 8,
                 prop_comp_type = bytes ! 9,
                 prop_cksum_type = bytes ! 10,
                 prop_encrypted = bytes ! 11,
                 prop_byteorder = bytes ! 12,
                 prop_pad = [bytes ! 13, bytes ! 14, bytes ! 15]\<rparr>)"

section \<open>Block pointers\<close>

definition bp_null :: hv_block_pointer where
  "bp_null =
     \<lparr>bp_dva = replicate HV_DVA_MAX dva_null, bp_prop = prop_default,
      bp_checksum = replicate 4 0, bp_birth_txg = 0, bp_fill = 0, bp_pad = replicate 2 0\<rparr>"

definition bp_is_null :: "hv_block_pointer \<Rightarrow> bool" where
  "bp_is_null bp \<longleftrightarrow> dva_is_null (bp_dva bp ! 0) \<and> dva_is_null (bp_dva bp ! 1)"

definition is_hole :: "hv_block_pointer \<Rightarrow> bool" where
  "is_hole bp \<longleftrightarrow>
     dva_is_null (bp_dva bp ! 0) \<and> dva_is_null (bp_dva bp ! 1) \<and> bp_birth_txg bp = 0"

definition get_dva :: "hv_block_pointer \<Rightarrow> nat \<Rightarrow> hv_dva option" where
  "get_dva bp idx =
     (if idx < HV_DVA_MAX \<and> \<not> dva_is_null (bp_dva bp ! idx) then Some (bp_dva bp ! idx) else None)"

definition set_dva :: "nat \<Rightarrow> hv_dva \<Rightarrow> hv_block_pointer \<Rightarrow> hv_block_pointer" where
  "set_dva idx dva bp =
     (if idx < HV_DVA_MAX then bp\<lparr>bp_dva := (bp_dva bp)[idx := dva]\<rparr> else bp)"

definition set_birth :: "u64 \<Rightarrow> hv_block_pointer \<Rightarrow> hv_block_pointer" where
  "set_birth txg bp = bp\<lparr>bp_birth_txg := txg\<rparr>"

definition is_data :: "hv_block_pointer \<Rightarrow> bool" where
  "is_data bp \<longleftrightarrow> prop_level (bp_prop bp) = 0 \<and> \<not> is_hole bp"

definition is_metadata :: "hv_block_pointer \<Rightarrow> bool" where
  "is_metadata bp \<longleftrightarrow> 0 < prop_level (bp_prop bp) \<and> \<not> is_hole bp"

definition bp_BYTES :: nat where
  "bp_BYTES = 112"

definition bp_as_bytes :: "hv_block_pointer \<Rightarrow> u8 list" where
  "bp_as_bytes bp = concat (map dva_as_bytes (bp_dva bp)) @ prop_as_bytes (bp_prop bp)
     @ concat (map (to_le_bytes 8) (bp_checksum bp)) @ to_le_bytes 8 (bp_birth_txg bp)
     @ to_le_bytes 8 (bp_fill bp) @ concat (map (to_le_bytes 8) (bp_pad bp))"

primrec read_dvas :: "u8 list \<Rightarrow> nat \<Rightarrow> nat \<Rightarrow> hv_dva list option" where
  "read_dvas bytes off 0 = Some []"
| "read_dvas bytes off (Suc n) =
     (case dva_from_bytes (slice bytes off (off + dva_BYTES)) of
        None \<Rightarrow> None
      | Some d \<Rightarrow> map_option ((#) d) (read_dvas bytes (off + dva_BYTES) n))"

definition bp_from_bytes :: "u8 list \<Rightarrow> hv_block_pointer option" where
  "bp_from_bytes bytes =
     (if length bytes < bp_BYTES then None
      else case read_dvas bytes 0 HV_DVA_MAX of
        None \<Rightarrow> None
      | Some dvas \<Rightarrow>
          (let off = HV_DVA_MAX * dva_BYTES in
           case prop_from_bytes (slice bytes off (off + prop_BYTES)) of
             None \<Rightarrow> None
           | Some prop \<Rightarrow>
               (let off = off + prop_BYTES;
                    cksum = map (\<lambda>i. of_le_bytes (slice bytes (off + i * 8) (off + i * 8 + 8))) [0 ..< 4];
                    off = off + 32;
                    birth = of_le_bytes (slice bytes off (off + 8));
                    off = off + 8;
                    fill = of_le_bytes (slice bytes off (off + 8))
                in Some (bp_null\<lparr>bp_dva := dvas, bp_prop := prop, bp_checksum := cksum,
                                 bp_birth_txg := birth, bp_fill := fill\<rparr>))))"

section \<open>Round trips\<close>

text \<open>The array lengths of the Rust types.\<close>

definition prop_ok :: "hv_bp_prop \<Rightarrow> bool" where
  "prop_ok p \<longleftrightarrow> length (prop_pad p) = 3"

definition bp_ok :: "hv_block_pointer \<Rightarrow> bool" where
  "bp_ok bp \<longleftrightarrow> length (bp_dva bp) = HV_DVA_MAX \<and> prop_ok (bp_prop bp)
     \<and> length (bp_checksum bp) = 4 \<and> length (bp_pad bp) = 2"

lemma slice_append:
  "slice (xs @ ys) a b = (if b \<le> length xs then slice xs a b
     else if length xs \<le> a then slice ys (a - length xs) (b - length xs)
     else slice xs a (length xs) @ slice ys 0 (b - length xs))"
  by (auto simp: slice_def)

lemma slice_all [simp]: "length xs = n \<Longrightarrow> slice xs 0 n = xs"
  by (simp add: slice_def)

lemma slice_full: "a = 0 \<Longrightarrow> length xs \<le> b \<Longrightarrow> slice xs a b = xs"
  by (simp add: slice_def)

lemma slice_nil [simp]: "b \<le> a \<Longrightarrow> slice xs a b = []"
  by (simp add: slice_def)

lemma length_dva_as_bytes [simp]: "length (dva_as_bytes d) = 16"
  by (simp add: dva_as_bytes_def)

lemma length_prop_as_bytes [simp]: "prop_ok p \<Longrightarrow> length (prop_as_bytes p) = 16"
  by (simp add: prop_as_bytes_def prop_ok_def)

lemma list_of_length:
  "length xs = 2 \<Longrightarrow> \<exists>a b. xs = [a, b]"
  "length xs = 3 \<Longrightarrow> \<exists>a b c. xs = [a, b, c]"
  "length xs = 4 \<Longrightarrow> \<exists>a b c d. xs = [a, b, c, d]"
  by (auto simp: numeral_eq_Suc length_Suc_conv)

lemma of_to_le_bytes_fields [simp]:
  "of_le_bytes (to_le_bytes 8 w8) = (w8 :: u64)"
  "of_le_bytes (to_le_bytes 4 w4) = (w4 :: u32)"
  "of_le_bytes (to_le_bytes 2 w2) = (w2 :: u16)"
  by (simp_all add: of_to_le_bytes)

lemma dva_roundtrip [simp]: "dva_from_bytes (dva_as_bytes d @ r) = Some d"
  by (simp add: dva_from_bytes_def dva_BYTES_def dva_as_bytes_def slice_append nth_append)

lemma prop_roundtrip [simp]:
  assumes "prop_ok p"
  shows "prop_from_bytes (prop_as_bytes p @ r) = Some p"
proof -
  obtain a b c where pad: "prop_pad p = [a, b, c]"
    using assms list_of_length(2) [of "prop_pad p"] by (auto simp: prop_ok_def)
  then have "p\<lparr>prop_pad := [a, b, c]\<rparr> = p" by simp
  then show ?thesis
    by (cases p) (simp add: prop_from_bytes_def prop_BYTES_def prop_as_bytes_def slice_append nth_append)
qed

lemma comp_type_roundtrip [simp]: "comp_from_u8 (comp_as_u8 c) = c"
  by (cases c) (simp_all add: comp_from_u8_def)

lemma cksum_type_roundtrip [simp]: "cksum_from_u8 (cksum_as_u8 c) = c"
  by (cases c) (simp_all add: cksum_from_u8_def)

lemma prop_setters:
  "comp_type (set_comp_type c p) = c" "cksum_type (set_comp_type c p) = cksum_type p"
  "cksum_type (set_cksum_type k p) = k" "comp_type (set_cksum_type k p) = comp_type p"
  "is_encrypted (set_encrypted v p) = v"
  by (simp_all add: comp_type_def cksum_type_def set_comp_type_def set_cksum_type_def
      is_encrypted_def set_encrypted_def)

lemma get_set_dva:
  assumes "bp_ok bp" "i < HV_DVA_MAX"
  shows "get_dva (set_dva i d bp) j =
    (if i = j then if dva_is_null d then None else Some d else get_dva bp j)"
  using assms by (auto simp: get_dva_def set_dva_def bp_ok_def)

lemma length_bp_as_bytes [simp]: "bp_ok bp \<Longrightarrow> length (bp_as_bytes bp) = bp_BYTES"
  by (auto simp: bp_as_bytes_def bp_BYTES_def bp_ok_def HV_DVA_MAX_def dest!: list_of_length)

lemma bp_from_bytes_None_iff: "bp_from_bytes bytes = None \<longleftrightarrow> length bytes < bp_BYTES"
  by (auto simp: bp_from_bytes_def bp_BYTES_def HV_DVA_MAX_def dva_BYTES_def prop_BYTES_def Let_def
      dva_from_bytes_def prop_from_bytes_def slice_def numeral_2_eq_2 split: option.splits)

lemma bp_from_as_bytes:
  assumes "bp_ok bp"
  shows "bp_from_bytes (bp_as_bytes bp @ rest) = Some (bp\<lparr>bp_pad := [0, 0]\<rparr>)"
proof -
  obtain d0 d1 where d: "bp_dva bp = [d0, d1]"
    using assms list_of_length(1) [of "bp_dva bp"] by (auto simp: bp_ok_def HV_DVA_MAX_def)
  obtain c0 c1 c2 c3 where c: "bp_checksum bp = [c0, c1, c2, c3]"
    using assms list_of_length(3) [of "bp_checksum bp"] by (auto simp: bp_ok_def)
  have p: "prop_ok (bp_prop bp)" using assms by (simp add: bp_ok_def)
  have dvas: "read_dvas (bp_as_bytes bp @ rest) 0 HV_DVA_MAX = Some [d0, d1]"
    using dva_roundtrip [of d0 "[]"] dva_roundtrip [of d1 "[]"]
    by (simp add: HV_DVA_MAX_def numeral_2_eq_2 dva_BYTES_def bp_as_bytes_def d slice_append)
  have pr: "prop_from_bytes (slice (bp_as_bytes bp @ rest) 32 48) = Some (bp_prop bp)"
    using prop_roundtrip [OF p, of "[]"] p by (simp add: bp_as_bytes_def d slice_append)
  have up: "[0 ..< 4] = [0, 1, 2, 3 :: nat]" by (simp add: upt_rec)
  show ?thesis
    using assms p d c dvas pr
    by (simp add: bp_from_bytes_def Let_def HV_DVA_MAX_def dva_BYTES_def prop_BYTES_def up)
      (cases bp; simp add: bp_as_bytes_def slice_append bp_null_def numeral_2_eq_2)
qed

text \<open>The on-disk form of a block pointer is 112 bytes long and \<^verbatim>\<open>from_bytes\<close> of it, also with
  bytes after it, gives the block pointer back with its two reserved words cleared.\<close>

theorem bp_roundtrip:
  assumes "bp_ok bp"
  shows "length (bp_as_bytes bp) = bp_BYTES
    \<and> bp_from_bytes (bp_as_bytes bp @ rest) = Some (bp\<lparr>bp_pad := [0, 0]\<rparr>)"
  using assms by (simp add: bp_from_as_bytes)

definition sample_bp :: hv_block_pointer where
  "sample_bp = bp_null\<lparr>bp_dva := [dva_with_gang (dva_new 3 0x1122334455667788 4096), dva_null],
     bp_checksum := [1, 2, 3, 0xFFFFFFFFFFFFFFFF], bp_birth_txg := 7, bp_pad := [9, 9]\<rparr>"

theorem bp_roundtrip_witness:
  "bp_from_bytes (bp_as_bytes sample_bp) = Some (sample_bp\<lparr>bp_pad := [0, 0]\<rparr>)
    \<and> sample_bp\<lparr>bp_pad := [0, 0]\<rparr> \<noteq> sample_bp"
proof -
  have "bp_ok sample_bp"
    by (simp add: bp_ok_def prop_ok_def sample_bp_def bp_null_def prop_default_def HV_DVA_MAX_def)
  from bp_roundtrip [OF this, of "[]"] show ?thesis
    by (simp add: sample_bp_def bp_null_def)
qed

end
