(* ===== verification/Hv_Compress.thy ===== *)
theory Hv_Compress
  imports Hv_Bp
begin

text \<open>
  Block compression of HVFS (\<^verbatim>\<open>src/src/kernel/services/fs/hvfs/compress.rs\<close>): the LZ4-like
  coder, run-length coding (which also stands in for ZSTD and gzip) and zero-length coding.
  Lengths and positions are \<^verbatim>\<open>usize\<close> values bounded by the length of a buffer in memory, so they
  are naturals; bytes and the sixteen-bit match offset keep their width.  A loop that advances an
  index \<^verbatim>\<open>i\<close> through a buffer and never looks back recurses on the rest \<^verbatim>\<open>buf[i..]\<close>.  The theory
  proves that decompression inverts compression: always for the run-length coders, and for LZ4 on
  data whose matches stay inside the 65535 bytes a sixteen-bit offset can name.
\<close>

section \<open>Length header\<close>

definition HV_COMP_MIN_SIZE :: nat where
  "HV_COMP_MIN_SIZE = 64"

definition len_header :: "nat \<Rightarrow> u8 list" where
  "len_header n = [word_of_nat (n AND 0xFF), word_of_nat (drop_bit 8 n AND 0xFF),
     word_of_nat (drop_bit 16 n AND 0xFF), word_of_nat (drop_bit 24 n AND 0xFF)]"

definition read_len_header :: "u8 list \<Rightarrow> nat" where
  "read_len_header c = unat (c ! 0) OR push_bit 8 (unat (c ! 1)) OR push_bit 16 (unat (c ! 2))
     OR push_bit 24 (unat (c ! 3))"

section \<open>Run-length coding\<close>

fun run_length :: "u8 \<Rightarrow> nat \<Rightarrow> u8 list \<Rightarrow> nat" where
  "run_length byte count (b # bs) =
     (if b = byte \<and> count < 255 then run_length byte (count + 1) bs else count)"
| "run_length byte count [] = count"

lemma run_length_ge: "count \<le> run_length byte count bs"
  by (induction byte count bs rule: run_length.induct) auto

function rle_loop :: "u8 list \<Rightarrow> u8 list" where
  "rle_loop [] = []"
| "rle_loop (byte # bs) =
     (let count = run_length byte 1 bs
      in [byte, word_of_nat count] @ rle_loop (drop count (byte # bs)))"
  by pat_completeness auto
termination
proof (relation "measure length")
  fix byte bs x
  assume "x = run_length byte 1 bs"
  then have "1 \<le> x" using run_length_ge [of 1 byte bs] by simp
  then show "(drop x (byte # bs), byte # bs) \<in> measure length" by simp
qed auto

definition compress_rle :: "u8 list \<Rightarrow> u8 list option" where
  "compress_rle data =
     (if data = [] then None
      else let output = len_header (length data) @ rle_loop data
           in if length data \<le> length output then None else Some output)"

fun rle_decode :: "nat \<Rightarrow> u8 list \<Rightarrow> u8 list \<Rightarrow> u8 list" where
  "rle_decode src_len (byte # count # rest) output =
     (if length output < src_len then rle_decode src_len rest (output @ replicate (unat count) byte)
      else output)"
| "rle_decode src_len _ output = output"

definition decompress_rle :: "u8 list \<Rightarrow> nat \<Rightarrow> u8 list option" where
  "decompress_rle compressed expected_size =
     (if length compressed < 4 then None
      else Some (rle_decode (read_len_header compressed) (drop 4 compressed) []))"

definition compress_zstd_fallback :: "u8 list \<Rightarrow> u8 list option" where
  "compress_zstd_fallback data = compress_rle data"

definition decompress_zstd_fallback :: "u8 list \<Rightarrow> nat \<Rightarrow> u8 list option" where
  "decompress_zstd_fallback compressed expected = decompress_rle compressed expected"

section \<open>Zero-length coding\<close>

function zle_loop :: "u8 list \<Rightarrow> u8 list" where
  "zle_loop [] = []"
| "zle_loop (b # bs) =
     (if b = 0 then
        let count = run_length 0 0 (b # bs)
        in [0, word_of_nat count] @ zle_loop (drop count (b # bs))
      else b # zle_loop bs)"
  by pat_completeness auto
termination
proof (relation "measure length")
  fix b :: u8 and bs x
  assume "b = 0" "x = run_length 0 0 (b # bs)"
  then have "1 \<le> x" using run_length_ge [of 1 0 bs] by simp
  then show "(drop x (b # bs), b # bs) \<in> measure length" by simp
qed auto

definition compress_zle :: "u8 list \<Rightarrow> u8 list option" where
  "compress_zle data =
     (let output = len_header (length data) @ zle_loop data
      in if length data \<le> length output then None else Some output)"

fun zle_decode :: "nat \<Rightarrow> u8 list \<Rightarrow> u8 list \<Rightarrow> u8 list" where
  "zle_decode src_len [] output = output"
| "zle_decode src_len [b] output = (if length output < src_len then output @ [b] else output)"
| "zle_decode src_len (b # c # rest) output =
     (if length output < src_len then
        if b = 0 then zle_decode src_len rest (output @ replicate (unat c) 0)
        else zle_decode src_len (c # rest) (output @ [b])
      else output)"

definition decompress_zle :: "u8 list \<Rightarrow> nat \<Rightarrow> u8 list option" where
  "decompress_zle compressed expected_size =
     (if length compressed < 4 then None
      else Some (zle_decode (read_len_header compressed) (drop 4 compressed) []))"

section \<open>LZ4\<close>

text \<open>\<^verbatim>\<open>(a..b).step_by(4)\<close>.\<close>

definition step_by_4 :: "nat \<Rightarrow> nat \<Rightarrow> nat list" where
  "step_by_4 a b = map (\<lambda>k. a + 4 * k) [0 ..< (b - a + 3) div 4]"

definition lz4_hash :: "u8 list \<Rightarrow> nat \<Rightarrow> u32" where
  "lz4_hash data pos = drop_bit 16 (of_le_bytes (slice data pos (pos + 4)) * 2654435761)"

function extend_match :: "u8 list \<Rightarrow> nat \<Rightarrow> nat \<Rightarrow> nat \<Rightarrow> nat" where
  "extend_match data ip ref_pos len =
     (if ip + len < length data \<and> ref_pos + len < ip \<and> data ! (ref_pos + len) = data ! (ip + len)
      then extend_match data ip ref_pos (len + 1) else len)"
  by pat_completeness auto
termination by (relation "measure (\<lambda>(data, ip, ref_pos, len). length data - (ip + len))") auto

text \<open>The search of the compressor at position \<open>ip\<close>: the match length (0 when there is none) and
  the position of the match.  The hash that the source computes there is not used.\<close>

definition find_match :: "u8 list \<Rightarrow> nat \<Rightarrow> nat \<times> nat" where
  "find_match data ip =
     (if ip + 4 \<le> length data then
        case List.find (\<lambda>s. s + 4 \<le> length data \<and> slice data s (s + 4) = slice data ip (ip + 4))
               (step_by_4 (ip - 65536) ip) of
          None \<Rightarrow> (0, 0)
        | Some ref_pos \<Rightarrow> (extend_match data ip ref_pos 4, ref_pos)
      else (0, 0))"

text \<open>\<^verbatim>\<open>while remaining >= 255 { push(255); remaining -= 255 } push(remaining as u8)\<close>\<close>

fun push_ext :: "nat \<Rightarrow> u8 list" where
  "push_ext remaining =
     (if 255 \<le> remaining then 255 # push_ext (remaining - 255) else [word_of_nat remaining])"

declare push_ext.simps [simp del] extend_match.simps [simp del]

definition ext_bytes :: "nat \<Rightarrow> u8 list" where
  "ext_bytes n = (if 15 \<le> n then push_ext (n - 15) else [])"

definition nibble :: "nat \<Rightarrow> u8" where
  "nibble n = (if 15 \<le> n then 15 else word_of_nat n)"

definition lz4_sequence :: "u8 list \<Rightarrow> nat \<Rightarrow> nat \<Rightarrow> u8 list" where
  "lz4_sequence literals match_len distance =
     (let ml = match_len - 4;
          tok = nibble (length literals) OR push_bit 4 (nibble ml);
          offset = word_of_nat distance :: u16
      in [tok] @ ext_bytes (length literals) @ literals
           @ [ucast (offset AND 0xFF), ucast (drop_bit 8 offset AND 0xFF)] @ ext_bytes ml)"

definition lz4_last :: "u8 list \<Rightarrow> u8 list" where
  "lz4_last literals = [nibble (length literals)] @ ext_bytes (length literals) @ literals"

lemma extend_match_ge: "len \<le> extend_match data ip ref_pos len"
proof (induction data ip ref_pos len rule: extend_match.induct)
  case (1 data ip ref_pos len)
  then show ?case by (subst extend_match.simps) (auto dest: Suc_leD)
qed

text \<open>The bytes the main loop and the final flush append to the output from position \<open>ip\<close> on,
  with the literals since \<open>anchor\<close> still to be written.\<close>

function lz4_loop :: "u8 list \<Rightarrow> nat \<Rightarrow> nat \<Rightarrow> u8 list" where
  "lz4_loop data ip anchor =
     (if ip < length data then
        let (match_len, ref_pos) = find_match data ip
        in if 4 \<le> match_len then
             lz4_sequence (slice data anchor ip) match_len (ip - ref_pos)
               @ lz4_loop data (ip + match_len) (ip + match_len)
           else lz4_loop data (ip + 1) anchor
      else if anchor < length data then lz4_last (slice data anchor (length data))
      else [])"
  by pat_completeness auto
termination by (relation "measure (\<lambda>(data, ip, anchor). length data - ip)") auto

declare lz4_loop.simps [simp del]

definition compress_lz4 :: "u8 list \<Rightarrow> u8 list option" where
  "compress_lz4 data =
     (let output = len_header (length data) @ lz4_loop data 0 0
      in if length data \<le> length output then None else Some output)"

fun read_ext :: "u8 list \<Rightarrow> nat \<Rightarrow> u8 list \<times> nat" where
  "read_ext [] len = ([], len)"
| "read_ext (byte # rest) len =
     (if byte \<noteq> 255 then (rest, len + unat byte) else read_ext rest (len + unat byte))"

definition read_len :: "u8 \<Rightarrow> nat \<Rightarrow> u8 list \<Rightarrow> u8 list \<times> nat" where
  "read_len nib len rest = (if nib = 15 then read_ext rest len else (rest, len))"

lemma read_ext_length: "length (fst (read_ext rest len)) \<le> length rest"
  by (induction rest len rule: read_ext.induct) auto

lemma read_len_length: "length (fst (read_len nib len rest)) \<le> length rest"
  by (simp add: read_len_def read_ext_length)

text \<open>\<^verbatim>\<open>for i in i..i+n { if start + i < output.len() { output.push(output[start + i]) } }\<close>\<close>

primrec copy_match :: "nat \<Rightarrow> nat \<Rightarrow> nat \<Rightarrow> u8 list \<Rightarrow> u8 list" where
  "copy_match start i 0 output = output"
| "copy_match start i (Suc n) output =
     copy_match start (i + 1) n
       (if start + i < length output then output @ [output ! (start + i)] else output)"

function lz4_decode :: "nat \<Rightarrow> u8 list \<Rightarrow> u8 list \<Rightarrow> u8 list" where
  "lz4_decode src_len [] output = output"
| "lz4_decode src_len (tok # rest) output =
     (if length output < src_len then
        let (rest, literal_len) = read_len (tok AND 0x0F) (unat (tok AND 0x0F)) rest
        in if length rest < literal_len then output
           else
             let output = output @ take literal_len rest
             in case drop literal_len rest of
                  lo # hi # rest \<Rightarrow>
                    let offset = unat lo OR push_bit 8 (unat hi)
                    in if offset = 0 then output
                       else
                         let nib = drop_bit 4 tok AND 0x0F;
                             (rest, match_len) = read_len nib (unat nib + 4) rest
                         in lz4_decode src_len rest
                              (copy_match (length output - offset) 0 match_len output)
                | _ \<Rightarrow> output
      else output)"
  by pat_completeness auto
termination
proof (relation "measure (\<lambda>(src_len, rest, output). length rest)", goal_cases)
  case 1
  then show ?case by simp
next
  case (2 src_len tok rest out x rest1 literal_len out1 lo rest2 hi rest3 offset nib y rest4 match_len)
  have "length rest1 \<le> length rest" using read_len_length 2(2,3) by (metis fst_conv)
  moreover have "length rest3 < length rest1"
    using arg_cong [OF 2(6), of length] arg_cong [OF 2(7), of length] by auto
  moreover have "length rest4 \<le> length rest3" using read_len_length by (metis 2 fst_conv)
  ultimately show ?case by simp
qed

definition decompress_lz4 :: "u8 list \<Rightarrow> nat \<Rightarrow> u8 list option" where
  "decompress_lz4 compressed expected_size =
     (if length compressed < 4 then None
      else Some (lz4_decode (read_len_header compressed) (drop 4 compressed) []))"

section \<open>Entry points\<close>

primrec compress_by :: "hv_comp_type \<Rightarrow> u8 list \<Rightarrow> u8 list option" where
  "compress_by CompOff data = None"
| "compress_by LZ4 data = compress_lz4 data"
| "compress_by ZSTD data = compress_zstd_fallback data"
| "compress_by Gzip1 data = compress_rle data"
| "compress_by Gzip9 data = compress_rle data"
| "compress_by ZLE data = compress_zle data"

definition compress :: "u8 list \<Rightarrow> hv_comp_type \<Rightarrow> u8 list option" where
  "compress data ty =
     (if length data < HV_COMP_MIN_SIZE then None else compress_by ty data)"

definition decompress :: "u8 list \<Rightarrow> nat \<Rightarrow> hv_comp_type \<Rightarrow> u8 list option" where
  "decompress compressed expected_size ty =
     (case ty of
        CompOff \<Rightarrow> None
      | LZ4 \<Rightarrow> decompress_lz4 compressed expected_size
      | ZSTD \<Rightarrow> decompress_zstd_fallback compressed expected_size
      | Gzip1 \<Rightarrow> decompress_rle compressed expected_size
      | Gzip9 \<Rightarrow> decompress_rle compressed expected_size
      | ZLE \<Rightarrow> decompress_zle compressed expected_size)"

section \<open>Run-length coders are inverted\<close>

lemma run_length_le: "count \<le> 255 \<Longrightarrow> run_length byte count bs \<le> 255"
  by (induction byte count bs rule: run_length.induct) auto

lemma run_length_take:
  "take (run_length byte count bs - count) bs = replicate (run_length byte count bs - count) byte"
proof (induction byte count bs rule: run_length.induct)
  case (1 byte count b bs)
  have "Suc count \<le> run_length byte (Suc count) bs" by (rule run_length_ge)
  then have "run_length byte (Suc count) bs - count = Suc (run_length byte (Suc count) bs - Suc count)"
    by simp
  with 1 show ?case by auto
qed simp

lemma run_split:
  assumes "count = run_length byte 1 bs"
  shows "byte # bs = replicate count byte @ drop count (byte # bs)" "0 < count" "count \<le> 255"
proof -
  have "1 \<le> count" using run_length_ge [of 1 byte bs] assms by simp
  then obtain n where n: "count = Suc n" by (cases count) auto
  have "n = run_length byte 1 bs - 1" using assms n by simp
  then have "replicate n byte = take n bs" using run_length_take [of byte 1 bs] by simp
  then show "byte # bs = replicate count byte @ drop count (byte # bs)"
    by (simp add: n append_take_drop_id)
  show "0 < count" by (simp add: n)
  show "count \<le> 255" using run_length_le [of 1 byte bs] assms by simp
qed

lemma unat_byte [simp]: "n \<le> 255 \<Longrightarrow> unat (word_of_nat n :: u8) = n"
  by (simp add: unat_of_nat)

lemma rle_decode_loop:
  "length out + length data \<le> n \<Longrightarrow> rle_decode n (rle_loop data) out = out @ data"
proof (induction data arbitrary: out rule: rle_loop.induct)
  case 1
  then show ?case by simp
next
  case (2 byte bs)
  define count where "count = run_length byte 1 bs"
  note split = run_split [OF count_def]
  have "rle_decode n (rle_loop (byte # bs)) out
      = rle_decode n (rle_loop (drop count (byte # bs))) (out @ replicate count byte)"
    using "2.prems" split(3) by (simp add: Let_def flip: count_def One_nat_def)
  also have "\<dots> = (out @ replicate count byte) @ drop count (byte # bs)"
  proof (rule "2.IH" [OF count_def])
    have "length (byte # bs) = count + length (drop count (byte # bs))"
      using arg_cong [OF split(1), of length] by simp
    then show "length (out @ replicate count byte) + length (drop count (byte # bs)) \<le> n"
      using "2.prems" by simp
  qed
  also have "\<dots> = out @ byte # bs" using split(1) by simp
  finally show ?case .
qed

lemma zle_decode_nonzero:
  "b \<noteq> 0 \<Longrightarrow> length out < n \<Longrightarrow> zle_decode n (b # rest) out = zle_decode n rest (out @ [b])"
  by (cases rest) auto

lemma zle_decode_loop:
  "length out + length data \<le> n \<Longrightarrow> zle_decode n (zle_loop data) out = out @ data"
proof (induction data arbitrary: out rule: zle_loop.induct)
  case 1
  then show ?case by simp
next
  case (2 b bs)
  show ?case
  proof (cases "b = 0")
    case True
    define count where "count = run_length 0 1 bs"
    have first: "run_length 0 0 (b # bs) = count" by (simp add: True count_def)
    note split = run_split [OF count_def]
    have "zle_decode n (zle_loop (b # bs)) out
        = zle_decode n (zle_loop (drop count (b # bs))) (out @ replicate count 0)"
      using "2.prems" split(3) True first by (simp del: run_length.simps)
    also have "\<dots> = (out @ replicate count 0) @ drop count (b # bs)"
    proof (rule "2.IH"(1) [OF True first [symmetric]])
      have "length (b # bs) = count + length (drop count (b # bs))"
        using arg_cong [OF split(1), of length] by simp
      then show "length (out @ replicate count 0) + length (drop count (b # bs)) \<le> n"
        using "2.prems" by simp
    qed
    also have "\<dots> = out @ b # bs" using split(1) by (simp add: True)
    finally show ?thesis .
  next
    case False
    have "zle_decode n (zle_loop (b # bs)) out = zle_decode n (zle_loop bs) (out @ [b])"
      using "2.prems" False by (simp add: zle_decode_nonzero)
    also have "\<dots> = out @ b # bs" using "2.IH"(2) [OF False, of "out @ [b]"] "2.prems" by simp
    finally show ?thesis .
  qed
qed

lemma bit_byte_of:
  "bit (unat (word_of_nat (drop_bit k n AND 0xFF) :: u8)) i \<longleftrightarrow> i < 8 \<and> bit n (k + i)"
proof -
  have "bit (mask 8 :: nat) i \<longleftrightarrow> i < 8" by (simp add: bit_mask_iff)
  then have "bit (0xFF :: nat) i \<longleftrightarrow> i < 8" by (simp add: mask_eq_exp_minus_1)
  then show ?thesis
    by (auto simp: unsigned_of_nat bit_take_bit_iff bit_and_iff bit_drop_bit_eq)
qed

lemma read_len_header:
  assumes "n < 2 ^ 32"
  shows "read_len_header (len_header n @ r) = n"
proof (rule bit_eqI)
  fix i
  have small: "i < 32" if "bit n i"
  proof -
    have "n = take_bit 32 n" using assms by (simp add: take_bit_nat_eq_self)
    with that show ?thesis by (metis bit_take_bit_iff)
  qed
  have first: "bit (unat (word_of_nat (n AND 0xFF) :: u8)) i \<longleftrightarrow> i < 8 \<and> bit n i" for i
    using bit_byte_of [of 0 n i] by simp
  consider "i < 8" | "8 \<le> i" "i < 16" | "16 \<le> i" "i < 24" | "24 \<le> i" "i < 32" | "32 \<le> i"
    by linarith
  then show "bit (read_len_header (len_header n @ r)) i = bit n i"
    using small
    by cases (auto simp: read_len_header_def len_header_def bit_or_iff bit_push_bit_iff bit_byte_of first
        simp del: unsigned_of_nat)
qed

lemma length_len_header [simp]: "length (len_header n) = 4"
  by (simp add: len_header_def)

lemma drop_len_header [simp]: "drop 4 (len_header n @ r) = r"
  by simp

lemma rle_roundtrip:
  assumes "compress_rle data = Some c" "length data < 2 ^ 32"
  shows "decompress_rle c e = Some data"
proof -
  have c: "c = len_header (length data) @ rle_loop data"
    using assms(1) by (auto simp: compress_rle_def Let_def split: if_splits)
  show ?thesis
    using assms(2) by (simp add: decompress_rle_def c read_len_header rle_decode_loop)
qed

lemma zle_roundtrip:
  assumes "compress_zle data = Some c" "length data < 2 ^ 32"
  shows "decompress_zle c e = Some data"
proof -
  have c: "c = len_header (length data) @ zle_loop data"
    using assms(1) by (auto simp: compress_zle_def Let_def split: if_splits)
  show ?thesis
    using assms(2) by (simp add: decompress_zle_def c read_len_header zle_decode_loop)
qed

section \<open>LZ4 is inverted inside the window\<close>

lemma read_ext_push: "read_ext (push_ext n @ r) len = (r, len + n)"
proof (induction n arbitrary: len rule: push_ext.induct)
  case (1 n)
  show ?case
  proof (cases "255 \<le> n")
    case True
    then show ?thesis using 1 [of "len + 255"] by (simp add: push_ext.simps [of n])
  next
    case False
    then have "(word_of_nat n :: u8) \<noteq> 255"
      by (metis nat_le_linear order_refl unat_byte word_of_nat_eq_iff unsigned_numeral of_nat_numeral)
    with False show ?thesis by (simp add: push_ext.simps [of n])
  qed
qed

lemma nibble_15_iff: "nibble n = 15 \<longleftrightarrow> 15 \<le> n"
proof -
  have "n = 15" if "n < 15" "(word_of_nat n :: u8) = 15"
    using arg_cong [OF that(2), of unat] that(1) by simp
  then show ?thesis by (auto simp: nibble_def)
qed

lemma unat_nibble: "unat (nibble n) = min n 15"
  by (simp add: nibble_def min_def)

lemma read_len_ext: "read_len (nibble n) (unat (nibble n) + k) (ext_bytes n @ r) = (r, n + k)"
  by (auto simp: read_len_def nibble_15_iff ext_bytes_def read_ext_push unat_nibble)

lemma take_bit_nibble: "take_bit 4 (nibble n) = nibble n"
proof (cases "15 \<le> n")
  case True
  then show ?thesis by (simp add: nibble_def)
next
  case False
  then have "take_bit 4 n = n" by (simp add: take_bit_nat_eq_self)
  then have "take_bit 4 (word_of_nat n :: u8) = word_of_nat n" by (metis take_bit_of_nat)
  with False show ?thesis by (simp add: nibble_def)
qed

lemma bit_nibble: "bit (nibble n) i \<Longrightarrow> i < 4"
  using take_bit_nibble by (metis bit_take_bit_iff)

lemma and_15: "(w :: u8) AND 15 = take_bit 4 w"
  by (simp add: take_bit_eq_mask mask_eq_exp_minus_1)

lemma token_nibbles:
  "(nibble a OR push_bit 4 (nibble b)) AND 15 = nibble a"
  "drop_bit 4 (nibble a OR push_bit 4 (nibble b)) AND 15 = nibble b"
  "nibble a AND 15 = nibble a"
  by (auto simp: and_15 take_bit_nibble bit_eq_iff bit_take_bit_iff bit_or_iff bit_push_bit_iff
      bit_drop_bit_eq dest: bit_nibble intro: bit_imp_le_length)

definition offset_bytes :: "nat \<Rightarrow> nat" where
  "offset_bytes d = (let offset = word_of_nat d :: u16
     in unat (ucast (offset AND 0xFF) :: u8) OR push_bit 8 (unat (ucast (drop_bit 8 offset AND 0xFF) :: u8)))"

lemma offset_bytes: "offset_bytes d = d mod 65536"
proof (rule bit_eqI)
  fix i
  have w: "bit (word_of_nat d :: u16) i \<longleftrightarrow> i < 16 \<and> bit d i" for i
    by transfer (simp add: bit_take_bit_iff bit_of_nat_iff)
  have m: "bit (0xFF :: int) i \<longleftrightarrow> i < 8" for i
    using bit_mask_iff [where 'a = int, of 8 i] by (simp add: mask_eq_exp_minus_1)
  have d: "bit (d mod 65536) i \<longleftrightarrow> i < 16 \<and> bit d i"
    using bit_take_bit_iff [of 16 d i] by (simp add: take_bit_eq_mod)
  show "bit (offset_bytes d) i = bit (d mod 65536) i"
    by (cases "i < 8")
      (auto simp: offset_bytes_def Let_def d m bit_or_iff bit_push_bit_iff bit_unsigned_iff bit_and_iff
        bit_drop_bit_eq w)
qed

lemma lz4_decode_sequence:
  assumes "length out < n" "4 \<le> ml"
  shows "lz4_decode n (lz4_sequence lits ml d @ r) out =
    (if d mod 65536 = 0 then out @ lits
     else lz4_decode n r (copy_match (length (out @ lits) - d mod 65536) 0 ml (out @ lits)))"
proof -
  note off = offset_bytes [of d, unfolded offset_bytes_def Let_def]
  have lit: "read_len (nibble (length lits)) (unat (nibble (length lits)))
      (ext_bytes (length lits) @ rest) = (rest, length lits)" for rest
    using read_len_ext [of "length lits" 0 rest] by simp
  have mat: "read_len (nibble (ml - 4)) (unat (nibble (ml - 4)) + 4) (ext_bytes (ml - 4) @ r) = (r, ml)"
    using read_len_ext [of "ml - 4" 4 r] assms(2) by simp
  define tok where "tok = nibble (length lits) OR push_bit 4 (nibble (ml - 4))"
  have tok: "tok AND 15 = nibble (length lits)" "drop_bit 4 tok AND 15 = nibble (ml - 4)"
    by (simp_all only: tok_def token_nibbles)
  show ?thesis
    using assms(1) by (simp add: lz4_sequence_def Let_def tok lit mat off flip: tok_def)
qed

lemma lz4_decode_last:
  assumes "length out < n"
  shows "lz4_decode n (lz4_last lits) out = out @ lits"
  using assms read_len_ext [of "length lits" 0 lits] by (simp add: lz4_last_def token_nibbles)

lemma copy_match_run:
  assumes "start + i < length out" "k = length out - (start + i)" "length out + n \<le> length data"
    and "out = take (length out) data"
    and "\<And>j. j < n \<Longrightarrow> data ! (start + i + j) = data ! (length out + j)"
  shows "copy_match start i n out = take (length out + n) data"
  using assms
proof (induction n arbitrary: i out)
  case 0
  then show ?case by simp
next
  case (Suc n)
  let ?l = "length out"
  have "out ! (start + i) = data ! ?l"
    using Suc.prems(1,4) Suc.prems(5) [of 0] by (metis add_0_right nth_take zero_less_Suc)
  then have step: "out @ [out ! (start + i)] = take (Suc ?l) data"
    using Suc.prems(3) Suc.prems(4) [symmetric] by (simp add: take_Suc_conv_app_nth)
  have len: "length (take (Suc ?l) data) = Suc ?l" using Suc.prems(3) by simp
  have "copy_match start (i + 1) n (take (Suc ?l) data) = take (Suc ?l + n) data"
    using Suc.IH [of "i + 1" "take (Suc ?l) data"] Suc.prems(1,2,3) Suc.prems(5) [of "Suc _"] len
    by simp
  then show ?case using Suc.prems(1) step by simp
qed

text \<open>What the search promises: the match lies before \<open>ip\<close> inside the window and the bytes agree.\<close>

definition is_match :: "u8 list \<Rightarrow> nat \<Rightarrow> nat \<Rightarrow> nat \<Rightarrow> bool" where
  "is_match data ip ref_pos ml \<longleftrightarrow> ref_pos < ip \<and> ip - ref_pos \<le> 65536 \<and> ip + ml \<le> length data
     \<and> (\<forall>j < ml. data ! (ref_pos + j) = data ! (ip + j))"

lemma extend_match_is_match:
  "is_match data ip ref_pos len \<Longrightarrow> is_match data ip ref_pos (extend_match data ip ref_pos len)"
proof (induction data ip ref_pos len rule: extend_match.induct)
  case (1 data ip ref_pos len)
  show ?case
  proof (cases "ip + len < length data \<and> ref_pos + len < ip \<and> data ! (ref_pos + len) = data ! (ip + len)")
    case True
    then have "is_match data ip ref_pos (len + 1)"
      using "1.prems" by (auto simp: is_match_def less_Suc_eq)
    with 1 True show ?thesis by (simp add: extend_match.simps [of data ip ref_pos len])
  next
    case False
    then have "extend_match data ip ref_pos len = len" by (subst extend_match.simps) (rule if_not_P)
    with "1.prems" show ?thesis by simp
  qed
qed

lemma find_SomeD: "List.find P xs = Some x \<Longrightarrow> x \<in> set xs \<and> P x"
  by (auto simp: find_Some_iff)

lemma set_step_by_4: "s \<in> set (step_by_4 a b) \<Longrightarrow> a \<le> s \<and> s < b"
  by (auto simp: step_by_4_def)

lemma find_match_is_match:
  assumes "find_match data ip = (ml, ref_pos)" "4 \<le> ml"
  shows "is_match data ip ref_pos ml"
proof -
  have ip: "ip + 4 \<le> length data" using assms by (auto simp: find_match_def split: if_splits)
  let ?P = "\<lambda>s. s + 4 \<le> length data \<and> slice data s (s + 4) = slice data ip (ip + 4)"
  obtain ref where f: "List.find ?P (step_by_4 (ip - 65536) ip) = Some ref"
    and m: "ml = extend_match data ip ref 4" "ref_pos = ref"
    using assms unfolding find_match_def if_P [OF ip]
    by (cases "List.find ?P (step_by_4 (ip - 65536) ip)") (simp_all only: option.case prod.inject, auto)
  have ref: "ref \<in> set (step_by_4 (ip - 65536) ip)" "ref + 4 \<le> length data"
    "slice data ref (ref + 4) = slice data ip (ip + 4)"
    using find_SomeD [OF f] by (simp_all only: simp_thms)
  have "data ! (ref + j) = data ! (ip + j)" if "j < 4" for j
    using arg_cong [OF ref(3), of "\<lambda>xs. xs ! j"] that ip ref(2) by (simp add: slice_def)
  then have "is_match data ip ref 4"
    using set_step_by_4 [OF ref(1)] ip by (auto simp: is_match_def)
  then show ?thesis using m extend_match_is_match by simp
qed

lemma take_slice: "a \<le> b \<Longrightarrow> take a xs @ slice xs a b = take b xs"
  by (metis le_add_diff_inverse slice_def take_add)

lemma lz4_decode_loop:
  assumes "anchor \<le> ip" "ip \<le> length data" "length data \<le> 65536"
  shows "lz4_decode (length data) (lz4_loop data ip anchor) (take anchor data) = data"
  using assms
proof (induction data ip anchor rule: lz4_loop.induct)
  case (1 data ip anchor)
  obtain ml ref_pos where fm: "find_match data ip = (ml, ref_pos)" by force
  consider "\<not> ip < length data" | "ip < length data" "4 \<le> ml" | "ip < length data" "\<not> 4 \<le> ml"
    by blast
  then show ?case
  proof cases
    case 1
    then have "lz4_loop data ip anchor
        = (if anchor < length data then lz4_last (slice data anchor (length data)) else [])"
      by (simp add: lz4_loop.simps [of data ip anchor])
    then show ?thesis using "1.prems"(1,2) take_slice [of anchor "length data" data]
      by (simp add: lz4_decode_last)
  next
    case 2
    note m = find_match_is_match [OF fm 2(2)]
    have out: "take anchor data @ slice data anchor ip = take ip data"
      using "1.prems"(1) by (rule take_slice)
    have loop: "lz4_loop data ip anchor = lz4_sequence (slice data anchor ip) ml (ip - ref_pos)
        @ lz4_loop data (ip + ml) (ip + ml)"
      using 2 by (simp add: lz4_loop.simps [of data ip anchor] fm)
    have d: "(ip - ref_pos) mod 65536 = ip - ref_pos" "ip - ref_pos \<noteq> 0"
      using m "1.prems" 2(1) by (auto simp: is_match_def)
    have "lz4_decode (length data) (lz4_loop data ip anchor) (take anchor data)
        = lz4_decode (length data) (lz4_loop data (ip + ml) (ip + ml))
            (copy_match (ip - (ip - ref_pos)) 0 ml (take ip data))"
      using lz4_decode_sequence [of "take anchor data" "length data" ml "slice data anchor ip" "ip - ref_pos"]
        "1.prems" 2 d by (simp add: loop out)
    also have "copy_match (ip - (ip - ref_pos)) 0 ml (take ip data) = take (ip + ml) data"
      using copy_match_run [of ref_pos 0 "take ip data" _ ml data] m 2(1)
      by (auto simp: is_match_def min_def)
    also have "lz4_decode (length data) (lz4_loop data (ip + ml) (ip + ml)) (take (ip + ml) data) = data"
      using "1.IH"(1) [OF 2(1) fm [symmetric] refl 2(2)] m "1.prems"(3) by (auto simp: is_match_def)
    finally show ?thesis .
  next
    case 3
    then have "lz4_loop data ip anchor = lz4_loop data (ip + 1) anchor"
      by (simp add: lz4_loop.simps [of data ip anchor] fm)
    then show ?thesis
      using "1.IH"(2) [OF 3(1) fm [symmetric] refl 3(2)] "1.prems" 3(1) by simp
  qed
qed

lemma lz4_roundtrip:
  assumes "compress_lz4 data = Some c" "length data \<le> 65536"
  shows "decompress_lz4 c e = Some data"
proof -
  have c: "c = len_header (length data) @ lz4_loop data 0 0"
    using assms(1) by (auto simp: compress_lz4_def Let_def split: if_splits)
  have "lz4_decode (length data) (lz4_loop data 0 0) [] = data"
    using lz4_decode_loop [of 0 0 data] assms(2) by simp
  then show ?thesis using assms(2) by (simp add: decompress_lz4_def c read_len_header)
qed

text \<open>The window of the search is one byte wider than the offset: a match 65536 bytes back is
  written with offset 0, and the decoder then stops before copying it.\<close>

lemma lz4_window_edge:
  assumes "length out < n" "4 \<le> ml"
  shows "lz4_decode n (lz4_sequence lits ml 65536 @ r) out = out @ lits"
  using lz4_decode_sequence [OF assms, of lits 65536 r] by simp

text \<open>C27: what \<^verbatim>\<open>compress\<close> returns is shorter than the data and \<^verbatim>\<open>decompress\<close> with the same
  type gives the data back, for every compression type; for LZ4 the data has at most 65536 bytes.\<close>

theorem compress_roundtrip:
  assumes "compress data ty = Some c" "length data < 2 ^ 32" "ty = LZ4 \<longrightarrow> length data \<le> 65536"
  shows "decompress c e ty = Some data \<and> length c < length data"
proof -
  have cb: "compress_by ty data = Some c" using assms(1) by (simp add: compress_def split: if_splits)
  have "decompress c e ty = Some data"
    using cb assms(2,3)
    by (cases ty) (simp_all add: decompress_def rle_roundtrip zle_roundtrip lz4_roundtrip
        compress_zstd_fallback_def decompress_zstd_fallback_def)
  moreover have "length c < length data"
    using cb by (cases ty) (auto simp: compress_rle_def compress_zle_def compress_lz4_def
        compress_zstd_fallback_def Let_def split: if_splits)
  ultimately show ?thesis ..
qed

lemma run_length_replicate: "count + n \<le> 255 \<Longrightarrow> run_length b count (replicate n b) = count + n"
  by (induction n arbitrary: count) auto

lemma rle_loop_replicate:
  assumes "n < 255"
  shows "rle_loop (replicate (Suc n) b) = [b, word_of_nat (Suc n)]"
  using assms run_length_replicate [of 1 n b] by simp

theorem compress_roundtrip_witness:
  "compress (replicate 64 7) Gzip9 = Some (len_header 64 @ [7, 64])
    \<and> decompress (len_header 64 @ [7, 64]) 0 Gzip9 = Some (replicate 64 7)"
proof -
  have c: "compress (replicate 64 7) Gzip9 = Some (len_header 64 @ [7, 64])"
    using rle_loop_replicate [of 63 7]
    by (simp add: compress_def compress_rle_def HV_COMP_MIN_SIZE_def Let_def flip: One_nat_def)
  from compress_roundtrip [OF this] c show ?thesis by simp
qed

end
