(* ===== verification/Hv_Txg.thy ===== *)
theory Hv_Txg
  imports Hv_Bp
begin

text \<open>
  Transaction groups of HVFS (\<^verbatim>\<open>src/src/kernel/services/fs/hvfs/txg.rs\<close>): three slots that rotate
  through the states open, quiescing and syncing.  A record per struct, atomics as their values,
  one definition per method; an index out of the slot array panics.  The lemmas show that the three
  slots always carry the three states, that the identifiers of new groups increase, and that what is
  recorded in the open group is in the syncing group after exactly two transitions.
\<close>

datatype hv_txg_state = TxgOpen | TxgQuiescing | TxgSyncing | TxgCommitted

datatype hv_io_type = IoRead | IoWrite | IoFree | IoClaim

record hv_io =
  io_bp :: hv_block_pointer
  io_offset :: u64
  io_size :: u32
  io_type :: hv_io_type
  io_priority :: u8
  io_ready :: bool

record hv_txg =
  txg_id :: u64
  txg_state :: hv_txg_state
  txg_birth_time :: u64
  txg_nwrites :: u64
  txg_nalloc :: u64
  txg_nfree :: u64
  txg_space_delta :: u64
  txg_dirty_bps :: "hv_block_pointer list"
  txg_free_bps :: "hv_block_pointer list"
  txg_io_list :: "hv_io list"
  txg_synced :: bool

record hv_txg_group =
  g_txgs :: "hv_txg option list"
  g_current :: u64
  g_open :: u32
  g_quiescing :: u32
  g_syncing :: u32
  g_sync_in_progress :: bool
  g_total_syncs :: u64
  g_total_dirty :: u64

definition HV_TXG_SIZE :: nat where
  "HV_TXG_SIZE = 3"

section \<open>One group\<close>

definition txg_new :: "u64 \<Rightarrow> hv_txg" where
  "txg_new i = \<lparr>txg_id = i, txg_state = TxgOpen, txg_birth_time = 0, txg_nwrites = 0, txg_nalloc = 0,
     txg_nfree = 0, txg_space_delta = 0, txg_dirty_bps = [], txg_free_bps = [], txg_io_list = [],
     txg_synced = False\<rparr>"

definition txg_open :: "hv_txg \<Rightarrow> hv_txg" where
  "txg_open t = t\<lparr>txg_state := TxgOpen, txg_synced := False\<rparr>"

definition txg_quiesce :: "hv_txg \<Rightarrow> hv_txg" where
  "txg_quiesce t = t\<lparr>txg_state := TxgQuiescing\<rparr>"

definition txg_sync_start :: "hv_txg \<Rightarrow> hv_txg" where
  "txg_sync_start t = t\<lparr>txg_state := TxgSyncing\<rparr>"

definition txg_commit :: "hv_txg \<Rightarrow> hv_txg" where
  "txg_commit t = t\<lparr>txg_state := TxgCommitted, txg_synced := True\<rparr>"

definition add_dirty :: "hv_block_pointer \<Rightarrow> hv_txg \<Rightarrow> hv_txg" where
  "add_dirty bp t = t\<lparr>txg_dirty_bps := txg_dirty_bps t @ [bp], txg_nwrites := txg_nwrites t + 1\<rparr>"

definition add_free :: "hv_block_pointer \<Rightarrow> hv_txg \<Rightarrow> hv_txg" where
  "add_free bp t = t\<lparr>txg_free_bps := txg_free_bps t @ [bp], txg_nfree := txg_nfree t + 1\<rparr>"

definition add_io :: "hv_io \<Rightarrow> hv_txg \<Rightarrow> hv_txg" where
  "add_io io t = t\<lparr>txg_io_list := txg_io_list t @ [io]\<rparr>"

definition drain_dirty :: "hv_txg \<Rightarrow> hv_block_pointer list \<times> hv_txg" where
  "drain_dirty t = (txg_dirty_bps t, t\<lparr>txg_dirty_bps := []\<rparr>)"

definition drain_free :: "hv_txg \<Rightarrow> hv_block_pointer list \<times> hv_txg" where
  "drain_free t = (txg_free_bps t, t\<lparr>txg_free_bps := []\<rparr>)"

definition drain_io :: "hv_txg \<Rightarrow> hv_io list \<times> hv_txg" where
  "drain_io t = (txg_io_list t, t\<lparr>txg_io_list := []\<rparr>)"

section \<open>The ring of groups\<close>

definition group_new :: hv_txg_group where
  "group_new = \<lparr>g_txgs = [None, None, None], g_current = 1, g_open = 0, g_quiescing = 0, g_syncing = 0,
     g_sync_in_progress = False, g_total_syncs = 0, g_total_dirty = 0\<rparr>"

text \<open>\<^verbatim>\<open>if let Some(ref mut txg) = self.txgs[i] { f(txg) }\<close>; an index out of range panics.\<close>

definition with_slot :: "nat \<Rightarrow> (hv_txg \<Rightarrow> hv_txg) \<Rightarrow> hv_txg_group \<Rightarrow> hv_txg_group panics" where
  "with_slot i f g =
     (if i < length (g_txgs g) then Ret (g\<lparr>g_txgs := (g_txgs g)[i := map_option f (g_txgs g ! i)]\<rparr>)
      else Panic)"

definition group_init :: "u64 \<Rightarrow> hv_txg_group \<Rightarrow> hv_txg_group panics" where
  "group_init start_txg g =
     (let g = g\<lparr>g_current := start_txg,
                g_txgs := map (\<lambda>i. Some (txg_new (start_txg + word_of_nat i))) [0 ..< HV_TXG_SIZE],
                g_open := 0, g_quiescing := 1, g_syncing := 2\<rparr>
      in panic_bind (with_slot 0 txg_open g) (\<lambda>g.
         panic_bind (with_slot 1 txg_quiesce g) (\<lambda>g.
         with_slot 2 txg_sync_start g)))"

definition get_open_txg :: "hv_txg_group \<Rightarrow> hv_txg option" where
  "get_open_txg g = (if unat (g_open g) < HV_TXG_SIZE then g_txgs g ! unat (g_open g) else None)"

definition get_syncing_txg :: "hv_txg_group \<Rightarrow> hv_txg option" where
  "get_syncing_txg g = (if unat (g_syncing g) < HV_TXG_SIZE then g_txgs g ! unat (g_syncing g) else None)"

definition transition :: "hv_txg_group \<Rightarrow> (u64 \<times> hv_txg_group) panics" where
  "transition g =
     (let old_open = unat (g_open g); old_quiescing = unat (g_quiescing g);
          old_syncing = unat (g_syncing g)
      in panic_bind (with_slot old_open txg_quiesce g) (\<lambda>g.
         panic_bind (with_slot old_quiescing txg_sync_start g) (\<lambda>g.
         panic_bind (with_slot old_syncing txg_commit g) (\<lambda>g.
         let new_txg_id = g_current g + word_of_nat HV_TXG_SIZE;
             g = g\<lparr>g_current := g_current g + 1\<rparr>;
             new_open = old_syncing
         in panic_bind (with_slot new_open (\<lambda>_. txg_open (txg_new new_txg_id)) g) (\<lambda>g.
            Ret (new_txg_id,
                 g\<lparr>g_open := word_of_nat new_open, g_quiescing := word_of_nat old_open,
                   g_syncing := word_of_nat old_quiescing, g_total_syncs := g_total_syncs g + 1\<rparr>))))))"

definition current_txg :: "hv_txg_group \<Rightarrow> u64" where
  "current_txg g = g_current g"

text \<open>The methods that reach the open group through a shared reference change it in place.\<close>

definition update_open :: "(hv_txg \<Rightarrow> hv_txg) \<Rightarrow> hv_txg_group \<Rightarrow> hv_txg_group" where
  "update_open f g =
     (if unat (g_open g) < HV_TXG_SIZE
      then g\<lparr>g_txgs := (g_txgs g)[unat (g_open g) := map_option f (g_txgs g ! unat (g_open g))]\<rparr> else g)"

definition add_dirty_to_open :: "hv_block_pointer \<Rightarrow> hv_txg_group \<Rightarrow> hv_txg_group" where
  "add_dirty_to_open bp g =
     (case get_open_txg g of
        None \<Rightarrow> g
      | Some _ \<Rightarrow> (let g = update_open (add_dirty bp) g in g\<lparr>g_total_dirty := g_total_dirty g + 1\<rparr>))"

definition add_free_to_open :: "hv_block_pointer \<Rightarrow> hv_txg_group \<Rightarrow> hv_txg_group" where
  "add_free_to_open bp g = (case get_open_txg g of None \<Rightarrow> g | Some _ \<Rightarrow> update_open (add_free bp) g)"

definition add_io_to_open :: "hv_io \<Rightarrow> hv_txg_group \<Rightarrow> hv_txg_group" where
  "add_io_to_open io g = (case get_open_txg g of None \<Rightarrow> g | Some _ \<Rightarrow> update_open (add_io io) g)"

section \<open>Invariant of the ring\<close>

text \<open>The view of a ring in use: the open, quiescing and syncing group.\<close>

definition ring :: "hv_txg_group \<Rightarrow> hv_txg \<Rightarrow> hv_txg \<Rightarrow> hv_txg \<Rightarrow> bool" where
  "ring g a b c \<longleftrightarrow> length (g_txgs g) = 3
     \<and> distinct [unat (g_open g), unat (g_quiescing g), unat (g_syncing g)]
     \<and> unat (g_open g) < 3 \<and> unat (g_quiescing g) < 3 \<and> unat (g_syncing g) < 3
     \<and> g_txgs g ! unat (g_open g) = Some a \<and> g_txgs g ! unat (g_quiescing g) = Some b
     \<and> g_txgs g ! unat (g_syncing g) = Some c
     \<and> txg_state a = TxgOpen \<and> txg_state b = TxgQuiescing \<and> txg_state c = TxgSyncing"

lemma ring_slots:
  assumes "ring g a b c"
  shows "unat (g_open g) < 3" "unat (g_quiescing g) < 3" "unat (g_syncing g) < 3"
    "unat (g_open g) \<noteq> unat (g_quiescing g)" "unat (g_open g) \<noteq> unat (g_syncing g)"
    "unat (g_quiescing g) \<noteq> unat (g_syncing g)"
  using assms by (auto simp: ring_def)

lemma get_txg_ring:
  assumes "ring g a b c"
  shows "get_open_txg g = Some a" "get_syncing_txg g = Some c"
  using assms by (simp_all add: get_open_txg_def get_syncing_txg_def HV_TXG_SIZE_def ring_def)

lemma group_init_ring:
  "\<exists>g'. group_init s g = Ret g' \<and> g_current g' = s
     \<and> ring g' (txg_open (txg_new s)) (txg_quiesce (txg_new (s + 1))) (txg_sync_start (txg_new (s + 2)))"
proof -
  let ?g = "g\<lparr>g_txgs := [Some (txg_open (txg_new s)), Some (txg_quiesce (txg_new (s + 1))),
      Some (txg_sync_start (txg_new (s + 2)))], g_current := s, g_open := 0, g_quiescing := 1, g_syncing := 2\<rparr>"
  have "[0 ..< HV_TXG_SIZE] = [0, 1, 2]" by (simp add: HV_TXG_SIZE_def upt_rec)
  then have "group_init s g = Ret ?g" by (simp add: group_init_def with_slot_def Let_def)
  moreover have "ring ?g (txg_open (txg_new s)) (txg_quiesce (txg_new (s + 1))) (txg_sync_start (txg_new (s + 2)))"
    by (simp add: ring_def txg_open_def txg_quiesce_def txg_sync_start_def)
  moreover have "g_current ?g = s" by simp
  ultimately show ?thesis by blast
qed

lemma transition_ring:
  assumes "ring g a b c"
  obtains g' where "transition g = Ret (g_current g + 3, g')" "g_current g' = g_current g + 1"
    "ring g' (txg_open (txg_new (g_current g + 3))) (txg_quiesce a) (txg_sync_start b)"
proof -
  note s = ring_slots [OF assms]
  let ?g = "g\<lparr>g_txgs := ((g_txgs g)[unat (g_open g) := Some (txg_quiesce a),
      unat (g_quiescing g) := Some (txg_sync_start b),
      unat (g_syncing g) := Some (txg_open (txg_new (g_current g + 3)))]),
      g_current := g_current g + 1, g_open := g_syncing g, g_quiescing := g_open g,
      g_syncing := g_quiescing g, g_total_syncs := g_total_syncs g + 1\<rparr>"
  have "transition g = Ret (g_current g + 3, ?g)"
    using assms s by (simp add: transition_def with_slot_def Let_def ring_def HV_TXG_SIZE_def list_update_swap)
  moreover have "ring ?g (txg_open (txg_new (g_current g + 3))) (txg_quiesce a) (txg_sync_start b)"
    using assms s by (auto simp: ring_def txg_open_def txg_quiesce_def txg_sync_start_def)
  ultimately show thesis using that by simp
qed

lemma update_open_ring:
  assumes "ring g a b c" "txg_state (f a) = TxgOpen"
  shows "ring (update_open f g) (f a) b c" "g_current (update_open f g) = g_current g"
  using assms ring_slots [OF assms(1)] by (auto simp: update_open_def HV_TXG_SIZE_def ring_def)

lemma ring_frame [simp]: "ring (g\<lparr>g_total_dirty := n\<rparr>) a b c = ring g a b c"
  by (simp add: ring_def)

lemma add_to_open_ring:
  assumes "ring g a b c"
  shows "ring (add_dirty_to_open bp g) (add_dirty bp a) b c" "ring (add_free_to_open bp g) (add_free bp a) b c"
    "ring (add_io_to_open io g) (add_io io a) b c"
    "g_current (add_dirty_to_open bp g) = g_current g" "g_current (add_free_to_open bp g) = g_current g"
    "g_current (add_io_to_open io g) = g_current g"
proof -
  have st: "txg_state a = TxgOpen" using assms by (simp add: ring_def)
  show "ring (add_dirty_to_open bp g) (add_dirty bp a) b c" "ring (add_free_to_open bp g) (add_free bp a) b c"
    "ring (add_io_to_open io g) (add_io io a) b c"
    "g_current (add_dirty_to_open bp g) = g_current g" "g_current (add_free_to_open bp g) = g_current g"
    "g_current (add_io_to_open io g) = g_current g"
    using update_open_ring [OF assms, of "add_dirty bp"] update_open_ring [OF assms, of "add_free bp"]
      update_open_ring [OF assms, of "add_io io"] st
    by (simp_all add: add_dirty_to_open_def add_free_to_open_def add_io_to_open_def get_txg_ring [OF assms]
        add_dirty_def add_free_def add_io_def Let_def)
qed

section \<open>Histories\<close>

datatype txg_op = AddDirty hv_block_pointer | AddFree hv_block_pointer | AddIo hv_io | Transition

primrec txg_apply :: "txg_op \<Rightarrow> hv_txg_group \<Rightarrow> hv_txg_group panics" where
  "txg_apply (AddDirty bp) g = Ret (add_dirty_to_open bp g)"
| "txg_apply (AddFree bp) g = Ret (add_free_to_open bp g)"
| "txg_apply (AddIo io) g = Ret (add_io_to_open io g)"
| "txg_apply Transition g = panic_bind (transition g) (\<lambda>r. Ret (snd r))"

primrec txg_ops :: "txg_op list \<Rightarrow> hv_txg_group \<Rightarrow> hv_txg_group panics" where
  "txg_ops [] g = Ret g"
| "txg_ops (p # ps) g = panic_bind (txg_apply p g) (txg_ops ps)"

abbreviation transitions :: "txg_op list \<Rightarrow> nat" where
  "transitions ps \<equiv> count_list ps Transition"

text \<open>\<open>kept t t'\<close>: the group \<open>t'\<close> is \<open>t\<close> in a later state, with all that was recorded in \<open>t\<close>.\<close>

definition kept :: "hv_txg \<Rightarrow> hv_txg \<Rightarrow> bool" where
  "kept t t' \<longleftrightarrow> txg_id t' = txg_id t \<and> (\<exists>ds. txg_dirty_bps t' = txg_dirty_bps t @ ds)
     \<and> (\<exists>fs. txg_free_bps t' = txg_free_bps t @ fs) \<and> (\<exists>is. txg_io_list t' = txg_io_list t @ is)"

lemma kept_refl [simp]: "kept t t"
  by (simp add: kept_def)

lemma kept_trans: "kept a b \<Longrightarrow> kept b c \<Longrightarrow> kept a c"
  by (auto simp: kept_def)

lemma kept_steps [simp]:
  "kept t (add_dirty bp t)" "kept t (add_free bp t)" "kept t (add_io io t)"
  "kept t (txg_quiesce t)" "kept t (txg_sync_start t)"
  by (simp_all add: kept_def add_dirty_def add_free_def add_io_def txg_quiesce_def txg_sync_start_def)

lemma txg_apply_ring:
  assumes "ring g a b c"
  shows "\<exists>g' a' b' c'. txg_apply p g = Ret g' \<and> ring g' a' b' c'
    \<and> (if p = Transition then txg_id a' = g_current g + 3 \<and> kept a b' \<and> kept b c' \<and> g_current g' = g_current g + 1
       else kept a a' \<and> b' = b \<and> c' = c \<and> g_current g' = g_current g)"
proof (cases p)
  case (AddDirty bp)
  then show ?thesis
    using add_to_open_ring(1,4) [OF assms] kept_steps(1) [of a bp] by (simp del: kept_steps) blast
next
  case (AddFree bp)
  then show ?thesis
    using add_to_open_ring(2,5) [OF assms] kept_steps(2) [of a bp] by (simp del: kept_steps) blast
next
  case (AddIo io)
  then show ?thesis
    using add_to_open_ring(3,6) [OF assms] kept_steps(3) [of a io] by (simp del: kept_steps) blast
next
  case Transition
  obtain g' where "transition g = Ret (g_current g + 3, g')" "g_current g' = g_current g + 1"
    "ring g' (txg_open (txg_new (g_current g + 3))) (txg_quiesce a) (txg_sync_start b)"
    using transition_ring [OF assms] .
  moreover have "txg_id (txg_open (txg_new (g_current g + 3))) = g_current g + 3"
    by (simp add: txg_open_def txg_new_def)
  ultimately show ?thesis using Transition kept_steps(4) [of a] kept_steps(5) [of b]
    by (simp del: kept_steps) blast
qed

lemma txg_ops_ring:
  assumes "ring g a b c"
  shows "\<exists>g' a' b' c'. txg_ops ps g = Ret g' \<and> ring g' a' b' c'
    \<and> (transitions ps = 0 \<longrightarrow> kept a a' \<and> kept b b' \<and> kept c c')
    \<and> (transitions ps = 1 \<longrightarrow> kept a b' \<and> kept b c') \<and> (transitions ps = 2 \<longrightarrow> kept a c')"
  using assms
proof (induction ps arbitrary: g a b c)
  case Nil
  then show ?case by (auto intro: kept_refl)
next
  case (Cons p ps)
  obtain g1 a1 b1 c1 where 1: "txg_apply p g = Ret g1" "ring g1 a1 b1 c1"
    "p \<noteq> Transition \<Longrightarrow> kept a a1 \<and> b1 = b \<and> c1 = c" "p = Transition \<Longrightarrow> kept a b1 \<and> kept b c1"
    using txg_apply_ring [OF Cons.prems, of p] by (auto split: if_splits)
  obtain g2 a2 b2 c2 where 2: "txg_ops ps g1 = Ret g2" "ring g2 a2 b2 c2"
    "transitions ps = 0 \<longrightarrow> kept a1 a2 \<and> kept b1 b2 \<and> kept c1 c2"
    "transitions ps = 1 \<longrightarrow> kept a1 b2 \<and> kept b1 c2" "transitions ps = 2 \<longrightarrow> kept a1 c2"
    using Cons.IH [OF 1(2)] by (elim exE conjE)
  have "txg_ops (p # ps) g = Ret g2" using 1(1) 2(1) by simp
  moreover have "(transitions (p # ps) = 0 \<longrightarrow> kept a a2 \<and> kept b b2 \<and> kept c c2)
    \<and> (transitions (p # ps) = 1 \<longrightarrow> kept a b2 \<and> kept b c2) \<and> (transitions (p # ps) = 2 \<longrightarrow> kept a c2)"
    using 1(3,4) 2(3-5) by (cases "p = Transition") (auto intro: kept_trans)
  ultimately show ?case
    using 2(2) by (intro exI [of _ g2] exI [of _ a2] exI [of _ b2] exI [of _ c2]) simp
qed

inductive txg_run :: "u64 \<Rightarrow> nat \<Rightarrow> hv_txg_group \<Rightarrow> bool" for s where
  init: "group_init s group_new = Ret g \<Longrightarrow> txg_run s 0 g"
| step: "txg_run s k g \<Longrightarrow> txg_apply p g = Ret g' \<Longrightarrow> txg_run s (if p = Transition then Suc k else k) g'"

definition group_ids :: "u64 \<Rightarrow> nat \<Rightarrow> u64 \<times> u64 \<times> u64" where
  "group_ids s k =
     (if k = 0 then (s, s + 1, s + 2)
      else if k = 1 then (s + 3, s, s + 1)
      else if k = 2 then (s + 4, s + 3, s)
      else (s + 2 + word_of_nat k, s + 1 + word_of_nat k, s + word_of_nat k))"

lemma group_ids_Suc:
  "group_ids s k = (x, y, z) \<Longrightarrow> group_ids s (Suc k) = (s + word_of_nat k + 3, x, y)"
  by (auto simp: group_ids_def numeral_2_eq_2 split: if_splits)

lemma txg_run_ring:
  assumes "txg_run s k g"
  shows "\<exists>a b c. ring g a b c \<and> g_current g = s + word_of_nat k
    \<and> group_ids s k = (txg_id a, txg_id b, txg_id c)"
  using assms
proof (induction rule: txg_run.induct)
  case (init g)
  have "group_ids s 0 = (txg_id (txg_open (txg_new s)), txg_id (txg_quiesce (txg_new (s + 1))),
      txg_id (txg_sync_start (txg_new (s + 2))))"
    by (simp add: group_ids_def txg_new_def txg_open_def txg_quiesce_def txg_sync_start_def)
  with init group_init_ring [of s group_new] show ?case by fastforce
next
  case (step k g p g')
  then obtain a b c where r: "ring g a b c" "g_current g = s + word_of_nat k"
    "group_ids s k = (txg_id a, txg_id b, txg_id c)" by blast
  obtain a1 b1 c1 where 1: "ring g' a1 b1 c1" "if p = Transition
      then txg_id a1 = g_current g + 3 \<and> kept a b1 \<and> kept b c1 \<and> g_current g' = g_current g + 1
      else kept a a1 \<and> b1 = b \<and> c1 = c \<and> g_current g' = g_current g"
    using txg_apply_ring [OF r(1), of p] step(2) by auto
  have "g_current g' = s + word_of_nat (if p = Transition then Suc k else k)
      \<and> group_ids s (if p = Transition then Suc k else k) = (txg_id a1, txg_id b1, txg_id c1)"
    using 1(2) r(2,3) group_ids_Suc [OF r(3)] by (auto simp: kept_def split: if_splits)
  with 1(1) show ?case by blast
qed

text \<open>In every history of an initialised ring that starts at group \<open>s\<close>, after \<open>k\<close> transitions the
  three slots hold one open, one quiescing and one syncing group, no operation panics, the counter is
  \<open>s + k\<close>, and the open group carries the identifier \<open>s + k + 2\<close> (\<open>s\<close> before the first transition).\<close>

theorem txg_ring_invariant:
  assumes "txg_run s k g"
  shows "\<exists>a b c. ring g a b c \<and> current_txg g = s + word_of_nat k
    \<and> group_ids s k = (txg_id a, txg_id b, txg_id c) \<and> (\<forall>p. txg_apply p g \<noteq> Panic)"
proof -
  obtain a b c where r: "ring g a b c" "g_current g = s + word_of_nat k"
    "group_ids s k = (txg_id a, txg_id b, txg_id c)" using txg_run_ring [OF assms] by blast
  have "txg_apply p g \<noteq> Panic" for p using txg_apply_ring [OF r(1), of p] by auto
  with r show ?thesis by (auto simp: current_txg_def)
qed

text \<open>C31: a block pointer recorded as dirty in the open group is in the syncing group after exactly
  two transitions, whatever else is recorded in between.\<close>

theorem dirty_reaches_syncing:
  assumes "txg_run s k g" "transitions ps = 2"
  shows "\<exists>g' c. txg_ops (AddDirty bp # ps) g = Ret g' \<and> get_syncing_txg g' = Some c
    \<and> txg_state c = TxgSyncing \<and> bp \<in> set (txg_dirty_bps c)"
proof -
  obtain a b c where r: "ring g a b c" using txg_run_ring [OF assms(1)] by blast
  obtain g' a' b' c' where g': "txg_ops ps (add_dirty_to_open bp g) = Ret g'" "ring g' a' b' c'"
    "kept (add_dirty bp a) c'"
    using txg_ops_ring [OF add_to_open_ring(1) [OF r, of bp], of ps] assms(2) by auto
  have "bp \<in> set (txg_dirty_bps c')" using g'(3) by (auto simp: kept_def add_dirty_def)
  moreover have "txg_state c' = TxgSyncing" using g'(2) by (simp add: ring_def)
  ultimately show ?thesis using g' get_txg_ring(2) [OF g'(2)] by auto
qed

theorem txg_ring_invariant_witness:
  "\<exists>g a b c. group_init 1 group_new = Ret g \<and> ring g a b c \<and> current_txg g = 1"
proof -
  obtain g where g: "group_init 1 group_new = Ret g" using group_init_ring [of 1 group_new] by blast
  from txg_ring_invariant [OF txg_run.init [OF g]] g show ?thesis by auto
qed

theorem dirty_reaches_syncing_witness:
  "\<exists>g g' c. group_init 1 group_new = Ret g
    \<and> txg_ops [AddDirty bp_null, Transition, Transition] g = Ret g'
    \<and> get_syncing_txg g' = Some c \<and> bp_null \<in> set (txg_dirty_bps c)"
proof -
  obtain g where g: "group_init 1 group_new = Ret g" using group_init_ring [of 1 group_new] by blast
  have "transitions [Transition, Transition] = 2" by simp
  from dirty_reaches_syncing [OF txg_run.init [OF g] this] g show ?thesis by blast
qed

end
