(* ===== verification/Hv_Zil.thy ===== *)
theory Hv_Zil
  imports Hv_Bp
begin

text \<open>
  The intent log of HVFS (\<^verbatim>\<open>src/src/kernel/services/fs/hvfs/zil.rs\<close>): typed records with a sequence
  number, appended to a list, dropped when their transaction group commits, and replayed in the order
  of their sequence numbers.  Atomics are their values; \<^verbatim>\<open>retain\<close> with its captured maximum is a fold
  next to a filter.  The theory relates a log to the operations that were applied to it: a replay
  yields exactly the records that no commit covered, in the order they were added, with strictly
  increasing sequence numbers.
\<close>

datatype hv_zil_record_type =
  ZilCreate | ZilRemove | ZilLink | ZilRename | ZilWrite | ZilTruncate | ZilSetAttr | ZilAcl
| ZilCreateAcl | ZilMkdir | ZilSymlink | ZilDedupRef | ZilDedupUnref

record hv_zil_record =
  zr_type :: hv_zil_record_type
  zr_txg :: u64
  zr_obj_id :: u64
  zr_parent_obj :: u64
  zr_offset :: u64
  zr_size :: u32
  zr_name :: "u8 list"
  zr_data_hash :: "u64 list"
  zr_seq :: u64

section \<open>Records\<close>

text \<open>\<^verbatim>\<open>n[at..at + len].copy_from_slice(&b[..len])\<close> with \<^verbatim>\<open>len = b.len().min(limit)\<close>; names are the
  bytes of a UTF-8 string.\<close>

definition put_name :: "nat \<Rightarrow> nat \<Rightarrow> u8 list \<Rightarrow> u8 list \<Rightarrow> u8 list" where
  "put_name at limit b n =
     (let len = min (length b) limit in take at n @ take len b @ drop (at + len) n)"

definition zero_name :: "u8 list" where
  "zero_name = replicate 128 0"

definition zr_blank :: "hv_zil_record_type \<Rightarrow> u64 \<Rightarrow> hv_zil_record" where
  "zr_blank ty txg = \<lparr>zr_type = ty, zr_txg = txg, zr_obj_id = 0, zr_parent_obj = 0, zr_offset = 0,
     zr_size = 0, zr_name = zero_name, zr_data_hash = [0, 0, 0, 0], zr_seq = 0\<rparr>"

definition new_write :: "u64 \<Rightarrow> u64 \<Rightarrow> u64 \<Rightarrow> u32 \<Rightarrow> hv_zil_record" where
  "new_write txg obj_id offset sz =
     (zr_blank ZilWrite txg)\<lparr>zr_obj_id := obj_id, zr_offset := offset, zr_size := sz\<rparr>"

definition new_create :: "u64 \<Rightarrow> u64 \<Rightarrow> u8 list \<Rightarrow> hv_zil_record" where
  "new_create txg parent_obj name =
     (zr_blank ZilCreate txg)\<lparr>zr_parent_obj := parent_obj, zr_name := put_name 0 127 name zero_name\<rparr>"

definition new_remove :: "u64 \<Rightarrow> u64 \<Rightarrow> u8 list \<Rightarrow> hv_zil_record" where
  "new_remove txg parent_obj name =
     (zr_blank ZilRemove txg)\<lparr>zr_parent_obj := parent_obj, zr_name := put_name 0 127 name zero_name\<rparr>"

definition new_mkdir :: "u64 \<Rightarrow> u64 \<Rightarrow> u8 list \<Rightarrow> hv_zil_record" where
  "new_mkdir txg parent_obj name =
     (zr_blank ZilMkdir txg)\<lparr>zr_parent_obj := parent_obj, zr_name := put_name 0 127 name zero_name\<rparr>"

definition new_setattr :: "u64 \<Rightarrow> u64 \<Rightarrow> hv_zil_record" where
  "new_setattr txg obj_id = (zr_blank ZilSetAttr txg)\<lparr>zr_obj_id := obj_id\<rparr>"

definition new_link :: "u64 \<Rightarrow> u64 \<Rightarrow> u8 list \<Rightarrow> u64 \<Rightarrow> hv_zil_record" where
  "new_link txg parent_obj name obj_id =
     (zr_blank ZilLink txg)\<lparr>zr_obj_id := obj_id, zr_parent_obj := parent_obj,
        zr_name := put_name 0 127 name zero_name\<rparr>"

definition new_rename :: "u64 \<Rightarrow> u64 \<Rightarrow> u8 list \<Rightarrow> u8 list \<Rightarrow> hv_zil_record" where
  "new_rename txg parent_obj old_name new_name =
     (zr_blank ZilRename txg)\<lparr>zr_parent_obj := parent_obj,
        zr_name := put_name 64 63 new_name (put_name 0 63 old_name zero_name)\<rparr>"

definition new_symlink :: "u64 \<Rightarrow> u64 \<Rightarrow> u8 list \<Rightarrow> u8 list \<Rightarrow> hv_zil_record" where
  "new_symlink txg parent_obj link_name target =
     (zr_blank ZilSymlink txg)\<lparr>zr_parent_obj := parent_obj,
        zr_name := put_name 64 63 target (put_name 0 63 link_name zero_name)\<rparr>"

definition new_dedup_ref :: "u64 \<Rightarrow> u64 list \<Rightarrow> u64 \<Rightarrow> hv_zil_record" where
  "new_dedup_ref txg hash obj_id =
     (zr_blank ZilDedupRef txg)\<lparr>zr_obj_id := obj_id, zr_data_hash := hash\<rparr>"

definition new_dedup_unref :: "u64 \<Rightarrow> u64 list \<Rightarrow> hv_zil_record" where
  "new_dedup_unref txg hash = (zr_blank ZilDedupUnref txg)\<lparr>zr_data_hash := hash\<rparr>"

section \<open>The log\<close>

record hv_zil =
  zil_records :: "hv_zil_record list"
  zil_committed_seq :: u64
  zil_current_seq :: u64
  zil_log_bp :: hv_block_pointer
  zil_itxg :: u64
  zil_syncing :: bool
  zil_replaying :: bool
  zil_enabled :: bool

definition zil_new :: hv_zil where
  "zil_new = \<lparr>zil_records = [], zil_committed_seq = 0, zil_current_seq = 0, zil_log_bp = bp_null,
     zil_itxg = 0, zil_syncing = False, zil_replaying = False, zil_enabled = True\<rparr>"

definition zil_init :: "hv_zil \<Rightarrow> hv_zil" where
  "zil_init z = z\<lparr>zil_committed_seq := 0, zil_current_seq := 0, zil_records := [], zil_enabled := True\<rparr>"

definition add_record :: "hv_zil_record \<Rightarrow> hv_zil \<Rightarrow> hv_zil" where
  "add_record r z =
     (if \<not> zil_enabled z then z
      else let seq = zil_current_seq z + 1
           in z\<lparr>zil_current_seq := seq, zil_records := zil_records z @ [r\<lparr>zr_seq := seq\<rparr>]\<rparr>)"

definition zil_commit :: "u64 \<Rightarrow> hv_zil \<Rightarrow> hv_zil" where
  "zil_commit txg z =
     (let max_seq = fold (\<lambda>r m. if zr_txg r \<le> txg then max m (zr_seq r) else m) (zil_records z) 0
      in z\<lparr>zil_records := filter (\<lambda>r. \<not> zr_txg r \<le> txg) (zil_records z), zil_committed_seq := max_seq\<rparr>)"

definition zil_sync :: "u64 \<Rightarrow> hv_zil \<Rightarrow> hv_zil" where
  "zil_sync txg z =
     (if zil_syncing z then z
      else (zil_commit txg (z\<lparr>zil_syncing := True\<rparr>))\<lparr>zil_syncing := False\<rparr>)"

definition zil_replay :: "hv_zil \<Rightarrow> hv_zil_record list \<times> hv_zil" where
  "zil_replay z =
     (if zil_replaying z then ([], z)
      else (sort_key zr_seq (zil_records z), z\<lparr>zil_replaying := False\<rparr>))"

definition has_uncommitted :: "hv_zil \<Rightarrow> bool" where
  "has_uncommitted z \<longleftrightarrow> zil_committed_seq z < zil_current_seq z"

definition pending_count :: "hv_zil \<Rightarrow> nat" where
  "pending_count z = length (zil_records z)"

section \<open>Names\<close>

lemma length_put_name: "at + limit \<le> length n \<Longrightarrow> length (put_name at limit b n) = length n"
  by (simp add: put_name_def Let_def)

lemma takeWhile_stop: "0 \<notin> set xs \<Longrightarrow> takeWhile (\<lambda>c. c \<noteq> 0) (xs @ 0 # r) = xs" for xs :: "u8 list"
  by (induction xs) auto

text \<open>A record of a rename or a symbolic link keeps its two names apart.\<close>

lemma two_names:
  assumes "length a \<le> 63" "length b \<le> 63" "0 \<notin> set a" "0 \<notin> set b"
  defines "n \<equiv> put_name 64 63 b (put_name 0 63 a zero_name)"
  shows "takeWhile (\<lambda>c. c \<noteq> 0) n = a" "takeWhile (\<lambda>c. c \<noteq> 0) (drop 64 n) = b" "length n = 128"
proof -
  let ?A = "a @ replicate (128 - length a) 0"
  have A: "put_name 0 63 a zero_name = ?A"
    using assms(1) by (simp add: put_name_def zero_name_def min_absorb1)
  have n: "n = a @ replicate (64 - length a) 0 @ b @ replicate (64 - length b) 0"
    using assms(1,2) by (simp add: n_def A) (simp add: put_name_def min_absorb1 Let_def)
  have pos: "replicate (64 - length xs) (0 :: u8) = 0 # replicate (63 - length xs) 0" if "length xs \<le> 63"
    for xs :: "u8 list" using that by (cases "64 - length xs") (auto simp: Suc_diff_le)
  show "takeWhile (\<lambda>c. c \<noteq> 0) n = a"
    unfolding n pos [OF assms(1)] using assms(3) by (simp add: takeWhile_stop)
  show "takeWhile (\<lambda>c. c \<noteq> 0) (drop 64 n) = b"
    unfolding n pos [OF assms(2)] using assms(1,4) by (simp add: takeWhile_stop)
  show "length n = 128" using assms(1,2) by (simp add: n)
qed

section \<open>Logs and the operations applied to them\<close>

datatype zil_op = ZilAdd hv_zil_record | ZilCommit u64 | ZilSync u64

primrec zil_apply :: "zil_op \<Rightarrow> hv_zil \<Rightarrow> hv_zil" where
  "zil_apply (ZilAdd r) z = add_record r z"
| "zil_apply (ZilCommit t) z = zil_commit t z"
| "zil_apply (ZilSync t) z = zil_sync t z"

text \<open>The abstract log: the records no commit covered, in the order they were added.\<close>

primrec log_apply :: "zil_op \<Rightarrow> hv_zil_record list \<Rightarrow> hv_zil_record list" where
  "log_apply (ZilAdd r) l = l @ [r\<lparr>zr_seq := 0\<rparr>]"
| "log_apply (ZilCommit t) l = filter (\<lambda>r. t < zr_txg r) l"
| "log_apply (ZilSync t) l = filter (\<lambda>r. t < zr_txg r) l"

definition zil_abs :: "hv_zil \<Rightarrow> hv_zil_record list" where
  "zil_abs z = map (\<lambda>r. r\<lparr>zr_seq := 0\<rparr>) (zil_records z)"

definition zil_inv :: "nat \<Rightarrow> hv_zil \<Rightarrow> bool" where
  "zil_inv k z \<longleftrightarrow> zil_enabled z \<and> \<not> zil_syncing z \<and> \<not> zil_replaying z \<and> unat (zil_current_seq z) = k
     \<and> sorted_wrt (<) (map zr_seq (zil_records z)) \<and> (\<forall>r \<in> set (zil_records z). zr_seq r \<le> zil_current_seq z)"

lemma zil_inv_new: "zil_inv 0 zil_new"
  by (simp add: zil_inv_def zil_new_def)

lemma zil_add:
  assumes "zil_inv k z" "Suc k < 2 ^ 64"
  shows "zil_inv (Suc k) (add_record r z)" "zil_abs (add_record r z) = zil_abs z @ [r\<lparr>zr_seq := 0\<rparr>]"
proof -
  have seq: "unat (zil_current_seq z + 1) = Suc k"
    using assms by (simp add: zil_inv_def unat_word_ariths)
  then have "zil_current_seq z < zil_current_seq z + 1"
    using assms(1) by (simp add: word_less_nat_alt zil_inv_def)
  then show "zil_inv (Suc k) (add_record r z)"
    using assms(1) seq by (auto simp: zil_inv_def add_record_def Let_def sorted_wrt_append)
  show "zil_abs (add_record r z) = zil_abs z @ [r\<lparr>zr_seq := 0\<rparr>]"
    using assms(1) by (simp add: zil_abs_def add_record_def Let_def zil_inv_def)
qed

lemma zil_commit_inv:
  assumes "zil_inv k z"
  shows "zil_inv k (zil_commit t z)" "zil_abs (zil_commit t z) = filter (\<lambda>r. t < zr_txg r) (zil_abs z)"
proof -
  have "sorted_wrt (<) (map zr_seq (filter P rs))" if "sorted_wrt (<) (map zr_seq rs)" for P rs
    using that by (induction rs) auto
  then show "zil_inv k (zil_commit t z)"
    using assms by (auto simp: zil_inv_def zil_commit_def Let_def)
  show "zil_abs (zil_commit t z) = filter (\<lambda>r. t < zr_txg r) (zil_abs z)"
    by (simp add: zil_abs_def zil_commit_def Let_def filter_map o_def not_le)
qed

lemma zil_sync_commit:
  assumes "zil_inv k z"
  shows "zil_sync t z = zil_commit t z"
  using assms by (cases z) (simp add: zil_inv_def zil_sync_def zil_commit_def Let_def)

definition adds :: "zil_op list \<Rightarrow> nat" where
  "adds ps = length (filter (\<lambda>p. \<exists>r. p = ZilAdd r) ps)"

lemma zil_ops_refine:
  "zil_inv k z \<Longrightarrow> k + adds ps < 2 ^ 64 \<Longrightarrow>
     zil_inv (k + adds ps) (fold zil_apply ps z) \<and> zil_abs (fold zil_apply ps z) = fold log_apply ps (zil_abs z)"
proof (induction ps arbitrary: k z)
  case Nil
  then show ?case by (simp add: adds_def)
next
  case (Cons p ps)
  show ?case
  proof (cases p)
    case (ZilAdd r)
    then show ?thesis
      using Cons.IH [OF zil_add(1) [OF Cons.prems(1)]] Cons.prems zil_add(2) [OF Cons.prems(1)]
      by (simp add: adds_def)
  next
    case (ZilCommit t)
    then show ?thesis
      using Cons.IH [OF zil_commit_inv(1) [OF Cons.prems(1)]] Cons.prems zil_commit_inv(2) [OF Cons.prems(1)]
      by (simp add: adds_def)
  next
    case (ZilSync t)
    then show ?thesis
      using Cons.IH [OF zil_commit_inv(1) [OF Cons.prems(1)]] Cons.prems zil_commit_inv(2) [OF Cons.prems(1)]
      by (simp add: adds_def zil_sync_commit [OF Cons.prems(1)])
  qed
qed

lemma sorted_seq_sort_key: "sorted_wrt (<) (map f rs) \<Longrightarrow> sort_key f rs = rs" for f :: "'a \<Rightarrow> 'b::linorder"
  by (intro sort_key_id_if_sorted) (auto simp: strict_sorted_imp_sorted)

text \<open>C34: for every sequence of additions, commits and synchronisations applied to a new log (fewer
  than \<open>2\<^sup>6\<^sup>4\<close> additions), a replay returns exactly the added records whose transaction group no later
  commit covered, in the order they were added, with strictly increasing sequence numbers.\<close>

theorem zil_replay_refines:
  assumes "adds ps < 2 ^ 64"
  defines "rs \<equiv> fst (zil_replay (fold zil_apply ps zil_new))"
  shows "map (\<lambda>r. r\<lparr>zr_seq := 0\<rparr>) rs = fold log_apply ps [] \<and> sorted_wrt (<) (map zr_seq rs)
    \<and> pending_count (fold zil_apply ps zil_new) = length (fold log_apply ps [])"
proof -
  let ?z = "fold zil_apply ps zil_new"
  have inv: "zil_inv (adds ps) ?z" and ab: "zil_abs ?z = fold log_apply ps []"
    using zil_ops_refine [OF zil_inv_new, of ps] assms(1) by (simp_all add: zil_abs_def zil_new_def)
  have rs: "rs = zil_records ?z"
    using inv by (simp add: rs_def zil_replay_def zil_inv_def sorted_seq_sort_key)
  moreover have "length (zil_records ?z) = length (fold log_apply ps [])"
    using arg_cong [OF ab, of length] by (simp add: zil_abs_def)
  ultimately show ?thesis using inv ab by (simp add: pending_count_def zil_abs_def zil_inv_def)
qed

theorem zil_replay_refines_witness:
  "map zr_txg (fst (zil_replay (fold zil_apply
     [ZilAdd (new_setattr 3 10), ZilAdd (new_setattr 2 11), ZilCommit 2, ZilAdd (new_setattr 4 12)] zil_new)))
   = [3, 4]"
proof -
  let ?ps = "[ZilAdd (new_setattr 3 10), ZilAdd (new_setattr 2 11), ZilCommit 2, ZilAdd (new_setattr 4 12)]"
  have "adds ?ps < 2 ^ 64" by (simp add: adds_def)
  note zil_replay_refines [OF this, THEN conjunct1, THEN arg_cong [where f = "map zr_txg"]]
  moreover have "fold log_apply ?ps [] = [(new_setattr 3 10)\<lparr>zr_seq := 0\<rparr>, (new_setattr 4 12)\<lparr>zr_seq := 0\<rparr>]"
    by (simp add: new_setattr_def zr_blank_def)
  ultimately show ?thesis
    by (simp only: map_map o_def) (simp add: new_setattr_def zr_blank_def)
qed

text \<open>\<^verbatim>\<open>has_uncommitted\<close> is not about the pending records: \<^verbatim>\<open>commit\<close> stores the largest sequence number
  it removed, also when it removed none, and records of different groups may be added out of order.\<close>

lemma has_uncommitted_without_records:
  defines "z \<equiv> fold zil_apply [ZilAdd (new_setattr 1 10), ZilCommit 1, ZilCommit 1] zil_new"
  shows "has_uncommitted z \<and> pending_count z = 0"
  by (simp add: z_def has_uncommitted_def pending_count_def zil_commit_def add_record_def zil_new_def
      new_setattr_def zr_blank_def Let_def)

lemma records_without_has_uncommitted:
  defines "z \<equiv> fold zil_apply [ZilAdd (new_setattr 5 10), ZilAdd (new_setattr 3 11), ZilCommit 3] zil_new"
  shows "\<not> has_uncommitted z \<and> pending_count z = 1"
  by (simp add: z_def has_uncommitted_def pending_count_def zil_commit_def add_record_def zil_new_def
      new_setattr_def zr_blank_def Let_def)

end
