(* ===== verification/Hv_Zap.thy ===== *)
theory Hv_Zap
  imports Utf8
begin

text \<open>
  The attribute tables of HVFS (\<^verbatim>\<open>src/src/kernel/services/fs/hvfs/zap.rs\<close>): a bounded list of
  entries with a fixed-size name, a fixed-size value and an FNV-1a hash of the full name.  A \<^verbatim>\<open>&str\<close>
  is its list of bytes; \<^verbatim>\<open>from_utf8\<close> is the well-formedness check of the standard library.  The
  theory shows that a table used with names that fit is a finite map with a capacity, for every
  sequence of operations.
\<close>

definition HV_ZAP_MAX_NAME :: nat where
  "HV_ZAP_MAX_NAME = 64"

definition HV_ZAP_MAX_VALUE :: nat where
  "HV_ZAP_MAX_VALUE = 128"

definition HV_ZAP_MAX_ENTRIES :: nat where
  "HV_ZAP_MAX_ENTRIES = 256"

section \<open>Entries\<close>

record hv_zap_entry =
  ze_name :: "u8 list"
  ze_value :: "u8 list"
  ze_value_len :: u16
  ze_hash :: u64
  ze_used :: bool

definition hash_name :: "u8 list \<Rightarrow> u64" where
  "hash_name name = foldl (\<lambda>h b. (h XOR ucast b) * 1099511628211) 14695981039346656037 name"

text \<open>\<^verbatim>\<open>dst[..len].copy_from_slice(&src[..len])\<close>\<close>

definition copy_prefix :: "nat \<Rightarrow> 'a list \<Rightarrow> 'a list \<Rightarrow> 'a list" where
  "copy_prefix len src dst = take len src @ drop len dst"

definition ze_new :: "u8 list \<Rightarrow> u8 list \<Rightarrow> hv_zap_entry" where
  "ze_new name val =
     (let nlen = min (length name) HV_ZAP_MAX_NAME; vlen = min (length val) HV_ZAP_MAX_VALUE
      in \<lparr>ze_name = copy_prefix nlen name (replicate HV_ZAP_MAX_NAME 0),
          ze_value = copy_prefix vlen val (replicate HV_ZAP_MAX_VALUE 0),
          ze_value_len = word_of_nat vlen, ze_hash = hash_name name, ze_used = True\<rparr>)"

definition get_name :: "hv_zap_entry \<Rightarrow> u8 list" where
  "get_name e =
     (let n = takeWhile (\<lambda>b. b \<noteq> 0) (ze_name e) in if utf8_valid n then n else [])"

definition get_value :: "hv_zap_entry \<Rightarrow> u8 list" where
  "get_value e = take (unat (ze_value_len e)) (ze_value e)"

definition get_value_u64 :: "hv_zap_entry \<Rightarrow> u64" where
  "get_value_u64 e = (if 8 \<le> unat (ze_value_len e) then of_le_bytes (take 8 (ze_value e)) else 0)"

section \<open>Tables\<close>

datatype hv_zap_type = ZapMicro | ZapNormal | ZapLeaf

record hv_zap =
  zap_entries :: "hv_zap_entry list"
  zap_capacity :: nat
  zap_type :: hv_zap_type

definition zap_new :: hv_zap where
  "zap_new = \<lparr>zap_entries = [], zap_capacity = HV_ZAP_MAX_ENTRIES, zap_type = ZapMicro\<rparr>"

definition with_capacity :: "nat \<Rightarrow> hv_zap" where
  "with_capacity capacity =
     \<lparr>zap_entries = [], zap_capacity = capacity, zap_type = (if capacity \<le> 64 then ZapMicro else ZapNormal)\<rparr>"

definition matches :: "u8 list \<Rightarrow> hv_zap_entry \<Rightarrow> bool" where
  "matches name e \<longleftrightarrow> ze_used e \<and> ze_hash e = hash_name name \<and> get_name e = name"

definition zap_insert :: "u8 list \<Rightarrow> u8 list \<Rightarrow> hv_zap \<Rightarrow> bool \<times> hv_zap" where
  "zap_insert name val z =
     (if zap_capacity z \<le> length (zap_entries z) then (False, z)
      else case find_idx (matches name) (zap_entries z) of
        Some i \<Rightarrow>
          (let vlen = min (length val) HV_ZAP_MAX_VALUE; e = zap_entries z ! i;
               e = e\<lparr>ze_value := copy_prefix vlen val (ze_value e), ze_value_len := word_of_nat vlen\<rparr>
           in (True, z\<lparr>zap_entries := (zap_entries z)[i := e]\<rparr>))
      | None \<Rightarrow> (True, z\<lparr>zap_entries := zap_entries z @ [ze_new name val]\<rparr>))"

definition insert_u64 :: "u8 list \<Rightarrow> u64 \<Rightarrow> hv_zap \<Rightarrow> bool \<times> hv_zap" where
  "insert_u64 name v z = zap_insert name (to_le_bytes 8 v) z"

definition zap_lookup :: "hv_zap \<Rightarrow> u8 list \<Rightarrow> u8 list option" where
  "zap_lookup z name = map_option get_value (List.find (matches name) (zap_entries z))"

definition lookup_u64 :: "hv_zap \<Rightarrow> u8 list \<Rightarrow> u64 option" where
  "lookup_u64 z name = map_option get_value_u64 (List.find (matches name) (zap_entries z))"

definition zap_remove :: "u8 list \<Rightarrow> hv_zap \<Rightarrow> bool \<times> hv_zap" where
  "zap_remove name z =
     (case find_idx (matches name) (zap_entries z) of
        None \<Rightarrow> (False, z)
      | Some i \<Rightarrow> (True, z\<lparr>zap_entries := take i (zap_entries z) @ drop (Suc i) (zap_entries z)\<rparr>))"

definition zap_contains :: "hv_zap \<Rightarrow> u8 list \<Rightarrow> bool" where
  "zap_contains z name \<longleftrightarrow> list_ex (matches name) (zap_entries z)"

definition zap_len :: "hv_zap \<Rightarrow> nat" where
  "zap_len z = length (filter ze_used (zap_entries z))"

definition zap_is_empty :: "hv_zap \<Rightarrow> bool" where
  "zap_is_empty z \<longleftrightarrow> zap_len z = 0"

definition zap_keys :: "hv_zap \<Rightarrow> u8 list list" where
  "zap_keys z = map get_name (filter ze_used (zap_entries z))"

definition zap_entry_list :: "hv_zap \<Rightarrow> (u8 list \<times> u8 list) list" where
  "zap_entry_list z = map (\<lambda>e. (get_name e, get_value e)) (filter ze_used (zap_entries z))"

definition zap_clear :: "hv_zap \<Rightarrow> hv_zap" where
  "zap_clear z = z\<lparr>zap_entries := []\<rparr>"

section \<open>Names that fit\<close>

definition good_name :: "u8 list \<Rightarrow> bool" where
  "good_name n \<longleftrightarrow> utf8_valid n \<and> 0 \<notin> set n \<and> length n \<le> HV_ZAP_MAX_NAME"

definition entry_ok :: "hv_zap_entry \<Rightarrow> bool" where
  "entry_ok e \<longleftrightarrow> ze_used e \<and> ze_hash e = hash_name (get_name e) \<and> good_name (get_name e)
     \<and> length (ze_value e) = HV_ZAP_MAX_VALUE \<and> unat (ze_value_len e) \<le> HV_ZAP_MAX_VALUE"

definition zap_ok :: "hv_zap \<Rightarrow> bool" where
  "zap_ok z \<longleftrightarrow> (\<forall>e \<in> set (zap_entries z). entry_ok e) \<and> distinct (map get_name (zap_entries z))"

lemma takeWhile_pad:
  "0 \<notin> set n \<Longrightarrow> takeWhile (\<lambda>b. b \<noteq> 0) (n @ replicate k 0) = n" for n :: "u8 list"
  by (induction n) (cases k, auto)

lemma get_name_new: "good_name n \<Longrightarrow> get_name (ze_new n v) = n"
  by (simp add: get_name_def ze_new_def Let_def copy_prefix_def good_name_def min_absorb1 takeWhile_pad)

lemma take_min_length [simp]: "take (min (length v) k) v = take k v"
  by (simp add: min_def)

lemma unat_vlen: "unat (word_of_nat (min n HV_ZAP_MAX_VALUE) :: u16) = min n HV_ZAP_MAX_VALUE"
  by (simp add: unat_of_nat HV_ZAP_MAX_VALUE_def min_def)

lemma get_value_new: "get_value (ze_new n v) = take HV_ZAP_MAX_VALUE v"
  by (simp add: get_value_def ze_new_def Let_def copy_prefix_def unat_vlen)

lemma entry_ok_new: "good_name n \<Longrightarrow> entry_ok (ze_new n v)"
  by (simp add: entry_ok_def get_name_new)
    (simp add: ze_new_def Let_def copy_prefix_def unat_vlen)

lemma entry_ok_update:
  fixes v :: "u8 list"
  assumes "entry_ok e"
  defines "e' \<equiv> e\<lparr>ze_value := copy_prefix (min (length v) HV_ZAP_MAX_VALUE) v (ze_value e),
      ze_value_len := word_of_nat (min (length v) HV_ZAP_MAX_VALUE)\<rparr>"
  shows "entry_ok e'" "get_name e' = get_name e" "get_value e' = take HV_ZAP_MAX_VALUE v"
proof -
  show n: "get_name e' = get_name e" by (simp add: e'_def get_name_def)
  show "entry_ok e'"
    using assms(1) n by (auto simp: entry_ok_def e'_def copy_prefix_def unat_vlen)
  show "get_value e' = take HV_ZAP_MAX_VALUE v"
    using assms(1) by (simp add: get_value_def e'_def copy_prefix_def unat_vlen entry_ok_def)
qed

lemma matches_ok: "entry_ok e \<Longrightarrow> matches n e \<longleftrightarrow> get_name e = n"
  by (auto simp: matches_def entry_ok_def)

lemma zap_lookup_ok:
  assumes "zap_ok z"
  shows "zap_lookup z n = map_of (map (\<lambda>e. (get_name e, get_value e)) (zap_entries z)) n"
proof -
  have "map_option get_value (List.find (matches n) es) = map_of (map (\<lambda>e. (get_name e, get_value e)) es) n"
    if "\<forall>e \<in> set es. entry_ok e" for es
    using that by (induction es) (auto simp: matches_ok)
  then show ?thesis using assms by (simp add: zap_lookup_def zap_ok_def)
qed

lemma zap_find_ok:
  assumes "zap_ok z" "find_idx (matches n) (zap_entries z) = Some i"
  shows "i < length (zap_entries z)" "get_name (zap_entries z ! i) = n" "entry_ok (zap_entries z ! i)"
    "\<And>j. j < length (zap_entries z) \<Longrightarrow> get_name (zap_entries z ! j) = n \<Longrightarrow> j = i"
proof -
  show i: "i < length (zap_entries z)" using assms(2) by (simp add: find_idx_Some_iff)
  then show ok: "entry_ok (zap_entries z ! i)" using assms(1) by (simp add: zap_ok_def)
  show n: "get_name (zap_entries z ! i) = n"
    using assms(2) ok by (simp add: find_idx_Some_iff matches_ok)
  show "j = i" if "j < length (zap_entries z)" "get_name (zap_entries z ! j) = n" for j
    using assms(1) that i n nth_eq_iff_index_eq [of "map get_name (zap_entries z)" j i]
    by (simp add: zap_ok_def)
qed

lemma zap_find_None:
  "zap_ok z \<Longrightarrow> find_idx (matches n) (zap_entries z) = None \<longleftrightarrow> n \<notin> get_name ` set (zap_entries z)"
  by (auto simp: find_idx_None_iff zap_ok_def matches_ok)

section \<open>A table is a map with a capacity\<close>

lemma map_of_update:
  "distinct (map fst xs) \<Longrightarrow> i < length xs \<Longrightarrow> fst (xs ! i) = n \<Longrightarrow>
     map_of (xs[i := (n, v)]) = (map_of xs)(n \<mapsto> v)"
proof (induction xs arbitrary: i)
  case (Cons x xs)
  then show ?case
  proof (cases i)
    case (Suc j)
    with Cons.prems have "fst x \<noteq> n" by auto
    with Suc Cons show ?thesis by (auto simp: fun_eq_iff)
  qed (auto simp: fun_eq_iff)
qed simp

lemma map_of_delete:
  "distinct (map fst xs) \<Longrightarrow> i < length xs \<Longrightarrow> fst (xs ! i) = n \<Longrightarrow>
     map_of (take i xs @ drop (Suc i) xs) = (map_of xs)(n := None)"
proof (induction xs arbitrary: i)
  case (Cons x xs)
  then show ?case
  proof (cases i)
    case 0
    with Cons.prems have "n \<notin> fst ` set xs" by auto
    then have "map_of xs n = None" by (simp add: map_of_eq_None_iff)
    with 0 Cons.prems show ?thesis by (auto simp: fun_eq_iff)
  next
    case (Suc j)
    with Cons.prems have "fst x \<noteq> n" by auto
    with Suc Cons show ?thesis by (auto simp: fun_eq_iff)
  qed
qed simp

lemma map_update_same: "i < length xs \<Longrightarrow> f y = f (xs ! i) \<Longrightarrow> map f (xs[i := y]) = map f xs"
  by (simp add: map_update list_update_same_conv)

lemma distinct_delete: "distinct xs \<Longrightarrow> distinct (take i xs @ drop (Suc i) xs)"
  by (simp add: set_take_disj_set_drop_if_distinct)

abbreviation zap_alist :: "hv_zap \<Rightarrow> (u8 list \<times> u8 list) list" where
  "zap_alist z \<equiv> map (\<lambda>e. (get_name e, get_value e)) (zap_entries z)"

lemma zap_alist_distinct: "zap_ok z \<Longrightarrow> distinct (map fst (zap_alist z))"
  by (simp add: zap_ok_def o_def)

lemma zap_insert_ok:
  assumes ok: "zap_ok z" and n: "good_name n"
  shows "case zap_insert n v z of (b, z') \<Rightarrow> zap_ok z' \<and> zap_capacity z' = zap_capacity z
    \<and> (b \<longleftrightarrow> length (zap_entries z) < zap_capacity z)
    \<and> zap_lookup z' = (if b then (zap_lookup z)(n \<mapsto> take HV_ZAP_MAX_VALUE v) else zap_lookup z)"
proof (cases "zap_capacity z \<le> length (zap_entries z)")
  case True
  then show ?thesis using ok by (simp add: zap_insert_def)
next
  case room: False
  show ?thesis
  proof (cases "find_idx (matches n) (zap_entries z)")
    case None
    let ?z = "z\<lparr>zap_entries := zap_entries z @ [ze_new n v]\<rparr>"
    have new: "n \<notin> get_name ` set (zap_entries z)" using None ok by (simp add: zap_find_None)
    have ok': "zap_ok ?z" using ok n new by (auto simp: zap_ok_def get_name_new entry_ok_new)
    have "map_of (zap_alist z) n = None" using new by (auto simp: map_of_eq_None_iff)
    then have "zap_lookup ?z = (zap_lookup z)(n \<mapsto> take HV_ZAP_MAX_VALUE v)"
      using n by (auto simp: fun_eq_iff zap_lookup_ok [OF ok] zap_lookup_ok [OF ok'] map_add_def
          get_name_new get_value_new split: option.splits)
    with ok' room None show ?thesis by (simp add: zap_insert_def)
  next
    case (Some i)
    note f = zap_find_ok [OF ok Some]
    let ?e = "(zap_entries z ! i)\<lparr>ze_value := copy_prefix (min (length v) HV_ZAP_MAX_VALUE) v (ze_value (zap_entries z ! i)),
        ze_value_len := word_of_nat (min (length v) HV_ZAP_MAX_VALUE)\<rparr>"
    let ?z = "z\<lparr>zap_entries := (zap_entries z)[i := ?e]\<rparr>"
    note e = entry_ok_update [OF f(3), of v]
    have names: "map get_name ((zap_entries z)[i := ?e]) = map get_name (zap_entries z)"
      using f(1) e(2) by (intro map_update_same)
    have ok': "zap_ok ?z"
      using ok e(1) names by (auto simp: zap_ok_def dest: set_update_subset_insert [THEN subsetD])
    have "zap_alist ?z = (zap_alist z)[i := (n, take HV_ZAP_MAX_VALUE v)]"
      using e(2,3) f(2) by (simp add: map_update)
    then have "zap_lookup ?z = (zap_lookup z)(n \<mapsto> take HV_ZAP_MAX_VALUE v)"
      using map_of_update [OF zap_alist_distinct [OF ok], of i n] f(1,2)
      by (simp add: fun_eq_iff zap_lookup_ok [OF ok] zap_lookup_ok [OF ok'])
    with ok' room Some show ?thesis by (simp add: zap_insert_def Let_def)
  qed
qed

lemma zap_remove_ok:
  assumes ok: "zap_ok z"
  shows "case zap_remove n z of (b, z') \<Rightarrow> zap_ok z' \<and> zap_capacity z' = zap_capacity z
    \<and> (b \<longleftrightarrow> zap_lookup z n \<noteq> None) \<and> zap_lookup z' = (zap_lookup z)(n := None)"
proof (cases "find_idx (matches n) (zap_entries z)")
  case None
  then have "zap_lookup z n = None"
    using zap_find_None [OF ok] by (auto simp: zap_lookup_ok [OF ok] map_of_eq_None_iff)
  then show ?thesis using ok None by (simp add: zap_remove_def fun_upd_idem)
next
  case (Some i)
  note f = zap_find_ok [OF ok Some]
  let ?es = "take i (zap_entries z) @ drop (Suc i) (zap_entries z)"
  let ?z = "z\<lparr>zap_entries := ?es\<rparr>"
  have "distinct (map get_name ?es)"
    using ok distinct_delete [of "map get_name (zap_entries z)" i] by (simp add: zap_ok_def take_map drop_map)
  then have ok': "zap_ok ?z"
    using ok by (auto simp: zap_ok_def dest: in_set_takeD in_set_dropD)
  have "zap_lookup ?z = (zap_lookup z)(n := None)"
    using map_of_delete [OF zap_alist_distinct [OF ok], of i n] f(1,2)
    by (simp add: fun_eq_iff zap_lookup_ok [OF ok] zap_lookup_ok [OF ok'] take_map drop_map)
  moreover have "zap_lookup z n \<noteq> None"
    using f(1,2) by (auto simp: zap_lookup_ok [OF ok] map_of_eq_None_iff image_iff)
  ultimately show ?thesis using ok' Some by (simp add: zap_remove_def)
qed

lemma zap_dom: "zap_ok z \<Longrightarrow> card (dom (zap_lookup z)) = length (zap_entries z)"
proof -
  assume ok: "zap_ok z"
  have "dom (zap_lookup z) = set (map get_name (zap_entries z))"
    by (auto simp: dom_def zap_lookup_ok [OF ok] map_of_eq_None_iff image_iff simp flip: not_None_eq)
  then show ?thesis using ok distinct_card [of "map get_name (zap_entries z)"] by (simp add: zap_ok_def)
qed

lemma zap_len_ok: "zap_ok z \<Longrightarrow> zap_len z = length (zap_entries z)"
  by (simp add: zap_len_def zap_ok_def entry_ok_def)

datatype zap_op = ZapInsert "u8 list" "u8 list" | ZapRemove "u8 list" | ZapClear

primrec zap_apply :: "zap_op \<Rightarrow> hv_zap \<Rightarrow> hv_zap" where
  "zap_apply (ZapInsert n v) z = snd (zap_insert n v z)"
| "zap_apply (ZapRemove n) z = snd (zap_remove n z)"
| "zap_apply ZapClear z = zap_clear z"

text \<open>The specification: a map that refuses an insertion when it is full.\<close>

primrec map_apply :: "nat \<Rightarrow> zap_op \<Rightarrow> (u8 list \<rightharpoonup> u8 list) \<Rightarrow> (u8 list \<rightharpoonup> u8 list)" where
  "map_apply c (ZapInsert n v) m =
     (if card (dom m) < c then m(n \<mapsto> take HV_ZAP_MAX_VALUE v) else m)"
| "map_apply c (ZapRemove n) m = m(n := None)"
| "map_apply c ZapClear m = Map.empty"

primrec op_fits :: "zap_op \<Rightarrow> bool" where
  "op_fits (ZapInsert n v) = good_name n"
| "op_fits (ZapRemove n) = True"
| "op_fits ZapClear = True"

lemma zap_apply_refines:
  assumes "zap_ok z" "op_fits p"
  shows "zap_ok (zap_apply p z) \<and> zap_capacity (zap_apply p z) = zap_capacity z
    \<and> zap_lookup (zap_apply p z) = map_apply (zap_capacity z) p (zap_lookup z)"
proof (cases p)
  case (ZapInsert n v)
  then show ?thesis
    using zap_insert_ok [OF assms(1), of n v] assms(2) zap_dom [OF assms(1)] by (auto split: prod.splits)
next
  case (ZapRemove n)
  then show ?thesis using zap_remove_ok [OF assms(1), of n] by (auto split: prod.splits)
next
  case ZapClear
  then show ?thesis by (auto simp: zap_clear_def zap_ok_def zap_lookup_def)
qed

text \<open>For every sequence of insertions (of names of at most 64 bytes without a zero byte), removals
  and clears applied to a new table, looking up any name gives what a map gives that keeps the first 128
  bytes of a value and refuses insertions when it has as many names as the capacity; the table's
  length is the number of names.\<close>

theorem zap_refines_map:
  fixes c :: nat
  assumes "list_all op_fits ps"
  defines "z \<equiv> fold zap_apply ps (with_capacity c)" and "m \<equiv> fold (map_apply c) ps Map.empty"
  shows "zap_lookup z = m \<and> zap_len z = card (dom m) \<and> distinct (zap_keys z)"
proof -
  have "zap_ok (fold zap_apply ps y) \<and> zap_lookup (fold zap_apply ps y) = fold (map_apply (zap_capacity y)) ps (zap_lookup y)"
    if "zap_ok y" "list_all op_fits ps" for y
    using that
  proof (induction ps arbitrary: y)
    case (Cons p ps)
    then show ?case using zap_apply_refines [of y p] by simp
  qed simp
  moreover have "zap_ok (with_capacity c)" "zap_capacity (with_capacity c) = c"
    "zap_lookup (with_capacity c) = Map.empty"
    by (auto simp: with_capacity_def zap_ok_def zap_lookup_def)
  ultimately have z: "zap_ok z" "zap_lookup z = m"
    using assms(1) by (simp_all add: z_def m_def)
  moreover have "distinct (zap_keys z)"
    using z(1) by (auto simp: zap_keys_def zap_ok_def distinct_map_filter)
  ultimately show ?thesis using zap_dom zap_len_ok by metis
qed

definition sample_ops :: "zap_op list" where
  "sample_ops = [ZapInsert [97] [1, 2], ZapInsert [98] [3], ZapInsert [97] [9]]"

theorem zap_refines_map_witness:
  "zap_lookup (fold zap_apply sample_ops (with_capacity 4)) [97] = Some [9]
    \<and> zap_lookup (fold zap_apply sample_ops (with_capacity 2)) [97] = Some [1, 2]"
proof -
  have "list_all op_fits sample_ops" by code_simp
  note r = zap_refines_map [OF this, of 4] zap_refines_map [OF this, of 2]
  have "fold (map_apply 4) sample_ops Map.empty [97] = Some [9]"
    "fold (map_apply 2) sample_ops Map.empty [97] = Some [1, 2]"
    by (simp_all add: sample_ops_def HV_ZAP_MAX_VALUE_def card_insert_if)
  with r show ?thesis by metis
qed

section \<open>Numbers as values, and names that do not fit\<close>

lemma insert_lookup_u64:
  assumes "zap_ok z" "good_name n" "insert_u64 n v z = (True, z')"
  shows "lookup_u64 z' n = Some v"
proof -
  have ok: "zap_ok z'" and l: "zap_lookup z' n = Some (to_le_bytes 8 v)"
    using zap_insert_ok [OF assms(1,2), of "to_le_bytes 8 v"] assms(3)
    by (simp_all add: insert_u64_def HV_ZAP_MAX_VALUE_def)
  then obtain e where e: "List.find (matches n) (zap_entries z') = Some e" "get_value e = to_le_bytes 8 v"
    by (auto simp: zap_lookup_def)
  have "entry_ok e" using ok e(1) by (auto simp: zap_ok_def find_Some_iff)
  then have "unat (ze_value_len e) = 8"
    using arg_cong [OF e(2), of length] by (simp add: get_value_def entry_ok_def)
  then have "get_value_u64 e = v"
    using e(2) by (simp add: get_value_u64_def get_value_def of_to_le_bytes)
  with e(1) show ?thesis by (simp add: lookup_u64_def)
qed

text \<open>A name of more than 64 bytes is stored cut off and is never found again.\<close>

lemma length_get_name: "length (get_name e) \<le> length (ze_name e)"
  by (simp add: get_name_def Let_def length_takeWhile_le)

lemma long_name_lost:
  assumes "HV_ZAP_MAX_NAME < length n" "\<forall>e \<in> set (zap_entries z). length (ze_name e) \<le> HV_ZAP_MAX_NAME"
    and "length (zap_entries z) < zap_capacity z"
  shows "fst (zap_insert n v z) \<and> zap_lookup (snd (zap_insert n v z)) n = None
    \<and> length (zap_entries (snd (zap_insert n v z))) = Suc (length (zap_entries z))"
proof -
  have no: "\<not> matches n e" if "length (ze_name e) \<le> HV_ZAP_MAX_NAME" for e
    using that assms(1) length_get_name [of e] by (auto simp: matches_def)
  have "length (ze_name (ze_new n v)) \<le> HV_ZAP_MAX_NAME" by (simp add: ze_new_def Let_def copy_prefix_def)
  with no have "\<not> matches n (ze_new n v)" by blast
  moreover have "find_idx (matches n) (zap_entries z) = None"
    using no assms(2) by (auto simp: find_idx_None_iff)
  ultimately show ?thesis
    using assms(3) no assms(2) by (auto simp: zap_insert_def zap_lookup_def find_None_iff)
qed

end
