(* ===== verification/Hv_Checksum.thy ===== *)
theory Hv_Checksum
  imports Hv_Bp Sha256
begin

text \<open>
  Checksums of HVFS (\<^verbatim>\<open>src/src/kernel/services/fs/hvfs/checksum.rs\<close>): Fletcher sums over the
  little-endian 64-bit words of a buffer, the last one padded with zero bytes, and SHA-256 as four
  big-endian words.  The theorem shows which corruption the sums are certain to detect.
\<close>

record hv_checksum =
  ck_kind :: hv_cksum_type
  ck_value :: "u64 list"

definition ck_new :: "hv_cksum_type \<Rightarrow> hv_checksum" where
  "ck_new kind = \<lparr>ck_kind = kind, ck_value = [0, 0, 0, 0]\<rparr>"

text \<open>\<^verbatim>\<open>data.chunks_exact(8)\<close>, each chunk read as a word, and the word made of the remaining bytes.\<close>

function chunk_words :: "u8 list \<Rightarrow> u64 list" where
  "chunk_words data =
     (if 8 \<le> length data then of_le_bytes (take 8 data) # chunk_words (drop 8 data) else [])"
  by pat_completeness auto
termination by (relation "measure length") auto

declare chunk_words.simps [simp del]

definition last_word :: "u8 list \<Rightarrow> u64" where
  "last_word data =
     (let rem = length data mod 8
      in of_le_bytes (drop (length data - rem) data @ replicate (8 - rem) 0))"

definition fletcher2_step :: "u64 \<Rightarrow> u64 \<times> u64 \<Rightarrow> u64 \<times> u64" where
  "fletcher2_step w = (\<lambda>(a, b). let a = a + w; b = b + a in (a, b))"

definition fletcher2 :: "u8 list \<Rightarrow> hv_checksum \<Rightarrow> hv_checksum" where
  "fletcher2 data ck =
     (let s = fold fletcher2_step (chunk_words data) (0, 0);
          (a, b) = (if 0 < length data mod 8 then fletcher2_step (last_word data) s else s)
      in ck\<lparr>ck_value := [a, b, 0, 0]\<rparr>)"

definition fletcher4_step :: "u64 \<Rightarrow> u64 \<times> u64 \<times> u64 \<times> u64 \<Rightarrow> u64 \<times> u64 \<times> u64 \<times> u64" where
  "fletcher4_step w = (\<lambda>(a, b, c, d). let a = a + w; b = b + a; c = c + b; d = d + c in (a, b, c, d))"

definition fletcher4 :: "u8 list \<Rightarrow> hv_checksum \<Rightarrow> hv_checksum" where
  "fletcher4 data ck =
     (let s = fold fletcher4_step (chunk_words data) (0, 0, 0, 0);
          (a, b, c, d) = (if 0 < length data mod 8 then fletcher4_step (last_word data) s else s)
      in ck\<lparr>ck_value := [a, b, c, d]\<rparr>)"

definition ck_sha256 :: "u8 list \<Rightarrow> hv_checksum \<Rightarrow> hv_checksum" where
  "ck_sha256 data ck =
     (let hash = sha256 data
      in ck\<lparr>ck_value := [of_be_bytes (slice hash 0 8), of_be_bytes (slice hash 8 16),
                         of_be_bytes (slice hash 16 24), of_be_bytes (slice hash 24 32)]\<rparr>)"

definition ck_compute :: "hv_cksum_type \<Rightarrow> u8 list \<Rightarrow> hv_checksum" where
  "ck_compute kind data =
     (let ck = ck_new kind
      in case kind of
           CksumOff \<Rightarrow> ck
         | Fletcher2 \<Rightarrow> fletcher2 data ck
         | Fletcher4 \<Rightarrow> fletcher4 data ck
         | SHA256 \<Rightarrow> ck_sha256 data ck
         | EdonR \<Rightarrow> fletcher4 data ck)"

definition ck_verify :: "hv_checksum \<Rightarrow> u8 list \<Rightarrow> bool" where
  "ck_verify ck data \<longleftrightarrow> ck_value ck = ck_value (ck_compute (ck_kind ck) data)"

section \<open>Detection of a corrupted word\<close>

definition all_words :: "u8 list \<Rightarrow> u64 list" where
  "all_words data = chunk_words data @ (if 0 < length data mod 8 then [last_word data] else [])"

lemma chunk_words_short: "length d < 8 \<Longrightarrow> chunk_words d = []"
  by (simp add: chunk_words.simps)

lemma chunk_words_append:
  "8 dvd length p \<Longrightarrow> chunk_words (p @ d) = chunk_words p @ chunk_words d"
proof (induction p rule: chunk_words.induct)
  case (1 p)
  show ?case
  proof (cases "8 \<le> length p")
    case True
    moreover from this "1.prems" have "8 dvd length (drop 8 p)" by (simp add: dvd_diff_nat)
    ultimately show ?thesis
      using "1.IH" by (simp add: chunk_words.simps [of p] chunk_words.simps [of "p @ d"])
  next
    case False
    then have "length p = 0" using dvd_imp_le [OF "1.prems"] by auto
    then have "p = []" by simp
    then show ?thesis by (simp add: chunk_words_short)
  qed
qed

lemma all_words_append:
  assumes "8 dvd length p"
  shows "all_words (p @ d) = chunk_words p @ all_words d"
proof -
  have "length (p @ d) mod 8 = length d mod 8" using assms by (auto elim!: dvdE)
  moreover from this have "last_word (p @ d) = last_word d"
    using mod_less_eq_dividend [of "length d" 8] by (simp add: last_word_def Let_def)
  ultimately show ?thesis using assms by (simp add: all_words_def chunk_words_append)
qed

text \<open>One word of the buffer, padded when it is the last.\<close>

lemma all_words_one:
  assumes "length x = 8 \<or> 0 < length x \<and> length x < 8 \<and> t = []"
  shows "all_words (x @ t) = of_le_bytes (x @ replicate (8 - length x) 0) # all_words t"
proof (cases "length x = 8")
  case True
  then have "chunk_words x = [of_le_bytes x]"
    by (simp add: chunk_words.simps [of x] chunk_words_short)
  then show ?thesis using True by (simp add: all_words_append)
next
  case False
  then have "length x mod 8 = length x" "0 < length x" using assms by auto
  with False assms show ?thesis by (auto simp: all_words_def last_word_def chunk_words_short)
qed

lemma fletcher_fst:
  "fst (fold fletcher2_step ws s2) = fst s2 + sum_list ws"
  "fst (fold fletcher4_step ws s4) = fst s4 + sum_list ws"
  by (induction ws arbitrary: s2 s4)
    (auto simp: fletcher2_step_def fletcher4_step_def Let_def algebra_simps split: prod.splits)

lemma ck_value_sum:
  assumes "kind \<in> {Fletcher2, Fletcher4, EdonR}"
  shows "ck_value (ck_compute kind data) ! 0 = sum_list (all_words data)"
proof -
  have 2: "fst (if P then fletcher2_step w s else s) = fst s + (if P then w else 0)" for P w s
    by (simp add: fletcher2_step_def Let_def split: prod.splits)
  have 4: "fst (if P then fletcher4_step w s else s) = fst s + (if P then w else 0)" for P w s
    by (simp add: fletcher4_step_def Let_def split: prod.splits)
  show ?thesis
    using assms fletcher_fst(1) [of "chunk_words data" "(0, 0)"]
      fletcher_fst(2) [of "chunk_words data" "(0, 0, 0, 0)"]
      2 [of "0 < length data mod 8" "last_word data" "fold fletcher2_step (chunk_words data) (0, 0)"]
      4 [of "0 < length data mod 8" "last_word data" "fold fletcher4_step (chunk_words data) (0, 0, 0, 0)"]
    by (auto simp: ck_compute_def fletcher2_def fletcher4_def all_words_def Let_def split: prod.splits if_splits)
qed

text \<open>The Fletcher checksums are certain to detect a corruption that stays within one aligned
  eight-byte word of a buffer (or within its shorter last word): verification of the stored checksum
  against the changed buffer fails.\<close>

theorem checksum_detects_word:
  assumes "kind \<in> {Fletcher2, Fletcher4, EdonR}" "8 dvd length p"
    and "length x = 8 \<or> 0 < length x \<and> length x < 8 \<and> t = []" "length y = length x" "x \<noteq> y"
  shows "ck_verify (ck_compute kind (p @ x @ t)) (p @ x @ t)
    \<and> \<not> ck_verify (ck_compute kind (p @ x @ t)) (p @ y @ t)"
proof -
  let ?w = "\<lambda>x. of_le_bytes (x @ replicate (8 - length x) 0) :: u64"
  have kind: "ck_kind (ck_compute kind d) = kind" for d
    using assms(1) by (auto simp: ck_compute_def ck_new_def fletcher2_def fletcher4_def Let_def split: prod.splits)
  have le: "length x \<le> 8" using assms(3) by auto
  have "?w x \<noteq> ?w y"
  proof
    assume eq: "?w x = ?w y"
    have "x @ replicate (8 - length x) 0 = y @ replicate (8 - length y) 0"
      by (rule of_le_bytes_inject [OF _ _ eq]) (use le assms(4) in \<open>simp_all add: diff_mult_distrib2\<close>)
    with assms(4,5) show False by simp
  qed
  moreover have "sum_list (all_words (p @ x @ t)) = sum_list (chunk_words p) + (?w x + sum_list (all_words t))"
    using assms(2,3) by (simp add: all_words_append all_words_one)
  moreover have "sum_list (all_words (p @ y @ t)) = sum_list (chunk_words p) + (?w y + sum_list (all_words t))"
    using assms(2-4) all_words_one [of y t] by (simp add: all_words_append)
  ultimately have "ck_value (ck_compute kind (p @ x @ t)) ! 0 \<noteq> ck_value (ck_compute kind (p @ y @ t)) ! 0"
    using assms(1) by (simp add: ck_value_sum)
  then show ?thesis by (auto simp: ck_verify_def kind)
qed

theorem checksum_detects_word_witness:
  "\<not> ck_verify (ck_compute Fletcher4 ([1, 2, 3, 4, 5, 6, 7, 8] @ [9, 9] @ []))
       ([1, 2, 3, 4, 5, 6, 7, 8] @ [9, 8] @ [])"
  using checksum_detects_word [of Fletcher4 "[1, 2, 3, 4, 5, 6, 7, 8]" "[9, 9]" "[]" "[9, 8]"]
  by (simp add: dvd_eq_mod_eq_0)

end
