(* ===== verification/Hv_Dedup.thy ===== *)
theory Hv_Dedup
  imports BTree Hv_Checksum Hv_Zil "HOL-Library.List_Lexorder"
begin

text \<open>
  The content index of HVFS (\<^verbatim>\<open>src/src/kernel/services/fs/hvfs/dedup.rs\<close>): two ordered maps keyed by
  the SHA-256 digest of a block, one to the block pointers and one to a reference count.  The keys
  are byte lists in lexicographic order, as Rust orders \<^verbatim>\<open>[u8; 32]\<close>.  The theorem relates the
  index to a counter per digest: a digest is known as long as it has references, its count is
  exact, and the block pointer of its first insertion is found until the last reference is dropped.
\<close>

type_synonym cas_hash = "u8 list"

record cas_index =
  hash_to_dva :: "(cas_hash, hv_block_pointer list) btree"
  ref_counts :: "(cas_hash, u64) btree"
  cas_hits :: u64
  cas_misses :: u64
  cas_synced :: u64

definition cas_new :: cas_index where
  "cas_new = \<lparr>hash_to_dva = bt_empty, ref_counts = bt_empty, cas_hits = 0, cas_misses = 0, cas_synced = 0\<rparr>"

definition cas_lookup :: "cas_hash \<Rightarrow> cas_index \<Rightarrow> hv_block_pointer option \<times> cas_index" where
  "cas_lookup hash c =
     (case bt_get (hash_to_dva c) hash of
        Some (bp # _) \<Rightarrow> (Some bp, c\<lparr>cas_hits := cas_hits c + 1\<rparr>)
      | _ \<Rightarrow> (None, c\<lparr>cas_misses := cas_misses c + 1\<rparr>))"

definition entry_or :: "'v \<Rightarrow> 'k \<Rightarrow> ('k, 'v) btree \<Rightarrow> 'v" where
  "entry_or d k t = (case bt_get t k of None \<Rightarrow> d | Some v \<Rightarrow> v)"

definition cas_insert :: "cas_hash \<Rightarrow> hv_block_pointer \<Rightarrow> cas_index \<Rightarrow> cas_index" where
  "cas_insert hash bp c =
     c\<lparr>hash_to_dva := bt_insert hash (entry_or [] hash (hash_to_dva c) @ [bp]) (hash_to_dva c),
       ref_counts := bt_insert hash (entry_or 0 hash (ref_counts c) + 1) (ref_counts c),
       cas_synced := cas_synced c + 1\<rparr>"

definition cas_ref_inc :: "cas_hash \<Rightarrow> cas_index \<Rightarrow> u64 \<times> cas_index" where
  "cas_ref_inc hash c =
     (let count = entry_or 0 hash (ref_counts c) + 1
      in (count, c\<lparr>ref_counts := bt_insert hash count (ref_counts c), cas_hits := cas_hits c + 1\<rparr>))"

definition cas_ref_dec :: "cas_hash \<Rightarrow> cas_index \<Rightarrow> u64 \<times> cas_index" where
  "cas_ref_dec hash c =
     (case bt_get (ref_counts c) hash of
        None \<Rightarrow> (0, c)
      | Some count \<Rightarrow>
          (let count = saturating_sub count 1
           in if count = 0
              then (0, c\<lparr>ref_counts := bt_remove hash (ref_counts c),
                         hash_to_dva := bt_remove hash (hash_to_dva c)\<rparr>)
              else (count, c\<lparr>ref_counts := bt_insert hash count (ref_counts c)\<rparr>)))"

definition cas_ref_count :: "cas_hash \<Rightarrow> cas_index \<Rightarrow> u64" where
  "cas_ref_count hash c = entry_or 0 hash (ref_counts c)"

definition cas_is_known :: "cas_hash \<Rightarrow> cas_index \<Rightarrow> bool" where
  "cas_is_known hash c \<longleftrightarrow> bt_contains (ref_counts c) hash"

definition cas_stats :: "cas_index \<Rightarrow> u64 \<times> u64 \<times> u64" where
  "cas_stats c = (cas_hits c, cas_misses c, cas_synced c)"

definition cas_invalidate :: "cas_hash \<Rightarrow> cas_index \<Rightarrow> cas_index" where
  "cas_invalidate hash c =
     c\<lparr>hash_to_dva := bt_remove hash (hash_to_dva c), ref_counts := bt_remove hash (ref_counts c)\<rparr>"

text \<open>\<^verbatim>\<open>dedup::sha256\<close>: the four words of the checksum written back as bytes.\<close>

definition dedup_sha256 :: "u8 list \<Rightarrow> cas_hash" where
  "dedup_sha256 data =
     (let v = ck_value (ck_compute SHA256 data)
      in to_be_bytes 8 (v ! 0) @ to_be_bytes 8 (v ! 1) @ to_be_bytes 8 (v ! 2) @ to_be_bytes 8 (v ! 3))"

definition sha256_matches :: "u8 list \<Rightarrow> cas_hash \<Rightarrow> bool" where
  "sha256_matches data expected \<longleftrightarrow> dedup_sha256 data = expected"

text \<open>The log record that \<^verbatim>\<open>cas_aware_write\<close> builds on a hit is dropped at the end of its statement;
  it is the third component here.\<close>

definition cas_aware_write ::
  "u8 list \<Rightarrow> u64 \<Rightarrow> u64 \<Rightarrow> cas_index \<Rightarrow> hv_block_pointer option \<times> cas_index \<times> hv_zil_record option" where
  "cas_aware_write data txg obj_id c =
     (let hash = dedup_sha256 data
      in case cas_lookup hash c of
           (Some existing, c) \<Rightarrow>
             (let c = snd (cas_ref_inc hash c);
                  r = new_dedup_ref txg
                    [of_be_bytes (slice hash 0 8), of_be_bytes (slice hash 8 16),
                     of_be_bytes (slice hash 16 24), of_be_bytes (slice hash 24 32)] obj_id
              in (Some existing, c, Some r))
         | (None, c) \<Rightarrow> (None, c, None))"

definition cas_aware_free :: "cas_hash \<Rightarrow> cas_index \<Rightarrow> bool \<times> cas_index" where
  "cas_aware_free hash c = (case cas_ref_dec hash c of (count, c) \<Rightarrow> (count = 0, c))"

section \<open>The digest\<close>

lemma to_of_be_bytes:
  assumes "length bs = 8"
  shows "to_be_bytes 8 (of_be_bytes bs :: u64) = bs"
proof -
  have "to_le_bytes 8 (of_le_bytes (rev bs) :: u64) = rev bs"
    by (rule of_le_bytes_inject [where 'a = 64]) (use assms in \<open>simp_all add: of_to_le_bytes\<close>)
  then show ?thesis by (simp add: to_be_bytes_def of_be_bytes_def)
qed

lemma slice_slice: "a \<le> b \<Longrightarrow> b \<le> c \<Longrightarrow> slice h a b @ slice h b c = slice h a c"
  using take_add [of "b - a" "c - b" "drop a h"] by (simp add: slice_def)

lemma slices_32: "length h = 32 \<Longrightarrow> slice h 0 8 @ slice h 8 16 @ slice h 16 24 @ slice h 24 32 = h"
  by (simp add: slice_slice)

lemma dedup_sha256_eq: "dedup_sha256 data = sha256 data"
proof -
  have len: "length (slice (sha256 data) (8 * i) (8 * i + 8)) = 8" if "i < 4" for i
    using that by (simp add: slice_def)
  have v: "ck_value (ck_compute SHA256 data) = [of_be_bytes (slice (sha256 data) 0 8),
      of_be_bytes (slice (sha256 data) 8 16), of_be_bytes (slice (sha256 data) 16 24),
      of_be_bytes (slice (sha256 data) 24 32)]"
    by (simp add: ck_compute_def ck_sha256_def Let_def)
  have "dedup_sha256 data = slice (sha256 data) 0 8 @ slice (sha256 data) 8 16
      @ slice (sha256 data) 16 24 @ slice (sha256 data) 24 32"
    using len [of 0] len [of 1] len [of 2] len [of 3]
    by (simp add: dedup_sha256_def Let_def v to_of_be_bytes)
  then show ?thesis using slices_32 [of "sha256 data"] by simp
qed

section \<open>Reference counting\<close>

datatype cas_op = CasInsert cas_hash hv_block_pointer | CasInc cas_hash | CasDec cas_hash | CasLookup cas_hash

primrec cas_apply :: "cas_op \<Rightarrow> cas_index \<Rightarrow> cas_index" where
  "cas_apply (CasInsert h bp) c = cas_insert h bp c"
| "cas_apply (CasInc h) c = snd (cas_ref_inc h c)"
| "cas_apply (CasDec h) c = snd (cas_ref_dec h c)"
| "cas_apply (CasLookup h) c = snd (cas_lookup h c)"

text \<open>The specification: per digest, the number of references and the inserted block pointers.\<close>

primrec ref_apply :: "cas_op \<Rightarrow> (cas_hash \<Rightarrow> nat \<times> hv_block_pointer list) \<Rightarrow> (cas_hash \<Rightarrow> nat \<times> hv_block_pointer list)" where
  "ref_apply (CasInsert h bp) s = s(h := (fst (s h) + 1, snd (s h) @ [bp]))"
| "ref_apply (CasInc h) s = s(h := (fst (s h) + 1, snd (s h)))"
| "ref_apply (CasDec h) s = s(h := (if fst (s h) \<le> 1 then (0, []) else (fst (s h) - 1, snd (s h))))"
| "ref_apply (CasLookup h) s = s"

definition cas_rel :: "nat \<Rightarrow> cas_index \<Rightarrow> (cas_hash \<Rightarrow> nat \<times> hv_block_pointer list) \<Rightarrow> bool" where
  "cas_rel k c s \<longleftrightarrow> bt_wf (hash_to_dva c) \<and> bt_wf (ref_counts c)
     \<and> (\<forall>h. fst (s h) \<le> k \<and> (fst (s h) = 0 \<longrightarrow> snd (s h) = [])
          \<and> bt_get (ref_counts c) h = (if fst (s h) = 0 then None else Some (word_of_nat (fst (s h))))
          \<and> bt_get (hash_to_dva c) h = (if snd (s h) = [] then None else Some (snd (s h))))"

lemma cas_rel_new: "cas_rel 0 cas_new (\<lambda>_. (0, []))"
  by (simp add: cas_rel_def cas_new_def)

lemma cas_rel_step:
  assumes rel: "cas_rel k c s" and k: "Suc k < 2 ^ 64"
  shows "cas_rel (Suc k) (cas_apply p c) (ref_apply p s)"
proof -
  have wf: "bt_wf (hash_to_dva c)" "bt_wf (ref_counts c)" using rel by (simp_all add: cas_rel_def)
  have get: "fst (s h) \<le> k" "fst (s h) = 0 \<Longrightarrow> snd (s h) = []"
    "bt_get (ref_counts c) h = (if fst (s h) = 0 then None else Some (word_of_nat (fst (s h))))"
    "bt_get (hash_to_dva c) h = (if snd (s h) = [] then None else Some (snd (s h)))" for h
    using rel by (simp_all add: cas_rel_def)
  have count: "entry_or 0 h (ref_counts c) + 1 = word_of_nat (fst (s h) + 1)"
    "entry_or [] h (hash_to_dva c) = snd (s h)" for h
    by (simp_all add: entry_or_def get)
  show ?thesis
  proof (cases p)
    case (CasInsert h bp)
    then show ?thesis using wf get le_SucI [OF get(1)]
      by (auto simp: cas_rel_def cas_insert_def bt_wf_insert bt_get_insert count)
  next
    case (CasInc h)
    then show ?thesis using wf get le_SucI [OF get(1)]
      by (auto simp: cas_rel_def cas_ref_inc_def Let_def bt_wf_insert bt_get_insert count)
  next
    case (CasLookup h)
    have "ref_counts (snd (cas_lookup h c)) = ref_counts c" "hash_to_dva (snd (cas_lookup h c)) = hash_to_dva c"
      by (auto simp: cas_lookup_def split: option.splits list.splits)
    with CasLookup show ?thesis using wf get le_SucI [OF get(1)] by (auto simp: cas_rel_def)
  next
    case (CasDec h)
    let ?n = "fst (s h)"
    have n: "unat (word_of_nat ?n :: u64) = ?n"
      using get(1) [of h] k by (intro unat_word_of_nat_small) simp
    have dec: "saturating_sub (word_of_nat ?n :: u64) 1 = word_of_nat (?n - 1)" if "0 < ?n"
      using that n by (simp add: saturating_sub_def word_less_nat_alt of_nat_diff)
    have zero: "(word_of_nat (?n - 1) :: u64) = 0 \<longleftrightarrow> ?n \<le> 1"
    proof -
      have "unat (word_of_nat (?n - 1) :: u64) = ?n - 1"
        using get(1) [of h] k by (intro unat_word_of_nat_small) simp
      then show ?thesis by (metis diff_is_0_eq unat_0 unsigned_eq_0_iff)
    qed
    consider "?n = 0" | "?n = 1" | "1 < ?n" by linarith
    then show ?thesis
    proof cases
      case 1
      then show ?thesis using CasDec wf get le_SucI [OF get(1)]
        by (auto simp: cas_rel_def cas_ref_dec_def)
    next
      case 2
      then show ?thesis using CasDec wf get le_SucI [OF get(1)] dec zero
        by (auto simp: cas_rel_def cas_ref_dec_def Let_def bt_wf_remove bt_get_remove)
    next
      case 3
      then have "snd (cas_ref_dec h c) = c\<lparr>ref_counts := bt_insert h (word_of_nat (?n - 1)) (ref_counts c)\<rparr>"
        using dec zero by (simp add: cas_ref_dec_def get(3) Let_def)
      with 3 show ?thesis using CasDec wf get le_SucI [OF get(1)]
        by (auto simp: cas_rel_def bt_wf_insert bt_get_insert intro: order_trans [OF diff_le_self])
    qed
  qed
qed

lemma cas_ops_rel:
  "cas_rel k c s \<Longrightarrow> k + length ps < 2 ^ 64 \<Longrightarrow>
     cas_rel (k + length ps) (fold cas_apply ps c) (fold ref_apply ps s)"
proof (induction ps arbitrary: k c s)
  case (Cons p ps)
  then show ?case using Cons.IH [OF cas_rel_step [OF Cons.prems(1), of p]] by simp
qed simp

text \<open>For every sequence of insertions, increments, decrements and lookups applied to a new index
  (fewer than \<open>2\<^sup>6\<^sup>4\<close>), the count of a digest is the number of its outstanding references, the digest is
  known as long as it has one, and a lookup finds the first block pointer that was inserted since
  the count was last zero, and nothing once the last reference is dropped.\<close>

theorem cas_counts_references:
  assumes "length ps < 2 ^ 64"
  defines "c \<equiv> fold cas_apply ps cas_new" and "s \<equiv> fold ref_apply ps (\<lambda>_. (0, []))"
  shows "unat (cas_ref_count h c) = fst (s h) \<and> cas_is_known h c = (0 < fst (s h))
    \<and> fst (cas_lookup h c) = (case snd (s h) of [] \<Rightarrow> None | bp # _ \<Rightarrow> Some bp)
    \<and> (fst (s h) = 0 \<longrightarrow> fst (cas_lookup h c) = None)"
proof -
  have rel: "cas_rel (length ps) c s"
    using cas_ops_rel [OF cas_rel_new, of ps] assms(1) by (simp add: c_def s_def)
  have "fst (s h) \<le> length ps" using rel by (simp add: cas_rel_def)
  then have "unat (word_of_nat (fst (s h)) :: u64) = fst (s h)"
    using assms(1) by (intro unat_word_of_nat_small) simp
  then show ?thesis
    using rel by (auto simp: cas_rel_def cas_ref_count_def entry_or_def cas_is_known_def bt_contains_def
        cas_lookup_def split: list.splits)
qed

theorem cas_counts_references_witness:
  "fst (cas_lookup [1] (fold cas_apply [CasInsert [1] bp_null, CasInc [1], CasDec [1]] cas_new)) = Some bp_null
    \<and> fst (cas_lookup [1] (fold cas_apply [CasInsert [1] bp_null, CasDec [1]] cas_new)) = None"
  using cas_counts_references [of "[CasInsert [1] bp_null, CasInc [1], CasDec [1]]" "[1]"]
    cas_counts_references [of "[CasInsert [1] bp_null, CasDec [1]]" "[1]"] by simp

text \<open>Freeing a digest that has no references also reports that its last reference is gone.\<close>

lemma free_unknown_reported:
  "\<not> cas_is_known h c \<Longrightarrow> cas_aware_free h c = (True, c)"
  by (auto simp: cas_aware_free_def cas_ref_dec_def cas_is_known_def bt_contains_def split: option.splits)

text \<open>A write of data whose digest is known returns the block pointer of the same digest and takes one
  more reference on it.\<close>

lemma cas_aware_write_hit:
  assumes "fst (cas_aware_write data txg obj c) = Some bp" "bt_wf (ref_counts c)"
  shows "fst (cas_lookup (sha256 data) c) = Some bp"
    and "cas_ref_count (sha256 data) (fst (snd (cas_aware_write data txg obj c)))
      = cas_ref_count (sha256 data) c + 1"
proof -
  have rc: "ref_counts (snd (cas_lookup h c)) = ref_counts c" for h
    by (auto simp: cas_lookup_def split: option.splits list.splits)
  show "fst (cas_lookup (sha256 data) c) = Some bp"
    using assms(1) by (auto simp: cas_aware_write_def dedup_sha256_eq Let_def split: prod.splits option.splits)
  then show "cas_ref_count (sha256 data) (fst (snd (cas_aware_write data txg obj c)))
      = cas_ref_count (sha256 data) c + 1"
    using assms(2) rc [of "sha256 data"]
    by (auto simp: cas_aware_write_def dedup_sha256_eq Let_def cas_ref_inc_def cas_ref_count_def entry_or_def
        bt_get_insert split: prod.splits option.splits)
qed

end
