(* ===== verification/Hv_Metaslab.thy ===== *)
theory Hv_Metaslab
  imports Prelude
begin

text \<open>
  The space allocator of HVFS (\<^verbatim>\<open>src/src/kernel/services/fs/hvfs/metaslab.rs\<close>): a metaslab is a
  region of a device divided into 4096-byte blocks, with a bitmap of the free blocks in 64-bit
  words (a set bit is a free block) and a first-fit search for a run of free blocks.  Block
  numbers run below \<^verbatim>\<open>max_block : u32\<close> and are naturals in the loops; sizes, offsets and counters
  are 64-bit words.  The theory shows that the search is complete and finds the lowest run, and
  that in every history of allocations and frees the live regions are disjoint, lie inside the
  metaslab, and the free-space counter is exact.
\<close>

definition HV_MS_BLOCK_SIZE :: u64 where
  "HV_MS_BLOCK_SIZE = 4096"

datatype hv_ms_state = MsUninit | MsActive | MsFull

record hv_metaslab =
  ms_id :: u32
  ms_vdev_id :: u16
  ms_start :: u64
  ms_size :: u64
  ms_state :: hv_ms_state
  ms_allocated :: u64
  ms_freed :: u64
  ms_space :: u64
  ms_free_space :: u64
  ms_bitmap :: "u64 list"
  ms_max_block :: u32
  ms_weight :: u64
  ms_loaded :: bool
  ms_condensing :: bool

definition ms_new :: "u32 \<Rightarrow> u16 \<Rightarrow> u64 \<Rightarrow> u64 \<Rightarrow> hv_metaslab" where
  "ms_new i vdev_id start sz =
     (let nblocks = ucast (sz div HV_MS_BLOCK_SIZE) :: u32;
          bitmap_len = (unat nblocks + 63) div 64
      in \<lparr>ms_id = i, ms_vdev_id = vdev_id, ms_start = start, ms_size = sz, ms_state = MsActive,
          ms_allocated = 0, ms_freed = 0, ms_space = sz, ms_free_space = sz,
          ms_bitmap = replicate bitmap_len (NOT 0), ms_max_block = nblocks, ms_weight = sz,
          ms_loaded = True, ms_condensing = False\<rparr>)"

definition get_bit :: "hv_metaslab \<Rightarrow> nat \<Rightarrow> bool" where
  "get_bit ms block =
     (let idx = block div 64; b = block mod 64
      in if length (ms_bitmap ms) \<le> idx then False
         else drop_bit b (ms_bitmap ms ! idx) AND 1 = 1)"

definition set_bit_at :: "nat \<Rightarrow> hv_metaslab \<Rightarrow> hv_metaslab" where
  "set_bit_at block ms =
     (let idx = block div 64; b = block mod 64
      in if idx < length (ms_bitmap ms)
         then ms\<lparr>ms_bitmap := (ms_bitmap ms)[idx := ms_bitmap ms ! idx OR push_bit b 1]\<rparr> else ms)"

definition clear_bit :: "nat \<Rightarrow> hv_metaslab \<Rightarrow> hv_metaslab" where
  "clear_bit block ms =
     (let idx = block div 64; b = block mod 64
      in if idx < length (ms_bitmap ms)
         then ms\<lparr>ms_bitmap := (ms_bitmap ms)[idx := ms_bitmap ms ! idx AND NOT (push_bit b 1)]\<rparr>
         else ms)"

definition update_weight :: "hv_metaslab \<Rightarrow> hv_metaslab" where
  "update_weight ms =
     (let free = ms_free_space ms
      in ms\<lparr>ms_weight := (if ms_size ms div 2 < free then free else free * 2)\<rparr>)"

text \<open>The loop of \<^verbatim>\<open>find_contiguous\<close> from block \<open>i\<close> on, with the length \<open>found\<close> and the start of the
  current run; the blocks still to be scanned are the last argument.\<close>

primrec find_contiguous_loop :: "hv_metaslab \<Rightarrow> nat \<Rightarrow> nat \<Rightarrow> nat \<Rightarrow> nat list \<Rightarrow> nat option" where
  "find_contiguous_loop ms nblocks found start [] = None"
| "find_contiguous_loop ms nblocks found start (i # is) =
     (if get_bit ms i then
        let start = (if found = 0 then i else start); found = found + 1
        in if nblocks \<le> found then Some start else find_contiguous_loop ms nblocks found start is
      else find_contiguous_loop ms nblocks 0 start is)"

definition find_contiguous :: "hv_metaslab \<Rightarrow> nat \<Rightarrow> nat option" where
  "find_contiguous ms nblocks = find_contiguous_loop ms nblocks 0 0 [0 ..< unat (ms_max_block ms)]"

definition ms_alloc :: "u64 \<Rightarrow> hv_metaslab \<Rightarrow> u64 option \<times> hv_metaslab" where
  "ms_alloc sz ms =
     (if sz = 0 \<or> ms_size ms < sz then (None, ms)
      else
        let nblocks = ucast (div_ceil sz HV_MS_BLOCK_SIZE) :: u32
        in if ms_max_block ms < nblocks then (None, ms)
           else case find_contiguous ms (unat nblocks) of
             None \<Rightarrow> (None, ms)
           | Some start \<Rightarrow>
               (let ms = fold clear_bit [start ..< start + unat nblocks] ms;
                    offset = ms_start ms + word_of_nat start * HV_MS_BLOCK_SIZE;
                    bytes = ucast nblocks * HV_MS_BLOCK_SIZE;
                    ms = ms\<lparr>ms_allocated := ms_allocated ms + bytes,
                            ms_free_space := ms_free_space ms - bytes\<rparr>
                in (Some offset, update_weight ms)))"

definition ms_free :: "u64 \<Rightarrow> u64 \<Rightarrow> hv_metaslab \<Rightarrow> hv_metaslab" where
  "ms_free offset sz ms =
     (let rel = saturating_sub offset (ms_start ms);
          start_block = ucast (rel div HV_MS_BLOCK_SIZE) :: u32;
          nblocks = ucast (div_ceil sz HV_MS_BLOCK_SIZE) :: u32;
          ms = fold (\<lambda>b ms. if b < unat (ms_max_block ms) then set_bit_at b ms else ms)
                 [unat start_block ..< unat (start_block + nblocks)] ms;
          bytes = ucast nblocks * HV_MS_BLOCK_SIZE
      in update_weight (ms\<lparr>ms_freed := ms_freed ms + bytes,
                          ms_free_space := ms_free_space ms + bytes\<rparr>))"

definition is_available :: "hv_metaslab \<Rightarrow> bool" where
  "is_available ms \<longleftrightarrow> ms_state ms = MsActive \<and> 0 < ms_free_space ms"

definition fragmentation :: "hv_metaslab \<Rightarrow> u8" where
  "fragmentation ms =
     (if ms_size ms = 0 then 0 else ucast (ms_free_space ms * 100 div ms_size ms))"

definition ms_sync :: "hv_metaslab \<Rightarrow> hv_metaslab" where
  "ms_sync ms = ms\<lparr>ms_state := (if ms_free_space ms = 0 then MsFull else MsActive)\<rparr>"

section \<open>The set of free blocks\<close>

definition free_blocks :: "hv_metaslab \<Rightarrow> nat set" where
  "free_blocks ms = {b. b < unat (ms_max_block ms) \<and> get_bit ms b}"

definition ms_wf :: "hv_metaslab \<Rightarrow> bool" where
  "ms_wf ms \<longleftrightarrow> unat (ms_max_block ms) \<le> 64 * length (ms_bitmap ms)
     \<and> unat (ms_max_block ms) = unat (ms_size ms) div 4096
     \<and> unat (ms_size ms) \<le> 2 ^ 44 - 4096 \<and> unat (ms_start ms) + unat (ms_size ms) < 2 ^ 64"

lemma get_bit_bit:
  "get_bit ms b \<longleftrightarrow> b div 64 < length (ms_bitmap ms) \<and> bit (ms_bitmap ms ! (b div 64)) (b mod 64)"
  by (auto simp: get_bit_def Let_def bit_iff_odd_drop_bit and_one_eq odd_iff_mod_2_eq_one)

lemma get_bit_frame [simp]:
  "get_bit (ms\<lparr>ms_allocated := a\<rparr>) = get_bit ms" "get_bit (ms\<lparr>ms_freed := a\<rparr>) = get_bit ms"
  "get_bit (ms\<lparr>ms_free_space := a\<rparr>) = get_bit ms" "get_bit (ms\<lparr>ms_weight := a\<rparr>) = get_bit ms"
  "get_bit (ms\<lparr>ms_state := st\<rparr>) = get_bit ms"
  by (simp_all add: get_bit_def fun_eq_iff)

lemma bit_select:
  "bit (w OR 2 ^ k) n \<longleftrightarrow> bit w n \<or> n = k \<and> k < 64"
  "bit (w AND NOT (2 ^ k)) n \<longleftrightarrow> bit w n \<and> n \<noteq> k" for w :: u64
  by (auto simp: bit_or_iff bit_and_iff bit_not_iff bit_exp_iff dest: bit_imp_le_length)

lemma block_eq_iff: "a = b \<longleftrightarrow> a div 64 = b div 64 \<and> a mod 64 = b mod 64" for a b :: nat
  by (metis div_mult_mod_eq)

lemma get_set_bit: "get_bit (set_bit_at k ms) b \<longleftrightarrow>
    get_bit ms b \<or> b = k \<and> k div 64 < length (ms_bitmap ms)"
  using block_eq_iff [of b k]
  by (auto simp: get_bit_bit set_bit_at_def Let_def bit_select nth_list_update)

lemma get_clear_bit: "get_bit (clear_bit k ms) b \<longleftrightarrow> get_bit ms b \<and> b \<noteq> k"
  using block_eq_iff [of b k]
  by (auto simp: get_bit_bit clear_bit_def Let_def bit_select nth_list_update)

lemma bit_updates_frame [simp]:
  "ms_max_block (set_bit_at k ms) = ms_max_block ms" "ms_size (set_bit_at k ms) = ms_size ms"
  "ms_start (set_bit_at k ms) = ms_start ms" "ms_free_space (set_bit_at k ms) = ms_free_space ms"
  "length (ms_bitmap (set_bit_at k ms)) = length (ms_bitmap ms)"
  "ms_max_block (clear_bit k ms) = ms_max_block ms" "ms_size (clear_bit k ms) = ms_size ms"
  "ms_start (clear_bit k ms) = ms_start ms" "ms_free_space (clear_bit k ms) = ms_free_space ms"
  "length (ms_bitmap (clear_bit k ms)) = length (ms_bitmap ms)"
  by (simp_all add: set_bit_at_def clear_bit_def Let_def)

lemma fold_clear_frame [simp]:
  "ms_max_block (fold clear_bit ks ms) = ms_max_block ms" "ms_size (fold clear_bit ks ms) = ms_size ms"
  "ms_start (fold clear_bit ks ms) = ms_start ms"
  "ms_free_space (fold clear_bit ks ms) = ms_free_space ms"
  "length (ms_bitmap (fold clear_bit ks ms)) = length (ms_bitmap ms)"
  by (induction ks arbitrary: ms) simp_all

lemma get_fold_clear: "get_bit (fold clear_bit ks ms) b \<longleftrightarrow> get_bit ms b \<and> b \<notin> set ks"
  by (induction ks arbitrary: ms) (auto simp: get_clear_bit)

abbreviation set_in_range :: "nat \<Rightarrow> hv_metaslab \<Rightarrow> hv_metaslab" where
  "set_in_range \<equiv> \<lambda>b ms. if b < unat (ms_max_block ms) then set_bit_at b ms else ms"

lemma fold_set_frame [simp]:
  "ms_max_block (fold set_in_range ks ms) = ms_max_block ms" "ms_size (fold set_in_range ks ms) = ms_size ms"
  "ms_start (fold set_in_range ks ms) = ms_start ms"
  "ms_free_space (fold set_in_range ks ms) = ms_free_space ms"
  "length (ms_bitmap (fold set_in_range ks ms)) = length (ms_bitmap ms)"
  by (induction ks arbitrary: ms) simp_all

lemma get_fold_set:
  "unat (ms_max_block ms) \<le> 64 * length (ms_bitmap ms) \<Longrightarrow>
   get_bit (fold set_in_range ks ms) b \<longleftrightarrow> get_bit ms b \<or> b \<in> set ks \<and> b < unat (ms_max_block ms)"
  by (induction ks arbitrary: ms) (auto simp: get_set_bit)

section \<open>The first-fit search\<close>

definition free_run :: "hv_metaslab \<Rightarrow> nat \<Rightarrow> nat \<Rightarrow> nat \<Rightarrow> bool" where
  "free_run ms m n s \<longleftrightarrow> s + n \<le> m \<and> (\<forall>b \<in> {s ..< s + n}. get_bit ms b)"

lemma find_contiguous_loop:
  assumes "0 < n" "found < n" "i \<le> m" "0 < found \<longrightarrow> start + found = i \<and> (\<forall>b \<in> {start ..< i}. get_bit ms b)"
    and "\<And>s. free_run ms m n s \<Longrightarrow> (if found = 0 then i else start) \<le> s"
  shows "case find_contiguous_loop ms n found start [i ..< m] of
      None \<Rightarrow> \<forall>s. \<not> free_run ms m n s
    | Some s \<Rightarrow> free_run ms m n s \<and> (\<forall>s'. free_run ms m n s' \<longrightarrow> s \<le> s')"
  using assms
proof (induction "m - i" arbitrary: i found start)
  case 0
  then have "i = m" by simp
  moreover have "\<not> free_run ms m n s" for s
  proof
    assume r: "free_run ms m n s"
    then have "s + n \<le> m" by (simp add: free_run_def)
    then show False using "0.prems"(1,2,4) "0.prems"(5) [OF r] \<open>i = m\<close> by (auto split: if_splits)
  qed
  ultimately show ?case by simp
next
  case (Suc k)
  then have im: "i < m" and scan: "[i ..< m] = i # [Suc i ..< m]" by (simp_all add: upt_conv_Cons)
  show ?case
  proof (cases "get_bit ms i")
    case True
    let ?st = "if found = 0 then i else start"
    have run: "?st + Suc found = Suc i" "\<forall>b \<in> {?st ..< Suc i}. get_bit ms b"
      using Suc.prems(4) True by (auto simp: less_Suc_eq)
    show ?thesis
    proof (cases "n \<le> Suc found")
      case False
      then show ?thesis
        using Suc.hyps(1) [of "Suc i" "Suc found" ?st] Suc.hyps(2) Suc.prems im run True
        by (simp add: scan Let_def)
    next
      case full: True
      then have "n = Suc found" using Suc.prems(2) by simp
      then have "free_run ms m n ?st" using run im by (auto simp: free_run_def)
      then show ?thesis using True full Suc.prems(5) by (simp add: scan Let_def)
    qed
  next
    case False
    have "Suc i \<le> s" if "free_run ms m n s" for s
    proof (rule ccontr)
      assume "\<not> Suc i \<le> s"
      then have "i \<in> {s ..< s + n}" using Suc.prems(1,2,4) Suc.prems(5) [OF that] by (auto split: if_splits)
      then show False using that False by (auto simp: free_run_def)
    qed
    then show ?thesis
      using Suc.hyps(1) [of "Suc i" 0 start] Suc.hyps(2) Suc.prems(1) im False by (simp add: scan)
  qed
qed

lemma find_contiguous:
  assumes "0 < n"
  shows "case find_contiguous ms n of
      None \<Rightarrow> \<forall>s. \<not> free_run ms (unat (ms_max_block ms)) n s
    | Some s \<Rightarrow> free_run ms (unat (ms_max_block ms)) n s
        \<and> (\<forall>s'. free_run ms (unat (ms_max_block ms)) n s' \<longrightarrow> s \<le> s')"
  using find_contiguous_loop [of n 0 0 "unat (ms_max_block ms)" 0 ms] assms
  by (simp add: find_contiguous_def)

lemma free_run_blocks:
  "free_run ms (unat (ms_max_block ms)) n s \<longleftrightarrow>
     s + n \<le> unat (ms_max_block ms) \<and> {s ..< s + n} \<subseteq> free_blocks ms"
  by (auto simp: free_run_def free_blocks_def)

section \<open>Blocks of a region\<close>

definition block_count :: "u64 \<Rightarrow> nat" where
  "block_count sz = (unat sz + 4095) div 4096"

definition region_blocks :: "hv_metaslab \<Rightarrow> u64 \<times> u64 \<Rightarrow> nat set" where
  "region_blocks ms r =
     (let s = (unat (fst r) - unat (ms_start ms)) div 4096 in {s ..< s + block_count (snd r)})"

lemma unat_div_ceil: "unat (div_ceil sz HV_MS_BLOCK_SIZE) = block_count sz"
proof -
  have "unat sz div 4096 < 2 ^ 64 - 1" using unat_bound [of sz] by simp
  then have "unat (sz div 4096 + 1) = unat sz div 4096 + 1"
    by (subst unat_add_1_bounded [where n = "2 ^ 64 - 1"]) (simp_all add: unat_div)
  moreover have "sz mod 4096 = 0 \<longleftrightarrow> unat sz mod 4096 = 0"
    by (simp add: unat_mod flip: unat_eq_zero)
  moreover have "(n + 4095) div 4096 = (if n mod 4096 = 0 then n div 4096 else n div 4096 + 1)" for n :: nat
  proof -
    obtain a b where n: "n = 4096 * a + b" "b < 4096"
      by (metis mult_div_mod_eq mod_less_divisor zero_less_numeral)
    then show ?thesis by (intro div_nat_eqI) auto
  qed
  ultimately show ?thesis
    by (auto simp: div_ceil_def HV_MS_BLOCK_SIZE_def block_count_def unat_div)
qed

lemma block_count_bounds:
  "4096 * block_count sz < unat sz + 4096" "unat sz \<le> 4096 * block_count sz" "0 < sz \<Longrightarrow> 0 < block_count sz"
proof -
  show "4096 * block_count sz < unat sz + 4096" "unat sz \<le> 4096 * block_count sz"
    unfolding block_count_def
    using div_mult_mod_eq [of "unat sz + 4095" 4096] mod_less_divisor [of 4096 "unat sz + 4095"]
    by linarith+
  show "0 < sz \<Longrightarrow> 0 < block_count sz"
    by (simp add: block_count_def word_less_nat_alt div_greater_zero_iff)
qed

lemma unat_nblocks:
  assumes "unat sz \<le> 2 ^ 44 - 4096"
  shows "unat (ucast (div_ceil sz HV_MS_BLOCK_SIZE) :: u32) = block_count sz"
proof -
  have "block_count sz < 2 ^ 32" using block_count_bounds(1) [of sz] assms by simp
  then show ?thesis by (simp add: unsigned_ucast_eq unat_div_ceil take_bit_nat_eq_self)
qed

lemma unat_bytes:
  "unat (ucast (n :: u32) * HV_MS_BLOCK_SIZE :: u64) = 4096 * unat n"
proof -
  have "unat n < 2 ^ 32" using unat_bound [of n] by simp
  moreover from this have "unat n < 2 ^ 64" by simp
  then have "unat (ucast n :: u64) = unat n" by (simp add: unsigned_ucast_eq take_bit_nat_eq_self)
  ultimately show ?thesis by (simp add: HV_MS_BLOCK_SIZE_def unat_word_ariths)
qed

lemma ms_alloc_SomeE:
  assumes wf: "ms_wf ms" and al: "ms_alloc sz ms = (Some off, ms')"
  obtains s where "unat off = unat (ms_start ms) + 4096 * s" "0 < sz" "sz \<le> ms_size ms"
    "free_run ms (unat (ms_max_block ms)) (block_count sz) s"
    "\<forall>s'. free_run ms (unat (ms_max_block ms)) (block_count sz) s' \<longrightarrow> s \<le> s'"
    "free_blocks ms' = free_blocks ms - {s ..< s + block_count sz}"
    "ms_free_space ms' = ms_free_space ms - word_of_nat (4096 * block_count sz)"
    "ms_start ms' = ms_start ms" "ms_size ms' = ms_size ms" "ms_max_block ms' = ms_max_block ms" "ms_wf ms'"
proof -
  let ?n = "ucast (div_ceil sz HV_MS_BLOCK_SIZE) :: u32"
  have guard: "0 < sz" "sz \<le> ms_size ms"
    using al by (auto simp: ms_alloc_def Let_def word_gt_0 split: if_splits)
  have n: "unat ?n = block_count sz"
    using unat_nblocks guard(2) wf by (simp add: ms_wf_def word_le_nat_alt)
  obtain s where s: "find_contiguous ms (block_count sz) = Some s"
    and ms': "ms' = update_weight (let m = fold clear_bit [s ..< s + block_count sz] ms;
        bytes = ucast ?n * HV_MS_BLOCK_SIZE in m\<lparr>ms_allocated := ms_allocated m + bytes,
          ms_free_space := ms_free_space m - bytes\<rparr>)"
    and off: "off = ms_start ms + word_of_nat s * HV_MS_BLOCK_SIZE"
    using al guard n by (auto simp: ms_alloc_def Let_def split: if_splits option.splits)
  have run: "free_run ms (unat (ms_max_block ms)) (block_count sz) s"
    "\<forall>s'. free_run ms (unat (ms_max_block ms)) (block_count sz) s' \<longrightarrow> s \<le> s'"
    using find_contiguous [of "block_count sz" ms] block_count_bounds(3) [OF guard(1)] s by auto
  have le: "s + block_count sz \<le> unat (ms_max_block ms)" using run(1) by (simp add: free_run_def)
  have "4096 * s < 2 ^ 64" "unat (ms_start ms) + 4096 * s < 2 ^ 64"
    using le wf by (auto simp: ms_wf_def)
  then have "unat off = unat (ms_start ms) + 4096 * s"
    by (simp add: off HV_MS_BLOCK_SIZE_def unat_word_ariths unat_of_nat mult.commute)
  moreover have "free_blocks ms' = free_blocks ms - {s ..< s + block_count sz}"
    by (auto simp: free_blocks_def ms' update_weight_def Let_def get_fold_clear)
  moreover have "ms_free_space ms' = ms_free_space ms - word_of_nat (4096 * block_count sz)"
  proof -
    have "ucast ?n * HV_MS_BLOCK_SIZE = (word_of_nat (4096 * block_count sz) :: u64)"
      using unat_bytes [of ?n] n by (metis of_nat_unat ucast_id)
    then show ?thesis by (simp add: ms' update_weight_def Let_def)
  qed
  moreover have "ms_start ms' = ms_start ms" "ms_size ms' = ms_size ms" "ms_max_block ms' = ms_max_block ms"
    "ms_wf ms'"
    using wf by (simp_all add: ms' update_weight_def Let_def ms_wf_def)
  ultimately show thesis using that guard run by blast
qed

lemma ms_alloc_None:
  assumes wf: "ms_wf ms" and al: "ms_alloc sz ms = (None, ms')"
  shows "ms' = ms" "0 < sz \<Longrightarrow> \<not> free_run ms (unat (ms_max_block ms)) (block_count sz) s"
proof -
  let ?n = "ucast (div_ceil sz HV_MS_BLOCK_SIZE) :: u32"
  show "ms' = ms" using al by (auto simp: ms_alloc_def Let_def split: if_splits option.splits)
  assume pos: "0 < sz"
  show "\<not> free_run ms (unat (ms_max_block ms)) (block_count sz) s"
  proof (cases "sz \<le> ms_size ms")
    case False
    then have "unat (ms_size ms) < 4096 * block_count sz"
      using block_count_bounds(2) [of sz] by (simp add: word_less_nat_alt not_le)
    then have "unat (ms_max_block ms) < block_count sz" using wf by (simp add: ms_wf_def)
    then show ?thesis by (simp add: free_run_def)
  next
    case True
    then have n: "unat ?n = block_count sz"
      using unat_nblocks wf by (simp add: ms_wf_def word_le_nat_alt)
    then consider "unat (ms_max_block ms) < block_count sz" | "find_contiguous ms (block_count sz) = None"
      using al pos True
      by (auto simp: ms_alloc_def Let_def word_less_nat_alt word_le_nat_alt split: if_splits option.splits)
    then show ?thesis
      using find_contiguous [of "block_count sz" ms] block_count_bounds(3) [OF pos]
      by cases (auto simp: free_run_def)
  qed
qed

lemma ms_free_region:
  assumes wf: "ms_wf ms" and sz: "unat sz \<le> 2 ^ 44 - 4096" "0 < sz"
    and inside: "region_blocks ms (off, sz) \<subseteq> {..< unat (ms_max_block ms)}"
  shows "free_blocks (ms_free off sz ms) = free_blocks ms \<union> region_blocks ms (off, sz)"
    and "ms_free_space (ms_free off sz ms) = ms_free_space ms + word_of_nat (4096 * block_count sz)"
    and "ms_start (ms_free off sz ms) = ms_start ms" "ms_size (ms_free off sz ms) = ms_size ms"
    and "ms_max_block (ms_free off sz ms) = ms_max_block ms" "ms_wf (ms_free off sz ms)"
proof -
  let ?n = "ucast (div_ceil sz HV_MS_BLOCK_SIZE) :: u32"
  let ?s = "(unat off - unat (ms_start ms)) div 4096"
  let ?b = "ucast (saturating_sub off (ms_start ms) div HV_MS_BLOCK_SIZE) :: u32"
  have n: "unat ?n = block_count sz" using sz(1) by (rule unat_nblocks)
  have "?s + (block_count sz - 1) \<in> region_blocks ms (off, sz)"
    using block_count_bounds(3) [OF sz(2)] by (simp add: region_blocks_def Let_def)
  then have le: "?s + block_count sz \<le> unat (ms_max_block ms)"
    using inside block_count_bounds(3) [OF sz(2)] by auto
  then have s32: "?s + block_count sz < 2 ^ 32" using unat_bound [of "ms_max_block ms"] by simp
  then have s: "unat ?b = ?s"
    by (simp add: unsigned_ucast_eq unat_div unat_saturating_sub HV_MS_BLOCK_SIZE_def take_bit_nat_eq_self)
  have e: "unat (?b + ?n) = ?s + block_count sz" using s32 by (simp add: unat_word_ariths s n)
  have bytes: "ucast ?n * HV_MS_BLOCK_SIZE = (word_of_nat (4096 * block_count sz) :: u64)"
    using unat_bytes [of ?n] n by (metis of_nat_unat ucast_id)
  let ?f = "fold set_in_range [?s ..< ?s + block_count sz] ms"
  have fr: "ms_free off sz ms = update_weight (?f\<lparr>ms_freed := ms_freed ?f + word_of_nat (4096 * block_count sz),
      ms_free_space := ms_free_space ?f + word_of_nat (4096 * block_count sz)\<rparr>)"
    by (simp only: ms_free_def Let_def s e bytes)
  have get: "get_bit ?f b \<longleftrightarrow> get_bit ms b \<or> b \<in> {?s ..< ?s + block_count sz} \<and> b < unat (ms_max_block ms)" for b
    using wf by (subst get_fold_set) (auto simp: ms_wf_def)
  show "free_blocks (ms_free off sz ms) = free_blocks ms \<union> region_blocks ms (off, sz)"
    using le by (auto simp: free_blocks_def fr update_weight_def Let_def get region_blocks_def)
  show "ms_free_space (ms_free off sz ms) = ms_free_space ms + word_of_nat (4096 * block_count sz)"
    "ms_start (ms_free off sz ms) = ms_start ms" "ms_size (ms_free off sz ms) = ms_size ms"
    "ms_max_block (ms_free off sz ms) = ms_max_block ms" "ms_wf (ms_free off sz ms)"
    using wf by (simp_all add: fr update_weight_def Let_def ms_wf_def)
qed

section \<open>Histories of a metaslab\<close>

text \<open>\<open>ms_run ms live\<close>: a metaslab that was created on a region of a device and then used by
  allocations, frees of regions that are live, and synchronisations; \<open>live\<close> is the set of regions
  (offset and requested size) that are allocated and not yet freed.\<close>

inductive ms_run :: "hv_metaslab \<Rightarrow> (u64 \<times> u64) set \<Rightarrow> bool" where
  new: "ms_run (ms_new i v start sz) {}"
    if "unat sz \<le> 2 ^ 44 - 4096" "unat start + unat sz < 2 ^ 64"
| alloc: "ms_run ms' (insert (off, sz) live)"
    if "ms_run ms live" "ms_alloc sz ms = (Some off, ms')"
| fail: "ms_run ms' live" if "ms_run ms live" "ms_alloc sz ms = (None, ms')"
| free: "ms_run (ms_free off sz ms) (live - {(off, sz)})" if "ms_run ms live" "(off, sz) \<in> live"
| sync: "ms_run (ms_sync ms) live" if "ms_run ms live"

definition ms_inv :: "hv_metaslab \<Rightarrow> (u64 \<times> u64) set \<Rightarrow> bool" where
  "ms_inv ms live \<longleftrightarrow> ms_wf ms \<and> finite live
     \<and> (\<forall>r \<in> live. 0 < snd r \<and> unat (snd r) \<le> unat (ms_size ms)
          \<and> region_blocks ms r \<subseteq> {..< unat (ms_max_block ms)}
          \<and> unat (ms_start ms) \<le> unat (fst r)
          \<and> unat (fst r) + unat (snd r) \<le> unat (ms_start ms) + unat (ms_size ms)
          \<and> 4096 dvd unat (fst r) - unat (ms_start ms))
     \<and> pairwise (\<lambda>r q. disjnt (region_blocks ms r) (region_blocks ms q)) live
     \<and> free_blocks ms = {..< unat (ms_max_block ms)} - (\<Union>r \<in> live. region_blocks ms r)
     \<and> unat (ms_free_space ms) = 4096 * card (free_blocks ms) + unat (ms_size ms) mod 4096"

lemma ms_inv_wf: "ms_inv ms live \<Longrightarrow> ms_wf ms"
  by (simp add: ms_inv_def)

lemma ms_inv_disjoint:
  "ms_inv ms live \<Longrightarrow> r \<in> live \<Longrightarrow> q \<in> live \<Longrightarrow> r \<noteq> q \<Longrightarrow> region_blocks ms r \<inter> region_blocks ms q = {}"
  by (simp add: ms_inv_def pairwise_def disjnt_def)

lemma free_blocks_new:
  assumes "unat sz \<le> 2 ^ 44 - 4096"
  shows "free_blocks (ms_new i v start sz) = {..< unat sz div 4096}"
    "unat (ms_max_block (ms_new i v start sz)) = unat sz div 4096"
proof -
  have "unat sz div 4096 < 2 ^ 32" using assms by simp
  then show max: "unat (ms_max_block (ms_new i v start sz)) = unat sz div 4096"
    by (simp add: ms_new_def Let_def HV_MS_BLOCK_SIZE_def unsigned_ucast_eq unat_div take_bit_nat_eq_self)
  have "get_bit (ms_new i v start sz) b" if "b < unat sz div 4096" for b
    using that max by (auto simp: get_bit_bit ms_new_def Let_def bit_not_iff)
  with max show "free_blocks (ms_new i v start sz) = {..< unat sz div 4096}"
    by (auto simp: free_blocks_def)
qed

lemma ms_inv_new:
  assumes "unat sz \<le> 2 ^ 44 - 4096" "unat start + unat sz < 2 ^ 64"
  shows "ms_inv (ms_new i v start sz) {}"
proof -
  have "ms_size (ms_new i v start sz) = sz" "ms_start (ms_new i v start sz) = start"
    "ms_free_space (ms_new i v start sz) = sz"
    "unat (ms_max_block (ms_new i v start sz)) \<le> 64 * length (ms_bitmap (ms_new i v start sz))"
    by (simp_all add: ms_new_def Let_def)
  with assms free_blocks_new [OF assms(1)] show ?thesis by (simp add: ms_inv_def ms_wf_def)
qed

lemma ms_inv_alloc:
  assumes inv: "ms_inv ms live" and al: "ms_alloc sz ms = (Some off, ms')"
  shows "ms_inv ms' (insert (off, sz) live)"
proof -
  have wf: "ms_wf ms" and mx: "unat (ms_max_block ms) = unat (ms_size ms) div 4096"
    using inv by (simp_all add: ms_inv_def ms_wf_def)
  obtain s where off: "unat off = unat (ms_start ms) + 4096 * s" and sz: "0 < sz" "sz \<le> ms_size ms"
    and run: "free_run ms (unat (ms_max_block ms)) (block_count sz) s"
    and fb: "free_blocks ms' = free_blocks ms - {s ..< s + block_count sz}"
    and fs: "ms_free_space ms' = ms_free_space ms - word_of_nat (4096 * block_count sz)"
    and fr: "ms_start ms' = ms_start ms" "ms_size ms' = ms_size ms" "ms_max_block ms' = ms_max_block ms"
    and wf': "ms_wf ms'"
    using ms_alloc_SomeE [OF wf al] by metis
  have reg: "region_blocks ms' r = region_blocks ms r" for r by (simp add: region_blocks_def fr)
  have new: "region_blocks ms (off, sz) = {s ..< s + block_count sz}"
    by (simp add: region_blocks_def Let_def off)
  have le: "s + block_count sz \<le> unat (ms_max_block ms)" and sub: "{s ..< s + block_count sz} \<subseteq> free_blocks ms"
    using run by (simp_all add: free_run_blocks)
  have fin: "finite (free_blocks ms)" using inv by (simp add: ms_inv_def)
  have card: "card (free_blocks ms') = card (free_blocks ms) - block_count sz"
    "block_count sz \<le> card (free_blocks ms)"
    using card_Diff_subset [OF _ sub] card_mono [OF fin sub] by (simp_all add: fb)
  have "4096 * (s + block_count sz) \<le> unat (ms_size ms)" using le mx by (simp add: less_eq_div_iff_mult_less_eq mult.commute)
  then have fit: "unat off + unat sz \<le> unat (ms_start ms) + unat (ms_size ms)"
    using off block_count_bounds(2) [of sz] by simp
  have "unat (ms_free_space ms') = unat (ms_free_space ms) - 4096 * block_count sz"
  proof -
    have "4096 * block_count sz \<le> unat (ms_free_space ms)" using inv card(2) by (simp add: ms_inv_def)
    moreover from this have "unat (word_of_nat (4096 * block_count sz) :: u64) = 4096 * block_count sz"
      using unat_bound [of "ms_free_space ms"] by (subst unat_of_nat) simp
    ultimately show ?thesis by (simp add: fs unat_sub_if')
  qed
  then have "unat (ms_free_space ms') = 4096 * card (free_blocks ms') + unat (ms_size ms') mod 4096"
    using inv card by (simp add: ms_inv_def fr diff_mult_distrib2)
  moreover have "disjnt {s ..< s + block_count sz} (region_blocks ms r)" if "r \<in> live" for r
    using sub inv that by (auto simp: ms_inv_def disjnt_def)
  ultimately show ?thesis
    using inv wf' le fit sz off
    by (auto simp: ms_inv_def reg new fr fb pairwise_insert disjnt_sym word_le_nat_alt)
qed

lemma ms_inv_free:
  assumes inv: "ms_inv ms live" and r: "(off, sz) \<in> live"
  shows "ms_inv (ms_free off sz ms) (live - {(off, sz)})"
proof -
  let ?m = "ms_free off sz ms" and ?R = "region_blocks ms (off, sz)"
  have wf: "ms_wf ms" and size_le: "unat (ms_size ms) \<le> 2 ^ 44 - 4096"
    and mx: "unat (ms_max_block ms) = unat (ms_size ms) div 4096"
    using inv by (simp_all add: ms_inv_def ms_wf_def)
  have sz: "0 < sz" "unat sz \<le> 2 ^ 44 - 4096" and inside: "?R \<subseteq> {..< unat (ms_max_block ms)}"
    using inv r size_le by (auto simp: ms_inv_def)
  note fr = ms_free_region [OF wf sz(2) sz(1) inside]
  have reg: "region_blocks ?m q = region_blocks ms q" for q by (simp add: region_blocks_def fr)
  have dis: "?R \<inter> region_blocks ms q = {}" if "q \<in> live - {(off, sz)}" for q
    using ms_inv_disjoint [OF inv r] that by blast
  have fb: "free_blocks ?m = {..< unat (ms_max_block ms)} - (\<Union>q \<in> live - {(off, sz)}. region_blocks ms q)"
    using inv r inside dis by (auto simp: ms_inv_def fr)
  have "free_blocks ms \<inter> ?R = {}" using inv r by (auto simp: ms_inv_def)
  moreover have "finite (free_blocks ms)" "finite ?R"
    using inv inside by (auto simp: ms_inv_def intro: finite_subset)
  ultimately have card: "card (free_blocks ?m) = card (free_blocks ms) + block_count sz"
    by (simp add: fr card_Un_disjoint) (simp add: region_blocks_def Let_def)
  have "card (free_blocks ?m) \<le> unat (ms_max_block ms)"
    using card_mono [of "{..< unat (ms_max_block ms)}" "free_blocks ?m"] fb by auto
  then have "4096 * card (free_blocks ?m) + unat (ms_size ms) mod 4096 \<le> unat (ms_size ms)"
    using mx div_mult_mod_eq [of "unat (ms_size ms)" 4096] by linarith
  then have small: "4096 * card (free_blocks ?m) + unat (ms_size ms) mod 4096 < 2 ^ 64"
    using size_le by simp
  then have "unat (ms_free_space ?m) = unat (ms_free_space ms) + 4096 * block_count sz"
    using inv card by (simp add: fr ms_inv_def unat_word_ariths unat_of_nat)
  then have "unat (ms_free_space ?m) = 4096 * card (free_blocks ?m) + unat (ms_size ?m) mod 4096"
    using inv card by (simp add: ms_inv_def fr(4))
  moreover have "pairwise (\<lambda>r q. disjnt (region_blocks ms r) (region_blocks ms q)) (live - {(off, sz)})"
    using inv by (auto simp: ms_inv_def intro: pairwise_subset)
  ultimately show ?thesis
    using inv fr(6) fb by (auto simp: ms_inv_def reg fr(3,4,5))
qed

lemma ms_inv_sync: "ms_inv ms live \<Longrightarrow> ms_inv (ms_sync ms) live"
proof -
  have "ms_wf (ms_sync ms) = ms_wf ms" "free_blocks (ms_sync ms) = free_blocks ms"
    "region_blocks (ms_sync ms) r = region_blocks ms r" "ms_size (ms_sync ms) = ms_size ms"
    "ms_max_block (ms_sync ms) = ms_max_block ms" "ms_start (ms_sync ms) = ms_start ms"
    "ms_free_space (ms_sync ms) = ms_free_space ms" for r
    by (simp_all add: ms_sync_def ms_wf_def free_blocks_def region_blocks_def)
  then show "ms_inv ms live \<Longrightarrow> ms_inv (ms_sync ms) live" by (simp add: ms_inv_def)
qed

lemma ms_run_inv: "ms_run ms live \<Longrightarrow> ms_inv ms live"
proof (induction rule: ms_run.induct)
  case (fail ms live sz ms')
  then show ?case using ms_alloc_None(1) [OF ms_inv_wf] by metis
qed (simp_all add: ms_inv_new ms_inv_alloc ms_inv_free ms_inv_sync)

lemma region_bytes:
  assumes "4096 dvd unat off - unat (ms_start ms)" "unat (ms_start ms) \<le> unat off"
    and "x \<in> {unat off ..< unat off + unat sz}"
  shows "(x - unat (ms_start ms)) div 4096 \<in> region_blocks ms (off, sz)"
proof -
  obtain k where k: "unat off = unat (ms_start ms) + 4096 * k"
    using assms(1,2) by (metis dvd_def le_add_diff_inverse)
  then obtain j where j: "x = unat (ms_start ms) + (4096 * k + j)" "j < unat sz"
    using assms(3) by (auto simp: nat_le_iff_add add.assoc)
  then have "j < 4096 * block_count sz" using block_count_bounds(2) [of sz] by simp
  then have "j div 4096 < block_count sz" by (simp add: less_mult_imp_div_less mult.commute)
  then show ?thesis by (simp add: region_blocks_def Let_def k j(1))
qed

lemma ms_run_disjoint:
  assumes "ms_run ms live" "r \<in> live" "q \<in> live" "r \<noteq> q"
  shows "{unat (fst r) ..< unat (fst r) + unat (snd r)} \<inter> {unat (fst q) ..< unat (fst q) + unat (snd q)} = {}"
proof -
  note inv = ms_run_inv [OF assms(1)]
  have dis: "region_blocks ms r \<inter> region_blocks ms q = {}"
    using ms_inv_disjoint [OF inv] assms(2-4) by blast
  have "x \<notin> {unat (fst q) ..< unat (fst q) + unat (snd q)}"
    if "x \<in> {unat (fst r) ..< unat (fst r) + unat (snd r)}" for x
    using that dis region_bytes [of "fst r" ms x "snd r"] region_bytes [of "fst q" ms x "snd q"] inv assms(2,3)
    by (auto simp: ms_inv_def)
  then show ?thesis by blast
qed

lemma ms_run_inside:
  assumes "ms_run ms live" "r \<in> live"
  shows "unat (ms_start ms) \<le> unat (fst r)" "0 < snd r" "snd r \<le> ms_size ms"
    "unat (fst r) + unat (snd r) \<le> unat (ms_start ms) + unat (ms_size ms)"
    "4096 dvd unat (fst r) - unat (ms_start ms)"
  using ms_run_inv [OF assms(1)] assms(2) by (auto simp: ms_inv_def word_le_nat_alt)

text \<open>In every history of a metaslab, the live regions are inside the metaslab, no two of
  them share a byte, and the free-space counter is the size of the blocks that belong to no live
  region plus the unusable tail below one block.\<close>

theorem metaslab_regions_disjoint:
  assumes "ms_run ms live" "r \<in> live" "q \<in> live" "r \<noteq> q"
  shows "{unat (fst r) ..< unat (fst r) + unat (snd r)} \<inter> {unat (fst q) ..< unat (fst q) + unat (snd q)} = {}
    \<and> unat (ms_start ms) \<le> unat (fst r)
    \<and> unat (fst r) + unat (snd r) \<le> unat (ms_start ms) + unat (ms_size ms)
    \<and> unat (ms_free_space ms) = 4096 * (unat (ms_size ms) div 4096 - card (\<Union>p \<in> live. region_blocks ms p))
        + unat (ms_size ms) mod 4096"
proof -
  note inv = ms_run_inv [OF assms(1)]
  let ?U = "\<Union>p \<in> live. region_blocks ms p"
  have "?U \<subseteq> {..< unat (ms_max_block ms)}" using inv by (auto simp: ms_inv_def)
  then have "card (free_blocks ms) = unat (ms_max_block ms) - card ?U"
    using inv card_Diff_subset [of ?U "{..< unat (ms_max_block ms)}"]
    by (auto simp: ms_inv_def intro: finite_subset)
  with ms_run_disjoint [OF assms] show ?thesis using inv assms(2) by (auto simp: ms_inv_def ms_wf_def)
qed

text \<open>The first-fit search is exact: an allocation of a nonzero size within the metaslab
  returns the lowest run of enough free blocks and fails only when there is none.\<close>

theorem ms_alloc_first_fit:
  assumes "ms_run ms live" "0 < sz"
  shows "case ms_alloc sz ms of
      (None, ms') \<Rightarrow> ms' = ms \<and> (\<forall>s. \<not> free_run ms (unat (ms_max_block ms)) (block_count sz) s)
    | (Some off, ms') \<Rightarrow> \<exists>s. unat off = unat (ms_start ms) + 4096 * s
        \<and> free_run ms (unat (ms_max_block ms)) (block_count sz) s
        \<and> (\<forall>s' < s. \<not> free_run ms (unat (ms_max_block ms)) (block_count sz) s')
        \<and> free_blocks ms' = free_blocks ms - {s ..< s + block_count sz}"
proof -
  have wf: "ms_wf ms" using ms_run_inv [OF assms(1)] by (simp add: ms_inv_def)
  obtain o' ms' where al: "ms_alloc sz ms = (o', ms')" by force
  show ?thesis
  proof (cases o')
    case None
    with al ms_alloc_None [OF wf, of sz ms'] assms(2) show ?thesis by simp
  next
    case (Some off)
    with al obtain s where "unat off = unat (ms_start ms) + 4096 * s"
      "free_run ms (unat (ms_max_block ms)) (block_count sz) s"
      "\<forall>s'. free_run ms (unat (ms_max_block ms)) (block_count sz) s' \<longrightarrow> s \<le> s'"
      "free_blocks ms' = free_blocks ms - {s ..< s + block_count sz}"
      using ms_alloc_SomeE [OF wf, of sz off ms'] by metis
    with al Some show ?thesis by (auto simp: not_less)
  qed
qed

definition sample_ms1 :: hv_metaslab where
  "sample_ms1 = snd (ms_alloc 5000 (ms_new 0 1 262144 16384))"

definition sample_ms2 :: hv_metaslab where
  "sample_ms2 = snd (ms_alloc 4096 sample_ms1)"

lemma sample_ms:
  "ms_alloc 5000 (ms_new 0 1 262144 16384) = (Some 262144, sample_ms1)"
  "ms_alloc 4096 sample_ms1 = (Some 270336, sample_ms2)"
  "fst (ms_alloc 4097 sample_ms2) = None"
  by code_simp+

lemma sample_ms_run: "ms_run sample_ms2 {(270336, 4096), (262144, 5000)}"
proof -
  have "ms_run (ms_new 0 1 262144 16384) {}" by (rule ms_run.new) simp_all
  from ms_run.alloc [OF ms_run.alloc [OF this sample_ms(1)] sample_ms(2)] show ?thesis .
qed

theorem metaslab_regions_disjoint_witness:
  "{270336 ..< 270336 + 4096} \<inter> {262144 ..< 262144 + 5000 :: nat} = {} \<and> unat (ms_start sample_ms2) \<le> 270336"
  using metaslab_regions_disjoint [OF sample_ms_run, of "(270336, 4096)" "(262144, 5000)"] by simp

theorem ms_alloc_first_fit_witness:
  "\<not> free_run sample_ms2 (unat (ms_max_block sample_ms2)) 2 0"
proof -
  have "block_count 4097 = 2" by (simp add: block_count_def)
  with ms_alloc_first_fit [OF sample_ms_run, of 4097] sample_ms(3) show ?thesis
    by (auto split: prod.splits option.splits)
qed

end
