(* ===== verification/Hv_Vdev.thy ===== *)
theory Hv_Vdev
  imports Prelude
begin

text \<open>
  Virtual devices of HVFS (\<^verbatim>\<open>src/src/kernel/services/fs/hvfs/vdev.rs\<close>).  The block layer below
  (\<^verbatim>\<open>block::hdd_read_sector\<close>, \<^verbatim>\<open>hdd_write_sector\<close>) drives hardware; here it is a map from drive and
  sector to 512 bytes, absent where the device has no such sector, and an access to an absent sector
  returns the negative code \<open>err\<close> of the driver.  The lemmas show that the sector loops read and write
  exactly the sectors of a request and that reading returns what was written.
\<close>

datatype hv_vdev_state = VdUnknown | VdClosed | VdOffline | VdRemoved | VdCantOpen | VdFaulted | VdDegraded | VdHealthy

record hv_vdev_config =
  vc_vdev_id :: u16
  vc_vdev_type :: u8
  vc_guid :: u64
  vc_path :: "u8 list"
  vc_ashift :: u8
  vc_asize :: u64
  vc_nparity :: u8
  vc_children :: u16
  vc_is_log :: bool
  vc_sector_count :: u64
  vc_partition_start :: u32

record hv_vdev =
  vd_config :: hv_vdev_config
  vd_state :: hv_vdev_state
  vd_parent_id :: "u16 option"
  vd_child_ids :: "u16 list"
  vd_ms_count :: u32
  vd_ms_active :: u32
  vd_initializing :: bool
  vd_trim_supported :: bool
  vd_total_reads :: u64
  vd_total_writes :: u64

definition HV_VDEV_ASIZE_DEFAULT :: u64 where
  "HV_VDEV_ASIZE_DEFAULT = 32 * 1024 * 1024"

definition vd_state_from_u8 :: "u8 \<Rightarrow> hv_vdev_state" where
  "vd_state_from_u8 v =
     (if v = 1 then VdClosed else if v = 2 then VdOffline else if v = 3 then VdRemoved
      else if v = 4 then VdCantOpen else if v = 5 then VdFaulted else if v = 6 then VdDegraded
      else if v = 7 then VdHealthy else VdUnknown)"

definition new_disk :: "u16 \<Rightarrow> u8 list \<Rightarrow> u8 \<Rightarrow> hv_vdev_config" where
  "new_disk vdev_id path ashift =
     (let len = min (length path) 63
      in \<lparr>vc_vdev_id = vdev_id, vc_vdev_type = 0, vc_guid = 0,
          vc_path = take len path @ replicate (64 - len) 0, vc_ashift = ashift,
          vc_asize = HV_VDEV_ASIZE_DEFAULT, vc_nparity = 0, vc_children = 1, vc_is_log = False,
          vc_sector_count = 0, vc_partition_start = 0\<rparr>)"

definition vdev_new :: "hv_vdev_config \<Rightarrow> hv_vdev" where
  "vdev_new config = \<lparr>vd_config = config, vd_state = VdClosed, vd_parent_id = None, vd_child_ids = [],
     vd_ms_count = 0, vd_ms_active = 0, vd_initializing = False, vd_trim_supported = False,
     vd_total_reads = 0, vd_total_writes = 0\<rparr>"

definition vd_is_healthy :: "hv_vdev \<Rightarrow> bool" where
  "vd_is_healthy v \<longleftrightarrow> vd_state v = VdHealthy"

definition vd_is_available :: "hv_vdev \<Rightarrow> bool" where
  "vd_is_available v \<longleftrightarrow> vd_state v = VdHealthy \<or> vd_state v = VdDegraded"

section \<open>The size of a disk\<close>

text \<open>\<open>readable s\<close>: \<^verbatim>\<open>hdd_read_sector\<close> of sector \<open>s\<close> does not fail.  The bounds of the search stay
  below \<open>2\<^sup>1\<^sup>6\<close>, so they are naturals.\<close>

function probe_loop :: "(nat \<Rightarrow> bool) \<Rightarrow> nat \<Rightarrow> nat \<Rightarrow> nat" where
  "probe_loop readable lo hi =
     (if lo < hi then
        let mid = lo + (hi - lo) div 2
        in if readable mid then probe_loop readable (mid + 1) hi else probe_loop readable lo mid
      else lo)"
  by pat_completeness auto
termination by (relation "measure (\<lambda>(r, lo, hi). hi - lo)") auto

declare probe_loop.simps [simp del]

definition probe_disk_size :: "bool \<Rightarrow> u64 \<Rightarrow> (nat \<Rightarrow> bool) \<Rightarrow> u64" where
  "probe_disk_size present total_sectors readable =
     (if \<not> present then 0
      else if 0 < total_sectors then total_sectors * 512
      else
        let lo = probe_loop readable 0 0xFFFF
        in if lo = 0 then HV_VDEV_ASIZE_DEFAULT
           else let detected = word_of_nat lo * 512
                in if 0 < detected then detected else HV_VDEV_ASIZE_DEFAULT)"

definition vdev_open :: "bool \<Rightarrow> u64 \<Rightarrow> (nat \<Rightarrow> bool) \<Rightarrow> hv_vdev \<Rightarrow> hv_vdev" where
  "vdev_open present total_sectors readable v =
     (if vc_vdev_type (vd_config v) = 0 then
        if present then
          let v = v\<lparr>vd_state := VdHealthy\<rparr>;
              c = vd_config v;
              c = (if vc_asize c = 0 then c\<lparr>vc_asize := probe_disk_size present total_sectors readable\<rparr> else c);
              c = (if 0 < vc_asize c then c\<lparr>vc_sector_count := vc_asize c div 512\<rparr> else c)
          in v\<lparr>vd_config := c\<rparr>
        else v\<lparr>vd_state := VdCantOpen\<rparr>
      else v)"

lemma probe_loop_least:
  assumes "lo \<le> n" "n \<le> hi" "\<And>s. s < n \<Longrightarrow> readable s" "\<And>s. n \<le> s \<Longrightarrow> s < hi \<Longrightarrow> \<not> readable s"
  shows "probe_loop readable lo hi = n"
  using assms
proof (induction readable lo hi rule: probe_loop.induct)
  case (1 readable lo hi)
  show ?case
  proof (cases "lo < hi")
    case False
    then show ?thesis using "1.prems" by (simp add: probe_loop.simps [of readable lo hi])
  next
    case True
    define mid where "mid = lo + (hi - lo) div 2"
    have mid: "lo \<le> mid" "mid < hi" using True by (auto simp: mid_def)
    show ?thesis
    proof (cases "readable mid")
      case yes: True
      then have "mid < n" using "1.prems"(4) [of mid] mid by (meson not_le)
      then show ?thesis
        using "1.IH"(1) [OF True mid_def yes] "1.prems" True yes
        by (simp add: probe_loop.simps [of readable lo hi] Let_def flip: mid_def)
    next
      case no: False
      then have "n \<le> mid" using "1.prems"(3) by (meson not_le)
      then show ?thesis
        using "1.IH"(2) [OF True mid_def no] "1.prems" True no mid
        by (simp add: probe_loop.simps [of readable lo hi] Let_def flip: mid_def)
    qed
  qed
qed

text \<open>The probe of a disk whose first \<open>n\<close> sectors are readable finds exactly that size.\<close>

lemma probe_disk_size:
  assumes "0 < n" "n \<le> 0xFFFF"
  shows "probe_disk_size True 0 (\<lambda>s. s < n) = word_of_nat (n * 512)"
proof -
  have l: "probe_loop (\<lambda>s. s < n) 0 0xFFFF = n"
    using assms by (intro probe_loop_least) auto
  have "unat (word_of_nat n * 512 :: u64) = n * 512"
    using assms(2) by (simp add: unat_word_ariths unat_of_nat)
  then have "0 < (word_of_nat n * 512 :: u64)" using assms(1) by (simp add: word_less_nat_alt)
  with l assms(1) show ?thesis by (simp add: probe_disk_size_def Let_def)
qed

section \<open>Sectors\<close>

type_synonym disk = "u8 \<Rightarrow> u64 \<Rightarrow> u8 list option"

definition VD_EINVAL :: i32 where
  "VD_EINVAL = - 22"

primrec read_loop :: "disk \<Rightarrow> i32 \<Rightarrow> u8 \<Rightarrow> u64 \<Rightarrow> nat \<Rightarrow> u64 \<Rightarrow> nat \<Rightarrow> u8 list \<Rightarrow> i32 option \<times> u8 list" where
  "read_loop d err drive part_start 0 sec offset buf = (None, buf)"
| "read_loop d err drive part_start (Suc n) sec offset buf =
     (if length buf < offset + 512 then (None, buf)
      else case d drive (part_start + sec) of
        None \<Rightarrow> (Some err, buf)
      | Some bytes \<Rightarrow>
          read_loop d err drive part_start n (sec + 1) (offset + 512)
            (take offset buf @ bytes @ drop (offset + 512) buf))"

definition read_sectors :: "disk \<Rightarrow> i32 \<Rightarrow> u64 \<Rightarrow> u32 \<Rightarrow> u8 list \<Rightarrow> hv_vdev \<Rightarrow> i32 \<times> u8 list \<times> hv_vdev" where
  "read_sectors d err sector count buf v =
     (if length buf < unat count * 512 then (VD_EINVAL, buf, v)
      else case read_loop d err (ucast (vc_vdev_id (vd_config v))) (ucast (vc_partition_start (vd_config v)))
                  (unat count) sector 0 buf of
        (Some result, buf) \<Rightarrow> (result, buf, v)
      | (None, buf) \<Rightarrow> (0, buf, v\<lparr>vd_total_reads := vd_total_reads v + 1\<rparr>))"

definition put_sector :: "u8 \<Rightarrow> u64 \<Rightarrow> u8 list \<Rightarrow> disk \<Rightarrow> disk" where
  "put_sector drive sec bytes d = d(drive := (d drive)(sec \<mapsto> bytes))"

primrec write_loop :: "i32 \<Rightarrow> u8 \<Rightarrow> u64 \<Rightarrow> u8 list \<Rightarrow> nat \<Rightarrow> u64 \<Rightarrow> nat \<Rightarrow> disk \<Rightarrow> i32 option \<times> disk" where
  "write_loop err drive part_start buf 0 sec offset d = (None, d)"
| "write_loop err drive part_start buf (Suc n) sec offset d =
     (if length buf < offset + 512 then (None, d)
      else case d drive (part_start + sec) of
        None \<Rightarrow> (Some err, d)
      | Some _ \<Rightarrow>
          write_loop err drive part_start buf n (sec + 1) (offset + 512)
            (put_sector drive (part_start + sec) (take 512 (drop offset buf)) d))"

definition write_sectors :: "i32 \<Rightarrow> u64 \<Rightarrow> u32 \<Rightarrow> u8 list \<Rightarrow> disk \<Rightarrow> hv_vdev \<Rightarrow> i32 \<times> disk \<times> hv_vdev" where
  "write_sectors err sector count buf d v =
     (if length buf < unat count * 512 then (VD_EINVAL, d, v)
      else case write_loop err (ucast (vc_vdev_id (vd_config v))) (ucast (vc_partition_start (vd_config v)))
                  buf (unat count) sector 0 d of
        (Some result, d) \<Rightarrow> (result, d, v)
      | (None, d) \<Rightarrow> (0, d, v\<lparr>vd_total_writes := vd_total_writes v + 1\<rparr>))"

section \<open>Reading back what was written\<close>

definition disk_ok :: "disk \<Rightarrow> bool" where
  "disk_ok d \<longleftrightarrow> (\<forall>dr s bytes. d dr s = Some bytes \<longrightarrow> length bytes = 512)"

text \<open>The request \<open>(sec, n)\<close> lies on the device and its sector numbers do not wrap around.\<close>

definition sectors_present :: "disk \<Rightarrow> u8 \<Rightarrow> u64 \<Rightarrow> nat \<Rightarrow> bool" where
  "sectors_present d drive first n \<longleftrightarrow> unat first + n < 2 ^ 64 \<and> (\<forall>i < n. d drive (first + word_of_nat i) \<noteq> None)"

definition disk_bytes :: "disk \<Rightarrow> u8 \<Rightarrow> u64 \<Rightarrow> nat \<Rightarrow> u8 list" where
  "disk_bytes d drive first n = concat (map (\<lambda>i. the (d drive (first + word_of_nat i))) [0 ..< n])"

lemma disk_bytes_Suc: "disk_bytes d drive first (Suc n) = the (d drive first) @ disk_bytes d drive (first + 1) n"
proof -
  have "[0 ..< Suc n] = 0 # map Suc [0 ..< n]" by (simp add: map_Suc_upt upt_conv_Cons del: upt_Suc)
  then show ?thesis by (simp add: disk_bytes_def o_def add.assoc del: upt_Suc)
qed

lemma sectors_present_Suc:
  "sectors_present d drive first (Suc n) \<Longrightarrow> d drive first \<noteq> None \<and> sectors_present d drive (first + 1) n"
proof -
  assume a: "sectors_present d drive first (Suc n)"
  then have "unat (first + 1) = unat first + 1"
    by (simp add: sectors_present_def unat_word_ariths)
  moreover have "d drive (first + 1 + word_of_nat i) \<noteq> None" if "i < n" for i
    using a that by (auto simp: sectors_present_def dest!: spec [of _ "Suc i"] simp: add.assoc)
  moreover have "d drive first \<noteq> None" using a by (auto simp: sectors_present_def dest!: spec [of _ 0])
  ultimately show ?thesis using a by (simp add: sectors_present_def)
qed

lemma length_disk_bytes:
  "disk_ok d \<Longrightarrow> sectors_present d drive first n \<Longrightarrow> length (disk_bytes d drive first n) = 512 * n"
proof (induction n arbitrary: first)
  case (Suc n)
  then have "d drive first \<noteq> None" "sectors_present d drive (first + 1) n"
    using sectors_present_Suc by blast+
  with Suc show ?case by (auto simp: disk_bytes_Suc disk_ok_def)
qed (simp add: disk_bytes_def)

lemma read_loop_bytes:
  assumes "disk_ok d" "sectors_present d drive (p + sec) n" "offset + 512 * n \<le> length buf"
  shows "read_loop d err drive p n sec offset buf
    = (None, take offset buf @ disk_bytes d drive (p + sec) n @ drop (offset + 512 * n) buf)"
  using assms
proof (induction n arbitrary: sec offset buf)
  case 0
  then show ?case by (simp add: disk_bytes_def)
next
  case (Suc n)
  obtain bs where bs: "d drive (p + sec) = Some bs" and rest: "sectors_present d drive (p + (sec + 1)) n"
    using sectors_present_Suc [OF Suc.prems(2)] by (auto simp: add.assoc)
  have len: "length bs = 512" using Suc.prems(1) bs by (simp add: disk_ok_def)
  let ?b = "take offset buf @ bs @ drop (offset + 512) buf"
  have "read_loop d err drive p (Suc n) sec offset buf = read_loop d err drive p n (sec + 1) (offset + 512) ?b"
    using Suc.prems(3) bs by simp
  also have "\<dots> = (None, take (offset + 512) ?b @ disk_bytes d drive (p + (sec + 1)) n
      @ drop (offset + 512 + 512 * n) ?b)"
    using Suc.IH [OF Suc.prems(1) rest, of "offset + 512" ?b] Suc.prems(3) len by simp
  also have "\<dots> = (None, take offset buf @ disk_bytes d drive (p + sec) (Suc n) @ drop (offset + 512 * Suc n) buf)"
    using Suc.prems(3) len bs by (simp add: disk_bytes_Suc ac_simps)
  finally show ?case .
qed

definition sector_span :: "u64 \<Rightarrow> nat \<Rightarrow> u64 set" where
  "sector_span first n = {s. unat first \<le> unat s \<and> unat s < unat first + n}"

lemma sector_span_Suc:
  assumes "unat first + Suc n < 2 ^ 64"
  shows "sector_span first (Suc n) = insert first (sector_span (first + 1) n)" "first \<notin> sector_span (first + 1) n"
proof -
  have "unat (first + 1) = unat first + 1" using assms by (simp add: unat_word_ariths)
  then show "sector_span first (Suc n) = insert first (sector_span (first + 1) n)"
    "first \<notin> sector_span (first + 1) n"
    by (auto simp: sector_span_def word_eq_iff_unsigned [where ?'a = nat])
qed

lemma disk_bytes_cong:
  assumes "unat first + n < 2 ^ 64" "\<And>s. s \<in> sector_span first n \<Longrightarrow> d' drive s = d drive s"
  shows "disk_bytes d' drive first n = disk_bytes d drive first n"
  using assms
proof (induction n arbitrary: first)
  case (Suc n)
  have "unat (first + 1) = unat first + 1" using Suc.prems(1) by (simp add: unat_word_ariths)
  with Suc show ?case by (simp add: disk_bytes_Suc sector_span_Suc)
qed (simp add: disk_bytes_def)

text \<open>What a completed write leaves on the disk.\<close>

definition wrote :: "u8 \<Rightarrow> u64 \<Rightarrow> nat \<Rightarrow> u8 list \<Rightarrow> disk \<Rightarrow> disk \<Rightarrow> bool" where
  "wrote drive first n bytes d d' \<longleftrightarrow> disk_bytes d' drive first n = bytes
     \<and> (\<forall>dr s. dr \<noteq> drive \<or> s \<notin> sector_span first n \<longrightarrow> d' dr s = d dr s)
     \<and> (\<forall>dr s. d' dr s = None \<longleftrightarrow> d dr s = None) \<and> (disk_ok d \<longrightarrow> disk_ok d')"

lemma write_loop_wrote:
  assumes "sectors_present d drive (p + sec) n" "offset + 512 * n \<le> length buf"
  shows "\<exists>d'. write_loop err drive p buf n sec offset d = (None, d')
    \<and> wrote drive (p + sec) n (take (512 * n) (drop offset buf)) d d'"
  using assms
proof (induction n arbitrary: sec offset d)
  case 0
  then show ?case by (simp add: wrote_def disk_bytes_def)
next
  case (Suc n)
  let ?bs = "take 512 (drop offset buf)"
  let ?d = "put_sector drive (p + sec) ?bs d"
  have pres: "d drive (p + sec) \<noteq> None" "sectors_present d drive (p + (sec + 1)) n"
    using sectors_present_Suc [OF Suc.prems(1)] by (simp_all add: add.assoc)
  have bound: "unat (p + sec) + Suc n < 2 ^ 64" using Suc.prems(1) by (simp add: sectors_present_def)
  note span = sector_span_Suc [OF bound]
  have "sectors_present ?d drive (p + (sec + 1)) n"
    using pres(2) by (auto simp: sectors_present_def put_sector_def)
  then obtain d' where d': "write_loop err drive p buf n (sec + 1) (offset + 512) ?d = (None, d')"
    and w: "wrote drive (p + (sec + 1)) n (take (512 * n) (drop (offset + 512) buf)) ?d d'"
    using Suc.IH [of ?d "sec + 1" "offset + 512"] Suc.prems(2) by auto
  have keep: "d' drive (p + sec) = Some ?bs"
    using w span(2) by (auto simp: wrote_def put_sector_def add.assoc)
  have "disk_bytes d' drive (p + sec) (Suc n) = take (512 * Suc n) (drop offset buf)"
    using w keep take_add [of 512 "512 * n" "drop offset buf"]
    by (simp add: disk_bytes_Suc wrote_def ac_simps)
  moreover have "d' dr s = d dr s" if "dr \<noteq> drive \<or> s \<notin> sector_span (p + sec) (Suc n)" for dr s
    using w that span by (auto simp: wrote_def put_sector_def add.assoc)
  moreover have "d' dr s = None \<longleftrightarrow> d dr s = None" for dr s
    using w pres(1) by (auto simp: wrote_def put_sector_def)
  moreover have "disk_ok d \<Longrightarrow> disk_ok d'"
  proof -
    assume "disk_ok d"
    moreover have "length ?bs = 512" using Suc.prems(2) by simp
    ultimately have "disk_ok ?d" by (simp add: disk_ok_def put_sector_def)
    with w show "disk_ok d'" by (simp add: wrote_def)
  qed
  ultimately have "wrote drive (p + sec) (Suc n) (take (512 * Suc n) (drop offset buf)) d d'"
    by (simp add: wrote_def)
  moreover have "write_loop err drive p buf (Suc n) sec offset d = (None, d')"
    using d' pres(1) Suc.prems(2) by auto
  ultimately show ?case by blast
qed

abbreviation vd_drive :: "hv_vdev \<Rightarrow> u8" where
  "vd_drive v \<equiv> ucast (vc_vdev_id (vd_config v))"

abbreviation vd_first :: "hv_vdev \<Rightarrow> u64 \<Rightarrow> u64" where
  "vd_first v sector \<equiv> ucast (vc_partition_start (vd_config v)) + sector"

lemma write_sectors_wrote:
  assumes "sectors_present d (vd_drive v) (vd_first v sector) (unat count)" "512 * unat count \<le> length buf"
  shows "\<exists>d'. write_sectors err sector count buf d v
      = (0, d', v\<lparr>vd_total_writes := vd_total_writes v + 1\<rparr>)
    \<and> wrote (vd_drive v) (vd_first v sector) (unat count) (take (512 * unat count) buf) d d'"
proof -
  obtain d' where "write_loop err (vd_drive v) (ucast (vc_partition_start (vd_config v))) buf (unat count) sector 0 d
      = (None, d')" "wrote (vd_drive v) (vd_first v sector) (unat count) (take (512 * unat count) buf) d d'"
    using write_loop_wrote [OF assms(1), of 0 buf err] assms(2) by auto
  with assms(2) show ?thesis by (simp add: write_sectors_def mult.commute)
qed

lemma read_sectors_bytes:
  assumes "disk_ok d" "sectors_present d (vd_drive v) (vd_first v sector) (unat count)"
    "512 * unat count \<le> length buf"
  shows "read_sectors d err sector count buf v
    = (0, disk_bytes d (vd_drive v) (vd_first v sector) (unat count) @ drop (512 * unat count) buf,
       v\<lparr>vd_total_reads := vd_total_reads v + 1\<rparr>)"
  using read_loop_bytes [OF assms(1,2), of 0 buf err] assms(3)
  by (simp add: read_sectors_def mult.commute)

text \<open>Whatever a write returns, it stays within the sectors of the request; it returns 0 only when all
  of them are present.  The driver's error code is not 0.\<close>

definition confined :: "u8 \<Rightarrow> u64 \<Rightarrow> nat \<Rightarrow> disk \<Rightarrow> disk \<Rightarrow> bool" where
  "confined drive first n d d' \<longleftrightarrow>
     (\<forall>dr s. dr \<noteq> drive \<or> s \<notin> sector_span first n \<longrightarrow> d' dr s = d dr s)
     \<and> (\<forall>dr s. d' dr s = None \<longleftrightarrow> d dr s = None) \<and> (disk_ok d \<longrightarrow> disk_ok d')"

lemma confined_refl [simp]: "confined drive first n d d"
  by (simp add: confined_def)

lemma write_loop_confined:
  assumes "unat (p + sec) + n < 2 ^ 64" "offset + 512 * n \<le> length buf"
    "write_loop err drive p buf n sec offset d = (r, d')"
  shows "confined drive (p + sec) n d d' \<and> (r = None \<longrightarrow> sectors_present d drive (p + sec) n)
    \<and> (r = None \<or> r = Some err)"
  using assms
proof (induction n arbitrary: sec offset d)
  case 0
  then show ?case by (simp add: sectors_present_def)
next
  case (Suc n)
  note span = sector_span_Suc [OF Suc.prems(1)]
  show ?case
  proof (cases "d drive (p + sec)")
    case None
    then show ?thesis using Suc.prems(2,3) by auto
  next
    case (Some b)
    let ?d = "put_sector drive (p + sec) (take 512 (drop offset buf)) d"
    have "unat (p + (sec + 1)) = unat (p + sec) + 1"
      using Suc.prems(1) by (simp add: unat_word_ariths flip: add.assoc)
    moreover have "write_loop err drive p buf n (sec + 1) (offset + 512) ?d = (r, d')"
      using Suc.prems(2,3) Some by simp
    ultimately have ih: "confined drive (p + (sec + 1)) n ?d d'"
      "r = None \<longrightarrow> sectors_present ?d drive (p + (sec + 1)) n" "r = None \<or> r = Some err"
      using Suc.IH [of "sec + 1" "offset + 512" ?d] Suc.prems(1,2) by simp_all
    have pres_eq: "?d dr t = None \<longleftrightarrow> d dr t = None" for dr t using Some by (simp add: put_sector_def)
    have "disk_ok d \<Longrightarrow> disk_ok ?d" using Suc.prems(2) by (auto simp: disk_ok_def put_sector_def)
    then have "confined drive (p + sec) (Suc n) d d'"
      using ih(1) span Some by (auto simp: confined_def put_sector_def add.assoc)
    moreover have "sectors_present d drive (p + sec) (Suc n)" if "r = None"
    proof -
      have rest: "d drive (p + (sec + 1) + word_of_nat i) \<noteq> None" if "i < n" for i
        using ih(2) \<open>r = None\<close> that by (simp add: sectors_present_def pres_eq)
      have "d drive (p + sec + word_of_nat i) \<noteq> None" if "i < Suc n" for i
        using that rest [of "i - 1"] Some by (cases i) (auto simp: add.assoc)
      then show ?thesis using Suc.prems(1) by (simp add: sectors_present_def)
    qed
    ultimately show ?thesis using ih(3) by blast
  qed
qed

lemma write_sectors_confined:
  assumes "unat (vd_first v sector) + unat count < 2 ^ 64" "err \<noteq> 0"
    and w: "write_sectors err sector count buf d v = (r, d', v')"
  shows "vd_config v' = vd_config v" "confined (vd_drive v) (vd_first v sector) (unat count) d d'"
    "r = 0 \<Longrightarrow> wrote (vd_drive v) (vd_first v sector) (unat count) (take (512 * unat count) buf) d d'
       \<and> sectors_present d (vd_drive v) (vd_first v sector) (unat count) \<and> 512 * unat count \<le> length buf"
proof -
  let ?ps = "ucast (vc_partition_start (vd_config v)) :: u64"
  show "vd_config v' = vd_config v" using w by (auto simp: write_sectors_def split: if_splits prod.splits option.splits)
  show "confined (vd_drive v) (vd_first v sector) (unat count) d d'"
  proof (cases "length buf < unat count * 512")
    case False
    obtain o' e where "write_loop err (vd_drive v) ?ps buf (unat count) sector 0 d = (e, o')" by fastforce
    then show ?thesis
      using write_loop_confined [OF assms(1), of 0 buf err "vd_drive v" d e o'] w False
      by (auto simp: write_sectors_def split: option.splits)
  qed (use w in \<open>auto simp: write_sectors_def\<close>)
  assume "r = 0"
  then have len: "512 * unat count \<le> length buf" using w by (auto simp: write_sectors_def VD_EINVAL_def split: if_splits)
  obtain o' e where o: "write_loop err (vd_drive v) ?ps buf (unat count) sector 0 d = (e, o')" by fastforce
  then have "e = None" using w \<open>r = 0\<close> assms(2) len write_loop_confined [OF assms(1) _ o]
    by (auto simp: write_sectors_def mult.commute)
  then have pres: "sectors_present d (vd_drive v) (vd_first v sector) (unat count)"
    using write_loop_confined [OF assms(1) _ o] len by simp
  then show "wrote (vd_drive v) (vd_first v sector) (unat count) (take (512 * unat count) buf) d d'
      \<and> sectors_present d (vd_drive v) (vd_first v sector) (unat count) \<and> 512 * unat count \<le> length buf"
    using write_sectors_wrote [OF pres len, of err] w len by auto
qed

lemma read_sectors_config: "read_sectors d err sector count buf v = (r, buf', v') \<Longrightarrow> vd_config v' = vd_config v"
  by (auto simp: read_sectors_def split: if_splits prod.splits option.splits)

end
