(* ===== verification/Hv_Spa.thy ===== *)
theory Hv_Spa
  imports Hv_Checksum Hv_Metaslab Hv_Vdev
begin

text \<open>
  The storage pool of HVFS (\<^verbatim>\<open>src/src/kernel/services/fs/hvfs/spa.rs\<close>): uberblocks and the ring of
  128 sectors they are written to, devices with their metaslabs, allocation and release of block
  pointers, and reads and writes through them.  The pool's locks protect single calls, so a call is
  a function of the pool; its cache (\<^verbatim>\<open>arc\<close>) is not used by these calls.  \<open>timestamp\<close>, the clock of
  the machine, is an argument of the operations that read it.
\<close>

definition HV_SPA_MAGIC :: u32 where
  "HV_SPA_MAGIC = 0x48564653"

definition HV_UBERBLOCK_COUNT :: nat where
  "HV_UBERBLOCK_COUNT = 128"

definition HV_VDEV_LABEL_SIZE :: u64 where
  "HV_VDEV_LABEL_SIZE = 262144"

definition HV_POOL_BLOCK_SIZE :: u64 where
  "HV_POOL_BLOCK_SIZE = 4096"

definition HV_POOL_METASLAB_SIZE :: u64 where
  "HV_POOL_METASLAB_SIZE = push_bit 24 1"

section \<open>Uberblocks\<close>

record hv_uberblock =
  ub_txg :: u64
  ub_root_bp :: hv_block_pointer
  ub_timestamp :: u64
  ub_root_dataset_obj :: u64
  ub_pool_guid :: u64
  ub_checkpoint_txg :: u64
  ub_checksum :: "u64 list"
  ub_magic :: u32
  ub_pwm_domain_id :: u16
  ub_pad :: "u8 list"

definition ub_null :: hv_uberblock where
  "ub_null = \<lparr>ub_txg = 0, ub_root_bp = bp_null, ub_timestamp = 0, ub_root_dataset_obj = 0,
     ub_pool_guid = 0, ub_checkpoint_txg = 0, ub_checksum = [0, 0, 0, 0], ub_magic = 0,
     ub_pwm_domain_id = 0, ub_pad = [0, 0]\<rparr>"

definition ub_is_valid :: "hv_uberblock \<Rightarrow> bool" where
  "ub_is_valid ub \<longleftrightarrow> ub_magic ub = HV_SPA_MAGIC"

definition ub_BYTES :: nat where
  "ub_BYTES = 192"

definition ub_as_bytes :: "hv_uberblock \<Rightarrow> u8 list" where
  "ub_as_bytes ub = to_le_bytes 8 (ub_txg ub) @ bp_as_bytes (ub_root_bp ub)
     @ to_le_bytes 8 (ub_timestamp ub) @ to_le_bytes 8 (ub_root_dataset_obj ub)
     @ to_le_bytes 8 (ub_pool_guid ub) @ to_le_bytes 8 (ub_checkpoint_txg ub)
     @ concat (map (to_le_bytes 8) (ub_checksum ub)) @ to_le_bytes 4 (ub_magic ub)
     @ to_le_bytes 2 (ub_pwm_domain_id ub) @ ub_pad ub"

definition compute_checksum :: "hv_uberblock \<Rightarrow> hv_uberblock" where
  "compute_checksum ub =
     (let ub = ub\<lparr>ub_checksum := [0, 0, 0, 0]\<rparr>
      in ub\<lparr>ub_checksum := ck_value (ck_compute Fletcher4 (ub_as_bytes ub))\<rparr>)"

definition verify_checksum :: "hv_uberblock \<Rightarrow> bool" where
  "verify_checksum ub \<longleftrightarrow>
     ck_value (ck_compute Fletcher4 (ub_as_bytes (ub\<lparr>ub_checksum := [0, 0, 0, 0]\<rparr>))) = ub_checksum ub"

definition ub_from_bytes :: "u8 list \<Rightarrow> hv_uberblock option" where
  "ub_from_bytes bytes =
     (if length bytes < ub_BYTES then None
      else case bp_from_bytes (slice bytes 8 (8 + bp_BYTES)) of
        None \<Rightarrow> None
      | Some root_bp \<Rightarrow>
          (let off = 8 + bp_BYTES
           in Some \<lparr>ub_txg = of_le_bytes (slice bytes 0 8), ub_root_bp = root_bp,
                ub_timestamp = of_le_bytes (slice bytes off (off + 8)),
                ub_root_dataset_obj = of_le_bytes (slice bytes (off + 8) (off + 16)),
                ub_pool_guid = of_le_bytes (slice bytes (off + 16) (off + 24)),
                ub_checkpoint_txg = of_le_bytes (slice bytes (off + 24) (off + 32)),
                ub_checksum = map (\<lambda>i. of_le_bytes (slice bytes (off + 32 + i * 8) (off + 32 + i * 8 + 8))) [0 ..< 4],
                ub_magic = of_le_bytes (slice bytes (off + 64) (off + 68)),
                ub_pwm_domain_id = of_le_bytes (slice bytes (off + 68) (off + 70)),
                ub_pad = [0, 0]\<rparr>))"

section \<open>The pool\<close>

datatype hv_pool_state = PoolUninit | PoolActive | PoolExported | PoolDestroyed | PoolSuspended | PoolReadOnly

record hv_spa_config =
  sc_name :: "u8 list"
  sc_guid :: u64
  sc_ashift :: u8
  sc_block_size :: u32
  sc_max_vdevs :: u16
  sc_readonly :: bool

record hv_spa =
  spa_config :: hv_spa_config
  spa_state :: hv_pool_state
  spa_uberblock :: hv_uberblock
  spa_vdevs :: "hv_vdev list"
  spa_metaslabs :: "hv_metaslab list"
  spa_txg_current :: u64
  spa_txg_syncing :: bool
  spa_alloc_count :: u64
  spa_free_count :: u64
  spa_read_count :: u64
  spa_write_count :: u64
  spa_initialized :: bool
  spa_disk_present :: bool
  spa_formatted :: bool
  spa_last_sync_time :: u64
  spa_scrub_in_progress :: bool
  spa_scrub_last_txg :: u64
  spa_partition_start :: u32

definition spa_config_new :: "u8 list \<Rightarrow> hv_spa_config" where
  "spa_config_new name =
     (let len = min (length name) 63
      in \<lparr>sc_name = take len name @ replicate (64 - len) 0, sc_guid = 0, sc_ashift = 12,
          sc_block_size = ucast HV_POOL_BLOCK_SIZE, sc_max_vdevs = 8, sc_readonly = False\<rparr>)"

definition spa_new :: hv_spa where
  "spa_new = \<lparr>spa_config = spa_config_new [], spa_state = PoolUninit, spa_uberblock = ub_null,
     spa_vdevs = [], spa_metaslabs = [], spa_txg_current = 0, spa_txg_syncing = False,
     spa_alloc_count = 0, spa_free_count = 0, spa_read_count = 0, spa_write_count = 0,
     spa_initialized = False, spa_disk_present = False, spa_formatted = False, spa_last_sync_time = 0,
     spa_scrub_in_progress = False, spa_scrub_last_txg = 0, spa_partition_start = 0\<rparr>"

definition generate_guid :: "u64 \<Rightarrow> u64" where
  "generate_guid t =
     (let h = 14695981039346656037 XOR t;
          h = h * 1099511628211;
          h = h XOR word_rotl 17 t;
          h = h * 1099511628211
      in h OR 1)"

definition spa_init :: "u64 \<Rightarrow> u8 list \<Rightarrow> hv_spa \<Rightarrow> hv_spa" where
  "spa_init timestamp name p =
     (let cfg = (spa_config_new name)\<lparr>sc_guid := generate_guid timestamp\<rparr>
      in p\<lparr>spa_config := cfg, spa_txg_current := 1, spa_state := PoolActive, spa_initialized := True,
           spa_uberblock := (spa_uberblock p)\<lparr>ub_magic := HV_SPA_MAGIC, ub_txg := 1,
             ub_pool_guid := sc_guid cfg, ub_root_dataset_obj := 0\<rparr>\<rparr>)"

text \<open>The metaslabs of a new device: the loop \<^verbatim>\<open>for i in 0..n_ms\<close> of \<^verbatim>\<open>add_vdev\<close>.\<close>

definition vdev_metaslab :: "u16 \<Rightarrow> u64 \<Rightarrow> nat \<Rightarrow> nat \<Rightarrow> nat \<Rightarrow> hv_metaslab" where
  "vdev_metaslab vdev_id asize n_ms len i =
     (let ms_start = word_of_nat i * HV_POOL_METASLAB_SIZE + HV_VDEV_LABEL_SIZE;
          ms_size = (if i < n_ms - 1 then HV_POOL_METASLAB_SIZE
                     else asize - ms_start + HV_VDEV_LABEL_SIZE)
      in ms_new (word_of_nat len) vdev_id ms_start ms_size)"

definition add_vdev :: "hv_vdev_config \<Rightarrow> hv_spa \<Rightarrow> bool \<times> hv_spa" where
  "add_vdev config p =
     (if unat (sc_max_vdevs (spa_config p)) \<le> length (spa_vdevs p) then (False, p)
      else
        let vdev = (vdev_new config)\<lparr>vd_state := VdHealthy\<rparr>;
            vdev_id = vc_vdev_id config; asize = vc_asize config;
            p = p\<lparr>spa_vdevs := spa_vdevs p @ [vdev]\<rparr>
        in if 0 < asize then
             let n_ms = unat (ucast (div_ceil asize HV_POOL_METASLAB_SIZE) :: u32);
                 base = length (spa_metaslabs p)
             in (True, p\<lparr>spa_metaslabs := spa_metaslabs p @
                   map (\<lambda>i. vdev_metaslab vdev_id asize n_ms (base + i) i) [0 ..< n_ms]\<rparr>)
           else (True, p))"

text \<open>The loop of \<^verbatim>\<open>allocate\<close>: the available metaslab with room and the largest weight above zero,
  the first of equals.\<close>

primrec best_metaslab :: "u64 \<Rightarrow> nat \<Rightarrow> u64 \<Rightarrow> nat option \<Rightarrow> hv_metaslab list \<Rightarrow> nat option" where
  "best_metaslab rounded i best_weight best [] = best"
| "best_metaslab rounded i best_weight best (ms # mss) =
     (if \<not> is_available ms then best_metaslab rounded (Suc i) best_weight best mss
      else if ms_free_space ms < rounded then best_metaslab rounded (Suc i) best_weight best mss
      else if best_weight < ms_weight ms then best_metaslab rounded (Suc i) (ms_weight ms) (Some i) mss
      else best_metaslab rounded (Suc i) best_weight best mss)"

definition allocate ::
  "u64 \<Rightarrow> hv_cksum_type \<Rightarrow> hv_comp_type \<Rightarrow> u64 \<Rightarrow> hv_spa \<Rightarrow> hv_block_pointer option \<times> hv_spa" where
  "allocate sz kind cmp txg p =
     (let rounded = div_ceil sz HV_POOL_BLOCK_SIZE * HV_POOL_BLOCK_SIZE
      in case best_metaslab rounded 0 0 None (spa_metaslabs p) of
           None \<Rightarrow> (None, p)
         | Some ms_idx \<Rightarrow>
             (case ms_alloc rounded (spa_metaslabs p ! ms_idx) of
                (r, ms) \<Rightarrow>
                  let best_vdev_id = ms_vdev_id (spa_metaslabs p ! ms_idx);
                      p = p\<lparr>spa_metaslabs := (spa_metaslabs p)[ms_idx := ms]\<rparr>
                  in (case r of
                       None \<Rightarrow> (None, p)
                     | Some offset \<Rightarrow>
                         (let dva = dva_new best_vdev_id offset (ucast rounded);
                              bp = set_dva 0 dva bp_null;
                              pr = set_comp_type cmp (set_cksum_type kind (bp_prop bp));
                              pr = pr\<lparr>prop_logical_size := ucast sz, prop_physical_size := ucast rounded\<rparr>;
                              bp = set_birth txg (bp\<lparr>bp_prop := pr\<rparr>)
                          in (Some bp, p\<lparr>spa_alloc_count := spa_alloc_count p + 1\<rparr>)))))"

text \<open>The inner loop of \<^verbatim>\<open>free\<close>: the first metaslab of the device whose range holds the offset.\<close>

definition free_dva :: "hv_dva \<Rightarrow> hv_metaslab list \<Rightarrow> hv_metaslab list" where
  "free_dva dva mss =
     (case find_idx (\<lambda>ms. ms_vdev_id ms = dva_vdev_id dva
                       \<and> saturating_sub (dva_offset dva) (ms_start ms) < ms_size ms) mss of
        None \<Rightarrow> mss
      | Some i \<Rightarrow> mss[i := ms_free (dva_offset dva) (ucast (dva_asize dva)) (mss ! i)])"

definition spa_free :: "hv_block_pointer \<Rightarrow> hv_spa \<Rightarrow> hv_spa" where
  "spa_free bp p =
     (let mss = fold (\<lambda>i mss. case get_dva bp i of None \<Rightarrow> mss | Some dva \<Rightarrow> free_dva dva mss)
                  [0 ..< HV_DVA_MAX] (spa_metaslabs p)
      in p\<lparr>spa_metaslabs := mss, spa_free_count := spa_free_count p + 1\<rparr>)"

section \<open>Reads and writes through block pointers\<close>

abbreviation vdev_index :: "hv_spa \<Rightarrow> hv_dva \<Rightarrow> nat option" where
  "vdev_index p dva \<equiv> find_idx (\<lambda>v. vc_vdev_id (vd_config v) = dva_vdev_id dva) (spa_vdevs p)"

primrec read_bp_loop ::
  "disk \<Rightarrow> i32 \<Rightarrow> hv_block_pointer \<Rightarrow> nat list \<Rightarrow> u8 list \<Rightarrow> hv_spa \<Rightarrow> i32 \<times> u8 list \<times> hv_spa" where
  "read_bp_loop d err bp [] buf p = (- 1, buf, p)"
| "read_bp_loop d err bp (i # is) buf p =
     (case get_dva bp i of
        None \<Rightarrow> read_bp_loop d err bp is buf p
      | Some dva \<Rightarrow>
          (case vdev_index p dva of
             None \<Rightarrow> read_bp_loop d err bp is buf p
           | Some k \<Rightarrow>
               (case read_sectors d err (dva_offset dva div 512) (div_ceil (dva_asize dva) 512) buf (spa_vdevs p ! k) of
                  (result, buf, v) \<Rightarrow>
                    let p = p\<lparr>spa_vdevs := (spa_vdevs p)[k := v]\<rparr>
                    in if result = 0 then (0, buf, p\<lparr>spa_read_count := spa_read_count p + 1\<rparr>)
                       else read_bp_loop d err bp is buf p)))"

definition read_bp :: "disk \<Rightarrow> i32 \<Rightarrow> hv_block_pointer \<Rightarrow> u8 list \<Rightarrow> hv_spa \<Rightarrow> i32 \<times> u8 list \<times> hv_spa" where
  "read_bp d err bp buf p = read_bp_loop d err bp [0 ..< HV_DVA_MAX] buf p"

primrec write_bp_loop ::
  "i32 \<Rightarrow> hv_block_pointer \<Rightarrow> u8 list \<Rightarrow> nat list \<Rightarrow> disk \<Rightarrow> hv_spa \<Rightarrow> i32 \<times> disk \<times> hv_spa" where
  "write_bp_loop err bp buf [] d p = (0, d, p\<lparr>spa_write_count := spa_write_count p + 1\<rparr>)"
| "write_bp_loop err bp buf (i # is) d p =
     (case get_dva bp i of
        None \<Rightarrow> write_bp_loop err bp buf is d p
      | Some dva \<Rightarrow>
          (case vdev_index p dva of
             None \<Rightarrow> write_bp_loop err bp buf is d p
           | Some k \<Rightarrow>
               (case write_sectors err (dva_offset dva div 512) (div_ceil (dva_asize dva) 512) buf d (spa_vdevs p ! k) of
                  (result, d, v) \<Rightarrow>
                    let p = p\<lparr>spa_vdevs := (spa_vdevs p)[k := v]\<rparr>
                    in if result \<noteq> 0 then (result, d, p) else write_bp_loop err bp buf is d p)))"

definition write_bp :: "i32 \<Rightarrow> hv_block_pointer \<Rightarrow> u8 list \<Rightarrow> disk \<Rightarrow> hv_spa \<Rightarrow> i32 \<times> disk \<times> hv_spa" where
  "write_bp err bp buf d p = write_bp_loop err bp buf [0 ..< HV_DVA_MAX] d p"

section \<open>The ring of uberblocks\<close>

definition vdev_0_drive_id :: "hv_spa \<Rightarrow> u8" where
  "vdev_0_drive_id p = (case spa_vdevs p of [] \<Rightarrow> 0 | v # _ \<Rightarrow> ucast (vc_vdev_id (vd_config v)))"

definition phys_sector :: "hv_spa \<Rightarrow> u32 \<Rightarrow> u64" where
  "phys_sector p sector = ucast (sector + spa_partition_start p)"

definition write_uberblock_to_disk :: "u64 \<Rightarrow> disk \<Rightarrow> hv_spa \<Rightarrow> disk \<times> hv_spa" where
  "write_uberblock_to_disk timestamp d p =
     (let ub = spa_uberblock p
      in if \<not> ub_is_valid ub then (d, p)
         else
           let ub_bytes = ub_as_bytes (compute_checksum ub);
               sector = (ucast (spa_txg_current p) :: u32) mod 128;
               copy_len = min (length ub_bytes) 512;
               sector_buf = take copy_len ub_bytes @ replicate (512 - copy_len) 0;
               drive = vdev_0_drive_id p;
               d = (case d drive (phys_sector p sector) of
                      None \<Rightarrow> d
                    | Some _ \<Rightarrow> put_sector drive (phys_sector p sector) sector_buf d)
           in (d, p\<lparr>spa_last_sync_time := timestamp\<rparr>))"

definition accepted_uberblock :: "disk \<Rightarrow> hv_spa \<Rightarrow> nat \<Rightarrow> hv_uberblock option" where
  "accepted_uberblock d p i =
     (case d (vdev_0_drive_id p) (phys_sector p (word_of_nat i)) of
        None \<Rightarrow> None
      | Some sector_buf \<Rightarrow>
          (case ub_from_bytes sector_buf of
             None \<Rightarrow> None
           | Some ub \<Rightarrow> if ub_is_valid ub \<and> verify_checksum ub then Some ub else None))"

fun first_some :: "'b option list \<Rightarrow> 'b option" where
  "first_some [] = None"
| "first_some (Some b # xs) = Some b"
| "first_some (None # xs) = first_some xs"

definition read_uberblock_from_disk :: "disk \<Rightarrow> hv_spa \<Rightarrow> hv_uberblock option" where
  "read_uberblock_from_disk d p = first_some (map (accepted_uberblock d p) (rev [0 ..< HV_UBERBLOCK_COUNT]))"

definition advance_txg :: "hv_spa \<Rightarrow> u64 \<times> hv_spa" where
  "advance_txg p = (spa_txg_current p + 1, p\<lparr>spa_txg_current := spa_txg_current p + 1\<rparr>)"

definition get_stats :: "hv_spa \<Rightarrow> u64 \<times> u64 \<times> u64 \<times> u64 \<times> u64" where
  "get_stats p = (spa_alloc_count p, spa_free_count p, spa_read_count p, spa_write_count p, spa_txg_current p)"

section \<open>What the ring keeps\<close>

definition ub_ok :: "hv_uberblock \<Rightarrow> bool" where
  "ub_ok ub \<longleftrightarrow> bp_ok (ub_root_bp ub) \<and> bp_pad (ub_root_bp ub) = [0, 0] \<and> length (ub_checksum ub) = 4
     \<and> ub_pad ub = [0, 0]"

lemma length_ub_as_bytes [simp]: "ub_ok ub \<Longrightarrow> length (ub_as_bytes ub) = 192"
  by (auto simp: ub_as_bytes_def ub_ok_def bp_BYTES_def dest!: list_of_length)

lemma ub_roundtrip:
  assumes "ub_ok ub"
  shows "ub_from_bytes (ub_as_bytes ub @ r) = Some ub"
proof -
  let ?bp = "bp_as_bytes (ub_root_bp ub)"
  have bp: "bp_ok (ub_root_bp ub)" "bp_pad (ub_root_bp ub) = [0, 0]" using assms by (simp_all add: ub_ok_def)
  have len: "length ?bp = 112" using bp(1) by (simp add: bp_BYTES_def)
  obtain c0 c1 c2 c3 where c: "ub_checksum ub = [c0, c1, c2, c3]"
    using assms list_of_length(3) [of "ub_checksum ub"] by (auto simp: ub_ok_def)
  have root: "bp_from_bytes (slice (ub_as_bytes ub @ r) 8 120) = Some (ub_root_bp ub)"
    using bp_from_as_bytes [OF bp(1), of "[]"] bp(2) len by (simp add: ub_as_bytes_def slice_append)
  have up: "[0 ..< 4] = [0, 1, 2, 3 :: nat]" by (simp add: upt_rec)
  have "length (ub_as_bytes ub @ r) \<ge> 192" using assms by simp
  then show ?thesis
    using assms root len
    by (simp add: ub_from_bytes_def Let_def ub_BYTES_def bp_BYTES_def up ub_as_bytes_def slice_append c)
      (use c in \<open>cases ub; simp add: ub_ok_def\<close>)
qed

lemma verify_computed: "verify_checksum (compute_checksum ub)"
  by (simp add: verify_checksum_def compute_checksum_def Let_def)

lemma compute_checksum_ok:
  assumes "ub_ok ub" "ub_is_valid ub"
  shows "ub_ok (compute_checksum ub)" "ub_is_valid (compute_checksum ub)"
  using assms by (auto simp: ub_ok_def ub_is_valid_def compute_checksum_def ck_compute_def fletcher4_def Let_def
      split: prod.splits)

definition ub_slot :: "hv_spa \<Rightarrow> nat" where
  "ub_slot p = unat (spa_txg_current p) mod 128"

lemma ub_sector: "(ucast (spa_txg_current p) :: u32) mod 128 = word_of_nat (ub_slot p)"
proof -
  have "unat ((ucast (spa_txg_current p) :: u32) mod 128) = unat (spa_txg_current p) mod 2 ^ 32 mod 128"
    by (simp add: unat_mod unsigned_ucast_eq take_bit_eq_mod)
  also have "\<dots> = ub_slot p" by (simp add: ub_slot_def mod_mod_cancel)
  finally have "unat ((ucast (spa_txg_current p) :: u32) mod 128) = ub_slot p" .
  then show ?thesis by (metis of_nat_unat ucast_id)
qed

lemma phys_sector_inj:
  assumes "phys_sector p (word_of_nat i) = phys_sector p (word_of_nat j)" "i < 128" "j < 128"
  shows "i = j"
proof -
  have "unat (word_of_nat i + spa_partition_start p :: u32) = unat (word_of_nat j + spa_partition_start p :: u32)"
    using arg_cong [OF assms(1), of unat] unfolding phys_sector_def
    by (simp only: unat_ucast_up [where ?'a = 32 and ?'b = 64] len_of_numeral_defs)
  then have "(word_of_nat i :: u32) + spa_partition_start p = word_of_nat j + spa_partition_start p"
    by (rule unsigned_word_eqI)
  then have eq: "(word_of_nat i :: u32) = word_of_nat j" by (rule add_right_imp_eq)
  have small: "k < 2 ^ LENGTH(32)" if "k < 128" for k :: nat using that by simp
  have "i = unat (word_of_nat i :: u32)" by (rule unat_word_of_nat_small [OF small [OF assms(2)], symmetric])
  also have "\<dots> = unat (word_of_nat j :: u32)" by (rule arg_cong [OF eq])
  also have "\<dots> = j" by (rule unat_word_of_nat_small [OF small [OF assms(3)]])
  finally show ?thesis .
qed

lemma write_uberblock_slots:
  assumes "ub_is_valid (spa_uberblock p)" "ub_ok (spa_uberblock p)"
    and "d (vdev_0_drive_id p) (phys_sector p (word_of_nat (ub_slot p))) \<noteq> None"
    and w: "write_uberblock_to_disk t d p = (d', p')"
  shows "accepted_uberblock d' p' (ub_slot p) = Some (compute_checksum (spa_uberblock p))"
    and "\<And>i. i < 128 \<Longrightarrow> i \<noteq> ub_slot p \<Longrightarrow> accepted_uberblock d' p' i = accepted_uberblock d p i"
proof -
  let ?u = "compute_checksum (spa_uberblock p)" and ?s = "phys_sector p (word_of_nat (ub_slot p))"
  note ok = compute_checksum_ok [OF assms(2,1)]
  have d': "d' = put_sector (vdev_0_drive_id p) ?s (ub_as_bytes ?u @ replicate 320 0) d"
    and frame: "vdev_0_drive_id p' = vdev_0_drive_id p" "\<And>i. phys_sector p' i = phys_sector p i"
    using w assms(1,3) ok(1)
    by (auto simp: write_uberblock_to_disk_def Let_def ub_sector vdev_0_drive_id_def phys_sector_def
        split: option.splits)
  show "accepted_uberblock d' p' (ub_slot p) = Some ?u"
    using ok verify_computed by (simp add: accepted_uberblock_def frame d' put_sector_def ub_roundtrip)
  fix i :: nat
  assume i: "i < 128" "i \<noteq> ub_slot p"
  have "ub_slot p < 128" by (simp add: ub_slot_def)
  then have "phys_sector p (word_of_nat i) \<noteq> ?s" using phys_sector_inj i by blast
  then show "accepted_uberblock d' p' i = accepted_uberblock d p i"
    by (simp add: accepted_uberblock_def frame d' put_sector_def)
qed

lemma read_uberblock_first:
  assumes "accepted_uberblock d p i = Some u" "i < 128" "\<And>j. i < j \<Longrightarrow> j < 128 \<Longrightarrow> accepted_uberblock d p j = None"
  shows "read_uberblock_from_disk d p = Some u"
proof -
  have "rev [0 ..< HV_UBERBLOCK_COUNT] = rev [Suc i ..< 128] @ i # rev [0 ..< i]"
    using assms(2) upt_add_eq_append [of 0 "Suc i" "127 - i"] by (simp add: HV_UBERBLOCK_COUNT_def)
  moreover have "first_some (map f xs @ Some b # ys) = Some b" if "\<forall>x \<in> set xs. f x = None"
    for f :: "nat \<Rightarrow> hv_uberblock option" and xs b ys using that by (induction xs) auto
  ultimately show ?thesis
    using assms by (simp add: read_uberblock_from_disk_def)
qed

text \<open>An uberblock of the pool written to the ring is accepted when it is read back from its
  sector, and the other sectors of the ring are as before.\<close>

theorem uberblock_survives:
  assumes "ub_is_valid (spa_uberblock p)" "ub_ok (spa_uberblock p)"
    and "d (vdev_0_drive_id p) (phys_sector p (word_of_nat (ub_slot p))) \<noteq> None"
    and "write_uberblock_to_disk t d p = (d', p')"
  shows "accepted_uberblock d' p' (ub_slot p) = Some (compute_checksum (spa_uberblock p))
    \<and> (\<forall>i < 128. i \<noteq> ub_slot p \<longrightarrow> accepted_uberblock d' p' i = accepted_uberblock d p i)"
  using write_uberblock_slots [OF assms] by blast

definition blank_disk :: disk where
  "blank_disk = (\<lambda>_ _. Some (replicate 512 0))"

definition sample_pool :: hv_spa where
  "sample_pool = spa_init 0 [] spa_new"

theorem uberblock_survives_witness:
  "\<exists>d' p'. write_uberblock_to_disk 5 blank_disk sample_pool = (d', p')
    \<and> accepted_uberblock d' p' 1 = Some (compute_checksum (spa_uberblock sample_pool))"
proof -
  obtain d' p' where w: "write_uberblock_to_disk 5 blank_disk sample_pool = (d', p')" by force
  have "ub_is_valid (spa_uberblock sample_pool)" "ub_ok (spa_uberblock sample_pool)" "ub_slot sample_pool = 1"
    by (simp_all add: sample_pool_def spa_init_def spa_new_def ub_is_valid_def ub_ok_def ub_null_def bp_ok_def
        bp_null_def prop_ok_def prop_default_def ub_slot_def HV_DVA_MAX_def numeral_2_eq_2)
  with uberblock_survives [OF _ _ _ w] w show ?thesis by (simp add: blank_disk_def)
qed

text \<open>Recovery takes the uberblock of the highest sector, not of the highest transaction group: once
  the last sector of the ring holds an accepted uberblock, a later one is not found until its group
  number is congruent to 127.\<close>

lemma uberblock_read_is_stale:
  assumes "ub_is_valid (spa_uberblock p)" "ub_ok (spa_uberblock p)"
    and "d (vdev_0_drive_id p) (phys_sector p (word_of_nat (ub_slot p))) \<noteq> None"
    and "write_uberblock_to_disk t d p = (d', p')"
    and old: "accepted_uberblock d p 127 = Some old" "ub_slot p \<noteq> 127"
  shows "read_uberblock_from_disk d' p' = Some old"
proof -
  have "accepted_uberblock d' p' 127 = Some old"
    using write_uberblock_slots(2) [OF assms(1-4), of 127] old by simp
  then show ?thesis by (rule read_uberblock_first) auto
qed

end
