(* ===== verification/Hv_Pool.thy ===== *)
theory Hv_Pool
  imports Hv_Spa
begin

text \<open>
  Histories of a storage pool: devices are added, block pointers are allocated and freed.  The
  theory composes the pool (\<^verbatim>\<open>spa.rs\<close>) with its metaslabs (\<^verbatim>\<open>metaslab.rs\<close>), block pointers (\<^verbatim>\<open>bp.rs\<close>)
  and devices (\<^verbatim>\<open>vdev.rs\<close>): the regions of live block pointers never overlap on a device, so data
  written through one is read back unchanged whatever is written through the others.
\<close>

section \<open>The metaslabs of a device\<close>

lemma metaslab_size [simp]: "unat HV_POOL_METASLAB_SIZE = 16777216" "HV_POOL_METASLAB_SIZE = 16777216"
  by (simp_all add: HV_POOL_METASLAB_SIZE_def)

text \<open>The bound on the size of a device that keeps the arithmetic of \<^verbatim>\<open>add_vdev\<close> exact.\<close>

definition asize_ok :: "u64 \<Rightarrow> bool" where
  "asize_ok a \<longleftrightarrow> unat a < 2 ^ 55"

definition metaslab_count :: "u64 \<Rightarrow> nat" where
  "metaslab_count asize = (unat asize + 16777215) div 16777216"

lemma n_ms:
  assumes "asize_ok asize"
  shows "unat (ucast (div_ceil asize HV_POOL_METASLAB_SIZE) :: u32) = metaslab_count asize"
proof -
  have "unat (div_ceil asize HV_POOL_METASLAB_SIZE) = metaslab_count asize"
    using assms by (subst unat_div_ceil_general) (auto simp: metaslab_count_def asize_ok_def)
  moreover have "metaslab_count asize < 2 ^ 32"
    using assms by (simp add: metaslab_count_def asize_ok_def div_less_iff_less_mult)
  ultimately show ?thesis by (simp add: unsigned_ucast_eq take_bit_nat_eq_self)
qed

lemma vdev_metaslab_range:
  fixes v l
  assumes "asize_ok asize" "i < metaslab_count asize"
  defines "ms \<equiv> vdev_metaslab v asize (metaslab_count asize) l i"
  shows "unat (ms_start ms) = 16777216 * i + 262144"
    and "unat (ms_size ms) = (if i < metaslab_count asize - 1 then 16777216 else unat asize - 16777216 * i)"
    and "ms_run ms {}" "unat (ms_size ms) \<le> 16777216" "ms_vdev_id ms = v" "0 < ms_size ms"
proof -
  have cnt: "16777216 * metaslab_count asize < unat asize + 16777216"
    "unat asize \<le> 16777216 * metaslab_count asize"
    unfolding metaslab_count_def
    using div_mult_mod_eq [of "unat asize + 16777215" 16777216] mod_less_divisor [of 16777216 "unat asize + 16777215"]
    by linarith+
  have lt: "16777216 * i < unat asize" using cnt(1) assms(2) by linarith
  let ?st = "word_of_nat i * HV_POOL_METASLAB_SIZE + HV_VDEV_LABEL_SIZE :: u64"
  have big: "16777216 * i + 262144 < 2 ^ 64" using lt assms(1) by (simp add: asize_ok_def)
  have mul: "unat (word_of_nat i * 16777216 :: u64) = 16777216 * i"
    using big by (simp add: unat_word_ariths unat_of_nat mult.commute)
  then have st: "unat ?st = 16777216 * i + 262144"
    using big by (simp add: HV_VDEV_LABEL_SIZE_def unat_word_ariths)
  have "asize - ?st + HV_VDEV_LABEL_SIZE = asize - word_of_nat i * 16777216" by simp
  moreover have "unat (asize - word_of_nat i * 16777216) = unat asize - 16777216 * i"
    using lt mul by (simp add: unat_sub_if')
  ultimately have sz: "unat (asize - ?st + HV_VDEV_LABEL_SIZE) = unat asize - 16777216 * i" by simp
  have fields: "ms_start (ms_new x v s z) = s" "ms_size (ms_new x v s z) = z" "ms_vdev_id (ms_new x v s z) = v"
    for x s z by (simp_all add: ms_new_def Let_def)
  show start: "unat (ms_start ms) = 16777216 * i + 262144"
    using st by (simp add: ms_def vdev_metaslab_def Let_def fields)
  show size: "unat (ms_size ms) = (if i < metaslab_count asize - 1 then 16777216 else unat asize - 16777216 * i)"
    using sz by (simp add: ms_def vdev_metaslab_def Let_def fields)
  show v: "ms_vdev_id ms = v" by (simp add: ms_def vdev_metaslab_def Let_def fields)
  show le: "unat (ms_size ms) \<le> 16777216"
  proof (cases "i < metaslab_count asize - 1")
    case False
    then have "i = metaslab_count asize - 1" using assms(2) by simp
    then show ?thesis using size cnt(2) assms(2) by (simp add: diff_mult_distrib2)
  qed (simp add: size)
  show "0 < ms_size ms" using size lt by (simp add: word_less_nat_alt split: if_splits)
  have "ms = ms_new (word_of_nat l) v (ms_start ms) (ms_size ms)"
    by (simp add: ms_def vdev_metaslab_def Let_def fields)
  moreover have "ms_run (ms_new (word_of_nat l) v (ms_start ms) (ms_size ms)) {}"
    using le start lt assms(1) by (intro ms_run.new) (simp_all add: asize_ok_def)
  ultimately show "ms_run ms {}" by simp
qed

text \<open>The metaslabs of a device end 262144 bytes (the size of the label) past its last byte.\<close>

lemma metaslabs_overrun:
  fixes v l
  assumes "asize_ok asize" "0 < asize"
  defines "ms \<equiv> vdev_metaslab v asize (metaslab_count asize) l (metaslab_count asize - 1)"
  shows "unat (ms_start ms) + unat (ms_size ms) = unat asize + 262144"
proof -
  have pos: "0 < metaslab_count asize"
    using assms(2) by (simp add: metaslab_count_def word_less_nat_alt div_greater_zero_iff)
  have "16777216 * metaslab_count asize < unat asize + 16777216"
    unfolding metaslab_count_def
    using div_mult_mod_eq [of "unat asize + 16777215" 16777216] by linarith
  then have "16777216 * (metaslab_count asize - 1) \<le> unat asize" by (simp add: diff_mult_distrib2)
  then show ?thesis
    using vdev_metaslab_range(1,2) [OF assms(1), of "metaslab_count asize - 1" v l] pos by (simp add: ms_def)
qed

section \<open>Frames\<close>

text \<open>What allocation and release leave alone: the place of a metaslab on its device.\<close>

definition ms_shape :: "hv_metaslab \<Rightarrow> u16 \<times> u64 \<times> u64" where
  "ms_shape ms = (ms_vdev_id ms, ms_start ms, ms_size ms)"

lemma fold_clear_vdev [simp]: "ms_vdev_id (fold clear_bit ks ms) = ms_vdev_id ms"
  by (induction ks arbitrary: ms) (simp_all add: clear_bit_def Let_def)

lemma fold_set_vdev [simp]:
  "ms_vdev_id (fold (\<lambda>b ms. if b < unat (ms_max_block ms) then set_bit_at b ms else ms) ks ms) = ms_vdev_id ms"
  by (induction ks arbitrary: ms) (simp_all add: set_bit_at_def Let_def)

lemma ms_alloc_shape [simp]: "ms_alloc sz ms = (r, ms') \<Longrightarrow> ms_shape ms' = ms_shape ms"
  by (auto simp: ms_alloc_def Let_def ms_shape_def update_weight_def split: if_splits option.splits)

lemma ms_free_shape [simp]: "ms_shape (ms_free off sz ms) = ms_shape ms"
  by (simp add: ms_free_def Let_def ms_shape_def update_weight_def)

lemma ms_alloc_fresh:
  assumes "ms_run ms live" "ms_alloc sz ms = (Some off, ms')"
  shows "(off, sz) \<notin> live"
proof
  assume live: "(off, sz) \<in> live"
  note inv = ms_run_inv [OF assms(1)]
  obtain s where off: "unat off = unat (ms_start ms) + 4096 * s" and sz: "0 < sz"
    and run: "free_run ms (unat (ms_max_block ms)) (block_count sz) s"
    using ms_alloc_SomeE [OF ms_inv_wf [OF inv] assms(2)] by metis
  have "s \<in> region_blocks ms (off, sz)"
    using block_count_bounds(3) [OF sz] by (simp add: region_blocks_def Let_def off)
  moreover have "s \<in> free_blocks ms"
    using run block_count_bounds(3) [OF sz] by (auto simp: free_run_blocks)
  ultimately show False using inv live by (auto simp: ms_inv_def)
qed

lemma best_metaslab_Some:
  assumes "best_metaslab r i w b mss = Some k" "b \<noteq> Some k"
  shows "i \<le> k \<and> k < i + length mss"
  using assms
proof (induction mss arbitrary: i w b)
  case (Cons ms mss)
  then show ?case
    using Cons.IH [of "Suc i"] by (fastforce split: if_splits)
qed simp

section \<open>The place of a block pointer\<close>

text \<open>A block pointer made by \<^verbatim>\<open>allocate\<close> has one device address; \<open>bp_region\<close> is its place there.\<close>

abbreviation bp_dva0 :: "hv_block_pointer \<Rightarrow> hv_dva" where
  "bp_dva0 bp \<equiv> bp_dva bp ! 0"

definition bp_region :: "hv_block_pointer \<Rightarrow> u64 \<times> u64" where
  "bp_region bp = (dva_offset (bp_dva0 bp), ucast (dva_asize (bp_dva0 bp)))"

definition single_dva :: "hv_block_pointer \<Rightarrow> bool" where
  "single_dva bp \<longleftrightarrow> get_dva bp 0 = Some (bp_dva0 bp) \<and> get_dva bp 1 = None"

lemma upt_DVA_MAX: "[0 ..< HV_DVA_MAX] = [0, 1]"
  by (simp add: HV_DVA_MAX_def upt_rec)

lemma dvd_round: "4096 dvd unat (div_ceil sz HV_POOL_BLOCK_SIZE * HV_POOL_BLOCK_SIZE :: u64)"
proof -
  have "unat (x * 4096 :: u64) = (unat x * 4096) mod 2 ^ 64" for x by (simp add: unat_word_ariths)
  moreover have "(4096 :: nat) dvd (k * 4096) mod 2 ^ 64" for k by (intro dvd_mod) simp_all
  ultimately show ?thesis by (simp add: HV_POOL_BLOCK_SIZE_def)
qed

lemma ucast_u32_back:
  fixes x :: u64
  assumes "unat x < 2 ^ 32"
  shows "ucast (ucast x :: u32) = x"
proof -
  have "unat (ucast x :: u32) = unat x" using assms by (simp add: unsigned_ucast_eq take_bit_nat_eq_self)
  moreover have "unat (ucast (ucast x :: u32) :: u64) = unat (ucast x :: u32)" by (rule unat_ucast_up) simp
  ultimately show ?thesis by (intro unsigned_word_eqI [where ?'a = nat]) simp
qed

text \<open>A successful allocation in the terms of the metaslab it used.\<close>

lemma allocate_SomeE:
  assumes "allocate sz kind cmp txg p = (Some bp, p')"
    and small: "\<And>ms. ms \<in> set (spa_metaslabs p) \<Longrightarrow> unat (ms_size ms) \<le> 16777216 \<and> 0 < unat (ms_start ms)"
    and runs: "\<And>ms. ms \<in> set (spa_metaslabs p) \<Longrightarrow> ms_wf ms"
  obtains i ms' where "i < length (spa_metaslabs p)"
    "ms_alloc (snd (bp_region bp)) (spa_metaslabs p ! i) = (Some (fst (bp_region bp)), ms')"
    "p' = p\<lparr>spa_metaslabs := (spa_metaslabs p)[i := ms'], spa_alloc_count := spa_alloc_count p + 1\<rparr>"
    "single_dva bp" "dva_vdev_id (bp_dva0 bp) = ms_vdev_id (spa_metaslabs p ! i)"
    "4096 dvd unat (snd (bp_region bp))"
proof -
  let ?r = "div_ceil sz HV_POOL_BLOCK_SIZE * HV_POOL_BLOCK_SIZE :: u64"
  obtain i ms' off where i: "best_metaslab ?r 0 0 None (spa_metaslabs p) = Some i"
    and al: "ms_alloc ?r (spa_metaslabs p ! i) = (Some off, ms')"
    and p': "p' = p\<lparr>spa_metaslabs := (spa_metaslabs p)[i := ms'], spa_alloc_count := spa_alloc_count p + 1\<rparr>"
    and dva: "bp_dva bp = bp_dva (set_dva 0 (dva_new (ms_vdev_id (spa_metaslabs p ! i)) off (ucast ?r)) bp_null)"
    using assms(1)
    by (auto simp: allocate_def Let_def set_birth_def split: option.splits prod.splits)
  have il: "i < length (spa_metaslabs p)" using best_metaslab_Some [OF i] by simp
  then have mem: "spa_metaslabs p ! i \<in> set (spa_metaslabs p)" by simp
  obtain s where off: "unat off = unat (ms_start (spa_metaslabs p ! i)) + 4096 * s"
    and le: "?r \<le> ms_size (spa_metaslabs p ! i)"
    using ms_alloc_SomeE [OF runs [OF mem] al] by metis
  have "unat ?r \<le> 16777216" using le small [OF mem] by (simp add: word_le_nat_alt)
  then have "ucast (ucast ?r :: u32) = ?r"
    by (intro ucast_u32_back) simp
  then have region: "bp_region bp = (off, ?r)"
    by (simp add: bp_region_def dva set_dva_def bp_null_def HV_DVA_MAX_def dva_new_def)
  have "off \<noteq> 0" using off small [OF mem] by (metis add_is_0 not_gr_zero unsigned_0)
  then have "single_dva bp"
    by (simp add: single_dva_def get_dva_def dva set_dva_def bp_null_def HV_DVA_MAX_def dva_is_null_def dva_new_def
        dva_null_def)
  moreover have "dva_vdev_id (bp_dva0 bp) = ms_vdev_id (spa_metaslabs p ! i)"
    by (simp add: dva set_dva_def bp_null_def HV_DVA_MAX_def dva_new_def)
  ultimately show thesis using that il al p' region dvd_round by simp
qed

lemma allocate_None:
  assumes "allocate sz kind cmp txg p = (None, p')"
    and "\<And>ms. ms \<in> set (spa_metaslabs p) \<Longrightarrow> ms_wf ms"
  shows "p' = p"
proof -
  let ?r = "div_ceil sz HV_POOL_BLOCK_SIZE * HV_POOL_BLOCK_SIZE :: u64"
  consider "p' = p" | i ms' where "best_metaslab ?r 0 0 None (spa_metaslabs p) = Some i"
    "ms_alloc ?r (spa_metaslabs p ! i) = (None, ms')" "p' = p\<lparr>spa_metaslabs := (spa_metaslabs p)[i := ms']\<rparr>"
    using assms(1) by (auto simp: allocate_def Let_def split: option.splits prod.splits)
  then show ?thesis
  proof cases
    case 2
    then have "i < length (spa_metaslabs p)" using best_metaslab_Some by fastforce
    then show ?thesis using 2 ms_alloc_None(1) [OF _ 2(2)] assms(2) by simp
  qed
qed

lemma free_dva_null: "get_dva bp i = None \<Longrightarrow> (case get_dva bp i of None \<Rightarrow> mss | Some dva \<Rightarrow> free_dva dva mss) = mss"
  by simp

lemma spa_free_single:
  assumes "single_dva bp"
  shows "spa_metaslabs (spa_free bp p) = free_dva (bp_dva0 bp) (spa_metaslabs p)"
    "spa_vdevs (spa_free bp p) = spa_vdevs p" "spa_partition_start (spa_free bp p) = spa_partition_start p"
  using assms by (simp_all add: spa_free_def upt_DVA_MAX single_dva_def Let_def)

section \<open>The layout of a pool\<close>

text \<open>The layout is fixed when devices are added: metaslabs of one device follow each other, behind
  the label; devices are different drives; the ring of uberblocks fits below the first metaslab of
  the first device.\<close>

definition layout :: "(u16 \<times> u64 \<times> u64) list \<Rightarrow> hv_vdev_config list \<Rightarrow> u32 \<Rightarrow> bool" where
  "layout shapes cfgs ps \<longleftrightarrow>
     (\<forall>i j. i < j \<longrightarrow> j < length shapes \<longrightarrow> fst (shapes ! i) = fst (shapes ! j) \<longrightarrow>
        unat (fst (snd (shapes ! i))) + unat (snd (snd (shapes ! i))) \<le> unat (fst (snd (shapes ! j))))
     \<and> (\<forall>(v, st, sz) \<in> set shapes. 262144 \<le> unat st \<and> 4096 dvd unat st \<and> unat sz \<le> 16777216
          \<and> unat st + unat sz < 2 ^ 56 \<and> v \<in> vc_vdev_id ` set cfgs)
     \<and> distinct (map (\<lambda>c. ucast (vc_vdev_id c) :: u8) cfgs)
     \<and> (cfgs \<noteq> [] \<longrightarrow> vc_partition_start (hd cfgs) = ps) \<and> unat ps + 128 \<le> 2 ^ 32"

abbreviation pool_layout :: "hv_spa \<Rightarrow> bool" where
  "pool_layout p \<equiv> layout (map ms_shape (spa_metaslabs p)) (map vd_config (spa_vdevs p)) (spa_partition_start p)"

lemma pool_layoutD:
  assumes "pool_layout p"
  shows "i < j \<Longrightarrow> j < length (spa_metaslabs p) \<Longrightarrow> ms_vdev_id (spa_metaslabs p ! i) = ms_vdev_id (spa_metaslabs p ! j) \<Longrightarrow>
      unat (ms_start (spa_metaslabs p ! i)) + unat (ms_size (spa_metaslabs p ! i)) \<le> unat (ms_start (spa_metaslabs p ! j))"
    and "ms \<in> set (spa_metaslabs p) \<Longrightarrow> 262144 \<le> unat (ms_start ms) \<and> 4096 dvd unat (ms_start ms)
      \<and> unat (ms_size ms) \<le> 16777216 \<and> unat (ms_start ms) + unat (ms_size ms) < 2 ^ 56
      \<and> ms_vdev_id ms \<in> vc_vdev_id ` vd_config ` set (spa_vdevs p)"
  using assms
   apply (simp add: layout_def ms_shape_def)
  using assms by (auto simp: layout_def ms_shape_def)

lemma layout_add_vdev:
  assumes "pool_layout p" "asize_ok (vc_asize c)"
    and "(ucast (vc_vdev_id c) :: u8) \<notin> (\<lambda>v. vd_drive v) ` set (spa_vdevs p)"
    and "spa_vdevs p = [] \<Longrightarrow> vc_partition_start c = spa_partition_start p"
  shows "pool_layout (snd (add_vdev c p))"
proof (cases "unat (sc_max_vdevs (spa_config p)) \<le> length (spa_vdevs p)")
  case True
  then show ?thesis using assms(1) by (simp add: add_vdev_def)
next
  case False
  define n where "n = (if 0 < vc_asize c then metaslab_count (vc_asize c) else 0)"
  define new where "new i = ms_shape (vdev_metaslab (vc_vdev_id c) (vc_asize c) n (length (spa_metaslabs p) + i) i)" for i
  let ?old = "map ms_shape (spa_metaslabs p)"
  let ?m = "length (spa_metaslabs p)"
  have p': "map ms_shape (spa_metaslabs (snd (add_vdev c p))) = ?old @ map new [0 ..< n]"
    "map vd_config (spa_vdevs (snd (add_vdev c p))) = map vd_config (spa_vdevs p) @ [c]"
    "spa_partition_start (snd (add_vdev c p)) = spa_partition_start p"
    using False assms(2) by (simp_all add: add_vdev_def Let_def vdev_new_def n_ms [simplified metaslab_size] o_def n_def new_def)
  have new_at: "fst (new i) = vc_vdev_id c" "unat (fst (snd (new i))) = 16777216 * i + 262144"
    "unat (snd (snd (new i))) \<le> 16777216" if "i < n" for i
    using vdev_metaslab_range [OF assms(2), of i "vc_vdev_id c" "?m + i"] that
    by (auto simp: ms_shape_def n_def new_def split: if_splits)
  have bound: "16777216 * i + 262144 < 2 ^ 55 + 262144" if "i < n" for i
  proof -
    have "i < metaslab_count (vc_asize c)" using that by (simp add: n_def split: if_splits)
    then show ?thesis using assms(2) unfolding metaslab_count_def asize_ok_def
      using div_mult_mod_eq [of "unat (vc_asize c) + 16777215" 16777216] by linarith
  qed
  have other: "fst (?old ! i) \<noteq> vc_vdev_id c" if "i < ?m" for i
  proof -
    have "ms_vdev_id (spa_metaslabs p ! i) \<in> vc_vdev_id ` vd_config ` set (spa_vdevs p)"
      using pool_layoutD(2) [OF assms(1)] that by simp
    then show ?thesis using assms(3) that by (auto simp: ms_shape_def)
  qed
  have order: "unat (fst (snd (s ! i))) + unat (snd (snd (s ! i))) \<le> unat (fst (snd (s ! j)))"
    if "s = ?old @ map new [0 ..< n]" "i < j" "j < length s" "fst (s ! i) = fst (s ! j)" for s i j
  proof (cases "j < ?m")
    case True
    then show ?thesis using assms(1) that by (simp add: layout_def nth_append)
  next
    case nj: False
    then have ni: "\<not> i < ?m" using that other [of i] new_at(1) [of "j - ?m"] by (auto simp: nth_append)
    have lt: "i - ?m < n" "j - ?m < n" "i - ?m < j - ?m" using that ni nj by auto
    have at: "s ! i = new (i - ?m)" "s ! j = new (j - ?m)"
      using that ni nj lt by (auto simp: nth_append)
    have "16777216 * (i - ?m) + 16777216 \<le> 16777216 * (j - ?m)" using lt(3) by linarith
    then show ?thesis unfolding at using new_at(2,3) [OF lt(1)] new_at(2) [OF lt(2)] by linarith
  qed
  have place: "262144 \<le> unat st \<and> 4096 dvd unat st \<and> unat sz \<le> 16777216 \<and> unat st + unat sz < 2 ^ 56
      \<and> v = vc_vdev_id c"
    if "(v, st, sz) = new i" "i < n" for v st sz i
  proof -
    have st: "unat st = 16777216 * i + 262144" "unat sz \<le> 16777216"
      using new_at(2,3) [OF that(2)] by (simp_all flip: that(1))
    have "16777216 * i + 262144 = 4096 * (4096 * i + 64)" by simp
    then have "4096 dvd unat st" using st(1) by (metis dvd_triv_left)
    moreover have "v = vc_vdev_id c" using new_at(1) [OF that(2)] by (simp flip: that(1))
    ultimately show ?thesis using st bound [OF that(2)] by simp
  qed
  show ?thesis
    unfolding p' layout_def
    using order place assms(1,3,4)
    by (auto simp: layout_def hd_append split: if_splits)
qed

section \<open>Histories of the allocator\<close>

text \<open>\<open>owned own live i\<close>: the regions of the live block pointers that metaslab \<open>i\<close> handed out.  The
  assignment \<open>own\<close> of block pointers to metaslabs appears in proofs only.\<close>

definition owned :: "(hv_block_pointer \<Rightarrow> nat) \<Rightarrow> hv_block_pointer set \<Rightarrow> nat \<Rightarrow> (u64 \<times> u64) set" where
  "owned own live i = bp_region ` {bp \<in> live. own bp = i}"

definition alloc_inv :: "hv_spa \<Rightarrow> hv_block_pointer set \<Rightarrow> (hv_block_pointer \<Rightarrow> nat) \<Rightarrow> bool" where
  "alloc_inv p live own \<longleftrightarrow> pool_layout p
     \<and> (\<forall>i < length (spa_metaslabs p). ms_run (spa_metaslabs p ! i) (owned own live i))
     \<and> (\<forall>bp \<in> live. own bp < length (spa_metaslabs p) \<and> single_dva bp \<and> 4096 dvd unat (snd (bp_region bp))
          \<and> dva_vdev_id (bp_dva0 bp) = ms_vdev_id (spa_metaslabs p ! own bp))
     \<and> (\<forall>bp \<in> live. \<forall>bq \<in> live. own bp = own bq \<longrightarrow> bp_region bp = bp_region bq \<longrightarrow> bp = bq)"

lemma alloc_inv_wf: "alloc_inv p live own \<Longrightarrow> ms \<in> set (spa_metaslabs p) \<Longrightarrow> ms_wf ms"
  using ms_inv_wf [OF ms_run_inv] by (metis alloc_inv_def in_set_conv_nth)

text \<open>Every live block pointer lies in the metaslab that handed it out.\<close>

lemma alloc_inv_inside:
  assumes "alloc_inv p live own" "bp \<in> live"
  defines "ms \<equiv> spa_metaslabs p ! own bp"
  shows "ms \<in> set (spa_metaslabs p)" "unat (ms_start ms) \<le> unat (fst (bp_region bp))" "0 < snd (bp_region bp)"
    "unat (fst (bp_region bp)) + unat (snd (bp_region bp)) \<le> unat (ms_start ms) + unat (ms_size ms)"
    "4096 dvd unat (fst (bp_region bp)) - unat (ms_start ms)"
proof -
  have run: "ms_run ms (owned own live (own bp))" and l: "own bp < length (spa_metaslabs p)"
    using assms by (simp_all add: alloc_inv_def)
  have mem: "bp_region bp \<in> owned own live (own bp)" using assms(2) by (simp add: owned_def)
  show "ms \<in> set (spa_metaslabs p)" using l by (simp add: ms_def)
  show "unat (ms_start ms) \<le> unat (fst (bp_region bp))" "0 < snd (bp_region bp)"
    "unat (fst (bp_region bp)) + unat (snd (bp_region bp)) \<le> unat (ms_start ms) + unat (ms_size ms)"
    "4096 dvd unat (fst (bp_region bp)) - unat (ms_start ms)"
    using ms_run_inside [OF run mem] by simp_all
qed

definition bp_bytes :: "hv_block_pointer \<Rightarrow> nat set" where
  "bp_bytes bp = {unat (fst (bp_region bp)) ..< unat (fst (bp_region bp)) + unat (snd (bp_region bp))}"

lemma alloc_inv_disjoint:
  assumes inv: "alloc_inv p live own" and live: "bp \<in> live" "bq \<in> live" "bp \<noteq> bq"
    and vdev: "dva_vdev_id (bp_dva0 bp) = dva_vdev_id (bp_dva0 bq)"
  shows "bp_bytes bp \<inter> bp_bytes bq = {}"
proof (cases "own bp = own bq")
  case True
  then have "bp_region bp \<noteq> bp_region bq" using inv live by (auto simp: alloc_inv_def)
  moreover have "ms_run (spa_metaslabs p ! own bp) (owned own live (own bp))"
    "bp_region bp \<in> owned own live (own bp)" "bp_region bq \<in> owned own live (own bp)"
    using inv live True by (auto simp: alloc_inv_def owned_def)
  ultimately show ?thesis using ms_run_disjoint by (simp add: bp_bytes_def)
next
  case False
  have "bp_bytes b \<inter> bp_bytes b' = {}" if "b \<in> live" "b' \<in> live" "own b < own b'"
    "dva_vdev_id (bp_dva0 b) = dva_vdev_id (bp_dva0 b')" for b b'
  proof -
    have "own b' < length (spa_metaslabs p)"
      "ms_vdev_id (spa_metaslabs p ! own b) = ms_vdev_id (spa_metaslabs p ! own b')"
      using inv that by (auto simp: alloc_inv_def)
    then have "unat (ms_start (spa_metaslabs p ! own b)) + unat (ms_size (spa_metaslabs p ! own b))
        \<le> unat (ms_start (spa_metaslabs p ! own b'))"
      using pool_layoutD(1) [of p "own b" "own b'"] inv that(3) by (simp add: alloc_inv_def)
    then show ?thesis
      using alloc_inv_inside(4) [OF inv that(1)] alloc_inv_inside(2) [OF inv that(2)]
      by (auto simp: bp_bytes_def)
  qed
  with False live vdev show ?thesis by (metis inf_commute nat_neq_iff)
qed

lemma alloc_inv_allocate:
  assumes inv: "alloc_inv p live own" and al: "allocate sz kind cmp txg p = (Some bp, p')"
  shows "\<exists>own'. alloc_inv p' (insert bp live) own'" "bp \<notin> live"
    "spa_vdevs p' = spa_vdevs p" "spa_partition_start p' = spa_partition_start p"
proof -
  let ?mss = "spa_metaslabs p"
  have lay: "pool_layout p" using inv by (simp add: alloc_inv_def)
  obtain i ms' where i: "i < length ?mss"
    and ms': "ms_alloc (snd (bp_region bp)) (?mss ! i) = (Some (fst (bp_region bp)), ms')"
    and p': "p' = p\<lparr>spa_metaslabs := ?mss[i := ms'], spa_alloc_count := spa_alloc_count p + 1\<rparr>"
    and bp: "single_dva bp" "dva_vdev_id (bp_dva0 bp) = ms_vdev_id (?mss ! i)" "4096 dvd unat (snd (bp_region bp))"
    using allocate_SomeE [OF al] pool_layoutD(2) [OF lay] alloc_inv_wf [OF inv] by (smt (verit) zero_less_numeral less_le_trans)
  have run: "ms_run (?mss ! i) (owned own live i)" using inv i by (simp add: alloc_inv_def)
  have run': "ms_run ms' (insert (bp_region bp) (owned own live i))"
    using ms_run.alloc [OF run ms'] by simp
  have fresh: "bp_region bp \<notin> owned own live i" using ms_alloc_fresh [OF run ms'] by simp
  show new: "bp \<notin> live"
  proof
    assume old: "bp \<in> live"
    then have neq: "own bp \<noteq> i" using fresh by (auto simp: owned_def)
    have v: "ms_vdev_id (?mss ! own bp) = ms_vdev_id (?mss ! i)" "own bp < length ?mss"
      using inv old bp(2) by (auto simp: alloc_inv_def)
    note a = alloc_inv_inside [OF inv old]
    have b: "unat (ms_start (?mss ! i)) \<le> unat (fst (bp_region bp))"
      "unat (fst (bp_region bp)) + unat (snd (bp_region bp)) \<le> unat (ms_start (?mss ! i)) + unat (ms_size (?mss ! i))"
      using ms_run_inside [OF run', of "bp_region bp"] ms_alloc_shape [OF ms'] by (simp_all add: ms_shape_def)
    have "0 < unat (snd (bp_region bp))" using a(3) by (simp add: word_less_nat_alt)
    then show False
      using neq pool_layoutD(1) [OF lay, of i "own bp"] pool_layoutD(1) [OF lay, of "own bp" i] v i a(2,4) b
      by (cases "own bp < i") auto
  qed
  let ?own = "own(bp := i)"
  have set: "{b \<in> insert bp live. ?own b = j} = (if j = i then insert bp {b \<in> live. own b = i} else {b \<in> live. own b = j})" for j
    using new by auto
  have "alloc_inv p' (insert bp live) ?own"
    unfolding alloc_inv_def
  proof (intro conjI allI impI ballI)
    show "pool_layout p'" using lay i ms_alloc_shape [OF ms']
      by (simp add: p' map_update) (metis list_update_id map_update)
    fix j assume "j < length (spa_metaslabs p')"
    moreover have "owned ?own (insert bp live) j
        = (if j = i then insert (bp_region bp) (owned own live i) else owned own live j)"
      by (simp only: owned_def set) auto
    ultimately show "ms_run (spa_metaslabs p' ! j) (owned ?own (insert bp live) j)"
      using run' inv by (auto simp: p' nth_list_update alloc_inv_def)
  next
    fix b assume b: "b \<in> insert bp live"
    have vd: "ms_vdev_id (?mss[i := ms'] ! j) = ms_vdev_id (?mss ! j)" for j
      using ms_alloc_shape [OF ms'] by (auto simp: ms_shape_def nth_list_update_if)
    show "?own b < length (spa_metaslabs p')" "single_dva b" "4096 dvd unat (snd (bp_region b))"
      "dva_vdev_id (bp_dva0 b) = ms_vdev_id (spa_metaslabs p' ! ?own b)"
      using b inv i bp new by (auto simp: alloc_inv_def p' vd)
    fix b' assume b': "b' \<in> insert bp live" "?own b = ?own b'" "bp_region b = bp_region b'"
    have "bp_region x \<noteq> bp_region bp" if "x \<in> live" "own x = i" for x
      using fresh that by (metis (mono_tags, lifting) imageI mem_Collect_eq owned_def)
    then show "b = b'" using b b' inv new by (fastforce simp: alloc_inv_def split: if_splits)
  qed
  then show "\<exists>own'. alloc_inv p' (insert bp live) own'" by blast
  show "spa_vdevs p' = spa_vdevs p" "spa_partition_start p' = spa_partition_start p" by (simp_all add: p')
qed

lemma alloc_inv_free:
  assumes inv: "alloc_inv p live own" and bp: "bp \<in> live"
  shows "alloc_inv (spa_free bp p) (live - {bp}) own"
proof -
  let ?mss = "spa_metaslabs p" and ?i = "own bp" and ?d = "bp_dva0 bp"
  have lay: "pool_layout p" and one: "single_dva bp" and i: "?i < length ?mss"
    and v: "dva_vdev_id ?d = ms_vdev_id (?mss ! ?i)"
    using inv bp by (simp_all add: alloc_inv_def)
  note a = alloc_inv_inside [OF inv bp]
  have pos: "0 < unat (snd (bp_region bp))" using a(3) by (simp add: word_less_nat_alt)
  have off: "dva_offset ?d = fst (bp_region bp)" by (simp add: bp_region_def)
  let ?in = "\<lambda>ms. ms_vdev_id ms = dva_vdev_id ?d \<and> saturating_sub (dva_offset ?d) (ms_start ms) < ms_size ms"
  have "find_idx ?in ?mss = Some ?i"
    unfolding find_idx_Some_iff
  proof (intro conjI allI impI)
    show "saturating_sub (dva_offset ?d) (ms_start (?mss ! ?i)) < ms_size (?mss ! ?i)"
      using a(2,4) pos by (simp add: word_less_nat_alt unat_saturating_sub off)
    fix j assume j: "j < ?i"
    have "unat (ms_start (?mss ! j)) + unat (ms_size (?mss ! j)) \<le> unat (fst (bp_region bp))"
      if "ms_vdev_id (?mss ! j) = dva_vdev_id ?d"
      using pool_layoutD(1) [OF lay j i] that v a(2) by simp
    then show "\<not> ?in (?mss ! j)" by (auto simp: word_less_nat_alt unat_saturating_sub off)
  qed (use i v in simp_all)
  then have mss': "spa_metaslabs (spa_free bp p)
      = ?mss[?i := ms_free (fst (bp_region bp)) (snd (bp_region bp)) (?mss ! ?i)]"
    by (simp add: spa_free_single [OF one] free_dva_def bp_region_def)
  have own: "owned own (live - {bp}) j = (if j = ?i then owned own live ?i - {bp_region bp} else owned own live j)" for j
    using inv bp by (auto simp: owned_def alloc_inv_def)
  have run: "ms_run (?mss ! ?i) (owned own live ?i)" "bp_region bp \<in> owned own live ?i"
    using inv i bp by (auto simp: alloc_inv_def owned_def)
  have run': "ms_run (ms_free (fst (bp_region bp)) (snd (bp_region bp)) (?mss ! ?i)) (owned own live ?i - {bp_region bp})"
    using ms_run.free [OF run(1), of "fst (bp_region bp)" "snd (bp_region bp)"] run(2) by simp
  have "ms_shape (ms_free (fst (bp_region bp)) (snd (bp_region bp)) (?mss ! ?i)) = map ms_shape ?mss ! ?i"
    using i by simp
  then have shapes: "map ms_shape (spa_metaslabs (spa_free bp p)) = map ms_shape ?mss"
    by (simp only: mss' map_update list_update_id)
  then have vd: "j < length ?mss \<Longrightarrow> ms_vdev_id (spa_metaslabs (spa_free bp p) ! j) = ms_vdev_id (?mss ! j)" for j
    by (metis fst_conv length_map ms_shape_def nth_map)
  show ?thesis
    unfolding alloc_inv_def shapes spa_free_single(2,3) [OF one]
    using lay inv run' vd by (auto simp: mss' own nth_list_update alloc_inv_def)
qed

lemma alloc_inv_add_vdev:
  assumes inv: "alloc_inv p live own" and c: "asize_ok (vc_asize c)"
    "(ucast (vc_vdev_id c) :: u8) \<notin> (\<lambda>v. vd_drive v) ` set (spa_vdevs p)"
    "spa_vdevs p = [] \<Longrightarrow> vc_partition_start c = spa_partition_start p"
  shows "alloc_inv (snd (add_vdev c p)) live own"
proof -
  let ?p = "snd (add_vdev c p)"
  have lay: "pool_layout ?p" using layout_add_vdev [OF _ c] inv by (simp add: alloc_inv_def)
  obtain ns where ns: "spa_metaslabs ?p = spa_metaslabs p @ ns" and run: "\<forall>ms \<in> set ns. ms_run ms {}"
  proof (cases "unat (sc_max_vdevs (spa_config p)) \<le> length (spa_vdevs p) \<or> vc_asize c = 0")
    case True
    then show thesis using that [of "[]"] by (auto simp: add_vdev_def Let_def)
  next
    case False
    let ?ns = "map (\<lambda>i. vdev_metaslab (vc_vdev_id c) (vc_asize c) (metaslab_count (vc_asize c))
        (length (spa_metaslabs p) + i) i) [0 ..< metaslab_count (vc_asize c)]"
    have "spa_metaslabs ?p = spa_metaslabs p @ ?ns"
      using False by (simp add: add_vdev_def Let_def n_ms [OF c(1), simplified metaslab_size] word_gt_0)
    moreover have "\<forall>ms \<in> set ?ns. ms_run ms {}" using vdev_metaslab_range(3) [OF c(1)] by simp
    ultimately show thesis by (rule that)
  qed
  have "owned own live i = {}" if "length (spa_metaslabs p) \<le> i" for i
    using inv that by (auto simp: owned_def alloc_inv_def)
  then show ?thesis
    unfolding alloc_inv_def using lay inv run
    by (auto simp: alloc_inv_def ns nth_append)
qed

end
