(* ===== verification/Hv_Store.thy ===== *)
theory Hv_Store
  imports Hv_Pool
begin

text \<open>
  A storage pool in use: devices are added, block pointers are allocated, freed, written and read,
  uberblocks are written to the ring.  The pool (\<^verbatim>\<open>spa.rs\<close>), its metaslabs (\<^verbatim>\<open>metaslab.rs\<close>), the devices
  (\<^verbatim>\<open>vdev.rs\<close>) and the uberblocks together implement a store of blocks: what was last written through
  a live block pointer is read back through it, whatever the other operations do.
\<close>

section \<open>The sectors of a block pointer\<close>

definition bp_drive :: "hv_block_pointer \<Rightarrow> u8" where
  "bp_drive bp = ucast (dva_vdev_id (bp_dva0 bp))"

definition bp_count :: "hv_block_pointer \<Rightarrow> nat" where
  "bp_count bp = unat (div_ceil (dva_asize (bp_dva0 bp)) 512)"

definition bp_first :: "hv_vdev_config list \<Rightarrow> hv_block_pointer \<Rightarrow> u64" where
  "bp_first cfgs bp =
     (case List.find (\<lambda>c. vc_vdev_id c = dva_vdev_id (bp_dva0 bp)) cfgs of
        None \<Rightarrow> 0
      | Some c \<Rightarrow> ucast (vc_partition_start c) + dva_offset (bp_dva0 bp) div 512)"

abbreviation pool_cfgs :: "hv_spa \<Rightarrow> hv_vdev_config list" where
  "pool_cfgs p \<equiv> map vd_config (spa_vdevs p)"

abbreviation bp_span :: "hv_spa \<Rightarrow> hv_block_pointer \<Rightarrow> u64 set" where
  "bp_span p bp \<equiv> sector_span (bp_first (pool_cfgs p) bp) (bp_count bp)"

lemma find_of_find_idx: "find_idx P xs = Some k \<Longrightarrow> List.find P xs = Some (xs ! k)"
  by (auto simp: find_idx_Some_iff find_Some_iff)

lemma find_map_config: "List.find P (map f xs) = map_option f (List.find (\<lambda>x. P (f x)) xs)"
  by (induction xs) auto

lemma ivl_apart:
  fixes a b :: nat
  assumes "{a ..< a + m} \<inter> {b ..< b + n} = {}" "0 < m" "0 < n"
  shows "a + m \<le> b \<or> b + n \<le> a"
proof (rule ccontr)
  assume "\<not> ?thesis"
  then have "max a b \<in> {a ..< a + m} \<inter> {b ..< b + n}" using assms(2,3) by auto
  with assms(1) show False by simp
qed

text \<open>The device, the first sector and the number of sectors of a live block pointer.\<close>

lemma bp_place:
  assumes inv: "alloc_inv p live own" and bp: "bp \<in> live"
  obtains k where "vdev_index p (bp_dva0 bp) = Some k" "k < length (spa_vdevs p)"
    "vd_drive (spa_vdevs p ! k) = bp_drive bp"
    "bp_first (pool_cfgs p) bp = vd_first (spa_vdevs p ! k) (dva_offset (bp_dva0 bp) div 512)"
    "unat (bp_first (pool_cfgs p) bp)
      = unat (vc_partition_start (vd_config (spa_vdevs p ! k))) + unat (fst (bp_region bp)) div 512"
    "unat (bp_first (pool_cfgs p) bp) + bp_count bp < 2 ^ 64" "512 * bp_count bp = unat (snd (bp_region bp))"
    "512 \<le> unat (fst (bp_region bp)) div 512" "512 * (unat (fst (bp_region bp)) div 512) = unat (fst (bp_region bp))"
proof -
  let ?ms = "spa_metaslabs p ! own bp" and ?o = "fst (bp_region bp)" and ?z = "snd (bp_region bp)"
  let ?d = "bp_dva0 bp"
  have lay: "pool_layout p" and v: "dva_vdev_id ?d = ms_vdev_id ?ms" and z: "4096 dvd unat ?z"
    using inv bp by (simp_all add: alloc_inv_def)
  note a = alloc_inv_inside [OF inv bp]
  note g = pool_layoutD(2) [OF lay a(1)]
  have "find_idx (\<lambda>v. vc_vdev_id (vd_config v) = dva_vdev_id ?d) (spa_vdevs p) \<noteq> None"
    using g v by (auto simp: find_idx_None_iff)
  then obtain k where k: "vdev_index p ?d = Some k" by blast
  then have kl: "k < length (spa_vdevs p)" and kid: "vc_vdev_id (vd_config (spa_vdevs p ! k)) = dva_vdev_id ?d"
    using find_idx_SomeD(1,2) by fastforce+
  have drive: "vd_drive (spa_vdevs p ! k) = bp_drive bp" by (simp add: bp_drive_def kid)
  have first: "bp_first (pool_cfgs p) bp = vd_first (spa_vdevs p ! k) (dva_offset ?d div 512)"
    using find_of_find_idx [OF k] by (simp add: bp_first_def find_map_config)
  have off: "unat (dva_offset ?d) = unat ?o" by (simp add: bp_region_def)
  have lt: "unat ?o + unat ?z < 2 ^ 56" using a(4) g by linarith
  have ps: "unat (ucast (vc_partition_start (vd_config (spa_vdevs p ! k))) :: u64)
      = unat (vc_partition_start (vd_config (spa_vdevs p ! k)))" by (rule unat_ucast_up) simp
  have pb: "unat (vc_partition_start (vd_config (spa_vdevs p ! k))) < 2 ^ 32"
    using unat_bound [of "vc_partition_start (vd_config (spa_vdevs p ! k))"] by simp
  have od: "unat ?o div 512 < 2 ^ 56" using lt by linarith
  have uf: "unat (bp_first (pool_cfgs p) bp)
      = unat (vc_partition_start (vd_config (spa_vdevs p ! k))) + unat ?o div 512"
    using ps pb od by (simp add: first unat_word_ariths unat_div off)
  have "unat (dva_asize ?d) = unat ?z" by (simp add: bp_region_def unat_ucast_up)
  moreover have "unat (dva_asize ?d) + 512 < 2 ^ 32"
  proof -
    have "unat ?z \<le> 16777216" using a(2,4) g by linarith
    then show ?thesis using \<open>unat (dva_asize ?d) = unat ?z\<close> by simp
  qed
  ultimately have cnt: "bp_count bp = (unat ?z + 511) div 512"
    by (simp add: bp_count_def unat_div_ceil_general)
  obtain q where q: "unat ?z = 4096 * q" using z by blast
  have c: "512 * bp_count bp = unat ?z" by (simp add: cnt q)
  have "4096 dvd unat ?o"
    using a(5) g a(2) by (metis dvd_diffD)
  then obtain w where w: "unat ?o = 4096 * w" by blast
  have o512: "512 * (unat ?o div 512) = unat ?o" by (simp add: w)
  have "512 * (unat ?o div 512) + 512 * bp_count bp < 2 ^ 56" using lt c o512 by simp
  then have "unat (bp_first (pool_cfgs p) bp) + bp_count bp < 2 ^ 64" using uf pb by simp
  moreover have "512 \<le> unat ?o div 512" using a(2) g o512 by linarith
  ultimately show thesis using that k kl drive first uf c o512 by blast
qed

lemma spans_disjoint:
  assumes inv: "alloc_inv p live own" and live: "bp \<in> live" "bq \<in> live" "bp \<noteq> bq"
    and drive: "bp_drive bp = bp_drive bq"
  shows "bp_span p bp \<inter> bp_span p bq = {}"
proof -
  obtain k where k: "vdev_index p (bp_dva0 bp) = Some k" "k < length (spa_vdevs p)" "vd_drive (spa_vdevs p ! k) = bp_drive bp"
    "unat (bp_first (pool_cfgs p) bp) = unat (vc_partition_start (vd_config (spa_vdevs p ! k))) + unat (fst (bp_region bp)) div 512"
    "512 * bp_count bp = unat (snd (bp_region bp))" "512 * (unat (fst (bp_region bp)) div 512) = unat (fst (bp_region bp))"
    using bp_place [OF inv live(1)] by metis
  obtain l where l: "vdev_index p (bp_dva0 bq) = Some l" "l < length (spa_vdevs p)" "vd_drive (spa_vdevs p ! l) = bp_drive bq"
    "unat (bp_first (pool_cfgs p) bq) = unat (vc_partition_start (vd_config (spa_vdevs p ! l))) + unat (fst (bp_region bq)) div 512"
    "512 * bp_count bq = unat (snd (bp_region bq))" "512 * (unat (fst (bp_region bq)) div 512) = unat (fst (bp_region bq))"
    using bp_place [OF inv live(2)] by metis
  have "distinct (map vd_drive (spa_vdevs p))" using inv by (simp add: alloc_inv_def layout_def o_def)
  then have "map vd_drive (spa_vdevs p) ! k = map vd_drive (spa_vdevs p) ! l \<longleftrightarrow> k = l"
    using k(2) l(2) by (intro nth_eq_iff_index_eq) simp_all
  then have kl: "k = l" using k(2,3) l(2,3) drive by simp
  have "dva_vdev_id (bp_dva0 bp) = dva_vdev_id (bp_dva0 bq)"
    using find_idx_SomeD(2) [OF k(1)] find_idx_SomeD(2) [OF l(1)] kl by simp
  then have dis: "bp_bytes bp \<inter> bp_bytes bq = {}" using alloc_inv_disjoint [OF inv live] by simp
  have nz: "0 < unat (snd (bp_region bp))" "0 < unat (snd (bp_region bq))"
    using alloc_inv_inside(3) [OF inv live(1)] alloc_inv_inside(3) [OF inv live(2)] by (simp_all add: word_less_nat_alt)
  have "unat (fst (bp_region bp)) + unat (snd (bp_region bp)) \<le> unat (fst (bp_region bq))
      \<or> unat (fst (bp_region bq)) + unat (snd (bp_region bq)) \<le> unat (fst (bp_region bp))"
    using ivl_apart [OF _ nz] dis by (simp add: bp_bytes_def)
  then have "unat (bp_first (pool_cfgs p) bp) + bp_count bp \<le> unat (bp_first (pool_cfgs p) bq)
      \<or> unat (bp_first (pool_cfgs p) bq) + bp_count bq \<le> unat (bp_first (pool_cfgs p) bp)"
    using k(4-6) l(4) [folded kl] l(5,6) by linarith
  then show ?thesis by (auto simp: sector_span_def)
qed

section \<open>Reads and writes through a live block pointer\<close>

lemma write_bp_single:
  assumes "single_dva bp" "vdev_index p (bp_dva0 bp) = Some k"
  shows "write_bp err bp buf d p =
    (case write_sectors err (dva_offset (bp_dva0 bp) div 512) (div_ceil (dva_asize (bp_dva0 bp)) 512) buf d (spa_vdevs p ! k) of
       (r, d, v) \<Rightarrow> let p = p\<lparr>spa_vdevs := (spa_vdevs p)[k := v]\<rparr>
         in if r \<noteq> 0 then (r, d, p) else (0, d, p\<lparr>spa_write_count := spa_write_count p + 1\<rparr>))"
  using assms by (simp add: write_bp_def upt_DVA_MAX single_dva_def Let_def split: prod.splits)

lemma read_bp_single:
  assumes "single_dva bp" "vdev_index p (bp_dva0 bp) = Some k"
  shows "read_bp d err bp buf p =
    (case read_sectors d err (dva_offset (bp_dva0 bp) div 512) (div_ceil (dva_asize (bp_dva0 bp)) 512) buf (spa_vdevs p ! k) of
       (r, buf, v) \<Rightarrow> let p = p\<lparr>spa_vdevs := (spa_vdevs p)[k := v]\<rparr>
         in if r = 0 then (0, buf, p\<lparr>spa_read_count := spa_read_count p + 1\<rparr>) else (- 1, buf, p))"
  using assms by (simp add: read_bp_def upt_DVA_MAX single_dva_def Let_def split: prod.splits)

text \<open>The part of a pool that reads and writes leave alone.\<close>

definition same_pool :: "hv_spa \<Rightarrow> hv_spa \<Rightarrow> bool" where
  "same_pool p p' \<longleftrightarrow> spa_metaslabs p' = spa_metaslabs p \<and> pool_cfgs p' = pool_cfgs p
     \<and> spa_partition_start p' = spa_partition_start p"

lemma same_pool_vdev:
  assumes "vd_config v = vd_config (spa_vdevs p ! k)" "k < length (spa_vdevs p)"
  shows "pool_cfgs (p\<lparr>spa_vdevs := (spa_vdevs p)[k := v]\<rparr>) = pool_cfgs p"
  using assms by (simp add: map_update) (metis list_update_id nth_map)

lemma same_pool_alloc_inv: "same_pool p p' \<Longrightarrow> alloc_inv p live own \<Longrightarrow> alloc_inv p' live own"
  by (simp add: same_pool_def alloc_inv_def)

lemma write_bp_live:
  assumes inv: "alloc_inv p live own" "bp \<in> live" and err: "err \<noteq> 0"
    and w: "write_bp err bp buf d p = (r, d', p')"
  shows "same_pool p p'" "confined (bp_drive bp) (bp_first (pool_cfgs p) bp) (bp_count bp) d d'"
    "r = 0 \<Longrightarrow> wrote (bp_drive bp) (bp_first (pool_cfgs p) bp) (bp_count bp) (take (512 * bp_count bp) buf) d d'
      \<and> sectors_present d (bp_drive bp) (bp_first (pool_cfgs p) bp) (bp_count bp) \<and> 512 * bp_count bp \<le> length buf"
proof -
  obtain k where k: "vdev_index p (bp_dva0 bp) = Some k" "k < length (spa_vdevs p)"
    "vd_drive (spa_vdevs p ! k) = bp_drive bp"
    "bp_first (pool_cfgs p) bp = vd_first (spa_vdevs p ! k) (dva_offset (bp_dva0 bp) div 512)"
    "unat (bp_first (pool_cfgs p) bp) + bp_count bp < 2 ^ 64"
    using bp_place [OF inv] by metis
  have one: "single_dva bp" using inv by (simp add: alloc_inv_def)
  obtain v where ws: "write_sectors err (dva_offset (bp_dva0 bp) div 512) (div_ceil (dva_asize (bp_dva0 bp)) 512) buf d
      (spa_vdevs p ! k) = (r, d', v)"
    and p': "same_pool (p\<lparr>spa_vdevs := (spa_vdevs p)[k := v]\<rparr>) p'"
    using w by (auto simp: write_bp_single [OF one k(1)] Let_def same_pool_def split: prod.splits if_splits)
  note c = write_sectors_confined [OF k(5) [unfolded k(4) bp_count_def] err ws]
  show "same_pool p p'" using p' same_pool_vdev [OF c(1) k(2)] by (simp add: same_pool_def)
  show "confined (bp_drive bp) (bp_first (pool_cfgs p) bp) (bp_count bp) d d'"
    using c(2) by (simp add: k(3,4) bp_count_def)
  show "wrote (bp_drive bp) (bp_first (pool_cfgs p) bp) (bp_count bp) (take (512 * bp_count bp) buf) d d'
      \<and> sectors_present d (bp_drive bp) (bp_first (pool_cfgs p) bp) (bp_count bp) \<and> 512 * bp_count bp \<le> length buf"
    if "r = 0" using c(3) [OF that] by (simp add: k(3,4) bp_count_def)
qed

lemma write_bp_succeeds:
  assumes inv: "alloc_inv p live own" "bp \<in> live" and "512 * bp_count bp \<le> length buf"
    and "sectors_present d (bp_drive bp) (bp_first (pool_cfgs p) bp) (bp_count bp)"
  shows "fst (write_bp err bp buf d p) = 0"
proof -
  obtain k where k: "vdev_index p (bp_dva0 bp) = Some k" "vd_drive (spa_vdevs p ! k) = bp_drive bp"
    "bp_first (pool_cfgs p) bp = vd_first (spa_vdevs p ! k) (dva_offset (bp_dva0 bp) div 512)"
    using bp_place [OF inv] by metis
  have one: "single_dva bp" using inv by (simp add: alloc_inv_def)
  show ?thesis
    using write_sectors_wrote [of d "spa_vdevs p ! k" "dva_offset (bp_dva0 bp) div 512"
        "div_ceil (dva_asize (bp_dva0 bp)) 512" buf err] assms(3,4)
    by (auto simp: write_bp_single [OF one k(1)] k(2,3) bp_count_def Let_def)
qed

lemma read_bp_live:
  assumes inv: "alloc_inv p live own" "bp \<in> live"
  shows "read_bp d err bp buf p = (r, buf', p') \<Longrightarrow> same_pool p p'"
    and "disk_ok d \<Longrightarrow> sectors_present d (bp_drive bp) (bp_first (pool_cfgs p) bp) (bp_count bp) \<Longrightarrow>
      512 * bp_count bp \<le> length buf \<Longrightarrow>
      \<exists>p'. read_bp d err bp buf p = (0, disk_bytes d (bp_drive bp) (bp_first (pool_cfgs p) bp) (bp_count bp)
        @ drop (512 * bp_count bp) buf, p')"
proof -
  obtain k where k: "vdev_index p (bp_dva0 bp) = Some k" "k < length (spa_vdevs p)"
    "vd_drive (spa_vdevs p ! k) = bp_drive bp"
    "bp_first (pool_cfgs p) bp = vd_first (spa_vdevs p ! k) (dva_offset (bp_dva0 bp) div 512)"
    using bp_place [OF inv] by metis
  have one: "single_dva bp" using inv by (simp add: alloc_inv_def)
  note eq = read_bp_single [OF one k(1)]
  show "same_pool p p'" if "read_bp d err bp buf p = (r, buf', p')"
  proof -
    obtain r0 b0 v where rs: "read_sectors d err (dva_offset (bp_dva0 bp) div 512) (div_ceil (dva_asize (bp_dva0 bp)) 512) buf
        (spa_vdevs p ! k) = (r0, b0, v)" by (metis prod_cases3)
    then have p': "same_pool (p\<lparr>spa_vdevs := (spa_vdevs p)[k := v]\<rparr>) p'"
      using that by (auto simp: eq Let_def same_pool_def split: if_splits)
    show ?thesis using p' same_pool_vdev [OF read_sectors_config [OF rs] k(2)] by (simp add: same_pool_def)
  qed
  show "\<exists>p'. read_bp d err bp buf p = (0, disk_bytes d (bp_drive bp) (bp_first (pool_cfgs p) bp) (bp_count bp)
      @ drop (512 * bp_count bp) buf, p')"
    if "disk_ok d" "sectors_present d (bp_drive bp) (bp_first (pool_cfgs p) bp) (bp_count bp)" "512 * bp_count bp \<le> length buf"
    using read_sectors_bytes [OF that(1), of "spa_vdevs p ! k" "dva_offset (bp_dva0 bp) div 512"
        "div_ceil (dva_asize (bp_dva0 bp)) 512" buf err] that(2,3)
    by (simp add: eq Let_def k(3,4) bp_count_def)
qed

text \<open>The ring of uberblocks lies before the sectors of every live block pointer.\<close>

lemma write_uberblock_confined:
  assumes inv: "alloc_inv p live own" and w: "write_uberblock_to_disk t d p = (d', p')"
  shows "same_pool p p'" "spa_uberblock p' = spa_uberblock p"
    "\<exists>s. confined (vdev_0_drive_id p) s 1 d d' \<and> (\<forall>bp \<in> live. bp_drive bp = vdev_0_drive_id p \<longrightarrow> s \<notin> bp_span p bp)"
proof -
  let ?s = "phys_sector p (word_of_nat (ub_slot p))" and ?dr = "vdev_0_drive_id p"
  show "same_pool p p'" "spa_uberblock p' = spa_uberblock p"
    using w by (auto simp: write_uberblock_to_disk_def Let_def same_pool_def split: if_splits)
  have slot: "ub_slot p < 128" by (simp add: ub_slot_def)
  have u: "unat (word_of_nat (ub_slot p) :: u32) = ub_slot p"
    using slot by (intro unat_word_of_nat_small) simp
  have ps: "unat (spa_partition_start p) + 128 \<le> 2 ^ 32" using inv by (simp add: alloc_inv_def layout_def)
  then have us: "unat ?s = ub_slot p + unat (spa_partition_start p)"
    using slot u by (simp add: phys_sector_def unat_ucast_up unat_word_ariths)
  have "sector_span ?s 1 = {?s}"
    by (auto simp: sector_span_def word_eq_iff_unsigned [where ?'a = nat])
  moreover have "disk_ok (put_sector ?dr ?s b d)" if "disk_ok d" "length b = 512" for b
    using that by (auto simp: disk_ok_def put_sector_def)
  moreover have "length (take (min (length b) 512) b @ replicate (512 - min (length b) 512) 0) = 512" for b :: "u8 list"
    by simp
  ultimately have conf: "confined ?dr ?s 1 d d'"
    using w by (auto simp: write_uberblock_to_disk_def Let_def ub_sector confined_def put_sector_def split: if_splits option.splits)
  have "?s \<notin> bp_span p bp" if bp: "bp \<in> live" "bp_drive bp = ?dr" for bp
  proof -
    obtain k where k: "k < length (spa_vdevs p)" "vd_drive (spa_vdevs p ! k) = bp_drive bp"
      "unat (bp_first (pool_cfgs p) bp) = unat (vc_partition_start (vd_config (spa_vdevs p ! k))) + unat (fst (bp_region bp)) div 512"
      "512 \<le> unat (fst (bp_region bp)) div 512"
      using bp_place [OF inv bp(1)] by metis
    have ne: "spa_vdevs p \<noteq> []" using k(1) by auto
    have dist: "distinct (map vd_drive (spa_vdevs p))" using inv by (simp add: alloc_inv_def layout_def o_def)
    have "map vd_drive (spa_vdevs p) ! k = map vd_drive (spa_vdevs p) ! 0"
      using k(1,2) bp(2) ne by (auto simp: vdev_0_drive_id_def neq_Nil_conv)
    then have "k = 0" using nth_eq_iff_index_eq [OF dist, of k 0] k(1) ne by simp
    then have "vc_partition_start (vd_config (spa_vdevs p ! k)) = spa_partition_start p"
      using inv ne by (auto simp: alloc_inv_def layout_def neq_Nil_conv)
    then have "unat ?s < unat (bp_first (pool_cfgs p) bp)" using k(3,4) us slot by simp
    then show ?thesis by (simp add: sector_span_def)
  qed
  with conf show "\<exists>s. confined ?dr s 1 d d' \<and> (\<forall>bp \<in> live. bp_drive bp = ?dr \<longrightarrow> s \<notin> bp_span p bp)" by blast
qed

section \<open>Histories of a pool\<close>

text \<open>\<open>pool_run d p live st\<close>: the disks \<open>d\<close> and the pool \<open>p\<close> after a sequence of operations.  \<open>live\<close> is the
  set of block pointers that are allocated and not freed, \<open>st\<close> the abstract store: what was last
  written through each of them.  A device is added on a drive of its own, of less than \<open>2\<^sup>5\<^sup>5\<close> bytes, the
  first one on the partition of the pool, as the mount code does; \<open>err\<close>, the error code of the driver,
  is not 0.\<close>

inductive pool_run :: "disk \<Rightarrow> hv_spa \<Rightarrow> hv_block_pointer set \<Rightarrow> (hv_block_pointer \<rightharpoonup> u8 list) \<Rightarrow> bool" where
  init: "pool_run d ((spa_init t name spa_new)\<lparr>spa_partition_start := ps\<rparr>) {} Map.empty"
    if "disk_ok d" "unat ps + 128 \<le> 2 ^ 32"
| add_vdev: "pool_run d (snd (add_vdev c p)) live st"
    if "pool_run d p live st" "asize_ok (vc_asize c)"
      "(ucast (vc_vdev_id c) :: u8) \<notin> (\<lambda>v. vd_drive v) ` set (spa_vdevs p)"
      "spa_vdevs p = [] \<Longrightarrow> vc_partition_start c = spa_partition_start p"
| allocate: "pool_run d p' (insert bp live) st"
    if "pool_run d p live st" "allocate sz kind cmp txg p = (Some bp, p')"
| no_space: "pool_run d p' live st"
    if "pool_run d p live st" "allocate sz kind cmp txg p = (None, p')"
| free: "pool_run d (spa_free bp p) (live - {bp}) (st(bp := None))"
    if "pool_run d p live st" "bp \<in> live"
| put: "pool_run d' p' live (st(bp := (if r = 0 then Some (take (512 * bp_count bp) buf) else None)))"
    if "pool_run d p live st" "bp \<in> live" "err \<noteq> 0" "write_bp err bp buf d p = (r, d', p')"
| get: "pool_run d p' live st"
    if "pool_run d p live st" "bp \<in> live" "read_bp d err bp buf p = (r, buf', p')"
| uberblock: "pool_run d' p' live st"
    if "pool_run d p live st" "write_uberblock_to_disk t d p = (d', p')"
| advance: "pool_run d (snd (advance_txg p)) live st" if "pool_run d p live st"

definition stored_at :: "disk \<Rightarrow> hv_spa \<Rightarrow> hv_block_pointer \<Rightarrow> u8 list \<Rightarrow> bool" where
  "stored_at d p bp bytes \<longleftrightarrow> length bytes = 512 * bp_count bp
     \<and> sectors_present d (bp_drive bp) (bp_first (pool_cfgs p) bp) (bp_count bp)
     \<and> disk_bytes d (bp_drive bp) (bp_first (pool_cfgs p) bp) (bp_count bp) = bytes"

definition store_inv :: "disk \<Rightarrow> hv_spa \<Rightarrow> hv_block_pointer set \<Rightarrow> (hv_block_pointer \<rightharpoonup> u8 list) \<Rightarrow> bool" where
  "store_inv d p live st \<longleftrightarrow> disk_ok d \<and> (\<forall>bp bytes. st bp = Some bytes \<longrightarrow> bp \<in> live \<and> stored_at d p bp bytes)"

lemma store_inv_cfgs:
  "pool_cfgs p' = pool_cfgs p \<Longrightarrow> live \<subseteq> live' \<Longrightarrow> store_inv d p live st \<Longrightarrow> store_inv d p' live' st"
  by (auto simp: store_inv_def stored_at_def)

text \<open>A change of the disk outside the sectors of a block pointer leaves its data alone.\<close>

lemma stored_at_confined:
  assumes "stored_at d p bp bytes" "confined drive first n d d'"
    and "bp_drive bp = drive \<Longrightarrow> sector_span first n \<inter> bp_span p bp = {}"
  shows "stored_at d' p bp bytes"
proof -
  have "d' (bp_drive bp) s = d (bp_drive bp) s" if "s \<in> bp_span p bp" for s
    using assms(2,3) that unfolding confined_def by blast
  moreover have "unat (bp_first (pool_cfgs p) bp) + bp_count bp < 2 ^ 64"
    using assms(1) by (simp add: stored_at_def sectors_present_def)
  ultimately have "disk_bytes d' (bp_drive bp) (bp_first (pool_cfgs p) bp) (bp_count bp)
      = disk_bytes d (bp_drive bp) (bp_first (pool_cfgs p) bp) (bp_count bp)"
    by (intro disk_bytes_cong) simp_all
  with assms(1,2) show ?thesis by (simp add: stored_at_def sectors_present_def confined_def)
qed

lemma store_inv_write:
  assumes inv: "alloc_inv p live own" and st: "store_inv d p live st" and bp: "bp \<in> live" and err: "err \<noteq> 0"
    and w: "write_bp err bp buf d p = (r, d', p')"
  shows "store_inv d' p' live (st(bp := (if r = 0 then Some (take (512 * bp_count bp) buf) else None)))"
proof -
  note wl = write_bp_live [OF inv bp err w]
  have cfgs: "pool_cfgs p' = pool_cfgs p" using wl(1) by (simp add: same_pool_def)
  have "store_inv d' p live (st(bp := (if r = 0 then Some (take (512 * bp_count bp) buf) else None)))"
    unfolding store_inv_def
  proof (intro conjI allI impI)
    show "disk_ok d'" using st wl(2) by (simp add: store_inv_def confined_def)
    fix bq bytes
    assume a: "(st(bp := (if r = 0 then Some (take (512 * bp_count bp) buf) else None))) bq = Some bytes"
    show "bq \<in> live" using a st bp by (auto simp: store_inv_def split: if_splits)
    show "stored_at d' p bq bytes"
    proof (cases "bq = bp")
      case True
      then have "r = 0" "bytes = take (512 * bp_count bp) buf" using a by (auto split: if_splits)
      with wl(3) True show ?thesis by (auto simp: stored_at_def wrote_def sectors_present_def)
    next
      case False
      then have "st bq = Some bytes" using a by simp
      with st have "stored_at d p bq bytes" "bq \<in> live" by (simp_all add: store_inv_def)
      then show ?thesis
        using stored_at_confined [OF _ wl(2)] spans_disjoint [OF inv bp _ False [symmetric]] by metis
    qed
  qed
  then show ?thesis by (rule store_inv_cfgs [OF cfgs subset_refl])
qed

lemma store_inv_uberblock:
  assumes inv: "alloc_inv p live own" and st: "store_inv d p live st"
    and w: "write_uberblock_to_disk t d p = (d', p')"
  shows "store_inv d' p' live st"
proof -
  note c = write_uberblock_confined [OF inv w]
  obtain s where s: "confined (vdev_0_drive_id p) s 1 d d'"
    "\<And>bp. bp \<in> live \<Longrightarrow> bp_drive bp = vdev_0_drive_id p \<Longrightarrow> s \<notin> bp_span p bp"
    using c(3) by blast
  have span: "sector_span s 1 = {s}" by (auto simp: sector_span_def word_eq_iff_unsigned [where ?'a = nat])
  have "stored_at d' p bp bytes" if "st bp = Some bytes" for bp bytes
  proof (rule stored_at_confined [OF _ s(1)])
    show "stored_at d p bp bytes" using st that by (simp add: store_inv_def)
    have "bp \<in> live" using st that by (auto simp: store_inv_def)
    then show "sector_span s 1 \<inter> bp_span p bp = {}" if "bp_drive bp = vdev_0_drive_id p"
      unfolding span using s(2) that by blast
  qed
  then have "store_inv d' p live st" using st s(1) by (auto simp: store_inv_def confined_def)
  then show ?thesis using store_inv_cfgs [of p' p live live] c(1) by (simp add: same_pool_def)
qed

lemma store_inv_add_vdev:
  assumes inv: "alloc_inv p live own" and st: "store_inv d p live st"
  shows "store_inv d (snd (add_vdev c p)) live st"
proof -
  have "pool_cfgs (snd (add_vdev c p)) = pool_cfgs p \<or> pool_cfgs (snd (add_vdev c p)) = pool_cfgs p @ [c]"
    by (auto simp: add_vdev_def Let_def vdev_new_def)
  then have "bp_first (pool_cfgs (snd (add_vdev c p))) bp = bp_first (pool_cfgs p) bp" if bp: "bp \<in> live" for bp
  proof
    obtain k where "vdev_index p (bp_dva0 bp) = Some k" using bp_place [OF inv bp] by metis
    then have "List.find (\<lambda>c. vc_vdev_id c = dva_vdev_id (bp_dva0 bp)) (pool_cfgs p) \<noteq> None"
      by (simp add: find_map_config find_of_find_idx)
    moreover have "List.find P (xs @ ys) = List.find P xs" if "List.find P xs \<noteq> None"
      for P and xs ys :: "hv_vdev_config list" using that by (induction xs) auto
    moreover assume "pool_cfgs (snd (add_vdev c p)) = pool_cfgs p @ [c]"
    ultimately show ?thesis by (simp add: bp_first_def)
  qed (simp add: bp_first_def)
  with st show ?thesis by (auto simp: store_inv_def stored_at_def)
qed

lemma pool_run_inv: "pool_run d p live st \<Longrightarrow> \<exists>own. alloc_inv p live own \<and> store_inv d p live st"
proof (induction rule: pool_run.induct)
  case (init d ps t name)
  have "alloc_inv ((spa_init t name spa_new)\<lparr>spa_partition_start := ps\<rparr>) {} (\<lambda>_. 0)"
    using init by (simp add: alloc_inv_def layout_def spa_init_def spa_new_def Let_def)
  then show ?case using init by (auto simp: store_inv_def)
next
  case (add_vdev d p live st c)
  then show ?case using alloc_inv_add_vdev store_inv_add_vdev by blast
next
  case (allocate d p live st sz kind cmp txg bp p')
  then obtain own where own: "alloc_inv p live own" "store_inv d p live st" by blast
  note a = alloc_inv_allocate [OF own(1) allocate.hyps(2)]
  have "store_inv d p' (insert bp live) st"
    using own(2) a(3) by (intro store_inv_cfgs [of p' p live]) auto
  with a(1) show ?case by blast
next
  case (no_space d p live st sz kind cmp txg p')
  then show ?case using allocate_None alloc_inv_wf by metis
next
  case (free d p live st bp)
  then obtain own where own: "alloc_inv p live own" "store_inv d p live st" by blast
  have "single_dva bp" using own(1) free.hyps(2) by (simp add: alloc_inv_def)
  then have "store_inv d (spa_free bp p) (live - {bp}) (st(bp := None))"
    using own(2) spa_free_single(2) [of bp p] by (auto simp: store_inv_def stored_at_def)
  then show ?case using alloc_inv_free [OF own(1) free.hyps(2)] by blast
next
  case (put d p live st bp err buf r d' p')
  then obtain own where own: "alloc_inv p live own" "store_inv d p live st" by blast
  have "alloc_inv p' live own"
    using write_bp_live(1) [OF own(1) put.hyps(2-4)] same_pool_alloc_inv own(1) by blast
  then show ?case using store_inv_write [OF own put.hyps(2-4)] by blast
next
  case (get d p live st bp err buf r buf' p')
  then obtain own where own: "alloc_inv p live own" "store_inv d p live st" by blast
  have s: "same_pool p p'" by (rule read_bp_live(1) [OF own(1) get.hyps(2,3)])
  then have "store_inv d p' live st" using own(2) store_inv_cfgs [of p' p live live] by (simp add: same_pool_def)
  then show ?case using same_pool_alloc_inv [OF s own(1)] by blast
next
  case (uberblock d p live st t d' p')
  then obtain own where own: "alloc_inv p live own" "store_inv d p live st" by blast
  have "alloc_inv p' live own"
    using write_uberblock_confined(1) [OF own(1) uberblock.hyps(2)] same_pool_alloc_inv own(1) by blast
  then show ?case using store_inv_uberblock [OF own uberblock.hyps(2)] by blast
next
  case (advance d p live st)
  then show ?case by (auto simp: advance_txg_def alloc_inv_def store_inv_def stored_at_def)
qed

section \<open>Properties\<close>



section \<open>A pool of one small device\<close>

definition sample_vdev :: hv_vdev_config where
  "sample_vdev = (new_disk 0 [] 12)\<lparr>vc_asize := 8192\<rparr>"

definition sample_pool0 :: hv_spa where
  "sample_pool0 = snd (add_vdev sample_vdev ((spa_init 0 [] spa_new)\<lparr>spa_partition_start := 0\<rparr>))"

definition sample_bp1 :: hv_block_pointer where
  "sample_bp1 = the (fst (allocate 100 Fletcher4 CompOff 1 sample_pool0))"

definition sample_pool1 :: hv_spa where
  "sample_pool1 = snd (allocate 100 Fletcher4 CompOff 1 sample_pool0)"

definition sample_bp2 :: hv_block_pointer where
  "sample_bp2 = the (fst (allocate 4096 Fletcher4 CompOff 1 sample_pool1))"

definition sample_pool2 :: hv_spa where
  "sample_pool2 = snd (allocate 4096 Fletcher4 CompOff 1 sample_pool1)"

lemma sample_allocs:
  "fst (allocate 100 Fletcher4 CompOff 1 sample_pool0) \<noteq> None"
  "fst (allocate 4096 Fletcher4 CompOff 1 sample_pool1) \<noteq> None"
  "bp_region sample_bp1 = (262144, 4096)" "bp_region sample_bp2 = (266240, 4096)"
  by code_simp+

lemma sample_run: "pool_run blank_disk sample_pool2 {sample_bp2, sample_bp1} Map.empty"
proof -
  have init: "pool_run blank_disk ((spa_init 0 [] spa_new)\<lparr>spa_partition_start := 0\<rparr>) {} Map.empty"
    by (intro pool_run.init) (simp_all add: blank_disk_def disk_ok_def)
  have "pool_run blank_disk sample_pool0 {} Map.empty"
    unfolding sample_pool0_def
    by (rule pool_run.add_vdev [OF init])
      (simp_all add: asize_ok_def sample_vdev_def new_disk_def Let_def spa_init_def spa_new_def)
  then have "pool_run blank_disk sample_pool1 {sample_bp1} Map.empty"
    by (rule pool_run.allocate) (use sample_allocs(1) in \<open>auto simp: sample_bp1_def sample_pool1_def prod_eq_iff\<close>)
  then show ?thesis
    by (rule pool_run.allocate) (use sample_allocs(2) in \<open>auto simp: sample_bp2_def sample_pool2_def prod_eq_iff\<close>)
qed

lemma sample_neq: "sample_bp1 \<noteq> sample_bp2"
  using sample_allocs(3,4) by auto

lemma sample_sectors:
  "bp_count sample_bp1 = 8" "bp_drive sample_bp1 = 0" "bp_first (pool_cfgs sample_pool2) sample_bp1 = 512"
  "bp_count sample_bp2 = 8" "bp_drive sample_bp2 = 0" "bp_first (pool_cfgs sample_pool2) sample_bp2 = 520"
  "dva_vdev_id (bp_dva sample_bp1 ! 0) = 0" "dva_vdev_id (bp_dva sample_bp2 ! 0) = 0"
  by code_simp+


text \<open>The first block pointer is written, then the second one and the ring of uberblocks.\<close>

abbreviation sample_data :: "u8 \<Rightarrow> u8 list" where
  "sample_data b \<equiv> replicate 4096 b"

definition sample_write1 :: "i32 \<times> disk \<times> hv_spa" where
  "sample_write1 = write_bp (- 5) sample_bp1 (sample_data 7) blank_disk sample_pool2"

definition sample_write2 :: "i32 \<times> disk \<times> hv_spa" where
  "sample_write2 = (case sample_write1 of (r, d, p) \<Rightarrow> write_bp (- 5) sample_bp2 (sample_data 9) d p)"

definition sample_final :: "disk \<times> hv_spa" where
  "sample_final = (case sample_write2 of (r, d, p) \<Rightarrow> write_uberblock_to_disk 0 d p)"

lemma blank_present: "sectors_present blank_disk drive first n" if "unat first + n < 2 ^ 64"
  using that by (simp add: sectors_present_def blank_disk_def)

lemma confined_present: "confined drive first n d d' \<Longrightarrow> sectors_present d dr f m \<Longrightarrow> sectors_present d' dr f m"
  by (simp add: confined_def sectors_present_def)

lemma sample_final_run:
  "pool_run (fst sample_final) (snd sample_final) {sample_bp2, sample_bp1}
     [sample_bp1 \<mapsto> sample_data 7, sample_bp2 \<mapsto> sample_data 9]"
proof -
  let ?live = "{sample_bp2, sample_bp1}"
  obtain r1 d1 p1 where w1: "write_bp (- 5) sample_bp1 (sample_data 7) blank_disk sample_pool2 = (r1, d1, p1)"
    by (metis prod_cases3)
  obtain r2 d2 p2 where w2: "write_bp (- 5) sample_bp2 (sample_data 9) d1 p1 = (r2, d2, p2)" by (metis prod_cases3)
  obtain d3 p3 where u: "write_uberblock_to_disk 0 d2 p2 = (d3, p3)" by fastforce
  obtain own where own: "alloc_inv sample_pool2 ?live own" using pool_run_inv [OF sample_run] by blast
  have pres: "sectors_present blank_disk 0 512 8" "sectors_present blank_disk 0 520 8"
    by (simp_all add: blank_present)
  note live = write_bp_live [OF own _ _ w1]
  have p1: "pool_cfgs p1 = pool_cfgs sample_pool2" and inv1: "alloc_inv p1 ?live own"
    and pres1: "sectors_present d1 0 520 8"
    using live(1) same_pool_alloc_inv [OF live(1) own] confined_present [OF live(2) pres(2)]
    by (simp_all add: same_pool_def)
  have "r1 = 0" using write_bp_succeeds [OF own, of sample_bp1 "sample_data 7" blank_disk "- 5"] w1 pres
    by (simp add: sample_sectors)
  moreover have "r2 = 0" using write_bp_succeeds [OF inv1, of sample_bp2 "sample_data 9" d1 "- 5"] w2 pres1
    by (simp add: sample_sectors p1)
  moreover have "pool_run d1 p1 ?live (Map.empty(sample_bp1 := (if r1 = 0 then Some (take (512 * bp_count sample_bp1) (sample_data 7)) else None)))"
    by (rule pool_run.put [OF sample_run _ _ w1]) simp_all
  ultimately have "pool_run d1 p1 ?live [sample_bp1 \<mapsto> sample_data 7]" "r2 = 0" by (simp_all add: sample_sectors)
  then have "pool_run d2 p2 ?live [sample_bp1 \<mapsto> sample_data 7, sample_bp2 \<mapsto> sample_data 9]"
    using pool_run.put [OF _ _ _ w2, of ?live "[sample_bp1 \<mapsto> sample_data 7]"] by (simp add: sample_sectors)
  then have run: "pool_run d3 p3 ?live [sample_bp1 \<mapsto> sample_data 7, sample_bp2 \<mapsto> sample_data 9]"
    using u by (rule pool_run.uberblock)
  have fin: "sample_final = (d3, p3)" by (simp add: sample_final_def sample_write2_def sample_write1_def w1 w2 u)
  show ?thesis unfolding fin fst_conv snd_conv by (rule run)
qed


end
