(* ===== verification/Sched.thy ===== *)
theory Sched
  imports BTree "HOL-Library.Product_Lexorder"
begin

text \<open>
  The scheduling policies (\<^verbatim>\<open>src/src/kernel/services/proc/sched_policy.rs\<close>): weights of nice values, the run
  queue of the fair policy and the one of the deadline policy, both ordered maps with the keys
  (virtual runtime or absolute deadline, process), and the default priority policy.  The tick of the
  scheduler (\<^verbatim>\<open>framework/proc/scheduler.rs\<close>), which charges virtual runtime to the running process, is
  \<open>cfs_tick\<close>.  The fair queue runs the process with the least virtual runtime and starves nobody; the deadline
  queue runs the earliest deadline and admits at most 95 percent.
\<close>

section \<open>Nice values and weights\<close>

definition TARGET_LATENCY_TICKS :: u64 where
  "TARGET_LATENCY_TICKS = 60"

definition MIN_GRANULARITY_TICKS :: u64 where
  "MIN_GRANULARITY_TICKS = 8"

definition CFS_BOOST_INTERVAL_TICKS :: u64 where
  "CFS_BOOST_INTERVAL_TICKS = 1000"

definition NICE0_WEIGHT :: u64 where
  "NICE0_WEIGHT = 1024"

definition DL_MIN_RUNTIME_TICKS :: u64 where
  "DL_MIN_RUNTIME_TICKS = 1"

definition DL_MIN_PERIOD_TICKS :: u64 where
  "DL_MIN_PERIOD_TICKS = 10"

definition DL_MAX_UTILIZATION_PCT :: u64 where
  "DL_MAX_UTILIZATION_PCT = 95"

definition NICE_TO_WEIGHT :: "u64 list" where
  "NICE_TO_WEIGHT = [
     88761, 71755, 56483, 46273, 36291, 29154, 23254, 18705, 14949, 11916, 9548, 7620, 6100, 4904,
     3906, 3121, 2501, 1991, 1586, 1277, 1024, 820, 655, 526, 423, 335, 272, 215, 172, 137, 110, 87,
     70, 56, 45, 36, 29, 23, 18, 15]"

text \<open>A nice value is an \<^verbatim>\<open>i8\<close>; the clamped value plus 20 does not overflow.\<close>

definition clamp_nice :: "int \<Rightarrow> int" where
  "clamp_nice n = max (- 20) (min 19 n)"

definition nice_to_weight :: "8 word \<Rightarrow> u64" where
  "nice_to_weight nice = NICE_TO_WEIGHT ! nat (clamp_nice (sint nice) + 20)"

definition abs_diff :: "u64 \<Rightarrow> u64 \<Rightarrow> u64" where
  "abs_diff a b = (if a < b then b - a else a - b)"

primrec best_nice :: "u64 \<Rightarrow> nat \<Rightarrow> u64 \<Rightarrow> int \<Rightarrow> u64 list \<Rightarrow> int" where
  "best_nice weight i best_diff best [] = best"
| "best_nice weight i best_diff best (w # ws) =
     (let diff = abs_diff w weight
      in if diff < best_diff then best_nice weight (Suc i) diff (int i - 20) ws
         else best_nice weight (Suc i) best_diff best ws)"

definition weight_to_nice :: "u64 \<Rightarrow> int" where
  "weight_to_nice weight =
     (if NICE_TO_WEIGHT ! 0 \<le> weight then - 20
      else if weight \<le> NICE_TO_WEIGHT ! 39 then 19
      else best_nice weight 0 (- 1) 0 NICE_TO_WEIGHT)"

section \<open>Deadline parameters\<close>

record deadline_params =
  dp_runtime :: u64
  dp_deadline :: u64
  dp_period :: u64

definition deadline_params_new :: deadline_params where
  "deadline_params_new = \<lparr>dp_runtime = 0, dp_deadline = 0, dp_period = 0\<rparr>"

definition dp_is_valid :: "deadline_params \<Rightarrow> bool" where
  "dp_is_valid p \<longleftrightarrow> DL_MIN_RUNTIME_TICKS \<le> dp_runtime p \<and> dp_runtime p \<le> dp_deadline p
     \<and> dp_deadline p \<le> dp_period p \<and> DL_MIN_PERIOD_TICKS \<le> dp_period p"

definition utilization_pct :: "deadline_params \<Rightarrow> u64" where
  "utilization_pct p = (if dp_period p = 0 then 0 else dp_runtime p * 100 div dp_period p)"

section \<open>The fair run queue\<close>

type_synonym run_tree = "(u64 \<times> u32, unit) btree"

record cfs_rq =
  cfs_tree :: run_tree
  cfs_min_vruntime :: u64
  cfs_total_weight :: u64
  cfs_nr_running :: u32

definition cfs_new :: cfs_rq where
  "cfs_new = \<lparr>cfs_tree = bt_empty, cfs_min_vruntime = 0, cfs_total_weight = 0, cfs_nr_running = 0\<rparr>"

definition sync_min_vruntime :: "cfs_rq \<Rightarrow> cfs_rq" where
  "sync_min_vruntime q =
     (case bt_first (cfs_tree q) of
        Some ((min_vr, _), _) \<Rightarrow> q\<lparr>cfs_min_vruntime := min_vr\<rparr>
      | None \<Rightarrow> q)"

definition cfs_enqueue :: "u32 \<Rightarrow> u64 \<Rightarrow> u64 \<Rightarrow> cfs_rq \<Rightarrow> cfs_rq" where
  "cfs_enqueue pid vruntime weight q =
     (let start_vr = max vruntime (cfs_min_vruntime q)
      in q\<lparr>cfs_tree := bt_insert (start_vr, pid) () (cfs_tree q),
           cfs_total_weight := cfs_total_weight q + weight, cfs_nr_running := cfs_nr_running q + 1\<rparr>)"

text \<open>The exchange loop on \<^verbatim>\<open>total_weight\<close> runs under the lock of the queue: it succeeds at once.\<close>

definition cfs_dequeue :: "u32 \<Rightarrow> u64 \<Rightarrow> u64 \<Rightarrow> cfs_rq \<Rightarrow> bool \<times> cfs_rq" where
  "cfs_dequeue pid vruntime weight q =
     (let q = q\<lparr>cfs_total_weight := saturating_sub (cfs_total_weight q) weight,
                cfs_nr_running := saturating_sub (cfs_nr_running q) 1\<rparr>
      in if bt_get (cfs_tree q) (vruntime, pid) \<noteq> None
         then (True, sync_min_vruntime (q\<lparr>cfs_tree := bt_remove (vruntime, pid) (cfs_tree q)\<rparr>))
         else (False, q))"

definition cfs_pick_next :: "cfs_rq \<Rightarrow> (u32 \<times> u64) option \<times> cfs_rq" where
  "cfs_pick_next q =
     (case bt_first (cfs_tree q) of
        None \<Rightarrow> (None, q)
      | Some ((vruntime, pid), _) \<Rightarrow>
          (Some (pid, vruntime), sync_min_vruntime (q\<lparr>cfs_tree := bt_remove (vruntime, pid) (cfs_tree q)\<rparr>)))"

definition update_curr :: "u32 \<Rightarrow> u64 \<Rightarrow> cfs_rq \<Rightarrow> cfs_rq" where
  "update_curr pid new_vruntime q =
     (let start_vr = max new_vruntime (cfs_min_vruntime q)
      in q\<lparr>cfs_tree := bt_insert (start_vr, pid) () (cfs_tree q)\<rparr>)"

definition calc_time_slice :: "u64 \<Rightarrow> cfs_rq \<Rightarrow> u64" where
  "calc_time_slice weight q =
     (let total_w = cfs_total_weight q
      in if total_w = 0 \<or> weight = 0 then MIN_GRANULARITY_TICKS
         else max (saturating_mul TARGET_LATENCY_TICKS weight div total_w) MIN_GRANULARITY_TICKS)"

definition get_weighted_load :: "cfs_rq \<Rightarrow> u64" where
  "get_weighted_load q = cfs_total_weight q"

definition cfs_is_empty :: "cfs_rq \<Rightarrow> bool" where
  "cfs_is_empty q \<longleftrightarrow> cfs_nr_running q = 0"

definition boost_all_vruntime :: "cfs_rq \<Rightarrow> cfs_rq" where
  "boost_all_vruntime q =
     (case bt_first (cfs_tree q) of
        None \<Rightarrow> q
      | Some ((min_vr, _), _) \<Rightarrow>
          q\<lparr>cfs_tree := fold (\<lambda>((vr, pid), _). bt_insert (min_vr, pid) ()) (cfs_tree q) bt_empty,
            cfs_min_vruntime := min_vr\<rparr>)"

definition bt_last :: "('k, 'v) btree \<Rightarrow> ('k \<times> 'v) option" where
  "bt_last t = (if t = [] then None else Some (last t))"

definition steal_highest_vruntime :: "cfs_rq \<Rightarrow> (u32 \<times> u64) option \<times> cfs_rq" where
  "steal_highest_vruntime q =
     (case bt_last (cfs_tree q) of
        None \<Rightarrow> (None, q)
      | Some ((vruntime, pid), _) \<Rightarrow>
          (Some (pid, vruntime), sync_min_vruntime (q\<lparr>cfs_tree := bt_remove (vruntime, pid) (cfs_tree q)\<rparr>)))"

section \<open>The deadline run queue\<close>

record dl_rq =
  dl_tree :: run_tree
  dl_nr_running :: u32
  dl_total_utilization :: u64

definition dl_new :: dl_rq where
  "dl_new = \<lparr>dl_tree = bt_empty, dl_nr_running = 0, dl_total_utilization = 0\<rparr>"

definition dl_enqueue :: "u32 \<Rightarrow> u64 \<Rightarrow> u64 \<Rightarrow> dl_rq \<Rightarrow> bool \<times> dl_rq" where
  "dl_enqueue pid deadline_abs util_pct q =
     (if DL_MAX_UTILIZATION_PCT < saturating_add (dl_total_utilization q) util_pct then (False, q)
      else (True, q\<lparr>dl_tree := bt_insert (deadline_abs, pid) () (dl_tree q),
                    dl_nr_running := dl_nr_running q + 1,
                    dl_total_utilization := dl_total_utilization q + util_pct\<rparr>))"

definition dl_dequeue :: "u32 \<Rightarrow> u64 \<Rightarrow> u64 \<Rightarrow> dl_rq \<Rightarrow> dl_rq" where
  "dl_dequeue pid deadline_abs util_pct q =
     (if bt_get (dl_tree q) (deadline_abs, pid) \<noteq> None
      then q\<lparr>dl_tree := bt_remove (deadline_abs, pid) (dl_tree q),
             dl_nr_running := saturating_sub (dl_nr_running q) 1,
             dl_total_utilization := saturating_sub (dl_total_utilization q) util_pct\<rparr>
      else q)"

definition dl_pick_next :: "dl_rq \<Rightarrow> (u32 \<times> u64) option \<times> dl_rq" where
  "dl_pick_next q =
     (case bt_first (dl_tree q) of
        None \<Rightarrow> (None, q)
      | Some ((dl_abs, pid), _) \<Rightarrow>
          (Some (pid, dl_abs), q\<lparr>dl_tree := bt_remove (dl_abs, pid) (dl_tree q)\<rparr>))"

definition dl_reinsert :: "u32 \<Rightarrow> u64 \<Rightarrow> dl_rq \<Rightarrow> dl_rq" where
  "dl_reinsert pid dl_abs q = q\<lparr>dl_tree := bt_insert (dl_abs, pid) () (dl_tree q)\<rparr>"

definition dl_is_empty :: "dl_rq \<Rightarrow> bool" where
  "dl_is_empty q \<longleftrightarrow> dl_nr_running q = 0"

definition dl_get_load :: "dl_rq \<Rightarrow> u32" where
  "dl_get_load q = dl_nr_running q"

section \<open>Ticks\<close>

definition calc_vruntime_delta :: "u64 \<Rightarrow> u64" where
  "calc_vruntime_delta weight = (if weight = 0 then NICE0_WEIGHT else max (NICE0_WEIGHT div weight) 1)"

definition cfs_should_preempt :: "u64 \<Rightarrow> u64 \<Rightarrow> u64 \<Rightarrow> bool" where
  "cfs_should_preempt curr_vruntime min_vruntime weight \<longleftrightarrow>
     (let threshold = (if weight = 0 then saturating_mul MIN_GRANULARITY_TICKS NICE0_WEIGHT
                       else saturating_mul MIN_GRANULARITY_TICKS NICE0_WEIGHT div weight)
      in threshold < saturating_sub curr_vruntime min_vruntime)"

definition cfs_tick :: "u64 \<Rightarrow> u64 \<Rightarrow> u64" where
  "cfs_tick weight old_vr = saturating_add old_vr (calc_vruntime_delta weight)"

section \<open>The default policy\<close>

datatype thread_priority = Idle | Low | Normal | High | Realtime

definition pick_next_priority :: "u32 list \<Rightarrow> nat option" where
  "pick_next_priority queue_lengths = List.find (\<lambda>prio. 0 < queue_lengths ! prio) (rev [0 ..< 5])"

definition should_boost :: "u64 \<Rightarrow> u64 \<Rightarrow> bool" where
  "should_boost tick_count last_boost \<longleftrightarrow> CFS_BOOST_INTERVAL_TICKS \<le> saturating_sub tick_count last_boost"

definition boost_target :: thread_priority where
  "boost_target = High"

primrec time_slice_for :: "thread_priority \<Rightarrow> u32" where
  "time_slice_for Realtime = 80"
| "time_slice_for High = 60"
| "time_slice_for Normal = 40"
| "time_slice_for Low = 20"
| "time_slice_for Idle = - 1"

definition should_reschedule :: "u32 \<Rightarrow> bool" where
  "should_reschedule time_slice_remaining \<longleftrightarrow> time_slice_remaining \<le> 1"

section \<open>Weights\<close>

text \<open>The nice value of a weight of the table is the nice value it was computed from, clamped to the
  range from -20 to 19; weights fall strictly with the nice value.\<close>

theorem nice_weight_roundtrip:
  "weight_to_nice (nice_to_weight nice) = clamp_nice (sint nice)
   \<and> (clamp_nice (sint nice) < clamp_nice (sint other) \<longrightarrow> nice_to_weight other < nice_to_weight nice)"
proof -
  have range: "- 20 \<le> clamp_nice n \<and> clamp_nice n \<le> 19" for n by (auto simp: clamp_nice_def)
  have all: "\<forall>i \<in> set [0 ..< 40]. weight_to_nice (NICE_TO_WEIGHT ! i) = int i - 20"
    "\<forall>i \<in> set [0 ..< 40]. \<forall>j \<in> set [0 ..< 40]. i < j \<longrightarrow> NICE_TO_WEIGHT ! j < NICE_TO_WEIGHT ! i"
    by code_simp+
  have idx: "nat (clamp_nice n + 20) \<in> set [0 ..< 40]" "int (nat (clamp_nice n + 20)) - 20 = clamp_nice n" for n
    using range [of n] by auto
  show ?thesis
    using all(1) all(2) idx [of "sint nice"] idx [of "sint other"] range [of "sint nice"]
    by (auto simp: nice_to_weight_def)
qed

section \<open>Keys\<close>

abbreviation bt_keys :: "('k, 'v) btree \<Rightarrow> 'k set" where
  "bt_keys t \<equiv> fst ` set t"

lemma bt_keys_insert: "bt_wf t \<Longrightarrow> bt_keys (bt_insert k v t) = insert k (bt_keys t)"
  by (auto simp: set_bt_insert image_iff)

lemma bt_keys_remove: "bt_wf t \<Longrightarrow> bt_keys (bt_remove k t) = bt_keys t - {k}"
  by (auto simp: set_bt_remove)

lemma bt_first_key:
  assumes "bt_wf t" "bt_first t = Some (k, v)"
  shows "k \<in> bt_keys t" "\<And>j. j \<in> bt_keys t \<Longrightarrow> k \<le> j"
  using assms by (cases t; auto simp: less_imp_le)+

lemma bt_last_key:
  assumes "bt_last t = Some (k, v)"
  shows "k \<in> bt_keys t"
  using assms by (metis bt_last_def fst_conv image_eqI last_in_set option.distinct(1) option.sel)

section \<open>Histories of the fair queue\<close>

abbreviation cfs_keys :: "cfs_rq \<Rightarrow> (u64 \<times> u32) set" where
  "cfs_keys q \<equiv> bt_keys (cfs_tree q)"

text \<open>One call on a fair queue, with any arguments.\<close>

inductive cfs_step :: "cfs_rq \<Rightarrow> cfs_rq \<Rightarrow> bool" where
  enqueue: "cfs_step q (cfs_enqueue pid vr weight q)"
| dequeue: "cfs_step q (snd (cfs_dequeue pid vr weight q))"
| pick: "cfs_step q (snd (cfs_pick_next q))"
| update: "cfs_step q (update_curr pid vr q)"
| boost: "cfs_step q (boost_all_vruntime q)"
| steal: "cfs_step q (snd (steal_highest_vruntime q))"

definition cfs_inv :: "cfs_rq \<Rightarrow> bool" where
  "cfs_inv q \<longleftrightarrow> bt_wf (cfs_tree q) \<and> (\<forall>k \<in> cfs_keys q. cfs_min_vruntime q \<le> fst k)"

lemma sync_min:
  assumes "bt_wf (cfs_tree q)" "\<forall>k \<in> cfs_keys q. m \<le> fst k" "cfs_min_vruntime q = m"
  shows "cfs_inv (sync_min_vruntime q)" "m \<le> cfs_min_vruntime (sync_min_vruntime q)"
    "cfs_tree (sync_min_vruntime q) = cfs_tree q"
proof -
  have first: "vr \<le> fst k" if "bt_first (cfs_tree q) = Some ((vr, pid), u)" "k \<in> cfs_keys q" for vr pid u k
    using bt_first_key(2) [OF assms(1) that(1,2)] by (cases k) (auto simp: less_eq_prod_def)
  show "cfs_tree (sync_min_vruntime q) = cfs_tree q"
    by (auto simp: sync_min_vruntime_def split: option.splits)
  show "cfs_inv (sync_min_vruntime q)"
    using assms first by (auto simp: sync_min_vruntime_def cfs_inv_def split: option.splits)
  show "m \<le> cfs_min_vruntime (sync_min_vruntime q)"
    using assms bt_first_key(1) [OF assms(1)]
    by (force simp: sync_min_vruntime_def split: option.splits)
qed

lemma cfs_remove:
  fixes k :: "u64 \<times> u32"
  assumes "cfs_inv q"
  defines "q' \<equiv> sync_min_vruntime (q\<lparr>cfs_tree := bt_remove k (cfs_tree q)\<rparr>)"
  shows "cfs_inv q'" "cfs_min_vruntime q \<le> cfs_min_vruntime q'" "cfs_keys q' = cfs_keys q - {k}"
proof -
  let ?q = "q\<lparr>cfs_tree := bt_remove k (cfs_tree q)\<rparr>"
  have wf: "bt_wf (cfs_tree q)" using assms(1) by (simp add: cfs_inv_def)
  have "bt_wf (cfs_tree ?q)" "\<forall>j \<in> cfs_keys ?q. cfs_min_vruntime q \<le> fst j"
    using assms(1) wf by (auto simp: cfs_inv_def bt_wf_remove bt_keys_remove)
  note s = sync_min [OF this]
  show "cfs_inv q'" "cfs_min_vruntime q \<le> cfs_min_vruntime q'" "cfs_keys q' = cfs_keys q - {k}"
    using s wf by (simp_all add: q'_def bt_keys_remove)
qed

lemma boost_tree:
  "bt_wf acc \<Longrightarrow> bt_wf (fold (\<lambda>((vr, pid), _). bt_insert (m, pid) ()) t acc)
    \<and> bt_keys (fold (\<lambda>((vr, pid), _). bt_insert (m, pid) ()) t acc)
      = bt_keys acc \<union> (\<lambda>k. (m, snd k)) ` bt_keys t"
proof (induction t arbitrary: acc)
  case (Cons e t)
  obtain vr pid u where e: "e = ((vr, pid), u)" by (cases e) auto
  show ?case
    using Cons.IH [OF bt_wf_insert [OF Cons.prems, of "(m, pid)" "()"]] by (simp add: e bt_keys_insert Cons.prems)
qed simp

lemma cfs_step_inv:
  assumes "cfs_step q q'" "cfs_inv q"
  shows "cfs_inv q'" "cfs_min_vruntime q \<le> cfs_min_vruntime q'"
proof -
  have "cfs_inv q' \<and> cfs_min_vruntime q \<le> cfs_min_vruntime q'"
    using assms
  proof cases
    case (dequeue pid vr weight)
    define p where "p = q\<lparr>cfs_total_weight := saturating_sub (cfs_total_weight q) weight,
        cfs_nr_running := saturating_sub (cfs_nr_running q) 1\<rparr>"
    have p: "cfs_inv p" "cfs_min_vruntime p = cfs_min_vruntime q" using assms(2) by (simp_all add: p_def cfs_inv_def)
    have "q' = (if bt_get (cfs_tree p) (vr, pid) \<noteq> None
        then sync_min_vruntime (p\<lparr>cfs_tree := bt_remove (vr, pid) (cfs_tree p)\<rparr>) else p)"
      by (simp add: dequeue cfs_dequeue_def Let_def p_def)
    then show ?thesis using cfs_remove(1,2) [OF p(1), of "(vr, pid)"] p by auto
  next
    case pick
    then show ?thesis using cfs_remove(1,2) [OF assms(2)] assms(2)
      by (auto simp: cfs_pick_next_def split: option.splits)
  next
    case steal
    then show ?thesis using cfs_remove(1,2) [OF assms(2)] assms(2)
      by (auto simp: steal_highest_vruntime_def split: option.splits)
  next
    case boost
    then show ?thesis
    proof (cases "bt_first (cfs_tree q)")
      case (Some e)
      then obtain vr pid u where e: "bt_first (cfs_tree q) = Some ((vr, pid), u)" by (cases e) auto
      have wf: "bt_wf (cfs_tree q)" using assms(2) by (simp add: cfs_inv_def)
      have "cfs_min_vruntime q \<le> vr" using bt_first_key(1) [OF wf e] assms(2) by (auto simp: cfs_inv_def)
      then show ?thesis using boost_tree [of bt_empty vr "cfs_tree q"] e
        by (auto simp: boost boost_all_vruntime_def cfs_inv_def)
    qed (use assms(2) in \<open>simp add: boost_all_vruntime_def\<close>)
  qed (use assms(2) in \<open>auto simp: cfs_enqueue_def update_curr_def Let_def cfs_inv_def bt_wf_insert bt_keys_insert\<close>)
  then show "cfs_inv q'" "cfs_min_vruntime q \<le> cfs_min_vruntime q'" by simp_all
qed

lemma cfs_new_inv: "cfs_inv cfs_new"
  by (simp add: cfs_inv_def cfs_new_def)

lemma cfs_steps_inv:
  assumes "cfs_step\<^sup>*\<^sup>* q q'" "cfs_inv q"
  shows "cfs_inv q' \<and> cfs_min_vruntime q \<le> cfs_min_vruntime q'"
  using assms by (induction rule: rtranclp_induct) (auto dest: cfs_step_inv intro: order_trans)

lemma cfs_pick_Some:
  assumes "cfs_inv q" "cfs_pick_next q = (Some (pid, vr), q')"
  shows "(vr, pid) \<in> cfs_keys q" "\<And>k. k \<in> cfs_keys q \<Longrightarrow> (vr, pid) \<le> k" "cfs_keys q' = cfs_keys q - {(vr, pid)}"
    "cfs_inv q'"
proof -
  have wf: "bt_wf (cfs_tree q)" using assms(1) by (simp add: cfs_inv_def)
  obtain u where first: "bt_first (cfs_tree q) = Some ((vr, pid), u)"
    and q': "q' = sync_min_vruntime (q\<lparr>cfs_tree := bt_remove (vr, pid) (cfs_tree q)\<rparr>)"
    using assms(2) by (auto simp: cfs_pick_next_def split: option.splits)
  show "(vr, pid) \<in> cfs_keys q" by (rule bt_first_key(1) [OF wf first])
  show "(vr, pid) \<le> k" if "k \<in> cfs_keys q" for k by (rule bt_first_key(2) [OF wf first that])
  show "cfs_keys q' = cfs_keys q - {(vr, pid)}" "cfs_inv q'"
    unfolding q' by (rule cfs_remove(3) [OF assms(1)], rule cfs_remove(1) [OF assms(1)])
qed

lemma cfs_pick_None: "fst (cfs_pick_next q) = None \<longleftrightarrow> cfs_keys q = {}"
  by (auto simp: cfs_pick_next_def bt_first_None_iff split: option.splits)

text \<open>In every history of a fair queue, picking returns the process with the least virtual runtime
  (the lowest process number among equals) and removes exactly that entry, or nothing from an empty
  queue; no queued process is behind the minimal virtual runtime, which never decreases.\<close>

theorem cfs_picks_least:
  assumes "cfs_step\<^sup>*\<^sup>* cfs_new q"
  shows "(case fst (cfs_pick_next q) of
       None \<Rightarrow> cfs_keys q = {}
     | Some (pid, vr) \<Rightarrow> (vr, pid) \<in> cfs_keys q \<and> (\<forall>k \<in> cfs_keys q. (vr, pid) \<le> k)
         \<and> cfs_keys (snd (cfs_pick_next q)) = cfs_keys q - {(vr, pid)})
    \<and> (\<forall>k \<in> cfs_keys q. cfs_min_vruntime q \<le> fst k)
    \<and> (\<forall>q'. cfs_step\<^sup>*\<^sup>* q q' \<longrightarrow> cfs_min_vruntime q \<le> cfs_min_vruntime q')"
proof -
  have inv: "cfs_inv q" using cfs_steps_inv [OF assms cfs_new_inv] by simp
  have "case fst (cfs_pick_next q) of
       None \<Rightarrow> cfs_keys q = {}
     | Some (pid, vr) \<Rightarrow> (vr, pid) \<in> cfs_keys q \<and> (\<forall>k \<in> cfs_keys q. (vr, pid) \<le> k)
         \<and> cfs_keys (snd (cfs_pick_next q)) = cfs_keys q - {(vr, pid)}"
  proof (cases "fst (cfs_pick_next q)")
    case None
    with cfs_pick_None [of q] show ?thesis by simp
  next
    case (Some e)
    then obtain pid vr q' where p: "cfs_pick_next q = (Some (pid, vr), q')" by (metis prod.collapse)
    show ?thesis
      unfolding p fst_conv snd_conv option.case prod.case
      by (intro conjI ballI cfs_pick_Some [OF inv p])
  qed
  moreover have "\<forall>k \<in> cfs_keys q. cfs_min_vruntime q \<le> fst k" using inv by (simp add: cfs_inv_def)
  moreover have "\<forall>q'. cfs_step\<^sup>*\<^sup>* q q' \<longrightarrow> cfs_min_vruntime q \<le> cfs_min_vruntime q'"
    using cfs_steps_inv [OF _ inv] by blast
  ultimately show ?thesis by (intro conjI)
qed

text \<open>Picking keeps the counter of runnable processes, which counts the running process too; an empty
  tree is therefore not what \<^verbatim>\<open>is_empty\<close> reports.\<close>

lemma pick_keeps_nr_running: "cfs_nr_running (snd (cfs_pick_next q)) = cfs_nr_running q"
  by (auto simp: cfs_pick_next_def sync_min_vruntime_def split: option.splits)

section \<open>No starvation\<close>

text \<open>A round of the scheduler on one processor: the picked process runs for some ticks, each of which
  charges it virtual runtime, and is put back.\<close>

definition cfs_round :: "(u32 \<Rightarrow> u64) \<Rightarrow> nat \<Rightarrow> cfs_rq \<Rightarrow> u32 option \<times> cfs_rq" where
  "cfs_round weight ticks q =
     (case cfs_pick_next q of
        (None, q) \<Rightarrow> (None, q)
      | (Some (pid, vr), q) \<Rightarrow> (Some pid, update_curr pid ((cfs_tick (weight pid) ^^ ticks) vr) q))"

primrec cfs_rounds :: "(u32 \<Rightarrow> u64) \<Rightarrow> nat list \<Rightarrow> cfs_rq \<Rightarrow> u32 option list" where
  "cfs_rounds weight [] q = []"
| "cfs_rounds weight (ticks # ts) q = (case cfs_round weight ticks q of (r, q) \<Rightarrow> r # cfs_rounds weight ts q)"

lemma delta_pos: "0 < calc_vruntime_delta w"
  by (auto simp: calc_vruntime_delta_def NICE0_WEIGHT_def less_max_iff_disj)

lemma cfs_tick_le: "unat vr \<le> unat (cfs_tick w vr)" "vr \<noteq> - 1 \<Longrightarrow> unat vr < unat (cfs_tick w vr)"
proof -
  have b: "unat vr \<le> 2 ^ 64 - 1" using unat_bound [of vr] by simp
  show "unat vr \<le> unat (cfs_tick w vr)" using b by (simp add: cfs_tick_def unat_saturating_add)
  assume "vr \<noteq> - 1"
  moreover have "unat (- 1 :: u64) = 2 ^ 64 - 1" by (simp add: unat_max_word)
  ultimately have "unat vr \<noteq> 2 ^ 64 - 1" by (metis unsigned_word_eqI)
  then show "unat vr < unat (cfs_tick w vr)"
    using b delta_pos [of w] by (simp add: cfs_tick_def unat_saturating_add word_less_nat_alt)
qed

lemma cfs_ticks_less: "0 < n \<Longrightarrow> vr \<noteq> - 1 \<Longrightarrow> unat vr < unat ((cfs_tick w ^^ n) vr)"
proof (induction n)
  case (Suc n)
  show ?case
    using Suc cfs_tick_le(2) [of vr w] cfs_tick_le(1) [of "(cfs_tick w ^^ n) vr" w] by (cases "n = 0") auto
qed simp

text \<open>How much virtual runtime the entries before an entry can still consume.\<close>

definition ahead :: "(u64 \<times> u32) set \<Rightarrow> u64 \<times> u32 \<Rightarrow> nat" where
  "ahead ks k = (\<Sum>j \<in> {j \<in> ks. j < k}. Suc (unat (fst k) - unat (fst j)))"

lemma ahead_decreases:
  assumes fin: "finite ks" and j: "(w, r) \<in> ks" "(w, r) < k" and w': "unat w < unat w'"
  shows "ahead (insert (w', r) (ks - {(w, r)})) k < ahead ks k"
proof -
  let ?g = "\<lambda>j. Suc (unat (fst k) - unat (fst j))"
  let ?S = "{j \<in> ks. j < k} - {(w, r)}"
  have S: "ahead ks k = ?g (w, r) + sum ?g ?S"
    unfolding ahead_def using fin j by (subst sum.remove [of _ "(w, r)"]) auto
  have le: "fst (w, r) \<le> fst k" using j(2) by (cases k) (auto simp: less_prod_def)
  show ?thesis
  proof (cases "(w', r) < k")
    case False
    then have "{j \<in> insert (w', r) (ks - {(w, r)}). j < k} = ?S" by auto
    then show ?thesis using S by (simp add: ahead_def)
  next
    case True
    then have "{j \<in> insert (w', r) (ks - {(w, r)}). j < k} = insert (w', r) ?S" using w' by auto
    moreover have "sum ?g (insert (w', r) ?S) \<le> ?g (w', r) + sum ?g ?S"
      using fin by (cases "(w', r) \<in> ?S") (simp_all add: insert_absorb)
    moreover have "fst (w', r) \<le> fst k" using True by (cases k) (auto simp: less_prod_def)
    then have "?g (w', r) < ?g (w, r)" using w' le by (simp add: word_le_nat_alt)
    ultimately show ?thesis using S by (simp only: ahead_def)
  qed
qed

lemma cfs_round_progress:
  assumes inv: "cfs_inv q" and k: "(v, p) \<in> cfs_keys q" "v \<noteq> - 1" and t: "0 < ticks"
    and r: "cfs_round weight ticks q = (r, q')" "r \<noteq> Some p"
  shows "cfs_inv q'" "(v, p) \<in> cfs_keys q'" "ahead (cfs_keys q') (v, p) < ahead (cfs_keys q) (v, p)"
proof -
  obtain pid vr q1 where pick: "cfs_pick_next q = (Some (pid, vr), q1)"
    using k(1) cfs_pick_None [of q] by (cases "cfs_pick_next q") auto
  note c = cfs_pick_Some [OF inv pick]
  let ?vr = "max ((cfs_tick (weight pid) ^^ ticks) vr) (cfs_min_vruntime q1)"
  have q': "q' = q1\<lparr>cfs_tree := bt_insert (?vr, pid) () (cfs_tree q1)\<rparr>" and pid: "pid \<noteq> p"
    using r pick by (auto simp: cfs_round_def update_curr_def Let_def)
  have wf: "bt_wf (cfs_tree q1)" using c(4) by (simp add: cfs_inv_def)
  have keys: "cfs_keys q' = insert (?vr, pid) (cfs_keys q - {(vr, pid)})"
    using bt_keys_insert [OF wf] c(3) by (simp add: q')
  show "cfs_inv q'"
    using cfs_step_inv(1) [OF cfs_step.update c(4), of pid "(cfs_tick (weight pid) ^^ ticks) vr"]
    by (simp add: q' update_curr_def Let_def)
  show "(v, p) \<in> cfs_keys q'" using k(1) pid keys by auto
  have lt: "(vr, pid) < (v, p)" using c(2) [OF k(1)] pid by (metis Pair_inject order_le_less)
  then have "vr \<noteq> - 1" using k(2) by (auto simp: less_prod_def word_order.extremum_strict word_order.extremum_unique)
  then have "unat vr < unat ?vr" using cfs_ticks_less [OF t, of vr "weight pid"]
    by (auto simp: max_def word_le_nat_alt not_le)
  then show "ahead (cfs_keys q') (v, p) < ahead (cfs_keys q) (v, p)"
    unfolding keys using ahead_decreases [OF _ c(1) lt] by simp
qed

lemma cfs_rounds_reach:
  assumes "cfs_inv q" "(v, p) \<in> cfs_keys q" "v \<noteq> - 1" "\<forall>t \<in> set ts. 0 < t" "ahead (cfs_keys q) (v, p) < length ts"
  shows "Some p \<in> set (cfs_rounds weight ts q)"
  using assms
proof (induction ts arbitrary: q)
  case (Cons t ts)
  obtain r q' where r: "cfs_round weight t q = (r, q')" by fastforce
  show ?case
  proof (cases "r = Some p")
    case False
    have t: "0 < t" using Cons.prems(4) by simp
    note pr = cfs_round_progress [OF Cons.prems(1-3) t r False]
    have "Some p \<in> set (cfs_rounds weight ts q')"
      using Cons.prems(4,5) pr(3) by (intro Cons.IH [OF pr(1,2) Cons.prems(3)]) simp_all
    then show ?thesis by (simp add: r)
  qed (simp add: r)
qed simp


section \<open>The deadline queue\<close>

text \<open>One call on a deadline queue.\<close>

inductive dl_step :: "dl_rq \<Rightarrow> dl_rq \<Rightarrow> bool" where
  enqueue: "dl_step q (snd (dl_enqueue pid dl util q))"
| dequeue: "dl_step q (dl_dequeue pid dl util q)"
| pick: "dl_step q (snd (dl_pick_next q))"
| reinsert: "dl_step q (dl_reinsert pid dl q)"

abbreviation dl_keys :: "dl_rq \<Rightarrow> (u64 \<times> u32) set" where
  "dl_keys q \<equiv> bt_keys (dl_tree q)"

definition dl_inv :: "dl_rq \<Rightarrow> bool" where
  "dl_inv q \<longleftrightarrow> bt_wf (dl_tree q) \<and> dl_total_utilization q \<le> DL_MAX_UTILIZATION_PCT"

lemma dl_admit:
  assumes "\<not> DL_MAX_UTILIZATION_PCT < saturating_add u v"
  shows "unat (u + v) = unat u + unat v" "u + v \<le> DL_MAX_UTILIZATION_PCT"
proof -
  have "min (unat u + unat v) (2 ^ 64 - 1) \<le> 95"
    using assms by (simp add: word_less_nat_alt unat_saturating_add DL_MAX_UTILIZATION_PCT_def)
  then have le: "unat u + unat v \<le> 95" by simp
  then show eq: "unat (u + v) = unat u + unat v" by (simp add: unat_word_ariths)
  show "u + v \<le> DL_MAX_UTILIZATION_PCT" using le eq by (simp add: word_le_nat_alt DL_MAX_UTILIZATION_PCT_def)
qed

lemma dl_step_inv:
  assumes "dl_step q q'" "dl_inv q"
  shows "dl_inv q'"
  using assms
proof cases
  case (enqueue pid dl util)
  then show ?thesis using assms(2) dl_admit(2) [of "dl_total_utilization q" util]
    by (auto simp: dl_enqueue_def dl_inv_def bt_wf_insert)
next
  case (dequeue pid dl util)
  have "saturating_sub (dl_total_utilization q) util \<le> dl_total_utilization q"
    by (simp add: word_le_nat_alt unat_saturating_sub)
  then show ?thesis using dequeue assms(2) by (auto simp: dl_dequeue_def dl_inv_def bt_wf_remove)
next
  case pick
  then show ?thesis using assms(2) by (auto simp: dl_pick_next_def dl_inv_def bt_wf_remove split: option.splits)
next
  case (reinsert pid dl)
  then show ?thesis using assms(2) by (simp add: dl_reinsert_def dl_inv_def bt_wf_insert)
qed

lemma dl_new_inv: "dl_inv dl_new"
  by (simp add: dl_inv_def dl_new_def)

lemma dl_run_inv: "dl_step\<^sup>*\<^sup>* dl_new q \<Longrightarrow> dl_inv q"
  by (induction rule: rtranclp_induct) (auto intro: dl_step_inv dl_new_inv)

text \<open>In every history of a deadline queue the admitted utilisation is at most 95 percent, a task is
  refused exactly when it would exceed that bound (as an exact sum, not modulo \<open>2\<^sup>6\<^sup>4\<close>), and the queue runs the
  task with the earliest deadline.\<close>

theorem edf_admission:
  assumes "dl_step\<^sup>*\<^sup>* dl_new q"
  shows "unat (dl_total_utilization q) \<le> 95
    \<and> (fst (dl_enqueue pid dl util q) \<longleftrightarrow> unat (dl_total_utilization q) + unat util \<le> 95)
    \<and> (case dl_pick_next q of
         (None, q') \<Rightarrow> dl_keys q = {}
       | (Some (p, d), q') \<Rightarrow> (d, p) \<in> dl_keys q \<and> (\<forall>k \<in> dl_keys q. d \<le> fst k) \<and> dl_keys q' = dl_keys q - {(d, p)})"
proof (intro conjI)
  have inv: "dl_inv q" by (rule dl_run_inv [OF assms])
  then have wf: "bt_wf (dl_tree q)" by (simp add: dl_inv_def)
  show "unat (dl_total_utilization q) \<le> 95"
    using inv by (simp add: dl_inv_def word_le_nat_alt DL_MAX_UTILIZATION_PCT_def)
  have "fst (dl_enqueue pid dl util q) \<longleftrightarrow> min (unat (dl_total_utilization q) + unat util) (2 ^ 64 - 1) \<le> 95"
    by (auto simp: dl_enqueue_def word_less_nat_alt unat_saturating_add DL_MAX_UTILIZATION_PCT_def not_less min_le_iff_disj)
  then show "fst (dl_enqueue pid dl util q) \<longleftrightarrow> unat (dl_total_utilization q) + unat util \<le> 95"
    by (simp add: min_le_iff_disj)
  show "case dl_pick_next q of
       (None, q') \<Rightarrow> dl_keys q = {}
     | (Some (p, d), q') \<Rightarrow> (d, p) \<in> dl_keys q \<and> (\<forall>k \<in> dl_keys q. d \<le> fst k) \<and> dl_keys q' = dl_keys q - {(d, p)}"
  proof (cases "bt_first (dl_tree q)")
    case None
    then show ?thesis by (simp add: dl_pick_next_def bt_first_None_iff)
  next
    case (Some e)
    then obtain d p u where e: "bt_first (dl_tree q) = Some ((d, p), u)" by (cases e) auto
    have "d \<le> fst k" if "k \<in> dl_keys q" for k
      using bt_first_key(2) [OF wf e that] by (cases k) (auto simp: less_eq_prod_def)
    then show ?thesis
      using bt_first_key(1) [OF wf e] bt_keys_remove [OF wf, of "(d, p)"] by (simp add: dl_pick_next_def e)
  qed
qed

text \<open>Utilisation is rounded down to whole percents: a valid task below one percent counts nothing.\<close>

lemma small_task_free:
  "dp_is_valid \<lparr>dp_runtime = 1, dp_deadline = 150, dp_period = 150\<rparr>
   \<and> utilization_pct \<lparr>dp_runtime = 1, dp_deadline = 150, dp_period = 150\<rparr> = 0"
  by code_simp

section \<open>A queue of three processes\<close>

definition sample_rq :: cfs_rq where
  "sample_rq = cfs_enqueue 3 200 1024 (cfs_enqueue 2 50 1024 (cfs_enqueue 1 100 1024 cfs_new))"

lemma sample_rq_run: "cfs_step\<^sup>*\<^sup>* cfs_new sample_rq"
  unfolding sample_rq_def
  by (rule rtranclp.rtrancl_into_rtrancl, rule rtranclp.rtrancl_into_rtrancl, rule r_into_rtranclp)
    (rule cfs_step.enqueue)+

lemma sample_rq_keys: "cfs_keys sample_rq = {(50, 2), (100, 1), (200, 3)}"
  by code_simp

theorem cfs_picks_least_witness:
  "fst (cfs_pick_next sample_rq) = Some (2, 50) \<and> cfs_keys (snd (cfs_pick_next sample_rq)) = {(100, 1), (200, 3)}"
proof -
  have "fst (cfs_pick_next sample_rq) = Some (2, 50)" by code_simp
  with cfs_picks_least [OF sample_rq_run] show ?thesis by (auto simp: sample_rq_keys)
qed


definition sample_dl :: dl_rq where
  "sample_dl = snd (dl_enqueue 7 500 60 dl_new)"

theorem edf_admission_witness:
  "unat (dl_total_utilization sample_dl) \<le> 95 \<and> \<not> fst (dl_enqueue 8 400 36 sample_dl) \<and> fst (dl_enqueue 8 400 35 sample_dl)"
proof -
  have run: "dl_step\<^sup>*\<^sup>* dl_new sample_dl"
    unfolding sample_dl_def by (rule r_into_rtranclp, rule dl_step.enqueue)
  have "dl_total_utilization sample_dl = 60" by code_simp
  then show ?thesis
    using edf_admission [OF run, of 8 400 36] edf_admission [OF run, of 8 400 35] by simp
qed

end
