(* ===== verification/Semaphore.thy ===== *)
theory Semaphore
  imports Wait_Queue
begin

text \<open>
  Semaphores (\<^verbatim>\<open>src/src/kernel/services/ipc/sem.rs\<close> and the types in \<^verbatim>\<open>ipc/types.rs\<close>), over the wait queues.
  \<^verbatim>\<open>sem_wait_safe\<close> is a loop around a blocking call: \<open>sem_wait_enter\<close> is its search for the semaphore,
  \<open>sem_wait_iter\<close> one turn of the loop, which takes a unit, goes to sleep, or spins when sleeping is
  impossible.  Between two blocking points a process is not preempted in the kernel, so a turn is one
  step.  The theorems: no more units are taken than were put in, and no process sleeps on a semaphore with
  units while nobody is about to take them.
\<close>

definition IPC_MAX_SEMAPHORES :: nat where
  "IPC_MAX_SEMAPHORES = 64"

record semaphore =
  sem_id :: u32
  sem_owner :: u32
  sem_count :: i32
  sem_max_count :: u32
  sem_waitq :: wait_queue
  sem_flags :: i32
  sem_perm :: i32

definition semaphore_new :: semaphore where
  "semaphore_new = \<lparr>sem_id = 0, sem_owner = 0, sem_count = 0, sem_max_count = 0,
     sem_waitq = wait_queue_new, sem_flags = 0, sem_perm = 0\<rparr>"

definition sem_find_free :: "semaphore list \<Rightarrow> nat option" where
  "sem_find_free sems = find_idx (\<lambda>s. sem_id s = 0) sems"

definition sem_find_by_id :: "semaphore list \<Rightarrow> u32 \<Rightarrow> nat option" where
  "sem_find_by_id sems i = find_idx (\<lambda>s. sem_id s = i) sems"

text \<open>The casts between \<^verbatim>\<open>u32\<close> and \<^verbatim>\<open>i32\<close> keep the bits; only comparisons of the signed count use \<open>sint\<close>.\<close>

definition sem_create_safe ::
  "u32 \<Rightarrow> u32 \<Rightarrow> u32 \<Rightarrow> u32 \<Rightarrow> semaphore list \<Rightarrow> (i32 + u32) \<times> u32 \<times> semaphore list" where
  "sem_create_safe next_id cnt max_count current_pid sems =
     (case sem_find_free sems of
        None \<Rightarrow> (Inl (- 1), next_id, sems)
      | Some k \<Rightarrow>
          (Inr next_id, next_id + 1,
           sems[k := (sems ! k)\<lparr>sem_id := next_id, sem_owner := current_pid, sem_count := cnt,
             sem_max_count := max_count, sem_flags := 0, sem_perm := 438,
             sem_waitq := wq_init (sem_waitq (sems ! k))\<rparr>]))"

definition sem_wait_enter :: "u32 \<Rightarrow> semaphore list \<Rightarrow> i32 + nat" where
  "sem_wait_enter i sems = (case sem_find_by_id sems i of None \<Rightarrow> Inl (- 1) | Some k \<Rightarrow> Inr k)"

datatype wait_outcome = Acquired | Asleep | Spinning

definition sem_wait_iter :: "bool \<Rightarrow> u32 \<Rightarrow> semaphore \<Rightarrow> wait_outcome \<times> semaphore" where
  "sem_wait_iter irq pid s =
     (if sint (sem_count s) \<le> 0 then
        (case block_current_thread irq pid (sem_waitq s) of
           (Inr _, q) \<Rightarrow> (Asleep, s\<lparr>sem_waitq := q\<rparr>)
         | (Inl _, q) \<Rightarrow> (Spinning, s\<lparr>sem_waitq := q\<rparr>))
      else (Acquired, s\<lparr>sem_count := sem_count s - 1\<rparr>))"

text \<open>The result, the table and the processes woken.\<close>

definition sem_post_safe :: "bool \<Rightarrow> u32 \<Rightarrow> semaphore list \<Rightarrow> (i32 + unit) \<times> semaphore list \<times> u32 list" where
  "sem_post_safe irq i sems =
     (case sem_find_by_id sems i of
        None \<Rightarrow> (Inl (- 1), sems, [])
      | Some k \<Rightarrow>
          (let s = sems ! k;
               s = (if sem_count s < sem_max_count s then s\<lparr>sem_count := sem_count s + 1\<rparr> else s)
           in if 0 < wq_count (sem_waitq s) then
                (case wake_one_thread irq (sem_waitq s) of
                   (_, q, woken) \<Rightarrow> (Inr (), sems[k := s\<lparr>sem_waitq := q\<rparr>], woken))
              else (Inr (), sems[k := s], [])))"

definition sem_destroy_safe :: "bool \<Rightarrow> u32 \<Rightarrow> semaphore list \<Rightarrow> (i32 + unit) \<times> semaphore list \<times> u32 list" where
  "sem_destroy_safe irq i sems =
     (case sem_find_by_id sems i of
        None \<Rightarrow> (Inl (- 1), sems, [])
      | Some k \<Rightarrow>
          (case wake_all_threads irq (sem_waitq (sems ! k)) of
             (q, woken) \<Rightarrow> (Inr (), sems[k := (sems ! k)\<lparr>sem_waitq := q, sem_id := 0\<rparr>], woken)))"

section \<open>Processes on semaphores\<close>

text \<open>The table with the processes that are in the loop of \<^verbatim>\<open>sem_wait_safe\<close> on a slot and not asleep: a
  process keeps its reference to the slot while it sleeps.  Events are recorded newest first.\<close>

datatype sem_event = Created nat nat nat | Posted nat | Took nat u32

record sem_world =
  sw_sems :: "semaphore list"
  sw_next :: u32
  sw_loop :: "(u32 \<times> nat) multiset"

inductive sem_run :: "sem_world \<Rightarrow> sem_event list \<Rightarrow> bool" where
  boot: "sem_run \<lparr>sw_sems = replicate IPC_MAX_SEMAPHORES semaphore_new, sw_next = n, sw_loop = {#}\<rparr> []"
| create: "sem_run (w\<lparr>sw_sems := sems, sw_next := n\<rparr>) (Created k (unat cnt) (unat max_count) # h)"
    if "sem_run w h" "sem_find_free (sw_sems w) = Some k"
      "sem_create_safe (sw_next w) cnt max_count pid (sw_sems w) = (Inr i, n, sems)"
| enter: "sem_run (w\<lparr>sw_loop := add_mset (pid, k) (sw_loop w)\<rparr>) h"
    if "sem_run w h" "sem_wait_enter i (sw_sems w) = Inr k"
| take_unit: "sem_run (w\<lparr>sw_sems := (sw_sems w)[k := s], sw_loop := sw_loop w - {#(pid, k)#}\<rparr>) (Took k pid # h)"
    if "sem_run w h" "(pid, k) \<in># sw_loop w" "sem_wait_iter irq pid (sw_sems w ! k) = (Acquired, s)"
| sleep: "sem_run (w\<lparr>sw_sems := (sw_sems w)[k := s], sw_loop := sw_loop w - {#(pid, k)#}\<rparr>) h"
    if "sem_run w h" "(pid, k) \<in># sw_loop w" "sem_wait_iter irq pid (sw_sems w ! k) = (Asleep, s)"
| spin: "sem_run (w\<lparr>sw_sems := (sw_sems w)[k := s]\<rparr>) h"
    if "sem_run w h" "(pid, k) \<in># sw_loop w" "sem_wait_iter irq pid (sw_sems w ! k) = (Spinning, s)"
| post: "sem_run (w\<lparr>sw_sems := sems, sw_loop := image_mset (\<lambda>p. (p, k)) (mset woken) + sw_loop w\<rparr>) (Posted k # h)"
    if "sem_run w h" "sem_find_by_id (sw_sems w) i = Some k" "sem_post_safe irq i (sw_sems w) = (Inr (), sems, woken)"
| destroy: "sem_run (w\<lparr>sw_sems := sems, sw_loop := image_mset (\<lambda>p. (p, k)) (mset woken) + sw_loop w\<rparr>) h"
    if "sem_run w h" "sem_find_by_id (sw_sems w) i = Some k" "sem_destroy_safe irq i (sw_sems w) = (Inr (), sems, woken)"

text \<open>The latest creation in a slot, and the events since.\<close>

primrec creation :: "nat \<Rightarrow> sem_event list \<Rightarrow> (nat \<times> nat) option" where
  "creation k [] = None"
| "creation k (e # h) = (case e of Created j n m \<Rightarrow> if j = k then Some (n, m) else creation k h | _ \<Rightarrow> creation k h)"

primrec posts :: "nat \<Rightarrow> sem_event list \<Rightarrow> nat" where
  "posts k [] = 0"
| "posts k (e # h) = (case e of Created j n m \<Rightarrow> if j = k then 0 else posts k h
     | Posted j \<Rightarrow> if j = k then Suc (posts k h) else posts k h | Took j pid \<Rightarrow> posts k h)"

primrec takes :: "nat \<Rightarrow> sem_event list \<Rightarrow> nat" where
  "takes k [] = 0"
| "takes k (e # h) = (case e of Created j n m \<Rightarrow> if j = k then 0 else takes k h
     | Took j pid \<Rightarrow> if j = k then Suc (takes k h) else takes k h | Posted j \<Rightarrow> takes k h)"

abbreviation in_loop :: "sem_world \<Rightarrow> nat \<Rightarrow> nat" where
  "in_loop w k \<equiv> size (filter_mset (\<lambda>e. snd e = k) (sw_loop w))"

text \<open>No unit is left alone: with sleepers, at least as many processes are in the loop as there are units,
  unless an interrupt handler left a wake request.\<close>

definition awake :: "nat \<Rightarrow> semaphore \<Rightarrow> bool" where
  "awake n s \<longleftrightarrow> wq_ok (sem_waitq s)
     \<and> (waiters (sem_waitq s) \<noteq> [] \<longrightarrow> wq_wake_pending (sem_waitq s) \<or> sint (sem_count s) \<le> int n)"

definition counted :: "semaphore \<Rightarrow> (nat \<times> nat) option \<Rightarrow> nat \<Rightarrow> nat \<Rightarrow> bool" where
  "counted s c np nt \<longleftrightarrow> (case c of None \<Rightarrow> True
     | Some (n, m) \<Rightarrow> unat (sem_max_count s) = m
         \<and> (n \<le> m \<and> m < 2 ^ 31 \<longrightarrow> 0 \<le> sint (sem_count s) \<and> sint (sem_count s) \<le> int m
              \<and> int nt + sint (sem_count s) \<le> int n + int np))"

definition sem_inv :: "sem_world \<Rightarrow> sem_event list \<Rightarrow> bool" where
  "sem_inv w h \<longleftrightarrow> length (sw_sems w) = IPC_MAX_SEMAPHORES \<and> (\<forall>e \<in># sw_loop w. snd e < IPC_MAX_SEMAPHORES)
     \<and> (\<forall>k < IPC_MAX_SEMAPHORES. awake (in_loop w k) (sw_sems w ! k)
          \<and> counted (sw_sems w ! k) (creation k h) (posts k h) (takes k h))"

section \<open>Signed counts\<close>

lemma sint_cases: "sint (c :: i32) = (if unat c < 2 ^ 31 then int (unat c) else int (unat c) - 2 ^ 32)"
proof -
  have "sint c = take_bit 32 (uint c + 2 ^ 31) - 2 ^ 31"
    by (simp add: sint_uint signed_take_bit_eq_take_bit_shift)
  also have "\<dots> = (int (unat c) + 2 ^ 31) mod 2 ^ 32 - 2 ^ 31" by (simp add: take_bit_eq_mod)
  finally have eq: "sint c = (int (unat c) + 2 ^ 31) mod 2 ^ 32 - 2 ^ 31" .
  have b: "int (unat c) < 2 ^ 32" using unat_bound [of c] by (simp del: of_nat_unat)
  show ?thesis
  proof (cases "unat c < 2 ^ 31")
    case True
    then have "int (unat c) < 2 ^ 31" by (simp del: of_nat_unat)
    then have "(int (unat c) + 2 ^ 31) mod 2 ^ 32 = int (unat c) + 2 ^ 31" by (intro mod_pos_pos_trivial) simp_all
    with True eq show ?thesis by simp
  next
    case False
    then have "2 ^ 31 \<le> int (unat c)" by (simp del: of_nat_unat)
    then have "(int (unat c) + 2 ^ 31 - 2 ^ 32) mod 2 ^ 32 = int (unat c) + 2 ^ 31 - 2 ^ 32"
      using b by (intro mod_pos_pos_trivial) simp_all
    moreover have "int (unat c) + 2 ^ 31 = int (unat c) + 2 ^ 31 - 2 ^ 32 + 2 ^ 32" by (rule diff_add_cancel [symmetric])
    ultimately have "(int (unat c) + 2 ^ 31) mod 2 ^ 32 = int (unat c) + 2 ^ 31 - 2 ^ 32"
      by (metis mod_add_self2)
    with False eq show ?thesis by simp
  qed
qed

lemma sint_dec: "0 < sint (c :: i32) \<Longrightarrow> sint (c - 1) = sint c - 1"
proof -
  assume a: "0 < sint c"
  then have "0 < unat c" "unat c < 2 ^ 31" using unat_bound [of c] by (auto simp: sint_cases simp del: of_nat_unat split: if_splits)
  then have "unat (c - 1) = unat c - 1" by (simp add: unat_sub_if' word_le_nat_alt)
  with \<open>0 < unat c\<close> \<open>unat c < 2 ^ 31\<close> show ?thesis by (simp add: sint_cases of_nat_diff del: of_nat_unat)
qed

lemma sint_inc: "sint (c + 1 :: i32) \<le> sint c + 1" "0 \<le> sint c \<Longrightarrow> sint c < 2 ^ 31 - 1 \<Longrightarrow> sint (c + 1) = sint c + 1"
proof -
  have u: "unat (c + 1) = (if unat c = 2 ^ 32 - 1 then 0 else unat c + 1)"
    using unat_bound [of c] by (auto simp: unat_word_ariths mod_Suc)
  show "sint (c + 1) \<le> sint c + 1" using unat_bound [of c] by (auto simp: sint_cases u simp del: of_nat_unat)
  show "sint (c + 1) = sint c + 1" if "0 \<le> sint c" "sint c < 2 ^ 31 - 1"
    using that unat_bound [of c] by (auto simp: sint_cases u simp del: of_nat_unat split: if_splits)
qed

section \<open>The invariant\<close>

lemma sem_iter_inv:
  assumes "awake n s" "sem_wait_iter irq pid s = (r, s')"
  shows "r = Acquired \<Longrightarrow> awake (n - 1) s'" "r \<noteq> Acquired \<Longrightarrow> awake m s'"
    "sem_max_count s' = sem_max_count s" "sint (sem_count s') = sint (sem_count s) - (if r = Acquired then 1 else 0)"
    "r = Acquired \<Longrightarrow> 0 < sint (sem_count s)"
proof -
  show "r = Acquired \<Longrightarrow> awake (n - 1) s'"
    using assms by (auto simp: sem_wait_iter_def awake_def sint_dec split: if_splits prod.splits sum.splits)
  show "sem_max_count s' = sem_max_count s" "sint (sem_count s') = sint (sem_count s) - (if r = Acquired then 1 else 0)"
    "r = Acquired \<Longrightarrow> 0 < sint (sem_count s)"
    using assms(2) by (auto simp: sem_wait_iter_def sint_dec split: if_splits prod.splits sum.splits)
  assume r: "r \<noteq> Acquired"
  obtain b q where b: "block_current_thread irq pid (sem_waitq s) = (b, q)" by fastforce
  have "wq_ok q" using block_waiters(1) [OF _ b] assms(1) by (simp add: awake_def)
  moreover have "sint (sem_count s) \<le> 0" "s' = s\<lparr>sem_waitq := q\<rparr>"
    using assms(2) r b by (auto simp: sem_wait_iter_def split: if_splits sum.splits)
  ultimately show "awake m s'" by (simp add: awake_def)
qed

lemma sem_wake_inv:
  assumes "awake n s" "sint (sem_count s') \<le> sint (sem_count s) + 1" "sem_waitq s' = sem_waitq s"
    and "wake_one_thread irq (sem_waitq s) = (r, q, woken)" "0 < wq_count (sem_waitq s)"
  shows "awake (length woken + n) (s'\<lparr>sem_waitq := q\<rparr>)"
proof -
  have ok: "wq_ok (sem_waitq s)" using assms(1) by (simp add: awake_def)
  note w = wake_one_thread_waiters [OF ok assms(4)]
  have ne: "waiters (sem_waitq s) \<noteq> []" using wq_ok_count [OF ok] assms(5) by (auto simp: word_less_nat_alt)
  show ?thesis
  proof (cases irq)
    case True
    then show ?thesis using assms(4) w(1) by (auto simp: awake_def wake_one_thread_def request_wake_def)
  next
    case False
    then have "1 \<le> length woken" using w(3) ne by (cases woken) auto
    moreover have "waiters q = []" if "wq_wake_pending (sem_waitq s)"
    proof -
      obtain dr q1 where d: "drain_pending (sem_waitq s) = (dr, q1)" by fastforce
      then have "waiters q1 = []" using that drain_pending_waiters [OF ok d] by simp
      then show ?thesis using assms(4) False d wake_one_none [of q1] wake_one_waiters [of q1]
          drain_pending_waiters(1) [OF ok d]
        by (auto simp: wake_one_thread_def waiters_def split: prod.splits option.splits)
    qed
    ultimately show ?thesis using assms(1,2) w(1) ne by (auto simp: awake_def)
  qed
qed

lemma sem_destroy_awake:
  assumes "awake n s" "wake_all_threads irq (sem_waitq s) = (q, woken)"
  shows "awake m (s\<lparr>sem_waitq := q, sem_id := 0\<rparr>)"
proof -
  have ok: "wq_ok (sem_waitq s)" using assms(1) by (simp add: awake_def)
  note w = wake_all_threads_waiters [OF ok assms(2)]
  show ?thesis
    using w(1,3) assms(2) by (cases irq) (auto simp: awake_def wake_all_threads_def request_wake_def)
qed

lemma awake_mono: "awake n s \<Longrightarrow> n \<le> m \<Longrightarrow> awake m s"
  by (auto simp: awake_def)

text \<open>An update of one slot with a change of its loop population, as every step makes.\<close>

lemma sem_inv_update:
  assumes inv: "sem_inv w h" and k: "k < IPC_MAX_SEMAPHORES"
    and s: "awake (in_loop (w\<lparr>sw_loop := l\<rparr>) k) s" "counted s (creation k h') (posts k h') (takes k h')"
    and l: "\<forall>e \<in># l. snd e < IPC_MAX_SEMAPHORES"
    and other: "\<And>j. j \<noteq> k \<Longrightarrow> filter_mset (\<lambda>e. snd e = j) l = filter_mset (\<lambda>e. snd e = j) (sw_loop w)"
      "\<And>j. j \<noteq> k \<Longrightarrow> creation j h' = creation j h \<and> posts j h' = posts j h \<and> takes j h' = takes j h"
  shows "sem_inv (w\<lparr>sw_sems := (sw_sems w)[k := s], sw_next := n, sw_loop := l\<rparr>) h'"
  using inv k s l other by (auto simp: sem_inv_def nth_list_update)

lemma loop_other:
  "j \<noteq> k \<Longrightarrow> filter_mset (\<lambda>e. snd e = j) (image_mset (\<lambda>p. (p, k)) m + l) = filter_mset (\<lambda>e. snd e = j) l"
  "j \<noteq> k \<Longrightarrow> filter_mset (\<lambda>e. snd e = j) (l - {#(p, k)#}) = filter_mset (\<lambda>e. snd e = j) l"
  "size (filter_mset (\<lambda>e. snd e = k) (image_mset (\<lambda>p. (p, k)) m + l)) = size m + size (filter_mset (\<lambda>e. snd e = k) l)"
  by (simp_all add: filter_mset_image_mset filter_eq_replicate_mset)

lemma counted_post:
  assumes "counted s c np nt" "s' = (if sem_count s < sem_max_count s then s\<lparr>sem_count := sem_count s + 1\<rparr> else s)"
  shows "counted s' c (Suc np) nt" "sint (sem_count s') \<le> sint (sem_count s) + 1" "sem_waitq s' = sem_waitq s"
proof -
  show "sint (sem_count s') \<le> sint (sem_count s) + 1" "sem_waitq s' = sem_waitq s"
    using assms(2) sint_inc(1) [of "sem_count s"] by auto
  have "sint (sem_count s + 1) = sint (sem_count s) + 1 \<and> sint (sem_count s) < int (unat (sem_max_count s))"
    if "0 \<le> sint (sem_count s)" "unat (sem_max_count s) < 2 ^ 31" "sem_count s < sem_max_count s"
  proof -
    have "sint (sem_count s) = int (unat (sem_count s))" using that(1) unat_bound [of "sem_count s"] by (auto simp: sint_cases simp del: of_nat_unat split: if_splits)
    moreover have "unat (sem_count s) < unat (sem_max_count s)" using that(3) by (simp add: word_less_nat_alt)
    ultimately have lt: "sint (sem_count s) < int (unat (sem_max_count s))" by (simp only: of_nat_less_iff)
    have "int (unat (sem_max_count s)) < 2 ^ 31" using that(2) by (simp del: of_nat_unat)
    with lt show ?thesis using sint_inc(2) [OF that(1)] by linarith
  qed
  with assms show "counted s' c (Suc np) nt"
    by (auto simp: counted_def simp del: of_nat_unat split: option.splits)
qed

lemma sem_iter_counted:
  assumes "counted s c np nt" "awake n s" "sem_wait_iter irq pid s = (r, s')"
  shows "counted s' c np (if r = Acquired then Suc nt else nt)"
  using assms(1) sem_iter_inv(3,4,5) [OF assms(2,3)]
  by (auto simp: counted_def split: option.splits)

lemma sem_find_bound: "sem_inv w h \<Longrightarrow> sem_find_by_id (sw_sems w) i = Some k \<Longrightarrow> k < IPC_MAX_SEMAPHORES"
  "sem_inv w h \<Longrightarrow> sem_find_free (sw_sems w) = Some k \<Longrightarrow> k < IPC_MAX_SEMAPHORES"
  by (auto simp: sem_inv_def sem_find_by_id_def sem_find_free_def dest: find_idx_SomeD(1))

lemma sem_iter_step:
  assumes inv: "sem_inv w h" and p: "(pid, k) \<in># sw_loop w"
    and it: "sem_wait_iter irq pid (sw_sems w ! k) = (r, s)"
    and h': "h' = (if r = Acquired then Took k pid # h else h)"
    and l: "l = (if r = Spinning then sw_loop w else sw_loop w - {#(pid, k)#})"
  shows "sem_inv (w\<lparr>sw_sems := (sw_sems w)[k := s], sw_loop := l\<rparr>) h'"
proof -
  have k: "k < IPC_MAX_SEMAPHORES" using inv p by (auto simp: sem_inv_def)
  then have a: "awake (in_loop w k) (sw_sems w ! k)"
    and c: "counted (sw_sems w ! k) (creation k h) (posts k h) (takes k h)"
    using inv by (simp_all add: sem_inv_def)
  note i = sem_iter_inv [OF a it]
  have "size (filter_mset (\<lambda>e. snd e = k) (sw_loop w - {#(pid, k)#})) = in_loop w k - 1"
    using p by (simp add: size_Diff_singleton)
  then have s: "awake (in_loop (w\<lparr>sw_loop := l\<rparr>) k) s"
    using i(1,2) l by (cases r) simp_all
  have "sem_inv (w\<lparr>sw_sems := (sw_sems w)[k := s], sw_next := sw_next w, sw_loop := l\<rparr>) h'"
  proof (rule sem_inv_update [OF inv k s])
    show "counted s (creation k h') (posts k h') (takes k h')"
      using sem_iter_counted [OF c a it] h' by (cases r) simp_all
    show "\<forall>e \<in># l. snd e < IPC_MAX_SEMAPHORES" using inv l by (auto simp: sem_inv_def dest: in_diffD)
    show "filter_mset (\<lambda>e. snd e = j) l = filter_mset (\<lambda>e. snd e = j) (sw_loop w)" if "j \<noteq> k" for j
      using l that by simp
    show "creation j h' = creation j h \<and> posts j h' = posts j h \<and> takes j h' = takes j h" if "j \<noteq> k" for j
      using h' that by simp
  qed
  then show ?thesis by simp
qed

lemma sem_run_inv: "sem_run w h \<Longrightarrow> sem_inv w h"
proof (induction rule: sem_run.induct)
  case (boot n)
  then show ?case by (simp add: sem_inv_def awake_def counted_def semaphore_new_def wq_ok_new)
next
  case (create w h k cnt max_count pid i n sems)
  have k: "k < IPC_MAX_SEMAPHORES" by (rule sem_find_bound(2) [OF create.IH create.hyps(2)])
  define s where "s = (sw_sems w ! k)\<lparr>sem_id := sw_next w, sem_owner := pid, sem_count := cnt,
      sem_max_count := max_count, sem_flags := 0, sem_perm := 438, sem_waitq := wq_init (sem_waitq (sw_sems w ! k))\<rparr>"
  have sems: "sems = (sw_sems w)[k := s]"
    using create.hyps(2,3) by (auto simp: sem_create_safe_def s_def)
  have "sem_inv (w\<lparr>sw_sems := (sw_sems w)[k := s], sw_next := n, sw_loop := sw_loop w\<rparr>)
      (Created k (unat cnt) (unat max_count) # h)"
  proof (rule sem_inv_update [OF create.IH k])
    show "awake (in_loop (w\<lparr>sw_loop := sw_loop w\<rparr>) k) s" by (simp add: s_def awake_def wq_ok_init)
    have "0 \<le> sint cnt \<and> sint cnt = int (unat cnt)" if "unat cnt \<le> unat max_count" "unat max_count < 2 ^ 31"
      using that by (auto simp: sint_cases)
    then show "counted s (creation k (Created k (unat cnt) (unat max_count) # h))
        (posts k (Created k (unat cnt) (unat max_count) # h)) (takes k (Created k (unat cnt) (unat max_count) # h))"
      by (auto simp: counted_def s_def simp del: of_nat_unat)
  qed (use create.IH in \<open>simp_all add: sem_inv_def\<close>)
  then show ?case by (simp add: sems)
next
  case (enter w h i k pid)
  have "sem_find_by_id (sw_sems w) i = Some k"
    using enter.hyps(2) by (auto simp: sem_wait_enter_def split: option.splits)
  then have "k < IPC_MAX_SEMAPHORES" by (rule sem_find_bound(1) [OF enter.IH])
  moreover have "awake (in_loop (w\<lparr>sw_loop := add_mset (pid, k) (sw_loop w)\<rparr>) j) (sw_sems w ! j)"
    if "j < IPC_MAX_SEMAPHORES" for j
  proof (rule awake_mono)
    show "awake (in_loop w j) (sw_sems w ! j)" using enter.IH that by (simp add: sem_inv_def)
  qed simp
  ultimately show ?case using enter.IH by (simp add: sem_inv_def)
next
  case (take_unit w h pid k irq s)
  then show ?case using sem_iter_step [OF take_unit.IH take_unit.hyps(2,3) refl refl] by simp
next
  case (sleep w h pid k irq s)
  then show ?case using sem_iter_step [OF sleep.IH sleep.hyps(2,3) refl refl] by simp
next
  case (spin w h pid k irq s)
  then show ?case using sem_iter_step [OF spin.IH spin.hyps(2,3) refl refl] by simp
next
  case (post w h i k irq sems woken)
  have k: "k < IPC_MAX_SEMAPHORES" by (rule sem_find_bound(1) [OF post.IH post.hyps(2)])
  let ?s = "sw_sems w ! k" and ?l = "image_mset (\<lambda>p. (p, k)) (mset woken) + sw_loop w"
  define s where "s = (if sem_count ?s < sem_max_count ?s then ?s\<lparr>sem_count := sem_count ?s + 1\<rparr> else ?s)"
  have a: "awake (in_loop w k) ?s" and c: "counted ?s (creation k h) (posts k h) (takes k h)"
    using post.IH k by (simp_all add: sem_inv_def)
  note p = counted_post [OF c s_def]
  have len: "in_loop (w\<lparr>sw_loop := ?l\<rparr>) k = length woken + in_loop w k" using loop_other(3) [of k "mset woken" "sw_loop w"] by simp
  have eq: "sem_post_safe irq i (sw_sems w) = (if 0 < wq_count (sem_waitq s) then
      (case wake_one_thread irq (sem_waitq s) of (_, q, woken) \<Rightarrow> (Inr (), (sw_sems w)[k := s\<lparr>sem_waitq := q\<rparr>], woken))
      else (Inr (), (sw_sems w)[k := s], []))"
    unfolding sem_post_safe_def Let_def s_def post.hyps(2) option.case ..
  obtain s' where sems: "sems = (sw_sems w)[k := s']" and s': "awake (length woken + in_loop w k) s'"
    "sem_count s' = sem_count s" "sem_max_count s' = sem_max_count s"
  proof (cases "0 < wq_count (sem_waitq s)")
    case True
    obtain r q ws where wk: "wake_one_thread irq (sem_waitq ?s) = (r, q, ws)" by (metis prod_cases3)
    have "sems = (sw_sems w)[k := s\<lparr>sem_waitq := q\<rparr>]" "ws = woken"
      using post.hyps(3) True wk p(3) by (simp_all add: eq)
    then show thesis using that [of "s\<lparr>sem_waitq := q\<rparr>"] sem_wake_inv [OF a p(2,3) wk] True p(3) by simp
  next
    case False
    have "sems = (sw_sems w)[k := s]" "woken = []"
      using post.hyps(3) False by (simp_all add: eq)
    moreover have "waiters (sem_waitq ?s) = []"
    proof -
      have "wq_ok (sem_waitq ?s)" using a by (simp add: awake_def)
      from wq_ok_count [OF this] False p(3) show ?thesis by (simp add: word_less_nat_alt)
    qed
    ultimately show thesis using that [of s] a p(3) by (simp add: awake_def)
  qed
  have "sem_inv (w\<lparr>sw_sems := (sw_sems w)[k := s'], sw_next := sw_next w, sw_loop := ?l\<rparr>) (Posted k # h)"
  proof (rule sem_inv_update [OF post.IH k])
    show "awake (in_loop (w\<lparr>sw_loop := ?l\<rparr>) k) s'" unfolding len by (rule s'(1))
    show "counted s' (creation k (Posted k # h)) (posts k (Posted k # h)) (takes k (Posted k # h))"
      using p(1) s'(2,3) by (auto simp: counted_def split: option.splits)
    show "\<forall>e \<in># ?l. snd e < IPC_MAX_SEMAPHORES" using post.IH k by (auto simp: sem_inv_def)
  qed (rule loop_other(1), simp_all)
  then show ?case by (simp add: sems)
next
  case (destroy w h i k irq sems woken)
  have k: "k < IPC_MAX_SEMAPHORES" by (rule sem_find_bound(1) [OF destroy.IH destroy.hyps(2)])
  let ?s = "sw_sems w ! k" and ?l = "image_mset (\<lambda>p. (p, k)) (mset woken) + sw_loop w"
  obtain q ws where wk: "wake_all_threads irq (sem_waitq ?s) = (q, ws)" by fastforce
  have a: "awake (in_loop w k) ?s" and c: "counted ?s (creation k h) (posts k h) (takes k h)"
    using destroy.IH k by (simp_all add: sem_inv_def)
  have sems: "sems = (sw_sems w)[k := ?s\<lparr>sem_waitq := q, sem_id := 0\<rparr>]"
    using destroy.hyps(2,3) wk by (simp add: sem_destroy_safe_def)
  have "sem_inv (w\<lparr>sw_sems := (sw_sems w)[k := ?s\<lparr>sem_waitq := q, sem_id := 0\<rparr>], sw_next := sw_next w, sw_loop := ?l\<rparr>) h"
  proof (rule sem_inv_update [OF destroy.IH k sem_destroy_awake [OF a wk]])
    show "counted (?s\<lparr>sem_waitq := q, sem_id := 0\<rparr>) (creation k h) (posts k h) (takes k h)"
      using c by (auto simp: counted_def split: option.splits)
    show "\<forall>e \<in># ?l. snd e < IPC_MAX_SEMAPHORES" using destroy.IH k by (auto simp: sem_inv_def)
  qed (rule loop_other(1), simp_all)
  then show ?case by (simp add: sems)
qed

section \<open>Properties\<close>

text \<open>Between two creations in a slot, no more units are taken from a semaphore than its initial count
  plus the number of posts, and its count stays between 0 and the maximum, when the initial count is
  at most the maximum and the maximum is below \<open>2\<^sup>3\<^sup>1\<close>; whatever processes wait, spin, sleep and are woken.\<close>

theorem sem_takes_bounded:
  assumes "sem_run w h" "k < IPC_MAX_SEMAPHORES" "creation k h = Some (n, m)" "n \<le> m" "m < 2 ^ 31"
  shows "takes k h \<le> n + posts k h \<and> 0 \<le> sint (sem_count (sw_sems w ! k)) \<and> sint (sem_count (sw_sems w ! k)) \<le> int m"
  using sem_run_inv [OF assms(1)] assms(2-5) by (auto simp: sem_inv_def counted_def)


text \<open>A destroyed semaphore leaves its waiters in the loop: they sleep again on the free slot, and nobody
  can find it to wake them.\<close>

lemma destroyed_waiter_sleeps:
  assumes "sint (sem_count s) \<le> 0" "pid \<noteq> 0" "wq_ok (sem_waitq s)" "waiters (sem_waitq s) = []"
  shows "fst (sem_wait_iter False pid s) = Asleep"
proof -
  obtain r q where b: "block_current_thread False pid (sem_waitq s) = (r, q)" by fastforce
  then have "\<not> isl r" using block_waiters(3) [OF assms(3) b] assms(2,4) by simp
  then show ?thesis using assms(1) b by (auto simp: sem_wait_iter_def split: sum.splits)
qed

section \<open>A binary semaphore\<close>

definition boot_world :: sem_world where
  "boot_world = \<lparr>sw_sems = replicate IPC_MAX_SEMAPHORES semaphore_new, sw_next = 1, sw_loop = {#}\<rparr>"

text \<open>Created with count 0 and maximum 1; processes 5 and 6 go to sleep; a post wakes process 5.\<close>

definition sample_sems0 :: "semaphore list" where
  "sample_sems0 = snd (snd (sem_create_safe 1 0 1 9 (sw_sems boot_world)))"

definition sample_sems1 :: "semaphore list" where
  "sample_sems1 = sample_sems0[0 := snd (sem_wait_iter False 5 (sample_sems0 ! 0))]"

definition sample_sems2 :: "semaphore list" where
  "sample_sems2 = sample_sems1[0 := snd (sem_wait_iter False 6 (sample_sems1 ! 0))]"

definition sample_sems3 :: "semaphore list" where
  "sample_sems3 = fst (snd (sem_post_safe False 1 sample_sems2))"

lemma sample_sems:
  "sem_find_free (sw_sems boot_world) = Some 0"
  "sem_create_safe 1 0 1 9 (sw_sems boot_world) = (Inr 1, 2, sample_sems0)"
  "sem_find_by_id sample_sems0 1 = Some 0" "sem_find_by_id sample_sems1 1 = Some 0" "sem_find_by_id sample_sems2 1 = Some 0"
  "fst (sem_wait_iter False 5 (sample_sems0 ! 0)) = Asleep" "fst (sem_wait_iter False 6 (sample_sems1 ! 0)) = Asleep"
  "sem_post_safe False 1 sample_sems2 = (Inr (), sample_sems3, [5])"
  "waiters (sem_waitq (sample_sems3 ! 0)) = [6]" "sint (sem_count (sample_sems3 ! 0)) = 1"
  "wq_wake_pending (sem_waitq (sample_sems3 ! 0)) = False"
  by code_simp+

abbreviation sample_world :: "semaphore list \<Rightarrow> (u32 \<times> nat) multiset \<Rightarrow> sem_world" where
  "sample_world sems l \<equiv> \<lparr>sw_sems = sems, sw_next = 2, sw_loop = l\<rparr>"

lemma sample_sem_run: "sem_run (sample_world sample_sems3 {#(5, 0)#}) [Posted 0, Created 0 0 1]"
proof -
  have b: "sem_run boot_world []" unfolding boot_world_def by (rule sem_run.boot)
  have n: "sw_next boot_world = 1" "sw_loop boot_world = {#}" by (simp_all add: boot_world_def)
  have r0: "sem_run (sample_world sample_sems0 {#}) [Created 0 0 1]"
    using sem_run.create [OF b sample_sems(1), of 0 1 9 1 2 sample_sems0] sample_sems(2) by (simp add: boot_world_def)
  have r1: "sem_run (sample_world sample_sems1 {#}) [Created 0 0 1]"
    using sem_run.sleep [OF sem_run.enter [OF r0, of 1 0 5], of 5 0 False] sample_sems(3,6)
    by (simp add: sem_wait_enter_def sample_sems1_def prod_eq_iff)
  have r2: "sem_run (sample_world sample_sems2 {#}) [Created 0 0 1]"
    using sem_run.sleep [OF sem_run.enter [OF r1, of 1 0 6], of 6 0 False] sample_sems(4,7)
    by (simp add: sem_wait_enter_def sample_sems2_def prod_eq_iff)
  show ?thesis
    using sem_run.post [OF r2, of 1 0 False sample_sems3 "[5]"] sample_sems(5,8) by simp
qed

theorem sem_takes_bounded_witness:
  "takes 0 [Posted 0, Created 0 0 1] \<le> 0 + posts 0 [Posted 0, Created 0 0 1]
   \<and> sint (sem_count (sample_sems3 ! 0)) \<le> 1"
  using sem_takes_bounded [OF sample_sem_run, of 0 0 1] by (simp add: IPC_MAX_SEMAPHORES_def)


end
