(* ===== verification/Shm.thy ===== *)
theory Shm
  imports Prelude "HOL-Library.Multiset"
begin

text \<open>
  Shared memory segments (\<^verbatim>\<open>src/src/kernel/services/ipc/shm.rs\<close> and the types in \<^verbatim>\<open>ipc/types.rs\<close>).  The page
  allocator \<^verbatim>\<open>pmm_alloc_pages\<close> is an argument, a function from the number of pages to an address, 0 when
  it fails; the pages handed back to \<^verbatim>\<open>pmm_free_pages\<close> are returned.  A segment refines a set of attached
  processes of at most 16; its pages are freed exactly once and only when nobody is attached.
\<close>

definition IPC_MAX_SHM_SEGS :: nat where
  "IPC_MAX_SHM_SEGS = 16"

definition SHM_MAX_SIZE :: u64 where
  "SHM_MAX_SIZE = 16 * 1024 * 1024"

definition PAGE_SIZE :: u64 where
  "PAGE_SIZE = 4096"

record shm_segment =
  shm_id :: u32
  shm_phys_addr :: u64
  shm_size :: u64
  shm_creator :: u32
  shm_ref_count :: u32
  shm_attached_pids :: "u32 list"
  shm_attach_count :: u32
  shm_flags :: i32
  shm_perm :: i32

definition shm_segment_new :: shm_segment where
  "shm_segment_new = \<lparr>shm_id = 0, shm_phys_addr = 0, shm_size = 0, shm_creator = 0, shm_ref_count = 0,
     shm_attached_pids = replicate 16 0, shm_attach_count = 0, shm_flags = 0, shm_perm = 0\<rparr>"

definition shm_find_free :: "shm_segment list \<Rightarrow> nat option" where
  "shm_find_free segs = find_idx (\<lambda>s. shm_id s = 0) segs"

definition shm_find_by_id :: "shm_segment list \<Rightarrow> u32 \<Rightarrow> nat option" where
  "shm_find_by_id segs i = find_idx (\<lambda>s. shm_id s = i) segs"

definition shm_pages :: "u64 \<Rightarrow> nat" where
  "shm_pages sz = unat (div_ceil sz PAGE_SIZE)"

definition shm_create_safe ::
  "(nat \<Rightarrow> u64) \<Rightarrow> u32 \<Rightarrow> u64 \<Rightarrow> i32 \<Rightarrow> u32 \<Rightarrow> shm_segment list \<Rightarrow> (i32 + u32) \<times> u32 \<times> shm_segment list" where
  "shm_create_safe pmm_alloc_pages next_id sz perm current_pid segs =
     (if sz = 0 \<or> SHM_MAX_SIZE < sz then (Inl (- 1), next_id, segs)
      else
        case shm_find_free segs of
          None \<Rightarrow> (Inl (- 2), next_id, segs)
        | Some k \<Rightarrow>
            (let phys = pmm_alloc_pages (shm_pages sz)
             in if phys = 0 then (Inl (- 3), next_id, segs)
                else (Inr next_id, next_id + 1,
                      segs[k := (segs ! k)\<lparr>shm_id := next_id, shm_phys_addr := phys, shm_size := sz,
                        shm_creator := current_pid, shm_ref_count := 0, shm_attach_count := 0, shm_flags := 0,
                        shm_perm := perm, shm_attached_pids := replicate 16 0\<rparr>])))"

text \<open>The loops over \<^verbatim>\<open>0..attach_count\<close>: the position of the process among the attached ones.  An index
  beyond the array panics; the invariant below excludes it.\<close>

definition attached_at :: "shm_segment \<Rightarrow> u32 \<Rightarrow> nat option" where
  "attached_at s pid = find_idx (\<lambda>p. p = pid) (take (unat (shm_attach_count s)) (shm_attached_pids s))"

definition shm_attach_safe :: "u32 \<Rightarrow> u32 \<Rightarrow> shm_segment list \<Rightarrow> (i32 + u64) \<times> shm_segment list" where
  "shm_attach_safe i current_pid segs =
     (case shm_find_by_id segs i of
        None \<Rightarrow> (Inl (- 1), segs)
      | Some k \<Rightarrow>
          (let s = segs ! k
           in if attached_at s current_pid \<noteq> None then (Inr (shm_phys_addr s), segs)
              else if 16 \<le> shm_attach_count s then (Inl (- 2), segs)
              else (Inr (shm_phys_addr s),
                    segs[k := s\<lparr>shm_attached_pids := (shm_attached_pids s)[unat (shm_attach_count s) := current_pid],
                      shm_attach_count := shm_attach_count s + 1, shm_ref_count := shm_ref_count s + 1\<rparr>])))"

definition shm_detach_safe :: "u32 \<Rightarrow> u32 \<Rightarrow> shm_segment list \<Rightarrow> (i32 + unit) \<times> shm_segment list" where
  "shm_detach_safe i current_pid segs =
     (case shm_find_by_id segs i of
        None \<Rightarrow> (Inl (- 1), segs)
      | Some k \<Rightarrow>
          (let s = segs ! k
           in case attached_at s current_pid of
                None \<Rightarrow> (Inl (- 2), segs)
              | Some j \<Rightarrow>
                  (let l = unat (shm_attach_count s) - 1;
                       pids = (shm_attached_pids s)[j := shm_attached_pids s ! l]
                   in (Inr (), segs[k := s\<lparr>shm_attached_pids := pids[l := 0],
                         shm_attach_count := shm_attach_count s - 1, shm_ref_count := shm_ref_count s - 1\<rparr>]))))"

text \<open>Besides the result, the address and number of the pages that are freed.\<close>

definition shm_destroy_safe :: "u32 \<Rightarrow> shm_segment list \<Rightarrow> (i32 + unit) \<times> shm_segment list \<times> (u64 \<times> nat) option" where
  "shm_destroy_safe i segs =
     (case shm_find_by_id segs i of
        None \<Rightarrow> (Inl (- 1), segs, None)
      | Some k \<Rightarrow>
          (let s = segs ! k
           in if 0 < shm_ref_count s then (Inl (- 2), segs, None)
              else (Inr (), segs[k := s\<lparr>shm_id := 0, shm_phys_addr := 0, shm_size := 0\<rparr>],
                    Some (shm_phys_addr s, shm_pages (shm_size s)))))"

section \<open>Segments as sets of processes\<close>

definition attached :: "shm_segment \<Rightarrow> u32 list" where
  "attached s = take (unat (shm_attach_count s)) (shm_attached_pids s)"

definition seg_ok :: "shm_segment \<Rightarrow> bool" where
  "seg_ok s \<longleftrightarrow> length (shm_attached_pids s) = 16 \<and> shm_attach_count s \<le> 16 \<and> shm_ref_count s = shm_attach_count s
     \<and> distinct (attached s)"

lemma seg_ok_count: "seg_ok s \<Longrightarrow> unat (shm_attach_count s) \<le> 16 \<and> length (attached s) = unat (shm_attach_count s)"
  by (simp add: seg_ok_def attached_def word_le_nat_alt)

lemma seg_ok_empty: "seg_ok s \<Longrightarrow> shm_ref_count s = 0 \<longleftrightarrow> set (attached s) = {}"
  using seg_ok_count [of s] by (auto simp: seg_ok_def unat_eq_zero)

lemma attach_seg:
  assumes "seg_ok s" "pid \<notin> set (attached s)" "\<not> 16 \<le> shm_attach_count s"
  defines "s' \<equiv> s\<lparr>shm_attached_pids := (shm_attached_pids s)[unat (shm_attach_count s) := pid],
      shm_attach_count := shm_attach_count s + 1, shm_ref_count := shm_ref_count s + 1\<rparr>"
  shows "seg_ok s'" "attached s' = attached s @ [pid]"
proof -
  have lt: "unat (shm_attach_count s) < 16" using assms(3) by (simp add: word_le_nat_alt)
  then have suc: "unat (shm_attach_count s + 1) = Suc (unat (shm_attach_count s))" by (simp add: unat_word_ariths)
  show att: "attached s' = attached s @ [pid]"
    using lt assms(1) by (simp add: attached_def s'_def suc seg_ok_def take_Suc_conv_app_nth)
  show "seg_ok s'"
    unfolding seg_ok_def att using assms(1,2) lt suc by (simp add: s'_def seg_ok_def word_le_nat_alt)
qed

lemma detach_seg:
  assumes "seg_ok s" "attached_at s pid = Some j"
  defines "l \<equiv> unat (shm_attach_count s) - 1"
  defines "s' \<equiv> s\<lparr>shm_attached_pids := (shm_attached_pids s)[j := shm_attached_pids s ! l, l := 0],
      shm_attach_count := shm_attach_count s - 1, shm_ref_count := shm_ref_count s - 1\<rparr>"
  shows "seg_ok s'" "set (attached s') = set (attached s) - {pid}"
proof -
  let ?a = "attached s"
  have n: "unat (shm_attach_count s) \<le> 16" "length ?a = unat (shm_attach_count s)" using seg_ok_count [OF assms(1)] by auto
  have j: "j < length ?a" "?a ! j = pid"
    using assms(2) by (auto simp: attached_at_def attached_def dest: find_idx_SomeD)
  then have pos: "0 < unat (shm_attach_count s)" using n by linarith
  then have dec: "unat (shm_attach_count s - 1) = l" by (simp add: unat_sub_if' word_le_nat_alt l_def)
  have ne: "?a \<noteq> []" using j by auto
  have last: "shm_attached_pids s ! l = last ?a"
    using ne n pos by (simp add: last_conv_nth l_def attached_def)
  have att: "attached s' = butlast (?a[j := last ?a])"
    using assms(1) n j pos dec last
    by (simp add: attached_def s'_def butlast_conv_take l_def take_update_swap seg_ok_def min_def list_update_beyond)
  have perm: "mset (attached s') = mset ?a - {#pid#}"
  proof -
    have "?a[j := last ?a] \<noteq> []" using ne by simp
    then have "mset (?a[j := last ?a]) = mset (butlast (?a[j := last ?a])) + {#last (?a[j := last ?a])#}"
      by (metis append_butlast_last_id mset_append mset_single_iff_right union_commute)
    moreover have "last (?a[j := last ?a]) = last ?a" using ne j by (auto simp: last_list_update)
    moreover have "mset (?a[j := last ?a]) = add_mset (last ?a) (mset ?a - {#pid#})"
      using j by (simp add: mset_update)
    ultimately show ?thesis by (simp add: att)
  qed
  have "pid \<in># mset ?a" using j by auto
  then have eq: "mset (pid # attached s') = mset ?a" using perm by simp
  moreover have "distinct ?a" using assms(1) by (simp add: seg_ok_def)
  ultimately have d: "distinct (pid # attached s')" using mset_eq_imp_distinct_iff by blast
  then show "set (attached s') = set ?a - {pid}" using mset_eq_setD [OF eq] by auto
  have "distinct (attached s')" "l \<le> 16" using d n by (simp_all add: l_def)
  then show "seg_ok s'"
    using assms(1) dec by (simp add: seg_ok_def s'_def word_le_nat_alt)
qed

section \<open>Histories\<close>

text \<open>\<open>shm_run segs next allocs frees\<close>: the table after a sequence of calls with identifiers other than 0, with
  the pages allocated and freed so far.  Fewer than \<open>2\<^sup>3\<^sup>2\<close> segments are created, so the identifier counter
  does not come back to 0.\<close>

inductive shm_run :: "shm_segment list \<Rightarrow> u32 \<Rightarrow> (u64 \<times> nat) list \<Rightarrow> (u64 \<times> nat) list \<Rightarrow> bool" where
  boot: "shm_run (replicate IPC_MAX_SHM_SEGS shm_segment_new) 1 [] []"
| create: "shm_run segs' n' (if isl r then allocs else (pmm (shm_pages sz), shm_pages sz) # allocs) frees"
    if "shm_run segs n allocs frees" "n \<noteq> 0" "shm_create_safe pmm n sz perm pid segs = (r, n', segs')"
| attach: "shm_run segs' n allocs frees"
    if "shm_run segs n allocs frees" "i \<noteq> 0" "shm_attach_safe i pid segs = (r, segs')"
| detach: "shm_run segs' n allocs frees"
    if "shm_run segs n allocs frees" "i \<noteq> 0" "shm_detach_safe i pid segs = (r, segs')"
| destroy: "shm_run segs' n allocs (case f of None \<Rightarrow> frees | Some b \<Rightarrow> b # frees)"
    if "shm_run segs n allocs frees" "i \<noteq> 0" "shm_destroy_safe i segs = (r, segs', f)"

definition seg_block :: "shm_segment \<Rightarrow> (u64 \<times> nat) multiset" where
  "seg_block s = (if shm_id s = 0 then {#} else {#(shm_phys_addr s, shm_pages (shm_size s))#})"

definition live_blocks :: "shm_segment list \<Rightarrow> (u64 \<times> nat) multiset" where
  "live_blocks segs = \<Sum>\<^sub># (mset (map seg_block segs))"

lemma live_blocks_update:
  assumes "k < length segs"
  shows "live_blocks (segs[k := s]) + seg_block (segs ! k) = live_blocks segs + seg_block s"
  using assms
  by (simp add: live_blocks_def map_update mset_update sum_mset.remove [of "seg_block (segs ! k)"])

definition shm_inv :: "shm_segment list \<Rightarrow> (u64 \<times> nat) list \<Rightarrow> (u64 \<times> nat) list \<Rightarrow> bool" where
  "shm_inv segs allocs frees \<longleftrightarrow> length segs = IPC_MAX_SHM_SEGS \<and> (\<forall>s \<in> set segs. seg_ok s)
     \<and> mset allocs = mset frees + live_blocks segs"

lemma shm_inv_update:
  assumes "shm_inv segs allocs frees" "k < length segs" "seg_ok s"
    and "mset allocs' + seg_block (segs ! k) + mset frees = mset allocs + seg_block s + mset frees'"
  shows "shm_inv (segs[k := s]) allocs' frees'"
proof -
  have "mset allocs' + seg_block (segs ! k) + mset frees
      = mset frees + live_blocks segs + seg_block s + mset frees'"
    using assms(1,4) by (simp add: shm_inv_def)
  also have "\<dots> = mset frees + (live_blocks (segs[k := s]) + seg_block (segs ! k)) + mset frees'"
    using live_blocks_update [OF assms(2), of s] by (simp add: ac_simps)
  finally have "mset allocs' = mset frees' + live_blocks (segs[k := s])" by (simp add: ac_simps)
  with assms show ?thesis by (auto simp: shm_inv_def dest!: set_update_subset_insert [THEN subsetD])
qed

lemma shm_found: "shm_find_by_id segs i = Some k \<Longrightarrow> k < length segs \<and> shm_id (segs ! k) = i"
  by (auto simp: shm_find_by_id_def find_idx_Some_iff)

lemma attached_at_None: "attached_at s pid = None \<longleftrightarrow> pid \<notin> set (attached s)"
  by (auto simp: attached_at_def attached_def find_idx_None_iff)

lemma shm_run_inv: "shm_run segs n allocs frees \<Longrightarrow> shm_inv segs allocs frees"
proof (induction rule: shm_run.induct)
  case boot
  have "seg_ok shm_segment_new" by (simp add: seg_ok_def shm_segment_new_def attached_def)
  moreover have "live_blocks (replicate n shm_segment_new) = {#}" for n
    by (induction n) (simp_all add: live_blocks_def seg_block_def shm_segment_new_def)
  ultimately show ?case by (simp add: shm_inv_def)
next
  case (create segs n allocs frees pmm sz perm pid r n' segs')
  show ?case
  proof (cases "isl r")
    case True
    then have "segs' = segs" using create.hyps(3)
      by (auto simp: shm_create_safe_def Let_def split: if_splits option.splits)
    then show ?thesis using create.IH True by simp
  next
    case False
    define s0 where "s0 k = (segs ! k)\<lparr>shm_id := n, shm_phys_addr := pmm (shm_pages sz), shm_size := sz,
        shm_creator := pid, shm_ref_count := 0, shm_attach_count := 0, shm_flags := 0,
        shm_perm := perm, shm_attached_pids := replicate 16 0\<rparr>" for k
    have "\<exists>k. shm_find_free segs = Some k \<and> segs' = segs[k := s0 k]"
      using False create.hyps(3) unfolding shm_create_safe_def Let_def s0_def [symmetric]
      by (cases "shm_find_free segs") (auto split: if_splits)
    then obtain k where k: "shm_find_free segs = Some k" and s: "segs' = segs[k := s0 k]" by blast
    have "k < length segs" "shm_id (segs ! k) = 0" using k by (auto simp: shm_find_free_def find_idx_Some_iff)
    then show ?thesis
      unfolding s using False create.IH create.hyps(2)
      by (intro shm_inv_update) (simp_all add: seg_ok_def attached_def seg_block_def s0_def)
  qed
next
  case (attach segs n allocs frees i pid r segs')
  show ?case
  proof (cases "segs' = segs")
    case False
    then obtain k where k: "shm_find_by_id segs i = Some k" "attached_at (segs ! k) pid = None"
        "\<not> 16 \<le> shm_attach_count (segs ! k)"
      and s: "segs' = segs[k := (segs ! k)\<lparr>shm_attached_pids := (shm_attached_pids (segs ! k))[unat (shm_attach_count (segs ! k)) := pid],
          shm_attach_count := shm_attach_count (segs ! k) + 1, shm_ref_count := shm_ref_count (segs ! k) + 1\<rparr>]"
      using attach.hyps(3) by (auto simp: shm_attach_safe_def Let_def split: option.splits if_splits)
    have ok: "seg_ok (segs ! k)" using attach.IH shm_found [OF k(1)] by (simp add: shm_inv_def)
    have "pid \<notin> set (attached (segs ! k))" using k(2) by (simp add: attached_at_None)
    note a = attach_seg(1) [OF ok this k(3)]
    show ?thesis
      unfolding s by (rule shm_inv_update [OF attach.IH _ a]) (simp_all add: shm_found [OF k(1)] seg_block_def)
  qed (use attach.IH in simp)
next
  case (detach segs n allocs frees i pid r segs')
  show ?case
  proof (cases "segs' = segs")
    case False
    then obtain k j where k: "shm_find_by_id segs i = Some k" "attached_at (segs ! k) pid = Some j"
      and s: "segs' = segs[k := (segs ! k)\<lparr>shm_attached_pids := (shm_attached_pids (segs ! k))
            [j := shm_attached_pids (segs ! k) ! (unat (shm_attach_count (segs ! k)) - 1),
             unat (shm_attach_count (segs ! k)) - 1 := 0],
          shm_attach_count := shm_attach_count (segs ! k) - 1, shm_ref_count := shm_ref_count (segs ! k) - 1\<rparr>]"
      using detach.hyps(3) by (auto simp: shm_detach_safe_def Let_def split: option.splits)
    have ok: "seg_ok (segs ! k)" using detach.IH shm_found [OF k(1)] by (simp add: shm_inv_def)
    note d = detach_seg(1) [OF ok k(2)]
    show ?thesis
      unfolding s by (rule shm_inv_update [OF detach.IH _ d]) (simp_all add: shm_found [OF k(1)] seg_block_def)
  qed (use detach.IH in simp)
next
  case (destroy segs n allocs frees i r segs' f)
  show ?case
  proof (cases f)
    case None
    then have "segs' = segs" using destroy.hyps(3)
      by (auto simp: shm_destroy_safe_def Let_def split: option.splits if_splits)
    then show ?thesis using destroy.IH None by simp
  next
    case (Some b)
    then obtain k where k: "shm_find_by_id segs i = Some k" "shm_ref_count (segs ! k) = 0"
      and s: "segs' = segs[k := (segs ! k)\<lparr>shm_id := 0, shm_phys_addr := 0, shm_size := 0\<rparr>]"
      and b: "b = (shm_phys_addr (segs ! k), shm_pages (shm_size (segs ! k)))"
      using destroy.hyps(3) by (auto simp: shm_destroy_safe_def Let_def word_gt_0 split: option.splits if_splits)
    have ok: "seg_ok (segs ! k)" using destroy.IH shm_found [OF k(1)] by (simp add: shm_inv_def)
    show ?thesis
      unfolding s using Some b ok shm_found [OF k(1)] destroy.hyps(2)
      by (intro shm_inv_update [OF destroy.IH]) (simp_all add: seg_ok_def attached_def seg_block_def)
  qed
qed

lemma shm_run_seg:
  assumes "shm_run segs n allocs frees" "shm_find_by_id segs i = Some k"
  shows "k < length segs" "seg_ok (segs ! k)"
  using shm_run_inv [OF assms(1)] shm_found [OF assms(2)] by (auto simp: shm_inv_def)

text \<open>In every history a segment refines the set of the processes attached to it: attaching adds the
  caller and fails only when 16 others are attached, detaching removes it and fails only when it is
  not attached, destruction succeeds exactly when nobody is attached; every call changes the named
  segment only.\<close>

theorem shm_refines_sets:
  assumes "shm_run segs n allocs frees" "shm_find_by_id segs i = Some k"
  shows "(case shm_attach_safe i pid segs of
       (Inl e, segs') \<Rightarrow> segs' = segs \<and> pid \<notin> set (attached (segs ! k)) \<and> card (set (attached (segs ! k))) = 16
     | (Inr phys, segs') \<Rightarrow> phys = shm_phys_addr (segs ! k) \<and> set (attached (segs' ! k)) = insert pid (set (attached (segs ! k)))
         \<and> (\<forall>j. j \<noteq> k \<longrightarrow> segs' ! j = segs ! j))
   \<and> (case shm_detach_safe i pid segs of
       (Inl e, segs') \<Rightarrow> segs' = segs \<and> pid \<notin> set (attached (segs ! k))
     | (Inr _, segs') \<Rightarrow> pid \<in> set (attached (segs ! k)) \<and> set (attached (segs' ! k)) = set (attached (segs ! k)) - {pid}
         \<and> (\<forall>j. j \<noteq> k \<longrightarrow> segs' ! j = segs ! j))
   \<and> (case shm_destroy_safe i segs of
       (Inl e, segs', f) \<Rightarrow> segs' = segs \<and> f = None \<and> set (attached (segs ! k)) \<noteq> {}
     | (Inr _, segs', f) \<Rightarrow> set (attached (segs ! k)) = {} \<and> shm_id (segs' ! k) = 0
         \<and> f = Some (shm_phys_addr (segs ! k), shm_pages (shm_size (segs ! k))) \<and> (\<forall>j. j \<noteq> k \<longrightarrow> segs' ! j = segs ! j))"
proof (intro conjI)
  note k = shm_run_seg [OF assms]
  have card: "card (set (attached (segs ! k))) = unat (shm_attach_count (segs ! k))"
    using seg_ok_count [OF k(2)] k(2) by (simp add: seg_ok_def distinct_card)
  have le: "unat (shm_attach_count (segs ! k)) \<le> 16" using seg_ok_count [OF k(2)] by simp
  show "case shm_attach_safe i pid segs of
       (Inl e, segs') \<Rightarrow> segs' = segs \<and> pid \<notin> set (attached (segs ! k)) \<and> card (set (attached (segs ! k))) = 16
     | (Inr phys, segs') \<Rightarrow> phys = shm_phys_addr (segs ! k) \<and> set (attached (segs' ! k)) = insert pid (set (attached (segs ! k)))
         \<and> (\<forall>j. j \<noteq> k \<longrightarrow> segs' ! j = segs ! j)"
  proof (cases "pid \<in> set (attached (segs ! k))")
    case True
    then show ?thesis by (auto simp: shm_attach_safe_def assms(2) Let_def attached_at_None insert_absorb)
  next
    case False
    show ?thesis
    proof (cases "16 \<le> shm_attach_count (segs ! k)")
      case True
      then show ?thesis
        using False card le by (simp add: shm_attach_safe_def assms(2) Let_def attached_at_None word_le_nat_alt)
    next
      case room: False
      then show ?thesis
        using False k(1) attach_seg(2) [OF k(2) False room]
        by (simp add: shm_attach_safe_def assms(2) Let_def attached_at_None)
    qed
  qed
  show "case shm_detach_safe i pid segs of
       (Inl e, segs') \<Rightarrow> segs' = segs \<and> pid \<notin> set (attached (segs ! k))
     | (Inr _, segs') \<Rightarrow> pid \<in> set (attached (segs ! k)) \<and> set (attached (segs' ! k)) = set (attached (segs ! k)) - {pid}
         \<and> (\<forall>j. j \<noteq> k \<longrightarrow> segs' ! j = segs ! j)"
  proof (cases "attached_at (segs ! k) pid")
    case None
    then show ?thesis by (auto simp: shm_detach_safe_def assms(2) Let_def simp flip: attached_at_None)
  next
    case (Some j)
    then have "pid \<in> set (attached (segs ! k))" using attached_at_None [of "segs ! k" pid] by simp
    then show ?thesis
      using k(1) Some detach_seg(2) [OF k(2) Some] by (simp add: shm_detach_safe_def assms(2) Let_def)
  qed
  show "case shm_destroy_safe i segs of
       (Inl e, segs', f) \<Rightarrow> segs' = segs \<and> f = None \<and> set (attached (segs ! k)) \<noteq> {}
     | (Inr _, segs', f) \<Rightarrow> set (attached (segs ! k)) = {} \<and> shm_id (segs' ! k) = 0
         \<and> f = Some (shm_phys_addr (segs ! k), shm_pages (shm_size (segs ! k))) \<and> (\<forall>j. j \<noteq> k \<longrightarrow> segs' ! j = segs ! j)"
    using seg_ok_empty [OF k(2)] k(1) by (simp add: shm_destroy_safe_def assms(2) Let_def word_gt_0)
qed


text \<open>Identifier 0 marks free slots, but lookups accept it: attaching to it succeeds with address 0.\<close>

lemma attach_free_slot: "fst (shm_attach_safe 0 7 (replicate IPC_MAX_SHM_SEGS shm_segment_new)) = Inr 0"
  by code_simp

section \<open>One segment\<close>

definition sample_segs :: "shm_segment list" where
  "sample_segs = snd (shm_attach_safe 1 7 (snd (snd (shm_create_safe (\<lambda>_. 65536) 1 5000 438 7
     (replicate IPC_MAX_SHM_SEGS shm_segment_new)))))"

lemma sample_segs_run: "shm_run sample_segs 2 [(65536, 2)] []"
proof -
  let ?b = "replicate IPC_MAX_SHM_SEGS shm_segment_new"
  let ?c = "shm_create_safe (\<lambda>_. 65536) 1 5000 438 7 ?b"
  have c: "fst ?c = Inr 1" "fst (snd ?c) = 2" "shm_pages 5000 = 2" by code_simp+
  have "shm_run (snd (snd ?c)) (fst (snd ?c))
      (if isl (fst ?c) then [] else ((\<lambda>_. 65536) (shm_pages 5000), shm_pages 5000) # []) []"
    by (rule shm_run.create [OF shm_run.boot, where pmm = "\<lambda>_. 65536"]) simp_all
  then have "shm_run (snd (snd ?c)) 2 [(65536, 2)] []" by (simp add: c)
  then show ?thesis
    unfolding sample_segs_def
    by (rule shm_run.attach [where i = 1 and pid = 7 and r = "fst (shm_attach_safe 1 7 (snd (snd ?c)))"]) simp_all
qed

theorem shm_refines_sets_witness:
  "shm_find_by_id sample_segs 1 = Some 0 \<and> isl (fst (shm_destroy_safe 1 sample_segs))
   \<and> set (attached (snd (shm_detach_safe 1 7 sample_segs) ! 0)) = {}"
proof -
  have f: "shm_find_by_id sample_segs 1 = Some 0" and a: "set (attached (sample_segs ! 0)) = {7}" by code_simp+
  show ?thesis
    using shm_refines_sets [OF sample_segs_run f, of 7] f a
    by (auto split: prod.splits sum.splits)
qed


end
