(* ===== verification/User_Mem.thy ===== *)
theory User_Mem
  imports Prelude
begin

text \<open>
  User pointers: the range checks of \<^verbatim>\<open>src/src/kernel/framework/userptr.rs\<close> and of
  \<^verbatim>\<open>framework/mm/copy_user.rs\<close>, and transfers of bytes to and from user memory, a map from addresses to
  bytes.  \<open>is_user_buf\<close> accepts exactly the buffers that lie in user space; \<open>validate_user_buf\<close> adds
  without a check, so it agrees only for lengths that cannot wrap around.
\<close>

type_synonym user_mem = "u64 \<Rightarrow> u8"

definition USER_ADDR_MAX :: u64 where
  "USER_ADDR_MAX = 0x00007FFFFFFFF000"

definition validate_user_ptr :: "u64 \<Rightarrow> bool" where
  "validate_user_ptr ptr \<longleftrightarrow> ptr > 0 \<and> ptr < USER_ADDR_MAX"

definition validate_user_buf :: "u64 \<Rightarrow> u64 \<Rightarrow> bool" where
  "validate_user_buf ptr len =
     (if len = 0 then ptr \<noteq> 0 else validate_user_ptr ptr \<and> ptr + len \<le> USER_ADDR_MAX)"

definition is_user_ptr :: "u64 \<Rightarrow> bool" where
  "is_user_ptr ptr \<longleftrightarrow> ptr > 0 \<and> ptr < USER_ADDR_MAX"

definition is_user_buf :: "u64 \<Rightarrow> u64 \<Rightarrow> bool" where
  "is_user_buf ptr len =
     (if len = 0 then True
      else case checked_add ptr len of
             Some e \<Rightarrow> is_user_ptr ptr \<and> e \<le> USER_ADDR_MAX
           | None \<Rightarrow> False)"

text \<open>The raw accesses behind the checks: bytes at consecutive addresses.\<close>

primrec put_bytes :: "user_mem \<Rightarrow> u64 \<Rightarrow> u8 list \<Rightarrow> user_mem" where
  "put_bytes mem ptr [] = mem"
| "put_bytes mem ptr (b # bs) = put_bytes (mem(ptr := b)) (ptr + 1) bs"

primrec get_bytes :: "user_mem \<Rightarrow> u64 \<Rightarrow> nat \<Rightarrow> u8 list" where
  "get_bytes mem ptr 0 = []"
| "get_bytes mem ptr (Suc n) = mem ptr # get_bytes mem (ptr + 1) n"

section \<open>What the checks accept\<close>

text \<open>The bytes of a buffer, as addresses that do not wrap around, are addresses of user space.\<close>

definition in_user_space :: "u64 \<Rightarrow> u64 \<Rightarrow> bool" where
  "in_user_space ptr len \<longleftrightarrow> 0 < unat ptr \<and> unat ptr + unat len \<le> unat USER_ADDR_MAX"

lemma is_user_buf_iff:
  assumes "len \<noteq> 0"
  shows "is_user_buf ptr len \<longleftrightarrow> in_user_space ptr len"
proof -
  have l: "0 < unat len" using assms by (simp add: unat_gt_0)
  have m: "unat USER_ADDR_MAX < 2 ^ 64" using unat_bound [of USER_ADDR_MAX] by simp
  show ?thesis
  proof (cases "unat ptr + unat len < 2 ^ 64")
    case True
    then have s: "unat (ptr + len) = unat ptr + unat len" by (simp add: unat_word_ariths)
    from True have "checked_add ptr len = Some (ptr + len)" by (simp add: checked_add_def)
    then show ?thesis
      using assms l s by (auto simp: is_user_buf_def is_user_ptr_def in_user_space_def word_less_nat_alt word_le_nat_alt)
  next
    case False
    then have "checked_add ptr len = None" by (simp add: checked_add_def)
    then show ?thesis using assms False m by (simp add: is_user_buf_def in_user_space_def)
  qed
qed

lemma validate_user_buf_small:
  assumes "len \<noteq> 0" "unat len \<le> 2 ^ 64 - unat USER_ADDR_MAX"
  shows "validate_user_buf ptr len \<longleftrightarrow> in_user_space ptr len"
proof (cases "unat ptr < unat USER_ADDR_MAX")
  case True
  then have "unat ptr + unat len < 2 ^ 64" using assms(2) unat_bound [of USER_ADDR_MAX] by simp
  then have "unat (ptr + len) = unat ptr + unat len" by (simp add: unat_word_ariths)
  then show ?thesis
    using assms True
    by (auto simp: validate_user_buf_def validate_user_ptr_def in_user_space_def word_less_nat_alt word_le_nat_alt)
next
  case False
  then show ?thesis
    using assms unat_gt_0 [of len]
    by (auto simp: validate_user_buf_def validate_user_ptr_def in_user_space_def word_less_nat_alt)
qed

text \<open>The unchecked addition: a buffer that starts in user space and covers all of kernel space.\<close>

lemma validate_user_buf_wraps:
  "validate_user_buf 0x1000 (- 0x800)" "\<not> in_user_space 0x1000 (- 0x800)" "\<not> is_user_buf 0x1000 (- 0x800)"
  by (simp_all add: validate_user_buf_def validate_user_ptr_def USER_ADDR_MAX_def in_user_space_def
      is_user_buf_def checked_add_def)

text \<open>Bounds.  \<open>is_user_buf\<close> accepts a buffer that is not empty exactly when all of its bytes lie in
  user space.  \<open>validate_user_buf\<close> decides the same for every length up to \<open>2\<^sup>6\<^sup>4 - USER_ADDR_MAX\<close>, and no
  bound that lets the sum wrap around will do: some longer buffer is accepted although it reaches
  through all of kernel space.\<close>
theorem user_buf_checks:
  "(\<forall>ptr len. len \<noteq> 0 \<longrightarrow> (is_user_buf ptr len \<longleftrightarrow> in_user_space ptr len)) \<and>
   (\<forall>ptr len. len \<noteq> 0 \<and> unat len \<le> 2 ^ 64 - unat USER_ADDR_MAX \<longrightarrow>
      (validate_user_buf ptr len \<longleftrightarrow> in_user_space ptr len)) \<and>
   (\<exists>ptr len. validate_user_buf ptr len \<and> \<not> in_user_space ptr len)"
  using is_user_buf_iff validate_user_buf_small validate_user_buf_wraps by blast

theorem user_buf_checks_witness:
  "is_user_buf 0x1000 16 \<and> validate_user_buf 0x1000 16 \<and> \<not> is_user_buf (USER_ADDR_MAX - 8) 16
   \<and> \<not> validate_user_buf (USER_ADDR_MAX - 8) 16"
proof -
  have n: "(16 :: u64) \<noteq> 0" "unat (16 :: u64) \<le> 2 ^ 64 - unat USER_ADDR_MAX"
    by (simp_all add: USER_ADDR_MAX_def)
  have i: "in_user_space 0x1000 16" "\<not> in_user_space (USER_ADDR_MAX - 8) 16"
    by (simp_all add: in_user_space_def USER_ADDR_MAX_def)
  show ?thesis using user_buf_checks n i by blast
qed

section \<open>Transfers\<close>

lemma length_get_bytes [simp]: "length (get_bytes mem ptr n) = n"
  by (induction n arbitrary: ptr) simp_all

lemma put_bytes_other:
  "(\<And>i. i < length bs \<Longrightarrow> a \<noteq> ptr + word_of_nat i) \<Longrightarrow> put_bytes mem ptr bs a = mem a"
proof (induction bs arbitrary: mem ptr)
  case (Cons b bs)
  have "a \<noteq> ptr + 1 + word_of_nat i" if "i < length bs" for i
    using Cons.prems [of "Suc i"] that by (simp add: algebra_simps)
  moreover have "a \<noteq> ptr" using Cons.prems [of 0] by simp
  ultimately show ?case using Cons.IH [of "ptr + 1"] by simp
qed simp

lemma get_put_bytes:
  "length bs \<le> 2 ^ 64 \<Longrightarrow> get_bytes (put_bytes mem ptr bs) ptr (length bs) = bs"
proof (induction bs arbitrary: mem ptr)
  case (Cons b bs)
  have "ptr \<noteq> ptr + 1 + word_of_nat i" if "i < length bs" for i
  proof
    assume "ptr = ptr + 1 + word_of_nat i"
    then have "word_of_nat (Suc i) = (0 :: u64)" by (simp add: algebra_simps)
    then have "2 ^ 64 dvd Suc i" unfolding word_of_nat_eq_0_iff by simp
    then show False using that Cons.prems by (auto dest: dvd_imp_le)
  qed
  then have "put_bytes (mem(ptr := b)) (ptr + 1) bs ptr = b"
    by (subst put_bytes_other) simp_all
  then show ?case using Cons by simp
qed simp

end
