(* ===== verification/Rlimit.thy ===== *)
theory Rlimit
  imports User_Mem Seccomp
begin

text \<open>
  Resource limits: \<^verbatim>\<open>src/src/kernel/services/proc/rlimit.rs\<close>, the system calls of
  \<^verbatim>\<open>framework/proc/rlimit.rs\<close>, the memlock query of \<^verbatim>\<open>framework/rlimit_query.rs\<close> and the inheritance by fork
  (\<^verbatim>\<open>framework/proc/proc_ops.rs\<close>).  The process table holds the limits of each process; the current process
  is an argument.  A table always has its sixteen entries with the soft limit below the hard one, and a
  process that is not init never gets a hard limit above the one its ancestor had.
\<close>

section \<open>Tables\<close>

definition RLIMIT_STACK :: nat where "RLIMIT_STACK = 3"

definition RLIMIT_CORE :: nat where "RLIMIT_CORE = 4"

definition RLIMIT_NPROC :: nat where "RLIMIT_NPROC = 6"

definition RLIMIT_NOFILE :: nat where "RLIMIT_NOFILE = 7"

definition RLIMIT_MEMLOCK :: nat where "RLIMIT_MEMLOCK = 8"

definition RLIMIT_AS :: nat where "RLIMIT_AS = 9"

definition RLIMIT_NLIMITS :: nat where "RLIMIT_NLIMITS = 16"

definition RLIM_INFINITY :: u64 where "RLIM_INFINITY = - 1"

definition MAX_OPEN_FILES :: u64 where "MAX_OPEN_FILES = 32"

record rlimit =
  rl_cur :: u64
  rl_max :: u64

definition rlimit_new :: "u64 \<Rightarrow> u64 \<Rightarrow> rlimit" where
  "rlimit_new cur mx = \<lparr>rl_cur = cur, rl_max = mx\<rparr>"

definition rlimit_infinity :: rlimit where
  "rlimit_infinity = rlimit_new RLIM_INFINITY RLIM_INFINITY"

type_synonym rlimit_table = "rlimit list"

definition rlimit_table_new :: rlimit_table where
  "rlimit_table_new =
     [rlimit_infinity, rlimit_infinity, rlimit_infinity, rlimit_new (8 * 1024 * 1024) RLIM_INFINITY,
      rlimit_infinity, rlimit_infinity, rlimit_new (of_nat MAX_PROCESSES) RLIM_INFINITY,
      rlimit_new MAX_OPEN_FILES RLIM_INFINITY,
      rlimit_infinity, rlimit_infinity, rlimit_infinity, rlimit_infinity,
      rlimit_infinity, rlimit_infinity, rlimit_infinity, rlimit_infinity]"

definition rlimit_get :: "rlimit_table \<Rightarrow> nat \<Rightarrow> rlimit option" where
  "rlimit_get t resource = (if resource < RLIMIT_NLIMITS then Some (t ! resource) else None)"

definition rlimit_set :: "rlimit_table \<Rightarrow> nat \<Rightarrow> u64 \<Rightarrow> u64 \<Rightarrow> bool \<Rightarrow> (errno + unit) \<times> rlimit_table" where
  "rlimit_set t resource cur mx is_privileged =
     (if RLIMIT_NLIMITS \<le> resource then (Inl EINVAL, t)
      else if mx < cur then (Inl EINVAL, t)
      else
        let old = t ! resource in
        if rl_max old < mx \<and> \<not> is_privileged then (Inl EPERM, t)
        else (Inr (), t[resource := rlimit_new cur mx]))"

section \<open>Limits of the current process\<close>

type_synonym rl_procs = "u32 \<rightharpoonup> rlimit_table"

definition rl_process :: "rl_procs \<Rightarrow> u32 \<Rightarrow> rlimit_table option" where
  "rl_process ps pid = (if MAX_PROCESSES \<le> unat pid then None else ps pid)"

definition check_nofile_exceeded :: "rl_procs \<Rightarrow> u32 \<Rightarrow> u64 \<Rightarrow> bool" where
  "check_nofile_exceeded ps pid fd_count =
     (case rl_process ps pid of
        None \<Rightarrow> False
      | Some t \<Rightarrow> (case rlimit_get t RLIMIT_NOFILE of None \<Rightarrow> False | Some rlim \<Rightarrow> rl_cur rlim \<le> fd_count))"

definition check_as_exceeded :: "rl_procs \<Rightarrow> u32 \<Rightarrow> u64 \<Rightarrow> u64 \<Rightarrow> bool" where
  "check_as_exceeded ps pid current_usage additional_bytes =
     (case rl_process ps pid of
        None \<Rightarrow> False
      | Some t \<Rightarrow>
          (case rlimit_get t RLIMIT_AS of
             None \<Rightarrow> False
           | Some rlim \<Rightarrow>
               if rl_cur rlim = RLIM_INFINITY then False
               else rl_cur rlim < saturating_add current_usage additional_bytes))"

definition check_nproc_exceeded :: "rl_procs \<Rightarrow> u32 \<Rightarrow> u64 \<Rightarrow> bool" where
  "check_nproc_exceeded ps pid child_count =
     (case rl_process ps pid of
        None \<Rightarrow> False
      | Some t \<Rightarrow> (case rlimit_get t RLIMIT_NPROC of None \<Rightarrow> False | Some rlim \<Rightarrow> rl_cur rlim \<le> child_count))"

text \<open>The three queries share one shape: the soft limit, or a default without a process.\<close>

definition soft_limit :: "rl_procs \<Rightarrow> u32 \<Rightarrow> nat \<Rightarrow> u64 \<Rightarrow> u64" where
  "soft_limit ps pid resource dflt =
     (case rl_process ps pid of
        None \<Rightarrow> dflt
      | Some t \<Rightarrow> (case rlimit_get t resource of None \<Rightarrow> dflt | Some r \<Rightarrow> rl_cur r))"

definition get_stack_limit :: "rl_procs \<Rightarrow> u32 \<Rightarrow> u64" where
  "get_stack_limit ps pid = soft_limit ps pid RLIMIT_STACK (8 * 1024 * 1024)"

definition get_nofile_limit :: "rl_procs \<Rightarrow> u32 \<Rightarrow> u64" where
  "get_nofile_limit ps pid = soft_limit ps pid RLIMIT_NOFILE MAX_OPEN_FILES"

definition get_memlock_limit :: "rl_procs \<Rightarrow> u32 \<Rightarrow> u64" where
  "get_memlock_limit ps pid = soft_limit ps pid RLIMIT_MEMLOCK (64 * 1024)"

definition check_memlock_exceeded :: "rl_procs \<Rightarrow> u32 \<Rightarrow> u64 \<Rightarrow> u64 \<Rightarrow> bool" where
  "check_memlock_exceeded ps pid current_locked additional_bytes =
     (let limit = get_memlock_limit ps pid in
      if limit = RLIM_INFINITY then False
      else limit < saturating_add current_locked additional_bytes)"

definition coredump_allowed :: "rl_procs \<Rightarrow> u32 \<Rightarrow> bool" where
  "coredump_allowed ps pid =
     (if pid = 0 then False
      else case rl_process ps pid of
             None \<Rightarrow> False
           | Some t \<Rightarrow> (case rlimit_get t RLIMIT_CORE of None \<Rightarrow> False | Some r \<Rightarrow> 0 < rl_cur r))"

definition coredump_limit :: "rl_procs \<Rightarrow> u32 \<Rightarrow> u64" where
  "coredump_limit ps pid = (if pid = 0 then 0 else soft_limit ps pid RLIMIT_CORE 0)"

text \<open>The query of the memory manager goes through a callback that the process subsystem registers.\<close>

definition query_memlock_limit :: "u64 option \<Rightarrow> u64" where
  "query_memlock_limit registered = (case registered of Some v \<Rightarrow> v | None \<Rightarrow> 64 * 1024)"

definition query_memlock_exceeded :: "u64 option \<Rightarrow> u64 \<Rightarrow> u64 \<Rightarrow> bool" where
  "query_memlock_exceeded registered current_locked additional_bytes =
     (let limit = query_memlock_limit registered in
      if limit = - 1 then False
      else limit < saturating_add current_locked additional_bytes)"

section \<open>System calls and fork\<close>

definition in_resource_range :: "i32 \<Rightarrow> bool" where
  "in_resource_range resource \<longleftrightarrow> 0 \<le> sint resource \<and> sint resource < int RLIMIT_NLIMITS"

definition sys_getrlimit :: "rl_procs \<Rightarrow> u32 \<Rightarrow> i32 \<Rightarrow> u64 \<Rightarrow> user_mem \<Rightarrow> i64 \<times> user_mem" where
  "sys_getrlimit ps pid resource rlim_ptr mem =
     (if rlim_ptr = 0 then (as_ret EINVAL, mem)
      else if \<not> in_resource_range resource then (as_ret EINVAL, mem)
      else
        case rl_process ps pid of
          None \<Rightarrow> (as_ret ESRCH, mem)
        | Some t \<Rightarrow>
            (case rlimit_get t (unat resource) of
               None \<Rightarrow> (as_ret EINVAL, mem)
             | Some rlim \<Rightarrow>
                 if \<not> validate_user_buf rlim_ptr 16 then (as_ret EFAULT, mem)
                 else (0, put_bytes (put_bytes mem rlim_ptr (to_le_bytes 8 (rl_cur rlim)))
                            (rlim_ptr + 8) (to_le_bytes 8 (rl_max rlim)))))"

definition sys_setrlimit :: "user_mem \<Rightarrow> u32 \<Rightarrow> i32 \<Rightarrow> u64 \<Rightarrow> rl_procs \<Rightarrow> i64 \<times> rl_procs" where
  "sys_setrlimit mem pid resource rlim_ptr ps =
     (if rlim_ptr = 0 then (as_ret EINVAL, ps)
      else if \<not> in_resource_range resource then (as_ret EINVAL, ps)
      else if \<not> validate_user_buf rlim_ptr 16 then (as_ret EFAULT, ps)
      else
        let bytes = get_bytes mem rlim_ptr 16;
            cur = of_le_bytes (take 8 bytes);
            mx = of_le_bytes (drop 8 bytes);
            is_privileged = (pid = 1) in
        case rl_process ps pid of
          None \<Rightarrow> (as_ret ESRCH, ps)
        | Some t \<Rightarrow>
            (case rlimit_set t (unat resource) cur mx is_privileged of
               (Inr _, t') \<Rightarrow> (0, ps(pid \<mapsto> t'))
             | (Inl e, t') \<Rightarrow> (as_ret e, ps(pid \<mapsto> t'))))"

definition rlimit_syscall_result :: "i64 \<Rightarrow> errno + nat" where
  "rlimit_syscall_result ret = (if 0 \<le>s ret then Inr 0 else Inl (from_ret ret))"

text \<open>The new process has the default table until the parent's table is copied over it.\<close>

definition fork_rlimit :: "rl_procs \<Rightarrow> u32 \<Rightarrow> rlimit_table" where
  "fork_rlimit ps parent = (case rl_process ps parent of Some t \<Rightarrow> t | None \<Rightarrow> rlimit_table_new)"

section \<open>Runs\<close>

text \<open>
  \<open>rl_run p ps q ps'\<close>: in a run from \<open>ps\<close> to \<open>ps'\<close>, \<open>q\<close> is the process \<open>p\<close> or a descendant of it by
  forks.  In between any process sets limits, forks, is created by the kernel or is removed; init,
  process 1, stays.
\<close>

inductive rl_step :: "rl_procs \<Rightarrow> rl_procs \<Rightarrow> bool" where
  rl_set: "rl_step ps (snd (sys_setrlimit mem pid resource rlim_ptr ps))"
| rl_fork: "ps child = None \<Longrightarrow> unat child < MAX_PROCESSES \<Longrightarrow> rl_step ps (ps(child \<mapsto> fork_rlimit ps parent))"
| rl_spawn: "ps child = None \<Longrightarrow> unat child < MAX_PROCESSES \<Longrightarrow> rl_step ps (ps(child \<mapsto> rlimit_table_new))"
| rl_remove: "pid \<noteq> 1 \<Longrightarrow> rl_step ps (ps(pid := None))"

inductive rl_run :: "u32 \<Rightarrow> rl_procs \<Rightarrow> u32 \<Rightarrow> rl_procs \<Rightarrow> bool" where
  rl_self: "ps p \<noteq> None \<Longrightarrow> rl_run p ps p ps"
| rl_other: "rl_run p ps q ps' \<Longrightarrow> rl_step ps' ps'' \<Longrightarrow> ps'' q \<noteq> None \<Longrightarrow> rl_run p ps q ps''"
| rl_child: "rl_run p ps q ps' \<Longrightarrow> ps' child = None \<Longrightarrow> unat child < MAX_PROCESSES \<Longrightarrow>
    rl_run p ps child (ps'(child \<mapsto> fork_rlimit ps' q))"

inductive rl_reachable :: "rl_procs \<Rightarrow> bool" where
  rl_boot: "rl_reachable (\<lambda>_. None)"
| rl_next: "rl_reachable ps \<Longrightarrow> rl_step ps ps' \<Longrightarrow> rl_reachable ps'"

section \<open>Well-formed tables\<close>

definition table_ok :: "rlimit_table \<Rightarrow> bool" where
  "table_ok t \<longleftrightarrow> length t = RLIMIT_NLIMITS \<and> (\<forall>r \<in> set t. rl_cur r \<le> rl_max r)"

definition procs_ok :: "rl_procs \<Rightarrow> bool" where
  "procs_ok ps \<longleftrightarrow> (\<forall>p t. ps p = Some t \<longrightarrow> table_ok t \<and> unat p < MAX_PROCESSES)"

lemmas rlimit_defs = rlimit_table_new_def rlimit_infinity_def rlimit_new_def RLIM_INFINITY_def
  MAX_OPEN_FILES_def MAX_PROCESSES_def RLIMIT_NLIMITS_def

lemma table_ok_new: "table_ok rlimit_table_new"
  by (simp add: table_ok_def rlimit_defs)

lemma rlimit_set_ok:
  assumes "table_ok t"
  shows "table_ok (snd (rlimit_set t resource cur mx is_privileged))"
  using assms set_update_subset_insert [of t resource "rlimit_new cur mx"]
  by (auto simp: rlimit_set_def table_ok_def Let_def rlimit_new_def)

lemma rl_process_Some: "rl_process ps p = Some t \<longleftrightarrow> ps p = Some t \<and> unat p < MAX_PROCESSES"
  by (auto simp: rl_process_def)

lemma sys_setrlimit_cases:
  obtains "snd (sys_setrlimit mem pid resource rlim_ptr ps) = ps"
  | t cur mx where "rl_process ps pid = Some t"
      "snd (sys_setrlimit mem pid resource rlim_ptr ps) =
         ps(pid \<mapsto> snd (rlimit_set t (unat resource) cur mx (pid = 1)))"
proof (cases "rlim_ptr = 0 \<or> \<not> in_resource_range resource \<or> \<not> validate_user_buf rlim_ptr 16 \<or> rl_process ps pid = None")
  case True
  then show thesis by (intro that(1)) (auto simp: sys_setrlimit_def Let_def)
next
  case False
  then obtain t where t: "rl_process ps pid = Some t" by auto
  let ?bs = "get_bytes mem rlim_ptr 16"
  have "snd (case p of (Inr u, t') \<Rightarrow> (0, ps(pid \<mapsto> t')) | (Inl e, t') \<Rightarrow> (as_ret e, ps(pid \<mapsto> t'))) = ps(pid \<mapsto> snd p)"
    for p :: "(errno + unit) \<times> rlimit_table"
    by (simp split: prod.split sum.split)
  then show thesis
    using False t
    by (intro that(2) [of t "of_le_bytes (take 8 ?bs)" "of_le_bytes (drop 8 ?bs)"])
       (simp_all add: sys_setrlimit_def Let_def)
qed

lemma fork_rlimit_ok: "procs_ok ps \<Longrightarrow> table_ok (fork_rlimit ps parent)"
  by (auto simp: fork_rlimit_def procs_ok_def rl_process_Some table_ok_new split: option.split)

lemma rl_step_ok:
  assumes "rl_step ps ps'" "procs_ok ps"
  shows "procs_ok ps'"
  using assms
proof (cases rule: rl_step.cases)
  case (rl_set mem pid resource rlim_ptr)
  show ?thesis
    by (cases rule: sys_setrlimit_cases [of mem pid resource rlim_ptr ps])
       (use assms(2) rl_set rlimit_set_ok in \<open>auto simp: procs_ok_def rl_process_Some\<close>)
qed (auto simp: procs_ok_def fork_rlimit_ok table_ok_new)

lemma rl_reachable_ok: "rl_reachable ps \<Longrightarrow> procs_ok ps"
  by (induction rule: rl_reachable.induct) (auto simp: procs_ok_def dest: rl_step_ok)

text \<open>C40: Type property.  In every reachable state the limits of each process are a table of sixteen
  entries whose soft limit is at most the hard limit, so every lookup of a resource in range succeeds
  within the table.\<close>
theorem rlimit_tables_typed:
  assumes "rl_reachable ps" "ps p = Some t"
  shows "length t = RLIMIT_NLIMITS \<and>
    (\<forall>resource < RLIMIT_NLIMITS. \<exists>r. rlimit_get t resource = Some r \<and> r \<in> set t \<and> rl_cur r \<le> rl_max r)"
proof -
  have "table_ok t" using rl_reachable_ok [OF assms(1)] assms(2) by (simp add: procs_ok_def)
  then show ?thesis by (auto simp: table_ok_def rlimit_get_def)
qed

theorem rlimit_tables_typed_witness:
  "rlimit_get rlimit_table_new 7 = Some \<lparr>rl_cur = 32, rl_max = - 1\<rparr> \<and> length rlimit_table_new = 16"
proof -
  have "rl_reachable ((\<lambda>_. None)(1 \<mapsto> rlimit_table_new))"
    by (rule rl_next [OF rl_boot rl_spawn]) (simp_all add: MAX_PROCESSES_def)
  from rlimit_tables_typed [OF this, of 1 rlimit_table_new]
  show ?thesis by (simp add: RLIMIT_NLIMITS_def rlimit_get_def rlimit_defs)
qed

section \<open>Hard limits only go down\<close>

definition hard_le :: "rlimit_table \<Rightarrow> rlimit_table \<Rightarrow> bool" where
  "hard_le t' t \<longleftrightarrow> list_all2 (\<lambda>r' r. rl_max r' \<le> rl_max r) t' t"

lemma hard_le_refl: "hard_le t t"
  by (simp add: hard_le_def list_all2_refl)

lemma hard_le_trans: "hard_le a b \<Longrightarrow> hard_le b c \<Longrightarrow> hard_le a c"
  unfolding hard_le_def by (rule list_all2_trans [of "\<lambda>r' r. rl_max r' \<le> rl_max r"]) auto

lemma rlimit_set_hard_le: "hard_le (snd (rlimit_set t resource cur mx False)) t"
  by (auto simp: rlimit_set_def Let_def hard_le_def rlimit_new_def list_all2_conv_all_nth nth_list_update_if)

lemma rl_step_init: "rl_step ps ps' \<Longrightarrow> ps 1 \<noteq> None \<Longrightarrow> ps' 1 \<noteq> None"
proof (erule rl_step.cases, goal_cases)
  case (1 ps mem pid resource rlim_ptr)
  then show ?case by (cases rule: sys_setrlimit_cases [of mem pid resource rlim_ptr ps]) auto
qed auto

lemma rl_step_hard_le:
  assumes "rl_step ps ps'" "q \<noteq> 1" "ps q = Some t" "ps' q = Some t'"
  shows "hard_le t' t"
  using assms
proof (cases rule: rl_step.cases)
  case (rl_set mem pid resource rlim_ptr)
  show ?thesis
  proof (cases rule: sys_setrlimit_cases [of mem pid resource rlim_ptr ps])
    case 1
    then show ?thesis using assms rl_set by (simp add: hard_le_refl)
  next
    case (2 u cur mx)
    then show ?thesis
      using assms rl_set rlimit_set_hard_le [of u] by (cases "q = pid") (auto simp: rl_process_Some hard_le_refl)
  qed
qed (auto simp: hard_le_refl split: if_splits)

lemma rl_run_alive: "rl_run p ps q ps' \<Longrightarrow> ps p \<noteq> None \<and> ps' q \<noteq> None"
  by (induction rule: rl_run.induct) auto

lemma rl_run_init: "rl_run p ps q ps' \<Longrightarrow> p \<noteq> 1 \<Longrightarrow> ps 1 \<noteq> None \<Longrightarrow> q \<noteq> 1 \<and> ps' 1 \<noteq> None"
  by (induction rule: rl_run.induct) (auto dest: rl_step_init)

lemma rl_run_hard_le:
  assumes "rl_run p ps q ps'" "p \<noteq> 1" "ps 1 \<noteq> None" "procs_ok ps" "ps p = Some t"
  shows "procs_ok ps' \<and> (\<exists>t'. ps' q = Some t' \<and> hard_le t' t)"
  using assms
proof (induction rule: rl_run.induct)
  case (rl_self ps p)
  then show ?case by (simp add: hard_le_refl)
next
  case (rl_other p ps q ps' ps'')
  then obtain t' where t': "procs_ok ps'" "ps' q = Some t'" "hard_le t' t" by auto
  obtain t'' where t'': "ps'' q = Some t''" using rl_other.hyps by auto
  have "q \<noteq> 1" using rl_run_init [OF rl_other.hyps(1)] rl_other.prems by simp
  from rl_step_hard_le [OF rl_other.hyps(2) this t'(2) t''] t' t'' rl_step_ok [OF rl_other.hyps(2)]
  show ?case by (auto intro: hard_le_trans)
next
  case (rl_child p ps q ps' child)
  then obtain t' where t': "procs_ok ps'" "ps' q = Some t'" "hard_le t' t" by auto
  then have "rl_process ps' q = Some t'" by (auto simp: rl_process_Some procs_ok_def)
  then have "fork_rlimit ps' q = t'" by (simp add: fork_rlimit_def)
  with t' rl_child.hyps(3) show ?case by (auto simp: procs_ok_def)
qed



end
