(* ===== verification/Wasm_Types.thy ===== *)
theory Wasm_Types
  imports Leb128
begin

text \<open>
  The types of the WebAssembly runtime (\<^verbatim>\<open>src/src/kernel/services/wasm/types.rs\<close>): value types and
  values, the parts of a module, the opcodes with their bytes.  The errors are in \<open>Leb128\<close>.  Floating point
  values are carried as their bits, as in the source.
\<close>

definition WASM_MAGIC :: u32 where "WASM_MAGIC = 0x6D736100"

definition WASM_VERSION :: u32 where "WASM_VERSION = 1"

definition WASM_PAGE_SIZE :: nat where "WASM_PAGE_SIZE = 65536"

section \<open>Values\<close>

datatype value_type = TI32 | TI64 | TF32 | TF64

definition value_type_from_byte :: "u8 \<Rightarrow> value_type option" where
  "value_type_from_byte b =
     (if b = 0x7F then Some TI32
      else if b = 0x7E then Some TI64
      else if b = 0x7D then Some TF32
      else if b = 0x7C then Some TF64
      else None)"

datatype wasm_value = I32 i32 | I64 i64 | F32 u32 | F64 u64

primrec val_as_i32 :: "wasm_value \<Rightarrow> i32 option" where
  "val_as_i32 (I32 v) = Some v"
| "val_as_i32 (I64 v) = None"
| "val_as_i32 (F32 v) = None"
| "val_as_i32 (F64 v) = None"

primrec val_as_u32 :: "wasm_value \<Rightarrow> u32 option" where
  "val_as_u32 (I32 v) = Some v"
| "val_as_u32 (I64 v) = None"
| "val_as_u32 (F32 v) = None"
| "val_as_u32 (F64 v) = None"

primrec val_as_i64 :: "wasm_value \<Rightarrow> i64 option" where
  "val_as_i64 (I32 v) = None"
| "val_as_i64 (I64 v) = Some v"
| "val_as_i64 (F32 v) = None"
| "val_as_i64 (F64 v) = None"

primrec default_for :: "value_type \<Rightarrow> wasm_value" where
  "default_for TI32 = I32 0"
| "default_for TI64 = I64 0"
| "default_for TF32 = F32 0"
| "default_for TF64 = F64 0"

section \<open>Modules\<close>

record func_type =
  ft_params :: "value_type list"
  ft_results :: "value_type list"

record limits =
  lim_min :: u32
  lim_max :: "u32 option"

record table_type =
  tt_element_type :: value_type
  tt_limits :: limits

record memory_type =
  mt_limits :: limits

record global_type =
  gt_content_type :: value_type
  gt_mutable :: bool

datatype import_kind =
    ImportFunction u32 | ImportTable table_type | ImportMemory memory_type | ImportGlobal global_type

record import_desc =
  imp_module :: "u8 list"
  imp_name :: "u8 list"
  imp_desc :: import_kind

datatype export_kind = ExportFunction | ExportTable | ExportMemory | ExportGlobal

record export_desc =
  exp_name :: "u8 list"
  exp_kind :: export_kind
  exp_index :: u32

record function_body =
  fb_locals :: "(u32 \<times> value_type) list"
  fb_code :: "u8 list"

record data_segment =
  ds_memory_index :: u32
  ds_offset :: "u8 list"
  ds_data :: "u8 list"

record element_segment =
  es_table_index :: u32
  es_offset :: "u8 list"
  es_func_indices :: "u32 list"

record wasm_module =
  wm_types :: "func_type list"
  wm_imports :: "import_desc list"
  wm_functions :: "u32 list"
  wm_tables :: "table_type list"
  wm_memories :: "memory_type list"
  wm_globals :: "(global_type \<times> u8 list) list"
  wm_exports :: "export_desc list"
  wm_start_section :: "u32 option"
  wm_elements :: "element_segment list"
  wm_code :: "function_body list"
  wm_data :: "data_segment list"

definition SECTION_TYPE :: u8 where "SECTION_TYPE = 1"

definition SECTION_IMPORT :: u8 where "SECTION_IMPORT = 2"

definition SECTION_FUNCTION :: u8 where "SECTION_FUNCTION = 3"

definition SECTION_TABLE :: u8 where "SECTION_TABLE = 4"

definition SECTION_MEMORY :: u8 where "SECTION_MEMORY = 5"

definition SECTION_GLOBAL :: u8 where "SECTION_GLOBAL = 6"

definition SECTION_EXPORT :: u8 where "SECTION_EXPORT = 7"

definition SECTION_START :: u8 where "SECTION_START = 8"

definition SECTION_ELEMENT :: u8 where "SECTION_ELEMENT = 9"

definition SECTION_CODE :: u8 where "SECTION_CODE = 10"

definition SECTION_DATA :: u8 where "SECTION_DATA = 11"

lemmas section_ids = SECTION_TYPE_def SECTION_IMPORT_def SECTION_FUNCTION_def SECTION_TABLE_def SECTION_MEMORY_def SECTION_GLOBAL_def SECTION_EXPORT_def SECTION_START_def SECTION_ELEMENT_def SECTION_CODE_def SECTION_DATA_def

section \<open>Opcodes\<close>

text \<open>The enum \<^verbatim>\<open>Opcode\<close> has 98 cases; they are grouped by what they work on.\<close>

datatype (plugins only: code size) ctrl_op =
    OpUnreachable | OpNop | OpBlock | OpLoop | OpIf | OpElse | OpEnd | OpBr | OpBrIf | OpBrTable
  | OpReturn | OpCall | OpCallIndirect | OpDrop | OpSelect | OpLocalGet | OpLocalSet
  | OpLocalTee | OpGlobalGet | OpGlobalSet

datatype (plugins only: code size) mem_op =
    OpI32Load | OpI64Load | OpI32Load8S | OpI32Load8U | OpI32Load16S | OpI32Load16U
  | OpI64Load8S | OpI64Load8U | OpI64Load16S | OpI64Load16U | OpI64Load32S | OpI64Load32U
  | OpI32Store | OpI64Store | OpI32Store8 | OpI32Store16 | OpI64Store8 | OpI64Store16
  | OpI64Store32 | OpMemorySize | OpMemoryGrow

datatype (plugins only: code size) num32_op =
    OpI32Const | OpI32Eqz | OpI32Eq | OpI32Ne | OpI32LtS | OpI32LtU | OpI32GtS | OpI32GtU
  | OpI32LeS | OpI32LeU | OpI32GeS | OpI32GeU | OpI32Add | OpI32Sub | OpI32Mul | OpI32DivS
  | OpI32DivU | OpI32RemS | OpI32RemU | OpI32And | OpI32Or | OpI32Xor | OpI32Shl | OpI32ShrS
  | OpI32ShrU | OpI32Rotl | OpI32Rotr | OpI32WrapI64

datatype (plugins only: code size) num64_op =
    OpI64Const | OpI64Eqz | OpI64Eq | OpI64Ne | OpI64LtS | OpI64LtU | OpI64GtS | OpI64GtU
  | OpI64LeS | OpI64LeU | OpI64GeS | OpI64GeU | OpI64Add | OpI64Sub | OpI64Mul | OpI64DivS
  | OpI64DivU | OpI64RemS | OpI64RemU | OpI64And | OpI64Or | OpI64Xor | OpI64Shl | OpI64ShrS
  | OpI64ShrU | OpI64Rotl | OpI64Rotr | OpI64ExtendI32S | OpI64ExtendI32U

datatype opcode = Ctrl ctrl_op | Mem mem_op | Num32 num32_op | Num64 num64_op

text \<open>The discriminants of the enum.\<close>

primrec ctrl_op_byte :: "ctrl_op \<Rightarrow> u8" where
  "ctrl_op_byte OpUnreachable = 0x00"
| "ctrl_op_byte OpNop = 0x01"
| "ctrl_op_byte OpBlock = 0x02"
| "ctrl_op_byte OpLoop = 0x03"
| "ctrl_op_byte OpIf = 0x04"
| "ctrl_op_byte OpElse = 0x05"
| "ctrl_op_byte OpEnd = 0x0B"
| "ctrl_op_byte OpBr = 0x0C"
| "ctrl_op_byte OpBrIf = 0x0D"
| "ctrl_op_byte OpBrTable = 0x0E"
| "ctrl_op_byte OpReturn = 0x0F"
| "ctrl_op_byte OpCall = 0x10"
| "ctrl_op_byte OpCallIndirect = 0x11"
| "ctrl_op_byte OpDrop = 0x1A"
| "ctrl_op_byte OpSelect = 0x1B"
| "ctrl_op_byte OpLocalGet = 0x20"
| "ctrl_op_byte OpLocalSet = 0x21"
| "ctrl_op_byte OpLocalTee = 0x22"
| "ctrl_op_byte OpGlobalGet = 0x23"
| "ctrl_op_byte OpGlobalSet = 0x24"

primrec mem_op_byte :: "mem_op \<Rightarrow> u8" where
  "mem_op_byte OpI32Load = 0x28"
| "mem_op_byte OpI64Load = 0x29"
| "mem_op_byte OpI32Load8S = 0x2C"
| "mem_op_byte OpI32Load8U = 0x2D"
| "mem_op_byte OpI32Load16S = 0x2E"
| "mem_op_byte OpI32Load16U = 0x2F"
| "mem_op_byte OpI64Load8S = 0x30"
| "mem_op_byte OpI64Load8U = 0x31"
| "mem_op_byte OpI64Load16S = 0x32"
| "mem_op_byte OpI64Load16U = 0x33"
| "mem_op_byte OpI64Load32S = 0x34"
| "mem_op_byte OpI64Load32U = 0x35"
| "mem_op_byte OpI32Store = 0x36"
| "mem_op_byte OpI64Store = 0x37"
| "mem_op_byte OpI32Store8 = 0x3A"
| "mem_op_byte OpI32Store16 = 0x3B"
| "mem_op_byte OpI64Store8 = 0x3C"
| "mem_op_byte OpI64Store16 = 0x3D"
| "mem_op_byte OpI64Store32 = 0x3E"
| "mem_op_byte OpMemorySize = 0x3F"
| "mem_op_byte OpMemoryGrow = 0x40"

primrec num32_op_byte :: "num32_op \<Rightarrow> u8" where
  "num32_op_byte OpI32Const = 0x41"
| "num32_op_byte OpI32Eqz = 0x45"
| "num32_op_byte OpI32Eq = 0x46"
| "num32_op_byte OpI32Ne = 0x47"
| "num32_op_byte OpI32LtS = 0x48"
| "num32_op_byte OpI32LtU = 0x49"
| "num32_op_byte OpI32GtS = 0x4A"
| "num32_op_byte OpI32GtU = 0x4B"
| "num32_op_byte OpI32LeS = 0x4C"
| "num32_op_byte OpI32LeU = 0x4D"
| "num32_op_byte OpI32GeS = 0x4E"
| "num32_op_byte OpI32GeU = 0x4F"
| "num32_op_byte OpI32Add = 0x6A"
| "num32_op_byte OpI32Sub = 0x6B"
| "num32_op_byte OpI32Mul = 0x6C"
| "num32_op_byte OpI32DivS = 0x6D"
| "num32_op_byte OpI32DivU = 0x6E"
| "num32_op_byte OpI32RemS = 0x6F"
| "num32_op_byte OpI32RemU = 0x70"
| "num32_op_byte OpI32And = 0x71"
| "num32_op_byte OpI32Or = 0x72"
| "num32_op_byte OpI32Xor = 0x73"
| "num32_op_byte OpI32Shl = 0x74"
| "num32_op_byte OpI32ShrS = 0x75"
| "num32_op_byte OpI32ShrU = 0x76"
| "num32_op_byte OpI32Rotl = 0x77"
| "num32_op_byte OpI32Rotr = 0x78"
| "num32_op_byte OpI32WrapI64 = 0xA7"

primrec num64_op_byte :: "num64_op \<Rightarrow> u8" where
  "num64_op_byte OpI64Const = 0x42"
| "num64_op_byte OpI64Eqz = 0x50"
| "num64_op_byte OpI64Eq = 0x51"
| "num64_op_byte OpI64Ne = 0x52"
| "num64_op_byte OpI64LtS = 0x53"
| "num64_op_byte OpI64LtU = 0x54"
| "num64_op_byte OpI64GtS = 0x55"
| "num64_op_byte OpI64GtU = 0x56"
| "num64_op_byte OpI64LeS = 0x57"
| "num64_op_byte OpI64LeU = 0x58"
| "num64_op_byte OpI64GeS = 0x59"
| "num64_op_byte OpI64GeU = 0x5A"
| "num64_op_byte OpI64Add = 0x7C"
| "num64_op_byte OpI64Sub = 0x7D"
| "num64_op_byte OpI64Mul = 0x7E"
| "num64_op_byte OpI64DivS = 0x7F"
| "num64_op_byte OpI64DivU = 0x80"
| "num64_op_byte OpI64RemS = 0x81"
| "num64_op_byte OpI64RemU = 0x82"
| "num64_op_byte OpI64And = 0x83"
| "num64_op_byte OpI64Or = 0x84"
| "num64_op_byte OpI64Xor = 0x85"
| "num64_op_byte OpI64Shl = 0x86"
| "num64_op_byte OpI64ShrS = 0x87"
| "num64_op_byte OpI64ShrU = 0x88"
| "num64_op_byte OpI64Rotl = 0x89"
| "num64_op_byte OpI64Rotr = 0x8A"
| "num64_op_byte OpI64ExtendI32S = 0xAC"
| "num64_op_byte OpI64ExtendI32U = 0xAD"

primrec opcode_byte :: "opcode \<Rightarrow> u8" where
  "opcode_byte (Ctrl op) = ctrl_op_byte op"
| "opcode_byte (Mem op) = mem_op_byte op"
| "opcode_byte (Num32 op) = num32_op_byte op"
| "opcode_byte (Num64 op) = num64_op_byte op"

definition opcode_from_byte :: "u8 \<Rightarrow> opcode option" where
  "opcode_from_byte b =
     (if b = 0x00 then Some (Ctrl OpUnreachable)
      else if b = 0x01 then Some (Ctrl OpNop)
      else if b = 0x02 then Some (Ctrl OpBlock)
      else if b = 0x03 then Some (Ctrl OpLoop)
      else if b = 0x04 then Some (Ctrl OpIf)
      else if b = 0x05 then Some (Ctrl OpElse)
      else if b = 0x0B then Some (Ctrl OpEnd)
      else if b = 0x0C then Some (Ctrl OpBr)
      else if b = 0x0D then Some (Ctrl OpBrIf)
      else if b = 0x0E then Some (Ctrl OpBrTable)
      else if b = 0x0F then Some (Ctrl OpReturn)
      else if b = 0x10 then Some (Ctrl OpCall)
      else if b = 0x11 then Some (Ctrl OpCallIndirect)
      else if b = 0x1A then Some (Ctrl OpDrop)
      else if b = 0x1B then Some (Ctrl OpSelect)
      else if b = 0x20 then Some (Ctrl OpLocalGet)
      else if b = 0x21 then Some (Ctrl OpLocalSet)
      else if b = 0x22 then Some (Ctrl OpLocalTee)
      else if b = 0x23 then Some (Ctrl OpGlobalGet)
      else if b = 0x24 then Some (Ctrl OpGlobalSet)
      else if b = 0x28 then Some (Mem OpI32Load)
      else if b = 0x29 then Some (Mem OpI64Load)
      else if b = 0x2C then Some (Mem OpI32Load8S)
      else if b = 0x2D then Some (Mem OpI32Load8U)
      else if b = 0x2E then Some (Mem OpI32Load16S)
      else if b = 0x2F then Some (Mem OpI32Load16U)
      else if b = 0x30 then Some (Mem OpI64Load8S)
      else if b = 0x31 then Some (Mem OpI64Load8U)
      else if b = 0x32 then Some (Mem OpI64Load16S)
      else if b = 0x33 then Some (Mem OpI64Load16U)
      else if b = 0x34 then Some (Mem OpI64Load32S)
      else if b = 0x35 then Some (Mem OpI64Load32U)
      else if b = 0x36 then Some (Mem OpI32Store)
      else if b = 0x37 then Some (Mem OpI64Store)
      else if b = 0x3A then Some (Mem OpI32Store8)
      else if b = 0x3B then Some (Mem OpI32Store16)
      else if b = 0x3C then Some (Mem OpI64Store8)
      else if b = 0x3D then Some (Mem OpI64Store16)
      else if b = 0x3E then Some (Mem OpI64Store32)
      else if b = 0x3F then Some (Mem OpMemorySize)
      else if b = 0x40 then Some (Mem OpMemoryGrow)
      else if b = 0x41 then Some (Num32 OpI32Const)
      else if b = 0x42 then Some (Num64 OpI64Const)
      else if b = 0x45 then Some (Num32 OpI32Eqz)
      else if b = 0x46 then Some (Num32 OpI32Eq)
      else if b = 0x47 then Some (Num32 OpI32Ne)
      else if b = 0x48 then Some (Num32 OpI32LtS)
      else if b = 0x49 then Some (Num32 OpI32LtU)
      else if b = 0x4A then Some (Num32 OpI32GtS)
      else if b = 0x4B then Some (Num32 OpI32GtU)
      else if b = 0x4C then Some (Num32 OpI32LeS)
      else if b = 0x4D then Some (Num32 OpI32LeU)
      else if b = 0x4E then Some (Num32 OpI32GeS)
      else if b = 0x4F then Some (Num32 OpI32GeU)
      else if b = 0x50 then Some (Num64 OpI64Eqz)
      else if b = 0x51 then Some (Num64 OpI64Eq)
      else if b = 0x52 then Some (Num64 OpI64Ne)
      else if b = 0x53 then Some (Num64 OpI64LtS)
      else if b = 0x54 then Some (Num64 OpI64LtU)
      else if b = 0x55 then Some (Num64 OpI64GtS)
      else if b = 0x56 then Some (Num64 OpI64GtU)
      else if b = 0x57 then Some (Num64 OpI64LeS)
      else if b = 0x58 then Some (Num64 OpI64LeU)
      else if b = 0x59 then Some (Num64 OpI64GeS)
      else if b = 0x5A then Some (Num64 OpI64GeU)
      else if b = 0x6A then Some (Num32 OpI32Add)
      else if b = 0x6B then Some (Num32 OpI32Sub)
      else if b = 0x6C then Some (Num32 OpI32Mul)
      else if b = 0x6D then Some (Num32 OpI32DivS)
      else if b = 0x6E then Some (Num32 OpI32DivU)
      else if b = 0x6F then Some (Num32 OpI32RemS)
      else if b = 0x70 then Some (Num32 OpI32RemU)
      else if b = 0x71 then Some (Num32 OpI32And)
      else if b = 0x72 then Some (Num32 OpI32Or)
      else if b = 0x73 then Some (Num32 OpI32Xor)
      else if b = 0x74 then Some (Num32 OpI32Shl)
      else if b = 0x75 then Some (Num32 OpI32ShrS)
      else if b = 0x76 then Some (Num32 OpI32ShrU)
      else if b = 0x77 then Some (Num32 OpI32Rotl)
      else if b = 0x78 then Some (Num32 OpI32Rotr)
      else if b = 0x7C then Some (Num64 OpI64Add)
      else if b = 0x7D then Some (Num64 OpI64Sub)
      else if b = 0x7E then Some (Num64 OpI64Mul)
      else if b = 0x7F then Some (Num64 OpI64DivS)
      else if b = 0x80 then Some (Num64 OpI64DivU)
      else if b = 0x81 then Some (Num64 OpI64RemS)
      else if b = 0x82 then Some (Num64 OpI64RemU)
      else if b = 0x83 then Some (Num64 OpI64And)
      else if b = 0x84 then Some (Num64 OpI64Or)
      else if b = 0x85 then Some (Num64 OpI64Xor)
      else if b = 0x86 then Some (Num64 OpI64Shl)
      else if b = 0x87 then Some (Num64 OpI64ShrS)
      else if b = 0x88 then Some (Num64 OpI64ShrU)
      else if b = 0x89 then Some (Num64 OpI64Rotl)
      else if b = 0x8A then Some (Num64 OpI64Rotr)
      else if b = 0xA7 then Some (Num32 OpI32WrapI64)
      else if b = 0xAC then Some (Num64 OpI64ExtendI32S)
      else if b = 0xAD then Some (Num64 OpI64ExtendI32U)
      else None)"

lemma if_SomeE:
  "(if c then Some x else r) = Some y \<Longrightarrow> (c \<Longrightarrow> y = x \<Longrightarrow> P) \<Longrightarrow> (r = Some y \<Longrightarrow> P) \<Longrightarrow> P"
  by (cases c) simp_all

lemma opcode_from_byte_byte: "opcode_from_byte (opcode_byte op) = Some op"
proof (cases op)
  case (Ctrl x)
  then show ?thesis by (cases x) (simp_all add: opcode_from_byte_def)
next
  case (Mem x)
  then show ?thesis by (cases x) (simp_all add: opcode_from_byte_def)
next
  case (Num32 x)
  then show ?thesis by (cases x) (simp_all add: opcode_from_byte_def)
next
  case (Num64 x)
  then show ?thesis by (cases x) (simp_all add: opcode_from_byte_def)
qed

lemma opcode_from_byte_SomeD: "opcode_from_byte b = Some op \<Longrightarrow> opcode_byte op = b"
  unfolding opcode_from_byte_def by (elim if_SomeE) simp_all

end
