(* ===== verification/Wasm_Module.thy ===== *)
theory Wasm_Module
  imports Wasm_Types
begin

text \<open>
  The decoder of the WebAssembly binary format (\<^verbatim>\<open>src/src/kernel/services/wasm/module.rs\<close>), function by
  function.  A parser takes the bytes and the position (the \<^verbatim>\<open>&mut usize\<close> argument) and returns a value and
  the new position, an error, or a panic: the decoder indexes the input without a check in many places.
  Every loop ends: a section that is read moves the position forward.  The capacity that the source
  reserves for a vector before it reads the elements is not modelled.
\<close>

section \<open>Parsers\<close>

type_synonym 'a parser = "u8 list \<Rightarrow> nat \<Rightarrow> (wasm_error + 'a \<times> nat) panics"

definition p_ret :: "'a \<Rightarrow> 'a parser" where
  "p_ret x bytes pos = Ret (Inr (x, pos))"

definition p_fail :: "wasm_error \<Rightarrow> 'a parser" where
  "p_fail e bytes pos = Ret (Inl e)"

definition p_bind :: "'a parser \<Rightarrow> ('a \<Rightarrow> 'b parser) \<Rightarrow> 'b parser" where
  "p_bind m f bytes pos =
     (case m bytes pos of
        Panic \<Rightarrow> Panic
      | Ret (Inl e) \<Rightarrow> Ret (Inl e)
      | Ret (Inr (x, pos')) \<Rightarrow> f x bytes pos')"

text \<open>\<^verbatim>\<open>bytes[*pos]; *pos += 1\<close>, which panics beyond the end.\<close>

definition p_byte :: "u8 parser" where
  "p_byte bytes pos = (if pos < length bytes then Ret (Inr (bytes ! pos, pos + 1)) else Panic)"

definition p_lift :: "(u8 list \<Rightarrow> nat \<Rightarrow> (wasm_error + 'a) \<times> nat) \<Rightarrow> 'a parser" where
  "p_lift r bytes pos = Ret (case r bytes pos of (Inl e, _) \<Rightarrow> Inl e | (Inr x, pos') \<Rightarrow> Inr (x, pos'))"

definition p_u32 :: "u32 parser" where
  "p_u32 = p_lift read_leb128_u32"

definition p_name :: "u8 list parser" where
  "p_name = p_lift read_name"

text \<open>\<^verbatim>\<open>for _ in 0..count\<close> with a push of the element read.\<close>

primrec p_repeat :: "nat \<Rightarrow> 'a parser \<Rightarrow> 'a list parser" where
  "p_repeat 0 p = p_ret []"
| "p_repeat (Suc n) p = p_bind p (\<lambda>x. p_bind (p_repeat n p) (\<lambda>xs. p_ret (x # xs)))"

definition p_vec :: "'a parser \<Rightarrow> 'a list parser" where
  "p_vec p = p_bind p_u32 (\<lambda>n. p_repeat (unat n) p)"

definition p_value_type :: "wasm_error \<Rightarrow> value_type parser" where
  "p_value_type e =
     p_bind p_byte (\<lambda>b. case value_type_from_byte b of Some ty \<Rightarrow> p_ret ty | None \<Rightarrow> p_fail e)"

lemma read_u32_progress:
  assumes "read_leb128_u32 bytes pos = (Inr x, pos')"
  shows "pos < pos' \<and> pos' \<le> length bytes"
proof (cases "pos \<le> length bytes")
  case True
  then show ?thesis
    using leb_u32_loop_pos [of bytes pos 0 0 "Inr x" pos'] assms by (simp add: read_leb128_u32_def)
next
  case False
  then show ?thesis
    using assms by (simp add: read_leb128_u32_def leb_u32_loop.simps [of bytes pos])
qed

lemma signed_progress:
  assumes "leb_signed_loop bytes pos 0 0 = (Inr x, pos')"
  shows "pos < pos' \<and> pos' \<le> length bytes"
proof (cases "pos \<le> length bytes")
  case True
  then show ?thesis using leb_signed_loop_pos [OF assms] by simp
next
  case False
  then show ?thesis using assms by (simp add: leb_signed_loop.simps [of bytes pos])
qed

lemmas leb_progress = read_u32_progress signed_progress [where 'a = 32, folded read_leb128_i32_def]
  signed_progress [where 'a = 64, folded read_leb128_i64_def]

section \<open>Initialiser expressions\<close>

text \<open>The loop that \<^verbatim>\<open>read_init_expr\<close> and \<^verbatim>\<open>read_init_expr_bytes\<close> have in common: the position behind the
  \<open>end\<close> opcode.\<close>

function read_init_expr :: "u8 list \<Rightarrow> nat \<Rightarrow> wasm_error + nat" where
  "read_init_expr bytes pos =
     (if length bytes \<le> pos then Inl Truncated
      else
        let byte = bytes ! pos in
        if byte = 0x0B then Inr (pos + 1)
        else if byte = 0x41 then
          (case read_leb128_i32 bytes (pos + 1) of
             (Inl e, _) \<Rightarrow> Inl e | (Inr _, pos') \<Rightarrow> read_init_expr bytes pos')
        else if byte = 0x42 then
          (case read_leb128_i64 bytes (pos + 1) of
             (Inl e, _) \<Rightarrow> Inl e | (Inr _, pos') \<Rightarrow> read_init_expr bytes pos')
        else if byte = 0x23 then
          (case read_leb128_u32 bytes (pos + 1) of
             (Inl e, _) \<Rightarrow> Inl e | (Inr _, pos') \<Rightarrow> read_init_expr bytes pos')
        else Inl (UnknownOpcode byte))"
  by pat_completeness auto
termination
  by (relation "measure (\<lambda>(bytes, pos). length bytes - pos)") (auto dest!: leb_progress [OF sym])

declare read_init_expr.simps [simp del]

text \<open>The bytes from the start of the expression to its end.\<close>

definition read_init_expr_bytes :: "u8 list parser" where
  "read_init_expr_bytes bytes pos =
     Ret (case read_init_expr bytes pos of
            Inl e \<Rightarrow> Inl e
          | Inr pos' \<Rightarrow> Inr (take (pos' - pos) (drop pos bytes), pos'))"

section \<open>Sections\<close>

definition parse_type_entry :: "nat \<Rightarrow> func_type parser" where
  "parse_type_entry e bytes pos =
     (if e \<le> pos then Ret (Inl InternalError)
      else p_bind p_byte (\<lambda>b.
        if b \<noteq> 0x60 then p_fail InternalError
        else p_bind (p_vec (p_value_type InvalidVersion)) (\<lambda>params.
             p_bind (p_vec (p_value_type InvalidVersion)) (\<lambda>results.
             p_ret \<lparr>ft_params = params, ft_results = results\<rparr>))) bytes pos)"

definition parse_type_section :: "nat \<Rightarrow> func_type list parser" where
  "parse_type_section e = p_vec (parse_type_entry e)"

definition parse_limits :: "limits parser" where
  "parse_limits =
     p_bind p_byte (\<lambda>b.
     p_bind p_u32 (\<lambda>mn.
     if b \<noteq> 0 then p_bind p_u32 (\<lambda>mx. p_ret \<lparr>lim_min = mn, lim_max = Some mx\<rparr>)
     else p_ret \<lparr>lim_min = mn, lim_max = None\<rparr>))"

definition parse_global_type :: "wasm_error \<Rightarrow> global_type parser" where
  "parse_global_type e =
     p_bind (p_value_type e) (\<lambda>ty.
     p_bind p_byte (\<lambda>b.
     p_ret \<lparr>gt_content_type = ty, gt_mutable = (b \<noteq> 0)\<rparr>))"

definition parse_import_kind :: "import_kind parser" where
  "parse_import_kind =
     p_bind p_byte (\<lambda>kind.
     if kind = 0x00 then p_bind p_u32 (\<lambda>type_idx. p_ret (ImportFunction type_idx))
     else if kind = 0x01 then
       p_bind (p_value_type BadImport) (\<lambda>ty.
       p_bind parse_limits (\<lambda>l. p_ret (ImportTable \<lparr>tt_element_type = ty, tt_limits = l\<rparr>)))
     else if kind = 0x02 then p_bind parse_limits (\<lambda>l. p_ret (ImportMemory \<lparr>mt_limits = l\<rparr>))
     else if kind = 0x03 then p_bind (parse_global_type BadImport) (\<lambda>g. p_ret (ImportGlobal g))
     else p_fail BadImport)"

definition parse_import_section :: "import_desc list parser" where
  "parse_import_section =
     p_vec (p_bind p_name (\<lambda>module.
            p_bind p_name (\<lambda>name.
            p_bind parse_import_kind (\<lambda>desc.
            p_ret \<lparr>imp_module = module, imp_name = name, imp_desc = desc\<rparr>))))"

definition parse_function_section :: "u32 list parser" where
  "parse_function_section = p_vec p_u32"

definition parse_table_section :: "table_type list parser" where
  "parse_table_section =
     p_vec (p_bind (p_value_type InvalidVersion) (\<lambda>ty.
            p_bind parse_limits (\<lambda>l. p_ret \<lparr>tt_element_type = ty, tt_limits = l\<rparr>)))"

definition parse_memory_section :: "memory_type list parser" where
  "parse_memory_section = p_vec (p_bind parse_limits (\<lambda>l. p_ret \<lparr>mt_limits = l\<rparr>))"

definition parse_global_section :: "(global_type \<times> u8 list) list parser" where
  "parse_global_section =
     p_vec (p_bind (parse_global_type InvalidVersion) (\<lambda>g.
            p_bind read_init_expr_bytes (\<lambda>init_expr. p_ret (g, init_expr))))"

definition parse_export_kind :: "export_kind parser" where
  "parse_export_kind =
     p_bind p_byte (\<lambda>b.
     if b = 0 then p_ret ExportFunction
     else if b = 1 then p_ret ExportTable
     else if b = 2 then p_ret ExportMemory
     else if b = 3 then p_ret ExportGlobal
     else p_fail BadExport)"

definition parse_export_section :: "export_desc list parser" where
  "parse_export_section =
     p_vec (p_bind p_name (\<lambda>name.
            p_bind parse_export_kind (\<lambda>kind.
            p_bind p_u32 (\<lambda>index.
            p_ret \<lparr>exp_name = name, exp_kind = kind, exp_index = index\<rparr>))))"

text \<open>The slice \<^verbatim>\<open>bytes[*pos..body_end]\<close> panics unless the bounds are in order and within the input.\<close>

definition body_slice :: "nat \<Rightarrow> (u32 \<times> value_type) list \<Rightarrow> function_body parser" where
  "body_slice body_end locals bytes pos =
     (if pos \<le> body_end \<and> body_end \<le> length bytes
      then Ret (Inr (\<lparr>fb_locals = locals, fb_code = take (body_end - pos) (drop pos bytes)\<rparr>, body_end))
      else Panic)"

definition parse_local :: "(u32 \<times> value_type) parser" where
  "parse_local = p_bind p_u32 (\<lambda>n. p_bind (p_value_type InvalidVersion) (\<lambda>ty. p_ret (n, ty)))"

definition parse_body :: "function_body parser" where
  "parse_body =
     p_bind p_u32 (\<lambda>body_size bytes pos.
       let body_end = pos + unat body_size in
       p_bind (p_vec parse_local) (body_slice body_end) bytes pos)"

definition parse_code_section :: "function_body list parser" where
  "parse_code_section = p_vec parse_body"

definition data_slice :: "nat \<Rightarrow> u8 list parser" where
  "data_slice data_len bytes pos =
     (if length bytes < pos + data_len then Ret (Inl Truncated)
      else Ret (Inr (take data_len (drop pos bytes), pos + data_len)))"

definition parse_data_section :: "data_segment list parser" where
  "parse_data_section =
     p_vec (p_bind p_u32 (\<lambda>memory_index.
            p_bind read_init_expr_bytes (\<lambda>offset.
            p_bind p_u32 (\<lambda>data_len.
            p_bind (data_slice (unat data_len)) (\<lambda>data.
            p_ret \<lparr>ds_memory_index = memory_index, ds_offset = offset, ds_data = data\<rparr>)))))"

definition parse_element_section :: "element_segment list parser" where
  "parse_element_section =
     p_vec (p_bind p_u32 (\<lambda>table_index.
            p_bind read_init_expr_bytes (\<lambda>offset.
            p_bind (p_vec p_u32) (\<lambda>func_indices.
            p_ret \<lparr>es_table_index = table_index, es_offset = offset, es_func_indices = func_indices\<rparr>))))"

text \<open>The match on the section id; other sections are skipped.\<close>

definition parse_section :: "u8 \<Rightarrow> nat \<Rightarrow> wasm_module \<Rightarrow> wasm_module parser" where
  "parse_section section_id section_end m =
     (if section_id = SECTION_TYPE then
        p_bind (parse_type_section section_end) (\<lambda>x. p_ret (m\<lparr>wm_types := x\<rparr>))
      else if section_id = SECTION_IMPORT then
        p_bind parse_import_section (\<lambda>x. p_ret (m\<lparr>wm_imports := x\<rparr>))
      else if section_id = SECTION_FUNCTION then
        p_bind parse_function_section (\<lambda>x. p_ret (m\<lparr>wm_functions := x\<rparr>))
      else if section_id = SECTION_TABLE then
        p_bind parse_table_section (\<lambda>x. p_ret (m\<lparr>wm_tables := x\<rparr>))
      else if section_id = SECTION_MEMORY then
        p_bind parse_memory_section (\<lambda>x. p_ret (m\<lparr>wm_memories := x\<rparr>))
      else if section_id = SECTION_GLOBAL then
        p_bind parse_global_section (\<lambda>x. p_ret (m\<lparr>wm_globals := x\<rparr>))
      else if section_id = SECTION_EXPORT then
        p_bind parse_export_section (\<lambda>x. p_ret (m\<lparr>wm_exports := x\<rparr>))
      else if section_id = SECTION_START then
        p_bind p_u32 (\<lambda>x. p_ret (m\<lparr>wm_start_section := Some x\<rparr>))
      else if section_id = SECTION_ELEMENT then
        p_bind parse_element_section (\<lambda>x. p_ret (m\<lparr>wm_elements := x\<rparr>))
      else if section_id = SECTION_CODE then
        p_bind parse_code_section (\<lambda>x. p_ret (m\<lparr>wm_code := x\<rparr>))
      else if section_id = SECTION_DATA then
        p_bind parse_data_section (\<lambda>x. p_ret (m\<lparr>wm_data := x\<rparr>))
      else (\<lambda>bytes pos. Ret (Inr (m, section_end))))"

text \<open>The id, the size and the contents of one section.\<close>

definition parse_one_section :: "wasm_module \<Rightarrow> wasm_module parser" where
  "parse_one_section m =
     p_bind p_byte (\<lambda>section_id.
     p_bind p_u32 (\<lambda>section_size bytes pos.
       let section_end = pos + unat section_size in
       if length bytes < section_end then Ret (Inl Truncated)
       else parse_section section_id section_end m bytes pos))"

section \<open>Progress\<close>

text \<open>A parser that succeeds has not moved back; this is what makes the loop over the sections end.\<close>

definition advances :: "'a parser \<Rightarrow> bool" where
  "advances p \<longleftrightarrow> (\<forall>bytes pos x pos'. p bytes pos = Ret (Inr (x, pos')) \<longrightarrow> pos \<le> pos')"

lemma advancesD: "advances p \<Longrightarrow> p bytes pos = Ret (Inr (x, pos')) \<Longrightarrow> pos \<le> pos'"
  by (simp add: advances_def)

named_theorems parser_advances "parsers that do not move back"

lemma p_bind_InrE:
  assumes "p_bind m f bytes pos = Ret (Inr (y, pos'))"
  obtains x pos1 where "m bytes pos = Ret (Inr (x, pos1))" "f x bytes pos1 = Ret (Inr (y, pos'))"
  using assms by (auto simp: p_bind_def split: panics.splits sum.splits prod.splits)

lemma advances_bind [parser_advances]: "advances m \<Longrightarrow> (\<And>x. advances (f x)) \<Longrightarrow> advances (p_bind m f)"
  unfolding advances_def by (blast elim: p_bind_InrE intro: order_trans)

lemma advances_ret [parser_advances]: "advances (p_ret x)"
  by (simp add: advances_def p_ret_def)

lemma advances_fail [parser_advances]: "advances (p_fail e)"
  by (simp add: advances_def p_fail_def)

lemma advances_byte [parser_advances]: "advances p_byte"
  by (auto simp: advances_def p_byte_def split: if_splits)

lemma advances_u32 [parser_advances]: "advances p_u32"
  by (auto simp: advances_def p_u32_def p_lift_def dest!: read_u32_progress split: prod.splits sum.splits)

lemma advances_name [parser_advances]: "advances p_name"
  by (auto simp: advances_def p_name_def p_lift_def read_name_def dest!: read_u32_progress
      split: prod.splits sum.splits if_splits)

lemma advances_repeat [parser_advances]: "advances p \<Longrightarrow> advances (p_repeat n p)"
  by (induction n) (auto intro!: parser_advances)

lemma advances_vec [parser_advances]: "advances p \<Longrightarrow> advances (p_vec p)"
  by (simp add: p_vec_def parser_advances)

lemma advances_value_type [parser_advances]: "advances (p_value_type e)"
  unfolding p_value_type_def by (intro parser_advances) (simp split: option.split add: parser_advances)

lemma read_init_expr_pos: "read_init_expr bytes pos = Inr pos' \<Longrightarrow> pos < pos' \<and> pos' \<le> length bytes"
proof (induction bytes pos rule: read_init_expr.induct)
  case (1 bytes pos)
  from 1(4) have "pos < length bytes" by (subst (asm) read_init_expr.simps) (simp split: if_splits)
  with 1 show ?case
    by (subst (asm) (4) read_init_expr.simps)
       (fastforce simp: Let_def split: if_splits prod.splits sum.splits dest!: leb_progress)
qed

lemma advances_init [parser_advances]: "advances read_init_expr_bytes"
  by (auto simp: advances_def read_init_expr_bytes_def split: sum.splits dest: read_init_expr_pos)

lemma advances_body_slice [parser_advances]: "advances (body_slice e ls)"
  by (simp add: advances_def body_slice_def split: if_splits)

lemma advances_data_slice [parser_advances]: "advances (data_slice n)"
  by (auto simp: advances_def data_slice_def split: if_splits)

lemma advances_type_entry [parser_advances]: "advances (parse_type_entry e)"
proof -
  have "advances (p_bind p_byte (\<lambda>b.
        if b \<noteq> 0x60 then p_fail InternalError
        else p_bind (p_vec (p_value_type InvalidVersion)) (\<lambda>params.
             p_bind (p_vec (p_value_type InvalidVersion)) (\<lambda>results.
             p_ret \<lparr>ft_params = params, ft_results = results\<rparr>))))"
    by (intro parser_advances) (simp add: parser_advances)
  then show ?thesis unfolding advances_def parse_type_entry_def by (simp split: if_splits)
qed

lemma advances_limits [parser_advances]: "advances parse_limits"
  unfolding parse_limits_def by (intro parser_advances) (simp add: parser_advances)

lemma advances_import_kind [parser_advances]: "advances parse_import_kind"
  unfolding parse_import_kind_def parse_global_type_def
  by (rule advances_bind) (simp_all add: parser_advances)

lemma advances_export_kind [parser_advances]: "advances parse_export_kind"
  unfolding parse_export_kind_def by (rule advances_bind) (simp_all add: parser_advances)

lemma advances_local [parser_advances]: "advances parse_local"
  unfolding parse_local_def by (intro parser_advances)

lemma advances_body [parser_advances]: "advances parse_body"
proof -
  have "advances (p_bind (p_vec parse_local) (body_slice e))" for e by (intro parser_advances)
  then have "advances (\<lambda>bytes pos. p_bind (p_vec parse_local) (body_slice (pos + k)) bytes pos)" for k
    unfolding advances_def by blast
  then show ?thesis unfolding parse_body_def Let_def by (intro parser_advances)
qed

lemma advances_sections [parser_advances]:
  "advances (parse_type_section e)" "advances parse_import_section" "advances parse_function_section"
  "advances parse_table_section" "advances parse_memory_section" "advances parse_global_section"
  "advances parse_export_section" "advances parse_element_section" "advances parse_code_section"
  "advances parse_data_section"
  unfolding parse_type_section_def parse_import_section_def parse_function_section_def
    parse_table_section_def parse_memory_section_def parse_global_section_def parse_export_section_def
    parse_element_section_def parse_code_section_def parse_data_section_def parse_global_type_def
  by (intro parser_advances)+

lemma advances_if: "(c \<Longrightarrow> advances p) \<Longrightarrow> (\<not> c \<Longrightarrow> advances q) \<Longrightarrow> advances (if c then p else q)"
  by simp

lemma parse_section_advances:
  assumes "parse_section i e m bytes pos = Ret (Inr (m', pos'))" "pos \<le> e"
  shows "pos \<le> pos'"
proof (cases "i \<in> {SECTION_TYPE, SECTION_IMPORT, SECTION_FUNCTION, SECTION_TABLE, SECTION_MEMORY, SECTION_GLOBAL,
    SECTION_EXPORT, SECTION_START, SECTION_ELEMENT, SECTION_CODE, SECTION_DATA}")
  case True
  then have "advances (parse_section i e m)"
    unfolding parse_section_def by (intro advances_if parser_advances) simp
  then show ?thesis by (rule advancesD) (rule assms(1))
next
  case False
  then show ?thesis using assms by (simp add: parse_section_def)
qed

lemma parse_one_section_advances:
  assumes "parse_one_section m bytes pos = Ret (Inr (m', pos'))"
  shows "pos < pos'"
proof -
  from assms obtain b n pos1 pos2 where
    b: "p_byte bytes pos = Ret (Inr (b, pos1))" and n: "p_u32 bytes pos1 = Ret (Inr (n, pos2))"
    and s: "parse_section b (pos2 + unat n) m bytes pos2 = Ret (Inr (m', pos'))"
    unfolding parse_one_section_def Let_def by (auto elim!: p_bind_InrE split: if_splits)
  have "pos < pos1" using b by (simp add: p_byte_def split: if_splits)
  moreover have "pos1 \<le> pos2" by (rule advancesD [OF advances_u32 n])
  moreover have "pos2 \<le> pos'" using parse_section_advances [OF s] by simp
  ultimately show ?thesis by simp
qed

section \<open>The decoder\<close>

function parse_sections :: "u8 list \<Rightarrow> nat \<Rightarrow> wasm_module \<Rightarrow> (wasm_error + wasm_module) panics" where
  "parse_sections bytes pos m =
     (if pos < length bytes then
        (case parse_one_section m bytes pos of
           Panic \<Rightarrow> Panic
         | Ret (Inl e) \<Rightarrow> Ret (Inl e)
         | Ret (Inr (m', pos')) \<Rightarrow> parse_sections bytes pos' m')
      else Ret (Inr m))"
  by pat_completeness auto
termination
  by (relation "measure (\<lambda>(bytes, pos, m). length bytes - pos)")
     (auto dest!: parse_one_section_advances)

declare parse_sections.simps [simp del]

definition empty_module :: wasm_module where
  "empty_module = \<lparr>wm_types = [], wm_imports = [], wm_functions = [], wm_tables = [], wm_memories = [],
     wm_globals = [], wm_exports = [], wm_start_section = None, wm_elements = [], wm_code = [], wm_data = []\<rparr>"

definition parse_wasm :: "u8 list \<Rightarrow> (wasm_error + wasm_module) panics" where
  "parse_wasm bytes =
     (if length bytes < 8 then Ret (Inl Truncated)
      else if of_le_bytes (take 4 bytes) \<noteq> WASM_MAGIC then Ret (Inl InvalidMagic)
      else if of_le_bytes (take 4 (drop 4 bytes)) \<noteq> WASM_VERSION then Ret (Inl InvalidVersion)
      else parse_sections bytes 8 empty_module)"

end
