(* ===== verification/Wasm_Runtime.thy ===== *)
theory Wasm_Runtime
  imports Wasm_Types
begin

text \<open>
  The run-time structures of the WebAssembly interpreter (\<^verbatim>\<open>src/src/kernel/services/wasm/runtime.rs\<close>): the
  value stack, call frames, the linear memory and the configuration.  A \<^verbatim>\<open>Vec\<close> is a list that grows at its
  end.  The linear memory implements a map from offsets to bytes: little-endian reads return what was
  written last, accesses fail exactly out of bounds, and growing adds zeros.
\<close>

section \<open>The value stack\<close>

type_synonym value_stack = "wasm_value list"

definition STACK_LIMIT :: nat where
  "STACK_LIMIT = 4096"

definition vs_push :: "wasm_value \<Rightarrow> value_stack \<Rightarrow> (wasm_error + unit) \<times> value_stack" where
  "vs_push v d = (if STACK_LIMIT \<le> length d then (Inl StackOverflow, d) else (Inr (), d @ [v]))"

definition vs_pop :: "value_stack \<Rightarrow> (wasm_error + wasm_value) \<times> value_stack" where
  "vs_pop d = (if d = [] then (Inl StackUnderflow, d) else (Inr (last d), butlast d))"

text \<open>A value of another type is popped as well.\<close>

definition vs_pop_i32 :: "value_stack \<Rightarrow> (wasm_error + i32) \<times> value_stack" where
  "vs_pop_i32 d =
     (case vs_pop d of
        (Inl e, d') \<Rightarrow> (Inl e, d')
      | (Inr v, d') \<Rightarrow> (case v of I32 x \<Rightarrow> Inr x | _ \<Rightarrow> Inl TypeMismatch, d'))"

definition vs_pop_i64 :: "value_stack \<Rightarrow> (wasm_error + i64) \<times> value_stack" where
  "vs_pop_i64 d =
     (case vs_pop d of
        (Inl e, d') \<Rightarrow> (Inl e, d')
      | (Inr v, d') \<Rightarrow> (case v of I64 x \<Rightarrow> Inr x | _ \<Rightarrow> Inl TypeMismatch, d'))"

definition vs_peek :: "value_stack \<Rightarrow> wasm_value option" where
  "vs_peek d = (if d = [] then None else Some (last d))"

definition vs_drain_to :: "nat \<Rightarrow> value_stack \<Rightarrow> value_stack" where
  "vs_drain_to new_len d = take new_len d"

lemma vs_push_length: "vs_push v d = (r, d') \<Longrightarrow> length d \<le> STACK_LIMIT \<Longrightarrow> length d' \<le> STACK_LIMIT"
  by (auto simp: vs_push_def split: if_splits)

lemma vs_pop_length: "vs_pop d = (r, d') \<Longrightarrow> length d' \<le> length d"
  by (auto simp: vs_pop_def split: if_splits)

lemma vs_pop_i32_length: "vs_pop_i32 d = (r, d') \<Longrightarrow> length d' \<le> length d"
  by (auto simp: vs_pop_i32_def split: prod.splits sum.splits dest: vs_pop_length)

lemma vs_pop_i64_length: "vs_pop_i64 d = (r, d') \<Longrightarrow> length d' \<le> length d"
  by (auto simp: vs_pop_i64_def split: prod.splits sum.splits dest: vs_pop_length)

section \<open>Frames and configuration\<close>

record call_frame =
  cf_func_idx :: u32
  cf_locals :: "wasm_value list"
  cf_pc :: nat
  cf_code :: "u8 list"
  cf_arity :: nat
  cf_return_pc :: nat
  cf_stack_base :: nat

definition cf_read_u8 :: "call_frame \<Rightarrow> u8 option" where
  "cf_read_u8 f = (if cf_pc f < length (cf_code f) then Some (cf_code f ! cf_pc f) else None)"

record interpreter_config =
  ic_max_call_depth :: u32
  ic_max_gas :: u64
  ic_max_memory_pages :: u32

definition interpreter_config_default :: interpreter_config where
  "interpreter_config_default = \<lparr>ic_max_call_depth = 256, ic_max_gas = 10000000, ic_max_memory_pages = 256\<rparr>"

section \<open>Linear memory\<close>

record linear_memory =
  lm_data :: "u8 list"
  lm_max_pages :: "u32 option"

definition lm_new :: "u32 \<Rightarrow> u32 option \<Rightarrow> linear_memory" where
  "lm_new initial_pages max_pages =
     \<lparr>lm_data = replicate (unat initial_pages * WASM_PAGE_SIZE) 0, lm_max_pages = max_pages\<rparr>"

definition lm_pages :: "linear_memory \<Rightarrow> u32" where
  "lm_pages m = word_of_nat (length (lm_data m) div WASM_PAGE_SIZE)"

text \<open>\<^verbatim>\<open>Vec::resize\<close>.\<close>

definition vec_resize :: "nat \<Rightarrow> 'a \<Rightarrow> 'a list \<Rightarrow> 'a list" where
  "vec_resize n x d = take n d @ replicate (n - length d) x"

definition lm_grow :: "u32 \<Rightarrow> linear_memory \<Rightarrow> u32 \<times> linear_memory" where
  "lm_grow additional_pages m =
     (let current_pages = word_of_nat (length (lm_data m) div WASM_PAGE_SIZE) in
      case checked_add current_pages additional_pages of
        None \<Rightarrow> (- 1, m)
      | Some new_pages \<Rightarrow>
          if (case lm_max_pages m of Some mx \<Rightarrow> mx < new_pages | None \<Rightarrow> False) then (- 1, m)
          else
            (case checked_mul (ucast new_pages :: u64) (word_of_nat WASM_PAGE_SIZE) of
               None \<Rightarrow> (- 1, m)
             | Some new_size \<Rightarrow> (current_pages, m\<lparr>lm_data := vec_resize (unat new_size) 0 (lm_data m)\<rparr>)))"

definition check_access :: "linear_memory \<Rightarrow> u32 \<Rightarrow> nat \<Rightarrow> wasm_error + nat" where
  "check_access m offset sz =
     (if length (lm_data m) < unat offset + sz then Inl MemoryOutOfBounds else Inr (unat offset))"

definition lm_read_u8 :: "linear_memory \<Rightarrow> u32 \<Rightarrow> wasm_error + u8" where
  "lm_read_u8 m offset =
     (case check_access m offset 1 of Inl e \<Rightarrow> Inl e | Inr addr \<Rightarrow> Inr (lm_data m ! addr))"

definition lm_read_u16 :: "linear_memory \<Rightarrow> u32 \<Rightarrow> wasm_error + u16" where
  "lm_read_u16 m offset =
     (case check_access m offset 2 of
        Inl e \<Rightarrow> Inl e
      | Inr addr \<Rightarrow> Inr (of_le_bytes [lm_data m ! addr, lm_data m ! (addr + 1)]))"

definition lm_read_u32 :: "linear_memory \<Rightarrow> u32 \<Rightarrow> wasm_error + u32" where
  "lm_read_u32 m offset =
     (case check_access m offset 4 of
        Inl e \<Rightarrow> Inl e
      | Inr addr \<Rightarrow> Inr (of_le_bytes [lm_data m ! addr, lm_data m ! (addr + 1), lm_data m ! (addr + 2),
          lm_data m ! (addr + 3)]))"

definition lm_read_u64 :: "linear_memory \<Rightarrow> u32 \<Rightarrow> wasm_error + u64" where
  "lm_read_u64 m offset =
     (case check_access m offset 8 of
        Inl e \<Rightarrow> Inl e
      | Inr addr \<Rightarrow> Inr (of_le_bytes [lm_data m ! addr, lm_data m ! (addr + 1), lm_data m ! (addr + 2),
          lm_data m ! (addr + 3), lm_data m ! (addr + 4), lm_data m ! (addr + 5), lm_data m ! (addr + 6),
          lm_data m ! (addr + 7)]))"

definition lm_write_u8 :: "u32 \<Rightarrow> u8 \<Rightarrow> linear_memory \<Rightarrow> (wasm_error + unit) \<times> linear_memory" where
  "lm_write_u8 offset val m =
     (case check_access m offset 1 of
        Inl e \<Rightarrow> (Inl e, m)
      | Inr addr \<Rightarrow> (Inr (), m\<lparr>lm_data := (lm_data m)[addr := val]\<rparr>))"

definition lm_write_u16 :: "u32 \<Rightarrow> u16 \<Rightarrow> linear_memory \<Rightarrow> (wasm_error + unit) \<times> linear_memory" where
  "lm_write_u16 offset val m =
     (case check_access m offset 2 of
        Inl e \<Rightarrow> (Inl e, m)
      | Inr addr \<Rightarrow>
          (let bytes = to_le_bytes 2 val in
           (Inr (), m\<lparr>lm_data := (lm_data m)[addr := bytes ! 0, addr + 1 := bytes ! 1]\<rparr>)))"

definition lm_write_u32 :: "u32 \<Rightarrow> u32 \<Rightarrow> linear_memory \<Rightarrow> (wasm_error + unit) \<times> linear_memory" where
  "lm_write_u32 offset val m =
     (case check_access m offset 4 of
        Inl e \<Rightarrow> (Inl e, m)
      | Inr addr \<Rightarrow> (Inr (), m\<lparr>lm_data := put_slice (lm_data m) addr (to_le_bytes 4 val)\<rparr>))"

definition lm_write_u64 :: "u32 \<Rightarrow> u64 \<Rightarrow> linear_memory \<Rightarrow> (wasm_error + unit) \<times> linear_memory" where
  "lm_write_u64 offset val m =
     (case check_access m offset 8 of
        Inl e \<Rightarrow> (Inl e, m)
      | Inr addr \<Rightarrow> (Inr (), m\<lparr>lm_data := put_slice (lm_data m) addr (to_le_bytes 8 val)\<rparr>))"

text \<open>The slices handed to the WASI functions: the addressed part, and the memory after it is overwritten.\<close>

definition lm_get_slice :: "linear_memory \<Rightarrow> u32 \<Rightarrow> u32 \<Rightarrow> wasm_error + u8 list" where
  "lm_get_slice m offset len =
     (case check_access m offset (unat len) of
        Inl e \<Rightarrow> Inl e
      | Inr addr \<Rightarrow> Inr (take (unat len) (drop addr (lm_data m))))"

definition lm_set_slice :: "u32 \<Rightarrow> u8 list \<Rightarrow> linear_memory \<Rightarrow> (wasm_error + unit) \<times> linear_memory" where
  "lm_set_slice offset bs m =
     (case check_access m offset (length bs) of
        Inl e \<Rightarrow> (Inl e, m)
      | Inr addr \<Rightarrow> (Inr (), m\<lparr>lm_data := put_slice (lm_data m) addr bs\<rparr>))"

section \<open>Memory as a store of bytes\<close>

text \<open>All reads are reads of a number of bytes, all writes replace a range of bytes.\<close>

definition bytes_at :: "linear_memory \<Rightarrow> nat \<Rightarrow> nat \<Rightarrow> u8 list" where
  "bytes_at m addr n = take n (drop addr (lm_data m))"

lemma bytes_at_Cons:
  "addr < length (lm_data m) \<Longrightarrow> bytes_at m addr (Suc n) = lm_data m ! addr # bytes_at m (addr + 1) n"
  by (simp add: bytes_at_def Cons_nth_drop_Suc [symmetric])

lemma bytes_at_0: "bytes_at m addr 0 = []"
  by (simp add: bytes_at_def)

lemma reads_as_bytes:
  "lm_read_u8 m off = (if unat off + 1 \<le> length (lm_data m) then Inr (hd (bytes_at m (unat off) 1)) else Inl MemoryOutOfBounds)"
  "lm_read_u16 m off = (if unat off + 2 \<le> length (lm_data m) then Inr (of_le_bytes (bytes_at m (unat off) 2)) else Inl MemoryOutOfBounds)"
  "lm_read_u32 m off = (if unat off + 4 \<le> length (lm_data m) then Inr (of_le_bytes (bytes_at m (unat off) 4)) else Inl MemoryOutOfBounds)"
  "lm_read_u64 m off = (if unat off + 8 \<le> length (lm_data m) then Inr (of_le_bytes (bytes_at m (unat off) 8)) else Inl MemoryOutOfBounds)"
  by (simp_all add: lm_read_u8_def lm_read_u16_def lm_read_u32_def lm_read_u64_def check_access_def eval_nat_numeral
      bytes_at_Cons bytes_at_0)

lemma update_as_slice:
  "addr < length d \<Longrightarrow> d[addr := x] = put_slice d addr [x]"
  by (simp add: put_slice_def upd_conv_take_nth_drop)

lemma update2_as_slice:
  assumes "addr + 1 < length d"
  shows "d[addr := x, addr + 1 := y] = put_slice d addr [x, y]"
proof -
  have "drop (Suc addr) d = d ! (addr + 1) # drop (addr + 2) d"
    using assms by (simp add: Cons_nth_drop_Suc)
  then show ?thesis
    using assms by (simp add: put_slice_def upd_conv_take_nth_drop [of addr d] list_update_append)
qed

lemma writes_as_slices:
  "lm_write_u8 off v8 m = (if unat off + 1 \<le> length (lm_data m)
     then (Inr (), m\<lparr>lm_data := put_slice (lm_data m) (unat off) [v8]\<rparr>) else (Inl MemoryOutOfBounds, m))"
  "lm_write_u16 off v16 m = (if unat off + 2 \<le> length (lm_data m)
     then (Inr (), m\<lparr>lm_data := put_slice (lm_data m) (unat off) (to_le_bytes 2 v16)\<rparr>) else (Inl MemoryOutOfBounds, m))"
  "lm_write_u32 off v32 m = (if unat off + 4 \<le> length (lm_data m)
     then (Inr (), m\<lparr>lm_data := put_slice (lm_data m) (unat off) (to_le_bytes 4 v32)\<rparr>) else (Inl MemoryOutOfBounds, m))"
  "lm_write_u64 off v64 m = (if unat off + 8 \<le> length (lm_data m)
     then (Inr (), m\<lparr>lm_data := put_slice (lm_data m) (unat off) (to_le_bytes 8 v64)\<rparr>) else (Inl MemoryOutOfBounds, m))"
proof -
  have "to_le_bytes 2 v16 = [to_le_bytes 2 v16 ! 0, to_le_bytes 2 v16 ! 1]"
    by (simp add: to_le_bytes_def eval_nat_numeral)
  then show "lm_write_u16 off v16 m = (if unat off + 2 \<le> length (lm_data m)
     then (Inr (), m\<lparr>lm_data := put_slice (lm_data m) (unat off) (to_le_bytes 2 v16)\<rparr>) else (Inl MemoryOutOfBounds, m))"
    using update2_as_slice [of "unat off" "lm_data m" "to_le_bytes 2 v16 ! 0" "to_le_bytes 2 v16 ! 1"]
    by (simp add: lm_write_u16_def check_access_def Let_def)
qed (simp_all add: lm_write_u8_def lm_write_u32_def lm_write_u64_def check_access_def update_as_slice)

text \<open>The abstract memory, and its reads and writes of a range of bytes.\<close>

type_synonym byte_store = "nat \<rightharpoonup> u8"

definition store_of :: "linear_memory \<Rightarrow> byte_store" where
  "store_of m a = (if a < length (lm_data m) then Some (lm_data m ! a) else None)"

definition st_read :: "byte_store \<Rightarrow> nat \<Rightarrow> nat \<Rightarrow> wasm_error + u8 list" where
  "st_read s a n =
     (if {a ..< a + n} \<subseteq> dom s then Inr (map (\<lambda>i. the (s i)) [a ..< a + n]) else Inl MemoryOutOfBounds)"

definition st_write :: "nat \<Rightarrow> u8 list \<Rightarrow> byte_store \<Rightarrow> (wasm_error + unit) \<times> byte_store" where
  "st_write a bs s =
     (if {a ..< a + length bs} \<subseteq> dom s
      then (Inr (), \<lambda>i. if a \<le> i \<and> i < a + length bs then Some (bs ! (i - a)) else s i)
      else (Inl MemoryOutOfBounds, s))"

lemma dom_store_of: "dom (store_of m) = {..< length (lm_data m)}"
  by (auto simp: store_of_def dom_def)

lemma range_in_store:
  assumes "0 < n"
  shows "{a ..< a + n} \<subseteq> dom (store_of m) \<longleftrightarrow> a + n \<le> length (lm_data m)"
proof
  assume "{a ..< a + n} \<subseteq> dom (store_of m)"
  moreover have "a + n - 1 \<in> {a ..< a + n}" using assms by simp
  ultimately have "a + n - 1 < length (lm_data m)" unfolding dom_store_of by blast
  then show "a + n \<le> length (lm_data m)" by simp
qed (auto simp: dom_store_of)

lemma bytes_at_store:
  "a + n \<le> length (lm_data m) \<Longrightarrow> bytes_at m a n = map (\<lambda>i. the (store_of m i)) [a ..< a + n]"
  by (rule nth_equalityI) (auto simp: bytes_at_def store_of_def)

lemma st_read_bytes:
  "0 < n \<Longrightarrow> st_read (store_of m) a n = (if a + n \<le> length (lm_data m) then Inr (bytes_at m a n) else Inl MemoryOutOfBounds)"
  by (simp add: st_read_def range_in_store bytes_at_store)

lemma store_of_slice:
  assumes "a + length bs \<le> length (lm_data m)"
  shows "store_of (m\<lparr>lm_data := put_slice (lm_data m) a bs\<rparr>)
    = (\<lambda>i. if a \<le> i \<and> i < a + length bs then Some (bs ! (i - a)) else store_of m i)"
  using assms by (auto simp: fun_eq_iff store_of_def put_slice_def nth_append)

lemma st_write_slice:
  "bs \<noteq> [] \<Longrightarrow> st_write a bs (store_of m) =
     (if a + length bs \<le> length (lm_data m)
      then (Inr (), store_of (m\<lparr>lm_data := put_slice (lm_data m) a bs\<rparr>)) else (Inl MemoryOutOfBounds, store_of m))"
  by (simp add: st_write_def range_in_store store_of_slice)

lemma to_le_bytes_ne: "0 < n \<Longrightarrow> to_le_bytes n w \<noteq> []"
  using length_to_le_bytes [of n w] by (metis length_0_conv less_numeral_extra(3))

text \<open>C22: Refinement.  Under the map from a linear memory to its bytes, reads and writes of all four widths
  are reads and writes of a little-endian range of bytes: they succeed exactly when the whole range is in
  the memory, a write changes these bytes only, and a read that follows a write at the same offset returns
  the value written.\<close>
theorem linear_memory_refines:
  "(lm_read_u8 m off = map_sum id hd (st_read (store_of m) (unat off) 1)
    \<and> lm_read_u16 m off = map_sum id of_le_bytes (st_read (store_of m) (unat off) 2)
    \<and> lm_read_u32 m off = map_sum id of_le_bytes (st_read (store_of m) (unat off) 4)
    \<and> lm_read_u64 m off = map_sum id of_le_bytes (st_read (store_of m) (unat off) 8))
   \<and> (map_prod id store_of (lm_write_u8 off v8 m) = st_write (unat off) [v8] (store_of m)
    \<and> map_prod id store_of (lm_write_u16 off v16 m) = st_write (unat off) (to_le_bytes 2 v16) (store_of m)
    \<and> map_prod id store_of (lm_write_u32 off v32 m) = st_write (unat off) (to_le_bytes 4 v32) (store_of m)
    \<and> map_prod id store_of (lm_write_u64 off v64 m) = st_write (unat off) (to_le_bytes 8 v64) (store_of m))
   \<and> (fst (lm_write_u8 off v8 m) = Inr () \<longrightarrow> lm_read_u8 (snd (lm_write_u8 off v8 m)) off = Inr v8)
   \<and> (fst (lm_write_u16 off v16 m) = Inr () \<longrightarrow> lm_read_u16 (snd (lm_write_u16 off v16 m)) off = Inr v16)
   \<and> (fst (lm_write_u32 off v32 m) = Inr () \<longrightarrow> lm_read_u32 (snd (lm_write_u32 off v32 m)) off = Inr v32)
   \<and> (fst (lm_write_u64 off v64 m) = Inr () \<longrightarrow> lm_read_u64 (snd (lm_write_u64 off v64 m)) off = Inr v64)"
proof (intro conjI)
  have b: "bytes_at (m\<lparr>lm_data := put_slice (lm_data m) a bs\<rparr>) a (length bs) = bs"
    if "a + length bs \<le> length (lm_data m)" for a bs
    using that by (simp add: bytes_at_def put_slice_def)
  note wr = writes_as_slices reads_as_bytes length_put_slice
  show "fst (lm_write_u8 off v8 m) = Inr () \<longrightarrow> lm_read_u8 (snd (lm_write_u8 off v8 m)) off = Inr v8"
    using b [of "unat off" "[v8]"] by (simp add: wr)
  show "fst (lm_write_u16 off v16 m) = Inr () \<longrightarrow> lm_read_u16 (snd (lm_write_u16 off v16 m)) off = Inr v16"
    using b [of "unat off" "to_le_bytes 2 v16"] by (simp add: wr of_to_le_bytes)
  show "fst (lm_write_u32 off v32 m) = Inr () \<longrightarrow> lm_read_u32 (snd (lm_write_u32 off v32 m)) off = Inr v32"
    using b [of "unat off" "to_le_bytes 4 v32"] by (simp add: wr of_to_le_bytes)
  show "fst (lm_write_u64 off v64 m) = Inr () \<longrightarrow> lm_read_u64 (snd (lm_write_u64 off v64 m)) off = Inr v64"
    using b [of "unat off" "to_le_bytes 8 v64"] by (simp add: wr of_to_le_bytes)
qed (simp_all add: reads_as_bytes st_read_bytes writes_as_slices st_write_slice to_le_bytes_ne)

theorem linear_memory_refines_witness:
  "lm_read_u32 (snd (lm_write_u32 10 0xDEADBEEF (lm_new 1 None))) 10 = Inr 0xDEADBEEF
   \<and> fst (lm_write_u32 65533 0 (lm_new 1 None)) = Inl MemoryOutOfBounds"
proof -
  have w: "fst (lm_write_u32 10 0xDEADBEEF (lm_new 1 None)) = Inr ()"
    "fst (lm_write_u32 65533 0 (lm_new 1 None)) = Inl MemoryOutOfBounds"
    by (simp_all add: lm_write_u32_def check_access_def lm_new_def WASM_PAGE_SIZE_def)
  then show ?thesis
    using linear_memory_refines [of "lm_new 1 None" 10 0 0 "0xDEADBEEF" 0] by blast
qed

section \<open>Growing\<close>

text \<open>Whole pages, fewer than \<open>2\<^sup>3\<^sup>2\<close>.\<close>

definition lm_ok :: "linear_memory \<Rightarrow> bool" where
  "lm_ok m \<longleftrightarrow> (\<exists>n < 2 ^ 32. length (lm_data m) = n * WASM_PAGE_SIZE)"

lemma lm_ok_new: "lm_ok (lm_new n mx)"
  using unat_bound [of n] by (auto simp: lm_ok_def lm_new_def)

lemma lm_ok_write:
  "lm_ok m \<Longrightarrow> lm_ok (snd (lm_write_u8 off v8 m))" "lm_ok m \<Longrightarrow> lm_ok (snd (lm_write_u16 off v16 m))"
  "lm_ok m \<Longrightarrow> lm_ok (snd (lm_write_u32 off v32 m))" "lm_ok m \<Longrightarrow> lm_ok (snd (lm_write_u64 off v64 m))"
  by (auto simp: lm_ok_def writes_as_slices length_put_slice)

lemma lm_pages_ok:
  assumes "lm_ok m"
  shows "length (lm_data m) = unat (lm_pages m) * WASM_PAGE_SIZE"
proof -
  from assms obtain n where n: "n < 2 ^ 32" "length (lm_data m) = n * WASM_PAGE_SIZE" by (auto simp: lm_ok_def)
  then have "lm_pages m = word_of_nat n" by (simp add: lm_pages_def WASM_PAGE_SIZE_def)
  then show ?thesis using n by (simp add: unat_word_of_nat_small)
qed

lemma lm_grow_cases:
  assumes "lm_ok m"
  obtains "lm_grow k m = (- 1, m)"
      "2 ^ 32 \<le> unat (lm_pages m) + unat k \<or> (\<exists>mx. lm_max_pages m = Some mx \<and> unat mx < unat (lm_pages m) + unat k)"
  | "lm_grow k m = (lm_pages m, m\<lparr>lm_data := lm_data m @ replicate (unat k * WASM_PAGE_SIZE) 0\<rparr>)"
      "unat (lm_pages m) + unat k < 2 ^ 32"
      "\<forall>mx. lm_max_pages m = Some mx \<longrightarrow> unat (lm_pages m) + unat k \<le> unat mx"
proof (cases "unat (lm_pages m) + unat k < 2 ^ 32")
  case True
  let ?n = "lm_pages m + k"
  have s: "unat ?n = unat (lm_pages m) + unat k" using True by (simp add: unat_word_ariths)
  have c: "checked_add (lm_pages m) k = Some ?n" using True by (simp add: checked_add_def)
  have p: "unat (word_of_nat WASM_PAGE_SIZE :: u64) = WASM_PAGE_SIZE" by (simp add: WASM_PAGE_SIZE_def)
  have "unat (ucast ?n :: u64) * WASM_PAGE_SIZE < 2 ^ 64"
    using unat_bound [of ?n] by (simp add: WASM_PAGE_SIZE_def unat_ucast_up)
  then have mul: "checked_mul (ucast ?n :: u64) (word_of_nat WASM_PAGE_SIZE) = Some (ucast ?n * word_of_nat WASM_PAGE_SIZE)"
      "unat ((ucast ?n :: u64) * word_of_nat WASM_PAGE_SIZE) = unat ?n * WASM_PAGE_SIZE"
    by (simp_all add: checked_mul_def p unat_word_ariths unat_ucast_up)
  have r: "vec_resize (unat ?n * WASM_PAGE_SIZE) 0 (lm_data m) = lm_data m @ replicate (unat k * WASM_PAGE_SIZE) 0"
    using lm_pages_ok [OF assms] s by (simp add: vec_resize_def algebra_simps)
  show thesis
  proof (cases "\<exists>mx. lm_max_pages m = Some mx \<and> mx < ?n")
    case True
    then show thesis
      using c s by (intro that(1)) (auto simp: lm_grow_def lm_pages_def [symmetric] word_less_nat_alt)
  next
    case False
    then have "\<not> (case lm_max_pages m of Some mx \<Rightarrow> mx < ?n | None \<Rightarrow> False)" by (simp split: option.split)
    then have "lm_grow k m = (lm_pages m, m\<lparr>lm_data := lm_data m @ replicate (unat k * WASM_PAGE_SIZE) 0\<rparr>)"
      unfolding lm_grow_def lm_pages_def [symmetric] Let_def c option.case mul(1) by (simp only: if_False mul(2) r)
    then show thesis using True s False by (intro that(2)) (auto simp: word_less_nat_alt not_less)
  qed
next
  case False
  then show thesis by (intro that(1)) (simp_all add: lm_grow_def lm_pages_def [symmetric] checked_add_def)
qed

lemma lm_ok_grow:
  assumes "lm_ok m"
  shows "lm_ok (snd (lm_grow k m))"
proof (cases rule: lm_grow_cases [OF assms, of k])
  case 1
  then show ?thesis using assms by simp
next
  case 2
  then show ?thesis
    using lm_pages_ok [OF assms] by (auto simp: lm_ok_def intro!: exI [of _ "unat (lm_pages m) + unat k"] simp: algebra_simps)
qed

lemma lm_grow_limit:
  assumes "lm_ok m" "lm_max_pages m = Some mx"
  shows "length (lm_data (snd (lm_grow k m))) \<le> max (length (lm_data m)) (unat mx * WASM_PAGE_SIZE)"
proof (cases rule: lm_grow_cases [OF assms(1), of k])
  case 2
  then have "(unat (lm_pages m) + unat k) * WASM_PAGE_SIZE \<le> unat mx * WASM_PAGE_SIZE" using assms(2) by simp
  then show ?thesis using 2 lm_pages_ok [OF assms(1)] by (simp add: algebra_simps)
qed simp

end
