(* ===== verification/Wasm_Interp.thy ===== *)
theory Wasm_Interp
  imports Wasm_Module Wasm_Runtime Utf8 "HOL-Library.Signed_Division"
begin

text \<open>
  The WebAssembly interpreter (\<^verbatim>\<open>src/src/kernel/services/wasm/interpreter.rs\<close>).  The state is the struct
  \<^verbatim>\<open>Interpreter\<close>; a method is a function on it that returns its result, an error included, with the new state,
  or panics.  A host function is a number that the argument \<open>run_host\<close> interprets; the closure that does nothing,
  which stands in while a host function runs, is \<open>None\<close>.  \<open>exec_iter\<close> is one round of the main loop of
  \<^verbatim>\<open>execute_call_stack\<close>; the loops that may run forever are partial functions with the result \<open>None\<close> then.
  Vectors that the source fills and never uses are left out.
\<close>

section \<open>State\<close>

record interp =
  it_stack :: value_stack
  it_memory :: "linear_memory option"
  it_call_stack :: "call_frame list"
  it_config :: interpreter_config
  it_gas_used :: u64
  it_exit_code :: i32
  it_module :: wasm_module
  it_host_functions :: "nat option list"
  it_import_func_count :: u32
  it_globals :: "wasm_value list"
  it_tables :: "u32 list list"
  it_named_host_functions :: "u8 list \<times> u8 list \<rightharpoonup> nat"

type_synonym 'a im = "interp \<Rightarrow> ((wasm_error + 'a) \<times> interp) panics"

type_synonym host = "nat \<Rightarrow> unit im"

definition i_ret :: "'a \<Rightarrow> 'a im" where
  "i_ret x s = Ret (Inr x, s)"

definition i_err :: "wasm_error \<Rightarrow> 'a im" where
  "i_err e s = Ret (Inl e, s)"

definition i_bind :: "'a im \<Rightarrow> ('a \<Rightarrow> 'b im) \<Rightarrow> 'b im" where
  "i_bind m f s =
     (case m s of
        Panic \<Rightarrow> Panic
      | Ret (Inl e, s') \<Rightarrow> Ret (Inl e, s')
      | Ret (Inr x, s') \<Rightarrow> f x s')"

text \<open>Operations of the value stack, and of the frame that \<^verbatim>\<open>current_frame_mut\<close> returns.\<close>

definition on_stack :: "(value_stack \<Rightarrow> (wasm_error + 'a) \<times> value_stack) \<Rightarrow> 'a im" where
  "on_stack f s = (case f (it_stack s) of (r, d) \<Rightarrow> Ret (r, s\<lparr>it_stack := d\<rparr>))"

definition current_frame_mut :: "(call_frame \<Rightarrow> (wasm_error + 'a) \<times> call_frame) \<Rightarrow> 'a im" where
  "current_frame_mut f s =
     (if it_call_stack s = [] then Ret (Inl InternalError, s)
      else case f (last (it_call_stack s)) of
             (r, fr) \<Rightarrow> Ret (r, s\<lparr>it_call_stack := butlast (it_call_stack s) @ [fr]\<rparr>))"

definition frame_read :: "(u8 list \<Rightarrow> nat \<Rightarrow> (wasm_error + 'a) \<times> nat) \<Rightarrow> call_frame \<Rightarrow> (wasm_error + 'a) \<times> call_frame" where
  "frame_read r f = (case r (cf_code f) (cf_pc f) of (x, pc) \<Rightarrow> (x, f\<lparr>cf_pc := pc\<rparr>))"

text \<open>\<^verbatim>\<open>frame.pc += 1\<close> and the immediate argument behind the opcode.\<close>

definition first_arg :: "(u8 list \<Rightarrow> nat \<Rightarrow> (wasm_error + 'a) \<times> nat) \<Rightarrow> 'a im" where
  "first_arg r = current_frame_mut (\<lambda>f. frame_read r (f\<lparr>cf_pc := cf_pc f + 1\<rparr>))"

definition next_arg :: "(u8 list \<Rightarrow> nat \<Rightarrow> (wasm_error + 'a) \<times> nat) \<Rightarrow> 'a im" where
  "next_arg r = current_frame_mut (frame_read r)"

definition advance_pc :: "nat \<Rightarrow> unit im" where
  "advance_pc amount s =
     Ret (Inr (), if it_call_stack s = [] then s
       else s\<lparr>it_call_stack := butlast (it_call_stack s)
                @ [(last (it_call_stack s))\<lparr>cf_pc := cf_pc (last (it_call_stack s)) + amount\<rparr>]\<rparr>)"

abbreviation push :: "wasm_value \<Rightarrow> unit im" where
  "push v \<equiv> on_stack (vs_push v)"

abbreviation pop :: "wasm_value im" where
  "pop \<equiv> on_stack vs_pop"

abbreviation pop_i32 :: "i32 im" where
  "pop_i32 \<equiv> on_stack vs_pop_i32"

abbreviation pop_i64 :: "i64 im" where
  "pop_i64 \<equiv> on_stack vs_pop_i64"

section \<open>Functions of the module\<close>

fun import_func_types :: "import_desc list \<Rightarrow> u32 list" where
  "import_func_types [] = []"
| "import_func_types (i # is) =
     (case imp_desc i of ImportFunction t \<Rightarrow> t # import_func_types is | _ \<Rightarrow> import_func_types is)"

definition nth_type :: "interp \<Rightarrow> u32 \<Rightarrow> wasm_error + func_type" where
  "nth_type s type_idx =
     (if unat type_idx < length (wm_types (it_module s)) then Inr (wm_types (it_module s) ! unat type_idx)
      else Inl (BadTypeIndex (unat type_idx)))"

definition get_func_type :: "u32 \<Rightarrow> func_type im" where
  "get_func_type func_idx s =
     Ret (if func_idx < it_import_func_count s then
            (let ts = import_func_types (wm_imports (it_module s)) in
             if unat func_idx < length ts then nth_type s (ts ! unat func_idx)
             else Inl (BadFuncIndex (unat func_idx)))
          else
            (let local_idx = unat (func_idx - it_import_func_count s) in
             if local_idx < length (wm_functions (it_module s))
             then nth_type s (wm_functions (it_module s) ! local_idx)
             else Inl (BadFuncIndex (unat func_idx))), s)"

definition get_func_body :: "u32 \<Rightarrow> function_body im" where
  "get_func_body func_idx s =
     Ret (if func_idx < it_import_func_count s then Inl FunctionNotFound
          else
            (let local_idx = unat (func_idx - it_import_func_count s) in
             if local_idx < length (wm_code (it_module s)) then Inr (wm_code (it_module s) ! local_idx)
             else Inl (BadFuncIndex (unat func_idx))), s)"

definition find_export :: "interp \<Rightarrow> u8 list \<Rightarrow> u32 option" where
  "find_export s name =
     map_option exp_index
       (List.find (\<lambda>e. exp_name e = name \<and> exp_kind e = ExportFunction) (wm_exports (it_module s)))"

definition body_locals :: "function_body \<Rightarrow> wasm_value list" where
  "body_locals b = concat (map (\<lambda>(n, ty). replicate (unat n) (default_for ty)) (fb_locals b))"

section \<open>Host functions\<close>

text \<open>The function is taken out of its slot while it runs and put back afterwards.\<close>

definition call_host :: "host \<Rightarrow> nat \<Rightarrow> unit im" where
  "call_host run_host host_idx s =
     (if host_idx < length (it_host_functions s) then
        (let f = it_host_functions s ! host_idx;
             s1 = s\<lparr>it_host_functions := (it_host_functions s)[host_idx := None]\<rparr> in
         case (case f of None \<Rightarrow> Ret (Inr (), s1) | Some h \<Rightarrow> run_host h s1) of
           Panic \<Rightarrow> Panic
         | Ret (r, s2) \<Rightarrow>
             if host_idx < length (it_host_functions s2)
             then Ret (r, s2\<lparr>it_host_functions := (it_host_functions s2)[host_idx := f]\<rparr>)
             else Panic)
      else Ret (Inr (), s))"

definition register_host_function :: "nat \<Rightarrow> interp \<Rightarrow> interp" where
  "register_host_function f s = s\<lparr>it_host_functions := it_host_functions s @ [Some f]\<rparr>"

definition register_named_host_function :: "u8 list \<Rightarrow> u8 list \<Rightarrow> nat \<Rightarrow> interp \<Rightarrow> interp" where
  "register_named_host_function module name f s =
     s\<lparr>it_host_functions := it_host_functions s @ [Some f],
       it_named_host_functions := (it_named_host_functions s)((module, name) \<mapsto> length (it_host_functions s))\<rparr>"

definition str_bytes :: "string \<Rightarrow> u8 list" where
  "str_bytes cs = map of_char cs"

definition from_utf8_or_empty :: "u8 list \<Rightarrow> u8 list" where
  "from_utf8_or_empty bs = (if utf8_valid bs then bs else [])"

text \<open>\<^verbatim>\<open>slice::swap\<close>.\<close>

definition swap_at :: "nat \<Rightarrow> nat \<Rightarrow> 'a list \<Rightarrow> 'a list" where
  "swap_at i j xs = xs[i := xs ! j, j := xs ! i]"

primrec register_imports :: "import_desc list \<Rightarrow> u32 \<Rightarrow> interp \<Rightarrow> (u32 \<times> interp) panics" where
  "register_imports [] func_idx s = Ret (func_idx, s)"
| "register_imports (i # is) func_idx s =
     (case imp_desc i of
        ImportFunction _ \<Rightarrow>
          (let module_name = from_utf8_or_empty (imp_module i);
               func_name = from_utf8_or_empty (imp_name i) in
           if module_name = str_bytes ''wasi_snapshot_preview1'' then
             (case it_named_host_functions s (module_name, func_name) of
                Some idx \<Rightarrow>
                  (let hs = it_host_functions s;
                       hs' = hs @ replicate (unat func_idx + 1 - length hs) None in
                   if idx < length hs'
                   then register_imports is (func_idx + 1) (s\<lparr>it_host_functions := swap_at (unat func_idx) idx hs'\<rparr>)
                   else Panic)
              | None \<Rightarrow> register_imports is (func_idx + 1) s)
           else register_imports is (func_idx + 1) s)
      | _ \<Rightarrow> register_imports is func_idx s)"

definition auto_register_wasi :: "interp \<Rightarrow> interp panics" where
  "auto_register_wasi s =
     (case register_imports (wm_imports (it_module s)) 0 s of
        Panic \<Rightarrow> Panic
      | Ret (func_idx, s') \<Rightarrow> Ret (s'\<lparr>it_import_func_count := func_idx\<rparr>))"

section \<open>Instantiation\<close>

function eval_init_loop :: "u8 list \<Rightarrow> wasm_value list \<Rightarrow> nat \<Rightarrow> wasm_value list \<Rightarrow> wasm_error + wasm_value" where
  "eval_init_loop expr globals pos mini_stack =
     (if length expr \<le> pos \<or> expr ! pos = 0x0B
      then (if mini_stack = [] then Inl InternalError else Inr (last mini_stack))
      else if expr ! pos = 0x41 then
        (case read_leb128_i32 expr (pos + 1) of
           (Inl e, _) \<Rightarrow> Inl e | (Inr v, pos') \<Rightarrow> eval_init_loop expr globals pos' (mini_stack @ [I32 v]))
      else if expr ! pos = 0x42 then
        (case read_leb128_i64 expr (pos + 1) of
           (Inl e, _) \<Rightarrow> Inl e | (Inr v, pos') \<Rightarrow> eval_init_loop expr globals pos' (mini_stack @ [I64 v]))
      else if expr ! pos = 0x23 then
        (case read_leb128_u32 expr (pos + 1) of
           (Inl e, _) \<Rightarrow> Inl e
         | (Inr idx, pos') \<Rightarrow>
             eval_init_loop expr globals pos'
               (mini_stack @ [if unat idx < length globals then globals ! unat idx else I32 0]))
      else Inl (UnknownOpcode (expr ! pos)))"
  by pat_completeness auto
termination
  by (relation "measure (\<lambda>(expr, globals, pos, mini_stack). length expr - pos)")
     (auto dest!: leb_progress [OF sym])

declare eval_init_loop.simps [simp del]

definition eval_init_expr :: "u8 list \<Rightarrow> wasm_value list \<Rightarrow> wasm_error + wasm_value" where
  "eval_init_expr expr globals = eval_init_loop expr globals 0 []"

text \<open>\<^verbatim>\<open>offset as usize\<close> extends the sign; the sum with the length of the segment is not checked, and the slice
  panics when its start is behind its end.\<close>

definition apply_data_segment :: "wasm_value list \<Rightarrow> data_segment \<Rightarrow> linear_memory option \<Rightarrow> linear_memory option panics" where
  "apply_data_segment globals seg memory =
     (if ds_offset seg = [] then Ret memory
      else case eval_init_expr (ds_offset seg) globals of
             Inr (I32 offset) \<Rightarrow>
               (case memory of
                  None \<Rightarrow> Ret None
                | Some mem \<Rightarrow>
                    (let addr = scast offset :: u64;
                         e = addr + word_of_nat (length (ds_data seg)) in
                     if e \<le> word_of_nat (length (lm_data mem)) then
                       (if addr \<le> e then Ret (Some (mem\<lparr>lm_data := put_slice (lm_data mem) (unat addr) (ds_data seg)\<rparr>))
                        else Panic)
                     else Ret (Some mem)))
           | _ \<Rightarrow> Ret memory)"

primrec apply_data_segments :: "wasm_value list \<Rightarrow> data_segment list \<Rightarrow> linear_memory option \<Rightarrow> linear_memory option panics" where
  "apply_data_segments globals [] memory = Ret memory"
| "apply_data_segments globals (seg # segs) memory =
     panic_bind (apply_data_segment globals seg memory) (apply_data_segments globals segs)"

text \<open>The loop over the function indices; \<^verbatim>\<open>base + i\<close> wraps around.\<close>

primrec fill_table :: "u64 \<Rightarrow> u64 \<Rightarrow> u32 list \<Rightarrow> u32 list \<Rightarrow> u32 list" where
  "fill_table base i [] table = table"
| "fill_table base i (func_idx # rest) table =
     fill_table base (i + 1) rest
       (if unat (base + i) < length table then table[unat (base + i) := func_idx] else table)"

definition apply_element_segment :: "wasm_value list \<Rightarrow> element_segment \<Rightarrow> u32 list list \<Rightarrow> u32 list list" where
  "apply_element_segment globals seg tables =
     (if es_func_indices seg = [] \<or> es_offset seg = [] then tables
      else
        let table_idx = unat (es_table_index seg) in
        if length tables \<le> table_idx then tables
        else case eval_init_expr (es_offset seg) globals of
               Inr (I32 offset) \<Rightarrow>
                 tables[table_idx := fill_table (scast offset) 0 (es_func_indices seg) (tables ! table_idx)]
             | _ \<Rightarrow> tables)"

definition apply_element_segments :: "wasm_value list \<Rightarrow> element_segment list \<Rightarrow> u32 list list \<Rightarrow> u32 list list" where
  "apply_element_segments globals segs tables = foldl (\<lambda>ts seg. apply_element_segment globals seg ts) tables segs"

fun import_globals :: "import_desc list \<Rightarrow> wasm_value list" where
  "import_globals [] = []"
| "import_globals (i # is) =
     (case imp_desc i of ImportGlobal g \<Rightarrow> default_for (gt_content_type g) # import_globals is | _ \<Rightarrow> import_globals is)"

fun import_tables :: "import_desc list \<Rightarrow> u32 list list" where
  "import_tables [] = []"
| "import_tables (i # is) =
     (case imp_desc i of
        ImportTable t \<Rightarrow> replicate (unat (lim_min (tt_limits t))) 0 # import_tables is
      | _ \<Rightarrow> import_tables is)"

fun import_memory :: "import_desc list \<Rightarrow> memory_type option" where
  "import_memory [] = None"
| "import_memory (i # is) = (case imp_desc i of ImportMemory t \<Rightarrow> Some t | _ \<Rightarrow> import_memory is)"

definition cap_max :: "interpreter_config \<Rightarrow> u32 option \<Rightarrow> u32 option" where
  "cap_max config declared =
     Some (case declared of Some d \<Rightarrow> min d (ic_max_memory_pages config) | None \<Rightarrow> ic_max_memory_pages config)"

definition module_memory :: "wasm_module \<Rightarrow> interpreter_config \<Rightarrow> linear_memory option" where
  "module_memory m config =
     (case import_memory (wm_imports m) of
        Some t \<Rightarrow> Some (lm_new (lim_min (mt_limits t)) (cap_max config (lim_max (mt_limits t))))
      | None \<Rightarrow>
          (case wm_memories m of
             [] \<Rightarrow> None
           | t # _ \<Rightarrow> Some (lm_new (lim_min (mt_limits t)) (cap_max config (lim_max (mt_limits t))))))"

text \<open>The globals of the module get the value of their initialiser, one after the other.\<close>

primrec init_globals :: "nat \<Rightarrow> (global_type \<times> u8 list) list \<Rightarrow> wasm_value list \<Rightarrow> wasm_value list" where
  "init_globals i [] globals = globals"
| "init_globals i (g # gs) globals =
     init_globals (i + 1) gs
       (case eval_init_expr (snd g) globals of
          Inr v \<Rightarrow> (if i < length globals then globals[i := v] else globals)
        | Inl _ \<Rightarrow> globals)"

definition interp_new :: "wasm_module \<Rightarrow> interpreter_config \<Rightarrow> interp panics" where
  "interp_new m config =
     (let imported = import_globals (wm_imports m);
          globals0 = imported @ map (\<lambda>(gt, _). default_for (gt_content_type gt)) (wm_globals m);
          globals = init_globals (length imported) (wm_globals m) globals0;
          tables = import_tables (wm_imports m) @ map (\<lambda>t. replicate (unat (lim_min (tt_limits t))) 0) (wm_tables m) in
      panic_bind (apply_data_segments globals (wm_data m) (module_memory m config)) (\<lambda>memory.
        Ret \<lparr>it_stack = [], it_memory = memory, it_call_stack = [], it_config = config, it_gas_used = 0,
             it_exit_code = 0, it_module = m, it_host_functions = [],
             it_import_func_count = word_of_nat (length (import_func_types (wm_imports m))),
             it_globals = globals, it_tables = apply_element_segments globals (wm_elements m) tables,
             it_named_host_functions = (\<lambda>_. None)\<rparr>))"

definition instantiate :: "u8 list \<Rightarrow> interpreter_config \<Rightarrow> (wasm_error + interp) panics" where
  "instantiate bytes config =
     (case parse_wasm bytes of
        Panic \<Rightarrow> Panic
      | Ret (Inl e) \<Rightarrow> Ret (Inl e)
      | Ret (Inr m) \<Rightarrow> panic_bind (interp_new m config) (\<lambda>s. Ret (Inr s)))"

end
