(* ===== verification/Wasm_Exec.thy ===== *)
theory Wasm_Exec
  imports Wasm_Interp
begin

text \<open>
  Execution of \<^verbatim>\<open>src/src/kernel/services/wasm/interpreter.rs\<close>: the instructions, one round of the main loop
  (\<open>exec_iter\<close>), the two loops of \<^verbatim>\<open>execute_call_stack\<close> and the entry points \<^verbatim>\<open>call_func\<close> and \<^verbatim>\<open>call\<close>.
\<close>

section \<open>Control\<close>

definition execute_end :: "unit im" where
  "execute_end s =
     (if it_call_stack s = [] then Ret (Inl InternalError, s)
      else
        let frame = last (it_call_stack s);
            s1 = s\<lparr>it_call_stack := butlast (it_call_stack s)\<rparr> in
        if cf_arity frame = 1
        then current_frame_mut (\<lambda>f. (Inr (), f\<lparr>cf_stack_base := length (it_stack s1)\<rparr>)) s1
        else Ret (Inr (), s1))"

text \<open>Frames are popped, from the top, up to and including the first one without results.\<close>

primrec return_frames :: "call_frame list \<Rightarrow> call_frame list" where
  "return_frames [] = []"
| "return_frames (f # fs) = (if cf_arity f = 0 then fs else return_frames fs)"

definition execute_return :: "unit im" where
  "execute_return s = Ret (Inr (), s\<lparr>it_call_stack := rev (return_frames (rev (it_call_stack s)))\<rparr>)"

function skip_loop :: "u8 list \<Rightarrow> nat \<Rightarrow> nat \<Rightarrow> nat" where
  "skip_loop code pc depth =
     (if pc < length code \<and> 0 < depth then
        let b = code ! pc in
        if b = 0x02 \<or> b = 0x03 \<or> b = 0x04 then skip_loop code (pc + 1) (depth + 1)
        else if b = 0x0B then skip_loop code (pc + 1) (depth - 1)
        else if b = 0x10 then skip_loop code (pc + 2) depth
        else if b = 0x11 then skip_loop code (pc + 3) depth
        else skip_loop code (pc + 1) depth
      else pc)"
  by pat_completeness auto
termination
  by (relation "measure (\<lambda>(code, pc, depth). length code - pc)") auto

definition skip_block :: "u8 list \<Rightarrow> nat \<Rightarrow> nat" where
  "skip_block code pc = skip_loop code pc 1"

definition skip_to_end :: "u8 list \<Rightarrow> nat \<Rightarrow> nat" where
  "skip_to_end code pc = skip_loop code pc 1"

function skip_else_loop :: "u8 list \<Rightarrow> nat \<Rightarrow> nat \<Rightarrow> nat" where
  "skip_else_loop code pc depth =
     (if pc < length code \<and> 0 < depth then
        let b = code ! pc in
        if b = 0x02 \<or> b = 0x03 \<or> b = 0x04 then skip_else_loop code (pc + 1) (depth + 1)
        else if b = 0x0B then (if depth = 1 then pc + 1 else skip_else_loop code (pc + 1) (depth - 1))
        else if b = 0x05 then (if depth = 1 then pc + 1 else skip_else_loop code (pc + 1) depth)
        else if b = 0x10 then skip_else_loop code (pc + 2) depth
        else if b = 0x11 then skip_else_loop code (pc + 3) depth
        else skip_else_loop code (pc + 1) depth
      else pc)"
  by pat_completeness auto
termination
  by (relation "measure (\<lambda>(code, pc, depth). length code - pc)") auto

definition skip_to_else_or_end :: "u8 list \<Rightarrow> nat \<Rightarrow> nat" where
  "skip_to_else_or_end code pc = skip_else_loop code pc 1"

declare skip_loop.simps [simp del] skip_else_loop.simps [simp del]

text \<open>The byte behind the opcode is read without a check.\<close>

definition if_frame :: "i32 \<Rightarrow> call_frame \<Rightarrow> call_frame panics" where
  "if_frame cond f =
     (let pc = cf_pc f + 1 in
      if pc < length (cf_code f) then
        (let b = cf_code f ! pc in
         if cond = 0 then
           (if b = 0x40 then Ret (f\<lparr>cf_pc := skip_block (cf_code f) (pc + 1)\<rparr>)
            else Ret (f\<lparr>cf_pc := skip_to_else_or_end (cf_code f) pc\<rparr>))
         else Ret (f\<lparr>cf_pc := pc + 1\<rparr>))
      else Panic)"

definition execute_if :: "unit im" where
  "execute_if =
     i_bind pop_i32 (\<lambda>cond s.
       if it_call_stack s = [] then Ret (Inl InternalError, s)
       else case if_frame cond (last (it_call_stack s)) of
              Panic \<Rightarrow> Panic
            | Ret f \<Rightarrow> Ret (Inr (), s\<lparr>it_call_stack := butlast (it_call_stack s) @ [f]\<rparr>))"

definition execute_else :: "unit im" where
  "execute_else = current_frame_mut (\<lambda>f. (Inr (), f\<lparr>cf_pc := skip_to_end (cf_code f) (cf_pc f)\<rparr>))"

definition unwind_to :: "nat \<Rightarrow> unit im" where
  "unwind_to depth s =
     Ret (Inr (), s\<lparr>it_call_stack := take (length (it_call_stack s) - (depth + 1)) (it_call_stack s)\<rparr>)"

definition execute_br :: "unit im" where
  "execute_br = i_bind (first_arg read_leb128_u32) (\<lambda>depth. unwind_to (unat depth))"

definition execute_br_if :: "unit im" where
  "execute_br_if =
     i_bind pop_i32 (\<lambda>cond.
     i_bind (first_arg read_leb128_u32) (\<lambda>depth.
     if cond \<noteq> 0 then unwind_to (unat depth) else i_ret ()))"

primrec read_targets :: "nat \<Rightarrow> u32 list im" where
  "read_targets 0 = i_ret []"
| "read_targets (Suc n) =
     i_bind (next_arg read_leb128_u32) (\<lambda>t. i_bind (read_targets n) (\<lambda>ts. i_ret (t # ts)))"

definition execute_br_table :: "unit im" where
  "execute_br_table =
     i_bind pop_i32 (\<lambda>index.
     i_bind (first_arg read_leb128_u32) (\<lambda>n.
     i_bind (read_targets (unat n)) (\<lambda>targets.
     i_bind (next_arg read_leb128_u32) (\<lambda>dflt.
     unwind_to (unat (if 0 \<le>s index \<and> unat index < unat n then targets ! unat index else dflt))))))"

section \<open>Calls\<close>

text \<open>The arguments, with the wrap-around of \<^verbatim>\<open>stack_len - param_count + i\<close>.\<close>

definition call_args :: "nat \<Rightarrow> value_stack \<Rightarrow> wasm_value list" where
  "call_args param_count d =
     map (\<lambda>i. let idx = unat (word_of_nat (length d) - word_of_nat param_count + word_of_nat i :: u64) in
              if idx < length d then d ! idx else I32 0) [0 ..< param_count]"

definition drain_args :: "nat \<Rightarrow> unit im" where
  "drain_args param_count s =
     Ret (Inr (), s\<lparr>it_stack := vs_drain_to (unat (word_of_nat (length (it_stack s)) - word_of_nat param_count :: u64))
                                 (it_stack s)\<rparr>)"

primrec push_all :: "wasm_value list \<Rightarrow> unit im" where
  "push_all [] = i_ret ()"
| "push_all (v # vs) = i_bind (push v) (\<lambda>_. push_all vs)"

definition push_frame :: "u32 \<Rightarrow> func_type \<Rightarrow> wasm_value list \<Rightarrow> unit im" where
  "push_frame func_idx func_type args =
     i_bind (get_func_body func_idx) (\<lambda>body s.
       Ret (Inr (), s\<lparr>it_call_stack := it_call_stack s @
         [\<lparr>cf_func_idx = func_idx, cf_locals = args @ body_locals body, cf_pc = 0, cf_code = fb_code body,
           cf_arity = length (ft_results func_type), cf_return_pc = 0, cf_stack_base = length (it_stack s)\<rparr>]\<rparr>))"

definition execute_call :: "host \<Rightarrow> unit im" where
  "execute_call run_host =
     i_bind (first_arg read_leb128_u32) (\<lambda>func_idx.
     i_bind (get_func_type func_idx) (\<lambda>func_type s.
       let args = call_args (length (ft_params func_type)) (it_stack s) in
       i_bind (drain_args (length (ft_params func_type))) (\<lambda>_ s.
         if func_idx < it_import_func_count s then
           i_bind (push_all args) (\<lambda>_.
           i_bind (call_host run_host (unat func_idx)) (\<lambda>_.
           if length (ft_results func_type) \<le> 1 then i_ret ()
           else push_frame func_idx func_type args)) s
         else push_frame func_idx func_type args s) s))"

section \<open>Variables and constants\<close>

definition execute_local_get :: "unit im" where
  "execute_local_get =
     i_bind (current_frame_mut (\<lambda>f.
       case frame_read read_leb128_u32 (f\<lparr>cf_pc := cf_pc f + 1\<rparr>) of
         (Inl e, f') \<Rightarrow> (Inl e, f')
       | (Inr idx, f') \<Rightarrow>
           (Inr (if unat idx < length (cf_locals f') then cf_locals f' ! unat idx else I32 0), f')))
     push"

definition set_local :: "wasm_value \<Rightarrow> unit im" where
  "set_local val =
     current_frame_mut (\<lambda>f.
       case frame_read read_leb128_u32 (f\<lparr>cf_pc := cf_pc f + 1\<rparr>) of
         (Inl e, f') \<Rightarrow> (Inl e, f')
       | (Inr idx, f') \<Rightarrow> (Inr (), f'\<lparr>cf_locals := (cf_locals f')[unat idx := val]\<rparr>))"

definition execute_local_set :: "unit im" where
  "execute_local_set = i_bind pop set_local"

definition execute_local_tee :: "unit im" where
  "execute_local_tee s =
     (case vs_peek (it_stack s) of None \<Rightarrow> Ret (Inl StackUnderflow, s) | Some val \<Rightarrow> set_local val s)"

definition execute_global_get :: "unit im" where
  "execute_global_get =
     i_bind (first_arg read_leb128_u32) (\<lambda>idx s.
       push (if unat idx < length (it_globals s) then it_globals s ! unat idx else I32 0) s)"

definition execute_global_set :: "unit im" where
  "execute_global_set =
     i_bind pop (\<lambda>val.
     i_bind (first_arg read_leb128_u32) (\<lambda>idx s.
       Ret (Inr (), s\<lparr>it_globals := (it_globals s)[unat idx := val]\<rparr>)))"

definition execute_i32_const :: "unit im" where
  "execute_i32_const = i_bind (first_arg read_leb128_i32) (\<lambda>v. push (I32 v))"

definition execute_i64_const :: "unit im" where
  "execute_i64_const = i_bind (first_arg read_leb128_i64) (\<lambda>v. push (I64 v))"

section \<open>Arithmetic\<close>

definition i32_from_bool :: "bool \<Rightarrow> i32" where
  "i32_from_bool b = (if b then 1 else 0)"

definition execute_i32_unop :: "(i32 \<Rightarrow> i32) \<Rightarrow> unit im" where
  "execute_i32_unop f =
     i_bind (advance_pc 1) (\<lambda>_. i_bind pop_i32 (\<lambda>a. push (I32 (f a))))"

definition execute_i32_binop :: "(i32 \<Rightarrow> i32 \<Rightarrow> i32) \<Rightarrow> unit im" where
  "execute_i32_binop f =
     i_bind (advance_pc 1) (\<lambda>_. i_bind pop_i32 (\<lambda>b. i_bind pop_i32 (\<lambda>a. push (I32 (f a b)))))"

definition execute_i64_binop :: "(i64 \<Rightarrow> i64 \<Rightarrow> i64) \<Rightarrow> unit im" where
  "execute_i64_binop f =
     i_bind (advance_pc 1) (\<lambda>_. i_bind pop_i64 (\<lambda>b. i_bind pop_i64 (\<lambda>a. push (I64 (f a b)))))"

text \<open>Division of signed words, rounded towards zero.\<close>

definition wrapping_div :: "'a::len word \<Rightarrow> 'a word \<Rightarrow> 'a word" where
  "wrapping_div a b = word_of_int (sint a sdiv sint b)"

definition wrapping_rem :: "'a::len word \<Rightarrow> 'a word \<Rightarrow> 'a word" where
  "wrapping_rem a b = word_of_int (sint a smod sint b)"

definition i32_MIN :: i32 where
  "i32_MIN = 0x80000000"

definition i64_MIN :: i64 where
  "i64_MIN = 0x8000000000000000"

definition i32_division :: "(i32 \<Rightarrow> i32 \<Rightarrow> bool) \<Rightarrow> (i32 \<Rightarrow> i32 \<Rightarrow> i32) \<Rightarrow> unit im" where
  "i32_division overflows f =
     i_bind (advance_pc 1) (\<lambda>_. i_bind pop_i32 (\<lambda>b. i_bind pop_i32 (\<lambda>a.
       if b = 0 then i_err DivisionByZero
       else if overflows a b then i_err IntegerOverflow
       else push (I32 (f a b)))))"

definition execute_i32_div_s :: "unit im" where
  "execute_i32_div_s = i32_division (\<lambda>a b. a = i32_MIN \<and> b = - 1) wrapping_div"

definition execute_i32_div_u :: "unit im" where
  "execute_i32_div_u = i32_division (\<lambda>a b. False) (\<lambda>a b. a div b)"

definition execute_i32_rem_s :: "unit im" where
  "execute_i32_rem_s = i32_division (\<lambda>a b. a = i32_MIN \<and> b = - 1) wrapping_rem"

definition execute_i32_rem_u :: "unit im" where
  "execute_i32_rem_u = i32_division (\<lambda>a b. False) (\<lambda>a b. a mod b)"

definition execute_i64_div_s :: "unit im" where
  "execute_i64_div_s =
     i_bind (advance_pc 1) (\<lambda>_. i_bind pop_i64 (\<lambda>b. i_bind pop_i64 (\<lambda>a.
       if b = 0 then i_err DivisionByZero
       else if a = i64_MIN \<and> b = - 1 then i_err IntegerOverflow
       else push (I64 (wrapping_div a b)))))"

section \<open>Memory\<close>

text \<open>Alignment and offset behind the opcode.\<close>

definition mem_args :: "u32 im" where
  "mem_args = i_bind (first_arg read_leb128_u32) (\<lambda>align. next_arg read_leb128_u32)"

definition with_memory :: "u32 \<Rightarrow> u32 \<Rightarrow> (linear_memory \<Rightarrow> u32 \<Rightarrow> (wasm_error + 'a) \<times> linear_memory) \<Rightarrow> 'a im" where
  "with_memory base mem_offset f s =
     (case checked_add base mem_offset of
        None \<Rightarrow> Ret (Inl MemoryOutOfBounds, s)
      | Some addr \<Rightarrow>
          (case it_memory s of
             None \<Rightarrow> Ret (Inl MemoryOutOfBounds, s)
           | Some mem \<Rightarrow> (case f mem addr of (r, mem') \<Rightarrow> Ret (r, s\<lparr>it_memory := Some mem'\<rparr>))))"

definition load_value :: "(linear_memory \<Rightarrow> u32 \<Rightarrow> wasm_error + wasm_value) \<Rightarrow> unit im" where
  "load_value rd =
     i_bind mem_args (\<lambda>mem_offset.
     i_bind pop_i32 (\<lambda>base.
     i_bind (with_memory base mem_offset (\<lambda>mem addr. (rd mem addr, mem))) push))"

definition execute_memory_load :: "unit im" where
  "execute_memory_load = load_value (\<lambda>mem addr. map_sum id I32 (lm_read_u32 mem addr))"

definition execute_memory_load_64 :: "unit im" where
  "execute_memory_load_64 = load_value (\<lambda>mem addr. map_sum id I64 (lm_read_u64 mem addr))"

definition execute_memory_load_ext :: "nat \<Rightarrow> bool \<Rightarrow> unit im" where
  "execute_memory_load_ext sz is_signed =
     load_value (\<lambda>mem addr.
       if sz = 1 then map_sum id (\<lambda>v. I32 (if is_signed then scast v else ucast v)) (lm_read_u8 mem addr)
       else if sz = 2 then map_sum id (\<lambda>v. I32 (if is_signed then scast v else ucast v)) (lm_read_u16 mem addr)
       else Inl InternalError)"

definition execute_memory_store :: "unit im" where
  "execute_memory_store =
     i_bind mem_args (\<lambda>mem_offset.
     i_bind pop_i32 (\<lambda>val.
     i_bind pop_i32 (\<lambda>base.
     with_memory base mem_offset (\<lambda>mem addr. lm_write_u32 addr val mem))))"

definition execute_memory_store_64 :: "unit im" where
  "execute_memory_store_64 =
     i_bind mem_args (\<lambda>mem_offset.
     i_bind pop_i64 (\<lambda>val.
     i_bind pop_i32 (\<lambda>base.
     with_memory base mem_offset (\<lambda>mem addr. lm_write_u64 addr val mem))))"

definition execute_memory_store_n :: "nat \<Rightarrow> unit im" where
  "execute_memory_store_n sz =
     i_bind mem_args (\<lambda>mem_offset.
     i_bind pop_i32 (\<lambda>val.
     i_bind pop_i32 (\<lambda>base.
     with_memory base mem_offset (\<lambda>mem addr.
       if sz = 1 then lm_write_u8 addr (ucast val) mem
       else if sz = 2 then lm_write_u16 addr (ucast val) mem
       else (Inl InternalError, mem)))))"

definition memory_size :: "unit im" where
  "memory_size =
     i_bind (advance_pc 1) (\<lambda>_ s.
       push (I32 (case it_memory s of Some mem \<Rightarrow> lm_pages mem | None \<Rightarrow> 0)) s)"

definition memory_grow :: "unit im" where
  "memory_grow =
     i_bind (advance_pc 1) (\<lambda>_.
     i_bind pop_i32 (\<lambda>pages s.
       case it_memory s of
         Some mem \<Rightarrow> (case lm_grow pages mem of (r, mem') \<Rightarrow> push (I32 r) (s\<lparr>it_memory := Some mem'\<rparr>))
       | None \<Rightarrow> push (I32 (- 1)) s))"

section \<open>The main loop\<close>

text \<open>The match on the opcode.  The result says whether \<^verbatim>\<open>execute_call_stack\<close> returns.\<close>

definition continue :: "unit im \<Rightarrow> bool im" where
  "continue m = i_bind m (\<lambda>_. i_ret False)"

definition return_if_empty :: "unit im \<Rightarrow> bool im" where
  "return_if_empty m = i_bind m (\<lambda>_ s. Ret (Inr (it_call_stack s = []), s))"

definition execute_select :: "unit im" where
  "execute_select =
     i_bind (advance_pc 1) (\<lambda>_.
     i_bind pop_i32 (\<lambda>cond.
     i_bind pop (\<lambda>val2.
     i_bind pop (\<lambda>val1. push (if cond \<noteq> 0 then val1 else val2)))))"

primrec exec_ctrl :: "host \<Rightarrow> ctrl_op \<Rightarrow> bool im" where
  "exec_ctrl rh OpUnreachable = i_err Unreachable"
| "exec_ctrl rh OpNop = continue (advance_pc 1)"
| "exec_ctrl rh OpBlock = continue (advance_pc 1)"
| "exec_ctrl rh OpLoop = continue (advance_pc 1)"
| "exec_ctrl rh OpIf = continue execute_if"
| "exec_ctrl rh OpElse = continue execute_else"
| "exec_ctrl rh OpEnd = return_if_empty execute_end"
| "exec_ctrl rh OpBr = continue execute_br"
| "exec_ctrl rh OpBrIf = continue execute_br_if"
| "exec_ctrl rh OpBrTable = continue execute_br_table"
| "exec_ctrl rh OpReturn = return_if_empty execute_return"
| "exec_ctrl rh OpCall = continue (execute_call rh)"
| "exec_ctrl rh OpCallIndirect = i_err Unreachable"
| "exec_ctrl rh OpDrop = continue (i_bind (advance_pc 1) (\<lambda>_. i_bind pop (\<lambda>_. i_ret ())))"
| "exec_ctrl rh OpSelect = continue execute_select"
| "exec_ctrl rh OpLocalGet = continue execute_local_get"
| "exec_ctrl rh OpLocalSet = continue execute_local_set"
| "exec_ctrl rh OpLocalTee = continue execute_local_tee"
| "exec_ctrl rh OpGlobalGet = continue execute_global_get"
| "exec_ctrl rh OpGlobalSet = continue execute_global_set"

definition exec_mem :: "u8 \<Rightarrow> mem_op \<Rightarrow> unit im" where
  "exec_mem opcode op =
     (case op of
        OpI32Load \<Rightarrow> execute_memory_load
      | OpI64Load \<Rightarrow> execute_memory_load_64
      | OpI32Load8S \<Rightarrow> execute_memory_load_ext 1 True
      | OpI32Load8U \<Rightarrow> execute_memory_load_ext 1 False
      | OpI32Load16S \<Rightarrow> execute_memory_load_ext 2 True
      | OpI32Load16U \<Rightarrow> execute_memory_load_ext 2 False
      | OpI32Store \<Rightarrow> execute_memory_store
      | OpI64Store \<Rightarrow> execute_memory_store_64
      | OpI32Store8 \<Rightarrow> execute_memory_store_n 1
      | OpI32Store16 \<Rightarrow> execute_memory_store_n 2
      | OpMemorySize \<Rightarrow> memory_size
      | OpMemoryGrow \<Rightarrow> memory_grow
      | _ \<Rightarrow> i_err (UnknownOpcode opcode))"

definition exec_num32 :: "u8 \<Rightarrow> num32_op \<Rightarrow> unit im" where
  "exec_num32 opcode op =
     (case op of
        OpI32Const \<Rightarrow> execute_i32_const
      | OpI32Eqz \<Rightarrow> execute_i32_unop (\<lambda>a. i32_from_bool (a = 0))
      | OpI32Eq \<Rightarrow> execute_i32_binop (\<lambda>a b. i32_from_bool (a = b))
      | OpI32Ne \<Rightarrow> execute_i32_binop (\<lambda>a b. i32_from_bool (a \<noteq> b))
      | OpI32LtS \<Rightarrow> execute_i32_binop (\<lambda>a b. i32_from_bool (a <s b))
      | OpI32LtU \<Rightarrow> execute_i32_binop (\<lambda>a b. i32_from_bool (a < b))
      | OpI32GtS \<Rightarrow> execute_i32_binop (\<lambda>a b. i32_from_bool (b <s a))
      | OpI32GtU \<Rightarrow> execute_i32_binop (\<lambda>a b. i32_from_bool (b < a))
      | OpI32LeS \<Rightarrow> execute_i32_binop (\<lambda>a b. i32_from_bool (a \<le>s b))
      | OpI32LeU \<Rightarrow> execute_i32_binop (\<lambda>a b. i32_from_bool (a \<le> b))
      | OpI32GeS \<Rightarrow> execute_i32_binop (\<lambda>a b. i32_from_bool (b \<le>s a))
      | OpI32GeU \<Rightarrow> execute_i32_binop (\<lambda>a b. i32_from_bool (b \<le> a))
      | OpI32Add \<Rightarrow> execute_i32_binop (\<lambda>a b. a + b)
      | OpI32Sub \<Rightarrow> execute_i32_binop (\<lambda>a b. a - b)
      | OpI32Mul \<Rightarrow> execute_i32_binop (\<lambda>a b. a * b)
      | OpI32DivS \<Rightarrow> execute_i32_div_s
      | OpI32DivU \<Rightarrow> execute_i32_div_u
      | OpI32RemS \<Rightarrow> execute_i32_rem_s
      | OpI32RemU \<Rightarrow> execute_i32_rem_u
      | OpI32And \<Rightarrow> execute_i32_binop (\<lambda>a b. a AND b)
      | OpI32Or \<Rightarrow> execute_i32_binop (\<lambda>a b. a OR b)
      | OpI32Xor \<Rightarrow> execute_i32_binop (\<lambda>a b. a XOR b)
      | OpI32Shl \<Rightarrow> execute_i32_binop (\<lambda>a b. push_bit (unat b mod 32) a)
      | OpI32ShrS \<Rightarrow> execute_i32_binop (\<lambda>a b. signed_drop_bit (unat b mod 32) a)
      | OpI32ShrU \<Rightarrow> execute_i32_binop (\<lambda>a b. drop_bit (unat b mod 32) a)
      | _ \<Rightarrow> i_err (UnknownOpcode opcode))"

definition exec_num64 :: "u8 \<Rightarrow> num64_op \<Rightarrow> unit im" where
  "exec_num64 opcode op =
     (case op of
        OpI64Const \<Rightarrow> execute_i64_const
      | OpI64Add \<Rightarrow> execute_i64_binop (\<lambda>a b. a + b)
      | OpI64Sub \<Rightarrow> execute_i64_binop (\<lambda>a b. a - b)
      | OpI64Mul \<Rightarrow> execute_i64_binop (\<lambda>a b. a * b)
      | OpI64DivS \<Rightarrow> execute_i64_div_s
      | OpI64And \<Rightarrow> execute_i64_binop (\<lambda>a b. a AND b)
      | OpI64Or \<Rightarrow> execute_i64_binop (\<lambda>a b. a OR b)
      | _ \<Rightarrow> i_err (UnknownOpcode opcode))"

primrec exec_op :: "host \<Rightarrow> u8 \<Rightarrow> opcode \<Rightarrow> bool im" where
  "exec_op rh opcode (Ctrl op) = exec_ctrl rh op"
| "exec_op rh opcode (Mem op) = continue (exec_mem opcode op)"
| "exec_op rh opcode (Num32 op) = continue (exec_num32 opcode op)"
| "exec_op rh opcode (Num64 op) = continue (exec_num64 opcode op)"

text \<open>One round of the loop, for a call stack that is not empty.\<close>

definition exec_iter :: "host \<Rightarrow> bool im" where
  "exec_iter rh s =
     (let frame = last (it_call_stack s) in
      if length (cf_code frame) \<le> cf_pc frame
      then Ret (Inr False, s\<lparr>it_call_stack := butlast (it_call_stack s)\<rparr>)
      else
        let opcode = cf_code frame ! cf_pc frame;
            s1 = s\<lparr>it_gas_used := it_gas_used s + 1\<rparr> in
        if ic_max_gas (it_config s1) < it_gas_used s1 then Ret (Inl GasExhausted, s1)
        else case opcode_from_byte opcode of
               None \<Rightarrow> Ret (Inl (UnknownOpcode opcode), s1)
             | Some op \<Rightarrow> exec_op rh opcode op s1)"

partial_function (option) exec_loop :: "host \<Rightarrow> interp \<Rightarrow> ((wasm_error + unit) \<times> interp) panics option" where
  "exec_loop rh s =
     (if it_call_stack s = [] then Some (Ret (Inr (), s))
      else case exec_iter rh s of
             Panic \<Rightarrow> Some Panic
           | Ret (r, s') \<Rightarrow>
               (case r of
                  Inl e \<Rightarrow> Some (Ret (Inl e, s'))
                | Inr ret \<Rightarrow> if ret then Some (Ret (Inr (), s')) else exec_loop rh s'))"

text \<open>The loop before it looks at the same frame over and over.\<close>

partial_function (option) idle_loop :: "interp \<Rightarrow> unit option" where
  "idle_loop s =
     (if it_call_stack s = [] then Some ()
      else if length (cf_code (last (it_call_stack s))) \<le> cf_pc (last (it_call_stack s)) then Some ()
      else idle_loop s)"

definition execute_call_stack :: "host \<Rightarrow> interp \<Rightarrow> ((wasm_error + unit) \<times> interp) panics option" where
  "execute_call_stack rh s = Option.bind (idle_loop s) (\<lambda>_. exec_loop rh s)"

declare exec_loop.simps [code] idle_loop.simps [code]

section \<open>Entry points\<close>

definition call_import :: "host \<Rightarrow> u32 \<Rightarrow> wasm_value list \<Rightarrow> wasm_value option im" where
  "call_import rh func_idx args =
     i_bind (get_func_type func_idx) (\<lambda>func_type.
     i_bind (push_all (take (length (ft_params func_type)) args)) (\<lambda>_.
     i_bind (call_host rh (unat func_idx)) (\<lambda>_.
     if length (ft_results func_type) = 1 then i_bind pop (\<lambda>v. i_ret (Some v)) else i_ret None)))"

text \<open>The parameters are zeros overwritten by the arguments that were passed.\<close>

definition entry_frame :: "u32 \<Rightarrow> func_type \<Rightarrow> function_body \<Rightarrow> wasm_value list \<Rightarrow> nat \<Rightarrow> call_frame" where
  "entry_frame func_idx func_type body args stack_base =
     (let n = length (ft_params func_type) in
      \<lparr>cf_func_idx = func_idx,
       cf_locals = take n args @ replicate (n - length args) (I32 0) @ body_locals body,
       cf_pc = 0, cf_code = fb_code body, cf_arity = length (ft_results func_type), cf_return_pc = 0,
       cf_stack_base = stack_base\<rparr>)"

definition finish_call :: "func_type \<Rightarrow> nat \<Rightarrow> wasm_value option im" where
  "finish_call func_type stack_base s =
     (if it_call_stack s = [] then Ret (Inr None, s)
      else
        let s1 = s\<lparr>it_call_stack := butlast (it_call_stack s)\<rparr> in
        if length (ft_results func_type) = 1 \<and> 1 \<le> (word_of_nat (length (it_stack s1)) - word_of_nat stack_base :: u64)
        then i_bind pop (\<lambda>v s2. Ret (Inr (Some v), s2\<lparr>it_stack := vs_drain_to stack_base (it_stack s2)\<rparr>)) s1
        else Ret (Inr None, s1\<lparr>it_stack := vs_drain_to stack_base (it_stack s1)\<rparr>))"

definition call_func ::
  "host \<Rightarrow> u32 \<Rightarrow> wasm_value list \<Rightarrow> interp \<Rightarrow> ((wasm_error + wasm_value option) \<times> interp) panics option" where
  "call_func rh func_idx args s =
     (if func_idx < it_import_func_count s then Some (call_import rh func_idx args s)
      else
        case i_bind (get_func_type func_idx) (\<lambda>ft. i_bind (get_func_body func_idx) (\<lambda>body. i_ret (ft, body))) s of
          Panic \<Rightarrow> Some Panic
        | Ret (Inl e, s') \<Rightarrow> Some (Ret (Inl e, s'))
        | Ret (Inr (func_type, body), s') \<Rightarrow>
            if ic_max_call_depth (it_config s') \<le> word_of_nat (length (it_call_stack s'))
            then Some (Ret (Inl CallDepthExceeded, s'))
            else
              let base = length (it_stack s');
                  frame = entry_frame func_idx func_type body args base in
              case execute_call_stack rh (s'\<lparr>it_call_stack := it_call_stack s' @ [frame]\<rparr>) of
                None \<Rightarrow> None
              | Some Panic \<Rightarrow> Some Panic
              | Some (Ret (Inl e, s2)) \<Rightarrow> Some (Ret (Inl e, s2))
              | Some (Ret (Inr _, s2)) \<Rightarrow> Some (finish_call func_type base s2))"

definition interp_call ::
  "host \<Rightarrow> u8 list \<Rightarrow> wasm_value list \<Rightarrow> interp \<Rightarrow> ((wasm_error + wasm_value option) \<times> interp) panics option" where
  "interp_call rh name args s =
     (case find_export s name of
        None \<Rightarrow> Some (Ret (Inl BadExport, s))
      | Some func_idx \<Rightarrow> call_func rh func_idx args s)"

end
