(* ===== verification/Wasm_Codec.thy ===== *)
theory Wasm_Codec
  imports Wasm_Module
begin

text \<open>
  The WebAssembly binary format as an encoder of modules, \<open>enc_module\<close>, and the proof that the decoder of
  \<open>Wasm_Module\<close> inverts it.  \<open>parses e p bs x\<close> says that the parser \<open>p\<close>, started on the bytes \<open>bs\<close> at any place
  of any input that ends them before the position \<open>e\<close>, reads exactly them and returns \<open>x\<close>; it is closed under
  the ways parsers are built.
\<close>

section \<open>The binary format\<close>

definition enc_u32 :: "u32 \<Rightarrow> u8 list" where
  "enc_u32 n = uleb (uint n)"

definition enc_vec :: "('a \<Rightarrow> u8 list) \<Rightarrow> 'a list \<Rightarrow> u8 list" where
  "enc_vec enc xs = enc_u32 (word_of_nat (length xs)) @ concat (map enc xs)"

definition enc_byte :: "u8 \<Rightarrow> u8 list" where
  "enc_byte b = [b]"

primrec enc_value_type :: "value_type \<Rightarrow> u8 list" where
  "enc_value_type TI32 = [0x7F]"
| "enc_value_type TI64 = [0x7E]"
| "enc_value_type TF32 = [0x7D]"
| "enc_value_type TF64 = [0x7C]"

definition enc_limits :: "limits \<Rightarrow> u8 list" where
  "enc_limits l = (case lim_max l of
     None \<Rightarrow> [0x00] @ enc_u32 (lim_min l)
   | Some mx \<Rightarrow> [0x01] @ enc_u32 (lim_min l) @ enc_u32 mx)"

definition enc_func_type :: "func_type \<Rightarrow> u8 list" where
  "enc_func_type t = [0x60] @ enc_vec enc_value_type (ft_params t) @ enc_vec enc_value_type (ft_results t)"

definition enc_table_type :: "table_type \<Rightarrow> u8 list" where
  "enc_table_type t = enc_value_type (tt_element_type t) @ enc_limits (tt_limits t)"

definition enc_memory_type :: "memory_type \<Rightarrow> u8 list" where
  "enc_memory_type t = enc_limits (mt_limits t)"

definition enc_global_type :: "global_type \<Rightarrow> u8 list" where
  "enc_global_type g = enc_value_type (gt_content_type g) @ [if gt_mutable g then 1 else 0]"

primrec enc_import_kind :: "import_kind \<Rightarrow> u8 list" where
  "enc_import_kind (ImportFunction i) = [0x00] @ enc_u32 i"
| "enc_import_kind (ImportTable t) = [0x01] @ enc_table_type t"
| "enc_import_kind (ImportMemory t) = [0x02] @ enc_memory_type t"
| "enc_import_kind (ImportGlobal g) = [0x03] @ enc_global_type g"

definition enc_import :: "import_desc \<Rightarrow> u8 list" where
  "enc_import i = enc_vec enc_byte (imp_module i) @ enc_vec enc_byte (imp_name i) @ enc_import_kind (imp_desc i)"

definition enc_global :: "global_type \<times> u8 list \<Rightarrow> u8 list" where
  "enc_global g = enc_global_type (fst g) @ snd g"

primrec enc_export_kind :: "export_kind \<Rightarrow> u8 list" where
  "enc_export_kind ExportFunction = [0]"
| "enc_export_kind ExportTable = [1]"
| "enc_export_kind ExportMemory = [2]"
| "enc_export_kind ExportGlobal = [3]"

definition enc_export :: "export_desc \<Rightarrow> u8 list" where
  "enc_export x = enc_vec enc_byte (exp_name x) @ enc_export_kind (exp_kind x) @ enc_u32 (exp_index x)"

definition enc_element :: "element_segment \<Rightarrow> u8 list" where
  "enc_element s = enc_u32 (es_table_index s) @ es_offset s @ enc_vec enc_u32 (es_func_indices s)"

definition enc_local :: "u32 \<times> value_type \<Rightarrow> u8 list" where
  "enc_local l = enc_u32 (fst l) @ enc_value_type (snd l)"

definition enc_body_contents :: "function_body \<Rightarrow> u8 list" where
  "enc_body_contents b = enc_vec enc_local (fb_locals b) @ fb_code b"

definition enc_body :: "function_body \<Rightarrow> u8 list" where
  "enc_body b = enc_vec enc_byte (enc_body_contents b)"

definition enc_data :: "data_segment \<Rightarrow> u8 list" where
  "enc_data d = enc_u32 (ds_memory_index d) @ ds_offset d @ enc_vec enc_byte (ds_data d)"

definition enc_section :: "u8 \<Rightarrow> u8 list \<Rightarrow> u8 list" where
  "enc_section i payload = [i] @ enc_vec enc_byte payload"

text \<open>The sections of a module with their contents, in the order of their ids.\<close>

definition module_sections :: "wasm_module \<Rightarrow> (u8 \<times> u8 list) list" where
  "module_sections m =
     [(SECTION_TYPE, enc_vec enc_func_type (wm_types m)),
      (SECTION_IMPORT, enc_vec enc_import (wm_imports m)),
      (SECTION_FUNCTION, enc_vec enc_u32 (wm_functions m)),
      (SECTION_TABLE, enc_vec enc_table_type (wm_tables m)),
      (SECTION_MEMORY, enc_vec enc_memory_type (wm_memories m)),
      (SECTION_GLOBAL, enc_vec enc_global (wm_globals m)),
      (SECTION_EXPORT, enc_vec enc_export (wm_exports m))]
     @ (case wm_start_section m of None \<Rightarrow> [] | Some i \<Rightarrow> [(SECTION_START, enc_u32 i)])
     @ [(SECTION_ELEMENT, enc_vec enc_element (wm_elements m)),
        (SECTION_CODE, enc_vec enc_body (wm_code m)),
        (SECTION_DATA, enc_vec enc_data (wm_data m))]"

definition enc_header :: "u8 list" where
  "enc_header = to_le_bytes 4 WASM_MAGIC @ to_le_bytes 4 WASM_VERSION"

definition enc_module :: "wasm_module \<Rightarrow> u8 list" where
  "enc_module m = enc_header @ concat (map (\<lambda>(i, payload). enc_section i payload) (module_sections m))"

text \<open>Initialiser expressions: constants and reads of globals, then \<open>end\<close>.\<close>

datatype init_instr = InitI32 i32 | InitI64 i64 | InitGlobal u32

primrec enc_init_instr :: "init_instr \<Rightarrow> u8 list" where
  "enc_init_instr (InitI32 v) = [0x41] @ sleb (sint v)"
| "enc_init_instr (InitI64 v) = [0x42] @ sleb (sint v)"
| "enc_init_instr (InitGlobal i) = [0x23] @ enc_u32 i"

definition init_expr :: "u8 list \<Rightarrow> bool" where
  "init_expr e \<longleftrightarrow> (\<exists>is. e = concat (map enc_init_instr is) @ [0x0B])"

text \<open>What the format demands of a module: lengths fit in 32 bits, initialisers are expressions.\<close>

definition small :: "'a list \<Rightarrow> bool" where
  "small xs \<longleftrightarrow> length xs < 2 ^ 32"

definition wf_module :: "wasm_module \<Rightarrow> bool" where
  "wf_module m \<longleftrightarrow>
     (small (wm_types m) \<and> (\<forall>t \<in> set (wm_types m). small (ft_params t) \<and> small (ft_results t))) \<and>
     (small (wm_imports m) \<and> (\<forall>i \<in> set (wm_imports m). small (imp_module i) \<and> small (imp_name i))) \<and>
     small (wm_functions m) \<and> small (wm_tables m) \<and> small (wm_memories m) \<and>
     (small (wm_globals m) \<and> (\<forall>g \<in> set (wm_globals m). init_expr (snd g))) \<and>
     (small (wm_exports m) \<and> (\<forall>x \<in> set (wm_exports m). small (exp_name x))) \<and>
     (small (wm_elements m) \<and> (\<forall>s \<in> set (wm_elements m). init_expr (es_offset s) \<and> small (es_func_indices s))) \<and>
     (small (wm_code m) \<and> (\<forall>b \<in> set (wm_code m). small (fb_locals b) \<and> small (enc_body_contents b))) \<and>
     (small (wm_data m) \<and> (\<forall>d \<in> set (wm_data m). init_expr (ds_offset d) \<and> small (ds_data d))) \<and>
     (\<forall>(i, payload) \<in> set (module_sections m). small payload)"

section \<open>Reading what was written\<close>

definition parses :: "nat \<Rightarrow> 'a parser \<Rightarrow> u8 list \<Rightarrow> 'a \<Rightarrow> bool" where
  "parses e p bs x \<longleftrightarrow> (\<forall>pre post. length pre + length bs \<le> e \<longrightarrow>
     p (pre @ bs @ post) (length pre) = Ret (Inr (x, length pre + length bs)))"

lemma parsesD:
  "parses e p bs x \<Longrightarrow> length pre + length bs \<le> e \<Longrightarrow>
   p (pre @ bs @ post) (length pre) = Ret (Inr (x, length pre + length bs))"
  by (simp add: parses_def)

named_theorems parser_reads "parsers read what the encoder writes"

lemma parses_ret [parser_reads]: "parses e (p_ret x) [] x"
  by (simp add: parses_def p_ret_def)

lemma parses_bind [parser_reads]:
  assumes "parses e m b1 x" "parses e (f x) b2 y"
  shows "parses e (p_bind m f) (b1 @ b2) y"
  unfolding parses_def
proof (intro allI impI)
  fix pre post :: "u8 list"
  assume len: "length pre + length (b1 @ b2) \<le> e"
  have "m (pre @ b1 @ (b2 @ post)) (length pre) = Ret (Inr (x, length pre + length b1))"
    by (rule parsesD [OF assms(1)]) (use len in simp)
  moreover have "f x ((pre @ b1) @ b2 @ post) (length (pre @ b1)) = Ret (Inr (y, length (pre @ b1) + length b2))"
    by (rule parsesD [OF assms(2)]) (use len in simp)
  ultimately show "p_bind m f (pre @ (b1 @ b2) @ post) (length pre) = Ret (Inr (y, length pre + length (b1 @ b2)))"
    by (simp add: p_bind_def add.assoc)
qed

text \<open>The last parser of a chain reads nothing more.\<close>

lemma parses_bind_ret [parser_reads]:
  "parses e m bs x \<Longrightarrow> y = f x \<Longrightarrow> parses e (p_bind m (\<lambda>x. p_ret (f x))) bs y"
  using parses_bind [of e m bs x "\<lambda>x. p_ret (f x)" "[]" y] by (simp add: parses_ret)

lemma parses_byte [parser_reads]: "parses e p_byte [b] b"
  by (simp add: parses_def p_byte_def nth_append)

lemma parses_u32 [parser_reads]: "parses e p_u32 (enc_u32 n) n"
proof -
  have "0 \<le> uint n" "uint n < 2 ^ 32" using unsigned_less [of n] by simp_all
  then have "read_leb128_u32 (pre @ uleb (uint n) @ post) (length pre) = (Inr n, length pre + length (uleb (uint n)))"
    for pre post
    unfolding read_leb128_u32_def
    by (subst leb_u32_loop_uleb [where x = "uint n"]) (simp_all add: bits_read_0)
  then show ?thesis by (simp add: parses_def p_u32_def p_lift_def enc_u32_def)
qed

lemma parses_repeat:
  "(\<And>x. x \<in> set xs \<Longrightarrow> parses e p (enc x) x) \<Longrightarrow> parses e (p_repeat (length xs) p) (concat (map enc xs)) xs"
proof (induction xs)
  case (Cons x xs)
  have "parses e p (enc x) x" by (rule Cons.prems) simp
  moreover have "parses e (p_bind (p_repeat (length xs) p) (\<lambda>xs. p_ret (x # xs))) (concat (map enc xs)) (x # xs)"
    by (rule parses_bind_ret [OF Cons.IH]) (use Cons.prems in auto)
  ultimately show ?case by (simp add: parses_bind)
qed (simp add: parses_ret)

lemma parses_vec:
  assumes "small xs" "\<And>x. x \<in> set xs \<Longrightarrow> parses e p (enc x) x"
  shows "parses e (p_vec p) (enc_vec enc xs) xs"
proof -
  have "unat (word_of_nat (length xs) :: u32) = length xs"
    using assms(1) by (simp add: small_def unat_word_of_nat_small)
  then show ?thesis
    unfolding p_vec_def enc_vec_def
    using parses_repeat [of xs e p enc, OF assms(2)]
    by (intro parses_bind [OF parses_u32]) simp
qed

lemma concat_enc_byte [simp]: "concat (map enc_byte bs) = bs"
  by (induction bs) (simp_all add: enc_byte_def)

lemma parses_name [parser_reads]:
  assumes "small bs"
  shows "parses e p_name (enc_vec enc_byte bs) bs"
  unfolding parses_def
proof (intro allI impI)
  fix pre post :: "u8 list"
  assume len: "length pre + length (enc_vec enc_byte bs) \<le> e"
  let ?n = "word_of_nat (length bs) :: u32"
  have n: "unat ?n = length bs" using assms by (simp add: small_def unat_word_of_nat_small)
  have "p_u32 (pre @ enc_u32 ?n @ bs @ post) (length pre) = Ret (Inr (?n, length pre + length (enc_u32 ?n)))"
    by (rule parsesD [OF parses_u32]) (rule order_refl)
  then have "read_leb128_u32 (pre @ enc_u32 ?n @ bs @ post) (length pre) = (Inr ?n, length pre + length (enc_u32 ?n))"
    by (auto simp: p_u32_def p_lift_def split: prod.splits sum.splits)
  then show "p_name (pre @ enc_vec enc_byte bs @ post) (length pre)
      = Ret (Inr (bs, length pre + length (enc_vec enc_byte bs)))"
    by (simp add: p_name_def p_lift_def read_name_def enc_vec_def n add.assoc)
qed

lemma parses_value_type [parser_reads]: "parses e (p_value_type err) (enc_value_type ty) ty"
  unfolding p_value_type_def
  by (cases ty) (auto simp: parses_def p_bind_def p_byte_def nth_append value_type_from_byte_def p_ret_def)

lemma parses_prefix:
  "parses e (f b) bs y \<Longrightarrow> parses e (p_bind p_byte f) ([b] @ bs) y"
  by (rule parses_bind [OF parses_byte])

lemma parses_limits [parser_reads]: "parses e parse_limits (enc_limits l) l"
proof (cases "lim_max l")
  case None
  then show ?thesis
    unfolding parse_limits_def enc_limits_def None option.case
    using None by (intro parses_prefix) (auto intro!: parses_bind_ret parses_u32 limits.equality)
next
  case (Some mx)
  then show ?thesis
    unfolding parse_limits_def enc_limits_def Some option.case
    using Some
    by (intro parses_prefix parses_bind [OF parses_u32]) (auto intro!: parses_bind_ret parses_u32 limits.equality)
qed

lemma parses_type_entry:
  assumes "small (ft_params t)" "small (ft_results t)"
  shows "parses e (parse_type_entry e) (enc_func_type t) t"
proof -
  have v: "parses e (p_vec (p_value_type InvalidVersion)) (enc_vec enc_value_type (ft_params t)) (ft_params t)"
    "parses e (p_vec (p_value_type InvalidVersion)) (enc_vec enc_value_type (ft_results t)) (ft_results t)"
    using assms by (auto intro!: parses_vec parser_reads)
  have "parses e (p_bind p_byte (\<lambda>b.
        if b \<noteq> 0x60 then p_fail InternalError
        else p_bind (p_vec (p_value_type InvalidVersion)) (\<lambda>params.
             p_bind (p_vec (p_value_type InvalidVersion)) (\<lambda>results.
             p_ret \<lparr>ft_params = params, ft_results = results\<rparr>)))) (enc_func_type t) t"
    unfolding enc_func_type_def
    by (rule parses_prefix) (auto intro!: parses_bind [OF v(1)] parses_bind_ret [OF v(2)])
  then show ?thesis
    by (auto simp: parses_def parse_type_entry_def enc_func_type_def)
qed

lemma parses_global_type [parser_reads]: "parses e (parse_global_type err) (enc_global_type g) g"
  unfolding parse_global_type_def enc_global_type_def
  by (auto intro!: parses_bind [OF parses_value_type] parses_bind_ret [OF parses_byte])

lemma parses_table_type [parser_reads]:
  "parses e (p_bind (p_value_type err) (\<lambda>ty. p_bind parse_limits (\<lambda>l. p_ret \<lparr>tt_element_type = ty, tt_limits = l\<rparr>)))
     (enc_table_type t) t"
  unfolding enc_table_type_def
  by (auto intro!: parses_bind [OF parses_value_type] parses_bind_ret [OF parses_limits])

lemma parses_memory_type [parser_reads]:
  "parses e (p_bind parse_limits (\<lambda>l. p_ret \<lparr>mt_limits = l\<rparr>)) (enc_memory_type t) t"
  unfolding enc_memory_type_def by (auto intro!: parses_bind_ret [OF parses_limits])

lemma parses_import_kind [parser_reads]: "parses e parse_import_kind (enc_import_kind k) k"
proof (cases k)
  case (ImportFunction i)
  then show ?thesis
    unfolding parse_import_kind_def ImportFunction enc_import_kind.simps
    by (intro parses_prefix) (auto intro!: parses_bind_ret parses_u32)
next
  case (ImportTable t)
  have "parses e (p_bind (p_value_type BadImport) (\<lambda>ty. p_bind parse_limits
      (\<lambda>l. p_ret (ImportTable \<lparr>tt_element_type = ty, tt_limits = l\<rparr>)))) (enc_table_type t) (ImportTable t)"
    unfolding enc_table_type_def
    by (auto intro!: parses_bind [OF parses_value_type] parses_bind_ret [OF parses_limits])
  then show ?thesis
    unfolding parse_import_kind_def ImportTable enc_import_kind.simps by (intro parses_prefix) simp
next
  case (ImportMemory t)
  have "parses e (p_bind parse_limits (\<lambda>l. p_ret (ImportMemory \<lparr>mt_limits = l\<rparr>))) (enc_memory_type t) (ImportMemory t)"
    unfolding enc_memory_type_def by (auto intro!: parses_bind_ret [OF parses_limits])
  then show ?thesis
    unfolding parse_import_kind_def ImportMemory enc_import_kind.simps by (intro parses_prefix) simp
next
  case (ImportGlobal g)
  have "parses e (p_bind (parse_global_type BadImport) (\<lambda>g. p_ret (ImportGlobal g))) (enc_global_type g) (ImportGlobal g)"
    by (auto intro!: parses_bind_ret [OF parses_global_type])
  then show ?thesis
    unfolding parse_import_kind_def ImportGlobal enc_import_kind.simps by (intro parses_prefix) simp
qed

lemma parses_export_kind [parser_reads]: "parses e parse_export_kind (enc_export_kind k) k"
  unfolding parse_export_kind_def
  by (cases k) (auto intro!: parses_prefix [where bs = "[]", simplified] parses_ret)

lemma read_init_expr_enc:
  "read_init_expr (pre @ concat (map enc_init_instr is) @ [0x0B] @ post) (length pre)
   = Inr (length pre + length (concat (map enc_init_instr is)) + 1)"
proof (induction "is" arbitrary: pre)
  case Nil
  show ?case by (subst read_init_expr.simps) (simp add: nth_append)
next
  case (Cons i "is")
  let ?rest = "concat (map enc_init_instr is) @ [0x0B] @ post"
  have IH: "read_init_expr (pre @ enc_init_instr i @ ?rest) (length pre + length (enc_init_instr i))
    = Inr (length pre + length (enc_init_instr i) + length (concat (map enc_init_instr is)) + 1)"
    using Cons.IH [of "pre @ enc_init_instr i"] by simp
  have i32: "read_leb128_i32 ((pre @ [b]) @ sleb (sint v) @ ?rest) (length (pre @ [b]))
      = (Inr v, length (pre @ [b]) + length (sleb (sint v)))" for b v
    unfolding read_leb128_i32_def by (rule leb_signed_loop_sint)
  have i64: "read_leb128_i64 ((pre @ [b]) @ sleb (sint v) @ ?rest) (length (pre @ [b]))
      = (Inr v, length (pre @ [b]) + length (sleb (sint v)))" for b v
    unfolding read_leb128_i64_def by (rule leb_signed_loop_sint)
  have u32: "read_leb128_u32 ((pre @ [b]) @ enc_u32 n @ ?rest) (length (pre @ [b]))
      = (Inr n, length (pre @ [b]) + length (enc_u32 n))" for b n
    using parsesD [OF parses_u32 order_refl, of "pre @ [b]" n ?rest]
    by (auto simp: p_u32_def p_lift_def split: prod.splits sum.splits)
  have "read_init_expr (pre @ enc_init_instr i @ ?rest) (length pre)
    = read_init_expr (pre @ enc_init_instr i @ ?rest) (length pre + length (enc_init_instr i))"
    using i32 i64 u32 by (cases i; subst read_init_expr.simps) (simp_all add: nth_append)
  then show ?case using IH by simp
qed

lemma parses_init_expr [parser_reads]: "init_expr bs \<Longrightarrow> parses e read_init_expr_bytes bs bs"
  unfolding parses_def init_expr_def
  using read_init_expr_enc by (fastforce simp: read_init_expr_bytes_def)

lemma parses_body:
  assumes "small (fb_locals b)" "small (enc_body_contents b)"
  shows "parses e parse_body (enc_body b) b"
  unfolding parses_def
proof (intro allI impI)
  fix pre post :: "u8 list"
  define n :: u32 where "n = word_of_nat (length (enc_body_contents b))"
  let ?l = "enc_vec enc_local (fb_locals b)" and ?p = "pre @ enc_u32 n"
  have n: "unat n = length ?l + length (fb_code b)"
    using assms(2) unfolding n_def small_def
    by (subst unat_word_of_nat_small) (simp_all add: enc_body_contents_def)
  have enc: "enc_body b = enc_u32 n @ ?l @ fb_code b"
    by (simp add: enc_body_def enc_vec_def [of enc_byte] n_def enc_body_contents_def)
  have size: "p_u32 (pre @ enc_u32 n @ ?l @ fb_code b @ post) (length pre) = Ret (Inr (n, length ?p))"
    using parsesD [OF parses_u32 order_refl, of pre n] by simp
  have l: "parses e' parse_local (enc_local l) l" for e' l
    unfolding parse_local_def enc_local_def
    by (auto intro!: parses_bind [OF parses_u32] parses_bind_ret [OF parses_value_type])
  have locals: "p_vec parse_local (?p @ ?l @ fb_code b @ post) (length ?p) = Ret (Inr (fb_locals b, length ?p + length ?l))"
    using parsesD [OF parses_vec [OF assms(1) l] order_refl, of ?p] by simp
  show "parse_body (pre @ enc_body b @ post) (length pre) = Ret (Inr (b, length pre + length (enc_body b)))"
    using size locals by (simp add: parse_body_def enc p_bind_def n body_slice_def add.assoc)
qed

lemma parses_data_slice: "parses e (data_slice (length bs)) bs bs"
  by (simp add: parses_def data_slice_def)

lemma parses_data:
  assumes "init_expr (ds_offset d)" "small (ds_data d)"
  shows "parses e (p_bind p_u32 (\<lambda>memory_index. p_bind read_init_expr_bytes (\<lambda>offset. p_bind p_u32 (\<lambda>data_len.
      p_bind (data_slice (unat data_len)) (\<lambda>data.
      p_ret \<lparr>ds_memory_index = memory_index, ds_offset = offset, ds_data = data\<rparr>))))) (enc_data d) d"
proof -
  have "unat (word_of_nat (length (ds_data d)) :: u32) = length (ds_data d)"
    using assms(2) by (simp add: small_def unat_word_of_nat_small)
  then show ?thesis
    unfolding enc_data_def enc_vec_def concat_enc_byte
    by (intro parses_bind [OF parses_u32] parses_bind [OF parses_init_expr [OF assms(1)]])
       (auto intro!: parses_bind_ret parses_data_slice)
qed

section \<open>Sections and modules\<close>

text \<open>\<open>reads m secs m'\<close>: reading the sections one after the other takes the module from \<open>m\<close> to \<open>m'\<close>.\<close>

inductive reads :: "wasm_module \<Rightarrow> (u8 \<times> u8 list) list \<Rightarrow> wasm_module \<Rightarrow> bool" where
  reads_Nil: "reads m [] m"
| reads_Cons: "small payload \<Longrightarrow>
    (\<And>pre post. parse_section i (length pre + length payload) m (pre @ payload @ post) (length pre)
       = Ret (Inr (m1, length pre + length payload))) \<Longrightarrow>
    reads m1 secs m' \<Longrightarrow> reads m ((i, payload) # secs) m'"

lemma reads_parses:
  "small payload \<Longrightarrow> (\<And>e. parses e (parse_section i e m) payload m1) \<Longrightarrow> reads m1 secs m' \<Longrightarrow>
   reads m ((i, payload) # secs) m'"
  by (rule reads_Cons) (auto intro: parsesD)

lemma parse_one_section_reads:
  assumes "small payload"
    and "\<And>pre post. parse_section i (length pre + length payload) m (pre @ payload @ post) (length pre)
       = Ret (Inr (m1, length pre + length payload))"
  shows "parse_one_section m (pre @ enc_section i payload @ post) (length pre)
    = Ret (Inr (m1, length pre + length (enc_section i payload)))"
proof -
  let ?n = "word_of_nat (length payload) :: u32" and ?p = "(pre @ [i]) @ enc_u32 (word_of_nat (length payload))"
  have n: "unat ?n = length payload" using assms(1) by (simp add: small_def unat_word_of_nat_small)
  have "p_u32 (pre @ [i] @ enc_u32 ?n @ payload @ post) (Suc (length pre)) = Ret (Inr (?n, length ?p))"
    using parsesD [OF parses_u32 order_refl, of "pre @ [i]" ?n] by simp
  moreover have "parse_section i (length ?p + length payload) m (?p @ payload @ post) (length ?p)
      = Ret (Inr (m1, length ?p + length payload))"
    by (rule assms(2))
  ultimately show ?thesis
    by (simp add: parse_one_section_def p_bind_def p_byte_def nth_append enc_section_def enc_vec_def n add.assoc)
qed

lemma parse_sections_reads:
  "reads m secs m' \<Longrightarrow> parse_sections (pre @ concat (map (\<lambda>(i, payload). enc_section i payload) secs)) (length pre) m
   = Ret (Inr m')"
proof (induction arbitrary: pre rule: reads.induct)
  case (reads_Nil m)
  then show ?case by (simp add: parse_sections.simps)
next
  case (reads_Cons payload i m m1 secs m')
  let ?rest = "concat (map (\<lambda>(i, payload). enc_section i payload) secs)"
  have "parse_one_section m (pre @ enc_section i payload @ ?rest) (length pre)
    = Ret (Inr (m1, length (pre @ enc_section i payload)))"
    using parse_one_section_reads [OF reads_Cons.hyps(1,2)] by simp
  moreover have "0 < length (enc_section i payload)" by (simp add: enc_section_def)
  ultimately show ?case
    using reads_Cons.IH [of "pre @ enc_section i payload"] by (subst parse_sections.simps) simp
qed

lemma parses_map:
  "parses e p bs x \<Longrightarrow> m' = f x \<Longrightarrow> parses e (p_bind p (\<lambda>x. p_ret (f x))) bs m'"
  by (rule parses_bind_ret)

lemma section_types:
  "small (wm_types w) \<Longrightarrow> \<forall>t \<in> set (wm_types w). small (ft_params t) \<and> small (ft_results t) \<Longrightarrow>
   parses e (parse_section SECTION_TYPE e m) (enc_vec enc_func_type (wm_types w)) (m\<lparr>wm_types := wm_types w\<rparr>)"
  by (auto simp: parse_section_def parse_type_section_def section_ids intro!: parses_map parses_vec parses_type_entry)

lemma section_imports:
  assumes "small (wm_imports w)" "\<forall>i \<in> set (wm_imports w). small (imp_module i) \<and> small (imp_name i)"
  shows "parses e (parse_section SECTION_IMPORT e m) (enc_vec enc_import (wm_imports w)) (m\<lparr>wm_imports := wm_imports w\<rparr>)"
proof -
  have "parses e (p_bind p_name (\<lambda>module. p_bind p_name (\<lambda>name. p_bind parse_import_kind (\<lambda>desc.
      p_ret \<lparr>imp_module = module, imp_name = name, imp_desc = desc\<rparr>)))) (enc_import i) i"
    if "i \<in> set (wm_imports w)" for i
    unfolding enc_import_def using that assms(2)
    by (auto intro!: parses_bind [OF parses_name] parses_bind_ret [OF parses_import_kind])
  then show ?thesis
    using assms(1) by (auto simp: parse_section_def parse_import_section_def section_ids intro!: parses_map parses_vec)
qed

lemma section_plain:
  "small (wm_functions w) \<Longrightarrow>
     parses e (parse_section SECTION_FUNCTION e m) (enc_vec enc_u32 (wm_functions w)) (m\<lparr>wm_functions := wm_functions w\<rparr>)"
  "small (wm_tables w) \<Longrightarrow>
     parses e (parse_section SECTION_TABLE e m) (enc_vec enc_table_type (wm_tables w)) (m\<lparr>wm_tables := wm_tables w\<rparr>)"
  "small (wm_memories w) \<Longrightarrow>
     parses e (parse_section SECTION_MEMORY e m) (enc_vec enc_memory_type (wm_memories w)) (m\<lparr>wm_memories := wm_memories w\<rparr>)"
  "parses e (parse_section SECTION_START e m) (enc_u32 i) (m\<lparr>wm_start_section := Some i\<rparr>)"
  by (auto simp: parse_section_def parse_function_section_def parse_table_section_def parse_memory_section_def
      section_ids intro!: parses_map parses_vec parses_u32 parses_table_type parses_memory_type)

lemma section_globals:
  assumes "small (wm_globals w)" "\<forall>g \<in> set (wm_globals w). init_expr (snd g)"
  shows "parses e (parse_section SECTION_GLOBAL e m) (enc_vec enc_global (wm_globals w)) (m\<lparr>wm_globals := wm_globals w\<rparr>)"
proof -
  have "parses e (p_bind (parse_global_type InvalidVersion) (\<lambda>g. p_bind read_init_expr_bytes (\<lambda>init_expr. p_ret (g, init_expr))))
      (enc_global g) g" if "g \<in> set (wm_globals w)" for g
    unfolding enc_global_def using that assms(2)
    by (auto intro!: parses_bind [OF parses_global_type] parses_bind_ret [OF parses_init_expr])
  then show ?thesis
    using assms(1) by (auto simp: parse_section_def parse_global_section_def section_ids intro!: parses_map parses_vec)
qed

lemma section_exports:
  assumes "small (wm_exports w)" "\<forall>x \<in> set (wm_exports w). small (exp_name x)"
  shows "parses e (parse_section SECTION_EXPORT e m) (enc_vec enc_export (wm_exports w)) (m\<lparr>wm_exports := wm_exports w\<rparr>)"
proof -
  have "parses e (p_bind p_name (\<lambda>name. p_bind parse_export_kind (\<lambda>kind. p_bind p_u32 (\<lambda>index.
      p_ret \<lparr>exp_name = name, exp_kind = kind, exp_index = index\<rparr>)))) (enc_export x) x"
    if "x \<in> set (wm_exports w)" for x
    unfolding enc_export_def using that assms(2)
    by (auto intro!: parses_bind [OF parses_name] parses_bind [OF parses_export_kind] parses_bind_ret [OF parses_u32])
  then show ?thesis
    using assms(1) by (auto simp: parse_section_def parse_export_section_def section_ids intro!: parses_map parses_vec)
qed

lemma section_elements:
  assumes "small (wm_elements w)" "\<forall>s \<in> set (wm_elements w). init_expr (es_offset s) \<and> small (es_func_indices s)"
  shows "parses e (parse_section SECTION_ELEMENT e m) (enc_vec enc_element (wm_elements w)) (m\<lparr>wm_elements := wm_elements w\<rparr>)"
proof -
  have "parses e (p_bind p_u32 (\<lambda>table_index. p_bind read_init_expr_bytes (\<lambda>offset. p_bind (p_vec p_u32) (\<lambda>func_indices.
      p_ret \<lparr>es_table_index = table_index, es_offset = offset, es_func_indices = func_indices\<rparr>)))) (enc_element s) s"
    if "s \<in> set (wm_elements w)" for s
    unfolding enc_element_def using that assms(2)
    by (auto intro!: parses_bind [OF parses_u32] parses_bind [OF parses_init_expr]
        parses_bind_ret [OF parses_vec [OF _ parses_u32]])
  then show ?thesis
    using assms(1) by (auto simp: parse_section_def parse_element_section_def section_ids intro!: parses_map parses_vec)
qed

lemma section_code:
  "small (wm_code w) \<Longrightarrow> \<forall>b \<in> set (wm_code w). small (fb_locals b) \<and> small (enc_body_contents b) \<Longrightarrow>
   parses e (parse_section SECTION_CODE e m) (enc_vec enc_body (wm_code w)) (m\<lparr>wm_code := wm_code w\<rparr>)"
  by (auto simp: parse_section_def parse_code_section_def section_ids intro!: parses_map parses_vec parses_body)

lemma section_data:
  "small (wm_data w) \<Longrightarrow> \<forall>d \<in> set (wm_data w). init_expr (ds_offset d) \<and> small (ds_data d) \<Longrightarrow>
   parses e (parse_section SECTION_DATA e m) (enc_vec enc_data (wm_data w)) (m\<lparr>wm_data := wm_data w\<rparr>)"
  by (auto simp: parse_section_def parse_data_section_def section_ids intro!: parses_map parses_vec parses_data)

lemma wf_moduleD:
  assumes "wf_module w"
  shows "small (wm_types w)" "\<forall>t \<in> set (wm_types w). small (ft_params t) \<and> small (ft_results t)"
    "small (wm_imports w)" "\<forall>i \<in> set (wm_imports w). small (imp_module i) \<and> small (imp_name i)"
    "small (wm_functions w)" "small (wm_tables w)" "small (wm_memories w)"
    "small (wm_globals w)" "\<forall>g \<in> set (wm_globals w). init_expr (snd g)"
    "small (wm_exports w)" "\<forall>x \<in> set (wm_exports w). small (exp_name x)"
    "small (wm_elements w)" "\<forall>s \<in> set (wm_elements w). init_expr (es_offset s) \<and> small (es_func_indices s)"
    "small (wm_code w)" "\<forall>b \<in> set (wm_code w). small (fb_locals b) \<and> small (enc_body_contents b)"
    "small (wm_data w)" "\<forall>d \<in> set (wm_data w). init_expr (ds_offset d) \<and> small (ds_data d)"
    "\<forall>(i, payload) \<in> set (module_sections w). small payload"
  using assms unfolding wf_module_def by blast+

lemma reads_module:
  assumes "wf_module w"
  shows "reads empty_module (module_sections w) w"
proof -
  note wf = wf_moduleD [OF assms]
  have p: "small (enc_vec enc_func_type (wm_types w))" "small (enc_vec enc_import (wm_imports w))"
    "small (enc_vec enc_u32 (wm_functions w))" "small (enc_vec enc_table_type (wm_tables w))"
    "small (enc_vec enc_memory_type (wm_memories w))" "small (enc_vec enc_global (wm_globals w))"
    "small (enc_vec enc_export (wm_exports w))" "small (enc_vec enc_element (wm_elements w))"
    "small (enc_vec enc_body (wm_code w))" "small (enc_vec enc_data (wm_data w))"
    "\<And>i. wm_start_section w = Some i \<Longrightarrow> small (enc_u32 i)"
    using wf(18) by (simp_all add: module_sections_def)
  note head = reads_parses [OF p(1) section_types [OF wf(1,2)]] reads_parses [OF p(2) section_imports [OF wf(3,4)]]
    reads_parses [OF p(3) section_plain(1) [OF wf(5)]] reads_parses [OF p(4) section_plain(2) [OF wf(6)]]
    reads_parses [OF p(5) section_plain(3) [OF wf(7)]] reads_parses [OF p(6) section_globals [OF wf(8,9)]]
    reads_parses [OF p(7) section_exports [OF wf(10,11)]]
  note tail = reads_parses [OF p(8) section_elements [OF wf(12,13)]] reads_parses [OF p(9) section_code [OF wf(14,15)]]
    reads_parses [OF p(10) section_data [OF wf(16,17)]]
  show ?thesis
  proof (cases "wm_start_section w")
    case None
    have "reads empty_module (module_sections w) (empty_module\<lparr>wm_types := wm_types w, wm_imports := wm_imports w,
        wm_functions := wm_functions w, wm_tables := wm_tables w, wm_memories := wm_memories w,
        wm_globals := wm_globals w, wm_exports := wm_exports w, wm_elements := wm_elements w, wm_code := wm_code w,
        wm_data := wm_data w\<rparr>)"
      unfolding module_sections_def None option.case append.simps by (intro head tail reads_Nil)
    moreover have "(empty_module\<lparr>wm_types := wm_types w, wm_imports := wm_imports w,
        wm_functions := wm_functions w, wm_tables := wm_tables w, wm_memories := wm_memories w,
        wm_globals := wm_globals w, wm_exports := wm_exports w, wm_elements := wm_elements w, wm_code := wm_code w,
        wm_data := wm_data w\<rparr>) = w"
      by (rule wasm_module.equality) (simp_all add: empty_module_def None)
    ultimately show ?thesis by simp
  next
    case (Some i)
    have "reads empty_module (module_sections w) (empty_module\<lparr>wm_types := wm_types w, wm_imports := wm_imports w,
        wm_functions := wm_functions w, wm_tables := wm_tables w, wm_memories := wm_memories w,
        wm_globals := wm_globals w, wm_exports := wm_exports w, wm_start_section := Some i,
        wm_elements := wm_elements w, wm_code := wm_code w, wm_data := wm_data w\<rparr>)"
      unfolding module_sections_def Some option.case append.simps
      by (intro head tail reads_parses [OF p(11) [OF Some] section_plain(4)] reads_Nil)
    moreover have "(empty_module\<lparr>wm_types := wm_types w, wm_imports := wm_imports w,
        wm_functions := wm_functions w, wm_tables := wm_tables w, wm_memories := wm_memories w,
        wm_globals := wm_globals w, wm_exports := wm_exports w, wm_start_section := Some i,
        wm_elements := wm_elements w, wm_code := wm_code w, wm_data := wm_data w\<rparr>) = w"
      by (rule wasm_module.equality) (simp_all add: empty_module_def Some)
    ultimately show ?thesis by simp
  qed
qed

text \<open>Sections with other ids are skipped wherever they stand.\<close>

definition known_section :: "u8 \<times> u8 list \<Rightarrow> bool" where
  "known_section s \<longleftrightarrow> 1 \<le> fst s \<and> fst s \<le> 11"

lemma parse_section_unknown:
  assumes "\<not> known_section (i, payload)"
  shows "parse_section i e m bytes pos = Ret (Inr (m, e))"
proof -
  have "i \<noteq> 1" "i \<noteq> 2" "i \<noteq> 3" "i \<noteq> 4" "i \<noteq> 5" "i \<noteq> 6" "i \<noteq> 7" "i \<noteq> 8" "i \<noteq> 9" "i \<noteq> 10" "i \<noteq> 11"
    using assms by (auto simp: known_section_def)
  then show ?thesis by (simp add: parse_section_def section_ids)
qed

lemma reads_skip:
  "reads m (filter known_section secs) m' \<Longrightarrow> \<forall>s \<in> set secs. small (snd s) \<Longrightarrow> reads m secs m'"
proof (induction secs arbitrary: m)
  case (Cons s secs)
  obtain i payload where s: "s = (i, payload)" by (cases s)
  show ?case
  proof (cases "known_section s")
    case True
    with Cons.prems(1) obtain m1 where
      "\<And>pre post. parse_section i (length pre + length payload) m (pre @ payload @ post) (length pre)
         = Ret (Inr (m1, length pre + length payload))"
      "reads m1 (filter known_section secs) m'"
      by (auto simp: s elim: reads.cases)
    then show ?thesis
      unfolding s using Cons.prems(2) Cons.IH by (intro reads_Cons) (auto simp: s)
  next
    case False
    then show ?thesis
      unfolding s using Cons.prems Cons.IH by (intro reads_Cons [of payload i m m]) (auto simp: s parse_section_unknown)
  qed
qed simp

lemma of_le_header: "of_le_bytes (to_le_bytes 4 w) = w" for w :: u32
  by (rule of_to_le_bytes) simp

lemma known_module_sections: "filter known_section (module_sections m) = module_sections m"
  by (auto simp: module_sections_def known_section_def section_ids split: option.split)


text \<open>A module with one function of one parameter, exported, and a global.\<close>

definition sample_module :: wasm_module where
  "sample_module = empty_module
     \<lparr>wm_types := [\<lparr>ft_params = [TI32], ft_results = [TI64]\<rparr>], wm_functions := [0],
      wm_globals := [(\<lparr>gt_content_type = TI32, gt_mutable = True\<rparr>, [0x41, 0x05, 0x0B])],
      wm_exports := [\<lparr>exp_name = [0x66], exp_kind = ExportFunction, exp_index = 0\<rparr>],
      wm_code := [\<lparr>fb_locals = [(2, TI64)], fb_code = [0x42, 0x07, 0x0B]\<rparr>]\<rparr>"

definition sample_sections :: "(u8 \<times> u8 list) list" where
  "sample_sections = (0, [0x01, 0xFF]) # module_sections sample_module @ [(0, [])]"

lemma sample_init: "init_expr [0x41, 0x05, 0x0B]"
  unfolding init_expr_def
  by (rule exI [of _ "[InitI32 5]"]) (simp add: sleb.simps low7_def take_bit_eq_mod)

lemma sample_wf: "wf_module sample_module"
  unfolding wf_module_def using sample_init
  by (simp add: sample_module_def empty_module_def module_sections_def small_def enc_vec_def enc_u32_def
      uleb.simps enc_func_type_def enc_global_def enc_global_type_def enc_export_def enc_body_def
      enc_body_contents_def enc_local_def enc_byte_def)


text \<open>A module that ends within a type makes the decoder index beyond the input.\<close>

lemma parse_wasm_panics: "parse_wasm (enc_header @ [1, 3, 1, 0x60, 1]) = Panic"
  by code_simp

end
