(* ===== verification/Wasm_Safety.thy ===== *)
theory Wasm_Safety
  imports Wasm_Exec Wasm_Codec
begin

text \<open>
  What the WebAssembly interpreter guarantees.  \<open>wasm_inv\<close> bounds the value stack, the linear memory and the
  gas; \<open>keeps I m\<close> says that the operation \<open>m\<close> does not panic and preserves \<open>I\<close>, and is proved for every
  instruction but \<open>if\<close>, which panics exactly when it is the last byte of the code.  The main loop ends because
  every round uses gas or pops a frame.  The loop before the main loop never ends on a function with code.
\<close>

section \<open>The invariant\<close>

definition mem_inv :: "nat \<Rightarrow> linear_memory \<Rightarrow> bool" where
  "mem_inv L m \<longleftrightarrow> lm_ok m \<and> length (lm_data m) \<le> L
     \<and> (\<exists>mx. lm_max_pages m = Some mx \<and> unat mx * WASM_PAGE_SIZE \<le> L)"

definition wasm_inv :: "interpreter_config \<Rightarrow> nat \<Rightarrow> nat \<Rightarrow> u64 \<Rightarrow> interp \<Rightarrow> bool" where
  "wasm_inv c H L g s \<longleftrightarrow> length (it_stack s) \<le> STACK_LIMIT \<and> it_config s = c \<and> it_gas_used s = g
     \<and> length (it_host_functions s) = H \<and> (\<forall>m. it_memory s = Some m \<longrightarrow> mem_inv L m)"

definition keeps :: "(interp \<Rightarrow> bool) \<Rightarrow> 'a im \<Rightarrow> bool" where
  "keeps I m \<longleftrightarrow> (\<forall>s. I s \<longrightarrow> (case m s of Panic \<Rightarrow> False | Ret (r, s') \<Rightarrow> I s'))"

text \<open>What the interpreter relies on: a host function returns, stays within the bounds and leaves the gas,
  the configuration and the table of host functions alone.\<close>

definition host_ok :: "host \<Rightarrow> bool" where
  "host_ok rh \<longleftrightarrow> (\<forall>c H L g h. keeps (wasm_inv c H L g) (rh h))"

named_theorems interp_keeps "operations that do not panic and keep the invariant"

lemma keepsD: "keeps I m \<Longrightarrow> I s \<Longrightarrow> \<exists>r s'. m s = Ret (r, s') \<and> I s'"
  by (cases "m s") (fastforce simp: keeps_def)+

lemma keepsI: "(\<And>s. I s \<Longrightarrow> \<exists>r s'. m s = Ret (r, s') \<and> I s') \<Longrightarrow> keeps I m"
  unfolding keeps_def by fastforce

lemma keeps_bind [interp_keeps]:
  assumes "keeps I m" "\<And>x. keeps I (f x)"
  shows "keeps I (i_bind m f)"
proof (rule keepsI)
  fix s assume "I s"
  from keepsD [OF assms(1) this] obtain r s' where m: "m s = Ret (r, s')" "I s'" by blast
  show "\<exists>r s'. i_bind m f s = Ret (r, s') \<and> I s'"
  proof (cases r)
    case (Inl e)
    then show ?thesis using m by (simp add: i_bind_def)
  next
    case (Inr x)
    from keepsD [OF assms(2) m(2), of x] show ?thesis using m Inr by (simp add: i_bind_def)
  qed
qed

lemma keeps_ret [interp_keeps]: "keeps I (i_ret x)"
  by (simp add: keeps_def i_ret_def)

lemma keeps_err [interp_keeps]: "keeps I (i_err e)"
  by (simp add: keeps_def i_err_def)

lemma keeps_if [interp_keeps]: "keeps I m \<Longrightarrow> keeps I n \<Longrightarrow> keeps I (if c then m else n)"
  by simp

lemma keeps_if_state: "keeps I m \<Longrightarrow> keeps I n \<Longrightarrow> keeps I (\<lambda>s. if c s then m s else n s)"
  by (simp add: keeps_def)

text \<open>An operation whose arguments are read from the state.\<close>

lemma keeps_reader: "(\<And>x. keeps I (f x)) \<Longrightarrow> keeps I (\<lambda>s. f (q s) s)"
  by (simp add: keeps_def)

lemma keeps_on_stack:
  assumes "\<And>d r d'. f d = (r, d') \<Longrightarrow> length d \<le> STACK_LIMIT \<Longrightarrow> length d' \<le> STACK_LIMIT"
  shows "keeps (wasm_inv c H L g) (on_stack f)"
  using assms by (auto simp: keeps_def on_stack_def wasm_inv_def split: prod.split)

lemma keeps_stack_ops [interp_keeps]:
  "keeps (wasm_inv c H L g) (push v)" "keeps (wasm_inv c H L g) pop"
  "keeps (wasm_inv c H L g) pop_i32" "keeps (wasm_inv c H L g) pop_i64"
  by (rule keeps_on_stack, erule (1) vs_push_length,
      rule keeps_on_stack, drule vs_pop_length, simp,
      rule keeps_on_stack, drule vs_pop_i32_length, simp,
      rule keeps_on_stack, drule vs_pop_i64_length, simp)

lemma keeps_frame [interp_keeps]: "keeps (wasm_inv c H L g) (current_frame_mut f)"
  by (auto simp: keeps_def current_frame_mut_def wasm_inv_def split: prod.split)

lemma keeps_args [interp_keeps]:
  "keeps (wasm_inv c H L g) (first_arg r)" "keeps (wasm_inv c H L g) (next_arg r)" "keeps (wasm_inv c H L g) (advance_pc n)"
  unfolding first_arg_def next_arg_def by (rule keeps_frame)+ (auto simp: keeps_def advance_pc_def wasm_inv_def)

lemma keeps_frames [interp_keeps]:
  "keeps (wasm_inv c H L g) execute_end" "keeps (wasm_inv c H L g) execute_return"
  "keeps (wasm_inv c H L g) (unwind_to n)"
  by (auto simp: keeps_def execute_end_def execute_return_def unwind_to_def wasm_inv_def current_frame_mut_def Let_def)

lemma keeps_get_func [interp_keeps]:
  "keeps I (get_func_type i)" "keeps I (get_func_body i)"
  by (simp_all add: keeps_def get_func_type_def get_func_body_def)

lemma keeps_push_all [interp_keeps]: "keeps (wasm_inv c H L g) (push_all vs)"
  by (induction vs) (auto intro!: interp_keeps)

lemma keeps_read_targets [interp_keeps]: "keeps (wasm_inv c H L g) (read_targets n)"
  by (induction n) (auto intro!: interp_keeps)

lemma keeps_drain_args [interp_keeps]: "keeps (wasm_inv c H L g) (drain_args n)"
  by (auto simp: keeps_def drain_args_def wasm_inv_def vs_drain_to_def)

lemma keeps_push_frame [interp_keeps]: "keeps (wasm_inv c H L g) (push_frame i ft args)"
  unfolding push_frame_def by (rule keeps_bind [OF keeps_get_func(2)]) (auto simp: keeps_def wasm_inv_def)

lemma keeps_call_host [interp_keeps]:
  assumes "host_ok rh"
  shows "keeps (wasm_inv c H L g) (call_host rh i)"
  unfolding keeps_def
proof (intro allI impI)
  fix s assume inv: "wasm_inv c H L g s"
  let ?s1 = "s\<lparr>it_host_functions := (it_host_functions s)[i := None]\<rparr>"
  have inv1: "wasm_inv c H L g ?s1" using inv by (simp add: wasm_inv_def)
  obtain r s2 where run: "(case it_host_functions s ! i of None \<Rightarrow> Ret (Inr (), ?s1) | Some h \<Rightarrow> rh h ?s1) = Ret (r, s2)"
      and inv2: "wasm_inv c H L g s2"
  proof (cases "it_host_functions s ! i")
    case None
    then show thesis using that inv1 by simp
  next
    case (Some h)
    have "keeps (wasm_inv c H L g) (rh h)" using assms by (simp add: host_ok_def)
    from keepsD [OF this inv1] show thesis using that Some by auto
  qed
  show "case call_host rh i s of Panic \<Rightarrow> False | Ret (r, s') \<Rightarrow> wasm_inv c H L g s'"
    using inv inv2 run by (auto simp: call_host_def Let_def wasm_inv_def)
qed

lemma keeps_execute_call [interp_keeps]:
  assumes "host_ok rh"
  shows "keeps (wasm_inv c H L g) (execute_call rh)"
proof -
  let ?k = "\<lambda>i ft args. i_bind (drain_args (length (ft_params ft))) (\<lambda>_ s.
         if i < it_import_func_count s then
           i_bind (push_all args) (\<lambda>_. i_bind (call_host rh (unat i)) (\<lambda>_.
           if length (ft_results ft) \<le> 1 then i_ret () else push_frame i ft args)) s
         else push_frame i ft args s)"
  have "keeps (wasm_inv c H L g) (?k i ft args)" for i ft args
    using assms by (intro keeps_bind keeps_if_state interp_keeps)
  then have "keeps (wasm_inv c H L g) (\<lambda>s. ?k i ft (call_args (length (ft_params ft)) (it_stack s)) s)" for i ft
    by (rule keeps_reader)
  then show ?thesis unfolding execute_call_def Let_def by (intro keeps_bind interp_keeps)
qed

lemma keeps_variables [interp_keeps]:
  "keeps (wasm_inv c H L g) execute_local_get" "keeps (wasm_inv c H L g) execute_local_set"
  "keeps (wasm_inv c H L g) execute_local_tee" "keeps (wasm_inv c H L g) execute_global_get"
  "keeps (wasm_inv c H L g) execute_global_set" "keeps (wasm_inv c H L g) execute_i32_const"
  "keeps (wasm_inv c H L g) execute_i64_const"
proof -
  have set_local: "keeps (wasm_inv c H L g) (set_local v)" for v
    unfolding set_local_def by (rule keeps_frame)
  then show "keeps (wasm_inv c H L g) execute_local_set"
    unfolding execute_local_set_def by (intro interp_keeps)
  show "keeps (wasm_inv c H L g) execute_local_tee"
    using set_local by (auto simp: keeps_def execute_local_tee_def split: option.split)
  have "keeps (wasm_inv c H L g) (\<lambda>s. push (v s) s)" for v
    by (rule keeps_reader [of _ push]) (rule keeps_stack_ops)
  then show "keeps (wasm_inv c H L g) execute_global_get"
    unfolding execute_global_get_def by (intro interp_keeps)
  have "keeps (wasm_inv c H L g) (\<lambda>s. Ret (Inr (), s\<lparr>it_globals := u s\<rparr>))" for u
    by (simp add: keeps_def wasm_inv_def)
  then show "keeps (wasm_inv c H L g) execute_global_set"
    unfolding execute_global_set_def by (intro interp_keeps)
qed (unfold execute_local_get_def execute_i32_const_def execute_i64_const_def, (intro interp_keeps)+)

lemma keeps_arithmetic [interp_keeps]:
  "keeps (wasm_inv c H L g) (execute_i32_unop f1)" "keeps (wasm_inv c H L g) (execute_i32_binop f2)"
  "keeps (wasm_inv c H L g) (execute_i64_binop f3)" "keeps (wasm_inv c H L g) (i32_division p f2)"
  "keeps (wasm_inv c H L g) execute_i64_div_s"
  unfolding execute_i32_unop_def execute_i32_binop_def execute_i64_binop_def i32_division_def execute_i64_div_s_def
  by (intro interp_keeps)+

section \<open>Memory operations\<close>

lemma keeps_with_memory:
  assumes "\<And>m a. mem_inv L m \<Longrightarrow> mem_inv L (snd (f m a))"
  shows "keeps (wasm_inv c H L g) (with_memory b off f)"
  unfolding keeps_def
proof (intro allI impI)
  fix s assume inv: "wasm_inv c H L g s"
  show "case with_memory b off f s of Panic \<Rightarrow> False | Ret (r, s') \<Rightarrow> wasm_inv c H L g s'"
  proof (cases "it_memory s")
    case None
    then show ?thesis using inv by (simp add: with_memory_def split: option.split)
  next
    case (Some m)
    have "mem_inv L (snd (f m a))" for a using inv Some assms by (simp add: wasm_inv_def)
    then have "wasm_inv c H L g (s\<lparr>it_memory := Some (snd (f m a))\<rparr>)" for a using inv by (simp add: wasm_inv_def)
    then show ?thesis using inv Some by (simp add: with_memory_def split: option.split prod.split) (metis snd_conv)
  qed
qed

lemma mem_inv_writes:
  "mem_inv L m \<Longrightarrow> mem_inv L (snd (lm_write_u8 a v8 m))" "mem_inv L m \<Longrightarrow> mem_inv L (snd (lm_write_u16 a v16 m))"
  "mem_inv L m \<Longrightarrow> mem_inv L (snd (lm_write_u32 a v32 m))" "mem_inv L m \<Longrightarrow> mem_inv L (snd (lm_write_u64 a v64 m))"
  using lm_ok_write by (simp_all add: mem_inv_def) (auto simp: writes_as_slices length_put_slice)

lemma mem_inv_grow:
  assumes "mem_inv L m"
  shows "mem_inv L (snd (lm_grow k m))"
proof -
  from assms obtain mx where mx: "lm_ok m" "length (lm_data m) \<le> L" "lm_max_pages m = Some mx" "unat mx * WASM_PAGE_SIZE \<le> L"
    by (auto simp: mem_inv_def)
  have "lm_max_pages (snd (lm_grow k m)) = Some mx"
    using lm_grow_cases [OF mx(1), of k] mx(3) by (metis (no_types, lifting) linear_memory.ext_inject
        linear_memory.surjective linear_memory.update_convs(1) snd_conv)
  then show ?thesis
    using lm_grow_limit [OF mx(1,3), of k] lm_ok_grow [OF mx(1)] mx(2,4) by (auto simp: mem_inv_def)
qed

lemma keeps_memory_ops [interp_keeps]:
  "keeps (wasm_inv c H L g) execute_memory_load" "keeps (wasm_inv c H L g) execute_memory_load_64"
  "keeps (wasm_inv c H L g) (execute_memory_load_ext sz sg)" "keeps (wasm_inv c H L g) execute_memory_store"
  "keeps (wasm_inv c H L g) execute_memory_store_64" "keeps (wasm_inv c H L g) (execute_memory_store_n sz)"
proof -
  have args: "keeps (wasm_inv c H L g) mem_args" unfolding mem_args_def by (intro interp_keeps)
  have load: "keeps (wasm_inv c H L g) (load_value rd)" for rd
    unfolding load_value_def by (intro interp_keeps args keeps_with_memory) simp
  then show "keeps (wasm_inv c H L g) execute_memory_load" "keeps (wasm_inv c H L g) execute_memory_load_64"
    "keeps (wasm_inv c H L g) (execute_memory_load_ext sz sg)"
    unfolding execute_memory_load_def execute_memory_load_64_def execute_memory_load_ext_def by blast+
  show "keeps (wasm_inv c H L g) execute_memory_store" "keeps (wasm_inv c H L g) execute_memory_store_64"
    "keeps (wasm_inv c H L g) (execute_memory_store_n sz)"
    unfolding execute_memory_store_def execute_memory_store_64_def execute_memory_store_n_def
    by (intro interp_keeps args keeps_with_memory; simp add: mem_inv_writes)+
qed

lemma keeps_memory_size [interp_keeps]: "keeps (wasm_inv c H L g) memory_size"
proof -
  have "keeps (wasm_inv c H L g) (\<lambda>s. push (v s) s)" for v
    by (rule keeps_reader [of _ push]) (rule keeps_stack_ops)
  then show ?thesis unfolding memory_size_def by (intro keeps_bind interp_keeps)
qed

lemma keeps_memory_grow [interp_keeps]: "keeps (wasm_inv c H L g) memory_grow"
proof -
  have "keeps (wasm_inv c H L g) (\<lambda>s. case it_memory s of
         Some mem \<Rightarrow> (case lm_grow pages mem of (r, mem') \<Rightarrow> push (I32 r) (s\<lparr>it_memory := Some mem'\<rparr>))
       | None \<Rightarrow> push (I32 (- 1)) s)" (is "keeps ?I ?f") for pages
    unfolding keeps_def
  proof (intro allI impI)
    fix s assume inv: "?I s"
    show "case ?f s of Panic \<Rightarrow> False | Ret (r, s') \<Rightarrow> ?I s'"
    proof (cases "it_memory s")
      case None
      then show ?thesis using inv keeps_stack_ops(1) by (auto simp: keeps_def)
    next
      case (Some m)
      obtain r m' where g: "lm_grow pages m = (r, m')" by (cases "lm_grow pages m")
      have "?I (s\<lparr>it_memory := Some m'\<rparr>)"
        using inv Some mem_inv_grow [of L m pages] g by (auto simp: wasm_inv_def)
      then show ?thesis using Some g keeps_stack_ops(1) by (fastforce simp: keeps_def)
    qed
  qed
  then show ?thesis unfolding memory_grow_def by (intro interp_keeps)
qed

section \<open>Instructions\<close>

lemma keeps_control [interp_keeps]:
  "keeps (wasm_inv c H L g) execute_else" "keeps (wasm_inv c H L g) execute_br"
  "keeps (wasm_inv c H L g) execute_br_if" "keeps (wasm_inv c H L g) execute_br_table"
  "keeps (wasm_inv c H L g) execute_select"
  unfolding execute_else_def execute_br_def execute_br_if_def execute_br_table_def execute_select_def
  by (intro interp_keeps)+

lemma keeps_outcome [interp_keeps]:
  "keeps I m \<Longrightarrow> keeps I (continue m)" "keeps I m \<Longrightarrow> keeps I (return_if_empty m)"
  unfolding continue_def return_if_empty_def by (intro keeps_bind interp_keeps; simp add: keeps_def)+

lemma keeps_exec_ctrl:
  assumes "host_ok rh" "op \<noteq> OpIf"
  shows "keeps (wasm_inv c H L g) (exec_ctrl rh op)"
proof -
  have d: "keeps (wasm_inv c H L g) (i_bind (advance_pc 1) (\<lambda>_. i_bind pop (\<lambda>_. i_ret ())))"
    by (intro interp_keeps)
  show ?thesis using assms by (cases op) (simp_all add: interp_keeps d)
qed

lemma keeps_exec_mem: "keeps (wasm_inv c H L g) (exec_mem b op)"
  by (cases op) (simp_all add: exec_mem_def interp_keeps)

lemma keeps_exec_num:
  "keeps (wasm_inv c H L g) (exec_num32 b op32)" "keeps (wasm_inv c H L g) (exec_num64 b op64)"
  by (cases op32; simp add: exec_num32_def execute_i32_div_s_def execute_i32_div_u_def execute_i32_rem_s_def
      execute_i32_rem_u_def interp_keeps)
     (cases op64; simp add: exec_num64_def interp_keeps)

lemma keeps_exec_op:
  assumes "host_ok rh" "op \<noteq> Ctrl OpIf"
  shows "keeps (wasm_inv c H L g) (exec_op rh b op)"
  using assms by (cases op) (auto simp: keeps_exec_ctrl keeps_exec_mem keeps_exec_num intro!: keeps_outcome)

text \<open>The one instruction that panics.\<close>

definition if_panics :: "interp \<Rightarrow> bool" where
  "if_panics s \<longleftrightarrow> it_stack s \<noteq> [] \<and> (\<exists>v. last (it_stack s) = I32 v) \<and> it_call_stack s \<noteq> []
     \<and> length (cf_code (last (it_call_stack s))) \<le> cf_pc (last (it_call_stack s)) + 1"

lemma pop_i32_result:
  "pop_i32 s = Ret (if it_stack s = [] then Inl StackUnderflow
       else (case last (it_stack s) of I32 v \<Rightarrow> Inr v | _ \<Rightarrow> Inl TypeMismatch), s\<lparr>it_stack := butlast (it_stack s)\<rparr>)"
  by (simp add: on_stack_def vs_pop_i32_def vs_pop_def split: wasm_value.split)

lemma if_frame_panics: "if_frame v f = Panic \<longleftrightarrow> length (cf_code f) \<le> cf_pc f + 1"
  by (auto simp: if_frame_def Let_def)

lemma if_frame_Ret: "if_frame v f = Ret f' \<Longrightarrow> \<not> length (cf_code f) \<le> Suc (cf_pc f)"
  using if_frame_panics [of v f] by simp

lemma execute_if_cases:
  assumes "wasm_inv c H L g s"
  shows "continue execute_if s = Panic \<longleftrightarrow> if_panics s"
    and "continue execute_if s = Ret (r, s') \<Longrightarrow> wasm_inv c H L g s'"
proof -
  have inv: "wasm_inv c H L g (s\<lparr>it_stack := butlast (it_stack s), it_call_stack := cs\<rparr>)" for cs
    using assms by (auto simp: wasm_inv_def)
  have inv0: "wasm_inv c H L g (s\<lparr>it_stack := butlast (it_stack s)\<rparr>)"
    using assms by (auto simp: wasm_inv_def)
  show "continue execute_if s = Panic \<longleftrightarrow> if_panics s"
    unfolding continue_def execute_if_def i_bind_def pop_i32_result
    by (auto simp: if_panics_def i_ret_def if_frame_panics dest: if_frame_Ret split: wasm_value.splits panics.splits)
  show "wasm_inv c H L g s'" if "continue execute_if s = Ret (r, s')"
    using that inv inv0 unfolding continue_def execute_if_def i_bind_def pop_i32_result
    by (auto simp: i_ret_def split: wasm_value.splits panics.splits if_splits)
qed

lemma opcode_if: "opcode_from_byte b = Some (Ctrl OpIf) \<longleftrightarrow> b = 0x04"
  using opcode_from_byte_SomeD [of b "Ctrl OpIf"] opcode_from_byte_byte [of "Ctrl OpIf"] by auto

definition running :: "interp \<Rightarrow> bool" where
  "running s \<longleftrightarrow> it_call_stack s \<noteq> [] \<and> cf_pc (last (it_call_stack s)) < length (cf_code (last (it_call_stack s)))"

lemma exec_iter_running:
  assumes "host_ok rh" "wasm_inv c H L g s" "running s" "g + 1 \<le> ic_max_gas c"
  shows "exec_iter rh s = Panic \<longleftrightarrow> cf_code (last (it_call_stack s)) ! cf_pc (last (it_call_stack s)) = 0x04 \<and> if_panics s"
    and "exec_iter rh s = Ret (r, s') \<Longrightarrow> wasm_inv c H L (g + 1) s'"
proof -
  let ?f = "last (it_call_stack s)" and ?s1 = "s\<lparr>it_gas_used := g + 1\<rparr>"
  let ?b = "cf_code ?f ! cf_pc ?f"
  have inv1: "wasm_inv c H L (g + 1) ?s1" using assms(2) by (simp add: wasm_inv_def)
  have e: "exec_iter rh s = (case opcode_from_byte ?b of None \<Rightarrow> Ret (Inl (UnknownOpcode ?b), ?s1) | Some op \<Rightarrow> exec_op rh ?b op ?s1)"
    using assms(2-4) by (simp add: exec_iter_def Let_def running_def wasm_inv_def not_less [symmetric])
  have p: "if_panics ?s1 = if_panics s" by (simp add: if_panics_def)
  have "(exec_iter rh s = Panic \<longleftrightarrow> ?b = 0x04 \<and> if_panics s)
      \<and> (exec_iter rh s = Ret (r, s') \<longrightarrow> wasm_inv c H L (g + 1) s')"
  proof (cases "opcode_from_byte ?b")
    case None
    then have "?b \<noteq> 0x04" using opcode_if [of ?b] by auto
    then show ?thesis using None e inv1 by auto
  next
    case (Some op)
    show ?thesis
    proof (cases "op = Ctrl OpIf")
      case True
      then show ?thesis
        using Some e execute_if_cases [OF inv1] p opcode_if [of ?b] by auto
    next
      case False
      then have "?b \<noteq> 0x04" using Some opcode_if [of ?b] by auto
      moreover obtain r1 s1 where "exec_op rh ?b op ?s1 = Ret (r1, s1)" "wasm_inv c H L (g + 1) s1"
        using keepsD [OF keeps_exec_op [OF assms(1) False] inv1, of ?b] by blast
      ultimately show ?thesis using Some e by auto
    qed
  qed
  then show "exec_iter rh s = Panic \<longleftrightarrow> ?b = 0x04 \<and> if_panics s"
    and "exec_iter rh s = Ret (r, s') \<Longrightarrow> wasm_inv c H L (g + 1) s'"
    by blast+
qed

lemma exec_iter_idle:
  assumes "wasm_inv c H L g s" "\<not> running s" "it_call_stack s \<noteq> []"
  shows "exec_iter rh s = Ret (Inr False, s\<lparr>it_call_stack := butlast (it_call_stack s)\<rparr>)"
  using assms by (simp add: exec_iter_def running_def Let_def)

lemma exec_iter_out_of_gas:
  assumes "wasm_inv c H L g s" "running s" "ic_max_gas c < g + 1"
  shows "exec_iter rh s = Ret (Inl GasExhausted, s\<lparr>it_gas_used := g + 1\<rparr>)"
  using assms by (simp add: exec_iter_def running_def Let_def wasm_inv_def)


section \<open>The main loop ends\<close>

lemma gas_step:
  assumes "g + 1 \<le> mx" "mx \<noteq> - 1" "g \<le> mx"
  shows "unat mx - unat (g + 1) < unat mx - unat (g :: u64)"
proof -
  have "g \<noteq> mx"
  proof
    assume "g = mx"
    then show False using assms(1,2) word_less_add_1 [of mx] by simp
  qed
  with assms(3) have "unat g < unat mx" by (simp add: word_less_nat_alt [symmetric])
  moreover have "unat mx < 2 ^ LENGTH(64)" by (rule unat_bound)
  ultimately have "unat (g + 1) = Suc (unat g)" by (rule unat_add_1_bounded)
  then show ?thesis using \<open>unat g < unat mx\<close> by simp
qed

lemma exec_loop_ends:
  assumes "host_ok rh" "ic_max_gas c \<noteq> - 1" "wasm_inv c H L g s" "g \<le> ic_max_gas c"
  shows "\<exists>out. exec_loop rh s = Some out \<and>
    (\<forall>r s'. out = Ret (r, s') \<longrightarrow> wasm_inv c H L (it_gas_used s') s' \<and> it_gas_used s' \<le> ic_max_gas c + 1)"
  using assms(3,4)
proof (induction p \<equiv> "(unat (ic_max_gas c) - unat g, length (it_call_stack s))" arbitrary: g s
    rule: wf_induct_rule [OF wf_lex_prod [OF wf_less_than wf_less_than]])
  case (1 g s)
  note IH = 1(1) and inv = 1(2) and le = 1(3)
  have le1: "g \<le> ic_max_gas c + 1" using le assms(2) by (metis le_less_trans less_imp_le word_less_add_1)
  have gas: "it_gas_used s = g" using inv by (simp add: wasm_inv_def)
  show ?case
  proof (cases "it_call_stack s = []")
    case True
    then show ?thesis using inv gas le1 by (simp add: exec_loop.simps)
  next
    case ne: False
    show ?thesis
    proof (cases "running s")
      case nr: False
      let ?s' = "s\<lparr>it_call_stack := butlast (it_call_stack s)\<rparr>"
      have "exec_loop rh s = exec_loop rh ?s'"
        using ne exec_iter_idle [OF inv nr ne] by (subst exec_loop.simps) simp
      moreover have "wasm_inv c H L g ?s'" using inv by (simp add: wasm_inv_def)
      ultimately show ?thesis using IH [of g ?s'] le ne by simp
    next
      case run: True
      show ?thesis
      proof (cases "g + 1 \<le> ic_max_gas c")
        case False
        then have "exec_iter rh s = Ret (Inl GasExhausted, s\<lparr>it_gas_used := g + 1\<rparr>)"
          using exec_iter_out_of_gas [OF inv run] by (simp add: not_le)
        moreover have "wasm_inv c H L (g + 1) (s\<lparr>it_gas_used := g + 1\<rparr>)" using inv by (simp add: wasm_inv_def)
        moreover have "g + 1 \<le> ic_max_gas c + 1"
          using False le inc_le [of g "ic_max_gas c"] by (cases "g = ic_max_gas c") auto
        ultimately show ?thesis using ne by (subst exec_loop.simps) simp
      next
        case True
        show ?thesis
        proof (cases "exec_iter rh s")
          case Panic
          then show ?thesis using ne by (subst exec_loop.simps) simp
        next
          case (Ret out)
          obtain r s' where out: "out = (r, s')" by (cases out)
          have inv': "wasm_inv c H L (g + 1) s'" using exec_iter_running(2) [OF assms(1) inv run True] Ret out by simp
          then have "it_gas_used s' = g + 1" by (simp add: wasm_inv_def)
          moreover have "g + 1 \<le> ic_max_gas c + 1"
            using True assms(2) by (metis le_less_trans less_imp_le word_less_add_1)
          moreover note IH [of "g + 1" s', OF _ inv' True]
          ultimately show ?thesis
            using ne Ret out inv' gas_step [OF True assms(2) le]
            by (subst exec_loop.simps) (cases r; auto)
        qed
      qed
    qed
  qed
qed

section \<open>Instances\<close>

lemma cap_max_le: "\<exists>mx. cap_max c d = Some mx \<and> unat mx \<le> unat (ic_max_memory_pages c)"
  by (auto simp: cap_max_def min_def word_le_nat_alt split: option.split)

text \<open>The bound on the memory of an instance: its initial size, or the configured limit when that is larger.\<close>

definition mem_bound :: "wasm_module \<Rightarrow> interpreter_config \<Rightarrow> nat" where
  "mem_bound m c = max (case module_memory m c of Some mem \<Rightarrow> length (lm_data mem) | None \<Rightarrow> 0)
     (unat (ic_max_memory_pages c) * WASM_PAGE_SIZE)"

lemma mem_inv_new:
  assumes "unat mn * WASM_PAGE_SIZE \<le> L" "unat (ic_max_memory_pages c) * WASM_PAGE_SIZE \<le> L"
  shows "mem_inv L (lm_new mn (cap_max c d))"
proof -
  obtain mx where mx: "cap_max c d = Some mx" "unat mx \<le> unat (ic_max_memory_pages c)" using cap_max_le by blast
  then have "unat mx * WASM_PAGE_SIZE \<le> L" using assms(2) by (meson le_trans mult_le_mono1)
  moreover have "lm_ok (lm_new mn (Some mx))" by (rule lm_ok_new)
  ultimately show ?thesis using assms(1) mx(1) by (auto simp: mem_inv_def lm_new_def)
qed

lemma module_memory_inv: "module_memory m c = Some mem \<Longrightarrow> mem_inv (mem_bound m c) mem"
  unfolding mem_bound_def
  by (auto simp: module_memory_def lm_new_def [of _ "cap_max _ _", THEN arg_cong [of _ _ lm_data]] split: option.splits list.splits
      intro!: mem_inv_new)

lemma apply_data_segment_inv:
  assumes "apply_data_segment gs seg mem = Ret mem'" "\<forall>m. mem = Some m \<longrightarrow> mem_inv L m" "small (ds_data seg)"
  shows "\<forall>m. mem' = Some m \<longrightarrow> mem_inv L m"
proof -
  have "mem_inv L (m\<lparr>lm_data := put_slice (lm_data m) (unat addr) (ds_data seg)\<rparr>)"
    if m: "mem_inv L m" and e: "addr + word_of_nat (length (ds_data seg)) \<le> word_of_nat (length (lm_data m))"
      "addr \<le> addr + word_of_nat (length (ds_data seg))" for m and addr :: u64
  proof -
    let ?n = "word_of_nat (length (ds_data seg)) :: u64"
    have n: "unat ?n = length (ds_data seg)" using assms(3) by (simp add: small_def unat_word_of_nat_small)
    have "length (lm_data m) < 2 ^ LENGTH(64)"
      using m by (auto simp: mem_inv_def lm_ok_def WASM_PAGE_SIZE_def)
    then have len: "unat (word_of_nat (length (lm_data m)) :: u64) = length (lm_data m)"
      by (rule unat_word_of_nat_small)
    have "\<not> addr + ?n < addr" using e(2) by simp
    then have "unat (addr + ?n) = unat addr + unat ?n"
      unfolding word_add_overflow_iff by (simp add: unat_word_ariths)
    then have "unat addr + length (ds_data seg) \<le> length (lm_data m)" using e(1) n len by (simp add: word_le_nat_alt)
    then show ?thesis using m by (auto simp: mem_inv_def lm_ok_def length_put_slice)
  qed
  then show ?thesis
    using assms(1,2) unfolding apply_data_segment_def
    by (auto simp: Let_def split: if_splits sum.splits wasm_value.splits option.splits)
qed

lemma apply_data_segments_inv:
  "apply_data_segments gs segs mem = Ret mem' \<Longrightarrow> \<forall>m. mem = Some m \<longrightarrow> mem_inv L m \<Longrightarrow>
   \<forall>d \<in> set segs. small (ds_data d) \<Longrightarrow> \<forall>m. mem' = Some m \<longrightarrow> mem_inv L m"
proof (induction segs arbitrary: mem)
  case (Cons seg segs)
  from Cons.prems(1) obtain mem1
    where 1: "apply_data_segment gs seg mem = Ret mem1" and 2: "apply_data_segments gs segs mem1 = Ret mem'"
    by (auto elim: panic_bind_RetE)
  have "\<forall>m. mem1 = Some m \<longrightarrow> mem_inv L m"
    by (rule apply_data_segment_inv [OF 1 Cons.prems(2)]) (simp add: Cons.prems(3))
  then show ?case by (rule Cons.IH [OF 2]) (simp add: Cons.prems(3))
qed simp

lemma interp_new_inv:
  assumes "interp_new m c = Ret s" "\<forall>d \<in> set (wm_data m). small (ds_data d)"
  shows "wasm_inv c 0 (mem_bound m c) 0 s" "it_call_stack s = []"
proof -
  from assms(1) obtain mem gs where mem: "apply_data_segments gs (wm_data m) (module_memory m c) = Ret mem"
      and s: "it_stack s = []" "it_config s = c" "it_gas_used s = 0" "it_host_functions s = []" "it_memory s = mem"
        "it_call_stack s = []"
    unfolding interp_new_def Let_def by (auto elim!: panic_bind_RetE)
  have "\<forall>x. mem = Some x \<longrightarrow> mem_inv (mem_bound m c) x"
    by (rule apply_data_segments_inv [OF mem _ assms(2)]) (auto intro: module_memory_inv)
  then show "wasm_inv c 0 (mem_bound m c) 0 s" "it_call_stack s = []"
    using s by (simp_all add: wasm_inv_def)
qed


section \<open>Calls from outside\<close>

lemma idle_loop_returns:
  assumes "idle_loop s = Some u"
  shows "\<not> running s"
proof (rule idle_loop.raw_induct [where P = "\<lambda>s u. \<not> running s", OF _ assms])
  fix loop :: "interp \<Rightarrow> unit option" and s u
  assume *: "\<And>s u. loop s = Some u \<Longrightarrow> \<not> running s"
    "(if it_call_stack s = [] then Some ()
      else if length (cf_code (last (it_call_stack s))) \<le> cf_pc (last (it_call_stack s)) then Some () else loop s) = Some u"
  show "\<not> running s"
  proof
    assume "running s"
    with *(2) have "loop s = Some u" by (simp add: running_def)
    from *(1) [OF this] \<open>running s\<close> show False by contradiction
  qed
qed

lemma idle_loop_not_running: "\<not> running s \<Longrightarrow> idle_loop s = Some ()"
  by (subst idle_loop.simps) (auto simp: running_def)

text \<open>C37: Functional behaviour, on a function of the module that exists and whose frame is allowed.  A call
  returns exactly when the body is empty, and then without a value, whatever the type of the function says,
  and with the state unchanged; on a body with code the loop before the main loop never ends and the call
  does not return.\<close>
theorem wasm_call_outcome:
  assumes "\<not> func_idx < it_import_func_count s" "it_call_stack s = []" "0 < ic_max_call_depth (it_config s)"
    and "get_func_type func_idx s = Ret (Inr ft, s)" "get_func_body func_idx s = Ret (Inr body, s)"
  shows "call_func rh func_idx args s = (if fb_code body = [] then Some (Ret (Inr None, s)) else None)"
proof -
  let ?frame = "entry_frame func_idx ft body args (length (it_stack s))"
  let ?s1 = "s\<lparr>it_call_stack := [?frame]\<rparr>"
  have run: "running ?s1 \<longleftrightarrow> fb_code body \<noteq> []" by (simp add: running_def entry_frame_def Let_def)
  have call: "call_func rh func_idx args s =
      (case execute_call_stack rh ?s1 of
         None \<Rightarrow> None
       | Some Panic \<Rightarrow> Some Panic
       | Some (Ret (Inl e, s2)) \<Rightarrow> Some (Ret (Inl e, s2))
       | Some (Ret (Inr _, s2)) \<Rightarrow> Some (finish_call ft (length (it_stack s)) s2))"
    using assms by (simp add: call_func_def i_bind_def i_ret_def Let_def word_gt_0)
  show ?thesis
  proof (cases "fb_code body = []")
    case True
    moreover have "s\<lparr>it_call_stack := []\<rparr> = s" using assms(2) by (cases s) simp
    ultimately have "exec_iter rh ?s1 = Ret (Inr False, s)"
      by (simp add: exec_iter_def entry_frame_def Let_def)
    then have "exec_loop rh ?s1 = exec_loop rh s"
      using assms(2) by (subst exec_loop.simps) simp
    also have "\<dots> = Some (Ret (Inr (), s))" using assms(2) by (subst exec_loop.simps) simp
    finally have "execute_call_stack rh ?s1 = Some (Ret (Inr (), s))"
      using idle_loop_not_running [of ?s1] run True by (simp add: execute_call_stack_def)
    then show ?thesis using True call assms(2) by (simp add: finish_call_def)
  next
    case False
    then have "idle_loop ?s1 = None" using idle_loop_returns [of ?s1] run by (cases "idle_loop ?s1") auto
    then show ?thesis using False call by (simp add: execute_call_stack_def)
  qed
qed

section \<open>The theorems on a module\<close>

text \<open>The sample module of the decoder, with the default configuration and host functions that do nothing.\<close>

definition sample_host :: host where
  "sample_host h = i_ret ()"

definition sample_state :: interp where
  "sample_state = \<lparr>it_stack = [], it_memory = None, it_call_stack = [], it_config = interpreter_config_default,
     it_gas_used = 0, it_exit_code = 0, it_module = sample_module, it_host_functions = [], it_import_func_count = 0,
     it_globals = [I32 5], it_tables = [], it_named_host_functions = (\<lambda>_. None)\<rparr>"

definition sample_frame :: "u8 list \<Rightarrow> call_frame" where
  "sample_frame code = entry_frame 0 \<lparr>ft_params = [], ft_results = []\<rparr> \<lparr>fb_locals = [], fb_code = code\<rparr> [] 0"

lemma sample_host_ok: "host_ok sample_host"
  by (simp add: host_ok_def sample_host_def keeps_ret)

lemma sample_global: "eval_init_expr [0x41, 0x05, 0x0B] [I32 0] = Inr (I32 5)"
  by code_simp

lemma sample_state_new: "interp_new sample_module interpreter_config_default = Ret sample_state"
  by (simp add: interp_new_def sample_module_def empty_module_def module_memory_def Let_def sample_global
      apply_element_segments_def sample_state_def)

lemma sample_inv:
  "length vs \<le> STACK_LIMIT \<Longrightarrow>
   wasm_inv interpreter_config_default 0 0 0 (sample_state\<lparr>it_stack := vs, it_call_stack := fs\<rparr>)"
  by (simp add: wasm_inv_def sample_state_def)



theorem wasm_call_outcome_witness: "call_func sample_host 0 [I32 1] sample_state = None"
proof -
  have "get_func_type 0 sample_state = Ret (Inr \<lparr>ft_params = [TI32], ft_results = [TI64]\<rparr>, sample_state)"
    "get_func_body 0 sample_state = Ret (Inr \<lparr>fb_locals = [(2, TI64)], fb_code = [0x42, 0x07, 0x0B]\<rparr>, sample_state)"
    by (simp_all add: get_func_type_def get_func_body_def nth_type_def sample_state_def sample_module_def empty_module_def)
  from wasm_call_outcome [OF _ _ _ this, of sample_host "[I32 1]"] show ?thesis
    by (simp add: sample_state_def interpreter_config_default_def)
qed

text \<open>Three consequences of the code: a data segment at the offset \<open>- 1\<close> makes the instantiation panic; the
  byte of a block type is executed as an instruction; and two WASI functions that the module imports in the
  reverse order of their registration are bound the wrong way round.\<close>

definition segment_module :: wasm_module where
  "segment_module = empty_module\<lparr>wm_memories := [\<lparr>mt_limits = \<lparr>lim_min = 0, lim_max = None\<rparr>\<rparr>],
     wm_data := [\<lparr>ds_memory_index = 0, ds_offset = [0x41, 0x7F, 0x0B], ds_data = [1]\<rparr>]\<rparr>"

lemma negative_segment_panics:
  "case interp_new segment_module interpreter_config_default of Panic \<Rightarrow> True | Ret _ \<Rightarrow> False"
  by code_simp

lemma block_type_is_executed:
  "case exec_loop sample_host (sample_state\<lparr>it_call_stack := [sample_frame [0x02, 0x40, 0x0B]]\<rparr>) of
     Some (Ret (Inl e, _)) \<Rightarrow> e = StackUnderflow
   | _ \<Rightarrow> False"
  by code_simp

definition wasi_import :: "string \<Rightarrow> import_desc" where
  "wasi_import name = \<lparr>imp_module = str_bytes ''wasi_snapshot_preview1'', imp_name = str_bytes name,
     imp_desc = ImportFunction 0\<rparr>"

definition wasi_state :: interp where
  "wasi_state =
     register_named_host_function (str_bytes ''wasi_snapshot_preview1'') (str_bytes ''proc_exit'') 1
       (register_named_host_function (str_bytes ''wasi_snapshot_preview1'') (str_bytes ''fd_write'') 0
         (sample_state\<lparr>it_module := empty_module\<lparr>wm_imports := [wasi_import ''proc_exit'', wasi_import ''fd_write'']\<rparr>\<rparr>))"

lemma wasi_imports_crossed:
  "case auto_register_wasi wasi_state of Panic \<Rightarrow> False | Ret s \<Rightarrow> it_host_functions s = [Some 0, Some 1]"
  by code_simp

end
