(* ===== verification/Credo_Policy.thy ===== *)
theory Credo_Policy
  imports Prelude
begin

text \<open>
  The capability policy of the identity system (\<^verbatim>\<open>src/src/kernel/services/credo/policy.rs\<close>).  A capability
  matrix gives each principal 64 capability bits in each of 16 domains.  The trait \<^verbatim>\<open>CapabilityMatrix\<close> is the
  record of operations \<open>matrix_ops\<close>, on which the policy engine is written, with the locale \<open>capability_matrix\<close>
  of what an implementation promises; \<^verbatim>\<open>InMemoryMatrix\<close> and the read-only \<^verbatim>\<open>InMemoryCaps\<close> (\<^verbatim>\<open>sessions.rs\<close>) implement it.
  The retry loops around compare-and-exchange are partial functions; \<open>cap_step\<close> runs any number of them at once,
  one atomic access at a time.
\<close>

section \<open>Capabilities\<close>

type_synonym cap_domain = u8
type_synonym cap_bits = u64

definition CAP_DOMAINS :: nat where
  "CAP_DOMAINS = 16"

definition domain_valid :: "cap_domain \<Rightarrow> bool" where
  "domain_valid d \<longleftrightarrow> unat d < CAP_DOMAINS"

definition cap_contains :: "cap_bits \<Rightarrow> cap_bits \<Rightarrow> bool" where
  "cap_contains self other \<longleftrightarrow> self AND other = other"

definition cap_diff :: "cap_bits \<Rightarrow> cap_bits \<Rightarrow> cap_bits" where
  "cap_diff self other = self AND NOT other"

definition VIABLE_FLOOR :: "u64 list" where
  "VIABLE_FLOOR = (replicate CAP_DOMAINS 0)[1 := 5, 3 := 3, 5 := 1]"

datatype deny_reason = DenyInvalidDomain | UnknownPwm | DenyNoAuthority | DenyFloorProtected | Disabled

datatype policy_result = Allow | Deny deny_reason

datatype grant_result = Granted | GrantNoAuthority | GrantInvalidDomain | GrantEmpty

datatype revoke_result = Revoked | NoChange | RevokeInvalidDomain | RevokeFloorProtected

section \<open>Matrices\<close>

record 'm matrix_ops =
  mo_get :: "'m \<Rightarrow> cap_domain \<Rightarrow> cap_bits option"
  mo_set :: "'m \<Rightarrow> cap_domain \<Rightarrow> cap_bits \<Rightarrow> (unit + cap_bits) \<times> 'm"
  mo_compare_exchange :: "'m \<Rightarrow> cap_domain \<Rightarrow> cap_bits \<Rightarrow> cap_bits \<Rightarrow> (cap_bits + cap_bits) \<times> 'm"

definition matrix_new :: "u64 list" where
  "matrix_new = replicate CAP_DOMAINS 0"

definition matrix_get :: "u64 list \<Rightarrow> cap_domain \<Rightarrow> cap_bits option" where
  "matrix_get rows d = (if \<not> domain_valid d then None else Some (rows ! unat d))"

definition matrix_set :: "u64 list \<Rightarrow> cap_domain \<Rightarrow> cap_bits \<Rightarrow> (unit + cap_bits) \<times> u64 list" where
  "matrix_set rows d bits =
     (if \<not> domain_valid d then (Inl (), rows) else (Inr (rows ! unat d), rows[unat d := bits]))"

definition matrix_compare_exchange ::
  "u64 list \<Rightarrow> cap_domain \<Rightarrow> cap_bits \<Rightarrow> cap_bits \<Rightarrow> (cap_bits + cap_bits) \<times> u64 list" where
  "matrix_compare_exchange rows d current new =
     (if \<not> domain_valid d then (Inl current, rows)
      else if rows ! unat d = current then (Inr current, rows[unat d := new])
      else (Inl (rows ! unat d), rows))"

definition in_memory_matrix :: "u64 list matrix_ops" where
  "in_memory_matrix =
     \<lparr>mo_get = matrix_get, mo_set = matrix_set, mo_compare_exchange = matrix_compare_exchange\<rparr>"

text \<open>The matrix over a snapshot that a login checks: it cannot be written.\<close>

definition caps_set :: "u64 list \<Rightarrow> cap_domain \<Rightarrow> cap_bits \<Rightarrow> (unit + cap_bits) \<times> u64 list" where
  "caps_set caps d bits = (Inl (), caps)"

definition caps_compare_exchange ::
  "u64 list \<Rightarrow> cap_domain \<Rightarrow> cap_bits \<Rightarrow> cap_bits \<Rightarrow> (cap_bits + cap_bits) \<times> u64 list" where
  "caps_compare_exchange caps d current new = (Inl (caps ! unat d), caps)"

definition in_memory_caps :: "u64 list matrix_ops" where
  "in_memory_caps = \<lparr>mo_get = matrix_get, mo_set = caps_set, mo_compare_exchange = caps_compare_exchange\<rparr>"

section \<open>The policy engine\<close>

definition policy_check :: "'m matrix_ops \<Rightarrow> 'm \<Rightarrow> cap_domain \<Rightarrow> cap_bits \<Rightarrow> policy_result" where
  "policy_check ops matrix d required =
     (if \<not> domain_valid d then Deny DenyInvalidDomain
      else if required = 0 then Allow
      else case mo_get ops matrix d of
             None \<Rightarrow> Deny UnknownPwm
           | Some owned \<Rightarrow>
               if \<not> cap_contains owned required then Deny DenyNoAuthority
               else
                 let floor = VIABLE_FLOOR ! unat d in
                 if cap_contains required floor then Deny DenyFloorProtected else Allow)"

text \<open>The loop that \<^verbatim>\<open>grant\<close> and \<^verbatim>\<open>revoke\<close> share, for the update \<open>f\<close> of the bits.\<close>

partial_function (option) cas_loop :: "'m matrix_ops \<Rightarrow> cap_domain \<Rightarrow> (cap_bits \<Rightarrow> cap_bits) \<Rightarrow> 'm \<Rightarrow> 'm option" where
  "cas_loop ops d f matrix =
     (let current = (case mo_get ops matrix d of Some b \<Rightarrow> b | None \<Rightarrow> 0) in
      case mo_compare_exchange ops matrix d current (f current) of
        (r, matrix') \<Rightarrow>
          (case r of
             Inr _ \<Rightarrow> Some matrix'
           | Inl _ \<Rightarrow> cas_loop ops d f matrix'))"

declare cas_loop.simps [code]

definition policy_grant ::
  "'m matrix_ops \<Rightarrow> 'm \<Rightarrow> 'm \<Rightarrow> cap_domain \<Rightarrow> cap_bits \<Rightarrow> (grant_result \<times> 'm) option" where
  "policy_grant ops from to d bits =
     (if \<not> domain_valid d then Some (GrantInvalidDomain, to)
      else if bits = 0 then Some (GrantEmpty, to)
      else case mo_get ops from d of
             None \<Rightarrow> Some (GrantNoAuthority, to)
           | Some owned \<Rightarrow>
               if \<not> cap_contains owned bits then Some (GrantNoAuthority, to)
               else map_option (\<lambda>to'. (Granted, to')) (cas_loop ops d (\<lambda>current. current OR bits) to))"

definition policy_revoke ::
  "'m matrix_ops \<Rightarrow> 'm \<Rightarrow> cap_domain \<Rightarrow> cap_bits \<Rightarrow> (revoke_result \<times> 'm) option" where
  "policy_revoke ops matrix d bits =
     (if \<not> domain_valid d then Some (RevokeInvalidDomain, matrix)
      else if bits = 0 then Some (NoChange, matrix)
      else
        let revocable = cap_diff bits (VIABLE_FLOOR ! unat d) in
        if revocable = 0 then Some (RevokeFloorProtected, matrix)
        else map_option (\<lambda>m. (Revoked, m)) (cas_loop ops d (\<lambda>current. cap_diff current revocable) matrix))"

section \<open>What an implementation promises\<close>

definition caps_of :: "'m matrix_ops \<Rightarrow> 'm \<Rightarrow> cap_domain \<Rightarrow> cap_bits" where
  "caps_of ops m d = (case mo_get ops m d of Some b \<Rightarrow> b | None \<Rightarrow> 0)"

text \<open>A matrix that can be read on exactly the valid domains and whose compare-and-exchange succeeds on the value
  just read.\<close>

locale capability_matrix =
  fixes ops :: "'m matrix_ops" and ok :: "'m \<Rightarrow> bool"
  assumes get_valid: "ok m \<Longrightarrow> mo_get ops m d = None \<longleftrightarrow> \<not> domain_valid d"
    and cas_current: "ok m \<Longrightarrow> domain_valid d \<Longrightarrow> mo_get ops m d = Some c \<Longrightarrow>
      \<exists>m'. mo_compare_exchange ops m d c n = (Inr c, m') \<and> ok m'
        \<and> (\<forall>d'. mo_get ops m' d' = (if d' = d then Some n else mo_get ops m d'))"
begin

lemma cas_loop_returns:
  assumes "ok m" "domain_valid d"
  shows "\<exists>m'. cas_loop ops d f m = Some m' \<and> ok m' \<and> caps_of ops m' = (caps_of ops m)(d := f (caps_of ops m d))"
proof -
  obtain c where c: "mo_get ops m d = Some c" using get_valid [OF assms(1), of d] assms(2) by blast
  from cas_current [OF assms c, of "f c"] obtain m' where
    m': "mo_compare_exchange ops m d c (f c) = (Inr c, m')" "ok m'"
      "\<forall>d'. mo_get ops m' d' = (if d' = d then Some (f c) else mo_get ops m d')" by blast
  have "cas_loop ops d f m = Some m'" using c m'(1) by (subst cas_loop.simps) simp
  then show ?thesis using m' c by (auto simp: caps_of_def)
qed

lemma grant_outcome:
  assumes "ok from" "ok to"
  shows "\<exists>r to'. policy_grant ops from to d bits = Some (r, to') \<and> ok to'
    \<and> (r = Granted \<longleftrightarrow> domain_valid d \<and> bits \<noteq> 0 \<and> cap_contains (caps_of ops from d) bits)
    \<and> caps_of ops to' = (if r = Granted then (caps_of ops to)(d := caps_of ops to d OR bits) else caps_of ops to)"
proof (cases "domain_valid d \<and> bits \<noteq> 0 \<and> cap_contains (caps_of ops from d) bits")
  case True
  then obtain owned where "mo_get ops from d = Some owned" using get_valid [OF assms(1), of d] by blast
  moreover from cas_loop_returns [OF assms(2), of d "\<lambda>c. c OR bits"] True obtain to' where
    "cas_loop ops d (\<lambda>c. c OR bits) to = Some to'" "ok to'"
    "caps_of ops to' = (caps_of ops to)(d := caps_of ops to d OR bits)" by blast
  ultimately show ?thesis using True by (simp add: policy_grant_def caps_of_def)
next
  case False
  then have "\<exists>r. policy_grant ops from to d bits = Some (r, to) \<and> r \<noteq> Granted"
    by (cases "mo_get ops from d") (auto simp: policy_grant_def caps_of_def)
  with False assms(2) show ?thesis by fastforce
qed

lemma revoke_outcome:
  assumes "ok m"
  shows "\<exists>r m'. policy_revoke ops m d bits = Some (r, m') \<and> ok m'
    \<and> caps_of ops m' = (if domain_valid d
        then (caps_of ops m)(d := cap_diff (caps_of ops m d) (cap_diff bits (VIABLE_FLOOR ! unat d))) else caps_of ops m)"
proof (cases "domain_valid d \<and> cap_diff bits (VIABLE_FLOOR ! unat d) \<noteq> 0")
  case True
  then have "bits \<noteq> 0" by (auto simp: cap_diff_def)
  with cas_loop_returns [OF assms] True show ?thesis
    by (fastforce simp: policy_revoke_def Let_def)
next
  case False
  then show ?thesis using assms by (auto simp: policy_revoke_def Let_def cap_diff_def)
qed

end

definition matrix_ok :: "u64 list \<Rightarrow> bool" where
  "matrix_ok rows \<longleftrightarrow> length rows = CAP_DOMAINS"

interpretation mem: capability_matrix in_memory_matrix matrix_ok
proof
  fix rows :: "u64 list" and d c n
  show "mo_get in_memory_matrix rows d = None \<longleftrightarrow> \<not> domain_valid d" if "matrix_ok rows"
    by (simp add: in_memory_matrix_def matrix_get_def)
  show "\<exists>m'. mo_compare_exchange in_memory_matrix rows d c n = (Inr c, m') \<and> matrix_ok m'
      \<and> (\<forall>d'. mo_get in_memory_matrix m' d' = (if d' = d then Some n else mo_get in_memory_matrix rows d'))"
    if "matrix_ok rows" "domain_valid d" "mo_get in_memory_matrix rows d = Some c"
    using that by (auto simp: in_memory_matrix_def matrix_get_def matrix_compare_exchange_def matrix_ok_def
        domain_valid_def nth_list_update dest: sym word_unat_eq_iff [THEN iffD2])
qed

text \<open>Functional behaviour of the check on every valid domain and every matrix that holds the principal's bits:
  it allows a request exactly when the request is empty, or the bits are owned and the request does not cover
  the whole viable floor of the domain.  A domain without a floor therefore refuses every request that is not empty,
  whatever the principal owns.\<close>
theorem policy_check_exact:
  assumes "matrix_ok rows" "domain_valid d"
  shows "(policy_check in_memory_matrix rows d required = Allow \<longleftrightarrow>
      required = 0 \<or> cap_contains (rows ! unat d) required \<and> \<not> cap_contains required (VIABLE_FLOOR ! unat d))
    \<and> (unat d \<notin> {1, 3, 5} \<longrightarrow> required \<noteq> 0 \<longrightarrow> policy_check in_memory_matrix rows d required \<noteq> Allow)"
proof
  show "policy_check in_memory_matrix rows d required = Allow \<longleftrightarrow>
      required = 0 \<or> cap_contains (rows ! unat d) required \<and> \<not> cap_contains required (VIABLE_FLOOR ! unat d)"
    using assms(2) by (auto simp: policy_check_def in_memory_matrix_def matrix_get_def Let_def)
  then show "unat d \<notin> {1, 3, 5} \<longrightarrow> required \<noteq> 0 \<longrightarrow> policy_check in_memory_matrix rows d required \<noteq> Allow"
    using assms(2)
    by (auto simp: VIABLE_FLOOR_def domain_valid_def nth_list_update CAP_DOMAINS_def cap_contains_def)
qed

theorem policy_check_exact_witness:
  "policy_check in_memory_matrix (replicate 16 255) 1 (0x0A :: u64) = Allow
   \<and> policy_check in_memory_matrix (replicate 16 255) 2 (0x0A :: u64) \<noteq> Allow"
  using policy_check_exact [of "replicate 16 255" 1 "0x0A"] policy_check_exact [of "replicate 16 255" 2 "0x0A"]
  by (simp add: matrix_ok_def CAP_DOMAINS_def domain_valid_def VIABLE_FLOOR_def cap_contains_def)

section \<open>Concurrent grants and revocations\<close>

text \<open>A call that got past its checks updates one row, with the two atomic accesses of its loop: it reads the row
  and then exchanges it, and starts over when the row changed in between.\<close>

datatype cap_call = GrantCall cap_domain cap_bits | RevokeCall cap_domain cap_bits

datatype cap_pc = PcGet | PcExchange cap_bits | PcReturned

primrec call_domain :: "cap_call \<Rightarrow> cap_domain" where
  "call_domain (GrantCall d bits) = d"
| "call_domain (RevokeCall d bits) = d"

primrec call_update :: "cap_call \<Rightarrow> cap_bits \<Rightarrow> cap_bits" where
  "call_update (GrantCall d bits) current = current OR bits"
| "call_update (RevokeCall d bits) current = cap_diff current (cap_diff bits (VIABLE_FLOOR ! unat d))"

inductive cap_step :: "u64 list \<times> (cap_call \<times> cap_pc) list \<Rightarrow> u64 list \<times> (cap_call \<times> cap_pc) list \<Rightarrow> bool" where
  step_get: "i < length ts \<Longrightarrow> ts ! i = (c, PcGet) \<Longrightarrow> matrix_get rows (call_domain c) = Some b \<Longrightarrow>
    cap_step (rows, ts) (rows, ts[i := (c, PcExchange b)])"
| step_exchange: "i < length ts \<Longrightarrow> ts ! i = (c, PcExchange b) \<Longrightarrow>
    matrix_compare_exchange rows (call_domain c) b (call_update c b) = (r, rows') \<Longrightarrow>
    cap_step (rows, ts) (rows', ts[i := (c, case r of Inr _ \<Rightarrow> PcReturned | Inl _ \<Rightarrow> PcGet)])"

definition run_call :: "cap_call \<Rightarrow> u64 list \<Rightarrow> u64 list" where
  "run_call c rows = rows[unat (call_domain c) := call_update c (rows ! unat (call_domain c))]"

text \<open>The calls that returned, in the order of their exchanges.\<close>

definition linearised :: "u64 list \<Rightarrow> cap_call list \<Rightarrow> u64 list \<times> (cap_call \<times> cap_pc) list \<Rightarrow> nat list \<Rightarrow> bool" where
  "linearised rows0 calls st order \<longleftrightarrow>
     map fst (snd st) = calls \<and> distinct order \<and> set order = {i. i < length calls \<and> snd (snd st ! i) = PcReturned}
     \<and> fst st = fold run_call (map ((!) calls) order) rows0"

lemma calls_kept: "i < length ts \<Longrightarrow> ts ! i = (c, p) \<Longrightarrow> map fst (ts[i := (c, q)]) = map fst ts"
  by (metis fst_conv list_update_id map_update)

lemma returned_update:
  "i < length ts \<Longrightarrow> {j. j < length ts \<and> snd (ts[i := (c, q)] ! j) = PcReturned} =
   {j. j < length ts \<and> snd (ts ! j) = PcReturned} - {i} \<union> (if q = PcReturned then {i} else {})"
  by (auto simp: nth_list_update)

lemma linearised_step:
  assumes "linearised rows0 calls (rows, ts) order" "cap_step (rows, ts) st'"
  shows "\<exists>order'. linearised rows0 calls st' order'"
proof -
  have calls: "map fst ts = calls" "length calls = length ts"
    and order: "distinct order" "set order = {i. i < length ts \<and> snd (ts ! i) = PcReturned}"
    and rows: "rows = fold run_call (map ((!) calls) order) rows0"
  proof -
    from assms(1) show calls: "map fst ts = calls" by (simp add: linearised_def)
    then show len: "length calls = length ts" by auto
    from assms(1) show "distinct order" "rows = fold run_call (map ((!) calls) order) rows0"
      by (simp_all add: linearised_def)
    from assms(1) have "set order = {i. i < length calls \<and> snd (ts ! i) = PcReturned}" by (simp add: linearised_def)
    then show "set order = {i. i < length ts \<and> snd (ts ! i) = PcReturned}" by (simp only: len)
  qed
  have keep: "linearised rows0 calls (rows, ts[i := (c, q)]) order"
    if "i < length ts" "ts ! i = (c, p)" "p \<noteq> PcReturned" "q \<noteq> PcReturned" for i c p q
  proof -
    have "set order - {i} = set order" using that order by auto
    then show ?thesis
      using that calls order rows calls_kept [OF that(1,2), of q] returned_update [OF that(1), of c q]
      unfolding linearised_def by simp
  qed
  from assms(2) show ?thesis
  proof (cases rule: cap_step.cases)
    case (step_get i c b)
    then show ?thesis using keep by blast
  next
    case (step_exchange i c b r rows')
    show ?thesis
    proof (cases r)
      case (Inl x)
      then have "rows' = rows" using step_exchange by (auto simp: matrix_compare_exchange_def split: if_splits)
      then show ?thesis using keep [OF step_exchange(2,3), of PcGet] step_exchange(1) Inl by auto
    next
      case (Inr x)
      have i: "i \<notin> set order" using order(2) step_exchange(3) by simp
      have c: "calls ! i = c" using step_exchange(2,3) by (simp flip: calls(1))
      from Inr have "rows' = run_call c rows"
        using step_exchange by (auto simp: matrix_compare_exchange_def run_call_def split: if_splits)
      then have "linearised rows0 calls (rows', ts[i := (c, PcReturned)]) (order @ [i])"
        using calls order rows i c step_exchange(2) calls_kept [OF step_exchange(2,3), of PcReturned]
          returned_update [OF step_exchange(2), of c PcReturned]
        unfolding linearised_def by simp
      then show ?thesis using step_exchange(1) Inr by auto
    qed
  qed
qed


text \<open>Two calls on one row: the second reads the row before the first exchanges it, fails and starts over.\<close>

definition two_calls :: "cap_call list" where
  "two_calls = [GrantCall 1 2, RevokeCall 1 8]"

lemma two_calls_run:
  "rtranclp cap_step (replicate 16 8, map (\<lambda>c. (c, PcGet)) two_calls)
     ((replicate 16 8)[1 := 10], [(GrantCall 1 2, PcReturned), (RevokeCall 1 8, PcGet)])"
proof -
  let ?g = "GrantCall 1 2" and ?r = "RevokeCall 1 8" and ?m = "replicate 16 8 :: u64 list"
  have "cap_step (?m, [(?g, PcGet), (?r, PcGet)]) (?m, [(?g, PcExchange 8), (?r, PcGet)])"
    using step_get [of 0 "[(?g, PcGet), (?r, PcGet)]" ?g ?m 8]
    by (simp add: matrix_get_def domain_valid_def CAP_DOMAINS_def)
  moreover have "cap_step (?m, [(?g, PcExchange 8), (?r, PcGet)]) (?m, [(?g, PcExchange 8), (?r, PcExchange 8)])"
    using step_get [of 1 "[(?g, PcExchange 8), (?r, PcGet)]" ?r ?m 8]
    by (simp add: matrix_get_def domain_valid_def CAP_DOMAINS_def)
  moreover have "cap_step (?m, [(?g, PcExchange 8), (?r, PcExchange 8)])
      (?m[1 := 10], [(?g, PcReturned), (?r, PcExchange 8)])"
    using step_exchange [of 0 "[(?g, PcExchange 8), (?r, PcExchange 8)]" ?g 8 ?m "Inr 8" "?m[1 := 10]"]
    by (simp add: matrix_compare_exchange_def domain_valid_def CAP_DOMAINS_def)
  moreover have "cap_step (?m[1 := 10], [(?g, PcReturned), (?r, PcExchange 8)])
      (?m[1 := 10], [(?g, PcReturned), (?r, PcGet)])"
    using step_exchange [of 1 "[(?g, PcReturned), (?r, PcExchange 8)]" ?r 8 "?m[1 := 10]" "Inl 10" "?m[1 := 10]"]
    by (simp add: matrix_compare_exchange_def domain_valid_def CAP_DOMAINS_def)
  ultimately show ?thesis by (simp add: two_calls_def)
qed


end
