(* ===== verification/Credo_Grants.thy ===== *)
theory Credo_Grants
  imports Credo_Policy
begin

text \<open>
  Delegation of capabilities (\<^verbatim>\<open>src/src/kernel/services/credo/grants.rs\<close>): the table of grant records, the delegation
  engine over it and over two capability matrices, and the cascading revocation.  A record of generation 0 is a free
  slot.  The recursive search for descendants ends because a parent is older than its children; \<open>gt_ok\<close> says so, and
  that no live record has a parent that is gone.
\<close>

section \<open>The table\<close>

definition NON_DELEGATABLE :: u32 where
  "NON_DELEGATABLE = 1"

definition REVOKED :: u32 where
  "REVOKED = 2"

record grant_record =
  gr_from_pwm :: u64
  gr_to_pwm :: u64
  gr_domain :: cap_domain
  gr_bits :: cap_bits
  gr_created_tick :: u64
  gr_expires_tick :: u64
  gr_generation :: u32
  gr_parent_gen :: u32
  gr_flags :: u32

definition GRANT_TABLE_CAPACITY :: nat where
  "GRANT_TABLE_CAPACITY = 256"

record grant_table =
  gt_records :: "grant_record list"
  gt_next_gen :: u32
  gt_used :: u32

definition empty_grant :: grant_record where
  "empty_grant = \<lparr>gr_from_pwm = 0, gr_to_pwm = 0, gr_domain = 0, gr_bits = 0, gr_created_tick = 0,
     gr_expires_tick = 0, gr_generation = 0, gr_parent_gen = 0, gr_flags = 0\<rparr>"

definition grant_table_new :: grant_table where
  "grant_table_new = \<lparr>gt_records = replicate GRANT_TABLE_CAPACITY empty_grant, gt_next_gen = 1, gt_used = 0\<rparr>"

definition gt_add :: "grant_record \<Rightarrow> grant_table \<Rightarrow> u32 option \<times> grant_table" where
  "gt_add record t =
     (if GRANT_TABLE_CAPACITY \<le> unat (gt_used t) then (None, t)
      else
        let gen = gt_next_gen t;
            t1 = t\<lparr>gt_next_gen := gen + 1\<rparr> in
        case find_idx (\<lambda>r. gr_generation r = 0) (gt_records t1) of
          None \<Rightarrow> (None, t1)
        | Some i \<Rightarrow>
            (Some gen, t1\<lparr>gt_records := (gt_records t1)[i := record\<lparr>gr_generation := gen\<rparr>], gt_used := gt_used t1 + 1\<rparr>))"

definition gt_get :: "u32 \<Rightarrow> grant_table \<Rightarrow> grant_record option" where
  "gt_get gen t = (if gen = 0 then None else List.find (\<lambda>r. gr_generation r = gen) (gt_records t))"

text \<open>The loop over the records that are left, with the recursive call over all of them.\<close>

partial_function (option) collect_descendants :: "grant_record list \<Rightarrow> grant_record list \<Rightarrow> u32 \<Rightarrow> u32 list option" where
  "collect_descendants records rest parent =
     (case rest of
        [] \<Rightarrow> Some []
      | r # rs \<Rightarrow>
          if gr_generation r \<noteq> 0 \<and> gr_parent_gen r = parent
          then Option.bind (collect_descendants records records (gr_generation r)) (\<lambda>below.
               Option.bind (collect_descendants records rs parent) (\<lambda>others.
               Some (gr_generation r # below @ others)))
          else collect_descendants records rs parent)"

declare collect_descendants.simps [code]

definition has_flag :: "u32 \<Rightarrow> u32 \<Rightarrow> bool" where
  "has_flag flags f \<longleftrightarrow> flags AND f = f"

definition revoke_one :: "u32 \<Rightarrow> bool \<times> grant_table \<Rightarrow> bool \<times> grant_table" where
  "revoke_one g st =
     (case st of (revoked_any, t) \<Rightarrow>
        case find_idx (\<lambda>r. gr_generation r = g) (gt_records t) of
          None \<Rightarrow> (revoked_any, t)
        | Some i \<Rightarrow>
            let r = gt_records t ! i in
            if has_flag (gr_flags r) REVOKED then (revoked_any, t)
            else (True, t\<lparr>gt_records := (gt_records t)[i := r\<lparr>gr_flags := gr_flags r OR REVOKED, gr_generation := 0\<rparr>],
                          gt_used := gt_used t - 1\<rparr>))"

definition mark_revoked :: "u32 \<Rightarrow> grant_table \<Rightarrow> (bool \<times> grant_table) option" where
  "mark_revoked gen t =
     map_option (\<lambda>ds. fold revoke_one (gen # ds) (False, t)) (collect_descendants (gt_records t) (gt_records t) gen)"

definition gt_is_valid :: "u32 \<Rightarrow> u64 \<Rightarrow> grant_table \<Rightarrow> bool" where
  "gt_is_valid gen current_tick t =
     (case gt_get gen t of
        Some r \<Rightarrow>
          if has_flag (gr_flags r) REVOKED then False
          else if gr_expires_tick r \<noteq> 0 \<and> gr_expires_tick r \<le> current_tick then False
          else True
      | None \<Rightarrow> False)"

primrec revoke_gens :: "u32 list \<Rightarrow> nat \<times> grant_table \<Rightarrow> (nat \<times> grant_table) option" where
  "revoke_gens [] st = Some st"
| "revoke_gens (g # gs) st =
     (case st of (n, t) \<Rightarrow>
        Option.bind (mark_revoked g t) (\<lambda>(b, t'). revoke_gens gs (if b then n + 1 else n, t')))"

definition revoke_all_from :: "u64 \<Rightarrow> grant_table \<Rightarrow> (nat \<times> grant_table) option" where
  "revoke_all_from pwm t =
     revoke_gens (map gr_generation (filter (\<lambda>r. gr_generation r \<noteq> 0 \<and> gr_from_pwm r = pwm) (gt_records t))) (0, t)"

section \<open>The delegation engine\<close>

datatype delegation_deny = DenyNonDelegatable | TableFull | InvalidExpiry | SamePwm | Policy grant_result

datatype delegation_result = DelegationGranted u32 | Denied delegation_deny

definition delegate ::
  "'m matrix_ops \<Rightarrow> 'm \<Rightarrow> 'm \<Rightarrow> u64 \<Rightarrow> u64 \<Rightarrow> cap_domain \<Rightarrow> cap_bits \<Rightarrow> u64 \<Rightarrow> u64 \<Rightarrow> u32 \<Rightarrow> bool \<Rightarrow> grant_table \<Rightarrow>
   (delegation_result \<times> 'm \<times> grant_table) option" where
  "delegate ops from_matrix to_matrix from_pwm to_pwm d bits current_tick expires_tick parent_gen non_delegatable t =
     (if from_pwm = to_pwm then Some (Denied SamePwm, to_matrix, t)
      else if expires_tick \<noteq> 0 \<and> expires_tick \<le> current_tick then Some (Denied InvalidExpiry, to_matrix, t)
      else if parent_gen \<noteq> 0 \<and> \<not> gt_is_valid parent_gen current_tick t then Some (Denied InvalidExpiry, to_matrix, t)
      else Option.bind (policy_grant ops from_matrix to_matrix d bits) (\<lambda>(res, to').
        if res = Granted then
          (let rec = \<lparr>gr_from_pwm = from_pwm, gr_to_pwm = to_pwm, gr_domain = d, gr_bits = bits,
                      gr_created_tick = current_tick, gr_expires_tick = expires_tick, gr_generation = 0,
                      gr_parent_gen = parent_gen, gr_flags = (if non_delegatable then NON_DELEGATABLE else 0)\<rparr> in
           case gt_add rec t of
             (None, t') \<Rightarrow> Some (Denied TableFull, to', t')
           | (Some gen, t') \<Rightarrow> Some (DelegationGranted gen, to', t'))
        else Some (Denied (Policy res), to', t)))"

definition delegation_revoke :: "'m matrix_ops \<Rightarrow> 'm \<Rightarrow> u32 \<Rightarrow> grant_table \<Rightarrow> (bool \<times> 'm \<times> grant_table) option" where
  "delegation_revoke ops matrix gen t =
     (case gt_get gen t of
        Some r \<Rightarrow>
          if has_flag (gr_flags r) REVOKED then Some (False, matrix, t)
          else Option.bind (policy_revoke ops matrix (gr_domain r) (gr_bits r)) (\<lambda>(_, matrix').
               Option.bind (mark_revoked gen t) (\<lambda>(_, t'). Some (True, matrix', t')))
      | None \<Rightarrow> Some (False, matrix, t))"

section \<open>The forest of grants\<close>

abbreviation live :: "grant_record \<Rightarrow> bool" where
  "live r \<equiv> gr_generation r \<noteq> 0"

definition generations_unique :: "grant_record list \<Rightarrow> bool" where
  "generations_unique rs \<longleftrightarrow> inj_on (\<lambda>i. gr_generation (rs ! i)) {i. i < length rs \<and> live (rs ! i)}"

definition gt_core :: "grant_table \<Rightarrow> bool" where
  "gt_core t \<longleftrightarrow> length (gt_records t) = GRANT_TABLE_CAPACITY \<and> gt_next_gen t \<noteq> 0
     \<and> unat (gt_used t) = used_slots live (gt_records t) \<and> generations_unique (gt_records t)
     \<and> (\<forall>r \<in> set (gt_records t). live r \<longrightarrow> gr_generation r < gt_next_gen t \<and> \<not> has_flag (gr_flags r) REVOKED
          \<and> gr_parent_gen r < gr_generation r)"

definition gt_ok :: "grant_table \<Rightarrow> bool" where
  "gt_ok t \<longleftrightarrow> gt_core t
     \<and> (\<forall>g r. gt_get g t = Some r \<longrightarrow> gr_parent_gen r = 0 \<or> gt_get (gr_parent_gen r) t \<noteq> None)"

definition grant_child :: "grant_record list \<Rightarrow> u32 \<Rightarrow> u32 \<Rightarrow> bool" where
  "grant_child records g h \<longleftrightarrow> (\<exists>r \<in> set records. live r \<and> gr_generation r = h \<and> gr_parent_gen r = g)"

abbreviation descends :: "grant_record list \<Rightarrow> u32 \<Rightarrow> u32 \<Rightarrow> bool" where
  "descends records \<equiv> rtranclp (grant_child records)"

lemma generations_uniqueD:
  "generations_unique rs \<Longrightarrow> i < length rs \<Longrightarrow> j < length rs \<Longrightarrow> live (rs ! i) \<Longrightarrow>
   gr_generation (rs ! i) = gr_generation (rs ! j) \<Longrightarrow> i = j"
  unfolding generations_unique_def inj_on_def by fastforce

lemma generations_uniqueI:
  "(\<And>i j. i < length rs \<Longrightarrow> j < length rs \<Longrightarrow> live (rs ! i) \<Longrightarrow> gr_generation (rs ! i) = gr_generation (rs ! j) \<Longrightarrow> i = j) \<Longrightarrow>
   generations_unique rs"
  unfolding generations_unique_def inj_on_def by fastforce

lemma gt_get_iff:
  assumes "gt_core t"
  shows "gt_get g t = Some r \<longleftrightarrow> r \<in> set (gt_records t) \<and> live r \<and> gr_generation r = g"
proof
  assume "gt_get g t = Some r"
  then show "r \<in> set (gt_records t) \<and> live r \<and> gr_generation r = g"
    by (auto simp: gt_get_def find_Some_iff split: if_splits)
next
  assume r: "r \<in> set (gt_records t) \<and> live r \<and> gr_generation r = g"
  then obtain i where i: "i < length (gt_records t)" "gt_records t ! i = r" by (auto simp: in_set_conv_nth)
  have "gr_generation (gt_records t ! j) \<noteq> g" if "j < i" for j
  proof
    assume eq: "gr_generation (gt_records t ! j) = g"
    have "generations_unique (gt_records t)" using assms by (simp add: gt_core_def)
    then have "i = j" by (rule generations_uniqueD) (use r i that eq in auto)
    then show False using that by simp
  qed
  then show "gt_get g t = Some r" using r i by (auto simp: gt_get_def find_Some_iff)
qed

lemma gt_get_None_iff:
  "gt_core t \<Longrightarrow> gt_get g t = None \<longleftrightarrow> (\<forall>r \<in> set (gt_records t). live r \<longrightarrow> gr_generation r \<noteq> g)"
  using gt_get_iff [of t g] by (metis not_None_eq)

lemma descends_unfold:
  "descends records g h \<longleftrightarrow>
   h = g \<or> (\<exists>c \<in> set records. live c \<and> gr_parent_gen c = g \<and> descends records (gr_generation c) h)"
proof
  assume "descends records g h"
  then show "h = g \<or> (\<exists>c \<in> set records. live c \<and> gr_parent_gen c = g \<and> descends records (gr_generation c) h)"
    by (rule converse_rtranclpE) (auto simp: grant_child_def)
next
  assume "h = g \<or> (\<exists>c \<in> set records. live c \<and> gr_parent_gen c = g \<and> descends records (gr_generation c) h)"
  then show "descends records g h"
    by (metis converse_rtranclp_into_rtranclp grant_child_def rtranclp.rtrancl_refl)
qed

text \<open>The search ends and finds exactly the descendants.\<close>

lemma collect_descendants_exact:
  assumes "\<forall>r \<in> set records. live r \<longrightarrow> gr_parent_gen r < gr_generation r" "set rest \<subseteq> set records"
  shows "\<exists>ds. collect_descendants records rest parent = Some ds \<and>
    set ds = {h. \<exists>r \<in> set rest. live r \<and> gr_parent_gen r = parent \<and> descends records (gr_generation r) h}"
  using assms(2)
proof (induction "(- 1 :: u32) - parent" arbitrary: parent rest rule: less_induct)
  case less
  note outer = less(1)
  show ?case using less(2)
  proof (induction rest)
    case Nil
    then show ?case by (subst collect_descendants.simps) simp
  next
    case (Cons r rs)
    then obtain others where others: "collect_descendants records rs parent = Some others"
      "set others = {h. \<exists>r \<in> set rs. live r \<and> gr_parent_gen r = parent \<and> descends records (gr_generation r) h}" by auto
    show ?case
    proof (cases "live r \<and> gr_parent_gen r = parent")
      case False
      then show ?thesis using others by (subst collect_descendants.simps) auto
    next
      case True
      then have "parent < gr_generation r" using assms(1) Cons.prems by auto
      then have "- 1 - gr_generation r < - 1 - parent" by (simp add: word_less_nat_alt unat_sub unat_max_word) (use unat_bound [of "gr_generation r"] in simp)
      from outer [OF this, of records] obtain below where
        below: "collect_descendants records records (gr_generation r) = Some below"
        "set below = {h. \<exists>c \<in> set records. live c \<and> gr_parent_gen c = gr_generation r \<and> descends records (gr_generation c) h}"
        by auto
      have "insert (gr_generation r) (set below) = {h. descends records (gr_generation r) h}"
        unfolding below(2) by (auto simp: descends_unfold [of records "gr_generation r"])
      moreover have "collect_descendants records (r # rs) parent = Some (gr_generation r # below @ others)"
        using True others(1) below(1) by (subst collect_descendants.simps) simp
      ultimately show ?thesis using others(2) True by auto
    qed
  qed
qed

section \<open>Revocation\<close>

lemma revoke_one_cases:
  assumes "gt_core t" "g \<noteq> 0"
  shows "gt_get g t = None \<Longrightarrow> revoke_one g (b, t) = (b, t)"
    and "gt_get g t = Some r \<Longrightarrow> \<exists>i. i < length (gt_records t) \<and> gt_records t ! i = r \<and> revoke_one g (b, t) =
      (True, t\<lparr>gt_records := (gt_records t)[i := r\<lparr>gr_flags := gr_flags r OR REVOKED, gr_generation := 0\<rparr>],
               gt_used := gt_used t - 1\<rparr>)"
proof -
  assume "gt_get g t = None"
  then have "find_idx (\<lambda>r. gr_generation r = g) (gt_records t) = None"
    using assms by (auto simp: gt_get_None_iff find_idx_None_iff)
  then show "revoke_one g (b, t) = (b, t)" by (simp add: revoke_one_def)
next
  assume "gt_get g t = Some r"
  then have r: "r \<in> set (gt_records t)" "live r" "gr_generation r = g" using gt_get_iff [OF assms(1)] by auto
  then obtain i where i: "find_idx (\<lambda>r. gr_generation r = g) (gt_records t) = Some i"
    by (cases "find_idx (\<lambda>r. gr_generation r = g) (gt_records t)") (auto simp: find_idx_None_iff)
  note D = find_idx_SomeD [OF i]
  have "gt_get g t = Some (gt_records t ! i)" using gt_get_iff [OF assms(1)] D assms(2) by auto
  then have "gt_records t ! i = r" using \<open>gt_get g t = Some r\<close> by simp
  moreover have "\<not> has_flag (gr_flags r) REVOKED" using assms(1) r by (auto simp: gt_core_def)
  ultimately show "\<exists>i. i < length (gt_records t) \<and> gt_records t ! i = r \<and> revoke_one g (b, t) =
      (True, t\<lparr>gt_records := (gt_records t)[i := r\<lparr>gr_flags := gr_flags r OR REVOKED, gr_generation := 0\<rparr>],
               gt_used := gt_used t - 1\<rparr>)"
    using i D(1) by (auto simp: revoke_one_def Let_def)
qed

lemma generations_unique_update:
  "generations_unique rs \<Longrightarrow> i < length rs \<Longrightarrow> \<not> live x \<Longrightarrow> generations_unique (rs[i := x])"
  by (rule generations_uniqueI) (auto simp: nth_list_update split: if_splits dest: generations_uniqueD)

lemma revoke_one_core:
  assumes "gt_core t" "g \<noteq> 0" "revoke_one g (b, t) = (b', t')"
  shows "gt_core t' \<and> (b' \<longleftrightarrow> b \<or> gt_get g t \<noteq> None) \<and> gt_next_gen t' = gt_next_gen t
    \<and> (\<forall>h. gt_get h t' = (if h = g then None else gt_get h t))"
proof (cases "gt_get g t")
  case None
  then show ?thesis using revoke_one_cases(1) [OF assms(1,2) None, of b] assms(1,3) by auto
next
  case (Some r)
  obtain i where i: "i < length (gt_records t)" "gt_records t ! i = r"
    and t': "b' = True" "t' = t\<lparr>gt_records := (gt_records t)[i := r\<lparr>gr_flags := gr_flags r OR REVOKED, gr_generation := 0\<rparr>],
      gt_used := gt_used t - 1\<rparr>"
    using revoke_one_cases(2) [OF assms(1,2) Some, of b] assms(3) by auto
  let ?x = "r\<lparr>gr_flags := gr_flags r OR REVOKED, gr_generation := 0\<rparr>"
  have r: "live r" "gr_generation r = g" using Some gt_get_iff [OF assms(1)] by auto
  have mem: "x \<in> set (gt_records t') \<and> live x \<longleftrightarrow> x \<in> set (gt_records t) \<and> live x \<and> gr_generation x \<noteq> g" for x
  proof -
    have "gr_generation (gt_records t ! j) = g \<longleftrightarrow> j = i" if "j < length (gt_records t)" for j
    proof
      assume eq: "gr_generation (gt_records t ! j) = g"
      have "generations_unique (gt_records t)" using assms(1) by (simp add: gt_core_def)
      then have "i = j" by (rule generations_uniqueD) (use r i that eq in simp_all)
      then show "j = i" by simp
    qed (use i r in simp)
    note idx = this
    have "x \<in> set (gt_records t') \<and> live x \<longleftrightarrow> (\<exists>j < length (gt_records t). j \<noteq> i \<and> gt_records t ! j = x) \<and> live x"
      using in_set_list_update_iff [OF i(1), of x ?x] t'(2) by auto
    also have "\<dots> \<longleftrightarrow> (\<exists>j < length (gt_records t). gt_records t ! j = x \<and> gr_generation x \<noteq> g) \<and> live x"
      using idx by blast
    finally show ?thesis by (auto simp: in_set_conv_nth)
  qed
  have "used_slots live ((gt_records t)[i := ?x]) + 1 = used_slots live (gt_records t)"
    using used_slots_update [OF i(1), of live ?x] i r by simp
  moreover have "0 < unat (gt_used t)" using calculation assms(1) by (simp add: gt_core_def)
  then have "unat (gt_used t - 1) = unat (gt_used t) - 1"
    by (metis One_nat_def unat_1 unat_sub word_le_nat_alt Suc_leI)
  ultimately have core: "gt_core t'"
    using assms(1) i t' mem generations_unique_update [of "gt_records t" i ?x]
    by (auto simp: gt_core_def)
  have "gt_get h t' = (if h = g then None else gt_get h t)" for h
  proof (rule option_eqI)
    fix x
    show "gt_get h t' = Some x \<longleftrightarrow> (if h = g then None else gt_get h t) = Some x"
      using gt_get_iff [OF core, of h x] gt_get_iff [OF assms(1), of h x] mem [of x] by (auto split: if_splits)
  qed
  then show ?thesis using core Some t' by simp
qed

lemma revoke_all_core:
  assumes "gt_core t" "\<forall>g \<in> set gs. g \<noteq> 0" "fold revoke_one gs (b, t) = (b', t')"
  shows "gt_core t' \<and> (b' \<longleftrightarrow> b \<or> (\<exists>g \<in> set gs. gt_get g t \<noteq> None)) \<and> gt_next_gen t' = gt_next_gen t
    \<and> (\<forall>h. gt_get h t' = (if h \<in> set gs then None else gt_get h t))"
  using assms
proof (induction gs arbitrary: b t)
  case (Cons g gs)
  obtain b1 t1 where 1: "revoke_one g (b, t) = (b1, t1)" by (cases "revoke_one g (b, t)")
  have g: "g \<noteq> 0" using Cons.prems(2) by simp
  note one = revoke_one_core [OF Cons.prems(1) g 1]
  have "gt_core t' \<and> (b' \<longleftrightarrow> b1 \<or> (\<exists>g \<in> set gs. gt_get g t1 \<noteq> None)) \<and> gt_next_gen t' = gt_next_gen t1
    \<and> (\<forall>h. gt_get h t' = (if h \<in> set gs then None else gt_get h t1))"
    by (rule Cons.IH) (use one Cons.prems 1 in auto)
  then show ?case using one by (auto split: if_splits)
qed simp

lemma live_descendants: "descends records g h \<Longrightarrow> g \<noteq> 0 \<Longrightarrow> h \<noteq> 0"
  by (induction rule: rtranclp_induct) (auto simp: grant_child_def)

lemma mark_revoked_exact:
  assumes "gt_ok t" "gt_get g t \<noteq> None"
  shows "\<exists>t'. mark_revoked g t = Some (True, t') \<and> gt_ok t' \<and> gt_next_gen t' = gt_next_gen t
    \<and> (\<forall>h. gt_get h t' = (if descends (gt_records t) g h then None else gt_get h t))"
proof -
  have core: "gt_core t" using assms(1) by (simp add: gt_ok_def)
  have g: "g \<noteq> 0" using assms(2) by (auto simp: gt_get_def)
  have "\<forall>r \<in> set (gt_records t). live r \<longrightarrow> gr_parent_gen r < gr_generation r" using core by (simp add: gt_core_def)
  from collect_descendants_exact [OF this order_refl, of g] obtain ds where
    ds: "collect_descendants (gt_records t) (gt_records t) g = Some ds" "insert g (set ds) = {h. descends (gt_records t) g h}"
    by (auto simp: descends_unfold [of "gt_records t" g])
  obtain b' t' where fold: "fold revoke_one (g # ds) (False, t) = (b', t')"
    by (cases "fold revoke_one (g # ds) (False, t)")
  have "\<forall>h \<in> set (g # ds). h \<noteq> 0" using ds(2) live_descendants g by auto
  note all = revoke_all_core [OF core this fold]
  have get: "gt_get h t' = (if descends (gt_records t) g h then None else gt_get h t)" for h
    using all ds(2) by auto
  have closed: "gt_get (gr_parent_gen r) t' \<noteq> None" if r: "gt_get h t' = Some r" "gr_parent_gen r \<noteq> 0" for h r
  proof -
    have h: "\<not> descends (gt_records t) g h" "gt_get h t = Some r" using r(1) get [of h] by (auto split: if_splits)
    then have "grant_child (gt_records t) (gr_parent_gen r) h" using gt_get_iff [OF core] by (auto simp: grant_child_def)
    then have "\<not> descends (gt_records t) g (gr_parent_gen r)" using h(1) by (meson rtranclp.rtrancl_into_rtrancl)
    then show ?thesis using get [of "gr_parent_gen r"] assms(1) h(2) r(2) by (auto simp: gt_ok_def)
  qed
  have "gt_core t'" "gt_next_gen t' = gt_next_gen t" using all by simp_all
  moreover have "gt_ok t'" unfolding gt_ok_def using closed \<open>gt_core t'\<close> by blast
  moreover have "mark_revoked g t = Some (True, t')" using all assms(2) ds(1) fold by (simp add: mark_revoked_def)
  ultimately show ?thesis using get by blast
qed

section \<open>Histories\<close>

text \<open>The state of the engine: the table, and the matrix of every principal.  A call of \<^verbatim>\<open>revoke\<close> names any principal's
  matrix, as its callers may.  The number of grants is below \<open>2\<^sup>3\<^sup>2 - 1\<close>, so that generations do not wrap around.\<close>

type_synonym credo = "grant_table \<times> (u64 \<Rightarrow> u64 list)"

inductive credo_step :: "credo \<Rightarrow> credo \<Rightarrow> bool" where
  credo_delegate: "gt_next_gen t \<noteq> - 1 \<Longrightarrow>
    delegate in_memory_matrix (caps p) (caps q) p q d bits now expires parent nd t = Some (res, m, t') \<Longrightarrow>
    credo_step (t, caps) (t', caps(q := m))"
| credo_revoke: "delegation_revoke in_memory_matrix (caps q) g t = Some (b, m, t') \<Longrightarrow>
    credo_step (t, caps) (t', caps(q := m))"
| credo_revoke_all: "revoke_all_from p t = Some (n, t') \<Longrightarrow> credo_step (t, caps) (t', caps)"

inductive_cases credo_stepE: "credo_step (t, caps) st"

lemma gt_ok_new: "gt_ok grant_table_new"
proof -
  have dead: "\<not> live r" if "r \<in> set (gt_records grant_table_new)" for r
    using that by (auto simp: grant_table_new_def empty_grant_def)
  then have none: "gt_get g grant_table_new = None" for g
    by (auto simp: gt_get_def find_eq_None_iff)
  have "generations_unique (gt_records grant_table_new)"
    by (rule generations_uniqueI) (auto simp: grant_table_new_def empty_grant_def)
  moreover have "used_slots live (gt_records grant_table_new) = 0"
    by (simp add: grant_table_new_def empty_grant_def)
  ultimately show ?thesis
    using dead none by (auto simp: gt_ok_def gt_core_def) (simp_all add: grant_table_new_def)
qed

lemma gt_add_full:
  "gt_ok t \<Longrightarrow> gt_add r t = (None, t') \<Longrightarrow> t' = t"
  unfolding gt_add_def gt_ok_def gt_core_def Let_def
  by (auto split: if_splits option.splits simp: find_idx_None_iff used_slots_eq_length [THEN iffD2])

lemma gt_add_get:
  assumes "gt_ok t" "gt_next_gen t \<noteq> - 1" "gt_add r t = (Some g, t')" "\<not> has_flag (gr_flags r) REVOKED"
    and "gr_parent_gen r = 0 \<or> gt_get (gr_parent_gen r) t \<noteq> None"
  shows "gt_ok t' \<and> g = gt_next_gen t \<and> gt_get g t = None
    \<and> (\<forall>h. gt_get h t' = (if h = g then Some (r\<lparr>gr_generation := g\<rparr>) else gt_get h t))"
proof -
  have core: "gt_core t" using assms(1) by (simp add: gt_ok_def)
  let ?x = "r\<lparr>gr_generation := gt_next_gen t\<rparr>"
  obtain i where i: "find_idx (\<lambda>r. gr_generation r = 0) (gt_records t) = Some i" and g: "g = gt_next_gen t"
    and used: "unat (gt_used t) < GRANT_TABLE_CAPACITY"
    and t': "t' = t\<lparr>gt_next_gen := g + 1, gt_records := (gt_records t)[i := ?x], gt_used := gt_used t + 1\<rparr>"
    using assms(3) by (auto simp: gt_add_def Let_def split: if_splits option.splits)
  note D = find_idx_SomeD [OF i]
  have g0: "g \<noteq> 0" "g < g + 1" using core g assms(2) by (auto simp: gt_core_def word_less_add_1)
  have older: "gr_generation x < g" if "x \<in> set (gt_records t)" "live x" for x using core that g by (auto simp: gt_core_def)
  have mem: "x \<in> set (gt_records t') \<and> live x \<longleftrightarrow> x = ?x \<or> x \<in> set (gt_records t) \<and> live x" for x
    using in_set_list_update_iff [OF D(1), of x ?x] t' g g0 D(2) by (auto simp: in_set_conv_nth)
  have parent: "gr_parent_gen r < g"
  proof (cases "gr_parent_gen r = 0")
    case True
    then show ?thesis using g0 by (simp add: word_gt_0)
  next
    case False
    then obtain x where "gt_get (gr_parent_gen r) t = Some x" using assms(5) by blast
    then show ?thesis using older [of x] gt_get_iff [OF core] by auto
  qed
  have recs: "gr_generation x < g + 1 \<and> \<not> has_flag (gr_flags x) REVOKED \<and> gr_parent_gen x < gr_generation x"
    if "x \<in> set (gt_records t')" "live x" for x
  proof -
    from that mem [of x] consider "x = ?x" | "x \<in> set (gt_records t)" by blast
    then show ?thesis
    proof cases
      case 1
      then show ?thesis using parent g g0 assms(4) by simp
    next
      case 2
      then have "gr_generation x < g + 1" using older that(2) g0(2) by (meson order_less_trans)
      then show ?thesis using core 2 that(2) by (simp add: gt_core_def)
    qed
  qed
  have "generations_unique (gt_records t')"
    unfolding t'
  proof (rule generations_uniqueI)
    fix j k
    let ?rs = "(gt_records t)[i := ?x]"
    assume *: "j < length (gt_records (t\<lparr>gt_next_gen := g + 1, gt_records := ?rs, gt_used := gt_used t + 1\<rparr>))"
      "k < length (gt_records (t\<lparr>gt_next_gen := g + 1, gt_records := ?rs, gt_used := gt_used t + 1\<rparr>))"
      "live (gt_records (t\<lparr>gt_next_gen := g + 1, gt_records := ?rs, gt_used := gt_used t + 1\<rparr>) ! j)"
      "gr_generation (gt_records (t\<lparr>gt_next_gen := g + 1, gt_records := ?rs, gt_used := gt_used t + 1\<rparr>) ! j)
        = gr_generation (gt_records (t\<lparr>gt_next_gen := g + 1, gt_records := ?rs, gt_used := gt_used t + 1\<rparr>) ! k)"
    have new: "gr_generation (gt_records t ! n) \<noteq> g" if "n < length (gt_records t)" for n
      using older [of "gt_records t ! n"] that g0 by (cases "live (gt_records t ! n)") auto
    have "generations_unique (gt_records t)" using core by (simp add: gt_core_def)
    note uniq = generations_uniqueD [OF this, of j k]
    show "j = k"
      by (cases "j = i"; cases "k = i") (use * new [of j] new [of k] uniq g in simp_all)
  qed
  moreover have "used_slots live ((gt_records t)[i := ?x]) = used_slots live (gt_records t) + 1"
    using used_slots_update [OF D(1), of live ?x] D(2) g g0 by simp
  moreover have "unat (gt_used t + 1) = unat (gt_used t) + 1"
    using unat_add_1_bounded [OF used] by (simp add: GRANT_TABLE_CAPACITY_def)
  moreover have "gt_next_gen t' \<noteq> 0" using t' g0(2) word_gt_0 [of "g + 1"] by auto
  ultimately have core': "gt_core t'"
    unfolding gt_core_def using core recs by (simp add: gt_core_def t')
  have none: "gt_get g t = None" using older gt_get_None_iff [OF core] by blast
  have get: "gt_get h t' = (if h = g then Some ?x else gt_get h t)" for h
  proof (rule option_eqI)
    fix x
    show "gt_get h t' = Some x \<longleftrightarrow> (if h = g then Some ?x else gt_get h t) = Some x"
      using gt_get_iff [OF core', of h x] gt_get_iff [OF core, of h x] mem [of x] older [of x] g g0
      by (auto split: if_splits)
  qed
  have "gt_ok t'" unfolding gt_ok_def
    using core' get assms(1,5) by (auto simp: gt_ok_def split: if_splits)
  then show ?thesis using get g none by simp
qed

lemma mark_revoked_absent:
  assumes "gt_ok t" "g \<noteq> 0" "gt_get g t = None"
  shows "mark_revoked g t = Some (False, t)"
proof -
  have core: "gt_core t" using assms(1) by (simp add: gt_ok_def)
  have orphan: "gr_parent_gen r \<noteq> g" if "r \<in> set (gt_records t)" "live r" for r
  proof -
    have "gt_get (gr_generation r) t = Some r" using gt_get_iff [OF core] that by blast
    then have "gr_parent_gen r = 0 \<or> gt_get (gr_parent_gen r) t \<noteq> None" using assms(1) unfolding gt_ok_def by blast
    then show ?thesis using assms(2,3) by auto
  qed
  have "\<forall>r \<in> set (gt_records t). live r \<longrightarrow> gr_parent_gen r < gr_generation r" using core by (simp add: gt_core_def)
  from collect_descendants_exact [OF this order_refl, of g] obtain ds where
    ds: "collect_descendants (gt_records t) (gt_records t) g = Some ds"
      "set ds = {h. \<exists>r \<in> set (gt_records t). live r \<and> gr_parent_gen r = g \<and> descends (gt_records t) (gr_generation r) h}"
    by blast
  have "set ds = {}" unfolding ds(2) using orphan by blast
  then have "collect_descendants (gt_records t) (gt_records t) g = Some []" using ds(1) by simp
  then show ?thesis using revoke_one_cases(1) [OF core assms(2,3)] by (simp add: mark_revoked_def)
qed

lemma mark_revoked_ok:
  assumes "gt_ok t" "g \<noteq> 0"
  shows "\<exists>b t'. mark_revoked g t = Some (b, t') \<and> gt_ok t' \<and> gt_get g t' = None
    \<and> (\<forall>h r. gt_get h t' = Some r \<longrightarrow> gt_get h t = Some r)"
proof (cases "gt_get g t = None")
  case True
  then show ?thesis using mark_revoked_absent [OF assms] assms(1) by auto
next
  case False
  from mark_revoked_exact [OF assms(1) this] obtain t' where
    t': "mark_revoked g t = Some (True, t')" "gt_ok t'"
      "\<And>h. gt_get h t' = (if descends (gt_records t) g h then None else gt_get h t)" by blast
  have "gt_get h t = Some r" if "gt_get h t' = Some r" for h r
    using that unfolding t'(3) by (simp split: if_splits)
  then show ?thesis using t' by auto
qed

lemma revoke_gens_ok:
  "gt_ok t \<Longrightarrow> \<forall>g \<in> set gs. g \<noteq> 0 \<Longrightarrow> \<exists>n' t'. revoke_gens gs (n, t) = Some (n', t') \<and> gt_ok t'
     \<and> (\<forall>h r. gt_get h t' = Some r \<longrightarrow> gt_get h t = Some r \<and> h \<notin> set gs)"
proof (induction gs arbitrary: n t)
  case (Cons g gs)
  from mark_revoked_ok [of t g] Cons.prems obtain b t1 where
    1: "mark_revoked g t = Some (b, t1)" "gt_ok t1" "gt_get g t1 = None" "\<forall>h r. gt_get h t1 = Some r \<longrightarrow> gt_get h t = Some r"
    by auto
  from Cons.IH [OF 1(2), of "if b then n + 1 else n"] Cons.prems(2) obtain n' t' where
    2: "revoke_gens gs (if b then n + 1 else n, t1) = Some (n', t')" "gt_ok t'"
      "\<forall>h r. gt_get h t' = Some r \<longrightarrow> gt_get h t1 = Some r \<and> h \<notin> set gs" by auto
  have "gt_get h t = Some r \<and> h \<notin> set (g # gs)" if "gt_get h t' = Some r" for h r
    using that 1(3,4) 2(3) by (metis option.distinct(1) set_ConsD)
  then show ?case using 1(1) 2(1,2) by simp
qed simp

lemma revoke_all_from_ok:
  assumes "gt_ok t"
  shows "\<exists>n t'. revoke_all_from p t = Some (n, t') \<and> gt_ok t'
    \<and> (\<forall>h r. gt_get h t' = Some r \<longrightarrow> gt_get h t = Some r \<and> gr_from_pwm r \<noteq> p)"
proof -
  let ?gs = "map gr_generation (filter (\<lambda>r. live r \<and> gr_from_pwm r = p) (gt_records t))"
  have core: "gt_core t" using assms by (simp add: gt_ok_def)
  from revoke_gens_ok [OF assms, of ?gs 0] obtain n t' where
    "revoke_gens ?gs (0, t) = Some (n, t')" "gt_ok t'"
    "\<forall>h r. gt_get h t' = Some r \<longrightarrow> gt_get h t = Some r \<and> h \<notin> set ?gs" by auto
  then show ?thesis using gt_get_iff [OF core] by (fastforce simp: revoke_all_from_def)
qed

definition caps_within :: "u64 list \<Rightarrow> u64 list \<Rightarrow> u64 list \<Rightarrow> bool" where
  "caps_within m a b \<longleftrightarrow> (\<forall>d n. domain_valid d \<longrightarrow> bit (m ! unat d) n \<longrightarrow> bit (a ! unat d) n \<or> bit (b ! unat d) n)"

lemma caps_of_mem: "domain_valid d \<Longrightarrow> caps_of in_memory_matrix rows d = rows ! unat d"
  by (simp add: caps_of_def in_memory_matrix_def matrix_get_def)

lemma delegate_ok:
  assumes "gt_ok t" "matrix_ok a" "matrix_ok b" "gt_next_gen t \<noteq> - 1"
    and "delegate in_memory_matrix a b p q d bits now expires parent nd t = Some (res, m, t')"
  shows "gt_ok t' \<and> matrix_ok m \<and> caps_within m a b"
proof -
  from mem.grant_outcome [OF assms(2,3), of d bits] obtain r to' where
    g: "policy_grant in_memory_matrix a b d bits = Some (r, to')" "matrix_ok to'"
      "r = Granted \<longleftrightarrow> domain_valid d \<and> bits \<noteq> 0 \<and> cap_contains (caps_of in_memory_matrix a d) bits"
      "caps_of in_memory_matrix to' = (if r = Granted then (caps_of in_memory_matrix b)(d := caps_of in_memory_matrix b d OR bits)
         else caps_of in_memory_matrix b)" by blast
  have within: "caps_within to' a b"
    unfolding caps_within_def
  proof (intro allI impI)
    fix e n assume e: "domain_valid e" "bit (to' ! unat e) n"
    have "to' ! unat e = (if r = Granted \<and> e = d then b ! unat e OR bits else b ! unat e)"
      using g(3,4) e(1) by (auto simp: fun_eq_iff simp flip: caps_of_mem)
    moreover have "bit (a ! unat d) n" if "r = Granted" "bit bits n"
    proof -
      have "a ! unat d AND bits = bits" using g(3) that(1) caps_of_mem [of d a] by (simp add: cap_contains_def)
      then show ?thesis using that(2) by (metis bit_and_iff)
    qed
    ultimately show "bit (a ! unat e) n \<or> bit (b ! unat e) n"
      using e(2) by (auto simp: bit_or_iff split: if_splits)
  qed
  have within_id: "caps_within b a b" by (simp add: caps_within_def)
  have flags: "\<not> has_flag (if nd then NON_DELEGATABLE else 0) REVOKED"
    by (simp add: has_flag_def NON_DELEGATABLE_def REVOKED_def)
  have parent: "parent = 0 \<or> gt_get parent t \<noteq> None" if "parent = 0 \<or> gt_is_valid parent now t"
    using that by (auto simp: gt_is_valid_def split: option.splits)
  from assms(5) consider "m = b" "t' = t" | "m = to'" "t' = t"
    | r where "m = to'" "gt_add r t = (None, t')"
    | r gen where "m = to'" "gt_add r t = (Some gen, t')" "gr_flags r = (if nd then NON_DELEGATABLE else 0)"
        "gr_parent_gen r = parent" "parent = 0 \<or> gt_is_valid parent now t"
    using g(1) unfolding delegate_def Let_def by (fastforce split: if_splits prod.splits option.splits)
  then show ?thesis
  proof cases
    case 3
    then show ?thesis using within g(2) gt_add_full [OF assms(1)] assms(1) by blast
  next
    case 4
    then show ?thesis using within g(2) gt_add_get [OF assms(1,4) 4(2)] flags parent by simp
  qed (use within within_id g(2) assms in auto)
qed

lemma delegation_revoke_ok:
  assumes "gt_ok t" "matrix_ok b" "delegation_revoke in_memory_matrix b g t = Some (r, m, t')"
  shows "gt_ok t' \<and> matrix_ok m \<and> caps_within m b b"
proof (cases "m = b \<and> t' = t")
  case True
  then show ?thesis using assms by (auto simp: caps_within_def)
next
  case False
  then obtain x res b' where x: "gt_get g t = Some x" "policy_revoke in_memory_matrix b (gr_domain x) (gr_bits x) = Some (res, m)"
      "mark_revoked g t = Some (b', t')"
    using assms(3) by (auto simp: delegation_revoke_def split: option.splits if_splits Option.bind_splits)
  have "g \<noteq> 0" using x(1) by (auto simp: gt_get_def)
  then have ok: "gt_ok t'" using mark_revoked_ok [OF assms(1)] x(3) by fastforce
  let ?d = "gr_domain x"
  from mem.revoke_outcome [OF assms(2), of ?d "gr_bits x"] x(2) have
    m: "matrix_ok m" "caps_of in_memory_matrix m = (if domain_valid ?d then (caps_of in_memory_matrix b)(?d :=
      cap_diff (caps_of in_memory_matrix b ?d) (cap_diff (gr_bits x) (VIABLE_FLOOR ! unat ?d))) else caps_of in_memory_matrix b)"
    by auto
  have "caps_within m b b"
    unfolding caps_within_def
  proof (intro allI impI)
    fix e n assume e: "domain_valid e" "bit (m ! unat e) n"
    have "m ! unat e = (if e = ?d then cap_diff (b ! unat e) (cap_diff (gr_bits x) (VIABLE_FLOOR ! unat e)) else b ! unat e)"
      using m(2) e(1) by (auto simp: fun_eq_iff simp flip: caps_of_mem)
    then show "bit (b ! unat e) n \<or> bit (b ! unat e) n"
      using e(2) by (auto simp: cap_diff_def bit_and_iff split: if_splits)
  qed
  then show ?thesis using ok m(1) by simp
qed

definition credo_ok :: "(u64 \<Rightarrow> u64 list) \<Rightarrow> credo \<Rightarrow> bool" where
  "credo_ok caps0 st \<longleftrightarrow> gt_ok (fst st) \<and> (\<forall>q. matrix_ok (snd st q))
     \<and> (\<forall>q d n. domain_valid d \<longrightarrow> bit (snd st q ! unat d) n \<longrightarrow> (\<exists>p. bit (caps0 p ! unat d) n))"

lemma credo_ok_update:
  assumes "credo_ok caps0 (t, caps)" "gt_ok t'" "matrix_ok m" "caps_within m (caps p) (caps q)"
  shows "credo_ok caps0 (t', caps(r := m))"
  using assms unfolding credo_ok_def caps_within_def by (auto split: if_splits) blast

lemma credo_ok_step:
  assumes "credo_ok caps0 st" "credo_step st st'"
  shows "credo_ok caps0 st'"
  using assms(2,1)
proof cases
  case (credo_delegate t caps p q d bits now expires parent nd res m t')
  have "gt_ok t' \<and> matrix_ok m \<and> caps_within m (caps p) (caps q)"
    by (rule delegate_ok [OF _ _ _ credo_delegate(3,4)]) (use assms(1) credo_delegate(1) in \<open>auto simp: credo_ok_def\<close>)
  then show ?thesis using credo_ok_update assms(1) credo_delegate(1,2) by blast
next
  case (credo_revoke caps q g t b m t')
  have "gt_ok t' \<and> matrix_ok m \<and> caps_within m (caps q) (caps q)"
    by (rule delegation_revoke_ok [OF _ _ credo_revoke(3)]) (use assms(1) credo_revoke(1) in \<open>auto simp: credo_ok_def\<close>)
  then show ?thesis using credo_ok_update assms(1) credo_revoke(1,2) by blast
next
  case (credo_revoke_all p t n t' caps)
  then have "gt_ok t'" using revoke_all_from_ok [of t p] assms(1) by (auto simp: credo_ok_def)
  then show ?thesis using assms(1) credo_revoke_all by (simp add: credo_ok_def)
qed

lemma credo_reachable_ok:
  assumes "rtranclp credo_step (grant_table_new, caps0) st" "\<forall>p. matrix_ok (caps0 p)"
  shows "credo_ok caps0 st"
  using assms(1)
proof (induction rule: rtranclp_induct)
  case base
  then show ?case using assms(2) gt_ok_new by (auto simp: credo_ok_def)
next
  case (step y z)
  then show ?case using credo_ok_step by blast
qed

text \<open>C17: Safety.  Whatever delegations and revocations the principals make, nobody ever holds a capability that
  nobody held at the start.\<close>
theorem capabilities_not_amplified:
  assumes "rtranclp credo_step (grant_table_new, caps0) (t, caps)" "\<forall>p. matrix_ok (caps0 p)" "domain_valid d"
    and "bit (caps q ! unat d) n"
  shows "\<exists>p. bit (caps0 p ! unat d) n"
  using credo_reachable_ok [OF assms(1,2)] assms(3,4) by (auto simp: credo_ok_def)

text \<open>C18: Cascading revocation.  In every state that the delegation engine reaches, revoking a live grant returns and
  removes exactly that grant and all grants delegated from it, directly or through other grants; every other
  grant stays as it is, and afterwards every grant that is left still has its parent.\<close>
theorem grant_revoke_cascades:
  assumes "rtranclp credo_step (grant_table_new, caps0) (t, caps)" "\<forall>p. matrix_ok (caps0 p)" "gt_get g t \<noteq> None"
  shows "\<exists>t'. mark_revoked g t = Some (True, t')
    \<and> (\<forall>h. gt_get h t' = (if descends (gt_records t) g h then None else gt_get h t))
    \<and> (\<forall>h r. gt_get h t' = Some r \<longrightarrow> gr_parent_gen r = 0 \<or> gt_get (gr_parent_gen r) t' \<noteq> None)"
proof -
  have "gt_ok t" using credo_reachable_ok [OF assms(1,2)] by (simp add: credo_ok_def)
  from mark_revoked_exact [OF this assms(3)] show ?thesis unfolding gt_ok_def by blast
qed

section \<open>A chain of two grants\<close>

definition sample_caps :: "u64 \<Rightarrow> u64 list" where
  "sample_caps p = (if p = 1 then replicate 16 0xFF else replicate 16 0)"

definition sample_grant :: "u64 \<Rightarrow> u64 \<Rightarrow> u32 \<Rightarrow> u32 \<Rightarrow> u32 \<Rightarrow> grant_record" where
  "sample_grant p q parent gen flags = \<lparr>gr_from_pwm = p, gr_to_pwm = q, gr_domain = 1, gr_bits = 8, gr_created_tick = 100,
     gr_expires_tick = 0, gr_generation = gen, gr_parent_gen = parent, gr_flags = flags\<rparr>"

definition sample_grants :: "nat \<Rightarrow> grant_table" where
  "sample_grants n = \<lparr>gt_records = take n [sample_grant 1 2 0 1 1, sample_grant 2 3 1 2 0] @ replicate (256 - n) empty_grant,
     gt_next_gen = word_of_nat (n + 1), gt_used = word_of_nat n\<rparr>"

definition with_bit3 :: "u64 list" where
  "with_bit3 = (replicate 16 0)[1 := 8]"

text \<open>The first principal delegates to the second, with the mark that forbids a further delegation, and the second
  delegates to the third all the same.\<close>

lemma sample_delegate1:
  "delegate in_memory_matrix (sample_caps 1) (sample_caps 2) 1 2 1 8 100 0 0 True (sample_grants 0) =
   Some (DelegationGranted 1, with_bit3, sample_grants 1)"
  by code_simp

lemma sample_delegate2:
  "delegate in_memory_matrix with_bit3 (sample_caps 3) 2 3 1 8 100 0 1 False (sample_grants 1) =
   Some (DelegationGranted 2, with_bit3, sample_grants 2)"
  by code_simp

lemma sample_new: "grant_table_new = sample_grants 0"
  by (simp add: grant_table_new_def sample_grants_def GRANT_TABLE_CAPACITY_def)

definition sample_caps2 :: "u64 \<Rightarrow> u64 list" where
  "sample_caps2 = sample_caps(2 := with_bit3, 3 := with_bit3)"

lemma sample_history: "rtranclp credo_step (grant_table_new, sample_caps) (sample_grants 2, sample_caps2)"
proof -
  have "credo_step (sample_grants 0, sample_caps) (sample_grants 1, sample_caps(2 := with_bit3))"
    by (rule credo_delegate [OF _ sample_delegate1]) (simp add: sample_grants_def)
  moreover have "credo_step (sample_grants 1, sample_caps(2 := with_bit3)) (sample_grants 2, sample_caps2)"
    unfolding sample_caps2_def
    by (rule credo_delegate [where p = 2]) (use sample_delegate2 in \<open>simp_all add: sample_grants_def\<close>)
  ultimately show ?thesis unfolding sample_new by simp
qed

lemma sample_caps_ok: "\<forall>p. matrix_ok (sample_caps p)"
  by (simp add: sample_caps_def matrix_ok_def CAP_DOMAINS_def)

theorem capabilities_not_amplified_witness: "\<exists>p. bit (sample_caps p ! 1) 3"
  using capabilities_not_amplified [OF sample_history sample_caps_ok, of 1 3 3]
  by (simp add: domain_valid_def CAP_DOMAINS_def sample_caps2_def with_bit3_def bit_numeral_rec)

theorem grant_revoke_cascades_witness:
  "\<exists>t'. mark_revoked 1 (sample_grants 2) = Some (True, t') \<and> gt_get 2 t' = None"
proof -
  have "gt_get 1 (sample_grants 2) \<noteq> None" by (simp add: gt_get_def sample_grants_def sample_grant_def)
  moreover have "descends (gt_records (sample_grants 2)) 1 2"
    by (rule r_into_rtranclp) (simp add: grant_child_def sample_grants_def sample_grant_def)
  ultimately show ?thesis using grant_revoke_cascades [OF sample_history sample_caps_ok, of 1] by auto
qed

text \<open>The revocation takes the bit away from the second principal only: the third keeps it, although its grant is
  gone.  When the table is full, the bits are granted without a record.\<close>

lemma revocation_keeps_delegated_bits:
  "case delegation_revoke in_memory_matrix (sample_caps2 2) 1 (sample_grants 2) of
     Some (_, m, t) \<Rightarrow> m ! 1 = 0 \<and> gt_get 2 t = None \<and> sample_caps2 3 ! 1 = 8
   | None \<Rightarrow> False"
  by code_simp

lemma full_table_grants_bits:
  "delegate in_memory_matrix (sample_caps 1) (sample_caps 2) 1 2 1 8 100 0 0 True ((sample_grants 0)\<lparr>gt_used := 256\<rparr>) =
   Some (Denied TableFull, with_bit3, (sample_grants 0)\<lparr>gt_used := 256\<rparr>)"
  by code_simp

end
