(* ===== verification/Kernel_Error.thy ===== *)
theory Kernel_Error
  imports Errno
begin

text \<open>
  The error type that the services share (\<^verbatim>\<open>src/src/kernel/framework/error.rs\<close>) and its conversions from and to error
  numbers.  The texts of \<^verbatim>\<open>Display\<close> are left out.
\<close>

datatype (plugins only: code size) kernel_error =
    KPermissionDenied | KIo | KFileNotFound | KNoSuchProcess | KBadFd | KWouldBlock | KNoMemory | KFault |
    KNoDevice | KInvalidArgument | KProcessFileLimit | KNotSupported | KAddrFamilyNotSupported | KAddrInUse |
    KAddrNotAvailable | KConnectionReset | KNotConnected | KConnectionRefused | KNotReady | KAlreadyExists | KBusy
    | KNotADirectory | KIsDirectory | KReadOnlyFilesystem | KNameTooLong | KNoSpace | KCrossDevice |
    KNotInitialized | KOverflow | KOther i32

definition from_i32 :: "i32 \<Rightarrow> kernel_error" where
  "from_i32 rc =
     (if rc = 1 then KPermissionDenied
      else if rc = 5 then KIo
      else if rc = 2 then KFileNotFound
      else if rc = 3 then KNoSuchProcess
      else if rc = 9 then KBadFd
      else if rc = 11 then KWouldBlock
      else if rc = 12 then KNoMemory
      else if rc = 14 then KFault
      else if rc = 16 then KBusy
      else if rc = 17 then KAlreadyExists
      else if rc = 18 then KCrossDevice
      else if rc = 19 then KNoDevice
      else if rc = 20 then KNotADirectory
      else if rc = 21 then KIsDirectory
      else if rc = 22 then KInvalidArgument
      else if rc = 23 then KProcessFileLimit
      else if rc = 28 then KNoSpace
      else if rc = 30 then KReadOnlyFilesystem
      else if rc = 36 then KNameTooLong
      else if rc = 95 then KNotSupported
      else if rc = 97 then KAddrFamilyNotSupported
      else if rc = 98 then KAddrInUse
      else if rc = 99 then KAddrNotAvailable
      else if rc = 104 then KConnectionReset
      else if rc = 107 then KNotConnected
      else if rc = 111 then KConnectionRefused
      else KOther rc)"

primrec as_errno :: "kernel_error \<Rightarrow> errno" where
  "as_errno KPermissionDenied = EPERM"
| "as_errno KIo = EIO"
| "as_errno KFileNotFound = ENOENT"
| "as_errno KNoSuchProcess = ESRCH"
| "as_errno KBadFd = EBADF"
| "as_errno KWouldBlock = EAGAIN"
| "as_errno KNoMemory = ENOMEM"
| "as_errno KFault = EFAULT"
| "as_errno KBusy = EBUSY"
| "as_errno KAlreadyExists = EEXIST"
| "as_errno KCrossDevice = EXDEV"
| "as_errno KNoDevice = ENODEV"
| "as_errno KNotADirectory = ENOTDIR"
| "as_errno KIsDirectory = EISDIR"
| "as_errno KInvalidArgument = EINVAL"
| "as_errno KProcessFileLimit = EMFILE"
| "as_errno KNoSpace = ENOSPC"
| "as_errno KReadOnlyFilesystem = EROFS"
| "as_errno KNameTooLong = ENAMETOOLONG"
| "as_errno KNotSupported = ENOSYS"
| "as_errno KAddrFamilyNotSupported = EAFNOSUPPORT"
| "as_errno KAddrInUse = EADDRINUSE"
| "as_errno KAddrNotAvailable = EADDRNOTAVAIL"
| "as_errno KConnectionReset = ECONNRESET"
| "as_errno KNotConnected = ENOTCONN"
| "as_errno KConnectionRefused = ECONNREFUSED"
| "as_errno KNotReady = EAGAIN"
| "as_errno KNotInitialized = EINVAL"
| "as_errno KOverflow = EINVAL"
| "as_errno (KOther rc) = EINVAL"

definition from_errno :: "errno \<Rightarrow> kernel_error" where
  "from_errno e = from_i32 (as_i32 e)"

definition as_vfs_ret :: "kernel_error \<Rightarrow> i32" where
  "as_vfs_ret e = - as_i32 (as_errno e)"

text \<open>An error comes back from its number, except for the errors without a number of their own and two whose
  number is read as another one: \<^verbatim>\<open>from_i32\<close> maps 23 and 95 to \<^verbatim>\<open>ProcessFileLimit\<close> and \<^verbatim>\<open>NotSupported\<close>, which \<^verbatim>\<open>as_errno\<close> maps to
  24 and 38.\<close>

lemma kernel_error_roundtrip:
  "from_errno (as_errno e) = e \<longleftrightarrow>
   (case e of KProcessFileLimit \<Rightarrow> False | KNotSupported \<Rightarrow> False | KNotReady \<Rightarrow> False | KNotInitialized \<Rightarrow> False
      | KOverflow \<Rightarrow> False | KOther _ \<Rightarrow> False | _ \<Rightarrow> True)"
  by (cases e) (simp_all add: from_errno_def from_i32_def)

end
