(* ===== verification/Credo_Sessions.thy ===== *)
theory Credo_Sessions
  imports Credo_Policy Kernel_Error
begin

text \<open>
  Login sessions (\<^verbatim>\<open>src/src/kernel/services/credo/sessions.rs\<close>): the table of sessions and the login of the session
  manager.  The password check of the framework is an argument of \<^verbatim>\<open>login\<close>, as in the source.
\<close>

section \<open>The table\<close>

definition CREDO_MAX_SESSIONS :: nat where
  "CREDO_MAX_SESSIONS = 64"

datatype session_state = Active | Expired | LoggedOut | Killed | Quarantined

record session =
  se_id :: u32
  se_pwm :: u64
  se_created_tick :: u64
  se_last_active_tick :: u64
  se_expires_tick :: u64
  se_caps :: "u64 list"
  se_state :: session_state
  se_failed_attempts :: u32
  se_pid :: u32

record session_table =
  st_records :: "session option list"
  st_next_id :: u32
  st_active :: u64
  st_next_slot :: u32

definition session_table_new :: session_table where
  "session_table_new = \<lparr>st_records = replicate CREDO_MAX_SESSIONS None, st_next_id = 1, st_active = 0, st_next_slot = 0\<rparr>"

datatype session_error = SessionTableFull | NotActive | SessionKernel kernel_error

primrec session_to_errno :: "session_error \<Rightarrow> errno" where
  "session_to_errno SessionTableFull = EAGAIN"
| "session_to_errno NotActive = EINVAL"
| "session_to_errno (SessionKernel e) = as_errno e"

definition PER_PWM :: nat where
  "PER_PWM = 8"

text \<open>The sessions that the counting loop of \<^verbatim>\<open>create\<close> counts; it returns early when the limit is reached.\<close>

definition pwm_sessions :: "u64 \<Rightarrow> session option list \<Rightarrow> nat" where
  "pwm_sessions pwm rs = used_slots (\<lambda>e. case e of None \<Rightarrow> False | Some s \<Rightarrow> se_pwm s = pwm \<and> se_state s = Active) rs"

definition free_slot_from :: "nat \<Rightarrow> session option list \<Rightarrow> nat option" where
  "free_slot_from start rs =
     map_option (\<lambda>i. (start + i) mod CREDO_MAX_SESSIONS)
       (List.find (\<lambda>i. rs ! ((start + i) mod CREDO_MAX_SESSIONS) = None) [0 ..< CREDO_MAX_SESSIONS])"

definition session_create ::
  "u64 \<Rightarrow> u64 list \<Rightarrow> u64 \<Rightarrow> u64 \<Rightarrow> u32 \<Rightarrow> session_table \<Rightarrow> (session_error + u32) \<times> session_table" where
  "session_create pwm caps current_tick expires_tick pid t =
     (if PER_PWM \<le> pwm_sessions pwm (st_records t) then (Inl (SessionKernel KWouldBlock), t)
      else case free_slot_from (unat (st_next_slot t)) (st_records t) of
             None \<Rightarrow> (Inl SessionTableFull, t)
           | Some idx \<Rightarrow>
               let s = \<lparr>se_id = st_next_id t, se_pwm = pwm, se_created_tick = current_tick,
                        se_last_active_tick = current_tick, se_expires_tick = expires_tick, se_caps = caps,
                        se_state = Active, se_failed_attempts = 0, se_pid = pid\<rparr> in
               (Inr (st_next_id t),
                t\<lparr>st_records := (st_records t)[idx := Some s], st_next_id := st_next_id t + 1,
                  st_active := st_active t + 1, st_next_slot := word_of_nat ((idx + 1) mod CREDO_MAX_SESSIONS)\<rparr>))"

definition has_id :: "u32 \<Rightarrow> session option \<Rightarrow> bool" where
  "has_id i e \<longleftrightarrow> (case e of None \<Rightarrow> False | Some s \<Rightarrow> se_id s = i)"

definition session_get :: "u32 \<Rightarrow> session_table \<Rightarrow> session option" where
  "session_get i t = (case List.find (has_id i) (st_records t) of None \<Rightarrow> None | Some e \<Rightarrow> e)"

definition session_heartbeat :: "u32 \<Rightarrow> u64 \<Rightarrow> session_table \<Rightarrow> (session_error + unit) \<times> session_table" where
  "session_heartbeat i current_tick t =
     (case find_idx (has_id i) (st_records t) of
        None \<Rightarrow> (Inl (SessionKernel KFileNotFound), t)
      | Some k \<Rightarrow>
          let s = the (st_records t ! k) in
          if se_state s \<noteq> Active then (Inl NotActive, t)
          else (Inr (), t\<lparr>st_records := (st_records t)[k := Some (s\<lparr>se_last_active_tick := current_tick\<rparr>)]\<rparr>))"

text \<open>The target state is written into a slot that is cleared right away.\<close>

definition session_end :: "u32 \<Rightarrow> session_state \<Rightarrow> session_table \<Rightarrow> (session_error + session) \<times> session_table" where
  "session_end i target t =
     (case find_idx (has_id i) (st_records t) of
        None \<Rightarrow> (Inl (SessionKernel KFileNotFound), t)
      | Some k \<Rightarrow>
          (Inr (the (st_records t ! k)),
           t\<lparr>st_records := (st_records t)[k := None], st_active := st_active t - 1\<rparr>))"

definition end_where :: "(session \<Rightarrow> bool) \<Rightarrow> session_table \<Rightarrow> nat \<times> session_table" where
  "end_where P t =
     (let hit = (\<lambda>e. case e of None \<Rightarrow> False | Some s \<Rightarrow> P s);
          n = used_slots hit (st_records t) in
      (n, t\<lparr>st_records := clear_slots hit (\<lambda>_. None) (st_records t),
            st_active := (if 0 < n then st_active t - word_of_nat n else st_active t)\<rparr>))"

definition end_all_for :: "u64 \<Rightarrow> session_state \<Rightarrow> session_table \<Rightarrow> nat \<times> session_table" where
  "end_all_for pwm target = end_where (\<lambda>s. se_pwm s = pwm)"

definition gc_expired :: "u64 \<Rightarrow> session_table \<Rightarrow> nat \<times> session_table" where
  "gc_expired current_tick = end_where (\<lambda>s. se_expires_tick s \<noteq> 0 \<and> se_expires_tick s \<le> current_tick)"

section \<open>Login\<close>

datatype login_deny = InvalidCredentials | AccountLocked | CapabilityDenied policy_result | TooManySessions

datatype login_result = LoginSuccess u32 | LoginDenied login_deny

definition login ::
  "u64 \<Rightarrow> bool \<Rightarrow> cap_bits \<Rightarrow> cap_domain \<Rightarrow> u64 \<Rightarrow> u64 \<Rightarrow> u32 \<Rightarrow> u64 list \<Rightarrow> session_table \<Rightarrow> login_result \<times> session_table" where
  "login pwm password_ok required d current_tick expires_tick pid matrix_caps t =
     (if \<not> password_ok then (LoginDenied InvalidCredentials, t)
      else case policy_check in_memory_caps matrix_caps d required of
             Allow \<Rightarrow>
               (case session_create pwm matrix_caps current_tick expires_tick pid t of
                  (Inr i, t') \<Rightarrow> (LoginSuccess i, t')
                | (Inl e, t') \<Rightarrow>
                    if e = SessionKernel KWouldBlock \<or> e = SessionTableFull then (LoginDenied TooManySessions, t')
                    else (LoginDenied AccountLocked, t'))
           | Deny r \<Rightarrow> (LoginDenied (CapabilityDenied (Deny r)), t))"

section \<open>The table holds what it counts\<close>

interpretation sess: slot_table "\<lambda>e. e \<noteq> None" "\<lambda>_. None"
  by unfold_locales simp

definition sessions_ok :: "session_table \<Rightarrow> bool" where
  "sessions_ok t \<longleftrightarrow> length (st_records t) = CREDO_MAX_SESSIONS
     \<and> unat (st_active t) = used_slots (\<lambda>e. e \<noteq> None) (st_records t)
     \<and> (\<forall>s. Some s \<in> set (st_records t) \<longrightarrow> se_state s = Active \<and> se_id s < st_next_id t)
     \<and> (\<forall>i j. i < length (st_records t) \<longrightarrow> j < length (st_records t) \<longrightarrow> st_records t ! i \<noteq> None \<longrightarrow>
          map_option se_id (st_records t ! i) = map_option se_id (st_records t ! j) \<longrightarrow> i = j)
     \<and> (\<forall>pwm. pwm_sessions pwm (st_records t) \<le> PER_PWM)"

lemma sessions_okD:
  assumes "sessions_ok t"
  shows "length (st_records t) = CREDO_MAX_SESSIONS" "unat (st_active t) = used_slots (\<lambda>e. e \<noteq> None) (st_records t)"
    "Some s \<in> set (st_records t) \<Longrightarrow> se_state s = Active \<and> se_id s < st_next_id t"
    "i < length (st_records t) \<Longrightarrow> j < length (st_records t) \<Longrightarrow> st_records t ! i = Some s \<Longrightarrow> st_records t ! j = Some s' \<Longrightarrow>
      se_id s = se_id s' \<Longrightarrow> i = j"
    "pwm_sessions pwm (st_records t) \<le> PER_PWM"
  using assms unfolding sessions_ok_def by simp_all

lemma sessions_okI:
  assumes "length (st_records t) = CREDO_MAX_SESSIONS" "unat (st_active t) = used_slots (\<lambda>e. e \<noteq> None) (st_records t)"
    and "\<And>i s. i < length (st_records t) \<Longrightarrow> st_records t ! i = Some s \<Longrightarrow> se_state s = Active \<and> se_id s < st_next_id t"
    and "\<And>i j s s'. i < length (st_records t) \<Longrightarrow> j < length (st_records t) \<Longrightarrow> st_records t ! i = Some s \<Longrightarrow>
      st_records t ! j = Some s' \<Longrightarrow> se_id s = se_id s' \<Longrightarrow> i = j"
    and "\<And>pwm. pwm_sessions pwm (st_records t) \<le> PER_PWM"
  shows "sessions_ok t"
  unfolding sessions_ok_def
proof (intro conjI allI impI)
  fix s assume "Some s \<in> set (st_records t)"
  then obtain i where "i < length (st_records t)" "st_records t ! i = Some s" by (auto simp: in_set_conv_nth)
  then show "se_state s = Active" "se_id s < st_next_id t" using assms(3) by blast+
next
  fix i j assume *: "i < length (st_records t)" "j < length (st_records t)" "st_records t ! i \<noteq> None"
    "map_option se_id (st_records t ! i) = map_option se_id (st_records t ! j)"
  then obtain s s' where "st_records t ! i = Some s" "st_records t ! j = Some s'" "se_id s = se_id s'"
    by (auto simp: map_option_case split: option.splits)
  then show "i = j" using assms(4) * by blast
qed (use assms in simp_all)

lemma free_slot_fromD: "free_slot_from start rs = Some idx \<Longrightarrow> idx < CREDO_MAX_SESSIONS \<and> rs ! idx = None"
  by (auto simp: free_slot_from_def find_Some_iff CREDO_MAX_SESSIONS_def)

lemma free_slot_from_None:
  assumes "free_slot_from start rs = None" "length rs = CREDO_MAX_SESSIONS"
  shows "used_slots (\<lambda>e. e \<noteq> None) rs = CREDO_MAX_SESSIONS"
proof -
  have full: "rs ! ((start + i) mod CREDO_MAX_SESSIONS) \<noteq> None" if "i < CREDO_MAX_SESSIONS" for i
    using assms(1) that by (auto simp: free_slot_from_def find_eq_None_iff)
  have "rs ! k \<noteq> None" if "k < CREDO_MAX_SESSIONS" for k
  proof -
    have "\<exists>i < CREDO_MAX_SESSIONS. (start + i) mod CREDO_MAX_SESSIONS = k"
    proof (intro exI conjI)
      show "(k + (CREDO_MAX_SESSIONS - start mod CREDO_MAX_SESSIONS)) mod CREDO_MAX_SESSIONS < CREDO_MAX_SESSIONS"
        by (simp add: CREDO_MAX_SESSIONS_def)
      have "(start + (k + (CREDO_MAX_SESSIONS - start mod CREDO_MAX_SESSIONS)) mod CREDO_MAX_SESSIONS) mod CREDO_MAX_SESSIONS
          = (start mod CREDO_MAX_SESSIONS + k + (CREDO_MAX_SESSIONS - start mod CREDO_MAX_SESSIONS)) mod CREDO_MAX_SESSIONS"
        by (simp add: mod_simps add.assoc)
      also have "\<dots> = (k + CREDO_MAX_SESSIONS) mod CREDO_MAX_SESSIONS"
        using mod_less_divisor [of CREDO_MAX_SESSIONS start] by (simp add: CREDO_MAX_SESSIONS_def)
      finally show "(start + (k + (CREDO_MAX_SESSIONS - start mod CREDO_MAX_SESSIONS)) mod CREDO_MAX_SESSIONS) mod CREDO_MAX_SESSIONS = k"
        using that by simp
    qed
    then show ?thesis using full by blast
  qed
  then show ?thesis using assms(2) used_slots_eq_length [of "\<lambda>e. e \<noteq> None" rs] by (auto simp: in_set_conv_nth)
qed

lemma session_get_iff:
  assumes "sessions_ok t"
  shows "session_get i t = Some s \<longleftrightarrow> Some s \<in> set (st_records t) \<and> se_id s = i"
proof
  assume "session_get i t = Some s"
  then show "Some s \<in> set (st_records t) \<and> se_id s = i"
    by (auto simp: session_get_def find_Some_iff has_id_def in_set_conv_nth split: option.splits)
next
  assume *: "Some s \<in> set (st_records t) \<and> se_id s = i"
  then obtain k where k: "k < length (st_records t)" "st_records t ! k = Some s" by (auto simp: in_set_conv_nth)
  have "\<not> has_id i (st_records t ! j)" if "j < k" for j
    using sessions_okD(4) [OF assms, of k j s] k that * by (auto simp: has_id_def split: option.splits)
  then have "List.find (has_id i) (st_records t) = Some (Some s)"
    unfolding find_Some_iff using k * by (auto simp: has_id_def intro!: exI [of _ k])
  then show "session_get i t = Some s" by (simp add: session_get_def)
qed

lemma pwm_sessions_update:
  "i < length rs \<Longrightarrow> pwm_sessions pwm (rs[i := Some s]) \<le> pwm_sessions pwm rs + (if se_pwm s = pwm then 1 else 0)"
  using used_slots_update [of i rs "\<lambda>e. case e of None \<Rightarrow> False | Some s \<Rightarrow> se_pwm s = pwm \<and> se_state s = Active" "Some s"]
  by (auto simp: pwm_sessions_def split: if_splits)

lemma session_create_cases:
  assumes "sessions_ok t" "st_next_id t \<noteq> - 1" "session_create pwm caps now expires pid t = (r, t')"
  shows "if PER_PWM \<le> pwm_sessions pwm (st_records t) then r = Inl (SessionKernel KWouldBlock) \<and> t' = t
    else if used_slots (\<lambda>e. e \<noteq> None) (st_records t) = CREDO_MAX_SESSIONS then r = Inl SessionTableFull \<and> t' = t
    else r = Inr (st_next_id t) \<and> sessions_ok t' \<and> (\<exists>s. session_get (st_next_id t) t' = Some s \<and> se_pwm s = pwm \<and> se_caps s = caps)"
proof (cases "PER_PWM \<le> pwm_sessions pwm (st_records t)")
  case True
  then show ?thesis using assms(3) by (simp add: session_create_def)
next
  case few: False
  show ?thesis
  proof (cases "free_slot_from (unat (st_next_slot t)) (st_records t)")
    case None
    then show ?thesis
      using assms(3) few free_slot_from_None [OF None sessions_okD(1) [OF assms(1)]] by (simp add: session_create_def)
  next
    case (Some idx)
    note len = sessions_okD(1) [OF assms(1)]
    have idx: "idx < length (st_records t)" "st_records t ! idx = None" using free_slot_fromD [OF Some] len by auto
    let ?s = "\<lparr>se_id = st_next_id t, se_pwm = pwm, se_created_tick = now, se_last_active_tick = now,
      se_expires_tick = expires, se_caps = caps, se_state = Active, se_failed_attempts = 0, se_pid = pid\<rparr>"
    have r: "r = Inr (st_next_id t)" and t': "t' = t\<lparr>st_records := (st_records t)[idx := Some ?s],
        st_next_id := st_next_id t + 1, st_active := st_active t + 1, st_next_slot := word_of_nat ((idx + 1) mod CREDO_MAX_SESSIONS)\<rparr>"
      using assms(3) few Some by (auto simp: session_create_def Let_def)
    have nfull: "used_slots (\<lambda>e. e \<noteq> None) (st_records t) < CREDO_MAX_SESSIONS"
      using used_slots_less [OF idx(1), of "\<lambda>e. e \<noteq> None"] idx(2) len by simp
    have next_id: "st_next_id t < st_next_id t + 1" using assms(2) by (rule word_less_add_1)
    have old: "se_state s = Active \<and> se_id s < st_next_id t" if "k < length (st_records t)" "st_records t ! k = Some s" for k s
      using sessions_okD(3) [OF assms(1), of s] that by (metis nth_mem)
    have nth: "st_records t' ! k = (if k = idx then Some ?s else st_records t ! k)" for k
      using idx(1) t' by simp
    have len': "length (st_records t') = length (st_records t)" using t' by simp
    have "sessions_ok t'"
    proof (rule sessions_okI)
      show "length (st_records t') = CREDO_MAX_SESSIONS" using len t' by simp
      show "unat (st_active t') = used_slots (\<lambda>e. e \<noteq> None) (st_records t')"
        using sess.used_fill [OF idx(1), of "Some ?s"] idx(2) sessions_okD(2) [OF assms(1)] nfull t'
          unat_add_1_bounded [of "st_active t" 64] by (simp add: CREDO_MAX_SESSIONS_def)
      show "se_state s = Active \<and> se_id s < st_next_id t'" if "k < length (st_records t')" "st_records t' ! k = Some s" for k s
      proof (cases "k = idx")
        case True
        then show ?thesis using that(2) nth next_id t' by auto
      next
        case False
        then have "se_state s = Active \<and> se_id s < st_next_id t" using that nth len' old by simp
        then show ?thesis using next_id t' by (simp add: order_less_trans [of _ "st_next_id t"])
      qed
      show "i = j" if *: "i < length (st_records t')" "j < length (st_records t')" "st_records t' ! i = Some s"
          "st_records t' ! j = Some s'" "se_id s = se_id s'" for i j s s'
      proof (cases "i = idx \<or> j = idx")
        case True
        have "s = ?s \<or> se_id s < st_next_id t" "s' = ?s \<or> se_id s' < st_next_id t"
          using *(1-4) old nth len' by (metis option.inject)+
        then show ?thesis
          using True *(1-5) old [of i s] old [of j s'] nth len' by (cases "i = idx"; cases "j = idx") auto
      next
        case False
        then show ?thesis using sessions_okD(4) [OF assms(1)] * nth len' by metis
      qed
      show "pwm_sessions q (st_records t') \<le> PER_PWM" for q
        using pwm_sessions_update [OF idx(1), of q ?s] sessions_okD(5) [OF assms(1), of q] few t' by (auto split: if_splits)
    qed
    moreover from this have "session_get (st_next_id t) t' = Some ?s"
      using session_get_iff [of t' "st_next_id t" ?s] t' set_update_memI [OF idx(1)] by simp
    ultimately show ?thesis using few nfull r by simp
  qed
qed

text \<open>Operations that only clear slots or touch a session without changing who it belongs to.\<close>

lemma sessions_ok_shrink:
  assumes "sessions_ok t" "length (st_records t') = length (st_records t)" "st_next_id t' = st_next_id t"
    and "unat (st_active t') = used_slots (\<lambda>e. e \<noteq> None) (st_records t')"
    and "\<And>k s. k < length (st_records t) \<Longrightarrow> st_records t' ! k = Some s \<Longrightarrow>
      \<exists>s0. st_records t ! k = Some s0 \<and> se_id s0 = se_id s \<and> se_state s0 = se_state s"
    and "\<And>pwm. pwm_sessions pwm (st_records t') \<le> pwm_sessions pwm (st_records t)"
  shows "sessions_ok t'"
proof (rule sessions_okI)
  show "se_state s = Active \<and> se_id s < st_next_id t'" if "k < length (st_records t')" "st_records t' ! k = Some s" for k s
    using assms(2,3) assms(5) [of k s] that sessions_okD(3) [OF assms(1)] by (metis nth_mem)
  show "i = j" if "i < length (st_records t')" "j < length (st_records t')" "st_records t' ! i = Some s"
      "st_records t' ! j = Some s'" "se_id s = se_id s'" for i j s s'
    using assms(2) assms(5) [of i s] assms(5) [of j s'] that sessions_okD(4) [OF assms(1)] by metis
  show "pwm_sessions pwm (st_records t') \<le> PER_PWM" for pwm
    using assms(6) sessions_okD(5) [OF assms(1)] order_trans by blast
qed (use assms(1,2,4) sessions_okD(1) in auto)

lemma used_slots_clear_le: "\<not> v (c None) \<Longrightarrow> (\<And>e. \<not> v (c e)) \<Longrightarrow> used_slots v (clear_slots P c xs) \<le> used_slots v xs"
  by (induction xs) (auto simp: used_slots_def clear_slots_def)

lemma has_idD: "find_idx (has_id i) rs = Some k \<Longrightarrow> \<exists>s. k < length rs \<and> rs ! k = Some s \<and> se_id s = i"
  using find_idx_SomeD [of "has_id i" rs k] by (auto simp: has_id_def split: option.splits)

lemma session_heartbeat_ok:
  assumes "sessions_ok t" "session_heartbeat i now t = (r, t')"
  shows "sessions_ok t'"
proof (cases "find_idx (has_id i) (st_records t)")
  case None
  then show ?thesis using assms by (auto simp: session_heartbeat_def)
next
  case (Some k)
  then obtain s where k: "k < length (st_records t)" "st_records t ! k = Some s" "se_id s = i" using has_idD by blast
  have "se_state s = Active" using sessions_okD(3) [OF assms(1), of s] k by (metis nth_mem)
  let ?e = "Some (s\<lparr>se_last_active_tick := now\<rparr>)"
  have t': "t' = t\<lparr>st_records := (st_records t)[k := ?e]\<rparr>"
    using assms(2) Some k \<open>se_state s = Active\<close> by (auto simp: session_heartbeat_def Let_def)
  show ?thesis
  proof (rule sessions_ok_shrink [OF assms(1)])
    show "unat (st_active t') = used_slots (\<lambda>e. e \<noteq> None) (st_records t')"
      using sess.used_keep [OF k(1), of ?e] k(2) sessions_okD(2) [OF assms(1)] t' by simp
    show "pwm_sessions pwm (st_records t') \<le> pwm_sessions pwm (st_records t)" for pwm
      using used_slots_update [OF k(1), of "\<lambda>e. case e of None \<Rightarrow> False | Some s \<Rightarrow> se_pwm s = pwm \<and> se_state s = Active" ?e] k(2) t'
      by (auto simp: pwm_sessions_def split: if_splits)
  qed (use t' k in \<open>auto simp: nth_list_update split: if_splits\<close>)
qed

lemma end_where_ok:
  assumes "sessions_ok t" "end_where P t = (n, t')"
  shows "sessions_ok t' \<and> (\<forall>s. Some s \<in> set (st_records t') \<longleftrightarrow> Some s \<in> set (st_records t) \<and> \<not> P s)"
proof -
  let ?hit = "\<lambda>e. case e of None \<Rightarrow> False | Some s \<Rightarrow> P s"
  have rs: "st_records t' = clear_slots ?hit (\<lambda>_. None) (st_records t)" and n: "n = used_slots ?hit (st_records t)"
    and act: "st_active t' = (if 0 < n then st_active t - word_of_nat n else st_active t)" "st_next_id t' = st_next_id t"
    using assms(2) by (auto simp: end_where_def Let_def)
  have "used_slots (\<lambda>e. e \<noteq> None) (st_records t') + n = used_slots (\<lambda>e. e \<noteq> None) (st_records t)"
    using sess.used_clear [of ?hit "st_records t"] rs n by (auto simp: used_slots_def [of ?hit] split: option.splits)
  moreover have "n \<le> 64" using used_slots_le [of ?hit "st_records t"] n sessions_okD(1) [OF assms(1)]
    by (simp add: CREDO_MAX_SESSIONS_def)
  then have "unat (word_of_nat n :: u64) = n" by (intro unat_word_of_nat_small) simp
  ultimately have active: "unat (st_active t') = used_slots (\<lambda>e. e \<noteq> None) (st_records t')"
    using sessions_okD(2) [OF assms(1)] act(1) by (auto simp: unat_sub word_le_nat_alt)
  have "sessions_ok t'"
  proof (rule sessions_ok_shrink [OF assms(1)])
    show "pwm_sessions pwm (st_records t') \<le> pwm_sessions pwm (st_records t)" for pwm
      unfolding pwm_sessions_def rs by (rule used_slots_clear_le) simp_all
  qed (use rs act active in \<open>auto split: if_splits\<close>)
  moreover have "Some s \<in> set (st_records t') \<longleftrightarrow> Some s \<in> set (st_records t) \<and> \<not> P s" for s
    unfolding rs by (auto simp: clear_slots_def split: if_splits option.splits)
  ultimately show ?thesis by blast
qed

lemma session_end_ok:
  assumes "sessions_ok t" "session_end i target t = (r, t')"
  shows "sessions_ok t' \<and> session_get i t' = None \<and> (\<forall>j. j \<noteq> i \<longrightarrow> session_get j t' = session_get j t)
    \<and> (case session_get i t of None \<Rightarrow> r = Inl (SessionKernel KFileNotFound) | Some s \<Rightarrow> r = Inr s)"
proof (cases "find_idx (has_id i) (st_records t)")
  case None
  then have "session_get i t = None"
    by (auto simp: session_get_def find_idx_None_iff find_eq_None_iff split: option.splits)
       (metis find_None_iff option.distinct(1))
  then show ?thesis using assms None by (auto simp: session_end_def)
next
  case (Some k)
  then obtain s where k: "k < length (st_records t)" "st_records t ! k = Some s" "se_id s = i" using has_idD by blast
  have t': "r = Inr s" "t' = t\<lparr>st_records := (st_records t)[k := None], st_active := st_active t - 1\<rparr>"
    using assms(2) Some k by (auto simp: session_end_def)
  have get: "session_get i t = Some s" using session_get_iff [OF assms(1)] k by (metis nth_mem)
  have mem: "Some x \<in> set (st_records t') \<longleftrightarrow> Some x \<in> set (st_records t) \<and> se_id x \<noteq> i" for x
  proof -
    have "Some x \<in> set (st_records t') \<longleftrightarrow> (\<exists>j < length (st_records t). j \<noteq> k \<and> st_records t ! j = Some x)"
      using in_set_list_update_iff [OF k(1), of "Some x" None] t'(2) by simp
    also have "\<dots> \<longleftrightarrow> (\<exists>j < length (st_records t). st_records t ! j = Some x \<and> se_id x \<noteq> i)"
      using sessions_okD(4) [OF assms(1) k(1)] k(2,3) by (metis option.inject)
    finally show ?thesis by (auto simp: in_set_conv_nth)
  qed
  have "used_slots (\<lambda>e. e \<noteq> None) (st_records t) = Suc (used_slots (\<lambda>e. e \<noteq> None) (st_records t'))"
    using sess.used_release [OF k(1)] k(2) t'(2) by simp
  then have "unat (st_active t') = used_slots (\<lambda>e. e \<noteq> None) (st_records t')"
    using sessions_okD(2) [OF assms(1)] t'(2) by (simp add: unat_sub word_le_nat_alt)
  moreover have "pwm_sessions pwm (st_records t') \<le> pwm_sessions pwm (st_records t)" for pwm
    using used_slots_update [OF k(1), of "\<lambda>e. case e of None \<Rightarrow> False | Some s \<Rightarrow> se_pwm s = pwm \<and> se_state s = Active" None] t'(2)
    by (simp add: pwm_sessions_def)
  ultimately have ok: "sessions_ok t'"
    by (intro sessions_ok_shrink [OF assms(1)]) (use t'(2) in \<open>auto simp: nth_list_update_if split: if_splits\<close>)
  have "session_get j t' = (if j = i then None else session_get j t)" for j
    by (rule option_eqI) (use session_get_iff [OF ok] session_get_iff [OF assms(1)] mem in auto)
  then show ?thesis using ok get t'(1) by simp
qed

section \<open>Histories of the table\<close>

text \<open>Any sequence of logins, heartbeats, logouts and clean-ups with fewer than \<open>2\<^sup>3\<^sup>2 - 1\<close> logins.\<close>

inductive session_step :: "session_table \<Rightarrow> session_table \<Rightarrow> bool" where
  step_login: "st_next_id t \<noteq> - 1 \<Longrightarrow> login pwm pw required d now expires pid caps t = (res, t') \<Longrightarrow> session_step t t'"
| step_heartbeat: "session_heartbeat i now t = (r, t') \<Longrightarrow> session_step t t'"
| step_end: "session_end i target t = (e, t') \<Longrightarrow> session_step t t'"
| step_end_all: "end_all_for pwm target t = (n, t') \<Longrightarrow> session_step t t'"
| step_gc: "gc_expired now t = (n, t') \<Longrightarrow> session_step t t'"

lemma sessions_ok_new: "sessions_ok session_table_new"
  by (rule sessions_okI) (simp_all add: session_table_new_def pwm_sessions_def PER_PWM_def)

text \<open>What a login does in a table that is in order.\<close>

lemma login_cases:
  assumes "sessions_ok t" "st_next_id t \<noteq> - 1" "login pwm pw required d now expires pid caps t = (res, t')"
  shows "sessions_ok t'
    \<and> (case res of
         LoginSuccess i \<Rightarrow> pw \<and> policy_check in_memory_caps caps d required = Allow \<and> i = st_next_id t
           \<and> (\<exists>s. session_get i t' = Some s \<and> se_pwm s = pwm \<and> se_caps s = caps)
       | LoginDenied InvalidCredentials \<Rightarrow> t' = t \<and> \<not> pw
       | LoginDenied (CapabilityDenied r) \<Rightarrow> t' = t \<and> pw \<and> policy_check in_memory_caps caps d required = r \<and> r \<noteq> Allow
       | LoginDenied TooManySessions \<Rightarrow> t' = t \<and> (PER_PWM \<le> pwm_sessions pwm (st_records t)
           \<or> used_slots (\<lambda>e. e \<noteq> None) (st_records t) = CREDO_MAX_SESSIONS)
       | LoginDenied AccountLocked \<Rightarrow> False)"
proof -
  obtain r t1 where c: "session_create pwm caps now expires pid t = (r, t1)"
    by (cases "session_create pwm caps now expires pid t")
  show ?thesis
  proof (cases "pw \<and> policy_check in_memory_caps caps d required = Allow")
    case True
    then show ?thesis
      using assms(1,3) c session_create_cases [OF assms(1,2) c] by (auto simp: login_def split: if_splits)
  next
    case False
    then show ?thesis
      using assms(1,3) by (cases "policy_check in_memory_caps caps d required") (auto simp: login_def split: if_splits)
  qed
qed

lemma sessions_ok_step: "session_step t t' \<Longrightarrow> sessions_ok t \<Longrightarrow> sessions_ok t'"
proof (induction rule: session_step.induct)
  case (step_login t pwm pw required d now expires pid caps res t')
  then show ?case using login_cases by blast
next
  case (step_heartbeat i now t r t')
  then show ?case using session_heartbeat_ok by blast
next
  case (step_end i target t e t')
  then show ?case using session_end_ok by blast
next
  case (step_end_all pwm target t n t')
  then show ?case using end_where_ok unfolding end_all_for_def by blast
next
  case (step_gc now t n t')
  then show ?case using end_where_ok unfolding gc_expired_def by blast
qed

lemma sessions_reachable: "rtranclp session_step session_table_new t \<Longrightarrow> sessions_ok t"
  by (induction rule: rtranclp_induct) (auto intro: sessions_ok_new sessions_ok_step)

text \<open>In every reachable table the sessions have different identifiers, no principal has more than eight, and the
  counter is the number of sessions; a logout ends exactly its session, and after a clean-up no session is left that
  has expired.\<close>
theorem session_table_invariant:
  assumes "rtranclp session_step session_table_new t"
  shows "(\<forall>pwm. pwm_sessions pwm (st_records t) \<le> 8) \<and> unat (st_active t) = used_slots (\<lambda>e. e \<noteq> None) (st_records t)
    \<and> (\<forall>i s. session_get i t = Some s \<longleftrightarrow> Some s \<in> set (st_records t) \<and> se_id s = i)
    \<and> (\<forall>i target e t'. session_end i target t = (e, t') \<longrightarrow>
         session_get i t' = None \<and> (\<forall>j. j \<noteq> i \<longrightarrow> session_get j t' = session_get j t))
    \<and> (\<forall>now n t' i s. gc_expired now t = (n, t') \<longrightarrow>
         session_get i t' = Some s \<longleftrightarrow> session_get i t = Some s \<and> (se_expires_tick s = 0 \<or> now < se_expires_tick s))"
proof -
  have ok: "sessions_ok t" by (rule sessions_reachable [OF assms])
  have gc: "session_get i t' = Some s \<longleftrightarrow> session_get i t = Some s \<and> (se_expires_tick s = 0 \<or> now < se_expires_tick s)"
    if "gc_expired now t = (n, t')" for now n t' i s
    using end_where_ok [OF ok that [unfolded gc_expired_def]] session_get_iff [OF ok] session_get_iff [of t'] by auto
  show ?thesis
    using sessions_okD(2,5) [OF ok] session_get_iff [OF ok] session_end_ok [OF ok] gc by (simp add: PER_PWM_def)
qed

text \<open>C38: Error behaviour of a login in every reachable table: it succeeds with a fresh session that holds the
  principal's capabilities only if the password was right and the policy allows the request, and a refusal
  leaves the table unchanged and has the reason that it names.\<close>
theorem login_outcome:
  assumes "rtranclp session_step session_table_new t" "st_next_id t \<noteq> - 1"
    and "login pwm pw required d now expires pid caps t = (res, t')"
  shows "case res of
      LoginSuccess i \<Rightarrow> pw \<and> policy_check in_memory_caps caps d required = Allow \<and> session_get i t = None
        \<and> (\<exists>s. session_get i t' = Some s \<and> se_pwm s = pwm \<and> se_caps s = caps)
    | LoginDenied InvalidCredentials \<Rightarrow> t' = t \<and> \<not> pw
    | LoginDenied (CapabilityDenied r) \<Rightarrow> t' = t \<and> pw \<and> policy_check in_memory_caps caps d required = r \<and> r \<noteq> Allow
    | LoginDenied TooManySessions \<Rightarrow> t' = t \<and> (8 \<le> pwm_sessions pwm (st_records t)
        \<or> used_slots (\<lambda>e. e \<noteq> None) (st_records t) = 64)
    | LoginDenied AccountLocked \<Rightarrow> False"
proof -
  have ok: "sessions_ok t" by (rule sessions_reachable [OF assms(1)])
  have "session_get (st_next_id t) t = None"
  proof (rule ccontr)
    assume "session_get (st_next_id t) t \<noteq> None"
    then obtain s where "Some s \<in> set (st_records t)" "se_id s = st_next_id t" using session_get_iff [OF ok] by auto
    then show False using sessions_okD(3) [OF ok] by fastforce
  qed
  then show ?thesis
    using login_cases [OF ok assms(2,3)] by (auto simp: PER_PWM_def CREDO_MAX_SESSIONS_def split: login_result.splits login_deny.splits)
qed

section \<open>A login\<close>

definition sample_login :: "login_result \<times> session_table" where
  "sample_login = login 7 True 2 1 100 200 3 (replicate 16 0xFF) session_table_new"

lemma sample_login_succeeds: "fst sample_login = LoginSuccess 1"
  by code_simp

lemma sample_login_step: "rtranclp session_step session_table_new (snd sample_login)"
  by (rule r_into_rtranclp, rule step_login [of _ 7 True 2 1 100 200 3 "replicate 16 0xFF" "fst sample_login"])
     (simp_all add: sample_login_def session_table_new_def)

theorem login_outcome_witness: "\<exists>s. session_get 1 (snd sample_login) = Some s \<and> se_pwm s = 7"
proof -
  have "login 7 True 2 1 100 200 3 (replicate 16 0xFF) session_table_new = (LoginSuccess 1, snd sample_login)"
    using sample_login_succeeds unfolding sample_login_def by (metis prod.collapse)
  from login_outcome [OF rtranclp.rtrancl_refl _ this] show ?thesis by (auto simp: session_table_new_def)
qed

theorem session_table_invariant_witness: "\<forall>pwm. pwm_sessions pwm (st_records (snd sample_login)) \<le> 8"
  using session_table_invariant [OF sample_login_step] by blast

text \<open>An expired session still answers a heartbeat until the next clean-up.\<close>

lemma expired_session_answers:
  "case session_heartbeat 1 300 (snd sample_login) of (r, t) \<Rightarrow> r = Inr () \<and> session_get 1 t \<noteq> None"
  by code_simp

end
