(* ===== verification/Gf256.thy ===== *)
theory Gf256
  imports Prelude
begin

text \<open>
  The field with 256 elements that RAID-Z uses (\<^verbatim>\<open>src/src/kernel/services/fs/hvfs/raidz.rs\<close>), with products and inverses
  by tables of exponentials and logarithms.  \<open>xtime\<close> is multiplication by the generator, a shift with the polynomial
  \<open>0x11D\<close>; the table of exponentials is its orbit, so the product of the tables is the one of the field.
\<close>

section \<open>The field\<close>

definition GF_EXP :: "u8 list" where
  "GF_EXP =
   [1, 2, 4, 8, 16, 32, 64, 128, 29, 58, 116, 232, 205, 135, 19, 38, 76, 152, 45, 90, 180, 117, 234, 201,
    143, 3, 6, 12, 24, 48, 96, 192, 157, 39, 78, 156, 37, 74, 148, 53, 106, 212, 181, 119, 238, 193, 159, 35,
    70, 140, 5, 10, 20, 40, 80, 160, 93, 186, 105, 210, 185, 111, 222, 161, 95, 190, 97, 194, 153, 47, 94, 188,
    101, 202, 137, 15, 30, 60, 120, 240, 253, 231, 211, 187, 107, 214, 177, 127, 254, 225, 223, 163, 91, 182, 113, 226,
    217, 175, 67, 134, 17, 34, 68, 136, 13, 26, 52, 104, 208, 189, 103, 206, 129, 31, 62, 124, 248, 237, 199, 147,
    59, 118, 236, 197, 151, 51, 102, 204, 133, 23, 46, 92, 184, 109, 218, 169, 79, 158, 33, 66, 132, 21, 42, 84,
    168, 77, 154, 41, 82, 164, 85, 170, 73, 146, 57, 114, 228, 213, 183, 115, 230, 209, 191, 99, 198, 145, 63, 126,
    252, 229, 215, 179, 123, 246, 241, 255, 227, 219, 171, 75, 150, 49, 98, 196, 149, 55, 110, 220, 165, 87, 174, 65,
    130, 25, 50, 100, 200, 141, 7, 14, 28, 56, 112, 224, 221, 167, 83, 166, 81, 162, 89, 178, 121, 242, 249, 239,
    195, 155, 43, 86, 172, 69, 138, 9, 18, 36, 72, 144, 61, 122, 244, 245, 247, 243, 251, 235, 203, 139, 11, 22,
    44, 88, 176, 125, 250, 233, 207, 131, 27, 54, 108, 216, 173, 71, 142, 1, 2, 4, 8, 16, 32, 64, 128, 29,
    58, 116, 232, 205, 135, 19, 38, 76, 152, 45, 90, 180, 117, 234, 201, 143, 3, 6, 12, 24, 48, 96, 192, 157,
    39, 78, 156, 37, 74, 148, 53, 106, 212, 181, 119, 238, 193, 159, 35, 70, 140, 5, 10, 20, 40, 80, 160, 93,
    186, 105, 210, 185, 111, 222, 161, 95, 190, 97, 194, 153, 47, 94, 188, 101, 202, 137, 15, 30, 60, 120, 240, 253,
    231, 211, 187, 107, 214, 177, 127, 254, 225, 223, 163, 91, 182, 113, 226, 217, 175, 67, 134, 17, 34, 68, 136, 13,
    26, 52, 104, 208, 189, 103, 206, 129, 31, 62, 124, 248, 237, 199, 147, 59, 118, 236, 197, 151, 51, 102, 204, 133,
    23, 46, 92, 184, 109, 218, 169, 79, 158, 33, 66, 132, 21, 42, 84, 168, 77, 154, 41, 82, 164, 85, 170, 73,
    146, 57, 114, 228, 213, 183, 115, 230, 209, 191, 99, 198, 145, 63, 126, 252, 229, 215, 179, 123, 246, 241, 255, 227,
    219, 171, 75, 150, 49, 98, 196, 149, 55, 110, 220, 165, 87, 174, 65, 130, 25, 50, 100, 200, 141, 7, 14, 28,
    56, 112, 224, 221, 167, 83, 166, 81, 162, 89, 178, 121, 242, 249, 239, 195, 155, 43, 86, 172, 69, 138, 9, 18,
    36, 72, 144, 61, 122, 244, 245, 247, 243, 251, 235, 203, 139, 11, 22, 44, 88, 176, 125, 250, 233, 207, 131, 27,
    54, 108, 216, 173, 71, 142, 1, 2]"

definition GF_LOG :: "u8 list" where
  "GF_LOG =
   [0, 0, 1, 25, 2, 50, 26, 198, 3, 223, 51, 238, 27, 104, 199, 75, 4, 100, 224, 14, 52, 141, 239, 129,
    28, 193, 105, 248, 200, 8, 76, 113, 5, 138, 101, 47, 225, 36, 15, 33, 53, 147, 142, 218, 240, 18, 130, 69,
    29, 181, 194, 125, 106, 39, 249, 185, 201, 154, 9, 120, 77, 228, 114, 166, 6, 191, 139, 98, 102, 221, 48, 253,
    226, 152, 37, 179, 16, 145, 34, 136, 54, 208, 148, 206, 143, 150, 219, 189, 241, 210, 19, 92, 131, 56, 70, 64,
    30, 66, 182, 163, 195, 72, 126, 110, 107, 58, 40, 84, 250, 133, 186, 61, 202, 94, 155, 159, 10, 21, 121, 43,
    78, 212, 229, 172, 115, 243, 167, 87, 7, 112, 192, 247, 140, 128, 99, 13, 103, 74, 222, 237, 49, 197, 254, 24,
    227, 165, 153, 119, 38, 184, 180, 124, 17, 68, 146, 217, 35, 32, 137, 46, 55, 63, 209, 91, 149, 188, 207, 205,
    144, 135, 151, 178, 220, 252, 190, 97, 242, 86, 211, 171, 20, 42, 93, 158, 132, 60, 57, 83, 71, 109, 65, 162,
    31, 45, 67, 216, 183, 123, 164, 118, 196, 23, 73, 236, 127, 12, 111, 246, 108, 161, 59, 82, 41, 157, 85, 170,
    251, 96, 134, 177, 187, 204, 62, 90, 203, 89, 95, 176, 156, 169, 160, 81, 11, 245, 22, 235, 122, 117, 44, 215,
    79, 174, 213, 233, 230, 231, 173, 232, 116, 214, 244, 234, 168, 80, 88, 175]"

definition gf_mul :: "u8 \<Rightarrow> u8 \<Rightarrow> u8" where
  "gf_mul a b =
     (if a = 0 \<or> b = 0 then 0
      else
        let log_sum = (unat (GF_LOG ! unat a) + unat (GF_LOG ! unat b)) mod 255 in
        GF_EXP ! log_sum)"

definition gf_inv :: "u8 \<Rightarrow> u8" where
  "gf_inv a = (if a = 0 then 0 else GF_EXP ! (255 - unat (GF_LOG ! unat a)))"

definition xtime :: "u8 \<Rightarrow> u8" where
  "xtime a = (if bit a 7 then push_bit 1 a XOR 0x1D else push_bit 1 a)"

lemma length_tables: "length GF_EXP = 512" "length GF_LOG = 256"
  by (simp_all add: GF_EXP_def GF_LOG_def)

lemma GF_EXP_orbit: "map xtime (butlast GF_EXP) = tl GF_EXP"
  by code_simp

lemma GF_EXP_0: "GF_EXP ! 0 = 1" "GF_EXP ! 255 = 1"
  by (simp_all add: GF_EXP_def)

lemma GF_EXP_of_log: "map (\<lambda>l. GF_EXP ! unat l) (tl GF_LOG) = map word_of_nat [1 ..< 256]"
  by code_simp

lemma GF_EXP_Suc: "i < 511 \<Longrightarrow> GF_EXP ! Suc i = xtime (GF_EXP ! i)"
proof -
  assume i: "i < 511"
  have "tl GF_EXP ! i = map xtime (butlast GF_EXP) ! i" by (simp only: GF_EXP_orbit)
  then show ?thesis using i by (simp add: nth_tl nth_butlast length_tables)
qed

lemma GF_EXP_power: "i < 512 \<Longrightarrow> GF_EXP ! i = (xtime ^^ i) 1"
  by (induction i) (simp_all add: GF_EXP_0 GF_EXP_Suc)

lemma xtime_period: "(xtime ^^ (255 * k + i)) 1 = (xtime ^^ i) 1"
proof (induction k)
  case (Suc k)
  have "(xtime ^^ 255) 1 = 1" using GF_EXP_power [of 255] GF_EXP_0 by simp
  then have "(xtime ^^ (255 + j)) 1 = (xtime ^^ j) 1" for j
    by (simp add: add.commute [of 255] funpow_add)
  from this [of "255 * k + i"] Suc show ?case by (simp add: algebra_simps)
qed simp

lemma xtime_mod: "(xtime ^^ (n mod 255)) 1 = (xtime ^^ n) 1"
  using xtime_period [of "n div 255" "n mod 255"] by simp

text \<open>Every element but 0 is the power of the generator that the table of logarithms says.\<close>

lemma log_exp: "a \<noteq> 0 \<Longrightarrow> GF_EXP ! unat (GF_LOG ! unat a) = a"
proof -
  assume a: "a \<noteq> 0"
  then have n: "0 < unat a" "unat a < 256" using unat_gt_0 unat_bound [of a] by auto
  have "map (\<lambda>l. GF_EXP ! unat l) (tl GF_LOG) ! (unat a - 1) = map word_of_nat [1 ..< 256] ! (unat a - 1)"
    by (simp only: GF_EXP_of_log)
  moreover have "tl GF_LOG ! (unat a - 1) = GF_LOG ! unat a"
    using nth_tl [of "unat a - 1" GF_LOG] n by (simp add: length_tables)
  ultimately show ?thesis using n by (simp add: length_tables)
qed

lemma log_power: "a \<noteq> 0 \<Longrightarrow> (xtime ^^ unat (GF_LOG ! unat a)) 1 = a"
  using log_exp GF_EXP_power [of "unat (GF_LOG ! unat a)"] unat_bound [of "GF_LOG ! unat a"] by simp

lemma xtime_xor: "xtime (a XOR b) = xtime a XOR xtime b"
  by (simp add: xtime_def push_bit_xor bit_xor_iff) (simp add: xor.commute xor.left_commute xor.assoc)

lemma xtime_power_xor: "(xtime ^^ n) (a XOR b) = (xtime ^^ n) a XOR (xtime ^^ n) b"
  by (induction n) (simp_all add: xtime_xor)

lemma xtime_power_0: "(xtime ^^ n) 0 = 0"
  by (induction n) (simp_all add: xtime_def)

lemma gf_mul_power:
  assumes "a \<noteq> 0"
  shows "gf_mul a b = (xtime ^^ unat (GF_LOG ! unat a)) b"
proof (cases "b = 0")
  case True
  then show ?thesis by (simp add: gf_mul_def xtime_power_0)
next
  case False
  let ?n = "unat (GF_LOG ! unat a) + unat (GF_LOG ! unat b)"
  have "gf_mul a b = (xtime ^^ ?n) 1"
    using assms False GF_EXP_power [of "?n mod 255"] xtime_mod [of ?n] mod_less_divisor [of 255 ?n]
    by (simp add: gf_mul_def Let_def)
  then show ?thesis using log_power [OF False] by (simp add: funpow_add)
qed

lemma gf_mul_0 [simp]: "gf_mul 0 b = 0" "gf_mul a 0 = 0"
  by (simp_all add: gf_mul_def)

lemma gf_mul_commute: "gf_mul a b = gf_mul b a"
  by (simp add: gf_mul_def add.commute)

lemma gf_mul_xor: "gf_mul a (b XOR c) = gf_mul a b XOR gf_mul a c"
  by (cases "a = 0") (simp_all add: gf_mul_power xtime_power_xor)

lemma gf_mul_1: "gf_mul 1 b = b"
proof -
  have "GF_LOG ! 1 = 0" by (simp add: GF_LOG_def)
  then show ?thesis using gf_mul_power [of 1 b] by simp
qed

lemma xtime_inj: "xtime a = xtime b \<longleftrightarrow> a = b"
proof
  assume eq: "xtime a = xtime b"
  have "(xtime ^^ 254) (xtime c) = c" for c
  proof (cases "c = 0")
    case True
    have "xtime 0 = 0" by (simp add: xtime_def)
    with True show ?thesis by (simp add: xtime_power_0)
  next
    case False
    then obtain n where c: "c = (xtime ^^ n) 1" using log_power by metis
    have "(xtime ^^ 254) (xtime c) = (xtime ^^ (255 * 1 + n)) 1"
      unfolding c by (simp flip: funpow_swap1 add: funpow_add) (simp add: numeral_eq_Suc flip: funpow_add)
    then show ?thesis using xtime_period [of 1 n] c by simp
  qed
  then show "a = b" using eq by metis
qed simp

lemma gf_mul_cancel: "a \<noteq> 0 \<Longrightarrow> gf_mul a b = gf_mul a c \<longleftrightarrow> b = c"
proof -
  have "(xtime ^^ n) b = (xtime ^^ n) c \<longleftrightarrow> b = c" for n
    by (induction n) (simp_all add: xtime_inj)
  then show "a \<noteq> 0 \<Longrightarrow> gf_mul a b = gf_mul a c \<longleftrightarrow> b = c" by (simp add: gf_mul_power)
qed

lemma GF_EXP_nonzero: "i < 512 \<Longrightarrow> GF_EXP ! i \<noteq> 0"
proof
  assume i: "i < 512" and z: "GF_EXP ! i = 0"
  have "(xtime ^^ n) 1 \<noteq> 0" for n
    by (induction n) (use xtime_inj [of _ 0] in \<open>auto simp: xtime_def [of 0]\<close>)
  then show False using GF_EXP_power [OF i] z by simp
qed

lemma gf_mul_exp: "i < 255 \<Longrightarrow> gf_mul (GF_EXP ! i) b = (xtime ^^ i) b"
proof (cases "b = 0")
  case False
  assume i: "i < 255"
  have "gf_mul b (GF_EXP ! i) = (xtime ^^ unat (GF_LOG ! unat b)) ((xtime ^^ i) 1)"
    using gf_mul_power [OF False] GF_EXP_power [of i] i by simp
  also have "\<dots> = (xtime ^^ i) ((xtime ^^ unat (GF_LOG ! unat b)) 1)"
    by (simp add: add.commute flip: comp_apply [of "xtime ^^ _" "xtime ^^ _"] funpow_add)
  finally show ?thesis using log_power [OF False] by (simp add: gf_mul_commute)
qed (simp add: xtime_power_0)

lemma xor_zero_iff: "a XOR b = 0 \<longleftrightarrow> a = b" for a b :: "'a::len word"
  by (auto simp: bit_eq_iff bit_xor_iff)

lemma xor_cancel_iff: "a XOR b = a \<longleftrightarrow> b = 0" for a b :: "'a::len word"
  by (auto simp: bit_eq_iff bit_xor_iff)

end
