(* ===== verification/Hv_Raidz.thy ===== *)
theory Hv_Raidz
  imports Gf256 Hv_Spa
begin

text \<open>
  RAID-Z of the file system HVFS (\<^verbatim>\<open>src/src/kernel/services/fs/hvfs/raidz.rs\<close>): the parity of a stripe, its
  verification and the reconstruction of failed columns.  A stripe is a list of columns, the parity columns first.
  Loops are folds; the verification has no effects and is a bounded quantification over the loop indices.  The
  vector of columns of the map is never filled and is left out.
\<close>

section \<open>Levels and maps\<close>

definition HV_RAIDZ_MIN_COLS :: nat where
  "HV_RAIDZ_MIN_COLS = 2"

definition HV_RAIDZ_MAX_COLS :: nat where
  "HV_RAIDZ_MAX_COLS = 16"

datatype hv_raidz_level = RzSingle | RaidZ1 | RaidZ2 | RaidZ3 | RzMirror

primrec parity_cols :: "hv_raidz_level \<Rightarrow> nat" where
  "parity_cols RzSingle = 0"
| "parity_cols RaidZ1 = 1"
| "parity_cols RaidZ2 = 2"
| "parity_cols RaidZ3 = 3"
| "parity_cols RzMirror = 0"

primrec max_failures :: "hv_raidz_level \<Rightarrow> nat" where
  "max_failures RzSingle = 0"
| "max_failures RaidZ1 = 1"
| "max_failures RaidZ2 = 2"
| "max_failures RaidZ3 = 3"
| "max_failures RzMirror = 1"

record hv_raidz_map =
  rz_level :: hv_raidz_level
  rz_ncols :: nat
  rz_nparity :: nat
  rz_ashift :: u8

definition raidz_new :: "hv_raidz_level \<Rightarrow> nat \<Rightarrow> u8 \<Rightarrow> hv_raidz_map" where
  "raidz_new level ncols ashift =
     \<lparr>rz_level = level, rz_ncols = max HV_RAIDZ_MIN_COLS (min ncols HV_RAIDZ_MAX_COLS),
      rz_nparity = parity_cols level, rz_ashift = ashift\<rparr>"

definition data_cols :: "hv_raidz_map \<Rightarrow> nat" where
  "data_cols m = rz_ncols m - rz_nparity m"

definition unit_size :: nat where
  "unit_size = unat HV_POOL_BLOCK_SIZE"

section \<open>Parity\<close>

definition parity_coeff :: "hv_raidz_map \<Rightarrow> nat \<Rightarrow> nat \<Rightarrow> u8" where
  "parity_coeff m p col = GF_EXP ! ((p * data_cols m + col) mod 255)"

text \<open>The inner loop, for the bytes of the data columns at one position.\<close>

definition parity_byte :: "hv_raidz_map \<Rightarrow> nat \<Rightarrow> (nat \<Rightarrow> u8) \<Rightarrow> u8" where
  "parity_byte m p d =
     fold (\<lambda>col val. val XOR gf_mul (parity_coeff m p col) (d col)) [0 ..< data_cols m] 0"

definition copy_column :: "hv_raidz_map \<Rightarrow> u8 list \<Rightarrow> nat \<Rightarrow> nat \<Rightarrow> u8 list list \<Rightarrow> u8 list list" where
  "copy_column m data unit_idx col result =
     (let src_off = unit_idx * unit_size * data_cols m + col * unit_size;
          src_end = min (src_off + unit_size) (length data);
          src_len = src_end - src_off;
          dst_off = unit_idx * unit_size in
      if 0 < src_len
      then result[rz_nparity m + col := put_slice (result ! (rz_nparity m + col)) dst_off (take src_len (drop src_off data))]
      else result)"

definition put_parity :: "hv_raidz_map \<Rightarrow> nat \<Rightarrow> nat \<Rightarrow> u8 list list \<Rightarrow> u8 list list" where
  "put_parity m off p result =
     result[p := (result ! p)[off := parity_byte m p (\<lambda>col. result ! (rz_nparity m + col) ! off)]]"

definition generate_unit :: "hv_raidz_map \<Rightarrow> u8 list \<Rightarrow> nat \<Rightarrow> u8 list list \<Rightarrow> u8 list list" where
  "generate_unit m data unit_idx result =
     fold (\<lambda>byte_idx. fold (put_parity m (unit_idx * unit_size + byte_idx)) [0 ..< rz_nparity m]) [0 ..< unit_size]
       (fold (copy_column m data unit_idx) [0 ..< data_cols m] result)"

definition ceil_div :: "nat \<Rightarrow> nat \<Rightarrow> nat" where
  "ceil_div a b = (if a mod b = 0 then a div b else a div b + 1)"

definition generate_parity :: "hv_raidz_map \<Rightarrow> u8 list \<Rightarrow> u8 list list" where
  "generate_parity m data =
     (if data_cols m = 0 then []
      else
        let total_units = ceil_div (length data) (unit_size * data_cols m) in
        fold (generate_unit m data) [0 ..< total_units] (replicate (rz_ncols m) (replicate (total_units * unit_size) 0)))"

definition byte_or_0 :: "u8 list \<Rightarrow> nat \<Rightarrow> u8" where
  "byte_or_0 c i = (if i < length c then c ! i else 0)"

definition units_of :: "hv_raidz_map \<Rightarrow> u8 list list \<Rightarrow> nat" where
  "units_of m parity_data =
     (if rz_nparity m < length parity_data then length (parity_data ! rz_nparity m) div unit_size else 0)"

definition verify_parity :: "hv_raidz_map \<Rightarrow> u8 list list \<Rightarrow> bool" where
  "verify_parity m parity_data =
     (if length parity_data < rz_ncols m then False
      else list_all (\<lambda>unit_idx. list_all (\<lambda>byte_idx. list_all (\<lambda>p.
             let off = unit_idx * unit_size + byte_idx in
             parity_byte m p (\<lambda>col. byte_or_0 (parity_data ! (rz_nparity m + col)) off) = byte_or_0 (parity_data ! p) off)
           [0 ..< rz_nparity m]) [0 ..< unit_size]) [0 ..< units_of m parity_data])"

datatype hv_scrub_result = ScrubClean | ScrubCorrupted "nat list" | ScrubRepaired "nat list" | Unrepairable

definition scrub_block :: "hv_raidz_map \<Rightarrow> u8 list list \<Rightarrow> hv_scrub_result" where
  "scrub_block m parity_data = (if verify_parity m parity_data then ScrubClean else ScrubCorrupted [0])"

section \<open>Reconstruction\<close>

text \<open>One column of the Gauss-Jordan elimination, on rows of \<open>2 * n\<close> entries; \<open>None\<close> when there is no pivot.\<close>

definition eliminate_row :: "nat \<Rightarrow> nat \<Rightarrow> nat \<Rightarrow> u8 list list \<Rightarrow> u8 list list" where
  "eliminate_row n col i mat =
     (let factor = mat ! i ! col in
      if i = col \<or> factor = 0 then mat
      else mat[i := map (\<lambda>j. mat ! i ! j XOR gf_mul factor (mat ! col ! j)) [0 ..< 2 * n]])"

definition invert_column :: "nat \<Rightarrow> nat \<Rightarrow> u8 list list \<Rightarrow> u8 list list option" where
  "invert_column n col mat =
     (case List.find (\<lambda>row. mat ! row ! col \<noteq> 0) [col ..< n] of
        None \<Rightarrow> None
      | Some row \<Rightarrow>
          let mat1 = mat[row := mat ! col, col := mat ! row];
              inv = gf_inv (mat1 ! col ! col);
              mat2 = mat1[col := map (\<lambda>j. gf_mul (mat1 ! col ! j) inv) [0 ..< 2 * n]] in
          Some (fold (eliminate_row n col) [0 ..< n] mat2))"

definition gf_invert_matrix :: "nat \<Rightarrow> u8 list list \<Rightarrow> u8 list list option" where
  "gf_invert_matrix n mat = fold (\<lambda>col acc. Option.bind acc (invert_column n col)) [0 ..< n] (Some mat)"

text \<open>The rows before the second loop overwrites their right halves, and that loop; \<^verbatim>\<open>fc - self.nparity\<close> wraps around.\<close>

definition initial_row :: "hv_raidz_map \<Rightarrow> nat list \<Rightarrow> nat \<Rightarrow> u8 list" where
  "initial_row m failed i =
     (replicate (length failed) 0)[i := 1] @
     map (\<lambda>col. if col < rz_nparity m then GF_EXP ! ((col * data_cols m + i) mod 255)
                else GF_EXP ! ((col - rz_nparity m) mod 255)) failed"

definition failed_coeff :: "hv_raidz_map \<Rightarrow> nat \<Rightarrow> nat \<Rightarrow> u8" where
  "failed_coeff m col fc =
     (if col < rz_nparity m then
        GF_EXP ! (unat (word_of_nat (col * data_cols m) + (word_of_nat fc - word_of_nat (rz_nparity m)) :: u64) mod 255)
      else if fc < rz_nparity m then GF_EXP ! ((fc * data_cols m + (col - rz_nparity m)) mod 255)
      else if fc - rz_nparity m = col - rz_nparity m then 1 else 0)"

definition failed_matrix :: "hv_raidz_map \<Rightarrow> nat list \<Rightarrow> u8 list list" where
  "failed_matrix m failed =
     map (\<lambda>i. take (length failed) (initial_row m failed i) @ map (failed_coeff m (failed ! i)) failed) [0 ..< length failed]"

primrec panic_fold :: "('a \<Rightarrow> 'b \<Rightarrow> 'b panics) \<Rightarrow> 'a list \<Rightarrow> 'b \<Rightarrow> 'b panics" where
  "panic_fold f [] s = Ret s"
| "panic_fold f (x # xs) s = panic_bind (f x s) (panic_fold f xs)"

text \<open>The sum over the columns that did not fail.\<close>

definition add_column :: "hv_raidz_map \<Rightarrow> u8 list list \<Rightarrow> nat list \<Rightarrow> u8 list \<Rightarrow> nat \<Rightarrow> nat \<Rightarrow> u8 \<Rightarrow> u8 panics" where
  "add_column m parity_data failed row pos col val =
     (if col \<in> set failed then Ret val
      else
        let idx = length failed + min col (length failed - 1 + rz_nparity m) in
        if idx < length row then Ret (val XOR gf_mul (row ! idx) (byte_or_0 (parity_data ! col) pos)) else Panic)"

definition restore_byte ::
  "hv_raidz_map \<Rightarrow> u8 list list \<Rightarrow> nat list \<Rightarrow> u8 list list \<Rightarrow> nat \<Rightarrow> nat \<Rightarrow> u8 list list \<Rightarrow> u8 list list panics" where
  "restore_byte m parity_data failed mat pos row_idx result =
     panic_bind (panic_fold (add_column m parity_data failed (mat ! row_idx) pos) [0 ..< rz_ncols m] 0) (\<lambda>val.
       let fc = failed ! row_idx in Ret (result[fc := (result ! fc)[pos := val]]))"

definition reconstruct_data :: "hv_raidz_map \<Rightarrow> u8 list list \<Rightarrow> nat list \<Rightarrow> u8 list option panics" where
  "reconstruct_data m parity_data failed =
     (if max_failures (rz_level m) < length failed then Ret None
      else if failed = [] then
        (if rz_ncols m \<le> length parity_data \<or> rz_ncols m \<le> rz_nparity m
         then Ret (Some (concat (map ((!) parity_data) [rz_nparity m ..< rz_ncols m]))) else Panic)
      else case gf_invert_matrix (length failed) (failed_matrix m failed) of
             None \<Rightarrow> Ret None
           | Some mat \<Rightarrow>
               if (\<exists>i \<in> set [0 ..< rz_ncols m]. i \<notin> set failed \<and> length parity_data \<le> i) \<or> (\<exists>fc \<in> set failed. rz_ncols m \<le> fc)
               then Panic
               else
                 let total_units = units_of m parity_data;
                     result = map (\<lambda>i. if i \<in> set failed then replicate (total_units * unit_size) 0 else parity_data ! i)
                                [0 ..< rz_ncols m] in
                 panic_bind
                   (panic_fold (\<lambda>pos. panic_fold (restore_byte m parity_data failed mat pos) [0 ..< length failed])
                      [0 ..< total_units * unit_size] result)
                   (\<lambda>result. Ret (Some (concat (map ((!) result) [rz_nparity m ..< rz_ncols m])))))"

section \<open>Reconstruction panics\<close>

lemma unit_size_pos: "0 < unit_size"
  by (simp add: unit_size_def HV_POOL_BLOCK_SIZE_def)

lemma panic_fold_Panic: "x \<in> set xs \<Longrightarrow> (\<And>s. f x s = Panic) \<Longrightarrow> panic_fold f xs s = Panic"
proof (induction xs arbitrary: s)
  case (Cons y ys)
  then show ?case by (cases "f y s") auto
qed simp

definition unit_left :: "nat \<Rightarrow> u8 list list \<Rightarrow> bool" where
  "unit_left n mat \<longleftrightarrow> length mat = n \<and> (\<forall>i < n. length (mat ! i) = 2 * n \<and> (\<forall>j < n. mat ! i ! j = (if i = j then 1 else 0)))"

lemma gf_inv_1: "gf_inv 1 = 1"
proof -
  have "GF_LOG ! 1 = 0" by (simp add: GF_LOG_def)
  then show ?thesis by (simp add: gf_inv_def GF_EXP_0)
qed

lemma invert_column_unit:
  assumes "unit_left n mat" "col < n"
  shows "invert_column n col mat = Some mat"
proof -
  have "[col ..< n] = col # [Suc col ..< n]" using assms(2) by (simp add: upt_conv_Cons)
  then have "List.find (\<lambda>row. mat ! row ! col \<noteq> 0) [col ..< n] = Some col"
    using assms by (simp add: unit_left_def)
  moreover have "map (\<lambda>j. gf_mul (mat ! col ! j) 1) [0 ..< 2 * n] = mat ! col"
    using assms by (intro nth_equalityI) (simp_all add: unit_left_def gf_mul_commute [of _ 1] gf_mul_1)
  moreover have "fold (eliminate_row n col) [0 ..< k] mat = mat" if "k \<le> n" for k
    using that assms by (induction k) (auto simp: eliminate_row_def unit_left_def Let_def)
  ultimately show ?thesis
    using assms by (simp add: invert_column_def Let_def unit_left_def gf_inv_1)
qed

lemma gf_invert_unit: "unit_left n mat \<Longrightarrow> gf_invert_matrix n mat = Some mat"
proof -
  assume u: "unit_left n mat"
  have "fold (\<lambda>col acc. Option.bind acc (invert_column n col)) [0 ..< k] (Some mat) = Some mat" if "k \<le> n" for k
    using that u by (induction k) (simp_all add: invert_column_unit)
  then show ?thesis by (simp add: gf_invert_matrix_def)
qed

text \<open>The left half of the matrix is the unit matrix from the start: its inversion changes nothing.\<close>

lemma failed_matrix_unit: "unit_left (length failed) (failed_matrix m failed)"
  by (auto simp: unit_left_def failed_matrix_def initial_row_def nth_append)

text \<open>Reconstruction, at every level with parity: from a stripe that holds data and has more than twice as many
  columns as failed, it panics whenever a number of columns failed that the level should survive.  The index into the
  coefficients of a column leaves the row.\<close>
theorem raidz_reconstruct_panics:
  assumes "m = raidz_new level ncols ashift" "0 < parity_cols level" "length parity_data = rz_ncols m"
    and "0 < length failed" "length failed \<le> max_failures level" "2 * length failed < rz_ncols m"
    and "parity_cols level < rz_ncols m" "unit_size \<le> length (parity_data ! parity_cols level)"
  shows "reconstruct_data m parity_data failed = Panic"
proof -
  let ?n = "length failed" and ?mat = "failed_matrix m failed"
  have m: "rz_nparity m = parity_cols level" "rz_level m = level" using assms(1) by (simp_all add: raidz_new_def)
  have "\<not> {?n ..< rz_ncols m} \<subseteq> set failed"
  proof
    assume "{?n ..< rz_ncols m} \<subseteq> set failed"
    then have "card {?n ..< rz_ncols m} \<le> ?n" using card_mono [OF finite_set] card_length le_trans by blast
    then show False using assms(6) by simp
  qed
  then obtain col where col: "?n \<le> col" "col < rz_ncols m" "col \<notin> set failed"
    unfolding subset_iff atLeastLessThan_iff by blast
  have row: "length (?mat ! 0) = 2 * ?n" using failed_matrix_unit [of failed m] assms(4) by (simp add: unit_left_def)
  have add: "add_column m parity_data failed (?mat ! 0) pos col val = Panic" for pos val
    using col row m assms(2) by (auto simp: add_column_def Let_def)
  have "panic_fold (add_column m parity_data failed (?mat ! 0) pos) [0 ..< rz_ncols m] 0 = Panic" for pos
    by (rule panic_fold_Panic [of col]) (use col(2) add in simp_all)
  then have byte: "restore_byte m parity_data failed ?mat pos 0 result = Panic" for pos result
    by (simp add: restore_byte_def)
  have bytes: "panic_fold (restore_byte m parity_data failed ?mat pos) [0 ..< ?n] result = Panic" for pos result
    by (rule panic_fold_Panic [of 0]) (use assms(4) byte in simp_all)
  have "1 \<le> units_of m parity_data"
    using assms(3,7,8) m unit_size_pos by (simp add: units_of_def Suc_le_eq div_greater_zero_iff)
  note units = this
  have "panic_fold (\<lambda>pos. panic_fold (restore_byte m parity_data failed ?mat pos) [0 ..< ?n])
      [0 ..< units_of m parity_data * unit_size] result = Panic" for result
    by (rule panic_fold_Panic [of 0]) (use bytes units unit_size_pos in simp_all)
  then show ?thesis
    using assms(4,5) m gf_invert_unit [OF failed_matrix_unit] by (auto simp: reconstruct_data_def Let_def)
qed

section \<open>The stripe that is generated\<close>

lemma parity_byte_cong: "(\<And>col. col < data_cols m \<Longrightarrow> d col = d' col) \<Longrightarrow> parity_byte m p d = parity_byte m p d'"
  unfolding parity_byte_def by (intro fold_cong) auto

definition data_byte :: "hv_raidz_map \<Rightarrow> u8 list \<Rightarrow> nat \<Rightarrow> nat \<Rightarrow> u8" where
  "data_byte m data col off =
     byte_or_0 data (off div unit_size * unit_size * data_cols m + col * unit_size + off mod unit_size)"

definition shape :: "hv_raidz_map \<Rightarrow> nat \<Rightarrow> u8 list list \<Rightarrow> bool" where
  "shape m n r \<longleftrightarrow> length r = rz_ncols m \<and> (\<forall>c < rz_ncols m. length (r ! c) = n)"

definition stripe_upto :: "hv_raidz_map \<Rightarrow> u8 list \<Rightarrow> nat \<Rightarrow> nat \<Rightarrow> u8 list list \<Rightarrow> bool" where
  "stripe_upto m data nu u r \<longleftrightarrow> shape m (nu * unit_size) r
     \<and> (\<forall>col < data_cols m. \<forall>off < nu * unit_size.
          r ! (rz_nparity m + col) ! off = (if off < u * unit_size then data_byte m data col off else 0))
     \<and> (\<forall>p < rz_nparity m. \<forall>off < u * unit_size. r ! p ! off = parity_byte m p (\<lambda>col. data_byte m data col off))"

lemma fold_put_parity:
  assumes "shape m n r" "rz_nparity m \<le> rz_ncols m" "q \<le> rz_nparity m"
  shows "fold (put_parity m off) [0 ..< q] r =
    map (\<lambda>c. if c < q then (r ! c)[off := parity_byte m c (\<lambda>col. r ! (rz_nparity m + col) ! off)] else r ! c) [0 ..< rz_ncols m]"
  using assms(3)
proof (induction q)
  case 0
  then show ?case using assms(1) by (auto simp: shape_def intro: nth_equalityI)
next
  case (Suc q)
  let ?r = "map (\<lambda>c. if c < q then (r ! c)[off := parity_byte m c (\<lambda>col. r ! (rz_nparity m + col) ! off)] else r ! c) [0 ..< rz_ncols m]"
  have "parity_byte m q (\<lambda>col. ?r ! (rz_nparity m + col) ! off) = parity_byte m q (\<lambda>col. r ! (rz_nparity m + col) ! off)"
    using Suc.prems assms(2) by (intro parity_byte_cong) (simp add: data_cols_def)
  then have "put_parity m off q ?r =
      map (\<lambda>c. if c < Suc q then (r ! c)[off := parity_byte m c (\<lambda>col. r ! (rz_nparity m + col) ! off)] else r ! c) [0 ..< rz_ncols m]"
    using Suc.prems assms(2) by (intro nth_equalityI) (auto simp: put_parity_def nth_list_update less_Suc_eq)
  then show ?case using Suc by simp
qed

lemma shape_nth: "shape m n r \<Longrightarrow> r = map ((!) r) [0 ..< rz_ncols m]"
  by (auto simp: shape_def intro: nth_equalityI)

lemma fold_bytes:
  assumes "shape m n r" "rz_nparity m \<le> rz_ncols m" "start + k \<le> n"
  shows "shape m n (fold (\<lambda>b. fold (put_parity m (start + b)) [0 ..< rz_nparity m]) [0 ..< k] r) \<and>
    (\<forall>c < rz_ncols m. \<forall>off < n. fold (\<lambda>b. fold (put_parity m (start + b)) [0 ..< rz_nparity m]) [0 ..< k] r ! c ! off =
      (if c < rz_nparity m \<and> start \<le> off \<and> off < start + k
       then parity_byte m c (\<lambda>col. r ! (rz_nparity m + col) ! off) else r ! c ! off))"
  using assms(3)
proof (induction k)
  case 0
  then show ?case using assms(1) by auto
next
  case (Suc k)
  let ?f = "\<lambda>k. fold (\<lambda>b. fold (put_parity m (start + b)) [0 ..< rz_nparity m]) [0 ..< k] r"
  have IH: "shape m n (?f k)" "\<And>c off. c < rz_ncols m \<Longrightarrow> off < n \<Longrightarrow> ?f k ! c ! off =
      (if c < rz_nparity m \<and> start \<le> off \<and> off < start + k
       then parity_byte m c (\<lambda>col. r ! (rz_nparity m + col) ! off) else r ! c ! off)"
    using Suc by auto
  have step: "?f (Suc k) = map (\<lambda>c. if c < rz_nparity m
      then (?f k ! c)[start + k := parity_byte m c (\<lambda>col. ?f k ! (rz_nparity m + col) ! (start + k))] else ?f k ! c) [0 ..< rz_ncols m]"
    using fold_put_parity [OF IH(1) assms(2) order_refl, of "start + k"] by simp
  have "parity_byte m c (\<lambda>col. ?f k ! (rz_nparity m + col) ! (start + k)) = parity_byte m c (\<lambda>col. r ! (rz_nparity m + col) ! (start + k))" for c
    using IH(2) Suc.prems assms(2) by (intro parity_byte_cong) (simp add: data_cols_def)
  then have step': "?f (Suc k) = map (\<lambda>c. if c < rz_nparity m
      then (?f k ! c)[start + k := parity_byte m c (\<lambda>col. r ! (rz_nparity m + col) ! (start + k))] else ?f k ! c) [0 ..< rz_ncols m]"
    using step by simp
  have "shape m n (?f (Suc k))" unfolding step' using IH(1) by (simp add: shape_def)
  moreover have "?f (Suc k) ! c ! off = (if c < rz_nparity m \<and> start \<le> off \<and> off < start + Suc k
       then parity_byte m c (\<lambda>col. r ! (rz_nparity m + col) ! off) else r ! c ! off)" if "c < rz_ncols m" "off < n" for c off
  proof -
    have "length (?f k ! c) = n" using IH(1) that(1) by (simp add: shape_def)
    then show ?thesis unfolding step' using that IH(2) [OF that] by (cases "off = start + k") auto
  qed
  ultimately show ?case by blast
qed

lemma copy_column_nth:
  assumes "shape m (nu * unit_size) r" "u < nu" "col < data_cols m"
    and "\<And>off. u * unit_size \<le> off \<Longrightarrow> off < nu * unit_size \<Longrightarrow> r ! (rz_nparity m + col) ! off = 0"
  shows "shape m (nu * unit_size) (copy_column m data u col r)
    \<and> (\<forall>c < rz_ncols m. \<forall>off < nu * unit_size. copy_column m data u col r ! c ! off =
        (if c = rz_nparity m + col \<and> off div unit_size = u then data_byte m data col off else r ! c ! off))"
proof -
  let ?src = "u * unit_size * data_cols m + col * unit_size" and ?dst = "u * unit_size"
  let ?len = "min (?src + unit_size) (length data) - ?src"
  let ?c = "rz_nparity m + col"
  have c: "?c < rz_ncols m" using assms(3) by (simp add: data_cols_def)
  then have len: "length (r ! ?c) = nu * unit_size" "length r = rz_ncols m" using assms(1) by (simp_all add: shape_def)
  have "Suc u * unit_size \<le> nu * unit_size" using assms(2) by (intro mult_le_mono1) simp
  then have room: "?dst + ?len \<le> nu * unit_size" "?dst + unit_size \<le> nu * unit_size" by auto
  have in_unit: "off div unit_size = u \<longleftrightarrow> ?dst \<le> off \<and> off < ?dst + unit_size" for off
  proof
    show "?dst \<le> off \<and> off < ?dst + unit_size" if "off div unit_size = u"
      using div_times_less_eq_dividend [of off unit_size] dividend_less_div_times [OF unit_size_pos, of off] that
      by (simp add: mult.commute)
    show "off div unit_size = u" if "?dst \<le> off \<and> off < ?dst + unit_size"
      using that by (intro div_nat_eqI) (simp_all add: mult.commute)
  qed
  have byte: "data_byte m data col off = (if off - ?dst < ?len then data ! (?src + (off - ?dst)) else 0)"
    if "off div unit_size = u" for off
  proof -
    have "off mod unit_size = off - ?dst" using minus_div_mult_eq_mod [of off unit_size] that by simp
    then have eq: "data_byte m data col off = byte_or_0 data (?src + (off - ?dst))"
      using that by (simp add: data_byte_def)
    have "off - ?dst < unit_size" using in_unit [of off] that by linarith
    then have "?src + (off - ?dst) < length data \<longleftrightarrow> off - ?dst < ?len" by linarith
    then show ?thesis unfolding eq byte_or_0_def by simp
  qed
  show ?thesis
  proof (cases "0 < ?len")
    case True
    let ?new = "put_slice (r ! ?c) ?dst (take ?len (drop ?src data))"
    have l: "length (take ?len (drop ?src data)) = ?len" by simp
    have r': "copy_column m data u col r = r[?c := ?new]" using True by (simp add: copy_column_def Let_def)
    have new: "length ?new = nu * unit_size" "\<And>off. off < nu * unit_size \<Longrightarrow> ?new ! off =
        (if ?dst \<le> off \<and> off < ?dst + ?len then data ! (?src + (off - ?dst)) else r ! ?c ! off)"
      using length_put_slice [of ?dst "take ?len (drop ?src data)" "r ! ?c"]
        nth_put_slice [of ?dst "take ?len (drop ?src data)" "r ! ?c"] len room l by auto
    have "?new ! off = (if off div unit_size = u then data_byte m data col off else r ! ?c ! off)" if "off < nu * unit_size" for off
    proof (cases "off div unit_size = u")
      case True
      then have "?dst \<le> off" using in_unit [of off] by blast
      then show ?thesis
        using new(2) [OF that] byte [OF True] assms(4) [OF _ that] True by (cases "off < ?dst + ?len") (simp_all add: less_diff_conv2)
    next
      case False
      then have "\<not> (?dst \<le> off \<and> off < ?dst + unit_size)" using in_unit [of off] by blast
      then have "\<not> (?dst \<le> off \<and> off < ?dst + ?len)" by linarith
      then show ?thesis unfolding new(2) [OF that] using False by (simp only: if_False)
    qed
    then show ?thesis
      using assms(1) c len new(1) unfolding r' by (auto simp: shape_def nth_list_update)
  next
    case False
    then have "copy_column m data u col r = r" unfolding copy_column_def Let_def by (simp only: if_False)
    moreover have "r ! ?c ! off = data_byte m data col off" if "off < nu * unit_size" "off div unit_size = u" for off
    proof -
      have "?dst \<le> off" using in_unit [of off] that(2) by blast
      then show ?thesis using byte [OF that(2)] False assms(4) [OF _ that(1)] by simp
    qed
    ultimately show ?thesis using assms(1) by auto
  qed
qed

lemma copy_unit_nth:
  assumes "shape m (nu * unit_size) r" "u < nu" "k \<le> data_cols m"
    and "\<And>col off. col < data_cols m \<Longrightarrow> u * unit_size \<le> off \<Longrightarrow> off < nu * unit_size \<Longrightarrow> r ! (rz_nparity m + col) ! off = 0"
  shows "shape m (nu * unit_size) (fold (copy_column m data u) [0 ..< k] r)
    \<and> (\<forall>c < rz_ncols m. \<forall>off < nu * unit_size. fold (copy_column m data u) [0 ..< k] r ! c ! off =
        (if rz_nparity m \<le> c \<and> c < rz_nparity m + k \<and> off div unit_size = u
         then data_byte m data (c - rz_nparity m) off else r ! c ! off))"
  using assms(3)
proof (induction k)
  case 0
  then show ?case using assms(1) by auto
next
  case (Suc k)
  let ?r = "fold (copy_column m data u) [0 ..< k] r"
  have IH: "shape m (nu * unit_size) ?r" "\<And>c off. c < rz_ncols m \<Longrightarrow> off < nu * unit_size \<Longrightarrow> ?r ! c ! off =
      (if rz_nparity m \<le> c \<and> c < rz_nparity m + k \<and> off div unit_size = u
       then data_byte m data (c - rz_nparity m) off else r ! c ! off)"
    using Suc by auto
  have zero: "?r ! (rz_nparity m + k) ! off = 0" if "u * unit_size \<le> off" "off < nu * unit_size" for off
    using IH(2) [of "rz_nparity m + k" off] assms(4) [of k off] Suc.prems that by (simp add: data_cols_def)
  have "k < data_cols m" using Suc.prems by simp
  from copy_column_nth [OF IH(1) assms(2) this zero, of data]
  have step: "shape m (nu * unit_size) (copy_column m data u k ?r)"
    "\<And>c off. c < rz_ncols m \<Longrightarrow> off < nu * unit_size \<Longrightarrow> copy_column m data u k ?r ! c ! off =
      (if c = rz_nparity m + k \<and> off div unit_size = u then data_byte m data k off else ?r ! c ! off)"
    by blast+
  have "copy_column m data u k ?r ! c ! off =
      (if rz_nparity m \<le> c \<and> c < rz_nparity m + Suc k \<and> off div unit_size = u
       then data_byte m data (c - rz_nparity m) off else r ! c ! off)" if "c < rz_ncols m" "off < nu * unit_size" for c off
    using step(2) [OF that] IH(2) [OF that] by (cases "c = rz_nparity m + k") auto
  then show ?case using step(1) by simp
qed

lemma in_unit_iff: "off < Suc u * unit_size \<Longrightarrow> \<not> off < u * unit_size \<Longrightarrow> off div unit_size = u"
  by (intro div_nat_eqI) (simp_all add: mult.commute)

lemma unit_not_after: "Suc u * unit_size \<le> off \<Longrightarrow> off div unit_size \<noteq> u"
  using dividend_less_div_times [OF unit_size_pos, of off] by auto

lemma generate_unit_step:
  assumes "stripe_upto m data nu u r" "u < nu" "rz_nparity m < rz_ncols m"
  shows "stripe_upto m data nu (Suc u) (generate_unit m data u r)"
proof -
  let ?N = "nu * unit_size" and ?np = "rz_nparity m"
  have sh: "shape m ?N r" and dat: "\<And>col off. col < data_cols m \<Longrightarrow> off < ?N \<Longrightarrow>
      r ! (?np + col) ! off = (if off < u * unit_size then data_byte m data col off else 0)"
    and par: "\<And>p off. p < ?np \<Longrightarrow> off < u * unit_size \<Longrightarrow> r ! p ! off = parity_byte m p (\<lambda>col. data_byte m data col off)"
    using assms(1) by (auto simp: stripe_upto_def)
  let ?c = "fold (copy_column m data u) [0 ..< data_cols m] r"
  have zero: "r ! (?np + col) ! off = 0" if "col < data_cols m" "u * unit_size \<le> off" "off < ?N" for col off
    using dat that by simp
  have room: "Suc u * unit_size \<le> ?N" using assms(2) by (intro mult_le_mono1) simp
  have copy: "shape m ?N ?c" "\<And>c off. c < rz_ncols m \<Longrightarrow> off < ?N \<Longrightarrow> ?c ! c ! off =
      (if ?np \<le> c \<and> c < ?np + data_cols m \<and> off div unit_size = u then data_byte m data (c - ?np) off else r ! c ! off)"
    using copy_unit_nth [OF sh assms(2) order_refl zero, of data] by blast+
  have data': "?c ! (?np + col) ! off = (if off < Suc u * unit_size then data_byte m data col off else 0)"
    if "col < data_cols m" "off < ?N" for col off
  proof -
    have "?np + col < rz_ncols m" using that(1) by (simp add: data_cols_def)
    from copy(2) [OF this that(2)] have eq: "?c ! (?np + col) ! off =
        (if off div unit_size = u then data_byte m data col off else if off < u * unit_size then data_byte m data col off else 0)"
      using dat [OF that] that(1) by simp
    consider "off < u * unit_size" | "\<not> off < u * unit_size" "off < Suc u * unit_size" | "Suc u * unit_size \<le> off" by linarith
    then show ?thesis
      unfolding eq using in_unit_iff [of off u] unit_not_after [of u off] by cases auto
  qed
  have np: "?np \<le> rz_ncols m" using assms(3) by simp
  have "u * unit_size + unit_size \<le> ?N" using room by simp
  note bytes = fold_bytes [OF copy(1) np this]
  let ?g = "generate_unit m data u r"
  have g: "shape m ?N ?g" "\<And>c off. c < rz_ncols m \<Longrightarrow> off < ?N \<Longrightarrow> ?g ! c ! off =
      (if c < ?np \<and> u * unit_size \<le> off \<and> off < u * unit_size + unit_size
       then parity_byte m c (\<lambda>col. ?c ! (?np + col) ! off) else ?c ! c ! off)"
    using bytes by (simp_all add: generate_unit_def)
  have "?g ! (?np + col) ! off = (if off < Suc u * unit_size then data_byte m data col off else 0)"
    if "col < data_cols m" "off < ?N" for col off
    using g(2) [of "?np + col" off] data' [OF that] that by (simp add: data_cols_def)
  moreover have "?g ! p ! off = parity_byte m p (\<lambda>col. data_byte m data col off)" if "p < ?np" "off < Suc u * unit_size" for p off
  proof (cases "off < u * unit_size")
    case True
    then have "?g ! p ! off = r ! p ! off" using g(2) [of p off] copy(2) [of p off] that np room by simp
    then show ?thesis using par that(1) True by simp
  next
    case False
    have "?g ! p ! off = parity_byte m p (\<lambda>col. ?c ! (?np + col) ! off)" using g(2) [of p off] False that np room by simp
    also have "\<dots> = parity_byte m p (\<lambda>col. data_byte m data col off)"
      using data' [of _ off] that(2) room by (intro parity_byte_cong) simp
    finally show ?thesis .
  qed
  ultimately show ?thesis using g(1) unfolding stripe_upto_def by blast
qed

lemma generate_parity_stripe:
  assumes "rz_nparity m < rz_ncols m" "nu = ceil_div (length data) (unit_size * data_cols m)"
  shows "stripe_upto m data nu nu (generate_parity m data)"
proof -
  let ?r = "replicate (rz_ncols m) (replicate (nu * unit_size) 0) :: u8 list list"
  have start: "stripe_upto m data nu 0 ?r" by (simp add: stripe_upto_def shape_def data_cols_def)
  have "stripe_upto m data nu k (fold (generate_unit m data) [0 ..< k] ?r)" if "k \<le> nu" for k
    using that by (induction k) (use start in \<open>simp_all add: generate_unit_step assms(1)\<close>)
  from this [OF order_refl] show ?thesis using assms by (simp add: generate_parity_def data_cols_def Let_def)
qed

section \<open>What parity is good for\<close>

lemma fold_xor_Suc: "fold (\<lambda>c v. v XOR g c) [0 ..< Suc n] a = fold (\<lambda>c v. v XOR g c) [0 ..< n] a XOR (g n :: u8)"
  by simp

lemma parity_byte_update:
  assumes "col < data_cols m"
  shows "parity_byte m p (d(col := x)) = parity_byte m p d XOR gf_mul (parity_coeff m p col) (d col XOR x)"
proof -
  let ?f = "\<lambda>d n. fold (\<lambda>c v. v XOR gf_mul (parity_coeff m p c) (d c)) [0 ..< n] 0"
  have "?f (d(col := x)) n = (if col < n then ?f d n XOR gf_mul (parity_coeff m p col) (d col XOR x) else ?f d n)" for n
  proof (induction n)
    case (Suc n)
    consider "col < n" | "col = n" | "n < col" by linarith
    then show ?case
    proof cases
      case 1
      then show ?thesis using Suc by (simp add: xor.assoc xor.commute xor.left_commute)
    next
      case 2
      then show ?thesis using Suc by (simp add: gf_mul_xor xor.assoc flip: xor.left_commute)
    next
      case 3
      then show ?thesis using Suc by simp
    qed
  qed simp
  then show ?thesis using assms unfolding parity_byte_def by simp
qed

lemma parity_coeff_nonzero: "parity_coeff m p col \<noteq> 0"
  unfolding parity_coeff_def by (rule GF_EXP_nonzero) (rule less_trans [of _ 255], simp_all)

lemma stripe_facts:
  assumes "rz_nparity m < rz_ncols m" "S = generate_parity m data" "n = ceil_div (length data) (unit_size * data_cols m) * unit_size"
  shows "length S = rz_ncols m" "c < rz_ncols m \<Longrightarrow> length (S ! c) = n"
    and "col < data_cols m \<Longrightarrow> off < n \<Longrightarrow> S ! (rz_nparity m + col) ! off = data_byte m data col off"
    and "p < rz_nparity m \<Longrightarrow> off < n \<Longrightarrow> S ! p ! off = parity_byte m p (\<lambda>col. S ! (rz_nparity m + col) ! off)"
proof -
  note st = generate_parity_stripe [OF assms(1) refl, of data]
  then show "length S = rz_ncols m" "c < rz_ncols m \<Longrightarrow> length (S ! c) = n"
    using assms(2,3) by (auto simp: stripe_upto_def shape_def)
  have dat: "S ! (rz_nparity m + col) ! off = data_byte m data col off" if "col < data_cols m" "off < n" for col off
    using st that assms(2,3) by (simp add: stripe_upto_def)
  then show "col < data_cols m \<Longrightarrow> off < n \<Longrightarrow> S ! (rz_nparity m + col) ! off = data_byte m data col off" by blast
  show "S ! p ! off = parity_byte m p (\<lambda>col. S ! (rz_nparity m + col) ! off)" if "p < rz_nparity m" "off < n"
  proof -
    have "S ! p ! off = parity_byte m p (\<lambda>col. data_byte m data col off)" using st that assms(2,3) by (simp add: stripe_upto_def)
    also have "\<dots> = parity_byte m p (\<lambda>col. S ! (rz_nparity m + col) ! off)"
      using dat that(2) by (intro parity_byte_cong) simp
    finally show ?thesis .
  qed
qed

text \<open>The two loops over units and bytes visit every position.\<close>

lemma all_units: "(\<forall>u < k. \<forall>b < unit_size. Q (u * unit_size + b)) \<longleftrightarrow> (\<forall>off < k * unit_size. Q off)"
proof (intro iffI allI impI)
  fix off assume *: "\<forall>u < k. \<forall>b < unit_size. Q (u * unit_size + b)" "off < k * unit_size"
  then have "off div unit_size < k" using unit_size_pos by (simp add: div_less_iff_less_mult)
  moreover have "off mod unit_size < unit_size" using unit_size_pos by simp
  ultimately have "Q (off div unit_size * unit_size + off mod unit_size)" using *(1) by blast
  then show "Q off" by simp
next
  fix u b assume *: "\<forall>off < k * unit_size. Q off" "u < k" "b < unit_size"
  have "Suc u * unit_size \<le> k * unit_size" using *(2) by (intro mult_le_mono1) simp
  then show "Q (u * unit_size + b)" using * by simp
qed

text \<open>Verification of a stripe whose columns all have \<open>k\<close> units.\<close>

lemma verify_parity_iff:
  assumes "length S = rz_ncols m" "rz_nparity m < rz_ncols m" "\<And>c. c < rz_ncols m \<Longrightarrow> length (S ! c) = k * unit_size"
  shows "verify_parity m S \<longleftrightarrow>
    (\<forall>p < rz_nparity m. \<forall>off < k * unit_size. parity_byte m p (\<lambda>col. S ! (rz_nparity m + col) ! off) = S ! p ! off)"
proof -
  have k: "units_of m S = k" using assms unit_size_pos by (simp add: units_of_def)
  have eq: "parity_byte m p (\<lambda>col. byte_or_0 (S ! (rz_nparity m + col)) off) = parity_byte m p (\<lambda>col. S ! (rz_nparity m + col) ! off)"
    "p < rz_nparity m \<Longrightarrow> byte_or_0 (S ! p) off = S ! p ! off" if "off < k * unit_size" for p off
    using that assms by (auto intro!: parity_byte_cong simp: byte_or_0_def data_cols_def)
  have "verify_parity m S \<longleftrightarrow> (\<forall>u < k. \<forall>b < unit_size. \<forall>p < rz_nparity m.
      parity_byte m p (\<lambda>col. byte_or_0 (S ! (rz_nparity m + col)) (u * unit_size + b)) = byte_or_0 (S ! p) (u * unit_size + b))"
    using assms(1) k by (auto simp: verify_parity_def list_all_iff Let_def)
  also have "\<dots> \<longleftrightarrow> (\<forall>off < k * unit_size. \<forall>p < rz_nparity m.
      parity_byte m p (\<lambda>col. byte_or_0 (S ! (rz_nparity m + col)) off) = byte_or_0 (S ! p) off)"
    by (rule all_units)
  also have "\<dots> \<longleftrightarrow> (\<forall>off < k * unit_size. \<forall>p < rz_nparity m.
      parity_byte m p (\<lambda>col. S ! (rz_nparity m + col) ! off) = S ! p ! off)"
    using eq by simp
  finally show ?thesis by blast
qed



lemma stripe_index:
  assumes "col < k" "2 \<le> k"
  shows "off div unit_size * unit_size * k + col * unit_size + off mod unit_size = 0 \<longleftrightarrow> off = 0 \<and> col = 0"
    and "off div unit_size * unit_size * k + col * unit_size + off mod unit_size = unit_size \<longleftrightarrow> off = 0 \<and> col = 1"
proof -
  let ?q = "off div unit_size" and ?r = "off mod unit_size"
  have r: "?r < unit_size" using unit_size_pos by simp
  have idx: "?q * unit_size * k + col * unit_size + ?r = (?q * k + col) * unit_size + ?r" by (simp add: algebra_simps)
  have off0: "off = 0 \<longleftrightarrow> ?q = 0 \<and> ?r = 0" using div_mult_mod_eq [of off unit_size] by (metis add.right_neutral div_0 mod_0 mult_zero_left)
  show "?q * unit_size * k + col * unit_size + ?r = 0 \<longleftrightarrow> off = 0 \<and> col = 0"
    unfolding idx off0 using unit_size_pos assms by auto
  have "(?q * k + col) * unit_size + ?r = unit_size \<longleftrightarrow> ?q * k + col = 1 \<and> ?r = 0"
  proof
    assume e: "(?q * k + col) * unit_size + ?r = unit_size"
    have "?q * k + col = ((?q * k + col) * unit_size + ?r) div unit_size" using r by simp
    also have "\<dots> = 1" unfolding e using unit_size_pos by simp
    finally show "?q * k + col = 1 \<and> ?r = 0" using e by simp
  qed simp
  moreover have "?q * k + col = 1 \<longleftrightarrow> ?q = 0 \<and> col = 1" using assms by (cases ?q) auto
  ultimately show "?q * unit_size * k + col * unit_size + ?r = unit_size \<longleftrightarrow> off = 0 \<and> col = 1"
    unfolding idx off0 by auto
qed

lemma parity_coeff_shift: "gf_mul (parity_coeff m p 0) (GF_EXP ! 1) = parity_coeff m p 1"
proof -
  let ?n = "p * data_cols m"
  have "gf_mul (parity_coeff m p 0) (GF_EXP ! 1) = (xtime ^^ (?n mod 255)) (xtime 1)"
    using gf_mul_exp [of "?n mod 255"] GF_EXP_power [of 1] by (simp add: parity_coeff_def)
  also have "\<dots> = xtime ((xtime ^^ ?n) 1)" using xtime_mod [of ?n] by (simp flip: funpow_swap1)
  also have "\<dots> = (xtime ^^ ((?n + 1) mod 255)) 1" using xtime_mod [of "?n + 1"] by simp
  also have "\<dots> = parity_coeff m p 1"
    using GF_EXP_power [of "(?n + 1) mod 255"] mod_less_divisor [of 255 "?n + 1"] by (simp add: parity_coeff_def)
  finally show ?thesis .
qed

text \<open>What parity cannot do, at every level.  Whatever data is written, there is other data of the same length whose
  stripe differs from it in the first two data columns only: the parity columns are multiples of the first one, and
  no reconstruction can recover two failed data columns, at the levels \<^verbatim>\<open>RaidZ2\<close> and \<^verbatim>\<open>RaidZ3\<close> included.\<close>
theorem raidz_two_failures_ambiguous:
  assumes "m = raidz_new level ncols ashift" "parity_cols level + 2 \<le> rz_ncols m" "unit_size < length data"
  shows "\<exists>data'. length data' = length data \<and> data' \<noteq> data \<and>
    (\<forall>c < rz_ncols m. c \<noteq> parity_cols level \<longrightarrow> c \<noteq> parity_cols level + 1 \<longrightarrow>
       generate_parity m data' ! c = generate_parity m data ! c)"
proof -
  let ?a = "GF_EXP ! 1" and ?np = "rz_nparity m"
  define data' where "data' = data[0 := data ! 0 XOR ?a, unit_size := data ! unit_size XOR 1]"
  define n where "n = ceil_div (length data) (unit_size * data_cols m) * unit_size"
  have np: "?np = parity_cols level" using assms(1) by (simp add: raidz_new_def)
  with assms(2) have lt: "?np < rz_ncols m" and k: "2 \<le> data_cols m" by (simp_all add: data_cols_def)
  have len: "length data' = length data" by (simp add: data'_def)
  note S = stripe_facts [OF lt refl n_def]
  note S' = stripe_facts [OF lt refl, of n data', unfolded len, OF n_def]
  have pos: "0 < length data" "unit_size \<noteq> 0" using assms(3) unit_size_pos by linarith+
  have "data' ! unit_size \<noteq> data ! unit_size" using assms(3) by (simp add: data'_def xor_cancel_iff)
  then have ne: "data' \<noteq> data" by auto
  have byte: "data_byte m data' col off = (if off = 0 \<and> col = 0 then data_byte m data 0 0 XOR ?a
      else if off = 0 \<and> col = 1 then data_byte m data 1 0 XOR 1 else data_byte m data col off)" if "col < data_cols m" for col off
  proof -
    let ?i = "off div unit_size * unit_size * data_cols m + col * unit_size + off mod unit_size"
    have "byte_or_0 data' ?i = (if ?i = 0 then data ! 0 XOR ?a else if ?i = unit_size then data ! unit_size XOR 1 else byte_or_0 data ?i)"
      using pos assms(3) len by (auto simp: data'_def byte_or_0_def nth_list_update)
    then show ?thesis
      using stripe_index [OF that k, of off] pos assms(3) by (auto simp: data_byte_def byte_or_0_def)
  qed
  have parity: "parity_byte m p (\<lambda>col. data_byte m data' col off) = parity_byte m p (\<lambda>col. data_byte m data col off)" for p off
  proof (cases "off = 0")
    case True
    let ?d = "\<lambda>col. data_byte m data col 0"
    have c: "0 < data_cols m" "1 < data_cols m" using k by simp_all
    have "parity_byte m p (\<lambda>col. data_byte m data' col off) = parity_byte m p (?d(0 := ?d 0 XOR ?a, 1 := ?d 1 XOR 1))"
      using byte True by (intro parity_byte_cong) simp
    also have "\<dots> = parity_byte m p ?d XOR gf_mul (parity_coeff m p 0) ?a XOR gf_mul (parity_coeff m p 1) 1"
      using parity_byte_update [OF c(2), of p "?d(0 := ?d 0 XOR ?a)" "?d 1 XOR 1"]
        parity_byte_update [OF c(1), of p ?d "?d 0 XOR ?a"]
      by (simp flip: xor.assoc)
    also have "\<dots> = parity_byte m p ?d"
      using parity_coeff_shift [of m p] by (simp add: gf_mul_commute [of _ 1] gf_mul_1 xor.assoc)
    finally show ?thesis using True by simp
  qed (use byte in \<open>intro parity_byte_cong, simp\<close>)
  have "generate_parity m data' ! c = generate_parity m data ! c" if c: "c < rz_ncols m" "c \<noteq> ?np" "c \<noteq> ?np + 1" for c
  proof (rule nth_equalityI)
    show "length (generate_parity m data' ! c) = length (generate_parity m data ! c)" using S(2) S'(2) c(1) by simp
    fix off assume "off < length (generate_parity m data' ! c)"
    then have off: "off < n" using S'(2) c(1) by simp
    show "generate_parity m data' ! c ! off = generate_parity m data ! c ! off"
    proof (cases "c < ?np")
      case True
      have "parity_byte m c (\<lambda>col. generate_parity m data' ! (?np + col) ! off) = parity_byte m c (\<lambda>col. data_byte m data' col off)"
        "parity_byte m c (\<lambda>col. generate_parity m data ! (?np + col) ! off) = parity_byte m c (\<lambda>col. data_byte m data col off)"
        using S(3) S'(3) off by (auto intro: parity_byte_cong)
      then show ?thesis using S(4) [OF True off] S'(4) [OF True off] parity by simp
    next
      case False
      then obtain e where e: "c = ?np + e" "e < data_cols m" using c(1) by (metis add_diff_inverse data_cols_def diff_less_mono not_less)
      then show ?thesis using S(3) [OF e(2) off] S'(3) [OF e(2) off] byte [OF e(2), of off] c by simp
    qed
  qed
  then show ?thesis using len ne np by auto
qed

theorem raidz_two_failures_ambiguous_witness:
  "\<exists>data'. length data' = 8192 \<and> data' \<noteq> replicate 8192 7 \<and> (\<forall>c < 6. c \<noteq> 3 \<longrightarrow> c \<noteq> 4 \<longrightarrow>
     generate_parity (raidz_new RaidZ3 6 12) data' ! c = generate_parity (raidz_new RaidZ3 6 12) (replicate 8192 7) ! c)"
  using raidz_two_failures_ambiguous [OF refl, of RaidZ3 6 12 "replicate 8192 7"]
  by (simp add: raidz_new_def HV_RAIDZ_MIN_COLS_def HV_RAIDZ_MAX_COLS_def unit_size_def HV_POOL_BLOCK_SIZE_def)

theorem raidz_reconstruct_panics_witness:
  "reconstruct_data (raidz_new RaidZ1 3 12) (replicate 3 (replicate 4096 0)) [1] = Panic"
  by (rule raidz_reconstruct_panics [OF refl, of RaidZ1])
     (simp_all add: raidz_new_def HV_RAIDZ_MIN_COLS_def HV_RAIDZ_MAX_COLS_def unit_size_def HV_POOL_BLOCK_SIZE_def)

end
