(* ===== verification/Lockdep.thy ===== *)
theory Lockdep
  imports Prelude
begin

text \<open>
  The lock dependency checker, \<^verbatim>\<open>framework/sync/lockdep.rs\<close>: the registry of lock classes, the matrix of
  observed orders, its breadth-first search for cycles, the stack of held locks and the calls that the
  locks of the kernel make.  The two global tables are behind spin locks, and a call that changes
  both holds the lock of the stack throughout, so a history is a sequence of calls.  Counters that the
  code keeps below the size of an array are natural numbers.  The flag that a deadlock is possible is raised
  exactly when the observed nesting of locks has a cycle.
\<close>

section \<open>Classes and the dependency graph\<close>

definition MAX_LOCK_CLASSES :: nat where "MAX_LOCK_CLASSES = 64"
definition MAX_HELD_LOCKS :: nat where "MAX_HELD_LOCKS = 8"
definition DEPENDENCY_VERIFIED :: u8 where "DEPENDENCY_VERIFIED = 1"
definition DEPENDENCY_NEW :: u8 where "DEPENDENCY_NEW = 2"

datatype LockKind = KSpinLock | KIrqSpinLock | KMutex | KRwLock | KPiMutex | KSeqLockWrite

fun irq_safe :: "LockKind \<Rightarrow> bool" where
  "irq_safe k = (k = KSpinLock \<or> k = KIrqSpinLock)"

fun may_sleep :: "LockKind \<Rightarrow> bool" where
  "may_sleep k = (k = KMutex \<or> k = KPiMutex)"

type_synonym LockClassId = u16

definition INVALID :: LockClassId where "INVALID = - 1"

record LockClassDesc =
  ld_name :: string
  ld_kind :: LockKind

record LockClassEntry =
  ce_name :: string
  ce_kind :: LockKind
  ce_used :: bool

definition empty_class :: LockClassEntry where
  "empty_class = \<lparr>ce_name = [], ce_kind = KSpinLock, ce_used = False\<rparr>"

record LockDepMap =
  classes :: "LockClassEntry list"
  class_count :: nat
  adjacency :: "u8 list list"
  deadlock_detected :: bool
  violation_count :: u32

definition LockDepMap_new :: LockDepMap where
  "LockDepMap_new = \<lparr>classes = replicate MAX_LOCK_CLASSES empty_class, class_count = 0,
    adjacency = replicate MAX_LOCK_CLASSES (replicate MAX_LOCK_CLASSES 0),
    deadlock_detected = False, violation_count = 0\<rparr>"

definition register :: "LockClassDesc \<Rightarrow> LockDepMap \<Rightarrow> LockDepMap \<times> LockClassId" where
  "register desc m =
    (case find_idx (\<lambda>e. ce_used e \<and> ce_name e = ld_name desc) (take (class_count m) (classes m)) of
       Some i \<Rightarrow> (m, word_of_nat i)
     | None \<Rightarrow>
         if MAX_LOCK_CLASSES \<le> class_count m then (m, INVALID)
         else (m\<lparr>classes := (classes m)[class_count m :=
                   \<lparr>ce_name = ld_name desc, ce_kind = ld_kind desc, ce_used = True\<rparr>],
                class_count := class_count m + 1\<rparr>, word_of_nat (class_count m)))"

text \<open>
  The search of \<^verbatim>\<open>has_path\<close>: \<open>bfs_scan\<close> is the inner loop over the classes (\<open>None\<close> is the return with
  \<^verbatim>\<open>true\<close>), \<open>bfs_loop\<close> the loop over the queue.
\<close>

fun bfs_scan :: "u8 list \<Rightarrow> nat \<Rightarrow> nat list \<Rightarrow> bool list \<times> nat list \<times> nat \<Rightarrow> (bool list \<times> nat list \<times> nat) option" where
  "bfs_scan row target [] st = Some st"
| "bfs_scan row target (next # ns) (visited, queue, tail) =
    (if visited ! next then bfs_scan row target ns (visited, queue, tail)
     else if row ! next \<noteq> 0 then
       if next = target then None
       else bfs_scan row target ns
         (if tail < MAX_LOCK_CLASSES then (visited[next := True], queue[tail := next], tail + 1)
          else (visited[next := True], queue, tail))
     else bfs_scan row target ns (visited, queue, tail))"

lemma bfs_scan_tail:
  "bfs_scan row target ns (v, q, t) = Some (v', q', t') \<Longrightarrow> t \<le> t' \<and> t' \<le> max t MAX_LOCK_CLASSES"
  by (induction ns arbitrary: v q t) (fastforce split: if_splits)+

function bfs_loop :: "LockDepMap \<Rightarrow> nat \<Rightarrow> bool list \<Rightarrow> nat list \<Rightarrow> nat \<Rightarrow> nat \<Rightarrow> bool" where
  "bfs_loop m target visited queue head tail =
    (if head < tail then
       (case bfs_scan (adjacency m ! (queue ! head)) target [0..<class_count m] (visited, queue, tail) of
          None \<Rightarrow> True
        | Some (visited', queue', tail') \<Rightarrow> bfs_loop m target visited' queue' (head + 1) tail')
     else False)"
  by auto

termination
  by (relation "measure (\<lambda>(m, target, v, q, h, t). max t MAX_LOCK_CLASSES - h)")
    (auto dest!: bfs_scan_tail)

declare bfs_loop.simps [simp del]

definition has_path :: "LockDepMap \<Rightarrow> nat \<Rightarrow> nat \<Rightarrow> bool" where
  "has_path m start target =
    bfs_loop m target ((replicate MAX_LOCK_CLASSES False)[start := True])
      ((replicate MAX_LOCK_CLASSES 0)[0 := start]) 0 1"

definition set_edge :: "nat \<Rightarrow> nat \<Rightarrow> u8 \<Rightarrow> LockDepMap \<Rightarrow> LockDepMap" where
  "set_edge i j b m = m\<lparr>adjacency := (adjacency m)[i := (adjacency m ! i)[j := b]]\<rparr>"

definition add_dependency :: "LockClassId \<Rightarrow> LockClassId \<Rightarrow> LockDepMap \<Rightarrow> LockDepMap \<times> bool" where
  "add_dependency from to m =
    (let fi = unat from; ti = unat to in
     if class_count m \<le> fi \<or> class_count m \<le> ti then (m, True)
     else if adjacency m ! fi ! ti \<noteq> 0 then (m, True)
     else let m1 = set_edge fi ti DEPENDENCY_NEW m in
       if has_path m1 ti fi then
         (set_edge fi ti 0 m1\<lparr>deadlock_detected := True, violation_count := violation_count m1 + 1\<rparr>, False)
       else (set_edge fi ti DEPENDENCY_VERIFIED m1, True))"

definition class_name :: "LockDepMap \<Rightarrow> LockClassId \<Rightarrow> string" where
  "class_name m i = (if unat i < class_count m \<and> ce_used (classes m ! unat i)
     then ce_name (classes m ! unat i) else ''(unknown)'')"

definition class_kind :: "LockDepMap \<Rightarrow> LockClassId \<Rightarrow> LockKind option" where
  "class_kind m i = (if unat i < class_count m \<and> ce_used (classes m ! unat i)
     then Some (ce_kind (classes m ! unat i)) else None)"

section \<open>Held locks\<close>

record HeldLockEntry =
  class_id :: LockClassId
  in_irq :: bool

definition empty_held :: HeldLockEntry where
  "empty_held = \<lparr>class_id = INVALID, in_irq = False\<rparr>"

record HeldLockStack =
  entries :: "HeldLockEntry list"
  depth :: nat

definition HeldLockStack_new :: HeldLockStack where
  "HeldLockStack_new = \<lparr>entries = replicate MAX_HELD_LOCKS empty_held, depth = 0\<rparr>"

definition held_classes :: "HeldLockStack \<Rightarrow> HeldLockEntry list" where
  "held_classes st = take (depth st) (entries st)"

definition held_push :: "LockClassId \<Rightarrow> bool \<Rightarrow> HeldLockStack \<Rightarrow> HeldLockStack \<times> bool" where
  "held_push c irq st =
    (if MAX_HELD_LOCKS \<le> depth st then (st, False)
     else (st\<lparr>entries := (entries st)[depth st := \<lparr>class_id = c, in_irq = irq\<rparr>], depth := depth st + 1\<rparr>, True))"

text \<open>The search runs from the top of the stack down, the loop after it closes the gap.\<close>

definition held_pop :: "LockClassId \<Rightarrow> HeldLockStack \<Rightarrow> HeldLockStack \<times> bool" where
  "held_pop c st =
    (case find_idx (\<lambda>e. class_id e = c) (rev (held_classes st)) of
       None \<Rightarrow> (st, False)
     | Some k \<Rightarrow>
         let i = depth st - 1 - k;
             es = fold (\<lambda>j es. es[j := es ! (j + 1)]) [i..<depth st - 1] (entries st)
         in (st\<lparr>entries := es[depth st - 1 := empty_held], depth := depth st - 1\<rparr>, True))"

definition held_contains :: "LockClassId \<Rightarrow> HeldLockStack \<Rightarrow> bool" where
  "held_contains c st = list_ex (\<lambda>e. class_id e = c) (held_classes st)"

definition any_in_irq :: "HeldLockStack \<Rightarrow> bool" where
  "any_in_irq st = list_ex in_irq (held_classes st)"

section \<open>The calls\<close>

record lockdep =
  LOCK_DEP_MAP :: LockDepMap
  HELD_LOCK_STACK :: HeldLockStack
  IRQ_DEPTH :: u64

definition lockdep_new :: lockdep where
  "lockdep_new = \<lparr>LOCK_DEP_MAP = LockDepMap_new, HELD_LOCK_STACK = HeldLockStack_new, IRQ_DEPTH = 0\<rparr>"

definition irq_enter :: "lockdep \<Rightarrow> lockdep" where
  "irq_enter s = s\<lparr>IRQ_DEPTH := IRQ_DEPTH s + 1\<rparr>"

definition irq_exit :: "lockdep \<Rightarrow> lockdep" where
  "irq_exit s = s\<lparr>IRQ_DEPTH := IRQ_DEPTH s - 1\<rparr>"

definition in_irq_context :: "lockdep \<Rightarrow> bool" where
  "in_irq_context s = (0 < IRQ_DEPTH s)"

definition register_class :: "LockClassDesc \<Rightarrow> lockdep \<Rightarrow> lockdep \<times> LockClassId" where
  "register_class desc s =
    (case register desc (LOCK_DEP_MAP s) of (m, i) \<Rightarrow> (s\<lparr>LOCK_DEP_MAP := m\<rparr>, i))"

definition count_violation :: "lockdep \<Rightarrow> lockdep" where
  "count_violation s =
    s\<lparr>LOCK_DEP_MAP := (LOCK_DEP_MAP s)\<lparr>violation_count := violation_count (LOCK_DEP_MAP s) + 1\<rparr>\<rparr>"

definition add_dependencies :: "LockClassId \<Rightarrow> HeldLockEntry list \<Rightarrow> LockDepMap \<Rightarrow> LockDepMap" where
  "add_dependencies c = fold (\<lambda>e m. fst (add_dependency (class_id e) c m))"

definition acquire :: "LockClassId \<Rightarrow> bool \<Rightarrow> lockdep \<Rightarrow> lockdep \<times> bool" where
  "acquire c irq s =
    (if c = INVALID then (s, True)
     else if irq \<and> (case class_kind (LOCK_DEP_MAP s) c of Some k \<Rightarrow> may_sleep k | None \<Rightarrow> False)
       then (count_violation s, False)
     else if held_contains c (HELD_LOCK_STACK s) then (count_violation s, False)
     else (s\<lparr>LOCK_DEP_MAP := add_dependencies c (held_classes (HELD_LOCK_STACK s)) (LOCK_DEP_MAP s),
             HELD_LOCK_STACK := fst (held_push c irq (HELD_LOCK_STACK s))\<rparr>, True))"

definition release :: "LockClassId \<Rightarrow> lockdep \<Rightarrow> lockdep" where
  "release c s =
    (if c = INVALID then s
     else case held_pop c (HELD_LOCK_STACK s) of
       (st, True) \<Rightarrow> s\<lparr>HELD_LOCK_STACK := st\<rparr>
     | (st, False) \<Rightarrow> count_violation s)"

definition held_depth :: "lockdep \<Rightarrow> nat" where
  "held_depth s = depth (HELD_LOCK_STACK s)"

section \<open>Histories\<close>

datatype lockdep_call =
  CRegister LockClassDesc
| CAcquire LockClassId bool
| CRelease LockClassId
| CIrqEnter
| CIrqExit

fun lockdep_step :: "lockdep_call \<Rightarrow> lockdep \<Rightarrow> lockdep" where
  "lockdep_step (CRegister d) s = fst (register_class d s)"
| "lockdep_step (CAcquire c irq) s = fst (acquire c irq s)"
| "lockdep_step (CRelease c) s = release c s"
| "lockdep_step CIrqEnter s = irq_enter s"
| "lockdep_step CIrqExit s = irq_exit s"

definition lockdep_run :: "lockdep_call list \<Rightarrow> lockdep \<Rightarrow> lockdep" where
  "lockdep_run = fold lockdep_step"

text \<open>
  The specification: \<open>held_pairs\<close> are the pairs of registered classes that an accepted acquisition shows
  to be nested, \<open>observed\<close> those of a whole history.
\<close>

definition held_pairs :: "LockDepMap \<Rightarrow> LockClassId \<Rightarrow> HeldLockEntry list \<Rightarrow> (nat \<times> nat) set" where
  "held_pairs m c es = {(unat (class_id e), unat c) | e. e \<in> set es \<and>
     unat (class_id e) < class_count m \<and> unat c < class_count m}"

fun nested_by :: "lockdep_call \<Rightarrow> lockdep \<Rightarrow> (nat \<times> nat) set" where
  "nested_by (CAcquire c irq) s =
    (if c \<noteq> INVALID \<and> snd (acquire c irq s)
     then held_pairs (LOCK_DEP_MAP s) c (held_classes (HELD_LOCK_STACK s)) else {})"
| "nested_by _ s = {}"

fun observed :: "lockdep_call list \<Rightarrow> lockdep \<Rightarrow> (nat \<times> nat) set" where
  "observed [] s = {}"
| "observed (a # as) s = nested_by a s \<union> observed as (lockdep_step a s)"

definition edges :: "LockDepMap \<Rightarrow> (nat \<times> nat) set" where
  "edges m = {(i, j). i < class_count m \<and> j < class_count m \<and> adjacency m ! i ! j \<noteq> 0}"

definition map_wf :: "LockDepMap \<Rightarrow> bool" where
  "map_wf m \<longleftrightarrow> length (classes m) = MAX_LOCK_CLASSES \<and> class_count m \<le> MAX_LOCK_CLASSES \<and>
     length (adjacency m) = MAX_LOCK_CLASSES \<and> (\<forall>row \<in> set (adjacency m). length row = MAX_LOCK_CLASSES) \<and>
     (\<forall>i < MAX_LOCK_CLASSES. \<forall>j < MAX_LOCK_CLASSES. adjacency m ! i ! j \<noteq> 0 \<longrightarrow> i < class_count m \<and> j < class_count m)"

section \<open>The search decides reachability\<close>

definition bfs_state :: "nat \<Rightarrow> bool list \<Rightarrow> nat list \<Rightarrow> nat \<Rightarrow> bool" where
  "bfs_state n v q t \<longleftrightarrow> length v = MAX_LOCK_CLASSES \<and> length q = MAX_LOCK_CLASSES \<and> t \<le> MAX_LOCK_CLASSES \<and>
     distinct (take t q) \<and> set (take t q) \<subseteq> {..<n} \<and> (\<forall>i < n. v ! i \<longleftrightarrow> i \<in> set (take t q))"

lemma bfs_state_room:
  assumes "bfs_state n v q t" "i < n" "\<not> v ! i" "n \<le> MAX_LOCK_CLASSES"
  shows "t < MAX_LOCK_CLASSES"
proof -
  have "set (take t q) \<subseteq> {..<n} - {i}" using assms by (auto simp: bfs_state_def)
  then have "card (set (take t q)) \<le> card ({..<n} - {i})" by (intro card_mono) auto
  moreover have "card (set (take t q)) = t"
    using assms(1) by (simp add: bfs_state_def distinct_card)
  ultimately show ?thesis using assms(2,4) by simp
qed

lemma bfs_state_visit:
  assumes "bfs_state n v q t" "i < n" "\<not> v ! i" "n \<le> MAX_LOCK_CLASSES"
  shows "bfs_state n (v[i := True]) (q[t := i]) (Suc t)"
    and "take (Suc t) (q[t := i]) = take t q @ [i]"
proof -
  have t: "t < MAX_LOCK_CLASSES" using assms by (rule bfs_state_room)
  then show tk: "take (Suc t) (q[t := i]) = take t q @ [i]"
    using assms(1) by (simp add: bfs_state_def take_Suc_conv_app_nth)
  show "bfs_state n (v[i := True]) (q[t := i]) (Suc t)"
    using assms t unfolding bfs_state_def tk by (auto simp: nth_list_update_if)
qed

lemma bfs_scan_None:
  "bfs_scan row target ns (v, q, t) = None \<Longrightarrow> target \<in> set ns \<and> row ! target \<noteq> 0"
  by (induction ns arbitrary: v q t) (auto split: if_splits)

lemma bfs_scan_Some:
  assumes "bfs_scan row target ns (v, q, t) = Some (v', q', t')" "bfs_state n v q t"
    "set ns \<subseteq> {..<n}" "n \<le> MAX_LOCK_CLASSES"
  shows "bfs_state n v' q' t' \<and> (\<exists>new. take t' q' = take t q @ new \<and> target \<notin> set new \<and>
    set (take t' q') = set (take t q) \<union> {i \<in> set ns. row ! i \<noteq> 0})"
  using assms
proof (induction ns arbitrary: v q t)
  case (Cons i ns)
  consider "v ! i" | "\<not> v ! i" "row ! i = 0" | "\<not> v ! i" "row ! i \<noteq> 0" by blast
  then show ?case
  proof cases
    case 1
    then have s: "bfs_scan row target ns (v, q, t) = Some (v', q', t')" using Cons.prems(1) by simp
    have "i \<in> set (take t q)" using 1 Cons.prems(2,3) by (auto simp: bfs_state_def)
    with Cons.IH [OF s Cons.prems(2) _ Cons.prems(4)] Cons.prems(3) show ?thesis by auto
  next
    case 2
    then have s: "bfs_scan row target ns (v, q, t) = Some (v', q', t')" using Cons.prems(1) by simp
    show ?thesis using Cons.IH [OF s Cons.prems(2) _ Cons.prems(4)] Cons.prems(3) 2(2) by auto
  next
    case 3
    have iM: "i < n" using Cons.prems(3) by simp
    note visit = bfs_state_visit [OF Cons.prems(2) iM 3(1) Cons.prems(4)]
    have "t < MAX_LOCK_CLASSES" by (rule bfs_state_room [OF Cons.prems(2) iM 3(1) Cons.prems(4)])
    with Cons.prems(1) 3 have "i \<noteq> target"
      and s: "bfs_scan row target ns (v[i := True], q[t := i], Suc t) = Some (v', q', t')"
      by (simp_all split: if_splits)
    have "set ns \<subseteq> {..<n}" using Cons.prems(3) by simp
    from Cons.IH [OF s visit(1) this Cons.prems(4)] obtain new where
      a: "bfs_state n v' q' t'" "target \<notin> set new" and
      b: "take t' q' = (take t q @ [i]) @ new"
        "set (take t' q') = set (take t q @ [i]) \<union> {i \<in> set ns. row ! i \<noteq> 0}"
      unfolding visit(2) by blast
    have "take t' q' = take t q @ i # new" using b(1) by simp
    moreover have "set (take t' q') = set (take t q) \<union> {j \<in> set (i # ns). row ! j \<noteq> 0}"
      using b(2) 3(2) by auto
    ultimately show ?thesis using a \<open>i \<noteq> target\<close>
      by (intro conjI exI [of _ "i # new"]) simp_all
  qed
qed auto

lemma closed_rtrancl_subset:
  assumes "(a, b) \<in> r\<^sup>*" "a \<in> S" "\<And>x y. x \<in> S \<Longrightarrow> (x, y) \<in> r \<Longrightarrow> y \<in> S"
  shows "b \<in> S"
  using assms by (induction rule: rtrancl_induct) auto

lemma bfs_loop_exact:
  assumes "map_wf m" "bfs_state (class_count m) v q t" "h \<le> t"
    "\<forall>x \<in> set (take t q). (start, x) \<in> (edges m)\<^sup>*" "start \<in> set (take t q)"
    "\<forall>x \<in> set (take h q). \<forall>y. (x, y) \<in> edges m \<longrightarrow> y \<in> set (take t q)"
    "target \<notin> set (take t q)" "target < class_count m"
  shows "bfs_loop m target v q h t \<longleftrightarrow> (start, target) \<in> (edges m)\<^sup>*"
  using assms
proof (induction m target v q h t rule: bfs_loop.induct)
  case (1 m target v q h t)
  note P = "1.prems"
  show ?case
  proof (cases "h < t")
    case False
    then have "h = t" using P(3) by simp
    then have "(start, target) \<notin> (edges m)\<^sup>*"
      using closed_rtrancl_subset [of start target "edges m" "set (take t q)"] P(5,6,7) by blast
    with False show ?thesis by (simp add: bfs_loop.simps)
  next
    case True
    let ?cur = "q ! h" and ?n = "class_count m"
    have len: "t \<le> length q" using P(2) by (simp add: bfs_state_def)
    have cur: "?cur \<in> set (take t q)" using True len by (metis in_set_conv_nth length_take min.absorb2 nth_take)
    then have cn: "?cur < ?n" using P(2) by (auto simp: bfs_state_def)
    have succ: "(?cur, y) \<in> edges m \<longleftrightarrow> y \<in> set [0..<?n] \<and> adjacency m ! ?cur ! y \<noteq> 0" for y
      using cn by (auto simp: edges_def)
    show ?thesis
    proof (cases "bfs_scan (adjacency m ! ?cur) target [0..<?n] (v, q, t)")
      case None
      then have "(?cur, target) \<in> edges m" using bfs_scan_None [OF None] succ by simp
      moreover have "(start, ?cur) \<in> (edges m)\<^sup>*" using P(4) cur by blast
      ultimately show ?thesis using True None by (simp add: bfs_loop.simps)
    next
      case (Some r)
      then obtain v' q' t' where sc: "bfs_scan (adjacency m ! ?cur) target [0..<?n] (v, q, t) = Some (v', q', t')"
        by (cases r) auto
      have "set [0..<?n] \<subseteq> {..<?n}" "?n \<le> MAX_LOCK_CLASSES" using P(1) by (auto simp: map_wf_def)
      from bfs_scan_Some [OF sc P(2) this] obtain new where
        st: "bfs_state ?n v' q' t'" and nw: "take t' q' = take t q @ new" "target \<notin> set new" and
        S: "set (take t' q') = set (take t q) \<union> {i. (?cur, i) \<in> edges m}"
        by (auto simp: succ)
      have tt: "h + 1 \<le> t'" using bfs_scan_tail [OF sc] True by simp
      have th: "take (h + 1) q' = take h q @ [?cur]"
      proof -
        have "take (h + 1) q' = take (h + 1) (take t' q')" using tt by (simp add: min_absorb1)
        also have "\<dots> = take (h + 1) q" using nw(1) True len by (simp add: min_absorb1)
        finally show ?thesis using True len by (simp add: take_Suc_conv_app_nth)
      qed
      have "bfs_loop m target v' q' (h + 1) t' \<longleftrightarrow> (start, target) \<in> (edges m)\<^sup>*"
      proof (rule "1.IH" [OF True sc refl refl P(1) st tt])
        show "\<forall>x \<in> set (take t' q'). (start, x) \<in> (edges m)\<^sup>*"
          using P(4) cur unfolding S by (auto intro: rtrancl_into_rtrancl)
        show "start \<in> set (take t' q')" using P(5) S by simp
        show "\<forall>x \<in> set (take (h + 1) q'). \<forall>y. (x, y) \<in> edges m \<longrightarrow> y \<in> set (take t' q')"
          using P(6) unfolding S th by auto
        show "target \<notin> set (take t' q')" using P(7) nw by simp
        show "target < class_count m" by (rule P(8))
      qed
      then show ?thesis using True sc by (simp add: bfs_loop.simps)
    qed
  qed
qed

lemma has_path_iff:
  assumes "map_wf m" "start < class_count m" "target < class_count m" "start \<noteq> target"
  shows "has_path m start target \<longleftrightarrow> (start, target) \<in> (edges m)\<^sup>*"
proof -
  have M: "start < MAX_LOCK_CLASSES" "0 < MAX_LOCK_CLASSES" using assms(1,2) by (auto simp: map_wf_def)
  have tk: "take 1 ((replicate MAX_LOCK_CLASSES 0)[0 := start]) = [start]"
    using M(2) by (simp add: take_Suc_conv_app_nth)
  have "bfs_state (class_count m) ((replicate MAX_LOCK_CLASSES False)[start := True])
      ((replicate MAX_LOCK_CLASSES 0)[0 := start]) 1"
    using assms M unfolding bfs_state_def tk by (auto simp: nth_list_update_if map_wf_def)
  from bfs_loop_exact [OF assms(1) this, of 0 start target] show ?thesis
    using assms(3,4) unfolding has_path_def tk by simp
qed

section \<open>Adding an edge\<close>

lemma set_edge_simps [simp]:
  "classes (set_edge i j b m) = classes m" "class_count (set_edge i j b m) = class_count m"
  "deadlock_detected (set_edge i j b m) = deadlock_detected m"
  "violation_count (set_edge i j b m) = violation_count m"
  by (simp_all add: set_edge_def)

lemma row_length: "map_wf m \<Longrightarrow> i < MAX_LOCK_CLASSES \<Longrightarrow> length (adjacency m ! i) = MAX_LOCK_CLASSES"
  by (simp add: map_wf_def)

lemma nth_set_edge:
  assumes "map_wf m" "i < MAX_LOCK_CLASSES" "j < MAX_LOCK_CLASSES" "x < MAX_LOCK_CLASSES"
  shows "adjacency (set_edge i j b m) ! x ! y = (if x = i \<and> y = j then b else adjacency m ! x ! y)"
  using assms row_length [OF assms(1,2)] by (auto simp: set_edge_def map_wf_def nth_list_update_if)

lemma set_edge_wf:
  assumes "map_wf m" "i < class_count m" "j < class_count m"
  shows "map_wf (set_edge i j b m)"
proof -
  have M: "i < MAX_LOCK_CLASSES" "j < MAX_LOCK_CLASSES" using assms by (auto simp: map_wf_def)
  have "length row = MAX_LOCK_CLASSES" if "row \<in> set (adjacency (set_edge i j b m))" for row
    using that assms(1) row_length [OF assms(1) M(1)]
    by (auto simp: set_edge_def map_wf_def dest: set_update_subset_insert [THEN subsetD])
  moreover have "x < class_count m \<and> y < class_count m"
    if "x < MAX_LOCK_CLASSES" "y < MAX_LOCK_CLASSES" "adjacency (set_edge i j b m) ! x ! y \<noteq> 0" for x y
    using that assms unfolding nth_set_edge [OF assms(1) M that(1)]
    by (auto simp: map_wf_def split: if_splits)
  ultimately show ?thesis using assms(1) by (simp add: map_wf_def set_edge_def)
qed

lemma edges_set_edge:
  assumes "map_wf m" "i < class_count m" "j < class_count m"
  shows "edges (set_edge i j b m) = (if b = 0 then edges m - {(i, j)} else insert (i, j) (edges m))"
proof -
  have M: "x < MAX_LOCK_CLASSES" if "x < class_count m" for x using that assms(1) by (simp add: map_wf_def)
  show ?thesis
    using assms nth_set_edge [OF assms(1) M [OF assms(2)] M [OF assms(3)] M]
    by (auto simp: edges_def split: if_splits)
qed

lemma edges_in_range: "(i, j) \<in> edges m \<Longrightarrow> i < class_count m \<and> j < class_count m"
  by (simp add: edges_def)

lemma has_path_new_edge:
  assumes "map_wf m" "i < class_count m" "j < class_count m" "i \<noteq> j" "b \<noteq> 0"
  shows "has_path (set_edge i j b m) j i \<longleftrightarrow> (j, i) \<in> (edges m)\<^sup>*"
proof -
  have "has_path (set_edge i j b m) j i \<longleftrightarrow> (j, i) \<in> (insert (i, j) (edges m))\<^sup>*"
    using has_path_iff [OF set_edge_wf [OF assms(1-3), of b], of j i] assms
    by (simp add: edges_set_edge)
  then show ?thesis by (auto simp: rtrancl_insert)
qed

text \<open>The three outcomes: a class that is not registered, an order that keeps the graph acyclic, one that would close a cycle.\<close>

lemma add_dependency_cases:
  assumes "map_wf m" "from \<noteq> to" "acyclic (edges m)"
  shows "map_wf (fst (add_dependency from to m))"
    and "class_count (fst (add_dependency from to m)) = class_count m"
    and "\<not> (unat from < class_count m \<and> unat to < class_count m) \<Longrightarrow> add_dependency from to m = (m, True)"
    and "unat from < class_count m \<Longrightarrow> unat to < class_count m \<Longrightarrow>
      acyclic (insert (unat from, unat to) (edges m)) \<Longrightarrow>
      edges (fst (add_dependency from to m)) = insert (unat from, unat to) (edges m) \<and>
      deadlock_detected (fst (add_dependency from to m)) = deadlock_detected m \<and> snd (add_dependency from to m)"
    and "unat from < class_count m \<Longrightarrow> unat to < class_count m \<Longrightarrow>
      \<not> acyclic (insert (unat from, unat to) (edges m)) \<Longrightarrow>
      edges (fst (add_dependency from to m)) = edges m \<and>
      deadlock_detected (fst (add_dependency from to m)) \<and> \<not> snd (add_dependency from to m)"
proof -
  let ?f = "unat from" and ?t = "unat to"
  have ne: "?f \<noteq> ?t" using assms(2) word_unat_eq_iff by blast
  have upd: "map_wf (m'\<lparr>deadlock_detected := d, violation_count := c\<rparr>) = map_wf m'"
    "edges (m'\<lparr>deadlock_detected := d, violation_count := c\<rparr>) = edges m'"
    "class_count (m'\<lparr>deadlock_detected := d, violation_count := c\<rparr>) = class_count m'" for m' d c
    by (simp_all add: map_wf_def edges_def)
  have swap: "set_edge i j b (m'\<lparr>deadlock_detected := d, violation_count := c\<rparr>) =
    (set_edge i j b m')\<lparr>deadlock_detected := d, violation_count := c\<rparr>" for i j b m' d c
    by (simp add: set_edge_def)
  have bits: "DEPENDENCY_NEW \<noteq> 0" "DEPENDENCY_VERIFIED \<noteq> 0"
    by (simp_all add: DEPENDENCY_NEW_def DEPENDENCY_VERIFIED_def)
  show "\<not> (?f < class_count m \<and> ?t < class_count m) \<Longrightarrow> add_dependency from to m = (m, True)"
    by (auto simp: add_dependency_def)
  show "map_wf (fst (add_dependency from to m))" "class_count (fst (add_dependency from to m)) = class_count m"
    using assms(1) by (auto simp: add_dependency_def Let_def swap upd intro!: set_edge_wf)
  assume R: "?f < class_count m" "?t < class_count m"
  note path = has_path_new_edge [OF assms(1) R ne bits(1)]
  note es = edges_set_edge [OF assms(1) R] edges_set_edge [OF set_edge_wf [OF assms(1) R]]
  have old: "adjacency m ! ?f ! ?t \<noteq> 0 \<longleftrightarrow> (?f, ?t) \<in> edges m" using R by (simp add: edges_def)
  show "edges (fst (add_dependency from to m)) = insert (?f, ?t) (edges m) \<and>
      deadlock_detected (fst (add_dependency from to m)) = deadlock_detected m \<and> snd (add_dependency from to m)"
    if "acyclic (insert (?f, ?t) (edges m))"
    using that R bits old by (auto simp: add_dependency_def Let_def path es acyclic_insert)
  show "edges (fst (add_dependency from to m)) = edges m \<and>
      deadlock_detected (fst (add_dependency from to m)) \<and> \<not> snd (add_dependency from to m)"
    if "\<not> acyclic (insert (?f, ?t) (edges m))"
  proof -
    have "(?t, ?f) \<in> (edges m)\<^sup>*" using that assms(3) by (simp add: acyclic_insert)
    moreover have "(?f, ?t) \<notin> edges m" using that assms(3) insert_absorb [of "(?f, ?t)" "edges m"] by metis
    ultimately show ?thesis using R bits old
      by (simp add: add_dependency_def Let_def path es swap upd)
  qed
qed

section \<open>The graph against the observed nesting\<close>

text \<open>
  \<open>tracks obs m\<close>: the graph is acyclic and holds observed orders only; until the flag is raised it holds
  all of them, and the flag says that they have a cycle.
\<close>

definition tracks :: "(nat \<times> nat) set \<Rightarrow> LockDepMap \<Rightarrow> bool" where
  "tracks obs m \<longleftrightarrow> map_wf m \<and> acyclic (edges m) \<and> edges m \<subseteq> obs \<and>
     (if deadlock_detected m then \<not> acyclic obs else edges m = obs)"

lemma not_acyclic_mono: "\<not> acyclic r \<Longrightarrow> r \<subseteq> s \<Longrightarrow> \<not> acyclic s"
  using acyclic_subset by blast

lemma tracks_add_dependency:
  assumes "tracks obs m" "class_id e \<noteq> c"
  shows "tracks (obs \<union> held_pairs m c [e]) (fst (add_dependency (class_id e) c m))"
proof -
  let ?f = "unat (class_id e)" and ?t = "unat c" and ?m = "fst (add_dependency (class_id e) c m)"
  have wf: "map_wf m" and ac: "acyclic (edges m)" and sub: "edges m \<subseteq> obs"
    using assms(1) by (auto simp: tracks_def)
  note add = add_dependency_cases [OF wf assms(2) ac]
  show ?thesis
  proof (cases "?f < class_count m \<and> ?t < class_count m")
    case False
    then have "held_pairs m c [e] = {}" by (auto simp: held_pairs_def)
    then show ?thesis using assms(1) add(3) [OF False] by simp
  next
    case True
    then have hp: "held_pairs m c [e] = {(?f, ?t)}" by (auto simp: held_pairs_def)
    show ?thesis
    proof (cases "acyclic (insert (?f, ?t) (edges m))")
      case acy: True
      have "edges ?m = insert (?f, ?t) (edges m)" "deadlock_detected ?m = deadlock_detected m"
        using add(4) True acy by blast+
      then show ?thesis
        using assms(1) add(1) acy not_acyclic_mono [of obs "insert (?f, ?t) obs"]
        unfolding tracks_def hp by auto
    next
      case cyc: False
      have "edges ?m = edges m" "deadlock_detected ?m" using add(5) True cyc by blast+
      moreover have "\<not> acyclic (insert (?f, ?t) obs)" using not_acyclic_mono [OF cyc] sub by blast
      ultimately show ?thesis using add(1) ac sub unfolding tracks_def hp by auto
    qed
  qed
qed

lemma held_pairs_Cons: "held_pairs m c (e # es) = held_pairs m c [e] \<union> held_pairs m c es"
  by (auto simp: held_pairs_def)

lemma tracks_add_dependencies:
  assumes "tracks obs m" "\<forall>e \<in> set es. class_id e \<noteq> c"
  shows "tracks (obs \<union> held_pairs m c es) (add_dependencies c es m)"
  using assms
proof (induction es arbitrary: obs m)
  case Nil
  then show ?case by (simp add: add_dependencies_def held_pairs_def)
next
  case (Cons e es)
  let ?m = "fst (add_dependency (class_id e) c m)"
  have "class_count ?m = class_count m"
    using Cons.prems by (intro add_dependency_cases(2)) (auto simp: tracks_def)
  then have "held_pairs ?m c es = held_pairs m c es" by (simp add: held_pairs_def)
  with Cons.IH [OF tracks_add_dependency [OF Cons.prems(1), of e c]] Cons.prems(2) show ?case
    by (simp add: add_dependencies_def held_pairs_Cons [of m c e es] Un_assoc)
qed

lemma tracks_violation: "tracks obs (m\<lparr>violation_count := n\<rparr>) = tracks obs m"
  by (simp add: tracks_def map_wf_def edges_def)

lemma tracks_register:
  assumes "tracks obs m"
  shows "tracks obs (fst (register d m))"
proof -
  have "tracks obs (m\<lparr>classes := (classes m)[class_count m := e], class_count := class_count m + 1\<rparr>)"
    if "class_count m < MAX_LOCK_CLASSES" for e
  proof -
    have wf: "map_wf m" using assms by (simp add: tracks_def)
    have "edges (m\<lparr>classes := (classes m)[class_count m := e], class_count := class_count m + 1\<rparr>) = edges m"
    proof -
      have "i < class_count m \<and> j < class_count m"
        if "i < class_count m + 1" "j < class_count m + 1" "adjacency m ! i ! j \<noteq> 0" for i j
      proof -
        have "i < MAX_LOCK_CLASSES" "j < MAX_LOCK_CLASSES" using that \<open>class_count m < MAX_LOCK_CLASSES\<close> by simp_all
        with wf that(3) show ?thesis unfolding map_wf_def by blast
      qed
      then show ?thesis by (auto simp: edges_def)
    qed
    moreover have "map_wf (m\<lparr>classes := (classes m)[class_count m := e], class_count := class_count m + 1\<rparr>)"
      using that wf unfolding map_wf_def by (auto simp: less_Suc_eq)
    ultimately show ?thesis using assms by (simp add: tracks_def)
  qed
  then show ?thesis using assms by (auto simp: register_def split: option.split)
qed

lemma acquire_invalid: "c = INVALID \<Longrightarrow> acquire c irq s = (s, True)"
  by (simp add: acquire_def)

lemma acquire_refused:
  assumes "\<not> snd (acquire c irq s)"
  shows "acquire c irq s = (count_violation s, False)"
proof -
  have "acquire c irq s = (s, True) \<or> acquire c irq s = (count_violation s, False) \<or> snd (acquire c irq s)"
    unfolding acquire_def by (simp only: if_split fst_conv snd_conv) simp
  with assms show ?thesis by auto
qed

lemma tracks_step:
  assumes "tracks obs (LOCK_DEP_MAP s)"
  shows "tracks (obs \<union> nested_by a s) (LOCK_DEP_MAP (lockdep_step a s))"
proof (cases a)
  case (CAcquire c irq)
  show ?thesis
  proof (cases "snd (acquire c irq s) \<and> c \<noteq> INVALID")
    case True
    then have "\<not> held_contains c (HELD_LOCK_STACK s)" by (auto simp: acquire_def split: if_splits)
    then have ne: "\<forall>e \<in> set (held_classes (HELD_LOCK_STACK s)). class_id e \<noteq> c"
      by (auto simp: held_contains_def list_ex_iff)
    have "LOCK_DEP_MAP (fst (acquire c irq s)) =
        add_dependencies c (held_classes (HELD_LOCK_STACK s)) (LOCK_DEP_MAP s)"
      using True by (auto simp: acquire_def split: if_splits)
    with tracks_add_dependencies [OF assms ne] True CAcquire show ?thesis by simp
  next
    case False
    then have "fst (acquire c irq s) = s \<or> fst (acquire c irq s) = count_violation s"
      using acquire_refused [of c irq s] acquire_invalid [of c irq s] by auto
    then have "tracks obs (LOCK_DEP_MAP (fst (acquire c irq s)))"
      using assms by (auto simp: count_violation_def tracks_violation)
    with False CAcquire show ?thesis by auto
  qed
next
  case (CRegister d)
  then show ?thesis using tracks_register [OF assms, of d]
    by (auto simp: register_class_def split: prod.split)
next
  case (CRelease c)
  have "LOCK_DEP_MAP (release c s) = LOCK_DEP_MAP s \<or> release c s = count_violation s"
    by (auto simp: release_def split: prod.split bool.split)
  then have "tracks obs (LOCK_DEP_MAP (release c s))"
    using assms by (auto simp: count_violation_def tracks_violation)
  with CRelease show ?thesis by simp
qed (use assms in \<open>simp_all add: irq_enter_def irq_exit_def\<close>)

lemma tracks_run:
  "tracks obs (LOCK_DEP_MAP s) \<Longrightarrow> tracks (obs \<union> observed as s) (LOCK_DEP_MAP (lockdep_run as s))"
proof (induction as arbitrary: obs s)
  case (Cons a as)
  from Cons.IH [OF tracks_step [OF Cons.prems, of a]] show ?case
    by (simp add: lockdep_run_def Un_assoc)
qed (simp add: lockdep_run_def)

lemma tracks_new: "tracks {} (LOCK_DEP_MAP lockdep_new)"
  by (simp add: tracks_def lockdep_new_def LockDepMap_new_def map_wf_def edges_def acyclic_def)

section \<open>The stack of held locks\<close>

definition stack_wf :: "HeldLockStack \<Rightarrow> bool" where
  "stack_wf st \<longleftrightarrow> length (entries st) = MAX_HELD_LOCKS \<and> depth st \<le> MAX_HELD_LOCKS \<and>
     distinct (map class_id (held_classes st))"

lemma append_update_next: "length l = n \<Longrightarrow> (l @ r)[n := (l @ r) ! Suc n] = l @ r[0 := r ! 1]"
  by (auto simp: list_update_append nth_append)

lemma shift_loop:
  "i \<le> n \<Longrightarrow> n < length es \<Longrightarrow>
    fold (\<lambda>j es. es[j := es ! (j + 1)]) [i..<n] es = take i es @ take (n - i) (drop (Suc i) es) @ drop n es"
proof (induction n)
  case 0
  then show ?case by simp
next
  case (Suc n)
  show ?case
  proof (cases "i = Suc n")
    case True
    then show ?thesis by simp
  next
    case False
    then have i: "i \<le> n" using Suc.prems by simp
    let ?l = "take i es @ take (n - i) (drop (Suc i) es)"
    have len: "length ?l = n" using i Suc.prems by simp
    have "fold (\<lambda>j es. es[j := es ! (j + 1)]) [i..<Suc n] es = (?l @ drop n es)[n := (?l @ drop n es) ! Suc n]"
      using Suc.IH i Suc.prems by simp
    also have "\<dots> = ?l @ (drop n es)[0 := drop n es ! 1]"
      using len by (rule append_update_next)
    also have "(drop n es)[0 := drop n es ! 1] = es ! Suc n # drop (Suc n) es"
      using Suc.prems by (simp add: Cons_nth_drop_Suc [symmetric, of n])
    also have "?l @ es ! Suc n # drop (Suc n) es = take i es @ take (Suc n - i) (drop (Suc i) es) @ drop (Suc n) es"
      using i Suc.prems by (simp add: Suc_diff_le take_Suc_conv_app_nth)
    finally show ?thesis .
  qed
qed

lemma held_pop_cases:
  assumes "stack_wf st"
  shows "c \<notin> class_id ` set (held_classes st) \<Longrightarrow> held_pop c st = (st, False)"
    and "c \<in> class_id ` set (held_classes st) \<Longrightarrow> snd (held_pop c st) \<and>
      held_classes (fst (held_pop c st)) = filter (\<lambda>e. class_id e \<noteq> c) (held_classes st) \<and>
      length (entries (fst (held_pop c st))) = MAX_HELD_LOCKS"
proof -
  let ?h = "held_classes st"
  show "c \<notin> class_id ` set ?h \<Longrightarrow> held_pop c st = (st, False)"
    using find_idx_None_iff [of "\<lambda>e. class_id e = c" "rev ?h"] by (auto simp: held_pop_def split: option.split)
  assume "c \<in> class_id ` set ?h"
  then obtain k where k: "find_idx (\<lambda>e. class_id e = c) (rev ?h) = Some k"
    using find_idx_None_iff [of "\<lambda>e. class_id e = c" "rev ?h"] by fastforce
  have len: "length ?h = depth st" "length (entries st) = MAX_HELD_LOCKS" "depth st \<le> MAX_HELD_LOCKS"
    and dist: "distinct (map class_id ?h)" using assms by (auto simp: held_classes_def stack_wf_def)
  let ?i = "depth st - 1 - k"
  have kd: "k < depth st" and "class_id (rev ?h ! k) = c"
    using find_idx_SomeD [OF k] len(1) by simp_all
  then have i: "?i < depth st" "class_id (?h ! ?i) = c"
    using len(1) by (simp_all add: rev_nth)
  have split: "?h = take ?i ?h @ ?h ! ?i # drop (Suc ?i) ?h"
    using i(1) len(1) by (simp add: id_take_nth_drop)
  have others: "class_id e \<noteq> c" if "e \<in> set (take ?i ?h) \<union> set (drop (Suc ?i) ?h)" for e
  proof -
    have "distinct (map class_id (take ?i ?h @ ?h ! ?i # drop (Suc ?i) ?h))" using dist split by metis
    with that i(2) show ?thesis by (auto simp: image_iff)
  qed
  have flt: "filter (\<lambda>e. class_id e \<noteq> c) ?h = take ?i ?h @ drop (Suc ?i) ?h"
    using others i(2) by (subst split) (simp add: filter_True)
  let ?es = "fold (\<lambda>j es. es[j := es ! (j + 1)]) [?i..<depth st - 1] (entries st)"
  have es: "?es = take ?i (entries st) @ take (depth st - 1 - ?i) (drop (Suc ?i) (entries st)) @
      drop (depth st - 1) (entries st)"
    using i(1) len by (intro shift_loop) auto
  have mi: "min (depth st - Suc 0) (depth st - Suc k) = depth st - Suc k" by simp
  have "take (depth st - 1) ?es = take ?i ?h @ drop (Suc ?i) ?h"
    unfolding es held_classes_def using i(1) len by (simp add: drop_take mi)
  moreover have "length ?es = MAX_HELD_LOCKS" unfolding es using i(1) len by simp
  ultimately show "snd (held_pop c st) \<and> held_classes (fst (held_pop c st)) = filter (\<lambda>e. class_id e \<noteq> c) ?h \<and>
      length (entries (fst (held_pop c st))) = MAX_HELD_LOCKS"
    unfolding held_pop_def k Let_def flt by (simp add: held_classes_def)
qed

lemma held_push_cases:
  assumes "stack_wf st"
  shows "depth st < MAX_HELD_LOCKS \<Longrightarrow> held_classes (fst (held_push c irq st)) = held_classes st @ [\<lparr>class_id = c, in_irq = irq\<rparr>] \<and>
      length (entries (fst (held_push c irq st))) = MAX_HELD_LOCKS"
    and "depth st = MAX_HELD_LOCKS \<Longrightarrow> held_push c irq st = (st, False)"
  using assms by (simp_all add: held_push_def held_classes_def stack_wf_def take_Suc_conv_app_nth)

lemma stack_wfI:
  assumes "length (entries st) = MAX_HELD_LOCKS" "depth st \<le> MAX_HELD_LOCKS" "distinct (map class_id (held_classes st))"
  shows "stack_wf st"
  using assms by (simp add: stack_wf_def)

lemma depth_push_pop:
  "depth (fst (held_push c irq st)) \<le> max (depth st) MAX_HELD_LOCKS"
  "depth (fst (held_pop c st)) \<le> depth st"
  by (auto simp: held_push_def held_pop_def Let_def split: option.split)

lemma stack_wf_push:
  assumes "stack_wf st" "\<not> held_contains c st"
  shows "stack_wf (fst (held_push c irq st))"
proof (cases "depth st < MAX_HELD_LOCKS")
  case True
  show ?thesis
    using held_push_cases(1) [OF assms(1) True, of c irq] depth_push_pop(1) [of c irq st] assms
    by (intro stack_wfI) (auto simp: held_contains_def list_ex_iff stack_wf_def max_def split: if_splits)
next
  case False
  then show ?thesis using assms(1) by (simp add: held_push_def)
qed

lemma stack_wf_pop: "stack_wf st \<Longrightarrow> stack_wf (fst (held_pop c st))"
proof (cases "c \<in> class_id ` set (held_classes st)")
  case True
  assume wf: "stack_wf st"
  show ?thesis
    using held_pop_cases(2) [OF wf True] depth_push_pop(2) [of c st] wf
    by (intro stack_wfI) (auto simp: stack_wf_def distinct_map_filter)
qed (simp add: held_pop_cases(1))

lemma stack_wf_step: "stack_wf (HELD_LOCK_STACK s) \<Longrightarrow> stack_wf (HELD_LOCK_STACK (lockdep_step a s))"
proof (cases a)
  case (CAcquire c irq)
  assume "stack_wf (HELD_LOCK_STACK s)"
  then show ?thesis using CAcquire stack_wf_push [of "HELD_LOCK_STACK s" c irq]
    by (auto simp: acquire_def count_violation_def)
next
  case (CRelease c)
  assume "stack_wf (HELD_LOCK_STACK s)"
  then show ?thesis using CRelease stack_wf_pop [of "HELD_LOCK_STACK s" c]
    by (auto simp: release_def count_violation_def split: prod.split bool.split)
qed (auto simp: register_class_def irq_enter_def irq_exit_def split: prod.split)

lemma stack_wf_run: "stack_wf (HELD_LOCK_STACK (lockdep_run as lockdep_new))"
proof -
  have "stack_wf (HELD_LOCK_STACK s) \<Longrightarrow> stack_wf (HELD_LOCK_STACK (lockdep_run as s))" for s
    by (induction as arbitrary: s) (simp_all add: lockdep_run_def stack_wf_step)
  moreover have "stack_wf (HELD_LOCK_STACK lockdep_new)"
    by (simp add: stack_wf_def lockdep_new_def HeldLockStack_new_def held_classes_def)
  ultimately show ?thesis by blast
qed

text \<open>
  The verdict of \<^verbatim>\<open>acquire\<close> does not depend on the graph: an acquisition that closes a cycle raises the
  flag and still returns \<^verbatim>\<open>true\<close>.
\<close>

lemma acquire_accepts:
  "snd (acquire c irq s) \<longleftrightarrow> c = INVALID \<or>
    \<not> (irq \<and> (\<exists>k. class_kind (LOCK_DEP_MAP s) c = Some k \<and> may_sleep k)) \<and> \<not> held_contains c (HELD_LOCK_STACK s)"
  by (auto simp: acquire_def split: option.split)

lemma register_idempotent:
  assumes "map_wf m" "register d m = (m', i)" "i \<noteq> INVALID"
  shows "register d m' = (m', i)"
proof -
  let ?P = "\<lambda>e. ce_used e \<and> ce_name e = ld_name d"
  show ?thesis
  proof (cases "find_idx ?P (take (class_count m) (classes m))")
    case (Some k)
    then show ?thesis using assms(2) by (auto simp: register_def)
  next
    case None
    let ?n = "class_count m" and ?e = "\<lparr>ce_name = ld_name d, ce_kind = ld_kind d, ce_used = True\<rparr>"
    from None assms(2,3) have n: "?n < MAX_LOCK_CLASSES" and i: "i = word_of_nat ?n"
      and m': "m' = m\<lparr>classes := (classes m)[?n := ?e], class_count := ?n + 1\<rparr>"
      by (auto simp: register_def split: if_splits)
    have "take (?n + 1) ((classes m)[?n := ?e]) = take ?n (classes m) @ [?e]"
      using n assms(1) by (simp add: map_wf_def take_Suc_conv_app_nth)
    moreover have "find_idx ?P (take ?n (classes m) @ [?e]) = Some ?n"
    proof -
      have "\<not> ?P (classes m ! j)" if "j < ?n" for j
        using None that n assms(1) nth_mem [of j "take ?n (classes m)"]
        by (simp add: find_idx_None_iff map_wf_def)
      then show ?thesis using n assms(1) by (auto simp: find_idx_Some_iff nth_append map_wf_def)
    qed
    ultimately show ?thesis unfolding m' i by (simp add: register_def)
  qed
qed

section \<open>Properties\<close>

text \<open>C14: The checker is exact.  After any sequence of registrations, acquisitions, releases and
  interrupts, the flag that a deadlock is possible is set if and only if the nested acquisitions of
  the history (a registered class acquired while another one is held) contain a cycle.  So a history without a
  report has a global order of its locks, and there is no false report.\<close>
theorem lockdep_exact:
  "deadlock_detected (LOCK_DEP_MAP (lockdep_run calls lockdep_new)) \<longleftrightarrow> \<not> acyclic (observed calls lockdep_new)"
proof -
  have "tracks (observed calls lockdep_new) (LOCK_DEP_MAP (lockdep_run calls lockdep_new))"
    using tracks_run [OF tracks_new, of calls] by simp
  then show ?thesis by (auto simp: tracks_def split: if_splits)
qed

text \<open>The stack of held locks is exact.  In every reachable state the held classes are distinct; an acquisition that
  is accepted below the depth of eight adds its class, a release takes exactly its class away, and a
  release of a class that is not held counts one violation and changes nothing else.\<close>
theorem held_locks_exact:
  assumes "s = lockdep_run calls lockdep_new" "c \<noteq> INVALID"
  shows "distinct (map class_id (held_classes (HELD_LOCK_STACK s)))"
    and "snd (acquire c irq s) \<and> held_depth s < MAX_HELD_LOCKS \<longrightarrow>
      held_classes (HELD_LOCK_STACK (fst (acquire c irq s))) =
        held_classes (HELD_LOCK_STACK s) @ [\<lparr>class_id = c, in_irq = irq\<rparr>]"
    and "held_contains c (HELD_LOCK_STACK s) \<longrightarrow> held_classes (HELD_LOCK_STACK (release c s)) =
        filter (\<lambda>e. class_id e \<noteq> c) (held_classes (HELD_LOCK_STACK s)) \<and>
        LOCK_DEP_MAP (release c s) = LOCK_DEP_MAP s"
    and "\<not> held_contains c (HELD_LOCK_STACK s) \<longrightarrow> release c s = count_violation s"
proof -
  have wf: "stack_wf (HELD_LOCK_STACK s)" unfolding assms(1) by (rule stack_wf_run)
  then show "distinct (map class_id (held_classes (HELD_LOCK_STACK s)))" by (simp add: stack_wf_def)
  show "snd (acquire c irq s) \<and> held_depth s < MAX_HELD_LOCKS \<longrightarrow>
      held_classes (HELD_LOCK_STACK (fst (acquire c irq s))) =
        held_classes (HELD_LOCK_STACK s) @ [\<lparr>class_id = c, in_irq = irq\<rparr>]"
    using held_push_cases(1) [OF wf] assms(2) by (auto simp: acquire_def held_depth_def)
  have mem: "held_contains c (HELD_LOCK_STACK s) \<longleftrightarrow> c \<in> class_id ` set (held_classes (HELD_LOCK_STACK s))"
    by (auto simp: held_contains_def list_ex_iff)
  show "held_contains c (HELD_LOCK_STACK s) \<longrightarrow> held_classes (HELD_LOCK_STACK (release c s)) =
        filter (\<lambda>e. class_id e \<noteq> c) (held_classes (HELD_LOCK_STACK s)) \<and>
        LOCK_DEP_MAP (release c s) = LOCK_DEP_MAP s"
    using held_pop_cases(2) [OF wf, of c] assms(2) unfolding mem
    by (auto simp: release_def split: prod.split bool.split)
  show "\<not> held_contains c (HELD_LOCK_STACK s) \<longrightarrow> release c s = count_violation s"
    using held_pop_cases(1) [OF wf, of c] assms(2) unfolding mem by (auto simp: release_def)
qed

theorem held_locks_exact_witness:
  "held_classes (HELD_LOCK_STACK (fst (acquire 3 True (lockdep_run [] lockdep_new)))) = [\<lparr>class_id = 3, in_irq = True\<rparr>]"
proof -
  have "snd (acquire 3 True (lockdep_run [] lockdep_new)) \<and> held_depth (lockdep_run [] lockdep_new) < MAX_HELD_LOCKS"
    by (simp add: acquire_accepts lockdep_run_def lockdep_new_def LockDepMap_new_def HeldLockStack_new_def
      held_depth_def held_contains_def held_classes_def class_kind_def MAX_HELD_LOCKS_def)
  with held_locks_exact(2) [OF refl, of 3 True "[]"] show ?thesis
    by (simp add: INVALID_def lockdep_run_def lockdep_new_def HeldLockStack_new_def held_classes_def)
qed

end
