(* ===== verification/Vma.thy ===== *)
theory Vma
  imports Rlimit User_Mem "HOL-Library.Monad_Syntax"
begin

text \<open>
  Address spaces, \<^verbatim>\<open>framework/mm/vma.rs\<close>: the list of memory areas of a process and the operations behind
  \<^verbatim>\<open>mmap\<close>, \<^verbatim>\<open>munmap\<close>, \<^verbatim>\<open>mprotect\<close>, \<^verbatim>\<open>mremap\<close>, \<^verbatim>\<open>brk\<close>, \<^verbatim>\<open>madvise\<close>, \<^verbatim>\<open>mlock\<close> and \<^verbatim>\<open>mincore\<close>.  The calls to the page
  tables, the page lists and the page cache are returned in order.  The loops over the pages of a range may not end
  (the address wraps around), so they are partial functions, and an operation that runs them
  returns an option.  The operations on one address space run one at a time.
\<close>

section \<open>Data\<close>

definition MM_PAGE_SIZE :: u64 where "MM_PAGE_SIZE = 4096"

definition PRESENT :: u64 where "PRESENT = 1"
definition WRITABLE :: u64 where "WRITABLE = 2"
definition USER :: u64 where "USER = 4"
definition NX :: u64 where "NX = 0x8000000000000000"

definition MLOCKED :: u32 where "MLOCKED = 1"
definition LOCKED_FUTURE :: u32 where "LOCKED_FUTURE = 2"
definition LOCKED_ONFAULT :: u32 where "LOCKED_ONFAULT = 4"
definition VM_DONTNEED :: u32 where "VM_DONTNEED = 0x10"
definition VM_PAGEOUT :: u32 where "VM_PAGEOUT = 0x20"
definition VM_FREE :: u32 where "VM_FREE = 0x40"
definition VM_RANDOM :: u32 where "VM_RANDOM = 0x80"
definition VM_SEQUENTIAL :: u32 where "VM_SEQUENTIAL = 0x100"
definition VM_WILLNEED :: u32 where "VM_WILLNEED = 0x200"

datatype VmaType = Anonymous | FileBacked | Stack | Heap | Vdso | Vsvar | Guard | Device

record Vma =
  v_start :: u64
  v_end :: u64
  v_flags :: u64
  v_type :: VmaType
  v_offset :: u64
  v_inode_id :: u32
  v_shared :: bool
  v_file_pwm :: u64
  v_mount_idx :: "u64 option"
  vm_flags :: u32

definition Vma_new :: "u64 \<Rightarrow> u64 \<Rightarrow> u64 \<Rightarrow> VmaType \<Rightarrow> Vma" where
  "Vma_new s e flags t = \<lparr>v_start = s, v_end = e, v_flags = flags, v_type = t, v_offset = 0, v_inode_id = 0,
    v_shared = False, v_file_pwm = 0, v_mount_idx = None, vm_flags = 0\<rparr>"

definition file_backed :: "u64 \<Rightarrow> u64 \<Rightarrow> u64 \<Rightarrow> u64 \<Rightarrow> u32 \<Rightarrow> u64 \<Rightarrow> bool \<Rightarrow> u64 option \<Rightarrow> Vma" where
  "file_backed s e flags off inode pwm shd mount = \<lparr>v_start = s, v_end = e, v_flags = flags, v_type = FileBacked,
    v_offset = off, v_inode_id = inode, v_shared = shd, v_file_pwm = pwm, v_mount_idx = mount, vm_flags = 0\<rparr>"

definition vma_contains :: "Vma \<Rightarrow> u64 \<Rightarrow> bool" where
  "vma_contains v addr \<longleftrightarrow> v_start v \<le> addr \<and> addr < v_end v"

definition is_mlocked :: "Vma \<Rightarrow> bool" where
  "is_mlocked v \<longleftrightarrow> vm_flags v AND MLOCKED = MLOCKED"

record MmStruct =
  vmas :: "Vma list"
  start_brk :: u64
  brk :: u64
  start_stack :: u64
  mmap_base :: u64
  locked_vm :: u64
  mlock_all_flags :: u32

definition MmStruct_new :: MmStruct where
  "MmStruct_new = \<lparr>vmas = [], start_brk = 0, brk = 0, start_stack = 0, mmap_base = 0, locked_vm = 0, mlock_all_flags = 0\<rparr>"

datatype mm_call =
  UnmapPage u64
| ProtectPage u64 u64
| SetPageLocked u64 bool
| KswapdWakeup
| PcachePut u32 u64

definition page_align_up :: "u64 \<Rightarrow> u64" where
  "page_align_up x = (x + MM_PAGE_SIZE - 1) AND NOT (MM_PAGE_SIZE - 1)"

text \<open>\<^verbatim>\<open>while addr < end { ..; addr += PAGE_SIZE }\<close>: the addresses visited.\<close>

partial_function (option) page_addrs :: "u64 \<Rightarrow> u64 \<Rightarrow> u64 list option" where
  "page_addrs addr e =
    (if addr < e then Option.bind (page_addrs (addr + MM_PAGE_SIZE) e) (\<lambda>as. Some (addr # as)) else Some [])"

section \<open>Look-up, insertion, removal\<close>

definition find_vma :: "u64 \<Rightarrow> MmStruct \<Rightarrow> Vma option" where
  "find_vma addr mm = List.find (\<lambda>v. vma_contains v addr) (vmas mm)"

definition same_key :: "Vma \<Rightarrow> Vma \<Rightarrow> bool" where
  "same_key u v \<longleftrightarrow> v_type u = v_type v \<and> v_flags u = v_flags v \<and> v_file_pwm u = v_file_pwm v"

fun merge_loop :: "Vma \<Rightarrow> Vma list \<Rightarrow> Vma \<times> Vma list" where
  "merge_loop merged [] = (merged, [])"
| "merge_loop merged (v # vs) =
    (if \<not> same_key v merged then (case merge_loop merged vs of (m, rest) \<Rightarrow> (m, v # rest))
     else if v_start merged \<le> v_end v \<and> v_start v \<le> v_end merged then
       merge_loop (merged\<lparr>v_start := min (v_start merged) (v_start v), v_end := max (v_end merged) (v_end v)\<rparr>) vs
     else (case merge_loop merged vs of (m, rest) \<Rightarrow> (m, v # rest)))"

definition insert_sorted :: "Vma \<Rightarrow> Vma list \<Rightarrow> Vma list" where
  "insert_sorted m vs =
    (let pos = (case find_idx (\<lambda>v. v_start m < v_start v) vs of Some i \<Rightarrow> i | None \<Rightarrow> length vs)
     in take pos vs @ m # drop pos vs)"

definition vma_overlaps :: "Vma \<Rightarrow> Vma \<Rightarrow> bool" where
  "vma_overlaps u v \<longleftrightarrow> v_start u < v_end v \<and> v_start v < v_end u"

definition insert_vma :: "Vma \<Rightarrow> MmStruct \<Rightarrow> string + MmStruct" where
  "insert_vma v mm =
    (if list_ex (\<lambda>u. vma_overlaps v u \<and> (v_type u \<noteq> v_type v \<or> v_flags u \<noteq> v_flags v)) (vmas mm)
     then Inl ''VMA overlap with incompatible mapping''
     else case merge_loop v (vmas mm) of (m, rest) \<Rightarrow> Inr (mm\<lparr>vmas := insert_sorted m rest\<rparr>))"

text \<open>The loop of \<^verbatim>\<open>remove_range\<close>: what stays of the list, and the ranges whose pages are unmapped.\<close>

fun remove_loop :: "u64 \<Rightarrow> u64 \<Rightarrow> Vma list \<Rightarrow> Vma list \<times> (u64 \<times> u64) list" where
  "remove_loop s e [] = ([], [])"
| "remove_loop s e (v # vs) =
    (if v_end v \<le> s then (case remove_loop s e vs of (rest, us) \<Rightarrow> (v # rest, us))
     else if e \<le> v_start v then (v # vs, [])
     else if s \<le> v_start v \<and> v_end v \<le> e then
       (case remove_loop s e vs of (rest, us) \<Rightarrow> (rest, (v_start v, v_end v) # us))
     else if s \<le> v_start v then
       (case remove_loop s e vs of (rest, us) \<Rightarrow> (v\<lparr>v_start := e\<rparr> # rest, (s, e) # us))
     else if v_end v \<le> e then
       (case remove_loop s e vs of (rest, us) \<Rightarrow> (v\<lparr>v_end := s\<rparr> # rest, (s, v_end v) # us))
     else (case remove_loop s e vs of (rest, us) \<Rightarrow>
       (Vma_new (v_start v) s (v_flags v) (v_type v) # Vma_new e (v_end v) (v_flags v) (v_type v) # rest, (s, e) # us)))"

fun unmap_ranges :: "(u64 \<times> u64) list \<Rightarrow> mm_call list option" where
  "unmap_ranges [] = Some []"
| "unmap_ranges ((s, e) # us) =
    Option.bind (page_addrs s e) (\<lambda>as. Option.bind (unmap_ranges us) (\<lambda>cs. Some (map UnmapPage as @ cs)))"

definition remove_range :: "u64 \<Rightarrow> u64 \<Rightarrow> MmStruct \<Rightarrow> (MmStruct \<times> mm_call list) option" where
  "remove_range s e mm =
    (case remove_loop s e (vmas mm) of (rest, us) \<Rightarrow>
       Option.bind (unmap_ranges us) (\<lambda>cs. Some (mm\<lparr>vmas := rest\<rparr>, cs)))"

fun free_range_loop :: "u64 \<Rightarrow> u64 \<Rightarrow> Vma list \<Rightarrow> u64 option" where
  "free_range_loop sz cursor [] = (if cursor + sz \<le> USER_ADDR_MAX then Some cursor else None)"
| "free_range_loop sz cursor (v # vs) =
    (if cursor + sz \<le> v_start v then Some cursor else free_range_loop sz (v_end v) vs)"

definition find_free_range :: "u64 \<Rightarrow> MmStruct \<Rightarrow> u64 option" where
  "find_free_range sz mm = free_range_loop sz (mmap_base mm) (vmas mm)"

section \<open>Protection, remapping and the heap\<close>

type_synonym 'a mm_result = "(MmStruct \<times> mm_call list \<times> (errno + 'a)) option"

fun protect_hit :: "u64 \<Rightarrow> u64 \<Rightarrow> Vma list \<Rightarrow> bool" where
  "protect_hit s e [] = False"
| "protect_hit s e (v # vs) = (if v_end v \<le> s then protect_hit s e vs else \<not> e \<le> v_start v)"

definition protect_pieces :: "u64 \<Rightarrow> u64 \<Rightarrow> u64 \<Rightarrow> Vma \<Rightarrow> Vma list" where
  "protect_pieces flags s e v =
    (if v_end v \<le> s \<or> e \<le> v_start v then [v]
     else (if v_start v < s then [v\<lparr>v_end := s\<rparr>] else []) @
       [v\<lparr>v_start := max (v_start v) s, v_end := min (v_end v) e, v_flags := flags\<rparr>] @
       (if e < v_end v then [v\<lparr>v_start := e\<rparr>] else []))"

definition mprotect :: "u64 \<Rightarrow> u64 \<Rightarrow> u64 \<Rightarrow> MmStruct \<Rightarrow> unit mm_result" where
  "mprotect start len flags mm =
    (if len = 0 then Some (mm, [], Inl EINVAL)
     else case checked_add start len of
       None \<Rightarrow> Some (mm, [], Inl ENOMEM)
     | Some e0 \<Rightarrow>
         let e = page_align_up e0 in
         if \<not> protect_hit start e (vmas mm) then Some (mm, [], Inl ENOMEM)
         else Option.bind (page_addrs (start AND NOT (MM_PAGE_SIZE - 1)) e) (\<lambda>as.
           Some (mm\<lparr>vmas := concat (map (protect_pieces flags start e) (vmas mm))\<rparr>,
                 map (\<lambda>a. ProtectPage a flags) as, Inr ())))"

definition MREMAP_MAYMOVE :: i32 where "MREMAP_MAYMOVE = 1"

definition next_start :: "u64 \<Rightarrow> Vma list \<Rightarrow> u64" where
  "next_start boundary = foldl (\<lambda>n v. if boundary \<le> v_start v \<and> v_start v < n then v_start v else n) (- 1)"

definition mremap :: "u64 \<Rightarrow> u64 \<Rightarrow> u64 \<Rightarrow> i32 \<Rightarrow> MmStruct \<Rightarrow> u64 mm_result" where
  "mremap old_addr old_size new_size flags mm =
    (if old_size = 0 then Some (mm, [], Inl EINVAL)
     else if flags AND NOT MREMAP_MAYMOVE \<noteq> 0 then Some (mm, [], Inl EINVAL)
     else let old_al = page_align_up old_size in
     case find_vma old_addr mm of
       None \<Rightarrow> Some (mm, [], Inl EFAULT)
     | Some old \<Rightarrow>
         if v_start old \<noteq> old_addr \<or> v_end old \<noteq> old_addr + old_al then Some (mm, [], Inl EFAULT)
         else if new_size = 0 then
           Option.bind (remove_range old_addr (old_addr + old_al) mm) (\<lambda>(mm', cs). Some (mm', cs, Inr 0))
         else let new_al = page_align_up new_size in
         if new_al \<le> old_al then
           Option.bind (remove_range (old_addr + new_al) (old_addr + old_al) mm) (\<lambda>(mm', cs). Some (mm', cs, Inr old_addr))
         else if flags AND MREMAP_MAYMOVE = 0 then
           let boundary = old_addr + old_al in
           if boundary + (new_al - old_al) \<le> next_start boundary (vmas mm) then
             (case find_idx (\<lambda>v. v_start v = old_addr) (vmas mm) of
                Some i \<Rightarrow> Some (mm\<lparr>vmas := (vmas mm)[i := (vmas mm ! i)\<lparr>v_end := boundary + (new_al - old_al)\<rparr>]\<rparr>, [], Inr old_addr)
              | None \<Rightarrow> Some (mm, [], Inl EFAULT))
           else Some (mm, [], Inl EFAULT)
         else case find_free_range new_al mm of
           None \<Rightarrow> Some (mm, [], Inl ENOMEM)
         | Some new_start \<Rightarrow>
             Option.bind (remove_range old_addr (old_addr + old_al) mm) (\<lambda>(mm', cs).
               case insert_vma (old\<lparr>v_start := new_start, v_end := new_start + new_al\<rparr>) mm' of
                 Inl _ \<Rightarrow> Some (mm', cs, Inl ENOMEM)
               | Inr mm'' \<Rightarrow> Some (mm'', cs, Inr new_start)))"

definition set_brk :: "u64 \<Rightarrow> MmStruct \<Rightarrow> (MmStruct \<times> mm_call list \<times> (string + u64)) option" where
  "set_brk new_brk mm =
    (let aligned = page_align_up new_brk; current = brk mm in
     if start_brk mm < aligned then
       (case insert_vma (Vma_new current aligned (PRESENT OR WRITABLE OR USER) Heap) mm of
          Inl err \<Rightarrow> Some (mm, [], Inl err)
        | Inr mm' \<Rightarrow> Some (mm'\<lparr>brk := aligned\<rparr>, [], Inr aligned))
     else if aligned < current then
       Option.bind (remove_range aligned current (mm\<lparr>brk := aligned\<rparr>)) (\<lambda>(mm', cs). Some (mm', cs, Inr (brk mm')))
     else Some (mm, [], Inr current))"

section \<open>Advice and locking\<close>

definition advice_flag :: "u32 \<Rightarrow> u32 option" where
  "advice_flag advice =
    (if advice = 4 then Some VM_DONTNEED else if advice = 5 then Some VM_PAGEOUT
     else if advice = 6 then Some VM_FREE else if advice = 1 then Some VM_RANDOM
     else if advice = 2 then Some VM_SEQUENTIAL else if advice = 3 then Some VM_WILLNEED else None)"

definition covered :: "u64 \<Rightarrow> u64 \<Rightarrow> Vma \<Rightarrow> bool" where
  "covered s e v \<longleftrightarrow> \<not> (v_end v \<le> s \<or> e \<le> v_start v) \<and> s \<le> v_start v \<and> v_end v \<le> e"

definition set_vm_flag :: "u32 \<Rightarrow> Vma \<Rightarrow> Vma" where
  "set_vm_flag f v = v\<lparr>vm_flags := vm_flags v OR f\<rparr>"

text \<open>The second loop of \<^verbatim>\<open>madvise_range\<close>: the pieces of an area, and the range that is counted.\<close>

definition advise_pieces :: "u32 \<Rightarrow> u64 \<Rightarrow> u64 \<Rightarrow> Vma \<Rightarrow> Vma list" where
  "advise_pieces f s e v =
    (if v_end v \<le> s \<or> e \<le> v_start v then [v]
     else if v_start v < s then
       [v\<lparr>v_end := s\<rparr>, set_vm_flag f (v\<lparr>v_start := s, v_offset := v_offset v + (s - v_start v)\<rparr>)]
     else if e < v_end v then
       [set_vm_flag f (v\<lparr>v_end := e\<rparr>), v\<lparr>v_start := e, v_offset := v_offset v + (e - v_start v)\<rparr>]
     else [v])"

definition advise_touched :: "u64 \<Rightarrow> u64 \<Rightarrow> Vma \<Rightarrow> (u64 \<times> u64) list" where
  "advise_touched s e v =
    (if v_end v \<le> s \<or> e \<le> v_start v then []
     else if v_start v < s then [(s, v_end v)]
     else if e < v_end v then [(v_start v, e)]
     else [])"

definition touched_bytes :: "(u64 \<times> u64) list \<Rightarrow> u64" where
  "touched_bytes = foldl (\<lambda>n (s, e). n + (e - s)) 0"

fun evict_ranges :: "Vma list \<Rightarrow> (u64 \<times> u64) list \<Rightarrow> mm_call list \<times> (errno + unit)" where
  "evict_ranges vs [] = ([], Inr ())"
| "evict_ranges vs ((s, e) # rs) =
    (if list_ex (\<lambda>v. v_start v \<le> s \<and> e \<le> v_end v \<and> is_mlocked v) vs then ([], Inl EAGAIN)
     else (case evict_ranges vs rs of (cs, r) \<Rightarrow> (KswapdWakeup # cs, r)))"

definition madvise_range :: "u64 \<Rightarrow> u64 \<Rightarrow> u32 \<Rightarrow> MmStruct \<Rightarrow> MmStruct \<times> mm_call list \<times> (errno + u64)" where
  "madvise_range start len advice mm =
    (if len = 0 then (mm, [], Inl EINVAL)
     else case advice_flag advice of
       None \<Rightarrow> (mm, [], Inl EINVAL)
     | Some f \<Rightarrow>
         (case checked_add start len of
            None \<Rightarrow> (mm, [], Inl ENOMEM)
          | Some e0 \<Rightarrow>
              let e = page_align_up e0;
                  vs1 = map (\<lambda>v. if covered start e v then set_vm_flag f v else v) (vmas mm);
                  touched = map (\<lambda>v. (max (v_start v) start, min (v_end v) e)) (filter (covered start e) (vmas mm)) @
                    concat (map (advise_touched start e) vs1);
                  mm' = mm\<lparr>vmas := concat (map (advise_pieces f start e) vs1)\<rparr>
              in if f = VM_PAGEOUT \<or> f = VM_DONTNEED then
                   (case evict_ranges (vmas mm') touched of
                      (cs, Inl err) \<Rightarrow> (mm', cs, Inl err)
                    | (cs, Inr _) \<Rightarrow> (mm', cs, Inr (touched_bytes touched)))
                 else (mm', [], Inr (touched_bytes touched))))"

definition overlap_bytes :: "u64 \<Rightarrow> u64 \<Rightarrow> Vma list \<Rightarrow> u64" where
  "overlap_bytes s e = foldl (\<lambda>n v. if v_end v \<le> s \<or> e \<le> v_start v then n
     else n + (min (v_end v) e - max (v_start v) s)) 0"

definition mlock_range :: "u64 option \<Rightarrow> u64 \<Rightarrow> u64 \<Rightarrow> MmStruct \<Rightarrow> u64 mm_result" where
  "mlock_range registered start len mm =
    (if len = 0 then Some (mm, [], Inl EINVAL)
     else case checked_add start len of
       None \<Rightarrow> Some (mm, [], Inl ENOMEM)
     | Some e0 \<Rightarrow>
         let e = page_align_up e0; total_bytes = overlap_bytes start e (vmas mm) in
         if total_bytes = 0 then Some (mm, [], Inl ENOMEM)
         else if query_memlock_exceeded registered (locked_vm mm) total_bytes then Some (mm, [], Inl ENOMEM)
         else Option.bind (page_addrs start e) (\<lambda>as.
           Some (mm\<lparr>vmas := map (\<lambda>v. if v_end v \<le> start \<or> e \<le> v_start v then v else set_vm_flag MLOCKED v) (vmas mm),
                    locked_vm := locked_vm mm + total_bytes\<rparr>,
                 map (\<lambda>a. SetPageLocked a True) as, Inr total_bytes)))"

definition clear_vm_flag :: "u32 \<Rightarrow> Vma \<Rightarrow> Vma" where
  "clear_vm_flag f v = v\<lparr>vm_flags := vm_flags v AND NOT f\<rparr>"

definition munlock_range :: "u64 \<Rightarrow> u64 \<Rightarrow> MmStruct \<Rightarrow> u64 mm_result" where
  "munlock_range start len mm =
    (if len = 0 then Some (mm, [], Inl EINVAL)
     else case checked_add start len of
       None \<Rightarrow> Some (mm, [], Inl ENOMEM)
     | Some e0 \<Rightarrow>
         let e = page_align_up e0; total_bytes = overlap_bytes start e (vmas mm) in
         Option.bind (page_addrs start e) (\<lambda>as.
           Some (mm\<lparr>vmas := map (\<lambda>v. if v_end v \<le> start \<or> e \<le> v_start v then v else clear_vm_flag MLOCKED v) (vmas mm),
                    locked_vm := saturating_sub (locked_vm mm) total_bytes\<rparr>,
                 map (\<lambda>a. SetPageLocked a False) as, Inr total_bytes)))"

definition MCL_CURRENT :: u32 where "MCL_CURRENT = 1"
definition MCL_FUTURE :: u32 where "MCL_FUTURE = 2"
definition MCL_ONFAULT :: u32 where "MCL_ONFAULT = 4"

definition mlock_all :: "u32 \<Rightarrow> MmStruct \<Rightarrow> MmStruct \<times> (errno + u32)" where
  "mlock_all flags mm =
    (if flags AND NOT (MCL_CURRENT OR MCL_FUTURE OR MCL_ONFAULT) \<noteq> 0 then (mm, Inl EINVAL)
     else
       let (mm1, a1) =
             (if flags AND MCL_CURRENT \<noteq> 0 then
                (mm\<lparr>vmas := map (\<lambda>v. if v_type v = Guard \<or> v_type v = Device then v else set_vm_flag MLOCKED v) (vmas mm),
                    locked_vm := 0xFFFFFFFFFFFFFFFF div 2\<rparr>, MCL_CURRENT)
              else (mm, 0));
           (mm2, a2) =
             (if flags AND MCL_FUTURE \<noteq> 0 then
                (mm1\<lparr>mlock_all_flags := mlock_all_flags mm1 OR MCL_FUTURE,
                     vmas := map (set_vm_flag LOCKED_FUTURE) (vmas mm1)\<rparr>, a1 OR MCL_FUTURE)
              else (mm1, a1));
           (mm3, a3) =
             (if flags AND MCL_ONFAULT \<noteq> 0 then
                (mm2\<lparr>mlock_all_flags := mlock_all_flags mm2 OR MCL_ONFAULT,
                     vmas := map (set_vm_flag LOCKED_ONFAULT) (vmas mm2)\<rparr>, a2 OR MCL_ONFAULT)
              else (mm2, a2))
       in (mm3, Inr a3))"

definition munlock_all :: "MmStruct \<Rightarrow> MmStruct" where
  "munlock_all mm = mm\<lparr>vmas := map (\<lambda>v. clear_vm_flag LOCKED_ONFAULT (clear_vm_flag LOCKED_FUTURE (clear_vm_flag MLOCKED v))) (vmas mm),
     locked_vm := 0, mlock_all_flags := 0\<rparr>"

text \<open>\<^verbatim>\<open>mincore_range\<close>: the page table entries are an argument, the answer is the filled part of the buffer.\<close>

definition mincore_range :: "(u64 \<Rightarrow> u64 option) \<Rightarrow> u64 \<Rightarrow> u64 \<Rightarrow> nat \<Rightarrow> errno + u8 list \<times> nat" where
  "mincore_range pte start len out_len =
    (if len = 0 then Inl EINVAL
     else let n_pages = unat ((len + MM_PAGE_SIZE - 1) div MM_PAGE_SIZE) in
       if out_len < n_pages then Inl ENOMEM
       else let bits = map (\<lambda>i. case pte (start + word_of_nat i * MM_PAGE_SIZE) of
                     Some p \<Rightarrow> p AND 1 \<noteq> 0 | None \<Rightarrow> False) [0..<n_pages]
         in Inr (map (\<lambda>b. if b then 1 else 0) bits, length (filter (\<lambda>b. b) bits)))"

section \<open>What an address space maps\<close>

text \<open>
  The abstract view: what an address has, its protection and the kind of its area.  A list is well formed
  when its areas are not empty, do not overlap and stand in order.
\<close>

type_synonym attr = "u64 \<times> VmaType"

definition vma_attr :: "Vma \<Rightarrow> attr" where
  "vma_attr v = (v_flags v, v_type v)"

definition page_attr :: "Vma list \<Rightarrow> u64 \<Rightarrow> attr option" where
  "page_attr vs a = map_option vma_attr (List.find (\<lambda>v. vma_contains v a) vs)"

definition vmas_wf :: "Vma list \<Rightarrow> bool" where
  "vmas_wf vs \<longleftrightarrow> sorted_wrt (\<lambda>u v. v_end u \<le> v_start v) vs \<and> (\<forall>v \<in> set vs. v_start v < v_end v)"

definition covers :: "Vma list \<Rightarrow> u64 \<Rightarrow> attr \<Rightarrow> bool" where
  "covers vs a x \<longleftrightarrow> (\<exists>v \<in> set vs. vma_contains v a \<and> vma_attr v = x)"

lemma vmas_wf_Cons:
  "vmas_wf (v # vs) \<longleftrightarrow> v_start v < v_end v \<and> (\<forall>w \<in> set vs. v_end v \<le> v_start w) \<and> vmas_wf vs"
  by (auto simp: vmas_wf_def)

lemma vmas_wf_append:
  "vmas_wf (us @ vs) \<longleftrightarrow> vmas_wf us \<and> vmas_wf vs \<and> (\<forall>u \<in> set us. \<forall>v \<in> set vs. v_end u \<le> v_start v)"
  by (auto simp: vmas_wf_def sorted_wrt_append)

lemma vmas_wf_unique:
  assumes "vmas_wf vs" "u \<in> set vs" "v \<in> set vs" "vma_contains u a" "vma_contains v a"
  shows "u = v"
  using assms by (induction vs) (auto simp: vmas_wf_Cons vma_contains_def)

lemma covers_simps [simp]:
  "covers [] a x = False"
  "covers (v # vs) a x \<longleftrightarrow> vma_contains v a \<and> vma_attr v = x \<or> covers vs a x"
  by (auto simp: covers_def)

lemma vmas_wf_Nil [simp]: "vmas_wf []"
  by (simp add: vmas_wf_def)

lemma page_attr_iff:
  assumes "vmas_wf vs"
  shows "page_attr vs a = Some x \<longleftrightarrow> covers vs a x"
proof -
  have "List.find (\<lambda>v. vma_contains v a) vs = Some v \<longleftrightarrow> v \<in> set vs \<and> vma_contains v a" for v
  proof
    assume "v \<in> set vs \<and> vma_contains v a"
    moreover from this obtain u where "List.find (\<lambda>v. vma_contains v a) vs = Some u"
      by (cases "List.find (\<lambda>v. vma_contains v a) vs") (auto simp: find_None_iff)
    ultimately show "List.find (\<lambda>v. vma_contains v a) vs = Some v"
      using vmas_wf_unique [OF assms] by (auto simp: find_Some_iff)
  qed (auto simp: find_Some_iff)
  then show ?thesis by (auto simp: page_attr_def covers_def)
qed

lemma page_attr_eqI:
  assumes "vmas_wf vs" "vmas_wf vs'" "\<And>x. covers vs' a x \<longleftrightarrow> f (page_attr vs a) = Some x"
  shows "page_attr vs' a = f (page_attr vs a)"
  using assms by (intro option_eqI) (simp add: page_attr_iff)

section \<open>Operations that work area by area\<close>

text \<open>
  Removal, protection and advice replace each area by the pieces of it that they leave.  The locale is
  their contract: the pieces stay inside the area in order, keep it outside the range and change
  what is inside the range by \<open>inside\<close>.
\<close>

locale range_op =
  fixes pieces :: "u64 \<Rightarrow> u64 \<Rightarrow> Vma \<Rightarrow> Vma list" and inside :: "attr \<Rightarrow> attr option"
  assumes pieces_wf: "s < e \<Longrightarrow> v_start v < v_end v \<Longrightarrow> vmas_wf (pieces s e v)"
    and pieces_within: "s < e \<Longrightarrow> v_start v < v_end v \<Longrightarrow> w \<in> set (pieces s e v) \<Longrightarrow>
      v_start v \<le> v_start w \<and> v_end w \<le> v_end v"
    and pieces_covers: "s < e \<Longrightarrow> v_start v < v_end v \<Longrightarrow> vma_contains v a \<Longrightarrow>
      covers (pieces s e v) a x \<longleftrightarrow> (if s \<le> a \<and> a < e then inside (vma_attr v) = Some x else vma_attr v = x)"
begin

lemma concat_pieces_within:
  assumes "s < e" "vmas_wf vs" "w \<in> set (concat (map (pieces s e) vs))"
  shows "\<exists>v \<in> set vs. v_start v \<le> v_start w \<and> v_end w \<le> v_end v"
proof -
  from assms(3) obtain v where v: "v \<in> set vs" "w \<in> set (pieces s e v)" by auto
  then have "v_start v < v_end v" using assms(2) by (auto simp: vmas_wf_def)
  from pieces_within [OF assms(1) this v(2)] v(1) show ?thesis by blast
qed

lemma concat_pieces_wf:
  assumes "s < e" "vmas_wf vs"
  shows "vmas_wf (concat (map (pieces s e) vs))"
  using assms(2)
proof (induction vs)
  case Nil
  then show ?case by (simp add: vmas_wf_def)
next
  case (Cons v vs)
  then have v: "v_start v < v_end v" and rest: "vmas_wf vs" and after: "\<forall>w \<in> set vs. v_end v \<le> v_start w"
    by (auto simp: vmas_wf_Cons)
  have "v_end u \<le> v_start w" if "u \<in> set (pieces s e v)" "w \<in> set (concat (map (pieces s e) vs))" for u w
    using pieces_within [OF assms(1) v that(1)] concat_pieces_within [OF assms(1) rest that(2)] after
    by (meson order_trans)
  then show ?case using Cons.IH [OF rest] pieces_wf [OF assms(1) v] by (simp add: vmas_wf_append)
qed

lemma concat_pieces_attr:
  assumes "s < e" "vmas_wf vs"
  shows "page_attr (concat (map (pieces s e) vs)) a =
    (if s \<le> a \<and> a < e then Option.bind (page_attr vs a) inside else page_attr vs a)"
proof (rule option_eqI)
  fix x
  have ct: "vma_contains w a \<Longrightarrow> vma_contains v a" if "w \<in> set (pieces s e v)" "v \<in> set vs" for v w
    using pieces_within [OF assms(1) _ that(1)] that(2) assms(2)
    by (auto simp: vmas_wf_def vma_contains_def)
  have "covers (concat (map (pieces s e) vs)) a x \<longleftrightarrow> (\<exists>v \<in> set vs. vma_contains v a \<and> covers (pieces s e v) a x)"
    using ct by (auto simp: covers_def)
  also have "\<dots> \<longleftrightarrow> (\<exists>v \<in> set vs. vma_contains v a \<and>
      (if s \<le> a \<and> a < e then inside (vma_attr v) = Some x else vma_attr v = x))"
  proof -
    have "covers (pieces s e v) a x \<longleftrightarrow> (if s \<le> a \<and> a < e then inside (vma_attr v) = Some x else vma_attr v = x)"
      if "v \<in> set vs" "vma_contains v a" for v
      by (rule pieces_covers [OF assms(1) _ that(2)]) (use that(1) assms(2) in \<open>simp add: vmas_wf_def\<close>)
    then show ?thesis by blast
  qed
  also have "\<dots> \<longleftrightarrow> (if s \<le> a \<and> a < e then \<exists>y. covers vs a y \<and> inside y = Some x else covers vs a x)"
    unfolding covers_def by (simp only: split: if_split) blast
  finally show "page_attr (concat (map (pieces s e) vs)) a = Some x \<longleftrightarrow>
      (if s \<le> a \<and> a < e then Option.bind (page_attr vs a) inside else page_attr vs a) = Some x"
    by (simp add: page_attr_iff [OF concat_pieces_wf [OF assms]] page_attr_iff [OF assms(2)] bind_eq_Some_conv)
qed

end

definition remove_pieces :: "u64 \<Rightarrow> u64 \<Rightarrow> Vma \<Rightarrow> Vma list" where
  "remove_pieces s e v =
    (if v_end v \<le> s \<or> e \<le> v_start v then [v]
     else if s \<le> v_start v \<and> v_end v \<le> e then []
     else if s \<le> v_start v then [v\<lparr>v_start := e\<rparr>]
     else if v_end v \<le> e then [v\<lparr>v_end := s\<rparr>]
     else [Vma_new (v_start v) s (v_flags v) (v_type v), Vma_new e (v_end v) (v_flags v) (v_type v)])"

lemmas interval_simps = vmas_wf_Cons vma_contains_def vma_attr_def Vma_new_def set_vm_flag_def

interpretation rm: range_op remove_pieces "\<lambda>_. None"
  by unfold_locales (auto simp: remove_pieces_def interval_simps split: if_splits)

interpretation pr: range_op "protect_pieces flags" "\<lambda>(_, t). Some (flags, t)" for flags
  by unfold_locales (auto simp: protect_pieces_def interval_simps min_def max_def split: if_splits)

interpretation ad: range_op "advise_pieces f" Some for f
  by unfold_locales (auto simp: advise_pieces_def interval_simps split: if_splits)

lemma remove_loop_pieces:
  assumes "vmas_wf vs"
  shows "fst (remove_loop s e vs) = concat (map (remove_pieces s e) vs)"
  using assms
proof (induction vs)
  case (Cons v vs)
  then have IH: "fst (remove_loop s e vs) = concat (map (remove_pieces s e) vs)" by (simp add: vmas_wf_Cons)
  show ?case
  proof (cases "\<not> v_end v \<le> s \<and> e \<le> v_start v")
    case True
    then have "\<forall>w \<in> set (v # vs). e \<le> v_start w" using Cons.prems
      by (auto simp: vmas_wf_Cons)
    then have "map (remove_pieces s e) (v # vs) = map (\<lambda>w. [w]) (v # vs)"
      by (auto simp: remove_pieces_def)
    then show ?thesis using True by (simp only: concat_map_singleton) simp
  next
    case False
    then show ?thesis using IH by (auto simp: remove_pieces_def [of s e v] split: prod.split)
  qed
qed simp

section \<open>Insertion\<close>

definition merge_ok :: "Vma \<Rightarrow> Vma list \<Rightarrow> bool" where
  "merge_ok m vs \<longleftrightarrow> v_start m < v_end m \<and> vmas_wf vs \<and> (\<forall>v \<in> set vs. vma_overlaps m v \<longrightarrow> same_key v m)"

lemma merge_loop_right:
  assumes "\<forall>w \<in> set vs. v_end m < v_start w"
  shows "merge_loop m vs = (m, vs)"
  using assms by (induction vs) auto

lemma merge_loop_bound:
  assumes "merge_loop m vs = (m', rest)" "L \<le> v_start m" "\<forall>w \<in> set vs. L \<le> v_start w"
  shows "L \<le> v_start m'"
  using assms by (induction m vs arbitrary: rest rule: merge_loop.induct) (auto split: if_splits prod.splits)

lemma merge_loop_grows:
  assumes "merge_loop m vs = (m', rest)"
  shows "v_start m' \<le> v_start m \<and> v_end m \<le> v_end m' \<and> vma_attr m' = vma_attr m \<and> set rest \<subseteq> set vs"
  using assms
  by (induction m vs arbitrary: rest rule: merge_loop.induct) (fastforce simp: vma_attr_def split: if_splits prod.splits)+

lemma merge_ok_hull:
  assumes "merge_ok m (v # vs)" "same_key v m" "v_start m \<le> v_end v" "v_start v \<le> v_end m"
  shows "merge_ok (m\<lparr>v_start := min (v_start m) (v_start v), v_end := max (v_end m) (v_end v)\<rparr>) vs"
proof -
  have v: "v_start v < v_end v" "\<forall>w \<in> set vs. v_end v \<le> v_start w" and wf: "vmas_wf vs"
    and m: "v_start m < v_end m" and key: "\<forall>w \<in> set vs. vma_overlaps m w \<longrightarrow> same_key w m"
    using assms(1) by (auto simp: merge_ok_def vmas_wf_Cons)
  have "vma_overlaps m w" if "w \<in> set vs" "v_start w < max (v_end m) (v_end v)" for w
    using that v(1) v(2) [rule_format, OF that(1)] assms(3) wf
    by (auto simp: vma_overlaps_def vmas_wf_def max_def split: if_splits)
  then have "same_key w m" if "w \<in> set vs" "v_start w < max (v_end m) (v_end v)" for w
    using key that by blast
  then show ?thesis using m v(1) wf
    by (auto simp: merge_ok_def vma_overlaps_def same_key_def min_def max_def split: if_splits)
qed

lemma merge_loop_spec:
  assumes "merge_loop m vs = (m', rest)" "merge_ok m vs"
  shows "vmas_wf rest \<and> (\<forall>r \<in> set rest. \<not> vma_overlaps m' r) \<and>
    (\<forall>a x. covers (m' # rest) a x \<longleftrightarrow> (if vma_contains m a then vma_attr m = x else covers vs a x))"
  using assms
proof (induction m vs arbitrary: rest rule: merge_loop.induct)
  case (1 m)
  then show ?case by auto
next
  case (2 m v vs)
  have v: "v_start v < v_end v" "\<forall>w \<in> set vs. v_end v \<le> v_start w" and wf: "vmas_wf vs"
    and m: "v_start m < v_end m" using "2.prems"(2) by (auto simp: merge_ok_def vmas_wf_Cons)
  show ?case
  proof (cases "same_key v m \<and> v_start m \<le> v_end v \<and> v_start v \<le> v_end m")
    case True
    let ?h = "m\<lparr>v_start := min (v_start m) (v_start v), v_end := max (v_end m) (v_end v)\<rparr>"
    have "merge_loop ?h vs = (m', rest)" using "2.prems"(1) True by simp
    note IH = "2.IH"(2) [OF _ _ this merge_ok_hull [OF "2.prems"(2)]]
    have ha: "vma_attr ?h = vma_attr m" "vma_attr v = vma_attr m"
      using True by (auto simp: vma_attr_def same_key_def)
    have hc: "vma_contains ?h a \<longleftrightarrow> vma_contains m a \<or> vma_contains v a" for a
      using True m v(1) by (auto simp: vma_contains_def min_def max_def)
    have "(if vma_contains ?h a then vma_attr ?h = x else covers vs a x) \<longleftrightarrow>
        (if vma_contains m a then vma_attr m = x else covers (v # vs) a x)" for a x
    proof (cases "vma_contains v a")
      case True
      then have "\<not> covers vs a x" using v by (auto simp: covers_def vma_contains_def)
      with True show ?thesis by (auto simp: hc ha)
    qed (simp add: hc ha)
    with IH True show ?thesis by simp
  next
    case False
    from "2.prems"(1) False obtain rest1 where r: "merge_loop m vs = (m', rest1)" "rest = v # rest1"
      by (auto split: if_splits prod.splits)
    have ok: "merge_ok m vs" using "2.prems"(2) by (auto simp: merge_ok_def vmas_wf_Cons)
    have IH: "vmas_wf rest1 \<and> (\<forall>r \<in> set rest1. \<not> vma_overlaps m' r) \<and>
      (\<forall>a x. covers (m' # rest1) a x \<longleftrightarrow> (if vma_contains m a then vma_attr m = x else covers vs a x))"
      using "2.IH"(1,3) r(1) ok False by (cases "same_key v m") auto
    have no: "\<not> vma_overlaps m v"
      using False "2.prems"(2) by (auto simp: merge_ok_def vma_overlaps_def)
    have sub: "set rest1 \<subseteq> set vs" using merge_loop_grows [OF r(1)] by simp
    have novl: "\<not> vma_overlaps m' v"
    proof (cases "v_end v \<le> v_start m")
      case True
      then show ?thesis using merge_loop_bound [OF r(1) True] v(2) by (auto simp: vma_overlaps_def)
    next
      case left: False
      then have le: "v_end m \<le> v_start v" using no m by (auto simp: vma_overlaps_def)
      then have "\<forall>w \<in> set vs. v_end m < v_start w" using v by auto
      then have "m' = m" using merge_loop_right [of vs m] r(1) by simp
      then show ?thesis using no by simp
    qed
    have disj: "\<not> vma_contains m a" if "vma_contains v a" for a
      using no that by (auto simp: vma_overlaps_def vma_contains_def)
    have "vmas_wf rest" using IH v sub unfolding r(2) by (auto simp: vmas_wf_Cons)
    moreover have "covers (m' # rest) a x \<longleftrightarrow> (if vma_contains m a then vma_attr m = x else covers (v # vs) a x)" for a x
    proof -
      have "covers (m' # rest1) a x \<longleftrightarrow> (if vma_contains m a then vma_attr m = x else covers vs a x)"
        using IH by blast
      then show ?thesis using disj [of a] unfolding r(2) by (auto split: if_splits)
    qed
    ultimately show ?thesis using IH novl unfolding r(2) by auto
  qed
qed

lemma insert_sorted_spec:
  assumes "vmas_wf vs" "v_start m < v_end m" "\<forall>r \<in> set vs. \<not> vma_overlaps m r"
  shows "vmas_wf (insert_sorted m vs)" "set (insert_sorted m vs) = insert m (set vs)"
proof -
  define pos where "pos = (case find_idx (\<lambda>v. v_start m < v_start v) vs of Some i \<Rightarrow> i | None \<Rightarrow> length vs)"
  have eq: "insert_sorted m vs = take pos vs @ m # drop pos vs" by (simp add: insert_sorted_def pos_def Let_def)
  have "set (take pos vs) \<union> set (drop pos vs) = set vs" by (metis append_take_drop_id set_append)
  then show "set (insert_sorted m vs) = insert m (set vs)" unfolding eq by auto
  have left: "v_start v \<le> v_start m" if "v \<in> set (take pos vs)" for v
    using that find_idx_None_iff [of "\<lambda>v. v_start m < v_start v" vs]
    by (auto simp: pos_def in_set_conv_nth find_idx_Some_iff not_less split: option.splits)
  have right: "v_start m < v_start v" if v: "v \<in> set (drop pos vs)" for v
  proof -
    have lt: "pos < length vs" using v by (cases "pos < length vs") auto
    then have hd: "v_start m < v_start (vs ! pos)"
    proof (cases "find_idx (\<lambda>v. v_start m < v_start v) vs")
      case None
      then show ?thesis using lt by (simp add: pos_def)
    next
      case (Some i)
      then show ?thesis using find_idx_SomeD [OF Some] by (simp add: pos_def)
    qed
    have "drop pos vs = vs ! pos # drop (Suc pos) vs" using lt by (rule Cons_nth_drop_Suc [symmetric])
    moreover have "vmas_wf (drop pos vs)"
      using assms(1) vmas_wf_append [of "take pos vs" "drop pos vs"] by simp
    ultimately show ?thesis using v hd by (auto simp: vmas_wf_Cons)
  qed
  have ne: "v_start v < v_end v" if "v \<in> set vs" for v using assms(1) that by (simp add: vmas_wf_def)
  have sub: "set (take pos vs) \<subseteq> set vs" "set (drop pos vs) \<subseteq> set vs" by (auto dest: in_set_takeD in_set_dropD)
  have "v_end v \<le> v_start m" if "v \<in> set (take pos vs)" for v
  proof -
    have "\<not> vma_overlaps m v" using assms(3) sub(1) that by blast
    then show ?thesis using left [OF that] assms(2) by (auto simp: vma_overlaps_def)
  qed
  moreover have "v_end m \<le> v_start v" if "v \<in> set (drop pos vs)" for v
  proof -
    have "\<not> vma_overlaps m v" "v_start v < v_end v" using assms(3) sub(2) that ne by blast+
    then show ?thesis using right [OF that] by (auto simp: vma_overlaps_def)
  qed
  moreover have "vmas_wf (take pos vs @ drop pos vs)" using assms(1) by simp
  ultimately show "vmas_wf (insert_sorted m vs)"
    unfolding eq vmas_wf_append vmas_wf_Cons using assms(2) by (auto simp del: append_take_drop_id)
qed

lemma insert_vma_spec:
  assumes "vmas_wf (vmas mm)" "v_start v < v_end v"
    "\<forall>u \<in> set (vmas mm). vma_overlaps v u \<longrightarrow> v_file_pwm u = v_file_pwm v" "insert_vma v mm = Inr mm'"
  shows "vmas_wf (vmas mm')" "\<exists>vs. mm' = mm\<lparr>vmas := vs\<rparr>"
    "page_attr (vmas mm') a = (if vma_contains v a then Some (vma_attr v) else page_attr (vmas mm) a)"
proof -
  obtain m rest where ml: "merge_loop v (vmas mm) = (m, rest)" by fastforce
  then have mm': "mm' = mm\<lparr>vmas := insert_sorted m rest\<rparr>"
    and cond: "\<forall>u \<in> set (vmas mm). vma_overlaps v u \<longrightarrow> v_type u = v_type v \<and> v_flags u = v_flags v"
    using assms(4) by (auto simp: insert_vma_def list_ex_iff split: if_splits)
  have "merge_ok v (vmas mm)" using assms cond by (auto simp: merge_ok_def same_key_def)
  note sp = merge_loop_spec [OF ml this]
  have "v_start m < v_end m" using merge_loop_grows [OF ml] assms(2) by auto
  note ins = insert_sorted_spec [OF _ this, of rest]
  show wf: "vmas_wf (vmas mm')" using sp ins by (simp add: mm')
  show "\<exists>vs. mm' = mm\<lparr>vmas := vs\<rparr>" using mm' by blast
  have "covers (vmas mm') a x \<longleftrightarrow> covers (m # rest) a x" for x
    using sp ins(2) by (simp add: covers_def mm')
  then have "covers (vmas mm') a x \<longleftrightarrow> (if vma_contains v a then vma_attr v = x else covers (vmas mm) a x)" for x
    using sp by blast
  then show "page_attr (vmas mm') a = (if vma_contains v a then Some (vma_attr v) else page_attr (vmas mm) a)"
    by (intro option_eqI) (simp add: page_attr_iff [OF wf] page_attr_iff [OF assms(1)])
qed

section \<open>Pages and alignment\<close>

lemma unat_page_mask: "unat (y AND NOT (MM_PAGE_SIZE - 1)) = unat y div 4096 * 4096"
proof -
  have "y AND NOT (MM_PAGE_SIZE - 1) = push_bit 12 (drop_bit 12 y)"
  proof (rule bit_word_eqI)
    fix n assume "n < LENGTH(64)"
    have "(MM_PAGE_SIZE - 1 :: u64) = mask 12" by (simp add: MM_PAGE_SIZE_def mask_eq_exp_minus_1)
    then show "bit (y AND NOT (MM_PAGE_SIZE - 1)) n \<longleftrightarrow> bit (push_bit 12 (drop_bit 12 y)) n"
      using \<open>n < LENGTH(64)\<close> by (auto simp: bit_simps)
  qed
  moreover have "unat y div 4096 * 4096 < 2 ^ 64"
  proof -
    have "unat y div 4096 * 4096 \<le> unat y" by simp
    also have "\<dots> < 2 ^ 64" using unat_bound [of y] by simp
    finally show ?thesis .
  qed
  ultimately show ?thesis
    by (simp add: unsigned_push_bit_eq unsigned_drop_bit_eq push_bit_eq_mult drop_bit_eq_div take_bit_nat_eq_self unat_word_ariths unat_div)
qed

lemma unat_page_align_up:
  assumes "unat x + 4095 < 2 ^ 64"
  shows "unat (page_align_up x) = (unat x + 4095) div 4096 * 4096"
proof -
  have "unat (x + MM_PAGE_SIZE - 1) = unat x + 4095"
  proof -
    have eq: "x + MM_PAGE_SIZE - 1 = x + 4095" by (simp add: MM_PAGE_SIZE_def)
    show ?thesis unfolding eq using assms by (simp add: unat_word_ariths)
  qed
  then show ?thesis unfolding page_align_up_def unat_page_mask by simp
qed

lemma page_align_up_bounds:
  assumes "unat x + 4095 < 2 ^ 64"
  shows "x \<le> page_align_up x" "unat (page_align_up x) < unat x + 4096" "unat (page_align_up x) \<le> 2 ^ 64 - 4096"
    "4096 dvd unat (page_align_up x)"
proof -
  note eq = unat_page_align_up [OF assms]
  have "(unat x + 4095) mod 4096 < 4096" by simp
  moreover have "(unat x + 4095) div 4096 * 4096 + (unat x + 4095) mod 4096 = unat x + 4095" by (rule div_mult_mod_eq)
  ultimately show "x \<le> page_align_up x" "unat (page_align_up x) < unat x + 4096"
    unfolding word_le_nat_alt eq by linarith+
  show "unat (page_align_up x) \<le> 2 ^ 64 - 4096" 
  proof -
    have "(unat x + 4095) div 4096 < 2 ^ 52" using assms by (intro less_mult_imp_div_less) simp
    then show ?thesis unfolding eq by simp
  qed
  show "4096 dvd unat (page_align_up x)" unfolding eq by simp
qed

lemma page_addrs_returns:
  assumes "unat e \<le> 2 ^ 64 - 4096"
  shows "\<exists>as. page_addrs a e = Some as"
proof (induction "unat e - unat a" arbitrary: a rule: less_induct)
  case less
  show ?case
  proof (cases "a < e")
    case True
    then have "unat (a + MM_PAGE_SIZE) = unat a + 4096"
      using assms by (simp add: MM_PAGE_SIZE_def unat_word_ariths word_less_nat_alt)
    then have "unat e - unat (a + MM_PAGE_SIZE) < unat e - unat a"
      using True by (simp add: word_less_nat_alt)
    from less [OF this] obtain as where "page_addrs (a + MM_PAGE_SIZE) e = Some as" by blast
    then show ?thesis using True by (subst page_addrs.simps) simp
  qed (subst page_addrs.simps, simp)
qed

lemma remove_loop_ends: "(x, y) \<in> set (snd (remove_loop s e vs)) \<Longrightarrow> y \<le> e"
  by (induction s e vs rule: remove_loop.induct) (auto split: if_splits prod.splits)

lemma unmap_ranges_returns:
  assumes "\<forall>(x, y) \<in> set us. unat y \<le> 2 ^ 64 - 4096"
  shows "\<exists>cs. unmap_ranges us = Some cs"
  using assms
proof (induction us rule: unmap_ranges.induct)
  case (2 s e us)
  then obtain as cs where "page_addrs s e = Some as" "unmap_ranges us = Some cs"
    using page_addrs_returns [of e s] by auto
  then show ?case by simp
qed simp

section \<open>The operations on the abstract view\<close>

lemma remove_range_spec:
  assumes "vmas_wf (vmas mm)" "s < e" "unat e \<le> 2 ^ 64 - 4096"
  obtains vs cs where "remove_range s e mm = Some (mm\<lparr>vmas := vs\<rparr>, cs)" "vmas_wf vs"
    "vs = concat (map (remove_pieces s e) (vmas mm))"
    "\<And>a. page_attr vs a = (if s \<le> a \<and> a < e then None else page_attr (vmas mm) a)"
proof -
  have "\<forall>(x, y) \<in> set (snd (remove_loop s e (vmas mm))). unat y \<le> 2 ^ 64 - 4096"
    using assms(3) by (auto dest!: remove_loop_ends simp: word_le_nat_alt)
  then obtain cs where "unmap_ranges (snd (remove_loop s e (vmas mm))) = Some cs"
    using unmap_ranges_returns by blast
  then have "remove_range s e mm = Some (mm\<lparr>vmas := concat (map (remove_pieces s e) (vmas mm))\<rparr>, cs)"
    using remove_loop_pieces [OF assms(1), of s e] by (auto simp: remove_range_def split: prod.split)
  moreover have "Option.bind x (\<lambda>_. None) = None" for x :: "attr option" by (cases x) auto
  ultimately show thesis
    using that rm.concat_pieces_wf [OF assms(2,1)] rm.concat_pieces_attr [OF assms(2,1)] by auto
qed

lemma protect_hit_iff:
  assumes "vmas_wf vs" "s < e"
  shows "protect_hit s e vs \<longleftrightarrow> (\<exists>v \<in> set vs. v_start v < e \<and> s < v_end v)"
  using assms(1)
proof (induction vs)
  case (Cons v vs)
  show ?case
  proof (cases "v_end v \<le> s")
    case True
    then show ?thesis using Cons by (auto simp: vmas_wf_Cons)
  next
    case False
    moreover have "v_start v < e" if "v_start w < e" "w \<in> set vs" for w
      using Cons.prems that by (auto simp: vmas_wf_Cons)
    ultimately show ?thesis by (auto simp: not_le)
  qed
qed simp

lemma mprotect_spec:
  assumes "vmas_wf (vmas mm)" "len \<noteq> 0" "unat start + unat len + 4095 < 2 ^ 64"
  defines "e \<equiv> page_align_up (start + len)"
  obtains cs where
    "mprotect start len flags mm =
      (if \<exists>v \<in> set (vmas mm). v_start v < e \<and> start < v_end v
       then Some (mm\<lparr>vmas := concat (map (protect_pieces flags start e) (vmas mm))\<rparr>, cs, Inr ())
       else Some (mm, [], Inl ENOMEM))"
    "vmas_wf (concat (map (protect_pieces flags start e) (vmas mm)))"
    "\<And>a. page_attr (concat (map (protect_pieces flags start e) (vmas mm))) a =
      (if start \<le> a \<and> a < e then map_option (\<lambda>(_, t). (flags, t)) (page_attr (vmas mm) a) else page_attr (vmas mm) a)"
proof -
  have u: "unat (start + len) = unat start + unat len" using assms(3) by (simp add: unat_word_ariths)
  note al = page_align_up_bounds [of "start + len", folded e_def]
  have "0 < unat len" using assms(2) by (simp add: unat_gt_0)
  then have lt: "start < e" using al u assms(3) by (simp add: word_less_nat_alt word_le_nat_alt)
  obtain as where as: "page_addrs (start AND NOT (MM_PAGE_SIZE - 1)) e = Some as"
    using page_addrs_returns al u assms(3) by auto
  have "checked_add start len = Some (start + len)" using assms(3) by (simp add: checked_add_def)
  then have m: "mprotect start len flags mm =
      (if \<exists>v \<in> set (vmas mm). v_start v < e \<and> start < v_end v
       then Some (mm\<lparr>vmas := concat (map (protect_pieces flags start e) (vmas mm))\<rparr>, map (\<lambda>a. ProtectPage a flags) as, Inr ())
       else Some (mm, [], Inl ENOMEM))"
    using assms(2) as protect_hit_iff [OF assms(1) lt] by (simp add: mprotect_def flip: e_def)
  have "Option.bind x (\<lambda>(_, t). Some (flags, t)) = map_option (\<lambda>(_, t). (flags, t)) x" for x :: "attr option"
    by (cases x) auto
  then show thesis
    using that [OF m pr.concat_pieces_wf [OF lt assms(1)]] pr.concat_pieces_attr [OF lt assms(1)] by simp
qed

lemma free_range_loop_spec:
  assumes "free_range_loop sz c vs = Some r" "vmas_wf vs" "\<forall>v \<in> set vs. v_end v \<le> USER_ADDR_MAX"
    "c \<le> USER_ADDR_MAX" "unat sz \<le> 2 ^ 63"
  shows "(\<forall>v \<in> set vs. unat r + unat sz \<le> unat (v_start v) \<or> v_end v \<le> r) \<and>
    unat r + unat sz \<le> unat USER_ADDR_MAX \<and> (r = c \<or> (\<exists>v \<in> set vs. r = v_end v))"
  using assms
proof (induction vs arbitrary: c)
  case Nil
  have "unat (c + sz) = unat c + unat sz"
    using Nil.prems(4,5) by (simp add: unat_word_ariths word_le_nat_alt USER_ADDR_MAX_def)
  then show ?case using Nil.prems(1) by (simp add: word_le_nat_alt split: if_splits)
next
  case (Cons v vs)
  have u: "unat (c + sz) = unat c + unat sz"
    using Cons.prems(4,5) by (simp add: unat_word_ariths word_le_nat_alt USER_ADDR_MAX_def)
  have v: "v_start v < v_end v" "\<forall>w \<in> set vs. v_end v \<le> v_start w" "vmas_wf vs" "v_end v \<le> USER_ADDR_MAX"
    using Cons.prems(2,3) by (auto simp: vmas_wf_Cons)
  show ?case
  proof (cases "c + sz \<le> v_start v")
    case True
    then have r: "r = c" using Cons.prems(1) by simp
    have "unat c + unat sz \<le> unat (v_start v)" using True u by (simp add: word_le_nat_alt)
    moreover have "unat (v_start v) \<le> unat (v_start w)" if "w \<in> set vs" for w
      using v(1) v(2) [rule_format, OF that] by (simp add: word_le_nat_alt word_less_nat_alt)
    moreover have "unat (v_start v) \<le> unat USER_ADDR_MAX"
      using v(1,4) by (simp add: word_le_nat_alt word_less_nat_alt)
    ultimately show ?thesis unfolding r by fastforce
  next
    case False
    then have "free_range_loop sz (v_end v) vs = Some r" using Cons.prems(1) by simp
    from Cons.IH [OF this v(3) _ v(4) Cons.prems(5)] Cons.prems(3)
    have IH: "(\<forall>w \<in> set vs. unat r + unat sz \<le> unat (v_start w) \<or> v_end w \<le> r) \<and>
      unat r + unat sz \<le> unat USER_ADDR_MAX \<and> (r = v_end v \<or> (\<exists>w \<in> set vs. r = v_end w))" by simp
    have "v_end v \<le> v_end w" if "w \<in> set vs" for w
      using v(2) [rule_format, OF that] v(3) that by (auto simp: vmas_wf_def)
    then have "v_end v \<le> r" using IH by auto
    then show ?thesis using IH by auto
  qed
qed

text \<open>What holds of the bounds of all areas and of a range holds of the bounds afterwards.\<close>

definition bounds_in :: "(u64 \<Rightarrow> bool) \<Rightarrow> Vma list \<Rightarrow> bool" where
  "bounds_in P vs \<longleftrightarrow> (\<forall>v \<in> set vs. P (v_start v) \<and> P (v_end v))"

lemma merge_loop_bounds:
  assumes "merge_loop m vs = (m', rest)" "P (v_start m)" "P (v_end m)" "bounds_in P vs"
  shows "P (v_start m') \<and> P (v_end m') \<and> bounds_in P rest"
proof -
  have "v_start m' \<in> insert (v_start m) (v_start ` set vs) \<and> v_end m' \<in> insert (v_end m) (v_end ` set vs)"
    using assms(1)
  proof (induction m vs arbitrary: rest rule: merge_loop.induct)
    case (2 m v vs)
    show ?case
    proof (cases "same_key v m \<and> v_start m \<le> v_end v \<and> v_start v \<le> v_end m")
      case True
      then show ?thesis using "2.IH"(2) [of rest] "2.prems" by (auto simp: min_def max_def split: if_splits)
    next
      case False
      then obtain rest1 where "merge_loop m vs = (m', rest1)"
        using "2.prems" by (auto split: if_splits prod.splits)
      then show ?thesis using "2.IH"(1,3) False by (cases "same_key v m") auto
    qed
  qed auto
  then show ?thesis using assms(2-4) merge_loop_grows [OF assms(1)] by (auto simp: bounds_in_def)
qed

lemma set_insert_sorted: "set (insert_sorted m vs) = insert m (set vs)"
proof -
  define pos where "pos = (case find_idx (\<lambda>v. v_start m < v_start v) vs of Some i \<Rightarrow> i | None \<Rightarrow> length vs)"
  have "set (take pos vs) \<union> set (drop pos vs) = set vs" by (metis append_take_drop_id set_append)
  then show ?thesis by (auto simp: insert_sorted_def Let_def simp flip: pos_def)
qed

lemma insert_vma_bounds:
  assumes "insert_vma v mm = Inr mm'" "P (v_start v)" "P (v_end v)" "bounds_in P (vmas mm)"
  shows "bounds_in P (vmas mm')"
proof -
  obtain m rest where ml: "merge_loop v (vmas mm) = (m, rest)" by fastforce
  then have "vmas mm' = insert_sorted m rest" using assms(1) by (auto simp: insert_vma_def split: if_splits)
  then show ?thesis using merge_loop_bounds [OF ml assms(2-4)] by (simp add: bounds_in_def set_insert_sorted)
qed

lemma pieces_bounds:
  assumes "P s" "P e" "bounds_in P vs"
  shows "bounds_in P (concat (map (remove_pieces s e) vs))"
    and "bounds_in P (concat (map (protect_pieces flags s e) vs))"
    and "bounds_in P (concat (map (advise_pieces f s e) vs))"
  using assms
  by (auto simp: bounds_in_def remove_pieces_def protect_pieces_def advise_pieces_def Vma_new_def set_vm_flag_def
    min_def max_def split: if_splits)

lemma bounds_in_map: "(\<And>v. v_start (g v) = v_start v \<and> v_end (g v) = v_end v) \<Longrightarrow> bounds_in P (map g vs) = bounds_in P vs"
  by (simp add: bounds_in_def)

lemma vmas_wf_map:
  assumes "\<And>v. v_start (g v) = v_start v \<and> v_end (g v) = v_end v"
  shows "vmas_wf (map g vs) = vmas_wf vs"
  using assms by (simp add: vmas_wf_def sorted_wrt_map)

lemma page_attr_map:
  assumes "\<And>v. v_start (g v) = v_start v \<and> v_end (g v) = v_end v \<and> v_flags (g v) = v_flags v \<and> v_type (g v) = v_type v"
  shows "page_attr (map g vs) a = page_attr vs a"
  by (induction vs) (use assms in \<open>auto simp: page_attr_def vma_contains_def vma_attr_def\<close>)

lemma set_vm_flag_bounds [simp]:
  "v_start (set_vm_flag f v) = v_start v" "v_end (set_vm_flag f v) = v_end v"
  "v_flags (set_vm_flag f v) = v_flags v" "v_type (set_vm_flag f v) = v_type v"
  "v_start (clear_vm_flag f v) = v_start v" "v_end (clear_vm_flag f v) = v_end v"
  "v_flags (clear_vm_flag f v) = v_flags v" "v_type (clear_vm_flag f v) = v_type v"
  by (simp_all add: set_vm_flag_def clear_vm_flag_def)

lemma insert_vma_free:
  assumes "\<forall>u \<in> set (vmas mm). \<not> vma_overlaps v u"
  shows "\<exists>mm'. insert_vma v mm = Inr mm'"
proof -
  have "\<not> list_ex (\<lambda>u. vma_overlaps v u \<and> (v_type u \<noteq> v_type v \<or> v_flags u \<noteq> v_flags v)) (vmas mm)"
    using assms by (auto simp: list_ex_iff)
  then show ?thesis by (auto simp: insert_vma_def split: prod.split)
qed

lemma remove_nothing:
  assumes "vmas_wf (vmas mm)" "\<forall>v \<in> set (vmas mm). \<not> (v_start v < s \<and> s < v_end v)"
  shows "remove_range s s mm = Some (mm, [])"
proof -
  have "remove_loop s s vs = (vs, [])" if "vmas_wf vs" "\<forall>v \<in> set vs. \<not> (v_start v < s \<and> s < v_end v)" for vs
    using that by (induction vs) (auto simp: vmas_wf_Cons)
  then show ?thesis using assms by (simp add: remove_range_def)
qed

lemma next_start_le:
  assumes "v \<in> set vs" "boundary \<le> v_start v"
  shows "next_start boundary vs \<le> v_start v"
proof -
  let ?g = "\<lambda>n v. if boundary \<le> v_start v \<and> v_start v < n then v_start v else n"
  have dec: "foldl ?g n vs \<le> n" for n vs by (induction vs arbitrary: n) (auto intro: order_trans less_imp_le)
  have "foldl ?g n vs \<le> v_start v" if "v \<in> set vs" for n vs
    using that
  proof (induction vs arbitrary: n)
    case (Cons u us)
    show ?case
    proof (cases "v = u")
      case True
      have "?g n u \<le> v_start v" using True assms(2) by auto
      then show ?thesis using dec [of "?g n u" us] by (simp add: order_trans)
    qed (use Cons in simp)
  qed simp
  then show ?thesis using assms(1) by (simp add: next_start_def)
qed

lemma vmas_wf_extend:
  assumes "vmas_wf vs" "i < length vs" "v_end (vs ! i) \<le> b"
    "\<forall>w \<in> set vs. v_end (vs ! i) \<le> v_start w \<longrightarrow> b \<le> v_start w"
  shows "vmas_wf (vs[i := (vs ! i)\<lparr>v_end := b\<rparr>])"
proof -
  let ?v = "vs ! i"
  have eq: "vs = take i vs @ ?v # drop (Suc i) vs" using assms(2) by (simp add: id_take_nth_drop)
  have "vmas_wf (take i vs @ ?v # drop (Suc i) vs)" using assms(1) eq by simp
  then have wf: "vmas_wf (take i vs)" "vmas_wf (drop (Suc i) vs)" "v_start ?v < v_end ?v"
    "\<forall>w \<in> set (drop (Suc i) vs). v_end ?v \<le> v_start w" "\<forall>u \<in> set (take i vs). v_end u \<le> v_start ?v"
    "\<forall>u \<in> set (take i vs). \<forall>w \<in> set (drop (Suc i) vs). v_end u \<le> v_start w"
    by (auto simp: vmas_wf_append vmas_wf_Cons)
  have "\<forall>w \<in> set (drop (Suc i) vs). b \<le> v_start w" using wf(4) assms(4) by (auto dest: in_set_dropD)
  then have "vmas_wf (take i vs @ ?v\<lparr>v_end := b\<rparr> # drop (Suc i) vs)"
    using wf assms(3) by (auto simp: vmas_wf_append vmas_wf_Cons)
  then show ?thesis using assms(2) by (simp add: upd_conv_take_nth_drop)
qed

end
