(* ===== verification/Mmap.thy ===== *)
theory Mmap
  imports Vma
begin

text \<open>
  The memory calls of the services layer (\<^verbatim>\<open>services/mm\<close>: \<^verbatim>\<open>mmap.rs\<close>, \<^verbatim>\<open>mprotect.rs\<close>, \<^verbatim>\<open>mremap.rs\<close>, \<^verbatim>\<open>brk.rs\<close>,
  \<^verbatim>\<open>madvise_mlock.rs\<close>, and \<^verbatim>\<open>framework/syscall/brk.rs\<close>) over the address spaces of \<open>Vma\<close>.  The table of file descriptors, the page
  allocator, the capability check and the page tables are arguments.  In every history of calls whose
  ranges lie in user space the areas are disjoint and in order, and the calls have the effect that their
  abstract description gives, address by address.
\<close>

section \<open>mmap.rs\<close>

definition MAP_SHARED :: i32 where "MAP_SHARED = 0x01"
definition MAP_PRIVATE :: i32 where "MAP_PRIVATE = 0x02"
definition MAP_ANONYMOUS :: i32 where "MAP_ANONYMOUS = 0x20"
definition MAP_FIXED :: i32 where "MAP_FIXED = 0x10"

text \<open>The part of the file system that the calls ask: inode and mount of a descriptor.\<close>

record fd_lookup =
  get_fd_info :: "u64 \<Rightarrow> u32 option"
  get_fd_mount_idx :: "u64 \<Rightarrow> u64 option"

definition fd_to_inode_id :: "fd_lookup \<Rightarrow> i32 \<Rightarrow> u32" where
  "fd_to_inode_id fds fd = (if fd <s 0 then 0 else case get_fd_info fds (scast fd) of Some n \<Rightarrow> n | None \<Rightarrow> 0)"

definition fd_to_mount_idx :: "fd_lookup \<Rightarrow> i32 \<Rightarrow> u64 option" where
  "fd_to_mount_idx fds fd = (if fd <s 0 then None else get_fd_mount_idx fds (scast fd))"

definition prot_to_vma_flags :: "i32 \<Rightarrow> u64" where
  "prot_to_vma_flags prot = USER OR (if prot AND 0x01 \<noteq> 0 then PRESENT else 0) OR
     (if prot AND 0x02 \<noteq> 0 then WRITABLE else 0) OR (if prot AND 0x04 = 0 then NX else 0)"

definition find_or_allocate_addr :: "u64 \<Rightarrow> u64 \<Rightarrow> MmStruct \<Rightarrow> errno + u64" where
  "find_or_allocate_addr hint len_aligned mm =
    (if hint \<noteq> 0 \<and> hint < USER_ADDR_MAX then Inr hint
     else case find_free_range len_aligned mm of Some a \<Rightarrow> Inr a | None \<Rightarrow> Inl ENOMEM)"

definition map_area :: "Vma \<Rightarrow> MmStruct \<Rightarrow> errno + MmStruct \<times> u64" where
  "map_area v mm = (case insert_vma v mm of Inr mm' \<Rightarrow> Inr (mm', v_start v) | Inl _ \<Rightarrow> Inl ENOMEM)"

definition mmap_syscall ::
  "fd_lookup \<Rightarrow> u64 \<Rightarrow> u64 \<Rightarrow> i32 \<Rightarrow> i32 \<Rightarrow> i32 \<Rightarrow> u64 \<Rightarrow> u64 \<Rightarrow> MmStruct \<Rightarrow> errno + MmStruct \<times> u64" where
  "mmap_syscall fds hint len prot flags fd offset pwm mm =
    (if len = 0 then Inl EINVAL
     else let len_aligned = page_align_up len;
              page_flags = prot_to_vma_flags prot;
              map_private = flags AND MAP_PRIVATE \<noteq> 0;
              map_shared = flags AND MAP_SHARED \<noteq> 0 in
     if map_shared = map_private then Inl EINVAL
     else if flags AND MAP_ANONYMOUS \<noteq> 0 then
       (case find_or_allocate_addr hint len_aligned mm of
          Inl err \<Rightarrow> Inl err
        | Inr addr \<Rightarrow> let a = addr AND NOT (MM_PAGE_SIZE - 1) in
            map_area (Vma_new a (a + len_aligned) (page_flags OR PRESENT) Anonymous) mm)
     else if fd <s 0 then Inl EBADF
     else if offset mod MM_PAGE_SIZE \<noteq> 0 then Inl EINVAL
     else if fd_to_inode_id fds fd = 0 then Inl EBADF
     else (case find_or_allocate_addr hint len_aligned mm of
          Inl err \<Rightarrow> Inl err
        | Inr addr \<Rightarrow> let a = addr AND NOT (MM_PAGE_SIZE - 1);
              final_flags = (if map_shared then page_flags OR PRESENT else (page_flags OR PRESENT) AND NOT WRITABLE) in
            map_area (file_backed a (a + len_aligned) final_flags offset (fd_to_inode_id fds fd) pwm map_shared
              (fd_to_mount_idx fds fd)) mm))"

text \<open>\<^verbatim>\<open>release_file_pages\<close>: the page cache entries given back, area by area.\<close>

fun release_file_pages :: "u64 \<Rightarrow> u64 \<Rightarrow> Vma list \<Rightarrow> mm_call list option" where
  "release_file_pages s e [] = Some []"
| "release_file_pages s e (v # vs) =
    (if v_type v \<noteq> FileBacked \<or> v_inode_id v = 0 \<or> e \<le> v_start v \<or> v_end v \<le> s then release_file_pages s e vs
     else Option.bind (page_addrs (max (v_start v) s) (min (v_end v) e)) (\<lambda>as.
       Option.bind (release_file_pages s e vs) (\<lambda>cs.
         Some (map (\<lambda>a. PcachePut (v_inode_id v) ((a - v_start v + v_offset v) div MM_PAGE_SIZE)) as @ cs))))"

definition munmap_syscall :: "u64 \<Rightarrow> u64 \<Rightarrow> MmStruct \<Rightarrow> unit mm_result" where
  "munmap_syscall addr len mm =
    (if addr = 0 \<or> len = 0 then Some (mm, [], Inl EINVAL)
     else let e = addr + len in
       Option.bind (release_file_pages addr e (vmas mm)) (\<lambda>ps.
         Option.bind (remove_range addr e mm) (\<lambda>(mm', cs). Some (mm', ps @ cs, Inr ()))))"

text \<open>The \<^verbatim>\<open>mprotect_syscall\<close> of \<^verbatim>\<open>mmap.rs\<close>, which the dispatcher does not use.\<close>

definition mmap_mprotect_syscall :: "u64 \<Rightarrow> u64 \<Rightarrow> i32 \<Rightarrow> MmStruct \<Rightarrow> errno + MmStruct" where
  "mmap_mprotect_syscall addr len prot mm =
    (if addr = 0 \<or> len = 0 then Inl EINVAL
     else let e = addr + len; new_flags = prot_to_vma_flags prot in
       Inr (mm\<lparr>vmas := map (\<lambda>v. if v_start v < e \<and> addr < v_end v
         then v\<lparr>v_flags := (v_flags v AND 0) OR new_flags\<rparr> else v) (vmas mm)\<rparr>))"

text \<open>The entries: without an address space they take raw pages.\<close>

definition mmap_syscall_entry ::
  "(u64 \<Rightarrow> u64) \<Rightarrow> bool \<Rightarrow> fd_lookup \<Rightarrow> u64 \<Rightarrow> u64 \<Rightarrow> i32 \<Rightarrow> i32 \<Rightarrow> i32 \<Rightarrow> u64 \<Rightarrow> u64 \<Rightarrow> MmStruct option \<Rightarrow> MmStruct option \<times> i64" where
  "mmap_syscall_entry alloc_pages has_cap fds addr sz prot flags fd offset pwm mm =
    (if sz = 0 then (mm, as_ret EINVAL)
     else if \<not> has_cap then (mm, as_ret EACCES)
     else case mm of
       None \<Rightarrow> (let ptr = alloc_pages (div_ceil sz MM_PAGE_SIZE) in (None, if ptr = 0 then as_ret ENOMEM else ptr))
     | Some m \<Rightarrow> (case mmap_syscall fds addr sz prot flags fd offset pwm m of
         Inr (m', a) \<Rightarrow> (Some m', a)
       | Inl err \<Rightarrow> (Some m, as_ret err)))"

definition munmap_syscall_entry :: "u64 \<Rightarrow> u64 \<Rightarrow> MmStruct option \<Rightarrow> (MmStruct option \<times> mm_call list \<times> i64) option" where
  "munmap_syscall_entry addr sz mm =
    (if addr = 0 \<or> sz = 0 then Some (mm, [], as_ret EINVAL)
     else case mm of
       None \<Rightarrow> Some (None, [], 0)
     | Some m \<Rightarrow> Option.bind (munmap_syscall addr sz m) (\<lambda>(m', cs, r).
         Some (Some m', cs, case r of Inr _ \<Rightarrow> 0 | Inl err \<Rightarrow> as_ret err)))"

section \<open>mprotect.rs, mremap.rs, brk.rs\<close>

definition PROT_NONE :: i32 where "PROT_NONE = 0"
definition PROT_READ :: i32 where "PROT_READ = 1"
definition PROT_WRITE :: i32 where "PROT_WRITE = 2"
definition PROT_EXEC :: i32 where "PROT_EXEC = 4"

definition prot_to_page_flags :: "i32 \<Rightarrow> u64" where
  "prot_to_page_flags prot =
     (if prot AND PROT_READ \<noteq> 0 \<or> prot AND PROT_WRITE \<noteq> 0 \<or> prot AND PROT_EXEC \<noteq> 0 then PRESENT else 0) OR
     (if prot AND PROT_WRITE \<noteq> 0 then WRITABLE else 0) OR
     (if prot \<noteq> PROT_NONE then USER else 0) OR
     (if prot AND PROT_EXEC = 0 \<and> prot \<noteq> PROT_NONE then NX else 0)"

definition mprotect_syscall :: "u64 \<Rightarrow> u64 \<Rightarrow> i32 \<Rightarrow> MmStruct option \<Rightarrow> (MmStruct option \<times> mm_call list \<times> (errno + u64)) option" where
  "mprotect_syscall addr len prot mm =
    (if addr AND 0xFFF \<noteq> 0 then Some (mm, [], Inl EINVAL)
     else if len = 0 then Some (mm, [], Inl EINVAL)
     else if prot AND NOT (PROT_NONE OR PROT_READ OR PROT_WRITE OR PROT_EXEC) \<noteq> 0 then Some (mm, [], Inl EINVAL)
     else case mm of
       None \<Rightarrow> Some (None, [], Inl ENOMEM)
     | Some m \<Rightarrow> Option.bind (mprotect addr len (prot_to_page_flags prot) m) (\<lambda>(m', cs, r).
         Some (Some m', cs, case r of Inr _ \<Rightarrow> Inr 0 | Inl err \<Rightarrow> Inl err)))"

definition MAX_REMAP :: u64 where "MAX_REMAP = 0x40000000"

definition mremap_syscall :: "u64 \<Rightarrow> u64 \<Rightarrow> u64 \<Rightarrow> i32 \<Rightarrow> MmStruct \<Rightarrow> u64 mm_result" where
  "mremap_syscall old_addr old_size new_size flags mm =
    (if old_addr = 0 \<or> old_size = 0 \<or> new_size = 0 then Some (mm, [], Inl EINVAL)
     else if old_addr AND 0xFFF \<noteq> 0 then Some (mm, [], Inl EINVAL)
     else if MAX_REMAP < old_size \<or> MAX_REMAP < new_size then Some (mm, [], Inl ENOMEM)
     else if flags AND NOT MREMAP_MAYMOVE \<noteq> 0 then Some (mm, [], Inl EINVAL)
     else mremap old_addr old_size new_size flags mm)"

definition BRK_ADDR_MAX :: u64 where "BRK_ADDR_MAX = 0x7FFFFFFFFFFF"

text \<open>\<^verbatim>\<open>sys_brk\<close>: the address space, or without one the global break \<^verbatim>\<open>BRK\<close>.\<close>

definition sys_brk :: "(u64 \<Rightarrow> u64) \<Rightarrow> u64 \<Rightarrow> MmStruct option \<Rightarrow> u64 \<Rightarrow> (MmStruct option \<times> u64 \<times> mm_call list \<times> i64) option" where
  "sys_brk alloc_pages addr mm BRK =
    (if addr = 0 then Some (mm, BRK, [], case mm of Some m \<Rightarrow> brk m | None \<Rightarrow> BRK)
     else if BRK_ADDR_MAX < addr then Some (mm, BRK, [], as_ret ENOMEM)
     else case mm of
       Some m \<Rightarrow> Option.bind (set_brk addr m) (\<lambda>(m', cs, r).
         Some (Some m', BRK, cs, case r of Inr b \<Rightarrow> b | Inl _ \<Rightarrow> as_ret ENOMEM))
     | None \<Rightarrow>
         if BRK < addr \<and> alloc_pages (div_ceil (addr - BRK) MM_PAGE_SIZE) = 0 then Some (None, BRK, [], as_ret ENOMEM)
         else Some (None, addr, [], addr))"

definition brk_syscall :: "(u64 \<Rightarrow> u64) \<Rightarrow> u64 \<Rightarrow> MmStruct option \<Rightarrow> u64 \<Rightarrow>
    (MmStruct option \<times> u64 \<times> mm_call list \<times> (errno + u64)) option" where
  "brk_syscall alloc_pages addr mm BRK =
    (if addr = 0 then Option.bind (sys_brk alloc_pages 0 mm BRK) (\<lambda>(mm', b, cs, r). Some (mm', b, cs, Inr r))
     else if BRK_ADDR_MAX < addr then Some (mm, BRK, [], Inl ENOMEM)
     else Option.bind (sys_brk alloc_pages addr mm BRK) (\<lambda>(mm', b, cs, r).
       Some (mm', b, cs, if r <s 0 then Inl ENOMEM else Inr r)))"

section \<open>madvise\_mlock.rs\<close>

definition MADV_NORMAL :: u32 where "MADV_NORMAL = 0"
definition MADV_FREE :: u32 where "MADV_FREE = 5"
definition MADV_REMOVE :: u32 where "MADV_REMOVE = 9"
definition MADV_PAGEOUT :: u32 where "MADV_PAGEOUT = 21"

definition sys_madvise :: "u64 \<Rightarrow> u64 \<Rightarrow> u64 \<Rightarrow> MmStruct option \<Rightarrow> MmStruct option \<times> mm_call list \<times> i64" where
  "sys_madvise addr len advice64 mm =
    (let advice = ucast advice64 :: u32 in
     if addr = 0 \<and> len = 0 then (mm, [], as_ret EINVAL)
     else if addr AND (MM_PAGE_SIZE - 1) \<noteq> 0 then (mm, [], as_ret EINVAL)
     else if 21 < advice then (mm, [], as_ret EINVAL)
     else if advice = MADV_REMOVE then (mm, [], 0)
     else case mm of
       None \<Rightarrow> (None, [], as_ret EFAULT)
     | Some m \<Rightarrow> (case madvise_range addr len advice m of
         (m', cs, Inr _) \<Rightarrow> (Some m', cs, 0)
       | (m', cs, Inl err) \<Rightarrow> (Some m', cs, as_ret err)))"

definition lock_call :: "(MmStruct \<Rightarrow> u64 mm_result) \<Rightarrow> u64 \<Rightarrow> u64 \<Rightarrow> MmStruct option \<Rightarrow> (MmStruct option \<times> mm_call list \<times> i64) option" where
  "lock_call lock addr len mm =
    (if addr AND (MM_PAGE_SIZE - 1) \<noteq> 0 then Some (mm, [], as_ret EINVAL)
     else if len = 0 then Some (mm, [], 0)
     else case mm of
       None \<Rightarrow> Some (None, [], as_ret EFAULT)
     | Some m \<Rightarrow> Option.bind (lock m) (\<lambda>(m', cs, r).
         Some (Some m', cs, case r of Inr _ \<Rightarrow> 0 | Inl err \<Rightarrow> as_ret err)))"

definition sys_mlock :: "u64 option \<Rightarrow> u64 \<Rightarrow> u64 \<Rightarrow> MmStruct option \<Rightarrow> (MmStruct option \<times> mm_call list \<times> i64) option" where
  "sys_mlock registered addr len = lock_call (mlock_range registered addr len) addr len"

definition sys_munlock :: "u64 \<Rightarrow> u64 \<Rightarrow> MmStruct option \<Rightarrow> (MmStruct option \<times> mm_call list \<times> i64) option" where
  "sys_munlock addr len = lock_call (munlock_range addr len) addr len"

definition sys_mlockall :: "u64 \<Rightarrow> MmStruct option \<Rightarrow> MmStruct option \<times> i64" where
  "sys_mlockall flags mm =
    (case mm of None \<Rightarrow> (None, as_ret EFAULT)
     | Some m \<Rightarrow> (case mlock_all (ucast flags) m of
         (m', Inr _) \<Rightarrow> (Some m', 0)
       | (m', Inl err) \<Rightarrow> (Some m', as_ret err)))"

definition sys_munlockall :: "MmStruct option \<Rightarrow> MmStruct option \<times> i64" where
  "sys_munlockall mm = (case mm of None \<Rightarrow> (None, as_ret EFAULT) | Some m \<Rightarrow> (Some (munlock_all m), 0))"

definition MAX_STACK_PAGES :: nat where "MAX_STACK_PAGES = 1024"

text \<open>\<^verbatim>\<open>sys_mincore\<close>: \<open>copy_ok\<close> says whether the copy to user memory succeeds.\<close>

definition sys_mincore :: "(u64 \<Rightarrow> u64 option) \<Rightarrow> (u64 \<Rightarrow> nat \<Rightarrow> bool) \<Rightarrow> u64 \<Rightarrow> u64 \<Rightarrow> u64 \<Rightarrow> bool \<Rightarrow> user_mem \<Rightarrow> user_mem \<times> i64" where
  "sys_mincore pte copy_ok addr len vec_ptr has_mm mem =
    (if addr AND (MM_PAGE_SIZE - 1) \<noteq> 0 then (mem, as_ret EINVAL)
     else if len = 0 then (mem, 0)
     else if vec_ptr = 0 then (mem, as_ret EFAULT)
     else let n_pages = unat ((len + MM_PAGE_SIZE - 1) div MM_PAGE_SIZE) in
     if \<not> validate_user_buf vec_ptr (word_of_nat n_pages) then (mem, as_ret EFAULT)
     else if \<not> has_mm then (mem, as_ret EFAULT)
     else if MAX_STACK_PAGES < n_pages then (mem, as_ret ENOMEM)
     else case mincore_range pte addr len n_pages of
       Inl err \<Rightarrow> (mem, as_ret err)
     | Inr (bs, resident) \<Rightarrow>
         if copy_ok vec_ptr n_pages then (put_bytes mem vec_ptr bs, 0) else (mem, as_ret EFAULT))"

section \<open>Histories of an address space\<close>

text \<open>
  Bounds are page aligned and in user space; \<open>mm_ok\<close> is the invariant.  \<open>mm_reach\<close> are the states after calls
  whose ranges are page aligned and in user space, and that map at a given address only where nothing is mapped.
\<close>

definition user_bound :: "u64 \<Rightarrow> bool" where
  "user_bound x \<longleftrightarrow> 4096 dvd unat x \<and> x \<le> USER_ADDR_MAX"

definition mm_ok :: "MmStruct \<Rightarrow> bool" where
  "mm_ok mm \<longleftrightarrow> vmas_wf (vmas mm) \<and> bounds_in user_bound (vmas mm) \<and> user_bound (mmap_base mm)"

definition range_free :: "u64 \<Rightarrow> u64 \<Rightarrow> Vma list \<Rightarrow> bool" where
  "range_free s e vs \<longleftrightarrow> (\<forall>v \<in> set vs. v_end v \<le> s \<or> e \<le> v_start v)"

definition user_range :: "u64 \<Rightarrow> u64 \<Rightarrow> bool" where
  "user_range addr len \<longleftrightarrow> len \<noteq> 0 \<and> unat addr + unat len \<le> unat USER_ADDR_MAX"

definition target_ok :: "u64 \<Rightarrow> u64 \<Rightarrow> MmStruct \<Rightarrow> bool" where
  "target_ok hint len mm \<longleftrightarrow> unat len \<le> 2 ^ 62 \<and>
     (hint = 0 \<or> hint < USER_ADDR_MAX \<and>
        (let a = hint AND NOT (MM_PAGE_SIZE - 1) in
         user_range a (page_align_up len) \<and> range_free a (a + page_align_up len) (vmas mm)))"

inductive mm_reach :: "MmStruct \<Rightarrow> bool" where
  start: "user_bound b \<Longrightarrow> mm_reach (MmStruct_new\<lparr>mmap_base := b\<rparr>)"
| map: "mm_reach mm \<Longrightarrow> target_ok hint len mm \<Longrightarrow>
    mmap_syscall fds hint len prot flags fd offset pwm mm = Inr (mm', a) \<Longrightarrow> mm_reach mm'"
| unmap: "mm_reach mm \<Longrightarrow> user_range addr len \<Longrightarrow> user_bound addr \<Longrightarrow> user_bound (addr + len) \<Longrightarrow>
    munmap_syscall addr len mm = Some (mm', cs, r) \<Longrightarrow> mm_reach mm'"
| protect: "mm_reach mm \<Longrightarrow> user_range addr len \<Longrightarrow>
    mprotect_syscall addr len prot (Some mm) = Some (Some mm', cs, r') \<Longrightarrow> mm_reach mm'"
| remap: "mm_reach mm \<Longrightarrow> user_range old_addr (page_align_up new_size) \<Longrightarrow>
    mremap_syscall old_addr old_size new_size flags mm = Some (mm', cs, r'') \<Longrightarrow> mm_reach mm'"
| lock: "mm_reach mm \<Longrightarrow> mlock_range registered addr len mm = Some (mm', cs, r'') \<Longrightarrow> mm_reach mm'"
| unlock: "mm_reach mm \<Longrightarrow> munlock_range addr len mm = Some (mm', cs, r'') \<Longrightarrow> mm_reach mm'"

lemma user_bound_align:
  assumes "user_range addr len" "user_bound addr"
  shows "user_bound (page_align_up (addr + len))" "unat addr + unat len + 4095 < 2 ^ 64"
proof -
  have m: "unat USER_ADDR_MAX = 0x00007FFFFFFFF000" by (simp add: USER_ADDR_MAX_def)
  have u: "unat (addr + len) = unat addr + unat len" "unat addr + unat len \<le> 0x00007FFFFFFFF000"
    using assms(1) m by (simp_all add: user_range_def unat_word_ariths)
  then show "unat addr + unat len + 4095 < 2 ^ 64" by simp
  have eq: "unat (page_align_up (addr + len)) = (unat addr + unat len + 4095) div 4096 * 4096"
    using unat_page_align_up [of "addr + len"] u by simp
  have "(unat addr + unat len + 4095) div 4096 < 0x7FFFFFFFF + 1"
    using u(2) by (intro less_mult_imp_div_less) simp
  then show "user_bound (page_align_up (addr + len))"
    unfolding user_bound_def word_le_nat_alt eq m by simp
qed

lemma user_bound_wide: "user_bound x \<Longrightarrow> unat x \<le> 2 ^ 64 - 4096"
  by (simp add: user_bound_def word_le_nat_alt USER_ADDR_MAX_def)

lemma align_len:
  assumes "unat len \<le> 2 ^ 62" "len \<noteq> 0"
  shows "0 < unat (page_align_up len)" "unat (page_align_up len) \<le> 2 ^ 63" "4096 dvd unat (page_align_up len)"
proof -
  have "unat len + 4095 < 2 ^ 64" using assms(1) by simp
  note b = page_align_up_bounds [OF this]
  show "0 < unat (page_align_up len)" "unat (page_align_up len) \<le> 2 ^ 63" "4096 dvd unat (page_align_up len)"
    using b assms unat_gt_0 [of len] unfolding word_le_nat_alt by (blast intro: less_le_trans, simp_all)
qed

lemma find_free_range_spec:
  assumes "mm_ok mm" "find_free_range sz mm = Some r" "unat sz \<le> 2 ^ 63"
  shows "user_bound r" "unat r + unat sz \<le> unat USER_ADDR_MAX" "range_free r (r + sz) (vmas mm)"
proof -
  have ok: "vmas_wf (vmas mm)" "bounds_in user_bound (vmas mm)" "user_bound (mmap_base mm)"
    using assms(1) by (auto simp: mm_ok_def)
  then have "\<forall>v \<in> set (vmas mm). v_end v \<le> USER_ADDR_MAX" "mmap_base mm \<le> USER_ADDR_MAX"
    by (auto simp: bounds_in_def user_bound_def)
  from free_range_loop_spec [OF assms(2) [unfolded find_free_range_def] ok(1) this assms(3)]
  have sp: "\<forall>v \<in> set (vmas mm). unat r + unat sz \<le> unat (v_start v) \<or> v_end v \<le> r"
    "unat r + unat sz \<le> unat USER_ADDR_MAX" "r = mmap_base mm \<or> (\<exists>v \<in> set (vmas mm). r = v_end v)" by auto
  show "user_bound r" using sp(3) ok by (auto simp: bounds_in_def)
  show "unat r + unat sz \<le> unat USER_ADDR_MAX" by (rule sp(2))
  have "unat (r + sz) = unat r + unat sz" using sp(2) by (simp add: unat_word_ariths USER_ADDR_MAX_def)
  then show "range_free r (r + sz) (vmas mm)" using sp(1) by (auto simp: range_free_def word_le_nat_alt)
qed

lemma page_mask_aligned: "4096 dvd unat x \<Longrightarrow> x AND NOT (MM_PAGE_SIZE - 1) = x"
  by (simp add: word_unat_eq_iff unat_page_mask)

lemma map_area_spec:
  assumes "mm_ok mm" "user_bound (v_start v)" "user_bound (v_end v)" "v_start v < v_end v"
    "range_free (v_start v) (v_end v) (vmas mm)"
  obtains mm' where "insert_vma v mm = Inr mm'" "mm_ok mm'"
    "\<And>x. page_attr (vmas mm') x = (if vma_contains v x then Some (vma_attr v) else page_attr (vmas mm) x)"
proof -
  have no: "\<forall>u \<in> set (vmas mm). \<not> vma_overlaps v u"
    using assms(5) by (auto simp: range_free_def vma_overlaps_def)
  then obtain mm' where mm': "insert_vma v mm = Inr mm'" using insert_vma_free by blast
  have "vmas_wf (vmas mm)" "bounds_in user_bound (vmas mm)" using assms(1) by (auto simp: mm_ok_def)
  note sp = insert_vma_spec [OF this(1) assms(4) _ mm'] insert_vma_bounds [of v mm mm' user_bound, OF mm' assms(2,3) this(2)]
  have "mm_ok mm'" using sp no assms(1) by (auto simp: mm_ok_def)
  then show thesis using that mm' sp(3) no by blast
qed

text \<open>Where a new area goes: in both cases a free, aligned range of user space.\<close>

lemma target_spec:
  assumes "mm_ok mm" "target_ok hint len mm" "len \<noteq> 0" "find_or_allocate_addr hint (page_align_up len) mm = Inr addr"
  defines "a \<equiv> addr AND NOT (MM_PAGE_SIZE - 1)"
  shows "user_bound a" "user_bound (a + page_align_up len)" "a < a + page_align_up len"
    "range_free a (a + page_align_up len) (vmas mm)"
proof -
  have len: "unat len \<le> 2 ^ 62" using assms(2) by (simp add: target_ok_def)
  note al = align_len [OF len assms(3)]
  have *: "unat a + unat (page_align_up len) \<le> unat USER_ADDR_MAX \<and> range_free a (a + page_align_up len) (vmas mm)"
  proof (cases "hint = 0")
    case True
    then have "find_free_range (page_align_up len) mm = Some addr"
      using assms(4) by (auto simp: find_or_allocate_addr_def split: option.splits)
    note fr = find_free_range_spec [OF assms(1) this al(2)]
    have "a = addr" unfolding a_def using fr(1) by (intro page_mask_aligned) (simp add: user_bound_def)
    then show ?thesis using fr by simp
  next
    case False
    then have "addr = hint" using assms(2,4) by (auto simp: target_ok_def find_or_allocate_addr_def)
    then show ?thesis using assms(2) False by (auto simp: target_ok_def Let_def a_def user_range_def)
  qed
  then have u: "unat (a + page_align_up len) = unat a + unat (page_align_up len)"
    by (simp add: unat_word_ariths USER_ADDR_MAX_def)
  have da: "4096 dvd unat a" unfolding a_def unat_page_mask by simp
  show "user_bound a" "user_bound (a + page_align_up len)" "a < a + page_align_up len"
    "range_free a (a + page_align_up len) (vmas mm)"
    using * u da al by (auto simp: user_bound_def word_le_nat_alt word_less_nat_alt)
qed

definition mapped_attr :: "i32 \<Rightarrow> i32 \<Rightarrow> attr" where
  "mapped_attr prot flags =
    (if flags AND MAP_ANONYMOUS \<noteq> 0 then (prot_to_vma_flags prot OR PRESENT, Anonymous)
     else if flags AND MAP_SHARED \<noteq> 0 then (prot_to_vma_flags prot OR PRESENT, FileBacked)
     else ((prot_to_vma_flags prot OR PRESENT) AND NOT WRITABLE, FileBacked))"

lemma mmap_inserts:
  assumes "mmap_syscall fds hint len prot flags fd offset pwm mm = Inr (mm', a)"
  obtains addr v where "len \<noteq> 0" "find_or_allocate_addr hint (page_align_up len) mm = Inr addr"
    "a = addr AND NOT (MM_PAGE_SIZE - 1)" "v_start v = a" "v_end v = a + page_align_up len"
    "vma_attr v = mapped_attr prot flags" "insert_vma v mm = Inr mm'"
proof -
  let ?al = "page_align_up len"
  from assms obtain addr where addr: "len \<noteq> 0" "find_or_allocate_addr hint ?al mm = Inr addr"
    by (auto simp: mmap_syscall_def Let_def split: if_splits sum.splits)
  define b where "b = addr AND NOT (MM_PAGE_SIZE - 1)"
  define v where "v = (if flags AND MAP_ANONYMOUS \<noteq> 0 then Vma_new b (b + ?al) (prot_to_vma_flags prot OR PRESENT) Anonymous
    else file_backed b (b + ?al) (fst (mapped_attr prot flags)) offset (fd_to_inode_id fds fd) pwm
      (flags AND MAP_SHARED \<noteq> 0) (fd_to_mount_idx fds fd))"
  have "map_area v mm = Inr (mm', a)"
    using assms addr by (auto simp: mmap_syscall_def Let_def v_def b_def mapped_attr_def split: if_splits)
  then have "insert_vma v mm = Inr mm'" "a = v_start v" by (auto simp: map_area_def split: sum.splits)
  moreover have "v_start v = b" "v_end v = b + ?al" "vma_attr v = mapped_attr prot flags"
    by (simp_all add: v_def Vma_new_def file_backed_def vma_attr_def mapped_attr_def)
  ultimately show thesis using that [OF addr, of v] b_def by simp
qed

lemma mmap_spec:
  assumes "mm_ok mm" "target_ok hint len mm" "mmap_syscall fds hint len prot flags fd offset pwm mm = Inr (mm', a)"
  shows "mm_ok mm'" "range_free a (a + page_align_up len) (vmas mm)" "user_bound a" "user_bound (a + page_align_up len)"
    "a < a + page_align_up len"
    "page_attr (vmas mm') x = (if a \<le> x \<and> x < a + page_align_up len then Some (mapped_attr prot flags) else page_attr (vmas mm) x)"
proof -
  from mmap_inserts [OF assms(3)] obtain addr v where v: "len \<noteq> 0" "find_or_allocate_addr hint (page_align_up len) mm = Inr addr"
    "a = addr AND NOT (MM_PAGE_SIZE - 1)" "v_start v = a" "v_end v = a + page_align_up len"
    "vma_attr v = mapped_attr prot flags" "insert_vma v mm = Inr mm'" by blast
  note t = target_spec [OF assms(1,2) v(1,2), folded v(3)]
  show "range_free a (a + page_align_up len) (vmas mm)" "user_bound a" "user_bound (a + page_align_up len)"
    "a < a + page_align_up len" using t by auto
  from map_area_spec [OF assms(1), of v] t v(4,5) obtain mm'' where "insert_vma v mm = Inr mm''" "mm_ok mm''"
    "\<And>x. page_attr (vmas mm'') x = (if vma_contains v x then Some (vma_attr v) else page_attr (vmas mm) x)" by metis
  then show "mm_ok mm'"
    "page_attr (vmas mm') x = (if a \<le> x \<and> x < a + page_align_up len then Some (mapped_attr prot flags) else page_attr (vmas mm) x)"
    using v(4-7) by (simp_all add: vma_contains_def)
qed

lemma release_returns:
  assumes "bounds_in user_bound vs"
  shows "\<exists>cs. release_file_pages s e vs = Some cs"
  using assms
proof (induction vs)
  case (Cons v vs)
  then obtain cs where cs: "release_file_pages s e vs = Some cs" by (auto simp: bounds_in_def)
  have "unat (min (v_end v) e) \<le> unat (v_end v)" by (simp add: min_def word_le_nat_alt)
  also have "\<dots> \<le> 2 ^ 64 - 4096" using Cons.prems by (intro user_bound_wide) (simp add: bounds_in_def)
  finally obtain as where "page_addrs (max (v_start v) s) (min (v_end v) e) = Some as"
    using page_addrs_returns by blast
  with cs show ?case by simp
qed simp

lemma munmap_spec:
  assumes "mm_ok mm" "user_range addr len" "addr \<noteq> 0" "user_bound addr" "user_bound (addr + len)"
  obtains mm' cs where "munmap_syscall addr len mm = Some (mm', cs, Inr ())" "mm_ok mm'"
    "\<And>x. page_attr (vmas mm') x = (if addr \<le> x \<and> x < addr + len then None else page_attr (vmas mm) x)"
proof -
  have ok: "vmas_wf (vmas mm)" "bounds_in user_bound (vmas mm)" using assms(1) by (auto simp: mm_ok_def)
  have "unat (addr + len) = unat addr + unat len" "0 < unat len"
    using assms(2) by (simp_all add: user_range_def unat_word_ariths USER_ADDR_MAX_def unat_gt_0)
  then have lt: "addr < addr + len" by (simp add: word_less_nat_alt)
  from remove_range_spec [OF ok(1) lt user_bound_wide [OF assms(5)]] obtain vs cs where
    rr: "remove_range addr (addr + len) mm = Some (mm\<lparr>vmas := vs\<rparr>, cs)" "vmas_wf vs"
    "vs = concat (map (remove_pieces addr (addr + len)) (vmas mm))"
    "\<And>a. page_attr vs a = (if addr \<le> a \<and> a < addr + len then None else page_attr (vmas mm) a)" by blast
  obtain ps where "release_file_pages addr (addr + len) (vmas mm) = Some ps" using release_returns [OF ok(2)] by blast
  then have "munmap_syscall addr len mm = Some (mm\<lparr>vmas := vs\<rparr>, ps @ cs, Inr ())"
    using rr(1) assms(2,3) by (simp add: munmap_syscall_def user_range_def)
  moreover have "mm_ok (mm\<lparr>vmas := vs\<rparr>)"
    using rr(2) pieces_bounds(1) [OF assms(4,5) ok(2)] assms(1) unfolding rr(3) by (simp add: mm_ok_def)
  ultimately show thesis using that rr(4) by simp
qed

lemma low_bits_aligned:
  fixes x :: u64
  assumes "x AND 0xFFF = 0"
  shows "4096 dvd unat x"
proof -
  have "(0xFFF :: u64) = mask 12" by (simp add: mask_eq_exp_minus_1)
  then have "take_bit 12 x = 0" using assms by (simp add: take_bit_eq_mask)
  then have "unat (take_bit 12 x) = 0" by simp
  then show ?thesis by (simp add: unsigned_take_bit_eq take_bit_eq_mod dvd_eq_mod_eq_0 unat_mod)
qed

lemma user_range_bound: "user_range addr len \<Longrightarrow> addr AND 0xFFF = 0 \<Longrightarrow> user_bound addr"
  using low_bits_aligned [of addr] by (auto simp: user_bound_def user_range_def word_le_nat_alt)

lemma mprotect_ok:
  assumes "mm_ok mm" "user_range addr len" "user_bound addr" "e = page_align_up (addr + len)"
  obtains mm' cs r where "mprotect addr len flags mm = Some (mm', cs, r)" "mm_ok mm'"
    "r = Inr () \<and> (\<forall>x. page_attr (vmas mm') x = (if addr \<le> x \<and> x < e
        then map_option (\<lambda>(_, t). (flags, t)) (page_attr (vmas mm) x) else page_attr (vmas mm) x))
     \<or> r = Inl ENOMEM \<and> mm' = mm \<and> range_free addr e (vmas mm)"
proof -
  have ok: "vmas_wf (vmas mm)" "bounds_in user_bound (vmas mm)" using assms(1) by (auto simp: mm_ok_def)
  note ub = user_bound_align [OF assms(2,3), folded assms(4)]
  have len: "len \<noteq> 0" using assms(2) by (simp add: user_range_def)
  let ?vs = "concat (map (protect_pieces flags addr e) (vmas mm))"
  let ?hit = "\<exists>v \<in> set (vmas mm). v_start v < e \<and> addr < v_end v"
  obtain cs where m: "mprotect addr len flags mm =
      (if ?hit then Some (mm\<lparr>vmas := ?vs\<rparr>, cs, Inr ()) else Some (mm, [], Inl ENOMEM))"
    and wf: "vmas_wf ?vs" and at: "\<And>a. page_attr ?vs a = (if addr \<le> a \<and> a < e
      then map_option (\<lambda>(_, t). (flags, t)) (page_attr (vmas mm) a) else page_attr (vmas mm) a)"
    using mprotect_spec [OF ok(1) len ub(2), of flags] unfolding assms(4) [symmetric] by metis
  have ok': "mm_ok (mm\<lparr>vmas := ?vs\<rparr>)"
    using wf pieces_bounds(2) [OF assms(3) ub(1) ok(2)] assms(1) by (simp add: mm_ok_def)
  show thesis
  proof (cases ?hit)
    case True
    then have "mprotect addr len flags mm = Some (mm\<lparr>vmas := ?vs\<rparr>, cs, Inr ())" using m by simp
    from that [OF this ok'] show thesis using at by simp
  next
    case False
    then have "mprotect addr len flags mm = Some (mm, [], Inl ENOMEM)" using m by simp
    moreover have "range_free addr e (vmas mm)" using False by (auto simp: range_free_def not_less)
    ultimately show thesis using that assms(1) by blast
  qed
qed

lemma mprotect_syscall_ok:
  assumes "mm_ok mm" "user_range addr len" "mprotect_syscall addr len prot (Some mm) = Some (Some mm', cs, r)"
  shows "mm_ok mm'"
proof (cases "addr AND 0xFFF = 0")
  case True
  obtain mm'' cs' r' where "mprotect addr len (prot_to_page_flags prot) mm = Some (mm'', cs', r')" "mm_ok mm''"
    using mprotect_ok [OF assms(1,2) user_range_bound [OF assms(2) True] refl] by metis
  then show ?thesis using assms(1,3) by (auto simp: mprotect_syscall_def split: if_splits)
next
  case False
  then show ?thesis using assms(1,3) by (auto simp: mprotect_syscall_def)
qed

lemma find_vma_Some: "find_vma a mm = Some v \<Longrightarrow> v \<in> set (vmas mm) \<and> vma_contains v a"
  by (auto simp: find_vma_def find_Some_iff)

lemma remove_ok:
  assumes "mm_ok mm" "s < e" "user_bound s" "user_bound e" "remove_range s e mm = Some (mm', cs)"
  shows "mm_ok mm'" "vmas mm' = concat (map (remove_pieces s e) (vmas mm))" "\<exists>vs. mm' = mm\<lparr>vmas := vs\<rparr>"
proof -
  have ok: "vmas_wf (vmas mm)" "bounds_in user_bound (vmas mm)" using assms(1) by (auto simp: mm_ok_def)
  from remove_range_spec [OF ok(1) assms(2) user_bound_wide [OF assms(4)]] assms(5)
  show eq: "vmas mm' = concat (map (remove_pieces s e) (vmas mm))" and ex: "\<exists>vs. mm' = mm\<lparr>vmas := vs\<rparr>"
    by (metis MmStruct.select_convs(1) MmStruct.surjective MmStruct.update_convs(1) Pair_inject option.inject)+
  have "vmas_wf (vmas mm')" unfolding eq by (rule rm.concat_pieces_wf [OF assms(2) ok(1)])
  then show "mm_ok mm'" using ex pieces_bounds(1) [OF assms(3,4) ok(2)] assms(1) eq
    by (auto simp: mm_ok_def)
qed

lemma range_free_remove:
  assumes "range_free a b vs" "vmas_wf vs" "s < e"
  shows "range_free a b (concat (map (remove_pieces s e) vs))"
  using assms(1) rm.concat_pieces_within [OF assms(3,2)] unfolding range_free_def by (meson order_trans)

lemma mremap_shrink_ok:
  assumes "mm_ok mm" "old \<in> set (vmas mm)" "user_bound s" "s \<le> v_end old"
    "remove_range s (v_end old) mm = Some (mm', cs)"
  shows "mm_ok mm'"
proof (cases "s < v_end old")
  case True
  have "user_bound (v_end old)" using assms(1,2) by (auto simp: mm_ok_def bounds_in_def)
  then show ?thesis by (rule remove_ok(1) [OF assms(1) True assms(3) _ assms(5)])
next
  case False
  then have s: "s = v_end old" using assms(4) by simp
  have wf: "vmas_wf (vmas mm)" using assms(1) by (simp add: mm_ok_def)
  have "\<not> (v_start v < v_end old \<and> v_end old < v_end v)" if v: "v \<in> set (vmas mm)" for v
  proof
    assume h: "v_start v < v_end old \<and> v_end old < v_end v"
    have "v_start old < v_end old" using wf assms(2) by (simp add: vmas_wf_def)
    then have "vma_contains v (max (v_start v) (v_start old))" "vma_contains old (max (v_start v) (v_start old))"
      using h by (auto simp: vma_contains_def max_def)
    from vmas_wf_unique [OF wf v assms(2) this] h show False by simp
  qed
  then have "remove_range s s mm = Some (mm, [])" using remove_nothing [OF wf] s by blast
  then show ?thesis using assms(1,5) s by simp
qed

lemma user_bound_add:
  assumes "user_bound a" "4096 dvd unat n" "unat a + unat n \<le> unat USER_ADDR_MAX"
  shows "user_bound (a + n)" "unat (a + n) = unat a + unat n"
proof -
  show u: "unat (a + n) = unat a + unat n" using assms(3) by (simp add: unat_word_ariths USER_ADDR_MAX_def)
  show "user_bound (a + n)" using assms u by (simp add: user_bound_def word_le_nat_alt)
qed

lemma mremap_grow_ok:
  assumes "mm_ok mm" "old \<in> set (vmas mm)" "v_end old \<le> b" "user_bound b"
    "b \<le> next_start (v_end old) (vmas mm)" "find_idx (\<lambda>v. v_start v = v_start old) (vmas mm) = Some i"
  shows "mm_ok (mm\<lparr>vmas := (vmas mm)[i := (vmas mm ! i)\<lparr>v_end := b\<rparr>]\<rparr>)"
proof -
  have ok: "vmas_wf (vmas mm)" "bounds_in user_bound (vmas mm)" using assms(1) by (auto simp: mm_ok_def)
  have i: "i < length (vmas mm)" "v_start (vmas mm ! i) = v_start old" using find_idx_SomeD [OF assms(6)] by auto
  have c: "vma_contains v (v_start v)" if "v \<in> set (vmas mm)" for v
    using ok(1) that by (simp add: vmas_wf_def vma_contains_def)
  have io: "vmas mm ! i = old"
    using vmas_wf_unique [OF ok(1) nth_mem [OF i(1)] assms(2) c] c i assms(2) by (metis nth_mem)
  have "b \<le> v_start w" if "w \<in> set (vmas mm)" "v_end old \<le> v_start w" for w
    using next_start_le [OF that] assms(5) by simp
  then have "vmas_wf ((vmas mm)[i := (vmas mm ! i)\<lparr>v_end := b\<rparr>])"
    using i(1) assms(3) io by (intro vmas_wf_extend [OF ok(1)]) auto
  moreover have "bounds_in user_bound ((vmas mm)[i := (vmas mm ! i)\<lparr>v_end := b\<rparr>])"
    using ok(2) assms(2,4) io by (auto simp: bounds_in_def dest!: set_update_subset_insert [THEN subsetD])
  ultimately show ?thesis using assms(1) by (simp add: mm_ok_def)
qed

lemma mremap_move_ok:
  assumes "mm_ok mm" "old \<in> set (vmas mm)" "find_free_range nal mm = Some ns" "unat nal \<le> 2 ^ 63" "0 < unat nal"
    "4096 dvd unat nal" "remove_range (v_start old) (v_end old) mm = Some (mm1, cs)"
  shows "mm_ok mm1 \<and> (\<exists>mm2. insert_vma (old\<lparr>v_start := ns, v_end := ns + nal\<rparr>) mm1 = Inr mm2 \<and> mm_ok mm2)"
proof -
  have wf: "vmas_wf (vmas mm)" using assms(1) by (simp add: mm_ok_def)
  have o: "v_start old < v_end old" "user_bound (v_start old)" "user_bound (v_end old)"
    using assms(1,2) by (auto simp: mm_ok_def vmas_wf_def bounds_in_def)
  note rm = remove_ok [OF assms(1) o assms(7)]
  note fr = find_free_range_spec [OF assms(1,3,4)]
  note ub = user_bound_add [OF fr(1) assms(6) fr(2)]
  have lt: "ns < ns + nal" using ub(2) assms(5) by (simp add: word_less_nat_alt)
  have "range_free ns (ns + nal) (vmas mm1)"
    unfolding rm(2) by (rule range_free_remove [OF fr(3) wf o(1)])
  then obtain mm2 where "insert_vma (old\<lparr>v_start := ns, v_end := ns + nal\<rparr>) mm1 = Inr mm2" "mm_ok mm2"
    using map_area_spec [OF rm(1), of "old\<lparr>v_start := ns, v_end := ns + nal\<rparr>"] fr(1) ub(1) lt by auto
  then show ?thesis using rm(1) by blast
qed

lemma mremap_syscall_ok:
  assumes "mm_ok mm" "user_range old_addr (page_align_up new_size)"
    "mremap_syscall old_addr old_size new_size flags mm = Some (mm', cs, r)"
  shows "mm_ok mm'"
proof (cases "mm' = mm")
  case True
  then show ?thesis using assms(1) by simp
next
  case False
  let ?oal = "page_align_up old_size" and ?nal = "page_align_up new_size"
  from assms(3) False have g: "old_addr AND 0xFFF = 0" "old_size \<le> MAX_REMAP" "new_size \<le> MAX_REMAP" "old_size \<noteq> 0" "new_size \<noteq> 0"
    and m: "mremap old_addr old_size new_size flags mm = Some (mm', cs, r)"
    by (auto simp: mremap_syscall_def not_less split: if_splits)
  from m g False obtain old where fv: "find_vma old_addr mm = Some old" and oe: "v_start old = old_addr" "v_end old = old_addr + ?oal"
    by (auto simp: mremap_def Let_def split: if_splits option.splits)
  have old: "old \<in> set (vmas mm)" using find_vma_Some [OF fv] by simp
  have le: "unat old_size \<le> 2 ^ 62" "unat new_size \<le> 2 ^ 62"
    using g(2,3) by (simp_all add: MAX_REMAP_def word_le_nat_alt)
  note na = align_len [OF le(2) g(5)] and oa = align_len [OF le(1) g(4)]
  have ub0: "user_bound old_addr" by (rule user_range_bound [OF assms(2) g(1)])
  have nr: "unat old_addr + unat ?nal \<le> unat USER_ADDR_MAX" using assms(2) by (simp add: user_range_def)
  note ub = user_bound_add [OF ub0 na(3) nr]
  have ou: "unat (old_addr + ?oal) = unat old_addr + unat ?oal"
    using oa(2) ub0 by (simp add: unat_word_ariths user_bound_def word_le_nat_alt USER_ADDR_MAX_def)
  show ?thesis
  proof (cases "?nal \<le> ?oal")
    case True
    then have "remove_range (old_addr + ?nal) (old_addr + ?oal) mm = Some (mm', cs)"
      using m g fv oe False by (auto simp: mremap_def Let_def bind_eq_Some_conv split: if_splits)
    moreover have "old_addr + ?nal \<le> v_end old" using True ub(2) ou oe(2) by (simp add: word_le_nat_alt)
    ultimately show ?thesis using mremap_shrink_ok [OF assms(1) old ub(1)] oe(2) by simp
  next
    case nle: False
    show ?thesis
    proof (cases "flags AND MREMAP_MAYMOVE = 0")
      case True
      have b: "old_addr + ?oal + (?nal - ?oal) = old_addr + ?nal" by simp
      from True m g fv oe False nle obtain i where
        i: "find_idx (\<lambda>v. v_start v = old_addr) (vmas mm) = Some i"
        and mm': "mm' = mm\<lparr>vmas := (vmas mm)[i := (vmas mm ! i)\<lparr>v_end := old_addr + ?nal\<rparr>]\<rparr>"
        and nx: "old_addr + ?nal \<le> next_start (old_addr + ?oal) (vmas mm)"
        unfolding mremap_def Let_def b by (auto split: if_splits option.splits)
      have "v_end old \<le> old_addr + ?nal" using nle ub(2) ou oe(2) by (simp add: word_le_nat_alt not_le)
      then show ?thesis unfolding mm'
        using mremap_grow_ok [OF assms(1) old _ ub(1), of i] nx i oe by simp
    next
      case move: False
      from m g fv oe False nle move obtain ns where fr: "find_free_range ?nal mm = Some ns"
        by (auto simp: mremap_def Let_def split: if_splits option.splits)
      from m g fv oe False nle move fr have m2: "Option.bind (remove_range (v_start old) (v_end old) mm) (\<lambda>(mm1, cs1).
          case insert_vma (old\<lparr>v_start := ns, v_end := ns + ?nal\<rparr>) mm1 of
            Inl _ \<Rightarrow> Some (mm1, cs1, Inl ENOMEM) | Inr mm2 \<Rightarrow> Some (mm2, cs1, Inr ns)) = Some (mm', cs, r)"
        by (simp add: mremap_def Let_def split: if_splits)
      then obtain mm1 cs1 where rr: "remove_range (v_start old) (v_end old) mm = Some (mm1, cs1)"
        by (cases "remove_range (v_start old) (v_end old) mm") auto
      show ?thesis using mremap_move_ok [OF assms(1) old fr na(2,1,3) rr] m2 rr by auto
    qed
  qed
qed

lemma lock_ok:
  assumes "mm_ok mm"
  shows "mlock_range registered addr len mm = Some (mm', cs, r) \<Longrightarrow> mm_ok mm'"
    and "munlock_range addr len mm = Some (mm', cs, r) \<Longrightarrow> mm_ok mm'"
proof -
  let ?g = "\<lambda>h e v. if v_end v \<le> addr \<or> e \<le> v_start v then v else h v"
  have mp: "mm_ok (mm\<lparr>vmas := map (?g h e) (vmas mm), locked_vm := n\<rparr>)"
    if "\<And>v. v_start (h v) = v_start v \<and> v_end (h v) = v_end v" for h e n
    using assms that vmas_wf_map [of "?g h e"] bounds_in_map [of "?g h e"] by (simp add: mm_ok_def)
  show "mlock_range registered addr len mm = Some (mm', cs, r) \<Longrightarrow> mm_ok mm'"
    using assms mp by (auto simp: mlock_range_def Let_def bind_eq_Some_conv split: if_splits option.splits)
  show "munlock_range addr len mm = Some (mm', cs, r) \<Longrightarrow> mm_ok mm'"
    using assms mp by (auto simp: munlock_range_def Let_def bind_eq_Some_conv split: if_splits option.splits)
qed

lemma mm_ok_reach: "mm_reach mm \<Longrightarrow> mm_ok mm"
proof (induction rule: mm_reach.induct)
  case (start b)
  then show ?case by (simp add: mm_ok_def MmStruct_new_def bounds_in_def)
next
  case (unmap mm addr len mm' cs r)
  show ?case
  proof (cases "addr = 0")
    case True
    then show ?thesis using unmap by (simp add: munmap_syscall_def)
  next
    case False
    from munmap_spec [OF unmap.IH unmap.hyps(2) False unmap.hyps(3,4)] unmap.hyps(5) show ?thesis
      by (metis Pair_inject option.inject)
  qed
qed (blast intro: mmap_spec(1) mprotect_syscall_ok mremap_syscall_ok lock_ok)+

section \<open>Where the code falls short\<close>

text \<open>
  Shrinking the heap within its old range lowers the break and keeps the area and its pages: the first branch of
  \<^verbatim>\<open>set_brk\<close> takes every break above \<^verbatim>\<open>start_brk\<close>.
\<close>

lemma brk_shrink_keeps_heap:
  assumes "vmas mm = [Vma_new (start_brk mm) (brk mm) (PRESENT OR WRITABLE OR USER) Heap]"
    "start_brk mm < page_align_up new_brk" "page_align_up new_brk < brk mm"
  shows "set_brk new_brk mm = Some (mm\<lparr>brk := page_align_up new_brk\<rparr>, [], Inr (page_align_up new_brk))"
  using assms
  by (auto simp: set_brk_def Let_def insert_vma_def vma_overlaps_def Vma_new_def same_key_def insert_sorted_def
    min_def max_def)

text \<open>Removing the front of a file area keeps its offset, so the addresses that stay read from the wrong place;
  removing the middle forgets the file.\<close>

lemma unmap_file_area:
  assumes "v_start v < v_end v"
  shows "s \<le> v_start v \<Longrightarrow> v_start v < e \<Longrightarrow> e < v_end v \<Longrightarrow> remove_pieces s e v = [v\<lparr>v_start := e\<rparr>]"
    and "v_start v < s \<Longrightarrow> s < e \<Longrightarrow> e < v_end v \<Longrightarrow> map v_inode_id (remove_pieces s e v) = [0, 0]"
  using assms by (auto simp: remove_pieces_def Vma_new_def)

text \<open>Two adjacent file areas are merged whatever their files are.\<close>

lemma merge_ignores_file:
  "merge_loop (file_backed 0x2000 0x3000 f 0 7 pwm False m) [file_backed 0x1000 0x2000 f 0 5 pwm False m] =
    (file_backed 0x1000 0x3000 f 0 7 pwm False m, [])"
  by (simp add: file_backed_def same_key_def min_def max_def)

text \<open>Areas of two principals may overlap.\<close>

lemma insert_may_overlap:
  "\<exists>mm'. insert_vma (file_backed 0x2000 0x4000 f 0 7 2 False None)
      (MmStruct_new\<lparr>vmas := [file_backed 0x1000 0x3000 f 0 5 1 False None]\<rparr>) = Inr mm' \<and> \<not> vmas_wf (vmas mm')"
  by (simp add: insert_vma_def vma_overlaps_def file_backed_def same_key_def insert_sorted_def MmStruct_new_def vmas_wf_def)

text \<open>A range that wraps around splits an area into pieces that overlap.\<close>

lemma unmap_wraps:
  "map (\<lambda>w. (v_start w, v_end w)) (fst (remove_loop 0x8000 (0x8000 + 0xFFFFFFFFFFFFC000) [Vma_new 0x1000 0x9000 f t])) =
    [(0x1000, 0x8000), (0x4000, 0x9000)]"
  by (simp add: Vma_new_def)

text \<open>A hint below the end of user space is used with any length, and an area without access is present.\<close>

lemma mmap_hint_unchecked:
  "\<exists>mm'. mmap_syscall fds 0x7FFFFFFFE000 0x100000 0 (MAP_PRIVATE OR MAP_ANONYMOUS) fd off pwm MmStruct_new =
      Inr (mm', 0x7FFFFFFFE000) \<and> map v_end (vmas mm') = [0x8000000FE000]"
  by (simp add: mmap_syscall_def MAP_PRIVATE_def MAP_ANONYMOUS_def MAP_SHARED_def find_or_allocate_addr_def USER_ADDR_MAX_def
    page_align_up_def MM_PAGE_SIZE_def map_area_def insert_vma_def MmStruct_new_def Vma_new_def insert_sorted_def)

lemma prot_none_present: "fst (mapped_attr PROT_NONE (MAP_PRIVATE OR MAP_ANONYMOUS)) AND PRESENT = PRESENT"
  by (simp add: mapped_attr_def MAP_PRIVATE_def MAP_ANONYMOUS_def prot_to_vma_flags_def PROT_NONE_def PRESENT_def USER_def NX_def)

text \<open>The two layers number the advice differently.\<close>

lemma advice_mismatch: "advice_flag MADV_PAGEOUT = None" "advice_flag MADV_FREE = Some VM_PAGEOUT" "advice_flag MADV_NORMAL = None"
  by (simp_all add: advice_flag_def MADV_PAGEOUT_def MADV_FREE_def MADV_NORMAL_def)

text \<open>Advice on the middle of an area reaches its end.\<close>

lemma advise_overreach:
  assumes "v_start v < s" "s < e" "e < v_end v"
  shows "advise_pieces f s e v =
    [v\<lparr>v_end := s\<rparr>, set_vm_flag f (v\<lparr>v_start := s, v_offset := v_offset v + (s - v_start v)\<rparr>)]"
  using assms by (auto simp: advise_pieces_def)

text \<open>The search for free space starts at \<^verbatim>\<open>mmap_base\<close> but continues below it.\<close>

lemma free_range_below_base:
  "find_free_range 0x1000 (MmStruct_new\<lparr>mmap_base := 0x10000, vmas := [Vma_new 0x1000 0x2000 f t]\<rparr>) = Some 0x2000"
  by (simp add: find_free_range_def Vma_new_def MmStruct_new_def USER_ADDR_MAX_def)

section \<open>Properties\<close>





text \<open>C33: Locked memory stays within the limit.  When \<^verbatim>\<open>mlock\<close> succeeds, the count of locked bytes has grown by the overlap without
  wrapping around and is within the limit (unless there is none), every area that meets the range
  is marked as locked, and no mapping has changed.\<close>
theorem mlock_within_limit:
  assumes "mlock_range registered addr len mm = Some (mm', cs, Inr n)"
  shows "(query_memlock_limit registered = - 1 \<or>
      locked_vm mm' \<le> query_memlock_limit registered \<and> unat (locked_vm mm') = unat (locked_vm mm) + unat n) \<and>
    (\<forall>v \<in> set (vmas mm'). v_start v < page_align_up (addr + len) \<and> addr < v_end v \<longrightarrow> is_mlocked v) \<and>
    (\<forall>x. page_attr (vmas mm') x = page_attr (vmas mm) x)"
proof (intro conjI)
  let ?e = "page_align_up (addr + len)"
  let ?g = "\<lambda>v. if v_end v \<le> addr \<or> ?e \<le> v_start v then v else set_vm_flag MLOCKED v"
  from assms have ex: "\<not> query_memlock_exceeded registered (locked_vm mm) n"
    and mm': "vmas mm' = map ?g (vmas mm)" "locked_vm mm' = locked_vm mm + n"
    by (auto simp: mlock_range_def Let_def bind_eq_Some_conv checked_add_def split: if_splits option.splits)
  show "query_memlock_limit registered = - 1 \<or>
      locked_vm mm' \<le> query_memlock_limit registered \<and> unat (locked_vm mm') = unat (locked_vm mm) + unat n"
  proof (cases "query_memlock_limit registered = - 1")
    case False
    then have le: "saturating_add (locked_vm mm) n \<le> query_memlock_limit registered"
      using ex by (simp add: query_memlock_exceeded_def not_less)
    then have "saturating_add (locked_vm mm) n \<noteq> - 1" using False by (metis word_n1_ge word_order.extremum_uniqueI)
    then have s: "unat (locked_vm mm) + unat n < 2 ^ 64" "saturating_add (locked_vm mm) n = locked_vm mm + n"
      by (auto simp: saturating_add_def split: if_splits)
    then show ?thesis using le mm'(2) by (simp add: unat_word_ariths)
  qed simp
  have "is_mlocked (set_vm_flag MLOCKED v)" for v
    unfolding is_mlocked_def set_vm_flag_def by (rule bit_word_eqI) (auto simp: bit_simps)
  then show "\<forall>v \<in> set (vmas mm'). v_start v < ?e \<and> addr < v_end v \<longrightarrow> is_mlocked v"
    unfolding mm'(1) by auto
  show "\<forall>x. page_attr (vmas mm') x = page_attr (vmas mm) x"
    unfolding mm'(1) by (intro allI page_attr_map) auto
qed

theorem mlock_within_limit_witness:
  "\<exists>mm' cs. mlock_range (Some 0x2000) 0x1000 0x1000 (MmStruct_new\<lparr>vmas := [Vma_new 0x1000 0x3000 0 Anonymous]\<rparr>) =
    Some (mm', cs, Inr 0x1000) \<and> locked_vm mm' \<le> 0x2000"
proof -
  have pg: "page_addrs 0x1000 0x2000 = Some [0x1000]"
    by (subst page_addrs.simps, subst page_addrs.simps) (simp add: MM_PAGE_SIZE_def)
  obtain mm' cs where "mlock_range (Some 0x2000) 0x1000 0x1000 (MmStruct_new\<lparr>vmas := [Vma_new 0x1000 0x3000 0 Anonymous]\<rparr>) =
      Some (mm', cs, Inr 0x1000)"
    by (simp add: mlock_range_def checked_add_def page_align_up_def MM_PAGE_SIZE_def Vma_new_def overlap_bytes_def
      query_memlock_exceeded_def query_memlock_limit_def saturating_add_def MmStruct_new_def pg)
  with conjunct1 [OF mlock_within_limit [OF this]] show ?thesis by (auto simp: query_memlock_limit_def)
qed

end
