(* ===== verification/Hv_Arc.thy ===== *)
theory Hv_Arc
  imports Prelude
begin

text \<open>
  The adaptive replacement cache of HVFS, \<^verbatim>\<open>services/fs/hvfs/arc.rs\<close>: buffers in slots, a hash table of slots, the
  recency and frequency lists, the ghost lists and the target size \<^verbatim>\<open>p\<close> between them.  Each call runs under the
  lock of the cache.  A pointer to the data of a buffer is modelled by the data.  Counters of list lengths are natural numbers.
  A hit returns what was inserted last under the key, the cache stays within its size, and an insertion
  returns except in one state, in which its eviction loop runs forever.
\<close>

section \<open>Data\<close>

definition HV_ARC_DEFAULT_SIZE :: nat where "HV_ARC_DEFAULT_SIZE = 256"
definition HV_ARC_MAX_SIZE :: nat where "HV_ARC_MAX_SIZE = 4096"
definition HV_ARC_HASH_BUCKETS :: nat where "HV_ARC_HASH_BUCKETS = 256"

datatype HvArcState = Anon | Mru | Mfu | MruGhost | MfuGhost | L2Cache
datatype HvArcBufType = DataBuf | Metadata

record HvArcKey =
  ak_vdev_id :: u16
  ak_offset :: u64
  ak_birth_txg :: u64

definition arc_hash :: "HvArcKey \<Rightarrow> u64" where
  "arc_hash k =
    (let h = 14695981039346656037;
         h = (h XOR ucast (ak_vdev_id k)) * 1099511628211;
         h = (h XOR ak_offset k) * 1099511628211
     in (h XOR ak_birth_txg k) * 1099511628211)"

definition arc_bucket :: "HvArcKey \<Rightarrow> nat" where
  "arc_bucket k = unat (arc_hash k) mod HV_ARC_HASH_BUCKETS"

record HvArcBuf =
  ab_key :: HvArcKey
  ab_data :: "u8 list"
  ab_size :: nat
  ab_buf_type :: HvArcBufType
  ab_state :: HvArcState
  ab_ref_count :: u32
  ab_access_count :: u32
  ab_dirty :: bool
  ab_l2cached :: bool
  ab_compressed :: bool

definition HvArcBuf_new :: "HvArcKey \<Rightarrow> nat \<Rightarrow> HvArcBufType \<Rightarrow> HvArcBuf" where
  "HvArcBuf_new k n t = \<lparr>ab_key = k, ab_data = replicate n 0, ab_size = n, ab_buf_type = t, ab_state = Anon,
    ab_ref_count = 1, ab_access_count = 1, ab_dirty = False, ab_l2cached = False, ab_compressed = False\<rparr>"

definition is_referenced :: "HvArcBuf \<Rightarrow> bool" where
  "is_referenced b \<longleftrightarrow> 0 < ab_ref_count b"

definition add_ref :: "HvArcBuf \<Rightarrow> HvArcBuf" where
  "add_ref b = b\<lparr>ab_ref_count := ab_ref_count b + 1\<rparr>"

definition buf_release :: "HvArcBuf \<Rightarrow> HvArcBuf \<times> u32" where
  "buf_release b = (if ab_ref_count b = 0 then (b, 0)
     else (b\<lparr>ab_ref_count := ab_ref_count b - 1\<rparr>, ab_ref_count b - 1))"

record HvArcStats =
  s_hits :: u64
  s_misses :: u64
  s_mru_hits :: u64
  s_mfu_hits :: u64
  s_ghost_hits :: u64
  s_evicts :: u64
  s_size :: u64
  s_mru_size :: u64
  s_mfu_size :: u64
  s_ghost_mru_size :: u64
  s_ghost_mfu_size :: u64
  s_data_size :: u64
  s_meta_size :: u64

definition HvArcStats_new :: HvArcStats where
  "HvArcStats_new = \<lparr>s_hits = 0, s_misses = 0, s_mru_hits = 0, s_mfu_hits = 0, s_ghost_hits = 0, s_evicts = 0, s_size = 0,
    s_mru_size = 0, s_mfu_size = 0, s_ghost_mru_size = 0, s_ghost_mfu_size = 0, s_data_size = 0, s_meta_size = 0\<rparr>"

record HvArc =
  mru :: "nat list"
  mfu :: "nat list"
  ghost_mru :: "HvArcKey list"
  ghost_mfu :: "HvArcKey list"
  buffers :: "HvArcBuf option list"
  hash_table :: "nat list list"
  max_size :: nat
  arc_p :: nat
  stats :: HvArcStats
  initialized :: bool

definition HvArc_new :: HvArc where
  "HvArc_new = \<lparr>mru = [], mfu = [], ghost_mru = [], ghost_mfu = [], buffers = [],
    hash_table = replicate HV_ARC_HASH_BUCKETS [], max_size = HV_ARC_DEFAULT_SIZE, arc_p = 0,
    stats = HvArcStats_new, initialized = False\<rparr>"

definition arc_init :: "nat \<Rightarrow> HvArc \<Rightarrow> HvArc" where
  "arc_init n a =
    (let mx = (if n = 0 then HV_ARC_DEFAULT_SIZE else min n HV_ARC_MAX_SIZE) in
     a\<lparr>max_size := mx, buffers := [], mru := [], mfu := [], ghost_mru := [], ghost_mfu := [],
       hash_table := map (\<lambda>_. []) (hash_table a), arc_p := mx div 2, initialized := True\<rparr>)"

section \<open>Look-up\<close>

definition holds_key :: "HvArc \<Rightarrow> HvArcKey \<Rightarrow> nat \<Rightarrow> bool" where
  "holds_key a k i = (case buffers a ! i of Some b \<Rightarrow> ab_key b = k | None \<Rightarrow> False)"

definition count_hit :: "HvArcBuf \<Rightarrow> HvArcStats \<Rightarrow> HvArcStats" where
  "count_hit b s =
    (let s = s\<lparr>s_hits := s_hits s + 1\<rparr> in
     if ab_state b = Mru then s\<lparr>s_mru_hits := s_mru_hits s + 1\<rparr>
     else if ab_state b = Mfu then s\<lparr>s_mfu_hits := s_mfu_hits s + 1\<rparr> else s)"

definition arc_hit :: "nat \<Rightarrow> HvArcBuf \<Rightarrow> HvArc \<Rightarrow> HvArc" where
  "arc_hit i b a =
    (let promote = (ab_state b = Mru);
         b1 = add_ref (b\<lparr>ab_access_count := ab_access_count b + 1\<rparr>);
         a1 = a\<lparr>stats := count_hit b (stats a)\<rparr>
     in if promote then a1\<lparr>buffers := (buffers a)[i := Some (b1\<lparr>ab_state := Mfu\<rparr>)],
          mru := filter (\<lambda>j. j \<noteq> i) (mru a), mfu := mfu a @ [i]\<rparr>
        else a1\<lparr>buffers := (buffers a)[i := Some b1]\<rparr>)"

definition ghost_delta :: "nat \<Rightarrow> nat \<Rightarrow> nat \<Rightarrow> nat" where
  "ghost_delta mx live ghosts = (if 0 < live + ghosts then mx * ghosts div (live + ghosts) else 1)"

definition remove_at :: "nat \<Rightarrow> 'a list \<Rightarrow> 'a list" where
  "remove_at i xs = take i xs @ drop (Suc i) xs"

definition arc_miss :: "HvArcKey \<Rightarrow> HvArc \<Rightarrow> HvArc" where
  "arc_miss k a =
    (let a1 = (case find_idx (\<lambda>g. g = k) (ghost_mru a) of
          Some pos \<Rightarrow> let gs = remove_at pos (ghost_mru a) in
            a\<lparr>ghost_mru := gs, arc_p := min (arc_p a + ghost_delta (max_size a) (length (mru a)) (length gs)) (max_size a),
              stats := (stats a)\<lparr>s_ghost_hits := s_ghost_hits (stats a) + 1\<rparr>\<rparr>
        | None \<Rightarrow> (case find_idx (\<lambda>g. g = k) (ghost_mfu a) of
            Some pos \<Rightarrow> let gs = remove_at pos (ghost_mfu a) in
              a\<lparr>ghost_mfu := gs, arc_p := arc_p a - ghost_delta (max_size a) (length (mfu a)) (length gs),
                stats := (stats a)\<lparr>s_ghost_hits := s_ghost_hits (stats a) + 1\<rparr>\<rparr>
          | None \<Rightarrow> a))
     in a1\<lparr>stats := (stats a1)\<lparr>s_misses := s_misses (stats a1) + 1\<rparr>\<rparr>)"

definition arc_lookup :: "HvArcKey \<Rightarrow> HvArc \<Rightarrow> HvArc \<times> u8 list option" where
  "arc_lookup k a =
    (case List.find (holds_key a k) (hash_table a ! arc_bucket k) of
       Some i \<Rightarrow> (case buffers a ! i of
           Some b \<Rightarrow> (arc_hit i b a, Some (ab_data b))
         | None \<Rightarrow> (a, None))
     | None \<Rightarrow> (arc_miss k a, None))"

section \<open>Insertion and eviction\<close>

definition remove_key :: "HvArcKey \<Rightarrow> HvArc \<Rightarrow> HvArc" where
  "remove_key k a =
    (let b = arc_bucket k in
     case find_idx (holds_key a k) (hash_table a ! b) of
       None \<Rightarrow> a
     | Some pos \<Rightarrow>
         let i = hash_table a ! b ! pos;
             n = (case buffers a ! i of Some buf \<Rightarrow> length (ab_data buf) | None \<Rightarrow> 0)
         in a\<lparr>hash_table := (hash_table a)[b := remove_at pos (hash_table a ! b)],
              stats := (stats a)\<lparr>s_size := s_size (stats a) - word_of_nat n\<rparr>,
              buffers := (buffers a)[i := None],
              mru := filter (\<lambda>j. j \<noteq> i) (mru a), mfu := filter (\<lambda>j. j \<noteq> i) (mfu a)\<rparr>)"

definition drop_buffer :: "nat \<Rightarrow> HvArcBuf \<Rightarrow> HvArc \<Rightarrow> HvArc" where
  "drop_buffer i buf a =
    (let b = arc_bucket (ab_key buf) in
     a\<lparr>buffers := (buffers a)[i := None], hash_table := (hash_table a)[b := filter (\<lambda>j. j \<noteq> i) (hash_table a ! b)]\<rparr>)"

definition evict_mru :: "HvArc \<Rightarrow> HvArc" where
  "evict_mru a =
    (case mru a of
       [] \<Rightarrow> a
     | i # rest \<Rightarrow>
         (case buffers a ! i of
            None \<Rightarrow> a\<lparr>mru := rest\<rparr>
          | Some buf \<Rightarrow> (drop_buffer i buf a)\<lparr>mru := rest, ghost_mru := ghost_mru a @ [ab_key buf],
              stats := (stats a)\<lparr>s_mru_size := s_mru_size (stats a) - word_of_nat (ab_size buf),
                s_size := s_size (stats a) - word_of_nat (ab_size buf), s_evicts := s_evicts (stats a) + 1\<rparr>\<rparr>))"

definition evict_mfu :: "HvArc \<Rightarrow> HvArc" where
  "evict_mfu a =
    (case mfu a of
       [] \<Rightarrow> a
     | i # rest \<Rightarrow>
         (case buffers a ! i of
            None \<Rightarrow> a\<lparr>mfu := rest\<rparr>
          | Some buf \<Rightarrow> (drop_buffer i buf a)\<lparr>mfu := rest, ghost_mfu := ghost_mfu a @ [ab_key buf],
              stats := (stats a)\<lparr>s_mfu_size := s_mfu_size (stats a) - word_of_nat (ab_size buf),
                s_size := s_size (stats a) - word_of_nat (ab_size buf), s_evicts := s_evicts (stats a) + 1\<rparr>\<rparr>))"

definition trim_ghosts :: "HvArc \<Rightarrow> HvArc" where
  "trim_ghosts a = a\<lparr>ghost_mru := (if max_size a < length (ghost_mru a) then tl (ghost_mru a) else ghost_mru a),
     ghost_mfu := (if max_size a < length (ghost_mfu a) then tl (ghost_mfu a) else ghost_mfu a)\<rparr>"

text \<open>The loop of \<^verbatim>\<open>evict_if_needed\<close>; it makes no progress when neither branch finds a buffer.\<close>

partial_function (option) evict_if_needed :: "HvArc \<Rightarrow> HvArc option" where
  "evict_if_needed a =
    (if max_size a < length (mru a) + length (mfu a) + 1
     then evict_if_needed (trim_ghosts (if arc_p a < length (mru a) then evict_mru a else evict_mfu a))
     else Some a)"

definition place_buffer :: "HvArcBuf \<Rightarrow> HvArc \<Rightarrow> HvArc \<times> nat" where
  "place_buffer buf a =
    (case find_idx (\<lambda>s. s = None) (buffers a) of
       Some i \<Rightarrow> (a\<lparr>buffers := (buffers a)[i := Some buf]\<rparr>, i)
     | None \<Rightarrow> (a\<lparr>buffers := buffers a @ [Some buf]\<rparr>, length (buffers a)))"

definition count_insert :: "nat \<Rightarrow> HvArcBufType \<Rightarrow> HvArcStats \<Rightarrow> HvArcStats" where
  "count_insert n t s =
    (let s = s\<lparr>s_size := s_size s + word_of_nat n\<rparr>;
         s = (if t = DataBuf then s\<lparr>s_data_size := s_data_size s + word_of_nat n\<rparr>
              else s\<lparr>s_meta_size := s_meta_size s + word_of_nat n\<rparr>)
     in s\<lparr>s_mru_size := s_mru_size s + word_of_nat n\<rparr>)"

definition arc_insert :: "HvArcKey \<Rightarrow> u8 list \<Rightarrow> HvArcBufType \<Rightarrow> HvArc \<Rightarrow> (HvArc \<times> u8 list option) option" where
  "arc_insert k dat t a =
    Option.bind (evict_if_needed (remove_key k a)) (\<lambda>a1.
      let buf = (HvArcBuf_new k (length dat) t)\<lparr>ab_data := dat, ab_state := Mru\<rparr>;
          (a2, i) = place_buffer buf a1;
          b = arc_bucket k;
          a3 = a2\<lparr>hash_table := (hash_table a2)[b := hash_table a2 ! b @ [i]], mru := mru a2 @ [i],
                  stats := count_insert (length dat) t (stats a2)\<rparr>
      in case buffers a3 ! i of
           Some bf \<Rightarrow> Some (a3\<lparr>buffers := (buffers a3)[i := Some (add_ref bf)]\<rparr>, Some (ab_data bf))
         | None \<Rightarrow> Some (a3, None))"

section \<open>References and dirty buffers\<close>

definition slot_of :: "HvArcKey \<Rightarrow> HvArc \<Rightarrow> nat option" where
  "slot_of k a = find_idx (\<lambda>s. case s of Some b \<Rightarrow> ab_key b = k | None \<Rightarrow> False) (buffers a)"

definition update_slot :: "(HvArcBuf \<Rightarrow> HvArcBuf) \<Rightarrow> HvArcKey \<Rightarrow> HvArc \<Rightarrow> HvArc" where
  "update_slot f k a = (case slot_of k a of
     Some i \<Rightarrow> a\<lparr>buffers := (buffers a)[i := map_option f (buffers a ! i)]\<rparr> | None \<Rightarrow> a)"

definition arc_release :: "HvArcKey \<Rightarrow> HvArc \<Rightarrow> HvArc" where
  "arc_release = update_slot (\<lambda>b. fst (buf_release b))"

definition mark_dirty :: "HvArcKey \<Rightarrow> HvArc \<Rightarrow> HvArc" where
  "mark_dirty = update_slot (\<lambda>b. b\<lparr>ab_dirty := True\<rparr>)"

definition flush_dirty :: "HvArc \<Rightarrow> nat" where
  "flush_dirty a = length (filter (\<lambda>s. case s of Some b \<Rightarrow> ab_dirty b | None \<Rightarrow> False) (buffers a))"

text \<open>\<^verbatim>\<open>lookup_slice\<close> makes a slice of a length that the caller gives; \<open>None\<close> on the outside: the slice reaches past
  the end of the buffer.\<close>

definition lookup_slice :: "HvArcKey \<Rightarrow> nat \<Rightarrow> HvArc \<Rightarrow> HvArc \<times> u8 list option option" where
  "lookup_slice k n a =
    (case arc_lookup k a of
       (a1, None) \<Rightarrow> (a1, Some None)
     | (a1, Some d) \<Rightarrow>
         (a1, if n = 0 then Some None else if length d < n then None else Some (Some (take n d))))"

definition arc_get_stats :: "HvArc \<Rightarrow> u64 \<times> u64 \<times> u64 \<times> u64" where
  "arc_get_stats a = (s_hits (stats a), s_misses (stats a), s_size (stats a), s_evicts (stats a))"

section \<open>Consistency of the indexes\<close>

text \<open>
  \<open>idx_ok\<close>: the hash table finds exactly the filled slots, keys are unique, and the two lists hold the slots by
  the state of their buffers.
\<close>

definition slot :: "HvArcBuf option list \<Rightarrow> nat \<Rightarrow> HvArcBuf option" where
  "slot bs i = (if i < length bs then bs ! i else None)"

definition idx_ok :: "nat list list \<Rightarrow> HvArcBuf option list \<Rightarrow> nat list \<Rightarrow> nat list \<Rightarrow> bool" where
  "idx_ok ht bs ru fu \<longleftrightarrow>
     length ht = HV_ARC_HASH_BUCKETS \<and> (\<forall>b < HV_ARC_HASH_BUCKETS. distinct (ht ! b)) \<and> distinct ru \<and> distinct fu \<and>
     (\<forall>b < HV_ARC_HASH_BUCKETS. \<forall>i. i \<in> set (ht ! b) \<longleftrightarrow> (\<exists>buf. slot bs i = Some buf \<and> arc_bucket (ab_key buf) = b)) \<and>
     (\<forall>i j bi bj. slot bs i = Some bi \<and> slot bs j = Some bj \<and> ab_key bi = ab_key bj \<longrightarrow> i = j) \<and>
     (\<forall>i. i \<in> set ru \<longleftrightarrow> (\<exists>buf. slot bs i = Some buf \<and> ab_state buf = Mru)) \<and>
     (\<forall>i. i \<in> set fu \<longleftrightarrow> (\<exists>buf. slot bs i = Some buf \<and> ab_state buf = Mfu)) \<and>
     (\<forall>i buf. slot bs i = Some buf \<longrightarrow> ab_state buf = Mru \<or> ab_state buf = Mfu)"

lemma idx_okD:
  assumes "idx_ok ht bs ru fu"
  shows "length ht = HV_ARC_HASH_BUCKETS" "\<And>b. b < HV_ARC_HASH_BUCKETS \<Longrightarrow> distinct (ht ! b)" "distinct ru" "distinct fu"
    "\<And>b i. b < HV_ARC_HASH_BUCKETS \<Longrightarrow> i \<in> set (ht ! b) \<longleftrightarrow> (\<exists>buf. slot bs i = Some buf \<and> arc_bucket (ab_key buf) = b)"
    "\<And>i j bi bj. slot bs i = Some bi \<Longrightarrow> slot bs j = Some bj \<Longrightarrow> ab_key bi = ab_key bj \<Longrightarrow> i = j"
    "\<And>i. i \<in> set ru \<longleftrightarrow> (\<exists>buf. slot bs i = Some buf \<and> ab_state buf = Mru)"
    "\<And>i. i \<in> set fu \<longleftrightarrow> (\<exists>buf. slot bs i = Some buf \<and> ab_state buf = Mfu)"
    "\<And>i buf. slot bs i = Some buf \<Longrightarrow> ab_state buf = Mru \<or> ab_state buf = Mfu"
  using assms unfolding idx_ok_def by blast+

lemma arc_bucket_less [simp]: "arc_bucket k < HV_ARC_HASH_BUCKETS"
  by (simp add: arc_bucket_def HV_ARC_HASH_BUCKETS_def)

lemma slot_update: "i < length bs \<Longrightarrow> slot (bs[i := x]) j = (if j = i then x else slot bs j)"
  by (auto simp: slot_def)

lemma slot_Some_less: "slot bs i = Some b \<Longrightarrow> i < length bs"
  by (auto simp: slot_def split: if_splits)

lemma slot_nth: "slot bs i = Some b \<Longrightarrow> bs ! i = Some b"
  by (auto simp: slot_def split: if_splits)

lemma idx_ok_replace:
  assumes "idx_ok ht bs ru fu" "slot bs i = Some b" "ab_key b' = ab_key b" "ab_state b' = ab_state b"
  shows "idx_ok ht (bs[i := Some b']) ru fu"
proof -
  note su = slot_update [OF slot_Some_less [OF assms(2)], of "Some b'"]
  have *: "(\<exists>buf. slot (bs[i := Some b']) j = Some buf \<and> P (ab_key buf) (ab_state buf)) \<longleftrightarrow>
      (\<exists>buf. slot bs j = Some buf \<and> P (ab_key buf) (ab_state buf))" for j and P :: "HvArcKey \<Rightarrow> HvArcState \<Rightarrow> bool"
    using assms(2-4) by (simp add: su)
  have k: "x = y" if "slot (bs[i := Some b']) x = Some bx" "slot (bs[i := Some b']) y = Some by" "ab_key bx = ab_key by" for x y bx "by"
    using that idx_okD(6) [OF assms(1)] assms(2,3) unfolding su by (metis option.inject)
  have st: "ab_state buf = Mru \<or> ab_state buf = Mfu" if "slot (bs[i := Some b']) j = Some buf" for j buf
    using that idx_okD(9) [OF assms(1)] assms(2,4) by (auto simp: su split: if_splits)
  show ?thesis
    unfolding idx_ok_def
    using idx_okD [OF assms(1)] * [of _ "\<lambda>k s. arc_bucket k = _"] * [of _ "\<lambda>k s. s = Mru"] * [of _ "\<lambda>k s. s = Mfu"] k st
    by (intro conjI) (blast | simp)+
qed

lemma idx_ok_promote:
  assumes "idx_ok ht bs ru fu" "slot bs i = Some b" "ab_key b' = ab_key b" "ab_state b = Mru" "ab_state b' = Mfu"
  shows "idx_ok ht (bs[i := Some b']) (filter (\<lambda>j. j \<noteq> i) ru) (fu @ [i])"
proof -
  note su = slot_update [OF slot_Some_less [OF assms(2)], of "Some b'"]
  note D = idx_okD [OF assms(1)]
  have "i \<notin> set fu" using D(8) [of i] assms(2,4) by auto
  moreover have "b < HV_ARC_HASH_BUCKETS \<Longrightarrow> j \<in> set (ht ! b) \<longleftrightarrow>
      (\<exists>buf. slot (bs[i := Some b']) j = Some buf \<and> arc_bucket (ab_key buf) = b)" for b j
    using D(5) [of b j] assms(2,3) by (auto simp: su)
  moreover have "x = y" if "slot (bs[i := Some b']) x = Some bx" "slot (bs[i := Some b']) y = Some by" "ab_key bx = ab_key by" for x y bx "by"
    using that D(6) assms(2,3) unfolding su by (metis option.inject)
  moreover have "j \<in> set (filter (\<lambda>j. j \<noteq> i) ru) \<longleftrightarrow> (\<exists>buf. slot (bs[i := Some b']) j = Some buf \<and> ab_state buf = Mru)" for j
    using D(7) [of j] assms(5) by (auto simp: su)
  moreover have "j \<in> set (fu @ [i]) \<longleftrightarrow> (\<exists>buf. slot (bs[i := Some b']) j = Some buf \<and> ab_state buf = Mfu)" for j
    using D(8) [of j] assms(5) by (auto simp: su)
  moreover have "ab_state buf = Mru \<or> ab_state buf = Mfu" if "slot (bs[i := Some b']) j = Some buf" for j buf
    using that D(9) [of j] assms(5) by (auto simp: su split: if_splits)
  ultimately show ?thesis using D(1-4) unfolding idx_ok_def by (intro conjI allI impI) (auto intro: distinct_filter)
qed

lemma idx_ok_clear:
  assumes "idx_ok ht bs ru fu" "slot bs i = Some b" "distinct l" "set l = set (ht ! arc_bucket (ab_key b)) - {i}"
  shows "idx_ok (ht[arc_bucket (ab_key b) := l]) (bs[i := None]) (filter (\<lambda>j. j \<noteq> i) ru) (filter (\<lambda>j. j \<noteq> i) fu)"
proof -
  note su = slot_update [OF slot_Some_less [OF assms(2)], of None]
  note D = idx_okD [OF assms(1)]
  let ?ht = "ht[arc_bucket (ab_key b) := l]"
  have ht: "?ht ! c = (if c = arc_bucket (ab_key b) then l else ht ! c)" if "c < HV_ARC_HASH_BUCKETS" for c
    using that D(1) by (simp add: nth_list_update_if)
  have "j \<in> set (?ht ! c) \<longleftrightarrow> (\<exists>buf. slot (bs[i := None]) j = Some buf \<and> arc_bucket (ab_key buf) = c)"
    if c: "c < HV_ARC_HASH_BUCKETS" for c j
    using D(5) [OF c, of j] assms(2,4) unfolding ht [OF c] su by auto
  moreover have "x = y" if "slot (bs[i := None]) x = Some bx" "slot (bs[i := None]) y = Some by" "ab_key bx = ab_key by" for x y bx "by"
    using that D(6) [of x _ y] by (auto simp: su split: if_splits)
  moreover have "j \<in> set (filter (\<lambda>j. j \<noteq> i) ru) \<longleftrightarrow> (\<exists>buf. slot (bs[i := None]) j = Some buf \<and> ab_state buf = Mru)"
    "j \<in> set (filter (\<lambda>j. j \<noteq> i) fu) \<longleftrightarrow> (\<exists>buf. slot (bs[i := None]) j = Some buf \<and> ab_state buf = Mfu)" for j
    using D(7,8) [of j] by (auto simp: su)
  moreover have "ab_state buf = Mru \<or> ab_state buf = Mfu" if "slot (bs[i := None]) j = Some buf" for j buf
    using that D(9) [of j] by (auto simp: su split: if_splits)
  moreover have "distinct (?ht ! c)" if "c < HV_ARC_HASH_BUCKETS" for c using D(2) [OF that] assms(3) ht [OF that] by simp
  ultimately show ?thesis using D(1,3,4) unfolding idx_ok_def by (intro conjI allI impI) auto
qed

lemma idx_ok_fill:
  assumes "idx_ok ht bs ru fu" "slot bs i = None" "slot bs' i = Some b" "\<And>j. j \<noteq> i \<Longrightarrow> slot bs' j = slot bs j"
    "\<And>j bj. slot bs j = Some bj \<Longrightarrow> ab_key bj \<noteq> ab_key b" "ab_state b = Mru"
  shows "idx_ok (ht[arc_bucket (ab_key b) := ht ! arc_bucket (ab_key b) @ [i]]) bs' (ru @ [i]) fu"
proof -
  note D = idx_okD [OF assms(1)]
  have su: "slot bs' j = (if j = i then Some b else slot bs j)" for j using assms(3,4) by simp
  let ?l = "ht ! arc_bucket (ab_key b) @ [i]"
  let ?ht = "ht[arc_bucket (ab_key b) := ?l]"
  have ht: "?ht ! c = (if c = arc_bucket (ab_key b) then ?l else ht ! c)" if "c < HV_ARC_HASH_BUCKETS" for c
    using that D(1) by (simp add: nth_list_update_if)
  have ni: "i \<notin> set (ht ! c)" if "c < HV_ARC_HASH_BUCKETS" for c using D(5) [OF that, of i] assms(2) by simp
  have "j \<in> set (?ht ! c) \<longleftrightarrow> (\<exists>buf. slot bs' j = Some buf \<and> arc_bucket (ab_key buf) = c)" if c: "c < HV_ARC_HASH_BUCKETS" for c j
    using D(5) [OF c, of j] ni [OF c] assms(2) unfolding ht [OF c] su by auto
  moreover have "x = y" if "slot bs' x = Some bx" "slot bs' y = Some by" "ab_key bx = ab_key by" for x y bx "by"
    using that D(6) [of x _ y] assms(5) [of x] assms(5) [of y] by (auto simp: su split: if_splits)
  moreover have "j \<in> set (ru @ [i]) \<longleftrightarrow> (\<exists>buf. slot bs' j = Some buf \<and> ab_state buf = Mru)"
    "j \<in> set fu \<longleftrightarrow> (\<exists>buf. slot bs' j = Some buf \<and> ab_state buf = Mfu)" for j
    using D(7,8) [of j] assms(2,6) by (auto simp: su)
  moreover have "ab_state buf = Mru \<or> ab_state buf = Mfu" if "slot bs' j = Some buf" for j buf
    using that D(9) [of j] assms(6) by (auto simp: su split: if_splits)
  moreover have "distinct (?ht ! c)" if "c < HV_ARC_HASH_BUCKETS" for c using D(2) [OF that] ni [OF that] ht [OF that] by auto
  moreover have "i \<notin> set ru" using D(7) [of i] assms(2) by simp
  ultimately show ?thesis using D(1,3,4) unfolding idx_ok_def by (intro conjI allI impI) auto
qed

section \<open>The operations keep the cache consistent\<close>

definition arc_ok :: "HvArc \<Rightarrow> bool" where
  "arc_ok a \<longleftrightarrow> idx_ok (hash_table a) (buffers a) (mru a) (mfu a) \<and> 0 < max_size a \<and>
     length (mru a) + length (mfu a) \<le> max_size a \<and> arc_p a \<le> max_size a \<and>
     length (ghost_mru a) \<le> max_size a \<and> length (ghost_mfu a) \<le> max_size a"

definition cached :: "HvArc \<Rightarrow> HvArcKey \<Rightarrow> u8 list \<Rightarrow> bool" where
  "cached a k d \<longleftrightarrow> (\<exists>i b. slot (buffers a) i = Some b \<and> ab_key b = k \<and> ab_data b = d)"

lemma holds_key_iff:
  assumes "idx_ok (hash_table a) (buffers a) ru fu" "i \<in> set (hash_table a ! arc_bucket k)"
  shows "holds_key a k i \<longleftrightarrow> (\<exists>b. slot (buffers a) i = Some b \<and> ab_key b = k)"
proof -
  obtain b where "slot (buffers a) i = Some b" using idx_okD(5) [OF assms(1), of "arc_bucket k" i] assms(2) by auto
  then show ?thesis using slot_nth by (auto simp: holds_key_def)
qed

lemma holds_key_bucket:
  assumes "idx_ok (hash_table a) (buffers a) ru fu" "slot (buffers a) i = Some b" "ab_key b = k"
  shows "i \<in> set (hash_table a ! arc_bucket k)"
  using idx_okD(5) [OF assms(1), of "arc_bucket k" i] assms(2,3) by auto

lemma not_cached:
  assumes "idx_ok (hash_table a) (buffers a) ru fu" "\<forall>i \<in> set (hash_table a ! arc_bucket k). \<not> holds_key a k i"
  shows "\<not> cached a k d"
proof
  assume "cached a k d"
  then obtain i b where b: "slot (buffers a) i = Some b" "ab_key b = k" by (auto simp: cached_def)
  note m = holds_key_bucket [OF assms(1) b]
  with holds_key_iff [OF assms(1) m] b assms(2) show False by blast
qed

lemma filter_other_length: "distinct xs \<Longrightarrow> length (filter (\<lambda>j. j \<noteq> i) xs) = length xs - (if i \<in> set xs then 1 else 0)"
  by (induction xs) (auto simp: filter_id_conv Suc_diff_Suc dest: length_pos_if_in_set)

lemma cached_replace:
  assumes "slot (buffers a) i = Some b" "ab_key b' = ab_key b" "ab_data b' = ab_data b" "buffers a' = (buffers a)[i := Some b']"
  shows "cached a' k d = cached a k d"
proof -
  note su = slot_update [OF slot_Some_less [OF assms(1)], of "Some b'", folded assms(4)]
  show ?thesis
  proof
    assume "cached a' k d"
    then obtain j bj where "slot (buffers a') j = Some bj" "ab_key bj = k" "ab_data bj = d" by (auto simp: cached_def)
    then show "cached a k d" using assms(1-3) unfolding cached_def su by (cases "j = i") auto
  next
    assume "cached a k d"
    then obtain j bj where "slot (buffers a) j = Some bj" "ab_key bj = k" "ab_data bj = d" by (auto simp: cached_def)
    then have "slot (buffers a') j = Some (if j = i then b' else bj)"
      "ab_key (if j = i then b' else bj) = k" "ab_data (if j = i then b' else bj) = d"
      using assms(1-3) by (auto simp: su)
    then show "cached a' k d" unfolding cached_def by blast
  qed
qed

lemma arc_hit_ok:
  assumes "arc_ok a" "slot (buffers a) i = Some b"
  shows "arc_ok (arc_hit i b a)" "cached (arc_hit i b a) k d = cached a k d"
proof -
  have ix: "idx_ok (hash_table a) (buffers a) (mru a) (mfu a)" using assms(1) by (simp add: arc_ok_def)
  show "arc_ok (arc_hit i b a)"
  proof (cases "ab_state b = Mru")
    case True
    then have "i \<in> set (mru a)" using idx_okD(7) [OF ix, of i] assms(2) by simp
    then have "length (filter (\<lambda>j. j \<noteq> i) (mru a)) + length (mfu a @ [i]) = length (mru a) + length (mfu a)"
      using idx_okD(3) [OF ix] length_pos_if_in_set [of i "mru a"] by (simp add: filter_other_length)
    then show ?thesis using True assms(1) idx_ok_promote [OF ix assms(2)]
      by (simp add: arc_hit_def Let_def arc_ok_def add_ref_def)
  next
    case False
    then show ?thesis using assms(1) idx_ok_replace [OF ix assms(2)]
      by (simp add: arc_hit_def Let_def arc_ok_def add_ref_def)
  qed
  show "cached (arc_hit i b a) k d = cached a k d"
    by (rule cached_replace [OF assms(2), where b' = "let b1 = add_ref (b\<lparr>ab_access_count := ab_access_count b + 1\<rparr>) in
      if ab_state b = Mru then b1\<lparr>ab_state := Mfu\<rparr> else b1"]) (simp_all add: arc_hit_def Let_def add_ref_def)
qed

lemma length_remove_at: "i < length xs \<Longrightarrow> length (remove_at i xs) = length xs - 1"
  by (simp add: remove_at_def)

lemma arc_miss_ok:
  assumes "arc_ok a"
  shows "arc_ok (arc_miss k a)" "cached (arc_miss k a) k' d = cached a k' d"
  using assms
  by (auto simp: arc_miss_def Let_def arc_ok_def cached_def remove_at_def find_idx_Some_iff split: option.split)

lemma arc_lookup_spec:
  assumes "arc_ok a"
  shows "arc_ok (fst (arc_lookup k a))" "cached (fst (arc_lookup k a)) k' d' = cached a k' d'"
    "snd (arc_lookup k a) = Some d \<longleftrightarrow> cached a k d"
proof -
  have ix: "idx_ok (hash_table a) (buffers a) (mru a) (mfu a)" using assms(1) by (simp add: arc_ok_def)
  let ?f = "List.find (holds_key a k) (hash_table a ! arc_bucket k)"
  have "arc_ok (fst (arc_lookup k a)) \<and> cached (fst (arc_lookup k a)) k' d' = cached a k' d' \<and>
      (snd (arc_lookup k a) = Some d \<longleftrightarrow> cached a k d)"
  proof (cases ?f)
    case None
    then have "\<not> cached a k d" by (intro not_cached [OF ix]) (auto simp: find_None_iff)
    then show ?thesis using None arc_miss_ok [OF assms] by (simp add: arc_lookup_def)
  next
    case (Some i)
    then have i: "i \<in> set (hash_table a ! arc_bucket k)" "holds_key a k i" by (auto simp: find_Some_iff)
    then obtain b where b: "slot (buffers a) i = Some b" "ab_key b = k" using holds_key_iff [OF ix i(1)] by auto
    have "cached a k d \<longleftrightarrow> ab_data b = d" using b idx_okD(6) [OF ix b(1)] unfolding cached_def by (metis option.inject)
    then show ?thesis using Some slot_nth [OF b(1)] arc_hit_ok [OF assms b(1)] by (simp add: arc_lookup_def)
  qed
  then show "arc_ok (fst (arc_lookup k a))" "cached (fst (arc_lookup k a)) k' d' = cached a k' d'"
    "snd (arc_lookup k a) = Some d \<longleftrightarrow> cached a k d" by auto
qed

lemma distinct_remove_at:
  assumes "distinct xs" "i < length xs"
  shows "distinct (remove_at i xs)" "set (remove_at i xs) = set xs - {xs ! i}"
proof -
  have eq: "xs = take i xs @ xs ! i # drop (Suc i) xs" using assms(2) by (rule id_take_nth_drop)
  have "distinct (take i xs @ xs ! i # drop (Suc i) xs)" using assms(1) eq by simp
  then show "distinct (remove_at i xs)" by (simp add: remove_at_def)
  have "set xs = set (take i xs) \<union> insert (xs ! i) (set (drop (Suc i) xs))" by (subst eq) simp
  then show "set (remove_at i xs) = set xs - {xs ! i}"
    using \<open>distinct (take i xs @ xs ! i # drop (Suc i) xs)\<close> by (auto simp: remove_at_def)
qed

lemma remove_key_spec:
  assumes "arc_ok a"
  shows "arc_ok (remove_key k a)" "cached (remove_key k a) k' d \<longleftrightarrow> k' \<noteq> k \<and> cached a k' d"
    "max_size (remove_key k a) = max_size a" "arc_p (remove_key k a) = arc_p a"
proof -
  have ix: "idx_ok (hash_table a) (buffers a) (mru a) (mfu a)" using assms(1) by (simp add: arc_ok_def)
  let ?l = "hash_table a ! arc_bucket k"
  have "arc_ok (remove_key k a) \<and> (cached (remove_key k a) k' d \<longleftrightarrow> k' \<noteq> k \<and> cached a k' d)"
  proof (cases "find_idx (holds_key a k) ?l")
    case None
    then have "\<not> cached a k d" for d by (intro not_cached [OF ix]) (auto simp: find_idx_None_iff)
    then show ?thesis using None assms by (auto simp: remove_key_def)
  next
    case (Some pos)
    let ?i = "?l ! pos"
    have pos: "pos < length ?l" "holds_key a k ?i" using find_idx_SomeD [OF Some] by auto
    then obtain b where b: "slot (buffers a) ?i = Some b" "ab_key b = k"
      using holds_key_iff [OF ix nth_mem [OF pos(1)]] by auto
    note da = distinct_remove_at [OF idx_okD(2) [OF ix, of "arc_bucket k"] pos(1)]
    have ok: "idx_ok ((hash_table a)[arc_bucket k := remove_at pos ?l]) ((buffers a)[?i := None])
        (filter (\<lambda>j. j \<noteq> ?i) (mru a)) (filter (\<lambda>j. j \<noteq> ?i) (mfu a))"
      using idx_ok_clear [OF ix b(1), of "remove_at pos ?l"] da b(2) by simp
    have le: "length (filter (\<lambda>j. j \<noteq> ?i) (mru a)) + length (filter (\<lambda>j. j \<noteq> ?i) (mfu a)) \<le> length (mru a) + length (mfu a)"
      by (intro add_mono length_filter_le)
    have "arc_ok (remove_key k a)" using ok le assms Some by (simp add: remove_key_def Let_def arc_ok_def)
    moreover have "cached (remove_key k a) k' d \<longleftrightarrow> k' \<noteq> k \<and> cached a k' d"
    proof -
      have "(\<exists>i b'. slot ((buffers a)[?i := None]) i = Some b' \<and> ab_key b' = k' \<and> ab_data b' = d) \<longleftrightarrow> k' \<noteq> k \<and> cached a k' d"
        using b idx_okD(6) [OF ix b(1)] unfolding cached_def slot_update [OF slot_Some_less [OF b(1)]]
        by (metis (no_types, lifting) option.distinct(1) option.inject)
      then show ?thesis using Some by (simp add: remove_key_def Let_def cached_def)
    qed
    ultimately show ?thesis by simp
  qed
  then show "arc_ok (remove_key k a)" "cached (remove_key k a) k' d \<longleftrightarrow> k' \<noteq> k \<and> cached a k' d" by auto
  show "max_size (remove_key k a) = max_size a" "arc_p (remove_key k a) = arc_p a"
    by (auto simp: remove_key_def Let_def split: option.split)
qed

text \<open>One round of eviction, and the state in which it changes nothing.\<close>

definition evict_round :: "HvArc \<Rightarrow> HvArc" where
  "evict_round a = trim_ghosts (if arc_p a < length (mru a) then evict_mru a else evict_mfu a)"

definition arc_stuck :: "HvArc \<Rightarrow> bool" where
  "arc_stuck a \<longleftrightarrow> length (mru a) = max_size a \<and> arc_p a = max_size a"

lemma evict_if_needed_unfold:
  "evict_if_needed a = (if max_size a < length (mru a) + length (mfu a) + 1 then evict_if_needed (evict_round a) else Some a)"
  by (subst evict_if_needed.simps) (simp add: evict_round_def)

lemma filter_fresh: "i \<notin> set xs \<Longrightarrow> filter (\<lambda>j. j \<noteq> i) xs = xs"
  by (auto simp: filter_id_conv)

lemma drop_buffer_ok:
  assumes "idx_ok (hash_table a) (buffers a) (mru a) (mfu a)" "slot (buffers a) i = Some b"
  shows "idx_ok (hash_table (drop_buffer i b a)) (buffers (drop_buffer i b a)) (filter (\<lambda>j. j \<noteq> i) (mru a)) (filter (\<lambda>j. j \<noteq> i) (mfu a))"
    "cached (drop_buffer i b a) k d \<Longrightarrow> cached a k d"
proof -
  show "idx_ok (hash_table (drop_buffer i b a)) (buffers (drop_buffer i b a)) (filter (\<lambda>j. j \<noteq> i) (mru a)) (filter (\<lambda>j. j \<noteq> i) (mfu a))"
    unfolding drop_buffer_def Let_def
    using idx_ok_clear [OF assms, of "filter (\<lambda>j. j \<noteq> i) (hash_table a ! arc_bucket (ab_key b))"]
      idx_okD(2) [OF assms(1), of "arc_bucket (ab_key b)"] by auto
  show "cached (drop_buffer i b a) k d \<Longrightarrow> cached a k d"
    using slot_update [OF slot_Some_less [OF assms(2)], of None]
    by (auto simp: drop_buffer_def Let_def cached_def split: if_splits)
qed

lemma evict_round_ok:
  assumes "arc_ok a" "length (mru a) + length (mfu a) = max_size a" "\<not> arc_stuck a"
  shows "arc_ok (evict_round a)" "length (mru (evict_round a)) + length (mfu (evict_round a)) < max_size a"
    "max_size (evict_round a) = max_size a" "cached (evict_round a) k d \<Longrightarrow> cached a k d"
proof -
  have ix: "idx_ok (hash_table a) (buffers a) (mru a) (mfu a)" using assms(1) by (simp add: arc_ok_def)
  note D = idx_okD [OF ix]
  have "arc_ok (evict_round a) \<and> length (mru (evict_round a)) + length (mfu (evict_round a)) < max_size a \<and>
    max_size (evict_round a) = max_size a \<and> (cached (evict_round a) k d \<longrightarrow> cached a k d)"
  proof (cases "arc_p a < length (mru a)")
    case True
    then obtain i rest where m: "mru a = i # rest" by (cases "mru a") auto
    then obtain b where b: "slot (buffers a) i = Some b" "ab_state b = Mru" using D(7) [of i] by auto
    have "i \<notin> set (mfu a)" using D(8) [of i] b by auto
    then have fl: "filter (\<lambda>j. j \<noteq> i) (mru a) = rest" "filter (\<lambda>j. j \<noteq> i) (mfu a) = mfu a"
      using D(3) m by (auto simp: filter_fresh)
    note dr = drop_buffer_ok [OF ix b(1), unfolded fl]
    show ?thesis
      using True dr(1) dr(2) [of k d] assms(1,2) m slot_nth [OF b(1)]
      by (auto simp: evict_round_def evict_mru_def trim_ghosts_def arc_ok_def cached_def drop_buffer_def Let_def)
  next
    case False
    then have "mfu a \<noteq> []" using assms by (auto simp: arc_stuck_def arc_ok_def)
    then obtain i rest where m: "mfu a = i # rest" by (cases "mfu a") auto
    then obtain b where b: "slot (buffers a) i = Some b" "ab_state b = Mfu" using D(8) [of i] by auto
    have "i \<notin> set (mru a)" using D(7) [of i] b by auto
    then have fl: "filter (\<lambda>j. j \<noteq> i) (mru a) = mru a" "filter (\<lambda>j. j \<noteq> i) (mfu a) = rest"
      using D(4) m by (auto simp: filter_fresh)
    note dr = drop_buffer_ok [OF ix b(1), unfolded fl]
    show ?thesis
      using False dr(1) dr(2) [of k d] assms(1,2) m slot_nth [OF b(1)]
      by (auto simp: evict_round_def evict_mfu_def trim_ghosts_def arc_ok_def cached_def drop_buffer_def Let_def)
  qed
  then show "arc_ok (evict_round a)" "length (mru (evict_round a)) + length (mfu (evict_round a)) < max_size a"
    "max_size (evict_round a) = max_size a" "cached (evict_round a) k d \<Longrightarrow> cached a k d" by auto
qed

lemma evict_round_stuck:
  assumes "arc_ok a" "arc_stuck a"
  shows "evict_round a = a"
proof -
  have "mfu a = []" using assms by (auto simp: arc_ok_def arc_stuck_def)
  then show ?thesis using assms by (simp add: evict_round_def evict_mfu_def trim_ghosts_def arc_ok_def arc_stuck_def)
qed

lemma evict_stuck:
  assumes "arc_ok a" "arc_stuck a"
  shows "evict_if_needed a = None"
proof (rule ccontr)
  assume "evict_if_needed a \<noteq> None"
  then obtain r where "evict_if_needed a = Some r" by blast
  then have "\<not> (arc_ok a \<and> arc_stuck a)"
  proof (rule evict_if_needed.raw_induct [where P = "\<lambda>a r. \<not> (arc_ok a \<and> arc_stuck a)", rotated])
    fix f x y
    assume IH: "\<And>a r. f a = Some r \<Longrightarrow> \<not> (arc_ok a \<and> arc_stuck a)"
      and step: "(if max_size x < length (mru x) + length (mfu x) + 1
        then f (trim_ghosts (if arc_p x < length (mru x) then evict_mru x else evict_mfu x)) else Some x) = Some y"
    show "\<not> (arc_ok x \<and> arc_stuck x)"
    proof
      assume h: "arc_ok x \<and> arc_stuck x"
      then have "f (evict_round x) = Some y"
        using step by (auto simp: evict_round_def arc_ok_def arc_stuck_def split: if_splits)
      then show False using IH [of x y] h evict_round_stuck [of x] by simp
    qed
  qed
  with assms show False by simp
qed

lemma evict_spec:
  assumes "arc_ok a" "\<not> arc_stuck a"
  obtains a' where "evict_if_needed a = Some a'" "arc_ok a'" "length (mru a') + length (mfu a') < max_size a'"
    "max_size a' = max_size a" "\<And>k d. cached a' k d \<Longrightarrow> cached a k d"
proof (cases "max_size a < length (mru a) + length (mfu a) + 1")
  case True
  then have full: "length (mru a) + length (mfu a) = max_size a" using assms(1) by (simp add: arc_ok_def)
  note ev = evict_round_ok [OF assms(1) full assms(2)]
  have "evict_if_needed a = Some (evict_round a)"
    using True ev(2,3) by (subst evict_if_needed_unfold, subst evict_if_needed_unfold) simp
  then show thesis using that ev by metis
next
  case False
  then have "evict_if_needed a = Some a" by (subst evict_if_needed_unfold) simp
  from that [OF this assms(1)] False show thesis by simp
qed

lemma place_buffer_spec:
  assumes "place_buffer buf a = (a', i)"
  shows "slot (buffers a) i = None" "slot (buffers a') i = Some buf" "\<And>j. j \<noteq> i \<Longrightarrow> slot (buffers a') j = slot (buffers a) j"
    "\<exists>bs. a' = a\<lparr>buffers := bs\<rparr>"
proof -
  show "slot (buffers a') j = slot (buffers a) j" if "j \<noteq> i" for j
    using assms that
    by (auto simp: place_buffer_def slot_def nth_append nth_list_update_if find_idx_Some_iff split: option.splits)
  show "slot (buffers a) i = None" "slot (buffers a') i = Some buf" "\<exists>bs. a' = a\<lparr>buffers := bs\<rparr>"
    using assms
    by (auto simp: place_buffer_def slot_def nth_append nth_list_update_if find_idx_Some_iff split: option.splits)
qed

lemma arc_insert_spec:
  assumes "arc_ok a" "\<not> arc_stuck (remove_key k a)"
  obtains a' where "arc_insert k dat t a = Some (a', Some dat)" "arc_ok a'" "cached a' k dat"
    "\<And>k' d. cached a' k' d \<Longrightarrow> k' = k \<and> d = dat \<or> k' \<noteq> k \<and> cached a k' d" "max_size a' = max_size a"
proof -
  note rk = remove_key_spec [OF assms(1), of k]
  from evict_spec [OF rk(1) assms(2)] obtain a1 where ev: "evict_if_needed (remove_key k a) = Some a1" "arc_ok a1"
    "length (mru a1) + length (mfu a1) < max_size a1" "max_size a1 = max_size (remove_key k a)"
    "\<And>k' d. cached a1 k' d \<Longrightarrow> cached (remove_key k a) k' d" by blast
  let ?buf = "(HvArcBuf_new k (length dat) t)\<lparr>ab_data := dat, ab_state := Mru\<rparr>"
  obtain a2 i where pb: "place_buffer ?buf a1 = (a2, i)" by fastforce
  note ps = place_buffer_spec [OF pb]
  obtain bs where a2: "a2 = a1\<lparr>buffers := bs\<rparr>" using ps(4) by blast
  have bsi: "slot bs i = Some ?buf" "\<And>j. j \<noteq> i \<Longrightarrow> slot bs j = slot (buffers a1) j" using ps(2,3) a2 by auto
  let ?b = "arc_bucket k"
  let ?ht = "(hash_table a1)[?b := hash_table a1 ! ?b @ [i]]"
  let ?bs = "bs[i := Some (add_ref ?buf)]"
  define a' where "a' = a1\<lparr>buffers := ?bs, hash_table := ?ht, mru := mru a1 @ [i], stats := count_insert (length dat) t (stats a1)\<rparr>"
  have ix1: "idx_ok (hash_table a1) (buffers a1) (mru a1) (mfu a1)" using ev(2) by (simp add: arc_ok_def)
  have fresh: "ab_key bj \<noteq> k" if "slot (buffers a1) j = Some bj" for j bj
    using that ev(5) [of k "ab_data bj"] rk(2) [of k "ab_data bj"] unfolding cached_def by blast
  have "idx_ok ?ht bs (mru a1 @ [i]) (mfu a1)"
    using idx_ok_fill [OF ix1 ps(1) bsi(1,2)] fresh by (simp add: HvArcBuf_new_def)
  from idx_ok_replace [OF this bsi(1), of "add_ref ?buf"] have ok: "arc_ok a'"
    using ev(2,3) by (simp add: a'_def arc_ok_def add_ref_def)
  have res: "arc_insert k dat t a = Some (a', Some dat)"
    using slot_nth [OF bsi(1)] by (simp add: arc_insert_def ev(1) pb a2 a'_def Let_def)
  note su = slot_update [OF slot_Some_less [OF bsi(1)], of "Some (add_ref ?buf)"]
  have sl: "slot ?bs i = Some (add_ref ?buf)" by (simp add: su)
  moreover have "ab_key (add_ref ?buf) = k" "ab_data (add_ref ?buf) = dat"
    by (simp_all add: add_ref_def HvArcBuf_new_def)
  ultimately have c: "cached a' k dat" unfolding cached_def a'_def by auto
  have "k' = k \<and> d = dat \<or> k' \<noteq> k \<and> cached a k' d" if "cached a' k' d" for k' d
  proof -
    from that obtain j bj where j: "slot ?bs j = Some bj" "ab_key bj = k'" "ab_data bj = d" by (auto simp: cached_def a'_def)
    show ?thesis
    proof (cases "j = i")
      case True
      then have "bj = add_ref ?buf" using j(1) by (simp add: su)
      then show ?thesis using j(2,3) by (auto simp: add_ref_def HvArcBuf_new_def)
    next
      case False
      then have "slot (buffers a1) j = Some bj" using j(1) bsi(2) by (simp add: su)
      then have "cached a1 k' d" using j(2,3) by (auto simp: cached_def)
      then show ?thesis using ev(5) rk(2) by blast
    qed
  qed
  moreover have "max_size a' = max_size a" using ev(4) rk(3) by (simp add: a'_def)
  ultimately show thesis using that res ok c by blast
qed

lemma update_slot_ok:
  assumes "arc_ok a" "\<And>b. ab_key (f b) = ab_key b \<and> ab_state (f b) = ab_state b \<and> ab_data (f b) = ab_data b"
  shows "arc_ok (update_slot f k a)" "cached (update_slot f k a) k' d = cached a k' d"
proof -
  have ix: "idx_ok (hash_table a) (buffers a) (mru a) (mfu a)" using assms(1) by (simp add: arc_ok_def)
  have "arc_ok (update_slot f k a) \<and> cached (update_slot f k a) k' d = cached a k' d"
  proof (cases "slot_of k a")
    case None
    then show ?thesis using assms(1) by (simp add: update_slot_def)
  next
    case (Some i)
    then obtain b where i: "i < length (buffers a)" "buffers a ! i = Some b"
      by (auto simp: slot_of_def find_idx_Some_iff split: option.splits)
    then have sl: "slot (buffers a) i = Some b" by (simp add: slot_def)
    have eq: "update_slot f k a = a\<lparr>buffers := (buffers a)[i := Some (f b)]\<rparr>"
      using Some i by (simp add: update_slot_def)
    show ?thesis
      using idx_ok_replace [OF ix sl, of "f b"] cached_replace [OF sl, of "f b" "update_slot f k a" k' d] assms eq
      by (simp add: arc_ok_def)
  qed
  then show "arc_ok (update_slot f k a)" "cached (update_slot f k a) k' d = cached a k' d" by auto
qed

lemma release_dirty_ok:
  assumes "arc_ok a"
  shows "arc_ok (arc_release k a)" "cached (arc_release k a) k' d = cached a k' d"
    "arc_ok (mark_dirty k a)" "cached (mark_dirty k a) k' d = cached a k' d"
  unfolding arc_release_def mark_dirty_def
  by (rule update_slot_ok [OF assms], simp add: buf_release_def)+

section \<open>Histories\<close>

text \<open>A history of the cache, with the data that was inserted last under each key.\<close>

inductive arc_reach :: "HvArc \<Rightarrow> (HvArcKey \<Rightarrow> u8 list option) \<Rightarrow> bool" where
  arc_start: "arc_reach HvArc_new Map.empty"
| arc_init: "arc_reach a ins \<Longrightarrow> arc_reach (arc_init n a) ins"
| arc_lookup: "arc_reach a ins \<Longrightarrow> arc_reach (fst (arc_lookup k a)) ins"
| arc_insert: "arc_reach a ins \<Longrightarrow> arc_insert k dat t a = Some (a', r) \<Longrightarrow> arc_reach a' (ins(k \<mapsto> dat))"
| arc_release: "arc_reach a ins \<Longrightarrow> arc_reach (arc_release k a) ins"
| arc_dirty: "arc_reach a ins \<Longrightarrow> arc_reach (mark_dirty k a) ins"

lemma idx_ok_empty: "length ht = HV_ARC_HASH_BUCKETS \<Longrightarrow> \<forall>l \<in> set ht. l = [] \<Longrightarrow> idx_ok ht [] [] []"
proof -
  assume a: "length ht = HV_ARC_HASH_BUCKETS" "\<forall>l \<in> set ht. l = []"
  then have "ht ! b = []" if "b < HV_ARC_HASH_BUCKETS" for b using that nth_mem [of b ht] by simp
  then show ?thesis using a(1) by (simp add: idx_ok_def slot_def)
qed

lemma insert_not_stuck:
  assumes "arc_ok a" "arc_insert k dat t a = Some r"
  shows "\<not> arc_stuck (remove_key k a)"
  using evict_stuck [OF remove_key_spec(1) [OF assms(1)], of k] assms(2) by (auto simp: arc_insert_def)

lemma arc_reach_ok: "arc_reach a ins \<Longrightarrow> arc_ok a \<and> (\<forall>k d. cached a k d \<longrightarrow> ins k = Some d)"
proof (induction rule: arc_reach.induct)
  case arc_start
  have "idx_ok (replicate HV_ARC_HASH_BUCKETS []) [] [] []" by (rule idx_ok_empty) auto
  then show ?case by (simp add: arc_ok_def HvArc_new_def HV_ARC_DEFAULT_SIZE_def cached_def slot_def)
next
  case (arc_init a ins n)
  have "length (hash_table a) = HV_ARC_HASH_BUCKETS" using arc_init.IH by (simp add: arc_ok_def idx_ok_def)
  then have "idx_ok (map (\<lambda>_. []) (hash_table a)) [] [] []" by (intro idx_ok_empty) auto
  then show ?case
    by (auto simp: arc_init_def Let_def arc_ok_def HV_ARC_DEFAULT_SIZE_def HV_ARC_MAX_SIZE_def cached_def slot_def)
next
  case (arc_lookup a ins k)
  then show ?case using arc_lookup_spec [of a] by blast
next
  case (arc_insert a ins k dat t a' r)
  have "\<not> arc_stuck (remove_key k a)" using insert_not_stuck arc_insert by blast
  from arc_insert_spec [OF conjunct1 [OF arc_insert.IH] this, of dat t] arc_insert.hyps(2)
  obtain "arc_ok a'" "\<And>k' d. cached a' k' d \<Longrightarrow> k' = k \<and> d = dat \<or> k' \<noteq> k \<and> cached a k' d"
    by (metis Pair_inject option.inject)
  then show ?case using arc_insert.IH by auto
next
  case (arc_release a ins k)
  then show ?case using release_dirty_ok(1,2) [of a] by blast
next
  case (arc_dirty a ins k)
  then show ?case using release_dirty_ok(3,4) [of a] by blast
qed

text \<open>A short run on a cache of three buffers that ends in a state whose next insertion does not return: two
  misses on evicted blocks raise the target to the full size while nothing is in the frequency list.\<close>

fun arc_calls :: "(bool \<times> HvArcKey) list \<Rightarrow> HvArc \<Rightarrow> HvArc option" where
  "arc_calls [] a = Some a"
| "arc_calls ((ins, k) # cs) a =
    (if ins then (case arc_insert k [] DataBuf a of Some (a', _) \<Rightarrow> arc_calls cs a' | None \<Rightarrow> None) else arc_calls cs (fst (arc_lookup k a)))"

lemma arc_calls_reach: "arc_reach a last_ins \<Longrightarrow> arc_calls cs a = Some a' \<Longrightarrow> \<exists>l. arc_reach a' l"
proof (induction cs a arbitrary: last_ins rule: arc_calls.induct)
  case (2 ins k cs a)
  show ?case
  proof (cases ins)
    case True
    with "2.prems"(2) obtain a1 r where i: "arc_insert k [] DataBuf a = Some (a1, r)" and c: "arc_calls cs a1 = Some a'"
      by (auto split: option.splits)
    from "2.IH"(1) [OF True i refl arc_reach.arc_insert [OF "2.prems"(1) i] c] show ?thesis .
  next
    case False
    then show ?thesis using "2.IH"(2) [OF False arc_reach.arc_lookup [OF "2.prems"(1)]] "2.prems"(2) by simp
  qed
qed auto

definition block :: "u64 \<Rightarrow> HvArcKey" where
  "block n = \<lparr>ak_vdev_id = 0, ak_offset = n, ak_birth_txg = 0\<rparr>"
lemma block_bucket:
  "arc_bucket (block 1) = 142" "arc_bucket (block 2) = 101" "arc_bucket (block 3) = 60" "arc_bucket (block 4) = 19"
  "arc_bucket (block 5) = 234" "arc_bucket (block 6) = 193" "arc_bucket (block 7) = 152" "arc_bucket (block 8) = 111"
  by (simp_all add: block_def arc_bucket_def arc_hash_def HV_ARC_HASH_BUCKETS_def)
lemma block_eq [simp]: "(block m = block n) = (m = n)" by (simp add: block_def)

lemmas run_simps = block_bucket arc_insert_def arc_lookup_def remove_key_def holds_key_def evict_if_needed_unfold
  evict_round_def evict_mru_def evict_mfu_def trim_ghosts_def drop_buffer_def place_buffer_def count_insert_def
  arc_miss_def ghost_delta_def remove_at_def HvArcBuf_new_def add_ref_def arc_init_def HvArc_new_def HV_ARC_MAX_SIZE_def
  HV_ARC_HASH_BUCKETS_def Let_def

lemma arc_hang_run:
  obtains a where "arc_calls (map (\<lambda>n. (True, block n)) [1, 2, 3, 4, 5, 6] @ [(False, block 1), (True, block 7), (False, block 2)])
      (arc_init 3 HvArc_new) = Some a" "length (mru (remove_key (block 8) a)) = max_size a" "arc_p a = max_size a"
  by (simp add: run_simps)

section \<open>Properties\<close>

text \<open>C29: A hit returns the data inserted last under the key, and data just inserted is found again.\<close>

theorem arc_coherent:
  assumes "arc_reach a ins"
  shows "(snd (arc_lookup k a) = Some d \<longrightarrow> ins k = Some d) \<and>
    (arc_insert k dat t a = Some (a', r) \<longrightarrow> r = Some dat \<and> snd (arc_lookup k a') = Some dat)"
proof (intro conjI impI)
  note ok = arc_reach_ok [OF assms]
  show "ins k = Some d" if "snd (arc_lookup k a) = Some d" using that ok arc_lookup_spec(3) [of a k d] by blast
  assume i: "arc_insert k dat t a = Some (a', r)"
  from arc_insert_spec [OF conjunct1 [OF ok] insert_not_stuck [OF conjunct1 [OF ok] i], of dat t] i
  have "r = Some dat" "arc_ok a'" "cached a' k dat" by (metis Pair_inject option.inject)+
  then show "r = Some dat" "snd (arc_lookup k a') = Some dat" using arc_lookup_spec(3) by blast+
qed

theorem arc_coherent_witness:
  "\<exists>a' r. arc_insert (block 1) [1] DataBuf (arc_init 3 HvArc_new) = Some (a', r) \<and> r = Some [1] \<and>
    snd (arc_lookup (block 1) a') = Some [1]"
proof -
  have "\<exists>a' r. arc_insert (block 1) [1] DataBuf (arc_init 3 HvArc_new) = Some (a', r)" by (simp add: run_simps)
  then obtain a' r where i: "arc_insert (block 1) [1] DataBuf (arc_init 3 HvArc_new) = Some (a', r)" by blast
  with arc_coherent [OF arc_reach.arc_init [OF arc_start, of 3], of "block 1" "[1]" "[1]" DataBuf a' r] show ?thesis by blast
qed

text \<open>C30: An insertion returns exactly when the recency list does not fill the cache with the target size at its maximum;
  in that one state the eviction loop makes no progress and runs forever with the lock held.\<close>

theorem arc_insert_returns:
  assumes "arc_reach a ins"
  shows "(\<exists>r. arc_insert k dat t a = Some r) \<longleftrightarrow>
    \<not> (length (mru (remove_key k a)) = max_size a \<and> arc_p a = max_size a)"
proof -
  have ok: "arc_ok a" using arc_reach_ok [OF assms] by blast
  have "(\<exists>r. arc_insert k dat t a = Some r) \<longleftrightarrow> \<not> arc_stuck (remove_key k a)"
    using insert_not_stuck [OF ok, of k dat t] arc_insert_spec [OF ok, of k dat t] by blast
  then show ?thesis using remove_key_spec(3,4) [OF ok] by (simp add: arc_stuck_def)
qed

theorem arc_insert_returns_witness:
  "(\<exists>r. arc_insert (block 8) [1] DataBuf (arc_init 3 HvArc_new) = Some r) \<and>
   (\<exists>a ins. arc_reach a ins \<and> arc_insert (block 8) [1] DataBuf a = None)"
proof
  show "\<exists>r. arc_insert (block 8) [1] DataBuf (arc_init 3 HvArc_new) = Some r"
    using arc_insert_returns [OF arc_reach.arc_init [OF arc_start, of 3], of "block 8" "[1]" DataBuf] by (simp add: run_simps)
  obtain a where a: "arc_calls (map (\<lambda>n. (True, block n)) [1, 2, 3, 4, 5, 6] @ [(False, block 1), (True, block 7), (False, block 2)])
      (arc_init 3 HvArc_new) = Some a" "length (mru (remove_key (block 8) a)) = max_size a" "arc_p a = max_size a"
    by (rule arc_hang_run)
  then obtain ins where "arc_reach a ins" using arc_calls_reach [OF arc_reach.arc_init [OF arc_start]] by blast
  then show "\<exists>a ins. arc_reach a ins \<and> arc_insert (block 8) [1] DataBuf a = None"
    using arc_insert_returns [of a ins "block 8" "[1]" DataBuf] a(2,3) by (metis option.exhaust)
qed

end
