(* ===== verification/Spec2Isabelle.thy ===== *)
theory Spec2Isabelle
  imports File_Locks Fd_Alloc Cgroup Ebpf_Props Leb128 Seccomp Pipe Msgq
    Hv_Compress Hv_Txg Hv_Zil Hv_Zap Hv_Dedup Hv_Store Sched Semaphore Shm Rlimit
    User_Mem Wasm_Safety Credo_Grants Credo_Sessions Hv_Raidz
    Lockdep Mmap Hv_Arc
begin

text \<open>
  \<^bold>\<open>Verification of the policy layer of the QueenX kernel.\<close>

  QueenX is a kernel in Rust, split in two: the framework (\<^verbatim>\<open>src/src/kernel/framework\<close>) is the trusted
  base that may use unsafe code, the services (\<^verbatim>\<open>src/src/kernel/services\<close>) hold the policies in
  safe Rust.  The policies are mostly state machines over tables of a fixed size that run under a
  spin lock, so a run of a component is a sequence of its calls.  This development models the
  policies of its subsystems from the source and proves what makes them correct.

  \<^bold>\<open>Conventions.\<close>  Machine integers are words and wrap around (the kernel is built with the release
  profile); where the source uses saturating or checked arithmetic, the functions of \<open>Prelude\<close> do.
  A struct is a record, an enum a datatype, a fixed array a list of its length, a \<^verbatim>\<open>BTreeMap\<close> a sorted
  association list (\<open>BTree\<close>).  \<^verbatim>\<open>Result\<close> is a sum with the error on the left, \<^verbatim>\<open>Option\<close> is \<open>option\<close>.  A
  function that can panic (an index or slice out of range, a use of a pointer to memory that is
  not allocated) returns \<open>Panic\<close> or \<open>Ret\<close> its value.  State is passed explicitly; effects outside the
  component (signals sent, processes woken, tracer calls) are returned as lists.  The process id of the
  caller, the interrupt context, the clock and the memory allocator are arguments.

  \<^bold>\<open>Components and theories.\<close>

  \<^item> \<open>Prelude\<close>: words, saturating and checked arithmetic, byte conversions, search loops with an early
    return, \<^verbatim>\<open>Vec::swap_remove\<close>, and the locale \<open>slot_table\<close> of tables whose entries carry their own
    validity mark.  \<open>BTree\<close>: the ordered map, with the locale \<open>finite_map\<close>.  \<open>Lock_Table\<close>: the locale
    \<open>lock_table\<close> of tables of locks with a conflict relation.  \<open>Channel\<close>: the locale \<open>channel\<close> of
    first-in first-out channels, with the order of delivery proved once for every provider.
  \<^item> \<open>Flock\<close>, \<open>Posix_Lock\<close>, \<open>File_Locks\<close>: \<^verbatim>\<open>services/fs/flock.rs\<close>.  The table of \<^verbatim>\<open>flock(2)\<close> locks and the table
    of POSIX record locks, every public function, the counters.  In every reachable state exclusive
    locks exclude the locks of other processes, byte by byte for record locks; \<^verbatim>\<open>sys_flock\<close> refines
    the specification on the map of held locks; the saturating overlap test decides overlap;
    process exit releases exactly the locks of the process.
  \<^item> \<open>Fd_Alloc\<close>: \<^verbatim>\<open>services/proc/fd_alloc.rs\<close>.  The plan that maps the descriptors of seven subsystems to
    ranges is a bijection; the bitmap allocator takes the lowest free slot and frees what it
    took.  The allocator is also modelled one atomic access at a time; alone it computes the
    whole function.
  \<^item> \<open>Ebpf_Map\<close>, \<open>Ebpf\<close>, \<open>Ebpf_Verifier\<close>, \<open>Ebpf_Range\<close>, \<open>Ebpf_Sys\<close>, \<open>Ebpf_Props\<close>: \<^verbatim>\<open>framework/debug/ebpf.rs\<close> and
    \<^verbatim>\<open>services/debug/ebpf_verifier.rs\<close>.  Maps, instruction set, helpers, interpreter, verifier,
    the subsystem and the system call.  A program that the verifier accepted never makes the
    interpreter panic; accepted programs without backward jumps return; maps refine finite maps; the
    verifier's constants hold of the machine registers.
  \<^item> \<open>Cgroup_Ctrl\<close>, \<open>Cgroup\<close>: \<^verbatim>\<open>services/proc/cgroup.rs\<close>.  Controllers, tree of groups, system calls.  The groups
    form a tree of bounded depth with consistent links, a process is in at most one group, and
    concurrent memory charges, interleaved at each atomic access, stay within the limit.
  \<^item> \<open>Leb128\<close>, \<open>Wasm_Types\<close>, \<open>Wasm_Module\<close>, \<open>Wasm_Codec\<close>, \<open>Wasm_Runtime\<close>, \<open>Wasm_Interp\<close>, \<open>Wasm_Exec\<close>, \<open>Wasm_Safety\<close>:
    \<^verbatim>\<open>services/wasm\<close> (\<^verbatim>\<open>leb128.rs\<close>, \<^verbatim>\<open>types.rs\<close>, \<^verbatim>\<open>module.rs\<close>, \<^verbatim>\<open>runtime.rs\<close>, \<^verbatim>\<open>interpreter.rs\<close>).  The number readers invert the
    LEB128 format and never leave the input; the decoder inverts an encoder of the binary format; the
    linear memory refines a finite map of bytes; a round of the interpreter keeps the bounds on stack,
    memory and gas and panics at one instruction only; the main loop ends, the loop before it does not.
  \<^item> \<open>Errno\<close>: \<^verbatim>\<open>framework/errno.rs\<close>.  The error numbers and their decoders.
  \<^item> \<open>Seccomp\<close>: \<^verbatim>\<open>services/proc/seccomp.rs\<close> and the inheritance in \<^verbatim>\<open>sys_fork\<close>.  A refused call stays refused
    for the process and its descendants; the verdict on every branch.
  \<^item> \<open>Wait_Queue\<close>, \<open>Pipe\<close>, \<open>Msgq\<close>: \<^verbatim>\<open>services/ipc/types.rs\<close>, \<^verbatim>\<open>scheduler_integration.rs\<close>, \<^verbatim>\<open>pipe.rs\<close> and \<^verbatim>\<open>msgq.rs\<close>.  No
    waiter of a queue is lost or woken twice; a pipe (a ring buffer) and a message queue (a linked list in
    a heap) deliver in order what was put in; the lists are memory safe and leak free.
  \<^item> \<open>Semaphore\<close>, \<open>Shm\<close>: \<^verbatim>\<open>services/ipc/sem.rs\<close> and \<^verbatim>\<open>shm.rs\<close>.  No wake-up of a semaphore is lost and no more takes
    succeed than there were units; shared pages are accounted for and each attachment is counted.
  \<^item> \<open>Sched\<close>: \<^verbatim>\<open>services/proc/sched_policy.rs\<close>.  The fair policy picks a runnable process of least virtual time and
    starves none; the deadline policy admits within its bandwidth.
  \<^item> \<open>Rlimit\<close>, \<open>User_Mem\<close>: \<^verbatim>\<open>services/proc/rlimit.rs\<close>, \<^verbatim>\<open>framework/proc/rlimit.rs\<close> and the range checks of user pointers.  Limits
    are well typed in every reachable state and an unprivileged process never raises a hard limit.
  \<^item> \<open>Hv_Bp\<close>, \<open>Hv_Compress\<close>, \<open>Hv_Metaslab\<close>, \<open>Hv_Txg\<close>, \<open>Hv_Zil\<close>, \<open>Hv_Zap\<close>, \<open>Hv_Checksum\<close>, \<open>Hv_Dedup\<close>, \<open>Hv_Vdev\<close>, \<open>Hv_Spa\<close>:
    the lower layers of the file system HVFS, one theory per file of \<^verbatim>\<open>services/fs/hvfs\<close> (\<^verbatim>\<open>bp.rs\<close>, \<^verbatim>\<open>compress.rs\<close>,
    \<^verbatim>\<open>metaslab.rs\<close>, \<^verbatim>\<open>txg.rs\<close>, \<^verbatim>\<open>zil.rs\<close>, \<^verbatim>\<open>zap.rs\<close>, \<^verbatim>\<open>checksum.rs\<close>, \<^verbatim>\<open>dedup.rs\<close>, \<^verbatim>\<open>vdev.rs\<close>, \<^verbatim>\<open>spa.rs\<close>).  Block pointers
    and uberblocks are read back from their bytes; decompression inverts compression; a metaslab hands out
    disjoint regions, first fit; dirty blocks reach the syncing transaction group after two transitions;
    the intent log, attribute tables and reference counts refine an abstract log, map and count; checksums
    detect every corruption of one word.  \<open>Hv_Pool\<close> and \<open>Hv_Store\<close> compose them: in every history of a pool,
    allocated blocks do not overlap on the disks and a read returns what was last written.
  \<^item> \<open>Utf8\<close>: the UTF-8 check of the Rust library that attribute names and import names go through.
  \<^item> \<open>Gf256\<close>, \<open>Hv_Raidz\<close>: \<^verbatim>\<open>services/fs/hvfs/raidz.rs\<close>.  The field tables are those of GF(256); the parity that is written
    passes the check and every corruption of one byte fails it; the coefficients leave double failures
    ambiguous, and reconstruction of a parity column panics.
  \<^item> \<open>Hv_Arc\<close>: \<^verbatim>\<open>services/fs/hvfs/arc.rs\<close>.  The lists and the hash table of the buffer cache stay consistent, a hit returns the
    data inserted last, the cache keeps its size, and an insertion returns except in one reachable state.
  \<^item> \<open>Vma\<close>, \<open>Mmap\<close>: \<^verbatim>\<open>framework/mm/vma.rs\<close> and the memory calls of \<^verbatim>\<open>services/mm\<close> (\<^verbatim>\<open>mmap.rs\<close>, \<^verbatim>\<open>mprotect.rs\<close>, \<^verbatim>\<open>mremap.rs\<close>,
    \<^verbatim>\<open>brk.rs\<close>, \<^verbatim>\<open>madvise_mlock.rs\<close>).  The areas of an address space stay disjoint and in order; mapping, unmapping and
    protection change exactly the addresses they name (the locale \<open>range_op\<close> holds the argument that the three
    range operations share); locked memory stays within its limit.
  \<^item> \<open>Lockdep\<close>: \<^verbatim>\<open>framework/sync/lockdep.rs\<close>.  The checker reports a deadlock if and only if the observed nesting of
    lock classes has a cycle; its search terminates and decides reachability.
  \<^item> \<open>Kernel_Error\<close>, \<open>Credo_Policy\<close>, \<open>Credo_Grants\<close>, \<open>Credo_Sessions\<close>: \<^verbatim>\<open>framework/error.rs\<close> and \<^verbatim>\<open>policy.rs\<close>,
    \<^verbatim>\<open>grants.rs\<close>, \<^verbatim>\<open>sessions.rs\<close> of \<^verbatim>\<open>services/credo\<close>.  The verdict of the policy engine; concurrent updates of a capability matrix
    take effect in some order; delegation never amplifies the capabilities of the principals together; a
    revocation takes exactly the grants derived from it; the outcome of a login on every branch.
  \<^item> \<open>Sha256\<close>: \<^verbatim>\<open>services/credo/sha256.rs\<close>.  The streaming hash equals the definition of the standard.

  \<^bold>\<open>Interaction.\<close>  Pipes and message queues use the wait queues and share the channel contract; the
  seccomp check runs before the dispatch of each call and returns error numbers; control groups and seccomp
  state follow a process through fork and exit; the eBPF system call runs the verifier before it
  stores a program, and the interpreter relies on it.  A storage pool allocates from its metaslabs, which
  lie on its devices, names the regions by block pointers and moves data through the devices; uberblocks
  carry a checksum and share the first device with the data; checksums and deduplication hash with SHA-256.
  Semaphores block and wake through the wait queues; the limit calls read and write user memory after its
  range check; the WebAssembly interpreter runs what the decoder produced.  Delegations and logins go through
  the policy engine; RAID-Z works on units of the block size of the pool; locking memory asks the
  resource limits.

  \<^bold>\<open>Bounds and fuel.\<close>  Only the eBPF interpreter loop has fuel, since accepted programs may loop: the safety
  theorem holds for every amount, and the termination theorem shows that as many steps as the program
  has instructions are enough for programs without backward jumps.  The two loops of the WebAssembly interpreter are partial
  functions; gas bounds the main loop for every limit below the largest \<^verbatim>\<open>u64\<close>.  The retry loop of the capability
  matrix, the walk over derived grants and the page loops of the address spaces are partial functions too, shown to return; the eviction loop of the buffer cache
  is one for which the states without a result are characterised; generations and
  session numbers are assumed not to have wrapped around (fewer than \<open>2\<^sup>3\<^sup>2 - 1\<close> grants or logins).  All other loops are total
  functions.  Table sizes are those of the source.  The histories of a pool assume devices of less than
  \<open>2\<^sup>5\<^sup>5\<close> bytes on drives of their own, which keeps the sector arithmetic of \<^verbatim>\<open>add_vdev\<close> from wrapping around; the round
  trip of the LZ4 coder assumes at most 65536 bytes, the window for which its offsets fit in 16 bits.

  \<^bold>\<open>Not modelled.\<close>  Hardware access, assembly, page tables, page frames, drivers, the vendored network stack, system call
  marshalling from user pointers, log output, the block driver below HVFS (a map from sectors to bytes
  stands for it), and the parts of the services listed as such in the
  manifest.  Weak memory effects are outside the model: every step under a lock is atomic, and
  \<open>charge_step\<close> treats the atomics of the memory controller one access at a time.
\<close>

end
